(* ===== verification/Prelude.thy ===== *)
theory Prelude
  imports Main "HOL-Library.Word"
begin

text \<open>
  Shared vocabulary of the development: machine integers and byte buffers, the error results
  of the C++ code (\<^verbatim>\<open>DB_RAISE\<close>, \<^verbatim>\<open>DB_CRITICAL\<close>, \<^verbatim>\<open>DB_CRASH\<close>), little and big endian field
  access, \<^verbatim>\<open>memcpy\<close> on a buffer, and the generic lemmas the component theories use.
\<close>

unbundle bit_operations_syntax

named_theorems res_simps \<open>rewriting of results of fallible code\<close>
named_theorems buf_simps \<open>reading a byte buffer after a write\<close>

section \<open>Machine integers\<close>

type_synonym byte = "8 word"
type_synonym u8 = "8 word"
type_synonym u16 = "16 word"
type_synonym u32 = "32 word"
type_synonym u64 = "64 word"

text \<open>\<^verbatim>\<open>int64_t\<close>: the two's complement reading \<^verbatim>\<open>sint\<close> of 64 bits.\<close>
type_synonym i64 = "64 word"

type_synonym bytes = "byte list"

section \<open>Errors\<close>

text \<open>\<^verbatim>\<open>db::ErrCode\<close> of common/err.h, in source order.\<close>

datatype err_code =
    IoError | CatalogMissing | CatalogExists | InvalidType | TableNotFound | TableExists
  | SchemaNotFound | SchemaExists | SchemaNotEmpty | IndexExists | IndexNotFound
  | ProtectedTable | InvalidDdl | ValueMismatch | RecordTooLong | ArithError | UnknownColumn
  | UnknownVar | UnknownFunction | InvalidVarValue | UnknownStmt | NotImplemented | Internal
  | SyntaxError | TxnActive | NoActiveTxn | DdlInTxn | BootstrapMode | TooManyClients
  | StarNoFrom

text \<open>
  The three ways a call can end without a value: \<^verbatim>\<open>DB_RAISE\<close> throws a \<^verbatim>\<open>DbError\<close> that
  carries a code, \<^verbatim>\<open>DB_CRITICAL\<close> exits the process, \<^verbatim>\<open>DB_CRASH\<close> aborts it.
\<close>

datatype failure = Raise err_code | Critical | Crash

type_synonym 'a res = "failure + 'a"

definition rbind :: "'a res \<Rightarrow> ('a \<Rightarrow> 'b res) \<Rightarrow> 'b res" where
  "rbind m f = (case m of Inl e \<Rightarrow> Inl e | Inr x \<Rightarrow> f x)"

lemma rbind_Inl [simp, res_simps]: "rbind (Inl e) f = Inl e"
  by (simp add: rbind_def)

lemma rbind_Inr [simp, res_simps]: "rbind (Inr x) f = f x"
  by (simp add: rbind_def)

lemma rbind_eq_Inr [res_simps]: "rbind m f = Inr y \<longleftrightarrow> (\<exists>x. m = Inr x \<and> f x = Inr y)"
  by (cases m) auto

lemma rbind_eq_Inl [res_simps]:
  "rbind m f = Inl e \<longleftrightarrow> m = Inl e \<or> (\<exists>x. m = Inr x \<and> f x = Inl e)"
  by (cases m) auto

lemma rbind_cong [fundef_cong]:
  "m = n \<Longrightarrow> (\<And>x. n = Inr x \<Longrightarrow> f x = g x) \<Longrightarrow> rbind m f = rbind n g"
  by (cases n) auto

lemma rbind_assoc: "rbind (rbind m f) g = rbind m (\<lambda>x. rbind (f x) g)"
  by (cases m) auto

lemma rbind_return [simp]: "rbind m Inr = m"
  by (cases m) auto

text \<open>A loop over a vector that stops at the first error.\<close>

fun map_res :: "('a \<Rightarrow> 'b res) \<Rightarrow> 'a list \<Rightarrow> 'b list res" where
  "map_res f [] = Inr []"
| "map_res f (x # xs) = rbind (f x) (\<lambda>y. rbind (map_res f xs) (\<lambda>ys. Inr (y # ys)))"

lemma map_res_cong [fundef_cong]:
  "xs = ys \<Longrightarrow> (\<And>x. x \<in> set ys \<Longrightarrow> f x = g x) \<Longrightarrow> map_res f xs = map_res g ys"
  by (induction ys arbitrary: xs) auto

lemma map_res_length: "map_res f xs = Inr ys \<Longrightarrow> length ys = length xs"
  by (induction xs arbitrary: ys) (auto simp: res_simps)

lemma map_res_nth: "map_res f xs = Inr ys \<Longrightarrow> i < length xs \<Longrightarrow> f (xs ! i) = Inr (ys ! i)"
  by (induction xs arbitrary: ys i) (auto simp: res_simps nth_Cons split: nat.splits)

lemma map_res_all_Inr: "(\<And>x. x \<in> set xs \<Longrightarrow> f x = Inr (g x)) \<Longrightarrow> map_res f xs = Inr (map g xs)"
  by (induction xs) auto

lemma map_res_list_all2:
  "map_res f xs = Inr ys \<longleftrightarrow> list_all2 (\<lambda>x y. f x = Inr y) xs ys"
proof (induction xs arbitrary: ys)
  case Nil
  then show ?case by auto
next
  case (Cons x xs)
  then show ?case by (cases ys) (auto simp: res_simps)
qed

section \<open>Byte buffers\<close>

text \<open>
  \<^verbatim>\<open>put_at off bs buf\<close> is \<^verbatim>\<open>memcpy (buf + off, bs, size)\<close>, \<^verbatim>\<open>get_at off n buf\<close> the
  \<^verbatim>\<open>n\<close> bytes read at \<^verbatim>\<open>buf + off\<close>. Both are used within the buffer only; the
  lemmas carry that bound.
\<close>

definition get_at :: "nat \<Rightarrow> nat \<Rightarrow> 'a list \<Rightarrow> 'a list" where
  "get_at off n buf = take n (drop off buf)"

definition put_at :: "nat \<Rightarrow> 'a list \<Rightarrow> 'a list \<Rightarrow> 'a list" where
  "put_at off bs buf = take off buf @ bs @ drop (off + length bs) buf"

lemma length_get_at [buf_simps]: "off + n \<le> length buf \<Longrightarrow> length (get_at off n buf) = n"
  by (simp add: get_at_def)

lemma length_put_at [buf_simps]:
  "off + length bs \<le> length buf \<Longrightarrow> length (put_at off bs buf) = length buf"
  by (simp add: put_at_def)

lemma nth_put_at:
  "off + length bs \<le> length buf \<Longrightarrow> i < length buf \<Longrightarrow>
   put_at off bs buf ! i = (if off \<le> i \<and> i < off + length bs then bs ! (i - off) else buf ! i)"
  by (auto simp: put_at_def nth_append not_less min_def)

lemma nth_get_at: "off + n \<le> length buf \<Longrightarrow> i < n \<Longrightarrow> get_at off n buf ! i = buf ! (off + i)"
  by (simp add: get_at_def)

lemma get_put_same [buf_simps]:
  "off + length bs \<le> length buf \<Longrightarrow> n = length bs \<Longrightarrow> get_at off n (put_at off bs buf) = bs"
  by (simp add: get_at_def put_at_def min_def)

lemma get_put_disjoint [buf_simps]:
  assumes "off + length bs \<le> length buf" and "o2 + n \<le> length buf"
    and "o2 + n \<le> off \<or> off + length bs \<le> o2"
  shows "get_at o2 n (put_at off bs buf) = get_at o2 n buf"
proof (rule nth_equalityI)
  show "length (get_at o2 n (put_at off bs buf)) = length (get_at o2 n buf)"
    using assms by (simp add: buf_simps)
next
  fix i
  assume "i < length (get_at o2 n (put_at off bs buf))"
  then have i: "i < n" using assms by (simp add: buf_simps)
  then show "get_at o2 n (put_at off bs buf) ! i = get_at o2 n buf ! i"
    using assms by (auto simp: nth_get_at nth_put_at buf_simps)
qed

lemma put_put_same:
  "length bs = length cs \<Longrightarrow> off + length bs \<le> length buf \<Longrightarrow>
   put_at off cs (put_at off bs buf) = put_at off cs buf"
  by (rule nth_equalityI) (auto simp: length_put_at nth_put_at)

lemma put_get_same: "off + n \<le> length buf \<Longrightarrow> put_at off (get_at off n buf) buf = buf"
  by (rule nth_equalityI) (auto simp: buf_simps nth_put_at nth_get_at)

lemma get_at_append_right [buf_simps]:
  "off = length xs + k \<Longrightarrow> get_at off n (xs @ ys) = get_at k n ys"
  by (simp add: get_at_def)

lemma get_at_append_exact [buf_simps]: "n = length ys \<Longrightarrow> get_at 0 n (ys @ zs) = ys"
  by (simp add: get_at_def)

section \<open>Little and big endian fields\<close>

lemma unat_byte_less [simp]: "unat (b :: byte) < 256"
proof -
  have "unat b < 2 ^ LENGTH(8)" by (rule unsigned_less)
  then show ?thesis by simp
qed

fun le_bytes :: "nat \<Rightarrow> nat \<Rightarrow> bytes" where
  "le_bytes 0 v = []"
| "le_bytes (Suc n) v = word_of_nat v # le_bytes n (v div 256)"

fun le_val :: "bytes \<Rightarrow> nat" where
  "le_val [] = 0"
| "le_val (b # bs) = unat b + 256 * le_val bs"

lemma length_le_bytes [simp]: "length (le_bytes n v) = n"
  by (induction n arbitrary: v) auto

lemma le_val_bytes: "le_val (le_bytes n v) = v mod 256 ^ n"
proof (induction n arbitrary: v)
  case 0
  then show ?case by simp
next
  case (Suc n)
  have "v mod (256 * 256 ^ n) = 256 * (v div 256 mod 256 ^ n) + v mod 256"
    by (rule mod_mult2_eq)
  then show ?case using Suc by (simp add: unat_of_nat)
qed

lemma le_val_bytes_id [simp]: "v < 256 ^ n \<Longrightarrow> le_val (le_bytes n v) = v"
  by (simp add: le_val_bytes)

lemma le_val_less: "le_val bs < 256 ^ length bs"
proof (induction bs)
  case Nil
  then show ?case by simp
next
  case (Cons b bs)
  have "unat b < 256" by simp
  with Cons have "unat b + 256 * le_val bs < 256 * (le_val bs + 1)" by simp
  also have "\<dots> \<le> 256 * 256 ^ length bs"
    using Cons by (intro mult_le_mono) auto
  finally show ?case by simp
qed

lemma le_bytes_val: "le_bytes (length bs) (le_val bs) = bs"
proof (induction bs)
  case Nil
  then show ?case by simp
next
  case (Cons b bs)
  have "unat b < 256" by simp
  then have 1: "(unat b + 256 * le_val bs) div 256 = le_val bs" by simp
  have 2: "(word_of_nat (unat b + 256 * le_val bs) :: byte) = b"
    unfolding word_unat_eq_iff unat_of_nat using \<open>unat b < 256\<close> by simp
  show ?case using Cons 1 2 by simp
qed

lemma le_val_inj: "length xs = length ys \<Longrightarrow> le_val xs = le_val ys \<longleftrightarrow> xs = ys"
  by (metis le_bytes_val)

lemma le_val_append: "le_val (xs @ ys) = le_val xs + 256 ^ length xs * le_val ys"
  by (induction xs) (auto simp: algebra_simps)

abbreviation be_bytes :: "nat \<Rightarrow> nat \<Rightarrow> bytes" where
  "be_bytes n v \<equiv> rev (le_bytes n v)"

abbreviation be_val :: "bytes \<Rightarrow> nat" where
  "be_val bs \<equiv> le_val (rev bs)"

section \<open>Characters\<close>

text \<open>A \<^verbatim>\<open>char\<close> of a \<^verbatim>\<open>std::string\<close> as the byte that holds it, and back.\<close>

definition byte_of_char :: "char \<Rightarrow> byte" where
  "byte_of_char c = word_of_nat (of_char c)"

definition char_of_byte :: "byte \<Rightarrow> char" where
  "char_of_byte b = char_of (unat b)"

lemma char_byte_inverse [simp]: "char_of_byte (byte_of_char c) = c"
  by (simp add: char_of_byte_def byte_of_char_def unat_of_nat)

lemma map_char_byte_inverse [simp]: "map char_of_byte (map byte_of_char s) = s"
  by (induction s) auto

lemma char_byte_comp [simp]: "char_of_byte \<circ> byte_of_char = id"
  by auto

end
