(* ===== verification/Types.thy ===== *)
theory Types
  imports Prelude
begin

text \<open>
  The value and schema types of src/storage/types.h: type attributes and the built-in type
  seeds, column specifications, fixed-point decimals, row values and row locations.
  Floating-point payloads are kept as their IEEE-754 bit patterns (theory Ieee reads them).
\<close>

section \<open>Type attributes\<close>

definition PAGE_SIZE :: nat where
  "PAGE_SIZE = 4096"

datatype page_type = FileHeader | Heap | BTreeLeaf | BTreeInternal

fun page_type_code :: "page_type \<Rightarrow> u8" where
  "page_type_code FileHeader = 1"
| "page_type_code Heap = 2"
| "page_type_code BTreeLeaf = 3"
| "page_type_code BTreeInternal = 4"

datatype family = FamNone | FamNum | FamText | FamBool

datatype rep = RepNone | RepInt64 | RepFloat | RepDouble | RepStr | RepBool | RepDec

datatype store = StoreNone | StoreFixed | StoreCharPad | StoreVarLen | StoreDecimal

text \<open>\<^verbatim>\<open>TypeAttr\<close>: the columns of a db_type row that travel with columns and values.\<close>

record type_attr =
  attr_id :: u16
  attr_family :: family
  attr_rank :: u8
  attr_rep :: rep
  attr_store :: store
  attr_width :: u8

definition no_type :: type_attr where
  "no_type = \<lparr>attr_id = 0, attr_family = FamNone, attr_rank = 0, attr_rep = RepNone,
              attr_store = StoreNone, attr_width = 0\<rparr>"

record type_seed =
  seed_attr :: type_attr
  seed_name :: string
  seed_alias :: "string option"
  seed_len_allowed :: bool
  seed_len_default :: u16
  seed_len_max :: u16
  seed_scale_allowed :: bool

definition mk_attr :: "u16 \<Rightarrow> family \<Rightarrow> u8 \<Rightarrow> rep \<Rightarrow> store \<Rightarrow> u8 \<Rightarrow> type_attr" where
  "mk_attr i f r p s w = \<lparr>attr_id = i, attr_family = f, attr_rank = r, attr_rep = p,
                          attr_store = s, attr_width = w\<rparr>"

definition kInt :: type_attr where "kInt = mk_attr 1 FamNum 1 RepInt64 StoreFixed 4"
definition kBigint :: type_attr where "kBigint = mk_attr 2 FamNum 2 RepInt64 StoreFixed 8"
definition kDouble :: type_attr where "kDouble = mk_attr 3 FamNum 5 RepDouble StoreFixed 8"
definition kVarChar :: type_attr where "kVarChar = mk_attr 4 FamText 0 RepStr StoreVarLen 0"
definition kFloat :: type_attr where "kFloat = mk_attr 5 FamNum 4 RepFloat StoreFixed 4"
definition kChar :: type_attr where "kChar = mk_attr 6 FamText 0 RepStr StoreCharPad 0"
definition kBool :: type_attr where "kBool = mk_attr 7 FamBool 0 RepBool StoreFixed 1"
definition kNumeric :: type_attr where "kNumeric = mk_attr 8 FamNum 3 RepDec StoreDecimal 0"

lemmas seed_attr_defs = kInt_def kBigint_def kDouble_def kVarChar_def kFloat_def kChar_def
  kBool_def kNumeric_def mk_attr_def

definition mk_seed ::
  "type_attr \<Rightarrow> string \<Rightarrow> string option \<Rightarrow> bool \<Rightarrow> u16 \<Rightarrow> u16 \<Rightarrow> bool \<Rightarrow> type_seed" where
  "mk_seed a n al la ld lm sa = \<lparr>seed_attr = a, seed_name = n, seed_alias = al,
     seed_len_allowed = la, seed_len_default = ld, seed_len_max = lm, seed_scale_allowed = sa\<rparr>"

definition kTypeSeeds :: "type_seed list" where
  "kTypeSeeds =
    [mk_seed kInt ''int'' None False 0 0 False,
     mk_seed kBigint ''bigint'' None False 0 0 False,
     mk_seed kDouble ''double'' None False 0 0 False,
     mk_seed kVarChar ''varchar'' None True 0 65535 False,
     mk_seed kFloat ''float'' None False 0 0 False,
     mk_seed kChar ''char'' None True 1 65535 False,
     mk_seed kBool ''boolean'' (Some ''bool'') False 0 0 False,
     mk_seed kNumeric ''numeric'' (Some ''decimal'') True 0 38 True]"

section \<open>Columns, decimals and values\<close>

record column_spec =
  col_name :: string
  col_type :: type_attr
  col_length :: u16
  col_not_null :: bool
  col_scale :: u8

record table_meta =
  tm_table_id :: u64
  tm_file_id :: u64
  tm_name :: string
  tm_cols :: "column_spec list"

definition kNumericUnscaledMax :: int where
  "kNumericUnscaledMax = 10 ^ 38"

text \<open>
  \<^verbatim>\<open>DecimalVal\<close>: the value is \<^verbatim>\<open>unscaled\<close> times ten to the minus \<^verbatim>\<open>dscale\<close>. The 256-bit
  signed-magnitude integer of the source is an \<^verbatim>\<open>int\<close>; the operations that could leave
  256 bits go through \<^verbatim>\<open>wrap256\<close>.
\<close>

datatype decimal_val = DecimalVal (unscaled: int) (dscale: u8)

definition wrap256 :: "int \<Rightarrow> int" where
  "wrap256 x = sgn x * (\<bar>x\<bar> mod 2 ^ 256)"

lemma wrap256_id: "\<bar>x\<bar> < 2 ^ 256 \<Longrightarrow> wrap256 x = x"
  by (simp add: wrap256_def sgn_mult_abs)

definition dec_ok :: "decimal_val \<Rightarrow> bool" where
  "dec_ok d \<longleftrightarrow> \<bar>unscaled d\<bar> < kNumericUnscaledMax"

type_synonym f64 = "64 word"
type_synonym f32 = "32 word"

datatype box =
    BNull
  | BBool bool
  | BInt64 i64
  | BDouble f64
  | BFloat f32
  | BStr string
  | BDec decimal_val

datatype dbvalue = Value (vtype: type_attr) (vbox: box)

definition int_val :: "type_attr \<Rightarrow> i64 \<Rightarrow> dbvalue" where "int_val t v = Value t (BInt64 v)"
definition float_val :: "type_attr \<Rightarrow> f32 \<Rightarrow> dbvalue" where "float_val t v = Value t (BFloat v)"
definition double_val :: "type_attr \<Rightarrow> f64 \<Rightarrow> dbvalue" where "double_val t v = Value t (BDouble v)"
definition str_val :: "type_attr \<Rightarrow> string \<Rightarrow> dbvalue" where "str_val t v = Value t (BStr v)"
definition bool_val :: "type_attr \<Rightarrow> bool \<Rightarrow> dbvalue" where "bool_val t v = Value t (BBool v)"
definition numeric_val :: "type_attr \<Rightarrow> int \<Rightarrow> u8 \<Rightarrow> dbvalue" where
  "numeric_val t u s = Value t (BDec (DecimalVal u s))"
definition null_val :: dbvalue where "null_val = Value no_type BNull"
definition typed_null :: "type_attr \<Rightarrow> dbvalue" where "typed_null t = Value t BNull"

definition value_is_null :: "dbvalue \<Rightarrow> bool" where
  "value_is_null v \<longleftrightarrow> vbox v = BNull"

lemmas value_factories = int_val_def float_val_def double_val_def str_val_def bool_val_def
  numeric_val_def null_val_def typed_null_def

lemma value_is_null_simps [simp]:
  "\<not> value_is_null (int_val t i)" "\<not> value_is_null (float_val t f)"
  "\<not> value_is_null (double_val t d)" "\<not> value_is_null (str_val t s)"
  "\<not> value_is_null (bool_val t b)" "\<not> value_is_null (numeric_val t u sc)"
  "value_is_null null_val" "value_is_null (typed_null t)"
  by (simp_all add: value_factories value_is_null_def)

section \<open>Row locations\<close>

datatype page_id = PageId (pid_file: u64) (pid_page: u32)

definition INVALID_PAGE :: page_id where
  "INVALID_PAGE = PageId 0 0"

datatype row_ref = RowRef (rr_page: page_id) (rr_slot: u16)

record row =
  row_rid :: u64
  row_loc :: row_ref
  row_values :: "dbvalue list"

definition empty_row :: row where
  "empty_row = \<lparr>row_rid = 0, row_loc = RowRef INVALID_PAGE 0, row_values = []\<rparr>"

section \<open>Coherence of the seed table\<close>

text \<open>
  The representation and storage combinations the codec accepts: what a column may carry
  (the values of \<^verbatim>\<open>Rep\<close> and \<^verbatim>\<open>Store\<close> that a db_type row can pair up).
\<close>

definition attr_coherent :: "type_attr \<Rightarrow> bool" where
  "attr_coherent a \<longleftrightarrow>
    (case attr_rep a of
       RepNone \<Rightarrow> False
     | RepInt64 \<Rightarrow> attr_store a = StoreFixed \<and> (attr_width a = 4 \<or> attr_width a = 8)
     | RepFloat \<Rightarrow> attr_store a = StoreFixed \<and> attr_width a = 4
     | RepDouble \<Rightarrow> attr_store a = StoreFixed \<and> attr_width a = 8
     | RepStr \<Rightarrow> attr_store a = StoreVarLen \<or> attr_store a = StoreCharPad
     | RepBool \<Rightarrow> attr_store a = StoreFixed \<and> attr_width a = 1
     | RepDec \<Rightarrow> attr_store a = StoreDecimal)"

lemma seeds_coherent: "\<forall>s \<in> set kTypeSeeds. attr_coherent (seed_attr s)"
  by (simp add: kTypeSeeds_def mk_seed_def seed_attr_defs attr_coherent_def)

lemma seeds_distinct: "distinct (map (attr_id \<circ> seed_attr) kTypeSeeds)"
  by (simp add: kTypeSeeds_def mk_seed_def seed_attr_defs)

end
