(* ===== verification/Ieee.thy ===== *)
theory Ieee
  imports Types
begin

text \<open>
  IEEE-754 binary64 and binary32 on bit patterns, as the C++ code uses \<^verbatim>\<open>double\<close> and
  \<^verbatim>\<open>float\<close>: comparison, \<^verbatim>\<open>isfinite\<close>, the four operations with round-to-nearest-even,
  conversions, and the rounding functions of \<^verbatim>\<open>cmath\<close>. A finite number is read as an
  integer multiple of the format's smallest subnormal (2 to the minus 1074, respectively
  minus 149), so that every exact result is an integer quotient and rounding is one
  integer division. The pattern of an infinity reads as an integer above all finite ones,
  which makes the order of numbers the order of these integers.
\<close>

section \<open>Formats and magnitudes\<close>

record fpfmt =
  fp_frac :: nat    \<comment> \<open>fraction bits\<close>
  fp_sign :: nat    \<comment> \<open>position of the sign bit\<close>
  fp_unit :: nat    \<comment> \<open>the unit is 2 to the minus this\<close>

definition F64 :: fpfmt where "F64 = \<lparr>fp_frac = 52, fp_sign = 63, fp_unit = 1074\<rparr>"
definition F32 :: fpfmt where "F32 = \<lparr>fp_frac = 23, fp_sign = 31, fp_unit = 149\<rparr>"

text \<open>The exponent-and-fraction part of the pattern and the integer it stands for.\<close>

definition ieee_mag :: "nat \<Rightarrow> nat \<Rightarrow> nat" where
  "ieee_mag fb n = (let e = n div 2 ^ fb; f = n mod 2 ^ fb
                    in if e = 0 then f else (2 ^ fb + f) * 2 ^ (e - 1))"

definition fp_inf_bits :: "fpfmt \<Rightarrow> nat" where
  "fp_inf_bits F = (2 ^ (fp_sign F - fp_frac F) - 1) * 2 ^ fp_frac F"

definition fp_bits :: "fpfmt \<Rightarrow> 'a::len word \<Rightarrow> nat" where
  "fp_bits F x = unat x mod 2 ^ fp_sign F"

definition fp_neg :: "fpfmt \<Rightarrow> 'a::len word \<Rightarrow> bool" where
  "fp_neg F x \<longleftrightarrow> 2 ^ fp_sign F \<le> unat x"

definition fp_make :: "fpfmt \<Rightarrow> bool \<Rightarrow> nat \<Rightarrow> 'a::len word" where
  "fp_make F s n = word_of_nat (n + (if s then 2 ^ fp_sign F else 0))"

definition fp_isnan :: "fpfmt \<Rightarrow> 'a::len word \<Rightarrow> bool" where
  "fp_isnan F x \<longleftrightarrow> fp_inf_bits F < fp_bits F x"

definition fp_isinf :: "fpfmt \<Rightarrow> 'a::len word \<Rightarrow> bool" where
  "fp_isinf F x \<longleftrightarrow> fp_bits F x = fp_inf_bits F"

definition fp_isfinite :: "fpfmt \<Rightarrow> 'a::len word \<Rightarrow> bool" where
  "fp_isfinite F x \<longleftrightarrow> fp_bits F x < fp_inf_bits F"

definition fp_num :: "fpfmt \<Rightarrow> 'a::len word \<Rightarrow> int" where
  "fp_num F x = (let m = int (ieee_mag (fp_frac F) (fp_bits F x)) in if fp_neg F x then - m else m)"

definition fp_lt :: "fpfmt \<Rightarrow> 'a::len word \<Rightarrow> 'a word \<Rightarrow> bool" where
  "fp_lt F a b \<longleftrightarrow> \<not> fp_isnan F a \<and> \<not> fp_isnan F b \<and> fp_num F a < fp_num F b"

definition fp_eq :: "fpfmt \<Rightarrow> 'a::len word \<Rightarrow> 'a word \<Rightarrow> bool" where
  "fp_eq F a b \<longleftrightarrow> \<not> fp_isnan F a \<and> \<not> fp_isnan F b \<and> fp_num F a = fp_num F b"

section \<open>Rounding\<close>

fun bitlen :: "nat \<Rightarrow> nat" where
  "bitlen n = (if n = 0 then 0 else Suc (bitlen (n div 2)))"

declare bitlen.simps [simp del]

text \<open>The integer nearest to the quotient, ties to even.\<close>

definition rne :: "nat \<Rightarrow> nat \<Rightarrow> nat" where
  "rne n d = (let q = n div d; r = n mod d
              in if 2 * r < d \<or> (2 * r = d \<and> even q) then q else q + 1)"

text \<open>The magnitude bits of the value \<^verbatim>\<open>n / d\<close> units, infinity when it is too large.\<close>

definition ieee_round :: "fpfmt \<Rightarrow> nat \<Rightarrow> nat \<Rightarrow> nat" where
  "ieee_round F n d = (let k = bitlen (n div d) - (fp_frac F + 1)
                       in min (fp_inf_bits F) (k * 2 ^ fp_frac F + rne n (d * 2 ^ k)))"

definition fp_nan :: "fpfmt \<Rightarrow> 'a::len word" where
  "fp_nan F = fp_make F False (fp_inf_bits F + 2 ^ (fp_frac F - 1))"

definition fp_of_ratio :: "fpfmt \<Rightarrow> bool \<Rightarrow> nat \<Rightarrow> nat \<Rightarrow> 'a::len word" where
  "fp_of_ratio F s n d = fp_make F s (ieee_round F n d)"

definition fp_of_int :: "fpfmt \<Rightarrow> int \<Rightarrow> 'a::len word" where
  "fp_of_int F i = fp_of_ratio F (i < 0) (nat \<bar>i\<bar> * 2 ^ fp_unit F) 1"

section \<open>Arithmetic\<close>

definition fp_minus :: "fpfmt \<Rightarrow> 'a::len word \<Rightarrow> 'a word" where
  "fp_minus F x = x XOR word_of_nat (2 ^ fp_sign F)"

definition fp_abs :: "fpfmt \<Rightarrow> 'a::len word \<Rightarrow> 'a word" where
  "fp_abs F x = fp_make F False (fp_bits F x)"

definition fp_add :: "fpfmt \<Rightarrow> 'a::len word \<Rightarrow> 'a word \<Rightarrow> 'a word" where
  "fp_add F a b =
    (if fp_isnan F a \<or> fp_isnan F b then fp_nan F
     else if fp_isinf F a then (if fp_isinf F b \<and> fp_neg F a \<noteq> fp_neg F b then fp_nan F else a)
     else if fp_isinf F b then b
     else let s = fp_num F a + fp_num F b
          in if s = 0 then fp_make F (fp_neg F a \<and> fp_neg F b) 0
             else fp_of_ratio F (s < 0) (nat \<bar>s\<bar>) 1)"

definition fp_sub :: "fpfmt \<Rightarrow> 'a::len word \<Rightarrow> 'a word \<Rightarrow> 'a word" where
  "fp_sub F a b = fp_add F a (fp_minus F b)"

definition fp_mul :: "fpfmt \<Rightarrow> 'a::len word \<Rightarrow> 'a word \<Rightarrow> 'a word" where
  "fp_mul F a b =
    (let s = (fp_neg F a \<noteq> fp_neg F b) in
     if fp_isnan F a \<or> fp_isnan F b then fp_nan F
     else if fp_isinf F a \<or> fp_isinf F b
     then (if fp_num F a = 0 \<or> fp_num F b = 0 then fp_nan F else fp_make F s (fp_inf_bits F))
     else fp_of_ratio F s (nat \<bar>fp_num F a\<bar> * nat \<bar>fp_num F b\<bar>) (2 ^ fp_unit F))"

definition fp_div :: "fpfmt \<Rightarrow> 'a::len word \<Rightarrow> 'a word \<Rightarrow> 'a word" where
  "fp_div F a b =
    (let s = (fp_neg F a \<noteq> fp_neg F b) in
     if fp_isnan F a \<or> fp_isnan F b then fp_nan F
     else if fp_isinf F a then (if fp_isinf F b then fp_nan F else fp_make F s (fp_inf_bits F))
     else if fp_isinf F b then fp_make F s 0
     else if fp_num F b = 0
     then (if fp_num F a = 0 then fp_nan F else fp_make F s (fp_inf_bits F))
     else fp_of_ratio F s (nat \<bar>fp_num F a\<bar> * 2 ^ fp_unit F) (nat \<bar>fp_num F b\<bar>))"

text \<open>\<^verbatim>\<open>std::fmod\<close>, \<^verbatim>\<open>std::floor\<close>, \<^verbatim>\<open>std::ceil\<close>, \<^verbatim>\<open>std::round\<close>: exact, with the sign of the operand.\<close>

definition fp_fmod :: "fpfmt \<Rightarrow> 'a::len word \<Rightarrow> 'a word \<Rightarrow> 'a word" where
  "fp_fmod F a b =
    (if fp_isnan F a \<or> fp_isnan F b \<or> fp_isinf F a \<or> fp_num F b = 0 then fp_nan F
     else if fp_isinf F b then a
     else fp_of_ratio F (fp_neg F a) (nat \<bar>fp_num F a\<bar> mod nat \<bar>fp_num F b\<bar>) 1)"

definition fp_integral :: "fpfmt \<Rightarrow> (int \<Rightarrow> int \<Rightarrow> int) \<Rightarrow> 'a::len word \<Rightarrow> 'a word" where
  "fp_integral F f x =
    (if \<not> fp_isfinite F x then x
     else fp_of_ratio F (fp_neg F x) (nat \<bar>f (fp_num F x) (2 ^ fp_unit F)\<bar> * 2 ^ fp_unit F) 1)"

definition fp_floor :: "fpfmt \<Rightarrow> 'a::len word \<Rightarrow> 'a word" where
  "fp_floor F = fp_integral F (\<lambda>n d. n div d)"

definition fp_ceil :: "fpfmt \<Rightarrow> 'a::len word \<Rightarrow> 'a word" where
  "fp_ceil F = fp_integral F (\<lambda>n d. - ((- n) div d))"

definition fp_round :: "fpfmt \<Rightarrow> 'a::len word \<Rightarrow> 'a word" where
  "fp_round F = fp_integral F (\<lambda>n d. sgn n * ((2 * \<bar>n\<bar> + d) div (2 * d)))"

text \<open>Widening and narrowing between the two formats.\<close>

definition f32_to_f64 :: "f32 \<Rightarrow> f64" where
  "f32_to_f64 x =
    (if fp_isnan F32 x then fp_nan F64
     else if fp_isinf F32 x then fp_make F64 (fp_neg F32 x) (fp_inf_bits F64)
     else fp_of_ratio F64 (fp_neg F32 x) (nat \<bar>fp_num F32 x\<bar> * 2 ^ 925) 1)"

definition f64_to_f32 :: "f64 \<Rightarrow> f32" where
  "f64_to_f32 x =
    (if fp_isnan F64 x then fp_nan F32
     else if fp_isinf F64 x then fp_make F32 (fp_neg F64 x) (fp_inf_bits F32)
     else fp_of_ratio F32 (fp_neg F64 x) (nat \<bar>fp_num F64 x\<bar>) (2 ^ 925))"

section \<open>The order of magnitudes\<close>

lemma ieee_mag_Suc: "ieee_mag fb n < ieee_mag fb (Suc n)"
proof -
  define p e f where pef: "p = (2::nat) ^ fb" "e = n div p" "f = n mod p"
  have p: "0 < p" and f: "f < p" by (simp_all add: pef)
  have n: "n = e * p + f" unfolding pef by (rule div_mult_mod_eq [symmetric])
  show ?thesis
  proof (cases "Suc f < p")
    case True
    have sn: "Suc n = Suc f + e * p" using n by simp
    have "Suc n div p = e" "Suc n mod p = Suc f"
      using True p div_mult_self1 [of p "Suc f" e] mod_mult_self1 [of "Suc f" e p]
      by (simp_all add: sn del: add_Suc)
    with True show ?thesis by (simp add: ieee_mag_def pef [symmetric] Let_def)
  next
    case False
    with f have fp: "Suc f = p" by simp
    then have sn: "Suc n = Suc e * p" using n by simp
    then have "Suc n div p = Suc e" "Suc n mod p = 0"
      using p by (simp_all add: sn del: mult_Suc)
    moreover have "f < p * 2 ^ 0" using f by simp
    moreover have "(p + f) * 2 ^ (e - 1) < p * 2 ^ e" if "e \<noteq> 0"
    proof -
      have "2 ^ e = 2 * (2::nat) ^ (e - 1)" using that by (cases e) auto
      then show ?thesis using f by simp
    qed
    ultimately show ?thesis by (auto simp: ieee_mag_def pef [symmetric] Let_def)
  qed
qed

lemma ieee_mag_mono: "m < n \<Longrightarrow> ieee_mag fb m < ieee_mag fb n"
  by (rule lift_Suc_mono_less [where f = "ieee_mag fb"]) (rule ieee_mag_Suc)

lemma ieee_mag_less_iff: "ieee_mag fb m < ieee_mag fb n \<longleftrightarrow> m < n"
  by (metis ieee_mag_mono linorder_neqE_nat order_less_asym)

lemma ieee_mag_eq_iff: "ieee_mag fb m = ieee_mag fb n \<longleftrightarrow> m = n"
  by (metis ieee_mag_less_iff linorder_neqE_nat order_less_irrefl)

lemma ieee_mag_0 [simp]: "ieee_mag fb 0 = 0"
  by (simp add: ieee_mag_def)

lemma ieee_mag_eq_0 [simp]: "ieee_mag fb n = 0 \<longleftrightarrow> n = 0"
  by (metis ieee_mag_eq_iff ieee_mag_0)

section \<open>Rounding a representable magnitude is exact\<close>

lemma bitlen_0 [simp]: "bitlen 0 = 0"
  by (simp add: bitlen.simps)

lemma bitlen_le: "n < 2 ^ k \<Longrightarrow> bitlen n \<le> k"
proof (induction k arbitrary: n)
  case 0
  then show ?case by simp
next
  case (Suc k)
  then have "bitlen (n div 2) \<le> k" by (intro Suc.IH) auto
  then show ?case by (simp add: bitlen.simps [of n])
qed

lemma bitlen_eq: "2 ^ k \<le> n \<Longrightarrow> n < 2 ^ Suc k \<Longrightarrow> bitlen n = Suc k"
proof (induction k arbitrary: n)
  case 0
  then have "n = 1" by simp
  then show ?case by (simp add: bitlen.simps)
next
  case (Suc k)
  then have "bitlen (n div 2) = Suc k" by (intro Suc.IH) auto
  moreover have "n \<noteq> 0" using Suc.prems(1) by (metis not_less zero_less_numeral zero_less_power)
  ultimately show ?case by (simp add: bitlen.simps [of n])
qed

lemma rne_exact: "0 < d \<Longrightarrow> rne (m * d) d = m"
  by (simp add: rne_def)

lemma ieee_round_exact:
  assumes "n < fp_inf_bits F"
  shows "ieee_round F (ieee_mag (fp_frac F) n) 1 = n"
proof -
  define p e f where pef: "p = (2::nat) ^ fp_frac F" "e = n div p" "f = n mod p"
  have f: "f < p" by (simp add: pef)
  have n: "n = e * p + f" unfolding pef by (rule div_mult_mod_eq [symmetric])
  show ?thesis
  proof (cases "e = 0")
    case True
    then have np: "n < 2 ^ fp_frac F" by (simp add: pef div_eq_0_iff)
    then have m: "ieee_mag (fp_frac F) n = n" by (simp add: ieee_mag_def)
    from np have "bitlen n \<le> fp_frac F" by (rule bitlen_le)
    then show ?thesis using assms rne_exact [of 1 n]
      by (simp add: ieee_round_def m)
  next
    case False
    define k where "k = e - 1"
    have m: "ieee_mag (fp_frac F) n = (p + f) * 2 ^ k"
      using False by (simp add: ieee_mag_def pef k_def)
    have e: "e = Suc k" using False by (simp add: k_def)
    have "2 ^ (fp_frac F + k) \<le> (p + f) * 2 ^ k" by (simp add: pef power_add)
    moreover have "(p + f) * 2 ^ k < 2 ^ Suc (fp_frac F + k)"
      using f by (simp add: pef power_add)
    ultimately have bl: "bitlen ((p + f) * 2 ^ k) = Suc (fp_frac F + k)" by (rule bitlen_eq)
    have "k * p + (p + f) = n" using n e by simp
    then show ?thesis using assms bl rne_exact [of "2 ^ k" "p + f"]
      unfolding ieee_round_def m by (simp add: pef(1) [symmetric])
  qed
qed

section \<open>Patterns of the two formats\<close>

lemma fp_bits_less: "fp_bits F x < 2 ^ fp_sign F"
  by (simp add: fp_bits_def)

lemma F64_simps [simp]: "fp_frac F64 = 52" "fp_sign F64 = 63" "fp_unit F64 = 1074"
  by (simp_all add: F64_def)

lemma F32_simps [simp]: "fp_frac F32 = 23" "fp_sign F32 = 31" "fp_unit F32 = 149"
  by (simp_all add: F32_def)

lemma unat_u64_less: "unat (x :: u64) < 2 ^ 64"
proof -
  have "unat x < 2 ^ LENGTH(64)" by (rule unsigned_less)
  then show ?thesis by simp
qed

lemma unat_u32_less: "unat (x :: u32) < 2 ^ 32"
proof -
  have "unat x < 2 ^ LENGTH(32)" by (rule unsigned_less)
  then show ?thesis by simp
qed

lemma fp64_split: "unat (x :: f64) = fp_bits F64 x + (if fp_neg F64 x then 2 ^ 63 else 0)"
  using unat_u64_less [of x]
  by (simp add: fp_bits_def fp_neg_def le_mod_geq not_le)

lemma fp32_split: "unat (x :: f32) = fp_bits F32 x + (if fp_neg F32 x then 2 ^ 31 else 0)"
  using unat_u32_less [of x]
  by (simp add: fp_bits_def fp_neg_def le_mod_geq not_le)

lemma fp_make_F64:
  assumes "n < 2 ^ 63"
  shows "fp_bits F64 (fp_make F64 s n :: f64) = n" and "fp_neg F64 (fp_make F64 s n :: f64) = s"
proof -
  have "unat (fp_make F64 s n :: f64) = n + (if s then 2 ^ 63 else 0)"
    unfolding fp_make_def unat_of_nat using assms by simp
  then show "fp_bits F64 (fp_make F64 s n :: f64) = n" "fp_neg F64 (fp_make F64 s n :: f64) = s"
    using assms by (simp_all add: fp_bits_def fp_neg_def)
qed

lemma inf_bits_F64 [simp]: "fp_inf_bits F64 = 2047 * 2 ^ 52"
  by (simp add: fp_inf_bits_def)

lemma inf_bits_F32 [simp]: "fp_inf_bits F32 = 255 * 2 ^ 23"
  by (simp add: fp_inf_bits_def)

section \<open>Finite results\<close>

text \<open>The formats in which rounding stays away from infinity on the conversions used here.\<close>

definition fp_wide :: "fpfmt \<Rightarrow> bool" where
  "fp_wide F \<longleftrightarrow> fp_unit F + 72 \<le> fp_frac F + (2 ^ (fp_sign F - fp_frac F) - 1) \<and> fp_frac F < 60
     \<and> 2 < (2::nat) ^ (fp_sign F - fp_frac F) - 1"

lemma fp_wide_formats [simp]: "fp_wide F64" "fp_wide F32"
  by (simp_all add: fp_wide_def)

lemma less_bitlen: "n < 2 ^ bitlen n"
proof (induction n rule: bitlen.induct)
  case (1 n)
  show ?case
  proof (cases "n = 0")
    case False
    then have "n div 2 < 2 ^ bitlen (n div 2)" using 1 by simp
    then show ?thesis using False by (simp add: bitlen.simps [of n])
  qed simp
qed

lemma ieee_round_finite:
  assumes "n div d < 2 ^ B" and "B + 2 \<le> fp_frac F + (2 ^ (fp_sign F - fp_frac F) - 1)" and "0 < d"
    and "2 < (2::nat) ^ (fp_sign F - fp_frac F) - 1"
  shows "ieee_round F n d < fp_inf_bits F"
proof -
  define k E where defs: "k = bitlen (n div d) - (fp_frac F + 1)" "E = (2::nat) ^ (fp_sign F - fp_frac F) - 1"
  have "bitlen (n div d) \<le> B" using assms(1) by (rule bitlen_le)
  then have k: "k + 3 \<le> E" using assms(2,4) by (simp add: defs)
  have "n div d < 2 ^ (k + (fp_frac F + 1))"
    using less_bitlen [of "n div d"] by (rule less_le_trans) (intro power_increasing; simp add: defs)
  then have "n div d div 2 ^ k < 2 ^ (fp_frac F + 1)" by (simp add: power_add less_mult_imp_div_less mult.commute)
  then have "n div (d * 2 ^ k) < 2 ^ (fp_frac F + 1)" by (simp add: div_mult2_eq)
  moreover have "rne n (d * 2 ^ k) \<le> n div (d * 2 ^ k) + 1" by (simp add: rne_def Let_def)
  ultimately have "rne n (d * 2 ^ k) \<le> 2 * 2 ^ fp_frac F" by simp
  then have "k * 2 ^ fp_frac F + rne n (d * 2 ^ k) \<le> (k + 2) * 2 ^ fp_frac F" by simp
  also have "\<dots> < E * 2 ^ fp_frac F" using k by (intro mult_strict_right_mono) auto
  finally show ?thesis by (simp add: ieee_round_def fp_inf_bits_def defs Let_def min_def)
qed

lemma ieee_mag_less:
  assumes "n < fp_inf_bits F"
  shows "ieee_mag (fp_frac F) n < 2 ^ (fp_frac F + (2 ^ (fp_sign F - fp_frac F) - 2))"
proof -
  define p e f E where defs: "p = (2::nat) ^ fp_frac F" "e = n div p" "f = n mod p"
    "E = (2::nat) ^ (fp_sign F - fp_frac F) - 1"
  have f: "f < p" by (simp add: defs)
  have e: "e < E" using assms by (simp add: defs fp_inf_bits_def less_mult_imp_div_less)
  have "ieee_mag (fp_frac F) n < 2 ^ (fp_frac F + (E - 1))"
  proof (cases "e = 0")
    case True
    then have "ieee_mag (fp_frac F) n = f" by (simp add: ieee_mag_def defs)
    also have "\<dots> < p * 1" using f by simp
    also have "\<dots> \<le> p * 2 ^ (E - 1)" by (intro mult_le_mono) auto
    finally show ?thesis by (simp add: defs power_add)
  next
    case False
    then have "ieee_mag (fp_frac F) n = (p + f) * 2 ^ (e - 1)" by (simp add: ieee_mag_def defs)
    also have "\<dots> < (2 * p) * 2 ^ (e - 1)" using f by simp
    also have "\<dots> = p * 2 ^ e" using False by (cases e) auto
    also have "\<dots> \<le> p * 2 ^ (E - 1)" using e by (intro mult_le_mono power_increasing) auto
    finally show ?thesis by (simp add: defs power_add)
  qed
  then show ?thesis by (simp add: defs numeral_2_eq_2)
qed

lemma ieee_mag_dvd:
  assumes "fp_unit F < n div 2 ^ fp_frac F"
  shows "2 ^ fp_unit F dvd ieee_mag (fp_frac F) n"
proof -
  have "fp_unit F \<le> n div 2 ^ fp_frac F - 1" using assms by simp
  then have "(2::nat) ^ fp_unit F dvd 2 ^ (n div 2 ^ fp_frac F - 1)" by (rule le_imp_power_dvd)
  then show ?thesis using assms by (simp add: ieee_mag_def Let_def)
qed

lemma ieee_mag_small:
  assumes "n div 2 ^ fp_frac F \<le> fp_unit F"
  shows "ieee_mag (fp_frac F) n < 2 ^ (fp_frac F + fp_unit F)"
proof -
  have "n < (fp_unit F + 1) * 2 ^ fp_frac F"
    using assms by (metis Suc_eq_plus1 le_imp_less_Suc div_less_iff_less_mult zero_less_numeral zero_less_power)
  then have "ieee_mag (fp_frac F) n < ieee_mag (fp_frac F) ((fp_unit F + 1) * 2 ^ fp_frac F)"
    by (rule ieee_mag_mono)
  also have "\<dots> = 2 ^ (fp_frac F + fp_unit F)" by (simp add: ieee_mag_def power_add)
  finally show ?thesis .
qed

lemma fp_make_F32:
  assumes "n < 2 ^ 31"
  shows "fp_bits F32 (fp_make F32 s n :: f32) = n"
proof -
  have "unat (fp_make F32 s n :: f32) = n + (if s then 2 ^ 31 else 0)"
    unfolding fp_make_def unat_of_nat using assms by simp
  then show ?thesis using assms by (simp add: fp_bits_def)
qed

text \<open>A format together with the width of its patterns.\<close>

definition fp_width_ok :: "fpfmt \<Rightarrow> 'a::len word itself \<Rightarrow> bool" where
  "fp_width_ok F T \<longleftrightarrow> fp_wide F \<and> (\<forall>s n. n < 2 ^ fp_sign F \<longrightarrow> fp_bits F (fp_make F s n :: 'a word) = n)
     \<and> fp_inf_bits F < 2 ^ fp_sign F \<and> 1 < fp_frac F"

lemma fp_width_formats [simp]: "fp_width_ok F64 TYPE(f64)" "fp_width_ok F32 TYPE(f32)"
  by (simp_all add: fp_width_ok_def fp_make_F64 fp_make_F32)

lemma finite_of_ratio:
  fixes T :: "'a::len word itself"
  assumes "fp_width_ok F T"
  shows "fp_isfinite F (fp_of_ratio F s n d :: 'a word) \<longleftrightarrow> ieee_round F n d < fp_inf_bits F"
proof -
  have "ieee_round F n d \<le> fp_inf_bits F" by (simp add: ieee_round_def Let_def)
  also have "\<dots> < 2 ^ fp_sign F" using assms by (simp add: fp_width_ok_def)
  finally show ?thesis using assms by (simp add: fp_isfinite_def fp_of_ratio_def fp_width_ok_def)
qed

lemma finite_of_small:
  fixes T :: "'a::len word itself"
  assumes "fp_width_ok F T" and "n < 2 ^ (fp_unit F + 70)"
  shows "fp_isfinite F (fp_of_ratio F s n 1 :: 'a word)"
proof -
  have w: "fp_wide F" using assms(1) by (simp add: fp_width_ok_def)
  show ?thesis unfolding finite_of_ratio [OF assms(1)]
    by (rule ieee_round_finite [where B = "fp_unit F + 70"]) (use assms(2) w in \<open>auto simp: fp_wide_def\<close>)
qed

lemma finite_of_int:
  fixes T :: "'a::len word itself"
  assumes "fp_width_ok F T" and "\<bar>i\<bar> \<le> 2 ^ 63"
  shows "fp_isfinite F (fp_of_int F i :: 'a word)"
proof -
  have "nat \<bar>i\<bar> < 2 ^ 70" using assms(2) by (simp add: nat_less_iff)
  then have "nat \<bar>i\<bar> * 2 ^ fp_unit F < 2 ^ 70 * 2 ^ fp_unit F" by simp
  then have "nat \<bar>i\<bar> * 2 ^ fp_unit F < 2 ^ (fp_unit F + 70)" by (simp only: power_add mult.commute)
  then show ?thesis unfolding fp_of_int_def by (rule finite_of_small [OF assms(1)])
qed

lemma finite_widen:
  assumes "fp_isfinite F32 f"
  shows "fp_isfinite F64 (f32_to_f64 f)"
proof -
  have "\<not> fp_isnan F32 f" "\<not> fp_isinf F32 f" using assms by (simp_all add: fp_isfinite_def fp_isnan_def fp_isinf_def)
  moreover have "nat \<bar>fp_num F32 f\<bar> < 2 ^ 277"
    using ieee_mag_less [of "fp_bits F32 f" F32] assms by (simp add: fp_isfinite_def fp_num_def Let_def)
  then have "nat \<bar>fp_num F32 f\<bar> * 2 ^ 925 div 1 < 2 ^ 1202"
    using mult_strict_right_mono [of "nat \<bar>fp_num F32 f\<bar>" "2 ^ 277" "2 ^ 925"] by simp
  then have "ieee_round F64 (nat \<bar>fp_num F32 f\<bar> * 2 ^ 925) 1 < fp_inf_bits F64"
    by (rule ieee_round_finite) simp_all
  ultimately show ?thesis using finite_of_ratio [OF fp_width_formats(1)] by (simp add: f32_to_f64_def)
qed

lemma finite_integral:
  fixes x :: "'a::len word"
  assumes w: "fp_width_ok F TYPE('a word)" and x: "fp_isfinite F x"
    and dvd: "\<And>n d. 0 < d \<Longrightarrow> d dvd n \<Longrightarrow> f n d * d = n"
    and near: "\<And>n d. 0 < d \<Longrightarrow> \<bar>f n d\<bar> * d \<le> \<bar>n\<bar> + d"
  shows "fp_isfinite F (fp_integral F f x)"
proof -
  define D m n where defs: "D = (2::int) ^ fp_unit F" "m = ieee_mag (fp_frac F) (fp_bits F x)" "n = fp_num F x"
  have n: "\<bar>n\<bar> = int m" by (simp add: defs fp_num_def Let_def)
  have D: "0 < D" by (simp add: defs)
  have b: "fp_bits F x < fp_inf_bits F" using x by (simp add: fp_isfinite_def)
  define k where "k = nat \<bar>f n D\<bar> * 2 ^ fp_unit F"
  have k: "int k = \<bar>f n D\<bar> * D" by (simp add: k_def defs)
  have fi: "fp_integral F f x = fp_of_ratio F (fp_neg F x) k 1"
    using x by (simp add: fp_integral_def k_def defs)
  show ?thesis
  proof (cases "fp_unit F < fp_bits F x div 2 ^ fp_frac F")
    case True
    then have "int (2 ^ fp_unit F) dvd int m" unfolding defs(2) int_dvd_int_iff by (rule ieee_mag_dvd)
    then have "D dvd \<bar>n\<bar>" unfolding n by (simp add: defs(1))
    then have "D dvd n" by simp
    then have "\<bar>f n D * D\<bar> = \<bar>n\<bar>" using dvd [OF D] by simp
    then have "k = m" using k n D by (simp add: abs_mult)
    then have "ieee_round F k 1 = fp_bits F x" using ieee_round_exact [OF b] by (simp add: defs)
    then show ?thesis using b finite_of_ratio [OF w] by (simp add: fi)
  next
    case False
    then have "m < 2 ^ (fp_frac F + fp_unit F)" unfolding defs(2) by (intro ieee_mag_small) simp
    then have "int m < 2 ^ (fp_frac F + fp_unit F)" by (metis of_nat_less_iff of_nat_numeral of_nat_power)
    then have "int k < 2 ^ (fp_frac F + fp_unit F) + 2 ^ fp_unit F"
      using near [OF D, of n] k unfolding n defs(1) by linarith
    also have "\<dots> \<le> 2 ^ (fp_frac F + fp_unit F) + 2 ^ (fp_frac F + fp_unit F)" by simp
    also have "\<dots> = 2 ^ (fp_frac F + fp_unit F + 1)" by simp
    also have "\<dots> \<le> 2 ^ (fp_unit F + 70)"
      using w by (intro power_increasing) (auto simp: fp_width_ok_def fp_wide_def)
    finally have "k < 2 ^ (fp_unit F + 70)" by (metis of_nat_less_iff of_nat_numeral of_nat_power)
    then show ?thesis unfolding fi by (rule finite_of_small [OF w])
  qed
qed

lemma integral_laws:
  fixes n d :: int
  assumes "0 < d"
  shows "d dvd n \<Longrightarrow> n div d * d = n" "d dvd n \<Longrightarrow> - ((- n) div d) * d = n"
    "d dvd n \<Longrightarrow> sgn n * ((2 * \<bar>n\<bar> + d) div (2 * d)) * d = n"
    "\<bar>n div d\<bar> * d \<le> \<bar>n\<bar> + d" "\<bar>- ((- n) div d)\<bar> * d \<le> \<bar>n\<bar> + d"
    "\<bar>sgn n * ((2 * \<bar>n\<bar> + d) div (2 * d))\<bar> * d \<le> \<bar>n\<bar> + d"
proof -
  show "d dvd n \<Longrightarrow> n div d * d = n" "d dvd n \<Longrightarrow> - ((- n) div d) * d = n" by auto
  have fl: "\<bar>x div d\<bar> * d \<le> \<bar>x\<bar> + d" for x
  proof -
    have "x div d * d \<le> x" "x < x div d * d + d"
      using assms div_mult_mod_eq [of x d] pos_mod_sign [of d x] pos_mod_bound [of d x] by linarith+
    then show ?thesis using assms by (cases "0 \<le> x div d") auto
  qed
  show "\<bar>n div d\<bar> * d \<le> \<bar>n\<bar> + d" by (rule fl)
  show "\<bar>- ((- n) div d)\<bar> * d \<le> \<bar>n\<bar> + d" using fl [of "- n"] by simp
  define q where "q = (2 * \<bar>n\<bar> + d) div (2 * d)"
  have q: "0 \<le> q" using assms by (simp add: q_def pos_imp_zdiv_nonneg_iff)
  have "q * (2 * d) \<le> 2 * \<bar>n\<bar> + d"
    using assms div_mult_mod_eq [of "2 * \<bar>n\<bar> + d" "2 * d"] pos_mod_sign [of "2 * d" "2 * \<bar>n\<bar> + d"]
    unfolding q_def by linarith
  then have qd: "q * d \<le> \<bar>n\<bar> + d" using assms by (simp add: algebra_simps)
  have "\<bar>sgn n * q\<bar> \<le> q" using q by (simp add: abs_mult abs_sgn_eq)
  then have "\<bar>sgn n * q\<bar> * d \<le> q * d" using assms by (intro mult_right_mono) auto
  then show "\<bar>sgn n * ((2 * \<bar>n\<bar> + d) div (2 * d))\<bar> * d \<le> \<bar>n\<bar> + d" using qd unfolding q_def by linarith
  assume "d dvd n"
  then obtain j where j: "\<bar>n\<bar> = j * d" by (metis dvd_abs_iff dvd_def mult.commute)
  then have "q = j" unfolding q_def using assms by (intro int_div_pos_eq [where r = d]) auto
  then show "sgn n * ((2 * \<bar>n\<bar> + d) div (2 * d)) * d = n"
    using j unfolding q_def [symmetric] by (simp add: mult.assoc flip: j) (simp add: sgn_mult_abs)
qed

lemma finite_floor_ceil_round:
  assumes "fp_width_ok F TYPE('a::len word)" and "fp_isfinite F (x :: 'a word)"
  shows "fp_isfinite F (fp_floor F x)" "fp_isfinite F (fp_ceil F x)" "fp_isfinite F (fp_round F x)"
  unfolding fp_floor_def fp_ceil_def fp_round_def
  by (rule finite_integral [OF assms]; (rule integral_laws; assumption))+

end
