(* ===== verification/Codec.thy ===== *)
theory Codec
  imports Ieee
begin

text \<open>
  The record codec of src/storage/codec.cpp: a row is \<^verbatim>\<open>[u16 body length][NULL bitmap][columns]\<close>.
  \<^verbatim>\<open>encode_row\<close> and \<^verbatim>\<open>decode_row\<close> return \<^verbatim>\<open>false\<close> (here \<^verbatim>\<open>None\<close>) on a value that does not fit
  its column or on corrupt bytes, and raise an internal error on an attribute combination
  outside the enumerated ones. Shown: decoding an encoded row gives the stored row back,
  encoding accepts exactly the values that fit, and it never raises on coherent columns.
\<close>

section \<open>Fixed-width fields\<close>

definition put_u16 :: "bytes \<Rightarrow> u16 \<Rightarrow> bytes" where
  "put_u16 out v = out @ [ucast (v AND 0xff), ucast (drop_bit 8 v AND 0xff)]"

definition put_u32 :: "bytes \<Rightarrow> u32 \<Rightarrow> bytes" where
  "put_u32 out v = out @ [ucast (v AND 0xff), ucast (drop_bit 8 v AND 0xff),
                          ucast (drop_bit 16 v AND 0xff), ucast (drop_bit 24 v AND 0xff)]"

definition read_u16 :: "bytes \<Rightarrow> nat \<Rightarrow> u16" where
  "read_u16 p o0 = ucast (p ! o0) OR push_bit 8 (ucast (p ! (o0 + 1)))"

definition read_u32 :: "bytes \<Rightarrow> nat \<Rightarrow> u32" where
  "read_u32 p o0 = ucast (p ! o0) OR push_bit 8 (ucast (p ! (o0 + 1)))
                 OR push_bit 16 (ucast (p ! (o0 + 2))) OR push_bit 24 (ucast (p ! (o0 + 3)))"

fun get_int64 :: "dbvalue \<Rightarrow> i64 option" where
  "get_int64 (Value t (BInt64 v)) = Some v"
| "get_int64 _ = None"

fun get_double :: "dbvalue \<Rightarrow> f64 option" where
  "get_double (Value t (BDouble v)) = Some v"
| "get_double _ = None"

fun get_string :: "dbvalue \<Rightarrow> string option" where
  "get_string (Value t (BStr v)) = Some v"
| "get_string _ = None"

fun get_bool :: "dbvalue \<Rightarrow> bool option" where
  "get_bool (Value t (BBool v)) = Some v"
| "get_bool _ = None"

fun get_float :: "dbvalue \<Rightarrow> f32 option" where
  "get_float (Value t (BFloat v)) = Some v"
| "get_float _ = None"

fun get_decimal :: "dbvalue \<Rightarrow> decimal_val option" where
  "get_decimal (Value t (BDec v)) = Some v"
| "get_decimal _ = None"

section \<open>Encoding\<close>

definition INT32_MIN :: int where "INT32_MIN = - (2 ^ 31)"
definition INT32_MAX :: int where "INT32_MAX = 2 ^ 31 - 1"
definition INT64_MIN :: int where "INT64_MIN = - (2 ^ 63)"
definition INT64_MAX :: int where "INT64_MAX = 2 ^ 63 - 1"

text \<open>Increment of a little endian byte string, the carry stopping at the first byte that does not wrap.\<close>

fun inc_carry :: "bytes \<Rightarrow> bytes" where
  "inc_carry [] = []"
| "inc_carry (b # bs) = (if b + 1 = 0 then 0 # inc_carry bs else (b + 1) # bs)"

text \<open>16 bytes of two's complement: the magnitude bytes, complemented and incremented when negative.\<close>

definition dec_bytes :: "int \<Rightarrow> bytes" where
  "dec_bytes u =
    (let b = map (\<lambda>k. word_of_int (drop_bit (k * 8) \<bar>u\<bar>)) [0..<16]
     in if u < 0 then inc_carry (map (\<lambda>x. NOT x) b) else b)"

definition encode_str :: "column_spec \<Rightarrow> string \<Rightarrow> bytes option res" where
  "encode_str col v =
    (if attr_store (col_type col) = StoreVarLen then
       (if length v > 65535 then Inr None
        else if col_length col > 0 \<and> length v > unat (col_length col) then Inr None
        else Inr (Some (put_u16 [] (word_of_nat (length v)) @ map byte_of_char v)))
     else if attr_store (col_type col) = StoreCharPad then
       (let n = unat (col_length col)
        in if length v > n then Inr None
           else Inr (Some (map byte_of_char v @ replicate (n - length v) (byte_of_char (CHR '' '')))))
     else Inl (Raise Internal))"

definition encode_int :: "column_spec \<Rightarrow> i64 \<Rightarrow> bytes option res" where
  "encode_int col v =
    (if attr_store (col_type col) \<noteq> StoreFixed then Inl (Raise Internal)
     else if attr_width (col_type col) = 4 then
       (if sint v < INT32_MIN \<or> sint v > INT32_MAX then Inr None
        else Inr (Some (put_u32 [] (ucast v))))
     else if attr_width (col_type col) = 8 then
       Inr (Some (put_u32 (put_u32 [] (ucast v)) (ucast (drop_bit 32 v))))
     else Inl (Raise Internal))"

text \<open>The bytes one non-NULL column appends: the switch on the column's representation.\<close>

definition encode_col :: "column_spec \<Rightarrow> dbvalue \<Rightarrow> bytes option res" where
  "encode_col col val =
    (let t = col_type col in
     case attr_rep t of
       RepInt64 \<Rightarrow> (case get_int64 val of None \<Rightarrow> Inr None | Some v \<Rightarrow> encode_int col v)
     | RepDouble \<Rightarrow>
         (case get_double val of None \<Rightarrow> Inr None
          | Some v \<Rightarrow> if \<not> fp_isfinite F64 v then Inr None
                     else if attr_store t \<noteq> StoreFixed \<or> attr_width t \<noteq> 8 then Inl (Raise Internal)
                     else Inr (Some (put_u32 (put_u32 [] (ucast v)) (ucast (drop_bit 32 v)))))
     | RepStr \<Rightarrow> (case get_string val of None \<Rightarrow> Inr None | Some v \<Rightarrow> encode_str col v)
     | RepFloat \<Rightarrow>
         (case get_float val of None \<Rightarrow> Inr None
          | Some v \<Rightarrow> if \<not> fp_isfinite F32 v then Inr None
                     else if attr_store t \<noteq> StoreFixed \<or> attr_width t \<noteq> 4 then Inl (Raise Internal)
                     else Inr (Some (put_u32 [] v)))
     | RepBool \<Rightarrow>
         (case get_bool val of None \<Rightarrow> Inr None
          | Some v \<Rightarrow> if attr_store t \<noteq> StoreFixed \<or> attr_width t \<noteq> 1 then Inl (Raise Internal)
                     else Inr (Some [if v then 1 else 0]))
     | RepDec \<Rightarrow>
         (case get_decimal val of None \<Rightarrow> Inr None
          | Some d \<Rightarrow> if \<bar>unscaled d\<bar> \<ge> kNumericUnscaledMax then Inr None
                     else if attr_store t \<noteq> StoreDecimal then Inl (Raise Internal)
                     else Inr (Some (dec_bytes (unscaled d) @ [dscale d])))
     | RepNone \<Rightarrow> Inl (Raise Internal))"

definition set_null_bit :: "nat \<Rightarrow> bytes \<Rightarrow> bytes" where
  "set_null_bit i out = out[2 + i div 8 := out ! (2 + i div 8) OR push_bit (i mod 8) 1]"

fun encode_cols :: "nat \<Rightarrow> (column_spec \<times> dbvalue) list \<Rightarrow> bytes \<Rightarrow> bytes option res" where
  "encode_cols i [] out = Inr (Some out)"
| "encode_cols i ((col, v) # rest) out =
     (if vbox v = BNull then
        (if col_not_null col then Inr None else encode_cols (Suc i) rest (set_null_bit i out))
      else rbind (encode_col col v) (\<lambda>r. case r of
             None \<Rightarrow> Inr None
           | Some bs \<Rightarrow> encode_cols (Suc i) rest (out @ bs)))"

definition bitmap_len :: "nat \<Rightarrow> nat" where
  "bitmap_len n = (n + 7) div 8"

definition encode_row :: "column_spec list \<Rightarrow> dbvalue list \<Rightarrow> bytes option res" where
  "encode_row cols values =
    (if length cols \<noteq> length values then Inr None
     else rbind (encode_cols 0 (zip cols values) ([0, 0] @ replicate (bitmap_len (length cols)) 0))
       (\<lambda>r. case r of
          None \<Rightarrow> Inr None
        | Some out \<Rightarrow>
            let body_len = (word_of_nat (length out - 2) :: u16)
            in Inr (Some (out[0 := ucast (body_len AND 0xff),
                              1 := ucast (drop_bit 8 body_len AND 0xff)]))))"

section \<open>Decoding\<close>

definition decode_dec :: "bytes \<Rightarrow> int" where
  "decode_dec bs =
    (let mag = int (le_val bs)
     in if mag div 2 ^ 127 \<noteq> 0 then - (2 ^ 128 - mag) else mag)"

definition decode_col :: "column_spec \<Rightarrow> bytes \<Rightarrow> nat \<Rightarrow> (dbvalue \<times> nat) option res" where
  "decode_col col data pos =
    (let t = col_type col; len = length data in
     case attr_rep t of
       RepInt64 \<Rightarrow>
         (if attr_width t = 4 then
            (if pos + 4 > len then Inr None
             else Inr (Some (int_val t (scast (read_u32 data pos)), pos + 4)))
          else if attr_width t = 8 then
            (if pos + 8 > len then Inr None
             else Inr (Some (int_val t (ucast (read_u32 data pos)
                                        OR push_bit 32 (ucast (read_u32 data (pos + 4)))), pos + 8)))
          else Inl (Raise Internal))
     | RepDouble \<Rightarrow>
         (if pos + 8 > len then Inr None
          else Inr (Some (double_val t (ucast (read_u32 data pos)
                                        OR push_bit 32 (ucast (read_u32 data (pos + 4)))), pos + 8)))
     | RepStr \<Rightarrow>
         (if attr_store t = StoreVarLen then
            (if pos + 2 > len then Inr None
             else let slen = unat (read_u16 data pos); p = pos + 2
                  in if p + slen > len then Inr None
                     else Inr (Some (str_val t (map char_of_byte (get_at p slen data)), p + slen)))
          else if attr_store t = StoreCharPad then
            (let n = unat (col_length col)
             in if pos + n > len then Inr None
                else Inr (Some (str_val t (map char_of_byte (get_at pos n data)), pos + n)))
          else Inl (Raise Internal))
     | RepFloat \<Rightarrow>
         (if pos + 4 > len then Inr None
          else Inr (Some (float_val t (read_u32 data pos), pos + 4)))
     | RepBool \<Rightarrow>
         (if pos + 1 > len then Inr None
          else let b = data ! pos
               in if b > 1 then Inr None else Inr (Some (bool_val t (b \<noteq> 0), pos + 1)))
     | RepDec \<Rightarrow>
         (if pos + 17 > len then Inr None
          else let u = decode_dec (get_at pos 16 data)
               in if \<bar>u\<bar> \<ge> kNumericUnscaledMax then Inr None
                  else Inr (Some (numeric_val t u (data ! (pos + 16)), pos + 17)))
     | RepNone \<Rightarrow> Inl (Raise Internal))"

definition null_bit :: "byte \<Rightarrow> nat \<Rightarrow> bool" where
  "null_bit b k \<longleftrightarrow> drop_bit k b AND 1 \<noteq> 0"

fun decode_cols :: "nat \<Rightarrow> column_spec list \<Rightarrow> bytes \<Rightarrow> nat \<Rightarrow> dbvalue list option res" where
  "decode_cols i [] data pos = Inr (Some [])"
| "decode_cols i (col # cols) data pos =
     (if null_bit (data ! (2 + i div 8)) (i mod 8) then
        rbind (decode_cols (Suc i) cols data pos)
          (\<lambda>r. Inr (map_option (\<lambda>vs. typed_null (col_type col) # vs) r))
      else rbind (decode_col col data pos) (\<lambda>r. case r of
             None \<Rightarrow> Inr None
           | Some (v, pos') \<Rightarrow> rbind (decode_cols (Suc i) cols data pos')
               (\<lambda>r. Inr (map_option (\<lambda>vs. v # vs) r))))"

definition decode_row :: "column_spec list \<Rightarrow> bytes \<Rightarrow> dbvalue list option res" where
  "decode_row cols data =
    (if length data < 2 then Inr None
     else if unat (read_u16 data 0) + 2 \<noteq> length data then Inr None
     else if 2 + bitmap_len (length cols) > length data then Inr None
     else decode_cols 0 cols data (2 + bitmap_len (length cols)))"

section \<open>Round trip\<close>

lemma length_put [simp]: "length (put_u16 out v) = length out + 2"
  "length (put_u32 out w) = length out + 4"
  by (simp_all add: put_u16_def put_u32_def)

lemma put_u32_append: "put_u32 out v = out @ put_u32 [] v"
  by (simp add: put_u32_def)

lemma ucast_and_ff [simp]: "ucast (w AND 0xff) = (ucast (w :: 'a::len word) :: byte)"
proof (rule bit_word_eqI)
  fix n assume "n < LENGTH(8)"
  then have n: "n < 8" by simp
  have *: "(255 :: 'a word) = mask 8" by (simp add: mask_eq_exp_minus_1)
  show "bit (ucast (w AND 0xff) :: byte) n = bit (ucast w :: byte) n"
    unfolding * using n
    by (auto simp: bit_unsigned_iff bit_and_iff bit_mask_iff simp del: mask_numeral
             dest: bit_imp_le_length)
qed

lemma read_put_u16: "read_u16 (pre @ put_u16 [] v @ post) (length pre) = v"
proof (rule bit_word_eqI)
  fix n assume "n < LENGTH(16)"
  then consider "n < 8" | "8 \<le> n \<and> n < 16" by fastforce
  then show "bit (read_u16 (pre @ put_u16 [] v @ post) (length pre)) n = bit v n"
    by cases (auto simp: read_u16_def put_u16_def nth_append bit_simps)
qed

lemma read_put_u32: "read_u32 (pre @ put_u32 [] v @ post) (length pre) = v"
proof (rule bit_word_eqI)
  fix n assume "n < LENGTH(32)"
  then consider "n < 8" | "8 \<le> n \<and> n < 16" | "16 \<le> n \<and> n < 24" | "24 \<le> n \<and> n < 32" by fastforce
  then show "bit (read_u32 (pre @ put_u32 [] v @ post) (length pre)) n = bit v n"
    by cases (auto simp: read_u32_def put_u32_def nth_append bit_simps)
qed

lemma halves_u64: "ucast (ucast v :: u32) OR push_bit 32 (ucast (ucast (drop_bit 32 v) :: u32)) = (v :: u64)"
proof (rule bit_word_eqI)
  fix n assume "n < LENGTH(64)"
  then consider "n < 32" | "32 \<le> n \<and> n < 64" by fastforce
  then show "bit (ucast (ucast v :: u32) OR push_bit 32 (ucast (ucast (drop_bit 32 v) :: u32)) :: u64) n = bit v n"
    by cases (auto simp: bit_simps)
qed

lemma narrow_int32:
  assumes "INT32_MIN \<le> sint (v :: i64)" "sint v \<le> INT32_MAX"
  shows "scast (ucast v :: u32) = v"
proof -
  have "sint (ucast v :: u32) = signed_take_bit 31 (sint v)"
    by (simp add: signed_ucast_eq sint_uint [of v] signed_take_bit_signed_take_bit)
  also have "\<dots> = sint v"
    using assms by (simp add: signed_take_bit_int_eq_self_iff INT32_MIN_def INT32_MAX_def)
  finally show ?thesis
    by (simp add: scast_eq)
qed


lemma unat_NOT_byte: "unat (NOT (b :: byte)) = 255 - unat b"
proof -
  have "uint (NOT b) = take_bit 8 (NOT (uint b))" by (simp add: unsigned_not_eq)
  also have "\<dots> = (- uint b - 1) mod 256" by (simp add: not_int_def take_bit_eq_mod)
  also have "\<dots> = 255 - uint b"
  proof -
    have "uint b < 2 ^ LENGTH(8)" by (rule unsigned_less)
    moreover have "- 1 < uint b" using uint_nonnegative [of b] by linarith
    ultimately show ?thesis
      using mod_add_self2 [of "- uint b - 1" 256] mod_pos_pos_trivial [of "255 - uint b" 256] by simp
  qed
  finally have "int (unat (NOT b)) = 255 - int (unat b)" by simp
  then show ?thesis by linarith
qed

lemma unat_NOT_byte_Suc: "b \<noteq> 0 \<Longrightarrow> unat (NOT (b :: byte) + 1) = 256 - unat b"
proof -
  assume "b \<noteq> 0"
  then have "0 < unat b" by (simp add: unat_gt_0)
  have "unat (NOT b + 1) = (unat (NOT b) + 1) mod 256" by (simp add: unat_word_ariths)
  moreover have "255 - unat b + 1 = 256 - unat b" using unat_byte_less [of b] by linarith
  ultimately show ?thesis using \<open>0 < unat b\<close> by (simp add: unat_NOT_byte)
qed

lemma borrow_arith:
  fixes x v p :: nat
  assumes "x < 256" "v < p"
  shows "255 - x + 256 * (p - 1 - v) = 256 * p - 1 - (x + 256 * v)"
    and "256 - x + 256 * (p - 1 - v) = 256 * p - (x + 256 * v)"
  using assms by linarith+

lemma le_val_NOT: "le_val (map (\<lambda>x. NOT x) bs) = 256 ^ length bs - 1 - le_val bs"
proof (induction bs)
  case Nil
  then show ?case by simp
next
  case (Cons b bs)
  have "le_val bs < 256 ^ length bs" "unat b < 256" by (auto simp: le_val_less)
  from borrow_arith(1) [OF this(2,1)] show ?case using Cons by (simp add: unat_NOT_byte)
qed

lemma le_val_inc_carry_NOT:
  "le_val bs \<noteq> 0 \<Longrightarrow> le_val (inc_carry (map (\<lambda>x. NOT x) bs)) = 256 ^ length bs - le_val bs"
proof (induction bs)
  case Nil
  then show ?case by simp
next
  case (Cons b bs)
  have l: "le_val bs < 256 ^ length bs" "unat b < 256" by (auto simp: le_val_less)
  show ?case
  proof (cases "b = 0")
    case True
    then show ?thesis using Cons l by (simp add: diff_mult_distrib2)
  next
    case False
    have "0 < unat b" using False by (simp add: unat_gt_0)
    moreover have "unat (NOT b + 1) \<noteq> 0" using unat_NOT_byte_Suc [OF False] l(2) by linarith
    then have "NOT b + 1 \<noteq> 0" by auto
    moreover note borrow_arith(2) [OF l(2,1)]
    ultimately show ?thesis using False by (simp add: unat_NOT_byte_Suc le_val_NOT)
  qed
qed

lemma length_inc_carry [simp]: "length (inc_carry bs) = length bs"
  by (induction bs) auto

lemma le_bytes_map: "le_bytes n v = map (\<lambda>k. word_of_nat (v div 256 ^ k)) [0..<n]"
proof (induction n arbitrary: v)
  case 0
  then show ?case by simp
next
  case (Suc n)
  have "map (\<lambda>k. word_of_nat (v div 256 ^ k)) [0..<Suc n]
      = word_of_nat v # map (\<lambda>k. word_of_nat (v div 256 ^ Suc k) :: byte) [0..<n]"
    by (simp add: upt_rec [of 0] map_Suc_upt [symmetric] del: upt_Suc)
  then show ?case using Suc [of "v div 256"] by (simp add: div_mult2_eq)
qed

lemma mag_bytes: "map (\<lambda>k. word_of_int (drop_bit (k * 8) \<bar>u\<bar>) :: byte) [0..<n] = le_bytes n (nat \<bar>u\<bar>)"
proof -
  have "word_of_int (drop_bit (k * 8) \<bar>u\<bar>) = (word_of_nat (nat \<bar>u\<bar> div 256 ^ k) :: byte)" for k
  proof -
    have "(2::int) ^ (k * 8) = 256 ^ k" using power_mult [of "2::int" 8 k] by (simp add: mult.commute)
    then have "drop_bit (k * 8) \<bar>u\<bar> = int (nat \<bar>u\<bar> div 256 ^ k)"
      by (simp add: drop_bit_eq_div zdiv_int)
    then show ?thesis by simp
  qed
  then show ?thesis by (simp add: le_bytes_map)
qed

lemma length_dec_bytes [simp]: "length (dec_bytes u) = 16"
  by (simp add: dec_bytes_def Let_def)

lemma decode_dec_bytes:
  assumes "\<bar>u\<bar> < 2 ^ 127"
  shows "decode_dec (dec_bytes u) = u"
proof -
  have u: "nat \<bar>u\<bar> < 2 ^ 127" using assms by (simp add: nat_less_iff)
  then have v: "le_val (le_bytes 16 (nat \<bar>u\<bar>)) = nat \<bar>u\<bar>" by simp
  show ?thesis
  proof (cases "u < 0")
    case True
    then have d: "dec_bytes u = inc_carry (map (\<lambda>x. NOT x) (le_bytes 16 (nat \<bar>u\<bar>)))"
      unfolding dec_bytes_def mag_bytes by simp
    have "le_val (dec_bytes u) = 2 ^ 128 - nat \<bar>u\<bar>"
      unfolding d using True v by (subst le_val_inc_carry_NOT) simp_all
    then have "int (le_val (dec_bytes u)) = 2 ^ 128 + u" using True u by (simp add: of_nat_diff)
    moreover have "(2 ^ 128 + u) div 2 ^ 127 \<noteq> 0" using True assms by (simp add: div_eq_0_iff)
    ultimately show ?thesis by (simp add: decode_dec_def)
  next
    case False
    then have "dec_bytes u = le_bytes 16 (nat \<bar>u\<bar>)" unfolding dec_bytes_def mag_bytes by simp
    then show ?thesis using False v assms by (simp add: decode_dec_def)
  qed
qed

section \<open>Round trip of one column\<close>

text \<open>The value read back: the column's attribute, padded to the declared length for CHAR.\<close>

definition stored_box :: "column_spec \<Rightarrow> box \<Rightarrow> box" where
  "stored_box col b =
    (case b of
       BStr s \<Rightarrow> if attr_store (col_type col) = StoreCharPad
                 then BStr (s @ replicate (unat (col_length col) - length s) (CHR '' '')) else b
     | _ \<Rightarrow> b)"

definition stored :: "column_spec \<Rightarrow> dbvalue \<Rightarrow> dbvalue" where
  "stored col v = Value (col_type col) (stored_box col (vbox v))"

lemma read_put_u64:
  "read_u32 (pre @ put_u32 (put_u32 [] a) b @ post) (length pre) = a"
  "read_u32 (pre @ put_u32 (put_u32 [] a) b @ post) (length pre + 4) = b"
  using read_put_u32 [of pre a "put_u32 [] b @ post"]
    read_put_u32 [of "pre @ put_u32 [] a" b post]
  by (simp_all add: put_u32_append [of "put_u32 [] a"])

lemma numeric_max_less: "\<bar>u\<bar> < kNumericUnscaledMax \<Longrightarrow> \<bar>u\<bar> < 2 ^ 127"
  by (simp add: kNumericUnscaledMax_def)

lemma encode_int_decode:
  assumes "encode_int col v = Inr (Some bs)" "attr_rep (col_type col) = RepInt64"
  shows "decode_col col (pre @ bs @ post) (length pre)
           = Inr (Some (int_val (col_type col) v, length pre + length bs))"
proof (cases "attr_width (col_type col) = 4")
  case True
  with assms have "bs = put_u32 [] (ucast v)" and r: "INT32_MIN \<le> sint v" "sint v \<le> INT32_MAX"
    by (auto simp: encode_int_def split: if_splits)
  then show ?thesis using True assms(2) narrow_int32 [OF r]
    by (simp add: decode_col_def read_put_u32)
next
  case False
  with assms have "bs = put_u32 (put_u32 [] (ucast v)) (ucast (drop_bit 32 v))"
    and "attr_width (col_type col) = 8"
    by (auto simp: encode_int_def split: if_splits)
  then show ?thesis using assms(2) halves_u64 [of v]
    by (simp add: decode_col_def read_put_u64)
qed

lemma encode_str_decode:
  assumes "encode_str col s = Inr (Some bs)" "attr_rep (col_type col) = RepStr"
  shows "decode_col col (pre @ bs @ post) (length pre)
           = Inr (Some (Value (col_type col) (stored_box col (BStr s)), length pre + length bs))"
proof (cases "attr_store (col_type col) = StoreVarLen")
  case True
  with assms have b: "bs = put_u16 [] (word_of_nat (length s)) @ map byte_of_char s"
    and l: "length s \<le> 65535"
    by (auto simp: encode_str_def not_less split: if_splits)
  have "unat (word_of_nat (length s) :: u16) = length s" using l by (simp add: unat_of_nat)
  moreover have "get_at (length pre + 2) (length s) (pre @ bs @ post) = map byte_of_char s"
    unfolding b by (simp add: get_at_def)
  ultimately show ?thesis using True assms(2)
    by (simp add: decode_col_def b read_put_u16 stored_box_def str_val_def Let_def)
next
  case False
  with assms have c: "attr_store (col_type col) = StoreCharPad"
    and b: "bs = map byte_of_char (s @ replicate (unat (col_length col) - length s) (CHR '' ''))"
    and l: "length s \<le> unat (col_length col)"
    by (auto simp: encode_str_def not_less Let_def split: if_splits)
  have "length bs = unat (col_length col)" using l b by simp
  moreover have "get_at (length pre) (unat (col_length col)) (pre @ bs @ post) = bs"
    using calculation by (simp add: get_at_def)
  ultimately show ?thesis using c assms(2)
    by (simp add: decode_col_def stored_box_def str_val_def Let_def b)
qed

lemma encode_col_decode:
  assumes "encode_col col v = Inr (Some bs)"
  shows "decode_col col (pre @ bs @ post) (length pre) = Inr (Some (stored col v, length pre + length bs))"
proof (cases v)
  case (Value t b)
  show ?thesis
  proof (cases b)
    case BNull
    with Value assms show ?thesis by (auto simp: encode_col_def Let_def split: rep.splits)
  next
    case (BBool x)
    with Value assms show ?thesis
      by (auto simp: encode_col_def decode_col_def Let_def stored_def stored_box_def bool_val_def
            nth_append split: rep.splits if_splits)
  next
    case (BInt64 i)
    with Value assms show ?thesis
      by (auto simp: encode_col_def Let_def encode_int_decode stored_def stored_box_def int_val_def
          split: rep.splits)
  next
    case (BDouble d)
    with Value assms have r: "attr_rep (col_type col) = RepDouble"
      and b: "bs = put_u32 (put_u32 [] (ucast d)) (ucast (drop_bit 32 d))"
      by (auto simp: encode_col_def Let_def split: rep.splits if_splits)
    show ?thesis using r Value BDouble halves_u64 [of d]
      by (simp add: b decode_col_def read_put_u64 stored_def stored_box_def double_val_def)
  next
    case (BFloat f)
    with Value assms have r: "attr_rep (col_type col) = RepFloat" and b: "bs = put_u32 [] f"
      by (auto simp: encode_col_def Let_def split: rep.splits if_splits)
    show ?thesis using r Value BFloat
      by (simp add: b decode_col_def read_put_u32 stored_def stored_box_def float_val_def)
  next
    case (BStr s)
    with Value assms show ?thesis
      by (auto simp: encode_col_def Let_def encode_str_decode stored_def split: rep.splits)
  next
    case (BDec d)
    with Value assms have r: "attr_rep (col_type col) = RepDec"
      and u: "\<bar>unscaled d\<bar> < kNumericUnscaledMax" and b: "bs = dec_bytes (unscaled d) @ [dscale d]"
      by (auto simp: encode_col_def Let_def split: rep.splits if_splits)
    have "get_at (length pre) 16 (pre @ bs @ post) = dec_bytes (unscaled d)"
      unfolding b by (simp add: get_at_def)
    moreover have "(pre @ bs @ post) ! (length pre + 16) = dscale d"
      unfolding b by (simp add: nth_append)
    ultimately show ?thesis using r u Value BDec decode_dec_bytes [OF numeric_max_less [OF u]]
      by (simp add: b decode_col_def Let_def stored_def stored_box_def numeric_val_def)
  qed
qed

section \<open>Rows\<close>

fun set_nulls :: "nat \<Rightarrow> dbvalue list \<Rightarrow> bytes \<Rightarrow> bytes" where
  "set_nulls i [] out = out"
| "set_nulls i (v # vs) out =
     set_nulls (Suc i) vs (if vbox v = BNull then set_null_bit i out else out)"

text \<open>The data area an accepted row appends, column by column.\<close>

fun col_data :: "(column_spec \<times> dbvalue) list \<Rightarrow> bytes list option" where
  "col_data [] = Some []"
| "col_data ((c, v) # rest) =
     (if vbox v = BNull then (if col_not_null c then None else map_option (Cons []) (col_data rest))
      else case encode_col c v of
             Inr (Some bs) \<Rightarrow> map_option (Cons bs) (col_data rest)
           | _ \<Rightarrow> None)"

lemma length_set_null_bit [simp]: "length (set_null_bit i out) = length out"
  by (simp add: set_null_bit_def)

lemma length_set_nulls [simp]: "length (set_nulls i vs out) = length out"
  by (induction vs arbitrary: i out) auto

lemma set_null_bit_append:
  "2 + i div 8 < length out \<Longrightarrow> set_null_bit i (out @ xs) = set_null_bit i out @ xs"
  by (simp add: set_null_bit_def nth_append list_update_append1)

lemma set_nulls_append:
  "vs \<noteq> [] \<longrightarrow> 2 + (i + length vs - 1) div 8 < length out \<Longrightarrow>
   set_nulls i vs (out @ xs) = set_nulls i vs out @ xs"
proof (induction vs arbitrary: i out)
  case Nil
  then show ?case by simp
next
  case (Cons v vs)
  have "i div 8 \<le> (i + length (v # vs) - 1) div 8" by (intro div_le_mono) simp
  with Cons.prems have "2 + i div 8 < length out" by simp
  then show ?case using Cons by (simp add: set_null_bit_append)
qed

lemma encode_cols_data:
  assumes "encode_cols i cvs out = Inr (Some res)"
    and "cvs \<noteq> [] \<longrightarrow> 2 + (i + length cvs - 1) div 8 < length out"
  shows "\<exists>ds. col_data cvs = Some ds \<and> res = set_nulls i (map snd cvs) out @ concat ds"
  using assms
proof (induction cvs arbitrary: i out)
  case Nil
  then show ?case by simp
next
  case (Cons cv cvs)
  obtain c v where cv: "cv = (c, v)" by (cases cv)
  have le: "i div 8 \<le> (i + length cvs) div 8" by (intro div_le_mono) simp
  show ?case
  proof (cases "vbox v = BNull")
    case True
    with Cons show ?thesis by (fastforce simp: cv split: if_splits)
  next
    case False
    with Cons.prems(1) obtain bs where e: "encode_col c v = Inr (Some bs)"
      and r: "encode_cols (Suc i) cvs (out @ bs) = Inr (Some res)"
      by (auto simp: cv res_simps split: option.splits)
    from Cons.prems(2) Cons.IH [OF r] obtain ds where "col_data cvs = Some ds"
      and "res = set_nulls (Suc i) (map snd cvs) (out @ bs) @ concat ds" by auto
    moreover have "set_nulls (Suc i) (map snd cvs) (out @ bs) = set_nulls (Suc i) (map snd cvs) out @ bs"
      using Cons.prems(2) by (intro set_nulls_append) auto
    ultimately show ?thesis using False e by (simp add: cv)
  qed
qed

lemma null_bit_iff: "null_bit b k \<longleftrightarrow> bit b k"
  by (auto simp: null_bit_def bit_iff_odd_drop_bit and_one_eq odd_iff_mod_2_eq_one)

lemma bit_set_null_bit:
  assumes "2 + i div 8 < length out"
  shows "bit (set_null_bit i out ! (2 + j div 8)) (j mod 8)
           \<longleftrightarrow> i = j \<or> bit (out ! (2 + j div 8)) (j mod 8)"
proof (cases "i div 8 = j div 8")
  case True
  have "i = j \<longleftrightarrow> i mod 8 = j mod 8" using True by (metis div_mult_mod_eq)
  then show ?thesis using True assms
    by (auto simp: set_null_bit_def bit_simps)
next
  case False
  then show ?thesis by (auto simp: set_null_bit_def)
qed

lemma bit_set_nulls:
  assumes "vs \<noteq> [] \<longrightarrow> 2 + (i + length vs - 1) div 8 < length out"
  shows "bit (set_nulls i vs out ! (2 + j div 8)) (j mod 8)
           \<longleftrightarrow> (i \<le> j \<and> j < i + length vs \<and> vbox (vs ! (j - i)) = BNull)
              \<or> bit (out ! (2 + j div 8)) (j mod 8)"
  using assms
proof (induction vs arbitrary: i out)
  case Nil
  then show ?case by auto
next
  case (Cons v vs)
  have le: "i div 8 \<le> (i + length vs) div 8" by (intro div_le_mono) simp
  with Cons.prems have l: "2 + i div 8 < length out" by simp
  have IH: "bit (set_nulls (Suc i) vs out' ! (2 + j div 8)) (j mod 8)
           \<longleftrightarrow> (Suc i \<le> j \<and> j < Suc i + length vs \<and> vbox (vs ! (j - Suc i)) = BNull)
              \<or> bit (out' ! (2 + j div 8)) (j mod 8)" if "length out' = length out" for out'
    using Cons.prems that by (intro Cons.IH) auto
  have nth: "(v # vs) ! (j - i) = vs ! (j - Suc i)" if "Suc i \<le> j"
    using that by (simp add: nth_Cons' )
  show ?case
    using IH [of "set_null_bit i out"] IH [of out] bit_set_null_bit [OF l, of j] nth
    by (cases "i = j") (auto simp: less_Suc_eq_le Suc_le_eq)
qed

lemma decode_cols_data:
  assumes "col_data cvs = Some ds" and "data = pre @ concat ds @ post"
    and "\<And>k. k < length cvs \<Longrightarrow> null_bit (data ! (2 + (i + k) div 8)) ((i + k) mod 8)
                \<longleftrightarrow> vbox (snd (cvs ! k)) = BNull"
  shows "decode_cols i (map fst cvs) data (length pre) = Inr (Some (map (\<lambda>(c, v). stored c v) cvs))"
  using assms
proof (induction cvs arbitrary: i pre ds)
  case Nil
  then show ?case by simp
next
  case (Cons cv cvs)
  obtain c v where cv: "cv = (c, v)" by (cases cv)
  have nb: "null_bit (data ! (2 + i div 8)) (i mod 8) \<longleftrightarrow> vbox v = BNull"
    using Cons.prems(3) [of 0] by (simp add: cv)
  have nbs: "null_bit (data ! (2 + (Suc i + k) div 8)) ((Suc i + k) mod 8)
               \<longleftrightarrow> vbox (snd (cvs ! k)) = BNull" if "k < length cvs" for k
    using Cons.prems(3) [of "Suc k"] that by simp
  show ?case
  proof (cases "vbox v = BNull")
    case True
    with Cons.prems(1) obtain ds' where ds: "col_data cvs = Some ds'" "ds = [] # ds'"
      by (auto simp: cv split: if_splits)
    have "decode_cols (Suc i) (map fst cvs) data (length pre)
            = Inr (Some (map (\<lambda>(c, v). stored c v) cvs))"
      using Cons.IH [of ds' pre "Suc i"] Cons.prems(2) ds nbs by simp
    then show ?thesis using True nb
      by (simp add: cv stored_def stored_box_def typed_null_def)
  next
    case False
    with Cons.prems(1) obtain bs ds' where e: "encode_col c v = Inr (Some bs)"
      and ds: "col_data cvs = Some ds'" "ds = bs # ds'"
      by (auto simp: cv split: sum.splits option.splits)
    have d: "data = pre @ bs @ (concat ds' @ post)" using Cons.prems(2) ds by simp
    have "decode_cols (Suc i) (map fst cvs) data (length (pre @ bs))
            = Inr (Some (map (\<lambda>(c, v). stored c v) cvs))"
      using Cons.IH [of ds' "pre @ bs" "Suc i"] ds(1) d nbs by simp
    moreover have "decode_col c data (length pre) = Inr (Some (stored c v, length pre + length bs))"
      unfolding d by (rule encode_col_decode [OF e])
    ultimately show ?thesis using False nb by (simp add: cv)
  qed
qed

lemma bitmap_len_bound: "k < n \<Longrightarrow> k div 8 < bitmap_len n"
  unfolding bitmap_len_def by (rule less_le_trans [of _ "Suc (k div 8)"]) (auto simp: div_le_mono less_eq_div_iff_mult_less_eq)

lemma set_nulls_header:
  obtains x y where "set_nulls i vs (a # b # h) = x # y # drop 2 (set_nulls i vs (a # b # h))"
proof -
  have "length (set_nulls i vs (a # b # h)) = Suc (Suc (length h))" by simp
  then obtain x y t where "set_nulls i vs (a # b # h) = x # y # t" by (metis length_Suc_conv)
  with that show ?thesis by simp
qed

lemma encode_row_shape:
  assumes "encode_row cols vals = Inr (Some out)"
  obtains ds hdr where "length cols = length vals" and "col_data (zip cols vals) = Some ds"
    and "length hdr = bitmap_len (length cols)"
    and "out = put_u16 [] (word_of_nat (length out - 2)) @ hdr @ concat ds"
    and "\<And>k. k < length vals \<Longrightarrow> bit (hdr ! (k div 8)) (k mod 8) \<longleftrightarrow> vbox (vals ! k) = BNull"
proof -
  let ?n = "length cols"
  let ?h = "[0, 0] @ replicate (bitmap_len ?n) (0 :: byte)"
  from assms obtain res where l: "length cols = length vals"
    and r: "encode_cols 0 (zip cols vals) ?h = Inr (Some res)"
    and o: "out = res[0 := ucast (word_of_nat (length res - 2) AND 0xff :: u16),
                      1 := ucast (drop_bit 8 (word_of_nat (length res - 2)) AND 0xff :: u16)]"
    by (auto simp: encode_row_def res_simps Let_def split: if_splits option.splits)
  have b: "zip cols vals \<noteq> [] \<longrightarrow> 2 + (0 + length (zip cols vals) - 1) div 8 < length ?h"
    using l bitmap_len_bound [of "length vals - 1" "length vals"] by auto
  from encode_cols_data [OF r b] obtain ds where ds: "col_data (zip cols vals) = Some ds"
    and res: "res = set_nulls 0 vals ?h @ concat ds" using l by (auto simp: map_snd_zip)
  define hdr where "hdr = drop 2 (set_nulls 0 vals ?h)"
  obtain x y where sn: "set_nulls 0 vals ?h = [x, y] @ hdr"
    unfolding hdr_def using set_nulls_header [of 0 vals 0 0 "replicate (bitmap_len ?n) 0"] by auto
  have lh: "length hdr = bitmap_len ?n" by (simp add: hdr_def)
  have lo: "length out = length res" by (simp add: o)
  have out: "out = put_u16 [] (word_of_nat (length out - 2)) @ hdr @ concat ds"
  proof -
    have "res = x # y # hdr @ concat ds" using res sn by simp
    then show ?thesis unfolding lo unfolding o by (simp add: put_u16_def)
  qed
  have bits: "bit (hdr ! (k div 8)) (k mod 8) \<longleftrightarrow> vbox (vals ! k) = BNull" if k: "k < length vals" for k
  proof -
    have "k div 8 < bitmap_len ?n" using bitmap_len_bound [OF k] l by simp
    then have "\<not> bit (?h ! (2 + k div 8)) (k mod 8)" by (simp add: nth_append)
    moreover have "hdr ! (k div 8) = set_nulls 0 vals ?h ! (2 + k div 8)" unfolding sn by simp
    moreover have "vals \<noteq> [] \<longrightarrow> 2 + (0 + length vals - 1) div 8 < length ?h"
      using b l by auto
    ultimately show ?thesis using bit_set_nulls [of vals 0 ?h k] k by simp
  qed
  show ?thesis by (rule that [OF l ds lh out bits])
qed

lemma decode_encoded:
  assumes "encode_row cols vals = Inr (Some out)" and "length out \<le> 65537"
  shows "decode_row cols out = Inr (Some (map2 stored cols vals))"
proof -
  from encode_row_shape [OF assms(1)] obtain ds hdr where l: "length cols = length vals"
    and ds: "col_data (zip cols vals) = Some ds" and lh: "length hdr = bitmap_len (length cols)"
    and out: "out = put_u16 [] (word_of_nat (length out - 2)) @ hdr @ concat ds"
    and bits: "\<And>k. k < length vals \<Longrightarrow> bit (hdr ! (k div 8)) (k mod 8) \<longleftrightarrow> vbox (vals ! k) = BNull"
    by blast
  define w where "w = (word_of_nat (length out - 2) :: u16)"
  have lo: "2 + bitmap_len (length cols) \<le> length out" by (subst out) (simp add: lh)
  have uw: "unat w = length out - 2" using assms(2) unfolding w_def by (simp add: unat_of_nat)
  have o: "out = put_u16 [] w @ hdr @ concat ds" using out by (simp add: w_def)
  have r: "read_u16 out 0 = w" using read_put_u16 [of "[]" w "hdr @ concat ds"] o by simp
  have nth: "out ! (2 + k div 8) = hdr ! (k div 8)" if "k < length vals" for k
  proof -
    have "k div 8 < length hdr" using bitmap_len_bound [OF that] l lh by simp
    then show ?thesis by (subst o) (simp add: put_u16_def nth_append)
  qed
  have "decode_cols 0 (map fst (zip cols vals)) out (length (put_u16 [] w @ hdr))
          = Inr (Some (map (\<lambda>(c, v). stored c v) (zip cols vals)))"
    using o bits nth l by (intro decode_cols_data [OF ds, where post = "[]"]) (auto simp: null_bit_iff)
  then show ?thesis using lo l lh uw r by (simp add: decode_row_def map_fst_zip)
qed

text \<open>
  C29. Decoding what \<^verbatim>\<open>encode_row\<close> produced gives the stored row back: one value per column, typed by
  the column, with \<^verbatim>\<open>CHAR\<close> values padded to the declared length. The length prefix has 16 bits,
  hence the bound on the encoded row (a row is stored within one 4096-byte page).
\<close>

theorem decode_encode_row:
  assumes "encode_row cols vals = Inr (Some out)" and "length out \<le> 65537"
  shows "decode_row cols out = Inr (Some (map2 stored cols vals))"
  by (rule decode_encoded [OF assms])

section \<open>Acceptance and typing\<close>

text \<open>The values \<^verbatim>\<open>encode_row\<close> is meant to accept in a column, said without bytes.\<close>

definition box_fits :: "column_spec \<Rightarrow> box \<Rightarrow> bool" where
  "box_fits col b =
    (let t = col_type col in
     case (attr_rep t, b) of
       (RepInt64, BInt64 v) \<Rightarrow> attr_width t = 4 \<longrightarrow> INT32_MIN \<le> sint v \<and> sint v \<le> INT32_MAX
     | (RepDouble, BDouble v) \<Rightarrow> fp_isfinite F64 v
     | (RepFloat, BFloat v) \<Rightarrow> fp_isfinite F32 v
     | (RepStr, BStr s) \<Rightarrow>
         (if attr_store t = StoreVarLen
          then length s \<le> 65535 \<and> (col_length col > 0 \<longrightarrow> length s \<le> unat (col_length col))
          else length s \<le> unat (col_length col))
     | (RepBool, BBool _) \<Rightarrow> True
     | (RepDec, BDec d) \<Rightarrow> dec_ok d
     | _ \<Rightarrow> False)"

definition value_fits :: "column_spec \<Rightarrow> dbvalue \<Rightarrow> bool" where
  "value_fits col v = (if vbox v = BNull then \<not> col_not_null col else box_fits col (vbox v))"

text \<open>What a decoded value looks like: typed by its column, its alternative that of the representation.\<close>

definition box_typed :: "rep \<Rightarrow> box \<Rightarrow> bool" where
  "box_typed r b =
    (case (r, b) of
       (_, BNull) \<Rightarrow> True
     | (RepInt64, BInt64 _) \<Rightarrow> True
     | (RepDouble, BDouble _) \<Rightarrow> True
     | (RepFloat, BFloat _) \<Rightarrow> True
     | (RepStr, BStr _) \<Rightarrow> True
     | (RepBool, BBool _) \<Rightarrow> True
     | (RepDec, BDec d) \<Rightarrow> dec_ok d
     | _ \<Rightarrow> False)"

definition value_typed :: "column_spec \<Rightarrow> dbvalue \<Rightarrow> bool" where
  "value_typed col v \<longleftrightarrow> vtype v = col_type col \<and> box_typed (attr_rep (col_type col)) (vbox v)"

lemma encode_col_total:
  assumes "attr_coherent (col_type c)" and "vbox v \<noteq> BNull"
  shows "\<exists>r. encode_col c v = Inr r \<and> (r = None \<longleftrightarrow> \<not> box_fits c (vbox v))"
proof -
  obtain t b where v: "v = Value t b" by (cases v)
  note defs = v attr_coherent_def encode_col_def box_fits_def Let_def
  show ?thesis
  proof (cases "attr_rep (col_type c)")
    case RepStr
    then show ?thesis using assms by (cases b) (auto simp: defs encode_str_def)
  next
    case RepInt64
    then show ?thesis using assms by (cases b) (auto simp: defs encode_int_def)
  next
    case RepDec
    then show ?thesis using assms by (cases b) (auto simp: defs dec_ok_def)
  next
    case RepNone
    then show ?thesis using assms by (simp add: defs)
  next
    case RepFloat
    then show ?thesis using assms by (cases b) (auto simp: defs)
  next
    case RepDouble
    then show ?thesis using assms by (cases b) (auto simp: defs)
  next
    case RepBool
    then show ?thesis using assms by (cases b) (auto simp: defs)
  qed
qed

lemma encode_cols_total:
  assumes "\<forall>(c, v) \<in> set cvs. attr_coherent (col_type c)"
  shows "\<exists>r. encode_cols i cvs out = Inr r \<and> (r = None \<longleftrightarrow> \<not> (\<forall>(c, v) \<in> set cvs. value_fits c v))"
  using assms
proof (induction cvs arbitrary: i out)
  case Nil
  then show ?case by simp
next
  case (Cons cv cvs)
  obtain c v where cv: "cv = (c, v)" by (cases cv)
  have IH: "\<exists>r. encode_cols (Suc i) cvs out' = Inr r \<and> (r = None \<longleftrightarrow> \<not> (\<forall>(c, v) \<in> set cvs. value_fits c v))"
    for out' using Cons by simp
  show ?case
  proof (cases "vbox v = BNull")
    case True
    then show ?thesis using IH [of "set_null_bit i out"] by (auto simp: cv value_fits_def)
  next
    case False
    have "attr_coherent (col_type c)" using Cons.prems by (simp add: cv)
    then obtain r where r: "encode_col c v = Inr r" "r = None \<longleftrightarrow> \<not> box_fits c (vbox v)"
      using encode_col_total False by blast
    then show ?thesis using False IH by (cases r) (auto simp: cv value_fits_def)
  qed
qed

text \<open>
  On columns whose attributes are coherent \<^verbatim>\<open>encode_row\<close> never raises, and it returns false
  exactly when a value does not fit its column.
\<close>

theorem encode_row_accepts:
  assumes "\<forall>c \<in> set cols. attr_coherent (col_type c)"
  shows "\<exists>r. encode_row cols vals = Inr r \<and> (r = None \<longleftrightarrow> \<not> list_all2 value_fits cols vals)"
proof (cases "length cols = length vals")
  case True
  have "\<forall>(c, v) \<in> set (zip cols vals). attr_coherent (col_type c)"
    using assms by (auto dest: set_zip_leftD)
  from encode_cols_total [OF this, of 0 "[0, 0] @ replicate (bitmap_len (length cols)) 0"]
  obtain r where "encode_cols 0 (zip cols vals) ([0, 0] @ replicate (bitmap_len (length cols)) 0) = Inr r"
    and "r = None \<longleftrightarrow> \<not> list_all2 value_fits cols vals"
    using True by (auto simp: list_all2_iff)
  then show ?thesis using True by (cases r) (auto simp: encode_row_def Let_def)
next
  case False
  then show ?thesis by (auto simp: encode_row_def list_all2_iff)
qed

definition demo_cols :: "column_spec list" where
  "demo_cols = [\<lparr>col_name = ''id'', col_type = kInt, col_length = 0, col_not_null = True, col_scale = 0\<rparr>,
                \<lparr>col_name = ''tag'', col_type = kChar, col_length = 4, col_not_null = False, col_scale = 0\<rparr>,
                \<lparr>col_name = ''amt'', col_type = kNumeric, col_length = 10, col_not_null = False, col_scale = 2\<rparr>]"

definition demo_vals :: "dbvalue list" where
  "demo_vals = [int_val kBigint (- 7), str_val kVarChar ''ab'', numeric_val kNumeric (- 1250) 2]"

lemmas demo_defs = demo_cols_def demo_vals_def seed_attr_defs value_factories

lemma value_typed_null [simp]: "value_typed c (typed_null (col_type c))"
  by (simp add: value_typed_def box_typed_def typed_null_def split: rep.split)

lemma decode_col_total:
  assumes "attr_coherent (col_type c)"
  shows "\<exists>r. decode_col c data pos = Inr r \<and> (\<forall>v p. r = Some (v, p) \<longrightarrow> value_typed c v)"
  using assms
  by (cases "attr_rep (col_type c)")
     (auto simp: attr_coherent_def decode_col_def value_typed_def box_typed_def value_factories
        dec_ok_def Let_def)

text \<open>
  Whatever the bytes, \<^verbatim>\<open>decode_row\<close> on coherent columns ends without an error, and a row it
  returns has one value per column, typed by the column, its decimals within 38 digits.
\<close>

theorem decode_row_typed:
  assumes "\<forall>c \<in> set cols. attr_coherent (col_type c)"
  shows "\<exists>r. decode_row cols data = Inr r \<and> (\<forall>vs. r = Some vs \<longrightarrow> list_all2 value_typed cols vs)"
proof -
  have "\<exists>r. decode_cols i cols data pos = Inr r \<and> (\<forall>vs. r = Some vs \<longrightarrow> list_all2 value_typed cols vs)"
    for i pos using assms
  proof (induction cols arbitrary: i pos)
    case Nil
    then show ?case by simp
  next
    case (Cons c cols)
    from Cons.prems obtain r where r: "decode_col c data pos = Inr r"
      and t: "\<forall>v p. r = Some (v, p) \<longrightarrow> value_typed c v" using decode_col_total [of c data pos] by auto
    have IH: "\<exists>r. decode_cols (Suc i) cols data p = Inr r \<and> (\<forall>vs. r = Some vs \<longrightarrow> list_all2 value_typed cols vs)"
      for p using Cons by simp
    show ?case
    proof (cases "null_bit (data ! (2 + i div 8)) (i mod 8)")
      case True
      then show ?thesis using IH [of pos] by auto
    next
      case False
      show ?thesis
      proof (cases r)
        case None
        then show ?thesis using False r by simp
      next
        case (Some vp)
        then show ?thesis using False r t IH [of "snd vp"] by (cases vp) auto
      qed
    qed
  qed
  then show ?thesis by (simp add: decode_row_def)
qed

theorem decode_row_typed_witness:
  "\<exists>r. decode_row demo_cols [3, 0, 0, 1, 2] = Inr r \<and> (\<forall>vs. r = Some vs \<longrightarrow> list_all2 value_typed demo_cols vs)"
  by (rule decode_row_typed) (simp add: demo_defs attr_coherent_def)

theorem encode_row_accepts_witness:
  "\<exists>r. encode_row demo_cols demo_vals = Inr r \<and> (r = None \<longleftrightarrow> \<not> list_all2 value_fits demo_cols demo_vals)"
  by (rule encode_row_accepts) (simp add: demo_defs attr_coherent_def)

definition demo_row :: bytes where
  "demo_row = [26, 0, 0, 249, 255, 255, 255, 97, 98, 32, 32,
               30, 251, 255, 255, 255, 255, 255, 255, 255, 255, 255, 255, 255, 255, 255, 255, 2]"

lemma demo_encoded: "encode_row demo_cols demo_vals = Inr (Some demo_row)"
  by code_simp

theorem decode_encode_row_witness:
  "encode_row demo_cols demo_vals = Inr (Some demo_row)
   \<and> decode_row demo_cols demo_row = Inr (Some (map2 stored demo_cols demo_vals))"
  using decode_encode_row [OF demo_encoded] demo_encoded by (simp add: demo_row_def)

end
