(* ===== verification/Page.thy ===== *)
theory Page
  imports Codec
begin

text \<open>
  Pages and slots of src/storage/page.h and page.cpp: a page is a list of 4096 bytes, the header
  its first 24 (the C++ struct layout: magic 0, type 4, slot count 8, free begin 10, free end 12,
  next page 16, checksum 20), records grow upwards from the header, the slot array downwards from
  the end. Shown: the table-driven CRC is the bit-serial one and detects every change of one byte;
  a heap page implements a list of records (append, tombstone, compaction).
\<close>

section \<open>Fields in memory\<close>

definition rd16 :: "nat \<Rightarrow> bytes \<Rightarrow> u16" where "rd16 off p = word_of_nat (le_val (get_at off 2 p))"
definition rd32 :: "nat \<Rightarrow> bytes \<Rightarrow> u32" where "rd32 off p = word_of_nat (le_val (get_at off 4 p))"
definition rd64 :: "nat \<Rightarrow> bytes \<Rightarrow> u64" where "rd64 off p = word_of_nat (le_val (get_at off 8 p))"
definition wr16 :: "nat \<Rightarrow> u16 \<Rightarrow> bytes \<Rightarrow> bytes" where "wr16 off v p = put_at off (le_bytes 2 (unat v)) p"
definition wr32 :: "nat \<Rightarrow> u32 \<Rightarrow> bytes \<Rightarrow> bytes" where "wr32 off v p = put_at off (le_bytes 4 (unat v)) p"
definition wr64 :: "nat \<Rightarrow> u64 \<Rightarrow> bytes \<Rightarrow> bytes" where "wr64 off v p = put_at off (le_bytes 8 (unat v)) p"

lemmas field_defs = rd16_def rd32_def rd64_def wr16_def wr32_def wr64_def

section \<open>Checksums\<close>

definition crc_bit :: "u32 \<Rightarrow> u32" where
  "crc_bit c = (if c AND 1 = 1 then 0xedb88320 XOR drop_bit 1 c else drop_bit 1 c)"

definition crc_table :: "u32 list" where
  "crc_table = map (\<lambda>i. (crc_bit ^^ 8) (word_of_nat i)) [0..<256]"

definition crc_step :: "u32 \<Rightarrow> byte \<Rightarrow> u32" where
  "crc_step crc b = (crc_table ! unat ((crc XOR ucast b) AND 0xff)) XOR drop_bit 8 crc"

definition crc32 :: "bytes \<Rightarrow> u32" where
  "crc32 data = NOT (foldl crc_step 0xffffffff data)"

text \<open>The checksum field counts as zero.\<close>

definition page_checksum :: "bytes \<Rightarrow> u32" where
  "page_checksum page =
     NOT (foldl crc_step 0xffffffff
       (map (\<lambda>(i, b). if 20 \<le> i \<and> i < 24 then 0 else b) (enumerate 0 page)))"

section \<open>Header and slots\<close>

definition PAGE_HEADER_SIZE :: nat where "PAGE_HEADER_SIZE = 24"
definition SLOT_SIZE :: nat where "SLOT_SIZE = 4"
definition MAX_RECORD_LEN :: nat where "MAX_RECORD_LEN = 4096 - PAGE_HEADER_SIZE - SLOT_SIZE"

definition MAGIC_FILE_HEADER :: u32 where "MAGIC_FILE_HEADER = 0x54444146"
definition MAGIC_HEAP :: u32 where "MAGIC_HEAP = 0x50414548"
definition MAGIC_BTREE_LEAF :: u32 where "MAGIC_BTREE_LEAF = 0x464C5442"
definition MAGIC_BTREE_INTERNAL :: u32 where "MAGIC_BTREE_INTERNAL = 0x4E495442"

definition hd_magic :: "bytes \<Rightarrow> u32" where "hd_magic p = rd32 0 p"
definition hd_type :: "bytes \<Rightarrow> u8" where "hd_type p = p ! 4"
definition hd_slot_count :: "bytes \<Rightarrow> u16" where "hd_slot_count p = rd16 8 p"
definition hd_free_begin :: "bytes \<Rightarrow> u16" where "hd_free_begin p = rd16 10 p"
definition hd_free_end :: "bytes \<Rightarrow> u16" where "hd_free_end p = rd16 12 p"
definition hd_next_page :: "bytes \<Rightarrow> u32" where "hd_next_page p = rd32 16 p"
definition hd_checksum :: "bytes \<Rightarrow> u32" where "hd_checksum p = rd32 20 p"

definition set_magic :: "u32 \<Rightarrow> bytes \<Rightarrow> bytes" where "set_magic v p = wr32 0 v p"
definition set_type :: "u8 \<Rightarrow> bytes \<Rightarrow> bytes" where "set_type v p = put_at 4 [v] p"
definition set_slot_count :: "u16 \<Rightarrow> bytes \<Rightarrow> bytes" where "set_slot_count v p = wr16 8 v p"
definition set_free_begin :: "u16 \<Rightarrow> bytes \<Rightarrow> bytes" where "set_free_begin v p = wr16 10 v p"
definition set_free_end :: "u16 \<Rightarrow> bytes \<Rightarrow> bytes" where "set_free_end v p = wr16 12 v p"
definition set_next_page :: "u32 \<Rightarrow> bytes \<Rightarrow> bytes" where "set_next_page v p = wr32 16 v p"
definition set_checksum :: "u32 \<Rightarrow> bytes \<Rightarrow> bytes" where "set_checksum v p = wr32 20 v p"

text \<open>The closing statement of every page operation: recompute the checksum.\<close>

definition seal :: "bytes \<Rightarrow> bytes" where
  "seal p = set_checksum (page_checksum p) p"

definition init_page :: "u32 \<Rightarrow> page_type \<Rightarrow> bytes" where
  "init_page magic t =
    (let p = replicate PAGE_SIZE 0;
         p = set_magic magic p;
         p = set_type (page_type_code t) p;
         p = set_free_begin (word_of_nat PAGE_HEADER_SIZE) p;
         p = set_free_end (word_of_nat PAGE_SIZE) p
     in seal p)"

definition page_valid :: "bytes \<Rightarrow> u32 \<Rightarrow> bool" where
  "page_valid p magic = (if hd_magic p \<noteq> magic then False else hd_checksum p = page_checksum p)"

definition page_all_zero :: "bytes \<Rightarrow> bool" where
  "page_all_zero p \<longleftrightarrow> p = replicate PAGE_SIZE 0"

definition file_next_rowid :: "bytes \<Rightarrow> u64" where
  "file_next_rowid p = rd64 PAGE_HEADER_SIZE p"

definition set_file_next_rowid :: "u64 \<Rightarrow> bytes \<Rightarrow> bytes" where
  "set_file_next_rowid v p = wr64 PAGE_HEADER_SIZE v p"

definition slot_pos :: "u16 \<Rightarrow> nat" where
  "slot_pos i = PAGE_SIZE - SLOT_SIZE * (unat i + 1)"

definition slot_off :: "bytes \<Rightarrow> u16 \<Rightarrow> u16" where "slot_off p i = rd16 (slot_pos i) p"
definition slot_len :: "bytes \<Rightarrow> u16 \<Rightarrow> u16" where "slot_len p i = rd16 (slot_pos i + 2) p"

definition set_slot :: "u16 \<Rightarrow> u16 \<Rightarrow> u16 \<Rightarrow> bytes \<Rightarrow> bytes" where
  "set_slot i off len p = wr16 (slot_pos i + 2) len (wr16 (slot_pos i) off p)"

text \<open>The bytes of record \<^verbatim>\<open>i\<close>: the pointer the source returns, with the length of its slot.\<close>

definition page_record :: "bytes \<Rightarrow> u16 \<Rightarrow> bytes" where
  "page_record p i = get_at (unat (slot_off p i)) (unat (slot_len p i)) p"

definition free_space :: "bytes \<Rightarrow> u16" where
  "free_space p = hd_free_end p - hd_free_begin p"

section \<open>Heap page operations\<close>

definition heap_append :: "bytes \<Rightarrow> bytes \<Rightarrow> (bytes \<times> u16) option" where
  "heap_append p rec =
    (let rec_len = word_of_nat (length rec) :: u16;
         avail = ucast (hd_free_end p) - ucast (hd_free_begin p) :: u32
     in if ucast rec_len + word_of_nat SLOT_SIZE > avail then None
        else let off = hd_free_begin p;
                 p = put_at (unat off) rec p;
                 p = set_slot (hd_slot_count p) off rec_len p;
                 p = set_free_begin (off + rec_len) p;
                 p = set_free_end (hd_free_end p - word_of_nat SLOT_SIZE) p;
                 p = set_slot_count (hd_slot_count p + 1) p;
                 p = seal p
             in Some (p, hd_slot_count p - 1))"

definition slot_tombstone :: "bytes \<Rightarrow> u16 \<Rightarrow> bool" where
  "slot_tombstone p i \<longleftrightarrow> slot_off p i = 0 \<and> slot_len p i = 0"

definition heap_delete :: "u16 \<Rightarrow> bytes \<Rightarrow> bytes" where
  "heap_delete i p = seal (set_slot i 0 0 p)"

fun compact_loop :: "u16 list \<Rightarrow> bytes \<Rightarrow> u16 \<Rightarrow> u16 \<Rightarrow> bytes \<times> u16 \<times> u16" where
  "compact_loop [] p off dst = (p, off, dst)"
| "compact_loop (i # is) p off dst =
     (if slot_off p i = 0 \<and> slot_len p i = 0 then compact_loop is p off dst
      else let n = slot_len p i;
               p = put_at (unat off) (get_at (unat (slot_off p i)) (unat n) p) p;
               p = set_slot dst off n p
           in compact_loop is p (off + n) (dst + 1))"

definition heap_compact :: "bytes \<Rightarrow> bytes" where
  "heap_compact p =
    (let (p, off, dst) = compact_loop (map word_of_nat [0..<unat (hd_slot_count p)]) p
           (word_of_nat PAGE_HEADER_SIZE) 0;
         p = set_slot_count dst p;
         p = set_free_begin off p;
         p = set_free_end (word_of_nat (PAGE_SIZE - unat dst * SLOT_SIZE)) p
     in seal p)"

section \<open>The checksum as a bit-serial computation\<close>

lemma crc_bit_alt: "crc_bit c = drop_bit 1 c XOR (if bit c 0 then 0xedb88320 else 0)"
proof -
  have "(c AND 1 = 1) = bit c 0" by (simp add: and_one_eq bit_0 odd_iff_mod_2_eq_one)
  then show ?thesis by (simp add: crc_bit_def xor.commute)
qed

lemma crc_bit_xor: "crc_bit (a XOR b) = crc_bit a XOR crc_bit b"
  unfolding crc_bit_alt by (rule bit_eqI) (auto simp: bit_simps)

lemma crc_bits_xor: "(crc_bit ^^ n) (a XOR b) = (crc_bit ^^ n) a XOR (crc_bit ^^ n) b"
  by (induction n) (simp_all add: crc_bit_xor)

lemma crc_bit_top: "bit (crc_bit c) 31 = bit c 0"
proof -
  have "\<not> bit (drop_bit 1 c) 31" using bit_imp_le_length [of c 32] by (auto simp: bit_drop_bit_eq)
  then show ?thesis by (simp add: crc_bit_alt bit_xor_iff)
qed

lemma drop_bit_1_eq: "drop_bit 1 (a :: u32) = drop_bit 1 b \<Longrightarrow> bit a 0 = bit b 0 \<Longrightarrow> a = b"
proof (rule bit_eqI)
  fix n
  assume d: "drop_bit 1 a = drop_bit 1 b" "bit a 0 = bit b 0"
  from d(1) have "bit (drop_bit 1 a) (n - 1) = bit (drop_bit 1 b) (n - 1)" by simp
  then show "bit a n = bit b n" using d(2) by (cases n) (simp_all add: bit_drop_bit_eq)
qed

lemma xor_cancel: "a XOR k = b XOR k \<Longrightarrow> a = (b :: u32)"
proof -
  assume "a XOR k = b XOR k"
  then have "(a XOR k) XOR k = (b XOR k) XOR k" by simp
  then show "a = b" by (simp add: xor.assoc)
qed

lemma crc_bit_inj: "crc_bit a = crc_bit b \<Longrightarrow> a = b"
proof -
  assume e: "crc_bit a = crc_bit b"
  then have b: "bit a 0 = bit b 0" using crc_bit_top [of a] crc_bit_top [of b] by simp
  have "drop_bit 1 a = drop_bit 1 b" using e unfolding crc_bit_alt b by (rule xor_cancel)
  then show "a = b" using b by (rule drop_bit_1_eq)
qed

lemma crc_bits_inj: "(crc_bit ^^ n) a = (crc_bit ^^ n) b \<Longrightarrow> a = b"
  by (induction n) (auto dest: crc_bit_inj)

lemma crc_bits_high: "(\<forall>k < n. \<not> bit x k) \<Longrightarrow> (crc_bit ^^ n) x = drop_bit n x"
proof (induction n)
  case (Suc n)
  then have "(crc_bit ^^ n) x = drop_bit n x" by simp
  moreover have "\<not> bit (drop_bit n x) 0" using Suc.prems by (simp add: bit_drop_bit_eq)
  ultimately show ?case by (simp add: crc_bit_alt [of "drop_bit n x"])
qed simp

lemma crc_table_nth: "n < 256 \<Longrightarrow> crc_table ! n = (crc_bit ^^ 8) (word_of_nat n)"
  by (simp add: crc_table_def)

text \<open>One table step is eight bit steps on the register with the byte added in.\<close>

lemma crc_step_bits: "crc_step c b = (crc_bit ^^ 8) (c XOR ucast b)"
proof -
  define x where "x = c XOR ucast b"
  define lo where "lo = x AND 0xff"
  define hi where "hi = push_bit 8 (drop_bit 8 c)"
  have m: "(0xff :: u32) = mask 8" by (simp add: mask_eq_exp_minus_1)
  have x: "x = lo XOR hi"
    unfolding x_def lo_def hi_def m by (rule bit_eqI) (auto simp: bit_simps dest: bit_imp_le_length)
  have "unat lo < 2 ^ 8"
    unfolding lo_def m take_bit_eq_mask [symmetric] unsigned_take_bit_eq by (rule take_bit_nat_less_exp)
  then have t: "crc_table ! unat lo = (crc_bit ^^ 8) lo" by (simp add: crc_table_nth)
  have "(crc_bit ^^ 8) hi = drop_bit 8 hi" by (rule crc_bits_high) (simp add: hi_def bit_simps)
  also have "\<dots> = drop_bit 8 c"
    unfolding hi_def by (rule bit_eqI) (auto simp: bit_simps dest: bit_imp_le_length)
  finally show ?thesis unfolding crc_step_def x_def [symmetric] lo_def [symmetric] t
    unfolding x crc_bits_xor by simp
qed

definition crc_serial :: "bytes \<Rightarrow> u32" where
  "crc_serial data = NOT (foldl (\<lambda>c b. (crc_bit ^^ 8) (c XOR ucast b)) 0xffffffff data)"

lemma crc32_serial_eq: "crc32 data = crc_serial data"
proof -
  have "crc_step = (\<lambda>c b. (crc_bit ^^ 8) (c XOR ucast b))" by (intro ext crc_step_bits)
  then show ?thesis unfolding crc32_def crc_serial_def by simp
qed

lemma crc_step_inj: "crc_step c b = crc_step d b \<Longrightarrow> c = d" "crc_step c a = crc_step c b \<Longrightarrow> a = b"
proof -
  show "crc_step c b = crc_step d b \<Longrightarrow> c = d" unfolding crc_step_bits using xor_cancel crc_bits_inj by blast
  assume "crc_step c a = crc_step c b"
  then have "c XOR ucast a = c XOR (ucast b :: u32)" unfolding crc_step_bits by (rule crc_bits_inj)
  then have "ucast a = (ucast b :: u32)" unfolding xor.commute [of c] by (rule xor_cancel)
  moreover have "unat (ucast x :: u32) = unat x" for x :: byte
    unfolding unsigned_ucast_eq by (rule take_bit_nat_eq_self) (rule order_less_trans [OF unat_byte_less], simp)
  ultimately show "a = b" by (metis unsigned_word_eqI)
qed

lemma crc_fold_inj: "foldl crc_step c xs = foldl crc_step d xs \<Longrightarrow> c = d"
  by (induction xs arbitrary: c d) (auto dest: crc_step_inj)

lemma crc_fold_byte:
  assumes "i < length xs" and "foldl crc_step c xs = foldl crc_step c (xs[i := b])"
  shows "xs ! i = b"
proof -
  have "xs = take i xs @ xs ! i # drop (Suc i) xs" using assms(1) by (rule id_take_nth_drop)
  moreover have "xs[i := b] = take i xs @ b # drop (Suc i) xs" using assms(1) by (rule upd_conv_take_nth_drop)
  ultimately have "foldl crc_step (crc_step (foldl crc_step c (take i xs)) (xs ! i)) (drop (Suc i) xs)
    = foldl crc_step (crc_step (foldl crc_step c (take i xs)) b) (drop (Suc i) xs)"
    using assms(2) by (metis foldl_append foldl_Cons)
  then show ?thesis by (auto dest: crc_fold_inj crc_step_inj)
qed

lemma crc32_byte: "i < length xs \<Longrightarrow> crc32 xs = crc32 (xs[i := b]) \<Longrightarrow> xs ! i = b"
  unfolding crc32_def by (rule crc_fold_byte) (auto dest: arg_cong [where f = "\<lambda>x. NOT x"])

lemma page_checksum_alt:
  assumes "length p = PAGE_SIZE"
  shows "page_checksum p = crc32 (put_at 20 [0, 0, 0, 0] p)"
proof -
  have "map (\<lambda>(i, b). if 20 \<le> i \<and> i < 24 then 0 else b) (enumerate 0 p) = put_at 20 [0, 0, 0, 0] p"
  proof (rule nth_equalityI)
    show "length (map (\<lambda>(i, b). if 20 \<le> i \<and> i < 24 then 0 else b) (enumerate 0 p)) = length (put_at 20 [0, 0, 0, 0] p)"
      using assms by (simp add: buf_simps PAGE_SIZE_def)
    fix i
    assume i: "i < length (map (\<lambda>(i, b). if 20 \<le> i \<and> i < 24 then 0 else b) (enumerate 0 p))"
    have z: "[0, 0, 0, 0] ! (i - 20) = (0 :: byte)" if "20 \<le> i" "i < 24"
    proof -
      have "i - 20 < 4" using that by simp
      then show ?thesis by (auto simp: less_Suc_eq numeral_eq_Suc)
    qed
    show "map (\<lambda>(i, b). if 20 \<le> i \<and> i < 24 then 0 else b) (enumerate 0 p) ! i = put_at 20 [0, 0, 0, 0] p ! i"
      using i assms z by (simp add: nth_put_at nth_enumerate_eq PAGE_SIZE_def)
  qed
  then show ?thesis by (simp add: page_checksum_def crc32_def)
qed

section \<open>Reading fields after writes\<close>

lemma le2_less: "length bs = 2 \<Longrightarrow> le_val bs < 65536"
  using le_val_less [of bs] by simp

lemma le4_less: "length bs = 4 \<Longrightarrow> le_val bs < 4294967296"
  using le_val_less [of bs] by simp

lemma unat16_less: "unat (v :: u16) < 65536"
  by (rule order_less_le_trans [OF unsigned_less]) simp

lemma unat32_less: "unat (v :: u32) < 4294967296"
  by (rule order_less_le_trans [OF unsigned_less]) simp

lemma unat64_less: "unat (v :: u64) < 18446744073709551616"
  by (rule order_less_le_trans [OF unsigned_less]) simp

lemma le_word [simp]:
  "(word_of_nat (le_val (le_bytes 2 (unat a))) :: u16) = a" "(word_of_nat (le_val (le_bytes 4 (unat b))) :: u32) = b"
  "(word_of_nat (le_val (le_bytes 8 (unat c))) :: u64) = c"
  using unat16_less [of a] unat32_less [of b] unat64_less [of c] by simp_all

lemma rd_wr_same [buf_simps]:
  "off + 2 \<le> length p \<Longrightarrow> rd16 off (wr16 off a p) = a" "off + 4 \<le> length p \<Longrightarrow> rd32 off (wr32 off b p) = b"
  "off + 8 \<le> length p \<Longrightarrow> rd64 off (wr64 off c p) = c"
  by (simp_all add: field_defs buf_simps)

lemma length_wr [buf_simps]:
  "off + 2 \<le> length p \<Longrightarrow> length (wr16 off a p) = length p" "off + 4 \<le> length p \<Longrightarrow> length (wr32 off b p) = length p"
  "off + 8 \<le> length p \<Longrightarrow> length (wr64 off c p) = length p"
  by (simp_all add: field_defs buf_simps)

lemma get_wr [buf_simps]:
  "off + 2 \<le> length p \<Longrightarrow> o2 + n \<le> length p \<Longrightarrow> o2 + n \<le> off \<or> off + 2 \<le> o2 \<Longrightarrow> get_at o2 n (wr16 off a p) = get_at o2 n p"
  "off + 4 \<le> length p \<Longrightarrow> o2 + n \<le> length p \<Longrightarrow> o2 + n \<le> off \<or> off + 4 \<le> o2 \<Longrightarrow> get_at o2 n (wr32 off b p) = get_at o2 n p"
  "off + 8 \<le> length p \<Longrightarrow> o2 + n \<le> length p \<Longrightarrow> o2 + n \<le> off \<or> off + 8 \<le> o2 \<Longrightarrow> get_at o2 n (wr64 off c p) = get_at o2 n p"
  by (simp_all add: wr16_def wr32_def wr64_def get_put_disjoint)

text \<open>A field outside the written bytes keeps its value.\<close>

lemma rd_put [buf_simps]:
  "off + length bs \<le> length p \<Longrightarrow> o2 + 2 \<le> length p \<Longrightarrow> o2 + 2 \<le> off \<or> off + length bs \<le> o2 \<Longrightarrow>
     rd16 o2 (put_at off bs p) = rd16 o2 p"
  "off + length bs \<le> length p \<Longrightarrow> o2 + 4 \<le> length p \<Longrightarrow> o2 + 4 \<le> off \<or> off + length bs \<le> o2 \<Longrightarrow>
     rd32 o2 (put_at off bs p) = rd32 o2 p"
  "off + length bs \<le> length p \<Longrightarrow> o2 + 8 \<le> length p \<Longrightarrow> o2 + 8 \<le> off \<or> off + length bs \<le> o2 \<Longrightarrow>
     rd64 o2 (put_at off bs p) = rd64 o2 p"
  by (simp_all add: field_defs get_put_disjoint)

lemma rd16_wr [buf_simps]:
  "off + 2 \<le> length p \<Longrightarrow> o2 + 2 \<le> length p \<Longrightarrow> o2 + 2 \<le> off \<or> off + 2 \<le> o2 \<Longrightarrow> rd16 o2 (wr16 off a p) = rd16 o2 p"
  "off + 4 \<le> length p \<Longrightarrow> o2 + 2 \<le> length p \<Longrightarrow> o2 + 2 \<le> off \<or> off + 4 \<le> o2 \<Longrightarrow> rd16 o2 (wr32 off b p) = rd16 o2 p"
  "off + 8 \<le> length p \<Longrightarrow> o2 + 2 \<le> length p \<Longrightarrow> o2 + 2 \<le> off \<or> off + 8 \<le> o2 \<Longrightarrow> rd16 o2 (wr64 off c p) = rd16 o2 p"
  by (simp_all add: wr16_def wr32_def wr64_def rd_put)

lemma rd32_wr [buf_simps]:
  "off + 2 \<le> length p \<Longrightarrow> o2 + 4 \<le> length p \<Longrightarrow> o2 + 4 \<le> off \<or> off + 2 \<le> o2 \<Longrightarrow> rd32 o2 (wr16 off a p) = rd32 o2 p"
  "off + 4 \<le> length p \<Longrightarrow> o2 + 4 \<le> length p \<Longrightarrow> o2 + 4 \<le> off \<or> off + 4 \<le> o2 \<Longrightarrow> rd32 o2 (wr32 off b p) = rd32 o2 p"
  "off + 8 \<le> length p \<Longrightarrow> o2 + 4 \<le> length p \<Longrightarrow> o2 + 4 \<le> off \<or> off + 8 \<le> o2 \<Longrightarrow> rd32 o2 (wr64 off c p) = rd32 o2 p"
  by (simp_all add: wr16_def wr32_def wr64_def rd_put)

lemma rd64_wr [buf_simps]:
  "off + 2 \<le> length p \<Longrightarrow> o2 + 8 \<le> length p \<Longrightarrow> o2 + 8 \<le> off \<or> off + 2 \<le> o2 \<Longrightarrow> rd64 o2 (wr16 off a p) = rd64 o2 p"
  "off + 4 \<le> length p \<Longrightarrow> o2 + 8 \<le> length p \<Longrightarrow> o2 + 8 \<le> off \<or> off + 4 \<le> o2 \<Longrightarrow> rd64 o2 (wr32 off b p) = rd64 o2 p"
  "off + 8 \<le> length p \<Longrightarrow> o2 + 8 \<le> length p \<Longrightarrow> o2 + 8 \<le> off \<or> off + 8 \<le> o2 \<Longrightarrow> rd64 o2 (wr64 off c p) = rd64 o2 p"
  by (simp_all add: wr16_def wr32_def wr64_def rd_put)

lemmas page_consts = PAGE_SIZE_def PAGE_HEADER_SIZE_def SLOT_SIZE_def
lemmas header_defs = hd_magic_def hd_slot_count_def hd_free_begin_def hd_free_end_def
  hd_next_page_def hd_checksum_def set_magic_def set_type_def set_slot_count_def set_free_begin_def set_free_end_def
  set_next_page_def set_checksum_def

section \<open>Sealed pages\<close>

lemma length_seal [simp]: "length p = PAGE_SIZE \<Longrightarrow> length (seal p) = PAGE_SIZE"
  by (simp add: seal_def header_defs buf_simps page_consts)

lemma checksum_field: "length p = PAGE_SIZE \<Longrightarrow> page_checksum (set_checksum c p) = page_checksum p"
  by (simp add: page_checksum_alt set_checksum_def buf_simps page_consts)
     (simp add: wr32_def put_put_same)

lemma seal_valid [simp]:
  assumes "length p = PAGE_SIZE"
  shows "page_valid (seal p) m \<longleftrightarrow> hd_magic p = m"
  using assms checksum_field [OF assms] by (auto simp: page_valid_def seal_def header_defs buf_simps page_consts)

lemma get_seal:
  assumes "length p = PAGE_SIZE" "off + n \<le> PAGE_SIZE" "off + n \<le> 20 \<or> 24 \<le> off"
  shows "get_at off n (seal p) = get_at off n p"
  using assms by (simp add: seal_def set_checksum_def get_wr page_consts)

lemma rd_seal [buf_simps]:
  "length p = PAGE_SIZE \<Longrightarrow> off + 2 \<le> PAGE_SIZE \<Longrightarrow> off + 2 \<le> 20 \<or> 24 \<le> off \<Longrightarrow> rd16 off (seal p) = rd16 off p"
  "length p = PAGE_SIZE \<Longrightarrow> off + 4 \<le> PAGE_SIZE \<Longrightarrow> off + 4 \<le> 20 \<or> 24 \<le> off \<Longrightarrow> rd32 off (seal p) = rd32 off p"
  "length p = PAGE_SIZE \<Longrightarrow> off + 8 \<le> PAGE_SIZE \<Longrightarrow> off + 8 \<le> 20 \<or> 24 \<le> off \<Longrightarrow> rd64 off (seal p) = rd64 off p"
  by (simp_all add: rd16_def rd32_def rd64_def get_seal)

lemma nth_seal: "length p = PAGE_SIZE \<Longrightarrow> i < PAGE_SIZE \<Longrightarrow> i < 20 \<or> 24 \<le> i \<Longrightarrow> seal p ! i = p ! i"
  by (auto simp: seal_def set_checksum_def wr32_def nth_put_at page_consts)

section \<open>Heap pages as lists of records\<close>

text \<open>What slot \<^verbatim>\<open>k\<close> stands for: a tombstone, or the bytes of a record.\<close>

definition page_slot :: "bytes \<Rightarrow> nat \<Rightarrow> bytes option" where
  "page_slot p k = (if slot_tombstone p (word_of_nat k) then None else Some (page_record p (word_of_nat k)))"

definition page_slots :: "bytes \<Rightarrow> bytes option list" where
  "page_slots p = map (page_slot p) [0..<unat (hd_slot_count p)]"

text \<open>Live records lie between the header and \<^verbatim>\<open>free_begin\<close>, in slot order and disjoint.\<close>

definition slot_in :: "bytes \<Rightarrow> nat \<Rightarrow> bool" where
  "slot_in p k \<longleftrightarrow> slot_tombstone p (word_of_nat k) \<or>
     (24 \<le> unat (slot_off p (word_of_nat k)) \<and>
      unat (slot_off p (word_of_nat k)) + unat (slot_len p (word_of_nat k)) \<le> unat (hd_free_begin p))"

definition slots_ordered :: "bytes \<Rightarrow> nat \<Rightarrow> nat \<Rightarrow> bool" where
  "slots_ordered p j k \<longleftrightarrow> slot_tombstone p (word_of_nat j) \<or> slot_tombstone p (word_of_nat k) \<or>
     unat (slot_off p (word_of_nat j)) + unat (slot_len p (word_of_nat j)) \<le> unat (slot_off p (word_of_nat k))"

definition heap_ok :: "bytes \<Rightarrow> bool" where
  "heap_ok p \<longleftrightarrow> length p = PAGE_SIZE \<and> 24 \<le> unat (hd_free_begin p) \<and> unat (hd_free_begin p) \<le> unat (hd_free_end p)
     \<and> unat (hd_free_end p) + 4 * unat (hd_slot_count p) = PAGE_SIZE
     \<and> (\<forall>k < unat (hd_slot_count p). slot_in p k)
     \<and> (\<forall>k < unat (hd_slot_count p). \<forall>j < k. slots_ordered p j k)"

lemma unat_small16 [simp]: "k < 65536 \<Longrightarrow> unat (word_of_nat k :: u16) = k"
  by (simp add: unat_of_nat)

lemma slot_pos_nat: "k < 1024 \<Longrightarrow> slot_pos (word_of_nat k) = 4092 - 4 * k"
  by (simp add: slot_pos_def page_consts)

lemma get_at_split: "get_at off (m + n) p = get_at off m p @ get_at (off + m) n p"
  by (simp add: get_at_def take_add drop_drop add.commute)

text \<open>Slot and record are determined by the bytes of the slot and of the record area.\<close>

lemma slot_fields_cong:
  assumes "length p = PAGE_SIZE" "length q = PAGE_SIZE" "k < 1024"
    and "get_at (4092 - 4 * k) 4 q = get_at (4092 - 4 * k) 4 p"
  shows "slot_off q (word_of_nat k) = slot_off p (word_of_nat k)" "slot_len q (word_of_nat k) = slot_len p (word_of_nat k)"
proof -
  have "get_at (4092 - 4 * k) (2 + 2) q = get_at (4092 - 4 * k) (2 + 2) p" using assms(4) by simp
  then have "get_at (4092 - 4 * k) 2 q = get_at (4092 - 4 * k) 2 p \<and>
      get_at (4092 - 4 * k + 2) 2 q = get_at (4092 - 4 * k + 2) 2 p"
    using assms(1-3) unfolding get_at_split by (subst (asm) append_eq_append_conv) (simp_all add: length_get_at page_consts)
  then show "slot_off q (word_of_nat k) = slot_off p (word_of_nat k)" "slot_len q (word_of_nat k) = slot_len p (word_of_nat k)"
    using assms(3) by (simp_all add: slot_off_def slot_len_def slot_pos_nat rd16_def)
qed

lemma get_at_sub:
  assumes "get_at a n q = get_at a n p" "a \<le> off" "off + m \<le> a + n"
  shows "get_at off m q = get_at off m p"
proof -
  have "get_at off m x = get_at (off - a) m (get_at a n x)" for x
    unfolding get_at_def drop_take drop_drop take_take using assms(2,3) by (simp add: min_def)
  then show ?thesis using assms(1) by metis
qed

lemma page_slot_cong:
  assumes "length p = PAGE_SIZE" "length q = PAGE_SIZE" "k < 1024" "slot_in p k"
    and "get_at (4092 - 4 * k) 4 q = get_at (4092 - 4 * k) 4 p"
    and "get_at 24 (unat (hd_free_begin p) - 24) q = get_at 24 (unat (hd_free_begin p) - 24) p"
  shows "page_slot q k = page_slot p k" "slot_tombstone q (word_of_nat k) = slot_tombstone p (word_of_nat k)"
proof -
  note f = slot_fields_cong [OF assms(1-3,5)]
  show t: "slot_tombstone q (word_of_nat k) = slot_tombstone p (word_of_nat k)" by (simp add: slot_tombstone_def f)
  show "page_slot q k = page_slot p k"
  proof (cases "slot_tombstone p (word_of_nat k)")
    case False
    then have "page_record q (word_of_nat k) = page_record p (word_of_nat k)"
      unfolding page_record_def f using assms(4) by (intro get_at_sub [OF assms(6)]) (auto simp: slot_in_def)
    then show ?thesis by (simp add: page_slot_def t)
  qed (simp add: page_slot_def t)
qed

section \<open>Appending a record\<close>

lemma put_put_append: "off + length xs \<le> length p \<Longrightarrow> put_at (off + length xs) ys (put_at off xs p) = put_at off (xs @ ys) p"
  by (cases xs) (auto simp: put_at_def min_def ac_simps)

lemma set_slot_put:
  assumes "slot_pos i + 4 \<le> length p"
  shows "set_slot i a b p = put_at (slot_pos i) (le_bytes 2 (unat a) @ le_bytes 2 (unat b)) p"
  using put_put_append [of "slot_pos i" "le_bytes 2 (unat a)" p "le_bytes 2 (unat b)"] assms
  by (simp add: set_slot_def wr16_def)

lemma slot_bytes_length [simp]: "length (le_bytes 2 a @ le_bytes 2 b) = 4"
  by simp

lemma set_slot_simps [buf_simps]:
  "slot_pos i + 4 \<le> length p \<Longrightarrow> length (set_slot i a b p) = length p"
  "slot_pos i + 4 \<le> length p \<Longrightarrow> off + n \<le> length p \<Longrightarrow> off + n \<le> slot_pos i \<or> slot_pos i + 4 \<le> off \<Longrightarrow>
     get_at off n (set_slot i a b p) = get_at off n p"
  "slot_pos i + 4 \<le> length p \<Longrightarrow> off + 2 \<le> length p \<Longrightarrow> off + 2 \<le> slot_pos i \<or> slot_pos i + 4 \<le> off \<Longrightarrow>
     rd16 off (set_slot i a b p) = rd16 off p"
  "slot_pos i + 4 \<le> length p \<Longrightarrow> off + 4 \<le> length p \<Longrightarrow> off + 4 \<le> slot_pos i \<or> slot_pos i + 4 \<le> off \<Longrightarrow>
     rd32 off (set_slot i a b p) = rd32 off p"
  by (simp_all add: set_slot_put length_put_at get_put_disjoint rd_put del: length_append)

lemma set_slot_fields [buf_simps]:
  assumes "slot_pos i + 4 \<le> length p"
  shows "slot_off (set_slot i a b p) i = a" "slot_len (set_slot i a b p) i = b"
proof -
  have "slot_pos i + 2 + 2 \<le> length (wr16 (slot_pos i) a p)" using assms by (simp add: length_wr)
  then show "slot_off (set_slot i a b p) i = a" "slot_len (set_slot i a b p) i = b"
    using assms by (simp_all add: slot_off_def slot_len_def set_slot_def rd_wr_same rd16_wr)
qed

lemma heap_append_room:
  assumes "heap_ok p" "length rec \<le> MAX_RECORD_LEN"
  shows "heap_append p rec = None \<longleftrightarrow> unat (hd_free_begin p) + length rec + 4 > unat (hd_free_end p)"
proof -
  have b: "unat (hd_free_begin p) \<le> unat (hd_free_end p)" "unat (hd_free_end p) \<le> 4096" "length rec \<le> 4068"
    using assms by (auto simp: heap_ok_def MAX_RECORD_LEN_def page_consts)
  have u: "unat (ucast x :: u32) = unat x" for x :: u16
    unfolding unsigned_ucast_eq by (rule take_bit_nat_eq_self) (rule order_less_trans [OF unat16_less], simp)
  have "unat (ucast (hd_free_end p) - ucast (hd_free_begin p) :: u32) = unat (hd_free_end p) - unat (hd_free_begin p)"
    using b(1) by (subst unat_sub) (simp_all add: u word_le_nat_alt)
  moreover have "unat (ucast (word_of_nat (length rec) :: u16) + word_of_nat SLOT_SIZE :: u32) = length rec + 4"
    using b(3) by (simp add: u unat_word_ariths SLOT_SIZE_def unat_of_nat)
  ultimately show ?thesis using b by (auto simp: heap_append_def Let_def word_less_nat_alt)
qed

text \<open>The page after a successful append, with the header fields read from the old page.\<close>

definition appended :: "bytes \<Rightarrow> bytes \<Rightarrow> bytes" where
  "appended p rec = (let n = hd_slot_count p; off = hd_free_begin p; fe = hd_free_end p in
     seal (set_slot_count (n + 1) (set_free_end (fe - 4) (set_free_begin (off + word_of_nat (length rec))
       (set_slot n off (word_of_nat (length rec)) (put_at (unat off) rec p))))))"

lemma append_facts:
  assumes "heap_ok p" "unat (hd_free_begin p) + length rec + 4 \<le> unat (hd_free_end p)"
  defines "n \<equiv> unat (hd_slot_count p)" and "fb \<equiv> unat (hd_free_begin p)" and "fe \<equiv> unat (hd_free_end p)"
  shows "length p = PAGE_SIZE" "24 \<le> fb" "fb + length rec + 4 \<le> fe" "fe + 4 * n = 4096" "n < 1018" "fe \<le> 4096" "length rec \<le> 4068"
    "slot_pos (hd_slot_count p) = fe - 4"
  using assms by (auto simp: heap_ok_def page_consts slot_pos_def)

lemma heap_append_eq:
  assumes "heap_ok p" "unat (hd_free_begin p) + length rec + 4 \<le> unat (hd_free_end p)"
  shows "heap_append p rec = Some (appended p rec, hd_slot_count p)"
proof -
  note f = append_facts [OF assms]
  have "heap_append p rec \<noteq> None"
    using heap_append_room [OF assms(1), of rec] f assms(2) by (simp add: MAX_RECORD_LEN_def page_consts)
  then have e: "\<not> ucast (word_of_nat (length rec) :: u16) + word_of_nat SLOT_SIZE > (ucast (hd_free_end p) - ucast (hd_free_begin p) :: u32)"
    by (auto simp: heap_append_def Let_def split: if_splits)
  let ?p1 = "put_at (unat (hd_free_begin p)) rec p"
  have l: "length ?p1 = 4096" using f by (simp add: length_put_at page_consts)
  have c: "hd_slot_count ?p1 = hd_slot_count p" using f by (simp add: header_defs rd_put page_consts)
  let ?p3 = "set_free_begin (hd_free_begin p + word_of_nat (length rec)) (set_slot (hd_slot_count p) (hd_free_begin p) (word_of_nat (length rec)) ?p1)"
  have l3: "length ?p3 = 4096" using f l by (simp add: header_defs buf_simps)
  have e3: "hd_free_end ?p3 = hd_free_end p" "hd_slot_count ?p3 = hd_slot_count p"
    using f l by (simp_all add: header_defs buf_simps page_consts)
  have c4: "hd_slot_count (set_free_end v ?p3) = hd_slot_count p" for v
    using e3 l3 by (simp add: header_defs buf_simps)
  have c5: "hd_slot_count (seal (set_slot_count v (set_free_end w ?p3))) = v" for v w
    using l3 by (simp add: header_defs buf_simps page_consts)
  show ?thesis unfolding heap_append_def Let_def using e
    by (simp add: c c4 c5 e3 appended_def Let_def SLOT_SIZE_def)
qed

lemma appended_bytes:
  assumes "heap_ok p" "unat (hd_free_begin p) + length rec + 4 \<le> unat (hd_free_end p)"
  defines "fb \<equiv> unat (hd_free_begin p)" and "fe \<equiv> unat (hd_free_end p)"
  shows "length (appended p rec) = PAGE_SIZE"
    and "24 \<le> off \<Longrightarrow> off + m \<le> fb \<or> (fe \<le> off \<and> off + m \<le> 4096) \<Longrightarrow> get_at off m (appended p rec) = get_at off m p"
    and "get_at fb (length rec) (appended p rec) = rec"
    and "slot_off (appended p rec) (hd_slot_count p) = hd_free_begin p"
    and "slot_len (appended p rec) (hd_slot_count p) = word_of_nat (length rec)"
proof -
  note f = append_facts [OF assms(1,2), folded assms(3,4)]
  let ?p1 = "put_at fb rec p"
  let ?p2 = "set_slot (hd_slot_count p) (hd_free_begin p) (word_of_nat (length rec)) ?p1"
  let ?p5 = "set_slot_count (hd_slot_count p + 1) (set_free_end (hd_free_end p - 4) (set_free_begin (hd_free_begin p + word_of_nat (length rec)) ?p2))"
  have l1: "length ?p1 = 4096" using f by (simp add: length_put_at page_consts)
  have l2: "length ?p2 = 4096" using f l1 by (simp add: buf_simps)
  have l5: "length ?p5 = PAGE_SIZE" using l2 by (simp add: header_defs buf_simps page_consts)
  have a: "appended p rec = seal ?p5" by (simp add: appended_def Let_def assms(3))
  show "length (appended p rec) = PAGE_SIZE" unfolding a using l5 by simp
  have g: "get_at off m (appended p rec) = get_at off m ?p2" if "24 \<le> off" "off + m \<le> 4096" for off m
    unfolding a using that l5 l2 by (subst get_seal) (simp_all add: header_defs buf_simps page_consts)
  show "get_at off m (appended p rec) = get_at off m p" if "24 \<le> off" "off + m \<le> fb \<or> (fe \<le> off \<and> off + m \<le> 4096)" for off m
  proof -
    have b: "off + m \<le> 4096" using that f by linarith
    have "get_at off m ?p2 = get_at off m ?p1" using that f l1 by (intro set_slot_simps(2)) auto
    also have "\<dots> = get_at off m p" using that f by (intro get_put_disjoint) (auto simp: page_consts)
    finally show ?thesis using g [OF that(1) b] by simp
  qed
  have "get_at fb (length rec) ?p2 = get_at fb (length rec) ?p1" using f l1 by (intro set_slot_simps(2)) auto
  also have "\<dots> = rec" using f by (intro get_put_same) (auto simp: page_consts)
  finally show "get_at fb (length rec) (appended p rec) = rec" using g [of fb "length rec"] f by simp
  have s: "slot_off ?p2 (hd_slot_count p) = hd_free_begin p" "slot_len ?p2 (hd_slot_count p) = word_of_nat (length rec)"
    using f l1 by (simp_all add: set_slot_fields)
  have "get_at (fe - 4) 2 (appended p rec) = get_at (fe - 4) 2 ?p2" "get_at (fe - 4 + 2) 2 (appended p rec) = get_at (fe - 4 + 2) 2 ?p2"
    using f by (intro g; linarith)+
  then show "slot_off (appended p rec) (hd_slot_count p) = hd_free_begin p"
    "slot_len (appended p rec) (hd_slot_count p) = word_of_nat (length rec)"
    using s by (simp_all add: slot_off_def slot_len_def rd16_def f)
qed

lemma appended_header:
  assumes "heap_ok p" "unat (hd_free_begin p) + length rec + 4 \<le> unat (hd_free_end p)"
  shows "hd_slot_count (appended p rec) = hd_slot_count p + 1"
    and "hd_free_begin (appended p rec) = hd_free_begin p + word_of_nat (length rec)"
    and "hd_free_end (appended p rec) = hd_free_end p - 4"
    and "hd_next_page (appended p rec) = hd_next_page p" and "hd_magic (appended p rec) = hd_magic p"
    and "page_valid (appended p rec) m \<longleftrightarrow> hd_magic p = m"
proof -
  note f = append_facts [OF assms]
  let ?p1 = "put_at (unat (hd_free_begin p)) rec p"
  let ?p2 = "set_slot (hd_slot_count p) (hd_free_begin p) (word_of_nat (length rec)) ?p1"
  have l1: "length ?p1 = 4096" using f by (simp add: length_put_at page_consts)
  have l2: "length ?p2 = 4096" using f l1 by (simp add: buf_simps)
  have h: "rd32 16 ?p2 = rd32 16 p" "rd32 0 ?p2 = rd32 0 p"
    using f l1 by (simp_all add: buf_simps page_consts)
  show "hd_slot_count (appended p rec) = hd_slot_count p + 1"
    "hd_free_begin (appended p rec) = hd_free_begin p + word_of_nat (length rec)"
    "hd_free_end (appended p rec) = hd_free_end p - 4"
    "hd_next_page (appended p rec) = hd_next_page p" "hd_magic (appended p rec) = hd_magic p"
    using l2 h by (simp_all add: appended_def Let_def header_defs buf_simps page_consts)
  show "page_valid (appended p rec) m \<longleftrightarrow> hd_magic p = m"
    unfolding appended_def Let_def using l2 h
    by (subst seal_valid) (simp_all add: header_defs buf_simps page_consts)
qed

lemma append_unat:
  assumes "heap_ok p" "unat (hd_free_begin p) + length rec + 4 \<le> unat (hd_free_end p)"
  shows "unat (hd_slot_count p + 1) = unat (hd_slot_count p) + 1"
    and "unat (hd_free_begin p + word_of_nat (length rec)) = unat (hd_free_begin p) + length rec"
    and "unat (hd_free_end p - 4) = unat (hd_free_end p) - 4"
proof -
  note f = append_facts [OF assms]
  show "unat (hd_slot_count p + 1) = unat (hd_slot_count p) + 1" using f by (simp add: unat_word_ariths)
  show "unat (hd_free_begin p + word_of_nat (length rec)) = unat (hd_free_begin p) + length rec"
    using f by (simp add: unat_word_ariths unat_of_nat)
  show "unat (hd_free_end p - 4) = unat (hd_free_end p) - 4" using f by (subst unat_sub) (simp_all add: word_le_nat_alt)
qed

lemma heap_append_slots:
  assumes "heap_ok p" "unat (hd_free_begin p) + length rec + 4 \<le> unat (hd_free_end p)"
  shows "heap_ok (appended p rec)" "page_slots (appended p rec) = page_slots p @ [Some rec]"
proof -
  let ?q = "appended p rec"
  let ?n = "unat (hd_slot_count p)" and ?fb = "unat (hd_free_begin p)"
  note f = append_facts [OF assms] and b = appended_bytes [OF assms] and h = appended_header [OF assms] and u = append_unat [OF assms]
  have si: "slot_in p k" if "k < ?n" for k using assms(1) that by (simp add: heap_ok_def)
  have old: "get_at (4092 - 4 * k) 4 ?q = get_at (4092 - 4 * k) 4 p" if "k < ?n" for k using f that by (intro b(2)) auto
  have rec: "get_at 24 (?fb - 24) ?q = get_at 24 (?fb - 24) p" using f by (intro b(2)) auto
  have k: "k < 1024" if "k < ?n" for k using that f by simp
  note fields = slot_fields_cong [OF f(1) b(1) k old]
  note same = page_slot_cong [OF f(1) b(1) k si old rec]
  have nw: "word_of_nat ?n = hd_slot_count p" by simp
  have new: "slot_off ?q (word_of_nat ?n) = hd_free_begin p" "slot_len ?q (word_of_nat ?n) = word_of_nat (length rec)"
    unfolding nw by (rule b(4,5))+
  have len: "unat (word_of_nat (length rec) :: u16) = length rec" using f by simp
  have live: "\<not> slot_tombstone ?q (word_of_nat ?n)" using new f(2) by (auto simp: slot_tombstone_def)
  have "page_record ?q (word_of_nat ?n) = rec" unfolding page_record_def new len by (rule b(3))
  then show "page_slots ?q = page_slots p @ [Some rec]"
    using live same(1) by (simp add: page_slots_def h(1) u(1) page_slot_def [of ?q ?n])
  have "slot_in ?q k" if "k < ?n + 1" for k
  proof (cases "k = ?n")
    case True
    then show ?thesis unfolding slot_in_def h(2) u(2) by (simp only: new len) (use f in simp)
  next
    case False
    with that have k: "k < ?n" by simp
    show ?thesis using si [OF k] unfolding slot_in_def h(2) u(2) fields [OF k k] same(2) [OF k k k] by auto
  qed
  moreover have "slots_ordered ?q j k" if "k < ?n + 1" "j < k" for j k
  proof -
    have j: "j < ?n" using that by simp
    show ?thesis
    proof (cases "k = ?n")
      case True
      then show ?thesis using si [OF j] unfolding slots_ordered_def fields [OF j j] same(2) [OF j j j] True new(1)
        by (auto simp: slot_in_def)
    next
      case False
      with that have k: "k < ?n" by simp
      have "slots_ordered p j k" using assms(1) k that by (simp add: heap_ok_def)
      then show ?thesis unfolding slots_ordered_def fields [OF j j] fields [OF k k] same(2) [OF j j j] same(2) [OF k k k] .
    qed
  qed
  ultimately show "heap_ok ?q" unfolding heap_ok_def h(1-3) u using f b(1) by (simp add: page_consts)
qed

section \<open>Deleting and compacting\<close>

lemma page_slot_same:
  assumes "length p = PAGE_SIZE" "length q = PAGE_SIZE" "k < 1024" "get_at (4092 - 4 * k) 4 q = get_at (4092 - 4 * k) 4 p"
    and "\<not> slot_tombstone p (word_of_nat k) \<Longrightarrow>
      get_at (unat (slot_off p (word_of_nat k))) (unat (slot_len p (word_of_nat k))) q
      = get_at (unat (slot_off p (word_of_nat k))) (unat (slot_len p (word_of_nat k))) p"
  shows "page_slot q k = page_slot p k"
proof -
  note f = slot_fields_cong [OF assms(1-4)]
  have "slot_tombstone q (word_of_nat k) = slot_tombstone p (word_of_nat k)" by (simp add: slot_tombstone_def f)
  then show ?thesis using assms(5) by (simp add: page_slot_def page_record_def f)
qed

lemma heap_delete_slots:
  assumes "heap_ok p" "unat i < unat (hd_slot_count p)"
  shows "heap_ok (heap_delete i p)" "page_slots (heap_delete i p) = (page_slots p)[unat i := None]"
    and "hd_next_page (heap_delete i p) = hd_next_page p" "hd_magic (heap_delete i p) = hd_magic p"
    and "page_valid (heap_delete i p) m \<longleftrightarrow> hd_magic p = m"
proof -
  let ?q = "heap_delete i p" and ?n = "unat (hd_slot_count p)"
  have f: "length p = PAGE_SIZE" "24 \<le> unat (hd_free_begin p)" "unat (hd_free_begin p) \<le> unat (hd_free_end p)"
    "unat (hd_free_end p) + 4 * ?n = 4096" "?n < 1019" using assms by (auto simp: heap_ok_def page_consts)
  have ps: "slot_pos i = 4092 - 4 * unat i" "slot_pos i + 4 \<le> 4096" "24 \<le> slot_pos i" "unat (hd_free_end p) \<le> slot_pos i"
    using assms(2) f by (auto simp: slot_pos_def page_consts)
  have l: "length (set_slot i 0 0 p) = PAGE_SIZE" using ps f by (simp add: set_slot_simps page_consts)
  have h: "hd_slot_count ?q = hd_slot_count p" "hd_free_begin ?q = hd_free_begin p" "hd_free_end ?q = hd_free_end p"
    "hd_next_page ?q = hd_next_page p" "hd_magic ?q = hd_magic p"
    using l ps f by (simp_all add: heap_delete_def header_defs buf_simps page_consts)
  then show "hd_next_page ?q = hd_next_page p" "hd_magic ?q = hd_magic p" by simp_all
  show "page_valid ?q m \<longleftrightarrow> hd_magic p = m"
    unfolding heap_delete_def seal_valid [OF l] using l ps f by (simp add: header_defs buf_simps page_consts)
  have lq: "length ?q = PAGE_SIZE" using l by (simp add: heap_delete_def)
  have g: "get_at off m ?q = get_at off m p" if "24 \<le> off" "off + m \<le> 4096" "off + m \<le> slot_pos i \<or> slot_pos i + 4 \<le> off" for off m
    unfolding heap_delete_def using that l ps f by (subst get_seal) (simp_all add: buf_simps page_consts)
  have old: "get_at (4092 - 4 * k) 4 ?q = get_at (4092 - 4 * k) 4 p" if "k < ?n" "k \<noteq> unat i" for k
    using that f ps assms(2) by (intro g) auto
  have rec: "get_at 24 (unat (hd_free_begin p) - 24) ?q = get_at 24 (unat (hd_free_begin p) - 24) p"
    using f ps by (intro g) auto
  have si: "slot_in p k" if "k < ?n" for k using assms(1) that by (simp add: heap_ok_def)
  have k: "k < 1024" if "k < ?n" for k using that f by simp
  note fields = slot_fields_cong [OF f(1) lq k old]
  note same = page_slot_cong [OF f(1) lq k si old rec]
  have d: "slot_tombstone ?q i"
  proof -
    have "get_at (slot_pos i) 2 ?q = get_at (slot_pos i) 2 (set_slot i 0 0 p)" "get_at (slot_pos i + 2) 2 ?q = get_at (slot_pos i + 2) 2 (set_slot i 0 0 p)"
      unfolding heap_delete_def using l ps f by (intro get_seal; simp add: page_consts)+
    moreover have "slot_off (set_slot i 0 0 p) i = 0" "slot_len (set_slot i 0 0 p) i = 0"
      using ps f by (simp_all add: set_slot_fields page_consts)
    ultimately show ?thesis by (simp add: slot_tombstone_def slot_off_def slot_len_def rd16_def)
  qed
  then have di: "slot_tombstone ?q (word_of_nat (unat i))" by simp
  have "page_slot ?q k = (if k = unat i then None else page_slot p k)" if "k < ?n" for k
    using same(1) [OF that that that] di by (auto simp: page_slot_def)
  then show "page_slots ?q = (page_slots p)[unat i := None]"
    by (intro nth_equalityI) (auto simp: page_slots_def h nth_list_update)
  have "slot_in ?q k" if "k < ?n" for k
    using si [OF that] di fields [OF that that] same(2) [OF that that that] by (cases "k = unat i") (auto simp: slot_in_def h)
  moreover have "slots_ordered ?q j k" if "k < ?n" "j < k" for j k
  proof (cases "k = unat i \<or> j = unat i")
    case True
    then show ?thesis using di by (auto simp: slots_ordered_def)
  next
    case False
    have j: "j < ?n" using that by simp
    have "slots_ordered p j k" using assms(1) that by (simp add: heap_ok_def)
    then show ?thesis using False fields [OF j j] fields [OF that(1) that(1)] same(2) [OF j j j] same(2) [OF that(1) that(1) that(1)]
      by (simp add: slots_ordered_def)
  qed
  ultimately show "heap_ok ?q" unfolding heap_ok_def h using f lq by (simp add: page_consts)
qed

text \<open>
  State of the compaction loop before slot \<^verbatim>\<open>i\<close> of \<^verbatim>\<open>n\<close>: the first \<^verbatim>\<open>dst\<close> slots are final and lie
  below \<^verbatim>\<open>off\<close>; the slots from \<^verbatim>\<open>i\<close> on are untouched and their records lie at \<^verbatim>\<open>off\<close> or above.
\<close>

definition so :: "bytes \<Rightarrow> nat \<Rightarrow> nat" where "so p k = unat (slot_off p (word_of_nat k))"
definition sl :: "bytes \<Rightarrow> nat \<Rightarrow> nat" where "sl p k = unat (slot_len p (word_of_nat k))"
definition tomb :: "bytes \<Rightarrow> nat \<Rightarrow> bool" where "tomb p k = slot_tombstone p (word_of_nat k)"

definition packed :: "bytes \<Rightarrow> nat \<Rightarrow> nat \<Rightarrow> bool" where
  "packed p off dst \<longleftrightarrow> (\<forall>k < dst. \<not> tomb p k \<and> 24 \<le> so p k \<and> so p k + sl p k \<le> off)
     \<and> (\<forall>k < dst. \<forall>j < k. so p j + sl p j \<le> so p k)"

definition pending :: "bytes \<Rightarrow> nat \<Rightarrow> nat \<Rightarrow> nat \<Rightarrow> nat \<Rightarrow> bool" where
  "pending p off fb i n \<longleftrightarrow> (\<forall>k. i \<le> k \<and> k < n \<and> \<not> tomb p k \<longrightarrow> off \<le> so p k \<and> so p k + sl p k \<le> fb)
     \<and> (\<forall>k. k < n \<longrightarrow> (\<forall>j. i \<le> j \<and> j < k \<longrightarrow> tomb p j \<or> tomb p k \<or> so p j + sl p j \<le> so p k))"

lemma slot_same_fields:
  assumes "length p = PAGE_SIZE" "length q = PAGE_SIZE" "k < 1024" "get_at (4092 - 4 * k) 4 q = get_at (4092 - 4 * k) 4 p"
  shows "so q k = so p k" "sl q k = sl p k" "tomb q k = tomb p k"
  using slot_fields_cong [OF assms] by (simp_all add: so_def sl_def tomb_def slot_tombstone_def)

lemma page_slot_alt: "page_slot p k = (if tomb p k then None else Some (get_at (so p k) (sl p k) p))"
  by (simp add: page_slot_def tomb_def so_def sl_def page_record_def)

text \<open>One iteration on a live slot.\<close>

definition compact_move :: "nat \<Rightarrow> bytes \<Rightarrow> u16 \<Rightarrow> u16 \<Rightarrow> bytes" where
  "compact_move i p off dst =
     set_slot dst off (slot_len p (word_of_nat i)) (put_at (unat off) (get_at (so p i) (sl p i) p) p)"

lemma compact_move_bytes:
  assumes "length p = PAGE_SIZE" "n < 1019" "i < n" "unat dst \<le> i" "24 \<le> unat off" "unat off \<le> so p i" "so p i + sl p i \<le> 4096 - 4 * n"
  defines "q \<equiv> compact_move i p off dst"
  shows "length q = PAGE_SIZE" "so q (unat dst) = unat off" "sl q (unat dst) = sl p i"
    and "get_at (unat off) (sl p i) q = get_at (so p i) (sl p i) p"
    and "o2 + m \<le> unat off \<or> (unat off + sl p i \<le> o2 \<and> o2 + m \<le> 4096 - 4 * n) \<Longrightarrow> get_at o2 m q = get_at o2 m p"
    and "k < n \<Longrightarrow> k \<noteq> unat dst \<Longrightarrow> get_at (4092 - 4 * k) 4 q = get_at (4092 - 4 * k) 4 p"
proof -
  let ?r = "get_at (so p i) (sl p i) p" and ?p1 = "put_at (unat off) (get_at (so p i) (sl p i) p) p"
  have lr: "length ?r = sl p i" using assms by (intro length_get_at) (simp add: page_consts)
  have l1: "length ?p1 = 4096" using assms lr by (simp add: length_put_at page_consts)
  have ps: "slot_pos dst = 4092 - 4 * unat dst" by (simp add: slot_pos_def page_consts)
  have b: "unat dst < n" "4096 - 4 * n \<le> slot_pos dst" "slot_pos dst + 4 \<le> 4096" using assms by (auto simp: ps)
  show "length q = PAGE_SIZE" using b l1 by (simp add: q_def compact_move_def set_slot_simps page_consts)
  have "slot_off q dst = off" "slot_len q dst = slot_len p (word_of_nat i)"
    using b l1 by (simp_all add: q_def compact_move_def set_slot_fields)
  then show "so q (unat dst) = unat off" "sl q (unat dst) = sl p i" by (simp_all add: so_def sl_def)
  have g: "get_at o2 m q = get_at o2 m ?p1" if "o2 + m \<le> 4096 - 4 * n" for o2 m
    using that b l1 by (simp add: q_def compact_move_def set_slot_simps)
  show "get_at (unat off) (sl p i) q = ?r" using g [of "unat off" "sl p i"] assms lr
    by (simp add: get_put_same page_consts)
  show "get_at o2 m q = get_at o2 m p" if "o2 + m \<le> unat off \<or> (unat off + sl p i \<le> o2 \<and> o2 + m \<le> 4096 - 4 * n)"
    using that g [of o2 m] assms lr by (subst g) (auto simp: page_consts intro!: get_put_disjoint)
  show "get_at (4092 - 4 * k) 4 q = get_at (4092 - 4 * k) 4 p" if "k < n" "k \<noteq> unat dst"
  proof -
    have "get_at (4092 - 4 * k) 4 q = get_at (4092 - 4 * k) 4 ?p1"
      unfolding q_def compact_move_def using that b l1 assms(2) ps by (intro set_slot_simps(2)) auto
    also have "\<dots> = get_at (4092 - 4 * k) 4 p" using that assms lr by (intro get_put_disjoint) (auto simp: page_consts)
    finally show ?thesis .
  qed
qed

lemma compact_move_step:
  assumes "length p = PAGE_SIZE" "n < 1019" "i < n" "unat dst \<le> i" "24 \<le> unat off" "fb \<le> 4096 - 4 * n"
    and "\<not> tomb p i" "packed p (unat off) (unat dst)" "pending p (unat off) fb i n"
  defines "q \<equiv> compact_move i p off dst"
  shows "length q = PAGE_SIZE" "get_at 0 24 q = get_at 0 24 p"
    and "packed q (unat off + sl p i) (unat dst + 1)" "pending q (unat off + sl p i) fb (Suc i) n"
    and "k < unat dst \<Longrightarrow> page_slot q k = page_slot p k" "page_slot q (unat dst) = page_slot p i"
    and "i < k \<Longrightarrow> k < n \<Longrightarrow> page_slot q k = page_slot p k" "unat off + sl p i \<le> fb"
proof -
  have pi: "unat off \<le> so p i" "so p i + sl p i \<le> fb" using assms by (auto simp: pending_def)
  note b = compact_move_bytes [OF assms(1-5) pi(1) order_trans [OF pi(2) assms(6)], folded q_def]
  show "length q = PAGE_SIZE" by (rule b(1))
  show "get_at 0 24 q = get_at 0 24 p" using assms(5) by (intro b(5)) simp
  show "unat off + sl p i \<le> fb" using pi by simp
  have slot: "so q k = so p k" "sl q k = sl p k" "tomb q k = tomb p k" if "k < n" "k \<noteq> unat dst" for k
    using that assms(2) b(6) [OF that] slot_same_fields [OF assms(1) b(1), of k] by simp_all
  have lt: "k < n" "k \<noteq> unat dst" if "k < unat dst" for k using that assms by auto
  have gt: "k \<noteq> unat dst" if "i < k" for k using that assms(4) by simp
  have d: "\<not> tomb q (unat dst)" using b(2) assms(5) by (auto simp: tomb_def slot_tombstone_def so_def)
  have old: "24 \<le> so p k \<and> so p k + sl p k \<le> unat off \<and> \<not> tomb p k" if "k < unat dst" for k
    using assms(8) that by (simp add: packed_def)
  have new: "unat off + sl p i \<le> so p k \<and> so p k + sl p k \<le> fb" if "i < k" "k < n" "\<not> tomb p k" for k
  proof -
    have "so p i + sl p i \<le> so p k" "so p k + sl p k \<le> fb" using assms(7,9) that by (auto simp: pending_def)
    then show ?thesis using pi(1) by simp
  qed
  show "page_slot q k = page_slot p k" if "k < unat dst"
    using slot [OF lt [OF that]] old [OF that] by (auto simp: page_slot_alt intro!: b(5))
  show "page_slot q k = page_slot p k" if "i < k" "k < n"
    using slot [OF that(2) gt [OF that(1)]] new [OF that] assms(6) by (auto simp: page_slot_alt intro!: b(5))
  show "page_slot q (unat dst) = page_slot p i"
    using d assms(7) b(2-4) by (simp add: page_slot_alt)
  show "packed q (unat off + sl p i) (unat dst + 1)"
    unfolding packed_def
  proof (intro conjI allI impI)
    fix k assume "k < unat dst + 1"
    then consider "k < unat dst" | "k = unat dst" by linarith
    then have "\<not> tomb q k \<and> 24 \<le> so q k \<and> so q k + sl q k \<le> unat off + sl p i"
      using slot lt old [of k] d b(2,3) assms(5) by cases (auto simp: trans_le_add1)
    then show "\<not> tomb q k" "24 \<le> so q k" "so q k + sl q k \<le> unat off + sl p i" by simp_all
    fix j assume j: "j < k"
    then have j': "j < unat dst" using \<open>k < unat dst + 1\<close> by simp
    have pk: "k < unat dst \<Longrightarrow> so p j + sl p j \<le> so p k" using assms(8) j by (simp add: packed_def)
    show "so q j + sl q j \<le> so q k"
      using slot [OF lt [OF j']] old [OF j'] pk b(2) slot [OF lt, of k] \<open>k < unat dst + 1\<close>
      by (cases "k = unat dst") auto
  qed
  show "pending q (unat off + sl p i) fb (Suc i) n"
    unfolding pending_def
  proof (intro conjI allI impI)
    fix k assume "Suc i \<le> k \<and> k < n \<and> \<not> tomb q k"
    then have k: "i < k" "k < n" "\<not> tomb p k" using slot(3) [of k] gt [of k] by auto
    show "unat off + sl p i \<le> so q k" "so q k + sl q k \<le> fb" using new [OF k] slot [OF k(2) gt [OF k(1)]] by simp_all
  next
    fix k j assume k: "k < n" and j: "Suc i \<le> j \<and> j < k"
    then have "tomb p j \<or> tomb p k \<or> so p j + sl p j \<le> so p k" using assms(9) by (auto simp: pending_def)
    then show "tomb q j \<or> tomb q k \<or> so q j + sl q j \<le> so q k"
      using slot [of j] slot [of k] gt [of j] gt [of k] k j by simp
  qed
qed

lemma pending_skip: "pending p off fb i n \<Longrightarrow> pending p off fb (Suc i) n"
  by (auto simp: pending_def)

lemma upt_word_Cons: "i < n \<Longrightarrow> map word_of_nat [i..<n] = (word_of_nat i :: u16) # map word_of_nat [Suc i..<n]"
  by (simp add: upt_conv_Cons)

lemma compact_loop_correct:
  assumes "length p = PAGE_SIZE" "n < 1019" "i \<le> n" "unat dst \<le> i" "24 \<le> unat off" "unat off \<le> fb" "fb \<le> 4096 - 4 * n"
    and "packed p (unat off) (unat dst)" "pending p (unat off) fb i n"
    and "compact_loop (map word_of_nat [i..<n]) p off dst = (p', off', dst')"
  shows "length p' = PAGE_SIZE \<and> get_at 0 24 p' = get_at 0 24 p \<and> packed p' (unat off') (unat dst')
    \<and> 24 \<le> unat off' \<and> unat off' \<le> fb \<and> unat dst' \<le> n
    \<and> map (page_slot p') [0..<unat dst']
      = map (page_slot p) [0..<unat dst] @ filter (\<lambda>x. x \<noteq> None) (map (page_slot p) [i..<n])"
  using assms
proof (induction "n - i" arbitrary: p i off dst)
  case 0
  then show ?case by simp
next
  case (Suc m)
  then have i: "i < n" by simp
  note eq = Suc.prems(10) [unfolded upt_word_Cons [OF i] compact_loop.simps Let_def, folded slot_tombstone_def tomb_def]
  show ?case
  proof (cases "tomb p i")
    case True
    have "page_slot p i = None" using True by (simp add: page_slot_alt)
    moreover have "compact_loop (map word_of_nat [Suc i..<n]) p off dst = (p', off', dst')" using eq True by simp
    ultimately show ?thesis using Suc.hyps(1) [of "Suc i" p dst off] Suc.hyps(2) Suc.prems i pending_skip
      by (simp add: upt_conv_Cons)
  next
    case False
    let ?q = "compact_move i p off dst"
    note st = compact_move_step [OF Suc.prems(1,2) i Suc.prems(4,5,7) False Suc.prems(8,9)]
    have u: "unat (off + slot_len p (word_of_nat i)) = unat off + sl p i" "unat (dst + 1) = unat dst + 1"
      using st(8) Suc.prems(2,4,7) i by (simp_all add: unat_word_ariths sl_def)
    have e: "compact_loop (map word_of_nat [Suc i..<n]) ?q (off + slot_len p (word_of_nat i)) (dst + 1) = (p', off', dst')"
      using eq False by (simp add: compact_move_def so_def sl_def)
    have ih: "length p' = PAGE_SIZE \<and> get_at 0 24 p' = get_at 0 24 ?q \<and> packed p' (unat off') (unat dst')
      \<and> 24 \<le> unat off' \<and> unat off' \<le> fb \<and> unat dst' \<le> n \<and> map (page_slot p') [0..<unat dst']
      = map (page_slot ?q) [0..<unat dst + 1] @ filter (\<lambda>x. x \<noteq> None) (map (page_slot ?q) [Suc i..<n])"
      using Suc.hyps(1) [of "Suc i" ?q "dst + 1" "off + slot_len p (word_of_nat i)"] Suc.hyps(2) Suc.prems(2,4,5,7) i e st u by simp
    have m: "map (page_slot ?q) [0..<unat dst] = map (page_slot p) [0..<unat dst]"
      "map (page_slot ?q) [Suc i..<n] = map (page_slot p) [Suc i..<n]"
      using st(5,7) by (auto intro!: map_cong)
    have "page_slot p i \<noteq> None" using False by (simp add: page_slot_alt)
    then show ?thesis using ih st(2,6) m i by (simp add: upt_conv_Cons)
  qed
qed

lemma heap_ok_packed: 
  "heap_ok p \<longleftrightarrow> length p = PAGE_SIZE \<and> 24 \<le> unat (hd_free_begin p) \<and> unat (hd_free_begin p) \<le> unat (hd_free_end p)
     \<and> unat (hd_free_end p) + 4 * unat (hd_slot_count p) = PAGE_SIZE
     \<and> (\<forall>k < unat (hd_slot_count p). tomb p k \<or> 24 \<le> so p k \<and> so p k + sl p k \<le> unat (hd_free_begin p))
     \<and> (\<forall>k < unat (hd_slot_count p). \<forall>j < k. tomb p j \<or> tomb p k \<or> so p j + sl p j \<le> so p k)"
  by (simp add: heap_ok_def slot_in_def slots_ordered_def tomb_def so_def sl_def)

lemma heap_compact_slots:
  assumes "heap_ok p"
  shows "heap_ok (heap_compact p)" "page_slots (heap_compact p) = filter (\<lambda>x. x \<noteq> None) (page_slots p)"
    and "hd_next_page (heap_compact p) = hd_next_page p" "page_valid (heap_compact p) m \<longleftrightarrow> hd_magic p = m"
proof -
  let ?n = "unat (hd_slot_count p)" and ?fb = "unat (hd_free_begin p)"
  have f: "length p = PAGE_SIZE" "24 \<le> ?fb" "?fb \<le> 4096 - 4 * ?n" "?n < 1019"
    using assms by (auto simp: heap_ok_def page_consts)
  obtain p1 off dst where e: "compact_loop (map word_of_nat [0..<?n]) p 24 0 = (p1, off, dst)" by (metis prod_cases3)
  have pk: "packed p 24 0" "pending p 24 ?fb 0 ?n" using assms by (auto simp: packed_def pending_def heap_ok_packed)
  have loop: "length p1 = PAGE_SIZE" "get_at 0 24 p1 = get_at 0 24 p" "packed p1 (unat off) (unat dst)"
    "24 \<le> unat off" "unat off \<le> ?fb" "unat dst \<le> ?n"
    "map (page_slot p1) [0..<unat dst] = filter (\<lambda>x. x \<noteq> None) (map (page_slot p) [0..<?n])"
    using compact_loop_correct [of p ?n 0 0 24 ?fb p1 off dst] f pk e by simp_all
  define p2 where "p2 = set_free_end (word_of_nat (4096 - unat dst * 4)) (set_free_begin off (set_slot_count dst p1))"
  have c: "heap_compact p = seal p2" by (simp add: heap_compact_def p2_def e page_consts)
  have l2: "length p2 = PAGE_SIZE" using loop(1) by (simp add: p2_def header_defs buf_simps page_consts)
  have h: "hd_slot_count (seal p2) = dst" "hd_free_begin (seal p2) = off" "hd_free_end (seal p2) = word_of_nat (4096 - unat dst * 4)"
    "hd_next_page (seal p2) = hd_next_page p1" "hd_magic p2 = hd_magic p1"
    using loop(1) l2 by (simp_all add: p2_def header_defs buf_simps page_consts)
  have r: "rd32 o2 p1 = rd32 o2 p" if "o2 + 4 \<le> 24" for o2
    unfolding rd32_def using get_at_sub [OF loop(2), of o2 4] that by simp
  show "hd_next_page (heap_compact p) = hd_next_page p" unfolding c h(4) by (simp add: hd_next_page_def r)
  show "page_valid (heap_compact p) m \<longleftrightarrow> hd_magic p = m" unfolding c seal_valid [OF l2] h(5) by (simp add: hd_magic_def r)
  have g: "get_at o2 m (seal p2) = get_at o2 m p1" if "24 \<le> o2" "o2 + m \<le> 4096" for o2 m
    using that loop(1) l2 by (subst get_seal) (simp_all add: p2_def header_defs buf_simps page_consts)
  have d: "unat dst < 1019" using loop(6) f(4) by simp
  have slot: "so (seal p2) k = so p1 k" "sl (seal p2) k = sl p1 k" "tomb (seal p2) k = tomb p1 k" if "k < unat dst" for k
    using slot_same_fields [OF loop(1) length_seal [OF l2], of k] g [of "4092 - 4 * k" 4] that d by simp_all
  have in1: "24 \<le> so p1 k \<and> so p1 k + sl p1 k \<le> unat off \<and> \<not> tomb p1 k" if "k < unat dst" for k
    using loop(3) that by (simp add: packed_def)
  have "page_slot (seal p2) k = page_slot p1 k" if "k < unat dst" for k
    using slot [OF that] in1 [OF that] loop(5) f by (auto simp: page_slot_alt intro!: g)
  then have "map (page_slot (seal p2)) [0..<unat dst] = map (page_slot p1) [0..<unat dst]" by simp
  then show "page_slots (heap_compact p) = filter (\<lambda>x. x \<noteq> None) (page_slots p)"
    unfolding c page_slots_def h(1) using loop(7) by simp
  have "packed (seal p2) (unat off) (unat dst)" using loop(3) slot by (simp add: packed_def)
  moreover have w: "unat (word_of_nat (4096 - unat dst * 4) :: u16) = 4096 - unat dst * 4" by (rule unat_small16) simp
  ultimately show "heap_ok (heap_compact p)" unfolding c heap_ok_packed h w
    using loop(4-6) f d l2 by (auto simp: packed_def page_consts)
qed

lemma nth_update_in: "k < length xs \<Longrightarrow> xs[i := v] ! k = (if i = k then v else xs ! k)"
  by (cases "i = k") auto

lemma le_val_zeros [simp]: "le_val (replicate n 0) = 0"
  by (induction n) auto

lemma get_at_zeros: "off + n \<le> m \<Longrightarrow> get_at off n (replicate m 0) = replicate n 0"
  by (simp add: get_at_def)

lemma init_page_fields:
  "length (init_page m t) = PAGE_SIZE" "hd_magic (init_page m t) = m" "hd_slot_count (init_page m t) = 0"
  "hd_free_begin (init_page m t) = 24" "hd_free_end (init_page m t) = 4096" "hd_next_page (init_page m t) = 0"
  "page_valid (init_page m t) m"
proof -
  let ?p = "set_free_end 4096 (set_free_begin 24 (set_type (page_type_code t) (set_magic m (replicate PAGE_SIZE 0))))"
  have i: "init_page m t = seal ?p" by (simp add: init_page_def Let_def page_consts)
  have l: "length ?p = PAGE_SIZE" by (simp add: header_defs buf_simps page_consts)
  have z: "rd16 o2 (replicate 4096 0) = 0" "rd32 o2 (replicate 4096 0) = 0" if "o2 + 4 \<le> 4096" for o2
    using that by (simp_all add: rd16_def rd32_def get_at_zeros)
  show "length (init_page m t) = PAGE_SIZE" unfolding i using l by simp
  show mg: "hd_magic (init_page m t) = m" "hd_slot_count (init_page m t) = 0"
    "hd_free_begin (init_page m t) = 24" "hd_free_end (init_page m t) = 4096" "hd_next_page (init_page m t) = 0"
    unfolding i using l z by (simp_all add: header_defs buf_simps page_consts)
  show "page_valid (init_page m t) m" unfolding i seal_valid [OF l] by (simp add: header_defs buf_simps page_consts)
qed

lemma init_page_heap: "heap_ok (init_page m t)" "page_slots (init_page m t) = []"
  by (simp_all add: heap_ok_def page_slots_def init_page_fields page_consts)

section \<open>The contract of a slotted page\<close>

text \<open>
  What the storage engine relies on: appending adds one slot at the end or fails for lack of room,
  deleting turns a slot into a tombstone, and nothing else changes.
\<close>

locale slotted =
  fixes ok :: "'p \<Rightarrow> bool" and slots :: "'p \<Rightarrow> bytes option list"
    and append_rec :: "'p \<Rightarrow> bytes \<Rightarrow> ('p \<times> u16) option" and delete_rec :: "u16 \<Rightarrow> 'p \<Rightarrow> 'p"
  assumes append_law: "ok p \<Longrightarrow> length r \<le> MAX_RECORD_LEN \<Longrightarrow> append_rec p r = Some (q, i) \<Longrightarrow>
      ok q \<and> slots q = slots p @ [Some r] \<and> unat i = length (slots p)"
    and delete_law: "ok p \<Longrightarrow> unat i < length (slots p) \<Longrightarrow>
      ok (delete_rec i p) \<and> slots (delete_rec i p) = (slots p)[unat i := None]"
begin

lemma read_back: "ok p \<Longrightarrow> length r \<le> MAX_RECORD_LEN \<Longrightarrow> append_rec p r = Some (q, i) \<Longrightarrow> slots q ! unat i = Some r"
  by (frule append_law) auto

lemma append_keeps:
  "ok p \<Longrightarrow> length r \<le> MAX_RECORD_LEN \<Longrightarrow> append_rec p r = Some (q, i) \<Longrightarrow> k < length (slots p) \<Longrightarrow>
   k < length (slots q) \<and> slots q ! k = slots p ! k"
  by (frule append_law) (auto simp: nth_append)

lemma delete_keeps:
  "ok p \<Longrightarrow> unat i < length (slots p) \<Longrightarrow> k < length (slots p) \<Longrightarrow> k \<noteq> unat i \<Longrightarrow>
   k < length (slots (delete_rec i p)) \<and> slots (delete_rec i p) ! k = slots p ! k"
  by (frule delete_law) auto

lemma delete_gone: "ok p \<Longrightarrow> unat i < length (slots p) \<Longrightarrow> slots (delete_rec i p) ! unat i = None"
  by (frule delete_law) auto

end

lemma length_page_slots [simp]: "length (page_slots p) = unat (hd_slot_count p)"
  by (simp add: page_slots_def)

interpretation heap_page: slotted heap_ok page_slots heap_append heap_delete
proof
  fix p q r i
  assume a: "heap_ok p" "length r \<le> MAX_RECORD_LEN" "heap_append p r = Some (q, i)"
  then have "unat (hd_free_begin p) + length r + 4 \<le> unat (hd_free_end p)" using heap_append_room [OF a(1,2)] by simp
  then show "heap_ok q \<and> page_slots q = page_slots p @ [Some r] \<and> unat i = length (page_slots p)"
    using heap_append_slots heap_append_eq a by auto
qed (use heap_delete_slots in auto)

section \<open>Sequences of page operations\<close>

datatype page_op = PAppend bytes | PDelete u16

text \<open>The engine's use of a page: append when there is room, delete an existing slot.\<close>

fun page_step :: "page_op \<Rightarrow> bytes \<Rightarrow> bytes" where
  "page_step (PAppend r) p = (if length r > MAX_RECORD_LEN then p else case heap_append p r of None \<Rightarrow> p | Some (q, _) \<Rightarrow> q)"
| "page_step (PDelete i) p = (if i \<ge> hd_slot_count p then p else heap_delete i p)"

lemma page_step_ok:
  assumes "heap_ok p"
  shows "heap_ok (page_step a p) \<and> length (page_slots p) \<le> length (page_slots (page_step a p))
    \<and> (\<forall>k < length (page_slots p). page_slots (page_step a p) ! k = page_slots p ! k \<or>
         (page_slots (page_step a p) ! k = None \<and> a = PDelete (word_of_nat k)))"
proof (cases a)
  case (PAppend r)
  show ?thesis
  proof (cases "length r \<le> MAX_RECORD_LEN \<and> heap_append p r \<noteq> None")
    case True
    then obtain q i where "heap_append p r = Some (q, i)" by auto
    with True PAppend heap_page.append_law [OF assms _ this] show ?thesis by (simp add: nth_append)
  next
    case False
    then show ?thesis using PAppend assms by (auto split: option.splits)
  qed
next
  case (PDelete i)
  show ?thesis
  proof (cases "i < hd_slot_count p")
    case True
    then have i: "unat i < length (page_slots p)" by (simp add: word_less_nat_alt)
    have "i = word_of_nat k" if "unat i = k" for k using that by auto
    then show ?thesis using PDelete True heap_page.delete_law [OF assms i]
      by (auto simp: nth_update_in not_le simp del: length_page_slots)
  next
    case False
    then show ?thesis using PDelete assms by (simp add: not_less)
  qed
qed

text \<open>
  C35. A heap page is a list of records: a fresh page is the empty list, an append with room adds the
  record as the last slot and returns its number, an append without room is refused, and both the
  layout invariant and the checksum hold afterwards.
\<close>

theorem heap_append_refines:
  assumes "heap_ok p" and "length rec \<le> MAX_RECORD_LEN"
  shows "case heap_append p rec of
      None \<Rightarrow> unat (hd_free_end p) - unat (hd_free_begin p) < length rec + 4
    | Some (q, i) \<Rightarrow> heap_ok q \<and> page_slots q = page_slots p @ [Some rec] \<and> unat i = length (page_slots p)
        \<and> page_valid q (hd_magic p) \<and> hd_next_page q = hd_next_page p"
proof (cases "unat (hd_free_begin p) + length rec + 4 > unat (hd_free_end p)")
  case True
  then have "unat (hd_free_end p) - unat (hd_free_begin p) < length rec + 4" using assms(1) by (simp add: heap_ok_def)
  then show ?thesis using heap_append_room [OF assms] True by simp
next
  case False
  then have r: "unat (hd_free_begin p) + length rec + 4 \<le> unat (hd_free_end p)" by simp
  show ?thesis using heap_append_eq [OF assms(1) r] heap_append_slots [OF assms(1) r] appended_header [OF assms(1) r] by simp
qed

theorem heap_append_refines_witness:
  "case heap_append (init_page MAGIC_HEAP Heap) [1, 2, 3] of
      None \<Rightarrow> unat (hd_free_end (init_page MAGIC_HEAP Heap)) - unat (hd_free_begin (init_page MAGIC_HEAP Heap)) < length [1, 2, 3 :: byte] + 4
    | Some (q, i) \<Rightarrow> heap_ok q \<and> page_slots q = page_slots (init_page MAGIC_HEAP Heap) @ [Some [1, 2, 3]]
        \<and> unat i = length (page_slots (init_page MAGIC_HEAP Heap))
        \<and> page_valid q (hd_magic (init_page MAGIC_HEAP Heap)) \<and> hd_next_page q = hd_next_page (init_page MAGIC_HEAP Heap)"
  by (rule heap_append_refines [OF init_page_heap(1)]) (simp add: MAX_RECORD_LEN_def page_consts)

text \<open>
  Compaction keeps exactly the live records, in their order, and drops the tombstones; the page
  stays well formed and its checksum is right.
\<close>

theorem heap_compact_refines:
  assumes "heap_ok p"
  shows "heap_ok (heap_compact p) \<and> page_slots (heap_compact p) = filter (\<lambda>x. x \<noteq> None) (page_slots p)
    \<and> page_valid (heap_compact p) (hd_magic p) \<and> hd_next_page (heap_compact p) = hd_next_page p"
  using heap_compact_slots [OF assms] by simp

theorem heap_compact_refines_witness:
  "page_slots (heap_compact (init_page MAGIC_HEAP Heap)) = []"
  using heap_compact_refines [OF init_page_heap(1), of MAGIC_HEAP Heap] by (simp add: init_page_heap(2))

text \<open>
  Slot numbers are never reused: through any sequence of appends and deletions a slot that
  exists keeps its record, or is a tombstone because that very slot was deleted; index entries that
  point to a deleted row never reach another row.
\<close>

theorem slots_never_reused:
  assumes "heap_ok p" and "k < length (page_slots p)"
  shows "heap_ok (fold page_step ops p) \<and> k < length (page_slots (fold page_step ops p)) \<and>
    (page_slots (fold page_step ops p) ! k = page_slots p ! k \<or>
     page_slots (fold page_step ops p) ! k = None \<and> PDelete (word_of_nat k) \<in> set ops)"
  using assms
proof (induction ops arbitrary: p)
  case (Cons a ops)
  note s = page_step_ok [OF Cons.prems(1), of a]
  have "k < length (page_slots (page_step a p))" using s Cons.prems(2) by linarith
  from Cons.IH [OF conjunct1 [OF s] this] s Cons.prems(2) show ?case by auto
qed simp

theorem slots_never_reused_witness:
  "let p = page_step (PAppend [7]) (init_page MAGIC_HEAP Heap) in
   page_slots (fold page_step [PAppend [8], PDelete 1, PAppend [9]] p) ! 0 = Some [7]"
proof -
  let ?p = "page_step (PAppend [7]) (init_page MAGIC_HEAP Heap)"
  have r: "length [7 :: byte] \<le> MAX_RECORD_LEN" by (simp add: MAX_RECORD_LEN_def page_consts)
  have "heap_append (init_page MAGIC_HEAP Heap) [7] \<noteq> None"
    unfolding heap_append_room [OF init_page_heap(1) r] by (simp add: init_page_fields)
  then obtain q i where q: "heap_append (init_page MAGIC_HEAP Heap) [7] = Some (q, i)" by auto
  have p: "?p = q" using q r by simp
  have "heap_ok q" "page_slots q = [Some [7]]"
    using heap_page.append_law [OF init_page_heap(1) r q] by (simp_all add: init_page_heap(2))
  then show ?thesis using slots_never_reused [of ?p 0 "[PAppend [8], PDelete 1, PAppend [9]]"]
    unfolding p Let_def by (simp del: length_page_slots)
qed

text \<open>
  The table-driven checksum is the bit-serial CRC-32: eight shift-and-xor steps of the reflected
  polynomial per byte.
\<close>

theorem crc32_bit_serial: "crc32 data = crc_serial data"
  by (rule crc32_serial_eq)

text \<open>
  A damaged byte is noticed: changing any one byte of a valid page, the checksum field and the
  stored magic included, makes \<^verbatim>\<open>page_valid\<close> fail.
\<close>

theorem page_valid_detects:
  assumes "length p = PAGE_SIZE" "page_valid p m" and "i < PAGE_SIZE" "b \<noteq> p ! i"
  shows "\<not> page_valid (p[i := b]) m"
proof (cases "20 \<le> i \<and> i < 24")
  case True
  have u: "p[i := b] = put_at i [b] p" using assms(1,3) by (simp add: put_at_def upd_conv_take_nth_drop)
  have "put_at 20 [0, 0, 0, 0] (p[i := b]) = put_at 20 [0, 0, 0, 0] p"
    using True assms(1) by (intro nth_equalityI) (auto simp: nth_put_at length_put_at nth_update_in page_consts)
  then have c: "page_checksum (p[i := b]) = page_checksum p" using assms(1) by (simp add: page_checksum_alt)
  have "get_at 20 4 (p[i := b]) \<noteq> get_at 20 4 p"
  proof
    assume "get_at 20 4 (p[i := b]) = get_at 20 4 p"
    then have "get_at 20 4 (p[i := b]) ! (i - 20) = get_at 20 4 p ! (i - 20)" by simp
    moreover have "i - 20 < 4" "20 + (i - 20) = i" using True by auto
    ultimately show False using True assms(1,4) by (simp add: nth_get_at page_consts)
  qed
  then have "le_val (get_at 20 4 (p[i := b])) \<noteq> le_val (get_at 20 4 p)"
    using assms(1) by (subst le_val_inj) (simp_all add: length_get_at page_consts)
  moreover have "le_val (get_at 20 4 x) < 4294967296" if "length x = PAGE_SIZE" for x
    using that by (intro le4_less) (simp add: length_get_at page_consts)
  ultimately have "hd_checksum (p[i := b]) \<noteq> hd_checksum p"
    using assms(1) by (simp add: hd_checksum_def rd32_def word_unat_eq_iff unat_of_nat)
  then show ?thesis using c assms(2) by (auto simp: page_valid_def split: if_splits)
next
  case False
  let ?z = "put_at 20 [0, 0, 0, 0] p"
  have l: "length ?z = 4096" using assms(1) by (simp add: length_put_at page_consts)
  have u: "put_at 20 [0, 0, 0, 0] (p[i := b]) = ?z[i := b]"
    using False assms(1) by (intro nth_equalityI) (auto simp: nth_put_at length_put_at nth_update_in page_consts length_put_at [of 20 "[0, 0, 0, 0]"])
  have "?z ! i \<noteq> b" using False assms by (auto simp: nth_put_at page_consts)
  then have "crc32 ?z \<noteq> crc32 (?z[i := b])" using crc32_byte [of i ?z b] assms(3) l by (auto simp: page_consts)
  then have c: "page_checksum (p[i := b]) \<noteq> page_checksum p" using assms(1) u by (simp add: page_checksum_alt)
  have "get_at 20 4 (p[i := b]) = get_at 20 4 p"
    using False assms(1) by (intro nth_equalityI) (auto simp: nth_get_at length_get_at nth_update_in page_consts)
  then have "hd_checksum (p[i := b]) = hd_checksum p" by (simp add: hd_checksum_def rd32_def)
  then show ?thesis using c assms(2) by (auto simp: page_valid_def split: if_splits)
qed

theorem page_valid_detects_witness:
  "\<not> page_valid ((init_page MAGIC_HEAP Heap)[100 := init_page MAGIC_HEAP Heap ! 100 + 1]) MAGIC_HEAP"
  by (rule page_valid_detects) (simp_all add: init_page_fields page_consts)

end
