(* ===== verification/Files.thy ===== *)
theory Files
  imports Page
begin

text \<open>
  The file manager of src/storage/file_manager.cpp: the data directory as a map from file
  identifiers to the bytes of \<^verbatim>\<open>t_<id>.dat\<close>. Opening creates a missing file, reading past the end
  gives zeros, writing past the end extends the file. The descriptor cache has no effect on the
  bytes, and an operating system that reports an I/O error ends the process; neither is part of the
  state. Shown: the directory is a page store, the contract recovery and the buffer pool rely on.
\<close>

type_synonym files = "u64 \<Rightarrow> bytes option"

definition file_bytes :: "files \<Rightarrow> u64 \<Rightarrow> bytes" where
  "file_bytes fs fid = (case fs fid of None \<Rightarrow> [] | Some bs \<Rightarrow> bs)"

text \<open>\<^verbatim>\<open>open\<close> with \<^verbatim>\<open>O_CREAT\<close>.\<close>

definition fd_for :: "u64 \<Rightarrow> files \<Rightarrow> files" where
  "fd_for fid fs = (case fs fid of None \<Rightarrow> fs(fid \<mapsto> []) | Some _ \<Rightarrow> fs)"

definition file_size :: "files \<Rightarrow> u64 \<Rightarrow> u64" where
  "file_size fs fid = word_of_nat (length (file_bytes fs fid))"

text \<open>\<^verbatim>\<open>ftruncate\<close>: cut off, or extend with zeros.\<close>

definition truncate_to :: "nat \<Rightarrow> bytes \<Rightarrow> bytes" where
  "truncate_to n bs = take n bs @ replicate (n - length bs) 0"

definition create_table_file :: "u64 \<Rightarrow> files \<Rightarrow> files" where
  "create_table_file fid fs =
    (let fs = fd_for fid fs in fs(fid \<mapsto> truncate_to PAGE_SIZE (file_bytes fs fid)))"

definition fm_remove_table_file :: "u64 \<Rightarrow> files \<Rightarrow> files" where
  "fm_remove_table_file fid fs = fs(fid := None)"

definition table_file_exists :: "files \<Rightarrow> u64 \<Rightarrow> bool" where
  "table_file_exists fs fid \<longleftrightarrow> fs fid \<noteq> None"

definition page_count :: "files \<Rightarrow> u64 \<Rightarrow> u32" where
  "page_count fs fid = ucast (file_size fs fid div word_of_nat PAGE_SIZE)"

definition page_off :: "u32 \<Rightarrow> nat" where
  "page_off no = unat no * PAGE_SIZE"

definition read_page :: "u64 \<Rightarrow> u32 \<Rightarrow> files \<Rightarrow> bytes \<times> files" where
  "read_page fid no fs =
    (let fs = fd_for fid fs;
         got = get_at (page_off no) PAGE_SIZE (file_bytes fs fid)
     in (got @ replicate (PAGE_SIZE - length got) 0, fs))"

text \<open>\<^verbatim>\<open>pwrite\<close>: a gap between the end of the file and the offset reads as zeros.\<close>

definition write_page :: "u64 \<Rightarrow> u32 \<Rightarrow> bytes \<Rightarrow> files \<Rightarrow> files" where
  "write_page fid no data fs =
    (let fs = fd_for fid fs; old = file_bytes fs fid
     in fs(fid \<mapsto> put_at (page_off no) data (old @ replicate (page_off no - length old) 0)))"

definition append_page :: "u64 \<Rightarrow> bytes \<Rightarrow> files \<Rightarrow> u32 \<times> files" where
  "append_page fid data fs = (let no = page_count fs fid in (no, write_page fid no data fs))"

section \<open>The page store contract\<close>

text \<open>A store of pages: reading gives back the last page written and a write touches no other page.\<close>

locale page_store =
  fixes pg :: "'s \<Rightarrow> page_id \<Rightarrow> bytes" and wr :: "page_id \<Rightarrow> bytes \<Rightarrow> 's \<Rightarrow> 's"
  assumes pg_length: "length (pg s q) = PAGE_SIZE"
    and pg_wr: "length d = PAGE_SIZE \<Longrightarrow> pg (wr p d s) q = (if q = p then d else pg s q)"
begin

text \<open>Overwriting a byte range of one page, as a patch does.\<close>

definition patch_pg :: "page_id \<Rightarrow> nat \<Rightarrow> bytes \<Rightarrow> 's \<Rightarrow> 's" where
  "patch_pg p off bs s = wr p (put_at off bs (pg s p)) s"

lemma pg_patch:
  assumes "off + length bs \<le> PAGE_SIZE"
  shows "pg (patch_pg p off bs s) q = (if q = p then put_at off bs (pg s p) else pg s q)"
  using assms by (simp add: patch_pg_def pg_wr length_put_at pg_length)

lemma pg_patch_nth:
  assumes "off + length bs \<le> PAGE_SIZE" "i < PAGE_SIZE"
  shows "pg (patch_pg p off bs s) q ! i = (if q = p \<and> off \<le> i \<and> i < off + length bs then bs ! (i - off) else pg s q ! i)"
  using assms by (simp add: pg_patch nth_put_at pg_length)

lemma patch_idem:
  assumes "off + length bs \<le> PAGE_SIZE"
  shows "pg (patch_pg p off bs (patch_pg p off bs s)) q = pg (patch_pg p off bs s) q"
  using assms by (simp add: pg_patch put_put_same pg_length)

end

definition disk_page :: "files \<Rightarrow> page_id \<Rightarrow> bytes" where
  "disk_page fs pid = fst (read_page (pid_file pid) (pid_page pid) fs)"

definition disk_write :: "page_id \<Rightarrow> bytes \<Rightarrow> files \<Rightarrow> files" where
  "disk_write pid data fs = write_page (pid_file pid) (pid_page pid) data fs"

lemma file_bytes_fd [simp]: "file_bytes (fd_for fid fs) g = file_bytes fs g"
  by (auto simp: file_bytes_def fd_for_def split: option.splits)

lemma disk_page_alt:
  "disk_page fs pid = (let got = get_at (page_off (pid_page pid)) PAGE_SIZE (file_bytes fs (pid_file pid))
     in got @ replicate (PAGE_SIZE - length got) 0)"
  by (simp add: disk_page_def read_page_def Let_def)

lemma length_disk_page [simp]: "length (disk_page fs pid) = PAGE_SIZE"
  by (simp add: disk_page_alt Let_def get_at_def)

text \<open>Byte \<^verbatim>\<open>i\<close> of a page: the byte of the file, or zero past its end.\<close>

lemma disk_page_nth:
  assumes "i < PAGE_SIZE"
  shows "disk_page fs pid ! i = (let bs = file_bytes fs (pid_file pid); k = page_off (pid_page pid) + i
     in if k < length bs then bs ! k else 0)"
  using assms by (auto simp: disk_page_alt Let_def get_at_def nth_append)

lemma page_off_apart:
  assumes "no \<noteq> no'" "i < PAGE_SIZE"
  shows "page_off no' + i < page_off no \<or> page_off no + PAGE_SIZE \<le> page_off no' + i"
proof -
  have "unat no' + 1 \<le> unat no \<or> unat no + 1 \<le> unat no'"
    using assms(1) by (metis Suc_eq_plus1 Suc_leI linorder_neqE_nat unsigned_word_eqI)
  then have "(unat no' + 1) * PAGE_SIZE \<le> unat no * PAGE_SIZE \<or> (unat no + 1) * PAGE_SIZE \<le> unat no' * PAGE_SIZE"
    by (metis mult_le_mono1)
  then show ?thesis using assms(2) by (auto simp: page_off_def)
qed

lemma disk_page_write:
  assumes "length d = PAGE_SIZE"
  shows "disk_page (disk_write p d fs) q = (if q = p then d else disk_page fs q)"
proof (rule nth_equalityI)
  show "length (disk_page (disk_write p d fs) q) = length (if q = p then d else disk_page fs q)"
    using assms by simp
next
  fix i
  assume "i < length (disk_page (disk_write p d fs) q)"
  then have i: "i < PAGE_SIZE" by simp
  define old where "old = file_bytes fs (pid_file p)"
  define base where "base = page_off (pid_page p)"
  define new where "new = put_at base d (old @ replicate (base - length old) 0)"
  have fb: "file_bytes (disk_write p d fs) g = (if g = pid_file p then new else file_bytes fs g)" for g
    by (simp add: disk_write_def write_page_def Let_def file_bytes_def new_def old_def base_def fd_for_def split: option.splits)
  have new_nth: "k < length new \<Longrightarrow> new ! k = (if base \<le> k \<and> k < base + PAGE_SIZE then d ! (k - base)
      else if k < length old then old ! k else 0)" for k
    using assms by (auto simp: new_def put_at_def nth_append min_def)
  have new_len: "length new = max (base + PAGE_SIZE) (length old)"
    using assms by (auto simp: new_def put_at_def min_def max_def)
  show "disk_page (disk_write p d fs) q ! i = (if q = p then d else disk_page fs q) ! i"
  proof (cases "pid_file q = pid_file p")
    case False
    then show ?thesis using i by (auto simp: disk_page_nth fb Let_def)
  next
    case True
    show ?thesis
    proof (cases "q = p")
      case True
      moreover have "base + i < length new" using i by (simp add: new_len)
      ultimately show ?thesis using i new_nth [of "base + i"] by (simp add: disk_page_nth fb Let_def base_def)
    next
      case False
      then have "pid_page q \<noteq> pid_page p" using True by (metis page_id.expand)
      from page_off_apart [OF this [symmetric] i] show ?thesis
        using False True i new_nth [of "page_off (pid_page q) + i"]
        by (auto simp: disk_page_nth fb Let_def new_len base_def [symmetric] old_def [symmetric])
    qed
  qed
qed

interpretation disk: page_store disk_page disk_write
  by unfold_locales (simp_all add: disk_page_write)

lemma disk_page_fd [simp]: "disk_page (fd_for fid fs) q = disk_page fs q"
  by (simp add: disk_page_alt)

lemma read_page_eq: "read_page fid no fs = (disk_page fs (PageId fid no), fd_for fid fs)"
  by (simp add: disk_page_def read_page_def Let_def)

end
