(* ===== verification/Wal.thy ===== *)
theory Wal
  imports Files
begin

text \<open>
  The write-ahead log of src/storage/wal.h and wal.cpp: records
  \<^verbatim>\<open>[len u32][lsn u64][txn u64][op u8][crc u32][payload]\<close> appended to one file, and the reader
  that recovery walks over it, which stops at the first incomplete or damaged record. The log file
  is its bytes; \<^verbatim>\<open>fsync\<close> has no effect on them and an I/O error ends the process. Shown: reading
  gives back what was appended, up to any torn tail; sequence numbers ascend.
\<close>

section \<open>Writing\<close>

datatype wal_op = PagePatch | DropFile | Commit | Abort

fun wal_op_code :: "wal_op \<Rightarrow> u8" where
  "wal_op_code PagePatch = 1"
| "wal_op_code DropFile = 2"
| "wal_op_code Commit = 3"
| "wal_op_code Abort = 4"

definition WAL_HEADER_SIZE :: nat where "WAL_HEADER_SIZE = 25"
definition WAL_PATCH_HEADER_SIZE :: nat where "WAL_PATCH_HEADER_SIZE = 20"
definition WAL_PAYLOAD_MAX :: nat where "WAL_PAYLOAD_MAX = WAL_PATCH_HEADER_SIZE + 2 * PAGE_SIZE"

definition wal_get_u64 :: "bytes \<Rightarrow> nat \<Rightarrow> u64" where "wal_get_u64 p off = rd64 off p"
definition wal_get_u32 :: "bytes \<Rightarrow> nat \<Rightarrow> u32" where "wal_get_u32 p off = rd32 off p"
definition wal_put_u64 :: "u64 \<Rightarrow> bytes" where "wal_put_u64 v = le_bytes 8 (unat v)"
definition wal_put_u32 :: "u32 \<Rightarrow> bytes" where "wal_put_u32 v = le_bytes 4 (unat v)"

text \<open>\<^verbatim>\<open>Wal\<close>: the log file and the counters.\<close>

record wal =
  wal_log :: bytes
  wal_next_lsn :: u64
  wal_next_txn_id :: u64
  wal_bytes_since_reset :: u64

definition wal_init :: "bytes \<Rightarrow> wal" where
  "wal_init log = \<lparr>wal_log = log, wal_next_lsn = 1, wal_next_txn_id = 1, wal_bytes_since_reset = 0\<rparr>"

definition wal_crc :: "u64 \<Rightarrow> u64 \<Rightarrow> u8 \<Rightarrow> bytes \<Rightarrow> u32" where
  "wal_crc lsn txn opc payload = crc32 (wal_put_u64 lsn @ wal_put_u64 txn @ [opc] @ payload)"

definition wal_record_bytes :: "u64 \<Rightarrow> u64 \<Rightarrow> u8 \<Rightarrow> bytes \<Rightarrow> bytes" where
  "wal_record_bytes lsn txn opc payload =
     wal_put_u32 (word_of_nat (length payload)) @ wal_put_u64 lsn @ wal_put_u64 txn @ [opc]
     @ wal_put_u32 (wal_crc lsn txn opc payload) @ payload"

definition wal_append :: "wal_op \<Rightarrow> u64 \<Rightarrow> bytes \<Rightarrow> wal \<Rightarrow> wal" where
  "wal_append op txn payload w =
    (let lsn = wal_next_lsn w; buf = wal_record_bytes lsn txn (wal_op_code op) payload
     in w\<lparr>wal_log := wal_log w @ buf, wal_next_lsn := lsn + 1,
          wal_bytes_since_reset := wal_bytes_since_reset w + word_of_nat (WAL_HEADER_SIZE + length payload)\<rparr>)"

definition wal_alloc_txn_id :: "wal \<Rightarrow> u64 \<times> wal" where
  "wal_alloc_txn_id w = (wal_next_txn_id w, w\<lparr>wal_next_txn_id := wal_next_txn_id w + 1\<rparr>)"

definition wal_reset :: "wal \<Rightarrow> wal" where
  "wal_reset w = w\<lparr>wal_log := [], wal_bytes_since_reset := 0\<rparr>"

section \<open>Reading\<close>

record wal_record =
  rec_lsn :: u64
  rec_txn :: u64
  rec_op :: u8
  rec_payload :: bytes

text \<open>\<^verbatim>\<open>WalReader\<close>: the unread rest of the file behind the descriptor, the end-of-file mark, the buffer.\<close>

record wal_reader =
  rd_rest :: "bytes option"
  rd_eof :: bool
  rd_buf :: bytes
  rd_valid_bytes :: u64

definition wal_reader_open :: "bytes option \<Rightarrow> wal_reader" where
  "wal_reader_open file = \<lparr>rd_rest = file, rd_eof = (file = None), rd_buf = [], rd_valid_bytes = 0\<rparr>"

definition wal_fill :: "wal_reader \<Rightarrow> bool \<times> wal_reader" where
  "wal_fill r =
    (case rd_rest r of
       None \<Rightarrow> (False, r)
     | Some rest \<Rightarrow>
         if rd_eof r then (False, r)
         else let chunk = take (16 * 1024) rest
              in if chunk = [] then (False, r\<lparr>rd_eof := True\<rparr>)
                 else (True, r\<lparr>rd_rest := Some (drop (16 * 1024) rest), rd_buf := rd_buf r @ chunk\<rparr>))"

definition unread :: "wal_reader \<Rightarrow> bytes" where
  "unread r = (case rd_rest r of None \<Rightarrow> [] | Some rest \<Rightarrow> rest)"

lemma fill_shrinks: "wal_fill r = (True, r') \<Longrightarrow> length (unread r') < length (unread r)"
  by (auto simp: wal_fill_def unread_def Let_def split: option.splits if_splits)

text \<open>\<^verbatim>\<open>while (buf_.size() < n) if (!fill()) return false;\<close>\<close>

function fill_to :: "nat \<Rightarrow> wal_reader \<Rightarrow> bool \<times> wal_reader" where
  "fill_to n r =
    (if length (rd_buf r) < n then
       (case wal_fill r of (False, r') \<Rightarrow> (False, r') | (True, r') \<Rightarrow> fill_to n r')
     else (True, r))"
  by pat_completeness auto
termination
  by (relation "measure (\<lambda>(n, r). length (unread r))") (auto simp: fill_shrinks)

declare fill_to.simps [simp del]

definition wal_next :: "wal_reader \<Rightarrow> wal_record option \<times> wal_reader" where
  "wal_next r =
    (case fill_to WAL_HEADER_SIZE r of
       (False, r) \<Rightarrow> (None, r)
     | (True, r) \<Rightarrow>
         let len = unat (wal_get_u32 (rd_buf r) 0)
         in if len > WAL_PAYLOAD_MAX then (None, r)
            else (case fill_to (WAL_HEADER_SIZE + len) r of
                (False, r) \<Rightarrow> (None, r)
              | (True, r) \<Rightarrow>
                  let b = rd_buf r; payload = get_at WAL_HEADER_SIZE len b
                  in if crc32 (get_at 4 17 b @ payload) \<noteq> wal_get_u32 b 21 then (None, r)
                     else (Some \<lparr>rec_lsn = wal_get_u64 b 4, rec_txn = wal_get_u64 b 12, rec_op = b ! 20,
                                 rec_payload = payload\<rparr>,
                           r\<lparr>rd_buf := drop (WAL_HEADER_SIZE + len) b,
                             rd_valid_bytes := rd_valid_bytes r + word_of_nat (WAL_HEADER_SIZE + len)\<rparr>)))"

section \<open>The reader as a parser\<close>

definition stream :: "wal_reader \<Rightarrow> bytes" where
  "stream r = rd_buf r @ unread r"

definition reader_ok :: "wal_reader \<Rightarrow> bool" where
  "reader_ok r \<longleftrightarrow> (rd_eof r \<longrightarrow> unread r = [])"

lemma fill_stream:
  "wal_fill r = (b, r') \<Longrightarrow> stream r' = stream r \<and> rd_valid_bytes r' = rd_valid_bytes r
     \<and> (reader_ok r \<longrightarrow> reader_ok r' \<and> (\<not> b \<longrightarrow> unread r = [] \<and> rd_buf r' = rd_buf r))"
  by (auto simp: wal_fill_def stream_def unread_def reader_ok_def Let_def split: option.splits if_splits)

lemma fill_to_stream:
  "fill_to n r = (b, r') \<Longrightarrow> stream r' = stream r \<and> rd_valid_bytes r' = rd_valid_bytes r \<and> (b \<longrightarrow> n \<le> length (rd_buf r'))
     \<and> (reader_ok r \<longrightarrow> reader_ok r' \<and> (b \<longleftrightarrow> n \<le> length (stream r)))"
proof (induction n r rule: fill_to.induct)
  case (1 n r)
  show ?case
  proof (cases "length (rd_buf r) < n")
    case False
    then show ?thesis using 1(2) by (auto simp: fill_to.simps [of n r] stream_def)
  next
    case True
    obtain c r1 where f: "wal_fill r = (c, r1)" by (cases "wal_fill r")
    show ?thesis
    proof (cases c)
      case c: True
      have "fill_to n r1 = (b, r')" using 1(2) True f c by (simp add: fill_to.simps [of n r])
      then show ?thesis using 1(1) [OF True f [symmetric]] c fill_stream [OF f] by simp
    next
      case c: False
      have "b = False" "r' = r1" using 1(2) True f c by (auto simp: fill_to.simps [of n r])
      then show ?thesis using True fill_stream [OF f] c by (auto simp: stream_def)
    qed
  qed
qed

text \<open>One record at the head of a byte string, with its length.\<close>

definition parse_record :: "bytes \<Rightarrow> (wal_record \<times> nat) option" where
  "parse_record s =
    (if length s < WAL_HEADER_SIZE then None
     else let len = unat (wal_get_u32 s 0)
          in if len > WAL_PAYLOAD_MAX \<or> length s < WAL_HEADER_SIZE + len then None
             else let payload = get_at WAL_HEADER_SIZE len s
                  in if crc32 (get_at 4 17 s @ payload) \<noteq> wal_get_u32 s 21 then None
                     else Some (\<lparr>rec_lsn = wal_get_u64 s 4, rec_txn = wal_get_u64 s 12, rec_op = s ! 20, rec_payload = payload\<rparr>,
                                WAL_HEADER_SIZE + len))"

lemma get_at_prefix: "off + n \<le> length xs \<Longrightarrow> get_at off n (xs @ ys) = get_at off n xs"
  by (simp add: get_at_def)

lemma field_prefix:
  "off + 4 \<le> length xs \<Longrightarrow> wal_get_u32 (xs @ ys) off = wal_get_u32 xs off"
  "off + 8 \<le> length xs \<Longrightarrow> wal_get_u64 (xs @ ys) off = wal_get_u64 xs off"
  by (simp_all add: wal_get_u32_def wal_get_u64_def rd32_def rd64_def get_at_prefix)

lemma wal_next_parse:
  assumes "reader_ok r" "wal_next r = (x, r')"
  shows "reader_ok r' \<and> (case parse_record (stream r) of
      None \<Rightarrow> x = None
    | Some (rec, n) \<Rightarrow> x = Some rec \<and> stream r' = drop n (stream r) \<and> rd_valid_bytes r' = rd_valid_bytes r + word_of_nat n)"
proof -
  obtain b1 r1 where f1: "fill_to WAL_HEADER_SIZE r = (b1, r1)" by (cases "fill_to WAL_HEADER_SIZE r")
  note s1 = fill_to_stream [OF f1]
  show ?thesis
  proof (cases b1)
    case False
    then show ?thesis using assms f1 s1 by (auto simp: wal_next_def parse_record_def)
  next
    case b1: True
    define len where "len = unat (wal_get_u32 (stream r) 0)"
    have h: "25 \<le> length (rd_buf r1)" "25 \<le> length (stream r)" using s1 b1 assms(1) by (auto simp: WAL_HEADER_SIZE_def)
    have l: "unat (wal_get_u32 (rd_buf r1) 0) = len"
      using field_prefix(1) [of 0 "rd_buf r1" "unread r1"] h s1 by (simp add: len_def stream_def)
    show ?thesis
    proof (cases "len > WAL_PAYLOAD_MAX")
      case True
      then show ?thesis using assms f1 s1 b1 l h by (auto simp: wal_next_def parse_record_def len_def [symmetric] WAL_HEADER_SIZE_def Let_def)
    next
      case small: False
      obtain b2 r2 where f2: "fill_to (WAL_HEADER_SIZE + len) r1 = (b2, r2)" by (cases "fill_to (WAL_HEADER_SIZE + len) r1")
      note s2 = fill_to_stream [OF f2]
      have st: "stream r2 = stream r" and ok: "reader_ok r2" using s1 s2 assms(1) by simp_all
      show ?thesis
      proof (cases b2)
        case False
        then show ?thesis using assms f1 s1 b1 l h small f2 s2 ok
          by (auto simp: wal_next_def parse_record_def len_def [symmetric] Let_def)
      next
        case b2: True
        have n: "25 + len \<le> length (rd_buf r2)" "25 + len \<le> length (stream r)" using s1 s2 b2 assms(1) by (auto simp: WAL_HEADER_SIZE_def)
        have e: "stream r = rd_buf r2 @ unread r2" using st by (simp add: stream_def)
        have p: "get_at 25 len (stream r) = get_at 25 len (rd_buf r2)" "get_at 4 17 (stream r) = get_at 4 17 (rd_buf r2)"
          "wal_get_u32 (stream r) 21 = wal_get_u32 (rd_buf r2) 21" "wal_get_u64 (stream r) 4 = wal_get_u64 (rd_buf r2) 4"
          "wal_get_u64 (stream r) 12 = wal_get_u64 (rd_buf r2) 12" "stream r ! 20 = rd_buf r2 ! 20"
          "drop (25 + len) (stream r) = drop (25 + len) (rd_buf r2) @ unread r2"
          unfolding e using n(1) by (simp_all add: get_at_prefix field_prefix nth_append)
        let ?b = "rd_buf r2" and ?c = "crc32 (get_at 4 17 (rd_buf r2) @ get_at 25 len (rd_buf r2)) = wal_get_u32 (rd_buf r2) 21"
        let ?rec = "\<lparr>rec_lsn = wal_get_u64 ?b 4, rec_txn = wal_get_u64 ?b 12, rec_op = ?b ! 20, rec_payload = get_at 25 len ?b\<rparr>"
        let ?r3 = "r2\<lparr>rd_buf := drop (25 + len) ?b, rd_valid_bytes := rd_valid_bytes r2 + word_of_nat (25 + len)\<rparr>"
        have w: "wal_next r = (if ?c then (Some ?rec, ?r3) else (None, r2))"
          unfolding wal_next_def f1 using b1 small f2 b2 by (simp add: l Let_def WAL_HEADER_SIZE_def)
        have q: "parse_record (stream r) = (if ?c then Some (?rec, 25 + len) else None)"
          unfolding parse_record_def len_def [symmetric] using h n small by (simp add: Let_def WAL_HEADER_SIZE_def p)
        have r3: "reader_ok ?r3" "stream ?r3 = drop (25 + len) (stream r)" "rd_valid_bytes r2 = rd_valid_bytes r"
          using ok s1 s2 p(7) by (simp_all add: reader_ok_def stream_def unread_def)
        show ?thesis
        proof (cases ?c)
          case True
          then have "x = Some ?rec" "r' = ?r3" using assms(2) w by simp_all
          then show ?thesis using q True r3 by simp
        next
          case False
          then have "x = None" "r' = r2" using assms(2) w by simp_all
          then show ?thesis using q False ok by simp
        qed
      qed
    qed
  qed
qed

lemma wal_next_shrinks: "wal_next r = (Some rec, r') \<Longrightarrow> length (stream r') < length (stream r)"
proof -
  assume a: "wal_next r = (Some rec, r')"
  obtain b1 r1 where f1: "fill_to WAL_HEADER_SIZE r = (b1, r1)" by (cases "fill_to WAL_HEADER_SIZE r")
  define len where "len = unat (wal_get_u32 (rd_buf r1) 0)"
  obtain b2 r2 where f2: "fill_to (WAL_HEADER_SIZE + len) r1 = (b2, r2)" by (cases "fill_to (WAL_HEADER_SIZE + len) r1")
  have b: b1 b2 using a f1 f2 by (auto simp: wal_next_def len_def [symmetric] Let_def split: if_splits bool.splits)
  have "WAL_HEADER_SIZE + len \<le> length (rd_buf r2)" "stream r2 = stream r"
    using fill_to_stream [OF f1] fill_to_stream [OF f2] b by simp_all
  moreover have "r' = r2\<lparr>rd_buf := drop (WAL_HEADER_SIZE + len) (rd_buf r2), rd_valid_bytes := rd_valid_bytes r2 + word_of_nat (WAL_HEADER_SIZE + len)\<rparr>"
    using a f1 f2 b by (auto simp: wal_next_def len_def [symmetric] Let_def split: if_splits)
  moreover have "length (stream r2) = length (rd_buf r2) + length (unread r2)" by (simp add: stream_def)
  ultimately show ?thesis by (auto simp: stream_def unread_def WAL_HEADER_SIZE_def)
qed

text \<open>\<^verbatim>\<open>while (reader.next(&rec))\<close>: the records recovery collects, and the reader at the end.\<close>

function read_log :: "wal_reader \<Rightarrow> wal_record list \<times> wal_reader" where
  "read_log r = (case wal_next r of
      (None, r') \<Rightarrow> ([], r')
    | (Some rec, r') \<Rightarrow> (let (recs, r'') = read_log r' in (rec # recs, r'')))"
  by pat_completeness auto
termination
  by (relation "measure (length \<circ> stream)") (simp, metis comp_apply in_measure wal_next_shrinks)

declare read_log.simps [simp del]

function parse_log :: "bytes \<Rightarrow> wal_record list" where
  "parse_log s = (case parse_record s of None \<Rightarrow> [] | Some (rec, n) \<Rightarrow> rec # parse_log (drop n s))"
  by pat_completeness auto
termination
  by (relation "measure length") (auto simp: parse_record_def Let_def WAL_HEADER_SIZE_def split: if_splits)

declare parse_log.simps [simp del]

lemma read_log_parse: "reader_ok r \<Longrightarrow> fst (read_log r) = parse_log (stream r)"
proof (induction r rule: read_log.induct)
  case (1 r)
  obtain x r1 where n: "wal_next r = (x, r1)" by (cases "wal_next r")
  note p = wal_next_parse [OF 1(2) n]
  show ?case
  proof (cases x)
    case None
    then have "parse_record (stream r) = None" using p by (auto split: option.splits)
    then show ?thesis using n None by (simp add: read_log.simps [of r] parse_log.simps [of "stream r"])
  next
    case (Some rec)
    then obtain k where k: "parse_record (stream r) = Some (rec, k)" "stream r1 = drop k (stream r)"
      using p by (auto split: option.splits)
    have "fst (read_log r1) = parse_log (stream r1)" using 1(1) [OF n [symmetric], of rec] Some p by simp
    then show ?thesis using n Some k by (simp add: read_log.simps [of r] parse_log.simps [of "stream r"] case_prod_beta)
  qed
qed

section \<open>Reading back what was appended\<close>

definition rec_bytes :: "wal_record \<Rightarrow> bytes" where
  "rec_bytes r = wal_record_bytes (rec_lsn r) (rec_txn r) (rec_op r) (rec_payload r)"

definition rec_fits :: "wal_record \<Rightarrow> bool" where
  "rec_fits r \<longleftrightarrow> length (rec_payload r) \<le> WAL_PAYLOAD_MAX"

lemma length_wal_put [simp]: "length (wal_put_u64 v) = 8" "length (wal_put_u32 w) = 4"
  by (simp_all add: wal_put_u64_def wal_put_u32_def)

lemma length_rec_bytes: "length (rec_bytes r) = 25 + length (rec_payload r)"
  by (simp add: rec_bytes_def wal_record_bytes_def)

lemma payload_len32: "n \<le> WAL_PAYLOAD_MAX \<Longrightarrow> unat (word_of_nat n :: u32) = n"
  by (simp add: WAL_PAYLOAD_MAX_def WAL_PATCH_HEADER_SIZE_def PAGE_SIZE_def unat_of_nat)

lemma get_put_fields:
  "wal_get_u32 (wal_put_u32 a @ ys) 0 = a" "wal_get_u64 (wal_put_u64 b @ ys) 0 = b"
  by (simp_all add: wal_get_u32_def wal_get_u64_def rd32_def rd64_def wal_put_u32_def wal_put_u64_def get_at_append_exact)

lemma get_skip: "length xs = k \<Longrightarrow> k \<le> off \<Longrightarrow> get_at off n (xs @ ys) = get_at (off - k) n ys"
  by (simp add: get_at_def)

lemma field_skip:
  "length xs = k \<Longrightarrow> k \<le> off \<Longrightarrow> wal_get_u32 (xs @ ys) off = wal_get_u32 ys (off - k)"
  "length xs = k \<Longrightarrow> k \<le> off \<Longrightarrow> wal_get_u64 (xs @ ys) off = wal_get_u64 ys (off - k)"
  by (simp_all add: wal_get_u32_def wal_get_u64_def rd32_def rd64_def get_skip)

lemma rec_fields:
  fixes r t
  defines "s \<equiv> rec_bytes r @ t"
  shows "wal_get_u32 s 0 = word_of_nat (length (rec_payload r))" "wal_get_u64 s 4 = rec_lsn r" "wal_get_u64 s 12 = rec_txn r"
    "s ! 20 = rec_op r" "wal_get_u32 s 21 = wal_crc (rec_lsn r) (rec_txn r) (rec_op r) (rec_payload r)"
    "get_at 4 17 s = wal_put_u64 (rec_lsn r) @ wal_put_u64 (rec_txn r) @ [rec_op r]"
    "get_at 25 (length (rec_payload r)) s = rec_payload r"
proof -
  let ?l = "wal_put_u32 (word_of_nat (length (rec_payload r)))" and ?a = "wal_put_u64 (rec_lsn r)" and ?b = "wal_put_u64 (rec_txn r)"
  let ?c = "wal_put_u32 (wal_crc (rec_lsn r) (rec_txn r) (rec_op r) (rec_payload r))"
  have s: "s = ?l @ ?a @ ?b @ [rec_op r] @ ?c @ rec_payload r @ t" by (simp add: s_def rec_bytes_def wal_record_bytes_def)
  show "wal_get_u32 s 0 = word_of_nat (length (rec_payload r))" unfolding s by (rule get_put_fields)
  show "wal_get_u64 s 4 = rec_lsn r" unfolding s by (simp add: field_skip get_put_fields)
  show "wal_get_u64 s 12 = rec_txn r" unfolding s by (simp add: field_skip [where k = 4] field_skip [where k = 8] get_put_fields)
  show "s ! 20 = rec_op r" unfolding s by (simp add: nth_append)
  show "wal_get_u32 s 21 = wal_crc (rec_lsn r) (rec_txn r) (rec_op r) (rec_payload r)"
    unfolding s by (simp add: field_skip [where k = 4] field_skip [where k = 8] field_skip [where xs = "[rec_op r]" and k = 1] get_put_fields del: append.simps)
  show "get_at 4 17 s = ?a @ ?b @ [rec_op r]" unfolding s by (simp add: get_at_def)
  show "get_at 25 (length (rec_payload r)) s = rec_payload r" unfolding s by (simp add: get_at_def)
qed

lemma parse_rec_bytes:
  assumes "rec_fits r"
  shows "parse_record (rec_bytes r @ t) = Some (r, 25 + length (rec_payload r))"
proof -
  note f = rec_fields [of r t]
  have n: "unat (word_of_nat (length (rec_payload r)) :: u32) = length (rec_payload r)"
    using assms by (intro payload_len32) (simp add: rec_fits_def)
  show ?thesis unfolding parse_record_def f(1) n Let_def
    using assms f by (simp add: rec_fits_def length_rec_bytes WAL_HEADER_SIZE_def wal_crc_def)
qed

lemma parse_truncated:
  assumes "rec_fits r" "k < length (rec_bytes r)"
  shows "parse_record (take k (rec_bytes r)) = None"
proof (cases "k < 25")
  case True
  then have "length (take k (rec_bytes r)) < WAL_HEADER_SIZE" by (simp add: WAL_HEADER_SIZE_def min_def)
  then show ?thesis by (simp add: parse_record_def)
next
  case False
  have "wal_get_u32 (take k (rec_bytes r) @ drop k (rec_bytes r)) 0 = wal_get_u32 (take k (rec_bytes r)) 0"
    using False assms(2) by (intro field_prefix(1)) simp
  then have "unat (wal_get_u32 (take k (rec_bytes r)) 0) = length (rec_payload r)"
    using rec_fields(1) [of r "[]"] payload_len32 assms(1) by (simp add: rec_fits_def)
  then show ?thesis using assms(2) by (simp add: parse_record_def WAL_HEADER_SIZE_def length_rec_bytes Let_def)
qed

lemma parse_log_append:
  assumes "list_all rec_fits rs"
  shows "parse_log (concat (map rec_bytes rs) @ t) = rs @ parse_log t"
  using assms
proof (induction rs)
  case (Cons r rs)
  have "parse_log (rec_bytes r @ (concat (map rec_bytes rs) @ t)) = r # parse_log (concat (map rec_bytes rs) @ t)"
    using parse_rec_bytes [of r "concat (map rec_bytes rs) @ t"] Cons.prems
    by (simp add: parse_log.simps [of "rec_bytes r @ _"] length_rec_bytes)
  then show ?case using Cons by simp
qed simp

text \<open>A sequence of appends, and the records it leaves in the log.\<close>

definition wal_run :: "(wal_op \<times> u64 \<times> bytes) list \<Rightarrow> wal \<Rightarrow> wal" where
  "wal_run es w = fold (\<lambda>(op, txn, payload). wal_append op txn payload) es w"

fun numbered :: "u64 \<Rightarrow> (wal_op \<times> u64 \<times> bytes) list \<Rightarrow> wal_record list" where
  "numbered lsn [] = []"
| "numbered lsn ((op, txn, payload) # es) =
     \<lparr>rec_lsn = lsn, rec_txn = txn, rec_op = wal_op_code op, rec_payload = payload\<rparr> # numbered (lsn + 1) es"

definition entries_fit :: "(wal_op \<times> u64 \<times> bytes) list \<Rightarrow> bool" where
  "entries_fit es \<longleftrightarrow> (\<forall>(op, txn, payload) \<in> set es. length payload \<le> WAL_PAYLOAD_MAX)"

lemma wal_append_simps [simp]:
  "wal_log (wal_append op txn p w) = wal_log w @ rec_bytes \<lparr>rec_lsn = wal_next_lsn w, rec_txn = txn, rec_op = wal_op_code op, rec_payload = p\<rparr>"
  "wal_next_lsn (wal_append op txn p w) = wal_next_lsn w + 1"
  "wal_next_txn_id (wal_append op txn p w) = wal_next_txn_id w"
  by (simp_all add: wal_append_def Let_def rec_bytes_def)

lemma wal_run_log: "wal_log (wal_run es w) = wal_log w @ concat (map rec_bytes (numbered (wal_next_lsn w) es))"
  by (induction es arbitrary: w) (auto simp: wal_run_def)

lemma wal_run_simps [simp]: "wal_run [] w = w" "wal_run (e # es) w = wal_run es (wal_append (fst e) (fst (snd e)) (snd (snd e)) w)"
  by (simp_all add: wal_run_def case_prod_beta)

lemma numbered_fits: "entries_fit es \<Longrightarrow> list_all rec_fits (numbered lsn es)"
  by (induction es arbitrary: lsn) (auto simp: entries_fit_def rec_fits_def)

lemma length_numbered [simp]: "length (numbered lsn es) = length es"
  by (induction es arbitrary: lsn) auto

lemma numbered_nth:
  "i < length es \<Longrightarrow> numbered lsn es ! i = \<lparr>rec_lsn = lsn + word_of_nat i, rec_txn = fst (snd (es ! i)),
     rec_op = wal_op_code (fst (es ! i)), rec_payload = snd (snd (es ! i))\<rparr>"
  by (induction es arbitrary: lsn i) (auto simp: nth_Cons algebra_simps split: nat.splits)

lemma reader_open_ok [simp]: "reader_ok (wal_reader_open f)" "stream (wal_reader_open (Some bs)) = bs" "stream (wal_reader_open None) = []"
  by (simp_all add: reader_ok_def wal_reader_open_def stream_def unread_def)

lemma parse_log_None: "parse_record s = None \<Longrightarrow> parse_log s = []"
  by (simp add: parse_log.simps [of s])

text \<open>A record with one damaged byte is not accepted, provided its length field is intact.\<close>

lemma damaged_record:
  assumes "rec_fits r" "4 \<le> i" "i < length (rec_bytes r)" "b \<noteq> rec_bytes r ! i"
  shows "parse_record ((rec_bytes r)[i := b] @ t) = None"
proof -
  let ?s = "rec_bytes r" and ?n = "length (rec_payload r)"
  let ?d = "(rec_bytes r)[i := b]"
  have l: "length ?s = 25 + ?n" "length ?d = 25 + ?n" by (simp_all add: length_rec_bytes)
  note f = rec_fields [of r "[]", simplified]
  have pre: "get_at off m (?d @ t) = get_at off m ?d" if "off + m \<le> 25 + ?n" for off m using that l by (intro get_at_prefix) simp
  have same: "get_at off m ?d = get_at off m ?s" if "i < off \<or> off + m \<le> i" "off + m \<le> 25 + ?n" for off m
    using that l by (intro nth_equalityI) (auto simp: length_get_at nth_get_at)
  have n: "unat (wal_get_u32 (?d @ t) 0) = ?n"
    using assms(1,2) pre [of 0 4] same [of 0 4] f(1) payload_len32 [of ?n]
    by (simp add: wal_get_u32_def rd32_def rec_fits_def)
  have c: "wal_get_u32 x 21 = word_of_nat (le_val (get_at 21 4 x))" for x by (simp add: wal_get_u32_def rd32_def)
  let ?src = "get_at 4 17 ?s @ get_at 25 ?n ?s"
  have ok: "crc32 ?src = wal_get_u32 ?s 21" using f by (simp add: wal_crc_def)
  have ls: "length ?src = 17 + ?n" using l by (simp add: length_get_at)
  have "crc32 (get_at 4 17 ?d @ get_at 25 ?n ?d) \<noteq> wal_get_u32 ?d 21"
  proof (cases "21 \<le> i \<and> i < 25")
    case True
    then have "get_at 4 17 ?d @ get_at 25 ?n ?d = ?src" using same [of 4 17] same [of 25 ?n] by simp
    moreover have "get_at 21 4 ?d \<noteq> get_at 21 4 ?s"
    proof
      assume "get_at 21 4 ?d = get_at 21 4 ?s"
      then have "get_at 21 4 ?d ! (i - 21) = get_at 21 4 ?s ! (i - 21)" by simp
      moreover have "i - 21 < 4" "21 + (i - 21) = i" using True by auto
      ultimately show False using assms(3,4) l by (simp add: nth_get_at)
    qed
    then have "le_val (get_at 21 4 ?d) \<noteq> le_val (get_at 21 4 ?s)"
      using l by (subst le_val_inj) (simp_all add: length_get_at)
    moreover have "le_val (get_at 21 4 ?d) < 4294967296" "le_val (get_at 21 4 ?s) < 4294967296"
      using l by (intro le4_less; simp add: length_get_at)+
    ultimately show ?thesis using ok c by (simp add: word_unat_eq_iff unat_of_nat)
  next
    case False
    define j where "j = (if i < 21 then i - 4 else i - 25 + 17)"
    have j: "j < 17 + ?n" using False assms(2,3) l by (auto simp: j_def)
    have "get_at 4 17 ?d @ get_at 25 ?n ?d = ?src[j := b]"
      using False assms(2,3) l j by (intro nth_equalityI) (auto simp: length_get_at nth_append nth_get_at nth_update_in j_def)
    moreover have "?src ! j \<noteq> b" using False assms l by (auto simp: j_def nth_append length_get_at nth_get_at)
    moreover have "wal_get_u32 ?d 21 = wal_get_u32 ?s 21" using same [of 21 4] False assms(2) c by auto
    ultimately show ?thesis using crc32_byte [of j ?src b] ls j ok by auto
  qed
  then show ?thesis unfolding parse_record_def n Let_def c
    using l pre [of 4 17] pre [of 25 ?n] pre [of 21 4] by (simp add: WAL_HEADER_SIZE_def c)
qed

text \<open>
  Everything appended is read back: after any sequence of appends to an empty log, followed by
  an arbitrary torn prefix of one more record, the reader delivers exactly the appended records, in
  order, numbered consecutively from the counter, and stops.
\<close>

theorem wal_read_appended:
  assumes "wal_log w = []" "entries_fit es" and "rec_fits r" "k < length (rec_bytes r)"
  shows "fst (read_log (wal_reader_open (Some (wal_log (wal_run es w) @ take k (rec_bytes r))))) = numbered (wal_next_lsn w) es"
  using assms parse_log_append [OF numbered_fits [OF assms(2)]] parse_log_None [OF parse_truncated [OF assms(3,4)]]
  by (simp add: read_log_parse wal_run_log)

theorem wal_read_appended_witness:
  "fst (read_log (wal_reader_open (Some (wal_log (wal_run [(DropFile, 1, [5, 0, 0, 0, 0, 0, 0, 0]), (Commit, 1, [])] (wal_init []))
      @ take 30 (rec_bytes \<lparr>rec_lsn = 3, rec_txn = 2, rec_op = 2, rec_payload = [6, 0, 0, 0, 0, 0, 0, 0]\<rparr>)))))
   = [\<lparr>rec_lsn = 1, rec_txn = 1, rec_op = 2, rec_payload = [5, 0, 0, 0, 0, 0, 0, 0]\<rparr>, \<lparr>rec_lsn = 2, rec_txn = 1, rec_op = 3, rec_payload = []\<rparr>]"
  using wal_read_appended [of "wal_init []" "[(DropFile, 1, [5, 0, 0, 0, 0, 0, 0, 0]), (Commit, 1, [])]"
      "\<lparr>rec_lsn = 3, rec_txn = 2, rec_op = 2, rec_payload = [6, 0, 0, 0, 0, 0, 0, 0]\<rparr>" 30]
  by (simp add: wal_init_def entries_fit_def rec_fits_def length_rec_bytes WAL_PAYLOAD_MAX_def WAL_PATCH_HEADER_SIZE_def PAGE_SIZE_def)

text \<open>
  A damaged record ends the log: when any byte of a record behind its length field has changed,
  the reader delivers the records before it and nothing of what follows.
\<close>

theorem wal_damaged_stops:
  assumes "list_all rec_fits rs" "rec_fits r" and "4 \<le> i" "i < length (rec_bytes r)" "b \<noteq> rec_bytes r ! i"
  shows "fst (read_log (wal_reader_open (Some (concat (map rec_bytes rs) @ (rec_bytes r)[i := b] @ t)))) = rs"
  using parse_log_append [OF assms(1)] parse_log_None [OF damaged_record [OF assms(2-5)]]
  by (simp add: read_log_parse)

theorem wal_damaged_stops_witness:
  "fst (read_log (wal_reader_open (Some (concat (map rec_bytes [])
     @ (rec_bytes \<lparr>rec_lsn = 1, rec_txn = 1, rec_op = 3, rec_payload = []\<rparr>)[20 := 4] @ [1, 2])))) = []"
  using wal_damaged_stops [of "[]" "\<lparr>rec_lsn = 1, rec_txn = 1, rec_op = 3, rec_payload = []\<rparr>" 20 4 "[1, 2]"]
    rec_fields(4) [of "\<lparr>rec_lsn = 1, rec_txn = 1, rec_op = 3, rec_payload = []\<rparr>" "[]"]
  by (simp add: rec_fits_def length_rec_bytes)

end
