(* ===== verification/BufferPool.thy ===== *)
theory BufferPool
  imports Recovery
begin

text \<open>
  The page cache of src/storage/buffer_pool.h and buffer_pool.cpp: a fixed number of frames, a page
  table, second-chance eviction, pin counts, and the logging of page differences when a page is
  marked dirty. The state carries the files and the log the pool writes to and the active
  transaction the engine hands it; a frame is addressed by its index, as the source maps a data
  pointer to one. What is shown of it is in PoolSafety.
\<close>

section \<open>State\<close>

record page_frame =
  fr_page :: page_id
  fr_valid :: bool
  fr_dirty :: bool
  fr_ref :: bool
  fr_pin :: u16
  fr_data :: bytes
  fr_before :: bytes

definition empty_frame :: page_frame where
  "empty_frame = \<lparr>fr_page = INVALID_PAGE, fr_valid = False, fr_dirty = False, fr_ref = False, fr_pin = 0,
                  fr_data = replicate PAGE_SIZE 0, fr_before = replicate PAGE_SIZE 0\<rparr>"

record undo_entry =
  ue_fid :: u64
  ue_page_no :: u32
  ue_off :: u32
  ue_len :: u32
  ue_before :: bytes

record tail_undo =
  tu_fid :: u64
  tu_had :: bool
  tu_old_tail :: u32

record txn_context =
  tc_txn_id :: u64
  tc_wrote :: bool
  tc_undo :: "undo_entry list"
  tc_tail_undo :: "tail_undo list"
  tc_pending_drops :: "u64 list"

record store =
  bp_files :: files
  bp_wal :: wal
  bp_frames :: "page_frame list"
  bp_table :: "page_id \<Rightarrow> nat option"
  bp_hand :: nat
  bp_txn :: "txn_context option"

definition upd_frame :: "nat \<Rightarrow> (page_frame \<Rightarrow> page_frame) \<Rightarrow> store \<Rightarrow> store" where
  "upd_frame idx f s = s\<lparr>bp_frames := (bp_frames s)[idx := f (bp_frames s ! idx)]\<rparr>"

definition pool_init :: "nat \<Rightarrow> files \<Rightarrow> wal \<Rightarrow> store" where
  "pool_init capacity fs w = \<lparr>bp_files = fs, bp_wal = w, bp_frames = replicate capacity empty_frame,
     bp_table = (\<lambda>_. None), bp_hand = 0, bp_txn = None\<rparr>"

section \<open>Lookup and write-back\<close>

definition frame_index :: "nat \<Rightarrow> store \<Rightarrow> nat option" where
  "frame_index idx s = (if idx \<ge> length (bp_frames s) \<or> \<not> fr_valid (bp_frames s ! idx) then None else Some idx)"

definition write_back :: "nat \<Rightarrow> store \<Rightarrow> store res" where
  "write_back idx s =
    (let f = bp_frames s ! idx
     in if \<not> fr_valid f \<or> \<not> fr_dirty f then Inr s
        else if fr_before f \<noteq> fr_data f then Inl Crash
        else Inr (upd_frame idx (\<lambda>f. f\<lparr>fr_dirty := False\<rparr>)
               (s\<lparr>bp_files := write_page (pid_file (fr_page f)) (pid_page (fr_page f)) (fr_data f) (bp_files s)\<rparr>)))"

section \<open>Logging page differences\<close>

definition word_differs :: "bytes \<Rightarrow> bytes \<Rightarrow> nat \<Rightarrow> bool" where
  "word_differs b d w \<longleftrightarrow> rd64 (w * 8) b \<noteq> rd64 (w * 8) d"

text \<open>The loop \<^verbatim>\<open>while (w < words && w <= hi)\<close>.\<close>

function extend_range :: "bytes \<Rightarrow> bytes \<Rightarrow> nat \<Rightarrow> nat \<Rightarrow> nat \<times> nat" where
  "extend_range b d w hi =
    (if w < PAGE_SIZE div 8 \<and> w \<le> hi then
       extend_range b d (w + 1) (if word_differs b d w then w + 1 else hi)
     else (w, hi))"
  by pat_completeness auto
termination by (relation "measure (\<lambda>(b, d, w, hi). PAGE_SIZE div 8 - w)") auto

declare extend_range.simps [simp del]

lemma extend_range_grows: "extend_range b d w hi = (w', hi') \<Longrightarrow> w \<le> w'"
proof (induction b d w hi rule: extend_range.induct)
  case (1 b d w hi)
  then show ?case
    by (cases "w < PAGE_SIZE div 8 \<and> w \<le> hi")
       (fastforce simp: extend_range.simps [of b d w hi] split: if_splits)+
qed

function diff_ranges :: "bytes \<Rightarrow> bytes \<Rightarrow> nat \<Rightarrow> (nat \<times> nat) list" where
  "diff_ranges b d w =
    (if w < PAGE_SIZE div 8 then
       (if \<not> word_differs b d w then diff_ranges b d (w + 1)
        else let (w', hi) = extend_range b d (w + 1) (w + 1) in (w, hi) # diff_ranges b d w')
     else [])"
  by pat_completeness auto
termination
proof (relation "measure (\<lambda>(b, d, w). PAGE_SIZE div 8 - w)")
  fix b d w x w' hi
  assume a: "w < PAGE_SIZE div 8" "x = extend_range b d (w + 1) (w + 1)" "(w', hi) = x"
  then have "w + 1 \<le> w'" using extend_range_grows [of b d "w + 1" "w + 1" w' hi] by simp
  then show "((b, d, w'), (b, d, w)) \<in> measure (\<lambda>(b, d, w). PAGE_SIZE div 8 - w)" using a(1) by simp
qed auto

declare diff_ranges.simps [simp del]

definition log_range :: "page_id \<Rightarrow> bytes \<Rightarrow> bytes \<Rightarrow> nat \<times> nat \<Rightarrow> wal \<times> txn_context \<Rightarrow> wal \<times> txn_context" where
  "log_range pid data before = (\<lambda>(lo, hi) (w, t).
    let off = lo * 8; len = (hi - lo) * 8
    in (wal_append PagePatch (tc_txn_id t) (patch_payload pid off (get_at off len data) (get_at off len before)) w,
        t\<lparr>tc_undo := tc_undo t @ [\<lparr>ue_fid = pid_file pid, ue_page_no = pid_page pid, ue_off = word_of_nat off,
              ue_len = word_of_nat len, ue_before = get_at off len before\<rparr>], tc_wrote := True\<rparr>))"

definition log_page_diff :: "nat \<Rightarrow> txn_context \<Rightarrow> store \<Rightarrow> store" where
  "log_page_diff idx t s =
    (let f = bp_frames s ! idx;
         (w, t) = fold (log_range (fr_page f) (fr_data f) (fr_before f)) (diff_ranges (fr_before f) (fr_data f) 0) (bp_wal s, t)
     in upd_frame idx (\<lambda>f. f\<lparr>fr_before := fr_data f\<rparr>) (s\<lparr>bp_wal := w, bp_txn := Some t\<rparr>))"

section \<open>Eviction\<close>

text \<open>The clock: step \<^verbatim>\<open>i\<close> of at most two rounds looks at frame \<^verbatim>\<open>hand + i\<close>.\<close>

fun evict_from :: "nat list \<Rightarrow> store \<Rightarrow> (nat \<times> store) res" where
  "evict_from [] s = Inl (Raise Internal)"
| "evict_from (i # is) s =
    (let n = length (bp_frames s); idx = (bp_hand s + i) mod n; f = bp_frames s ! idx
     in if fr_pin f > 0 then evict_from is s
        else if fr_valid f \<and> fr_ref f then evict_from is (upd_frame idx (\<lambda>f. f\<lparr>fr_ref := False\<rparr>) s)
        else rbind (write_back idx s) (\<lambda>s.
               let s = (if fr_valid f then s\<lparr>bp_table := (bp_table s)(fr_page f := None)\<rparr> else s);
                   s = upd_frame idx (\<lambda>f. f\<lparr>fr_valid := False\<rparr>) s
               in Inr (idx, s\<lparr>bp_hand := (idx + 1) mod n\<rparr>)))"

definition evict :: "store \<Rightarrow> (nat \<times> store) res" where
  "evict s = evict_from [0..<2 * length (bp_frames s)] s"

section \<open>The operations\<close>

definition pool_read :: "page_id \<Rightarrow> u32 \<Rightarrow> store \<Rightarrow> (nat \<times> store) res" where
  "pool_read pid magic s =
    (case bp_table s pid of
       Some idx \<Rightarrow> Inr (idx, upd_frame idx (\<lambda>f. f\<lparr>fr_ref := True, fr_pin := fr_pin f + 1\<rparr>) s)
     | None \<Rightarrow> rbind (evict s) (\<lambda>(idx, s).
         let (data, fs) = read_page (pid_file pid) (pid_page pid) (bp_files s);
             f = empty_frame\<lparr>fr_page := pid, fr_valid := True, fr_ref := True, fr_pin := 1, fr_data := data\<rparr>
         in if \<not> page_valid data magic then Inl Critical
            else Inr (idx, upd_frame idx (\<lambda>_. f\<lparr>fr_before := data\<rparr>)
                   (s\<lparr>bp_table := (bp_table s)(pid \<mapsto> idx), bp_files := fs\<rparr>))))"

definition pool_allocate :: "page_id \<Rightarrow> store \<Rightarrow> (nat \<times> store) res" where
  "pool_allocate pid s =
    (case bp_table s pid of
       Some idx \<Rightarrow> Inr (idx, upd_frame idx (\<lambda>f. f\<lparr>fr_pin := fr_pin f + 1\<rparr>) s)
     | None \<Rightarrow> rbind (evict s) (\<lambda>(idx, s).
         Inr (idx, upd_frame idx (\<lambda>_. empty_frame\<lparr>fr_page := pid, fr_valid := True, fr_dirty := True, fr_ref := True, fr_pin := 1\<rparr>)
                (s\<lparr>bp_table := (bp_table s)(pid \<mapsto> idx)\<rparr>))))"

definition pool_unpin :: "nat \<Rightarrow> store \<Rightarrow> store res" where
  "pool_unpin idx s =
    (case frame_index idx s of
       None \<Rightarrow> Inl (Raise Internal)
     | Some idx \<Rightarrow> if fr_pin (bp_frames s ! idx) > 0 then Inr (upd_frame idx (\<lambda>f. f\<lparr>fr_pin := fr_pin f - 1\<rparr>) s) else Inr s)"

definition pool_mark_dirty :: "nat \<Rightarrow> store \<Rightarrow> store res" where
  "pool_mark_dirty idx s =
    (case frame_index idx s of
       None \<Rightarrow> Inl (Raise Internal)
     | Some idx \<Rightarrow>
         (case bp_txn s of
            None \<Rightarrow> Inl (Raise Internal)
          | Some t \<Rightarrow> Inr (upd_frame idx (\<lambda>f. f\<lparr>fr_dirty := True\<rparr>) (log_page_diff idx t s))))"

definition restore_region :: "page_id \<Rightarrow> nat \<Rightarrow> bytes \<Rightarrow> store \<Rightarrow> store" where
  "restore_region pid off before s =
    (case bp_table s pid of
       None \<Rightarrow>
         let (buf, fs) = read_page (pid_file pid) (pid_page pid) (bp_files s)
         in s\<lparr>bp_files := write_page (pid_file pid) (pid_page pid) (put_at off before buf) fs\<rparr>
     | Some idx \<Rightarrow>
         upd_frame idx (\<lambda>f. f\<lparr>fr_data := put_at off before (fr_data f), fr_before := put_at off before (fr_before f),
                             fr_dirty := True\<rparr>) s)"

definition pool_flush :: "page_id \<Rightarrow> store \<Rightarrow> store res" where
  "pool_flush pid s = (case bp_table s pid of None \<Rightarrow> Inr s | Some idx \<Rightarrow> write_back idx s)"

fun write_back_all :: "nat list \<Rightarrow> store \<Rightarrow> store res" where
  "write_back_all [] s = Inr s"
| "write_back_all (k # ks) s = rbind (write_back k s) (write_back_all ks)"

definition pool_flush_all :: "store \<Rightarrow> store res" where
  "pool_flush_all s = write_back_all [0..<length (bp_frames s)] s"

definition pool_invalidate_all :: "store \<Rightarrow> store" where
  "pool_invalidate_all s = s\<lparr>bp_frames := map (\<lambda>_. empty_frame) (bp_frames s), bp_table := (\<lambda>_. None), bp_hand := 0\<rparr>"

text \<open>
  \<^verbatim>\<open>drop_table\<close> walks the hash table; its frames are visited here in index order, which leaves the
  same files, frames and table since distinct pages do not interfere.
\<close>

fun drop_frames :: "u64 \<Rightarrow> nat list \<Rightarrow> store \<Rightarrow> store res" where
  "drop_frames fid [] s = Inr s"
| "drop_frames fid (k # ks) s =
    (let pid = fr_page (bp_frames s ! k)
     in if bp_table s pid = Some k \<and> pid_file pid = fid then
          rbind (write_back k s) (\<lambda>s.
            drop_frames fid ks (upd_frame k (\<lambda>_. empty_frame) (s\<lparr>bp_table := (bp_table s)(pid := None)\<rparr>)))
        else drop_frames fid ks s)"

definition pool_drop_table :: "u64 \<Rightarrow> store \<Rightarrow> store res" where
  "pool_drop_table fid s = drop_frames fid [0..<length (bp_frames s)] s"

section \<open>How clients use a page\<close>

text \<open>The bytes behind the pointer of a frame, and writing them while the frame is pinned.\<close>

definition frame_data :: "nat \<Rightarrow> store \<Rightarrow> bytes" where
  "frame_data k s = fr_data (bp_frames s ! k)"

definition edit_page :: "nat \<Rightarrow> bytes \<Rightarrow> store \<Rightarrow> store" where
  "edit_page k data s = upd_frame k (\<lambda>f. f\<lparr>fr_data := data\<rparr>) s"

text \<open>\<^verbatim>\<open>mark_dirty\<close> then \<^verbatim>\<open>unpin\<close>: how every change of a page ends.\<close>

definition finish :: "nat \<Rightarrow> store \<Rightarrow> store res" where
  "finish k s = rbind (pool_mark_dirty k s) (pool_unpin k)"

end
