(* ===== verification/PoolSafety.thy ===== *)
theory PoolSafety
  imports BufferPool
begin

text \<open>
  What the buffer pool promises. The invariant relates frames, page table and disk; the pages a
  client sees and the pages the log knows are the two abstract views of a state. Shown: the cache is
  transparent, eviction finds an unpinned frame whenever there is one, the ranges that are logged
  are exactly the differing words, and the logged patches turn the old page into the new one and
  back.
\<close>

section \<open>Invariant and contents\<close>

text \<open>
  The page table is exact; a clean frame has its baseline on disk; a frame nobody holds has no
  unlogged change.
\<close>

definition frame_ok :: "files \<Rightarrow> page_frame \<Rightarrow> bool" where
  "frame_ok fs f \<longleftrightarrow> length (fr_data f) = PAGE_SIZE \<and> length (fr_before f) = PAGE_SIZE
     \<and> (fr_valid f \<and> \<not> fr_dirty f \<longrightarrow> fr_before f = disk_page fs (fr_page f))
     \<and> (fr_valid f \<and> fr_pin f = 0 \<longrightarrow> fr_data f = fr_before f) \<and> (\<not> fr_valid f \<longrightarrow> fr_pin f = 0)"

definition pool_ok :: "store \<Rightarrow> bool" where
  "pool_ok s \<longleftrightarrow> list_all (frame_ok (bp_files s)) (bp_frames s)
     \<and> (\<forall>pid k. bp_table s pid = Some k \<longleftrightarrow> k < length (bp_frames s) \<and> fr_valid (bp_frames s ! k) \<and> fr_page (bp_frames s ! k) = pid)"

text \<open>What a reader of the pool sees of a page, and what the log knows of it.\<close>

definition page_view :: "store \<Rightarrow> page_id \<Rightarrow> bytes" where
  "page_view s pid = (case bp_table s pid of None \<Rightarrow> disk_page (bp_files s) pid | Some k \<Rightarrow> fr_data (bp_frames s ! k))"

definition logged_view :: "store \<Rightarrow> page_id \<Rightarrow> bytes" where
  "logged_view s pid = (case bp_table s pid of None \<Rightarrow> disk_page (bp_files s) pid | Some k \<Rightarrow> fr_before (bp_frames s ! k))"

lemma pool_ok_frame: "pool_ok s \<Longrightarrow> k < length (bp_frames s) \<Longrightarrow> frame_ok (bp_files s) (bp_frames s ! k)"
  by (simp add: pool_ok_def list_all_length)

lemma pool_ok_table:
  "pool_ok s \<Longrightarrow> bp_table s pid = Some k \<longleftrightarrow> k < length (bp_frames s) \<and> fr_valid (bp_frames s ! k) \<and> fr_page (bp_frames s ! k) = pid"
  by (simp add: pool_ok_def)

lemma table_bound: "pool_ok s \<Longrightarrow> bp_table s pid = Some k \<Longrightarrow> k < length (bp_frames s)"
  by (simp add: pool_ok_table)

lemma pool_ok_distinct:
  assumes "pool_ok s" "j < length (bp_frames s)" "k < length (bp_frames s)" "fr_valid (bp_frames s ! j)" "fr_valid (bp_frames s ! k)"
    "fr_page (bp_frames s ! j) = fr_page (bp_frames s ! k)"
  shows "j = k"
  using assms pool_ok_table [OF assms(1), of "fr_page (bp_frames s ! k)"] by (metis option.inject)

lemma pool_init_ok: "pool_ok (pool_init n fs w)"
  by (auto simp: pool_ok_def pool_init_def frame_ok_def empty_frame_def list_all_length)

lemma upd_frame_simps [simp]:
  "bp_files (upd_frame k g s) = bp_files s" "bp_wal (upd_frame k g s) = bp_wal s" "bp_table (upd_frame k g s) = bp_table s"
  "bp_hand (upd_frame k g s) = bp_hand s" "bp_txn (upd_frame k g s) = bp_txn s" "length (bp_frames (upd_frame k g s)) = length (bp_frames s)"
  "bp_frames (upd_frame k g s) = (bp_frames s)[k := g (bp_frames s ! k)]"
  by (simp_all add: upd_frame_def)

text \<open>A change of one frame that keeps page and validity keeps the page table exact.\<close>

lemma pool_ok_upd:
  assumes "pool_ok s" "k < length (bp_frames s)" "frame_ok (bp_files s) (g (bp_frames s ! k))"
    and "fr_valid (g (bp_frames s ! k)) = fr_valid (bp_frames s ! k)" "fr_page (g (bp_frames s ! k)) = fr_page (bp_frames s ! k)"
  shows "pool_ok (upd_frame k g s)"
proof -
  have "list_all (frame_ok (bp_files s)) ((bp_frames s)[k := g (bp_frames s ! k)])"
    using assms(1-3) by (auto simp: pool_ok_def list_all_length nth_update_in)
  moreover have "bp_table s pid = Some j \<longleftrightarrow> j < length (bp_frames s) \<and> fr_valid ((bp_frames s)[k := g (bp_frames s ! k)] ! j)
      \<and> fr_page ((bp_frames s)[k := g (bp_frames s ! k)] ! j) = pid" for pid j
    using pool_ok_table [OF assms(1), of pid j] assms(2,4,5) by (cases "k = j") auto
  ultimately show ?thesis by (simp add: pool_ok_def)
qed

lemma view_upd:
  assumes "pool_ok s" "k < length (bp_frames s)" "fr_data (g (bp_frames s ! k)) = fr_data (bp_frames s ! k)"
    "fr_before (g (bp_frames s ! k)) = fr_before (bp_frames s ! k)"
  shows "page_view (upd_frame k g s) = page_view s" "logged_view (upd_frame k g s) = logged_view s"
  using assms(2-4) table_bound [OF assms(1)]
  by (auto simp: fun_eq_iff page_view_def logged_view_def nth_update_in split: option.split)

text \<open>
  What caching may do behind the back of its clients: only bring pages of the disk up to what the log
  already knows.
\<close>

definition same_outside :: "store \<Rightarrow> store \<Rightarrow> bool" where
  "same_outside s s' \<longleftrightarrow> bp_wal s' = bp_wal s \<and> bp_txn s' = bp_txn s \<and> length (bp_frames s') = length (bp_frames s)
     \<and> page_view s' = page_view s \<and> logged_view s' = logged_view s
     \<and> (\<forall>pid. disk_page (bp_files s') pid = disk_page (bp_files s) pid \<or> disk_page (bp_files s') pid = logged_view s pid)"

lemma same_outside_refl [simp]: "same_outside s s"
  by (simp add: same_outside_def)

lemma same_outside_trans: "same_outside a b \<Longrightarrow> same_outside b c \<Longrightarrow> same_outside a c"
  by (simp add: same_outside_def) metis

lemma write_back_ok:
  assumes "pool_ok s" "k < length (bp_frames s)"
    and "fr_valid (bp_frames s ! k) \<Longrightarrow> fr_dirty (bp_frames s ! k) \<Longrightarrow> fr_data (bp_frames s ! k) = fr_before (bp_frames s ! k)"
  shows "\<exists>s'. write_back k s = Inr s' \<and> pool_ok s' \<and> same_outside s s' \<and> bp_table s' = bp_table s \<and> bp_hand s' = bp_hand s
    \<and> (\<exists>b. bp_frames s' = (bp_frames s)[k := (bp_frames s ! k)\<lparr>fr_dirty := b\<rparr>])
    \<and> (fr_valid (bp_frames s' ! k) \<longrightarrow> \<not> fr_dirty (bp_frames s' ! k))
    \<and> (\<forall>pid. disk_page (bp_files s') pid \<noteq> disk_page (bp_files s) pid \<longrightarrow> bp_table s pid = Some k)"
proof -
  let ?f = "bp_frames s ! k"
  show ?thesis
  proof (cases "fr_valid ?f \<and> fr_dirty ?f")
    case False
    then have "write_back k s = Inr s" by (auto simp: write_back_def)
    moreover have "bp_frames s = (bp_frames s)[k := ?f\<lparr>fr_dirty := fr_dirty ?f\<rparr>]" by simp
    ultimately show ?thesis using assms(1) False same_outside_refl by blast
  next
    case True
    let ?pid = "fr_page ?f"
    let ?fs = "disk_write ?pid (fr_data ?f) (bp_files s)"
    let ?s = "upd_frame k (\<lambda>f. f\<lparr>fr_dirty := False\<rparr>) (s\<lparr>bp_files := ?fs\<rparr>)"
    have w: "write_back k s = Inr ?s" using True assms(3) by (simp add: write_back_def Let_def disk_write_def)
    have l: "length (fr_data ?f) = PAGE_SIZE" using pool_ok_frame [OF assms(1,2)] by (simp add: frame_ok_def)
    have d: "disk_page ?fs pid = (if pid = ?pid then fr_data ?f else disk_page (bp_files s) pid)" for pid
      using disk_page_write [OF l] by simp
    have tb: "bp_table s pid = Some j \<longleftrightarrow> j < length (bp_frames s) \<and> fr_valid (bp_frames s ! j) \<and> fr_page (bp_frames s ! j) = pid" for pid j
      by (rule pool_ok_table [OF assms(1)])
    have "frame_ok ?fs (bp_frames ?s ! j)" if "j < length (bp_frames s)" for j
    proof (cases "j = k")
      case True
      then show ?thesis using pool_ok_frame [OF assms(1,2)] that assms(3) d \<open>fr_valid ?f \<and> fr_dirty ?f\<close> by (auto simp: frame_ok_def)
    next
      case False
      then have "fr_valid (bp_frames s ! j) \<Longrightarrow> fr_page (bp_frames s ! j) \<noteq> ?pid"
        using pool_ok_distinct [OF assms(1) that assms(2)] True by blast
      then show ?thesis using pool_ok_frame [OF assms(1) that] False d by (auto simp: frame_ok_def)
    qed
    moreover have "bp_table s pid = Some j \<longleftrightarrow> j < length (bp_frames s) \<and> fr_valid (bp_frames ?s ! j) \<and> fr_page (bp_frames ?s ! j) = pid" for pid j
      using tb [of pid j] assms(2) by (cases "j = k") auto
    ultimately have ok: "pool_ok ?s" by (simp add: pool_ok_def list_all_length)
    have tk: "bp_table s ?pid = Some k" using tb True assms(2) by simp
    have "page_view ?s pid = page_view s pid \<and> logged_view ?s pid = logged_view s pid" for pid
    proof (cases "bp_table s pid")
      case None
      then have "pid \<noteq> ?pid" using tk by auto
      then show ?thesis using None d by (simp add: page_view_def logged_view_def)
    next
      case (Some j)
      then show ?thesis using table_bound [OF assms(1) Some] by (simp add: page_view_def logged_view_def nth_update_in)
    qed
    moreover have "disk_page ?fs pid = disk_page (bp_files s) pid \<or> disk_page ?fs pid = logged_view s pid" for pid
      using d [of pid] tk assms(3) True by (simp add: logged_view_def)
    ultimately have v: "same_outside s ?s" by (simp add: same_outside_def fun_eq_iff)
    have df: "disk_page ?fs pid \<noteq> disk_page (bp_files s) pid \<longrightarrow> bp_table s pid = Some k" for pid
      using d [of pid] tb [of pid k] True assms(2) by auto
    show ?thesis
    proof (intro exI conjI)
      show "write_back k s = Inr ?s" by (rule w)
      show "bp_frames ?s = (bp_frames s)[k := ?f\<lparr>fr_dirty := False\<rparr>]" by simp
      show "fr_valid (bp_frames ?s ! k) \<longrightarrow> \<not> fr_dirty (bp_frames ?s ! k)" using assms(2) by simp
      show "\<forall>pid. disk_page (bp_files ?s) pid \<noteq> disk_page (bp_files s) pid \<longrightarrow> bp_table s pid = Some k" using df by simp
    qed (use ok v in simp_all)
  qed
qed

section \<open>Eviction\<close>

definition release :: "nat \<Rightarrow> store \<Rightarrow> store" where
  "release k s = upd_frame k (\<lambda>f. f\<lparr>fr_valid := False\<rparr>)
     (if fr_valid (bp_frames s ! k) then s\<lparr>bp_table := (bp_table s)(fr_page (bp_frames s ! k) := None)\<rparr> else s)"

lemma release_simps [simp]:
  "bp_files (release k s) = bp_files s" "bp_wal (release k s) = bp_wal s" "bp_txn (release k s) = bp_txn s" "bp_hand (release k s) = bp_hand s"
  "bp_frames (release k s) = (bp_frames s)[k := (bp_frames s ! k)\<lparr>fr_valid := False\<rparr>]"
  "bp_table (release k s) = (if fr_valid (bp_frames s ! k) then (bp_table s)(fr_page (bp_frames s ! k) := None) else bp_table s)"
  by (simp_all add: release_def)

lemma release_ok:
  assumes "pool_ok s" "k < length (bp_frames s)" "fr_pin (bp_frames s ! k) = 0"
    and "fr_valid (bp_frames s ! k) \<Longrightarrow> \<not> fr_dirty (bp_frames s ! k) \<and> fr_data (bp_frames s ! k) = fr_before (bp_frames s ! k)"
  shows "pool_ok (release k s)" "same_outside s (release k s)"
proof -
  let ?f = "bp_frames s ! k"
  have tb: "bp_table s pid = Some j \<longleftrightarrow> j < length (bp_frames s) \<and> fr_valid (bp_frames s ! j) \<and> fr_page (bp_frames s ! j) = pid" for pid j
    by (rule pool_ok_table [OF assms(1)])
  have fo: "frame_ok (bp_files s) (bp_frames (release k s) ! j)" if "j < length (bp_frames s)" for j
    using pool_ok_frame [OF assms(1) that] that assms(3) by (cases "j = k") (auto simp: frame_ok_def)
  have tr: "bp_table (release k s) pid = Some j \<longleftrightarrow> j < length (bp_frames s) \<and> fr_valid (bp_frames (release k s) ! j) \<and> fr_page (bp_frames (release k s) ! j) = pid" for pid j
  proof (cases "j = k")
    case True
    have "bp_table (release k s) pid \<noteq> Some k" using tb [of pid k] by auto
    then show ?thesis using True assms(2) by simp
  next
    case False
    have "bp_table s pid = Some j \<Longrightarrow> fr_valid ?f \<Longrightarrow> pid \<noteq> fr_page ?f"
      using False tb [of "fr_page ?f" k] assms(2) by auto
    then show ?thesis using tb [of pid j] False by auto
  qed
  show "pool_ok (release k s)" using fo tr by (simp add: pool_ok_def list_all_length del: release_simps(5,6)) simp
  have "page_view (release k s) pid = page_view s pid \<and> logged_view (release k s) pid = logged_view s pid" for pid
  proof (cases "fr_valid ?f \<and> pid = fr_page ?f")
    case True
    then have t: "bp_table s pid = Some k" using tb assms(2) by simp
    have "fr_before ?f = disk_page (bp_files s) pid" using pool_ok_frame [OF assms(1,2)] assms(4) True by (simp add: frame_ok_def)
    then show ?thesis using t True assms(4) by (simp add: page_view_def logged_view_def)
  next
    case False
    then have e: "bp_table (release k s) pid = bp_table s pid" by auto
    show ?thesis
    proof (cases "bp_table s pid")
      case None
      then show ?thesis using e by (simp add: page_view_def logged_view_def)
    next
      case (Some j)
      then show ?thesis using e table_bound [OF assms(1) Some] by (simp add: page_view_def logged_view_def nth_update_in)
    qed
  qed
  then show "same_outside s (release k s)" by (simp add: same_outside_def fun_eq_iff)
qed

lemma hand_views [simp]: "page_view (s\<lparr>bp_hand := h\<rparr>) = page_view s" "logged_view (s\<lparr>bp_hand := h\<rparr>) = logged_view s"
  by (simp_all add: page_view_def logged_view_def fun_eq_iff split: option.split)

lemma evict_from_Cons:
  "evict_from (i # is) s =
    (let idx = (bp_hand s + i) mod length (bp_frames s); f = bp_frames s ! idx
     in if fr_pin f > 0 then evict_from is s
        else if fr_valid f \<and> fr_ref f then evict_from is (upd_frame idx (\<lambda>f. f\<lparr>fr_ref := False\<rparr>) s)
        else rbind (write_back idx s) (\<lambda>s'. Inr (idx, (release idx s')\<lparr>bp_hand := (idx + 1) mod length (bp_frames s)\<rparr>)))"
proof -
  have w: "fr_valid (bp_frames s' ! k) = fr_valid (bp_frames s ! k) \<and> fr_page (bp_frames s' ! k) = fr_page (bp_frames s ! k)"
    if "write_back k s = Inr s'" for k s'
    using that by (cases "k < length (bp_frames s)") (auto simp: write_back_def Let_def list_update_beyond split: if_splits)
  show ?thesis
    by (cases "write_back ((bp_hand s + i) mod length (bp_frames s)) s") (auto simp: Let_def release_def dest: w)
qed

declare evict_from.simps(2) [simp del]

text \<open>The frame that eviction frees, and that nothing else of the cache changes but reference bits.\<close>

definition evicted :: "store \<Rightarrow> nat \<Rightarrow> store \<Rightarrow> bool" where
  "evicted s idx s' \<longleftrightarrow> pool_ok s' \<and> same_outside s s' \<and> idx < length (bp_frames s) \<and> \<not> fr_valid (bp_frames s' ! idx)
     \<and> fr_pin (bp_frames s ! idx) = 0 \<and> (\<forall>pid. bp_table s' pid = bp_table s pid \<or> bp_table s' pid = None)
     \<and> (\<forall>k < length (bp_frames s). fr_pin (bp_frames s' ! k) = fr_pin (bp_frames s ! k))
     \<and> (\<forall>k < length (bp_frames s). fr_pin (bp_frames s ! k) \<noteq> 0 \<longrightarrow> bp_frames s' ! k = bp_frames s ! k)"

lemma ref_cleared:
  assumes "pool_ok s" "k < length (bp_frames s)"
  shows "pool_ok (upd_frame k (\<lambda>f. f\<lparr>fr_ref := False\<rparr>) s)" "same_outside s (upd_frame k (\<lambda>f. f\<lparr>fr_ref := False\<rparr>) s)"
proof -
  show "pool_ok (upd_frame k (\<lambda>f. f\<lparr>fr_ref := False\<rparr>) s)"
    using pool_ok_frame [OF assms] by (intro pool_ok_upd [OF assms]) (auto simp: frame_ok_def)
  show "same_outside s (upd_frame k (\<lambda>f. f\<lparr>fr_ref := False\<rparr>) s)"
    unfolding same_outside_def view_upd [OF assms, of "\<lambda>f. f\<lparr>fr_ref := False\<rparr>", simplified] by simp
qed

lemma evict_take:
  assumes "pool_ok s" "k < length (bp_frames s)" "fr_pin (bp_frames s ! k) = 0" "write_back k s = Inr s'"
  shows "evicted s k ((release k s')\<lparr>bp_hand := h\<rparr>)"
proof -
  let ?f = "bp_frames s ! k"
  have c: "fr_valid ?f \<Longrightarrow> fr_data ?f = fr_before ?f" using pool_ok_frame [OF assms(1,2)] assms(3) by (simp add: frame_ok_def)
  from write_back_ok [OF assms(1,2)] c assms(4) obtain b where
    w: "pool_ok s'" "same_outside s s'" "bp_table s' = bp_table s" "bp_frames s' = (bp_frames s)[k := ?f\<lparr>fr_dirty := b\<rparr>]"
    "fr_valid (bp_frames s' ! k) \<longrightarrow> \<not> fr_dirty (bp_frames s' ! k)" by auto
  have k: "k < length (bp_frames s')" using w(4) assms(2) by simp
  have "fr_valid (bp_frames s' ! k) \<Longrightarrow> \<not> fr_dirty (bp_frames s' ! k) \<and> fr_data (bp_frames s' ! k) = fr_before (bp_frames s' ! k)"
    using w(4,5) c assms(2) by auto
  note r = release_ok [OF w(1) k _ this]
  have h: "pool_ok (x\<lparr>bp_hand := h\<rparr>) = pool_ok x" "same_outside y (x\<lparr>bp_hand := h\<rparr>) = same_outside y x" for x y
    by (simp_all add: pool_ok_def same_outside_def)
  show ?thesis unfolding evicted_def h
    using r w(2-4) assms(2,3) same_outside_trans by (auto simp: nth_update_in)
qed

lemma evict_from_safe:
  assumes "pool_ok s" "bp_frames s \<noteq> []"
  shows "evict_from is s = Inl (Raise Internal) \<or> (\<exists>idx s'. evict_from is s = Inr (idx, s') \<and> evicted s idx s')"
  using assms
proof (induction "is" arbitrary: s)
  case (Cons i "is")
  define idx where "idx = (bp_hand s + i) mod length (bp_frames s)"
  have k: "idx < length (bp_frames s)" using Cons.prems(2) by (simp add: idx_def)
  let ?f = "bp_frames s ! idx" and ?s1 = "upd_frame idx (\<lambda>f. f\<lparr>fr_ref := False\<rparr>) s"
  note e = evict_from_Cons [of i "is" s, folded idx_def, unfolded Let_def]
  consider "fr_pin ?f > 0" | "fr_pin ?f = 0" "fr_valid ?f \<and> fr_ref ?f" | "fr_pin ?f = 0" "\<not> (fr_valid ?f \<and> fr_ref ?f)"
    by (auto simp: word_gt_0)
  then show ?case
  proof cases
    case 1
    then show ?thesis using Cons e by simp
  next
    case 2
    have e1: "evict_from (i # is) s = evict_from is ?s1" using 2 e by simp
    have ne: "bp_frames ?s1 \<noteq> []" using Cons.prems(2) by simp
    have "evicted s j s'" if "evicted ?s1 j s'" for j s'
      using that ref_cleared [OF Cons.prems(1) k] same_outside_trans [of s ?s1] k 2(1) unfolding evicted_def
      by (auto simp: nth_update_in split: if_splits)
    then show ?thesis using Cons.IH [OF ref_cleared(1) [OF Cons.prems(1) k] ne] e1 by auto
  next
    case 3
    have "\<exists>s'. write_back idx s = Inr s'"
      using write_back_ok [OF Cons.prems(1) k] pool_ok_frame [OF Cons.prems(1) k] 3(1) by (auto simp: frame_ok_def)
    then obtain s' where w: "write_back idx s = Inr s'" by blast
    show ?thesis using e 3 w evict_take [OF Cons.prems(1) k 3(1) w] by simp
  qed
qed simp

lemma evict_step_cases:
  fixes i :: nat and s :: store
  assumes "pool_ok s" "bp_frames s \<noteq> []"
  defines "idx \<equiv> (bp_hand s + i) mod length (bp_frames s)"
  shows "(fr_pin (bp_frames s ! idx) > 0 \<and> evict_from (i # is) s = evict_from is s)
    \<or> (fr_pin (bp_frames s ! idx) = 0 \<and> fr_valid (bp_frames s ! idx) \<and> fr_ref (bp_frames s ! idx)
        \<and> evict_from (i # is) s = evict_from is (upd_frame idx (\<lambda>f. f\<lparr>fr_ref := False\<rparr>) s))
    \<or> (\<exists>r. evict_from (i # is) s = Inr r)"
proof -
  have k: "idx < length (bp_frames s)" using assms(2) by (simp add: idx_def)
  note e = evict_from_Cons [of i "is" s, folded idx_def, unfolded Let_def]
  show ?thesis
  proof (cases "fr_pin (bp_frames s ! idx) > 0 \<or> (fr_valid (bp_frames s ! idx) \<and> fr_ref (bp_frames s ! idx))")
    case True
    then show ?thesis using e by (auto simp: word_gt_0)
  next
    case False
    then have "\<exists>s'. write_back idx s = Inr s'"
      using write_back_ok [OF assms(1) k] pool_ok_frame [OF assms(1) k] by (auto simp: frame_ok_def word_gt_0)
    then show ?thesis using e False by auto
  qed
qed

text \<open>A frame without pins and reference is taken when the clock reaches it.\<close>

lemma evict_hits:
  assumes "pool_ok s" "j < length (bp_frames s)" "fr_pin (bp_frames s ! j) = 0" "\<not> (fr_valid (bp_frames s ! j) \<and> fr_ref (bp_frames s ! j))"
    and "\<exists>i \<in> set is. (bp_hand s + i) mod length (bp_frames s) = j"
  shows "\<exists>r. evict_from is s = Inr r"
  using assms
proof (induction "is" arbitrary: s)
  case (Cons i "is")
  let ?idx = "(bp_hand s + i) mod length (bp_frames s)" and ?s1 = "upd_frame ((bp_hand s + i) mod length (bp_frames s)) (\<lambda>f. f\<lparr>fr_ref := False\<rparr>) s"
  have ne: "bp_frames s \<noteq> []" using Cons.prems(2) by auto
  have k: "?idx < length (bp_frames s)" using ne by simp
  show ?case
  proof (cases "?idx = j")
    case True
    then show ?thesis using evict_step_cases [OF Cons.prems(1) ne, of i "is"] Cons.prems(3,4) by auto
  next
    case False
    then have i: "\<exists>i \<in> set is. (bp_hand s + i) mod length (bp_frames s) = j" using Cons.prems(5) by auto
    have "\<exists>r. evict_from is s = Inr r" by (rule Cons.IH [OF Cons.prems(1-4) i])
    moreover have "\<exists>r. evict_from is ?s1 = Inr r"
      using False i Cons.prems by (intro Cons.IH [OF ref_cleared(1) [OF Cons.prems(1) k]]) simp_all
    ultimately show ?thesis using evict_step_cases [OF Cons.prems(1) ne, of i "is"] by auto
  qed
qed simp

lemma evict_two_rounds:
  assumes "pool_ok s" "j < length (bp_frames s)" "fr_pin (bp_frames s ! j) = 0"
    and "\<exists>i \<in> set is. (bp_hand s + i) mod length (bp_frames s) = j" "\<exists>i \<in> set js. (bp_hand s + i) mod length (bp_frames s) = j"
  shows "\<exists>r. evict_from (is @ js) s = Inr r"
  using assms
proof (induction "is" arbitrary: s)
  case (Cons i "is")
  let ?idx = "(bp_hand s + i) mod length (bp_frames s)" and ?s1 = "upd_frame ((bp_hand s + i) mod length (bp_frames s)) (\<lambda>f. f\<lparr>fr_ref := False\<rparr>) s"
  have ne: "bp_frames s \<noteq> []" using Cons.prems(2) by auto
  have k: "?idx < length (bp_frames s)" using ne by simp
  note ok1 = ref_cleared(1) [OF Cons.prems(1) k]
  show ?case
  proof (cases "?idx = j")
    case True
    have "\<exists>r. evict_from (is @ js) ?s1 = Inr r"
      using True Cons.prems by (intro evict_hits [OF ok1, of j]) auto
    then show ?thesis using evict_step_cases [OF Cons.prems(1) ne, of i "is @ js"] True Cons.prems(3) by auto
  next
    case False
    then have i: "\<exists>i \<in> set is. (bp_hand s + i) mod length (bp_frames s) = j" using Cons.prems(4) by auto
    have "\<exists>r. evict_from (is @ js) s = Inr r" by (rule Cons.IH [OF Cons.prems(1-3) i Cons.prems(5)])
    moreover have "\<exists>r. evict_from (is @ js) ?s1 = Inr r"
      using False i Cons.prems by (intro Cons.IH [OF ok1]) simp_all
    ultimately show ?thesis using evict_step_cases [OF Cons.prems(1) ne, of i "is @ js"] by auto
  qed
qed simp

lemma clock_reaches: "j < n \<Longrightarrow> \<exists>i < n. (h + i) mod n = j" for h j n :: nat
proof -
  assume j: "j < n"
  have "(h + (j + (n - h mod n)) mod n) mod n = (h mod n + (j + (n - h mod n))) mod n"
    by (simp add: mod_add_left_eq mod_add_right_eq)
  also have "h mod n + (j + (n - h mod n)) = j + n"
    using mod_less_divisor [of n h] j by linarith
  finally show ?thesis using j by (intro exI [of _ "(j + (n - h mod n)) mod n"]) simp
qed

lemma evict_finds:
  assumes "pool_ok s" "j < length (bp_frames s)" "fr_pin (bp_frames s ! j) = 0"
  shows "\<exists>idx s'. evict s = Inr (idx, s') \<and> evicted s idx s'"
proof -
  let ?n = "length (bp_frames s)"
  obtain i where i: "i < ?n" "(bp_hand s + i) mod ?n = j" using clock_reaches [OF assms(2)] by blast
  have "(bp_hand s + (?n + i)) mod ?n = (bp_hand s + i + ?n) mod ?n" by (simp add: ac_simps)
  then have i2: "(bp_hand s + (?n + i)) mod ?n = j" using i(2) by simp
  have u: "[0..<2 * ?n] = [0..<?n] @ [?n..<2 * ?n]" by (metis le_add1 mult_2 upt_add_eq_append le0)
  have "\<exists>r. evict_from ([0..<?n] @ [?n..<2 * ?n]) s = Inr r"
  proof (rule evict_two_rounds [OF assms])
    show "\<exists>i \<in> set [0..<?n]. (bp_hand s + i) mod ?n = j" using i by (intro bexI [of _ i]) simp_all
    show "\<exists>i \<in> set [?n..<2 * ?n]. (bp_hand s + i) mod ?n = j" using i(1) i2 by (intro bexI [of _ "?n + i"]) simp_all
  qed
  moreover have "bp_frames s \<noteq> []" using assms(2) by auto
  ultimately show ?thesis using evict_from_safe [OF assms(1), of "[0..<2 * ?n]"] unfolding evict_def u by auto
qed

lemma evict_all_pinned:
  assumes "\<And>k. k < length (bp_frames s) \<Longrightarrow> fr_pin (bp_frames s ! k) \<noteq> 0"
  shows "evict_from is s = Inl (Raise Internal) \<or> bp_frames s = []"
proof (induction "is")
  case (Cons i "is")
  then show ?case using assms [of "(bp_hand s + i) mod length (bp_frames s)"]
    by (auto simp: evict_from_Cons Let_def word_gt_0)
qed simp

section \<open>Page differences\<close>

text \<open>
  Ascending, disjoint word ranges from \<^verbatim>\<open>w\<close> on. The loop extends a range only while the very next
  word differs: at the loop head \<^verbatim>\<open>hi <= w\<close> holds, so an equal word always ends the range.
\<close>

fun asc :: "nat \<Rightarrow> (nat \<times> nat) list \<Rightarrow> bool" where
  "asc w [] \<longleftrightarrow> True"
| "asc w ((lo, hi) # rs) \<longleftrightarrow> w \<le> lo \<and> lo < hi \<and> hi \<le> PAGE_SIZE div 8 \<and> asc hi rs"

lemma asc_weaken: "asc w rs \<Longrightarrow> v \<le> w \<Longrightarrow> asc v rs"
  by (cases rs) auto

lemma extend_range_spec:
  assumes "extend_range b d w hi = (w', hi')" "hi = w" "w \<le> PAGE_SIZE div 8"
  shows "w \<le> hi' \<and> hi' \<le> w' \<and> hi' \<le> PAGE_SIZE div 8 \<and> (\<forall>v. w \<le> v \<and> v < hi' \<longrightarrow> word_differs b d v)
    \<and> (\<forall>v. hi' \<le> v \<and> v < w' \<longrightarrow> \<not> word_differs b d v)"
  using assms
proof (induction b d w hi rule: extend_range.induct)
  case (1 b d w hi)
  show ?case
  proof (cases "w < PAGE_SIZE div 8")
    case False
    then have "extend_range b d w hi = (w, w)" using 1(3) by (subst extend_range.simps) simp
    then have "w' = w" "hi' = w" "w = PAGE_SIZE div 8" using False 1(2,4) by simp_all
    then show ?thesis by auto
  next
    case True
    show ?thesis
    proof (cases "word_differs b d w")
      case True
      then have e: "extend_range b d (w + 1) (w + 1) = (w', hi')"
        using 1(2,3) \<open>w < PAGE_SIZE div 8\<close> by (simp add: extend_range.simps [of b d w w])
      have g: "w < PAGE_SIZE div 8 \<and> w \<le> hi" "w + 1 \<le> PAGE_SIZE div 8" using \<open>w < PAGE_SIZE div 8\<close> 1(3) by auto
      have ih: "w + 1 \<le> hi' \<and> hi' \<le> w' \<and> hi' \<le> PAGE_SIZE div 8 \<and> (\<forall>v. w + 1 \<le> v \<and> v < hi' \<longrightarrow> word_differs b d v)
          \<and> (\<forall>v. hi' \<le> v \<and> v < w' \<longrightarrow> \<not> word_differs b d v)"
        using 1(1) [OF g(1)] e True g(2) by simp
      have "word_differs b d v" if "w \<le> v" "v < hi'" for v
        using ih that True by (cases "v = w") auto
      then show ?thesis using ih by auto
    next
      case False
      then have "extend_range b d (w + 1) w = (w', hi')"
        using 1(2,3) \<open>w < PAGE_SIZE div 8\<close> by (simp add: extend_range.simps [of b d w w])
      then have "w' = w + 1" "hi' = w" by (simp_all add: extend_range.simps [of b d "Suc w" w])
      then show ?thesis using False True by (auto simp: less_Suc_eq)
    qed
  qed
qed

lemma diff_ranges_spec:
  "asc w (diff_ranges b d w)
   \<and> (\<forall>(lo, hi) \<in> set (diff_ranges b d w). \<forall>v. lo \<le> v \<and> v < hi \<longrightarrow> word_differs b d v)
   \<and> (\<forall>v. w \<le> v \<and> v < PAGE_SIZE div 8 \<and> word_differs b d v \<longrightarrow> (\<exists>(lo, hi) \<in> set (diff_ranges b d w). lo \<le> v \<and> v < hi))"
proof (induction b d w rule: diff_ranges.induct)
  case (1 b d w)
  show ?case
  proof (cases "w < PAGE_SIZE div 8")
    case False
    then show ?thesis by (simp add: diff_ranges.simps [of b d w])
  next
    case w: True
    show ?thesis
    proof (cases "word_differs b d w")
      case False
      then have e: "diff_ranges b d w = diff_ranges b d (w + 1)" using w by (simp add: diff_ranges.simps [of b d w])
      note ih = 1(1) [OF w False]
      have "w + 1 \<le> v" if "w \<le> v" "word_differs b d v" for v using that False by (cases "v = w") auto
      then show ?thesis unfolding e using ih asc_weaken [of "w + 1" _ w] by auto
    next
      case True
      obtain w' hi where x: "extend_range b d (w + 1) (w + 1) = (w', hi)" by fastforce
      have e: "diff_ranges b d w = (w, hi) # diff_ranges b d w'" using w True x by (simp add: diff_ranges.simps [of b d w])
      have ih: "asc w' (diff_ranges b d w')
        \<and> (\<forall>(lo, hi) \<in> set (diff_ranges b d w'). \<forall>v. lo \<le> v \<and> v < hi \<longrightarrow> word_differs b d v)
        \<and> (\<forall>v. w' \<le> v \<and> v < PAGE_SIZE div 8 \<and> word_differs b d v \<longrightarrow> (\<exists>(lo, hi) \<in> set (diff_ranges b d w'). lo \<le> v \<and> v < hi))"
        using 1(2) [OF w _ refl x [symmetric]] True by simp
      have s: "w + 1 \<le> hi" "hi \<le> w'" "hi \<le> PAGE_SIZE div 8" "\<And>v. w + 1 \<le> v \<Longrightarrow> v < hi \<Longrightarrow> word_differs b d v"
        "\<And>v. hi \<le> v \<Longrightarrow> v < w' \<Longrightarrow> \<not> word_differs b d v"
        using extend_range_spec [OF x refl] w by auto
      have d: "word_differs b d v" if "w \<le> v" "v < hi" for v using that True s(4) by (cases "v = w") auto
      have c: "v < hi \<or> w' \<le> v" if "word_differs b d v" for v using that s(5) [of v] by fastforce
      show ?thesis unfolding e
      proof (intro conjI)
        show "asc w ((w, hi) # diff_ranges b d w')" using s(1-3) ih asc_weaken by auto
        show "\<forall>(lo, hi) \<in> set ((w, hi) # diff_ranges b d w'). \<forall>v. lo \<le> v \<and> v < hi \<longrightarrow> word_differs b d v"
          using d ih by auto
        show "\<forall>v. w \<le> v \<and> v < PAGE_SIZE div 8 \<and> word_differs b d v \<longrightarrow> (\<exists>(lo, hi) \<in> set ((w, hi) # diff_ranges b d w'). lo \<le> v \<and> v < hi)"
          using c ih by fastforce
      qed
    qed
  qed
qed

definition range_change :: "page_id \<Rightarrow> bytes \<Rightarrow> bytes \<Rightarrow> nat \<times> nat \<Rightarrow> change" where
  "range_change pid data before = (\<lambda>(lo, hi). let off = lo * 8; len = (hi - lo) * 8
     in Patch pid off (get_at off len data) (get_at off len before))"

definition page_changes :: "page_id \<Rightarrow> bytes \<Rightarrow> bytes \<Rightarrow> change list" where
  "page_changes pid before data = map (range_change pid data before) (diff_ranges before data 0)"

lemma asc_bound: "asc w rs \<Longrightarrow> (lo, hi) \<in> set rs \<Longrightarrow> w \<le> lo \<and> lo < hi \<and> hi \<le> PAGE_SIZE div 8"
proof (induction rs arbitrary: w)
  case (Cons r rs)
  then show ?case by (cases r) fastforce
qed simp

lemma range_change_ok:
  assumes "lo < hi" "hi \<le> PAGE_SIZE div 8" "length data = PAGE_SIZE" "length before = PAGE_SIZE" "pid_file pid \<noteq> 0"
  shows "change_ok (range_change pid data before (lo, hi))"
    "length (get_at (lo * 8) ((hi - lo) * 8) data) = (hi - lo) * 8"
  using assms by (auto simp: range_change_def Let_def get_at_def)

text \<open>Applying the patches of ascending ranges moves exactly their bytes; each recorded before-image is current.\<close>

lemma ranges_redo:
  assumes "asc w rs" "length data = PAGE_SIZE" "length before = PAGE_SIZE" "sized st"
    and "\<And>i. w * 8 \<le> i \<Longrightarrow> i < PAGE_SIZE \<Longrightarrow> st pid ! i = before ! i"
  shows "befores_ok st (map (range_change pid data before) rs)"
    "i < PAGE_SIZE \<Longrightarrow> fold redo_change (map (range_change pid data before) rs) st q ! i =
       (if q = pid \<and> (\<exists>(lo, hi) \<in> set rs. lo * 8 \<le> i \<and> i < hi * 8) then data ! i else st q ! i)"
proof -
  have "befores_ok st (map (range_change pid data before) rs) \<and> (\<forall>i < PAGE_SIZE. fold redo_change (map (range_change pid data before) rs) st q ! i =
       (if q = pid \<and> (\<exists>(lo, hi) \<in> set rs. lo * 8 \<le> i \<and> i < hi * 8) then data ! i else st q ! i))"
    using assms(1,4,5)
  proof (induction rs arbitrary: w st)
    case (Cons r rs)
    obtain lo hi where r: "r = (lo, hi)" by fastforce
    let ?c = "range_change pid data before r"
    have b: "w \<le> lo" "lo < hi" "hi \<le> PAGE_SIZE div 8" "asc hi rs" using Cons.prems(1) r by auto
    have len: "length (get_at (lo * 8) ((hi - lo) * 8) data) = (hi - lo) * 8" "lo * 8 + (hi - lo) * 8 = hi * 8" "hi * 8 \<le> PAGE_SIZE"
      using b assms(2) by (auto simp: get_at_def)
    have c: "?c = Patch pid (lo * 8) (get_at (lo * 8) ((hi - lo) * 8) data) (get_at (lo * 8) ((hi - lo) * 8) before)"
      by (simp add: r range_change_def Let_def)
    have nth: "redo_change ?c st q ! i = (if q = pid \<and> lo * 8 \<le> i \<and> i < hi * 8 then data ! i else st q ! i)" if "i < PAGE_SIZE" for q i
      using Cons.prems(2) that len assms(2) by (auto simp: c sized_def nth_put_at nth_get_at)
    have s1: "sized (redo_change ?c st)" using Cons.prems(2) len by (simp add: c sized_def length_put_at)
    have bf: "get_at (lo * 8) ((hi - lo) * 8) before = get_at (lo * 8) ((hi - lo) * 8) (st pid)"
      using Cons.prems(2,3) b(1) len assms(3) by (intro nth_equalityI) (auto simp: nth_get_at sized_def get_at_def)
    have "redo_change ?c st pid ! i = before ! i" if "hi * 8 \<le> i" "i < PAGE_SIZE" for i
      using nth [of i pid] that Cons.prems(3) b by simp
    note ih = Cons.IH [OF b(4) s1 this]
    show ?case
    proof (intro conjI allI impI)
      show "befores_ok st (map (range_change pid data before) (r # rs))"
        unfolding list.map c befores_ok.simps len(1) by (rule conjI [OF bf conjunct1 [OF ih, unfolded c]])
      fix i assume "i < PAGE_SIZE"
      then show "fold redo_change (map (range_change pid data before) (r # rs)) st q ! i =
          (if q = pid \<and> (\<exists>(lo, hi) \<in> set (r # rs). lo * 8 \<le> i \<and> i < hi * 8) then data ! i else st q ! i)"
        using ih nth [of i q] by (auto simp: r)
    qed
  qed simp
  then show "befores_ok st (map (range_change pid data before) rs)"
    "i < PAGE_SIZE \<Longrightarrow> fold redo_change (map (range_change pid data before) rs) st q ! i =
       (if q = pid \<and> (\<exists>(lo, hi) \<in> set rs. lo * 8 \<le> i \<and> i < hi * 8) then data ! i else st q ! i)" by auto
qed

lemma same_word:
  assumes "\<not> word_differs b d w" "w * 8 \<le> i" "i < (w + 1) * 8" "length b = PAGE_SIZE" "length d = PAGE_SIZE" "w < PAGE_SIZE div 8"
  shows "b ! i = d ! i"
proof -
  let ?x = "get_at (w * 8) 8 b" and ?y = "get_at (w * 8) 8 d"
  have l: "length ?x = 8" "length ?y = 8" using assms(4-6) by (simp_all add: get_at_def PAGE_SIZE_def)
  have "le_val ?x < 256 ^ 8" "le_val ?y < 256 ^ 8" using le_val_less [of ?x] le_val_less [of ?y] l by simp_all
  then have "le_val ?x = le_val ?y"
    using assms(1) by (simp add: word_differs_def rd64_def word_unat_eq_iff unat_of_nat)
  then have "?x = ?y" using le_val_inj [of ?x ?y] l by simp
  then have "?x ! (i - w * 8) = ?y ! (i - w * 8)" by simp
  then show ?thesis using assms(2-6) by (simp add: nth_get_at PAGE_SIZE_def)
qed

text \<open>The patches of a page difference: they turn the old page into the new one, and undo it.\<close>

lemma page_changes_redo:
  assumes "length data = PAGE_SIZE" "length before = PAGE_SIZE" "sized st" "st pid = before"
  shows "fold redo_change (page_changes pid before data) st = st(pid := data)"
    "befores_ok st (page_changes pid before data)"
proof -
  let ?rs = "diff_ranges before data 0"
  note s = diff_ranges_spec [of 0 before data]
  have a: "asc 0 ?rs" using s by blast
  have r: "befores_ok st (map (range_change pid data before) ?rs)"
    "i < PAGE_SIZE \<Longrightarrow> fold redo_change (map (range_change pid data before) ?rs) st q ! i =
       (if q = pid \<and> (\<exists>(lo, hi) \<in> set ?rs. lo * 8 \<le> i \<and> i < hi * 8) then data ! i else st q ! i)" for q i
    using assms(4) by (intro ranges_redo [OF a assms(1,2,3)]; simp)+
  show "befores_ok st (page_changes pid before data)" unfolding page_changes_def by (rule r(1))
  have ok: "list_all (\<lambda>c. (\<exists>off after before. c = Patch pid off after before \<and> off + length after \<le> PAGE_SIZE)) (page_changes pid before data)"
    using asc_bound [OF a] assms(1) by (fastforce simp: page_changes_def list_all_iff range_change_def Let_def get_at_def)
  have sz: "sized (fold redo_change cs st)" if "list_all (\<lambda>c. (\<exists>off after before. c = Patch pid off after before \<and> off + length after \<le> PAGE_SIZE)) cs" "sized st" for cs st
    using that by (induction cs arbitrary: st) (auto simp: sized_def length_put_at)
  show "fold redo_change (page_changes pid before data) st = st(pid := data)"
  proof (rule ext, rule nth_equalityI)
    fix q
    show "length (fold redo_change (page_changes pid before data) st q) = length ((st(pid := data)) q)"
      using sz [OF ok assms(3)] assms(1,3) by (simp add: sized_def)
    fix i
    assume "i < length (fold redo_change (page_changes pid before data) st q)"
    then have i: "i < PAGE_SIZE" using sz [OF ok assms(3)] by (simp add: sized_def)
    show "fold redo_change (page_changes pid before data) st q ! i = (st(pid := data)) q ! i"
    proof (cases "q = pid \<and> \<not> (\<exists>(lo, hi) \<in> set ?rs. lo * 8 \<le> i \<and> i < hi * 8)")
      case False
      then show ?thesis using r(2) [OF i, of q] by (auto simp: page_changes_def)
    next
      case True
      have w: "i div 8 < PAGE_SIZE div 8" "i div 8 * 8 \<le> i" "i < (i div 8 + 1) * 8" using i by (auto simp: PAGE_SIZE_def)
      have "\<not> word_differs before data (i div 8)"
      proof
        assume "word_differs before data (i div 8)"
        then obtain lo hi where "(lo, hi) \<in> set ?rs" "lo \<le> i div 8" "i div 8 < hi" using s w(1) by blast
        moreover from this have "lo * 8 \<le> i" "i < hi * 8" by linarith+
        ultimately show False using True by auto
      qed
      then have "before ! i = data ! i" using w assms(1,2) by (intro same_word [of before data "i div 8" i]) auto
      then show ?thesis using True r(2) [OF i, of q] assms(4) by (auto simp: page_changes_def)
    qed
  qed
qed

definition undo_of :: "change \<Rightarrow> undo_entry" where
  "undo_of c = (case c of Patch pid off after before \<Rightarrow>
     \<lparr>ue_fid = pid_file pid, ue_page_no = pid_page pid, ue_off = word_of_nat off, ue_len = word_of_nat (length before), ue_before = before\<rparr>
   | Drop fid \<Rightarrow> \<lparr>ue_fid = fid, ue_page_no = 0, ue_off = 0, ue_len = 0, ue_before = []\<rparr>)"

lemma log_ranges:
  assumes "asc k rs" "length data = PAGE_SIZE" "length before = PAGE_SIZE"
  shows "fold (log_range pid data before) rs (w, t) =
    (wal_run (map (change_entry (tc_txn_id t)) (map (range_change pid data before) rs)) w,
     t\<lparr>tc_undo := tc_undo t @ map undo_of (map (range_change pid data before) rs), tc_wrote := tc_wrote t \<or> rs \<noteq> []\<rparr>)"
  using assms(1)
proof (induction rs arbitrary: k w t)
  case (Cons r rs)
  obtain lo hi where r: "r = (lo, hi)" by fastforce
  have b: "lo < hi" "hi \<le> PAGE_SIZE div 8" "asc hi rs" using Cons.prems r by auto
  have l: "length (get_at (lo * 8) ((hi - lo) * 8) before) = (hi - lo) * 8" using b(1,2) assms(3) by (auto simp: get_at_def)
  let ?c = "Patch pid (lo * 8) (get_at (lo * 8) ((hi - lo) * 8) data) (get_at (lo * 8) ((hi - lo) * 8) before)"
  have c: "range_change pid data before (lo, hi) = ?c" by (simp add: range_change_def Let_def)
  have one: "log_range pid data before (lo, hi) (w, t) = (wal_append PagePatch (tc_txn_id t) (snd (snd (change_entry (tc_txn_id t) ?c))) w,
      t\<lparr>tc_undo := tc_undo t @ [undo_of ?c], tc_wrote := True\<rparr>)" for w t
    using l by (simp add: log_range_def Let_def undo_of_def)
  show ?case
    using l by (simp add: r one Cons.IH [OF b(3)] c)
qed simp

lemma log_page_diff_eq:
  assumes "length (fr_data (bp_frames s ! k)) = PAGE_SIZE" "length (fr_before (bp_frames s ! k)) = PAGE_SIZE"
  defines "cs \<equiv> page_changes (fr_page (bp_frames s ! k)) (fr_before (bp_frames s ! k)) (fr_data (bp_frames s ! k))"
  shows "log_page_diff k t s = upd_frame k (\<lambda>f. f\<lparr>fr_before := fr_data f\<rparr>)
    (s\<lparr>bp_wal := wal_run (map (change_entry (tc_txn_id t)) cs) (bp_wal s),
       bp_txn := Some (t\<lparr>tc_undo := tc_undo t @ map undo_of cs, tc_wrote := tc_wrote t \<or> cs \<noteq> []\<rparr>)\<rparr>)"
proof -
  have a: "asc 0 (diff_ranges b d 0)" for b d using diff_ranges_spec [of 0 b d] by blast
  show ?thesis unfolding log_page_diff_def Let_def log_ranges [OF a assms(1,2)] cs_def page_changes_def by simp
qed

section \<open>The operations keep the invariant\<close>

lemma pool_ok_files: "disk_page fs = disk_page (bp_files s) \<Longrightarrow> pool_ok (s\<lparr>bp_files := fs\<rparr>) = pool_ok s"
  by (simp add: pool_ok_def frame_ok_def [abs_def])

text \<open>Filling a free frame with a page that is not cached.\<close>

lemma fill_frame:
  fixes s :: store and k :: nat and f :: page_frame and fs :: files
  defines "s' \<equiv> upd_frame k (\<lambda>_. f) (s\<lparr>bp_table := (bp_table s)(fr_page f \<mapsto> k), bp_files := fs\<rparr>)"
  assumes "pool_ok s" "k < length (bp_frames s)" "\<not> fr_valid (bp_frames s ! k)" "bp_table s (fr_page f) = None"
    and "frame_ok (bp_files s) f" "fr_valid f" "disk_page fs = disk_page (bp_files s)"
    and "fr_data f = disk_page (bp_files s) (fr_page f)" "fr_before f = disk_page (bp_files s) (fr_page f)"
  shows "pool_ok s'" "same_outside s s'" "bp_table s' (fr_page f) = Some k" "bp_frames s' = (bp_frames s)[k := f]"
proof -
  have tb: "bp_table s pid = Some j \<longleftrightarrow> j < length (bp_frames s) \<and> fr_valid (bp_frames s ! j) \<and> fr_page (bp_frames s ! j) = pid" for pid j
    by (rule pool_ok_table [OF assms(2)])
  have fr: "bp_frames s' = (bp_frames s)[k := f]" "bp_files s' = fs" "bp_table s' = (bp_table s)(fr_page f \<mapsto> k)" by (simp_all add: s'_def)
  have "frame_ok fs = frame_ok (bp_files s)" using assms(8) by (simp add: frame_ok_def [abs_def])
  then have "frame_ok fs (bp_frames s' ! j)" if "j < length (bp_frames s)" for j
    using pool_ok_frame [OF assms(2) that] assms(6) that by (simp add: fr nth_update_in)
  moreover have "bp_table s' pid = Some j \<longleftrightarrow> j < length (bp_frames s) \<and> fr_valid (bp_frames s' ! j) \<and> fr_page (bp_frames s' ! j) = pid" for pid j
  proof (cases "j = k")
    case True
    have "bp_table s pid \<noteq> Some k" using tb [of pid k] assms(4) by auto
    then show ?thesis using True assms(3,7) by (auto simp: fr)
  next
    case False
    then show ?thesis using tb [of pid j] assms(5) by (auto simp: fr)
  qed
  ultimately show "pool_ok s'" by (simp add: pool_ok_def list_all_length fr(1,2))
  have "page_view s' pid = page_view s pid \<and> logged_view s' pid = logged_view s pid" for pid
  proof (cases "pid = fr_page f")
    case True
    then show ?thesis using assms(3,5,9,10) by (simp add: page_view_def logged_view_def fr)
  next
    case False
    show ?thesis
    proof (cases "bp_table s pid")
      case None
      then show ?thesis using False assms(8) by (simp add: page_view_def logged_view_def fr)
    next
      case (Some j)
      then have "j \<noteq> k" using tb [of pid k] assms(4) by auto
      then show ?thesis using Some False by (simp add: page_view_def logged_view_def fr)
    qed
  qed
  then show "same_outside s s'" using assms(8) by (simp add: same_outside_def fun_eq_iff s'_def)
  show "bp_table s' (fr_page f) = Some k" "bp_frames s' = (bp_frames s)[k := f]" by (simp_all add: fr)
qed

text \<open>How often a page is pinned, and the frames that pins keep in place.\<close>

definition pin_of :: "store \<Rightarrow> page_id \<Rightarrow> u16" where
  "pin_of s pid = (case bp_table s pid of None \<Rightarrow> 0 | Some k \<Rightarrow> fr_pin (bp_frames s ! k))"

definition held :: "store \<Rightarrow> page_id \<Rightarrow> nat \<Rightarrow> bool" where
  "held s pid k \<longleftrightarrow> bp_table s pid = Some k \<and> pin_of s pid \<noteq> 0"

lemma evicted_pins:
  assumes "evicted s k s'" "pool_ok s"
  shows "pin_of s' = pin_of s" "held s q j \<Longrightarrow> held s' q j"
proof -
  have e: "pool_ok s'" "length (bp_frames s') = length (bp_frames s)" "\<And>q. bp_table s' q = bp_table s q \<or> bp_table s' q = None"
    "\<And>j. j < length (bp_frames s) \<Longrightarrow> fr_pin (bp_frames s' ! j) = fr_pin (bp_frames s ! j)"
    "\<And>j. j < length (bp_frames s) \<Longrightarrow> fr_pin (bp_frames s ! j) \<noteq> 0 \<Longrightarrow> bp_frames s' ! j = bp_frames s ! j"
    using assms(1) by (auto simp: evicted_def same_outside_def)
  have stay: "bp_table s' q = Some j" if "bp_table s q = Some j" "fr_pin (bp_frames s ! j) \<noteq> 0" for q j
    using that pool_ok_table [OF assms(2), of q j] pool_ok_table [OF e(1), of q j] e(2) e(5) [of j] by simp
  show p: "pin_of s' = pin_of s"
  proof
    fix q
    show "pin_of s' q = pin_of s q"
    proof (cases "bp_table s q")
      case None
      then show ?thesis using e(3) [of q] by (simp add: pin_of_def)
    next
      case (Some j)
      then show ?thesis using e(3) [of q] e(4) [of j] stay [of q j] table_bound [OF assms(2) Some]
        by (cases "bp_table s' q") (auto simp: pin_of_def)
    qed
  qed
  show "held s' q j" if "held s q j"
    using that stay [of q j] unfolding held_def p by (auto simp: pin_of_def)
qed

definition pin_room :: "store \<Rightarrow> page_id \<Rightarrow> bool" where
  "pin_room s pid \<longleftrightarrow> (case bp_table s pid of Some k \<Rightarrow> fr_pin (bp_frames s ! k) \<noteq> - 1 | None \<Rightarrow> True)"

definition has_free :: "store \<Rightarrow> bool" where
  "has_free s \<longleftrightarrow> list_ex (\<lambda>f. fr_pin f = 0) (bp_frames s)"

text \<open>A fetched page: in its frame, pinned, with the contents the pool showed before.\<close>

definition fetched :: "store \<Rightarrow> page_id \<Rightarrow> nat \<Rightarrow> store \<Rightarrow> bool" where
  "fetched s pid k s' \<longleftrightarrow> pool_ok s' \<and> same_outside s s' \<and> bp_table s' pid = Some k \<and> fr_data (bp_frames s' ! k) = page_view s pid
     \<and> fr_pin (bp_frames s' ! k) \<noteq> 0
     \<and> pin_of s' = (pin_of s)(pid := pin_of s pid + 1) \<and> (\<forall>q j. held s q j \<longrightarrow> held s' q j)"

lemma plus1_nz: "x \<noteq> - 1 \<Longrightarrow> x + 1 \<noteq> 0" for x :: u16
  by (metis add_eq_0_iff2)

lemma hit_ok:
  assumes "pool_ok s" "bp_table s pid = Some k" "fr_pin (bp_frames s ! k) \<noteq> - 1"
    and "\<And>f. g f = f\<lparr>fr_ref := r f, fr_pin := fr_pin f + 1\<rparr>"
  shows "fetched s pid k (upd_frame k g s)"
proof -
  have k: "k < length (bp_frames s)" using table_bound [OF assms(1,2)] .
  have v: "fr_valid (bp_frames s ! k)" using assms(2) pool_ok_table [OF assms(1)] by simp
  have ok: "frame_ok (bp_files s) (g (bp_frames s ! k))"
    using pool_ok_frame [OF assms(1) k] plus1_nz [OF assms(3)] v unfolding assms(4) frame_ok_def by auto
  have p: "pin_of (upd_frame k g s) q = ((pin_of s)(pid := pin_of s pid + 1)) q" for q
  proof (cases "q = pid")
    case True
    then show ?thesis using assms(2) k by (simp add: pin_of_def assms(4))
  next
    case False
    show ?thesis
    proof (cases "bp_table s q")
      case None
      then show ?thesis using False by (simp add: pin_of_def)
    next
      case (Some j)
      then have "j \<noteq> k" using False assms(2) pool_ok_table [OF assms(1)] by (metis)
      then show ?thesis using Some False by (simp add: pin_of_def)
    qed
  qed
  have h: "held (upd_frame k g s) q j" if "held s q j" for q j
    using that p [of q] plus1_nz [OF assms(3)] assms(2) by (auto simp: held_def pin_of_def split: if_splits)
  show ?thesis unfolding fetched_def same_outside_def
    using pool_ok_upd [where g = g, OF assms(1) k ok] view_upd [OF assms(1) k, of g] plus1_nz [OF assms(3)] assms(2) k p h
    by (simp add: assms(4) page_view_def fun_eq_iff)
qed

lemma free_frame: "has_free s \<Longrightarrow> \<exists>j < length (bp_frames s). fr_pin (bp_frames s ! j) = 0"
  by (auto simp: has_free_def list_ex_length)

lemma miss_ok:
  assumes "evicted s k s1" "bp_table s pid = None" "fr_page f = pid" "fr_valid f" "fr_pin f = 1"
    and "fr_data f = page_view s pid" "fr_before f = page_view s pid" "disk_page fs = disk_page (bp_files s1)"
    and "pool_ok s"
  shows "fetched s pid k (upd_frame k (\<lambda>_. f) (s1\<lparr>bp_table := (bp_table s1)(pid \<mapsto> k), bp_files := fs\<rparr>))"
proof -
  have e: "pool_ok s1" "same_outside s s1" "k < length (bp_frames s1)" "\<not> fr_valid (bp_frames s1 ! k)" "bp_table s1 pid = None"
    using assms(1,2) unfolding evicted_def by (simp_all add: same_outside_def) metis
  have v: "page_view s pid = disk_page (bp_files s1) pid" using e(2,5) unfolding same_outside_def by (metis option.simps(4) page_view_def)
  have ok: "frame_ok (bp_files s1) f" using assms(3-7) v by (simp add: frame_ok_def)
  note ff = fill_frame [of s1 k f fs, unfolded assms(3), OF e(1,3,4,5) ok assms(4,8)]
  let ?s' = "upd_frame k (\<lambda>_. f) (s1\<lparr>bp_table := (bp_table s1)(pid \<mapsto> k), bp_files := fs\<rparr>)"
  note ep = evicted_pins [OF assms(1,9)]
  have nk: "bp_table s1 q \<noteq> Some k" for q using pool_ok_table [OF e(1), of q k] e(4) by simp
  have p: "pin_of ?s' q = ((pin_of s)(pid := pin_of s pid + 1)) q" for q
  proof (cases "q = pid")
    case True
    then show ?thesis using assms(2,5) e(3) by (simp add: pin_of_def)
  next
    case False
    then have "pin_of ?s' q = pin_of s1 q" using nk [of q] by (auto simp: pin_of_def split: option.split)
    then show ?thesis using False ep(1) by simp
  qed
  have h: "held ?s' q j" if "held s q j" for q j
  proof -
    have "held s1 q j" "q \<noteq> pid" using ep(2) [OF that] that assms(2) by (auto simp: held_def)
    then show ?thesis using p [of q] ep(1) by (simp add: held_def)
  qed
  show ?thesis unfolding fetched_def
    using ff same_outside_trans [OF e(2)] assms(5-7) v e(3) p h by (simp add: fun_eq_iff)
qed

lemma pool_read_view:
  assumes "pool_ok s" "pin_room s pid" "bp_table s pid \<noteq> None \<or> has_free s"
  shows "if bp_table s pid = None \<and> \<not> page_valid (page_view s pid) magic then pool_read pid magic s = Inl Critical
    else \<exists>k s'. pool_read pid magic s = Inr (k, s') \<and> fetched s pid k s'"
proof (cases "bp_table s pid")
  case (Some k)
  then show ?thesis using hit_ok [OF assms(1) Some, of _ "\<lambda>_. True"] assms(2) by (simp add: pool_read_def pin_room_def)
next
  case None
  then obtain j where "j < length (bp_frames s)" "fr_pin (bp_frames s ! j) = 0" using assms(3) free_frame by auto
  then obtain k s1 where e: "evict s = Inr (k, s1)" "evicted s k s1" using evict_finds [OF assms(1)] by blast
  let ?fs = "fd_for (pid_file pid) (bp_files s1)"
  have v: "disk_page (bp_files s1) pid = page_view s pid"
    using e(2) None unfolding evicted_def same_outside_def by (metis option.simps(4) page_view_def)
  have r: "read_page (pid_file pid) (pid_page pid) (bp_files s1) = (page_view s pid, ?fs)"
    using v by (simp add: read_page_eq)
  let ?f = "empty_frame\<lparr>fr_page := pid, fr_valid := True, fr_ref := True, fr_pin := 1, fr_data := page_view s pid, fr_before := page_view s pid\<rparr>"
  have "fetched s pid k (upd_frame k (\<lambda>_. ?f) (s1\<lparr>bp_table := (bp_table s1)(pid \<mapsto> k), bp_files := ?fs\<rparr>))"
    by (rule miss_ok [OF e(2) None]) (simp_all add: fun_eq_iff assms(1))
  then show ?thesis using None e(1) r by (auto simp: pool_read_def Let_def)
qed

lemma pool_allocate_view:
  assumes "pool_ok s" "pin_room s pid" "bp_table s pid \<noteq> None \<or> has_free s"
    and "bp_table s pid = None \<Longrightarrow> page_view s pid = replicate PAGE_SIZE 0"
  shows "\<exists>k s'. pool_allocate pid s = Inr (k, s') \<and> fetched s pid k s'"
proof (cases "bp_table s pid")
  case (Some k)
  then show ?thesis using hit_ok [OF assms(1) Some, of _ fr_ref] assms(2) by (simp add: pool_allocate_def pin_room_def)
next
  case None
  then obtain j where "j < length (bp_frames s)" "fr_pin (bp_frames s ! j) = 0" using assms(3) free_frame by auto
  then obtain k s1 where e: "evict s = Inr (k, s1)" "evicted s k s1" using evict_finds [OF assms(1)] by blast
  let ?f = "empty_frame\<lparr>fr_page := pid, fr_valid := True, fr_dirty := True, fr_ref := True, fr_pin := 1\<rparr>"
  have "fetched s pid k (upd_frame k (\<lambda>_. ?f) (s1\<lparr>bp_table := (bp_table s1)(pid \<mapsto> k), bp_files := bp_files s1\<rparr>))"
    by (rule miss_ok [OF e(2) None]) (simp_all add: assms(4) [OF None] assms(1), simp_all add: empty_frame_def)
  then show ?thesis using None e(1) by (auto simp: pool_allocate_def)
qed

lemma pool_unpin_ok:
  assumes "pool_ok s" "k < length (bp_frames s)" "fr_valid (bp_frames s ! k)" "fr_data (bp_frames s ! k) = fr_before (bp_frames s ! k)"
  shows "\<exists>s'. pool_unpin k s = Inr s' \<and> pool_ok s' \<and> same_outside s s'"
proof -
  let ?g = "\<lambda>f. f\<lparr>fr_pin := fr_pin f - 1\<rparr>"
  have ok: "frame_ok (bp_files s) (?g (bp_frames s ! k))"
    using pool_ok_frame [OF assms(1,2)] assms(3,4) by (auto simp: frame_ok_def)
  have "pool_ok (upd_frame k ?g s)" by (rule pool_ok_upd [where g = ?g, OF assms(1,2) ok]) simp_all
  moreover have "same_outside s (upd_frame k ?g s)"
    using view_upd [OF assms(1,2), of ?g] by (simp add: same_outside_def)
  ultimately show ?thesis using assms(1-3) by (simp add: pool_unpin_def frame_index_def)
qed

lemma edit_page_ok:
  assumes "pool_ok s" "k < length (bp_frames s)" "fr_valid (bp_frames s ! k)" "fr_pin (bp_frames s ! k) \<noteq> 0" "length data = PAGE_SIZE"
  shows "pool_ok (edit_page k data s)" "page_view (edit_page k data s) = (page_view s)(fr_page (bp_frames s ! k) := data)"
    "logged_view (edit_page k data s) = logged_view s"
proof -
  let ?f = "bp_frames s ! k"
  have "frame_ok (bp_files s) (?f\<lparr>fr_data := data\<rparr>)"
    using pool_ok_frame [OF assms(1,2)] assms(4,5) by (auto simp: frame_ok_def)
  then show "pool_ok (edit_page k data s)" unfolding edit_page_def by (intro pool_ok_upd [OF assms(1,2)]) simp_all
  have t: "bp_table s (fr_page ?f) = Some k" using pool_ok_table [OF assms(1)] assms(2,3) by blast
  have "page_view (edit_page k data s) pid = ((page_view s)(fr_page ?f := data)) pid \<and> logged_view (edit_page k data s) pid = logged_view s pid" for pid
  proof (cases "bp_table s pid")
    case None
    then show ?thesis using t by (auto simp: edit_page_def page_view_def logged_view_def)
  next
    case (Some j)
    then have "j < length (bp_frames s)" "fr_page (bp_frames s ! j) = pid" using pool_ok_table [OF assms(1), of pid j] by auto
    moreover have "pid = fr_page ?f \<longleftrightarrow> j = k" using t Some calculation(2) by (metis option.inject)
    ultimately show ?thesis using Some assms(2)
      by (cases "j = k") (simp_all add: edit_page_def page_view_def logged_view_def)
  qed
  then show "page_view (edit_page k data s) = (page_view s)(fr_page ?f := data)" "logged_view (edit_page k data s) = logged_view s"
    by (simp_all add: fun_eq_iff)
qed

text \<open>Marking a page dirty logs the changes since the last time.\<close>

lemma pool_mark_dirty_ok:
  assumes "pool_ok s" "k < length (bp_frames s)" "fr_valid (bp_frames s ! k)" "bp_txn s = Some t"
  defines "pid \<equiv> fr_page (bp_frames s ! k)"
  defines "cs \<equiv> page_changes pid (logged_view s pid) (page_view s pid)"
  shows "\<exists>s'. pool_mark_dirty k s = Inr s' \<and> pool_ok s' \<and> page_view s' = page_view s
    \<and> logged_view s' = fold redo_change cs (logged_view s) \<and> logged_view s' = (logged_view s)(pid := page_view s pid)
    \<and> befores_ok (logged_view s) cs \<and> bp_wal s' = wal_run (map (change_entry (tc_txn_id t)) cs) (bp_wal s)
    \<and> bp_txn s' = Some (t\<lparr>tc_undo := tc_undo t @ map undo_of cs, tc_wrote := tc_wrote t \<or> cs \<noteq> []\<rparr>)
    \<and> bp_files s' = bp_files s \<and> length (bp_frames s') = length (bp_frames s)"
proof -
  let ?f = "bp_frames s ! k"
  have fo: "frame_ok (bp_files s) ?f" by (rule pool_ok_frame [OF assms(1,2)])
  have len: "length (fr_data ?f) = PAGE_SIZE" "length (fr_before ?f) = PAGE_SIZE" using fo by (simp_all add: frame_ok_def)
  have t: "bp_table s pid = Some k" using pool_ok_table [OF assms(1)] assms(2,3) by (simp add: pid_def)
  have v: "page_view s pid = fr_data ?f" "logged_view s pid = fr_before ?f" using t by (simp_all add: page_view_def logged_view_def)
  have sz: "sized (logged_view s)" unfolding sized_def logged_view_def
    using pool_ok_frame [OF assms(1)] table_bound [OF assms(1)] by (auto simp: frame_ok_def split: option.split)
  let ?s1 = "s\<lparr>bp_wal := wal_run (map (change_entry (tc_txn_id t)) cs) (bp_wal s),
       bp_txn := Some (t\<lparr>tc_undo := tc_undo t @ map undo_of cs, tc_wrote := tc_wrote t \<or> cs \<noteq> []\<rparr>)\<rparr>"
  let ?g = "\<lambda>f. f\<lparr>fr_before := fr_data f, fr_dirty := True\<rparr>"
  let ?s' = "upd_frame k ?g ?s1"
  have e: "log_page_diff k t s = upd_frame k (\<lambda>f. f\<lparr>fr_before := fr_data f\<rparr>) ?s1"
    unfolding cs_def v using log_page_diff_eq [of s k t] len by (simp add: pid_def)
  have m: "pool_mark_dirty k s = Inr ?s'"
    using assms(2-4) e by (simp add: pool_mark_dirty_def frame_index_def upd_frame_def)
  have ok1: "pool_ok ?s1" using assms(1) by (simp add: pool_ok_def)
  have "frame_ok (bp_files ?s1) (?g (bp_frames ?s1 ! k))" using fo by (simp add: frame_ok_def)
  then have ok: "pool_ok ?s'" using assms(2) by (intro pool_ok_upd [OF ok1]) simp_all
  have "page_view ?s' q = page_view s q \<and> logged_view ?s' q = ((logged_view s)(pid := page_view s pid)) q" for q
  proof (cases "bp_table s q")
    case None
    then show ?thesis using t by (auto simp: page_view_def logged_view_def)
  next
    case (Some j)
    then have "j < length (bp_frames s)" "fr_page (bp_frames s ! j) = q" using pool_ok_table [OF assms(1), of q j] by auto
    moreover have "q = pid \<longleftrightarrow> j = k" using t Some calculation(2) unfolding pid_def by (metis option.inject)
    ultimately show ?thesis using Some v assms(2)
      by (cases "j = k") (simp_all add: page_view_def logged_view_def)
  qed
  then have w: "page_view ?s' = page_view s" "logged_view ?s' = (logged_view s)(pid := page_view s pid)" by (simp_all add: fun_eq_iff)
  have r: "fold redo_change cs (logged_view s) = (logged_view s)(pid := page_view s pid)" "befores_ok (logged_view s) cs"
    unfolding cs_def using page_changes_redo [OF _ _ sz refl, of "page_view s pid" pid] len v by simp_all
  show ?thesis
  proof (intro exI conjI)
    show "pool_mark_dirty k s = Inr ?s'" by (rule m)
  qed (use ok w r in \<open>simp_all del: befores_ok.simps\<close>)
qed

lemma pool_flush_ok:
  assumes "pool_ok s" "pool_flush pid s = Inr s'"
  shows "pool_ok s' \<and> same_outside s s'"
proof (cases "bp_table s pid")
  case None
  then show ?thesis using assms by (simp add: pool_flush_def)
next
  case (Some k)
  then have w: "write_back k s = Inr s'" using assms(2) by (simp add: pool_flush_def)
  have "fr_valid (bp_frames s ! k) \<Longrightarrow> fr_dirty (bp_frames s ! k) \<Longrightarrow> fr_data (bp_frames s ! k) = fr_before (bp_frames s ! k)"
    using w by (auto simp: write_back_def Let_def split: if_splits)
  then show ?thesis using write_back_ok [OF assms(1) table_bound [OF assms(1) Some]] w by auto
qed

section \<open>Properties\<close>

lemma evict_total:
  assumes "pool_ok s"
  shows "if has_free s then \<exists>k s'. evict s = Inr (k, s') \<and> evicted s k s' else evict s = Inl (Raise Internal)"
proof (cases "has_free s")
  case True
  then show ?thesis using free_frame [OF True] evict_finds [OF assms] by auto
next
  case False
  then have "fr_pin (bp_frames s ! k) \<noteq> 0" if "k < length (bp_frames s)" for k
    using that by (auto simp: has_free_def list_ex_length)
  then have "evict s = Inl (Raise Internal) \<or> bp_frames s = []" unfolding evict_def by (rule evict_all_pinned)
  then show ?thesis using False by (auto simp: evict_def)
qed

definition demo_pool :: store where
  "demo_pool = pool_init 2 Map.empty (wal_init [])"

lemma demo_pool_ok: "pool_ok demo_pool" "has_free demo_pool" "bp_table demo_pool pid = None" "page_view demo_pool pid = replicate PAGE_SIZE 0"
  "length (bp_frames demo_pool) = 2"
proof -
  show "pool_ok demo_pool" by (simp add: demo_pool_def pool_init_ok)
  show "has_free demo_pool" by (simp add: demo_pool_def pool_init_def has_free_def empty_frame_def numeral_2_eq_2)
qed (simp_all add: demo_pool_def pool_init_def page_view_def disk_page_alt file_bytes_def get_at_def)

text \<open>
  C32. Eviction ends and is right about it. In a consistent pool the clock finds a frame within its two
  rounds whenever any frame is unpinned, and raises an internal error only when all are pinned. The
  frame it frees was unpinned; pinned frames, pin counts, the contents every page shows, the log and
  the transaction stay as they were, and the disk only receives pages the log already knows.
\<close>

theorem evict_finds_unpinned:
  assumes "pool_ok s"
  shows "if has_free s then \<exists>k s'. evict s = Inr (k, s') \<and> evicted s k s' else evict s = Inl (Raise Internal)"
  by (rule evict_total [OF assms])

theorem evict_finds_unpinned_witness:
  "\<exists>k s'. evict demo_pool = Inr (k, s') \<and> evicted demo_pool k s'"
  using evict_finds_unpinned [OF demo_pool_ok(1)] demo_pool_ok(2) by simp

text \<open>
  C31. The cache is transparent to readers. With the page cached or a frame free, and room in the
  16-bit pin count, a read returns a pinned frame that holds exactly what the pool showed for that
  page (the cached copy, else the disk), and changes no page that any client sees; a page that comes
  from the disk with a wrong magic number or checksum ends in the critical error and never in a
  frame.
\<close>

theorem pool_read_transparent:
  assumes "pool_ok s" "pin_room s pid" "bp_table s pid \<noteq> None \<or> has_free s"
  shows "if bp_table s pid = None \<and> \<not> page_valid (page_view s pid) magic then pool_read pid magic s = Inl Critical
    else \<exists>k s'. pool_read pid magic s = Inr (k, s') \<and> fetched s pid k s'"
  by (rule pool_read_view [OF assms])

theorem pool_read_transparent_witness:
  "if bp_table demo_pool demo_pid = None \<and> \<not> page_valid (page_view demo_pool demo_pid) MAGIC_HEAP
   then pool_read demo_pid MAGIC_HEAP demo_pool = Inl Critical
   else \<exists>k s'. pool_read demo_pid MAGIC_HEAP demo_pool = Inr (k, s') \<and> fetched demo_pool demo_pid k s'"
  by (rule pool_read_transparent) (simp_all add: demo_pool_ok pin_room_def)

text \<open>
  C30. The write-ahead rule. Marking a cached page dirty inside a transaction appends to the log one
  patch per differing range, under the transaction's number: replaying these patches on what the log
  knew before gives exactly the current page, each before-image is what the log knew at that moment,
  and the undo list receives the same before-images. No page a client sees and no byte of the disk
  changes, and afterwards the log knows the page as the clients see it.
\<close>

theorem mark_dirty_logs_page:
  assumes "pool_ok s" "k < length (bp_frames s)" "fr_valid (bp_frames s ! k)" "bp_txn s = Some t"
    and "pid = fr_page (bp_frames s ! k)" "cs = page_changes pid (logged_view s pid) (page_view s pid)"
  shows "\<exists>s'. pool_mark_dirty k s = Inr s' \<and> pool_ok s' \<and> page_view s' = page_view s
    \<and> logged_view s' = fold redo_change cs (logged_view s) \<and> logged_view s' = (logged_view s)(pid := page_view s pid)
    \<and> befores_ok (logged_view s) cs \<and> bp_wal s' = wal_run (map (change_entry (tc_txn_id t)) cs) (bp_wal s)
    \<and> bp_txn s' = Some (t\<lparr>tc_undo := tc_undo t @ map undo_of cs, tc_wrote := tc_wrote t \<or> cs \<noteq> []\<rparr>)
    \<and> bp_files s' = bp_files s \<and> length (bp_frames s') = length (bp_frames s)"
  unfolding assms(5,6) by (rule pool_mark_dirty_ok [OF assms(1-4)])

definition demo_txn :: txn_context where
  "demo_txn = \<lparr>tc_txn_id = 3, tc_wrote = False, tc_undo = [], tc_tail_undo = [], tc_pending_drops = []\<rparr>"

definition demo_frame :: page_frame where
  "demo_frame = empty_frame\<lparr>fr_page := demo_pid, fr_valid := True, fr_pin := 1, fr_data := put_at 100 [9] (replicate PAGE_SIZE 0)\<rparr>"

definition demo_held :: store where
  "demo_held = \<lparr>bp_files = Map.empty, bp_wal = wal_init [], bp_frames = [demo_frame], bp_table = [demo_pid \<mapsto> 0], bp_hand = 0,
                bp_txn = Some demo_txn\<rparr>"

lemma demo_held_ok: "pool_ok demo_held"
proof -
  have "length (put_at 100 [9 :: byte] (replicate PAGE_SIZE 0)) = PAGE_SIZE" by (subst length_put_at) (simp_all add: PAGE_SIZE_def)
  then have "frame_ok Map.empty demo_frame"
    by (simp add: frame_ok_def demo_frame_def empty_frame_def disk_page_alt file_bytes_def get_at_def)
  moreover have "fr_valid demo_frame" "fr_page demo_frame = demo_pid" by (simp_all add: demo_frame_def)
  ultimately show ?thesis by (auto simp: pool_ok_def demo_held_def)
qed

theorem mark_dirty_logs_page_witness:
  "\<exists>s'. pool_mark_dirty 0 demo_held = Inr s' \<and> page_view s' = page_view demo_held
    \<and> logged_view s' = (logged_view demo_held)(demo_pid := page_view demo_held demo_pid)"
proof -
  have a: "0 < length (bp_frames demo_held)" "fr_valid (bp_frames demo_held ! 0)" "bp_txn demo_held = Some demo_txn"
    "demo_pid = fr_page (bp_frames demo_held ! 0)" by (simp_all add: demo_held_def demo_frame_def)
  show ?thesis using mark_dirty_logs_page [OF demo_held_ok a refl] by blast
qed

text \<open>
  The ranges that are logged for a page are ascending and disjoint, contain only words that differ,
  and contain every word that differs. In particular an equal word between two differing ones always
  separates two ranges.
\<close>

theorem diff_ranges_exact:
  "asc 0 (diff_ranges b d 0)
   \<and> list_ex (\<lambda>(lo, hi). lo \<le> v \<and> v < hi) (diff_ranges b d 0) = (v < PAGE_SIZE div 8 \<and> word_differs b d v)"
proof -
  let ?rs = "diff_ranges b d 0"
  note a = conjunct1 [OF diff_ranges_spec [of 0 b d]] and d = conjunct1 [OF conjunct2 [OF diff_ranges_spec [of 0 b d]]]
    and c = conjunct2 [OF conjunct2 [OF diff_ranges_spec [of 0 b d]]]
  have "v < PAGE_SIZE div 8 \<and> word_differs b d v" if r: "(lo, hi) \<in> set ?rs" "lo \<le> v" "v < hi" for lo hi
    using bspec [OF d r(1)] asc_bound [OF a r(1)] r(2,3) by simp
  moreover have "list_ex (\<lambda>(lo, hi). lo \<le> v \<and> v < hi) ?rs" if "v < PAGE_SIZE div 8" "word_differs b d v"
    using c that by (simp add: list_ex_iff)
  ultimately show ?thesis using a by (auto simp: list_ex_iff)
qed

end
