(* ===== verification/BTree.thy ===== *)
theory BTree
  imports PoolSafety
begin

text \<open>
  The B+ tree index of src/storage/btree.h and btree.cpp: order-preserving key encoding, leaf and
  inner nodes as bytes of a page, insertion with splits through the buffer pool, and range scans
  along the chain of leaves. A page pointer of the source is a frame index; a page is changed with
  \<^verbatim>\<open>edit_page\<close> while its frame is pinned. Recursion and loops that follow page numbers take fuel,
  since damaged pages may form a cycle; \<^verbatim>\<open>None\<close> stands for not having finished. What is shown is in
  TreeSafety.
\<close>

section \<open>Keys and entries\<close>

datatype index_key = IndexKey (key_val: u64) (key_null: bool)

datatype btree_entry = BTreeEntry (be_key: index_key) (be_page: u32) (be_slot: u16)

definition key_cmp :: "index_key \<Rightarrow> index_key \<Rightarrow> int" where
  "key_cmp a b =
    (if key_null a \<noteq> key_null b then (if key_null a then 1 else - 1)
     else if key_val a \<noteq> key_val b then (if key_val a < key_val b then - 1 else 1)
     else 0)"

definition entry_cmp :: "btree_entry \<Rightarrow> btree_entry \<Rightarrow> int" where
  "entry_cmp a b =
    (let c = key_cmp (be_key a) (be_key b)
     in if c \<noteq> 0 then c
        else if be_page a \<noteq> be_page b then (if be_page a < be_page b then - 1 else 1)
        else if be_slot a \<noteq> be_slot b then (if be_slot a < be_slot b then - 1 else 1)
        else 0)"

definition double_key :: "f64 \<Rightarrow> index_key" where
  "double_key x =
    (let bits = (if fp_eq F64 x 0 then 0 else x)
     in IndexKey (if drop_bit 63 bits \<noteq> 0 then NOT bits else bits OR 0x8000000000000000) False)"

definition encode_key :: "type_attr \<Rightarrow> dbvalue \<Rightarrow> index_key res" where
  "encode_key t v =
    (if vbox v = BNull then Inr (IndexKey 0 True)
     else if attr_rep t = RepDec then Inl (Raise NotImplemented)
     else case vbox v of
       BBool b \<Rightarrow> if attr_rep t \<noteq> RepBool then Inl (Raise ValueMismatch) else Inr (IndexKey (if b then 1 else 0) False)
     | BInt64 i \<Rightarrow> if attr_rep t \<noteq> RepInt64 then Inl (Raise ValueMismatch) else Inr (IndexKey (i XOR 0x8000000000000000) False)
     | BDouble d \<Rightarrow> if attr_rep t \<noteq> RepDouble then Inl (Raise ValueMismatch) else Inr (double_key d)
     | BFloat f \<Rightarrow> if attr_rep t \<noteq> RepFloat then Inl (Raise ValueMismatch) else Inr (double_key (f32_to_f64 f))
     | _ \<Rightarrow> Inl (Raise NotImplemented))"

section \<open>Cells\<close>

definition BTREE_CELL_SIZE :: nat where "BTREE_CELL_SIZE = 15"
definition CELL_KEY_OFF :: nat where "CELL_KEY_OFF = 0"
definition CELL_NULL_OFF :: nat where "CELL_NULL_OFF = 8"
definition CELL_PAGE_OFF :: nat where "CELL_PAGE_OFF = CELL_NULL_OFF + 1"
definition CELL_SLOT_OFF :: nat where "CELL_SLOT_OFF = CELL_PAGE_OFF + 4"

lemmas cell_consts = BTREE_CELL_SIZE_def CELL_KEY_OFF_def CELL_NULL_OFF_def CELL_PAGE_OFF_def CELL_SLOT_OFF_def

definition get_cell :: "nat \<Rightarrow> bytes \<Rightarrow> btree_entry" where
  "get_cell off p = BTreeEntry (IndexKey (rd64 (off + CELL_KEY_OFF) p) (p ! (off + CELL_NULL_OFF) \<noteq> 0))
     (rd32 (off + CELL_PAGE_OFF) p) (rd16 (off + CELL_SLOT_OFF) p)"

definition put_cell :: "nat \<Rightarrow> btree_entry \<Rightarrow> bytes \<Rightarrow> bytes" where
  "put_cell off e p =
    (let p = wr64 (off + CELL_KEY_OFF) (key_val (be_key e)) p;
         p = put_at (off + CELL_NULL_OFF) [if key_null (be_key e) then 1 else 0] p;
         p = wr32 (off + CELL_PAGE_OFF) (be_page e) p
     in wr16 (off + CELL_SLOT_OFF) (be_slot e) p)"

section \<open>Leaves\<close>

definition leaf_slot_pos :: "u16 \<Rightarrow> nat" where
  "leaf_slot_pos i = PAGE_HEADER_SIZE + unat i * SLOT_SIZE"

definition leaf_entry :: "bytes \<Rightarrow> u16 \<Rightarrow> btree_entry" where
  "leaf_entry p i = get_cell (unat (rd16 (leaf_slot_pos i) p)) p"

lemma mid_between:
  assumes "lo < (hi :: u16)"
  shows "lo \<le> lo + (hi - lo) div 2" "lo + (hi - lo) div 2 < hi" "unat (lo + (hi - lo) div 2) = (unat lo + unat hi) div 2"
    "unat (lo + (hi - lo) div 2 + 1) = (unat lo + unat hi) div 2 + 1"
proof -
  have l: "unat lo < unat hi" using assms by (simp add: word_less_nat_alt)
  have "unat ((hi - lo) div 2) = (unat hi - unat lo) div 2"
    using l by (simp add: unat_div unat_sub word_le_nat_alt)
  moreover have "unat lo + (unat hi - unat lo) div 2 = (unat lo + unat hi) div 2" using l by linarith
  ultimately show m: "unat (lo + (hi - lo) div 2) = (unat lo + unat hi) div 2"
    using l unat16_less [of hi] by (simp add: unat_word_ariths)
  show "lo \<le> lo + (hi - lo) div 2" using m l by (simp add: word_le_nat_alt)
  show h: "lo + (hi - lo) div 2 < hi" using m l by (simp add: word_less_nat_alt)
  show "unat (lo + (hi - lo) div 2 + 1) = (unat lo + unat hi) div 2 + 1"
    using m l unat16_less [of hi] by (simp add: unat_word_ariths)
qed

text \<open>Both binary searches: the first position in \<^verbatim>\<open>[lo, hi)\<close> at which the test fails.\<close>

function bsearch :: "(u16 \<Rightarrow> bool) \<Rightarrow> u16 \<Rightarrow> u16 \<Rightarrow> u16" where
  "bsearch before lo hi =
    (if lo < hi then
       let mid = lo + (hi - lo) div 2
       in if before mid then bsearch before (mid + 1) hi else bsearch before lo mid
     else lo)"
  by pat_completeness auto
termination
proof (relation "measure (\<lambda>(before, lo, hi). unat hi - unat lo)")
  fix before :: "u16 \<Rightarrow> bool" and lo hi mid :: u16
  assume a: "lo < hi" "mid = lo + (hi - lo) div 2"
  have l: "unat lo < unat hi" using a(1) by (simp add: word_less_nat_alt)
  show "((before, mid + 1, hi), before, lo, hi) \<in> measure (\<lambda>(before, lo, hi). unat hi - unat lo)"
    using mid_between(4) [OF a(1)] l unfolding a(2) by simp
  show "((before, lo, mid), before, lo, hi) \<in> measure (\<lambda>(before, lo, hi). unat hi - unat lo)"
    using mid_between(3) [OF a(1)] l unfolding a(2) by simp
qed simp

declare bsearch.simps [simp del]

definition leaf_lower_bound :: "bytes \<Rightarrow> btree_entry \<Rightarrow> u16" where
  "leaf_lower_bound p e = bsearch (\<lambda>mid. entry_cmp (leaf_entry p mid) e < 0) 0 (hd_slot_count p)"

definition leaf_insert_at :: "u16 \<Rightarrow> btree_entry \<Rightarrow> bytes \<Rightarrow> bytes" where
  "leaf_insert_at pos e p =
    (let n = hd_slot_count p;
         p = put_at (leaf_slot_pos (pos + 1)) (get_at (leaf_slot_pos pos) ((unat n - unat pos) * SLOT_SIZE) p) p;
         p = set_free_end (hd_free_end p - word_of_nat BTREE_CELL_SIZE) p;
         p = put_cell (unat (hd_free_end p)) e p;
         p = wr16 (leaf_slot_pos pos) (hd_free_end p) p;
         p = wr16 (leaf_slot_pos pos + 2) (word_of_nat BTREE_CELL_SIZE) p;
         p = set_free_begin (hd_free_begin p + word_of_nat SLOT_SIZE) p
     in set_slot_count (n + 1) p)"

definition leaf_build :: "btree_entry list \<Rightarrow> nat \<Rightarrow> nat \<Rightarrow> bytes" where
  "leaf_build entries from to =
    fold (\<lambda>i. leaf_insert_at (word_of_nat (i - from)) (entries ! i)) [from..<to] (init_page MAGIC_BTREE_LEAF BTreeLeaf)"

section \<open>Inner nodes\<close>

definition sep_pos :: "nat \<Rightarrow> nat" where "sep_pos i = PAGE_HEADER_SIZE + i * BTREE_CELL_SIZE"
definition child_pos :: "nat \<Rightarrow> nat" where "child_pos j = PAGE_SIZE - (j + 1) * 4"

definition node_sep :: "bytes \<Rightarrow> u16 \<Rightarrow> btree_entry" where
  "node_sep p i = get_cell (sep_pos (unat i)) p"

definition set_node_sep :: "u16 \<Rightarrow> btree_entry \<Rightarrow> bytes \<Rightarrow> bytes" where
  "set_node_sep i e p = put_cell (sep_pos (unat i)) e p"

definition node_child :: "bytes \<Rightarrow> u16 \<Rightarrow> u32" where
  "node_child p j = rd32 (child_pos (unat j)) p"

definition set_node_child :: "u16 \<Rightarrow> u32 \<Rightarrow> bytes \<Rightarrow> bytes" where
  "set_node_child j c p = wr32 (child_pos (unat j)) c p"

definition node_child_index :: "bytes \<Rightarrow> btree_entry \<Rightarrow> u16" where
  "node_child_index p e = bsearch (\<lambda>mid. entry_cmp (node_sep p mid) e \<le> 0) 0 (hd_slot_count p)"

definition node_insert_at :: "u16 \<Rightarrow> btree_entry \<Rightarrow> u32 \<Rightarrow> bytes \<Rightarrow> bytes" where
  "node_insert_at i sep right p =
    (let n = hd_slot_count p;
         p = put_at (sep_pos (unat i + 1)) (get_at (sep_pos (unat i)) ((unat n - unat i) * BTREE_CELL_SIZE) p) p;
         p = put_at (child_pos (unat n + 1)) (get_at (child_pos (unat n)) ((unat n - unat i) * 4) p) p;
         p = set_node_sep i sep p;
         p = set_node_child (i + 1) right p;
         p = set_free_begin (hd_free_begin p + word_of_nat BTREE_CELL_SIZE) p;
         p = set_free_end (hd_free_end p - 4) p
     in set_slot_count (n + 1) p)"

definition node_build :: "btree_entry list \<Rightarrow> u32 list \<Rightarrow> nat \<Rightarrow> nat \<Rightarrow> bytes" where
  "node_build seps children from to =
    (let p = fold (\<lambda>i p. set_node_child (word_of_nat (i - from)) (children ! i) (set_node_sep (word_of_nat (i - from)) (seps ! i) p))
               [from..<to] (init_page MAGIC_BTREE_LEAF BTreeInternal);
         p = set_node_child (word_of_nat (to - from)) (children ! to) p;
         m = to - from;
         p = set_free_begin (word_of_nat (PAGE_HEADER_SIZE + m * BTREE_CELL_SIZE)) p;
         p = set_free_end (word_of_nat (PAGE_SIZE - (m + 1) * 4)) p
     in set_slot_count (word_of_nat m) p)"

definition tree_page_type :: "u8 \<Rightarrow> bool" where
  "tree_page_type t \<longleftrightarrow> t = page_type_code BTreeLeaf \<or> t = page_type_code BTreeInternal"

section \<open>The file header and page access\<close>

definition file_root :: "bytes \<Rightarrow> u32" where "file_root p = rd32 PAGE_HEADER_SIZE p"
definition set_file_root :: "u32 \<Rightarrow> bytes \<Rightarrow> bytes" where "set_file_root v p = wr32 PAGE_HEADER_SIZE v p"

record btree =
  bt_file :: u64
  bt_root :: u32
  bt_hint :: u32

definition bt_create :: "u64 \<Rightarrow> store \<Rightarrow> (btree \<times> store) res" where
  "bt_create fid s =
    (let pid0 = PageId fid 0; s = s\<lparr>bp_files := create_table_file fid (bp_files s)\<rparr>
     in rbind (pool_allocate pid0 s) (\<lambda>(h0, s).
        let s = edit_page h0 (init_page MAGIC_FILE_HEADER FileHeader) s
        in rbind (pool_allocate (PageId fid 1) s) (\<lambda>(root, s).
        let s = edit_page root (init_page MAGIC_BTREE_LEAF BTreeLeaf) s;
            s = edit_page h0 (seal (set_file_root 1 (frame_data h0 s))) s
        in rbind (finish h0 s) (\<lambda>s.
           rbind (pool_flush pid0 s) (\<lambda>s.
           rbind (finish root s) (\<lambda>s.
           Inr (\<lparr>bt_file = fid, bt_root = 1, bt_hint = 2\<rparr>, s)))))))"

definition bt_open :: "u64 \<Rightarrow> store \<Rightarrow> (btree \<times> store) res" where
  "bt_open fid s =
    (if \<not> table_file_exists (bp_files s) fid then Inl Critical
     else rbind (pool_read (PageId fid 0) MAGIC_FILE_HEADER s) (\<lambda>(h0, s).
       let root = file_root (frame_data h0 s)
       in rbind (pool_unpin h0 s) (\<lambda>s.
          if root = 0 then Inl Critical
          else Inr (\<lparr>bt_file = fid, bt_root = root, bt_hint = max (page_count (bp_files s) fid) (root + 1)\<rparr>, s))))"

definition new_page :: "btree \<Rightarrow> store \<Rightarrow> (u32 \<times> nat \<times> btree \<times> store) res" where
  "new_page t s =
    (let no = max (page_count (bp_files s) (bt_file t)) (bt_hint t)
     in rbind (pool_allocate (PageId (bt_file t) no) s) (\<lambda>(k, s). Inr (no, k, t\<lparr>bt_hint := no + 1\<rparr>, s)))"

definition read_tree :: "page_id \<Rightarrow> store \<Rightarrow> (nat \<times> store) res" where
  "read_tree pid s =
    rbind (pool_read pid MAGIC_BTREE_LEAF s) (\<lambda>(k, s).
      if \<not> tree_page_type (hd_type (frame_data k s)) then rbind (pool_unpin k s) (\<lambda>_. Inl Critical)
      else Inr (k, s))"

definition set_root :: "btree \<Rightarrow> u32 \<Rightarrow> store \<Rightarrow> (btree \<times> store) res" where
  "set_root t no s =
    rbind (pool_read (PageId (bt_file t) 0) MAGIC_FILE_HEADER s) (\<lambda>(h0, s).
      rbind (finish h0 (edit_page h0 (seal (set_file_root no (frame_data h0 s))) s)) (\<lambda>s.
        Inr (t\<lparr>bt_root := no\<rparr>, s)))"

section \<open>Insertion\<close>

text \<open>The result of a level: no split, or the separator and the new right page.\<close>

type_synonym split = "(btree_entry \<times> u32) option"

definition leaf_insert :: "btree \<Rightarrow> nat \<Rightarrow> btree_entry \<Rightarrow> store \<Rightarrow> (split \<times> btree \<times> store) res" where
  "leaf_insert t k e s =
    (let pg = frame_data k s; n = hd_slot_count pg; pos = leaf_lower_bound pg e
     in if word_of_nat SLOT_SIZE + word_of_nat BTREE_CELL_SIZE \<le> free_space pg then
          rbind (finish k (edit_page k (seal (leaf_insert_at pos e pg)) s)) (\<lambda>s. Inr (None, t, s))
        else
          let entries = map (leaf_entry pg \<circ> word_of_nat) [0..<unat n];
              entries = take (unat pos) entries @ e # drop (unat pos) entries;
              cnt = unat (word_of_nat (length entries) :: u16); mid = cnt div 2; old_next = hd_next_page pg
          in rbind (new_page t s) (\<lambda>(rno, rk, t, s).
             rbind (finish rk (edit_page rk (seal (set_next_page old_next (leaf_build entries mid cnt))) s)) (\<lambda>s.
             rbind (finish k (edit_page k (seal (set_next_page rno (leaf_build entries 0 mid))) s)) (\<lambda>s.
             Inr (Some (entries ! mid, rno), t, s)))))"

definition node_absorb :: "btree \<Rightarrow> nat \<Rightarrow> u16 \<Rightarrow> btree_entry \<Rightarrow> u32 \<Rightarrow> store \<Rightarrow> (split \<times> btree \<times> store) res" where
  "node_absorb t k j sep right s =
    (let pg = frame_data k s; n = hd_slot_count pg
     in if word_of_nat BTREE_CELL_SIZE + 4 \<le> free_space pg then
          rbind (finish k (edit_page k (seal (node_insert_at j sep right pg)) s)) (\<lambda>s. Inr (None, t, s))
        else
          let seps = map (node_sep pg \<circ> word_of_nat) [0..<unat j] @ [sep] @ map (node_sep pg \<circ> word_of_nat) [unat j..<unat n];
              children = map (node_child pg \<circ> word_of_nat) [0..<unat j + 1] @ [right]
                @ map (node_child pg \<circ> word_of_nat) [unat j + 1..<unat n + 1];
              cnt = unat (word_of_nat (length seps) :: u16); mid = cnt div 2
          in rbind (new_page t s) (\<lambda>(rno, rk, t, s).
             rbind (finish rk (edit_page rk (seal (node_build seps children (mid + 1) cnt)) s)) (\<lambda>s.
             rbind (finish k (edit_page k (seal (node_build seps children 0 mid)) s)) (\<lambda>s.
             Inr (Some (seps ! mid, rno), t, s)))))"

fun insert_rec :: "nat \<Rightarrow> btree \<Rightarrow> u32 \<Rightarrow> btree_entry \<Rightarrow> store \<Rightarrow> (split \<times> btree \<times> store) res option" where
  "insert_rec 0 t no e s = None"
| "insert_rec (Suc fuel) t no e s =
    (case read_tree (PageId (bt_file t) no) s of
       Inl err \<Rightarrow> Some (Inl err)
     | Inr (k, s) \<Rightarrow>
         let pg = frame_data k s
         in if hd_type pg = page_type_code BTreeLeaf then Some (leaf_insert t k e s)
            else let j = node_child_index pg e
                 in case insert_rec fuel t (node_child pg j) e s of
                      None \<Rightarrow> None
                    | Some (Inl err) \<Rightarrow> Some (Inl err)
                    | Some (Inr (None, t, s)) \<Rightarrow> Some (rbind (pool_unpin k s) (\<lambda>s. Inr (None, t, s)))
                    | Some (Inr (Some (sep, right), t, s)) \<Rightarrow> Some (node_absorb t k j sep right s))"

text \<open>A split of the root puts a new inner node above the two halves.\<close>

definition grow_root :: "btree \<Rightarrow> btree_entry \<Rightarrow> u32 \<Rightarrow> store \<Rightarrow> (btree \<times> store) res" where
  "grow_root t sep right s =
    rbind (new_page t s) (\<lambda>(no, k, t, s).
      rbind (finish k (edit_page k (seal (node_build [sep] [bt_root t, right] 0 1)) s)) (set_root t no))"

definition bt_insert :: "nat \<Rightarrow> btree \<Rightarrow> btree_entry \<Rightarrow> store \<Rightarrow> (btree \<times> store) res option" where
  "bt_insert fuel t e s =
    (case insert_rec fuel t (bt_root t) e s of
       None \<Rightarrow> None
     | Some (Inl err) \<Rightarrow> Some (Inl err)
     | Some (Inr (None, t, s)) \<Rightarrow> Some (Inr (t, s))
     | Some (Inr (Some (sep, right), t, s)) \<Rightarrow> Some (grow_root t sep right s))"

section \<open>Range scans\<close>

datatype scan_bound = ScanBound (sb_key: index_key) (sb_inclusive: bool)

record btree_scanner =
  sc_file :: u64
  sc_lo :: "scan_bound option"
  sc_hi :: "scan_bound option"
  sc_cur :: "nat option"
  sc_page :: page_id
  sc_next :: u32
  sc_slot :: u16
  sc_done :: bool

definition scan_probe :: "scan_bound option \<Rightarrow> btree_entry" where
  "scan_probe lo = BTreeEntry (case lo of Some b \<Rightarrow> sb_key b | None \<Rightarrow> IndexKey 0 False) 0 0"

text \<open>The way down: the leaf in which the scan starts.\<close>

fun descend :: "nat \<Rightarrow> u64 \<Rightarrow> scan_bound option \<Rightarrow> u32 \<Rightarrow> store \<Rightarrow> (u32 \<times> nat \<times> store) res option" where
  "descend 0 fid lo no s = None"
| "descend (Suc fuel) fid lo no s =
    (case pool_read (PageId fid no) MAGIC_BTREE_LEAF s of
       Inl err \<Rightarrow> Some (Inl err)
     | Inr (k, s) \<Rightarrow>
         let pg = frame_data k s
         in if hd_type pg = page_type_code BTreeInternal then
              let child = (if lo \<noteq> None then node_child_index pg (scan_probe lo) else 0)
              in case pool_unpin k s of Inl err \<Rightarrow> Some (Inl err) | Inr s \<Rightarrow> descend fuel fid lo (node_child pg child) s
            else Some (Inr (no, k, s)))"

definition scan_open :: "nat \<Rightarrow> btree \<Rightarrow> scan_bound option \<Rightarrow> scan_bound option \<Rightarrow> store \<Rightarrow> (btree_scanner \<times> store) res option" where
  "scan_open fuel t lo hi s =
    (case descend fuel (bt_file t) lo (bt_root t) s of
       None \<Rightarrow> None
     | Some (Inl err) \<Rightarrow> Some (Inl err)
     | Some (Inr (no, k, s)) \<Rightarrow>
         let pg = frame_data k s
         in if hd_type pg \<noteq> page_type_code BTreeLeaf then Some (rbind (pool_unpin k s) (\<lambda>_. Inl Critical))
            else Some (Inr (\<lparr>sc_file = bt_file t, sc_lo = lo, sc_hi = hi, sc_cur = Some k, sc_page = PageId (bt_file t) no,
                 sc_next = hd_next_page pg, sc_slot = (if lo \<noteq> None then leaf_lower_bound pg (scan_probe lo) else 0), sc_done = False\<rparr>, s)))"

definition scan_close :: "btree_scanner \<Rightarrow> store \<Rightarrow> (btree_scanner \<times> store) res" where
  "scan_close c s =
    (case sc_cur c of
       None \<Rightarrow> Inr (c\<lparr>sc_done := True\<rparr>, s)
     | Some k \<Rightarrow> rbind (pool_unpin k s) (\<lambda>s. Inr (c\<lparr>sc_cur := None, sc_done := True\<rparr>, s)))"

text \<open>Loading the next leaf of the chain; no page left ends the scan.\<close>

definition scan_load :: "btree_scanner \<Rightarrow> store \<Rightarrow> (btree_scanner \<times> store) res" where
  "scan_load c s =
    (if sc_next c = 0 then Inr (c\<lparr>sc_done := True\<rparr>, s)
     else let pid = PageId (sc_file c) (sc_next c)
          in rbind (pool_read pid MAGIC_BTREE_LEAF s) (\<lambda>(k, s).
             let pg = frame_data k s
             in if hd_type pg \<noteq> page_type_code BTreeLeaf then rbind (pool_unpin k s) (\<lambda>_. Inl Critical)
                else Inr (c\<lparr>sc_cur := Some k, sc_page := pid, sc_next := hd_next_page pg, sc_slot := 0\<rparr>, s)))"

definition beyond_hi :: "scan_bound option \<Rightarrow> btree_entry \<Rightarrow> bool" where
  "beyond_hi hi e = (case hi of None \<Rightarrow> False
     | Some b \<Rightarrow> let c = key_cmp (be_key e) (sb_key b) in if sb_inclusive b then c > 0 else c \<ge> 0)"

fun scan_next :: "nat \<Rightarrow> btree_scanner \<Rightarrow> store \<Rightarrow> (btree_entry option \<times> btree_scanner \<times> store) res option" where
  "scan_next 0 c s = None"
| "scan_next (Suc fuel) c s =
    (if sc_done c then Some (Inr (None, c, s))
     else case sc_cur c of
       None \<Rightarrow> (case scan_load c s of Inl err \<Rightarrow> Some (Inl err) | Inr (c, s) \<Rightarrow> scan_next fuel c s)
     | Some k \<Rightarrow>
         let pg = frame_data k s
         in if sc_slot c < hd_slot_count pg then
              let e = leaf_entry pg (sc_slot c)
              in if beyond_hi (sc_hi c) e then Some (Inr (None, c\<lparr>sc_done := True\<rparr>, s))
                 else (case sc_lo c of
                   Some b \<Rightarrow>
                     if \<not> sb_inclusive b \<and> key_cmp (be_key e) (sb_key b) = 0 then scan_next fuel (c\<lparr>sc_slot := sc_slot c + 1\<rparr>) s
                     else Some (Inr (Some e, c\<lparr>sc_lo := (if sb_inclusive b then Some b else None), sc_slot := sc_slot c + 1\<rparr>, s))
                 | None \<Rightarrow> Some (Inr (Some e, c\<lparr>sc_slot := sc_slot c + 1\<rparr>, s)))
            else (case pool_unpin k s of Inl err \<Rightarrow> Some (Inl err) | Inr s \<Rightarrow> scan_next fuel (c\<lparr>sc_cur := None\<rparr>) s))"

end
