(* ===== verification/Numtext.thy ===== *)
theory Numtext
  imports Codec "HOL-Library.Char_ord"
begin

text \<open>
  The decimal text routines of the C++ standard library that the program calls: decimal digits,
  \<^verbatim>\<open>std::from_chars\<close> for \<^verbatim>\<open>int64_t\<close> and \<^verbatim>\<open>double\<close>, \<^verbatim>\<open>std::format\<close> of an integer, and the
  shortest round-trip text \<^verbatim>\<open>std::format\<close> gives a \<^verbatim>\<open>float\<close> or \<^verbatim>\<open>double\<close>.
\<close>

section \<open>Digits\<close>

definition is_digit :: "char \<Rightarrow> bool" where
  "is_digit c \<longleftrightarrow> CHR ''0'' \<le> c \<and> c \<le> CHR ''9''"

definition digit_val :: "char \<Rightarrow> int" where
  "digit_val c = int (of_char c) - 48"

definition digit_char :: "nat \<Rightarrow> char" where
  "digit_char n = char_of (48 + n)"

fun nat_text :: "nat \<Rightarrow> string" where
  "nat_text n = (if n < 10 then [digit_char n] else nat_text (n div 10) @ [digit_char (n mod 10)])"

declare nat_text.simps [simp del]

definition int_text :: "int \<Rightarrow> string" where
  "int_text i = (if i < 0 then ''-'' @ nat_text (nat \<bar>i\<bar>) else nat_text (nat i))"

text \<open>The value of a digit string read left to right from an accumulator.\<close>

definition digits_val :: "int \<Rightarrow> string \<Rightarrow> int" where
  "digits_val u ds = foldl (\<lambda>a c. a * 10 + digit_val c) u ds"

section \<open>Reading numbers\<close>

text \<open>
  \<^verbatim>\<open>from_chars (b, e, int64_t)\<close>: an optional minus sign and the longest run of digits; nothing
  when there is no digit or the number is out of range, otherwise the number and what is left.
\<close>

definition from_chars_i64 :: "string \<Rightarrow> (i64 \<times> string) option" where
  "from_chars_i64 s =
    (let neg = (s \<noteq> [] \<and> hd s = CHR ''-'');
         t = (if neg then tl s else s);
         ds = takeWhile is_digit t;
         v = (if neg then - digits_val 0 ds else digits_val 0 ds)
     in if ds = [] \<or> v < INT64_MIN \<or> v > INT64_MAX then None
        else Some (word_of_int v, dropWhile is_digit t))"

text \<open>The value \<^verbatim>\<open>u * 10 ^ e\<close> rounded to nearest even.\<close>

definition fp_of_decimal :: "fpfmt \<Rightarrow> bool \<Rightarrow> nat \<Rightarrow> int \<Rightarrow> 'a::len word" where
  "fp_of_decimal F neg u e =
    (if 0 \<le> e then fp_of_ratio F neg (u * 10 ^ nat e * 2 ^ fp_unit F) 1
     else fp_of_ratio F neg (u * 2 ^ fp_unit F) (10 ^ nat (- e)))"

text \<open>
  \<^verbatim>\<open>from_chars (b, e, double)\<close> in the general format; nothing without a digit, on overflow, and
  when a nonzero number rounds to zero. The texts of infinities and NaNs give no value here: a cast
  rejects them together with every value that is not finite, and the analysis only passes numeric literals.
\<close>

definition from_chars_f64 :: "string \<Rightarrow> (f64 \<times> string) option" where
  "from_chars_f64 s =
    (let neg = (s \<noteq> [] \<and> hd s = CHR ''-'');
         t = (if neg then tl s else s);
         ip = takeWhile is_digit t; t1 = dropWhile is_digit t;
         dot = (t1 \<noteq> [] \<and> hd t1 = CHR ''.'');
         fp = (if dot then takeWhile is_digit (tl t1) else []);
         t2 = (if dot then dropWhile is_digit (tl t1) else t1);
         t3 = (if t2 \<noteq> [] \<and> (hd t2 = CHR ''e'' \<or> hd t2 = CHR ''E'') then tl t2 else []);
         eneg = (t3 \<noteq> [] \<and> hd t3 = CHR ''-'');
         t4 = (if t3 \<noteq> [] \<and> (hd t3 = CHR ''-'' \<or> hd t3 = CHR ''+'') then tl t3 else t3);
         ed = takeWhile is_digit t4;
         ex = (if eneg then - digits_val 0 ed else digits_val 0 ed);
         rest = (if ed = [] then t2 else dropWhile is_digit t4);
         u = nat (digits_val 0 (ip @ fp));
         r = fp_of_decimal F64 neg u (ex - int (length fp))
     in if ip = [] \<and> fp = [] then None
        else if fp_isinf F64 r \<or> (u \<noteq> 0 \<and> fp_bits F64 r = 0) then None
        else Some (r, rest))"

section \<open>Shortest text of a float\<close>

text \<open>\<^verbatim>\<open>neg_exp fuel m U\<close>: the least \<^verbatim>\<open>k\<close> with \<^verbatim>\<open>U \<le> m * 10 ^ k\<close>; 400 steps reach the least positive double.\<close>

fun neg_exp :: "nat \<Rightarrow> nat \<Rightarrow> nat \<Rightarrow> nat" where
  "neg_exp 0 m U = 0"
| "neg_exp (Suc n) m U = (if U \<le> m then 0 else Suc (neg_exp n (10 * m) U))"

definition dec_exponent :: "fpfmt \<Rightarrow> nat \<Rightarrow> int" where
  "dec_exponent F m =
    (let U = 2 ^ fp_unit F
     in if U \<le> m then int (length (nat_text (m div U))) - 1 else - int (neg_exp 400 m U))"

text \<open>The closest \<^verbatim>\<open>n\<close>-digit decimal, or its neighbour on the other side, that reads back as the same pattern.\<close>

definition short_candidate :: "fpfmt \<Rightarrow> 'a::len word \<Rightarrow> nat \<Rightarrow> (nat \<times> int) option" where
  "short_candidate F x n =
    (let m = ieee_mag (fp_frac F) (fp_bits F x);
         p = dec_exponent F m - int n + 1;
         A = (if 0 \<le> p then m else m * 10 ^ nat (- p));
         B = (if 0 \<le> p then 2 ^ fp_unit F * 10 ^ nat p else 2 ^ fp_unit F);
         q = A div B; near = rne A B; far = (if near = q then q + 1 else q);
         ok = (\<lambda>d. fp_bits F (fp_of_decimal F False d p :: 'a word) = fp_bits F x)
     in if ok near then Some (near, p) else if ok far then Some (far, p) else None)"

fun first_some :: "('a \<Rightarrow> 'b option) \<Rightarrow> 'a list \<Rightarrow> 'b option" where
  "first_some f [] = None"
| "first_some f (x # xs) = (case f x of None \<Rightarrow> first_some f xs | Some y \<Rightarrow> Some y)"

fun strip_zeros :: "nat \<Rightarrow> nat \<Rightarrow> int \<Rightarrow> nat \<times> int" where
  "strip_zeros 0 d p = (d, p)"
| "strip_zeros (Suc n) d p = (if d \<noteq> 0 \<and> d mod 10 = 0 then strip_zeros n (d div 10) (p + 1) else (d, p))"

definition shortest_decimal :: "fpfmt \<Rightarrow> 'a::len word \<Rightarrow> nat \<times> int" where
  "shortest_decimal F x =
    (case first_some (short_candidate F x) [1..<18] of
       None \<Rightarrow> (0, 0)
     | Some (d, p) \<Rightarrow> strip_zeros 18 d p)"

definition exp_text :: "int \<Rightarrow> string" where
  "exp_text e = (let ds = nat_text (nat \<bar>e\<bar>)
                 in (if e < 0 then ''e-'' else ''e+'') @ (if length ds < 2 then ''0'' @ ds else ds))"

text \<open>Fixed notation unless scientific is shorter; an integral value in fixed notation is printed exactly.\<close>

definition fixed_text :: "fpfmt \<Rightarrow> nat \<Rightarrow> nat \<Rightarrow> int \<Rightarrow> string" where
  "fixed_text F m d p =
    (let ds = nat_text d; n = length ds; k = nat (- p)
     in if 0 \<le> p then nat_text (m div 2 ^ fp_unit F)
        else if k < n then take (n - k) ds @ ''.'' @ drop (n - k) ds
        else ''0.'' @ replicate (k - n) (CHR ''0'') @ ds)"

definition format_float :: "fpfmt \<Rightarrow> 'a::len word \<Rightarrow> string" where
  "format_float F x =
    (let sg = (if fp_neg F x then ''-'' else '''') in
     if fp_isnan F x then sg @ ''nan''
     else if fp_isinf F x then sg @ ''inf''
     else if fp_bits F x = 0 then sg @ ''0''
     else let (d, p) = shortest_decimal F x; ds = nat_text d; n = int (length ds);
              lo = (if n = 1 then - (n + 2) else - (n + 3)); hi = (if n = 1 then 4 else 5)
          in sg @ (if lo \<le> p \<and> p \<le> hi then fixed_text F (ieee_mag (fp_frac F) (fp_bits F x)) d p
                   else (if n = 1 then ds else take 1 ds @ ''.'' @ drop 1 ds) @ exp_text (p + n - 1)))"

end
