(* ===== verification/Cast.thy ===== *)
theory Cast
  imports Numtext
begin

text \<open>
  Value conversions of src/storage/cast.cpp: the conversion functions, the dispatch table and its
  tiers, decimal text, and the rounding of a value into a declared \<^verbatim>\<open>numeric(p, s)\<close>. Shown: the
  result is typed by the target, no tier-respecting cast of a well-formed value hits the internal
  error, decimal text reads back, integer text reads back, the rounding to integers and what the
  rounding to a smaller scale computes on every input.
\<close>

section \<open>Payload access\<close>

fun get_i64 :: "dbvalue \<Rightarrow> i64 res" where
  "get_i64 (Value t (BInt64 i)) = Inr i"
| "get_i64 _ = Inl (Raise Internal)"

fun get_f32 :: "dbvalue \<Rightarrow> f32 res" where
  "get_f32 (Value t (BFloat f)) = Inr f"
| "get_f32 _ = Inl (Raise Internal)"

fun get_f64 :: "dbvalue \<Rightarrow> f64 res" where
  "get_f64 (Value t (BDouble d)) = Inr d"
| "get_f64 _ = Inl (Raise Internal)"

fun get_str_view :: "dbvalue \<Rightarrow> string res" where
  "get_str_view (Value t (BStr s)) = Inr s"
| "get_str_view _ = Inl (Raise Internal)"

definition strip_pad :: "string \<Rightarrow> string" where
  "strip_pad s = rev (dropWhile (\<lambda>c. c = CHR '' '') (rev s))"

definition get_char_view :: "dbvalue \<Rightarrow> string res" where
  "get_char_view v = rbind (get_str_view v) (\<lambda>s. Inr (strip_pad s))"

fun cast_get_bool :: "dbvalue \<Rightarrow> bool res" where
  "cast_get_bool (Value t (BBool b)) = Inr b"
| "cast_get_bool _ = Inl (Raise Internal)"

fun get_dec :: "dbvalue \<Rightarrow> decimal_val res" where
  "get_dec (Value t (BDec d)) = Inr d"
| "get_dec _ = Inl (Raise Internal)"

text \<open>The loop multiplies a 256-bit integer; past 77 digits it would wrap.\<close>

fun pow10 :: "nat \<Rightarrow> int" where
  "pow10 0 = 1"
| "pow10 (Suc n) = wrap256 (pow10 n * 10)"

section \<open>Numbers and text\<close>

definition narrow_f32 :: "f64 \<Rightarrow> f32 res" where
  "narrow_f32 d = (let f = f64_to_f32 d
                   in if fp_isfinite F64 d \<and> \<not> fp_isfinite F32 f then Inl (Raise ValueMismatch) else Inr f)"

definition text_view :: "dbvalue \<Rightarrow> string res" where
  "text_view v = (if attr_store (vtype v) = StoreCharPad then get_char_view v else get_str_view v)"

definition drop_plus :: "string \<Rightarrow> string" where
  "drop_plus s = (if s \<noteq> [] \<and> hd s = CHR ''+'' then tl s else s)"

definition parse_i64 :: "string \<Rightarrow> i64 res" where
  "parse_i64 s0 =
    (let s = drop_plus s0 in
     case from_chars_i64 s of
       Some (v, rest) \<Rightarrow> if s = [] \<or> rest \<noteq> [] then Inl (Raise ValueMismatch) else Inr v
     | None \<Rightarrow> Inl (Raise ValueMismatch))"

definition parse_f64 :: "string \<Rightarrow> f64 res" where
  "parse_f64 s0 =
    (let s = drop_plus s0 in
     case from_chars_f64 s of
       Some (v, rest) \<Rightarrow> if s = [] \<or> rest \<noteq> [] \<or> \<not> fp_isfinite F64 v then Inl (Raise ValueMismatch) else Inr v
     | None \<Rightarrow> Inl (Raise ValueMismatch))"

definition dec_round_i64 :: "decimal_val \<Rightarrow> i64 res" where
  "dec_round_i64 d =
    (if dscale d \<ge> 39 then Inr 0
     else let p = pow10 (unat (dscale d));
              r = \<bar>unscaled d\<bar> mod p;
              q = \<bar>unscaled d\<bar> div p;
              mag = (if r * 2 \<ge> p then q + 1 else q)
          in if mag > INT64_MAX then Inl (Raise ValueMismatch)
             else Inr (word_of_int (if unscaled d < 0 then - mag else mag)))"

text \<open>The two bounds are the doubles minus and plus two to the 63.\<close>

definition f64_ge :: "f64 \<Rightarrow> f64 \<Rightarrow> bool" where
  "f64_ge a b \<longleftrightarrow> fp_lt F64 b a \<or> fp_eq F64 b a"

definition trunc_to_i64 :: "f64 \<Rightarrow> i64 res" where
  "trunc_to_i64 d =
    (if \<not> (f64_ge d (fp_of_int F64 (- (2 ^ 63))) \<and> fp_lt F64 d (fp_of_int F64 (2 ^ 63)))
     then Inl (Raise ValueMismatch)
     else Inr (word_of_int (sgn (fp_num F64 d) * (\<bar>fp_num F64 d\<bar> div 2 ^ 1074))))"

definition decimal_to_text :: "decimal_val \<Rightarrow> string" where
  "decimal_to_text d =
    (let neg = (unscaled d < 0); sc = unat (dscale d); digits0 = nat_text (nat \<bar>unscaled d\<bar>);
         digits = (if length digits0 \<le> sc then replicate (sc - length digits0 + 1) (CHR ''0'') @ digits0
                   else digits0)
     in if sc = 0 then (if neg then ''-'' @ digits0 else digits0)
        else (if neg then ''-'' else '''') @ take (length digits - sc) digits @ ''.''
             @ drop (length digits - sc) digits)"

text \<open>
  \<^verbatim>\<open>take_digits\<close>: what is left of the text, the accumulated integer, the digits after the point and
  whether a digit was seen; an error as soon as the integer reaches 38 digits.
\<close>

fun take_digits :: "bool \<Rightarrow> string \<Rightarrow> int \<Rightarrow> int \<Rightarrow> bool \<Rightarrow> (string \<times> int \<times> int \<times> bool) res" where
  "take_digits frac [] u sc any = Inr ([], u, sc, any)"
| "take_digits frac (c # s) u sc any =
     (if is_digit c then
        (let u' = u * 10 + digit_val c; sc' = (if frac then sc + 1 else sc)
         in if u' \<ge> kNumericUnscaledMax then Inl (Raise ValueMismatch) else take_digits frac s u' sc' True)
      else Inr (c # s, u, sc, any))"

fun take_exp :: "string \<Rightarrow> int \<Rightarrow> bool \<Rightarrow> (string \<times> int \<times> bool) res" where
  "take_exp [] e any = Inr ([], e, any)"
| "take_exp (c # s) e any =
     (if is_digit c then
        (let e' = e * 10 + digit_val c
         in if e' > 1000 then Inl (Raise ValueMismatch) else take_exp s e' True)
      else Inr (c # s, e, any))"

definition parse_exponent :: "string \<Rightarrow> (string \<times> int) res" where
  "parse_exponent s =
    (if s \<noteq> [] \<and> (hd s = CHR ''e'' \<or> hd s = CHR ''E'') then
       (let s1 = tl s;
            sgn = (s1 \<noteq> [] \<and> (hd s1 = CHR ''+'' \<or> hd s1 = CHR ''-''));
            eneg = (sgn \<and> hd s1 = CHR ''-'');
            s2 = (if sgn then tl s1 else s1)
        in rbind (take_exp s2 0 False) (\<lambda>(rest, e, eany).
             if \<not> eany then Inl (Raise ValueMismatch) else Inr (rest, if eneg then - e else e)))
     else Inr (s, 0))"

fun scale_up :: "nat \<Rightarrow> int \<Rightarrow> int res" where
  "scale_up 0 u = Inr u"
| "scale_up (Suc k) u = (let u' = u * 10
     in if u' \<ge> kNumericUnscaledMax then Inl (Raise ValueMismatch) else scale_up k u')"

text \<open>After the sign: digits, fraction, exponent, and the scale brought into range.\<close>

definition parse_decimal_body :: "bool \<Rightarrow> string \<Rightarrow> decimal_val res" where
  "parse_decimal_body neg s =
    rbind (take_digits False s 0 0 False) (\<lambda>(s1, u1, sc1, any1).
    rbind (if s1 \<noteq> [] \<and> hd s1 = CHR ''.'' then take_digits True (tl s1) u1 sc1 any1
           else Inr (s1, u1, sc1, any1)) (\<lambda>(s2, u, sc, any).
    if \<not> any then Inl (Raise ValueMismatch)
    else rbind (parse_exponent s2) (\<lambda>(rest, e).
      if rest \<noteq> [] then Inl (Raise ValueMismatch)
      else let scale = sc - e in
        rbind (if scale < 0 then scale_up (nat (- scale)) u else Inr u) (\<lambda>u'.
          let scale' = (if scale < 0 then 0 else scale) in
          if scale' > 255 then Inl (Raise ValueMismatch)
          else Inr (DecimalVal (if neg then - u' else u') (word_of_int scale'))))))"

definition parse_decimal_text :: "string \<Rightarrow> decimal_val res" where
  "parse_decimal_text s0 =
    (let sgn = (s0 \<noteq> [] \<and> (hd s0 = CHR ''+'' \<or> hd s0 = CHR ''-''))
     in parse_decimal_body (sgn \<and> hd s0 = CHR ''-'') (if sgn then tl s0 else s0))"

definition dec_to_f64_raw :: "decimal_val \<Rightarrow> f64 res" where
  "dec_to_f64_raw d = parse_f64 (decimal_to_text d)"

definition ascii_lower :: "char \<Rightarrow> char" where
  "ascii_lower c = (if CHR ''A'' \<le> c \<and> c \<le> CHR ''Z'' then char_of (of_char c + 32 :: nat) else c)"

definition parse_bool :: "string \<Rightarrow> bool res" where
  "parse_bool s =
    (let ieq = (\<lambda>t. length s = length t \<and> (\<forall>i < length s. ascii_lower (s ! i) = t ! i))
     in if ieq ''true'' then Inr True else if ieq ''false'' then Inr False
        else Inl (Raise ValueMismatch))"

section \<open>Conversion functions\<close>

definition restamp :: "dbvalue \<Rightarrow> type_attr \<Rightarrow> dbvalue res" where
  "restamp v to = Inr (Value to (vbox v))"

definition i64_restamp :: "dbvalue \<Rightarrow> type_attr \<Rightarrow> dbvalue res" where
  "i64_restamp v to =
    (if attr_width (vtype v) > attr_width to then
       rbind (get_i64 v) (\<lambda>i. if sint i < INT32_MIN \<or> sint i > INT32_MAX
                              then Inl (Raise ValueMismatch) else Inr (Value to (vbox v)))
     else Inr (Value to (vbox v)))"

definition i64_to_f32_v :: "dbvalue \<Rightarrow> type_attr \<Rightarrow> dbvalue res" where
  "i64_to_f32_v v to = rbind (get_i64 v) (\<lambda>i. Inr (float_val to (fp_of_int F32 (sint i))))"

definition i64_to_f64_v :: "dbvalue \<Rightarrow> type_attr \<Rightarrow> dbvalue res" where
  "i64_to_f64_v v to = rbind (get_i64 v) (\<lambda>i. Inr (double_val to (fp_of_int F64 (sint i))))"

definition f64_to_f32_v :: "dbvalue \<Rightarrow> type_attr \<Rightarrow> dbvalue res" where
  "f64_to_f32_v v to = rbind (get_f64 v) (\<lambda>d. rbind (narrow_f32 d) (\<lambda>f. Inr (float_val to f)))"

definition f32_to_f64_v :: "dbvalue \<Rightarrow> type_attr \<Rightarrow> dbvalue res" where
  "f32_to_f64_v v to = rbind (get_f32 v) (\<lambda>f. Inr (double_val to (f32_to_f64 f)))"

definition text_to_text :: "dbvalue \<Rightarrow> type_attr \<Rightarrow> dbvalue res" where
  "text_to_text v to =
    (if attr_store (vtype v) = StoreCharPad \<and> attr_store to = StoreVarLen
     then rbind (get_char_view v) (\<lambda>s. Inr (str_val to s))
     else Inr (Value to (vbox v)))"

definition i64_to_text :: "dbvalue \<Rightarrow> type_attr \<Rightarrow> dbvalue res" where
  "i64_to_text v to = rbind (get_i64 v) (\<lambda>i. Inr (str_val to (int_text (sint i))))"

definition f32_to_text :: "dbvalue \<Rightarrow> type_attr \<Rightarrow> dbvalue res" where
  "f32_to_text v to = rbind (get_f32 v) (\<lambda>f. Inr (str_val to (format_float F32 f)))"

definition f64_to_text :: "dbvalue \<Rightarrow> type_attr \<Rightarrow> dbvalue res" where
  "f64_to_text v to = rbind (get_f64 v) (\<lambda>d. Inr (str_val to (format_float F64 d)))"

definition bool_to_text :: "dbvalue \<Rightarrow> type_attr \<Rightarrow> dbvalue res" where
  "bool_to_text v to = rbind (cast_get_bool v) (\<lambda>b. Inr (str_val to (if b then ''true'' else ''false'')))"

definition bool_to_i64 :: "dbvalue \<Rightarrow> type_attr \<Rightarrow> dbvalue res" where
  "bool_to_i64 v to = rbind (cast_get_bool v) (\<lambda>b. Inr (int_val to (if b then 1 else 0)))"

definition bool_to_f32 :: "dbvalue \<Rightarrow> type_attr \<Rightarrow> dbvalue res" where
  "bool_to_f32 v to = rbind (cast_get_bool v) (\<lambda>b. Inr (float_val to (fp_of_int F32 (if b then 1 else 0))))"

definition bool_to_f64 :: "dbvalue \<Rightarrow> type_attr \<Rightarrow> dbvalue res" where
  "bool_to_f64 v to = rbind (cast_get_bool v) (\<lambda>b. Inr (double_val to (fp_of_int F64 (if b then 1 else 0))))"

definition bool_to_dec :: "dbvalue \<Rightarrow> type_attr \<Rightarrow> dbvalue res" where
  "bool_to_dec v to = rbind (cast_get_bool v) (\<lambda>b. Inr (numeric_val to (if b then 1 else 0) 0))"

definition i64_to_bool :: "dbvalue \<Rightarrow> type_attr \<Rightarrow> dbvalue res" where
  "i64_to_bool v to = rbind (get_i64 v) (\<lambda>i. if i \<noteq> 0 \<and> i \<noteq> 1 then Inl (Raise ValueMismatch)
                                             else Inr (bool_val to (i \<noteq> 0)))"

definition f32_to_bool :: "dbvalue \<Rightarrow> type_attr \<Rightarrow> dbvalue res" where
  "f32_to_bool v to = rbind (get_f32 v) (\<lambda>f.
     if \<not> fp_eq F32 f 0 \<and> \<not> fp_eq F32 f (fp_of_int F32 1) then Inl (Raise ValueMismatch)
     else Inr (bool_val to (\<not> fp_eq F32 f 0)))"

definition f64_to_bool :: "dbvalue \<Rightarrow> type_attr \<Rightarrow> dbvalue res" where
  "f64_to_bool v to = rbind (get_f64 v) (\<lambda>d.
     if \<not> fp_eq F64 d 0 \<and> \<not> fp_eq F64 d (fp_of_int F64 1) then Inl (Raise ValueMismatch)
     else Inr (bool_val to (\<not> fp_eq F64 d 0)))"

definition dec_to_bool :: "dbvalue \<Rightarrow> type_attr \<Rightarrow> dbvalue res" where
  "dec_to_bool v to = rbind (get_dec v) (\<lambda>d.
     if unscaled d = 0 then Inr (bool_val to False)
     else if dscale d < 39 \<and> \<bar>unscaled d\<bar> = pow10 (unat (dscale d)) then Inr (bool_val to True)
     else Inl (Raise ValueMismatch))"

definition text_to_bool :: "dbvalue \<Rightarrow> type_attr \<Rightarrow> dbvalue res" where
  "text_to_bool v to = rbind (text_view v) (\<lambda>s. rbind (parse_bool s) (\<lambda>b. Inr (bool_val to b)))"

definition text_to_i64 :: "dbvalue \<Rightarrow> type_attr \<Rightarrow> dbvalue res" where
  "text_to_i64 v to = rbind (text_view v) (\<lambda>s. rbind (parse_i64 s) (\<lambda>i. Inr (int_val to i)))"

definition text_to_f64 :: "dbvalue \<Rightarrow> type_attr \<Rightarrow> dbvalue res" where
  "text_to_f64 v to = rbind (text_view v) (\<lambda>s. rbind (parse_f64 s) (\<lambda>d. Inr (double_val to d)))"

definition text_to_f32 :: "dbvalue \<Rightarrow> type_attr \<Rightarrow> dbvalue res" where
  "text_to_f32 v to = rbind (text_view v) (\<lambda>s. rbind (parse_f64 s) (\<lambda>d.
     rbind (narrow_f32 d) (\<lambda>f. Inr (float_val to f))))"

definition f64_to_i64 :: "dbvalue \<Rightarrow> type_attr \<Rightarrow> dbvalue res" where
  "f64_to_i64 v to = rbind (get_f64 v) (\<lambda>d. rbind (trunc_to_i64 d) (\<lambda>i. Inr (int_val to i)))"

definition f32_to_i64 :: "dbvalue \<Rightarrow> type_attr \<Rightarrow> dbvalue res" where
  "f32_to_i64 v to = rbind (get_f32 v) (\<lambda>f. rbind (trunc_to_i64 (f32_to_f64 f)) (\<lambda>i. Inr (int_val to i)))"

definition i64_to_dec :: "dbvalue \<Rightarrow> type_attr \<Rightarrow> dbvalue res" where
  "i64_to_dec v to = rbind (get_i64 v) (\<lambda>i. Inr (numeric_val to (sint i) 0))"

definition f64_to_dec :: "dbvalue \<Rightarrow> type_attr \<Rightarrow> dbvalue res" where
  "f64_to_dec v to = rbind (get_f64 v) (\<lambda>x. rbind (parse_decimal_text (format_float F64 x))
     (\<lambda>d. Inr (numeric_val to (unscaled d) (dscale d))))"

definition f32_to_dec :: "dbvalue \<Rightarrow> type_attr \<Rightarrow> dbvalue res" where
  "f32_to_dec v to = rbind (get_f32 v) (\<lambda>x. rbind (parse_decimal_text (format_float F32 x))
     (\<lambda>d. Inr (numeric_val to (unscaled d) (dscale d))))"

definition text_to_dec :: "dbvalue \<Rightarrow> type_attr \<Rightarrow> dbvalue res" where
  "text_to_dec v to = rbind (text_view v) (\<lambda>s. rbind (parse_decimal_text s)
     (\<lambda>d. Inr (numeric_val to (unscaled d) (dscale d))))"

definition dec_to_i64 :: "dbvalue \<Rightarrow> type_attr \<Rightarrow> dbvalue res" where
  "dec_to_i64 v to = rbind (get_dec v) (\<lambda>d. rbind (dec_round_i64 d) (\<lambda>i. Inr (int_val to i)))"

definition dec_to_f64 :: "dbvalue \<Rightarrow> type_attr \<Rightarrow> dbvalue res" where
  "dec_to_f64 v to = rbind (get_dec v) (\<lambda>d. rbind (dec_to_f64_raw d) (\<lambda>x. Inr (double_val to x)))"

definition dec_to_f32 :: "dbvalue \<Rightarrow> type_attr \<Rightarrow> dbvalue res" where
  "dec_to_f32 v to = rbind (get_dec v) (\<lambda>d. rbind (dec_to_f64_raw d) (\<lambda>x.
     rbind (narrow_f32 x) (\<lambda>f. Inr (float_val to f))))"

definition dec_to_text :: "dbvalue \<Rightarrow> type_attr \<Rightarrow> dbvalue res" where
  "dec_to_text v to = rbind (get_dec v) (\<lambda>d. Inr (str_val to (decimal_to_text d)))"

section \<open>Dispatch table\<close>

datatype cast_mode = Implicit | Assignment | Explicit

fun mode_level :: "cast_mode \<Rightarrow> nat" where
  "mode_level Implicit = 0"
| "mode_level Assignment = 1"
| "mode_level Explicit = 2"

type_synonym cast_fn = "dbvalue \<Rightarrow> type_attr \<Rightarrow> dbvalue res"

fun kCastTable :: "rep \<Rightarrow> rep \<Rightarrow> (cast_fn \<times> cast_mode) option" where
  "kCastTable RepInt64 RepInt64 = Some (i64_restamp, Implicit)"
| "kCastTable RepInt64 RepFloat = Some (i64_to_f32_v, Implicit)"
| "kCastTable RepInt64 RepDouble = Some (i64_to_f64_v, Implicit)"
| "kCastTable RepInt64 RepStr = Some (i64_to_text, Explicit)"
| "kCastTable RepInt64 RepBool = Some (i64_to_bool, Explicit)"
| "kCastTable RepInt64 RepDec = Some (i64_to_dec, Implicit)"
| "kCastTable RepFloat RepInt64 = Some (f32_to_i64, Explicit)"
| "kCastTable RepFloat RepFloat = Some (restamp, Implicit)"
| "kCastTable RepFloat RepDouble = Some (f32_to_f64_v, Implicit)"
| "kCastTable RepFloat RepStr = Some (f32_to_text, Explicit)"
| "kCastTable RepFloat RepBool = Some (f32_to_bool, Explicit)"
| "kCastTable RepFloat RepDec = Some (f32_to_dec, Explicit)"
| "kCastTable RepDouble RepInt64 = Some (f64_to_i64, Explicit)"
| "kCastTable RepDouble RepFloat = Some (f64_to_f32_v, Assignment)"
| "kCastTable RepDouble RepDouble = Some (restamp, Implicit)"
| "kCastTable RepDouble RepStr = Some (f64_to_text, Explicit)"
| "kCastTable RepDouble RepBool = Some (f64_to_bool, Explicit)"
| "kCastTable RepDouble RepDec = Some (f64_to_dec, Explicit)"
| "kCastTable RepStr RepInt64 = Some (text_to_i64, Explicit)"
| "kCastTable RepStr RepFloat = Some (text_to_f32, Explicit)"
| "kCastTable RepStr RepDouble = Some (text_to_f64, Explicit)"
| "kCastTable RepStr RepStr = Some (text_to_text, Implicit)"
| "kCastTable RepStr RepBool = Some (text_to_bool, Explicit)"
| "kCastTable RepStr RepDec = Some (text_to_dec, Explicit)"
| "kCastTable RepBool RepInt64 = Some (bool_to_i64, Explicit)"
| "kCastTable RepBool RepFloat = Some (bool_to_f32, Explicit)"
| "kCastTable RepBool RepDouble = Some (bool_to_f64, Explicit)"
| "kCastTable RepBool RepStr = Some (bool_to_text, Explicit)"
| "kCastTable RepBool RepBool = Some (restamp, Implicit)"
| "kCastTable RepBool RepDec = Some (bool_to_dec, Explicit)"
| "kCastTable RepDec RepInt64 = Some (dec_to_i64, Explicit)"
| "kCastTable RepDec RepFloat = Some (dec_to_f32, Implicit)"
| "kCastTable RepDec RepDouble = Some (dec_to_f64, Implicit)"
| "kCastTable RepDec RepStr = Some (dec_to_text, Explicit)"
| "kCastTable RepDec RepBool = Some (dec_to_bool, Explicit)"
| "kCastTable RepDec RepDec = Some (restamp, Implicit)"
| "kCastTable _ _ = None"

definition cast_tier :: "type_attr \<Rightarrow> type_attr \<Rightarrow> cast_mode \<Rightarrow> cast_mode" where
  "cast_tier from to tier =
    (if attr_rep from = RepInt64 \<and> attr_rep to = RepInt64 \<and> attr_width from > attr_width to
     then Assignment else tier)"

definition cast_value :: "dbvalue \<Rightarrow> type_attr \<Rightarrow> cast_mode \<Rightarrow> dbvalue res" where
  "cast_value v to mode =
    (if value_is_null v then Inl (Raise Internal)
     else case kCastTable (attr_rep (vtype v)) (attr_rep to) of
       None \<Rightarrow> Inl (Raise Internal)
     | Some (fn, tier) \<Rightarrow>
         if mode_level (cast_tier (vtype v) to tier) > mode_level mode then Inl (Raise Internal)
         else fn v to)"

section \<open>Rounding into a declared numeric\<close>

fun grow_scale :: "nat \<Rightarrow> int \<Rightarrow> int res" where
  "grow_scale 0 u = Inr u"
| "grow_scale (Suc k) u =
     (let u' = u * 10
      in if u' \<noteq> 0 \<and> \<bar>u'\<bar> \<ge> kNumericUnscaledMax then Inl (Raise ValueMismatch) else grow_scale k u')"

text \<open>Truncating division and remainder of the source, both with the sign of the dividend.\<close>

definition tdiv :: "int \<Rightarrow> int \<Rightarrow> int" where
  "tdiv a b = sgn a * sgn b * (\<bar>a\<bar> div \<bar>b\<bar>)"

definition tmod :: "int \<Rightarrow> int \<Rightarrow> int" where
  "tmod a b = sgn a * (\<bar>a\<bar> mod \<bar>b\<bar>)"

definition shrink_scale :: "nat \<Rightarrow> int \<Rightarrow> int" where
  "shrink_scale k u =
    (let p = pow10 k; r = tmod u p; q = tdiv u p
     in if \<bar>r\<bar> * 2 \<ge> p then q + (if q < 0 then -1 else 1) else q)"

fun digit_count :: "nat \<Rightarrow> nat" where
  "digit_count mag = (if mag > 0 then Suc (digit_count (mag div 10)) else 0)"

declare digit_count.simps [simp del]

definition coerce_numeric :: "dbvalue \<Rightarrow> type_attr \<Rightarrow> u16 \<Rightarrow> u8 \<Rightarrow> cast_mode \<Rightarrow> dbvalue res" where
  "coerce_numeric v to precision sc mode =
    rbind (cast_value v to mode) (\<lambda>n. rbind (get_dec n) (\<lambda>d.
      rbind (if dscale d > sc then Inr (shrink_scale (unat (dscale d) - unat sc) (unscaled d))
             else grow_scale (unat sc - unat (dscale d)) (unscaled d)) (\<lambda>u.
        if precision > 0 \<and> digit_count (nat \<bar>u\<bar>) > unat precision then Inl (Raise ValueMismatch)
        else Inr (numeric_val to u sc))))"

section \<open>Decimal text\<close>

lemma digit_char_cases: "n < 10 \<Longrightarrow> is_digit (digit_char n) \<and> digit_val (digit_char n) = int n"
  by (simp add: is_digit_def digit_val_def digit_char_def less_eq_char_def)

lemma nat_text_digits: "list_all is_digit (nat_text n)"
proof (induction n rule: nat_text.induct)
  case (1 n)
  then show ?case using digit_char_cases [of n] digit_char_cases [of "n mod 10"]
    by (simp add: nat_text.simps [of n])
qed

lemma digits_val_append [simp]: "digits_val u (xs @ ys) = digits_val (digits_val u xs) ys"
  by (simp add: digits_val_def)

lemma digits_val_Nil [simp]: "digits_val u [] = u"
  by (simp add: digits_val_def)

lemma digits_val_Cons [simp]: "digits_val u (c # cs) = digits_val (u * 10 + digit_val c) cs"
  by (simp add: digits_val_def)

lemma digits_val_nat_text: "digits_val 0 (nat_text n) = int n"
proof (induction n rule: nat_text.induct)
  case (1 n)
  show ?case
  proof (cases "n < 10")
    case True
    then show ?thesis using digit_char_cases [of n] by (simp add: nat_text.simps [of n])
  next
    case False
    have "int n = int (n div 10) * 10 + int (n mod 10)" by presburger
    then show ?thesis using False 1 digit_char_cases [of "n mod 10"]
      by (simp add: nat_text.simps [of n])
  qed
qed

lemma nat_text_not_Nil [simp]: "nat_text n \<noteq> []"
  by (simp add: nat_text.simps [of n])

lemma digit_val_nonneg: "is_digit c \<Longrightarrow> 0 \<le> digit_val c"
  by (simp add: is_digit_def digit_val_def less_eq_char_def)

lemma digits_val_ge:
  "list_all is_digit ds \<Longrightarrow> 0 \<le> u \<Longrightarrow> u \<le> digits_val u ds"
proof (induction ds arbitrary: u)
  case Nil
  then show ?case by simp
next
  case (Cons c ds)
  have c: "0 \<le> digit_val c" using Cons.prems digit_val_nonneg by simp
  then have "u * 10 + digit_val c \<le> digits_val (u * 10 + digit_val c) ds"
    using Cons by simp
  then show ?case using c Cons.prems(2) by simp
qed

lemma take_digits_run:
  assumes "list_all is_digit ds" and "0 \<le> u" and "digits_val u ds < kNumericUnscaledMax"
    and "rest = [] \<or> \<not> is_digit (hd rest)"
  shows "take_digits frac (ds @ rest) u sc any
           = Inr (rest, digits_val u ds, sc + (if frac then int (length ds) else 0), any \<or> ds \<noteq> [])"
  using assms
proof (induction ds arbitrary: u sc any)
  case Nil
  then show ?case by (cases rest) auto
next
  case (Cons c ds)
  have c: "0 \<le> digit_val c" using Cons.prems(1) digit_val_nonneg by simp
  have "u * 10 + digit_val c \<le> digits_val (u * 10 + digit_val c) ds"
    using Cons.prems c by (intro digits_val_ge) auto
  then have "u * 10 + digit_val c < kNumericUnscaledMax" using Cons.prems(3) by simp
  then show ?case using Cons c by (simp add: Let_def)
qed

lemma digits_val_zeros: "digits_val 0 (replicate n (CHR ''0'')) = 0"
  by (induction n) (simp_all add: digit_val_def)

lemma is_digit_consts [simp]: "\<not> is_digit (CHR ''.'')" "\<not> is_digit (CHR ''-'')" "\<not> is_digit (CHR ''+'')"
  "is_digit (CHR ''0'')"
  by (simp_all add: is_digit_def less_eq_char_def)

lemma digit_not_sign: "is_digit c \<Longrightarrow> c \<noteq> CHR ''+'' \<and> c \<noteq> CHR ''-'' \<and> c \<noteq> CHR ''.''"
  by auto

text \<open>Reading an optional sign, digits and an optional fraction.\<close>

lemma parse_unsigned:
  assumes "list_all is_digit ip" and "list_all is_digit fp" and "ip \<noteq> []" and "length fp \<le> 255"
    and "digits_val 0 (ip @ fp) < kNumericUnscaledMax"
    and tail: "tail = (if fp = [] then [] else ''.'' @ fp)"
  shows "parse_decimal_text ((if neg then ''-'' else '''') @ ip @ tail)
           = Inr (DecimalVal (if neg then - digits_val 0 (ip @ fp) else digits_val 0 (ip @ fp))
                             (word_of_nat (length fp)))"
proof -
  have le: "digits_val 0 ip \<le> digits_val 0 (ip @ fp)"
    using assms digits_val_ge [of fp "digits_val 0 ip"] digits_val_ge [of ip 0] by simp
  have nn: "0 \<le> digits_val 0 ip" using assms digits_val_ge [of ip 0] by simp
  have 1: "take_digits False (ip @ tail) 0 0 False = Inr (tail, digits_val 0 ip, 0, True)"
    using assms le by (subst take_digits_run) auto
  have 2: "take_digits True (fp @ []) (digits_val 0 ip) 0 True
             = Inr ([], digits_val 0 (ip @ fp), int (length fp), True)"
    using assms nn by (subst take_digits_run) auto
  obtain c cs where ip: "ip = c # cs" using assms(3) by (cases ip) auto
  then have c: "c \<noteq> CHR ''+''" "c \<noteq> CHR ''-''" using assms(1) digit_not_sign by auto
  have sgn: "parse_decimal_text ((if neg then ''-'' else '''') @ ip @ tail) = parse_decimal_body neg (ip @ tail)"
    using c by (simp add: parse_decimal_text_def ip)
  have e: "parse_exponent [] = Inr ([], 0)" by (simp add: parse_exponent_def)
  show ?thesis
  proof (cases "fp = []")
    case True
    then show ?thesis unfolding sgn using 1 tail e by (simp add: parse_decimal_body_def Let_def)
  next
    case False
    then show ?thesis unfolding sgn using 1 tail e 2 assms(4) by (simp add: parse_decimal_body_def Let_def)
  qed
qed

text \<open>
  Decimal text is exact: every decimal within 38 digits, printed at its scale (trailing zeros
  kept), parses back to the same unscaled integer and the same scale.
\<close>

theorem parse_decimal_to_text:
  assumes "dec_ok d"
  shows "parse_decimal_text (decimal_to_text d) = Inr d"
proof -
  define ds where "ds = nat_text (nat \<bar>unscaled d\<bar>)"
  define sc where "sc = unat (dscale d)"
  define full where "full = (if length ds \<le> sc then replicate (sc - length ds + 1) (CHR ''0'') @ ds else ds)"
  define ip where "ip = take (length full - sc) full"
  define fp where "fp = drop (length full - sc) full"
  have dg: "list_all is_digit full"
    by (simp add: full_def ds_def nat_text_digits) (simp add: list_all_iff)
  have lf: "sc < length full" by (auto simp: full_def ds_def)
  have v: "digits_val 0 (ip @ fp) = \<bar>unscaled d\<bar>"
    by (simp add: ip_def fp_def del: digits_val_append)
       (simp add: full_def ds_def digits_val_zeros digits_val_nat_text digit_val_def)
  have parts: "list_all is_digit ip" "list_all is_digit fp" "ip \<noteq> []" "length fp = sc"
    using dg lf by (auto simp: ip_def fp_def list_all_length)
  have "sc \<le> 255" unfolding sc_def using unat_byte_less [of "dscale d"] by linarith
  then have main: "parse_decimal_text ((if unscaled d < 0 then ''-'' else '''') @ ip @
                     (if fp = [] then [] else ''.'' @ fp))
                   = Inr (DecimalVal (if unscaled d < 0 then - \<bar>unscaled d\<bar> else \<bar>unscaled d\<bar>)
                             (word_of_nat (length fp)))"
    using parse_unsigned [OF parts(1-3) _ _ refl] v parts(4) assms by (simp add: dec_ok_def)
  have tx: "decimal_to_text d = (if unscaled d < 0 then ''-'' else '''') @ ip @
               (if fp = [] then [] else ''.'' @ fp)"
  proof (cases "sc = 0")
    case True
    then have "full = ds" "ip = full" "fp = []" by (simp_all add: full_def ip_def fp_def ds_def)
    then show ?thesis using True by (simp add: decimal_to_text_def ds_def sc_def)
  next
    case False
    then have "fp \<noteq> []" using parts(4) by auto
    then show ?thesis using False
      by (simp add: decimal_to_text_def Let_def ip_def fp_def full_def ds_def sc_def)
  qed
  show ?thesis unfolding tx main parts(4) by (cases d) (simp add: sc_def)
qed

theorem parse_decimal_to_text_witness:
  "dec_ok (DecimalVal (- 1250) 4) \<and> parse_decimal_text (decimal_to_text (DecimalVal (- 1250) 4))
     = Inr (DecimalVal (- 1250) 4)"
  using parse_decimal_to_text [of "DecimalVal (- 1250) 4"] by (simp add: dec_ok_def kNumericUnscaledMax_def)

section \<open>Integer text\<close>

lemma takeWhile_digits: "list_all is_digit ds \<Longrightarrow> takeWhile is_digit ds = ds"
  by (simp add: list.pred_set takeWhile_eq_all_conv)

lemma dropWhile_digits: "list_all is_digit ds \<Longrightarrow> dropWhile is_digit ds = []"
  by (simp add: list.pred_set dropWhile_eq_Nil_conv)

lemma nat_text_hd: "is_digit (hd (nat_text n))"
  using nat_text_digits [of n] nat_text_not_Nil [of n] by (cases "nat_text n") auto

lemma from_chars_int_text:
  assumes "INT64_MIN \<le> i" and "i \<le> INT64_MAX"
  shows "from_chars_i64 (int_text i) = Some (word_of_int i, [])"
proof (cases "i < 0")
  case True
  then have "digits_val 0 (nat_text (nat \<bar>i\<bar>)) = - i" by (simp add: digits_val_nat_text)
  then show ?thesis using True assms nat_text_digits [of "nat \<bar>i\<bar>"]
    by (simp add: int_text_def from_chars_i64_def Let_def takeWhile_digits dropWhile_digits)
next
  case False
  then have "digits_val 0 (nat_text (nat i)) = i" by (simp add: digits_val_nat_text)
  moreover have "hd (nat_text (nat i)) \<noteq> CHR ''-''" using nat_text_hd [of "nat i"] by auto
  ultimately show ?thesis using False assms nat_text_digits [of "nat i"]
    by (simp add: int_text_def from_chars_i64_def Let_def takeWhile_digits dropWhile_digits)
qed

lemma sint_range: "INT64_MIN \<le> sint (v :: i64)" "sint v \<le> INT64_MAX"
  using sint_ge [of v] sint_lt [of v] by (simp_all add: INT64_MIN_def INT64_MAX_def)

lemma parse_int_text: "parse_i64 (int_text (sint v)) = Inr v"
proof -
  have "int_text (sint v) \<noteq> []" "hd (int_text (sint v)) \<noteq> CHR ''+''"
    using nat_text_hd [of "nat (sint v)"] by (auto simp: int_text_def)
  then show ?thesis using from_chars_int_text [of "sint v"] sint_range [of v]
    by (simp add: parse_i64_def drop_plus_def)
qed

section \<open>Rounding\<close>

text \<open>Rounding of \<^verbatim>\<open>u / p\<close> to the nearest integer, halves away from zero.\<close>

definition round_away :: "int \<Rightarrow> int \<Rightarrow> int" where
  "round_away u p = sgn u * ((2 * \<bar>u\<bar> + p) div (2 * p))"

lemma pow10_eq: "n \<le> 77 \<Longrightarrow> pow10 n = 10 ^ n"
proof (induction n)
  case 0
  then show ?case by simp
next
  case (Suc n)
  have "(10::int) ^ Suc n \<le> 10 ^ 77" using Suc.prems by (intro power_increasing) auto
  also have "\<dots> < 2 ^ 256" by simp
  finally show ?case using Suc by (simp add: wrap256_id mult.commute)
qed

lemma half_up_div:
  fixes a p :: int
  assumes "0 \<le> a" "0 < p"
  shows "(if a mod p * 2 \<ge> p then a div p + 1 else a div p) = (2 * a + p) div (2 * p)"
proof -
  define q r where "q = a div p" "r = a mod p"
  have a: "a = q * p + r" and r: "0 \<le> r" "r < p"
    using assms by (simp_all add: q_r_def)
  have "2 * a + p = (2 * r + p) + q * (2 * p)" using a by (simp add: algebra_simps)
  then have e: "(2 * a + p) div (2 * p) = q + (2 * r + p) div (2 * p)"
    using assms(2) by (metis div_mult_self1 mult_eq_0_iff not_less_iff_gr_or_eq zero_neq_numeral add.commute)
  have "(2 * r + p) div (2 * p) = (if r * 2 \<ge> p then 1 else 0)"
    using r int_div_pos_eq [of "2 * r + p" "2 * p" 1 "2 * r - p"] by auto
  then show ?thesis using e by (simp add: q_r_def)
qed

lemma round_away_small: "2 * \<bar>u\<bar> < p \<Longrightarrow> round_away u p = 0"
  by (simp add: round_away_def)

text \<open>
  \<^verbatim>\<open>numeric\<close> to integer rounds half away from zero and reports every magnitude above the
  largest \<^verbatim>\<open>int64_t\<close>; the shortcut for scales from 39 on agrees with the rounding.
\<close>

theorem dec_round_i64_correct:
  assumes "dec_ok d"
  shows "dec_round_i64 d =
    (let r = round_away (unscaled d) (10 ^ unat (dscale d))
     in if \<bar>r\<bar> > INT64_MAX then Inl (Raise ValueMismatch) else Inr (word_of_int r))"
proof (cases "dscale d \<ge> 39")
  case True
  then have "39 \<le> unat (dscale d)" by (simp add: word_le_nat_alt)
  then have "(10::int) ^ 39 \<le> 10 ^ unat (dscale d)" by (intro power_increasing) auto
  moreover have "2 * \<bar>unscaled d\<bar> < 10 ^ 39"
    using assms by (simp add: dec_ok_def kNumericUnscaledMax_def)
  ultimately have "round_away (unscaled d) (10 ^ unat (dscale d)) = 0"
    by (intro round_away_small) linarith
  then show ?thesis using True by (simp add: dec_round_i64_def INT64_MAX_def)
next
  case False
  then have "unat (dscale d) \<le> 77" by (simp add: word_le_nat_alt)
  then have p: "pow10 (unat (dscale d)) = 10 ^ unat (dscale d)" by (rule pow10_eq)
  define m where "m = (2 * \<bar>unscaled d\<bar> + 10 ^ unat (dscale d)) div (2 * 10 ^ unat (dscale d))"
  have hm: "(if \<bar>unscaled d\<bar> mod 10 ^ unat (dscale d) * 2 \<ge> 10 ^ unat (dscale d)
             then \<bar>unscaled d\<bar> div 10 ^ unat (dscale d) + 1 else \<bar>unscaled d\<bar> div 10 ^ unat (dscale d)) = m"
    unfolding m_def by (rule half_up_div) simp_all
  have m: "0 \<le> m" by (simp add: m_def div_int_pos_iff)
  have r: "round_away (unscaled d) (10 ^ unat (dscale d)) = sgn (unscaled d) * m"
    by (simp add: round_away_def m_def)
  have z: "unscaled d = 0 \<Longrightarrow> m = 0" by (simp add: m_def)
  have "dec_round_i64 d = (if m > INT64_MAX then Inl (Raise ValueMismatch)
             else Inr (word_of_int (if unscaled d < 0 then - m else m)))"
    unfolding dec_round_i64_def p Let_def hm using False by simp
  then show ?thesis using m z unfolding r by (auto simp: sgn_if abs_mult Let_def INT64_MAX_def)
qed

theorem dec_round_i64_correct_witness:
  "dec_ok (DecimalVal (- 1250) 2) \<and> dec_round_i64 (DecimalVal (- 1250) 2) =
    (let r = round_away (unscaled (DecimalVal (- 1250) 2)) (10 ^ unat (dscale (DecimalVal (- 1250) 2)))
     in if \<bar>r\<bar> > INT64_MAX then Inl (Raise ValueMismatch) else Inr (word_of_int r))"
  using dec_round_i64_correct [of "DecimalVal (- 1250) 2"] by (simp add: dec_ok_def kNumericUnscaledMax_def)

text \<open>
  The least \<^verbatim>\<open>bigint\<close> is the exception at the border: \<^verbatim>\<open>-9223372036854775808\<close> is an
  \<^verbatim>\<open>int64_t\<close>, and the conversion of the numeric with that value is refused.
\<close>

theorem dec_round_i64_rejects_min: "dec_round_i64 (DecimalVal INT64_MIN 0) = Inl (Raise ValueMismatch)"
  by (simp add: dec_round_i64_def INT64_MIN_def INT64_MAX_def)

lemma tdiv_pos: "0 < p \<Longrightarrow> tdiv u p = sgn u * (\<bar>u\<bar> div p)"
  by (simp add: tdiv_def)

lemma shrink_scale_value:
  assumes "k \<le> 77"
  shows "shrink_scale k u =
    (if - (10 ^ k) < u \<and> 2 * u \<le> - (10 ^ k) then 1 else round_away u (10 ^ k))"
proof -
  define p where "p = (10::int) ^ k"
  have p: "0 < p" "pow10 k = p" using assms by (simp_all add: p_def pow10_eq)
  define q r where "q = \<bar>u\<bar> div p" "r = \<bar>u\<bar> mod p"
  have u: "\<bar>u\<bar> = q * p + r" "0 \<le> r" "r < p" "0 \<le> q" using p by (simp_all add: q_r_def pos_imp_zdiv_nonneg_iff)
  have s: "shrink_scale k u = (if r * 2 \<ge> p then sgn u * q + (if sgn u * q < 0 then -1 else 1) else sgn u * q)"
  proof (cases "u = 0")
    case True
    then show ?thesis using p by (simp add: shrink_scale_def tmod_def tdiv_def q_r_def)
  next
    case False
    then have "\<bar>sgn u * r\<bar> = r" using u(2) by (simp add: abs_mult abs_sgn_eq)
    then show ?thesis using p by (simp add: shrink_scale_def tmod_def tdiv_def q_r_def [symmetric] Let_def)
  qed
  have ra: "round_away u p = sgn u * (if r * 2 \<ge> p then q + 1 else q)"
    unfolding round_away_def q_r_def by (subst half_up_div [symmetric]) (use p in simp_all)
  consider "u = 0" | "u > 0" | "u < 0" "q = 0" | "u < 0" "q > 0" using u(4) by linarith
  then show ?thesis
  proof cases
    case 1
    then have "q = 0" "r = 0" by (simp_all add: q_r_def)
    then show ?thesis using 1 p s ra unfolding p_def by simp
  next
    case 2
    then show ?thesis using u p s ra unfolding p_def [symmetric] by (auto simp: not_less)
  next
    case 3
    then show ?thesis using u p s ra unfolding p_def [symmetric] by auto
  next
    case 4
    then have "p \<le> q * p" using p by simp
    then have "\<not> - p < u" using 4 u by linarith
    moreover have "sgn u * q < 0" using 4 by simp
    ultimately show ?thesis using 4 s ra unfolding p_def [symmetric] by simp
  qed
qed

lemma grow_scale_value:
  "grow_scale k u = (if u \<noteq> 0 \<and> k > 0 \<and> \<bar>u * 10 ^ k\<bar> \<ge> kNumericUnscaledMax then Inl (Raise ValueMismatch)
                     else Inr (u * 10 ^ k))"
proof (induction k arbitrary: u)
  case 0
  then show ?case by simp
next
  case (Suc k)
  have "1 * \<bar>u * 10\<bar> \<le> 10 ^ k * \<bar>u * 10\<bar>" by (intro mult_right_mono) auto
  then have m: "\<bar>u * 10\<bar> \<le> \<bar>u * 10 * 10 ^ k\<bar>" by (simp add: abs_mult mult_ac)
  have e: "u * 10 ^ Suc k = u * 10 * 10 ^ k" by simp
  show ?case
  proof (cases "k = 0")
    case True
    then show ?thesis by simp
  next
    case False
    then show ?thesis using Suc [of "u * 10"] m unfolding e by (auto simp: Let_def)
  qed
qed

lemma digit_count_le: "digit_count m \<le> n \<longleftrightarrow> m < 10 ^ n"
proof (induction n arbitrary: m)
  case 0
  then show ?case by (simp add: digit_count.simps [of m])
next
  case (Suc n)
  have "m div 10 < 10 ^ n \<longleftrightarrow> m < 10 ^ Suc n" by (simp add: less_mult_imp_div_less div_less_iff_less_mult mult.commute)
  then show ?case using Suc [of "m div 10"] by (simp add: digit_count.simps [of m])
qed

text \<open>The unscaled integer \<^verbatim>\<open>coerce_numeric\<close> computes from a decimal: what the code does at each scale change.\<close>

definition rescaled :: "decimal_val \<Rightarrow> u8 \<Rightarrow> int" where
  "rescaled d sc =
    (let k = unat (dscale d) - unat sc
     in if dscale d > sc
        then (if - (10 ^ k) < unscaled d \<and> 2 * unscaled d \<le> - (10 ^ k) then 1
              else round_away (unscaled d) (10 ^ k))
        else unscaled d * 10 ^ (unat sc - unat (dscale d)))"

text \<open>
  C36. \<^verbatim>\<open>coerce_numeric\<close> on a numeric whose scale exceeds the target's by at most 77 digits: it
  reports a value that no longer fits 38 digits or the declared precision, and otherwise returns
  the value rounded half away from zero, except in the interval from minus one half (included)
  to minus one (excluded) units of the last place, where it returns plus one.
\<close>

theorem coerce_numeric_value:
  assumes "attr_rep (vtype v) = RepDec" and "attr_rep to = RepDec" and "vbox v = BDec d" and "dec_ok d"
    and "unat (dscale d) - unat sc \<le> 77"
  shows "coerce_numeric v to precision sc mode =
    (if (dscale d < sc \<and> \<bar>rescaled d sc\<bar> \<ge> kNumericUnscaledMax)
        \<or> (precision > 0 \<and> \<bar>rescaled d sc\<bar> \<ge> 10 ^ unat precision)
     then Inl (Raise ValueMismatch) else Inr (numeric_val to (rescaled d sc) sc))"
proof -
  have c: "cast_value v to mode = Inr (Value to (BDec d))"
    using assms(1-3) by (simp add: cast_value_def value_is_null_def cast_tier_def restamp_def)
  have dig: "digit_count (nat \<bar>u\<bar>) > unat precision \<longleftrightarrow> \<bar>u\<bar> \<ge> 10 ^ unat precision" for u
    using digit_count_le [of "nat \<bar>u\<bar>" "unat precision"] by (auto simp: nat_less_iff not_le not_less)
  show ?thesis
  proof (cases "dscale d > sc")
    case True
    then have "\<not> dscale d < sc" by simp
    then show ?thesis using True shrink_scale_value [OF assms(5), of "unscaled d"]
      by (simp add: coerce_numeric_def c rescaled_def dig Let_def)
  next
    case False
    have z: "dscale d < sc \<longleftrightarrow> 0 < unat sc - unat (dscale d)" by (simp add: word_less_nat_alt)
    have m: "\<bar>0 :: int\<bar> < kNumericUnscaledMax" by (simp add: kNumericUnscaledMax_def)
    show ?thesis using False m
      by (auto simp: coerce_numeric_def c rescaled_def dig grow_scale_value z)
  qed
qed

theorem coerce_numeric_value_witness:
  "coerce_numeric (numeric_val kNumeric (- 1255) 3) kNumeric 5 2 Implicit = Inr (numeric_val kNumeric (- 126) 2)"
  using coerce_numeric_value [of "numeric_val kNumeric (- 1255) 3" kNumeric "DecimalVal (- 1255) 3" 2 5 Implicit]
  by (simp add: value_factories seed_attr_defs dec_ok_def kNumericUnscaledMax_def rescaled_def round_away_def)

text \<open>
  Rounding \<^verbatim>\<open>-0.6\<close> to scale 0 gives \<^verbatim>\<open>1\<close>: the sign test of the carry looks at the truncated
  quotient, which is zero, instead of the value.
\<close>

theorem coerce_numeric_sign_flip:
  "coerce_numeric (numeric_val kNumeric (- 6) 1) kNumeric 0 0 Implicit = Inr (numeric_val kNumeric 1 0)"
  by (simp add: coerce_numeric_def cast_value_def value_is_null_def value_factories seed_attr_defs
      cast_tier_def restamp_def shrink_scale_def tdiv_def tmod_def wrap256_def)

section \<open>Typing of casts\<close>

lemma take_digits_bound:
  assumes "take_digits frac s u sc any = Inr (s', u', sc', any')" and "0 \<le> u" "u < kNumericUnscaledMax"
  shows "0 \<le> u' \<and> u' < kNumericUnscaledMax"
  using assms
proof (induction s arbitrary: u sc any)
  case Nil
  then show ?case by simp
next
  case (Cons c s)
  then show ?case using digit_val_nonneg [of c] by (auto simp: Let_def not_le split: if_splits)
qed

lemma scale_up_bound:
  assumes "scale_up k u = Inr u'" and "0 \<le> u" "u < kNumericUnscaledMax"
  shows "0 \<le> u' \<and> u' < kNumericUnscaledMax"
  using assms by (induction k arbitrary: u) (auto simp: Let_def not_le split: if_splits)

lemma scale_up_abs:
  "scale_up k u = Inr u' \<Longrightarrow> 0 \<le> u \<Longrightarrow> u < kNumericUnscaledMax \<Longrightarrow> \<bar>u'\<bar> < kNumericUnscaledMax"
  using scale_up_bound [of k u u'] by simp

definition res_all :: "('a \<Rightarrow> bool) \<Rightarrow> 'a res \<Rightarrow> bool" where
  "res_all P r \<longleftrightarrow> (\<forall>x. r = Inr x \<longrightarrow> P x)"

lemma res_all_simps [simp]: "res_all P (Inl e)" "res_all P (Inr x) \<longleftrightarrow> P x"
  by (simp_all add: res_all_def)

lemma res_all_rbind: "(\<And>x. m = Inr x \<Longrightarrow> res_all P (f x)) \<Longrightarrow> res_all P (rbind m f)"
  by (cases m) auto

lemma parse_decimal_body_ok: "res_all dec_ok (parse_decimal_body neg t)"
proof -
  have m: "0 < kNumericUnscaledMax" by (simp add: kNumericUnscaledMax_def)
  have second: "0 \<le> u \<and> u < kNumericUnscaledMax"
    if "take_digits False t 0 0 False = Inr (s1, u1, sc1, a1)"
      "(if s1 \<noteq> [] \<and> hd s1 = CHR ''.'' then take_digits True (tl s1) u1 sc1 a1
        else Inr (s1, u1, sc1, a1)) = Inr (s2, u, sc, a)" for s1 u1 sc1 a1 s2 u sc a
    using that m take_digits_bound [OF that(1)] take_digits_bound [of True "tl s1" u1 sc1 a1 s2 u sc a]
    by (auto split: if_splits)
  show ?thesis unfolding parse_decimal_body_def Let_def
    by (intro res_all_rbind, clarsimp simp only: prod.case split: prod.split)
       (intro res_all_rbind, clarsimp simp only: prod.case split: prod.split,
        drule (1) second, auto intro!: res_all_rbind simp: dec_ok_def, (erule (2) scale_up_abs)+)
qed

lemma parse_decimal_text_ok: "parse_decimal_text s = Inr d \<Longrightarrow> dec_ok d"
  using parse_decimal_body_ok unfolding parse_decimal_text_def Let_def res_all_def by blast

text \<open>A conversion ends in a value of the target type or in the user-visible mismatch error.\<close>

definition cast_result :: "type_attr \<Rightarrow> dbvalue res \<Rightarrow> bool" where
  "cast_result to r \<longleftrightarrow>
    (case r of Inl e \<Rightarrow> e = Raise ValueMismatch
     | Inr x \<Rightarrow> vtype x = to \<and> vbox x \<noteq> BNull \<and> box_typed (attr_rep to) (vbox x))"

definition mismatch_only :: "'a res \<Rightarrow> bool" where
  "mismatch_only r \<longleftrightarrow> (\<forall>e. r = Inl e \<longrightarrow> e = Raise ValueMismatch)"

named_theorems cast_intros \<open>each conversion ends in a value of its target type\<close>

lemma cast_result_mismatch [simp]: "cast_result to (Inl e) \<longleftrightarrow> e = Raise ValueMismatch"
  by (simp add: cast_result_def)

lemma cast_result_value [simp]:
  "cast_result to (Inr (Value t b)) \<longleftrightarrow> t = to \<and> b \<noteq> BNull \<and> box_typed (attr_rep to) b"
  by (simp add: cast_result_def)

lemma cast_result_rbind:
  "mismatch_only m \<Longrightarrow> (\<And>x. m = Inr x \<Longrightarrow> cast_result to (f x)) \<Longrightarrow> cast_result to (rbind m f)"
  by (cases m) (auto simp: mismatch_only_def)

lemma mismatch_only_simps [simp]: "mismatch_only (Inr x)" "mismatch_only (Inl e) \<longleftrightarrow> e = Raise ValueMismatch"
  by (simp_all add: mismatch_only_def)

lemma mismatch_only_rbind:
  "mismatch_only m \<Longrightarrow> (\<And>x. m = Inr x \<Longrightarrow> mismatch_only (f x)) \<Longrightarrow> mismatch_only (rbind m f)"
  by (cases m) (auto simp: mismatch_only_def)

lemma mismatch_only_take_digits: "mismatch_only (take_digits frac s u sc any)"
  by (induction s arbitrary: u sc any) (auto simp: Let_def)

lemma mismatch_only_take_exp: "mismatch_only (take_exp s e any)"
  by (induction s arbitrary: e any) (auto simp: Let_def)

lemma mismatch_only_scale_up: "mismatch_only (scale_up k u)"
  by (induction k arbitrary: u) (auto simp: Let_def)

lemma mismatch_only_parsers:
  "mismatch_only (parse_i64 s)" "mismatch_only (parse_f64 s)" "mismatch_only (narrow_f32 d)"
  "mismatch_only (trunc_to_i64 d)" "mismatch_only (dec_round_i64 x)" "mismatch_only (parse_bool s)"
  "mismatch_only (dec_to_f64_raw x)"
  by (auto simp: parse_i64_def parse_f64_def narrow_f32_def trunc_to_i64_def dec_round_i64_def
      parse_bool_def dec_to_f64_raw_def Let_def split: option.splits)

lemma mismatch_only_parse_decimal: "mismatch_only (parse_decimal_text s)"
proof -
  have "mismatch_only (parse_exponent t)" for t
    unfolding parse_exponent_def Let_def
    by (auto intro!: mismatch_only_rbind mismatch_only_take_exp)
  then have "mismatch_only (parse_decimal_body neg t)" for neg t
    unfolding parse_decimal_body_def Let_def
    by (auto intro!: mismatch_only_rbind mismatch_only_take_digits mismatch_only_scale_up)
  then show ?thesis by (simp add: parse_decimal_text_def Let_def)
qed

lemma dec_ok_small: "\<bar>u\<bar> \<le> 2 ^ 63 \<Longrightarrow> dec_ok (DecimalVal u s)"
  by (simp add: dec_ok_def kNumericUnscaledMax_def)

lemma dec_ok_sint: "dec_ok (DecimalVal (sint (i :: i64)) s)"
  using sint_range [of i] by (intro dec_ok_small) (simp add: INT64_MIN_def INT64_MAX_def)

lemma dec_ok_eta: "dec_ok d \<Longrightarrow> dec_ok (DecimalVal (unscaled d) (dscale d))"
  by simp

lemmas cast_fn_defs = restamp_def i64_restamp_def i64_to_f32_v_def i64_to_f64_v_def f64_to_f32_v_def
  f32_to_f64_v_def text_to_text_def i64_to_text_def f32_to_text_def f64_to_text_def bool_to_text_def
  bool_to_i64_def bool_to_f32_def bool_to_f64_def bool_to_dec_def i64_to_bool_def f32_to_bool_def
  f64_to_bool_def dec_to_bool_def text_to_bool_def text_to_i64_def text_to_f64_def text_to_f32_def
  f64_to_i64_def f32_to_i64_def i64_to_dec_def f64_to_dec_def f32_to_dec_def text_to_dec_def
  dec_to_i64_def dec_to_f64_def dec_to_f32_def dec_to_text_def

lemmas cast_rules = cast_result_rbind mismatch_only_parsers mismatch_only_parse_decimal
  mismatch_only_rbind

text \<open>One lemma per source representation: every entry of its row of the table.\<close>

lemma text_view_str: "\<exists>s'. text_view (Value t (BStr s)) = Inr s'"
  by (simp add: text_view_def get_char_view_def)

lemma cast_row_int:
  assumes "kCastTable RepInt64 r = Some (f, tier)" and "attr_rep to = r"
  shows "cast_result to (f (Value t (BInt64 i)) to)"
  using assms by (cases r)
    (auto simp: cast_fn_defs value_factories box_typed_def dec_ok_sint intro!: cast_rules)

lemma cast_row_float:
  assumes "kCastTable RepFloat r = Some (f, tier)" and "attr_rep to = r"
  shows "cast_result to (f (Value t (BFloat i)) to)"
  using assms by (cases r)
    (auto simp: cast_fn_defs value_factories box_typed_def parse_decimal_text_ok intro!: cast_rules)

lemma cast_row_double:
  assumes "kCastTable RepDouble r = Some (f, tier)" and "attr_rep to = r"
  shows "cast_result to (f (Value t (BDouble i)) to)"
  using assms by (cases r)
    (auto simp: cast_fn_defs value_factories box_typed_def parse_decimal_text_ok intro!: cast_rules)

lemma cast_row_str:
  assumes "kCastTable RepStr r = Some (f, tier)" and "attr_rep to = r"
  shows "cast_result to (f (Value t (BStr s)) to)"
proof -
  obtain s' where "text_view (Value t (BStr s)) = Inr s'" using text_view_str by blast
  then show ?thesis using assms by (cases r)
    (auto simp: cast_fn_defs get_char_view_def value_factories box_typed_def parse_decimal_text_ok
       intro!: cast_rules)
qed

lemma cast_row_bool:
  assumes "kCastTable RepBool r = Some (f, tier)" and "attr_rep to = r"
  shows "cast_result to (f (Value t (BBool b)) to)"
  using assms by (cases r)
    (auto simp: cast_fn_defs value_factories box_typed_def intro!: cast_rules dec_ok_small)

lemma cast_row_dec:
  assumes "kCastTable RepDec r = Some (f, tier)" and "attr_rep to = r" and "dec_ok d"
  shows "cast_result to (f (Value t (BDec d)) to)"
  using assms by (cases r)
    (auto simp: cast_fn_defs value_factories box_typed_def intro!: cast_rules)

definition cast_allowed :: "type_attr \<Rightarrow> type_attr \<Rightarrow> cast_mode \<Rightarrow> bool" where
  "cast_allowed from to mode =
    (case kCastTable (attr_rep from) (attr_rep to) of
       None \<Rightarrow> False
     | Some (fn, tier) \<Rightarrow> mode_level (cast_tier from to tier) \<le> mode_level mode)"

lemma cast_value_allowed:
  assumes "box_typed (attr_rep (vtype v)) (vbox v)" and "vbox v \<noteq> BNull" and "cast_allowed (vtype v) to mode"
  shows "cast_result to (cast_value v to mode)"
proof -
  from assms(3) obtain fn tier where e: "kCastTable (attr_rep (vtype v)) (attr_rep to) = Some (fn, tier)"
    and l: "mode_level (cast_tier (vtype v) to tier) \<le> mode_level mode"
    by (auto simp: cast_allowed_def split: option.splits)
  obtain t b where v: "v = Value t b" by (cases v)
  have "cast_result to (fn v to)"
    using assms e unfolding v
    by (cases b; cases "attr_rep t")
       (auto simp: box_typed_def intro: cast_row_int cast_row_float cast_row_double cast_row_str
          cast_row_bool cast_row_dec)
  moreover have "cast_value v to mode = fn v to"
    using assms(2) e l by (simp add: cast_value_def value_is_null_def)
  ultimately show ?thesis by simp
qed

text \<open>
  \<^verbatim>\<open>cast_value\<close> on a well-formed value: when the table has an entry at the caller's tier the
  result is a non-NULL value of the target type or the mismatch error, never an internal error;
  when it has none, and on NULL, the result is the internal error.
\<close>

theorem cast_value_typed:
  assumes "box_typed (attr_rep (vtype v)) (vbox v)"
  shows "if vbox v \<noteq> BNull \<and> cast_allowed (vtype v) to mode
         then cast_result to (cast_value v to mode)
         else cast_value v to mode = Inl (Raise Internal)"
proof (cases "vbox v \<noteq> BNull \<and> cast_allowed (vtype v) to mode")
  case False
  then show ?thesis by (auto simp: cast_value_def value_is_null_def cast_allowed_def split: option.splits)
next
  case True
  then show ?thesis using cast_value_allowed [OF assms] by simp
qed

theorem cast_value_typed_witness:
  "if vbox (str_val kVarChar ''-12'') \<noteq> BNull \<and> cast_allowed (vtype (str_val kVarChar ''-12'')) kInt Explicit
   then cast_result kInt (cast_value (str_val kVarChar ''-12'') kInt Explicit)
   else cast_value (str_val kVarChar ''-12'') kInt Explicit = Inl (Raise Internal)"
  by (rule cast_value_typed) (simp add: str_val_def seed_attr_defs box_typed_def)

text \<open>
  Printing and reading back an integer through the table, and promoting it to \<^verbatim>\<open>numeric\<close> and
  rounding it back, are the identity on every \<^verbatim>\<open>int64_t\<close> but the least one, which the second
  path refuses.
\<close>

theorem cast_int_roundtrips:
  "rbind (cast_value (int_val kBigint i) kVarChar Explicit) (\<lambda>s. cast_value s kBigint Explicit)
     = Inr (int_val kBigint i)
   \<and> rbind (cast_value (int_val kBigint i) kNumeric Implicit) (\<lambda>d. cast_value d kBigint Explicit)
     = (if sint i = INT64_MIN then Inl (Raise ValueMismatch) else Inr (int_val kBigint i))"
proof -
  have d: "dec_round_i64 (DecimalVal (sint i) 0)
             = (if sint i = INT64_MIN then Inl (Raise ValueMismatch) else Inr i)"
    using sint_range [of i] by (auto simp: dec_round_i64_def INT64_MIN_def INT64_MAX_def Let_def)
  have 1: "cast_value (int_val kBigint i) kVarChar Explicit = Inr (str_val kVarChar (int_text (sint i)))"
    by (simp add: cast_value_def value_is_null_def value_factories seed_attr_defs cast_tier_def i64_to_text_def)
  have 2: "cast_value (str_val kVarChar (int_text (sint i))) kBigint Explicit = Inr (int_val kBigint i)"
    by (simp add: cast_value_def value_is_null_def value_factories seed_attr_defs cast_tier_def
        text_to_i64_def text_view_def parse_int_text)
  show ?thesis using d unfolding 1 rbind_Inr 2
    by (simp add: cast_value_def value_is_null_def value_factories seed_attr_defs cast_tier_def
        i64_to_dec_def dec_to_i64_def)
qed

end
