(* ===== verification/Expr.thy ===== *)
theory Expr
  imports Cast Complex_Main
begin

text \<open>
  Bound expressions (src/analyzer/bound_expr.h) and their evaluation (src/expr): value access,
  exact decimal arithmetic and comparison, the built-in functions, the evaluator with SQL's
  three-valued logic, and the three-way comparison that sorting and indexes share. Shown: exact
  decimal comparison, addition, multiplication and division; laws of the three-way comparison;
  typing of the built-in functions; \<^verbatim>\<open>NULL\<close> handling of the evaluator.
\<close>

section \<open>Bound expressions\<close>

datatype cmp_op = CmpEq | CmpNe | CmpLt | CmpLe | CmpGt | CmpGe

datatype logic_op = LogicAnd | LogicOr

datatype bound_expr =
    BoundConst dbvalue
  | BoundColRef nat type_attr
  | BoundArith char type_attr bound_expr bound_expr
  | BoundNeg type_attr bound_expr
  | BoundCmp cmp_op bound_expr bound_expr
  | BoundLogic logic_op bound_expr bound_expr
  | BoundNot bound_expr
  | BoundIsNull bound_expr bool
  | BoundFuncCall u64 string bool type_attr "bound_expr list"
  | BoundCast type_attr u16 u8 bound_expr

section \<open>Value access\<close>

text \<open>\<^verbatim>\<open>std::get\<close> on the wrong alternative throws an exception that is not a database error.\<close>

definition to_double :: "dbvalue \<Rightarrow> type_attr \<Rightarrow> f64 res" where
  "to_double v to = rbind (cast_value v to Implicit)
     (\<lambda>x. case vbox x of BDouble d \<Rightarrow> Inr d | _ \<Rightarrow> Inl Crash)"

definition to_float :: "dbvalue \<Rightarrow> type_attr \<Rightarrow> f32 res" where
  "to_float v to = rbind (cast_value v to Implicit)
     (\<lambda>x. case vbox x of BFloat f \<Rightarrow> Inr f | _ \<Rightarrow> Inl Crash)"

definition get_int :: "dbvalue \<Rightarrow> type_attr \<Rightarrow> i64 res" where
  "get_int v domain = rbind (cast_value v domain Implicit)
     (\<lambda>x. case vbox x of BInt64 i \<Rightarrow> Inr i | _ \<Rightarrow> Inl Crash)"

definition box_f64 :: "dbvalue \<Rightarrow> f64 res" where
  "box_f64 v = rbind (cast_value v kDouble Implicit)
     (\<lambda>x. case vbox x of BDouble d \<Rightarrow> Inr d | _ \<Rightarrow> Inl Crash)"

definition to_numeric :: "dbvalue \<Rightarrow> type_attr \<Rightarrow> decimal_val res" where
  "to_numeric v to = rbind (cast_value v to Implicit)
     (\<lambda>x. case vbox x of BDec d \<Rightarrow> Inr d | _ \<Rightarrow> Inl Crash)"

section \<open>Decimal arithmetic\<close>

fun dec_align_loop :: "nat \<Rightarrow> int \<Rightarrow> int res" where
  "dec_align_loop 0 u = Inr u"
| "dec_align_loop (Suc k) u =
     (let u' = u * 10
      in if u' \<noteq> 0 \<and> \<bar>u'\<bar> \<ge> kNumericUnscaledMax then Inl (Raise ArithError) else dec_align_loop k u')"

definition dec_align :: "int \<Rightarrow> u8 \<Rightarrow> u8 \<Rightarrow> int res" where
  "dec_align u from to = dec_align_loop (unat to - unat from) u"

text \<open>Long division: \<^verbatim>\<open>t\<close> more digits of the quotient, given up when the next digit cannot fit.\<close>

fun dec_div_loop :: "nat \<Rightarrow> int \<Rightarrow> int \<Rightarrow> int \<Rightarrow> (int \<times> int) res" where
  "dec_div_loop 0 ub q rem = Inr (q, rem)"
| "dec_div_loop (Suc t) ub q rem =
     (if q \<ge> kNumericUnscaledMax div 10 then Inl (Raise ArithError)
      else dec_div_loop t ub (q * 10 + rem * 10 div ub) (rem * 10 mod ub))"

definition dec_div :: "decimal_val \<Rightarrow> decimal_val \<Rightarrow> u8 \<Rightarrow> int res" where
  "dec_div l r rscale =
    (if unscaled r = 0 then Inl (Raise ArithError)
     else let neg = ((unscaled l < 0) \<noteq> (unscaled r < 0));
              ua = \<bar>unscaled l\<bar>; ub = \<bar>unscaled r\<bar>;
              t = int (unat rscale) + int (unat (dscale r)) - int (unat (dscale l))
          in if t < 0 then Inl (Raise Internal)
             else rbind (dec_div_loop (nat t) ub (ua div ub) (ua mod ub)) (\<lambda>(q, rem).
               let q' = (if rem * 2 \<ge> ub then q + 1 else q)
               in if q' \<ge> kNumericUnscaledMax then Inl (Raise ArithError)
                  else Inr (if neg then - q' else q')))"

definition dec_result_scale :: "char \<Rightarrow> decimal_val \<Rightarrow> decimal_val \<Rightarrow> u8 res" where
  "dec_result_scale op l r =
    (let hi = max (unat (dscale l)) (unat (dscale r));
         s = (if op = CHR ''+'' \<or> op = CHR ''-'' then hi
              else if op = CHR ''*'' then unat (dscale l) + unat (dscale r)
              else min (hi + 4) 255)
     in if s > 255 then Inl (Raise ArithError) else Inr (word_of_nat s))"

definition dec_bounded :: "int \<Rightarrow> int res" where
  "dec_bounded out = (if \<bar>out\<bar> \<ge> kNumericUnscaledMax then Inl (Raise ArithError) else Inr out)"

definition dec_arith :: "char \<Rightarrow> decimal_val \<Rightarrow> decimal_val \<Rightarrow> u8 \<Rightarrow> int res" where
  "dec_arith op l r rscale =
    (if op = CHR ''+'' \<or> op = CHR ''-'' then
       rbind (dec_align (unscaled l) (dscale l) rscale) (\<lambda>lu.
       rbind (dec_align (unscaled r) (dscale r) rscale) (\<lambda>ru.
         dec_bounded (if op = CHR ''+'' then lu + ru else lu - ru)))
     else if op = CHR ''*'' then dec_bounded (wrap256 (unscaled l * unscaled r))
     else if op = CHR ''/'' then dec_div l r rscale
     else dec_bounded 0)"

definition dec_digits :: "int \<Rightarrow> nat" where
  "dec_digits u = digit_count (nat u)"

definition dec_cmp :: "decimal_val \<Rightarrow> decimal_val \<Rightarrow> int" where
  "dec_cmp a b =
    (let an = (unscaled a < 0); bn = (unscaled b < 0); az = (unscaled a = 0); bz = (unscaled b = 0) in
     if az \<or> bz then (if az \<and> bz then 0 else if az then (if bn then 1 else -1) else (if an then -1 else 1))
     else if an \<noteq> bn then (if an then -1 else 1)
     else let ua = \<bar>unscaled a\<bar>; ub = \<bar>unscaled b\<bar>;
              ea = int (dec_digits ua) - int (unat (dscale a));
              eb = int (dec_digits ub) - int (unat (dscale b))
          in if ea \<noteq> eb then (if (if an then \<not> ea < eb else ea < eb) then -1 else 1)
             else let mb = (if dscale a > dscale b then ub * 10 ^ (unat (dscale a) - unat (dscale b)) else ub);
                      ma = (if dscale a > dscale b then ua else ua * 10 ^ (unat (dscale b) - unat (dscale a)))
                  in if ma = mb then 0 else if (if an then \<not> ma < mb else ma < mb) then -1 else 1)"

section \<open>Three-way comparison\<close>

definition rtrim_space :: "string \<Rightarrow> string" where
  "rtrim_space s = rev (dropWhile (\<lambda>c. c = CHR '' '') (rev s))"

text \<open>The sign of \<^verbatim>\<open>string_view::compare\<close>: lexicographic on bytes, a proper prefix first.\<close>

fun str_compare :: "string \<Rightarrow> string \<Rightarrow> int" where
  "str_compare [] [] = 0"
| "str_compare [] (y # ys) = -1"
| "str_compare (x # xs) [] = 1"
| "str_compare (x # xs) (y # ys) = (if x < y then -1 else if y < x then 1 else str_compare xs ys)"

definition i64_cmp :: "i64 \<Rightarrow> i64 \<Rightarrow> int" where
  "i64_cmp l r = (if sint l < sint r then -1 else if sint l > sint r then 1 else 0)"

definition f64_cmp :: "f64 \<Rightarrow> f64 \<Rightarrow> int" where
  "f64_cmp l r = (if fp_lt F64 l r then -1 else if fp_lt F64 r l then 1 else 0)"

definition num_cmp :: "dbvalue \<Rightarrow> dbvalue \<Rightarrow> int res" where
  "num_cmp a b =
    (case (vbox a, vbox b) of
       (BInt64 l, BInt64 r) \<Rightarrow> Inr (i64_cmp l r)
     | (BDec l, BDec r) \<Rightarrow> Inr (dec_cmp l r)
     | (BDec l, BInt64 r) \<Rightarrow> Inr (dec_cmp l (DecimalVal (sint r) 0))
     | (BInt64 l, BDec r) \<Rightarrow> Inr (dec_cmp (DecimalVal (sint l) 0) r)
     | _ \<Rightarrow> rbind (box_f64 a) (\<lambda>l. rbind (box_f64 b) (\<lambda>r. Inr (f64_cmp l r))))"

definition text_key :: "type_attr \<Rightarrow> string \<Rightarrow> string" where
  "text_key t s = (if attr_store t = StoreCharPad then rtrim_space s else s)"

definition value_cmp :: "dbvalue \<Rightarrow> dbvalue \<Rightarrow> int res" where
  "value_cmp a b =
    (let an = value_is_null a; bn = value_is_null b in
     if an \<or> bn then Inr (if an \<and> bn then 0 else if an then 1 else -1)
     else case attr_family (vtype a) of
       FamNum \<Rightarrow> if attr_family (vtype b) \<noteq> FamNum then Inl (Raise Internal) else num_cmp a b
     | FamText \<Rightarrow>
         if attr_family (vtype b) \<noteq> FamText then Inl (Raise Internal)
         else (case (vbox a, vbox b) of
                 (BStr ls, BStr rs) \<Rightarrow> Inr (str_compare (text_key (vtype a) ls) (text_key (vtype b) rs))
               | _ \<Rightarrow> Inl (Raise Internal))
     | FamBool \<Rightarrow>
         if attr_family (vtype b) \<noteq> FamBool then Inl (Raise Internal)
         else (case (vbox a, vbox b) of
                 (BBool l, BBool r) \<Rightarrow> Inr (if l = r then 0 else if l then 1 else -1)
               | _ \<Rightarrow> Inl (Raise Internal))
     | FamNone \<Rightarrow> Inl (Raise Internal))"

section \<open>Built-in functions\<close>

definition dec_pow10 :: "int \<Rightarrow> int res" where
  "dec_pow10 e = (if e < 0 \<or> e > 38 then Inl (Raise Internal) else Inr (10 ^ nat e))"

definition round_dec :: "decimal_val \<Rightarrow> int \<Rightarrow> type_attr \<Rightarrow> dbvalue res" where
  "round_dec d n ret =
    (if n \<ge> int (unat (dscale d)) then Inr (numeric_val ret (unscaled d) (dscale d))
     else let neg = (unscaled d < 0); ua = \<bar>unscaled d\<bar>; shift = int (unat (dscale d)) - n
          in rbind (if shift < 39 then
                      rbind (dec_pow10 shift) (\<lambda>p.
                        let q = (if ua mod p * 2 \<ge> p then ua div p + 1 else ua div p)
                        in if n < 0 then rbind (dec_pow10 (- n)) (\<lambda>m. Inr (q * m)) else Inr q)
                    else Inr 0) (\<lambda>q.
               if q \<ge> kNumericUnscaledMax then Inl (Raise ArithError)
               else Inr (numeric_val ret (if neg then - q else q) (if n < 0 then 0 else word_of_int n))))"

definition trunc_dec :: "decimal_val \<Rightarrow> bool \<Rightarrow> type_attr \<Rightarrow> dbvalue res" where
  "trunc_dec d up ret =
    (let neg = (unscaled d < 0) in
     if dscale d = 0 then Inr (numeric_val ret (unscaled d) 0)
     else if dscale d \<ge> 39 then
       Inr (numeric_val ret (if unscaled d = 0 then 0
                             else if up then (if neg then 0 else 1) else (if neg then -1 else 0)) 0)
     else rbind (dec_pow10 (int (unat (dscale d)))) (\<lambda>p.
       let ua = \<bar>unscaled d\<bar>;
           q = (if ua mod p \<noteq> 0 \<and> up \<noteq> neg then ua div p + 1 else ua div p)
       in Inr (numeric_val ret (if neg then - q else q) 0)))"

definition nth_arg :: "nat \<Rightarrow> dbvalue list \<Rightarrow> dbvalue res" where
  "nth_arg n args = (if n < length args then Inr (args ! n) else Inl Crash)"

definition i64_arg :: "nat \<Rightarrow> dbvalue list \<Rightarrow> i64 res" where
  "i64_arg n args = rbind (nth_arg n args) get_i64"

definition f64_arg :: "nat \<Rightarrow> dbvalue list \<Rightarrow> f64 res" where
  "f64_arg n args = rbind (nth_arg n args) get_f64"

definition f32_arg :: "nat \<Rightarrow> dbvalue list \<Rightarrow> f32 res" where
  "f32_arg n args = rbind (nth_arg n args) get_f32"

definition dec_arg :: "nat \<Rightarrow> dbvalue list \<Rightarrow> decimal_val res" where
  "dec_arg n args = rbind (nth_arg n args) get_dec"

type_synonym func_eval = "dbvalue list \<Rightarrow> type_attr \<Rightarrow> dbvalue res"

definition eval_abs_int :: func_eval where
  "eval_abs_int args ret = rbind (i64_arg 0 args) (\<lambda>i.
     if sint i = INT32_MIN then Inl (Raise ArithError)
     else Inr (int_val ret (if sint i < 0 then - i else i)))"

definition eval_abs_bigint :: func_eval where
  "eval_abs_bigint args ret = rbind (i64_arg 0 args) (\<lambda>i.
     if sint i = INT64_MIN then Inl (Raise ArithError)
     else Inr (int_val ret (if sint i < 0 then - i else i)))"

definition eval_abs_double :: func_eval where
  "eval_abs_double args ret = rbind (f64_arg 0 args) (\<lambda>d. Inr (double_val ret (fp_abs F64 d)))"

definition eval_abs_float :: func_eval where
  "eval_abs_float args ret = rbind (f32_arg 0 args) (\<lambda>f. Inr (float_val ret (fp_abs F32 f)))"

definition eval_abs_numeric :: func_eval where
  "eval_abs_numeric args ret = rbind (dec_arg 0 args) (\<lambda>d.
     Inr (numeric_val ret (if unscaled d < 0 then - unscaled d else unscaled d) (dscale d)))"

definition eval_round_int :: func_eval where
  "eval_round_int args ret = rbind (i64_arg 0 args) (\<lambda>i. Inr (int_val ret i))"

definition eval_round_bigint :: func_eval where
  "eval_round_bigint args ret = rbind (i64_arg 0 args) (\<lambda>i. Inr (int_val ret i))"

definition eval_round_double :: func_eval where
  "eval_round_double args ret = rbind (f64_arg 0 args) (\<lambda>d. Inr (double_val ret (fp_round F64 d)))"

definition eval_round_float :: func_eval where
  "eval_round_float args ret = rbind (f32_arg 0 args) (\<lambda>f. Inr (float_val ret (fp_round F32 f)))"

definition eval_round_numeric :: func_eval where
  "eval_round_numeric args ret = rbind (dec_arg 0 args) (\<lambda>d. round_dec d 0 ret)"

definition eval_round_numeric_int :: func_eval where
  "eval_round_numeric_int args ret = rbind (dec_arg 0 args) (\<lambda>d.
     rbind (i64_arg 1 args) (\<lambda>n. round_dec d (sint n) ret))"

definition eval_floor_int :: func_eval where
  "eval_floor_int args ret = rbind (i64_arg 0 args) (\<lambda>i. Inr (int_val ret i))"

definition eval_floor_bigint :: func_eval where
  "eval_floor_bigint args ret = rbind (i64_arg 0 args) (\<lambda>i. Inr (int_val ret i))"

definition eval_floor_double :: func_eval where
  "eval_floor_double args ret = rbind (f64_arg 0 args) (\<lambda>d. Inr (double_val ret (fp_floor F64 d)))"

definition eval_floor_float :: func_eval where
  "eval_floor_float args ret = rbind (f32_arg 0 args) (\<lambda>f. Inr (float_val ret (fp_floor F32 f)))"

definition eval_floor_numeric :: func_eval where
  "eval_floor_numeric args ret = rbind (dec_arg 0 args) (\<lambda>d. trunc_dec d False ret)"

definition eval_ceil_int :: func_eval where
  "eval_ceil_int args ret = rbind (i64_arg 0 args) (\<lambda>i. Inr (int_val ret i))"

definition eval_ceil_bigint :: func_eval where
  "eval_ceil_bigint args ret = rbind (i64_arg 0 args) (\<lambda>i. Inr (int_val ret i))"

definition eval_ceil_double :: func_eval where
  "eval_ceil_double args ret = rbind (f64_arg 0 args) (\<lambda>d. Inr (double_val ret (fp_ceil F64 d)))"

definition eval_ceil_float :: func_eval where
  "eval_ceil_float args ret = rbind (f32_arg 0 args) (\<lambda>f. Inr (float_val ret (fp_ceil F32 f)))"

definition eval_ceil_numeric :: func_eval where
  "eval_ceil_numeric args ret = rbind (dec_arg 0 args) (\<lambda>d. trunc_dec d True ret)"

definition eval_mod_int :: func_eval where
  "eval_mod_int args ret = rbind (i64_arg 0 args) (\<lambda>l. rbind (i64_arg 1 args) (\<lambda>r.
     if sint r = 0 then Inl (Raise ArithError)
     else if sint l = INT64_MIN \<and> sint r = -1 then Inr (int_val ret 0)
     else Inr (int_val ret (word_of_int (tmod (sint l) (sint r))))))"

definition eval_mod_bigint :: func_eval where
  "eval_mod_bigint args ret = rbind (i64_arg 0 args) (\<lambda>l. rbind (i64_arg 1 args) (\<lambda>r.
     if sint r = 0 then Inl (Raise ArithError)
     else if sint l = INT64_MIN \<and> sint r = -1 then Inr (int_val ret 0)
     else Inr (int_val ret (word_of_int (tmod (sint l) (sint r))))))"

definition eval_mod_double :: func_eval where
  "eval_mod_double args ret = rbind (f64_arg 0 args) (\<lambda>l. rbind (f64_arg 1 args) (\<lambda>r.
     let out = fp_fmod F64 l r
     in if \<not> fp_isfinite F64 out then Inl (Raise ArithError) else Inr (double_val ret out)))"

definition eval_mod_float :: func_eval where
  "eval_mod_float args ret = rbind (f32_arg 0 args) (\<lambda>l. rbind (f32_arg 1 args) (\<lambda>r.
     let out = fp_fmod F32 l r
     in if \<not> fp_isfinite F32 out then Inl (Raise ArithError) else Inr (float_val ret out)))"

definition eval_mod_numeric :: func_eval where
  "eval_mod_numeric args ret = rbind (dec_arg 0 args) (\<lambda>l. rbind (dec_arg 1 args) (\<lambda>r.
     if unscaled r = 0 then Inl (Raise ArithError)
     else let s = (if dscale l > dscale r then dscale l else dscale r)
          in rbind (dec_align (unscaled l) (dscale l) s) (\<lambda>lu.
             rbind (dec_align (unscaled r) (dscale r) s) (\<lambda>ru.
               Inr (numeric_val ret (tmod lu ru) s)))))"

definition kFuncTable :: "func_eval option list" where
  "kFuncTable =
    [None, Some eval_abs_int, Some eval_abs_bigint, Some eval_abs_double, Some eval_abs_float,
     Some eval_abs_numeric, Some eval_round_int, Some eval_round_bigint, Some eval_round_double,
     Some eval_round_float, Some eval_round_numeric, Some eval_round_numeric_int,
     Some eval_floor_int, Some eval_floor_bigint, Some eval_floor_double, Some eval_floor_float,
     Some eval_floor_numeric, Some eval_ceil_int, Some eval_ceil_bigint, Some eval_ceil_double,
     Some eval_ceil_float, Some eval_ceil_numeric, Some eval_mod_int, Some eval_mod_bigint,
     Some eval_mod_double, Some eval_mod_float, Some eval_mod_numeric]"

definition eval_builtin :: "u64 \<Rightarrow> dbvalue list \<Rightarrow> type_attr \<Rightarrow> dbvalue res" where
  "eval_builtin func_id args ret =
    (let idx = unat func_id in
     if idx \<ge> length kFuncTable then Inl (Raise Internal)
     else case kFuncTable ! idx of None \<Rightarrow> Inl (Raise Internal) | Some f \<Rightarrow> f args ret)"

section \<open>Evaluation\<close>

definition neg_value :: "type_attr \<Rightarrow> dbvalue \<Rightarrow> dbvalue res" where
  "neg_value t v =
    (if value_is_null v then Inr v
     else if attr_rep t = RepFloat then rbind (to_float v t) (\<lambda>f. Inr (float_val t (fp_minus F32 f)))
     else if attr_rep t = RepDouble then rbind (to_double v t) (\<lambda>d. Inr (double_val t (fp_minus F64 d)))
     else if attr_rep t = RepDec then rbind (get_dec v) (\<lambda>d. Inr (numeric_val t (- unscaled d) (dscale d)))
     else rbind (get_int v t) (\<lambda>i.
       if sint i = INT64_MIN \<or> (attr_width t = 4 \<and> sint i = INT32_MIN) then Inl (Raise ArithError)
       else Inr (int_val t (- i))))"

definition fp_arith :: "fpfmt \<Rightarrow> char \<Rightarrow> 'a::len word \<Rightarrow> 'a word \<Rightarrow> 'a word" where
  "fp_arith F op l r =
    (if op = CHR ''+'' then fp_add F l r else if op = CHR ''-'' then fp_sub F l r
     else if op = CHR ''*'' then fp_mul F l r else if op = CHR ''/'' then fp_div F l r else 0)"

text \<open>The overflow built-ins and the guarded division on \<^verbatim>\<open>int64_t\<close>.\<close>

definition i64_checked :: "int \<Rightarrow> i64 res" where
  "i64_checked v = (if v < INT64_MIN \<or> v > INT64_MAX then Inl (Raise ArithError) else Inr (word_of_int v))"

definition int_arith :: "char \<Rightarrow> i64 \<Rightarrow> i64 \<Rightarrow> i64 res" where
  "int_arith op l r =
    (if op = CHR ''+'' then i64_checked (sint l + sint r)
     else if op = CHR ''-'' then i64_checked (sint l - sint r)
     else if op = CHR ''*'' then i64_checked (sint l * sint r)
     else if op = CHR ''/'' then
       (if sint r = 0 then Inl (Raise ArithError)
        else if sint l = INT64_MIN \<and> sint r = -1 then Inl (Raise ArithError)
        else Inr (word_of_int (tdiv (sint l) (sint r))))
     else Inr 0)"

definition binary_value :: "char \<Rightarrow> type_attr \<Rightarrow> dbvalue \<Rightarrow> dbvalue \<Rightarrow> dbvalue res" where
  "binary_value op t lv rv =
    (if value_is_null lv \<or> value_is_null rv then Inr null_val
     else if attr_rep t = RepDec then
       rbind (to_numeric lv t) (\<lambda>l. rbind (to_numeric rv t) (\<lambda>r.
       rbind (dec_result_scale op l r) (\<lambda>rs. rbind (dec_arith op l r rs) (\<lambda>u. Inr (numeric_val t u rs)))))
     else if attr_rep t = RepFloat then
       rbind (to_float lv t) (\<lambda>l. rbind (to_float rv t) (\<lambda>r.
         let out = fp_arith F32 op l r
         in if \<not> fp_isfinite F32 out then Inl (Raise ArithError) else Inr (float_val t out)))
     else if attr_rep t = RepDouble then
       rbind (to_double lv t) (\<lambda>l. rbind (to_double rv t) (\<lambda>r.
         let out = fp_arith F64 op l r
         in if \<not> fp_isfinite F64 out then Inl (Raise ArithError) else Inr (double_val t out)))
     else rbind (get_int lv t) (\<lambda>l. rbind (get_int rv t) (\<lambda>r. rbind (int_arith op l r) (\<lambda>out.
       if attr_width t = 4 \<and> (sint out < INT32_MIN \<or> sint out > INT32_MAX) then Inl (Raise ArithError)
       else Inr (int_val t out)))))"

fun cmp_holds :: "cmp_op \<Rightarrow> int \<Rightarrow> bool" where
  "cmp_holds CmpEq c = (c = 0)"
| "cmp_holds CmpNe c = (c \<noteq> 0)"
| "cmp_holds CmpLt c = (c < 0)"
| "cmp_holds CmpLe c = (c \<le> 0)"
| "cmp_holds CmpGt c = (c > 0)"
| "cmp_holds CmpGe c = (c \<ge> 0)"

definition compare_value :: "cmp_op \<Rightarrow> dbvalue \<Rightarrow> dbvalue \<Rightarrow> dbvalue res" where
  "compare_value op lv rv =
    (if value_is_null lv \<or> value_is_null rv then Inr null_val
     else rbind (value_cmp lv rv) (\<lambda>c. Inr (bool_val kBool (cmp_holds op c))))"

definition logic_value :: "logic_op \<Rightarrow> dbvalue \<Rightarrow> dbvalue \<Rightarrow> dbvalue res" where
  "logic_value op lv rv =
    (let lb = get_bool lv; rb = get_bool rv in
     if (\<not> value_is_null lv \<and> lb = None) \<or> (\<not> value_is_null rv \<and> rb = None) then Inl (Raise Internal)
     else if op = LogicAnd then
       (if lb = Some False \<or> rb = Some False then Inr (bool_val kBool False)
        else if lb = None \<or> rb = None then Inr null_val
        else Inr (bool_val kBool True))
     else if lb = Some True \<or> rb = Some True then Inr (bool_val kBool True)
     else if lb = None \<or> rb = None then Inr null_val
     else Inr (bool_val kBool False))"

definition not_value :: "dbvalue \<Rightarrow> dbvalue res" where
  "not_value v =
    (if value_is_null v then Inr v
     else case get_bool v of None \<Rightarrow> Inl (Raise Internal) | Some b \<Rightarrow> Inr (bool_val kBool (\<not> b)))"

definition is_null_value :: "bool \<Rightarrow> dbvalue \<Rightarrow> dbvalue" where
  "is_null_value negate v = bool_val kBool (if negate then \<not> value_is_null v else value_is_null v)"

definition func_value :: "u64 \<Rightarrow> bool \<Rightarrow> type_attr \<Rightarrow> dbvalue list \<Rightarrow> dbvalue res" where
  "func_value func strict t argv =
    (case (if strict then find value_is_null argv else None) of
       Some v \<Rightarrow> Inr v
     | None \<Rightarrow> eval_builtin func argv t)"

definition cast_checked :: "type_attr \<Rightarrow> u16 \<Rightarrow> dbvalue \<Rightarrow> dbvalue res" where
  "cast_checked t len out =
    rbind (if attr_rep t = RepInt64 \<and> attr_width t = 4 then
             (case vbox out of
                BInt64 i \<Rightarrow> if sint i < INT32_MIN \<or> sint i > INT32_MAX then Inl (Raise ValueMismatch) else Inr ()
              | _ \<Rightarrow> Inl (Raise Internal))
           else Inr ()) (\<lambda>_.
    rbind (if attr_family t = FamText \<and> len > 0 then
             (case vbox out of
                BStr s \<Rightarrow> if length s > unat len then Inl (Raise ValueMismatch) else Inr ()
              | _ \<Rightarrow> Inl (Raise Internal))
           else Inr ()) (\<lambda>_. Inr out))"

definition cast_expr_value :: "type_attr \<Rightarrow> u16 \<Rightarrow> u8 \<Rightarrow> dbvalue \<Rightarrow> dbvalue res" where
  "cast_expr_value t len sc v =
    (if value_is_null v then Inr v
     else if attr_rep t = RepDec \<and> len > 0 then coerce_numeric v t len sc Explicit
     else rbind (cast_value v t Explicit) (cast_checked t len))"

definition const_value :: "dbvalue \<Rightarrow> dbvalue res" where
  "const_value v =
    (case vbox v of BDouble d \<Rightarrow> if \<not> fp_isfinite F64 d then Inl (Raise ArithError) else Inr v
     | _ \<Rightarrow> Inr v)"

definition col_value :: "nat \<Rightarrow> row option \<Rightarrow> dbvalue res" where
  "col_value idx r =
    (case r of None \<Rightarrow> Inl (Raise Internal)
     | Some r \<Rightarrow> if idx < length (row_values r) then Inr (row_values r ! idx) else Inl Crash)"

fun eval_bound :: "bound_expr \<Rightarrow> row option \<Rightarrow> dbvalue res" where
  "eval_bound (BoundConst v) r = const_value v"
| "eval_bound (BoundColRef idx t) r = col_value idx r"
| "eval_bound (BoundArith op t a b) r =
     rbind (eval_bound a r) (\<lambda>lv. rbind (eval_bound b r) (\<lambda>rv. binary_value op t lv rv))"
| "eval_bound (BoundNeg t a) r = rbind (eval_bound a r) (neg_value t)"
| "eval_bound (BoundCmp op a b) r =
     rbind (eval_bound a r) (\<lambda>lv. rbind (eval_bound b r) (\<lambda>rv. compare_value op lv rv))"
| "eval_bound (BoundLogic op a b) r =
     rbind (eval_bound a r) (\<lambda>lv. rbind (eval_bound b r) (\<lambda>rv. logic_value op lv rv))"
| "eval_bound (BoundNot a) r = rbind (eval_bound a r) not_value"
| "eval_bound (BoundIsNull a negate) r = rbind (eval_bound a r) (\<lambda>v. Inr (is_null_value negate v))"
| "eval_bound (BoundFuncCall func name strict t args) r =
     rbind (map_res (\<lambda>a. eval_bound a r) args) (func_value func strict t)"
| "eval_bound (BoundCast t len sc a) r = rbind (eval_bound a r) (cast_expr_value t len sc)"

definition eval_const :: "bound_expr \<Rightarrow> dbvalue res" where
  "eval_const e = eval_bound e None"

definition eval_row :: "bound_expr \<Rightarrow> row \<Rightarrow> dbvalue res" where
  "eval_row e r = eval_bound e (Some r)"

definition where_match :: "bound_expr \<Rightarrow> row \<Rightarrow> bool res" where
  "where_match e r = rbind (eval_bound e (Some r)) (\<lambda>v.
     if value_is_null v then Inr False
     else case get_bool v of None \<Rightarrow> Inl (Raise Internal) | Some b \<Rightarrow> Inr b)"

section \<open>Decimals as numbers\<close>

definition dec_real :: "decimal_val \<Rightarrow> real" where
  "dec_real d = of_int (unscaled d) / 10 ^ unat (dscale d)"

lemma digit_count_bounds:
  assumes "0 < m"
  shows "10 ^ digit_count m \<le> 10 * m" and "m < 10 ^ digit_count m"
proof -
  show "m < 10 ^ digit_count m" using digit_count_le [of m "digit_count m"] by simp
  obtain k where k: "digit_count m = Suc k" using assms by (simp add: digit_count.simps [of m])
  then have "\<not> m < 10 ^ k" using digit_count_le [of m k] by simp
  then show "10 ^ digit_count m \<le> 10 * m" by (simp add: k)
qed

text \<open>A number with more digits before the point is larger.\<close>

lemma magnitude_order:
  fixes ua ub :: int
  assumes "0 < ua" "0 < ub" and "int (dec_digits ua) - int sa < int (dec_digits ub) - int sb"
  shows "ua * 10 ^ sb < ub * 10 ^ sa"
proof -
  define da db where "da = dec_digits ua" "db = dec_digits ub"
  have 1: "ua < 10 ^ da" using digit_count_bounds(2) [of "nat ua"] assms(1)
    by (simp add: da_db_def dec_digits_def nat_less_iff)
  have "10 ^ digit_count (nat ub) \<le> 10 * nat ub" using digit_count_bounds(1) [of "nat ub"] assms(2) by simp
  then have "int (10 ^ digit_count (nat ub)) \<le> int (10 * nat ub)" by (simp only: of_nat_le_iff)
  then have "(10::int) ^ db \<le> 10 * ub" using assms(2) by (simp add: da_db_def dec_digits_def)
  then have 2: "(10::int) ^ (db + sa) \<le> 10 * ub * 10 ^ sa" by (simp add: power_add mult_right_mono)
  have "da + sb + 1 \<le> db + sa" using assms(3) by (simp add: da_db_def)
  then have 3: "(10::int) ^ (da + sb + 1) \<le> 10 ^ (db + sa)" by (intro power_increasing) auto
  have "10 * (ua * 10 ^ sb) < 10 * (10 ^ da * 10 ^ sb)" using 1 by simp
  also have "\<dots> = 10 ^ (da + sb + 1)" by (simp add: power_add)
  also have "\<dots> \<le> 10 * (ub * 10 ^ sa)" using 2 3 by simp
  finally show ?thesis by simp
qed

lemma aligned_compare:
  fixes ua ub :: int
  assumes "sb < sa"
  shows "ua < ub * 10 ^ (sa - sb) \<longleftrightarrow> ua * 10 ^ sb < ub * 10 ^ sa"
    and "ua = ub * 10 ^ (sa - sb) \<longleftrightarrow> ua * 10 ^ sb = ub * 10 ^ sa"
proof -
  have "(10::int) ^ sa = 10 ^ (sa - sb) * 10 ^ sb" using assms by (simp add: power_add [symmetric])
  then have e: "ub * 10 ^ sa = (ub * 10 ^ (sa - sb)) * 10 ^ sb" by simp
  show "ua < ub * 10 ^ (sa - sb) \<longleftrightarrow> ua * 10 ^ sb < ub * 10 ^ sa" unfolding e by simp
  show "ua = ub * 10 ^ (sa - sb) \<longleftrightarrow> ua * 10 ^ sb = ub * 10 ^ sa" unfolding e by simp
qed

lemma magnitude_compare:
  fixes ua ub :: int
  assumes "0 < ua" "0 < ub"
  shows "(if int (dec_digits ua) - int sa \<noteq> int (dec_digits ub) - int sb
          then (if int (dec_digits ua) - int sa < int (dec_digits ub) - int sb then -1 else 1)
          else let mb = (if sb < sa then ub * 10 ^ (sa - sb) else ub);
                   ma = (if sb < sa then ua else ua * 10 ^ (sb - sa))
               in if ma = mb then 0 else if ma < mb then -1 else 1)
         = sgn (ua * 10 ^ sb - ub * 10 ^ sa)"
proof -
  consider "int (dec_digits ua) - int sa < int (dec_digits ub) - int sb"
    | "int (dec_digits ub) - int sb < int (dec_digits ua) - int sa"
    | "int (dec_digits ua) - int sa = int (dec_digits ub) - int sb" by linarith
  then show ?thesis
  proof cases
    case 1
    then show ?thesis using magnitude_order [OF assms 1] by simp
  next
    case 2
    then show ?thesis using magnitude_order [OF assms(2,1) 2] by simp
  next
    case 3
    consider "sb < sa" | "sa < sb" | "sa = sb" by linarith
    then show ?thesis
    proof cases
      case 1
      then show ?thesis using 3 aligned_compare [OF 1, of ua ub] by (simp add: Let_def sgn_if)
    next
      case 2
      then show ?thesis using 3 aligned_compare [OF 2, of ub ua] by (auto simp add: Let_def sgn_if)
    next
      case 3
      then show ?thesis using \<open>int (dec_digits ua) - int sa = int (dec_digits ub) - int sb\<close>
        by (simp add: sgn_if)
    qed
  qed
qed

lemma dec_cmp_cross:
  "dec_cmp a b = sgn (unscaled a * 10 ^ unat (dscale b) - unscaled b * 10 ^ unat (dscale a))"
proof -
  define ua ub sa sb where defs: "ua = \<bar>unscaled a\<bar>" "ub = \<bar>unscaled b\<bar>" "sa = unat (dscale a)" "sb = unat (dscale b)"
  have gt: "dscale a > dscale b \<longleftrightarrow> sb < sa" by (simp add: defs word_less_nat_alt)
  have pos: "0 < (10::int) ^ sa" "0 < (10::int) ^ sb" by simp_all
  consider "unscaled a = 0 \<or> unscaled b = 0" | "unscaled a > 0" "unscaled b > 0"
    | "unscaled a < 0" "unscaled b < 0" | "unscaled a < 0" "unscaled b > 0" | "unscaled a > 0" "unscaled b < 0"
    by linarith
  then show ?thesis
  proof cases
    case 1
    then show ?thesis by (auto simp: dec_cmp_def sgn_if zero_less_mult_iff mult_less_0_iff)
  next
    case 2
    then have n: "0 < ua" "0 < ub" "unscaled a = ua" "unscaled b = ub" by (simp_all add: defs)
    then show ?thesis using 2 magnitude_compare [OF n(1,2), symmetric] gt
      by (simp add: dec_cmp_def Let_def defs(3,4) [symmetric])
  next
    case 3
    then have n: "0 < ua" "0 < ub" "unscaled a = - ua" "unscaled b = - ub" by (simp_all add: defs)
    have "sgn (- ua * 10 ^ sb - - ub * 10 ^ sa) = - sgn (ua * 10 ^ sb - ub * 10 ^ sa)"
      by (simp add: sgn_if)
    then show ?thesis using 3 magnitude_compare [OF n(1,2), symmetric] gt n
      by (simp add: dec_cmp_def Let_def defs(3,4) [symmetric])
  next
    case 4
    then have "unscaled a * 10 ^ sb < 0" "0 < unscaled b * 10 ^ sa" by (simp_all add: mult_neg_pos)
    then have "unscaled a * 10 ^ sb - unscaled b * 10 ^ sa < 0" by linarith
    then show ?thesis using 4 unfolding defs(3,4) by (simp add: dec_cmp_def)
  next
    case 5
    then have "0 < unscaled a * 10 ^ sb" "unscaled b * 10 ^ sa < 0" by (simp_all add: mult_neg_pos)
    then have "unscaled a * 10 ^ sb - unscaled b * 10 ^ sa > 0" by linarith
    then show ?thesis using 5 unfolding defs(3,4) by (simp add: dec_cmp_def)
  qed
qed

lemma dec_cmp_real:
  "dec_cmp a b < 0 \<longleftrightarrow> dec_real a < dec_real b" "dec_cmp a b = 0 \<longleftrightarrow> dec_real a = dec_real b"
  "dec_cmp a b > 0 \<longleftrightarrow> dec_real a > dec_real b"
proof -
  let ?x = "unscaled a * 10 ^ unat (dscale b)" and ?y = "unscaled b * 10 ^ unat (dscale a)"
  have "dec_real a < dec_real b \<longleftrightarrow> (of_int ?x :: real) < of_int ?y"
    and "dec_real a = dec_real b \<longleftrightarrow> (of_int ?x :: real) = of_int ?y"
    and "dec_real a > dec_real b \<longleftrightarrow> (of_int ?x :: real) > of_int ?y"
    by (simp_all add: dec_real_def field_simps)
  then have "dec_real a < dec_real b \<longleftrightarrow> ?x < ?y" "dec_real a = dec_real b \<longleftrightarrow> ?x = ?y"
    "dec_real a > dec_real b \<longleftrightarrow> ?x > ?y"
    by (simp_all only: of_int_less_iff of_int_eq_iff)
  then show "dec_cmp a b < 0 \<longleftrightarrow> dec_real a < dec_real b" "dec_cmp a b = 0 \<longleftrightarrow> dec_real a = dec_real b"
    "dec_cmp a b > 0 \<longleftrightarrow> dec_real a > dec_real b"
    by (simp_all add: dec_cmp_cross sgn_if)
qed

text \<open>
  Comparison of decimals is exact across scales: the sign \<^verbatim>\<open>dec_cmp\<close> returns is the order of
  the two numbers, with no rounding.
\<close>

theorem dec_cmp_exact:
  "(dec_cmp a b < 0 \<longleftrightarrow> dec_real a < dec_real b) \<and> (dec_cmp a b = 0 \<longleftrightarrow> dec_real a = dec_real b)
   \<and> (dec_cmp a b > 0 \<longleftrightarrow> dec_real a > dec_real b)"
  by (simp add: dec_cmp_real)

section \<open>Exact arithmetic\<close>

lemma dec_align_loop_value:
  "dec_align_loop k u = (if u \<noteq> 0 \<and> k > 0 \<and> \<bar>u * 10 ^ k\<bar> \<ge> kNumericUnscaledMax
                         then Inl (Raise ArithError) else Inr (u * 10 ^ k))"
proof (induction k arbitrary: u)
  case 0
  then show ?case by simp
next
  case (Suc k)
  have "1 * \<bar>u * 10\<bar> \<le> 10 ^ k * \<bar>u * 10\<bar>" by (intro mult_right_mono) auto
  then have m: "\<bar>u * 10\<bar> \<le> \<bar>u * 10 * 10 ^ k\<bar>" by (simp add: abs_mult mult_ac)
  have e: "u * 10 ^ Suc k = u * 10 * 10 ^ k" by simp
  show ?case
  proof (cases "k = 0")
    case True
    then show ?thesis by simp
  next
    case False
    then show ?thesis using Suc [of "u * 10"] m unfolding e by (auto simp: Let_def)
  qed
qed

lemma dec_align_real:
  assumes "dec_align u from to = Inr u'" and "unat from \<le> unat to"
  shows "dec_real (DecimalVal u' to) = dec_real (DecimalVal u from)"
proof -
  have u': "u' = u * 10 ^ (unat to - unat from)"
    using assms(1) by (auto simp: dec_align_def dec_align_loop_value split: if_splits)
  have "(10::real) ^ unat to = 10 ^ (unat to - unat from) * 10 ^ unat from"
    using assms(2) by (simp add: power_add [symmetric])
  then show ?thesis by (simp add: dec_real_def u')
qed

lemma unat_word_of_nat_u8: "n \<le> 255 \<Longrightarrow> unat (word_of_nat n :: u8) = n"
  by (simp add: unat_of_nat)

lemma dec_result_scale_unat:
  assumes "dec_result_scale op l r = Inr rs"
  shows "unat rs = (if op = CHR ''+'' \<or> op = CHR ''-'' then max (unat (dscale l)) (unat (dscale r))
                    else if op = CHR ''*'' then unat (dscale l) + unat (dscale r)
                    else min (max (unat (dscale l)) (unat (dscale r)) + 4) 255)" (is "_ = ?s")
proof -
  have "rs = word_of_nat ?s" "?s \<le> 255"
    using assms unfolding dec_result_scale_def Let_def by (simp_all only: split: if_splits) auto
  then show ?thesis using unat_word_of_nat_u8 by simp
qed

lemma dec_bounded_Inr: "dec_bounded x = Inr u \<longleftrightarrow> u = x \<and> \<bar>x\<bar> < kNumericUnscaledMax"
  by (auto simp: dec_bounded_def)

lemma mul_no_wrap: "dec_ok l \<Longrightarrow> dec_ok r \<Longrightarrow> wrap256 (unscaled l * unscaled r) = unscaled l * unscaled r"
proof -
  assume "dec_ok l" "dec_ok r"
  then have "\<bar>unscaled l\<bar> * \<bar>unscaled r\<bar> \<le> 10 ^ 38 * 10 ^ 38"
    by (intro mult_mono) (simp_all add: dec_ok_def kNumericUnscaledMax_def)
  also have "\<dots> < 2 ^ 256" by simp
  finally show ?thesis by (intro wrap256_id) (simp add: abs_mult)
qed

text \<open>
  Addition, subtraction and multiplication of decimals are exact: when the operation
  succeeds, the result at the derived scale is the sum, difference or product of the operands,
  and it again has at most 38 digits.
\<close>

theorem dec_arith_exact:
  assumes "dec_ok l" and "dec_ok r" and "op \<in> {CHR ''+'', CHR ''-'', CHR ''*''}"
    and "dec_result_scale op l r = Inr rs" and "dec_arith op l r rs = Inr u"
  shows "dec_ok (DecimalVal u rs) \<and> dec_real (DecimalVal u rs) =
    (if op = CHR ''+'' then dec_real l + dec_real r
     else if op = CHR ''-'' then dec_real l - dec_real r else dec_real l * dec_real r)"
proof (cases "op = CHR ''*''")
  case True
  then have s: "unat rs = unat (dscale l) + unat (dscale r)"
    using dec_result_scale_unat [OF assms(4)] by simp
  have u: "u = unscaled l * unscaled r" "\<bar>u\<bar> < kNumericUnscaledMax"
    using True assms(5) mul_no_wrap [OF assms(1,2)] by (auto simp: dec_arith_def dec_bounded_Inr)
  then show ?thesis using True s by (simp add: dec_real_def dec_ok_def power_add)
next
  case False
  then have pm: "op = CHR ''+'' \<or> op = CHR ''-''" using assms(3) by auto
  then have s: "unat rs = max (unat (dscale l)) (unat (dscale r))"
    using dec_result_scale_unat [OF assms(4)] by auto
  from pm assms(5) obtain lu ru where
    lu: "dec_align (unscaled l) (dscale l) rs = Inr lu" and ru: "dec_align (unscaled r) (dscale r) rs = Inr ru"
    and u: "u = (if op = CHR ''+'' then lu + ru else lu - ru)" "\<bar>u\<bar> < kNumericUnscaledMax"
    by (auto simp: dec_arith_def res_simps dec_bounded_Inr)
  have "dec_real (DecimalVal lu rs) = dec_real l" "dec_real (DecimalVal ru rs) = dec_real r"
    using dec_align_real [OF lu] dec_align_real [OF ru] s by (simp_all add: dec_real_def)
  then show ?thesis using u pm by (auto simp: dec_real_def dec_ok_def add_divide_distrib diff_divide_distrib)
qed

theorem dec_arith_exact_witness:
  "dec_real (DecimalVal 1505 2) = dec_real (DecimalVal 155 1) + dec_real (DecimalVal (- 45) 2)"
  using dec_arith_exact [of "DecimalVal 155 1" "DecimalVal (- 45) 2" "CHR ''+''" 2 1505]
  by (simp add: dec_ok_def kNumericUnscaledMax_def dec_result_scale_def dec_arith_def dec_align_def
      dec_align_loop_value dec_bounded_def)

section \<open>Division\<close>

lemma dec_div_loop_value:
  assumes "0 < ub" and "q = a div ub" and "rem = a mod ub" and "0 \<le> a"
  shows "dec_div_loop t ub q rem =
    (if t > 0 \<and> a * 10 ^ (t - 1) div ub \<ge> kNumericUnscaledMax div 10 then Inl (Raise ArithError)
     else Inr (a * 10 ^ t div ub, a * 10 ^ t mod ub))"
  using assms
proof (induction t arbitrary: a q rem)
  case 0
  then show ?case by simp
next
  case (Suc t)
  define a' where "a' = a * 10"
  have a: "a = q * ub + rem" using Suc.prems by simp
  have q': "q * 10 + rem * 10 div ub = a' div ub" and r': "rem * 10 mod ub = a' mod ub"
  proof -
    have "a' = rem * 10 + q * 10 * ub" unfolding a'_def a by (simp add: algebra_simps)
    then show "q * 10 + rem * 10 div ub = a' div ub" "rem * 10 mod ub = a' mod ub"
      using Suc.prems(1) by simp_all
  qed
  have ps: "a * 10 ^ Suc n = a' * 10 ^ n" for n by (simp add: a'_def)
  show ?case
  proof (cases "q \<ge> kNumericUnscaledMax div 10")
    case True
    have "a * 1 \<le> a * 10 ^ t" using Suc.prems(4) by (intro mult_left_mono) auto
    then have "a div ub \<le> a * 10 ^ t div ub" using Suc.prems(1) by (intro zdiv_mono1) auto
    then show ?thesis using True Suc.prems(2) by simp
  next
    case False
    have "dec_div_loop t ub (a' div ub) (a' mod ub) =
      (if t > 0 \<and> a' * 10 ^ (t - 1) div ub \<ge> kNumericUnscaledMax div 10 then Inl (Raise ArithError)
       else Inr (a' * 10 ^ t div ub, a' * 10 ^ t mod ub))"
      using Suc.IH [of "a' div ub" a' "a' mod ub"] Suc.prems by (simp add: a'_def)
    moreover have "dec_div_loop (Suc t) ub q rem = dec_div_loop t ub (a' div ub) (a' mod ub)"
      using False q' r' by simp
    moreover have "a * 10 ^ (Suc t - 1) = (if t = 0 then a else a' * 10 ^ (t - 1))"
      by (cases t) (simp_all add: a'_def)
    ultimately show ?thesis unfolding ps using False Suc.prems(2) by auto
  qed
qed

lemma le_zdiv_imp:
  fixes k x ub :: int
  assumes "k \<le> x div ub" and "0 < ub"
  shows "k * ub \<le> x"
proof -
  have "k * ub \<le> x div ub * ub" using assms by (intro mult_right_mono) auto
  also have "\<dots> \<le> x" using assms(2) div_mult_mod_eq [of x ub] pos_mod_sign [of ub x] by linarith
  finally show ?thesis .
qed

lemma dec_div_value:
  assumes "dec_result_scale CHR ''/'' l r = Inr rs"
  shows "dec_div l r rs =
    (let t = unat rs + unat (dscale r) - unat (dscale l);
         q = sgn (unscaled r) * round_away (unscaled l * 10 ^ t) \<bar>unscaled r\<bar>
     in if unscaled r = 0 \<or> \<bar>q\<bar> \<ge> kNumericUnscaledMax then Inl (Raise ArithError) else Inr q)"
proof (cases "unscaled r = 0")
  case True
  then show ?thesis by (simp add: dec_div_def)
next
  case False
  define ua ub t where defs: "ua = \<bar>unscaled l\<bar>" "ub = \<bar>unscaled r\<bar>" "t = unat rs + unat (dscale r) - unat (dscale l)"
  have ub: "0 < ub" using False by (simp add: defs)
  have hi: "unat rs = min (max (unat (dscale l)) (unat (dscale r)) + 4) 255"
    using dec_result_scale_unat [OF assms] by simp
  have "unat (dscale l) \<le> unat rs" unfolding hi using unat_byte_less [of "dscale l"] by linarith
  then have t: "int (unat rs) + int (unat (dscale r)) - int (unat (dscale l)) = int t" by (simp add: defs)
  define m where "m = (2 * (ua * 10 ^ t) + ub) div (2 * ub)"
  have half: "(if ua * 10 ^ t mod ub * 2 \<ge> ub then ua * 10 ^ t div ub + 1 else ua * 10 ^ t div ub) = m"
    unfolding m_def using ub by (intro half_up_div) (simp_all add: defs)
  have m0: "0 \<le> m" using ub by (simp add: m_def defs pos_imp_zdiv_nonneg_iff)
  have gate: "m \<ge> kNumericUnscaledMax"
    if g: "t > 0" "ua * 10 ^ (t - 1) div ub \<ge> kNumericUnscaledMax div 10"
  proof -
    obtain n where n: "t = Suc n" using g(1) by (cases t) auto
    have "10 ^ 37 * ub \<le> ua * 10 ^ n"
      using le_zdiv_imp [OF g(2) ub] by (simp add: n kNumericUnscaledMax_def)
    then have "10 ^ 38 * ub \<le> ua * 10 ^ t" by (simp add: n)
    then have "10 ^ 38 \<le> ua * 10 ^ t div ub" using ub zdiv_mono1 [of "10 ^ 38 * ub" "ua * 10 ^ t" ub] by simp
    then show ?thesis using half by (auto simp: kNumericUnscaledMax_def split: if_splits)
  qed
  have q: "sgn (unscaled r) * round_away (unscaled l * 10 ^ t) ub
             = (if (unscaled l < 0) \<noteq> (unscaled r < 0) then - m else m)"
  proof -
    have "round_away (unscaled l * 10 ^ t) ub = sgn (unscaled l) * m"
      by (simp add: round_away_def m_def defs(1) abs_mult sgn_mult)
    moreover have "unscaled l = 0 \<Longrightarrow> m = 0" using ub by (simp add: m_def defs(1))
    ultimately show ?thesis using False by (auto simp: sgn_if)
  qed
  have loop: "dec_div_loop t ub (ua div ub) (ua mod ub) =
    (if t > 0 \<and> ua * 10 ^ (t - 1) div ub \<ge> kNumericUnscaledMax div 10 then Inl (Raise ArithError)
     else Inr (ua * 10 ^ t div ub, ua * 10 ^ t mod ub))"
    using ub by (intro dec_div_loop_value) (simp_all add: defs)
  have body: "dec_div l r rs = rbind (dec_div_loop t ub (ua div ub) (ua mod ub)) (\<lambda>(q, rem).
       let q' = (if rem * 2 \<ge> ub then q + 1 else q)
       in if q' \<ge> kNumericUnscaledMax then Inl (Raise ArithError)
          else Inr (if (unscaled l < 0) \<noteq> (unscaled r < 0) then - q' else q'))"
    unfolding dec_div_def Let_def t defs(1,2) [symmetric] using False by simp
  have am: "\<bar>if (unscaled l < 0) \<noteq> (unscaled r < 0) then - m else m\<bar> = m" using m0 by simp
  show ?thesis unfolding Let_def defs(2,3) [symmetric] q am body loop
    using False gate half by (auto simp: Let_def)
qed

text \<open>
  Division of decimals computes the quotient rounded half away from zero at the result scale,
  and reports an error exactly when the divisor is zero or that quotient has more than 38 digits.
\<close>

theorem dec_div_exact:
  assumes "dec_result_scale CHR ''/'' l r = Inr rs"
  shows "dec_div l r rs =
    (let t = unat rs + unat (dscale r) - unat (dscale l);
         q = sgn (unscaled r) * round_away (unscaled l * 10 ^ t) \<bar>unscaled r\<bar>
     in if unscaled r = 0 \<or> \<bar>q\<bar> \<ge> kNumericUnscaledMax then Inl (Raise ArithError) else Inr q)"
  using assms by (rule dec_div_value)

theorem dec_div_exact_witness:
  "dec_result_scale CHR ''/'' (DecimalVal 10 0) (DecimalVal 3 0) = Inr 4 \<and>
   dec_div (DecimalVal 10 0) (DecimalVal 3 0) 4 = Inr 33333"
  using dec_div_exact [of "DecimalVal 10 0" "DecimalVal 3 0" 4]
  by (simp add: dec_result_scale_def round_away_def kNumericUnscaledMax_def)

section \<open>Laws of three-way comparison\<close>

text \<open>The contract of a three-way comparison, as sorting, duplicate elimination and index keys rely on it.\<close>

locale three_way =
  fixes cmp :: "'a \<Rightarrow> 'a \<Rightarrow> int"
  assumes flip: "cmp b a = - cmp a b"
    and trans_le: "cmp a b \<le> 0 \<Longrightarrow> cmp b c \<le> 0 \<Longrightarrow> cmp a c \<le> 0"
begin

lemma same: "cmp a a = 0"
  using flip [of a a] by simp

lemma trans_less: "cmp a b < 0 \<Longrightarrow> cmp b c \<le> 0 \<Longrightarrow> cmp a c < 0"
  using trans_le [of a b c] trans_le [of b c a] flip [of a c] flip [of a b] by linarith

lemma equal_class: "cmp a b = 0 \<Longrightarrow> cmp b c = 0 \<Longrightarrow> cmp a c = 0"
  using trans_le [of a b c] trans_le [of c b a] flip [of a c] flip [of b c] flip [of a b] by linarith

lemma total: "cmp a b \<le> 0 \<or> cmp b a \<le> 0"
  using flip [of a b] by linarith

end

text \<open>A comparison extended to optional keys, a missing key being the greatest.\<close>

fun opt_cmp :: "('a \<Rightarrow> 'a \<Rightarrow> int) \<Rightarrow> 'a option \<Rightarrow> 'a option \<Rightarrow> int" where
  "opt_cmp cmp None None = 0"
| "opt_cmp cmp None (Some y) = 1"
| "opt_cmp cmp (Some x) None = -1"
| "opt_cmp cmp (Some x) (Some y) = cmp x y"

lemma opt_cmp_three_way:
  assumes "three_way cmp"
  shows "three_way (opt_cmp cmp)"
proof
  fix a b c
  show "opt_cmp cmp b a = - opt_cmp cmp a b"
    by (cases a; cases b) (simp_all, rule three_way.flip [OF assms])
  show "opt_cmp cmp a b \<le> 0 \<Longrightarrow> opt_cmp cmp b c \<le> 0 \<Longrightarrow> opt_cmp cmp a c \<le> 0"
    by (cases a; cases b; cases c) (auto intro: three_way.trans_le [OF assms])
qed

interpretation dec_order: three_way dec_cmp
proof
  fix a b c
  show "dec_cmp b a = - dec_cmp a b" unfolding dec_cmp_cross by (simp add: sgn_if)
  show "dec_cmp a b \<le> 0 \<Longrightarrow> dec_cmp b c \<le> 0 \<Longrightarrow> dec_cmp a c \<le> 0"
    using dec_cmp_real(3) [of a b] dec_cmp_real(3) [of b c] dec_cmp_real(3) [of a c] by linarith
qed

interpretation f64_order: three_way "\<lambda>x y. sgn (fp_num F64 (x :: f64) - fp_num F64 y)"
  by unfold_locales (auto simp: sgn_if split: if_splits)

lemma str_compare_flip: "str_compare b a = - str_compare a b"
  by (induction a b rule: str_compare.induct) auto

lemma str_compare_trans: "str_compare a b \<le> 0 \<Longrightarrow> str_compare b c \<le> 0 \<Longrightarrow> str_compare a c \<le> 0"
proof (induction a b arbitrary: c rule: str_compare.induct)
  case (4 x xs y ys)
  then obtain z zs where c: "c = z # zs" by (cases c) auto
  show ?case using 4 by (auto simp: c split: if_splits)
next
  case (1)
  then show ?case by simp
next
  case (2 y ys)
  then show ?case by (cases c) auto
next
  case (3 x xs)
  then show ?case by simp
qed

interpretation str_order: three_way str_compare
  by unfold_locales (rule str_compare_flip, rule str_compare_trans)

lemma str_compare_eq_0: "str_compare a b = 0 \<longleftrightarrow> a = b"
  by (induction a b rule: str_compare.induct) auto

definition bool_cmp :: "bool \<Rightarrow> bool \<Rightarrow> int" where
  "bool_cmp l r = (if l = r then 0 else if l then 1 else -1)"

interpretation bool_order: three_way bool_cmp
  by unfold_locales (auto simp: bool_cmp_def split: if_splits)

lemma i64_cmp_dec: "i64_cmp l r = dec_cmp (DecimalVal (sint l) 0) (DecimalVal (sint r) 0)"
  by (simp add: i64_cmp_def dec_cmp_cross sgn_if)

text \<open>
  The comparison domain of a value: exact numbers, floating numbers (no NaN), text, booleans.
  Values of one column share a domain; integers and doubles do not, since they meet in double.
\<close>

datatype cmp_domain = DNull | DExact | DFloat | DText | DBool | DNone

definition float_key :: "dbvalue \<Rightarrow> f64 option" where
  "float_key v = (case box_f64 v of Inr x \<Rightarrow> if fp_isnan F64 x then None else Some x | Inl _ \<Rightarrow> None)"

definition value_domain :: "dbvalue \<Rightarrow> cmp_domain" where
  "value_domain v =
    (case (vbox v, attr_family (vtype v)) of
       (BNull, _) \<Rightarrow> DNull
     | (BInt64 _, FamNum) \<Rightarrow> DExact
     | (BDec _, FamNum) \<Rightarrow> DExact
     | (BDouble _, FamNum) \<Rightarrow> if float_key v = None then DNone else DFloat
     | (BFloat _, FamNum) \<Rightarrow> if float_key v = None then DNone else DFloat
     | (BStr _, FamText) \<Rightarrow> DText
     | (BBool _, FamBool) \<Rightarrow> DBool
     | _ \<Rightarrow> DNone)"

definition dec_key :: "dbvalue \<Rightarrow> decimal_val option" where
  "dec_key v = (case vbox v of BInt64 i \<Rightarrow> Some (DecimalVal (sint i) 0) | BDec d \<Rightarrow> Some d | _ \<Rightarrow> None)"

definition str_key :: "dbvalue \<Rightarrow> string option" where
  "str_key v = (case vbox v of BStr s \<Rightarrow> Some (text_key (vtype v) s) | _ \<Rightarrow> None)"

definition bool_key :: "dbvalue \<Rightarrow> bool option" where
  "bool_key v = (case vbox v of BBool b \<Rightarrow> Some b | _ \<Rightarrow> None)"

definition flt_key :: "dbvalue \<Rightarrow> f64 option" where
  "flt_key v = (case vbox v of BNull \<Rightarrow> None | _ \<Rightarrow> float_key v)"

lemma value_cmp_exact:
  "value_domain a \<in> {DNull, DExact} \<Longrightarrow> value_domain b \<in> {DNull, DExact} \<Longrightarrow>
   value_cmp a b = Inr (opt_cmp dec_cmp (dec_key a) (dec_key b))"
  by (cases "vbox a"; cases "vbox b")
     (auto simp: value_domain_def value_cmp_def value_is_null_def dec_key_def num_cmp_def i64_cmp_dec
       split: family.splits if_splits)

lemma value_cmp_text:
  "value_domain a \<in> {DNull, DText} \<Longrightarrow> value_domain b \<in> {DNull, DText} \<Longrightarrow>
   value_cmp a b = Inr (opt_cmp str_compare (str_key a) (str_key b))"
  by (cases "vbox a"; cases "vbox b")
     (auto simp: value_domain_def value_cmp_def value_is_null_def str_key_def
       split: family.splits if_splits)

lemma value_cmp_bool:
  "value_domain a \<in> {DNull, DBool} \<Longrightarrow> value_domain b \<in> {DNull, DBool} \<Longrightarrow>
   value_cmp a b = Inr (opt_cmp bool_cmp (bool_key a) (bool_key b))"
  by (cases "vbox a"; cases "vbox b")
     (auto simp: value_domain_def value_cmp_def value_is_null_def bool_key_def bool_cmp_def
       split: family.splits if_splits)

lemma f64_cmp_num:
  "\<not> fp_isnan F64 x \<Longrightarrow> \<not> fp_isnan F64 y \<Longrightarrow> f64_cmp x y = sgn (fp_num F64 x - fp_num F64 y)"
  by (simp add: f64_cmp_def fp_lt_def sgn_if)

lemma value_cmp_float:
  assumes "value_domain a \<in> {DNull, DFloat}" "value_domain b \<in> {DNull, DFloat}"
  shows "value_cmp a b = Inr (opt_cmp (\<lambda>x y. sgn (fp_num F64 x - fp_num F64 y)) (flt_key a) (flt_key b))"
proof (cases "vbox a = BNull \<or> vbox b = BNull")
  case True
  then show ?thesis using assms
    by (cases "vbox a"; cases "vbox b")
       (auto simp: value_domain_def value_cmp_def value_is_null_def flt_key_def split: family.splits if_splits)
next
  case False
  have d: "(\<exists>x. box_f64 v = Inr x \<and> flt_key v = Some x \<and> \<not> fp_isnan F64 x) \<and> attr_family (vtype v) = FamNum
            \<and> ((\<exists>d. vbox v = BDouble d) \<or> (\<exists>f. vbox v = BFloat f))"
    if "value_domain v \<in> {DNull, DFloat}" "vbox v \<noteq> BNull" for v
    using that by (cases "vbox v")
      (auto simp: value_domain_def float_key_def flt_key_def split: family.splits if_splits sum.splits)
  from d [OF assms(1)] d [OF assms(2)] False obtain x y where
    xy: "box_f64 a = Inr x" "flt_key a = Some x" "\<not> fp_isnan F64 x" "box_f64 b = Inr y" "flt_key b = Some y"
      "\<not> fp_isnan F64 y" by blast
  have "num_cmp a b = Inr (f64_cmp x y)"
    using d [OF assms(1)] d [OF assms(2)] False xy by (auto simp: num_cmp_def)
  then show ?thesis using d [OF assms(1)] d [OF assms(2)] False xy
    by (simp add: value_cmp_def value_is_null_def f64_cmp_num)
qed

lemma three_way_triple:
  assumes "three_way cmp" and "\<And>v w. P v \<Longrightarrow> P w \<Longrightarrow> value_cmp v w = Inr (cmp (k v) (k w))"
    and "P a" "P b" "P c"
  shows "\<exists>x y z. value_cmp a b = Inr x \<and> value_cmp b a = Inr (- x) \<and> value_cmp b c = Inr y
           \<and> value_cmp a c = Inr z \<and> (x \<le> 0 \<and> y \<le> 0 \<longrightarrow> z \<le> 0)"
  using assms(2-5) three_way.flip [OF assms(1), of "k b" "k a"]
    three_way.trans_le [OF assms(1), of "k a" "k b" "k c"] by simp

lemma value_cmp_preorder:
  assumes "d \<in> {DExact, DFloat, DText, DBool}" and "{value_domain a, value_domain b, value_domain c} \<subseteq> {DNull, d}"
  shows "\<exists>x y z. value_cmp a b = Inr x \<and> value_cmp b a = Inr (- x) \<and> value_cmp b c = Inr y
           \<and> value_cmp a c = Inr z \<and> (x \<le> 0 \<and> y \<le> 0 \<longrightarrow> z \<le> 0)"
proof -
  have P: "value_domain a \<in> {DNull, d}" "value_domain b \<in> {DNull, d}" "value_domain c \<in> {DNull, d}"
    using assms(2) by auto
  consider "d = DExact" | "d = DFloat" | "d = DText" | "d = DBool" using assms(1) by auto
  then show ?thesis
  proof cases
    case 1
    with P show ?thesis
      using three_way_triple [where P = "\<lambda>v. value_domain v \<in> {DNull, DExact}", OF
        opt_cmp_three_way [OF dec_order.three_way_axioms] value_cmp_exact] by simp
  next
    case 2
    with P show ?thesis
      using three_way_triple [where P = "\<lambda>v. value_domain v \<in> {DNull, DFloat}", OF
        opt_cmp_three_way [OF f64_order.three_way_axioms] value_cmp_float] by simp
  next
    case 3
    with P show ?thesis
      using three_way_triple [where P = "\<lambda>v. value_domain v \<in> {DNull, DText}", OF
        opt_cmp_three_way [OF str_order.three_way_axioms] value_cmp_text] by simp
  next
    case 4
    with P show ?thesis
      using three_way_triple [where P = "\<lambda>v. value_domain v \<in> {DNull, DBool}", OF
        opt_cmp_three_way [OF bool_order.three_way_axioms] value_cmp_bool] by simp
  qed
qed

text \<open>
  A reference order of values, written over what the values stand for: every value comes before
  NULL, \<^verbatim>\<open>false\<close> before \<^verbatim>\<open>true\<close>, text lexicographically by bytes (a padded type without its
  trailing blanks), exact numbers as rationals, floating numbers as their values in binary64.
\<close>

definition value_before :: "dbvalue \<Rightarrow> dbvalue \<Rightarrow> bool" where
  "value_before a b \<longleftrightarrow>
    (case (vbox a, vbox b) of
       (BNull, _) \<Rightarrow> False
     | (_, BNull) \<Rightarrow> True
     | (BBool p, BBool q) \<Rightarrow> \<not> p \<and> q
     | (BStr s, BStr t) \<Rightarrow> ord_class.lexordp (text_key (vtype a) s) (text_key (vtype b) t)
     | _ \<Rightarrow> (case (dec_key a, dec_key b) of
               (Some x, Some y) \<Rightarrow> dec_real x < dec_real y
             | _ \<Rightarrow> (case (float_key a, float_key b) of
                       (Some x, Some y) \<Rightarrow> fp_num F64 x < fp_num F64 y
                     | _ \<Rightarrow> False)))"

lemma str_compare_lexord: "str_compare s t = (if ord_class.lexordp s t then -1 else if ord_class.lexordp t s then 1 else 0)"
  by (induction s t rule: str_compare.induct) auto

lemma dec_cmp_before: "dec_cmp x y = (if dec_real x < dec_real y then -1 else if dec_real y < dec_real x then 1 else 0)"
  using dec_cmp_real [of x y] by (auto simp: dec_cmp_cross sgn_if split: if_splits)

lemma value_cmp_before:
  assumes "d \<in> {DExact, DFloat, DText, DBool}" "value_domain a \<in> {DNull, d}" "value_domain b \<in> {DNull, d}"
  shows "value_cmp a b = Inr (if value_before a b then -1 else if value_before b a then 1 else 0)"
proof -
  consider "d = DExact" | "d = DFloat" | "d = DText" | "d = DBool" using assms(1) by auto
  then show ?thesis
  proof cases
    case 1
    have c: "value_cmp a b = Inr (opt_cmp dec_cmp (dec_key a) (dec_key b))" by (rule value_cmp_exact) (use assms 1 in auto)
    show ?thesis unfolding c using assms(2,3) 1
      by (cases "vbox a"; cases "vbox b")
         (auto simp: value_domain_def dec_key_def value_before_def dec_cmp_before split: family.splits if_splits)
  next
    case 2
    have c: "value_cmp a b = Inr (opt_cmp (\<lambda>x y. sgn (fp_num F64 x - fp_num F64 y)) (flt_key a) (flt_key b))"
      by (rule value_cmp_float) (use assms 2 in auto)
    show ?thesis unfolding c using assms(2,3) 2
      by (cases "vbox a"; cases "vbox b")
         (auto simp: value_domain_def dec_key_def flt_key_def value_before_def sgn_if split: family.splits if_splits)
  next
    case 3
    have c: "value_cmp a b = Inr (opt_cmp str_compare (str_key a) (str_key b))" by (rule value_cmp_text) (use assms 3 in auto)
    show ?thesis unfolding c using assms(2,3) 3
      by (cases "vbox a"; cases "vbox b")
         (auto simp: value_domain_def str_key_def value_before_def str_compare_lexord split: family.splits if_splits)
  next
    case 4
    have c: "value_cmp a b = Inr (opt_cmp bool_cmp (bool_key a) (bool_key b))" by (rule value_cmp_bool) (use assms 4 in auto)
    show ?thesis unfolding c using assms(2,3) 4
      by (cases "vbox a"; cases "vbox b")
         (auto simp: value_domain_def bool_key_def value_before_def bool_cmp_def split: family.splits if_splits)
  qed
qed

text \<open>
  C37. On the values of one comparison domain, NULL included, \<^verbatim>\<open>value_cmp\<close> never fails and its
  result is the reference order: \<open>-1\<close>, \<open>1\<close> or \<open>0\<close> as the first value comes before the second, after
  it, or neither, so NULL sorts after every value, numbers by value whatever their types and scales,
  text by bytes. That order is a strict weak order, which is what sorting, duplicate elimination and
  the index order rely on.
\<close>

theorem value_cmp_order:
  assumes "d \<in> {DExact, DFloat, DText, DBool}" "{value_domain a, value_domain b, value_domain c} \<subseteq> {DNull, d}"
  shows "value_cmp a b = Inr (if value_before a b then -1 else if value_before b a then 1 else 0) \<and>
    \<not> (value_before a b \<and> value_before b a) \<and> (value_before a b \<longrightarrow> value_before a c \<or> value_before c b)"
proof -
  have v: "value_cmp x y = Inr (if value_before x y then -1 else if value_before y x then 1 else 0)"
    if "x \<in> {a, b, c}" "y \<in> {a, b, c}" for x y
    using that assms(2) by (intro value_cmp_before [OF assms(1)]) auto
  show ?thesis
    using value_cmp_preorder [OF assms] value_cmp_preorder [OF assms(1), of b c a] assms(2)
    by (auto simp: v split: if_splits)
qed

theorem value_cmp_order_witness:
  "value_cmp (numeric_val kNumeric 35 1) (int_val kInt 3) = Inr 1 \<and>
   value_before (int_val kInt 3) (numeric_val kNumeric 35 1) \<and> value_before (int_val kInt 3) null_val"
  using value_cmp_order [of DExact "numeric_val kNumeric 35 1" "int_val kInt 3" null_val]
  by (simp add: value_domain_def value_before_def dec_key_def dec_real_def value_factories seed_attr_defs)

section \<open>Rounding functions\<close>

text \<open>
  \<^verbatim>\<open>floor\<close> and \<^verbatim>\<open>ceil\<close> of a decimal are the mathematical floor and ceiling, at every scale,
  the shortcut for scales from 39 on included.
\<close>

theorem trunc_dec_floor_ceil:
  assumes "dec_ok d"
  shows "trunc_dec d up ret = Inr (numeric_val ret (if up then \<lceil>dec_real d\<rceil> else \<lfloor>dec_real d\<rfloor>) 0)"
proof -
  define u s where us: "u = unscaled d" "s = unat (dscale d)"
  have fl: "\<lfloor>dec_real d\<rfloor> = u div 10 ^ s" and ce: "\<lceil>dec_real d\<rceil> = - ((- u) div 10 ^ s)"
  proof -
    have r: "dec_real d = of_int u / of_int (10 ^ s)" by (simp add: dec_real_def us)
    show "\<lfloor>dec_real d\<rfloor> = u div 10 ^ s" unfolding r by (rule floor_divide_of_int_eq)
    show "\<lceil>dec_real d\<rceil> = - ((- u) div 10 ^ s)" unfolding r by (rule ceiling_divide_eq_div)
  qed
  show ?thesis
  proof (cases "dscale d = 0")
    case True
    then show ?thesis unfolding fl ce by (simp add: trunc_dec_def us)
  next
    case nz: False
    show ?thesis
    proof (cases "dscale d \<ge> 39")
      case True
      then have "39 \<le> s" by (simp add: us word_le_nat_alt)
      then have "(10::int) ^ 39 \<le> 10 ^ s" by (intro power_increasing) auto
      then have b: "\<bar>u\<bar> < 10 ^ s" using assms by (simp add: dec_ok_def kNumericUnscaledMax_def us)
      have "u div 10 ^ s = (if u < 0 then -1 else 0)"
        using b by (auto simp: div_pos_neg_trivial intro!: int_div_pos_eq [where r = "u + 10 ^ s"])
      moreover have "(- u) div 10 ^ s = (if u > 0 then -1 else 0)"
        using b by (auto intro!: int_div_pos_eq [where r = "- u + 10 ^ s"])
      ultimately show ?thesis using True nz unfolding fl ce
        by (auto simp: trunc_dec_def us [symmetric] Let_def)
    next
      case False
      then have s38: "s \<le> 38" by (simp add: us word_le_nat_alt)
      then have p: "dec_pow10 (int s) = Inr (10 ^ s)" by (simp add: dec_pow10_def)
      have neg: "(- x) div 10 ^ s = (if x mod 10 ^ s = 0 then - (x div 10 ^ s) else - (x div 10 ^ s) - 1)" for x :: int
        by (rule zdiv_zminus1_eq_if) simp
      have "trunc_dec d up ret = Inr (numeric_val ret
          (let q = (if \<bar>u\<bar> mod 10 ^ s \<noteq> 0 \<and> up \<noteq> (u < 0) then \<bar>u\<bar> div 10 ^ s + 1 else \<bar>u\<bar> div 10 ^ s)
           in if u < 0 then - q else q) 0)"
        unfolding trunc_dec_def us(2) [symmetric] p using nz False by (simp add: us(1) Let_def)
      moreover have "(let q = (if \<bar>u\<bar> mod 10 ^ s \<noteq> 0 \<and> up \<noteq> (u < 0) then \<bar>u\<bar> div 10 ^ s + 1 else \<bar>u\<bar> div 10 ^ s)
           in if u < 0 then - q else q) = (if up then - ((- u) div 10 ^ s) else u div 10 ^ s)"
        using neg [of "\<bar>u\<bar>"] by (cases "u < 0") (auto simp: Let_def)
      ultimately show ?thesis unfolding fl ce by simp
    qed
  qed
qed

theorem trunc_dec_floor_ceil_witness:
  "trunc_dec (DecimalVal (- 15) 1) False kNumeric = Inr (numeric_val kNumeric \<lfloor>dec_real (DecimalVal (- 15) 1)\<rfloor> 0)"
  using trunc_dec_floor_ceil [of "DecimalVal (- 15) 1" False kNumeric]
  by (simp add: dec_ok_def kNumericUnscaledMax_def)

end
