(* ===== verification/TreeSafety.thy ===== *)
theory TreeSafety
  imports BTree Expr
begin

text \<open>
  What the pages of the B+ tree promise. Keys and entries are ordered as the comparison functions of
  the source order them, and that order is the one of expression evaluation. A leaf page implements
  a sorted list of entries, an inner page a list of separators with one more child; searching,
  inserting and splitting on the bytes are the list operations.
\<close>

section \<open>Cells\<close>

definition cell_bytes :: "btree_entry \<Rightarrow> bytes" where
  "cell_bytes e = le_bytes 8 (unat (key_val (be_key e))) @ [if key_null (be_key e) then 1 else 0]
     @ le_bytes 4 (unat (be_page e)) @ le_bytes 2 (unat (be_slot e))"

lemma length_cell_bytes [simp]: "length (cell_bytes e) = 15"
  by (simp add: cell_bytes_def)

lemma cell_put_at:
  assumes "off + 15 \<le> length p"
  shows "put_cell off e p = put_at off (cell_bytes e) p"
proof -
  let ?a = "le_bytes 8 (unat (key_val (be_key e)))" and ?b = "[if key_null (be_key e) then 1 else 0 :: byte]"
    and ?c = "le_bytes 4 (unat (be_page e))" and ?d = "le_bytes 2 (unat (be_slot e))"
  have "put_at (off + 8) ?b (put_at off ?a p) = put_at off (?a @ ?b) p"
    using put_put_append [of off ?a p ?b] assms by simp
  moreover have "put_at (off + 9) ?c (put_at off (?a @ ?b) p) = put_at off (?a @ ?b @ ?c) p"
    using put_put_append [of off "?a @ ?b" p ?c] assms by simp
  moreover have "put_at (off + 13) ?d (put_at off (?a @ ?b @ ?c) p) = put_at off (?a @ ?b @ ?c @ ?d) p"
    using put_put_append [of off "?a @ ?b @ ?c" p ?d] assms by simp
  ultimately show ?thesis by (simp add: cell_bytes_def put_cell_def Let_def cell_consts field_defs)
qed

lemma get_put_cell [simp]:
  assumes "off + 15 \<le> length p"
  shows "get_cell off (put_cell off e p) = e"
proof -
  obtain v b no sl where e: "e = BTreeEntry (IndexKey v b) no sl" by (metis btree_entry.collapse index_key.collapse)
  show ?thesis
    using assms by (auto simp: e get_cell_def put_cell_def Let_def cell_consts field_defs buf_simps get_put_disjoint nth_put_at)
qed

lemma get_cell_move:
  assumes "get_at off 15 p = get_at off2 15 q" "off + 15 \<le> length p" "off2 + 15 \<le> length q"
  shows "get_cell off p = get_cell off2 q"
proof -
  have g: "get_at (off + k) n p = get_at (off2 + k) n q" if "k + n \<le> 15" for k n
  proof -
    have "get_at k n (get_at off 15 p) = get_at k n (get_at off2 15 q)" using assms(1) by simp
    then show ?thesis using that by (simp add: get_at_def drop_take min_absorb1 add.commute)
  qed
  have "p ! (off + 8) = q ! (off2 + 8)"
    using arg_cong [where f = "\<lambda>bs. bs ! 0", OF g [of 8 1]] assms(2,3) by (simp add: nth_get_at)
  then show ?thesis using g [of 0 8] g [of 9 4] g [of 13 2] by (simp add: get_cell_def cell_consts rd16_def rd32_def rd64_def)
qed

lemmas get_cell_cong = get_cell_move [where ?off2.0 = off and off = off for off]

text \<open>Moving bytes within a page, as \<^verbatim>\<open>memmove\<close> does.\<close>

lemma get_moved:
  assumes "b + m \<le> length p" "d + m \<le> length p" "k + n \<le> m"
  shows "get_at (d + k) n (put_at d (get_at b m p) p) = get_at (b + k) n p"
  using assms by (intro nth_equalityI) (auto simp: get_at_def nth_put_at length_put_at add.assoc)

section \<open>Leaves as lists of entries\<close>

definition leaf_entries :: "bytes \<Rightarrow> btree_entry list" where
  "leaf_entries p = map (leaf_entry p \<circ> word_of_nat) [0..<unat (hd_slot_count p)]"

text \<open>Slots from the header on, cells from the end of the page down, every slot pointing to a cell.\<close>

definition leaf_ok :: "bytes \<Rightarrow> bool" where
  "leaf_ok p \<longleftrightarrow> (let n = unat (hd_slot_count p) in
     length p = PAGE_SIZE \<and> hd_magic p = MAGIC_BTREE_LEAF \<and> hd_type p = page_type_code BTreeLeaf
     \<and> 24 + 19 * n \<le> PAGE_SIZE \<and> unat (hd_free_begin p) = 24 + 4 * n \<and> unat (hd_free_end p) = PAGE_SIZE - 15 * n
     \<and> (\<forall>i < n. PAGE_SIZE - 15 * n \<le> unat (rd16 (24 + 4 * i) p) \<and> unat (rd16 (24 + 4 * i) p) + 15 \<le> PAGE_SIZE))"

lemma leaf_entry_nat: "i < 65536 \<Longrightarrow> leaf_entry p (word_of_nat i) = get_cell (unat (rd16 (24 + 4 * i) p)) p"
  by (simp add: leaf_entry_def leaf_slot_pos_def page_consts unat_of_nat mult.commute)

lemma leaf_entries_nth: "i < unat (hd_slot_count p) \<Longrightarrow> leaf_entries p ! i = get_cell (unat (rd16 (24 + 4 * i) p)) p"
  using unat16_less [of "hd_slot_count p"] by (simp add: leaf_entries_def leaf_entry_nat)

lemma length_leaf_entries [simp]: "length (leaf_entries p) = unat (hd_slot_count p)"
  by (simp add: leaf_entries_def)

text \<open>The effect of an insertion on the fields of the page.\<close>

lemma leaf_insert_fields:
  fixes p e pos
  defines "n \<equiv> unat (hd_slot_count p)" and "q \<equiv> leaf_insert_at pos e p"
  assumes "leaf_ok p" "24 + 19 * (n + 1) \<le> PAGE_SIZE" "unat pos \<le> n"
  shows "length q = PAGE_SIZE" "unat (hd_slot_count q) = n + 1" "unat (hd_free_begin q) = 24 + 4 * (n + 1)"
    "unat (hd_free_end q) = PAGE_SIZE - 15 * (n + 1)" "hd_magic q = hd_magic p" "hd_type q = hd_type p" "hd_next_page q = hd_next_page p"
    "i < n + 1 \<Longrightarrow> unat (rd16 (24 + 4 * i) q) = (if i < unat pos then unat (rd16 (24 + 4 * i) p)
        else if i = unat pos then PAGE_SIZE - 15 * (n + 1) else unat (rd16 (24 + 4 * (i - 1)) p))"
    "get_cell (PAGE_SIZE - 15 * (n + 1)) q = e"
    "PAGE_SIZE - 15 * n \<le> off \<Longrightarrow> off + 15 \<le> PAGE_SIZE \<Longrightarrow> get_cell off q = get_cell off p"
proof -
  let ?fe = "hd_free_end p - 15"
  have l: "length p = 4096" and fb: "unat (hd_free_begin p) = 24 + 4 * n" and fe: "unat (hd_free_end p) = 4096 - 15 * n"
    using assms(3) by (simp_all add: leaf_ok_def Let_def n_def PAGE_SIZE_def)
  have n: "24 + 19 * (n + 1) \<le> 4096" using assms(4) by (simp add: PAGE_SIZE_def)
  then have nb: "n \<le> 213" by presburger
  define c where "c = 4096 - 15 * (n + 1)"
  have c: "c + 15 * n + 15 = 4096" "28 + 4 * n \<le> c" "PAGE_SIZE - 15 * (n + 1) = c" "PAGE_SIZE - 15 * n = c + 15"
    using n by (simp_all add: c_def PAGE_SIZE_def)
  have fe1: "unat ?fe = c" using fe nb c(1) by (subst unat_sub) (simp_all add: word_le_nat_alt)
  have fb1: "unat (hd_free_begin p + 4) = 24 + 4 * (n + 1)" using fb nb c(1,2) by (simp add: unat_word_ariths)
  have c1: "unat (hd_slot_count p + 1) = n + 1" using nb c(1,2) by (simp add: unat_word_ariths n_def)
  have pos1: "unat (pos + 1) = unat pos + 1" using assms(5) nb c(1,2) by (simp add: unat_word_ariths)
  let ?m = "get_at (24 + 4 * unat pos) ((n - unat pos) * 4) p"
  have ml: "length ?m = (n - unat pos) * 4" using l nb c(1,2) by (simp add: get_at_def)
  define p1 where "p1 = put_at (24 + 4 * (unat pos + 1)) ?m p"
  define p2 where "p2 = wr16 12 ?fe p1"
  define p3 where "p3 = put_cell c e p2"
  define p4 where "p4 = wr16 (24 + 4 * unat pos) ?fe p3"
  define p5 where "p5 = wr16 (24 + 4 * unat pos + 2) 15 p4"
  define p6 where "p6 = wr16 10 (hd_free_begin p + 4) p5"
  have l1: "length p1 = 4096" using l ml nb c(1,2) assms(5) by (simp add: p1_def length_put_at)
  have l2: "length p2 = 4096" using l1 by (simp add: p2_def buf_simps)
  have c3: "p3 = put_at c (cell_bytes e) p2" unfolding p3_def using l2 nb c(1,2) by (subst cell_put_at) simp_all
  have l3: "length p3 = 4096" using l2 nb c(1,2) by (simp add: c3 length_put_at)
  have l4: "length p4 = 4096" using l3 nb c(1,2) assms(5) by (simp add: p4_def buf_simps)
  have l5: "length p5 = 4096" using l4 nb c(1,2) assms(5) by (simp add: p5_def buf_simps)
  have l6: "length p6 = 4096" using l5 by (simp add: p6_def buf_simps)
  have q: "q = wr16 8 (hd_slot_count p + 1) p6"
  proof -
    have h1: "hd_free_end p1 = hd_free_end p" using l ml nb c(1,2) assms(5) by (simp add: p1_def hd_free_end_def buf_simps)
    have h2: "hd_free_end p2 = ?fe" using l1 by (simp add: p2_def hd_free_end_def buf_simps)
    have h3: "hd_free_end p3 = ?fe" using l2 h2 nb c(1,2) by (simp add: c3 hd_free_end_def rd_put)
    have h5: "hd_free_begin p5 = hd_free_begin p"
      using l l1 l2 l3 l4 ml nb c(1,2) assms(5) by (simp add: p5_def p4_def c3 p2_def p1_def hd_free_begin_def buf_simps)
    show ?thesis unfolding q_def leaf_insert_at_def Let_def leaf_slot_pos_def pos1 n_def [symmetric]
      using h1 h2 h3 h5 fe1
      by (simp add: page_consts cell_consts p6_def p5_def p4_def p3_def p2_def p1_def set_slot_count_def set_free_begin_def set_free_end_def mult.commute)
  qed
  show "length q = PAGE_SIZE" using l6 by (simp add: q buf_simps PAGE_SIZE_def)
  show "unat (hd_slot_count q) = n + 1" using l6 c1 by (simp add: q hd_slot_count_def buf_simps)
  have "hd_free_begin q = hd_free_begin p + 4" using l5 l6 by (simp add: q p6_def hd_free_begin_def buf_simps)
  then show "unat (hd_free_begin q) = 24 + 4 * (n + 1)" using fb1 by simp
  have "hd_free_end q = ?fe"
    using l1 l2 l3 l4 l5 l6 nb c(1,2) assms(5) by (simp add: q p6_def p5_def p4_def c3 p2_def hd_free_end_def buf_simps)
  then show "unat (hd_free_end q) = PAGE_SIZE - 15 * (n + 1)" using fe1 c(3) by simp
  have hd: "get_at off k q = get_at off k p" if "off + k \<le> 8 \<or> 14 \<le> off \<and> off + k \<le> 24" for off k
  proof -
    have r: "off + k \<le> 8 \<or> 14 \<le> off" "off + k \<le> 24" "off + k \<le> 4096" using that by auto
    have "get_at off k q = get_at off k p6" unfolding q using r l6 by (intro get_wr) auto
    also have "\<dots> = get_at off k p5" unfolding p6_def using r l5 by (intro get_wr) auto
    also have "\<dots> = get_at off k p4" unfolding p5_def using r l4 c(1,2) assms(5) by (intro get_wr) auto
    also have "\<dots> = get_at off k p3" unfolding p4_def using r l3 c(1,2) assms(5) by (intro get_wr) auto
    also have "\<dots> = get_at off k p2" unfolding c3 using r l2 c(1,2) by (intro get_put_disjoint) auto
    also have "\<dots> = get_at off k p1" unfolding p2_def using r l1 by (intro get_wr) auto
    also have "\<dots> = get_at off k p" unfolding p1_def using r l ml c(1,2) assms(5) by (intro get_put_disjoint) auto
    finally show ?thesis .
  qed
  show "hd_magic q = hd_magic p" "hd_next_page q = hd_next_page p" by (simp_all add: hd_magic_def hd_next_page_def rd32_def hd)
  have lq: "length q = 4096" using l6 by (simp add: q buf_simps)
  show "hd_type q = hd_type p" using arg_cong [where f = "\<lambda>bs. bs ! 0", OF hd [of 4 1]] l lq by (simp add: hd_type_def nth_get_at)
  have cells: "get_at off k q = get_at off k p3" if "c \<le> off" "off + k \<le> 4096" for off k
    using that l3 l4 l5 l6 nb c(1,2) assms(5) by (simp add: q p6_def p5_def p4_def get_wr)
  have "get_cell c q = get_cell c p3"
    using l3 lq nb c(1,2) by (intro get_cell_cong cells) simp_all
  also have "\<dots> = e" unfolding p3_def using l2 nb c(1,2) by (intro get_put_cell) simp
  finally show "get_cell (PAGE_SIZE - 15 * (n + 1)) q = e" using c(3) by simp
  show "get_cell off q = get_cell off p" if o: "PAGE_SIZE - 15 * n \<le> off" "off + 15 \<le> PAGE_SIZE"
  proof (rule get_cell_cong)
    have "get_at off 15 q = get_at off 15 p3" using o c by (intro cells) (simp_all add: PAGE_SIZE_def)
    also have "\<dots> = get_at off 15 p"
    proof -
      have r: "c + 15 \<le> off" "off + 15 \<le> 4096" using o c(4) by (simp_all add: PAGE_SIZE_def)
      have "get_at off 15 p3 = get_at off 15 p2" using r l2 by (simp add: c3 get_put_disjoint)
      also have "\<dots> = get_at off 15 p1" using r l1 c(1,2) by (simp add: p2_def get_wr)
      also have "\<dots> = get_at off 15 p" using r l ml c(1,2) assms(5) by (simp add: p1_def get_put_disjoint)
      finally show ?thesis .
    qed
    finally show "get_at off 15 q = get_at off 15 p" .
  qed (use o l lq in \<open>simp_all add: PAGE_SIZE_def\<close>)
  assume i: "i < n + 1"
  have low: "get_at (24 + 4 * i) 2 q = get_at (24 + 4 * i) 2 p4"
  proof -
    have d: "24 + 4 * i + 2 \<le> 24 + 4 * unat pos + 2 \<or> 24 + 4 * unat pos + 2 + 2 \<le> 24 + 4 * i"
      by (cases "i \<le> unat pos") simp_all
    have "get_at (24 + 4 * i) 2 q = get_at (24 + 4 * i) 2 p5" using i l5 l6 c(1,2) by (simp add: q p6_def get_wr)
    also have "\<dots> = get_at (24 + 4 * i) 2 p4"
      unfolding p5_def using d i l4 c(1,2) assms(5) by (intro get_wr) linarith+
    finally show ?thesis .
  qed
  have low3: "get_at off 2 p3 = get_at off 2 p1" if "24 \<le> off" "off + 2 \<le> 28 + 4 * n" for off
    using that l1 l2 nb c(1,2) by (simp add: c3 p2_def get_wr get_put_disjoint)
  show "unat (rd16 (24 + 4 * i) q) = (if i < unat pos then unat (rd16 (24 + 4 * i) p)
        else if i = unat pos then PAGE_SIZE - 15 * (n + 1) else unat (rd16 (24 + 4 * (i - 1)) p))"
  proof (cases "i = unat pos")
    case True
    then show ?thesis using low l3 nb c(1,2) i fe1 c(3) by (simp add: rd16_def p4_def) (simp add: wr16_def get_put_same)
  next
    case False
    then have d: "24 + 4 * i + 2 \<le> 24 + 4 * unat pos \<or> 24 + 4 * unat pos + 2 \<le> 24 + 4 * i" by (cases "i < unat pos") simp_all
    have "get_at (24 + 4 * i) 2 p4 = get_at (24 + 4 * i) 2 p3"
      unfolding p4_def using d l3 c(1,2) i assms(5) by (intro get_wr) linarith+
    also have "\<dots> = get_at (24 + 4 * i) 2 p1" using i by (intro low3) simp_all
    finally have g: "get_at (24 + 4 * i) 2 q = get_at (24 + 4 * i) 2 p1" using low by simp
    show ?thesis
    proof (cases "i < unat pos")
      case True
      then show ?thesis using g l ml nb c(1,2) assms(5) by (simp add: rd16_def p1_def get_put_disjoint)
    next
      case gt: False
      then obtain j where j: "i = Suc j" using False by (cases i) auto
      have "get_at (24 + 4 * i) 2 p1 = get_at (24 + 4 * (i - 1)) 2 p"
        using get_moved [of "24 + 4 * unat pos" "(n - unat pos) * 4" p "24 + 4 * (unat pos + 1)" "4 * (j - unat pos)" 2] False gt i j l c(1,2)
        by (simp add: p1_def algebra_simps)
      then show ?thesis using g gt False by (simp add: rd16_def)
    qed
  qed
qed


lemma leaf_insert_refines:
  assumes "leaf_ok p" "24 + 19 * (unat (hd_slot_count p) + 1) \<le> PAGE_SIZE" "unat pos \<le> unat (hd_slot_count p)"
  shows "leaf_ok (leaf_insert_at pos e p)"
    "leaf_entries (leaf_insert_at pos e p) = take (unat pos) (leaf_entries p) @ e # drop (unat pos) (leaf_entries p)"
proof -
  let ?q = "leaf_insert_at pos e p" and ?n = "unat (hd_slot_count p)"
  note f = leaf_insert_fields [OF assms, where e = e]
  have old: "PAGE_SIZE - 15 * ?n \<le> unat (rd16 (24 + 4 * i) p) \<and> unat (rd16 (24 + 4 * i) p) + 15 \<le> PAGE_SIZE" if "i < ?n" for i
    using assms(1) that by (simp add: leaf_ok_def Let_def)
  have new: "PAGE_SIZE - 15 * (?n + 1) \<le> unat (rd16 (24 + 4 * i) ?q) \<and> unat (rd16 (24 + 4 * i) ?q) + 15 \<le> PAGE_SIZE" if i: "i < ?n + 1" for i
  proof -
    consider "i < unat pos" | "i = unat pos" | "unat pos < i" "i - 1 < ?n" using i by linarith
    then show ?thesis
    proof cases
      case 1
      then show ?thesis using f(8) [OF i] old [of i] assms(3) by simp linarith
    next
      case 2
      then show ?thesis using f(8) [OF i] assms(2) by simp
    next
      case 3
      then show ?thesis using f(8) [OF i] old [of "i - 1"] by simp linarith
    qed
  qed
  show "leaf_ok ?q" unfolding leaf_ok_def Let_def f(2)
    using f(1,3-6) assms(1,2) new by (simp add: leaf_ok_def Let_def)
  have get: "get_cell (unat (rd16 (24 + 4 * i) p)) ?q = leaf_entries p ! i" if "i < ?n" for i
    using f(10) old [OF that] leaf_entries_nth [OF that] by simp
  show "leaf_entries ?q = take (unat pos) (leaf_entries p) @ e # drop (unat pos) (leaf_entries p)"
  proof (rule nth_equalityI)
    show "length (leaf_entries ?q) = length (take (unat pos) (leaf_entries p) @ e # drop (unat pos) (leaf_entries p))"
      using f(2) assms(3) by simp
    fix i
    assume "i < length (leaf_entries ?q)"
    then have i: "i < ?n + 1" using f(2) by simp
    have q: "leaf_entries ?q ! i = get_cell (unat (rd16 (24 + 4 * i) ?q)) ?q" using i f(2) by (intro leaf_entries_nth) simp
    consider "i < unat pos" | "i = unat pos" | j where "i = Suc j" "unat pos \<le> j" "j < ?n" using i by (cases i) force+
    then show "leaf_entries ?q ! i = (take (unat pos) (leaf_entries p) @ e # drop (unat pos) (leaf_entries p)) ! i"
      using q f(8) [OF i] f(9) get assms(3) by cases (auto simp: nth_append)
  qed
qed

text \<open>Room for one more entry, as the source tests it.\<close>

lemma leaf_room:
  assumes "leaf_ok p"
  shows "word_of_nat SLOT_SIZE + word_of_nat BTREE_CELL_SIZE \<le> free_space p \<longleftrightarrow> 24 + 19 * (unat (hd_slot_count p) + 1) \<le> PAGE_SIZE"
proof -
  let ?n = "unat (hd_slot_count p)"
  have l: "24 + 19 * ?n \<le> 4096" "unat (hd_free_begin p) = 24 + 4 * ?n" "unat (hd_free_end p) = 4096 - 15 * ?n"
    using assms by (simp_all add: leaf_ok_def Let_def PAGE_SIZE_def)
  have "unat (free_space p) = 4096 - 15 * ?n - (24 + 4 * ?n)"
    using l by (simp add: free_space_def unat_sub word_le_nat_alt)
  then show ?thesis using l by (simp add: word_le_nat_alt page_consts cell_consts) linarith
qed

section \<open>The order of entries\<close>

instantiation index_key :: linorder
begin

definition less_eq_index_key :: "index_key \<Rightarrow> index_key \<Rightarrow> bool" where "a \<le> b \<longleftrightarrow> key_cmp a b \<le> 0"
definition less_index_key :: "index_key \<Rightarrow> index_key \<Rightarrow> bool" where "a < b \<longleftrightarrow> key_cmp a b < 0"

instance
proof
  fix x y z :: index_key
  show "x < y \<longleftrightarrow> x \<le> y \<and> \<not> y \<le> x"
    by (cases x; cases y) (auto simp: less_eq_index_key_def less_index_key_def key_cmp_def)
  show "x \<le> x" by (simp add: less_eq_index_key_def key_cmp_def)
  show "x \<le> y \<Longrightarrow> y \<le> z \<Longrightarrow> x \<le> z"
    by (cases x; cases y; cases z) (auto simp: less_eq_index_key_def key_cmp_def split: if_splits)
  show "x \<le> y \<Longrightarrow> y \<le> x \<Longrightarrow> x = y"
    by (cases x; cases y) (auto simp: less_eq_index_key_def key_cmp_def split: if_splits)
  show "x \<le> y \<or> y \<le> x"
    by (cases x; cases y) (auto simp: less_eq_index_key_def key_cmp_def)
qed

end

lemma key_cmp_sign: "key_cmp a b < 0 \<longleftrightarrow> a < b" "key_cmp a b \<le> 0 \<longleftrightarrow> a \<le> b" "key_cmp a b > 0 \<longleftrightarrow> b < a" "key_cmp a b \<ge> 0 \<longleftrightarrow> b \<le> a"
  "key_cmp a b = 0 \<longleftrightarrow> a = b"
proof -
  have c: "key_cmp b a = - key_cmp a b" by (auto simp: key_cmp_def)
  show 1: "key_cmp a b < 0 \<longleftrightarrow> a < b" "key_cmp a b \<le> 0 \<longleftrightarrow> a \<le> b" by (simp_all add: less_eq_index_key_def less_index_key_def)
  show 2: "key_cmp a b > 0 \<longleftrightarrow> b < a" "key_cmp a b \<ge> 0 \<longleftrightarrow> b \<le> a" by (simp_all add: less_eq_index_key_def less_index_key_def c)
  show "key_cmp a b = 0 \<longleftrightarrow> a = b" using 1(2) 2(2) by (simp add: eq_iff [of "key_cmp a b"] eq_iff [of a])
qed

instantiation btree_entry :: linorder
begin

definition less_eq_btree_entry :: "btree_entry \<Rightarrow> btree_entry \<Rightarrow> bool" where "a \<le> b \<longleftrightarrow> entry_cmp a b \<le> 0"
definition less_btree_entry :: "btree_entry \<Rightarrow> btree_entry \<Rightarrow> bool" where "a < b \<longleftrightarrow> entry_cmp a b < 0"

instance
proof
  fix x y z :: btree_entry
  have alt: "entry_cmp a b \<le> 0 \<longleftrightarrow> be_key a < be_key b \<or> be_key a = be_key b \<and> (be_page a < be_page b \<or> be_page a = be_page b \<and> be_slot a \<le> be_slot b)"
    "entry_cmp a b < 0 \<longleftrightarrow> be_key a < be_key b \<or> be_key a = be_key b \<and> (be_page a < be_page b \<or> be_page a = be_page b \<and> be_slot a < be_slot b)" for a b
    using key_cmp_sign [of "be_key a" "be_key b"] by (auto simp: entry_cmp_def Let_def)
  show "x < y \<longleftrightarrow> x \<le> y \<and> \<not> y \<le> x" by (auto simp: less_eq_btree_entry_def less_btree_entry_def alt)
  show "x \<le> x" by (simp add: less_eq_btree_entry_def alt)
  show "x \<le> y \<Longrightarrow> y \<le> z \<Longrightarrow> x \<le> z" by (auto simp: less_eq_btree_entry_def alt)
  show "x \<le> y \<Longrightarrow> y \<le> x \<Longrightarrow> x = y" by (auto simp: less_eq_btree_entry_def alt intro: btree_entry.expand)
  show "x \<le> y \<or> y \<le> x" by (auto simp: less_eq_btree_entry_def alt)
qed

end

lemma entry_cmp_sign: "entry_cmp a b < 0 \<longleftrightarrow> a < b" "entry_cmp a b \<le> 0 \<longleftrightarrow> a \<le> b"
  by (simp_all add: less_eq_btree_entry_def less_btree_entry_def)

lemma entry_key_mono: "a \<le> b \<Longrightarrow> be_key a \<le> be_key b"
proof -
  assume "a \<le> b"
  then have "entry_cmp a b \<le> 0" by (simp add: entry_cmp_sign)
  then have "key_cmp (be_key a) (be_key b) \<le> 0" by (auto simp: entry_cmp_def Let_def split: if_splits)
  then show "be_key a \<le> be_key b" by (simp add: key_cmp_sign)
qed

section \<open>Binary search\<close>

lemma bsearch_spec:
  assumes "lo \<le> hi" "\<And>i j. unat lo \<le> i \<Longrightarrow> i \<le> j \<Longrightarrow> j < unat hi \<Longrightarrow> before (word_of_nat j) \<Longrightarrow> before (word_of_nat i)"
  shows "unat lo \<le> unat (bsearch before lo hi) \<and> unat (bsearch before lo hi) \<le> unat hi
    \<and> (\<forall>i. unat lo \<le> i \<and> i < unat (bsearch before lo hi) \<longrightarrow> before (word_of_nat i))
    \<and> (\<forall>i. unat (bsearch before lo hi) \<le> i \<and> i < unat hi \<longrightarrow> \<not> before (word_of_nat i))"
  using assms
proof (induction before lo hi rule: bsearch.induct)
  case (1 before lo hi)
  show ?case
  proof (cases "lo < hi")
    case False
    then have "unat lo = unat hi" using 1(3) by (auto simp: word_le_nat_alt word_less_nat_alt)
    then show ?thesis using False by (auto simp: bsearch.simps [of before lo hi])
  next
    case lt: True
    define mid where "mid = lo + (hi - lo) div 2"
    note m = mid_between [OF lt, folded mid_def]
    have l: "unat lo < unat hi" using lt by (simp add: word_less_nat_alt)
    have wm: "word_of_nat (unat mid) = mid" by simp
    show ?thesis
    proof (cases "before mid")
      case True
      have b: "bsearch before lo hi = bsearch before (mid + 1) hi"
        using lt True by (simp add: bsearch.simps [of before lo hi] mid_def [symmetric])
      have le: "mid + 1 \<le> hi" using m(3,4) l by (simp add: word_le_nat_alt)
      have ih: "unat (mid + 1) \<le> unat (bsearch before (mid + 1) hi) \<and> unat (bsearch before (mid + 1) hi) \<le> unat hi
        \<and> (\<forall>i. unat (mid + 1) \<le> i \<and> i < unat (bsearch before (mid + 1) hi) \<longrightarrow> before (word_of_nat i))
        \<and> (\<forall>i. unat (bsearch before (mid + 1) hi) \<le> i \<and> i < unat hi \<longrightarrow> \<not> before (word_of_nat i))"
      proof (rule 1(1) [OF lt mid_def True le])
        fix i j
        assume "unat (mid + 1) \<le> i" "i \<le> j" "j < unat hi" "before (word_of_nat j)"
        then show "before (word_of_nat i)" using m(3,4) l by (intro 1(4) [of i j]) linarith+
      qed
      have "before (word_of_nat i)" if "unat lo \<le> i" "i < unat (mid + 1)" for i
        using 1(4) [OF that(1), of "unat mid"] that m(3,4) l True wm by simp
      moreover have "unat lo \<le> unat (mid + 1)" using m(3,4) l by linarith
      ultimately show ?thesis unfolding b using ih by (meson le_trans not_le)
    next
      case False
      have b: "bsearch before lo hi = bsearch before lo mid"
        using lt False by (simp add: bsearch.simps [of before lo hi] mid_def [symmetric])
      have ih: "unat lo \<le> unat (bsearch before lo mid) \<and> unat (bsearch before lo mid) \<le> unat mid
        \<and> (\<forall>i. unat lo \<le> i \<and> i < unat (bsearch before lo mid) \<longrightarrow> before (word_of_nat i))
        \<and> (\<forall>i. unat (bsearch before lo mid) \<le> i \<and> i < unat mid \<longrightarrow> \<not> before (word_of_nat i))"
      proof (rule 1(2) [OF lt mid_def False m(1)])
        fix i j
        assume "unat lo \<le> i" "i \<le> j" "j < unat mid" "before (word_of_nat j)"
        then show "before (word_of_nat i)" using m(3) l by (intro 1(4) [of i j]) linarith+
      qed
      have "\<not> before (word_of_nat i)" if "unat mid \<le> i" "i < unat hi" for i
      proof
        assume b: "before (word_of_nat i)"
        have "unat lo \<le> unat mid" using m(3) l by linarith
        then have "before (word_of_nat (unat mid))" using that b by (rule 1(4))
        then show False using False by simp
      qed
      moreover have "unat mid \<le> unat hi" using m(3) l by linarith
      ultimately show ?thesis unfolding b using ih by (meson le_trans not_le)
    qed
  qed
qed

text \<open>Over a sorted list the search finds the boundary.\<close>

lemma bsearch_sorted:
  assumes "unat hi \<le> length xs" "\<And>i. i < unat hi \<Longrightarrow> f (word_of_nat i) = xs ! i" "sorted xs"
    and "\<And>x y. x \<le> y \<Longrightarrow> P y \<Longrightarrow> P x"
  shows "unat (bsearch (\<lambda>m. P (f m)) 0 hi) = length (takeWhile P (take (unat hi) xs))"
proof -
  let ?r = "unat (bsearch (\<lambda>m. P (f m)) 0 hi)"
  have mono: "P (f (word_of_nat i))" if "i \<le> j" "j < unat hi" "P (f (word_of_nat j))" for i j
    using that assms(1,2) assms(4) [OF sorted_nth_mono [OF assms(3), of i j]] by simp
  have s: "?r \<le> unat hi" "\<And>i. i < ?r \<Longrightarrow> P (f (word_of_nat i))" "\<And>i. ?r \<le> i \<Longrightarrow> i < unat hi \<Longrightarrow> \<not> P (f (word_of_nat i))"
    using bsearch_spec [of 0 hi "\<lambda>m. P (f m)"] mono by (simp_all add: word_le_nat_alt)
  show ?thesis
  proof -
    have "takeWhile P (take (unat hi) xs) = take ?r (take (unat hi) xs)"
    proof (rule takeWhile_eq_take_P_nth)
      show "P (take (unat hi) xs ! i)" if "i < ?r" "i < length (take (unat hi) xs)" for i
        using s(2) [OF that(1)] assms(2) [of i] that by simp
      show "\<not> P (take (unat hi) xs ! ?r)" if "?r < length (take (unat hi) xs)"
        using that s(3) [of ?r] assms(2) [of ?r] by simp
    qed
    then show ?thesis using s(1) assms(1) by simp
  qed
qed

lemma leaf_lower_bound_sorted:
  assumes "sorted (leaf_entries p)"
  shows "unat (leaf_lower_bound p e) = length (takeWhile (\<lambda>x. x < e) (leaf_entries p))"
  using bsearch_sorted [of "hd_slot_count p" "leaf_entries p" "leaf_entry p" "\<lambda>x. x < e"] assms
  by (simp add: leaf_lower_bound_def entry_cmp_sign leaf_entries_def)

lemma insert_at_boundary: "take (length (takeWhile (\<lambda>x. x < e) xs)) xs @ e # drop (length (takeWhile (\<lambda>x. x < e) xs)) xs = insort e xs"
  by (induction xs) auto

text \<open>Insertion at the position the search gives is sorted insertion.\<close>

lemma leaf_insert_sorted:
  assumes "leaf_ok p" "24 + 19 * (unat (hd_slot_count p) + 1) \<le> PAGE_SIZE" "sorted (leaf_entries p)"
  shows "leaf_ok (leaf_insert_at (leaf_lower_bound p e) e p)"
    "leaf_entries (leaf_insert_at (leaf_lower_bound p e) e p) = insort e (leaf_entries p)"
proof -
  have b: "unat (leaf_lower_bound p e) \<le> unat (hd_slot_count p)"
    using leaf_lower_bound_sorted [OF assms(3)] length_takeWhile_le [of "\<lambda>x. x < e" "leaf_entries p"] by simp
  show "leaf_ok (leaf_insert_at (leaf_lower_bound p e) e p)" by (rule leaf_insert_refines(1) [OF assms(1,2) b])
  show "leaf_entries (leaf_insert_at (leaf_lower_bound p e) e p) = insort e (leaf_entries p)"
    unfolding leaf_insert_refines(2) [OF assms(1,2) b] leaf_lower_bound_sorted [OF assms(3)] by (rule insert_at_boundary)
qed

section \<open>Building leaves\<close>

lemma init_page_type: "hd_type (init_page m t) = page_type_code t"
proof -
  have l: "length (set_free_end e (set_free_begin b (set_type y (set_magic m (replicate PAGE_SIZE 0))))) = PAGE_SIZE" for e b y
    by (simp add: header_defs buf_simps page_consts)
  show ?thesis unfolding init_page_def Let_def hd_type_def
    by (subst nth_seal) (simp_all add: l header_defs wr16_def wr32_def nth_put_at length_put_at page_consts)
qed

lemma empty_leaf: "leaf_ok (init_page MAGIC_BTREE_LEAF BTreeLeaf)" "leaf_entries (init_page MAGIC_BTREE_LEAF BTreeLeaf) = []"
proof -
  show "leaf_ok (init_page MAGIC_BTREE_LEAF BTreeLeaf)" by (simp add: leaf_ok_def init_page_fields init_page_type PAGE_SIZE_def Let_def)
  show "leaf_entries (init_page MAGIC_BTREE_LEAF BTreeLeaf) = []" by (simp add: leaf_entries_def init_page_fields)
qed

lemma leaf_build_entries:
  assumes "from + m \<le> length es" "m \<le> 214"
  shows "leaf_ok (leaf_build es from (from + m)) \<and> leaf_entries (leaf_build es from (from + m)) = take m (drop from es)"
  using assms
proof (induction m)
  case 0
  then show ?case by (simp add: leaf_build_def empty_leaf)
next
  case (Suc m)
  let ?p = "leaf_build es from (from + m)"
  have ih: "leaf_ok ?p" "leaf_entries ?p = take m (drop from es)" using Suc by auto
  have n: "unat (hd_slot_count ?p) = m" using arg_cong [where f = length, OF ih(2)] Suc.prems by simp
  have w: "unat (word_of_nat m :: u16) = m" using Suc.prems by (simp add: unat_of_nat)
  have b: "leaf_build es from (from + Suc m) = leaf_insert_at (word_of_nat m) (es ! (from + m)) ?p" by (simp add: leaf_build_def)
  have r: "24 + 19 * (unat (hd_slot_count ?p) + 1) \<le> PAGE_SIZE" "unat (word_of_nat m :: u16) \<le> unat (hd_slot_count ?p)"
    using Suc.prems n w by (simp_all add: PAGE_SIZE_def)
  show ?case unfolding b using leaf_insert_refines [OF ih(1) r, of "es ! (from + m)"] w ih(2) Suc.prems
    by (simp add: take_Suc_conv_app_nth)
qed

section \<open>Inner nodes as separators and children\<close>

definition node_seps :: "bytes \<Rightarrow> btree_entry list" where
  "node_seps p = map (\<lambda>i. get_cell (24 + 15 * i) p) [0..<unat (hd_slot_count p)]"

definition node_children :: "bytes \<Rightarrow> u32 list" where
  "node_children p = map (\<lambda>j. rd32 (4092 - 4 * j) p) [0..<unat (hd_slot_count p) + 1]"

definition node_ok :: "bytes \<Rightarrow> bool" where
  "node_ok p \<longleftrightarrow> (let n = unat (hd_slot_count p) in
     length p = PAGE_SIZE \<and> hd_magic p = MAGIC_BTREE_LEAF \<and> hd_type p = page_type_code BTreeInternal
     \<and> 28 + 19 * n \<le> PAGE_SIZE \<and> unat (hd_free_begin p) = 24 + 15 * n \<and> unat (hd_free_end p) = PAGE_SIZE - 4 * (n + 1))"

lemma length_node_lists [simp]: "length (node_seps p) = unat (hd_slot_count p)" "length (node_children p) = unat (hd_slot_count p) + 1"
  by (simp_all add: node_seps_def node_children_def)

lemma node_sep_nat: "i < 65536 \<Longrightarrow> node_sep p (word_of_nat i) = get_cell (24 + 15 * i) p"
  by (simp add: node_sep_def sep_pos_def page_consts cell_consts unat_of_nat mult.commute)

lemma node_child_nat: "j < 65536 \<Longrightarrow> node_child p (word_of_nat j) = rd32 (4092 - 4 * j) p"
  by (simp add: node_child_def child_pos_def page_consts unat_of_nat mult.commute)

text \<open>The effect of an insertion.\<close>

lemma node_insert_fields:
  fixes p sep right i
  defines "n \<equiv> unat (hd_slot_count p)" and "q \<equiv> node_insert_at i sep right p"
  assumes "node_ok p" "28 + 19 * (n + 1) \<le> PAGE_SIZE" "unat i \<le> n"
  shows "length q = PAGE_SIZE" "unat (hd_slot_count q) = n + 1" "unat (hd_free_begin q) = 24 + 15 * (n + 1)"
    "unat (hd_free_end q) = PAGE_SIZE - 4 * (n + 2)" "hd_magic q = hd_magic p" "hd_type q = hd_type p"
    "k < n + 1 \<Longrightarrow> get_cell (24 + 15 * k) q = (if k < unat i then get_cell (24 + 15 * k) p
        else if k = unat i then sep else get_cell (24 + 15 * (k - 1)) p)"
    "j < n + 2 \<Longrightarrow> rd32 (4092 - 4 * j) q = (if j \<le> unat i then rd32 (4092 - 4 * j) p
        else if j = unat i + 1 then right else rd32 (4092 - 4 * (j - 1)) p)"
proof -
  have l: "length p = 4096" and fb: "unat (hd_free_begin p) = 24 + 15 * n" and fe: "unat (hd_free_end p) = 4092 - 4 * n"
    using assms(3) by (simp_all add: node_ok_def Let_def n_def PAGE_SIZE_def)
  have n: "28 + 19 * (n + 1) \<le> 4096" using assms(4) by (simp add: PAGE_SIZE_def)
  then have nb: "n \<le> 213" by presburger
  define c where "c = 4088 - 4 * n"
  have c: "c + 4 * n = 4088" "39 + 15 * n \<le> c" using n by (simp_all add: c_def)
  have fb1: "unat (hd_free_begin p + 15) = 24 + 15 * (n + 1)" using fb nb by (simp add: unat_word_ariths)
  have fe1: "unat (hd_free_end p - 4) = 4092 - 4 * (n + 1)" using fe nb by (subst unat_sub) (simp_all add: word_le_nat_alt)
  have c1: "unat (hd_slot_count p + 1) = n + 1" using nb by (simp add: unat_word_ariths n_def)
  have i1: "unat (i + 1) = unat i + 1" using assms(5) nb by (simp add: unat_word_ariths)
  define p1 where "p1 = put_at (24 + 15 * (unat i + 1)) (get_at (24 + 15 * unat i) (15 * (n - unat i)) p) p"
  define p2 where "p2 = put_at c (get_at (c + 4) (4 * (n - unat i)) p1) p1"
  define p3 where "p3 = put_cell (24 + 15 * unat i) sep p2"
  define p4 where "p4 = wr32 (4092 - 4 * (unat i + 1)) right p3"
  define p5 where "p5 = wr16 10 (hd_free_begin p + 15) p4"
  define p6 where "p6 = wr16 12 (hd_free_end p - 4) p5"
  have m1: "length (get_at (24 + 15 * unat i) (15 * (n - unat i)) p) = 15 * (n - unat i)" using l c assms(5) by (simp add: get_at_def)
  have l1: "length p1 = 4096" using l m1 c assms(5) by (simp add: p1_def length_put_at)
  have m2: "length (get_at (c + 4) (4 * (n - unat i)) p1) = 4 * (n - unat i)" using l1 c assms(5) by (simp add: get_at_def)
  have l2: "length p2 = 4096" using l1 m2 c assms(5) by (simp add: p2_def length_put_at)
  have c3: "p3 = put_at (24 + 15 * unat i) (cell_bytes sep) p2" unfolding p3_def using l2 c assms(5) by (subst cell_put_at) simp_all
  have l3: "length p3 = 4096" using l2 c assms(5) by (simp add: c3 length_put_at)
  define d where "d = 4092 - 4 * (unat i + 1)"
  have d: "d + 4 * unat i = 4088" "c \<le> d" using nb assms(5) c by (simp_all add: d_def)
  have p4: "p4 = wr32 d right p3" by (simp add: p4_def d_def)
  have l4: "length p4 = 4096" using l3 d by (simp add: p4 buf_simps)
  have l5: "length p5 = 4096" using l4 by (simp add: p5_def buf_simps)
  have l6: "length p6 = 4096" using l5 by (simp add: p6_def buf_simps)
  have hd: "get_at off k p4 = get_at off k p" if "off + k \<le> 24" for off k
  proof -
    have "get_at off k p4 = get_at off k p3" unfolding p4 using that l3 c d by (intro get_wr) linarith+
    also have "\<dots> = get_at off k p2" unfolding c3 using that l2 c assms(5) by (intro get_put_disjoint) auto
    also have "\<dots> = get_at off k p1" unfolding p2_def using that l1 m2 c assms(5) by (intro get_put_disjoint) auto
    also have "\<dots> = get_at off k p" unfolding p1_def using that l m1 c assms(5) by (intro get_put_disjoint) auto
    finally show ?thesis .
  qed
  have h4: "hd_free_begin p4 = hd_free_begin p" "hd_free_end p4 = hd_free_end p" by (simp_all add: hd_free_begin_def hd_free_end_def rd16_def hd)
  have h5: "hd_free_end p5 = hd_free_end p" using l4 h4(2) by (simp add: p5_def hd_free_end_def buf_simps)
  have q: "q = wr16 8 (hd_slot_count p + 1) p6"
  proof -
    have e: "child_pos (n + 1) = c" "child_pos n = c + 4" "sep_pos k = 24 + 15 * k" "child_pos (unat i + 1) = 4092 - 4 * (unat i + 1)" for k
      using c nb by (simp_all add: child_pos_def sep_pos_def page_consts cell_consts c_def)
    show ?thesis
      unfolding q_def node_insert_at_def Let_def n_def [symmetric] set_node_sep_def set_node_child_def i1 e
        set_slot_count_def set_free_begin_def set_free_end_def
      using h4 h5 by (simp add: p6_def p5_def p4_def p3_def p2_def p1_def cell_consts mult.commute)
  qed
  have lq: "length q = 4096" using l6 by (simp add: q buf_simps)
  then show "length q = PAGE_SIZE" by (simp add: PAGE_SIZE_def)
  show "unat (hd_slot_count q) = n + 1" using l6 c1 by (simp add: q hd_slot_count_def buf_simps)
  show "unat (hd_free_begin q) = 24 + 15 * (n + 1)" using l4 l5 l6 fb1 by (simp add: q p6_def p5_def hd_free_begin_def buf_simps)
  have "unat (hd_free_end q) = 4092 - 4 * (n + 1)" using l5 l6 fe1 by (simp add: q p6_def hd_free_end_def buf_simps)
  then show "unat (hd_free_end q) = PAGE_SIZE - 4 * (n + 2)" by (simp add: PAGE_SIZE_def)
  have out: "get_at off k q = get_at off k p4" if "off + k \<le> 8 \<or> 14 \<le> off" "off + k \<le> 4096" for off k
  proof -
    have "get_at off k q = get_at off k p6" unfolding q using that l6 by (intro get_wr) auto
    also have "\<dots> = get_at off k p5" unfolding p6_def using that l5 by (intro get_wr) auto
    also have "\<dots> = get_at off k p4" unfolding p5_def using that l4 by (intro get_wr) auto
    finally show ?thesis .
  qed
  show "hd_magic q = hd_magic p" by (simp add: hd_magic_def rd32_def out hd)
  show "hd_type q = hd_type p" using arg_cong [where f = "\<lambda>bs. bs ! 0", OF trans [OF out hd], of 4 1] l lq by (simp add: hd_type_def nth_get_at)
  show "get_cell (24 + 15 * k) q = (if k < unat i then get_cell (24 + 15 * k) p
        else if k = unat i then sep else get_cell (24 + 15 * (k - 1)) p)" if k: "k < n + 1"
  proof -
    have b: "24 + 15 * k + 15 \<le> c" using k c by simp
    have "get_at (24 + 15 * k) 15 q = get_at (24 + 15 * k) 15 p4" using b c by (intro out) linarith+
    also have "\<dots> = get_at (24 + 15 * k) 15 p3" unfolding p4 using b l3 d c by (intro get_wr) linarith+
    finally have g3: "get_cell (24 + 15 * k) q = get_cell (24 + 15 * k) p3" using b c lq l3 by (intro get_cell_cong) linarith+
    show ?thesis
    proof (cases "k = unat i")
      case True
      then show ?thesis using g3 l2 b c by (simp add: p3_def)
    next
      case False
      have dj: "24 + 15 * k + 15 \<le> 24 + 15 * unat i \<or> 24 + 15 * unat i + length (cell_bytes sep) \<le> 24 + 15 * k"
        using False by (cases "k < unat i") simp_all
      have "get_at (24 + 15 * k) 15 p3 = get_at (24 + 15 * k) 15 p2"
        unfolding c3 using dj b l2 c assms(5) by (intro get_put_disjoint) auto
      also have "\<dots> = get_at (24 + 15 * k) 15 p1"
        unfolding p2_def using b l1 m2 c assms(5) by (intro get_put_disjoint) auto
      finally have g1: "get_at (24 + 15 * k) 15 p3 = get_at (24 + 15 * k) 15 p1" .
      show ?thesis
      proof (cases "k < unat i")
        case True
        then have "get_at (24 + 15 * k) 15 p1 = get_at (24 + 15 * k) 15 p"
          unfolding p1_def using b l m1 c assms(5) by (intro get_put_disjoint) auto
        then have "get_cell (24 + 15 * k) p3 = get_cell (24 + 15 * k) p" using g1 b c l l3 by (intro get_cell_cong) simp_all
        then show ?thesis using g3 True by simp
      next
        case gt: False
        then obtain h where h: "k = Suc h" "unat i \<le> h" using False by (cases k) auto
        have "get_at (24 + 15 * k) 15 p1 = get_at (24 + 15 * h) 15 p"
          using get_moved [of "24 + 15 * unat i" "15 * (n - unat i)" p "24 + 15 * (unat i + 1)" "15 * (h - unat i)" 15] h k l c assms(5)
          by (simp add: p1_def algebra_simps)
        then have "get_at (24 + 15 * k) 15 p3 = get_at (24 + 15 * h) 15 p" using g1 by simp
        then have "get_cell (24 + 15 * k) p3 = get_cell (24 + 15 * h) p" using b c l l3 h by (intro get_cell_move) simp_all
        then show ?thesis using g3 gt False h by simp
      qed
    qed
  qed
  show "rd32 (4092 - 4 * j) q = (if j \<le> unat i then rd32 (4092 - 4 * j) p
        else if j = unat i + 1 then right else rd32 (4092 - 4 * (j - 1)) p)" if j: "j < n + 2"
  proof -
    define a where "a = 4092 - 4 * j"
    have a: "a + 4 * j = 4092" "c \<le> a" using j nb c by (simp_all add: a_def)
    have low: "get_at b 4 p1 = get_at b 4 p" if "c \<le> b" "b + 4 \<le> 4096" for b
      unfolding p1_def using that l m1 c assms(5) by (intro get_put_disjoint) auto
    have g3: "get_at a 4 q = get_at a 4 p4" using a c by (intro out) linarith+
    show ?thesis
    proof (cases "j = unat i + 1")
      case True
      then have ad: "a = d" using a d by simp
      have "get_at d 4 p4 = le_bytes 4 (unat right)"
        using get_put_same [of d "le_bytes 4 (unat right)" p3] l3 d by (simp add: p4 wr32_def)
      then have "get_at a 4 q = le_bytes 4 (unat right)" using g3 ad by simp
      then have "rd32 a q = right" by (simp add: rd32_def)
      then show ?thesis unfolding a_def using True by simp
    next
      case False
      have dj: "a + 4 \<le> d \<or> d + 4 \<le> a" using False a(1) d(1) by (cases "j \<le> unat i") auto
      have "get_at a 4 p4 = get_at a 4 p3" unfolding p4 using dj a c d l3 by (intro get_wr) auto
      also have "\<dots> = get_at a 4 p2" unfolding c3 using a l2 c assms(5) by (intro get_put_disjoint) auto
      finally have g2: "get_at a 4 q = get_at a 4 p2" using g3 by simp
      show ?thesis
      proof (cases "j \<le> unat i")
        case True
        have "get_at a 4 p2 = get_at a 4 p1"
          unfolding p2_def using True a l1 m2 c assms(5) by (intro get_put_disjoint) auto
        then have "get_at a 4 q = get_at a 4 p" using g2 low [of a] a by simp
        then show ?thesis using True by (simp add: rd32_def a_def)
      next
        case gt: False
        then obtain h where h: "j = Suc h" "unat i + 1 \<le> h" "h \<le> n" using False j by (cases j) auto
        have ac: "a = c + 4 * (n - h)" "a + 4 = c + 4 + 4 * (n - h)" using a(1) c(1) h(1,3) by simp_all
        have "get_at a 4 p2 = get_at (a + 4) 4 p1"
          unfolding ac(2) unfolding ac(1) p2_def using h l1 c assms(5) by (intro get_moved) auto
        also have "\<dots> = get_at (a + 4) 4 p" using a h by (intro low) auto
        finally have "get_at a 4 q = get_at (4092 - 4 * (j - 1)) 4 p" using g2 a(1) h(1) by (simp add: a_def)
        then show ?thesis using gt False by (simp add: rd32_def a_def)
      qed
    qed
  qed
qed

lemma node_insert_refines:
  assumes "node_ok p" "28 + 19 * (unat (hd_slot_count p) + 1) \<le> PAGE_SIZE" "unat i \<le> unat (hd_slot_count p)"
  shows "node_ok (node_insert_at i sep right p)"
    "node_seps (node_insert_at i sep right p) = take (unat i) (node_seps p) @ sep # drop (unat i) (node_seps p)"
    "node_children (node_insert_at i sep right p) = take (unat i + 1) (node_children p) @ right # drop (unat i + 1) (node_children p)"
proof -
  let ?q = "node_insert_at i sep right p" and ?n = "unat (hd_slot_count p)"
  note f = node_insert_fields [OF assms, where sep = sep and right = right]
  show "node_ok ?q" unfolding node_ok_def Let_def f(2)
    using f(1,3-6) assms(1,2) by (simp add: node_ok_def Let_def)
  show "node_seps ?q = take (unat i) (node_seps p) @ sep # drop (unat i) (node_seps p)"
  proof (rule nth_equalityI)
    show "length (node_seps ?q) = length (take (unat i) (node_seps p) @ sep # drop (unat i) (node_seps p))"
      using f(2) assms(3) by simp
    fix k
    assume "k < length (node_seps ?q)"
    then have k: "k < ?n + 1" using f(2) by simp
    then have q: "node_seps ?q ! k = get_cell (24 + 15 * k) ?q" using f(2) by (simp add: node_seps_def del: upt_Suc)
    consider "k < unat i" | "k = unat i" | h where "k = Suc h" "unat i \<le> h" "h < ?n" using k by (cases k) force+
    then show "node_seps ?q ! k = (take (unat i) (node_seps p) @ sep # drop (unat i) (node_seps p)) ! k"
      using q f(7) [OF k] assms(3) by cases (auto simp: nth_append node_seps_def simp del: upt_Suc)
  qed
  show "node_children ?q = take (unat i + 1) (node_children p) @ right # drop (unat i + 1) (node_children p)"
  proof (rule nth_equalityI)
    show "length (node_children ?q) = length (take (unat i + 1) (node_children p) @ right # drop (unat i + 1) (node_children p))"
      using f(2) assms(3) by simp
    fix j
    assume "j < length (node_children ?q)"
    then have j: "j < ?n + 2" using f(2) by simp
    then have q: "node_children ?q ! j = rd32 (4092 - 4 * j) ?q" using f(2) by (simp add: node_children_def del: upt_Suc)
    consider "j \<le> unat i" | "j = unat i + 1" | h where "j = Suc h" "unat i + 1 \<le> h" "h < ?n + 1" using j by (cases j) force+
    then show "node_children ?q ! j = (take (unat i + 1) (node_children p) @ right # drop (unat i + 1) (node_children p)) ! j"
      using q f(8) [OF j] assms(3) by cases (auto simp: nth_append node_children_def simp del: upt_Suc)
  qed
qed

lemma node_room:
  assumes "node_ok p"
  shows "word_of_nat BTREE_CELL_SIZE + 4 \<le> free_space p \<longleftrightarrow> 28 + 19 * (unat (hd_slot_count p) + 1) \<le> PAGE_SIZE"
proof -
  let ?n = "unat (hd_slot_count p)"
  have l: "28 + 19 * ?n \<le> 4096" "unat (hd_free_begin p) = 24 + 15 * ?n" "unat (hd_free_end p) = 4092 - 4 * ?n"
    using assms by (simp_all add: node_ok_def Let_def PAGE_SIZE_def)
  have "unat (free_space p) = 4092 - 4 * ?n - (24 + 15 * ?n)"
    using l by (simp add: free_space_def unat_sub word_le_nat_alt)
  then show ?thesis using l by (simp add: word_le_nat_alt page_consts cell_consts) linarith
qed

lemma node_child_index_sorted:
  assumes "sorted (node_seps p)"
  shows "unat (node_child_index p e) = length (takeWhile (\<lambda>x. x \<le> e) (node_seps p))"
proof -
  have "node_sep p (word_of_nat i) = node_seps p ! i" if "i < unat (hd_slot_count p)" for i
    using that unat16_less [of "hd_slot_count p"] by (simp add: node_sep_nat node_seps_def)
  then show ?thesis
    using bsearch_sorted [of "hd_slot_count p" "node_seps p" "node_sep p" "\<lambda>x. x \<le> e"] assms
    by (simp add: node_child_index_def entry_cmp_sign)
qed

section \<open>Building inner nodes\<close>

lemma set_sep_nat: "i < 65536 \<Longrightarrow> 24 + 15 * i + 15 \<le> length p \<Longrightarrow> set_node_sep (word_of_nat i) e p = put_at (24 + 15 * i) (cell_bytes e) p"
  by (simp add: set_node_sep_def sep_pos_def page_consts cell_consts unat_of_nat mult.commute cell_put_at)

lemma set_child_nat: "j < 65536 \<Longrightarrow> set_node_child (word_of_nat j) c p = put_at (4092 - 4 * j) (le_bytes 4 (unat c)) p"
  by (simp add: set_node_child_def child_pos_def page_consts unat_of_nat mult.commute wr32_def)

lemma get_cell_bytes: "get_at off 15 p = cell_bytes e \<Longrightarrow> off + 15 \<le> length p \<Longrightarrow> get_cell off p = e"
  using get_cell_move [of off p 0 "cell_bytes e"] get_put_cell [of 0 "cell_bytes e" e]
  by (simp add: cell_put_at get_at_def put_at_def)

lemma rd32_bytes: "get_at off 4 p = le_bytes 4 (unat c) \<Longrightarrow> rd32 off p = c"
  by (simp add: rd32_def)

lemma build_loop:
  fixes es :: "btree_entry list" and cs :: "u32 list" and fm :: nat
  assumes "m \<le> 214" "length p0 = 4096"
  defines "f \<equiv> \<lambda>i p. set_node_child (word_of_nat (i - fm)) (cs ! i) (set_node_sep (word_of_nat (i - fm)) (es ! i) p)"
  shows "length (fold f [fm..<fm + m] p0) = 4096
    \<and> (\<forall>off k. off + k \<le> 24 \<longrightarrow> get_at off k (fold f [fm..<fm + m] p0) = get_at off k p0)
    \<and> (\<forall>i < m. get_at (24 + 15 * i) 15 (fold f [fm..<fm + m] p0) = cell_bytes (es ! (fm + i)))
    \<and> (\<forall>j < m. get_at (4092 - 4 * j) 4 (fold f [fm..<fm + m] p0) = le_bytes 4 (unat (cs ! (fm + j))))"
  using assms(1)
proof (induction m)
  case 0
  then show ?case using assms(2) by simp
next
  case (Suc m)
  let ?p = "fold f [fm..<fm + m] p0"
  have fs: "f i p = set_node_child (word_of_nat (i - fm)) (cs ! i) (set_node_sep (word_of_nat (i - fm)) (es ! i) p)" for i p
    by (simp add: f_def)
  define a where "a = 4092 - 4 * m"
  have a: "a + 4 * m = 4092" "24 + 15 * (m + 1) \<le> a" using Suc.prems by (simp_all add: a_def)
  define p1 where "p1 = put_at (24 + 15 * m) (cell_bytes (es ! (fm + m))) ?p"
  define p2 where "p2 = put_at a (le_bytes 4 (unat (cs ! (fm + m)))) p1"
  have l: "length ?p = 4096" and ih: "\<And>off k. off + k \<le> 24 \<Longrightarrow> get_at off k ?p = get_at off k p0"
    "\<And>i. i < m \<Longrightarrow> get_at (24 + 15 * i) 15 ?p = cell_bytes (es ! (fm + i))"
    "\<And>j. j < m \<Longrightarrow> get_at (4092 - 4 * j) 4 ?p = le_bytes 4 (unat (cs ! (fm + j)))"
    using Suc by auto
  have l1: "length p1 = 4096" using l a by (simp add: p1_def length_put_at)
  have l2: "length p2 = 4096" using l1 a by (simp add: p2_def length_put_at)
  have f: "fold f [fm..<fm + Suc m] p0 = p2"
    using l l1 a Suc.prems by (simp add: fs set_sep_nat set_child_nat p2_def p1_def a_def)
  have "get_at off k p2 = get_at off k ?p" if "off + k \<le> 24" for off k
    using that l l1 a by (simp add: p2_def p1_def get_put_disjoint)
  moreover have "get_at (24 + 15 * i) 15 p2 = cell_bytes (es ! (fm + i))" if "i < Suc m" for i
  proof -
    have "get_at (24 + 15 * i) 15 p2 = get_at (24 + 15 * i) 15 p1" using that l1 a by (simp add: p2_def get_put_disjoint)
    then show ?thesis using that l a ih(2) [of i] get_put_same [of "24 + 15 * m" "cell_bytes (es ! (fm + m))" ?p]
      by (cases "i = m") (simp_all add: p1_def get_put_disjoint)
  qed
  moreover have "get_at (4092 - 4 * j) 4 p2 = le_bytes 4 (unat (cs ! (fm + j)))" if "j < Suc m" for j
  proof (cases "j = m")
    case True
    then show ?thesis using l1 a get_put_same [of a "le_bytes 4 (unat (cs ! (fm + m)))" p1] by (simp add: p2_def a_def)
  next
    case False
    define b where "b = 4092 - 4 * j"
    have b: "b + 4 * j = 4092" "a + 4 \<le> b" using that False a Suc.prems by (simp_all add: b_def)
    have "get_at b 4 p2 = get_at b 4 p1" using b l1 by (simp add: p2_def get_put_disjoint)
    also have "\<dots> = get_at b 4 ?p" using b l a by (simp add: p1_def get_put_disjoint)
    finally show ?thesis using ih(3) [of j] that False by (simp add: b_def)
  qed
  ultimately show ?case unfolding f using l2 ih(1) by simp
qed

lemma node_build_lists:
  assumes "from + m \<le> length es" "from + m < length cs" "m \<le> 214"
  shows "node_ok (node_build es cs from (from + m))" "node_seps (node_build es cs from (from + m)) = take m (drop from es)"
    "node_children (node_build es cs from (from + m)) = take (m + 1) (drop from cs)" "hd_next_page (node_build es cs from (from + m)) = 0"
proof -
  let ?p0 = "init_page MAGIC_BTREE_LEAF BTreeInternal" and ?q = "node_build es cs from (from + m)"
  define p1 where "p1 = fold (\<lambda>i p. set_node_child (word_of_nat (i - from)) (cs ! i) (set_node_sep (word_of_nat (i - from)) (es ! i) p)) [from..<from + m] ?p0"
  have l0: "length ?p0 = 4096" by (simp add: init_page_fields PAGE_SIZE_def)
  have l1: "length p1 = 4096" and b: "\<And>off k. off + k \<le> 24 \<Longrightarrow> get_at off k p1 = get_at off k ?p0"
    "\<And>i. i < m \<Longrightarrow> get_at (24 + 15 * i) 15 p1 = cell_bytes (es ! (from + i))"
    "\<And>j. j < m \<Longrightarrow> get_at (4092 - 4 * j) 4 p1 = le_bytes 4 (unat (cs ! (from + j)))"
    using build_loop [OF assms(3) l0, where cs = cs and es = es and fm = "from"] unfolding p1_def [symmetric] by blast+
  define a where "a = 4092 - 4 * m"
  have a: "a + 4 * m = 4092" "24 + 15 * m \<le> a" using assms(3) by (simp_all add: a_def)
  define p2 where "p2 = put_at a (le_bytes 4 (unat (cs ! (from + m)))) p1"
  have l2: "length p2 = 4096" using l1 a by (simp add: p2_def length_put_at)
  define p3 where "p3 = wr16 10 (word_of_nat (24 + 15 * m)) p2"
  define p4 where "p4 = wr16 12 (word_of_nat (4096 - 4 * (m + 1))) p3"
  have l3: "length p3 = 4096" "length p4 = 4096" using l2 by (simp_all add: p3_def p4_def buf_simps)
  have q: "?q = wr16 8 (word_of_nat m) p4"
    using assms(3) by (simp add: node_build_def Let_def p1_def [symmetric] set_child_nat p2_def p3_def p4_def a_def
        set_free_begin_def set_free_end_def set_slot_count_def page_consts cell_consts mult.commute)
  have lq: "length ?q = 4096" using l3 by (simp add: q buf_simps)
  have out: "get_at off k ?q = get_at off k p2" if "off + k \<le> 8 \<or> 14 \<le> off" "off + k \<le> 4096" for off k
  proof -
    have "get_at off k ?q = get_at off k p4" unfolding q using that l3 by (intro get_wr) auto
    also have "\<dots> = get_at off k p3" unfolding p4_def using that l3 by (intro get_wr) auto
    also have "\<dots> = get_at off k p2" unfolding p3_def using that l2 by (intro get_wr) auto
    finally show ?thesis .
  qed
  have low: "get_at off k p2 = get_at off k p1" if "off + k \<le> a" for off k
    unfolding p2_def using that l1 a by (intro get_put_disjoint) auto
  have n: "unat (hd_slot_count ?q) = m" using l3 assms(3) by (simp add: q hd_slot_count_def buf_simps unat_of_nat)
  have fb: "hd_free_begin ?q = word_of_nat (24 + 15 * m)" using l2 l3 by (simp add: q p4_def p3_def hd_free_begin_def buf_simps)
  have fe: "hd_free_end ?q = word_of_nat (4096 - 4 * (m + 1))" using l3 by (simp add: q p4_def hd_free_end_def buf_simps)
  have hd: "get_at off k ?q = get_at off k ?p0" if "off + k \<le> 8 \<or> 14 \<le> off \<and> off + k \<le> 24" for off k
  proof -
    have "get_at off k ?q = get_at off k p2" using that by (intro out) auto
    also have "\<dots> = get_at off k p1" using that a by (intro low) auto
    finally show ?thesis using b(1) [of off k] that by auto
  qed
  have mt: "hd_magic ?q = MAGIC_BTREE_LEAF" "hd_next_page ?q = 0" using init_page_fields [of MAGIC_BTREE_LEAF BTreeInternal]
    by (simp_all add: hd_magic_def hd_next_page_def rd32_def hd)
  then show "hd_next_page ?q = 0" by simp
  have ty: "hd_type ?q = page_type_code BTreeInternal"
    using arg_cong [where f = "\<lambda>bs. bs ! 0", OF hd [of 4 1]] l0 lq init_page_type [of MAGIC_BTREE_LEAF BTreeInternal]
    by (simp add: hd_type_def nth_get_at)
  have "unat (hd_free_begin ?q) = 24 + 15 * m" "unat (hd_free_end ?q) = 4096 - 4 * (m + 1)"
    unfolding fb fe using assms(3) by (intro unat_small16; simp)+
  then show "node_ok ?q" unfolding node_ok_def Let_def n
    using lq mt ty assms(3) by (simp add: PAGE_SIZE_def)
  have sep: "get_cell (24 + 15 * i) ?q = es ! (from + i)" if "i < m" for i
  proof (rule get_cell_bytes)
    have "get_at (24 + 15 * i) 15 ?q = get_at (24 + 15 * i) 15 p2" using that a by (intro out) auto
    also have "\<dots> = get_at (24 + 15 * i) 15 p1" using that a by (intro low) auto
    finally show "get_at (24 + 15 * i) 15 ?q = cell_bytes (es ! (from + i))" using b(2) [OF that] by simp
  qed (use that a lq in simp)
  have ch: "rd32 (4092 - 4 * j) ?q = cs ! (from + j)" if "j < m + 1" for j
  proof (rule rd32_bytes)
    have "get_at (4092 - 4 * j) 4 ?q = get_at (4092 - 4 * j) 4 p2" using that assms(3) by (intro out) auto
    also have "\<dots> = le_bytes 4 (unat (cs ! (from + j)))"
    proof (cases "j = m")
      case True
      then show ?thesis using l1 a get_put_same [of a "le_bytes 4 (unat (cs ! (from + m)))" p1] by (simp add: p2_def a_def)
    next
      case False
      then have "get_at (4092 - 4 * j) 4 p2 = get_at (4092 - 4 * j) 4 p1"
        unfolding p2_def using that l1 a assms(3) by (intro get_put_disjoint) auto
      then show ?thesis using b(3) [of j] that False by simp
    qed
    finally show "get_at (4092 - 4 * j) 4 ?q = le_bytes 4 (unat (cs ! (from + j)))" .
  qed
  show "node_seps ?q = take m (drop from es)"
    using assms(1) n sep by (intro nth_equalityI) (auto simp: node_seps_def)
  show "node_children ?q = take (m + 1) (drop from cs)"
    using assms(2) n ch by (intro nth_equalityI) (auto simp: node_children_def simp del: upt_Suc)
qed

section \<open>Key encoding\<close>

lemma flip_top: "uint (i XOR 0x8000000000000000) = sint i + 2 ^ 63" for i :: i64
proof -
  have "uint (i XOR 0x8000000000000000) = uint i XOR 2 ^ 63" by (simp add: unsigned_xor_eq)
  also have "\<dots> = flip_bit 63 (uint i)" by (simp add: flip_bit_eq_xor push_bit_of_1)
  also have "\<dots> = (if bit (uint i) 63 then uint i - 2 ^ 63 else uint i + 2 ^ 63)"
    unfolding flip_bit_eq_if set_bit_eq unset_bit_eq by simp
  finally show ?thesis
    using uint_bounded [of i] by (simp add: sint_uint signed_take_bit_eq_take_bit_minus take_bit_int_eq_self)
qed

lemma int_key_cmp: "key_cmp (IndexKey (a XOR 0x8000000000000000) False) (IndexKey (b XOR 0x8000000000000000) False) = i64_cmp a b" for a b :: i64
proof -
  have "a XOR 0x8000000000000000 < b XOR 0x8000000000000000 \<longleftrightarrow> sint a < sint b"
    "a XOR 0x8000000000000000 = b XOR 0x8000000000000000 \<longleftrightarrow> sint a = sint b"
    using flip_top [of a] flip_top [of b] by (simp_all add: word_less_def word_uint_eq_iff)
  then show ?thesis by (auto simp: key_cmp_def i64_cmp_def)
qed

text \<open>The number behind the key of a double.\<close>

definition key_num :: "f64 \<Rightarrow> int" where
  "key_num x = (if fp_neg F64 x then - int (fp_bits F64 x) else int (fp_bits F64 x))"

lemma double_key_val:
  assumes "\<not> fp_isnan F64 x"
  shows "int (unat (key_val (double_key x))) = (if key_num x < 0 then 2 ^ 63 - 1 + key_num x else 2 ^ 63 + key_num x)"
    "key_null (double_key x) = False"
proof -
  have z: "fp_eq F64 x 0 \<longleftrightarrow> fp_bits F64 x = 0"
  proof -
    have "fp_bits F64 (0 :: f64) = 0" "fp_num F64 (0 :: f64) = 0" "\<not> fp_isnan F64 (0 :: f64)"
      by (simp_all add: fp_bits_def fp_num_def fp_isnan_def Let_def fp_neg_def)
    then show ?thesis using assms by (auto simp: fp_eq_def fp_num_def Let_def split: if_splits)
  qed
  have b: "fp_bits F64 x < 2 ^ 63" using fp_bits_less [of F64 x] by simp
  note sp = fp64_split [of x]
  have top: "drop_bit 63 y \<noteq> 0 \<longleftrightarrow> 2 ^ 63 \<le> unat y" for y :: u64
  proof -
    have "unat (drop_bit 63 y) = unat y div 2 ^ 63" by (simp add: drop_bit_eq_div unat_div)
    then show ?thesis by (auto simp: word_unat_eq_iff div_eq_0_iff)
  qed
  show "key_null (double_key x) = False" by (simp add: double_key_def Let_def)
  have nt: "unat (NOT y) = 2 ^ 64 - 1 - unat y" for y :: u64
  proof -
    have "NOT y = - 1 - y" by (simp add: not_eq_complement)
    moreover have "y \<le> - 1" by simp
    ultimately show ?thesis by (simp add: unat_sub unsigned_minus_1_eq_mask mask_eq_exp_minus_1)
  qed
  have orr: "unat (y OR 0x8000000000000000) = unat y + 2 ^ 63" if "unat y < 2 ^ 63" for y :: u64
  proof -
    have "unat (y OR 0x8000000000000000) = unat y OR 2 ^ 63" by (simp add: unsigned_or_eq)
    also have "\<dots> = set_bit 63 (unat y)" by (simp add: set_bit_eq_or push_bit_of_1)
    also have "\<dots> = unat y + 2 ^ 63" unfolding set_bit_eq using that by (simp add: bit_iff_odd)
    finally show ?thesis .
  qed
  show "int (unat (key_val (double_key x))) = (if key_num x < 0 then 2 ^ 63 - 1 + key_num x else 2 ^ 63 + key_num x)"
  proof (cases "fp_bits F64 x = 0")
    case True
    then show ?thesis using z top [of 0] orr [of 0] by (simp add: double_key_def Let_def key_num_def)
  next
    case False
    have t: "drop_bit 63 x \<noteq> 0 \<longleftrightarrow> fp_neg F64 x" using top [of x] sp b by auto
    have k: "unat (key_val (double_key x)) = (if fp_neg F64 x then 2 ^ 63 - 1 - fp_bits F64 x else 2 ^ 63 + fp_bits F64 x)"
      using False z t sp b nt [of x] orr [of x] by (simp add: double_key_def Let_def)
    show ?thesis unfolding k using False b by (simp add: key_num_def of_nat_diff)
  qed
qed

lemma key_num_fp: "sgn (fp_num F64 x - fp_num F64 y) = sgn (key_num x - key_num y)"
  using ieee_mag_less_iff [of 52 "fp_bits F64 x" "fp_bits F64 y"] ieee_mag_less_iff [of 52 "fp_bits F64 y" "fp_bits F64 x"]
    ieee_mag_eq_iff [of 52 "fp_bits F64 x" "fp_bits F64 y"] ieee_mag_eq_0 [of 52 "fp_bits F64 x"] ieee_mag_eq_0 [of 52 "fp_bits F64 y"]
  by (auto simp: fp_num_def key_num_def Let_def sgn_if)

lemma double_key_cmp:
  assumes "\<not> fp_isnan F64 x" "\<not> fp_isnan F64 y"
  shows "key_cmp (double_key x) (double_key y) = sgn (fp_num F64 x - fp_num F64 y)"
proof -
  have "key_val (double_key x) < key_val (double_key y) \<longleftrightarrow> key_num x < key_num y"
    "key_val (double_key x) = key_val (double_key y) \<longleftrightarrow> key_num x = key_num y"
    unfolding word_less_nat_alt word_unat_eq_iff of_nat_less_iff [where 'a = int, symmetric] of_nat_eq_iff [where 'a = int, symmetric]
      double_key_val(1) [OF assms(1)] double_key_val(1) [OF assms(2)] by (auto split: if_splits)
  then show ?thesis unfolding key_num_fp by (auto simp: key_cmp_def double_key_val(2) assms sgn_if)
qed

lemma box_f64_float:
  assumes "box_f64 v = Inr y"
  shows "vbox v = BDouble d \<Longrightarrow> y = d" "vbox v = BFloat f \<Longrightarrow> y = f32_to_f64 f"
proof -
  have k: "attr_rep kDouble = RepDouble" by (simp add: seed_attr_defs)
  note defs = box_f64_def cast_value_def value_is_null_def k i64_to_f64_v_def f32_to_f64_v_def restamp_def dec_to_f64_def
    cast_tier_def double_val_def
  show "vbox v = BDouble d \<Longrightarrow> y = d" using assms
    by (cases v; cases "attr_rep (vtype v)") (auto simp: defs split: if_splits)
  show "vbox v = BFloat f \<Longrightarrow> y = f32_to_f64 f" using assms
    by (cases v; cases "attr_rep (vtype v)") (auto simp: defs split: if_splits)
qed

lemma encode_key_cmp:
  assumes "encode_key t a = Inr ka" "encode_key t b = Inr kb" "value_domain a \<noteq> DNone" "value_domain b \<noteq> DNone"
  shows "value_cmp a b = Inr (key_cmp ka kb)"
proof (cases "vbox a = BNull \<or> vbox b = BNull")
  case True
  then show ?thesis using assms(1,2)
    by (cases "vbox a"; cases "vbox b")
       (auto simp: encode_key_def value_cmp_def value_is_null_def key_cmp_def double_key_def Let_def split: if_splits)
next
  case False
  consider i j where "vbox a = BInt64 i" "vbox b = BInt64 j" | x y where "vbox a = BBool x" "vbox b = BBool y"
    | "value_domain a = DFloat" "value_domain b = DFloat"
    using assms False by (cases "vbox a"; cases "vbox b") (auto simp: encode_key_def value_domain_def split: if_splits family.splits)
  then show ?thesis
  proof cases
    case 1
    then show ?thesis using assms
      by (auto simp: encode_key_def value_cmp_def value_is_null_def num_cmp_def int_key_cmp value_domain_def split: if_splits family.splits)
  next
    case 2
    then show ?thesis using assms
      by (auto simp: encode_key_def value_cmp_def value_is_null_def key_cmp_def value_domain_def split: if_splits family.splits)
  next
    case 3
    have k: "\<exists>x. flt_key v = Some x \<and> \<not> fp_isnan F64 x \<and> k = double_key x"
      if "value_domain v = DFloat" "encode_key t v = Inr k" for v k
      using that by (cases "vbox v") (auto simp: value_domain_def encode_key_def float_key_def flt_key_def split: if_splits family.splits sum.splits
          dest: box_f64_float)
    from k [OF 3(1) assms(1)] k [OF 3(2) assms(2)] show ?thesis
      using value_cmp_float [of a b] 3 double_key_cmp by auto
  qed
qed

lemma filter_takeWhile_sorted:
  fixes xs :: "'a :: linorder list"
  assumes "sorted xs" "\<And>x y. x \<le> y \<Longrightarrow> P y \<Longrightarrow> P x"
  shows "filter P xs = takeWhile P xs"
  using assms(1)
proof (induction xs)
  case (Cons a xs)
  have "filter P xs = []" if "\<not> P a" unfolding filter_empty_conv
    using that Cons.prems assms(2) by auto
  then show ?case using Cons by auto
qed simp

section \<open>Properties\<close>

text \<open>
  C33. The index order is the comparison order. Whenever two values of a column can be encoded as index
  keys, comparing the keys gives exactly the result that expression evaluation gives on the values:
  NULL is greatest, integers and booleans compare by value, doubles and floats by their numeric value
  with both zeros equal (NaN, which has no place in that order, excepted).
\<close>

theorem encode_key_order:
  assumes "encode_key t a = Inr ka" "encode_key t b = Inr kb" "value_domain a \<noteq> DNone" "value_domain b \<noteq> DNone"
  shows "value_cmp a b = Inr (key_cmp ka kb)"
  by (rule encode_key_cmp [OF assms])

theorem encode_key_order_witness:
  "value_cmp (int_val kInt (- 5)) (int_val kInt 3) = Inr (key_cmp (IndexKey 0x7ffffffffffffffb False) (IndexKey 0x8000000000000003 False))"
  by (rule encode_key_order [where t = kInt])
     (simp_all add: encode_key_def int_val_def seed_attr_defs value_domain_def)

text \<open>
  C34. A leaf page is a sorted list of entries. On a well-formed leaf with sorted entries, the binary
  search finds the number of smaller entries; when the free space is enough for a slot and a cell,
  inserting at that position keeps the page well formed and its entries become the sorted insertion.
  The free space is not enough exactly when the page holds 214 entries.
\<close>

theorem leaf_insert_insort:
  assumes "leaf_ok p" "sorted (leaf_entries p)"
  shows "unat (leaf_lower_bound p e) = length (filter (\<lambda>x. x < e) (leaf_entries p))
    \<and> (if word_of_nat SLOT_SIZE + word_of_nat BTREE_CELL_SIZE \<le> free_space p
       then leaf_ok (leaf_insert_at (leaf_lower_bound p e) e p)
          \<and> leaf_entries (leaf_insert_at (leaf_lower_bound p e) e p) = insort e (leaf_entries p)
       else length (leaf_entries p) = 214)"
proof -
  note f = filter_takeWhile_sorted [where P = "\<lambda>x. x < e"]
  have full: "unat (hd_slot_count p) = 214" if "\<not> 24 + 19 * (unat (hd_slot_count p) + 1) \<le> PAGE_SIZE"
    using that assms(1) by (simp add: leaf_ok_def Let_def PAGE_SIZE_def)
  show ?thesis
    using leaf_lower_bound_sorted [OF assms(2), of e] f [OF assms(2)] order.trans order_le_less_trans leaf_room [OF assms(1)] leaf_insert_sorted [OF assms(1) _ assms(2), of e] full
    by simp
qed

theorem leaf_insert_insort_witness:
  "leaf_entries (leaf_insert_at (leaf_lower_bound (init_page MAGIC_BTREE_LEAF BTreeLeaf) (BTreeEntry (IndexKey 7 False) 1 2))
      (BTreeEntry (IndexKey 7 False) 1 2) (init_page MAGIC_BTREE_LEAF BTreeLeaf)) = [BTreeEntry (IndexKey 7 False) 1 2]"
proof -
  have "word_of_nat SLOT_SIZE + word_of_nat BTREE_CELL_SIZE \<le> free_space (init_page MAGIC_BTREE_LEAF BTreeLeaf)"
    using leaf_room [OF empty_leaf(1)] by (simp add: init_page_fields PAGE_SIZE_def)
  then show ?thesis
    using leaf_insert_insort [OF empty_leaf(1), of "BTreeEntry (IndexKey 7 False) 1 2"] by (simp add: empty_leaf(2))
qed

text \<open>
  An inner node is a list of separators and one more child. The binary search finds the child whose
  range contains the entry (the number of separators not above it); when the free space is enough,
  absorbing a split of child \<^verbatim>\<open>j\<close> puts the separator at place \<^verbatim>\<open>j\<close> and the new child right of child
  \<^verbatim>\<open>j\<close> and keeps the page well formed; it is not enough exactly when the page holds 214 separators.
\<close>

theorem node_insert_places:
  assumes "node_ok p" "sorted (node_seps p)"
  shows "let j = unat (node_child_index p e); q = node_insert_at (node_child_index p e) sep right p
    in j = length (filter (\<lambda>x. x \<le> e) (node_seps p))
     \<and> (if word_of_nat BTREE_CELL_SIZE + 4 \<le> free_space p
        then node_ok q \<and> node_seps q = take j (node_seps p) @ sep # drop j (node_seps p)
          \<and> node_children q = take (j + 1) (node_children p) @ right # drop (j + 1) (node_children p)
        else length (node_seps p) = 214)"
proof -
  note f = filter_takeWhile_sorted [where P = "\<lambda>x. x \<le> e"]
  have full: "unat (hd_slot_count p) = 214" if "\<not> 28 + 19 * (unat (hd_slot_count p) + 1) \<le> PAGE_SIZE"
    using that assms(1) by (simp add: node_ok_def Let_def PAGE_SIZE_def)
  have b: "unat (node_child_index p e) \<le> unat (hd_slot_count p)"
    using node_child_index_sorted [OF assms(2), of e] length_takeWhile_le [of "\<lambda>x. x \<le> e" "node_seps p"] by simp
  show ?thesis
    using node_child_index_sorted [OF assms(2), of e] f [OF assms(2)] order.trans order_le_less_trans node_room [OF assms(1)] full
      node_insert_refines [OF assms(1) _ b, of sep right] by (simp add: Let_def)
qed

theorem node_insert_places_witness:
  "let q = node_build [BTreeEntry (IndexKey 5 False) 1 1] [2, 3] 0 1; e = BTreeEntry (IndexKey 9 False) 1 1;
       j = unat (node_child_index q e)
   in j = length (filter (\<lambda>x. x \<le> e) (node_seps q))"
proof -
  let ?q = "node_build [BTreeEntry (IndexKey 5 False) 1 1] [2, 3] 0 1"
  have "node_ok ?q" "sorted (node_seps ?q)"
    using node_build_lists [of 0 1 "[BTreeEntry (IndexKey 5 False) 1 1]" "[2, 3]"] by simp_all
  from node_insert_places [OF this, of "BTreeEntry (IndexKey 9 False) 1 1"] show ?thesis by (simp add: Let_def)
qed

text \<open>
  Splitting a full page loses nothing. Rebuilding the two halves of an overfull list of leaf entries
  gives two well-formed leaves whose entries together are the list, the separator being the first
  entry of the right one; rebuilding the two halves of an overfull inner node gives two well-formed
  inner nodes which together with the lifted separator are the lists of separators and children.
\<close>

theorem split_partitions:
  assumes "length entries = 215" "length seps = 215" "length children = 216"
  shows "(let l = leaf_build entries 0 107; r = leaf_build entries 107 215
     in leaf_ok l \<and> leaf_ok r \<and> leaf_entries l @ leaf_entries r = entries \<and> hd (leaf_entries r) = entries ! 107)
    \<and> (let l = node_build seps children 0 107; r = node_build seps children 108 215
     in node_ok l \<and> node_ok r \<and> node_seps l @ seps ! 107 # node_seps r = seps \<and> node_children l @ node_children r = children)"
proof
  show "let l = leaf_build entries 0 107; r = leaf_build entries 107 215
     in leaf_ok l \<and> leaf_ok r \<and> leaf_entries l @ leaf_entries r = entries \<and> hd (leaf_entries r) = entries ! 107"
    using leaf_build_entries [of 0 107 entries] leaf_build_entries [of 107 108 entries] assms(1)
    by (simp add: Let_def hd_drop_conv_nth)
  show "let l = node_build seps children 0 107; r = node_build seps children 108 215
     in node_ok l \<and> node_ok r \<and> node_seps l @ seps ! 107 # node_seps r = seps \<and> node_children l @ node_children r = children"
    using node_build_lists [of 0 107 seps children] node_build_lists [of 108 107 seps children] assms(2,3)
      id_take_nth_drop [of 107 seps] by (simp add: Let_def)
qed

theorem split_partitions_witness:
  "leaf_entries (leaf_build (replicate 215 (BTreeEntry (IndexKey 0 False) 1 1)) 107 215) = replicate 108 (BTreeEntry (IndexKey 0 False) 1 1)"
proof -
  let ?e = "BTreeEntry (IndexKey 0 False) 1 1" and ?l = "leaf_build (replicate 215 (BTreeEntry (IndexKey 0 False) 1 1))"
  have s: "leaf_entries (?l 0 107) @ leaf_entries (?l 107 215) = replicate 215 ?e"
    using split_partitions [of "replicate 215 ?e" "replicate 215 ?e" "replicate 216 0"] by (simp only: Let_def length_replicate refl)
  have "leaf_entries (?l 107 215) = drop 107 (leaf_entries (?l 0 107) @ leaf_entries (?l 107 215))"
    using leaf_build_entries [of 0 107 "replicate 215 ?e"] by simp
  then show ?thesis unfolding s by simp
qed

end
