(* ===== verification/ExprSafety.thy ===== *)
theory ExprSafety
  imports Expr
begin

text \<open>
  Type safety of the evaluator of src/expr: the typing of the trees the semantic analysis builds,
  the signatures of the built-in functions, and the proof that evaluation of a well-typed tree on
  a row of the table's types never reaches an internal error.
\<close>

section \<open>Type safety of evaluation\<close>

text \<open>Family and representation of a type agree, as in every row of the seed table.\<close>

definition attr_sane :: "type_attr \<Rightarrow> bool" where
  "attr_sane t = (case attr_rep t of RepNone \<Rightarrow> False | RepStr \<Rightarrow> attr_family t = FamText
                  | RepBool \<Rightarrow> attr_family t = FamBool | _ \<Rightarrow> attr_family t = FamNum)"

lemma seeds_sane: "\<forall>s \<in> set kTypeSeeds. attr_sane (seed_attr s)"
  by (simp add: kTypeSeeds_def mk_seed_def seed_attr_defs attr_sane_def)

definition value_ok :: "type_attr \<Rightarrow> dbvalue \<Rightarrow> bool" where
  "value_ok t v \<longleftrightarrow> vbox v = BNull \<or> (vtype v = t \<and> box_typed (attr_rep t) (vbox v))"

text \<open>What a well-typed evaluation may end in: a value of the type, or one of the two user-visible errors.\<close>

definition safe :: "type_attr \<Rightarrow> dbvalue res \<Rightarrow> bool" where
  "safe t r = (case r of Inl e \<Rightarrow> e = Raise ArithError \<or> e = Raise ValueMismatch | Inr v \<Rightarrow> value_ok t v)"

definition user_error :: "'a res \<Rightarrow> bool" where
  "user_error r \<longleftrightarrow> (\<forall>e. r = Inl e \<longrightarrow> e = Raise ArithError \<or> e = Raise ValueMismatch)"

lemma safe_simps [simp]:
  "safe t (Inl e) \<longleftrightarrow> e = Raise ArithError \<or> e = Raise ValueMismatch" "safe t (Inr v) \<longleftrightarrow> value_ok t v"
  by (simp_all add: safe_def)

lemma user_error_simps [simp]:
  "user_error (Inl e) \<longleftrightarrow> e = Raise ArithError \<or> e = Raise ValueMismatch" "user_error (Inr v)"
  by (simp_all add: user_error_def)

lemma safe_rbind: "user_error m \<Longrightarrow> (\<And>x. m = Inr x \<Longrightarrow> safe t (f x)) \<Longrightarrow> safe t (rbind m f)"
  by (cases m) auto

lemma user_error_rbind: "user_error m \<Longrightarrow> (\<And>x. m = Inr x \<Longrightarrow> user_error (f x)) \<Longrightarrow> user_error (rbind m f)"
  by (cases m) auto

lemma safe_user_error: "safe t r \<Longrightarrow> user_error r"
  by (cases r) auto

lemma cast_result_safe: "cast_result t r \<Longrightarrow> safe t r"
  by (cases r) (auto simp: cast_result_def value_ok_def)

lemma value_ok_factories [simp]:
  "attr_rep t = RepInt64 \<Longrightarrow> value_ok t (int_val t i)" "attr_rep t = RepFloat \<Longrightarrow> value_ok t (float_val t f)"
  "attr_rep t = RepDouble \<Longrightarrow> value_ok t (double_val t d)" "attr_rep t = RepBool \<Longrightarrow> value_ok t (bool_val t b)"
  "attr_rep t = RepDec \<Longrightarrow> dec_ok (DecimalVal u s) \<Longrightarrow> value_ok t (numeric_val t u s)" "value_ok t null_val"
  by (simp_all add: value_ok_def value_factories box_typed_def)

text \<open>An implicit cast along the table yields the payload of the target representation.\<close>

lemma cast_value_result:
  assumes "value_ok ft v" and "vbox v \<noteq> BNull" and "cast_allowed ft t mode"
  shows "cast_result t (cast_value v t mode)"
proof -
  have t: "vtype v = ft" "box_typed (attr_rep (vtype v)) (vbox v)" using assms(1,2) by (auto simp: value_ok_def)
  then show ?thesis using cast_value_allowed [of v t mode] assms(2,3) by simp
qed

lemma payload_user_error:
  assumes "value_ok ft v" "vbox v \<noteq> BNull" "cast_allowed ft t Implicit"
  shows "attr_rep t = RepDouble \<Longrightarrow> user_error (to_double v t)"
    and "attr_rep t = RepFloat \<Longrightarrow> user_error (to_float v t)"
    and "attr_rep t = RepInt64 \<Longrightarrow> user_error (get_int v t)"
    and "attr_rep t = RepDec \<Longrightarrow> user_error (to_numeric v t)"
    and "attr_rep t = RepDec \<Longrightarrow> to_numeric v t = Inr d \<Longrightarrow> dec_ok d"
  using cast_value_result [OF assms]
  by (auto simp: to_double_def to_float_def get_int_def to_numeric_def cast_result_def box_typed_def
      split: sum.splits box.splits)

section \<open>Steps of the evaluator\<close>

lemma user_error_dec_align: "user_error (dec_align u from to)"
  by (simp add: dec_align_def dec_align_loop_value)

lemma user_error_dec_arith:
  assumes "dec_result_scale op l r = Inr rs"
  shows "user_error (dec_arith op l r rs)"
proof -
  have "user_error (dec_div l r rs)" if "op = CHR ''/''"
    using dec_div_value [of l r rs] assms that by (simp add: Let_def)
  moreover have "user_error (dec_bounded x)" for x by (simp add: dec_bounded_def)
  ultimately show ?thesis
    by (auto simp: dec_arith_def intro!: user_error_rbind user_error_dec_align)
qed

lemma dec_arith_ok:
  assumes "dec_result_scale op l r = Inr rs" and "dec_arith op l r rs = Inr u"
  shows "dec_ok (DecimalVal u s)"
proof -
  have "dec_div l r rs = Inr u \<Longrightarrow> op = CHR ''/'' \<Longrightarrow> dec_ok (DecimalVal u s)"
    using dec_div_value [of l r rs] assms(1) by (auto simp: Let_def dec_ok_def split: if_splits)
  then show ?thesis using assms(2)
    by (auto simp: dec_arith_def res_simps dec_bounded_Inr dec_ok_def split: if_splits)
qed

lemma binary_value_safe:
  assumes "value_ok lt lv" "value_ok rt rv" "attr_sane t" "attr_family t = FamNum"
    "cast_allowed lt t Implicit" "cast_allowed rt t Implicit"
  shows "safe t (binary_value op t lv rv)"
proof (cases "value_is_null lv \<or> value_is_null rv")
  case True
  then show ?thesis by (simp add: binary_value_def)
next
  case False
  then have n: "vbox lv \<noteq> BNull" "vbox rv \<noteq> BNull" by (simp_all add: value_is_null_def)
  note L = payload_user_error [OF assms(1) n(1) assms(5)]
  note R = payload_user_error [OF assms(2) n(2) assms(6)]
  have sc: "user_error (dec_result_scale op l r)" for l r by (simp add: dec_result_scale_def Let_def)
  have ia: "user_error (int_arith op l r)" for l r by (simp add: int_arith_def i64_checked_def)
  consider "attr_rep t = RepDec" | "attr_rep t = RepFloat" | "attr_rep t = RepDouble" | "attr_rep t = RepInt64"
    using assms(3,4) by (cases "attr_rep t") (auto simp: attr_sane_def)
  then show ?thesis
  proof cases
    case 1
    then show ?thesis using False L R sc unfolding binary_value_def
      by (auto intro!: safe_rbind user_error_dec_arith value_ok_factories(5) intro: dec_arith_ok)
  next
    case 2
    then show ?thesis using False L R unfolding binary_value_def
      by (auto intro!: safe_rbind simp: Let_def)
  next
    case 3
    then show ?thesis using False L R unfolding binary_value_def
      by (auto intro!: safe_rbind simp: Let_def)
  next
    case 4
    then show ?thesis using False L R ia unfolding binary_value_def
      by (auto intro!: safe_rbind simp: Let_def)
  qed
qed

lemma neg_value_safe:
  assumes "value_ok et v" "attr_sane t" "attr_family t = FamNum" "cast_allowed et t Implicit"
    "attr_rep t = RepDec \<longrightarrow> attr_rep et = RepDec"
  shows "safe t (neg_value t v)"
proof (cases "value_is_null v")
  case True
  then show ?thesis by (simp add: neg_value_def value_ok_def value_is_null_def)
next
  case False
  then have n: "vbox v \<noteq> BNull" by (simp add: value_is_null_def)
  note L = payload_user_error [OF assms(1) n assms(4)]
  have d: "\<exists>d. get_dec v = Inr d \<and> dec_ok d" if "attr_rep t = RepDec"
    using assms(1,5) n that by (cases v) (auto simp: value_ok_def box_typed_def split: box.splits)
  consider "attr_rep t = RepDec" | "attr_rep t = RepFloat" | "attr_rep t = RepDouble" | "attr_rep t = RepInt64"
    using assms(2,3) by (cases "attr_rep t") (auto simp: attr_sane_def)
  then show ?thesis
  proof cases
    case 1
    then show ?thesis using False d by (auto simp: neg_value_def dec_ok_def)
  qed (use False L in \<open>auto simp: neg_value_def intro!: safe_rbind\<close>)
qed

lemma box_typed_payload:
  assumes "b \<noteq> BNull"
  shows "box_typed RepStr b \<Longrightarrow> \<exists>s. b = BStr s" and "box_typed RepBool b \<Longrightarrow> \<exists>x. b = BBool x"
    and "box_typed RepInt64 b \<Longrightarrow> \<exists>i. b = BInt64 i" and "box_typed RepDouble b \<Longrightarrow> \<exists>d. b = BDouble d"
    and "box_typed RepFloat b \<Longrightarrow> \<exists>f. b = BFloat f" and "box_typed RepDec b \<Longrightarrow> \<exists>d. b = BDec d \<and> dec_ok d"
  using assms by (cases b; simp add: box_typed_def)+

lemma value_cmp_user_error:
  assumes "value_ok lt lv" "value_ok rt rv" "attr_sane lt" "attr_sane rt" "attr_family lt = attr_family rt"
  shows "user_error (value_cmp lv rv)"
proof (cases "vbox lv = BNull \<or> vbox rv = BNull")
  case True
  then show ?thesis by (auto simp: value_cmp_def value_is_null_def Let_def)
next
  case False
  have num: "user_error (box_f64 v)" if "value_ok t v" "attr_sane t" "attr_family t = FamNum" "vbox v \<noteq> BNull" for t v
  proof -
    have "cast_allowed t kDouble Implicit"
      using that(2,3) by (cases "attr_rep t") (auto simp: attr_sane_def cast_allowed_def seed_attr_defs cast_tier_def)
    from cast_value_result [OF that(1) that(4) this] show ?thesis
      by (auto simp: box_f64_def cast_result_def box_typed_def seed_attr_defs split: sum.splits box.splits)
  qed
  have t: "vtype lv = lt" "vtype rv = rt" "box_typed (attr_rep lt) (vbox lv)" "box_typed (attr_rep rt) (vbox rv)"
    using assms(1,2) False by (auto simp: value_ok_def)
  show ?thesis
  proof (cases "attr_family lt")
    case FamNum
    then have "user_error (num_cmp lv rv)"
      using num [OF assms(1,3)] num [OF assms(2,4)] assms(5) False
      by (auto simp: num_cmp_def intro!: user_error_rbind split: box.splits)
    then show ?thesis using FamNum assms(5) t False by (simp add: value_cmp_def value_is_null_def)
  next
    case FamNone
    then show ?thesis using assms(3) by (simp add: attr_sane_def split: rep.splits)
  next
    case FamText
    then have "attr_rep lt = RepStr" "attr_rep rt = RepStr"
      using assms(3-5) by (simp_all add: attr_sane_def split: rep.splits)
    then obtain x y where "vbox lv = BStr x" "vbox rv = BStr y" using t False box_typed_payload by metis
    then show ?thesis using FamText assms(5) t by (simp add: value_cmp_def value_is_null_def)
  next
    case FamBool
    then have "attr_rep lt = RepBool" "attr_rep rt = RepBool"
      using assms(3-5) by (simp_all add: attr_sane_def split: rep.splits)
    then obtain x y where "vbox lv = BBool x" "vbox rv = BBool y" using t False box_typed_payload by metis
    then show ?thesis using FamBool assms(5) t by (simp add: value_cmp_def value_is_null_def)
  qed
qed

lemma get_bool_ok: "value_ok t v \<Longrightarrow> attr_rep t = RepBool \<Longrightarrow> \<not> value_is_null v \<Longrightarrow> \<exists>b. get_bool v = Some b"
  by (cases v) (auto simp: value_ok_def value_is_null_def box_typed_def split: box.splits)

lemma logic_value_safe:
  assumes "value_ok lt lv" "value_ok rt rv" "attr_rep lt = RepBool" "attr_rep rt = RepBool"
  shows "safe kBool (logic_value op lv rv)"
  using get_bool_ok [OF assms(1,3)] get_bool_ok [OF assms(2,4)]
  by (cases "value_is_null lv"; cases "value_is_null rv") (auto simp: logic_value_def Let_def seed_attr_defs)

lemma not_value_safe:
  assumes "value_ok t v" "attr_rep t = RepBool"
  shows "\<exists>v'. not_value v = Inr v' \<and> (vbox v' = BNull \<or> (\<exists>b. v' = bool_val kBool b))"
  using get_bool_ok [OF assms] by (cases "value_is_null v") (auto simp: not_value_def value_is_null_def)

lemma even_pow10: "even (pow10 (Suc k)) \<and> 0 \<le> pow10 (Suc k)"
proof -
  have e: "even (wrap256 x)" if "even x" for x
    using that by (simp add: wrap256_def dvd_mod)
  have p: "0 \<le> wrap256 x" if "0 \<le> x" for x
    using that by (simp add: wrap256_def sgn_if)
  have "0 \<le> pow10 k" for k by (induction k) (auto intro: p)
  then show ?thesis using e [of "pow10 k * 10"] p [of "pow10 k * 10"] by simp
qed

lemma shrink_scale_ok:
  assumes "\<bar>u\<bar> < kNumericUnscaledMax" and "0 < k"
  shows "\<bar>shrink_scale k u\<bar> < kNumericUnscaledMax"
proof -
  obtain n where k: "k = Suc n" using assms(2) by (cases k) auto
  define p where "p = pow10 k"
  have "p = 0 \<or> 2 \<le> p" using even_pow10 [of n] unfolding p_def k by presburger
  then have q: "\<bar>tdiv u p\<bar> * 2 \<le> \<bar>u\<bar>"
  proof
    assume "2 \<le> p"
    have "\<bar>tdiv u p\<bar> \<le> \<bar>u\<bar> div p" using \<open>2 \<le> p\<close>
      by (simp add: tdiv_def abs_mult sgn_if pos_imp_zdiv_nonneg_iff)
    also have "\<dots> * 2 \<le> \<bar>u\<bar> div p * p" using \<open>2 \<le> p\<close> by (intro mult_left_mono) (auto simp: pos_imp_zdiv_nonneg_iff)
    also have "\<dots> \<le> \<bar>u\<bar>" using \<open>2 \<le> p\<close> div_mult_mod_eq [of "\<bar>u\<bar>" p] pos_mod_sign [of p "\<bar>u\<bar>"] by linarith
    finally show ?thesis by simp
  qed (simp add: tdiv_def)
  have "\<bar>shrink_scale k u\<bar> \<le> \<bar>tdiv u p\<bar> + 1" by (simp add: shrink_scale_def p_def Let_def)
  then show ?thesis using q assms(1) by (simp add: kNumericUnscaledMax_def)
qed

lemma coerce_numeric_safe:
  assumes "value_ok ft v" "vbox v \<noteq> BNull" "cast_allowed ft t mode" "attr_rep t = RepDec"
  shows "safe t (coerce_numeric v t pr sc mode)"
proof -
  have c: "cast_result t (cast_value v t mode)" using assms by (intro cast_value_result)
  have d: "\<exists>d. get_dec n = Inr d \<and> dec_ok d" if "cast_value v t mode = Inr n" for n
  proof -
    have "vbox n \<noteq> BNull" "box_typed RepDec (vbox n)" using c that assms(4) by (auto simp: cast_result_def)
    then obtain d where "vbox n = BDec d" "dec_ok d" using box_typed_payload by blast
    then show ?thesis by (cases n) auto
  qed
  have scaled: "user_error (if x > sc then Inr (shrink_scale k u) else grow_scale k' u)" for x k k' u
    by (simp add: grow_scale_value)
  have ok: "dec_ok (DecimalVal u' s)"
    if "(if dscale d > sc then Inr (shrink_scale (unat (dscale d) - unat sc) (unscaled d))
         else grow_scale (unat sc - unat (dscale d)) (unscaled d)) = Inr u'" "dec_ok d" for d u' s
    using that shrink_scale_ok [of "unscaled d" "unat (dscale d) - unat sc"]
    by (auto simp: grow_scale_value dec_ok_def word_less_nat_alt split: if_splits)
  have ue: "user_error (cast_value v t mode)" using cast_result_safe [OF c] by (rule safe_user_error)
  show ?thesis unfolding coerce_numeric_def
  proof (rule safe_rbind [OF ue], rule safe_rbind)
    fix n assume n: "cast_value v t mode = Inr n"
    show "user_error (get_dec n)" using d [OF n] by auto
    fix x assume x: "get_dec n = Inr x"
    then have "dec_ok x" using d [OF n] by auto
    then show "safe t (rbind (if dscale x > sc then Inr (shrink_scale (unat (dscale x) - unat sc) (unscaled x))
             else grow_scale (unat sc - unat (dscale x)) (unscaled x)) (\<lambda>u.
        if pr > 0 \<and> digit_count (nat \<bar>u\<bar>) > unat pr then Inl (Raise ValueMismatch)
        else Inr (numeric_val t u sc)))"
      using assms(4) ok by (intro safe_rbind scaled) auto
  qed
qed

lemma cast_checked_safe:
  assumes "cast_result t (Inr out)" "attr_sane t"
  shows "safe t (cast_checked t len out)"
proof -
  have o: "vbox out \<noteq> BNull" "box_typed (attr_rep t) (vbox out)" "vtype out = t"
    using assms(1) by (auto simp: cast_result_def)
  have "attr_rep t = RepInt64 \<Longrightarrow> \<exists>i. vbox out = BInt64 i" using o box_typed_payload by metis
  moreover have "attr_rep t = RepStr \<Longrightarrow> \<exists>s. vbox out = BStr s" using o box_typed_payload by metis
  moreover have "attr_family t = FamText \<Longrightarrow> attr_rep t = RepStr"
    using assms(2) by (simp add: attr_sane_def split: rep.splits)
  ultimately show ?thesis using o
    by (auto simp: cast_checked_def value_ok_def intro!: safe_rbind)
qed

lemma cast_allowed_explicit: "attr_sane ft \<Longrightarrow> attr_sane t \<Longrightarrow> cast_allowed ft t Explicit"
  by (cases "attr_rep ft"; cases "attr_rep t") (auto simp: attr_sane_def cast_allowed_def cast_tier_def)

lemma cast_expr_value_safe:
  assumes "value_ok ft v" "attr_sane ft" "attr_sane t"
  shows "safe t (cast_expr_value t len sc v)"
proof (cases "vbox v = BNull")
  case True
  then show ?thesis by (simp add: cast_expr_value_def value_is_null_def value_ok_def)
next
  case False
  note ca = cast_allowed_explicit [OF assms(2,3)]
  have c: "cast_result t (cast_value v t Explicit)" by (rule cast_value_result [OF assms(1) False ca])
  then have "user_error (cast_value v t Explicit)" by (intro safe_user_error [OF cast_result_safe])
  then show ?thesis using False coerce_numeric_safe [OF assms(1) False ca] c assms(3)
    by (auto simp: cast_expr_value_def value_is_null_def intro!: safe_rbind cast_checked_safe)
qed

section \<open>Built-in functions are typed\<close>

text \<open>The argument and result representations of the overloads, by function id.\<close>

definition func_sigs :: "(rep list \<times> rep) list" where
  "func_sigs =
    [([], RepNone),
     ([RepInt64], RepInt64), ([RepInt64], RepInt64), ([RepDouble], RepDouble), ([RepFloat], RepFloat), ([RepDec], RepDec),
     ([RepInt64], RepInt64), ([RepInt64], RepInt64), ([RepDouble], RepDouble), ([RepFloat], RepFloat), ([RepDec], RepDec),
     ([RepDec, RepInt64], RepDec),
     ([RepInt64], RepInt64), ([RepInt64], RepInt64), ([RepDouble], RepDouble), ([RepFloat], RepFloat), ([RepDec], RepDec),
     ([RepInt64], RepInt64), ([RepInt64], RepInt64), ([RepDouble], RepDouble), ([RepFloat], RepFloat), ([RepDec], RepDec),
     ([RepInt64, RepInt64], RepInt64), ([RepInt64, RepInt64], RepInt64), ([RepDouble, RepDouble], RepDouble),
     ([RepFloat, RepFloat], RepFloat), ([RepDec, RepDec], RepDec)]"

text \<open>The value is a non-NULL value of the given representation.\<close>

definition has_rep :: "rep \<Rightarrow> dbvalue \<Rightarrow> bool" where
  "has_rep r v \<longleftrightarrow> vbox v \<noteq> BNull \<and> box_typed r (vbox v)"

lemma has_rep_payload:
  "has_rep RepInt64 v \<Longrightarrow> \<exists>i. get_i64 v = Inr i" "has_rep RepDouble v \<Longrightarrow> \<exists>d. get_f64 v = Inr d"
  "has_rep RepFloat v \<Longrightarrow> \<exists>f. get_f32 v = Inr f" "has_rep RepDec v \<Longrightarrow> \<exists>d. get_dec v = Inr d \<and> dec_ok d"
  using box_typed_payload [of "vbox v"] by (cases v; auto simp: has_rep_def)+

lemma args_ok:
  "list_all2 has_rep rs args \<Longrightarrow> n < length rs \<Longrightarrow> rs ! n = RepInt64 \<Longrightarrow> \<exists>i. i64_arg n args = Inr i"
  "list_all2 has_rep rs args \<Longrightarrow> n < length rs \<Longrightarrow> rs ! n = RepDouble \<Longrightarrow> \<exists>d. f64_arg n args = Inr d"
  "list_all2 has_rep rs args \<Longrightarrow> n < length rs \<Longrightarrow> rs ! n = RepFloat \<Longrightarrow> \<exists>f. f32_arg n args = Inr f"
  "list_all2 has_rep rs args \<Longrightarrow> n < length rs \<Longrightarrow> rs ! n = RepDec \<Longrightarrow> \<exists>d. dec_arg n args = Inr d \<and> dec_ok d"
  using has_rep_payload [of "args ! n"]
  by (auto simp: i64_arg_def f64_arg_def f32_arg_def dec_arg_def nth_arg_def list_all2_conv_all_nth)

lemma round_dec_safe:
  assumes "dec_ok d" "attr_rep ret = RepDec"
  shows "safe ret (round_dec d n ret)"
proof (cases "n \<ge> int (unat (dscale d))")
  case True
  then show ?thesis using assms by (simp add: round_dec_def)
next
  case False
  define sh where "sh = int (unat (dscale d)) - n"
  have p: "sh < 39 \<Longrightarrow> dec_pow10 sh = Inr (10 ^ nat sh)" "sh < 39 \<Longrightarrow> n < 0 \<Longrightarrow> dec_pow10 (- n) = Inr (10 ^ nat (- n))"
    using False by (auto simp: dec_pow10_def sh_def) (use uint_ge_0 [of "dscale d"] in linarith)
  let ?half = "\<lambda>p. if \<bar>unscaled d\<bar> mod p * 2 \<ge> p then \<bar>unscaled d\<bar> div p + 1 else \<bar>unscaled d\<bar> div p"
  have h: "0 \<le> ?half (10 ^ k)" for k by (simp add: pos_imp_zdiv_nonneg_iff)
  obtain Q where Q: "(if sh < 39 then rbind (dec_pow10 sh) (\<lambda>p.
        if n < 0 then rbind (dec_pow10 (- n)) (\<lambda>m. Inr (?half p * m)) else Inr (?half p)) else Inr 0) = Inr Q" "0 \<le> Q"
  proof (cases "sh < 39")
    case True
    then show ?thesis using p h that by (cases "n < 0") (auto intro!: that mult_nonneg_nonneg)
  qed (use that in simp)
  show ?thesis unfolding round_dec_def Let_def sh_def [symmetric] Q(1)
    using False assms(2) Q(2) by (auto simp: dec_ok_def intro!: value_ok_factories(5))
qed

lemma tmod_abs_le: "\<bar>tmod a b\<bar> \<le> \<bar>a\<bar>"
proof -
  have "\<bar>a\<bar> mod \<bar>b\<bar> \<le> \<bar>a\<bar>" by (cases "b = 0") (auto intro: zmod_le_nonneg_dividend)
  moreover have "0 \<le> \<bar>a\<bar> mod \<bar>b\<bar>" by (cases "b = 0") auto
  ultimately show ?thesis by (auto simp: tmod_def sgn_if)
qed

lemma dec_align_ok: "dec_align u from to = Inr u' \<Longrightarrow> \<bar>u\<bar> < kNumericUnscaledMax \<Longrightarrow> \<bar>u'\<bar> < kNumericUnscaledMax"
  by (auto simp: dec_align_def dec_align_loop_value kNumericUnscaledMax_def split: if_splits)

lemma trunc_dec_safe:
  assumes "dec_ok d" "attr_rep ret = RepDec"
  shows "safe ret (trunc_dec d up ret)"
proof -
  have small: "\<bar>unscaled d\<bar> div p + 1 < kNumericUnscaledMax" if "10 \<le> p" for p
  proof -
    have "\<bar>unscaled d\<bar> div p \<le> \<bar>unscaled d\<bar> div 10" using that by (intro zdiv_mono2) auto
    then show ?thesis using assms(1) by (simp add: dec_ok_def kNumericUnscaledMax_def)
  qed
  have nn: "0 \<le> \<bar>unscaled d\<bar> div p" if "10 \<le> p" for p using that by (simp add: pos_imp_zdiv_nonneg_iff)
  consider "dscale d = 0" | "dscale d \<ge> 39" | "dscale d \<noteq> 0" "\<not> dscale d \<ge> 39" by blast
  then show ?thesis
  proof cases
    case 3
    define s where "s = unat (dscale d)"
    have s: "0 < s" "s \<le> 38" using 3 by (simp_all add: s_def word_le_nat_alt unat_gt_0)
    have "(10::int) ^ 1 \<le> 10 ^ s" using s by (intro power_increasing) auto
    then have p: "dec_pow10 (int s) = Inr (10 ^ s)" "(10::int) \<le> 10 ^ s" using s by (simp_all add: dec_pow10_def)
    show ?thesis unfolding trunc_dec_def s_def [symmetric] p(1)
      using 3 assms(2) small [OF p(2)] nn [OF p(2)] by (auto simp: Let_def dec_ok_def intro!: value_ok_factories(5))
  qed (use assms in \<open>auto simp: trunc_dec_def Let_def dec_ok_def kNumericUnscaledMax_def intro!: value_ok_factories(5)\<close>)
qed

lemmas func_defs = eval_abs_int_def eval_abs_bigint_def eval_abs_double_def eval_abs_float_def
  eval_abs_numeric_def eval_round_int_def eval_round_bigint_def eval_round_double_def
  eval_round_float_def eval_round_numeric_def eval_round_numeric_int_def eval_floor_int_def
  eval_floor_bigint_def eval_floor_double_def eval_floor_float_def eval_floor_numeric_def
  eval_ceil_int_def eval_ceil_bigint_def eval_ceil_double_def eval_ceil_float_def
  eval_ceil_numeric_def eval_mod_int_def eval_mod_bigint_def eval_mod_double_def
  eval_mod_float_def eval_mod_numeric_def

text \<open>A built-in respects its signature.\<close>

definition func_safe :: "func_eval \<Rightarrow> rep list \<Rightarrow> rep \<Rightarrow> bool" where
  "func_safe g rs r \<longleftrightarrow> (\<forall>args ret. list_all2 has_rep rs args \<longrightarrow> attr_rep ret = r \<longrightarrow> safe ret (g args ret))"

lemma func_safe_i64 [simp]:
  "func_safe eval_abs_int [RepInt64] RepInt64" "func_safe eval_abs_bigint [RepInt64] RepInt64"
  "func_safe eval_round_int [RepInt64] RepInt64" "func_safe eval_round_bigint [RepInt64] RepInt64"
  "func_safe eval_floor_int [RepInt64] RepInt64" "func_safe eval_floor_bigint [RepInt64] RepInt64"
  "func_safe eval_ceil_int [RepInt64] RepInt64" "func_safe eval_ceil_bigint [RepInt64] RepInt64"
  unfolding func_safe_def func_defs using args_ok(1) [of "[RepInt64]" _ 0] by fastforce+

lemma func_safe_f64 [simp]:
  "func_safe eval_abs_double [RepDouble] RepDouble" "func_safe eval_round_double [RepDouble] RepDouble"
  "func_safe eval_floor_double [RepDouble] RepDouble" "func_safe eval_ceil_double [RepDouble] RepDouble"
  unfolding func_safe_def func_defs using args_ok(2) [of "[RepDouble]" _ 0] by fastforce+

lemma func_safe_f32 [simp]:
  "func_safe eval_abs_float [RepFloat] RepFloat" "func_safe eval_round_float [RepFloat] RepFloat"
  "func_safe eval_floor_float [RepFloat] RepFloat" "func_safe eval_ceil_float [RepFloat] RepFloat"
  unfolding func_safe_def func_defs using args_ok(3) [of "[RepFloat]" _ 0] by fastforce+

lemma func_safe_dec [simp]:
  "func_safe eval_abs_numeric [RepDec] RepDec" "func_safe eval_round_numeric [RepDec] RepDec"
  "func_safe eval_floor_numeric [RepDec] RepDec" "func_safe eval_ceil_numeric [RepDec] RepDec"
  unfolding func_safe_def func_defs using args_ok(4) [of "[RepDec]" _ 0]
  by (fastforce simp: dec_ok_def intro: round_dec_safe trunc_dec_safe value_ok_factories(5))+

lemma func_safe_two [simp]:
  "func_safe eval_mod_int [RepInt64, RepInt64] RepInt64" "func_safe eval_mod_bigint [RepInt64, RepInt64] RepInt64"
  "func_safe eval_mod_double [RepDouble, RepDouble] RepDouble" "func_safe eval_mod_float [RepFloat, RepFloat] RepFloat"
  "func_safe eval_round_numeric_int [RepDec, RepInt64] RepDec"
proof -
  have i: "\<exists>x y. i64_arg 0 args = Inr x \<and> i64_arg 1 args = Inr y" if "list_all2 has_rep [RepInt64, RepInt64] args" for args
    using args_ok(1) [OF that, of 0] args_ok(1) [OF that, of 1] by simp
  show "func_safe eval_mod_int [RepInt64, RepInt64] RepInt64" "func_safe eval_mod_bigint [RepInt64, RepInt64] RepInt64"
    unfolding func_safe_def func_defs using i by fastforce+
  have d: "\<exists>x y. f64_arg 0 args = Inr x \<and> f64_arg 1 args = Inr y" if "list_all2 has_rep [RepDouble, RepDouble] args" for args
    using args_ok(2) [OF that, of 0] args_ok(2) [OF that, of 1] by simp
  show "func_safe eval_mod_double [RepDouble, RepDouble] RepDouble"
    unfolding func_safe_def func_defs Let_def using d by fastforce
  have f: "\<exists>x y. f32_arg 0 args = Inr x \<and> f32_arg 1 args = Inr y" if "list_all2 has_rep [RepFloat, RepFloat] args" for args
    using args_ok(3) [OF that, of 0] args_ok(3) [OF that, of 1] by simp
  show "func_safe eval_mod_float [RepFloat, RepFloat] RepFloat"
    unfolding func_safe_def func_defs Let_def using f by fastforce
  have r: "\<exists>x y. dec_arg 0 args = Inr x \<and> dec_ok x \<and> i64_arg 1 args = Inr y"
    if "list_all2 has_rep [RepDec, RepInt64] args" for args
    using args_ok(4) [OF that, of 0] args_ok(1) [OF that, of 1] by simp
  show "func_safe eval_round_numeric_int [RepDec, RepInt64] RepDec"
    unfolding func_safe_def func_defs using r by (fastforce intro: round_dec_safe)
qed

lemma func_safe_mod_numeric [simp]: "func_safe eval_mod_numeric [RepDec, RepDec] RepDec"
  unfolding func_safe_def
proof (intro allI impI)
  fix args :: "dbvalue list" and ret :: type_attr
  assume a: "list_all2 has_rep [RepDec, RepDec] args" "attr_rep ret = RepDec"
  from args_ok(4) [OF a(1), of 0] args_ok(4) [OF a(1), of 1] obtain l r where
    lr: "dec_arg 0 args = Inr l" "dec_ok l" "dec_arg 1 args = Inr r" "dec_ok r" by auto
  have ok: "dec_ok (DecimalVal (tmod lu ru) s)" if "dec_align (unscaled l) (dscale l) s = Inr lu" for lu ru s
    using dec_align_ok [OF that] tmod_abs_le [of lu ru] lr(2) by (auto simp: dec_ok_def)
  have rest: "safe ret (rbind (dec_align (unscaled l) (dscale l) s) (\<lambda>lu.
      rbind (dec_align (unscaled r) (dscale r) s) (\<lambda>ru. Inr (numeric_val ret (tmod lu ru) s))))" for s
    using a(2) ok by (intro safe_rbind user_error_dec_align) auto
  show "safe ret (eval_mod_numeric args ret)"
    unfolding eval_mod_numeric_def lr(1,3) rbind_Inr Let_def using rest by simp
qed

lemma table_safe:
  "list_all2 (\<lambda>g (rs, r). case g of None \<Rightarrow> True | Some g \<Rightarrow> func_safe g rs r) kFuncTable func_sigs"
  by (simp add: kFuncTable_def func_sigs_def)

lemma eval_builtin_safe:
  assumes "unat f < length func_sigs" "f \<noteq> 0" and "func_sigs ! unat f = (rs, r)"
    and "list_all2 has_rep rs args" and "attr_rep ret = r"
  shows "safe ret (eval_builtin f args ret)"
proof -
  have l: "length kFuncTable = length func_sigs" using table_safe by (rule list_all2_lengthD)
  have "\<forall>n \<in> {1..<27}. kFuncTable ! n \<noteq> None" by (simp add: kFuncTable_def atLeastLessThan_nat_numeral)
  moreover have "unat f \<noteq> 0" "unat f < 27" using assms(1,2) by (simp_all add: unat_eq_0 func_sigs_def)
  ultimately obtain g where g: "kFuncTable ! unat f = Some g" by fastforce
  have "func_safe g rs r" using list_all2_nthD2 [OF table_safe assms(1)] g assms(3) by simp
  then show ?thesis using assms l g by (simp add: eval_builtin_def func_safe_def)
qed

section \<open>Well-typed expressions\<close>

text \<open>
  The trees the semantic analysis hands over: operands of arithmetic castable to the result
  domain, comparisons within a family, boolean operands of the connectives, arguments that match
  the chosen overload, casts to a type of db_type. NULL constants and arithmetic on them alone (\<^verbatim>\<open>null_tree\<close>), which the analysis
  leaves without a type, have every type, and \<^verbatim>\<open>float\<close> constants are finite.
\<close>

fun null_tree :: "bound_expr \<Rightarrow> bool" where
  "null_tree (BoundConst v) = (vbox v = BNull)"
| "null_tree (BoundArith op t a b) = (null_tree a \<and> null_tree b)"
| "null_tree (BoundNeg t a) = null_tree a"
| "null_tree e = False"

inductive wt :: "type_attr list \<Rightarrow> bound_expr \<Rightarrow> type_attr \<Rightarrow> bool" for cols where
  wt_const: "value_ok t v \<Longrightarrow> attr_sane t \<Longrightarrow> (\<forall>f. vbox v = BFloat f \<longrightarrow> fp_isfinite F32 f) \<Longrightarrow>
    wt cols (BoundConst v) t"
| wt_col: "i < length cols \<Longrightarrow> cols ! i = t \<Longrightarrow> attr_sane t \<Longrightarrow> wt cols (BoundColRef i t') t"
| wt_arith: "wt cols a ta \<Longrightarrow> wt cols b tb \<Longrightarrow> attr_sane t \<Longrightarrow> attr_family t = FamNum \<Longrightarrow>
    cast_allowed ta t Implicit \<Longrightarrow> cast_allowed tb t Implicit \<Longrightarrow> wt cols (BoundArith op t a b) t"
| wt_neg: "wt cols a ta \<Longrightarrow> attr_sane t \<Longrightarrow> attr_family t = FamNum \<Longrightarrow> cast_allowed ta t Implicit \<Longrightarrow>
    (attr_rep t = RepDec \<longrightarrow> attr_rep ta = RepDec) \<Longrightarrow> wt cols (BoundNeg t a) t"
| wt_cmp: "wt cols a ta \<Longrightarrow> wt cols b tb \<Longrightarrow> attr_sane ta \<Longrightarrow> attr_sane tb \<Longrightarrow>
    attr_family ta = attr_family tb \<Longrightarrow> wt cols (BoundCmp cop a b) kBool"
| wt_logic: "wt cols a kBool \<Longrightarrow> wt cols b kBool \<Longrightarrow> wt cols (BoundLogic lop a b) kBool"
| wt_not: "wt cols a kBool \<Longrightarrow> wt cols (BoundNot a) kBool"
| wt_is_null: "wt cols a ta \<Longrightarrow> wt cols (BoundIsNull a n) kBool"
| wt_func: "list_all2 (\<lambda>a t. wt cols a t \<and> attr_sane t) args ts \<Longrightarrow> unat f < length func_sigs \<Longrightarrow> f \<noteq> 0 \<Longrightarrow>
    func_sigs ! unat f = (map attr_rep ts, attr_rep t) \<Longrightarrow> attr_sane t \<Longrightarrow> wt cols (BoundFuncCall f name True t args) t"
| wt_cast: "wt cols a ta \<Longrightarrow> attr_sane ta \<Longrightarrow> attr_sane t \<Longrightarrow> t \<in> set (map seed_attr kTypeSeeds) \<Longrightarrow> wt cols (BoundCast t len sc a) t"
| wt_null: "null_tree e \<Longrightarrow> attr_sane t \<Longrightarrow> wt cols e t"

lemma null_tree_eval: "null_tree e \<Longrightarrow> \<exists>v. eval_bound e r = Inr v \<and> vbox v = BNull"
  by (induction e rule: null_tree.induct)
     (auto simp: const_value_def binary_value_def neg_value_def value_is_null_def null_val_def)

definition row_ok :: "type_attr list \<Rightarrow> row option \<Rightarrow> bool" where
  "row_ok cols r = (case r of None \<Rightarrow> cols = [] | Some r \<Rightarrow> list_all2 value_ok cols (row_values r))"

lemma rep_kBool [simp]: "attr_rep kBool = RepBool"
  by (simp add: seed_attr_defs)

lemma args_safe:
  assumes "list_all2 (\<lambda>a t. safe t (ev a)) args ts"
  shows "user_error (map_res ev args) \<and> (\<forall>vs. map_res ev args = Inr vs \<longrightarrow> list_all2 value_ok ts vs)"
  using assms
proof (induction args ts rule: list_all2_induct)
  case (Cons a as t ts)
  then show ?case by (cases "ev a"; cases "map_res ev as") auto
qed simp

lemma func_value_safe:
  assumes "list_all2 value_ok ts vs" "unat f < length func_sigs" "f \<noteq> 0"
    "func_sigs ! unat f = (map attr_rep ts, attr_rep t)"
  shows "safe t (func_value f True t vs)"
proof (cases "find value_is_null vs")
  case (Some v)
  then have "value_is_null v" by (simp add: find_Some_iff) blast
  then show ?thesis using Some by (simp add: func_value_def value_ok_def value_is_null_def)
next
  case None
  then have "\<forall>v \<in> set vs. vbox v \<noteq> BNull" by (simp add: find_None_iff value_is_null_def)
  then have "list_all2 has_rep (map attr_rep ts) vs"
    using assms(1) by (auto simp: list_all2_conv_all_nth value_ok_def has_rep_def)
  then show ?thesis using None eval_builtin_safe [OF assms(2-4)] by (simp add: func_value_def)
qed

lemma eval_safe:
  assumes "wt cols e t" and "row_ok cols r"
  shows "safe t (eval_bound e r)"
  using assms(1)
proof (induction rule: wt.induct)
  case (wt_const t v)
  then show ?case by (auto simp: const_value_def split: box.splits)
next
  case (wt_col i t t')
  then show ?case using assms(2)
    by (auto simp: row_ok_def col_value_def list_all2_conv_all_nth split: option.splits)
next
  case (wt_arith a ta b tb t op)
  then show ?case by (cases "eval_bound a r"; cases "eval_bound b r") (auto intro: binary_value_safe)
next
  case (wt_neg a ta t)
  then show ?case by (cases "eval_bound a r") (auto intro: neg_value_safe)
next
  case (wt_cmp a ta b tb cop)
  have "safe kBool (compare_value cop x y)" if "value_ok ta x" "value_ok tb y" for x y
    using value_cmp_user_error [OF that wt_cmp.hyps(3-5)]
    by (auto simp: compare_value_def seed_attr_defs intro!: safe_rbind)
  then show ?case using wt_cmp by (cases "eval_bound a r"; cases "eval_bound b r") auto
next
  case (wt_logic a b lop)
  then show ?case using rep_kBool
    by (cases "eval_bound a r"; cases "eval_bound b r") (auto intro: logic_value_safe)
next
  case (wt_not a)
  then show ?case using not_value_safe [of kBool] rep_kBool
    by (cases "eval_bound a r") (fastforce simp: value_ok_def value_factories box_typed_def)+
next
  case (wt_is_null a ta n)
  then show ?case by (cases "eval_bound a r") (auto simp: is_null_value_def seed_attr_defs)
next
  case (wt_func args ts f t name)
  have "list_all2 (\<lambda>a t. safe t (eval_bound a r)) args ts"
    using wt_func.IH by (rule list_all2_mono) auto
  from args_safe [OF this] show ?case using func_value_safe wt_func.hyps
    by (auto intro!: safe_rbind)
next
  case (wt_cast a ta t len sc)
  then show ?case by (cases "eval_bound a r") (auto intro: cast_expr_value_safe)
next
  case (wt_null e t)
  from null_tree_eval [OF wt_null(1), of r] show ?case by (auto simp: safe_def value_ok_def)
qed

text \<open>
  C26. Evaluation is type safe: a tree the analysis accepts, on a row of the table's types, gives
  a value of the tree's type (or NULL), or ends in an arithmetic or value-mismatch error the user
  sees; the internal errors, a wrong variant access and an out-of-range column cannot occur.
\<close>

theorem eval_bound_safe:
  assumes "wt cols e t" and "row_ok cols r"
  shows "safe t (eval_bound e r)"
  using assms by (rule eval_safe)

definition demo_expr :: bound_expr where
  "demo_expr = BoundCmp CmpGt (BoundArith CHR ''+'' kBigint (BoundColRef 0 kInt) (BoundConst (int_val kBigint 1)))
                 (BoundConst (numeric_val kNumeric 35 1))"

definition demo_int_row :: "i64 \<Rightarrow> row" where
  "demo_int_row i = empty_row\<lparr>row_values := [int_val kInt i]\<rparr>"

lemma demo_expr_wt: "wt [kInt] demo_expr kBool"
proof -
  have c: "wt [kInt] (BoundColRef 0 kInt) kInt"
    by (rule wt_col) (simp_all add: attr_sane_def seed_attr_defs)
  have k: "wt [kInt] (BoundConst (int_val kBigint 1)) kBigint"
    by (rule wt_const) (simp_all add: attr_sane_def seed_attr_defs value_factories value_ok_def box_typed_def)
  have n: "wt [kInt] (BoundConst (numeric_val kNumeric 35 1)) kNumeric"
    by (rule wt_const) (simp_all add: attr_sane_def seed_attr_defs dec_ok_def kNumericUnscaledMax_def value_factories value_ok_def box_typed_def)
  have "wt [kInt] (BoundArith CHR ''+'' kBigint (BoundColRef 0 kInt) (BoundConst (int_val kBigint 1))) kBigint"
    by (rule wt_arith [OF c k]) (simp_all add: attr_sane_def seed_attr_defs cast_allowed_def cast_tier_def)
  then show ?thesis unfolding demo_expr_def
    by (rule wt_cmp [OF _ n]) (simp_all add: attr_sane_def seed_attr_defs)
qed

theorem eval_bound_safe_witness: "safe kBool (eval_bound demo_expr (Some (demo_int_row 3)))"
  by (rule eval_bound_safe [OF demo_expr_wt])
     (simp add: row_ok_def demo_int_row_def value_ok_def value_factories box_typed_def seed_attr_defs)

end
