(* ===== verification/Fold.thy ===== *)
theory Fold
  imports ExprSafety
begin

text \<open>
  Constant folding and boolean simplification of src/planner (const_fold.cpp, bool_simplify.cpp)
  on bound expressions. Shown: on every row on which the original tree evaluates, folding
  succeeds and the folded tree gives the same value (in a WHERE predicate: the same verdict), so
  an error raised while planning is one the query would have raised on every row; and the two
  casts that the structural comparison of the source confuses.
\<close>

section \<open>Boolean simplification\<close>

definition const_bool :: "bound_expr \<Rightarrow> bool option" where
  "const_bool e = (case e of BoundConst v \<Rightarrow> get_bool v | _ \<Rightarrow> None)"

fun negate_cmp :: "cmp_op \<Rightarrow> cmp_op" where
  "negate_cmp CmpEq = CmpNe"
| "negate_cmp CmpNe = CmpEq"
| "negate_cmp CmpLt = CmpGe"
| "negate_cmp CmpLe = CmpGt"
| "negate_cmp CmpGt = CmpLe"
| "negate_cmp CmpGe = CmpLt"

text \<open>Equality of two variants: the floating alternatives compare as numbers, the others structurally.\<close>

fun box_equal :: "box \<Rightarrow> box \<Rightarrow> bool" where
  "box_equal (BDouble a) (BDouble b) = fp_eq F64 a b"
| "box_equal (BFloat a) (BFloat b) = fp_eq F32 a b"
| "box_equal a b = (a = b)"

definition value_equal :: "dbvalue \<Rightarrow> dbvalue \<Rightarrow> bool" where
  "value_equal a b \<longleftrightarrow> vtype a = vtype b \<and> box_equal (vbox a) (vbox b)"

fun expr_equal :: "bound_expr \<Rightarrow> bound_expr \<Rightarrow> bool"
and exprs_equal :: "bound_expr list \<Rightarrow> bound_expr list \<Rightarrow> bool" where
  "expr_equal (BoundConst v) e = (case e of BoundConst w \<Rightarrow> value_equal v w | _ \<Rightarrow> False)"
| "expr_equal (BoundColRef i t) e = (case e of BoundColRef j u \<Rightarrow> i = j \<and> t = u | _ \<Rightarrow> False)"
| "expr_equal (BoundArith op t a b) e =
     (case e of BoundArith op' t' a' b' \<Rightarrow> op = op' \<and> t = t' \<and> expr_equal a a' \<and> expr_equal b b' | _ \<Rightarrow> False)"
| "expr_equal (BoundNeg t a) e = (case e of BoundNeg t' a' \<Rightarrow> t = t' \<and> expr_equal a a' | _ \<Rightarrow> False)"
| "expr_equal (BoundCmp op a b) e =
     (case e of BoundCmp op' a' b' \<Rightarrow> op = op' \<and> expr_equal a a' \<and> expr_equal b b' | _ \<Rightarrow> False)"
| "expr_equal (BoundLogic op a b) e =
     (case e of BoundLogic op' a' b' \<Rightarrow> op = op' \<and> expr_equal a a' \<and> expr_equal b b' | _ \<Rightarrow> False)"
| "expr_equal (BoundNot a) e = (case e of BoundNot a' \<Rightarrow> expr_equal a a' | _ \<Rightarrow> False)"
| "expr_equal (BoundIsNull a n) e = (case e of BoundIsNull a' n' \<Rightarrow> n = n' \<and> expr_equal a a' | _ \<Rightarrow> False)"
| "expr_equal (BoundFuncCall f nm s t as) e =
     (case e of BoundFuncCall f' nm' s' t' as' \<Rightarrow>
        if f \<noteq> f' \<or> t \<noteq> t' \<or> length as \<noteq> length as' then False else exprs_equal as as'
      | _ \<Rightarrow> False)"
| "expr_equal (BoundCast t len sc a) e =
     (case e of BoundCast t' len' sc' a' \<Rightarrow> t = t' \<and> len = len' \<and> expr_equal a a' | _ \<Rightarrow> False)"
| "exprs_equal [] bs = True"
| "exprs_equal (a # as) bs = (case bs of [] \<Rightarrow> True | b # bs' \<Rightarrow> expr_equal a b \<and> exprs_equal as bs')"

definition simplify_logic :: "logic_op \<Rightarrow> bound_expr \<Rightarrow> bound_expr \<Rightarrow> bound_expr" where
  "simplify_logic op l r =
    (let lb = const_bool l; rb = const_bool r in
     if op = LogicAnd then
       (if lb = Some False \<or> rb = Some False then BoundConst (bool_val kBool False)
        else if lb \<noteq> None then r else if rb \<noteq> None then l else BoundLogic op l r)
     else if lb = Some True \<or> rb = Some True then BoundConst (bool_val kBool True)
     else if lb \<noteq> None then r else if rb \<noteq> None then l else BoundLogic op l r)"

fun simplify_not :: "bound_expr \<Rightarrow> bound_expr" where
  "simplify_not (BoundNot a) = a"
| "simplify_not (BoundCmp op a b) = BoundCmp (negate_cmp op) a b"
| "simplify_not (BoundIsNull a negate) = BoundIsNull a (\<not> negate)"
| "simplify_not a = BoundNot a"

definition simplify_cmp :: "cmp_op \<Rightarrow> bound_expr \<Rightarrow> bound_expr \<Rightarrow> bound_expr" where
  "simplify_cmp op l r =
    (if expr_equal l r then
       (if op = CmpEq \<or> op = CmpLe \<or> op = CmpGe then BoundIsNull l True
        else BoundConst (bool_val kBool False))
     else BoundCmp op l r)"

section \<open>Constant folding\<close>

definition is_const :: "bound_expr \<Rightarrow> bool" where
  "is_const e = (case e of BoundConst _ \<Rightarrow> True | _ \<Rightarrow> False)"

definition is_null_const :: "bound_expr \<Rightarrow> bool" where
  "is_null_const e = (case e of BoundConst v \<Rightarrow> value_is_null v | _ \<Rightarrow> False)"

definition to_fold_const :: "bound_expr \<Rightarrow> bound_expr res" where
  "to_fold_const e = rbind (eval_const e) (\<lambda>v. Inr (BoundConst v))"

definition cmp_at_weak :: "bool \<Rightarrow> bound_expr \<Rightarrow> bound_expr" where
  "cmp_at_weak weak e = (case e of BoundCmp op a b \<Rightarrow> if weak then simplify_cmp op a b else e | _ \<Rightarrow> e)"

fun fold_expr :: "bound_expr \<Rightarrow> bool \<Rightarrow> bound_expr res" where
  "fold_expr (BoundConst v) weak = Inr (BoundConst v)"
| "fold_expr (BoundColRef i t) weak = Inr (BoundColRef i t)"
| "fold_expr (BoundArith op t a b) weak =
     rbind (fold_expr a False) (\<lambda>a'. rbind (fold_expr b False) (\<lambda>b'.
       if is_const a' \<and> is_const b' then to_fold_const (BoundArith op t a' b')
       else if is_null_const a' \<or> is_null_const b' then Inr (BoundConst null_val)
       else Inr (BoundArith op t a' b')))"
| "fold_expr (BoundNeg t a) weak =
     rbind (fold_expr a False) (\<lambda>a'.
       if is_const a' then to_fold_const (BoundNeg t a') else Inr (BoundNeg t a'))"
| "fold_expr (BoundCmp op a b) weak =
     rbind (fold_expr a False) (\<lambda>a'. rbind (fold_expr b False) (\<lambda>b'.
       if is_const a' \<and> is_const b' then to_fold_const (BoundCmp op a' b')
       else if is_null_const a' \<or> is_null_const b' then Inr (BoundConst null_val)
       else Inr (cmp_at_weak weak (BoundCmp op a' b'))))"
| "fold_expr (BoundLogic op a b) weak =
     rbind (fold_expr a weak) (\<lambda>a'. rbind (fold_expr b weak) (\<lambda>b'.
       if is_const a' \<and> is_const b' then to_fold_const (BoundLogic op a' b')
       else Inr (simplify_logic op a' b')))"
| "fold_expr (BoundNot a) weak =
     rbind (fold_expr a False) (\<lambda>a'.
       if is_const a' then to_fold_const (BoundNot a') else Inr (cmp_at_weak weak (simplify_not a')))"
| "fold_expr (BoundIsNull a negate) weak =
     rbind (fold_expr a False) (\<lambda>a'.
       if is_const a' then to_fold_const (BoundIsNull a' negate) else Inr (BoundIsNull a' negate))"
| "fold_expr (BoundFuncCall f nm strict t args) weak =
     rbind (map_res (\<lambda>a. fold_expr a False) args) (\<lambda>args'.
       if list_all is_const args' then to_fold_const (BoundFuncCall f nm strict t args')
       else Inr (BoundFuncCall f nm strict t args'))"
| "fold_expr (BoundCast t len sc a) weak =
     rbind (fold_expr a False) (\<lambda>a'.
       if is_const a' then to_fold_const (BoundCast t len sc a') else Inr (BoundCast t len sc a'))"

section \<open>Evaluation keeps floating values finite\<close>

definition fin :: "dbvalue \<Rightarrow> bool" where
  "fin v = (case vbox v of BDouble d \<Rightarrow> fp_isfinite F64 d | BFloat f \<Rightarrow> fp_isfinite F32 f | _ \<Rightarrow> True)"

lemma fin_factories [simp]:
  "fin (int_val t i)" "fin (str_val t s)" "fin (bool_val t b)" "fin (numeric_val t u sc)" "fin null_val"
  "fin (double_val t d) \<longleftrightarrow> fp_isfinite F64 d" "fin (float_val t f) \<longleftrightarrow> fp_isfinite F32 f"
  by (simp_all add: fin_def value_factories)

lemma take_bit_xor_exp: "take_bit k (unat (x XOR 2 ^ k)) = take_bit k (unat (x :: 'a::len word))"
  by (rule bit_eqI) (auto simp: bit_simps)

lemma fp_minus_bits:
  "fp_bits F64 (fp_minus F64 (x :: f64)) = fp_bits F64 x" "fp_bits F32 (fp_minus F32 (y :: f32)) = fp_bits F32 y"
  using take_bit_xor_exp [of 63 x] take_bit_xor_exp [of 31 y]
  unfolding fp_bits_def fp_minus_def F64_simps F32_simps take_bit_eq_mod of_nat_power of_nat_numeral .

lemma finite_minus [simp]:
  "fp_isfinite F64 (fp_minus F64 x) \<longleftrightarrow> fp_isfinite F64 (x :: f64)"
  "fp_isfinite F32 (fp_minus F32 y) \<longleftrightarrow> fp_isfinite F32 (y :: f32)"
  by (simp_all add: fp_isfinite_def fp_minus_bits)

lemma finite_abs [simp]:
  "fp_isfinite F64 (fp_abs F64 x) \<longleftrightarrow> fp_isfinite F64 (x :: f64)"
  "fp_isfinite F32 (fp_abs F32 y) \<longleftrightarrow> fp_isfinite F32 (y :: f32)"
  using fp_bits_less [of F64 x] fp_bits_less [of F32 y]
  by (simp_all add: fp_isfinite_def fp_abs_def fp_make_F64 fp_make_F32)

lemma parse_f64_finite: "parse_f64 s = Inr d \<Longrightarrow> fp_isfinite F64 d"
  by (auto simp: parse_f64_def Let_def split: option.splits if_splits)

lemma narrow_finite: "narrow_f32 d = Inr f \<Longrightarrow> fp_isfinite F64 d \<Longrightarrow> fp_isfinite F32 f"
  by (auto simp: narrow_f32_def Let_def split: if_splits)

lemma finite_of_i64 [simp]:
  "fp_isfinite F64 (fp_of_int F64 (sint (i :: i64)) :: f64)" "fp_isfinite F32 (fp_of_int F32 (sint i) :: f32)"
proof -
  have "\<bar>sint i\<bar> \<le> 2 ^ 63" using sint_range [of i] by (simp add: INT64_MIN_def INT64_MAX_def abs_le_iff)
  then show "fp_isfinite F64 (fp_of_int F64 (sint i) :: f64)" "fp_isfinite F32 (fp_of_int F32 (sint i) :: f32)"
    by (auto intro: finite_of_int fp_width_formats)
qed

lemma finite_bits01 [simp]:
  "fp_isfinite F64 (fp_of_int F64 1 :: f64)" "fp_isfinite F32 (fp_of_int F32 1 :: f32)"
  "fp_isfinite F64 (fp_of_int F64 0 :: f64)" "fp_isfinite F32 (fp_of_int F32 0 :: f32)"
  by (auto intro: finite_of_int fp_width_formats)

lemma get_fin:
  "get_f64 v = Inr d \<Longrightarrow> fin v \<Longrightarrow> fp_isfinite F64 d" "get_f32 v = Inr f \<Longrightarrow> fin v \<Longrightarrow> fp_isfinite F32 f"
  by (cases v rule: get_f64.cases; simp add: fin_def) (cases v rule: get_f32.cases; simp add: fin_def)

lemma fin_restamp: "fin v \<Longrightarrow> fin (Value t (vbox v))"
  by (simp add: fin_def)

lemma cast_value_fin:
  assumes "cast_value v t mode = Inr w" and "fin v"
  shows "fin w"
proof -
  obtain f tier where f: "kCastTable (attr_rep (vtype v)) (attr_rep t) = Some (f, tier)" "f v t = Inr w"
    using assms(1) by (auto simp: cast_value_def split: if_splits option.splits)
  then show ?thesis using assms(2)
    by (cases "attr_rep (vtype v)"; cases "attr_rep t")
       (auto simp: cast_fn_defs res_simps dec_to_f64_raw_def fin_restamp split: if_splits
          dest: get_fin narrow_finite parse_f64_finite simp: finite_widen)
qed

lemma coerce_numeric_fin: "coerce_numeric v t p s mode = Inr w \<Longrightarrow> fin w"
  by (auto simp: coerce_numeric_def res_simps split: if_splits)

lemma cast_expr_value_fin: "cast_expr_value t len sc v = Inr w \<Longrightarrow> fin v \<Longrightarrow> fin w"
  by (auto simp: cast_expr_value_def cast_checked_def res_simps split: if_splits
      intro: coerce_numeric_fin cast_value_fin)

lemma payload_cast:
  "to_double v t = Inr d \<Longrightarrow> \<exists>x. cast_value v t Implicit = Inr x \<and> vbox x = BDouble d"
  "to_float v t = Inr f \<Longrightarrow> \<exists>x. cast_value v t Implicit = Inr x \<and> vbox x = BFloat f"
  by (cases "cast_value v t Implicit"; fastforce simp: to_double_def to_float_def split: box.split_asm)+

lemma payload_fin:
  "to_double v t = Inr d \<Longrightarrow> fin v \<Longrightarrow> fp_isfinite F64 d" "to_float v t = Inr f \<Longrightarrow> fin v \<Longrightarrow> fp_isfinite F32 f"
  using cast_value_fin [of v t Implicit] by (fastforce dest!: payload_cast simp: fin_def [of "_ :: dbvalue"])+

lemma neg_value_fin: "neg_value t v = Inr w \<Longrightarrow> fin v \<Longrightarrow> fin w"
  by (auto simp: neg_value_def res_simps split: if_splits intro: payload_fin)

lemma binary_value_fin: "binary_value op t a b = Inr w \<Longrightarrow> fin w"
  by (auto simp: binary_value_def res_simps Let_def split: if_splits)

lemma func_arg_fin:
  "f64_arg n args = Inr d \<Longrightarrow> list_all fin args \<Longrightarrow> fp_isfinite F64 d"
  "f32_arg n args = Inr f \<Longrightarrow> list_all fin args \<Longrightarrow> fp_isfinite F32 f"
  by (auto simp: f64_arg_def f32_arg_def nth_arg_def res_simps list_all_length split: if_splits dest: get_fin)

lemma round_dec_fin: "round_dec d n t = Inr w \<Longrightarrow> fin w"
  by (auto simp: round_dec_def res_simps Let_def split: if_splits)

lemma trunc_dec_fin: "trunc_dec d up t = Inr w \<Longrightarrow> fin w"
  by (auto simp: trunc_dec_def res_simps Let_def split: if_splits)

lemma eval_builtin_fin:
  assumes "eval_builtin f args t = Inr w" and "list_all fin args"
  shows "fin w"
proof -
  have "list_all (\<lambda>g. case g of None \<Rightarrow> True | Some g \<Rightarrow> (\<forall>w. g args t = Inr w \<longrightarrow> fin w)) kFuncTable"
    using assms(2) by (auto simp: kFuncTable_def func_defs res_simps Let_def split: if_splits
        dest: func_arg_fin round_dec_fin trunc_dec_fin simp: finite_floor_ceil_round)
  then show ?thesis using assms(1)
    by (auto simp: eval_builtin_def list_all_length Let_def not_le split: if_splits option.splits)
qed

lemma func_value_fin: "func_value f s t args = Inr w \<Longrightarrow> list_all fin args \<Longrightarrow> fin w"
  by (auto simp: func_value_def list_all_iff find_Some_iff split: option.splits if_splits
      intro: eval_builtin_fin)

lemma const_value_fin: "fin v \<Longrightarrow> const_value v = Inr v"
  by (auto simp: const_value_def fin_def split: box.splits)

section \<open>Agreement of values\<close>

text \<open>Equal values, where the type a NULL carries is ignored.\<close>

definition veq :: "dbvalue \<Rightarrow> dbvalue \<Rightarrow> bool" where
  "veq v w \<longleftrightarrow> v = w \<or> (vbox v = BNull \<and> vbox w = BNull)"

definition truth :: "dbvalue \<Rightarrow> bool" where
  "truth v \<longleftrightarrow> vbox v = BBool True"

text \<open>In a WHERE predicate only the verdict counts; elsewhere the value.\<close>

definition sim :: "bool \<Rightarrow> dbvalue \<Rightarrow> dbvalue \<Rightarrow> bool" where
  "sim weak v w = (if weak then truth v = truth w else veq v w)"

lemma veq_refl [simp]: "veq v v"
  by (simp add: veq_def)

lemma sim_veq_trans: "sim weak v w \<Longrightarrow> veq w x \<Longrightarrow> sim weak v x"
  by (auto simp: sim_def veq_def truth_def)

lemma veq_sim: "veq v w \<Longrightarrow> sim weak v w"
  by (auto simp: sim_def veq_def truth_def)

lemma veq_null: "veq v w \<Longrightarrow> value_is_null v \<longleftrightarrow> value_is_null w"
  by (auto simp: veq_def value_is_null_def)

lemma binary_veq:
  "veq a a' \<Longrightarrow> veq b b' \<Longrightarrow> binary_value op t a b = Inr v \<Longrightarrow> binary_value op t a' b' = Inr v"
  by (auto simp: veq_def binary_value_def value_is_null_def)

lemma compare_veq:
  "veq a a' \<Longrightarrow> veq b b' \<Longrightarrow> compare_value op a b = Inr v \<Longrightarrow> compare_value op a' b' = Inr v"
  by (auto simp: veq_def compare_value_def value_is_null_def)

lemma unary_veq:
  "veq a a' \<Longrightarrow> neg_value t a = Inr v \<Longrightarrow> \<exists>v'. neg_value t a' = Inr v' \<and> veq v v'"
  "veq a a' \<Longrightarrow> not_value a = Inr v \<Longrightarrow> \<exists>v'. not_value a' = Inr v' \<and> veq v v'"
  "veq a a' \<Longrightarrow> cast_expr_value t len sc a = Inr v \<Longrightarrow> \<exists>v'. cast_expr_value t len sc a' = Inr v' \<and> veq v v'"
  "veq a a' \<Longrightarrow> is_null_value n a = is_null_value n a'"
  by (auto simp: veq_def neg_value_def not_value_def cast_expr_value_def is_null_value_def value_is_null_def)

lemma func_veq:
  assumes "list_all2 veq vs vs'" and "func_value f True t vs = Inr v"
  shows "\<exists>v'. func_value f True t vs' = Inr v' \<and> veq v v'"
proof (cases "find value_is_null vs")
  case None
  then have "\<forall>x \<in> set vs. vbox x \<noteq> BNull" by (simp add: find_None_iff value_is_null_def)
  then have "vs' = vs" using assms(1)
    by (induction rule: list_all2_induct [OF assms(1)]) (auto simp: veq_def)
  then show ?thesis using assms(2) by simp
next
  case (Some x)
  have "v = x" using assms(2) Some by (simp add: func_value_def)
  moreover have "value_is_null x" "x \<in> set vs" using Some by (auto simp: find_Some_iff)
  ultimately have x: "value_is_null x" "v = x" "x \<in> set vs" by simp_all
  then obtain y where "y \<in> set vs'" "value_is_null y"
    using assms(1) veq_null by (metis list_all2_conv_all_nth in_set_conv_nth)
  then obtain z where z: "find value_is_null vs' = Some z" by (cases "find value_is_null vs'") (auto simp: find_None_iff)
  then have "value_is_null z" by (auto simp: find_Some_iff)
  then show ?thesis using x z by (simp add: func_value_def veq_def value_is_null_def)
qed

lemma bool_ok_cases: "value_ok kBool v \<Longrightarrow> vbox v = BNull \<or> (\<exists>b. v = bool_val kBool b)"
  using box_typed_payload(2) [of "vbox v"] by (cases v) (auto simp: value_ok_def bool_val_def)

lemma get_bool_simps [simp]: "get_bool (bool_val t b) = Some b" "vbox v = BNull \<Longrightarrow> get_bool v = None" "get_bool null_val = None"
  by (simp add: bool_val_def, cases v, simp, simp add: null_val_def)

lemma truth_simps [simp]: "truth (bool_val t b) = b" "truth null_val = False" "vbox v = BNull \<Longrightarrow> truth v = False"
  by (simp_all add: truth_def value_factories)

text \<open>The connectives on three truth values.\<close>

definition logic3 :: "logic_op \<Rightarrow> bool option \<Rightarrow> bool option \<Rightarrow> bool option" where
  "logic3 op x y =
    (let dom = Some (op = LogicOr)
     in if x = dom \<or> y = dom then dom else if x = None \<or> y = None then None else Some (op = LogicAnd))"

definition of_truth :: "bool option \<Rightarrow> dbvalue" where
  "of_truth x = (case x of None \<Rightarrow> null_val | Some b \<Rightarrow> bool_val kBool b)"

lemma of_truth_simps [simp]:
  "get_bool (of_truth x) = x" "value_ok kBool (of_truth x)" "fin (of_truth x)" "truth (of_truth x) \<longleftrightarrow> x = Some True"
  by (cases x; simp add: of_truth_def)+

lemma bool_ok_truth:
  assumes "value_ok kBool v"
  shows "value_is_null v \<longleftrightarrow> get_bool v = None" "truth v \<longleftrightarrow> get_bool v = Some True" "veq v (of_truth (get_bool v))"
  using bool_ok_cases [OF assms] by (auto simp: value_is_null_def of_truth_def veq_def truth_def value_factories)

lemma logic_value_truth:
  assumes "value_ok kBool a" "value_ok kBool b"
  shows "logic_value op a b = Inr (of_truth (logic3 op (get_bool a) (get_bool b)))"
  using bool_ok_truth(1) [OF assms(1)] bool_ok_truth(1) [OF assms(2)]
  by (cases op) (auto simp: logic_value_def logic3_def of_truth_def Let_def split: option.splits)

lemma sim_truth:
  assumes "value_ok kBool a" "value_ok kBool a'"
  shows "sim weak a a' \<longleftrightarrow> (if weak then (get_bool a = Some True) = (get_bool a' = Some True) else get_bool a = get_bool a')"
  using bool_ok_cases [OF assms(1)] bool_ok_cases [OF assms(2)]
  by (auto simp: sim_def veq_def truth_def value_factories)

lemma logic_sim:
  assumes "value_ok kBool a" "value_ok kBool b" "value_ok kBool a'" "value_ok kBool b'"
    and "sim weak a a'" "sim weak b b'" and "logic_value op a b = Inr v"
  shows "\<exists>v'. logic_value op a' b' = Inr v' \<and> sim weak v v' \<and> value_ok kBool v' \<and> fin v'"
proof -
  have "sim weak (of_truth (logic3 op (get_bool a) (get_bool b))) (of_truth (logic3 op (get_bool a') (get_bool b')))"
    using assms(5,6) unfolding sim_truth [OF assms(1,3)] sim_truth [OF assms(2,4)]
      sim_truth [OF of_truth_simps(2) of_truth_simps(2)]
    by (cases op; cases weak; cases "get_bool a"; cases "get_bool b") (auto simp: logic3_def Let_def)
  then show ?thesis using assms(7) logic_value_truth [OF assms(1,2)] logic_value_truth [OF assms(3,4)] by auto
qed

section \<open>Trees on which structural equality is sound\<close>

text \<open>
  No floating-point constant can arise (two zeros of opposite sign compare equal) and no cast to a
  declared \<^verbatim>\<open>numeric(p, s)\<close> occurs (the comparison ignores the scale).
\<close>

fun fold_simple :: "bound_expr \<Rightarrow> bool" where
  "fold_simple (BoundConst v) = (case vbox v of BDouble _ \<Rightarrow> False | BFloat _ \<Rightarrow> False | _ \<Rightarrow> True)"
| "fold_simple (BoundColRef i t) = True"
| "fold_simple (BoundArith op t a b) = (attr_rep t \<notin> {RepFloat, RepDouble} \<and> fold_simple a \<and> fold_simple b)"
| "fold_simple (BoundNeg t a) = (attr_rep t \<notin> {RepFloat, RepDouble} \<and> fold_simple a)"
| "fold_simple (BoundCmp op a b) = (fold_simple a \<and> fold_simple b)"
| "fold_simple (BoundLogic op a b) = (fold_simple a \<and> fold_simple b)"
| "fold_simple (BoundNot a) = fold_simple a"
| "fold_simple (BoundIsNull a n) = fold_simple a"
| "fold_simple (BoundFuncCall f nm s t args) = (s \<and> attr_rep t \<notin> {RepFloat, RepDouble} \<and> list_all fold_simple args)"
| "fold_simple (BoundCast t len sc a) = (attr_rep t \<notin> {RepFloat, RepDouble} \<and> \<not> (attr_rep t = RepDec \<and> len > 0) \<and> fold_simple a)"

lemma expr_equal_eval:
  "fold_simple a \<Longrightarrow> fold_simple b \<Longrightarrow> expr_equal a b \<Longrightarrow> eval_bound a r = eval_bound b r"
  "list_all fold_simple as \<Longrightarrow> list_all fold_simple bs \<Longrightarrow> length as = length bs \<Longrightarrow> exprs_equal as bs \<Longrightarrow>
   map_res (\<lambda>a. eval_bound a r) as = map_res (\<lambda>a. eval_bound a r) bs"
proof (induction a b and as bs rule: expr_equal_exprs_equal.induct)
  case (1 v e)
  then show ?case
    by (cases e) (auto simp: value_equal_def intro!: arg_cong [where f = const_value] dbvalue.expand split: box.splits)
next
  case (10 t len sc a e)
  show ?case
  proof (cases e)
    case (BoundCast t' len' sc' a')
    then have "\<not> (attr_rep t = RepDec \<and> len > 0)" using 10 by simp
    then have "cast_expr_value t len sc = cast_expr_value t len sc'"
      by (intro ext) (auto simp: cast_expr_value_def)
    then show ?thesis using 10 BoundCast by simp
  qed (use 10 in simp_all)
next
  case (12 a as bs)
  then show ?case by (cases bs) simp_all
next
  case (2 i t e)
  then show ?case by (cases e) simp_all
next
  case (3 op t a b e)
  then show ?case by (cases e) simp_all
next
  case (4 t a e)
  then show ?case by (cases e) simp_all
next
  case (5 op a b e)
  then show ?case by (cases e) simp_all
next
  case (6 op a b e)
  then show ?case by (cases e) simp_all
next
  case (7 a e)
  then show ?case by (cases e) simp_all
next
  case (8 a n e)
  then show ?case by (cases e) simp_all
next
  case (9 f nm s t as e)
  then show ?case by (cases e) (auto split: if_splits)
next
  case (11 bs)
  then show ?case by simp
qed

lemma value_cmp_self: "value_cmp x x = Inr c \<Longrightarrow> c = 0"
proof -
  assume c: "value_cmp x x = Inr c"
  have "num_cmp x x = Inr c \<Longrightarrow> c = 0"
    by (cases "vbox x") (auto simp: num_cmp_def i64_cmp_def f64_cmp_def dec_order.same fp_lt_def res_simps)
  then show ?thesis using c
    by (cases "attr_family (vtype x)"; cases "vbox x")
       (auto simp: value_cmp_def value_is_null_def str_order.same Let_def)
qed

section \<open>Soundness of the rewritings\<close>

inductive_cases wt_constE: "wt cols (BoundConst v) t"
inductive_cases wt_cmpE: "wt cols (BoundCmp op a b) t"
inductive_cases wt_notE: "wt cols (BoundNot a) t"
inductive_cases wt_isnullE: "wt cols (BoundIsNull a n) t"
inductive_cases wt_logicE: "wt cols (BoundLogic op a b) t"

lemma sane_kBool [simp]: "attr_sane kBool"
  by (simp add: attr_sane_def seed_attr_defs)

lemma wt_sane: "wt cols e t \<Longrightarrow> attr_sane t"
  by (induction rule: wt.induct) auto

lemma wt_bool_const [simp]: "wt cols (BoundConst (bool_val kBool b)) kBool"
  by (rule wt_const) (simp_all add: bool_val_def value_ok_def box_typed_def)

lemma wt_null_const: "attr_sane t \<Longrightarrow> wt cols (BoundConst null_val) t"
  by (rule wt_const [OF value_ok_factories(6)]) (simp_all add: null_val_def)

lemma vbox_simps [simp]: "vbox (bool_val t b) = BBool b" "vbox null_val = BNull"
  by (simp_all add: value_factories)

lemma const_eval:
  assumes "wt cols (BoundConst w) t" and "eval_bound (BoundConst w) r = Inr w'"
  shows "w' = w \<and> fin w"
  using assms by (auto simp: const_value_def fin_def elim!: wt_constE split: box.splits if_splits)

lemma simple_const:
  assumes "value_ok t v" and "attr_rep t \<notin> {RepFloat, RepDouble}"
  shows "fold_simple (BoundConst v)"
  using assms by (cases "vbox v"; cases "attr_rep t") (auto simp: value_ok_def box_typed_def)

text \<open>Replacing a node over constants by the constant it evaluates to.\<close>

lemma fold_const_node:
  assumes "wt cols N t" "row_ok cols r" "eval_bound N r = Inr v" "eval_bound N None = eval_bound N r" "fin v"
    and "fold_simple N \<longrightarrow> attr_rep t \<notin> {RepFloat, RepDouble}"
  shows "to_fold_const N = Inr (BoundConst v) \<and> wt cols (BoundConst v) t \<and> eval_bound (BoundConst v) r = Inr v
         \<and> (fold_simple N \<longrightarrow> fold_simple (BoundConst v))"
proof -
  have ok: "value_ok t v" using eval_safe [OF assms(1,2)] assms(3) by simp
  have "\<forall>f. vbox v = BFloat f \<longrightarrow> fp_isfinite F32 f" using assms(5) by (auto simp: fin_def)
  then have "wt cols (BoundConst v) t" using ok wt_sane [OF assms(1)] by (intro wt_const)
  then show ?thesis using assms ok simple_const by (simp add: to_fold_const_def eval_const_def const_value_fin)
qed

lemma simplify_cmp_sound:
  assumes "wt cols (BoundCmp op a b) t" "eval_bound (BoundCmp op a b) r = Inr v" "fold_simple a" "fold_simple b"
  shows "\<exists>v'. eval_bound (simplify_cmp op a b) r = Inr v' \<and> truth v = truth v' \<and> wt cols (simplify_cmp op a b) t
           \<and> fold_simple (simplify_cmp op a b)"
proof (cases "expr_equal a b")
  case False
  then show ?thesis using assms by (simp add: simplify_cmp_def)
next
  case True
  from assms(1) obtain ta where t: "t = kBool" "wt cols a ta" by (auto elim: wt_cmpE)
  from assms(2) obtain x y where x: "eval_bound a r = Inr x" "eval_bound b r = Inr y" "compare_value op x y = Inr v"
    by (auto simp: res_simps)
  have xy: "x = y" using expr_equal_eval(1) [OF assms(3,4) True, of r] x by simp
  have v: "truth v \<longleftrightarrow> \<not> value_is_null x \<and> (op = CmpEq \<or> op = CmpLe \<or> op = CmpGe)"
    using x(3) value_cmp_self [of x] unfolding xy [symmetric]
    by (cases op) (auto simp: compare_value_def res_simps split: if_splits)
  have "wt cols (BoundIsNull a True) kBool" using t(2) by (rule wt_is_null)
  then show ?thesis using True x v t assms(3)
    by (auto simp: simplify_cmp_def is_null_value_def const_value_fin)
qed

lemma negate_holds: "cmp_holds (negate_cmp op) c \<longleftrightarrow> \<not> cmp_holds op c"
  by (cases op) auto

lemma simplify_not_sound:
  assumes "wt cols a kBool" "row_ok cols r" "eval_bound a r = Inr x" "not_value x = Inr v"
  shows "\<exists>v'. eval_bound (simplify_not a) r = Inr v' \<and> veq v v' \<and> wt cols (simplify_not a) kBool
           \<and> (fold_simple a \<longrightarrow> fold_simple (simplify_not a))"
proof -
  have keep: ?thesis if "simplify_not a = BoundNot a" using assms that wt_not [of cols a] by simp
  show ?thesis
  proof (cases a)
    case (BoundNot b)
    then have b: "wt cols b kBool" using assms(1) by (auto elim: wt_notE)
    from assms(3) BoundNot obtain y where y: "eval_bound b r = Inr y" "not_value y = Inr x" by (auto simp: res_simps)
    have "value_ok kBool y" using eval_safe [OF b assms(2)] y(1) by simp
    from bool_ok_cases [OF this] have "veq v y" using y(2) assms(4)
      by (auto simp: not_value_def value_is_null_def veq_def)
    then show ?thesis using BoundNot y b by simp
  next
    case (BoundCmp op l m)
    from assms(3) BoundCmp obtain y z where yz: "eval_bound l r = Inr y" "eval_bound m r = Inr z"
      "compare_value op y z = Inr x" by (auto simp: res_simps)
    have "veq v w" if "compare_value (negate_cmp op) y z = Inr w" for w
      using that yz(3) assms(4)
      by (auto simp: compare_value_def not_value_def value_is_null_def negate_holds res_simps veq_def split: if_splits)
    moreover have "\<exists>w. compare_value (negate_cmp op) y z = Inr w" using yz(3) by (auto simp: compare_value_def res_simps)
    moreover have "wt cols (BoundCmp (negate_cmp op) l m) kBool"
      using assms(1) BoundCmp by (auto elim!: wt_cmpE intro: wt_cmp)
    ultimately show ?thesis using BoundCmp yz by auto
  next
    case (BoundIsNull b n)
    moreover have "wt cols (BoundIsNull b (\<not> n)) kBool"
      using assms(1) BoundIsNull by (auto elim!: wt_isnullE intro: wt_is_null)
    ultimately show ?thesis using assms(3,4)
      by (auto simp: res_simps is_null_value_def not_value_def)
  qed (use keep in simp_all)
qed

lemma simplify_logic_sound:
  assumes "wt cols a kBool" "wt cols b kBool" "row_ok cols r" "eval_bound a r = Inr x" "eval_bound b r = Inr y"
    and "logic_value op x y = Inr v"
  shows "\<exists>v'. eval_bound (simplify_logic op a b) r = Inr v' \<and> veq v v' \<and> wt cols (simplify_logic op a b) kBool
           \<and> (fold_simple a \<and> fold_simple b \<longrightarrow> fold_simple (simplify_logic op a b))"
proof -
  have ok: "value_ok kBool x" "value_ok kBool y"
    using eval_safe [OF assms(1,3)] eval_safe [OF assms(2,3)] assms(4,5) by simp_all
  have v: "v = of_truth (logic3 op (get_bool x) (get_bool y))"
    using assms(6) logic_value_truth [OF ok] by simp
  have c: "get_bool z = const_bool e" if "const_bool e \<noteq> None" "wt cols e kBool" "eval_bound e r = Inr z" for e z
    using that const_eval by (cases e) (auto simp: const_bool_def)
  have eq: "veq (of_truth (get_bool z)) z" if "value_ok kBool z" for z
    using bool_ok_truth(3) [OF that] by (auto simp: veq_def)
  have k: "eval_bound (BoundConst (bool_val kBool q)) r = Inr (bool_val kBool q)" for q
    by (simp add: const_value_fin)
  have fs: "fold_simple (BoundConst (bool_val kBool q))" for q by (simp add: bool_val_def)
  have ot: "of_truth (Some q) = bool_val kBool q" for q by (simp add: of_truth_def)
  show ?thesis
  proof (cases "const_bool a = None \<and> const_bool b = None")
    case True
    then show ?thesis using assms wt_logic [OF assms(1,2)] by (cases op) (simp_all add: simplify_logic_def)
  next
    case False
    then show ?thesis
      using assms(1,2,4,5) c [of a x] c [of b y] eq [OF ok(1)] eq [OF ok(2)] k fs ot unfolding v
      by (cases op; cases "const_bool a"; cases "const_bool b")
         (auto simp: simplify_logic_def logic3_def Let_def simp del: fold_simple.simps eval_bound.simps)
  qed
qed

text \<open>What folding owes on one row: it succeeds, keeps the typing, and the folded tree agrees with the value.\<close>

definition folds_to :: "type_attr list \<Rightarrow> row option \<Rightarrow> bound_expr \<Rightarrow> type_attr \<Rightarrow> bool \<Rightarrow> dbvalue \<Rightarrow> bool" where
  "folds_to cols r e t weak v \<longleftrightarrow>
    (\<exists>e' v'. fold_expr e weak = Inr e' \<and> wt cols e' t \<and> (fold_simple e \<longrightarrow> fold_simple e')
       \<and> eval_bound e' r = Inr v' \<and> sim weak v v')"

lemma folds_toI:
  "fold_expr e weak = Inr e' \<Longrightarrow> wt cols e' t \<Longrightarrow> (fold_simple e \<Longrightarrow> fold_simple e') \<Longrightarrow> eval_bound e' r = Inr v' \<Longrightarrow>
   sim weak v v' \<Longrightarrow> folds_to cols r e t weak v"
  by (auto simp: folds_to_def)

lemma folds_toE:
  assumes "folds_to cols r e t False v"
  obtains e' v' where "fold_expr e False = Inr e'" "wt cols e' t" "fold_simple e \<longrightarrow> fold_simple e'"
    "eval_bound e' r = Inr v'" "veq v v'"
  using assms by (auto simp: folds_to_def sim_def)

lemma is_const_cases: "is_const e \<Longrightarrow> \<exists>w. e = BoundConst w"
  by (cases e) (auto simp: is_const_def)

lemma is_null_const_cases: "is_null_const e \<Longrightarrow> \<exists>w. e = BoundConst w \<and> vbox w = BNull"
  by (cases e) (auto simp: is_null_const_def value_is_null_def)

lemma const_fin:
  assumes "is_const e" "wt cols e t" "eval_bound e r = Inr v"
  shows "fin v"
  using is_const_cases [OF assms(1)] const_eval assms(2,3) by blast

lemma null_const_eval: "is_null_const e \<Longrightarrow> eval_bound e r = Inr v \<Longrightarrow> vbox v = BNull"
  using is_null_const_cases [of e] by (auto simp: const_value_def)

lemma fold_unary:
  assumes "fold_expr (N a) weak = rbind (fold_expr a False) (\<lambda>a'. if is_const a' then to_fold_const (N a') else Inr (N a'))"
    and "\<And>x r. eval_bound (N x) r = rbind (eval_bound x r) g"
    and "\<And>x. wt cols x ta \<Longrightarrow> wt cols (N x) t"
    and "\<And>x. fold_simple (N x) \<longleftrightarrow> P \<and> fold_simple x" and "P \<Longrightarrow> attr_rep t \<notin> {RepFloat, RepDouble}"
    and "\<And>x y v. veq x y \<Longrightarrow> g x = Inr v \<Longrightarrow> \<exists>w. g y = Inr w \<and> veq v w" and "\<And>x v. g x = Inr v \<Longrightarrow> fin x \<Longrightarrow> fin v"
    and "row_ok cols r" and "\<And>v. eval_bound a r = Inr v \<Longrightarrow> folds_to cols r a ta False v" and "eval_bound (N a) r = Inr v"
  shows "folds_to cols r (N a) t weak v"
proof -
  from assms(2,10) obtain x where x: "eval_bound a r = Inr x" "g x = Inr v" by (auto simp: res_simps)
  from folds_toE [OF assms(9) [OF x(1)]] obtain a' x' where
    a: "fold_expr a False = Inr a'" "wt cols a' ta" "fold_simple a \<longrightarrow> fold_simple a'" "eval_bound a' r = Inr x'" "veq x x'" by blast
  from assms(6) [OF a(5) x(2)] obtain w where w: "g x' = Inr w" "veq v w" by blast
  have N: "wt cols (N a') t" "eval_bound (N a') r = Inr w" using assms(2,3) a w by simp_all
  show ?thesis
  proof (cases "is_const a'")
    case True
    have "eval_bound (N a') None = eval_bound (N a') r" using is_const_cases [OF True] assms(2) by auto
    moreover have "fin w" using const_fin [OF True a(2,4)] assms(7) [OF w(1)] by blast
    ultimately have "to_fold_const (N a') = Inr (BoundConst w) \<and> wt cols (BoundConst w) t \<and>
        eval_bound (BoundConst w) r = Inr w \<and> (fold_simple (N a') \<longrightarrow> fold_simple (BoundConst w))"
      using fold_const_node [OF N(1) assms(8) N(2)] assms(4,5) by blast
    then show ?thesis using True a assms(1,4) w(2) veq_sim
      by (intro folds_toI [where e' = "BoundConst w" and v' = w]) auto
  next
    case False
    then show ?thesis using a assms(1,4) N w(2) veq_sim
      by (intro folds_toI [where e' = "N a'" and v' = w]) auto
  qed
qed

lemma fold_args:
  assumes "list_all2 (\<lambda>a t. \<forall>v. eval_bound a r = Inr v \<longrightarrow> folds_to cols r a t False v) args ts"
    and "map_res (\<lambda>a. eval_bound a r) args = Inr vs"
  shows "\<exists>args' vs'. map_res (\<lambda>a. fold_expr a False) args = Inr args' \<and> list_all2 (wt cols) args' ts
     \<and> (list_all fold_simple args \<longrightarrow> list_all fold_simple args')
     \<and> map_res (\<lambda>a. eval_bound a r) args' = Inr vs' \<and> list_all2 veq vs vs'"
  using assms
proof (induction args ts arbitrary: vs rule: list_all2_induct)
  case Nil
  then show ?case by simp
next
  case (Cons a as t ts)
  from Cons.prems obtain x xs where x: "eval_bound a r = Inr x" "map_res (\<lambda>a. eval_bound a r) as = Inr xs" "vs = x # xs"
    by (auto simp: res_simps)
  from Cons.hyps(1) x(1) have "folds_to cols r a t False x" by blast
  then show ?case using Cons.IH [OF x(2)] x(3) by (elim folds_toE exE conjE) (fastforce simp: res_simps)
qed

text \<open>A binary node that is NULL-strict: arithmetic and comparison.\<close>

lemma fold_binary:
  assumes "\<And>x y r. eval_bound (N x y) r = rbind (eval_bound x r) (\<lambda>p. rbind (eval_bound y r) (\<lambda>q. g p q))"
    and "\<And>x y. wt cols x ta \<Longrightarrow> wt cols y tb \<Longrightarrow> wt cols (N x y) t"
    and "\<And>x y. fold_simple (N x y) \<longleftrightarrow> P \<and> fold_simple x \<and> fold_simple y" and "P \<Longrightarrow> attr_rep t \<notin> {RepFloat, RepDouble}"
    and "\<And>x y x' y' v. veq x x' \<Longrightarrow> veq y y' \<Longrightarrow> g x y = Inr v \<Longrightarrow> g x' y' = Inr v"
    and "\<And>x y v. g x y = Inr v \<Longrightarrow> fin v" and "\<And>x y. vbox x = BNull \<or> vbox y = BNull \<Longrightarrow> g x y = Inr null_val"
    and "row_ok cols r" and "\<And>v. eval_bound a r = Inr v \<Longrightarrow> folds_to cols r a ta False v"
    and "\<And>v. eval_bound b r = Inr v \<Longrightarrow> folds_to cols r b tb False v" and "eval_bound (N a b) r = Inr v"
  obtains a' b' where "fold_expr a False = Inr a'" "fold_expr b False = Inr b'" "wt cols (N a' b') t"
    "eval_bound (N a' b') r = Inr v" "fold_simple (N a b) \<longrightarrow> fold_simple (N a' b')"
    "is_const a' \<and> is_const b' \<longrightarrow> to_fold_const (N a' b') = Inr (BoundConst v) \<and> wt cols (BoundConst v) t
       \<and> eval_bound (BoundConst v) r = Inr v \<and> (fold_simple (N a b) \<longrightarrow> fold_simple (BoundConst v))"
    "is_null_const a' \<or> is_null_const b' \<longrightarrow> v = null_val"
proof -
  from assms(1,11) obtain x y where xy: "eval_bound a r = Inr x" "eval_bound b r = Inr y" "g x y = Inr v"
    by (auto simp: res_simps)
  from folds_toE [OF assms(9) [OF xy(1)]] obtain a' x' where
    a: "fold_expr a False = Inr a'" "wt cols a' ta" "fold_simple a \<longrightarrow> fold_simple a'" "eval_bound a' r = Inr x'" "veq x x'" by blast
  from folds_toE [OF assms(10) [OF xy(2)]] obtain b' y' where
    b: "fold_expr b False = Inr b'" "wt cols b' tb" "fold_simple b \<longrightarrow> fold_simple b'" "eval_bound b' r = Inr y'" "veq y y'" by blast
  have N: "wt cols (N a' b') t" "eval_bound (N a' b') r = Inr v"
    using assms(1,2) a b assms(5) [OF a(5) b(5) xy(3)] by simp_all
  have s: "fold_simple (N a b) \<longrightarrow> fold_simple (N a' b')" using a(3) b(3) assms(3) by simp
  have c: "to_fold_const (N a' b') = Inr (BoundConst v) \<and> wt cols (BoundConst v) t
       \<and> eval_bound (BoundConst v) r = Inr v \<and> (fold_simple (N a b) \<longrightarrow> fold_simple (BoundConst v))"
    if "is_const a' \<and> is_const b'"
  proof -
    have "eval_bound (N a' b') None = eval_bound (N a' b') r"
      using that is_const_cases [of a'] is_const_cases [of b'] assms(1) by auto
    then show ?thesis using fold_const_node [OF N(1) assms(8) N(2)] assms(3,4) assms(6) [OF xy(3)] s by blast
  qed
  have n: "v = null_val" if "is_null_const a' \<or> is_null_const b'"
  proof -
    have "vbox x' = BNull \<or> vbox y' = BNull" using that null_const_eval a(4) b(4) by blast
    then have "g x' y' = Inr null_val" by (rule assms(7))
    then show ?thesis using assms(5) [OF a(5) b(5) xy(3)] by simp
  qed
  show ?thesis using that [OF a(1) b(1) N s] c n by blast
qed

lemma compare_fin: "compare_value op a b = Inr v \<Longrightarrow> fin v"
  by (auto simp: compare_value_def res_simps split: if_splits)

lemma null_strict:
  "vbox x = BNull \<or> vbox y = BNull \<Longrightarrow> binary_value op t x y = Inr null_val"
  "vbox x = BNull \<or> vbox y = BNull \<Longrightarrow> compare_value cop x y = Inr null_val"
  by (simp_all add: binary_value_def compare_value_def value_is_null_def)

lemma not_fin: "not_value x = Inr v \<Longrightarrow> fin x \<Longrightarrow> fin v"
  by (auto simp: not_value_def split: if_splits option.splits)

lemma eval_null_const [simp]: "eval_bound (BoundConst null_val) r = Inr null_val" "fold_simple (BoundConst null_val)"
  by (simp_all add: const_value_fin)

lemma cmp_at_weak_sound:
  assumes "wt cols e kBool" "eval_bound e r = Inr v" "weak \<Longrightarrow> fold_simple e"
  shows "\<exists>v'. eval_bound (cmp_at_weak weak e) r = Inr v' \<and> sim weak v v' \<and> wt cols (cmp_at_weak weak e) kBool
           \<and> (fold_simple e \<longrightarrow> fold_simple (cmp_at_weak weak e))"
proof (cases "weak \<and> (\<exists>op a b. e = BoundCmp op a b)")
  case True
  then obtain op a b where e: "e = BoundCmp op a b" "weak" by auto
  from simplify_cmp_sound [OF assms(1,2) [unfolded e]] assms(3) e show ?thesis
    by (auto simp: cmp_at_weak_def sim_def)
next
  case False
  then have "cmp_at_weak weak e = e" by (auto simp: cmp_at_weak_def split: bound_expr.splits)
  then show ?thesis using assms by (auto intro: veq_sim)
qed

section \<open>Soundness of folding\<close>

lemma const_value_null [simp]: "const_value null_val = Inr null_val"
  by (simp add: const_value_fin)

lemma fold_arith:
  assumes "wt cols (BoundArith op t a b) t" "wt cols a ta" "wt cols b tb"
    and "\<And>x y. wt cols x ta \<Longrightarrow> wt cols y tb \<Longrightarrow> wt cols (BoundArith op t x y) t"
    and "row_ok cols r" and "\<And>v. eval_bound a r = Inr v \<Longrightarrow> folds_to cols r a ta False v"
    and "\<And>v. eval_bound b r = Inr v \<Longrightarrow> folds_to cols r b tb False v" and "eval_bound (BoundArith op t a b) r = Inr v"
  shows "folds_to cols r (BoundArith op t a b) t weak v"
proof -
  obtain a' b' where *: "fold_expr a False = Inr a'" "fold_expr b False = Inr b'" "wt cols (BoundArith op t a' b') t"
    "eval_bound (BoundArith op t a' b') r = Inr v" "fold_simple (BoundArith op t a b) \<longrightarrow> fold_simple (BoundArith op t a' b')"
    "is_const a' \<and> is_const b' \<longrightarrow> to_fold_const (BoundArith op t a' b') = Inr (BoundConst v) \<and> wt cols (BoundConst v) t
       \<and> eval_bound (BoundConst v) r = Inr v \<and> (fold_simple (BoundArith op t a b) \<longrightarrow> fold_simple (BoundConst v))"
    "is_null_const a' \<or> is_null_const b' \<longrightarrow> v = null_val"
    by (rule fold_binary [where N = "BoundArith op t" and g = "binary_value op t" and P = "attr_rep t \<notin> {RepFloat, RepDouble}",
          OF _ assms(4) _ _ binary_veq binary_value_fin null_strict(1) assms(5,6,7,8)]) auto
  have s: "attr_sane t" using assms(1) by (rule wt_sane)
  consider "is_const a' \<and> is_const b'" | "\<not> (is_const a' \<and> is_const b')" "is_null_const a' \<or> is_null_const b'"
    | "\<not> (is_const a' \<and> is_const b')" "\<not> (is_null_const a' \<or> is_null_const b')" by blast
  then show ?thesis
  proof cases
    case 1
    then show ?thesis using * by (intro folds_toI [where e' = "BoundConst v" and v' = v]) (auto intro: veq_sim)
  next
    case 2
    then show ?thesis using * wt_null_const [OF s]
      by (intro folds_toI [where e' = "BoundConst null_val" and v' = v]) (auto intro: veq_sim)
  next
    case 3
    then show ?thesis using *
      by (intro folds_toI [where e' = "BoundArith op t a' b'" and v' = v]) (auto intro: veq_sim simp del: eval_bound.simps)
  qed
qed

lemma fold_cmp:
  assumes "\<And>x y. wt cols x ta \<Longrightarrow> wt cols y tb \<Longrightarrow> wt cols (BoundCmp op x y) kBool"
    and "row_ok cols r" and "\<And>v. eval_bound a r = Inr v \<Longrightarrow> folds_to cols r a ta False v"
    and "\<And>v. eval_bound b r = Inr v \<Longrightarrow> folds_to cols r b tb False v" and "eval_bound (BoundCmp op a b) r = Inr v"
    and "weak \<Longrightarrow> fold_simple (BoundCmp op a b)"
  shows "folds_to cols r (BoundCmp op a b) kBool weak v"
proof -
  obtain a' b' where *: "fold_expr a False = Inr a'" "fold_expr b False = Inr b'" "wt cols (BoundCmp op a' b') kBool"
    "eval_bound (BoundCmp op a' b') r = Inr v" "fold_simple (BoundCmp op a b) \<longrightarrow> fold_simple (BoundCmp op a' b')"
    "is_const a' \<and> is_const b' \<longrightarrow> to_fold_const (BoundCmp op a' b') = Inr (BoundConst v) \<and> wt cols (BoundConst v) kBool
       \<and> eval_bound (BoundConst v) r = Inr v \<and> (fold_simple (BoundCmp op a b) \<longrightarrow> fold_simple (BoundConst v))"
    "is_null_const a' \<or> is_null_const b' \<longrightarrow> v = null_val"
    by (rule fold_binary [where N = "BoundCmp op" and g = "compare_value op" and P = True,
          OF _ assms(1) _ _ compare_veq compare_fin null_strict(2) assms(2-5)]) auto
  consider "is_const a' \<and> is_const b'" | "\<not> (is_const a' \<and> is_const b')" "is_null_const a' \<or> is_null_const b'"
    | "\<not> (is_const a' \<and> is_const b')" "\<not> (is_null_const a' \<or> is_null_const b')" by blast
  then show ?thesis
  proof cases
    case 1
    then show ?thesis using * by (intro folds_toI [where e' = "BoundConst v" and v' = v]) (auto intro: veq_sim)
  next
    case 2
    then show ?thesis using * wt_null_const [OF sane_kBool]
      by (intro folds_toI [where e' = "BoundConst null_val" and v' = v]) (auto intro: veq_sim)
  next
    case 3
    from cmp_at_weak_sound [OF *(3,4), of weak] *(5) assms(6) obtain v' where
      "eval_bound (cmp_at_weak weak (BoundCmp op a' b')) r = Inr v'" "sim weak v v'"
      "wt cols (cmp_at_weak weak (BoundCmp op a' b')) kBool"
      "fold_simple (BoundCmp op a' b') \<longrightarrow> fold_simple (cmp_at_weak weak (BoundCmp op a' b'))" by blast
    then show ?thesis using 3 *(1,2,5)
      by (intro folds_toI [where e' = "cmp_at_weak weak (BoundCmp op a' b')" and v' = v']) auto
  qed
qed

lemma fold_logic:
  assumes "row_ok cols r" "wt cols a kBool" "wt cols b kBool"
    and "\<And>v. eval_bound a r = Inr v \<Longrightarrow> folds_to cols r a kBool weak v"
    and "\<And>v. eval_bound b r = Inr v \<Longrightarrow> folds_to cols r b kBool weak v" and "eval_bound (BoundLogic op a b) r = Inr v"
  shows "folds_to cols r (BoundLogic op a b) kBool weak v"
proof -
  from assms(6) obtain x y where xy: "eval_bound a r = Inr x" "eval_bound b r = Inr y" "logic_value op x y = Inr v"
    by (auto simp: res_simps)
  from assms(4) [OF xy(1)] obtain a' x' where a: "fold_expr a weak = Inr a'" "wt cols a' kBool"
    "fold_simple a \<longrightarrow> fold_simple a'" "eval_bound a' r = Inr x'" "sim weak x x'" by (auto simp: folds_to_def)
  from assms(5) [OF xy(2)] obtain b' y' where b: "fold_expr b weak = Inr b'" "wt cols b' kBool"
    "fold_simple b \<longrightarrow> fold_simple b'" "eval_bound b' r = Inr y'" "sim weak y y'" by (auto simp: folds_to_def)
  have ok: "value_ok kBool x" "value_ok kBool y" "value_ok kBool x'" "value_ok kBool y'"
    using eval_safe [OF assms(2,1)] eval_safe [OF assms(3,1)] eval_safe [OF a(2) assms(1)] eval_safe [OF b(2) assms(1)]
      xy(1,2) a(4) b(4) by simp_all
  from logic_sim [OF ok a(5) b(5) xy(3)] obtain w where w: "logic_value op x' y' = Inr w" "sim weak v w" "fin w" by blast
  have N: "wt cols (BoundLogic op a' b') kBool" "eval_bound (BoundLogic op a' b') r = Inr w"
    using wt_logic [OF a(2) b(2)] a(4) b(4) w(1) by simp_all
  show ?thesis
  proof (cases "is_const a' \<and> is_const b'")
    case True
    then have "eval_bound (BoundLogic op a' b') None = eval_bound (BoundLogic op a' b') r"
      using is_const_cases [of a'] is_const_cases [of b'] by auto
    from fold_const_node [OF N(1) assms(1) N(2) this w(3)] show ?thesis using True a b w(2)
      by (intro folds_toI [where e' = "BoundConst w" and v' = w]) auto
  next
    case False
    from simplify_logic_sound [OF a(2) b(2) assms(1) a(4) b(4) w(1)] obtain w' where
      "eval_bound (simplify_logic op a' b') r = Inr w'" "veq w w'" "wt cols (simplify_logic op a' b') kBool"
      "fold_simple a' \<and> fold_simple b' \<longrightarrow> fold_simple (simplify_logic op a' b')" by blast
    then show ?thesis using False a b w(2) sim_veq_trans
      by (intro folds_toI [where e' = "simplify_logic op a' b'" and v' = w']) auto
  qed
qed

lemma fold_not:
  assumes "row_ok cols r" "wt cols a kBool"
    and "\<And>v. eval_bound a r = Inr v \<Longrightarrow> folds_to cols r a kBool False v" and "eval_bound (BoundNot a) r = Inr v"
    and "weak \<Longrightarrow> fold_simple (BoundNot a)"
  shows "folds_to cols r (BoundNot a) kBool weak v"
proof -
  from assms(4) obtain x where x: "eval_bound a r = Inr x" "not_value x = Inr v" by (auto simp: res_simps)
  from folds_toE [OF assms(3) [OF x(1)]] obtain a' x' where a: "fold_expr a False = Inr a'" "wt cols a' kBool"
    "fold_simple a \<longrightarrow> fold_simple a'" "eval_bound a' r = Inr x'" "veq x x'" by blast
  from unary_veq(2) [OF a(5) x(2)] obtain w where w: "not_value x' = Inr w" "veq v w" by blast
  show ?thesis
  proof (cases "is_const a'")
    case True
    have N: "wt cols (BoundNot a') kBool" "eval_bound (BoundNot a') r = Inr w"
      "eval_bound (BoundNot a') None = eval_bound (BoundNot a') r" "fin w"
      using wt_not [OF a(2)] a(4) w(1) is_const_cases [OF True] not_fin const_fin [OF True a(2,4)] by auto
    from fold_const_node [OF N(1) assms(1) N(2-4)] show ?thesis using True a w(2) veq_sim
      by (intro folds_toI [where e' = "BoundConst w" and v' = w]) auto
  next
    case False
    from simplify_not_sound [OF a(2) assms(1) a(4) w(1)] obtain u where u: "eval_bound (simplify_not a') r = Inr u"
      "veq w u" "wt cols (simplify_not a') kBool" "fold_simple a' \<longrightarrow> fold_simple (simplify_not a')" by blast
    from cmp_at_weak_sound [OF u(3,1), of weak] u(4) a(3) assms(5) obtain u' where
      "eval_bound (cmp_at_weak weak (simplify_not a')) r = Inr u'" "sim weak u u'"
      "wt cols (cmp_at_weak weak (simplify_not a')) kBool"
      "fold_simple (simplify_not a') \<longrightarrow> fold_simple (cmp_at_weak weak (simplify_not a'))" by auto
    moreover from this(2) w(2) u(2) have "sim weak v u'" by (auto simp: sim_def veq_def truth_def)
    ultimately show ?thesis using False a u(4)
      by (intro folds_toI [where e' = "cmp_at_weak weak (simplify_not a')" and v' = u']) auto
  qed
qed

lemma const_args:
  assumes "list_all is_const as" "list_all2 (wt cols) as ts" "map_res (\<lambda>a. eval_bound a r) as = Inr vs"
  shows "list_all fin vs \<and> map_res (\<lambda>a. eval_bound a None) as = Inr vs"
  using assms
proof (induction as arbitrary: ts vs)
  case (Cons a as)
  from Cons.prems(3) obtain x xs where x: "eval_bound a r = Inr x" "map_res (\<lambda>a. eval_bound a r) as = Inr xs" "vs = x # xs"
    by (auto simp: res_simps)
  from Cons.prems(2) obtain t ts' where t: "ts = t # ts'" "wt cols a t" "list_all2 (wt cols) as ts'"
    by (auto simp: list_all2_Cons1)
  have "is_const a" using Cons.prems(1) by simp
  then obtain w where w: "a = BoundConst w" using is_const_cases by blast
  have "fin x" "eval_bound a None = Inr x" using x(1) const_eval [of cols w t r x] t(2) unfolding w by simp_all
  then show ?case using Cons.IH [OF _ t(3) x(2)] Cons.prems(1) x(3) by simp
qed simp

lemma fold_func:
  assumes "list_all2 (\<lambda>a t. attr_sane t) args ts" "unat f < length func_sigs" "f \<noteq> 0"
    "func_sigs ! unat f = (map attr_rep ts, attr_rep t)" "attr_sane t" and "row_ok cols r"
    and "list_all2 (\<lambda>a t. \<forall>v. eval_bound a r = Inr v \<longrightarrow> folds_to cols r a t False v) args ts"
    and "eval_bound (BoundFuncCall f nm True t args) r = Inr v"
  shows "folds_to cols r (BoundFuncCall f nm True t args) t weak v"
proof -
  from assms(8) obtain vs where vs: "map_res (\<lambda>a. eval_bound a r) args = Inr vs" "func_value f True t vs = Inr v"
    by (auto simp: res_simps)
  from fold_args [OF assms(7) vs(1)] obtain as vs' where
    as: "map_res (\<lambda>a. fold_expr a False) args = Inr as" "list_all2 (wt cols) as ts"
      "list_all fold_simple args \<longrightarrow> list_all fold_simple as"
      "map_res (\<lambda>a. eval_bound a r) as = Inr vs'" "list_all2 veq vs vs'" by blast
  from func_veq [OF as(5) vs(2)] obtain w where w: "func_value f True t vs' = Inr w" "veq v w" by blast
  have "list_all2 (\<lambda>a t. wt cols a t \<and> attr_sane t) as ts" using as(2) by (auto elim!: list_all2_mono dest: wt_sane)
  then have N: "wt cols (BoundFuncCall f nm True t as) t" using assms(2-5) by (rule wt_func)
  have e: "eval_bound (BoundFuncCall f nm True t as) r = Inr w" using as(4) w(1) by simp
  show ?thesis
  proof (cases "list_all is_const as")
    case True
    from const_args [OF True as(2,4)] have c: "list_all fin vs'" "map_res (\<lambda>a. eval_bound a None) as = Inr vs'" by simp_all
    have "eval_bound (BoundFuncCall f nm True t as) None = eval_bound (BoundFuncCall f nm True t as) r"
      using c(2) as(4) by simp
    from fold_const_node [OF N assms(6) e this func_value_fin [OF w(1) c(1)]] show ?thesis using True as w(2) veq_sim
      by (intro folds_toI [where e' = "BoundConst w" and v' = w]) (auto simp del: eval_bound.simps)
  next
    case False
    then show ?thesis using as N e w(2) veq_sim
      by (intro folds_toI [where e' = "BoundFuncCall f nm True t as" and v' = w]) (auto simp del: eval_bound.simps)
  qed
qed

lemma isnull_fin [simp]: "fin (is_null_value n x)"
  by (simp add: is_null_value_def)

lemma null_tree_fold: "null_tree e \<Longrightarrow> \<exists>v. fold_expr e weak = Inr (BoundConst v) \<and> vbox v = BNull"
proof (induction e arbitrary: weak rule: null_tree.induct)
  case (2 op t a b)
  then obtain x y where "fold_expr a False = Inr (BoundConst x)" "fold_expr b False = Inr (BoundConst y)"
    "vbox x = BNull" "vbox y = BNull" by fastforce
  then show ?case by (simp add: is_const_def to_fold_const_def eval_const_def const_value_def binary_value_def value_is_null_def)
next
  case (3 t a)
  then obtain x where "fold_expr a False = Inr (BoundConst x)" "vbox x = BNull" by fastforce
  then show ?case by (simp add: is_const_def to_fold_const_def eval_const_def const_value_def neg_value_def value_is_null_def)
qed simp_all

lemma fold_sound:
  assumes "wt cols e t" "row_ok cols r" and "weak \<Longrightarrow> fold_simple e" and "eval_bound e r = Inr v"
  shows "folds_to cols r e t weak v"
  using assms(1,3,4)
proof (induction arbitrary: weak v rule: wt.induct)
  case (wt_const t w)
  then show ?case using wt.wt_const [OF wt_const.hyps, of cols] const_eval
    by (intro folds_toI [where e' = "BoundConst w" and v' = v]) (auto intro: veq_sim)
next
  case (wt_col i t t')
  then show ?case using wt.wt_col [OF wt_col.hyps]
    by (intro folds_toI [where e' = "BoundColRef i t'" and v' = v]) (auto intro: veq_sim)
next
  case (wt_arith a ta b tb t op)
  show ?case
  proof (rule fold_arith [OF _ wt_arith.hyps(1,2) _ assms(2)])
    show w: "wt cols (BoundArith op t x y) t" if "wt cols x ta" "wt cols y tb" for x y
      using that wt_arith.hyps by (intro wt.wt_arith)
    show "wt cols (BoundArith op t a b) t" using w wt_arith.hyps(1,2) by blast
  qed (use wt_arith in auto)
next
  case (wt_neg a ta t)
  show ?case
    by (rule fold_unary [where g = "neg_value t" and ta = ta and P = "attr_rep t \<notin> {RepFloat, RepDouble}"])
       (use wt_neg assms(2) unary_veq(1) neg_value_fin wt.wt_neg in auto)
next
  case (wt_cmp a ta b tb cop)
  show ?case
    by (rule fold_cmp [where ta = ta and tb = tb]) (use wt_cmp assms(2) wt.wt_cmp in auto)
next
  case (wt_logic a b lop)
  show ?case by (rule fold_logic) (use wt_logic assms(2) in auto)
next
  case (wt_not a)
  show ?case by (rule fold_not) (use wt_not assms(2) in auto)
next
  case (wt_is_null a ta n)
  show ?case
    by (rule fold_unary [where g = "\<lambda>v. Inr (is_null_value n v)" and ta = ta and P = True])
       (use wt_is_null assms(2) unary_veq(4) wt.wt_is_null in auto)
next
  case (wt_func args ts f t name)
  show ?case
  proof (rule fold_func [OF _ wt_func.hyps assms(2)])
    show "list_all2 (\<lambda>a t. \<forall>v. eval_bound a r = Inr v \<longrightarrow> folds_to cols r a t False v) args ts"
      using wt_func.IH by (rule list_all2_mono) auto
    show "list_all2 (\<lambda>a. attr_sane) args ts" using wt_func.IH by (rule list_all2_mono) auto
  qed (use wt_func.prems in auto)
next
  case (wt_cast a ta t len sc)
  show ?case
    by (rule fold_unary [where g = "cast_expr_value t len sc" and ta = ta
          and P = "attr_rep t \<notin> {RepFloat, RepDouble} \<and> \<not> (attr_rep t = RepDec \<and> len > 0)"])
       (use wt_cast assms(2) unary_veq(3) cast_expr_value_fin wt.wt_cast wt_sane in auto)
next
  case (wt_null e t)
  obtain v' where v': "fold_expr e weak = Inr (BoundConst v')" "vbox v' = BNull" using null_tree_fold [OF wt_null.hyps(1)] by blast
  moreover have "vbox v = BNull" using null_tree_eval [OF wt_null.hyps(1), of r] wt_null.prems(2) by auto
  ultimately show ?case using wt_null.hyps(2)
    by (intro folds_toI [where e' = "BoundConst v'" and v' = v'] veq_sim)
       (auto simp: const_value_def veq_def intro: wt.wt_null)
qed

text \<open>
  C27. Folding outside a WHERE clause: on every row on which a well-typed expression evaluates,
  folding succeeds (an error while planning is an error on every row) and gives a tree of the same
  type that evaluates to the same value on that row.
\<close>

theorem fold_expr_sound:
  assumes "wt cols e t" "row_ok cols (Some r)" and "eval_row e r = Inr v"
  shows "\<exists>e' v'. fold_expr e False = Inr e' \<and> wt cols e' t \<and> eval_row e' r = Inr v' \<and> veq v v'"
  using fold_sound [OF assms(1,2), of False] assms(3) by (auto simp: folds_to_def sim_def eval_row_def)

text \<open>
  C28. Folding of a WHERE predicate, where additionally a comparison of two structurally equal sides
  collapses: on every row on which the predicate evaluates, the folded predicate exists and gives
  the same verdict. The trees are those without floating-point constants and without casts to a
  declared \<^verbatim>\<open>numeric(p, s)\<close>, on which structural equality of the source means equality.
\<close>

theorem fold_where_sound:
  assumes "wt cols e kBool" "row_ok cols (Some r)" "fold_simple e" and "where_match e r = Inr b"
  shows "\<exists>e'. fold_expr e True = Inr e' \<and> where_match e' r = Inr b"
proof -
  from assms(4) obtain v where v: "eval_bound e (Some r) = Inr v" by (auto simp: where_match_def res_simps)
  have m: "where_match e r = Inr (truth v)" if "wt cols e kBool" "eval_bound e (Some r) = Inr v" for e v
    using bool_ok_truth [of v] eval_safe [OF that(1) assms(2)] that(2)
    by (auto simp: where_match_def split: option.splits)
  from fold_sound [OF assms(1,2) _ v, of True] assms(3) show ?thesis
    using m assms(4) v assms(1) by (auto simp: folds_to_def sim_def)
qed

definition demo_scales :: bound_expr where
  "demo_scales = BoundCmp CmpEq (BoundCast kNumeric 10 2 (BoundColRef 0 kNumeric))
                                (BoundCast kNumeric 10 4 (BoundColRef 0 kNumeric))"

definition demo_num_row :: row where
  "demo_num_row = empty_row\<lparr>row_values := [numeric_val kNumeric 12345 4]\<rparr>"

lemma digit_count_more: "k < digit_count m \<longleftrightarrow> 10 ^ k \<le> m"
  using digit_count_le [of m k] by linarith

lemma demo_casts:
  "eval_bound (BoundCast kNumeric 10 2 (BoundColRef 0 kNumeric)) (Some demo_num_row) = Inr (numeric_val kNumeric 123 2)"
  "eval_bound (BoundCast kNumeric 10 4 (BoundColRef 0 kNumeric)) (Some demo_num_row) = Inr (numeric_val kNumeric 12345 4)"
  by (simp_all add: demo_num_row_def empty_row_def col_value_def cast_expr_value_def coerce_numeric_def cast_value_def
      value_is_null_def value_factories seed_attr_defs cast_tier_def restamp_def shrink_scale_def tdiv_def tmod_def
      wrap256_def digit_count_more pow10_eq Let_def)

lemma demo_scales_false: "where_match demo_scales demo_num_row = Inr False"
proof -
  have "compare_value CmpEq (numeric_val kNumeric 123 2) (numeric_val kNumeric 12345 4) = Inr (bool_val kBool False)"
    by (simp add: compare_value_def value_cmp_def num_cmp_def value_factories value_is_null_def seed_attr_defs dec_cmp_def
        dec_digits_def digit_count.simps [of "nat n" for n] digit_count.simps [of "numeral n" for n])
  then show ?thesis using demo_casts by (simp add: where_match_def demo_scales_def value_is_null_def del: eval_bound.simps(10))
qed

lemma demo_scales_folded: "rbind (fold_expr demo_scales True) (\<lambda>e. where_match e demo_num_row) = Inr True"
  using demo_casts(1)
  by (simp add: where_match_def demo_scales_def is_const_def is_null_const_def cmp_at_weak_def simplify_cmp_def
      is_null_value_def value_is_null_def value_factories del: eval_bound.simps(10))

text \<open>
  Without that restriction the verdict can change: the comparison of two casts ignores the
  scale, so \<^verbatim>\<open>WHERE CAST(x AS numeric(10,2)) = CAST(x AS numeric(10,4))\<close>, false for 1.2345, is
  folded to \<^verbatim>\<open>x IS NOT NULL\<close> (of the first cast), which holds.
\<close>

theorem fold_where_scale_confusion:
  "where_match demo_scales demo_num_row = Inr False \<and>
   rbind (fold_expr demo_scales True) (\<lambda>e. where_match e demo_num_row) = Inr True"
  by (rule conjI [OF demo_scales_false demo_scales_folded])

definition demo_where :: bound_expr where
  "demo_where = BoundLogic LogicAnd (BoundCmp CmpLe (BoundColRef 0 kInt) (BoundColRef 0 kInt))
     (BoundNot (BoundCmp CmpLt (BoundColRef 0 kInt)
        (BoundArith CHR ''+'' kBigint (BoundConst (int_val kBigint 1)) (BoundConst (int_val kBigint 1)))))"

lemma demo_where_wt: "wt [kInt] demo_where kBool"
proof -
  have c: "wt [kInt] (BoundColRef 0 kInt) kInt"
    by (rule wt_col) (simp_all add: attr_sane_def seed_attr_defs)
  have k: "wt [kInt] (BoundConst (int_val kBigint 1)) kBigint"
    by (rule wt_const) (simp_all add: attr_sane_def seed_attr_defs value_factories value_ok_def box_typed_def)
  have s: "wt [kInt] (BoundArith CHR ''+'' kBigint (BoundConst (int_val kBigint 1)) (BoundConst (int_val kBigint 1))) kBigint"
    by (rule wt_arith [OF k k]) (simp_all add: attr_sane_def seed_attr_defs cast_allowed_def cast_tier_def)
  show ?thesis unfolding demo_where_def
    by (intro wt_logic wt_not wt_cmp [OF c c] wt_cmp [OF c s]) (simp_all add: attr_sane_def seed_attr_defs)
qed

lemma demo_row_ok: "row_ok [kInt] (Some (demo_int_row i))"
  by (simp add: row_ok_def demo_int_row_def value_ok_def value_factories box_typed_def seed_attr_defs)

theorem fold_expr_sound_witness:
  "eval_row demo_expr (demo_int_row 3) = Inr (bool_val kBool True) \<and>
   (\<exists>e' v'. fold_expr demo_expr False = Inr e' \<and> wt [kInt] e' kBool \<and> eval_row e' (demo_int_row 3) = Inr v' \<and>
      veq (bool_val kBool True) v')"
proof -
  have e: "eval_row demo_expr (demo_int_row 3) = Inr (bool_val kBool True)" by code_simp
  show ?thesis using fold_expr_sound [OF demo_expr_wt demo_row_ok e] e by blast
qed

theorem fold_where_sound_witness:
  "where_match demo_where (demo_int_row 3) = Inr True \<and>
   (\<exists>e'. fold_expr demo_where True = Inr e' \<and> where_match e' (demo_int_row 3) = Inr True)"
proof -
  have e: "where_match demo_where (demo_int_row 3) = Inr True" by code_simp
  have "fold_simple demo_where" by code_simp
  then show ?thesis using fold_where_sound [OF demo_where_wt demo_row_ok _ e] e by blast
qed

end
