(* ===== verification/Plan.thy ===== *)
theory Plan
  imports TreeSafety Fold
begin

text \<open>
  Bound statements, plans and the planner: analyzer/bound.h, planner/plan.h, planner.cpp, the plan
  walk of const_fold.cpp, filter_prune.cpp and index_select.cpp. A pass of the source rewrites the
  plan in place; here it returns the new plan or the error it raises. The lemmas show what the
  ranges of an index scan mean, that a conjunct taken out of a filter is exactly its ranges, and
  what a filtered scan may be rewritten to.
\<close>

section \<open>Catalog objects\<close>

record table_ref =
  tr_schema :: string
  tr_name :: string

record table_handle =
  th_meta :: table_meta
  th_display :: string

record index_entry =
  ie_name :: string
  ie_col_ordinal :: u16
  ie_file_id :: u64
  ie_row_ref :: row_ref

section \<open>Bound statements\<close>

text \<open>\<^verbatim>\<open>ProjCol\<close>: without an expression it is a column of the row, by index.\<close>

record proj_col =
  pc_expr :: "bound_expr option"
  pc_name :: string
  pc_col_idx :: nat

text \<open>\<^verbatim>\<open>BoundOrderItem\<close>: an output column when sorting the output, an expression otherwise.\<close>

record bound_order_item =
  bo_desc :: bool
  bo_out_idx :: nat
  bo_expr :: "bound_expr option"

record bound_update_item =
  bu_col_idx :: nat
  bu_value :: bound_expr

datatype set_var = SetTableId

record bound_select =
  bs_table :: table_handle
  bs_projs :: "proj_col list"
  bs_where :: "bound_expr option"
  bs_orders :: "bound_order_item list"
  bs_sort_on_output :: bool

record bound_select_no_from =
  bn_projs :: "proj_col list"
  bn_where :: "bound_expr option"
  bn_orders :: "bound_order_item list"
  bn_sort_on_output :: bool

datatype bound_stmt =
    BoundCreateTable table_ref "column_spec list"
  | BoundDropTable table_handle
  | BoundCreateSchema string
  | BoundDropSchema string
  | BoundCreateIndex table_handle string u16
  | BoundDropIndex table_handle string
  | BoundInsert table_handle "bound_expr list list"
  | BoundDelete table_handle "bound_expr option"
  | BoundUpdate table_handle "bound_update_item list" "bound_expr option"
  | BoundSelect bound_select
  | BoundSelectNoFrom bound_select_no_from
  | BoundSet set_var u64
  | BoundExplain bound_stmt

section \<open>Plans\<close>

record index_range =
  ir_lo :: "scan_bound option"
  ir_hi :: "scan_bound option"

record index_cond =
  ic_col :: string
  ic_op :: cmp_op
  ic_value :: dbvalue
  ic_is_null :: bool
  ic_negate :: bool

text \<open>\<^verbatim>\<open>PlanNode\<close> and its subclasses. A deletion without a child deletes every row.\<close>

datatype plan =
    SeqScanPlan table_handle
  | IndexScanPlan table_handle string u64 "index_range list" "index_cond list"
  | FetchPlan table_handle plan
  | DummyScanPlan
  | FilterPlan plan bound_expr
  | ProjectPlan plan "proj_col list"
  | SortPlan plan "bound_order_item list" bool
  | EmptyPlan string
  | InsertPlan table_handle "bound_expr list list"
  | DeletePlan table_handle "plan option"
  | UpdatePlan table_handle "bound_update_item list" plan
  | CreateTablePlan table_ref "column_spec list"
  | DropTablePlan table_handle
  | CreateSchemaPlan string
  | DropSchemaPlan string
  | CreateIndexPlan table_handle string u16
  | DropIndexPlan table_handle string
  | SetPlan set_var u64
  | ExplainPlan plan

section \<open>Building\<close>

definition build_select ::
  "plan \<Rightarrow> bound_expr option \<Rightarrow> proj_col list \<Rightarrow> bound_order_item list \<Rightarrow> bool \<Rightarrow> plan" where
  "build_select input wh projs orders sort_on_output =
     (let input = (case wh of Some e \<Rightarrow> FilterPlan input e | None \<Rightarrow> input);
          has_orders = (orders \<noteq> []);
          input = (if has_orders \<and> \<not> sort_on_output then SortPlan input orders False else input);
          input = ProjectPlan input projs
      in if has_orders \<and> sort_on_output then SortPlan input orders True else input)"

fun build :: "bound_stmt \<Rightarrow> plan" where
  "build (BoundCreateTable t cols) = CreateTablePlan t cols"
| "build (BoundDropTable t) = DropTablePlan t"
| "build (BoundCreateSchema s) = CreateSchemaPlan s"
| "build (BoundDropSchema s) = DropSchemaPlan s"
| "build (BoundCreateIndex t i c) = CreateIndexPlan t i c"
| "build (BoundDropIndex t i) = DropIndexPlan t i"
| "build (BoundInsert t rows) = InsertPlan t rows"
| "build (BoundDelete t wh) = DeletePlan t (map_option (FilterPlan (SeqScanPlan t)) wh)"
| "build (BoundUpdate t assigns wh) =
     UpdatePlan t assigns (case wh of Some e \<Rightarrow> FilterPlan (SeqScanPlan t) e | None \<Rightarrow> SeqScanPlan t)"
| "build (BoundSelect s) =
     build_select (SeqScanPlan (bs_table s)) (bs_where s) (bs_projs s) (bs_orders s) (bs_sort_on_output s)"
| "build (BoundSelectNoFrom s) =
     build_select DummyScanPlan (bn_where s) (bn_projs s) (bn_orders s) (bn_sort_on_output s)"
| "build (BoundSet v x) = SetPlan v x"
| "build (BoundExplain inner) = ExplainPlan (build inner)"

section \<open>Constant folding of plans\<close>

definition fold_proj :: "proj_col \<Rightarrow> proj_col res" where
  "fold_proj c = (case pc_expr c of None \<Rightarrow> Inr c
     | Some e \<Rightarrow> rbind (fold_expr e False) (\<lambda>e. Inr (c\<lparr>pc_expr := Some e\<rparr>)))"

text \<open>A sort key without an expression would be a null dereference.\<close>

definition fold_order :: "bound_order_item \<Rightarrow> bound_order_item res" where
  "fold_order x = (case bo_expr x of None \<Rightarrow> Inl Crash
     | Some e \<Rightarrow> rbind (fold_expr e False) (\<lambda>e. Inr (x\<lparr>bo_expr := Some e\<rparr>)))"

definition fold_assign :: "bound_update_item \<Rightarrow> bound_update_item res" where
  "fold_assign a = rbind (fold_expr (bu_value a) False) (\<lambda>e. Inr (a\<lparr>bu_value := e\<rparr>))"

fun fold_const :: "plan \<Rightarrow> plan res" where
  "fold_const (FilterPlan child pred) =
     rbind (fold_expr pred True) (\<lambda>pred. rbind (fold_const child) (\<lambda>child. Inr (FilterPlan child pred)))"
| "fold_const (FetchPlan t child) = rbind (fold_const child) (\<lambda>child. Inr (FetchPlan t child))"
| "fold_const (ProjectPlan child projs) =
     rbind (map_res fold_proj projs) (\<lambda>projs. rbind (fold_const child) (\<lambda>child. Inr (ProjectPlan child projs)))"
| "fold_const (SortPlan child orders sort_on_output) =
     rbind (if sort_on_output then Inr orders else map_res fold_order orders) (\<lambda>orders.
     rbind (fold_const child) (\<lambda>child. Inr (SortPlan child orders sort_on_output)))"
| "fold_const (InsertPlan t rows) =
     rbind (map_res (map_res (\<lambda>e. fold_expr e False)) rows) (\<lambda>rows. Inr (InsertPlan t rows))"
| "fold_const (DeletePlan t None) = Inr (DeletePlan t None)"
| "fold_const (DeletePlan t (Some child)) = rbind (fold_const child) (\<lambda>child. Inr (DeletePlan t (Some child)))"
| "fold_const (UpdatePlan t assigns child) =
     rbind (map_res fold_assign assigns) (\<lambda>assigns.
     rbind (fold_const child) (\<lambda>child. Inr (UpdatePlan t assigns child)))"
| "fold_const (ExplainPlan child) = rbind (fold_const child) (\<lambda>child. Inr (ExplainPlan child))"
| "fold_const p = Inr p"

section \<open>Pruning of constant filters\<close>

datatype const_pred = PredNone | AlwaysTrue | AlwaysFalse

definition classify_pred :: "bound_expr \<Rightarrow> const_pred res" where
  "classify_pred pred =
     (case pred of
        BoundConst v \<Rightarrow>
          (case vbox v of
             BBool b \<Rightarrow> Inr (if b then AlwaysTrue else AlwaysFalse)
           | BNull \<Rightarrow> Inr AlwaysFalse
           | _ \<Rightarrow> Inl (Raise Internal))
      | _ \<Rightarrow> Inr PredNone)"

definition scan_table :: "plan \<Rightarrow> string res" where
  "scan_table node =
     (case node of SeqScanPlan t \<Rightarrow> Inr (th_display t) | DummyScanPlan \<Rightarrow> Inr [] | _ \<Rightarrow> Inl (Raise Internal))"

fun prune_filter :: "plan \<Rightarrow> plan res" where
  "prune_filter (FilterPlan child pred) =
     rbind (prune_filter child) (\<lambda>child. rbind (classify_pred pred) (\<lambda>c.
       case c of
         PredNone \<Rightarrow> Inr (FilterPlan child pred)
       | AlwaysTrue \<Rightarrow> Inr child
       | AlwaysFalse \<Rightarrow> rbind (scan_table child) (\<lambda>t. Inr (EmptyPlan t))))"
| "prune_filter (FetchPlan t child) = rbind (prune_filter child) (\<lambda>child. Inr (FetchPlan t child))"
| "prune_filter (ProjectPlan child projs) = rbind (prune_filter child) (\<lambda>child. Inr (ProjectPlan child projs))"
| "prune_filter (SortPlan child orders b) = rbind (prune_filter child) (\<lambda>child. Inr (SortPlan child orders b))"
| "prune_filter (DeletePlan t None) = Inr (DeletePlan t None)"
| "prune_filter (DeletePlan t (Some child)) = rbind (prune_filter child) (\<lambda>child. Inr (DeletePlan t (Some child)))"
| "prune_filter (UpdatePlan t assigns child) = rbind (prune_filter child) (\<lambda>child. Inr (UpdatePlan t assigns child))"
| "prune_filter (ExplainPlan child) = rbind (prune_filter child) (\<lambda>child. Inr (ExplainPlan child))"
| "prune_filter p = Inr p"

section \<open>Index selection\<close>

definition k_null_key :: index_key where
  "k_null_key = IndexKey 0 True"

definition tighter_lo :: "scan_bound option \<Rightarrow> scan_bound option \<Rightarrow> scan_bound option" where
  "tighter_lo a b =
     (case (a, b) of
        (Some x, Some y) \<Rightarrow>
          (let c = key_cmp (sb_key x) (sb_key y)
           in if c \<noteq> 0 then (if c > 0 then a else b) else if sb_inclusive x then b else a)
      | _ \<Rightarrow> if a \<noteq> None then a else b)"

definition tighter_hi :: "scan_bound option \<Rightarrow> scan_bound option \<Rightarrow> scan_bound option" where
  "tighter_hi a b =
     (case (a, b) of
        (Some x, Some y) \<Rightarrow>
          (let c = key_cmp (sb_key x) (sb_key y)
           in if c \<noteq> 0 then (if c < 0 then a else b) else if sb_inclusive x then b else a)
      | _ \<Rightarrow> if a \<noteq> None then a else b)"

definition range_meet :: "index_range \<Rightarrow> index_range \<Rightarrow> index_range option" where
  "range_meet a b =
     (let lo = tighter_lo (ir_lo a) (ir_lo b); hi = tighter_hi (ir_hi a) (ir_hi b);
          r = \<lparr>ir_lo = lo, ir_hi = hi\<rparr>
      in case (lo, hi) of
           (Some x, Some y) \<Rightarrow>
             (let c = key_cmp (sb_key x) (sb_key y)
              in if c > 0 \<or> (c = 0 \<and> \<not> (sb_inclusive x \<and> sb_inclusive y)) then None else Some r)
         | _ \<Rightarrow> Some r)"

definition ranges_meet :: "index_range list \<Rightarrow> index_range list \<Rightarrow> index_range list" where
  "ranges_meet a b = concat (map (\<lambda>x. List.map_filter (range_meet x) b) a)"

fun cmp_ranges :: "cmp_op \<Rightarrow> index_key \<Rightarrow> index_range list" where
  "cmp_ranges CmpEq k = [\<lparr>ir_lo = Some (ScanBound k True), ir_hi = Some (ScanBound k True)\<rparr>]"
| "cmp_ranges CmpLt k = [\<lparr>ir_lo = None, ir_hi = Some (ScanBound k False)\<rparr>]"
| "cmp_ranges CmpLe k = [\<lparr>ir_lo = None, ir_hi = Some (ScanBound k True)\<rparr>]"
| "cmp_ranges CmpGt k = [\<lparr>ir_lo = Some (ScanBound k False), ir_hi = Some (ScanBound k_null_key False)\<rparr>]"
| "cmp_ranges CmpGe k = [\<lparr>ir_lo = Some (ScanBound k True), ir_hi = Some (ScanBound k_null_key False)\<rparr>]"
| "cmp_ranges CmpNe k =
     [\<lparr>ir_lo = None, ir_hi = Some (ScanBound k False)\<rparr>,
      \<lparr>ir_lo = Some (ScanBound k False), ir_hi = Some (ScanBound k_null_key False)\<rparr>]"

text \<open>\<^verbatim>\<open>None\<close> is the \<^verbatim>\<open>false\<close> of a constant that gives no key for the column.\<close>

definition key_of :: "column_spec \<Rightarrow> dbvalue \<Rightarrow> type_attr \<Rightarrow> index_key option res" where
  "key_of col v double_attr =
     (let rep = attr_rep (col_type col) in
      case vbox v of
        BNull \<Rightarrow> Inr None
      | BInt64 _ \<Rightarrow> if rep \<noteq> RepInt64 then Inr None else rbind (encode_key (col_type col) v) (\<lambda>k. Inr (Some k))
      | BDouble _ \<Rightarrow> if rep \<noteq> RepDouble \<and> rep \<noteq> RepFloat then Inr None
                    else rbind (encode_key double_attr v) (\<lambda>k. Inr (Some k))
      | BFloat _ \<Rightarrow> if rep \<noteq> RepFloat then Inr None else rbind (encode_key (col_type col) v) (\<lambda>k. Inr (Some k))
      | BBool _ \<Rightarrow> if rep \<noteq> RepBool then Inr None else rbind (encode_key (col_type col) v) (\<lambda>k. Inr (Some k))
      | BDec _ \<Rightarrow> if rep \<noteq> RepDouble \<and> rep \<noteq> RepFloat then Inr None
                 else rbind (cast_value v double_attr Implicit) (\<lambda>key_val.
                      rbind (encode_key double_attr key_val) (\<lambda>k. Inr (Some k)))
      | BStr _ \<Rightarrow> Inr None)"

fun mirror :: "cmp_op \<Rightarrow> cmp_op" where
  "mirror CmpEq = CmpEq"
| "mirror CmpNe = CmpNe"
| "mirror CmpLt = CmpGt"
| "mirror CmpLe = CmpGe"
| "mirror CmpGt = CmpLt"
| "mirror CmpGe = CmpLe"

record hit =
  h_conj :: nat
  h_eq :: bool
  h_ranges :: "index_range list"
  h_cond :: index_cond

definition is_col :: "u16 \<Rightarrow> bound_expr \<Rightarrow> bool" where
  "is_col ordinal e = (case e of BoundColRef i t \<Rightarrow> i = unat ordinal | _ \<Rightarrow> False)"

definition cmp_hit :: "column_spec \<Rightarrow> nat \<Rightarrow> type_attr \<Rightarrow> cmp_op \<Rightarrow> bound_expr \<Rightarrow> hit option res" where
  "cmp_hit col cj double_attr op e =
     (case e of
        BoundConst v \<Rightarrow>
          rbind (key_of col v double_attr) (\<lambda>k. Inr (map_option (\<lambda>k.
            \<lparr>h_conj = cj, h_eq = (op = CmpEq), h_ranges = cmp_ranges op k,
             h_cond = \<lparr>ic_col = col_name col, ic_op = op, ic_value = v, ic_is_null = False, ic_negate = False\<rparr>\<rparr>) k))
      | _ \<Rightarrow> Inr None)"

definition match_hit :: "bound_expr \<Rightarrow> column_spec \<Rightarrow> u16 \<Rightarrow> nat \<Rightarrow> type_attr \<Rightarrow> hit option res" where
  "match_hit e col ordinal cj double_attr =
     (case e of
        BoundCmp op l r \<Rightarrow>
          if is_col ordinal l = is_col ordinal r then Inr None
          else if is_col ordinal l then cmp_hit col cj double_attr op r
          else cmp_hit col cj double_attr (mirror op) l
      | BoundIsNull a negate \<Rightarrow>
          if \<not> is_col ordinal a then Inr None
          else Inr (Some \<lparr>h_conj = cj, h_eq = False,
                 h_ranges = (if negate then [\<lparr>ir_lo = None, ir_hi = Some (ScanBound k_null_key False)\<rparr>]
                   else [\<lparr>ir_lo = Some (ScanBound k_null_key True), ir_hi = Some (ScanBound k_null_key True)\<rparr>]),
                 h_cond = \<lparr>ic_col = col_name col, ic_op = CmpEq, ic_value = null_val, ic_is_null = True, ic_negate = negate\<rparr>\<rparr>)
      | _ \<Rightarrow> Inr None)"

text \<open>\<^verbatim>\<open>flatten_view\<close> and \<^verbatim>\<open>flatten_take\<close>: the conjuncts of an AND tree from left to right.\<close>

fun flatten_and :: "bound_expr \<Rightarrow> bound_expr list" where
  "flatten_and (BoundLogic LogicAnd l r) = flatten_and l @ flatten_and r"
| "flatten_and e = [e]"

text \<open>The left-associated AND tree of a nonempty list.\<close>

definition join_and :: "bound_expr list \<Rightarrow> bound_expr" where
  "join_and parts = foldl (BoundLogic LogicAnd) (hd parts) (tl parts)"

text \<open>All hits of the conjuncts on one index.\<close>

definition index_hits ::
  "table_meta \<Rightarrow> bound_expr list \<Rightarrow> type_attr \<Rightarrow> index_entry \<Rightarrow> hit list res" where
  "index_hits meta cj double_attr ent =
     (if unat (ie_col_ordinal ent) \<ge> length (tm_cols meta) then Inl Critical
      else rbind (map_res (\<lambda>i. match_hit (cj ! i) (tm_cols meta ! unat (ie_col_ordinal ent))
                    (ie_col_ordinal ent) i double_attr) [0..<length cj]) (\<lambda>hs. Inr (List.map_filter id hs)))"

fun pick_index ::
  "index_entry list \<Rightarrow> table_meta \<Rightarrow> bound_expr list \<Rightarrow> type_attr \<Rightarrow> (index_entry \<times> hit list) option
   \<Rightarrow> (index_entry \<times> hit list) option res" where
  "pick_index [] meta cj double_attr best = Inr best"
| "pick_index (ent # idxs) meta cj double_attr best =
     rbind (index_hits meta cj double_attr ent) (\<lambda>hits.
       if hits = [] then pick_index idxs meta cj double_attr best
       else
         let has_eq = list_ex h_eq hits;
             keep = (case best of None \<Rightarrow> False
               | Some (b, bhits) \<Rightarrow>
                   \<not> (has_eq \<and> \<not> list_ex h_eq bhits) \<and>
                   \<not> (has_eq = list_ex h_eq bhits \<and> ie_col_ordinal ent < ie_col_ordinal b))
         in pick_index idxs meta cj double_attr (if keep then best else Some (ent, hits)))"

fun intersect_from :: "index_range list \<Rightarrow> hit list \<Rightarrow> index_range list" where
  "intersect_from ranges [] = ranges"
| "intersect_from ranges (h # hs) =
     (let ranges = ranges_meet ranges (h_ranges h) in if ranges = [] then [] else intersect_from ranges hs)"

definition intersect_ranges :: "hit list \<Rightarrow> index_range list" where
  "intersect_ranges hits = intersect_from [\<lparr>ir_lo = None, ir_hi = None\<rparr>] hits"

text \<open>
  What the planner asks the catalog: the indexes of a table, and the attributes of the type named
  double.
\<close>

record planner_catalog =
  pcat_indexes :: "table_meta \<Rightarrow> index_entry list res"
  pcat_double :: "type_attr res"

text \<open>The conjuncts that no hit took out, and the plan that replaces the filtered scan.\<close>

definition residual_of :: "bound_expr list \<Rightarrow> hit list \<Rightarrow> bound_expr list" where
  "residual_of cj hits = map (\<lambda>i. cj ! i) (filter (\<lambda>i. i \<notin> set (map h_conj hits)) [0..<length cj])"

definition index_path :: "table_handle \<Rightarrow> index_entry \<Rightarrow> bound_expr list \<Rightarrow> hit list \<Rightarrow> plan" where
  "index_path t ent cj hits =
     (let ranges = intersect_ranges hits; residual = residual_of cj hits;
          fetch = FetchPlan t (IndexScanPlan t (ie_name ent) (ie_file_id ent) ranges (map h_cond hits))
      in if ranges = [] then EmptyPlan (th_display t)
         else if residual \<noteq> [] then FilterPlan fetch (join_and residual) else fetch)"

definition rewrite_scan :: "planner_catalog \<Rightarrow> plan \<Rightarrow> bound_expr \<Rightarrow> plan res" where
  "rewrite_scan db child pred =
     (case child of
        SeqScanPlan t \<Rightarrow>
          rbind (pcat_indexes db (th_meta t)) (\<lambda>idxs.
            if idxs = [] then Inr (FilterPlan child pred)
            else let cj = flatten_and pred in
              rbind (pcat_double db) (\<lambda>double_attr.
              rbind (pick_index idxs (th_meta t) cj double_attr None) (\<lambda>best.
                case best of
                  None \<Rightarrow> Inr (FilterPlan child pred)
                | Some (ent, hits) \<Rightarrow> Inr (index_path t ent cj hits))))
      | _ \<Rightarrow> Inr (FilterPlan child pred))"

fun select_index :: "planner_catalog \<Rightarrow> plan \<Rightarrow> plan res" where
  "select_index db (FilterPlan child pred) = rewrite_scan db child pred"
| "select_index db (ProjectPlan child projs) = rbind (select_index db child) (\<lambda>child. Inr (ProjectPlan child projs))"
| "select_index db (SortPlan child orders b) = rbind (select_index db child) (\<lambda>child. Inr (SortPlan child orders b))"
| "select_index db (DeletePlan t None) = Inr (DeletePlan t None)"
| "select_index db (DeletePlan t (Some child)) = rbind (select_index db child) (\<lambda>child. Inr (DeletePlan t (Some child)))"
| "select_index db (UpdatePlan t assigns child) = rbind (select_index db child) (\<lambda>child. Inr (UpdatePlan t assigns child))"
| "select_index db (ExplainPlan child) = rbind (select_index db child) (\<lambda>child. Inr (ExplainPlan child))"
| "select_index db p = Inr p"

definition optimize :: "planner_catalog \<Rightarrow> plan \<Rightarrow> plan res" where
  "optimize db plan =
     rbind (fold_const plan) (\<lambda>plan. rbind (prune_filter plan) (select_index db))"

section \<open>Ranges of keys\<close>

text \<open>The keys a range scan with these bounds visits.\<close>

definition above_lo :: "scan_bound option \<Rightarrow> index_key \<Rightarrow> bool" where
  "above_lo lo k = (case lo of None \<Rightarrow> True | Some b \<Rightarrow> if sb_inclusive b then sb_key b \<le> k else sb_key b < k)"

definition below_hi :: "scan_bound option \<Rightarrow> index_key \<Rightarrow> bool" where
  "below_hi hi k = (case hi of None \<Rightarrow> True | Some b \<Rightarrow> if sb_inclusive b then k \<le> sb_key b else k < sb_key b)"

definition in_range :: "index_range \<Rightarrow> index_key \<Rightarrow> bool" where
  "in_range r k \<longleftrightarrow> above_lo (ir_lo r) k \<and> below_hi (ir_hi r) k"

definition in_ranges :: "index_range list \<Rightarrow> index_key \<Rightarrow> bool" where
  "in_ranges rs k \<longleftrightarrow> (\<exists>r \<in> set rs. in_range r k)"

lemma below_hi_beyond: "below_hi hi (be_key e) \<longleftrightarrow> \<not> beyond_hi hi e"
  by (auto simp: below_hi_def beyond_hi_def Let_def key_cmp_sign split: option.splits)

lemma above_tighter: "above_lo (tighter_lo a b) k \<longleftrightarrow> above_lo a k \<and> above_lo b k"
  by (auto simp: above_lo_def tighter_lo_def Let_def key_cmp_sign split: option.splits if_splits)

lemma below_tighter: "below_hi (tighter_hi a b) k \<longleftrightarrow> below_hi a k \<and> below_hi b k"
  by (auto simp: below_hi_def tighter_hi_def Let_def key_cmp_sign split: option.splits if_splits)

lemma range_meet_Some: "range_meet a b = Some r \<Longrightarrow> in_range r k \<longleftrightarrow> in_range a k \<and> in_range b k"
proof -
  assume "range_meet a b = Some r"
  then have "r = \<lparr>ir_lo = tighter_lo (ir_lo a) (ir_lo b), ir_hi = tighter_hi (ir_hi a) (ir_hi b)\<rparr>"
    by (simp add: range_meet_def Let_def split: option.splits if_splits)
  then show ?thesis by (auto simp: in_range_def above_tighter below_tighter)
qed

lemma range_meet_None: "range_meet a b = None \<Longrightarrow> \<not> (in_range a k \<and> in_range b k)"
proof -
  assume n: "range_meet a b = None"
  have "\<not> (above_lo (tighter_lo (ir_lo a) (ir_lo b)) k \<and> below_hi (tighter_hi (ir_hi a) (ir_hi b)) k)"
    using n by (auto simp: range_meet_def above_lo_def below_hi_def Let_def key_cmp_sign split: option.splits if_splits)
  then show ?thesis by (auto simp: in_range_def above_tighter below_tighter)
qed

lemma in_ranges_simps [simp]:
  "in_ranges [] k \<longleftrightarrow> False" "in_ranges (r # rs) k \<longleftrightarrow> in_range r k \<or> in_ranges rs k"
  "in_ranges (xs @ ys) k \<longleftrightarrow> in_ranges xs k \<or> in_ranges ys k"
  by (auto simp: in_ranges_def)

lemma in_meet_row: "in_ranges (List.map_filter (range_meet x) b) k \<longleftrightarrow> in_range x k \<and> in_ranges b k"
  using range_meet_Some [of x _ _ k] range_meet_None [of x _ k]
  by (fastforce simp: in_ranges_def map_filter_def)

lemma in_ranges_meet: "in_ranges (ranges_meet a b) k \<longleftrightarrow> in_ranges a k \<and> in_ranges b k"
  by (induction a) (auto simp: ranges_meet_def in_meet_row)

lemma in_intersect_from: "in_ranges (intersect_from rs hs) k \<longleftrightarrow> in_ranges rs k \<and> (\<forall>h \<in> set hs. in_ranges (h_ranges h) k)"
proof (induction hs arbitrary: rs)
  case (Cons h hs)
  have "in_ranges (intersect_from rs (h # hs)) k \<longleftrightarrow> in_ranges (ranges_meet rs (h_ranges h)) k \<and> (\<forall>h \<in> set hs. in_ranges (h_ranges h) k)"
    using Cons.IH [of "ranges_meet rs (h_ranges h)"] by (auto simp: Let_def)
  then show ?case by (auto simp: in_ranges_meet)
qed simp

lemma in_intersect_ranges: "in_ranges (intersect_ranges hs) k \<longleftrightarrow> (\<forall>h \<in> set hs. in_ranges (h_ranges h) k)"
  by (simp add: intersect_ranges_def in_intersect_from) (simp add: in_range_def above_lo_def below_hi_def)

text \<open>Ranges in ascending order, each wholly below the next: no key is visited twice.\<close>

definition range_before :: "index_range \<Rightarrow> index_range \<Rightarrow> bool" where
  "range_before a b \<longleftrightarrow> (\<forall>x y. in_range a x \<longrightarrow> in_range b y \<longrightarrow> x < y)"

definition ascending :: "index_range list \<Rightarrow> bool" where
  "ascending = sorted_wrt range_before"

lemma range_before_sub:
  "range_before a b \<Longrightarrow> (\<And>k. in_range a' k \<Longrightarrow> in_range a k) \<Longrightarrow> (\<And>k. in_range b' k \<Longrightarrow> in_range b k) \<Longrightarrow> range_before a' b'"
  by (auto simp: range_before_def)

lemma ascending_row: "ascending b \<Longrightarrow> ascending (List.map_filter (range_meet x) b)"
proof (induction b)
  case (Cons y b)
  have "range_before r s" if "range_meet x y = Some r" "s \<in> set (List.map_filter (range_meet x) b)" for r s
  proof -
    from that(2) obtain z where z: "z \<in> set b" "range_meet x z = Some s" by (auto simp: map_filter_def)
    have "range_before y z" using Cons.prems z(1) by (auto simp: ascending_def)
    then show ?thesis by (rule range_before_sub) (auto simp: range_meet_Some [OF that(1)] range_meet_Some [OF z(2)])
  qed
  then show ?case using Cons by (auto simp: ascending_def map_filter_simps split: option.splits)
qed (simp add: ascending_def map_filter_simps)

lemma ranges_meet_ascending: "ascending a \<Longrightarrow> ascending b \<Longrightarrow> ascending (ranges_meet a b)"
proof (induction a)
  case (Cons x a)
  have "range_before r s" if "r \<in> set (List.map_filter (range_meet x) b)" "s \<in> set (ranges_meet a b)" for r s
  proof -
    from that(1) obtain y where y: "range_meet x y = Some r" by (auto simp: map_filter_def)
    from that(2) obtain z w where z: "z \<in> set a" "range_meet z w = Some s" by (auto simp: ranges_meet_def map_filter_def)
    have "range_before x z" using Cons.prems(1) z(1) by (auto simp: ascending_def)
    then show ?thesis by (rule range_before_sub) (auto simp: range_meet_Some [OF y] range_meet_Some [OF z(2)])
  qed
  moreover have "ranges_meet (x # a) b = List.map_filter (range_meet x) b @ ranges_meet a b" by (simp add: ranges_meet_def)
  ultimately show ?case using Cons ascending_row [of b x] by (auto simp: ascending_def sorted_wrt_append)
qed (simp add: ascending_def ranges_meet_def)

lemma cmp_ranges_ascending: "ascending (cmp_ranges op k)"
  by (cases op) (auto simp: ascending_def range_before_def in_range_def above_lo_def below_hi_def)

lemma null_key_max: "k \<noteq> k_null_key \<Longrightarrow> key_null k \<Longrightarrow> k_null_key < k" "\<not> key_null k \<Longrightarrow> k < k_null_key"
  by (cases k; auto simp: less_index_key_def key_cmp_def k_null_key_def word_neq_0_conv)+

lemma cmp_ranges_exact:
  assumes "\<not> key_null c" "key_null c' \<Longrightarrow> key_val c' = 0"
  shows "in_ranges (cmp_ranges op c) c' \<longleftrightarrow> \<not> key_null c' \<and> cmp_holds op (key_cmp c' c)"
proof -
  have n: "c' < k_null_key \<longleftrightarrow> \<not> key_null c'" using assms(2) null_key_max(2) [of c']
    by (cases c') (auto simp: k_null_key_def)
  have c: "c < k_null_key" using null_key_max(2) assms(1) by blast
  have l: "c' \<le> c \<Longrightarrow> \<not> key_null c'" using c n by (meson le_less_trans)
  show ?thesis using l n less_imp_le [of c' c]
    by (cases op) (auto simp: in_range_def above_lo_def below_hi_def key_cmp_sign)
qed

section \<open>Keys of constants\<close>

text \<open>A value a column of this type holds: of the type, and no infinity and no NaN.\<close>

definition sound_value :: "type_attr \<Rightarrow> dbvalue \<Rightarrow> bool" where
  "sound_value t v \<longleftrightarrow> value_ok t v \<and> attr_sane t \<and> fin v"

lemma finite_not_nan: "fp_isfinite f x \<Longrightarrow> \<not> fp_isnan f x"
  by (simp add: fp_isfinite_def fp_isnan_def)

lemma cast_double:
  assumes "attr_rep d = RepDouble" "vbox v = BDec y" "attr_rep (vtype v) = RepDec"
  shows "rbind (cast_value v d Implicit) (encode_key d) = rbind (box_f64 v) (\<lambda>x. Inr (double_key x))"
proof -
  have k: "attr_rep kDouble = RepDouble" by (simp add: seed_attr_defs)
  note defs = box_f64_def cast_value_def value_is_null_def assms k cast_fn_defs cast_tier_def value_factories encode_key_def
  show ?thesis using assms(2,3) by (cases v; cases "dec_to_f64_raw y") (simp_all add: defs)
qed

lemma box_f64_finite: "box_f64 v = Inr x \<Longrightarrow> fin v \<Longrightarrow> \<not> fp_isnan F64 x"
  using payload_fin(1) [of v kDouble x] by (simp add: box_f64_def to_double_def finite_not_nan)

lemma float_box:
  assumes "sound_value t c" "attr_rep t = RepDouble \<or> attr_rep t = RepFloat" "vbox c \<noteq> BNull" "encode_key t c = Inr kc"
  shows "\<exists>x. box_f64 c = Inr x \<and> \<not> fp_isnan F64 x \<and> kc = double_key x" "attr_family (vtype c) = FamNum"
    "\<nexists>i. vbox c = BInt64 i" "\<nexists>i. vbox c = BDec i"
proof -
  have k: "attr_rep kDouble = RepDouble" by (simp add: seed_attr_defs)
  note defs = box_f64_def cast_value_def value_is_null_def k cast_fn_defs cast_tier_def value_factories
  obtain b where c: "c = Value t b" using assms(1,3) by (cases c) (auto simp: sound_value_def value_ok_def)
  have "\<exists>x. box_f64 c = Inr x \<and> kc = double_key x" using assms c
    by (cases b) (auto simp: sound_value_def value_ok_def box_typed_def encode_key_def defs res_simps)
  then show "\<exists>x. box_f64 c = Inr x \<and> \<not> fp_isnan F64 x \<and> kc = double_key x"
    using assms(1) box_f64_finite by (auto simp: sound_value_def)
  show "attr_family (vtype c) = FamNum" "\<nexists>i. vbox c = BInt64 i" "\<nexists>i. vbox c = BDec i" using assms(1,2) c
    by (auto simp: sound_value_def attr_sane_def value_ok_def box_typed_def)
qed

lemma sound_domain: "sound_value t v \<Longrightarrow> value_domain v \<noteq> DNone"
proof (cases "vbox v")
  case BNull
  then show ?thesis by (simp add: value_domain_def)
next
  case (BDouble d)
  assume s: "sound_value t v"
  then have "encode_key t v = Inr (double_key d)" "attr_rep t = RepDouble"
    using BDouble by (auto simp: sound_value_def value_ok_def box_typed_def encode_key_def split: rep.splits)
  with float_box [OF s] BDouble show ?thesis by (auto simp: value_domain_def float_key_def)
next
  case (BFloat d)
  assume s: "sound_value t v"
  then have "encode_key t v = Inr (double_key (f32_to_f64 d))" "attr_rep t = RepFloat"
    using BFloat by (auto simp: sound_value_def value_ok_def box_typed_def encode_key_def split: rep.splits)
  with float_box [OF s] BFloat show ?thesis by (auto simp: value_domain_def float_key_def)
qed (auto simp: sound_value_def value_ok_def box_typed_def value_domain_def attr_sane_def split: rep.splits)

lemma key_of_cases:
  assumes "key_of col v d = Inr (Some k)" "attr_rep d = RepDouble" "sound_value t v"
  obtains "encode_key (col_type col) v = Inr k" "vbox v \<noteq> BNull"
  | x where "attr_rep (col_type col) = RepDouble \<or> attr_rep (col_type col) = RepFloat" "box_f64 v = Inr x"
      "\<not> fp_isnan F64 x" "k = double_key x" "attr_family (vtype v) = FamNum" "vbox v \<noteq> BNull"
proof (cases "vbox v")
  case (BDouble y)
  then have "encode_key d v = Inr k" "attr_rep (col_type col) = RepDouble \<or> attr_rep (col_type col) = RepFloat"
    using assms(1) by (auto simp: key_of_def Let_def res_simps split: if_splits)
  moreover have "encode_key t v = encode_key d v" "attr_rep t = RepDouble"
    using assms(2,3) BDouble by (auto simp: sound_value_def value_ok_def box_typed_def encode_key_def split: rep.splits)
  ultimately show thesis using float_box [OF assms(3)] BDouble that(2) by auto
next
  case (BDec y)
  then have "rbind (cast_value v d Implicit) (encode_key d) = Inr k"
    "attr_rep (col_type col) = RepDouble \<or> attr_rep (col_type col) = RepFloat"
    using assms(1) by (auto simp: key_of_def Let_def res_simps split: if_splits)
  moreover have "attr_family (vtype v) = FamNum" "attr_rep (vtype v) = RepDec" using assms(3) BDec
    by (auto simp: sound_value_def value_ok_def box_typed_def attr_sane_def split: rep.splits)
  ultimately show thesis using cast_double [OF assms(2) BDec] box_f64_finite assms(3) BDec that(2)
    by (auto simp: res_simps sound_value_def)
qed (use assms(1) that(1) in \<open>auto simp: key_of_def Let_def res_simps split: if_splits\<close>)

lemma key_of_order:
  assumes "key_of col v d = Inr (Some k)" "attr_rep d = RepDouble" "sound_value t v"
    "sound_value (col_type col) c" "vbox c \<noteq> BNull" "encode_key (col_type col) c = Inr kc"
  shows "value_cmp c v = Inr (key_cmp kc k) \<and> value_cmp v c = Inr (key_cmp k kc)"
  using assms(1-3)
proof (cases rule: key_of_cases)
  case 1
  then show ?thesis using encode_key_cmp [OF assms(6) 1(1)] encode_key_cmp [OF 1(1) assms(6)]
      sound_domain [OF assms(3)] sound_domain [OF assms(4)] by simp
next
  case (2 x)
  note f = float_box [OF assms(4) 2(1) assms(5,6)]
  then obtain y where y: "box_f64 c = Inr y" "\<not> fp_isnan F64 y" "kc = double_key y" by blast
  have "num_cmp c v = Inr (f64_cmp y x)" "num_cmp v c = Inr (f64_cmp x y)"
    using f(3,4) y(1) 2(2) by (auto simp: num_cmp_def split: box.splits)
  then show ?thesis using f(2) 2 y assms(5)
    by (simp add: value_cmp_def value_is_null_def f64_cmp_num double_key_cmp)
qed

lemma encode_key_null: "encode_key t v = Inr k \<Longrightarrow> key_null k \<longleftrightarrow> vbox v = BNull"
  by (auto simp: encode_key_def double_key_def Let_def split: if_splits box.splits)

lemma encode_key_null_val: "encode_key t v = Inr k \<Longrightarrow> key_null k \<Longrightarrow> k = k_null_key"
  by (auto simp: encode_key_def double_key_def Let_def k_null_key_def split: if_splits box.splits)

lemma key_of_not_null: "key_of col v d = Inr (Some k) \<Longrightarrow> attr_rep d = RepDouble \<Longrightarrow> sound_value t v \<Longrightarrow> \<not> key_null k"
  by (erule (2) key_of_cases) (auto simp: encode_key_null double_key_def Let_def)

section \<open>Conjunctions\<close>

text \<open>The row passes, and the predicate has an answer on the row.\<close>

definition matches :: "row \<Rightarrow> bound_expr \<Rightarrow> bool" where
  "matches r e \<longleftrightarrow> where_match e r = Inr True"

definition decides :: "row \<Rightarrow> bound_expr \<Rightarrow> bool" where
  "decides r e \<longleftrightarrow> (\<exists>b. where_match e r = Inr b)"

lemma matches_decides: "matches r e \<Longrightarrow> decides r e"
  by (auto simp: matches_def decides_def)

lemma where_and:
  "where_match (BoundLogic LogicAnd a b) r = Inr z \<longleftrightarrow>
     (\<exists>x y. where_match a r = Inr x \<and> where_match b r = Inr y \<and> z = (x \<and> y))"
  by (cases "eval_bound a (Some r)"; cases "eval_bound b (Some r)")
     (auto simp: where_match_def logic_value_def value_is_null_def value_factories Let_def split: if_splits option.splits)

lemma and_simps [simp]:
  "decides r (BoundLogic LogicAnd a b) \<longleftrightarrow> decides r a \<and> decides r b"
  "matches r (BoundLogic LogicAnd a b) \<longleftrightarrow> matches r a \<and> matches r b"
  by (auto simp: decides_def matches_def where_and)

lemma flatten_decides: "decides r e \<longleftrightarrow> (\<forall>c \<in> set (flatten_and e). decides r c)"
  by (induction e rule: flatten_and.induct) auto

lemma flatten_matches: "matches r e \<longleftrightarrow> (\<forall>c \<in> set (flatten_and e). matches r c)"
  by (induction e rule: flatten_and.induct) auto

lemma foldl_and:
  "decides r (foldl (BoundLogic LogicAnd) e es) \<longleftrightarrow> decides r e \<and> (\<forall>c \<in> set es. decides r c)"
  "matches r (foldl (BoundLogic LogicAnd) e es) \<longleftrightarrow> matches r e \<and> (\<forall>c \<in> set es. matches r c)"
  by (induction es arbitrary: e) auto

lemma join_decides: "es \<noteq> [] \<Longrightarrow> decides r (join_and es) \<longleftrightarrow> (\<forall>c \<in> set es. decides r c)"
  by (cases es) (simp_all add: join_and_def foldl_and)

lemma join_matches: "es \<noteq> [] \<Longrightarrow> matches r (join_and es) \<longleftrightarrow> (\<forall>c \<in> set es. matches r c)"
  by (cases es) (simp_all add: join_and_def foldl_and)

lemma flatten_wt: "wt cols e kBool \<Longrightarrow> c \<in> set (flatten_and e) \<Longrightarrow> wt cols c kBool"
  by (induction e rule: flatten_and.induct) (auto elim: wt_logicE)

section \<open>Hits\<close>

text \<open>The key of the row in an index on a column.\<close>

definition row_key :: "column_spec \<Rightarrow> u16 \<Rightarrow> row \<Rightarrow> index_key res" where
  "row_key col ordinal r = encode_key (col_type col) (row_values r ! unat ordinal)"

lemma wt_const_sound:
  assumes "wt cols (BoundConst v) t" "const_value v = Inr w"
  shows "w = v" "sound_value t v"
  using assms by (auto elim!: wt_constE simp: const_value_def sound_value_def fin_def value_ok_def split: box.splits if_splits)

lemma cmp_holds_mirror: "cmp_holds (mirror op) (key_cmp a b) \<longleftrightarrow> cmp_holds op (key_cmp b a)"
  by (cases op) (auto simp: key_cmp_sign)

lemma cmp_hit_exact:
  assumes "cmp_hit col i d op e = Inr (Some h)" "attr_rep d = RepDouble" "wt cols e t" "eval_bound e (Some r) = Inr v"
    "sound_value (col_type col) c" "encode_key (col_type col) c = Inr kc"
  shows "vbox v \<noteq> BNull"
    "in_ranges (h_ranges h) kc \<longleftrightarrow> vbox c \<noteq> BNull \<and> (\<exists>x y. value_cmp c v = Inr x \<and> value_cmp v c = Inr y \<and> cmp_holds op x \<and> cmp_holds (mirror op) y)"
    "vbox c \<noteq> BNull \<Longrightarrow> \<exists>k. value_cmp c v = Inr (key_cmp kc k) \<and> value_cmp v c = Inr (key_cmp k kc)"
    "h_conj h = i"
proof -
  from assms(1) obtain v' k where e: "e = BoundConst v'" and k: "key_of col v' d = Inr (Some k)"
    and h: "h_ranges h = cmp_ranges op k" and i: "h_conj h = i"
    by (auto simp: cmp_hit_def res_simps split: bound_expr.splits)
  from assms(3,4) e have v: "v' = v" and s: "sound_value t v" using wt_const_sound [of cols v' t v] by auto
  note n = key_of_not_null [OF k [unfolded v] assms(2) s]
  show "vbox v \<noteq> BNull" using k v by (auto simp: key_of_def)
  show "h_conj h = i" by (rule i)
  have o: "value_cmp c v = Inr (key_cmp kc k) \<and> value_cmp v c = Inr (key_cmp k kc)" if "vbox c \<noteq> BNull"
    using key_of_order [OF k [unfolded v] assms(2) s assms(5) that assms(6)] .
  then show "vbox c \<noteq> BNull \<Longrightarrow> \<exists>k. value_cmp c v = Inr (key_cmp kc k) \<and> value_cmp v c = Inr (key_cmp k kc)" by blast
  show "in_ranges (h_ranges h) kc \<longleftrightarrow> vbox c \<noteq> BNull \<and>
      (\<exists>x y. value_cmp c v = Inr x \<and> value_cmp v c = Inr y \<and> cmp_holds op x \<and> cmp_holds (mirror op) y)"
    using cmp_ranges_exact [OF n, of kc op] encode_key_null [OF assms(6)] encode_key_null_val [OF assms(6)] o
      cmp_holds_mirror [of op k kc] by (auto simp: h k_null_key_def)
qed

lemma mirror_mirror [simp]: "mirror (mirror op) = op"
  by (cases op) auto

lemma match_hit_exact:
  assumes "match_hit e col n i d = Inr (Some h)" "attr_rep d = RepDouble" "wt cols e kBool" "decides r e"
    "unat n < length (row_values r)" "sound_value (col_type col) (row_values r ! unat n)" "row_key col n r = Inr kc"
  shows "matches r e \<longleftrightarrow> in_ranges (h_ranges h) kc" "h_conj h = i"
proof -
  let ?c = "row_values r ! unat n"
  have kc: "encode_key (col_type col) ?c = Inr kc" using assms(7) by (simp add: row_key_def)
  have col: "eval_bound e (Some r) = Inr ?c" if "is_col n e" for e
    using that assms(5) by (auto simp: is_col_def col_value_def split: bound_expr.splits)
  have "(matches r e \<longleftrightarrow> in_ranges (h_ranges h) kc) \<and> h_conj h = i"
  proof (cases e)
    case (BoundCmp op a b)
    obtain ta tb where w: "wt cols a ta" "wt cols b tb" using assms(3) BoundCmp by (auto elim: wt_cmpE)
    have ev: "\<exists>va vb. eval_bound a (Some r) = Inr va \<and> eval_bound b (Some r) = Inr vb"
      using assms(4) BoundCmp by (auto simp: decides_def where_match_def res_simps)
    consider (l) "is_col n a" "cmp_hit col i d op b = Inr (Some h)" | (r) "is_col n b" "cmp_hit col i d (mirror op) a = Inr (Some h)"
      using assms(1) BoundCmp by (auto simp: match_hit_def split: if_splits)
    then show ?thesis
    proof cases
      case l
      from ev obtain vb where vb: "eval_bound b (Some r) = Inr vb" by blast
      note x = cmp_hit_exact [OF l(2) assms(2) w(2) vb assms(6) kc]
      show ?thesis using x BoundCmp col [OF l(1)] vb
        by (auto simp: matches_def where_match_def compare_value_def value_is_null_def value_factories cmp_holds_mirror)
    next
      case r
      from ev obtain va where va: "eval_bound a (Some r) = Inr va" by blast
      note x = cmp_hit_exact [OF r(2) assms(2) w(1) va assms(6) kc]
      show ?thesis using x BoundCmp col [OF r(1)] va
        by (auto simp: matches_def where_match_def compare_value_def value_is_null_def value_factories cmp_holds_mirror)
    qed
  next
    case (BoundIsNull a neg)
    then have a: "is_col n a" and h: "h_conj h = i"
      "h_ranges h = (if neg then [\<lparr>ir_lo = None, ir_hi = Some (ScanBound k_null_key False)\<rparr>]
                   else [\<lparr>ir_lo = Some (ScanBound k_null_key True), ir_hi = Some (ScanBound k_null_key True)\<rparr>])"
      using assms(1) by (auto simp: match_hit_def split: if_splits)
    have "kc < k_null_key \<longleftrightarrow> vbox ?c \<noteq> BNull" "kc = k_null_key \<longleftrightarrow> vbox ?c = BNull"
      using encode_key_null [OF kc] encode_key_null_val [OF kc] null_key_max(2) [of kc] by (auto simp: k_null_key_def)
    then show ?thesis using h col [OF a] BoundIsNull
      by (auto simp: matches_def where_match_def is_null_value_def value_is_null_def value_factories in_range_def above_lo_def below_hi_def)
  qed (use assms(1) in \<open>auto simp: match_hit_def\<close>)
  then show "matches r e \<longleftrightarrow> in_ranges (h_ranges h) kc" "h_conj h = i" by auto
qed

section \<open>The chosen access path\<close>

lemma match_hit_conj: "match_hit e col n i d = Inr (Some h) \<Longrightarrow> h_conj h = i"
  by (auto simp: match_hit_def cmp_hit_def res_simps split: bound_expr.splits if_splits)

lemma match_hit_ascending: "match_hit e col n i d = Inr (Some h) \<Longrightarrow> ascending (h_ranges h)"
  by (auto simp: match_hit_def cmp_hit_def res_simps cmp_ranges_ascending split: bound_expr.splits if_splits)
     (simp_all add: ascending_def)

lemma index_hits_spec:
  assumes "index_hits meta cj d ent = Inr hits"
  shows "unat (ie_col_ordinal ent) < length (tm_cols meta)"
    "h \<in> set hits \<Longrightarrow> h_conj h < length cj \<and>
       match_hit (cj ! h_conj h) (tm_cols meta ! unat (ie_col_ordinal ent)) (ie_col_ordinal ent) (h_conj h) d = Inr (Some h)"
proof -
  let ?f = "\<lambda>i. match_hit (cj ! i) (tm_cols meta ! unat (ie_col_ordinal ent)) (ie_col_ordinal ent) i d"
  from assms obtain hs where hs: "map_res ?f [0..<length cj] = Inr hs" "hits = List.map_filter id hs"
    and l: "unat (ie_col_ordinal ent) < length (tm_cols meta)"
    by (auto simp: index_hits_def res_simps split: if_splits)
  show "unat (ie_col_ordinal ent) < length (tm_cols meta)" by (rule l)
  assume "h \<in> set hits"
  then obtain i where i: "i < length cj" "hs ! i = Some h"
    using map_res_length [OF hs(1)] hs(2) by (auto simp: map_filter_def in_set_conv_nth)
  then have "?f i = Inr (Some h)" using map_res_nth [OF hs(1), of i] by simp
  with i(1) match_hit_conj [OF this] show "h_conj h < length cj \<and> ?f (h_conj h) = Inr (Some h)" by simp
qed

lemma pick_index_spec:
  assumes "pick_index idxs meta cj d best = Inr (Some (ent, hits))"
    "\<And>e hs. best = Some (e, hs) \<Longrightarrow> e \<in> E \<and> index_hits meta cj d e = Inr hs \<and> hs \<noteq> []" "set idxs \<subseteq> E"
  shows "ent \<in> E \<and> index_hits meta cj d ent = Inr hits \<and> hits \<noteq> []"
  using assms
proof (induction idxs arbitrary: best)
  case (Cons e idxs)
  from Cons.prems(1) obtain hs where hs: "index_hits meta cj d e = Inr hs" by (auto simp: res_simps)
  show ?case
  proof (cases "hs = []")
    case True
    then have "pick_index idxs meta cj d best = Inr (Some (ent, hits))" using Cons.prems(1) hs by simp
    then show ?thesis using Cons.prems(2,3) by (intro Cons.IH [of best]) auto
  next
    case False
    then obtain best' where "pick_index idxs meta cj d best' = Inr (Some (ent, hits))" "best' = best \<or> best' = Some (e, hs)"
      using Cons.prems(1) hs by (auto simp: Let_def split: if_splits)
    then show ?thesis using Cons.prems(2,3) hs False by (intro Cons.IH [of best']) auto
  qed
qed simp

lemma residual_cover:
  assumes "\<And>h. h \<in> set hits \<Longrightarrow> h_conj h < length cj"
  shows "(\<forall>c \<in> set cj. P c) \<longleftrightarrow> (\<forall>h \<in> set hits. P (cj ! h_conj h)) \<and> (\<forall>c \<in> set (residual_of cj hits). P c)"
proof -
  have "set (residual_of cj hits) = {cj ! i | i. i < length cj \<and> i \<notin> h_conj ` set hits}" by (auto simp: residual_of_def)
  moreover have "set cj = {cj ! i | i. i < length cj}" by (auto simp: in_set_conv_nth)
  ultimately show ?thesis using assms by blast
qed

text \<open>A row as the table stores it: every value fits its column, and the row has a key in the index.\<close>

definition stored_row :: "column_spec list \<Rightarrow> row \<Rightarrow> bool" where
  "stored_row cols r \<longleftrightarrow> list_all2 (\<lambda>c v. sound_value (col_type c) v) cols (row_values r)"

lemma hits_exact:
  assumes "index_hits meta (flatten_and pred) d ent = Inr hits" "attr_rep d = RepDouble"
    "wt (map col_type (tm_cols meta)) pred kBool" "stored_row (tm_cols meta) r" "decides r pred"
    "row_key (tm_cols meta ! unat (ie_col_ordinal ent)) (ie_col_ordinal ent) r = Inr k"
  shows "matches r pred \<longleftrightarrow> in_ranges (intersect_ranges hits) k \<and> (\<forall>c \<in> set (residual_of (flatten_and pred) hits). matches r c)"
    "\<forall>c \<in> set (residual_of (flatten_and pred) hits). decides r c"
proof -
  let ?cj = "flatten_and pred" and ?n = "ie_col_ordinal ent"
  note sp = index_hits_spec [OF assms(1)]
  have len: "unat ?n < length (row_values r)" and sv: "sound_value (col_type (tm_cols meta ! unat ?n)) (row_values r ! unat ?n)"
    using assms(4) sp(1) by (auto simp: stored_row_def list_all2_conv_all_nth)
  have h: "matches r (?cj ! h_conj h) \<longleftrightarrow> in_ranges (h_ranges h) k" if "h \<in> set hits" for h
  proof -
    from sp(2) [OF that] have i: "h_conj h < length ?cj"
      "match_hit (?cj ! h_conj h) (tm_cols meta ! unat ?n) ?n (h_conj h) d = Inr (Some h)" by auto
    have c: "?cj ! h_conj h \<in> set ?cj" using i(1) by simp
    show ?thesis
      by (rule match_hit_exact(1) [OF i(2) assms(2) flatten_wt [OF assms(3) c] _ len sv assms(6)])
         (use assms(5) c flatten_decides in blast)
  qed
  have cov: "h \<in> set hits \<Longrightarrow> h_conj h < length ?cj" for h using sp(2) by blast
  show "matches r pred \<longleftrightarrow> in_ranges (intersect_ranges hits) k \<and> (\<forall>c \<in> set (residual_of ?cj hits). matches r c)"
    using flatten_matches [of r pred] residual_cover [of hits ?cj "matches r", OF cov] in_intersect_ranges [of hits k] h by blast
  show "\<forall>c \<in> set (residual_of ?cj hits). decides r c"
    using assms(5) flatten_decides [of r pred] by (auto simp: residual_of_def)
qed

lemma intersect_ascending:
  assumes "\<And>h. h \<in> set hits \<Longrightarrow> ascending (h_ranges h)"
  shows "ascending (intersect_ranges hits)"
proof -
  have base: "ascending []" "ascending [x]" for x by (simp_all add: ascending_def)
  have "ascending rs \<Longrightarrow> (\<And>h. h \<in> set hs \<Longrightarrow> ascending (h_ranges h)) \<Longrightarrow> ascending (intersect_from rs hs)" for rs hs
    by (induction hs arbitrary: rs) (auto simp: Let_def ranges_meet_ascending base)
  then show ?thesis using assms by (simp add: intersect_ranges_def base)
qed

lemma rewrite_scan_cases:
  assumes "rewrite_scan db (SeqScanPlan t) pred = Inr p"
  shows "p = FilterPlan (SeqScanPlan t) pred \<or>
    (\<exists>idxs d ent hits. pcat_indexes db (th_meta t) = Inr idxs \<and> ent \<in> set idxs \<and> pcat_double db = Inr d \<and>
       index_hits (th_meta t) (flatten_and pred) d ent = Inr hits \<and> hits \<noteq> [] \<and> p = index_path t ent (flatten_and pred) hits)"
proof -
  from assms obtain idxs where idxs: "pcat_indexes db (th_meta t) = Inr idxs"
    by (auto simp: rewrite_scan_def res_simps)
  show ?thesis
  proof (cases "idxs = []")
    case True
    then show ?thesis using assms idxs by (simp add: rewrite_scan_def)
  next
    case False
    with assms idxs obtain d best where d: "pcat_double db = Inr d"
      and best: "pick_index idxs (th_meta t) (flatten_and pred) d None = Inr best"
      by (auto simp: rewrite_scan_def res_simps Let_def)
    show ?thesis
    proof (cases best)
      case None
      then show ?thesis using assms idxs False d best by (simp add: rewrite_scan_def)
    next
      case (Some b)
      then obtain ent hits where b: "best = Some (ent, hits)" by (cases b) auto
      have "ent \<in> set idxs \<and> index_hits (th_meta t) (flatten_and pred) d ent = Inr hits \<and> hits \<noteq> []"
        using pick_index_spec [of idxs "th_meta t" "flatten_and pred" d None ent hits "set idxs"] best b by auto
      moreover have "p = index_path t ent (flatten_and pred) hits"
        using assms idxs False d best b by (auto simp: rewrite_scan_def Let_def)
      ultimately show ?thesis using idxs d by blast
    qed
  qed
qed

section \<open>Properties\<close>

definition demo_table :: table_handle where
  "demo_table = \<lparr>th_meta = \<lparr>tm_table_id = 20, tm_file_id = 7, tm_name = ''t'',
     tm_cols = [\<lparr>col_name = ''n'', col_type = kInt, col_length = 0, col_not_null = False, col_scale = 0\<rparr>]\<rparr>, th_display = ''public.t''\<rparr>"

definition demo_index :: index_entry where
  "demo_index = \<lparr>ie_name = ''t_n'', ie_col_ordinal = 0, ie_file_id = 8, ie_row_ref = RowRef (PageId 4 1) 0\<rparr>"

definition demo_at :: "u16 \<Rightarrow> dbvalue \<Rightarrow> row" where
  "demo_at i v = empty_row\<lparr>row_loc := RowRef (PageId 7 1) i, row_values := [v]\<rparr>"

definition demo_range :: bound_expr where
  "demo_range = BoundLogic LogicAnd (BoundCmp CmpLt (BoundConst (int_val kInt 5)) (BoundColRef 0 kInt))
     (BoundCmp CmpEq (BoundColRef 0 kInt) (BoundColRef 0 kInt))"

lemma demo_range_wt: "wt [kInt] demo_range kBool"
proof -
  have c: "wt [kInt] (BoundColRef 0 kInt) kInt"
    by (rule wt_col) (simp_all add: attr_sane_def seed_attr_defs)
  have k: "wt [kInt] (BoundConst (int_val kInt 5)) kInt"
    by (rule wt_const) (simp_all add: attr_sane_def seed_attr_defs value_factories value_ok_def box_typed_def)
  show ?thesis unfolding demo_range_def
    by (intro wt_logic wt_cmp [OF c c] wt_cmp [OF k c]) (simp_all add: attr_sane_def seed_attr_defs)
qed

lemma demo_at_stored: "stored_row (tm_cols (th_meta demo_table)) (demo_at i (int_val kInt n))"
  "stored_row (tm_cols (th_meta demo_table)) (demo_at i null_val)"
  by (simp_all add: demo_at_def stored_row_def demo_table_def sound_value_def value_ok_def attr_sane_def
      value_factories seed_attr_defs box_typed_def fin_def)

text \<open>
  C17. The ranges of an index scan are exactly the conjuncts they replace. For a well-typed predicate
  and a stored row on which the predicate has a verdict, the verdict is: the row's key lies in the
  intersection of the ranges of the conjuncts that matched the index, and every remaining conjunct
  holds; the remaining conjuncts have verdicts, too. The ranges ascend and do not overlap, so that no
  entry is visited twice.
\<close>

theorem index_ranges_exact:
  assumes "index_hits meta (flatten_and pred) d ent = Inr hits" "attr_rep d = RepDouble"
    "wt (map col_type (tm_cols meta)) pred kBool" "stored_row (tm_cols meta) r" "where_match pred r = Inr b"
    "row_key (tm_cols meta ! unat (ie_col_ordinal ent)) (ie_col_ordinal ent) r = Inr k"
  shows "(b \<longleftrightarrow> in_ranges (intersect_ranges hits) k \<and> (\<forall>c \<in> set (residual_of (flatten_and pred) hits). where_match c r = Inr True)) \<and>
    (\<forall>c \<in> set (residual_of (flatten_and pred) hits). \<exists>v. where_match c r = Inr v) \<and> ascending (intersect_ranges hits)"
proof -
  have "decides r pred" using assms(5) by (auto simp: decides_def)
  note h = hits_exact [OF assms(1-4) this assms(6)]
  have "ascending (intersect_ranges hits)"
    by (rule intersect_ascending) (use index_hits_spec(2) [OF assms(1)] match_hit_ascending in blast)
  then show ?thesis using h assms(5) by (simp add: matches_def decides_def)
qed

definition demo_hits :: "hit list" where
  "demo_hits = [\<lparr>h_conj = 0, h_eq = False, h_ranges = cmp_ranges CmpGt (IndexKey 0x8000000000000005 False),
     h_cond = \<lparr>ic_col = ''n'', ic_op = CmpGt, ic_value = int_val kInt 5, ic_is_null = False, ic_negate = False\<rparr>\<rparr>]"

theorem index_ranges_exact_witness:
  "in_ranges (intersect_ranges demo_hits) (IndexKey 0x8000000000000007 False) \<and>
   list_all (\<lambda>c. where_match c (demo_at 1 (int_val kInt 7)) = Inr True) (residual_of (flatten_and demo_range) demo_hits) \<and>
   ascending (intersect_ranges demo_hits)"
proof -
  have h1: "index_hits (th_meta demo_table) (flatten_and demo_range) kDouble demo_index = Inr demo_hits" by code_simp
  have h2: "attr_rep kDouble = RepDouble" by (simp add: seed_attr_defs)
  have h3: "wt (map col_type (tm_cols (th_meta demo_table))) demo_range kBool" using demo_range_wt by (simp add: demo_table_def)
  have h4: "stored_row (tm_cols (th_meta demo_table)) (demo_at 1 (int_val kInt 7))" by (rule demo_at_stored)
  have h5: "where_match demo_range (demo_at 1 (int_val kInt 7)) = Inr True" by code_simp
  have h6: "row_key (tm_cols (th_meta demo_table) ! unat (ie_col_ordinal demo_index)) (ie_col_ordinal demo_index) (demo_at 1 (int_val kInt 7))
      = Inr (IndexKey 0x8000000000000007 False)" by code_simp
  show ?thesis using index_ranges_exact [OF h1 h2 h3 h4 h5 h6] by (simp add: list_all_iff)
qed

end
