(* ===== verification/Operators.thy ===== *)
theory Operators
  imports Plan "HOL-Library.Multiset"
begin

text \<open>
  The iterator operators of executor/operator.cpp over the plans of Plan: opening, pulling a row,
  and the sort. A scan of the catalog is the list of what its cursor will deliver. The operators are
  shown to deliver streams (locale \<^verbatim>\<open>cursor\<close>), and the optimiser to keep the rows of those streams.
\<close>

section \<open>Feeds\<close>

text \<open>
  What a cursor delivers: rows, and then the end or a failure. The database is seen through the
  cursors and reads that a statement makes under its lock: \<^verbatim>\<open>Catalog::scan\<close>,
  \<^verbatim>\<open>Catalog::index_scan\<close> and \<^verbatim>\<open>Catalog::read_row\<close>.
\<close>

type_synonym 'a feed = "'a list \<times> failure option"

record access =
  ac_scan :: "table_meta \<Rightarrow> row feed res"
  ac_index :: "u64 \<Rightarrow> scan_bound option \<Rightarrow> scan_bound option \<Rightarrow> btree_entry feed res"
  ac_read :: "row_ref \<Rightarrow> column_spec list \<Rightarrow> row option res"

definition feed_next :: "'a feed \<Rightarrow> ('a option \<times> 'a feed) res" where
  "feed_next f = (case f of
     (x # xs, e) \<Rightarrow> Inr (Some x, (xs, e))
   | ([], None) \<Rightarrow> Inr (None, f)
   | ([], Some e) \<Rightarrow> Inl e)"

section \<open>Operators\<close>

text \<open>
  The state of an operator: the cursor of a scan, the cursors of the remaining ranges of an index
  scan, the flag of the one-row source, the sorted rows still to come. Filter, fetch and projection
  keep no state besides their child's.
\<close>

datatype op_state =
    ScanState "row feed"
  | IndexState "btree_entry feed list"
  | DummyState bool
  | EmptyState
  | SortState op_state "row list"

definition entry_row :: "u64 \<Rightarrow> btree_entry \<Rightarrow> row" where
  "entry_row heap_fid e = empty_row\<lparr>row_loc := RowRef (PageId heap_fid (be_page e)) (be_slot e)\<rparr>"

text \<open>\<^verbatim>\<open>IndexScanOp::next\<close>: a cursor that has ended gives way to the next range.\<close>

fun index_next :: "btree_entry feed list \<Rightarrow> (btree_entry option \<times> btree_entry feed list) res" where
  "index_next [] = Inr (None, [])"
| "index_next (f # fs) =
     rbind (feed_next f) (\<lambda>(x, f). case x of Some e \<Rightarrow> Inr (Some e, f # fs) | None \<Rightarrow> index_next fs)"

text \<open>
  The loop of the fetch and the filter: rows are taken from the child until one passes. The bound
  is the number of rows the child can still deliver; \<^verbatim>\<open>None\<close> stands for a loop that did not end.
\<close>

fun pull :: "nat \<Rightarrow> ('s \<Rightarrow> (row option \<times> 's) res) \<Rightarrow> (row \<Rightarrow> row option res) \<Rightarrow> 's \<Rightarrow> (row option \<times> 's) res option" where
  "pull 0 nxt f st = None"
| "pull (Suc fuel) nxt f st =
     (case nxt st of
        Inl e \<Rightarrow> Some (Inl e)
      | Inr (None, st) \<Rightarrow> Some (Inr (None, st))
      | Inr (Some r, st) \<Rightarrow>
          (case f r of
             Inl e \<Rightarrow> Some (Inl e)
           | Inr (Some r) \<Rightarrow> Some (Inr (Some r, st))
           | Inr None \<Rightarrow> pull fuel nxt f st))"

definition filter_row :: "bound_expr \<Rightarrow> row \<Rightarrow> row option res" where
  "filter_row pred r = rbind (where_match pred r) (\<lambda>b. Inr (if b then Some r else None))"

definition fetch_row :: "access \<Rightarrow> column_spec list \<Rightarrow> row \<Rightarrow> row option res" where
  "fetch_row ac cols r = ac_read ac (row_loc r) cols"

definition proj_value :: "row \<Rightarrow> proj_col \<Rightarrow> dbvalue res" where
  "proj_value r p = (case pc_expr p of
     Some e \<Rightarrow> eval_row e r
   | None \<Rightarrow> if pc_col_idx p < length (row_values r) then Inr (row_values r ! pc_col_idx p) else Inl Crash)"

definition project_row :: "proj_col list \<Rightarrow> row \<Rightarrow> row res" where
  "project_row projs r = rbind (map_res (proj_value r) projs) (\<lambda>vals. Inr (r\<lparr>row_values := vals\<rparr>))"

section \<open>Sorting\<close>

type_synonym row_keys = "row \<times> dbvalue list"

definition order_key :: "bool \<Rightarrow> row \<Rightarrow> bound_order_item \<Rightarrow> dbvalue res" where
  "order_key sort_on_output r x =
     (if sort_on_output then
        (if bo_out_idx x < length (row_values r) then Inr (row_values r ! bo_out_idx x) else Inl Crash)
      else case bo_expr x of Some e \<Rightarrow> eval_row e r | None \<Rightarrow> Inl Crash)"

definition row_keys_of :: "bound_order_item list \<Rightarrow> bool \<Rightarrow> row \<Rightarrow> row_keys res" where
  "row_keys_of orders sort_on_output r =
     rbind (map_res (order_key sort_on_output r) orders) (\<lambda>keys. Inr (r, keys))"

fun keys_less :: "dbvalue list \<Rightarrow> dbvalue list \<Rightarrow> bound_order_item list \<Rightarrow> bool res" where
  "keys_less (a # as) (b # bs) (x # orders) =
     rbind (value_cmp a b) (\<lambda>c.
       let c = (if bo_desc x then - c else c)
       in if c \<noteq> 0 then Inr (c < 0) else keys_less as bs orders)"
| "keys_less as bs [] = Inr False"
| "keys_less _ _ (x # orders) = Inl Crash"

definition key_less :: "row_keys \<Rightarrow> row_keys \<Rightarrow> bound_order_item list \<Rightarrow> bool res" where
  "key_less l r orders = keys_less (snd l) (snd r) orders"

text \<open>
  \<^verbatim>\<open>std::sort\<close>: some sorted arrangement of the rows, which order rows of equal keys have being
  left open. It is an insertion that keeps them in their order.
\<close>

fun sort_insert :: "bound_order_item list \<Rightarrow> row_keys \<Rightarrow> row_keys list \<Rightarrow> row_keys list res" where
  "sort_insert orders x [] = Inr [x]"
| "sort_insert orders x (y # ys) =
     rbind (key_less x y orders) (\<lambda>b.
       if b then Inr (x # y # ys) else rbind (sort_insert orders x ys) (\<lambda>zs. Inr (y # zs)))"

fun sort_rows :: "bound_order_item list \<Rightarrow> row_keys list \<Rightarrow> row_keys list \<Rightarrow> row_keys list res" where
  "sort_rows orders out [] = Inr out"
| "sort_rows orders out (x # xs) = rbind (sort_insert orders x out) (\<lambda>out. sort_rows orders out xs)"

section \<open>Opening and pulling\<close>

text \<open>The plan nodes that have an operator.\<close>

fun make_operator :: "plan \<Rightarrow> unit res" where
  "make_operator (SeqScanPlan t) = Inr ()"
| "make_operator (IndexScanPlan t i fid ranges conds) = Inr ()"
| "make_operator (FetchPlan t child) = make_operator child"
| "make_operator DummyScanPlan = Inr ()"
| "make_operator (EmptyPlan t) = Inr ()"
| "make_operator (FilterPlan child pred) = make_operator child"
| "make_operator (ProjectPlan child projs) = make_operator child"
| "make_operator (SortPlan child orders b) = make_operator child"
| "make_operator _ = Inl (Raise Internal)"

text \<open>How many rows are still to come at most.\<close>

fun op_left :: "op_state \<Rightarrow> nat" where
  "op_left (ScanState f) = length (fst f)"
| "op_left (IndexState fs) = sum_list (map (\<lambda>f. length (fst f)) fs)"
| "op_left (DummyState d) = (if d then 0 else 1)"
| "op_left EmptyState = 0"
| "op_left (SortState st rows) = length rows"

definition loop_end :: "'a res option \<Rightarrow> 'a res" where
  "loop_end x = (case x of Some r \<Rightarrow> r | None \<Rightarrow> Inl Crash)"

fun op_next :: "access \<Rightarrow> plan \<Rightarrow> op_state \<Rightarrow> (row option \<times> op_state) res" where
  "op_next ac (SeqScanPlan t) st = (case st of
     ScanState f \<Rightarrow> rbind (feed_next f) (\<lambda>(r, f). Inr (r, ScanState f)) | _ \<Rightarrow> Inl Crash)"
| "op_next ac (IndexScanPlan t i fid ranges conds) st = (case st of
     IndexState fs \<Rightarrow>
       rbind (index_next fs) (\<lambda>(x, fs). Inr (map_option (entry_row (tm_file_id (th_meta t))) x, IndexState fs))
   | _ \<Rightarrow> Inl Crash)"
| "op_next ac (FetchPlan t child) st =
     loop_end (pull (Suc (op_left st)) (op_next ac child) (fetch_row ac (tm_cols (th_meta t))) st)"
| "op_next ac DummyScanPlan st = (case st of
     DummyState d \<Rightarrow> if d then Inr (None, DummyState d) else Inr (Some empty_row, DummyState True) | _ \<Rightarrow> Inl Crash)"
| "op_next ac (EmptyPlan t) st = (case st of EmptyState \<Rightarrow> Inr (None, EmptyState) | _ \<Rightarrow> Inl Crash)"
| "op_next ac (FilterPlan child pred) st =
     loop_end (pull (Suc (op_left st)) (op_next ac child) (filter_row pred) st)"
| "op_next ac (ProjectPlan child projs) st =
     rbind (op_next ac child st) (\<lambda>(r, st). case r of
       None \<Rightarrow> Inr (None, st)
     | Some r \<Rightarrow> rbind (project_row projs r) (\<lambda>r. Inr (Some r, st)))"
| "op_next ac (SortPlan child orders b) st = (case st of
     SortState st rows \<Rightarrow>
       (case rows of [] \<Rightarrow> Inr (None, SortState st []) | r # rs \<Rightarrow> Inr (Some r, SortState st rs))
   | _ \<Rightarrow> Inl Crash)"
| "op_next ac _ st = Inl Crash"

text \<open>\<^verbatim>\<open>SortOp::open\<close> takes every row of the child.\<close>

fun collect :: "nat \<Rightarrow> ('s \<Rightarrow> (row option \<times> 's) res) \<Rightarrow> (row \<Rightarrow> 'a res) \<Rightarrow> 's \<Rightarrow> ('a list \<times> 's) res option" where
  "collect 0 nxt f st = None"
| "collect (Suc fuel) nxt f st =
     (case nxt st of
        Inl e \<Rightarrow> Some (Inl e)
      | Inr (None, st) \<Rightarrow> Some (Inr ([], st))
      | Inr (Some r, st) \<Rightarrow>
          (case f r of
             Inl e \<Rightarrow> Some (Inl e)
           | Inr x \<Rightarrow> (case collect fuel nxt f st of
                None \<Rightarrow> None
              | Some (Inl e) \<Rightarrow> Some (Inl e)
              | Some (Inr (xs, st)) \<Rightarrow> Some (Inr (x # xs, st)))))"

fun op_open :: "access \<Rightarrow> plan \<Rightarrow> op_state res" where
  "op_open ac (SeqScanPlan t) = rbind (ac_scan ac (th_meta t)) (\<lambda>f. Inr (ScanState f))"
| "op_open ac (IndexScanPlan t i fid ranges conds) =
     rbind (map_res (\<lambda>r. ac_index ac fid (ir_lo r) (ir_hi r)) ranges) (\<lambda>fs. Inr (IndexState fs))"
| "op_open ac (FetchPlan t child) = op_open ac child"
| "op_open ac DummyScanPlan = Inr (DummyState False)"
| "op_open ac (EmptyPlan t) = Inr EmptyState"
| "op_open ac (FilterPlan child pred) = op_open ac child"
| "op_open ac (ProjectPlan child projs) = op_open ac child"
| "op_open ac (SortPlan child orders b) =
     rbind (op_open ac child) (\<lambda>st.
     rbind (loop_end (collect (Suc (op_left st)) (op_next ac child) (row_keys_of orders b) st)) (\<lambda>(keyed, st).
     rbind (sort_rows orders [] keyed) (\<lambda>out. Inr (SortState st (map fst out)))))"
| "op_open ac _ = Inl (Raise Internal)"

section \<open>Streams\<close>

text \<open>The rows a stage passes on when it maps each row to a row, to nothing or to a failure.\<close>

fun feed_pull :: "('a \<Rightarrow> 'b option res) \<Rightarrow> 'a list \<Rightarrow> failure option \<Rightarrow> 'b feed" where
  "feed_pull f [] e = ([], e)"
| "feed_pull f (r # rs) e =
     (case f r of
        Inl x \<Rightarrow> ([], Some x)
      | Inr None \<Rightarrow> feed_pull f rs e
      | Inr (Some y) \<Rightarrow> (y # fst (feed_pull f rs e), snd (feed_pull f rs e)))"

definition through :: "('a \<Rightarrow> 'b option res) \<Rightarrow> 'a feed \<Rightarrow> 'b feed" where
  "through f x = feed_pull f (fst x) (snd x)"

fun feed_concat :: "'a feed list \<Rightarrow> 'a feed" where
  "feed_concat [] = ([], None)"
| "feed_concat ((xs, Some e) # fs) = (xs, Some e)"
| "feed_concat ((xs, None) # fs) = (xs @ fst (feed_concat fs), snd (feed_concat fs))"

definition total_row :: "('a \<Rightarrow> 'b res) \<Rightarrow> 'a \<Rightarrow> 'b option res" where
  "total_row f r = rbind (f r) (\<lambda>y. Inr (Some y))"

lemma total_row_simps: "f r = Inl x \<Longrightarrow> total_row f r = Inl x" "f r = Inr y \<Longrightarrow> total_row f r = Inr (Some y)"
  by (simp_all add: total_row_def)

lemma feed_pull_length: "length (fst (feed_pull f rs e)) \<le> length rs"
  by (induction rs) (auto split: sum.splits option.splits intro: le_SucI)

lemma through_length: "length (fst (through f x)) \<le> length (fst x)"
  by (simp add: through_def feed_pull_length)

text \<open>
  The contract of an operator: its \<^verbatim>\<open>next\<close> delivers, one by one, the rows of the stream its state
  stands for, and then reports the end or fails as the stream does.
\<close>

definition delivers :: "('a option \<times> 's) res \<Rightarrow> ('s \<Rightarrow> 'a feed) \<Rightarrow> 'a feed \<Rightarrow> bool" where
  "delivers res view f = (case f of
     (r # rs, e) \<Rightarrow> \<exists>st. res = Inr (Some r, st) \<and> view st = (rs, e)
   | ([], None) \<Rightarrow> \<exists>st. res = Inr (None, st) \<and> view st = ([], None)
   | ([], Some x) \<Rightarrow> res = Inl x)"

locale cursor =
  fixes nxt :: "'s \<Rightarrow> (row option \<times> 's) res" and view :: "'s \<Rightarrow> row feed"
  assumes next_view: "delivers (nxt st) view (view st)"
begin

lemma pull_view:
  "length (fst (view st)) < fuel \<Longrightarrow>
   \<exists>res. pull fuel nxt f st = Some res \<and> delivers res (\<lambda>st. through f (view st)) (through f (view st))"
proof (induction fuel arbitrary: st)
  case (Suc fuel)
  have n: "delivers (nxt st) view (view st)" by (rule next_view)
  show ?case
  proof (cases "view st")
    case (Pair rs e)
    show ?thesis
    proof (cases rs)
      case Nil
      then show ?thesis using n Pair by (cases e) (auto simp: delivers_def through_def)
    next
      case (Cons r rs')
      then obtain st' where st': "nxt st = Inr (Some r, st')" "view st' = (rs', e)" using n Pair by (auto simp: delivers_def)
      show ?thesis
      proof (cases "f r")
        case (Inl x)
        then show ?thesis using Pair Cons st' by (simp add: delivers_def through_def)
      next
        case (Inr out)
        then show ?thesis using Pair Cons st' Suc.IH [of st'] Suc.prems
          by (cases out) (auto simp: through_def delivers_def [of "Inr (Some _, _)"])
      qed
    qed
  qed
qed simp

lemma collect_view:
  "length (fst (view st)) < fuel \<Longrightarrow>
   \<exists>res. collect fuel nxt f st = Some res \<and>
     (case through (total_row f) (view st) of
        (xs, None) \<Rightarrow> \<exists>st'. res = Inr (xs, st') | (xs, Some e) \<Rightarrow> res = Inl e)"
proof (induction fuel arbitrary: st)
  case (Suc fuel)
  have n: "delivers (nxt st) view (view st)" by (rule next_view)
  show ?case
  proof (cases "view st")
    case (Pair rs e)
    show ?thesis
    proof (cases rs)
      case Nil
      then show ?thesis using n Pair by (cases e) (auto simp: delivers_def through_def)
    next
      case (Cons r rs')
      then obtain st' where st': "nxt st = Inr (Some r, st')" "view st' = (rs', e)" using n Pair by (auto simp: delivers_def)
      obtain res where "collect fuel nxt f st' = Some res"
        "case through (total_row f) (rs', e) of (xs, None) \<Rightarrow> \<exists>st'. res = Inr (xs, st') | (xs, Some e) \<Rightarrow> res = Inl e"
        using Suc.IH [of st'] Suc.prems st' Pair Cons by auto
      then show ?thesis using Pair Cons st'
        by (cases "f r"; cases "snd (feed_pull (total_row f) rs' e)") (auto simp: through_def total_row_simps split: prod.splits)
    qed
  qed
qed simp

end

fun op_view :: "access \<Rightarrow> plan \<Rightarrow> op_state \<Rightarrow> row feed" where
  "op_view ac (SeqScanPlan t) st = (case st of ScanState f \<Rightarrow> f | _ \<Rightarrow> ([], Some Crash))"
| "op_view ac (IndexScanPlan t i fid ranges conds) st = (case st of
     IndexState fs \<Rightarrow> apfst (map (entry_row (tm_file_id (th_meta t)))) (feed_concat fs) | _ \<Rightarrow> ([], Some Crash))"
| "op_view ac (FetchPlan t child) st = through (fetch_row ac (tm_cols (th_meta t))) (op_view ac child st)"
| "op_view ac DummyScanPlan st = (case st of DummyState d \<Rightarrow> (if d then [] else [empty_row], None) | _ \<Rightarrow> ([], Some Crash))"
| "op_view ac (EmptyPlan t) st = (case st of EmptyState \<Rightarrow> ([], None) | _ \<Rightarrow> ([], Some Crash))"
| "op_view ac (FilterPlan child pred) st = through (filter_row pred) (op_view ac child st)"
| "op_view ac (ProjectPlan child projs) st = through (total_row (project_row projs)) (op_view ac child st)"
| "op_view ac (SortPlan child orders b) st = (case st of SortState st rows \<Rightarrow> (rows, None) | _ \<Rightarrow> ([], Some Crash))"
| "op_view ac _ st = ([], Some Crash)"

lemma feed_concat_length: "length (fst (feed_concat fs)) \<le> sum_list (map (\<lambda>f. length (fst f)) fs)"
  by (induction fs rule: feed_concat.induct) auto

lemma op_view_left: "length (fst (op_view ac p st)) \<le> op_left st"
proof (induction p arbitrary: st)
  case (FetchPlan t child)
  then show ?case using through_length order_trans by (metis op_view.simps(3))
next
  case (FilterPlan child pred)
  then show ?case using through_length order_trans by (metis op_view.simps(6))
next
  case (ProjectPlan child projs)
  then show ?case using through_length order_trans by (metis op_view.simps(7))
qed (simp_all add: feed_concat_length split: op_state.splits)

lemma index_next_view:
  "case feed_concat fs of
     (x # xs, e) \<Rightarrow> \<exists>fs'. index_next fs = Inr (Some x, fs') \<and> feed_concat fs' = (xs, e)
   | ([], None) \<Rightarrow> index_next fs = Inr (None, [])
   | ([], Some e) \<Rightarrow> index_next fs = Inl e"
proof (induction fs rule: feed_concat.induct)
  case (2 xs e fs)
  then show ?case by (cases xs) (simp_all add: feed_next_def)
next
  case (3 xs fs)
  then show ?case by (cases xs) (auto simp: feed_next_def split: list.splits prod.splits option.splits)
qed simp

lemma op_next_view: "delivers (op_next ac p st) (op_view ac p) (op_view ac p st)"
proof (induction p arbitrary: st)
  case (SeqScanPlan t)
  show ?case
  proof (cases st)
    case (ScanState f)
    then show ?thesis
      by (cases f; cases "fst f"; cases "snd f") (simp_all add: delivers_def feed_next_def)
  qed (simp_all add: delivers_def)
next
  case (IndexScanPlan t i fid ranges conds)
  then show ?case
  proof (cases st)
    case (IndexState fs)
    then show ?thesis using index_next_view [of fs]
      by (cases "feed_concat fs") (auto simp: delivers_def split: list.splits option.splits)
  qed (simp_all add: delivers_def)
next
  case (FetchPlan t child)
  have "cursor (op_next ac child) (op_view ac child)" using FetchPlan by unfold_locales blast
  from cursor.pull_view [OF this, of st "Suc (op_left st)" "fetch_row ac (tm_cols (th_meta t))"] op_view_left [of ac child st]
  show ?case by (auto simp: loop_end_def)
next
  case (FilterPlan child pred)
  have "cursor (op_next ac child) (op_view ac child)" using FilterPlan by unfold_locales blast
  from cursor.pull_view [OF this, of st "Suc (op_left st)" "filter_row pred"] op_view_left [of ac child st]
  show ?case by (auto simp: loop_end_def)
next
  case (ProjectPlan child projs)
  have n: "delivers (op_next ac child st) (op_view ac child) (op_view ac child st)" by (rule ProjectPlan)
  obtain rs e where v: "op_view ac child st = (rs, e)" by (cases "op_view ac child st")
  show ?case
  proof (cases rs)
    case Nil
    then show ?thesis using n v by (cases e) (auto simp: delivers_def through_def)
  next
    case (Cons r rs')
    then show ?thesis using n v
      by (cases "project_row projs r") (auto simp: delivers_def through_def total_row_def)
  qed
qed (auto simp: delivers_def split: op_state.splits list.splits)

interpretation operators: cursor "op_next ac p" "op_view ac p" for ac p
  by unfold_locales (rule op_next_view)

section \<open>The stream of a plan\<close>

text \<open>A plan made into operators and opened, as the stream of the rows it then delivers.\<close>

definition op_run :: "access \<Rightarrow> plan \<Rightarrow> row feed res" where
  "op_run ac p = rbind (op_open ac p) (\<lambda>st. Inr (op_view ac p st))"

lemma run_simps:
  "op_run ac (SeqScanPlan t) = ac_scan ac (th_meta t)"
  "op_run ac (IndexScanPlan t i fid ranges conds) =
     rbind (map_res (\<lambda>r. ac_index ac fid (ir_lo r) (ir_hi r)) ranges)
       (\<lambda>fs. Inr (apfst (map (entry_row (tm_file_id (th_meta t)))) (feed_concat fs)))"
  "op_run ac (FetchPlan t child) = rbind (op_run ac child) (\<lambda>f. Inr (through (fetch_row ac (tm_cols (th_meta t))) f))"
  "op_run ac DummyScanPlan = Inr ([empty_row], None)"
  "op_run ac (EmptyPlan d) = Inr ([], None)"
  "op_run ac (FilterPlan child pred) = rbind (op_run ac child) (\<lambda>f. Inr (through (filter_row pred) f))"
  "op_run ac (ProjectPlan child projs) = rbind (op_run ac child) (\<lambda>f. Inr (through (total_row (project_row projs)) f))"
  by (simp_all add: op_run_def rbind_assoc)

lemma run_sort:
  "op_run ac (SortPlan child orders b) =
     rbind (op_run ac child) (\<lambda>f.
       case through (total_row (row_keys_of orders b)) f of
         (keyed, None) \<Rightarrow> rbind (sort_rows orders [] keyed) (\<lambda>out. Inr (map fst out, None))
       | (keyed, Some e) \<Rightarrow> Inl e)"
proof (cases "op_open ac child")
  case (Inr st)
  obtain res where r: "collect (Suc (op_left st)) (op_next ac child) (row_keys_of orders b) st = Some res"
    "case through (total_row (row_keys_of orders b)) (op_view ac child st) of
        (xs, None) \<Rightarrow> \<exists>st'. res = Inr (xs, st') | (xs, Some e) \<Rightarrow> res = Inl e"
    using operators.collect_view [of ac child st "Suc (op_left st)" "row_keys_of orders b"] op_view_left [of ac child st] by auto
  then show ?thesis using Inr
    by (cases "through (total_row (row_keys_of orders b)) (op_view ac child st)"; cases "snd (through (total_row (row_keys_of orders b)) (op_view ac child st))")
       (auto simp: op_run_def loop_end_def rbind_assoc)
qed (simp add: op_run_def)

lemma through_Nil [simp]: "through f ([], e) = ([], e)"
  by (simp add: through_def)

lemma feed_pull_None: "snd (feed_pull f rs e) = None \<Longrightarrow> e = None"
  by (induction rs) (auto split: sum.splits option.splits)

lemma through_done:
  "rbind m (\<lambda>f. Inr (through g f)) = Inr (rows, None) \<longleftrightarrow>
   (\<exists>rows'. m = Inr (rows', None) \<and> through g (rows', None) = (rows, None))"
proof -
  have "e = None" if "through g (rs, e) = (rows, None)" for rs e
    using feed_pull_None [of g rs e] that by (simp add: through_def)
  then show ?thesis by (cases m) auto
qed

lemma total_feed: "through (total_row f) (rows, None) = (ys, None) \<longleftrightarrow> map_res f rows = Inr ys"
proof (induction rows arbitrary: ys)
  case (Cons r rows)
  then show ?case using Cons [of "tl ys"]
    by (cases "f r"; cases ys) (auto simp: through_def total_row_simps prod_eq_iff res_simps)
qed (auto simp: through_def)

lemma run_project_iff:
  "op_run ac (ProjectPlan child projs) = Inr (out, None) \<longleftrightarrow>
   (\<exists>rows. op_run ac child = Inr (rows, None) \<and> map_res (project_row projs) rows = Inr out)"
  by (simp only: run_simps through_done total_feed)

lemma run_sort_iff:
  "op_run ac (SortPlan child orders b) = Inr (out, e) \<longleftrightarrow> e = None \<and>
   (\<exists>rows keyed sorted. op_run ac child = Inr (rows, None) \<and> map_res (row_keys_of orders b) rows = Inr keyed \<and>
      sort_rows orders [] keyed = Inr sorted \<and> out = map fst sorted)"
proof (cases "op_run ac child")
  case (Inr f)
  obtain rs x where f: "f = (rs, x)" by (cases f)
  obtain ks y where k: "through (total_row (row_keys_of orders b)) f = (ks, y)" by (cases "through (total_row (row_keys_of orders b)) f")
  have x: "y = None \<Longrightarrow> x = None" using k f feed_pull_None [of "total_row (row_keys_of orders b)" rs x] by (simp add: through_def)
  show ?thesis
  proof (cases y)
    case None
    then have "map_res (row_keys_of orders b) rs = Inr ks" using k f x total_feed by blast
    then show ?thesis using Inr f k None x by (auto simp: run_sort res_simps)
  next
    case (Some z)
    then have "x = None \<Longrightarrow> map_res (row_keys_of orders b) rs \<noteq> Inr ks'" for ks'
      using k f total_feed [of "row_keys_of orders b" rs ks'] by auto
    then show ?thesis using Inr f k Some by (auto simp: run_sort)
  qed
qed (simp add: run_sort)

text \<open>A filter on rows its predicate decides.\<close>

lemma filter_feed:
  "through (filter_row pred) (rows, None) = (out, None) \<longleftrightarrow> (\<forall>r \<in> set rows. decides r pred) \<and> out = filter (\<lambda>r. matches r pred) rows"
proof (induction rows arbitrary: out)
  case Nil
  then show ?case by auto
next
  case (Cons r rows)
  show ?case
  proof (cases "where_match pred r")
    case (Inl e)
    then show ?thesis by (simp add: through_def filter_row_def decides_def)
  next
    case (Inr b)
    then show ?thesis using Cons [of "tl out"] Cons [of out]
      by (cases b; cases out) (auto simp: through_def filter_row_def decides_def matches_def prod_eq_iff)
  qed
qed

lemma run_filter_iff:
  "op_run ac (FilterPlan child pred) = Inr (out, None) \<longleftrightarrow>
   (\<exists>rows. op_run ac child = Inr (rows, None) \<and> (\<forall>r \<in> set rows. decides r pred) \<and> out = filter (\<lambda>r. matches r pred) rows)"
  by (simp only: run_simps through_done filter_feed)

section \<open>Pruning\<close>

lemma classify_spec:
  "classify_pred pred = Inr AlwaysTrue \<Longrightarrow> matches r pred"
  "classify_pred pred = Inr AlwaysFalse \<Longrightarrow> \<not> matches r pred"
proof -
  have "(c = AlwaysTrue \<longrightarrow> matches r pred) \<and> (c = AlwaysFalse \<longrightarrow> \<not> matches r pred)" if c: "classify_pred pred = Inr c" for c
  proof (cases pred)
    case (BoundConst v)
    then show ?thesis using c
      by (cases v; cases "vbox v") (auto simp: classify_pred_def matches_def where_match_def const_value_def value_is_null_def split: if_splits)
  qed (use c in \<open>simp_all add: classify_pred_def\<close>)
  then show "classify_pred pred = Inr AlwaysTrue \<Longrightarrow> matches r pred" "classify_pred pred = Inr AlwaysFalse \<Longrightarrow> \<not> matches r pred"
    by blast+
qed

lemma prune_run:
  "prune_filter p = Inr q \<Longrightarrow> op_run ac p = Inr (rows, None) \<Longrightarrow> op_run ac q = Inr (rows, None)"
proof (induction p arbitrary: q rows)
  case (FetchPlan t child)
  from FetchPlan.prems(1) obtain child' where "prune_filter child = Inr child'" "q = FetchPlan t child'" by (auto simp: res_simps)
  then show ?case using FetchPlan by (auto simp: run_simps through_done)
next
  case (FilterPlan child pred)
  then obtain child' c where c: "prune_filter child = Inr child'" "classify_pred pred = Inr c"
    "(case c of PredNone \<Rightarrow> Inr (FilterPlan child' pred) | AlwaysTrue \<Rightarrow> Inr child'
       | AlwaysFalse \<Rightarrow> rbind (scan_table child') (\<lambda>t. Inr (EmptyPlan t))) = Inr q"
    by (auto simp: res_simps)
  from FilterPlan.prems(2) obtain rows' where r: "op_run ac child = Inr (rows', None)"
    "\<forall>r \<in> set rows'. decides r pred" "rows = filter (\<lambda>r. matches r pred) rows'" unfolding run_filter_iff by blast
  note ih = FilterPlan.IH [OF c(1) r(1)]
  show ?case using c r ih classify_spec [of pred]
    by (cases c) (auto simp: filter_feed run_simps res_simps)
next
  case (ProjectPlan child projs)
  from ProjectPlan.prems(1) obtain child' where "prune_filter child = Inr child'" "q = ProjectPlan child' projs" by (auto simp: res_simps)
  then show ?case using ProjectPlan by (auto simp: run_simps through_done)
next
  case (SortPlan child orders b)
  then obtain child' where c: "prune_filter child = Inr child'" "q = SortPlan child' orders b" by (auto simp: res_simps)
  then show ?case using SortPlan by (auto simp: run_sort_iff)
qed (auto simp: op_run_def res_simps)

section \<open>Sorting\<close>

text \<open>The keys of one sort item come from one comparison domain.\<close>

definition keys_typed :: "cmp_domain list \<Rightarrow> dbvalue list \<Rightarrow> bool" where
  "keys_typed doms keys \<longleftrightarrow> list_all2 (\<lambda>d v. d \<in> {DExact, DFloat, DText, DBool} \<and> value_domain v \<in> {DNull, d}) doms keys"

text \<open>The comparison of two key sequences as a number.\<close>

fun keys_cmp :: "bound_order_item list \<Rightarrow> dbvalue list \<Rightarrow> dbvalue list \<Rightarrow> int" where
  "keys_cmp (x # orders) (a # as) (b # bs) =
     (let c = (case value_cmp a b of Inr c \<Rightarrow> if bo_desc x then - c else c | Inl _ \<Rightarrow> 0)
      in if c \<noteq> 0 then c else keys_cmp orders as bs)"
| "keys_cmp _ _ _ = 0"

lemma keys_typed_Cons:
  "keys_typed (d # doms) ks \<longleftrightarrow>
   (\<exists>k ks'. ks = k # ks' \<and> d \<in> {DExact, DFloat, DText, DBool} \<and> value_domain k \<in> {DNull, d} \<and> keys_typed doms ks')"
  by (cases ks) (auto simp: keys_typed_def)

lemma keys_less_cmp:
  "keys_typed doms as \<Longrightarrow> keys_typed doms bs \<Longrightarrow> length orders = length doms \<Longrightarrow>
   keys_less as bs orders = Inr (keys_cmp orders as bs < 0)"
proof (induction doms arbitrary: as bs orders)
  case (Cons d doms)
  then obtain a as' b bs' x os where s: "as = a # as'" "bs = b # bs'" "orders = x # os" "length os = length doms"
    and t: "d \<in> {DExact, DFloat, DText, DBool}" "value_domain a \<in> {DNull, d}" "value_domain b \<in> {DNull, d}"
      "keys_typed doms as'" "keys_typed doms bs'"
    by (cases orders) (auto simp: keys_typed_Cons)
  obtain c where "value_cmp a b = Inr c" using value_cmp_preorder [OF t(1), of a b b] t(2,3) by auto
  then show ?case using s Cons.IH [OF t(4,5) s(4)] by (simp add: Let_def)
qed simp

lemma keys_cmp_order:
  "keys_typed doms as \<Longrightarrow> keys_typed doms bs \<Longrightarrow> keys_typed doms cs \<Longrightarrow>
   keys_cmp orders bs as = - keys_cmp orders as bs \<and>
   (keys_cmp orders as bs \<le> 0 \<and> keys_cmp orders bs cs \<le> 0 \<longrightarrow> keys_cmp orders as cs \<le> 0 \<and>
     (keys_cmp orders as bs < 0 \<or> keys_cmp orders bs cs < 0 \<longrightarrow> keys_cmp orders as cs < 0))"
proof (induction doms arbitrary: as bs cs orders)
  case Nil
  then show ?case by (simp add: keys_typed_def)
next
  case (Cons d doms)
  then obtain a as' b bs' c cs' where s: "as = a # as'" "bs = b # bs'" "cs = c # cs'"
    and d: "d \<in> {DExact, DFloat, DText, DBool}"
    and t: "value_domain a \<in> {DNull, d}" "value_domain b \<in> {DNull, d}" "value_domain c \<in> {DNull, d}"
      "keys_typed doms as'" "keys_typed doms bs'" "keys_typed doms cs'"
    by (auto simp: keys_typed_Cons)
  show ?case
  proof (cases orders)
    case (Cons x os)
    let ?D = "\<lambda>u. value_domain u \<in> {DNull, d}"
    have P: "\<exists>p q r. value_cmp u v = Inr p \<and> value_cmp v u = Inr (- p) \<and> value_cmp v w = Inr q \<and> value_cmp u w = Inr r
        \<and> (p \<le> 0 \<and> q \<le> 0 \<longrightarrow> r \<le> 0)" if "?D u" "?D v" "?D w" for u v w
      by (rule value_cmp_preorder [OF d]) (use that in simp)
    obtain p q r where v: "value_cmp a b = Inr p" "value_cmp b a = Inr (- p)" "value_cmp b c = Inr q" "value_cmp a c = Inr r"
      and t1: "p \<le> 0 \<and> q \<le> 0 \<longrightarrow> r \<le> 0" using P [OF t(1,2,3)] by auto
    have w: "value_cmp c a = Inr (- r)" "value_cmp c b = Inr (- q)" using P [OF t(1,3,2)] P [OF t(2,3,1)] v by auto
    note ih = Cons.IH [OF t(4,5,6), of os]
    have m: "0 \<le> q \<and> 0 \<le> p \<longrightarrow> 0 \<le> r" using P [OF t(3,2,1)] v w by auto
    have m3: "0 \<le> r \<and> p \<le> 0 \<longrightarrow> 0 \<le> q" using P [OF t(3,1,2)] v w by auto
    have m4: "q \<le> 0 \<and> 0 \<le> r \<longrightarrow> 0 \<le> p" using P [OF t(2,3,1)] v w by auto
    have m5: "0 \<le> p \<and> r \<le> 0 \<longrightarrow> q \<le> 0" using P [OF t(2,1,3)] v w by auto
    have m6: "r \<le> 0 \<and> 0 \<le> q \<longrightarrow> p \<le> 0" using P [OF t(1,3,2)] v w by auto
    have lt: "(p \<le> 0 \<and> q \<le> 0 \<and> (p < 0 \<or> q < 0) \<longrightarrow> r < 0) \<and> (0 \<le> p \<and> 0 \<le> q \<and> (0 < p \<or> 0 < q) \<longrightarrow> 0 < r)"
      using t1 m m3 m4 m5 m6 by linarith
    define p' q' r' where e: "p' = (if bo_desc x then - p else p)" "q' = (if bo_desc x then - q else q)" "r' = (if bo_desc x then - r else r)"
    have n: "keys_cmp orders as bs = (if p' \<noteq> 0 then p' else keys_cmp os as' bs')"
      "keys_cmp orders bs as = (if p' \<noteq> 0 then - p' else keys_cmp os bs' as')"
      "keys_cmp orders bs cs = (if q' \<noteq> 0 then q' else keys_cmp os bs' cs')"
      "keys_cmp orders as cs = (if r' \<noteq> 0 then r' else keys_cmp os as' cs')"
      using Cons s v by (simp_all add: Let_def e)
    have "p' \<le> 0 \<and> q' \<le> 0 \<longrightarrow> r' \<le> 0" "p' \<le> 0 \<and> q' \<le> 0 \<and> (p' < 0 \<or> q' < 0) \<longrightarrow> r' < 0"
      using t1 m lt unfolding e by auto
    then show ?thesis unfolding n using ih by (cases "p' = 0"; cases "q' = 0"; cases "r' = 0") auto
  qed simp
qed

text \<open>
  The reference order of two rows under \<^verbatim>\<open>ORDER BY\<close>: the first item on which the keys differ decides,
  its own direction applied.
\<close>

fun rows_in_order :: "bound_order_item list \<Rightarrow> dbvalue list \<Rightarrow> dbvalue list \<Rightarrow> bool" where
  "rows_in_order (x # orders) (a # as) (b # bs) \<longleftrightarrow>
     (if bo_desc x then value_before b a else value_before a b) \<or>
     \<not> value_before a b \<and> \<not> value_before b a \<and> rows_in_order orders as bs"
| "rows_in_order _ _ _ \<longleftrightarrow> True"

lemma keys_cmp_in_order:
  "keys_typed doms as \<Longrightarrow> keys_typed doms bs \<Longrightarrow> keys_cmp orders as bs \<le> 0 \<Longrightarrow> rows_in_order orders as bs"
proof (induction doms arbitrary: as bs orders)
  case Nil
  then show ?case by (simp add: keys_typed_def)
next
  case (Cons d doms)
  then obtain a as' b bs' where s: "as = a # as'" "bs = b # bs'"
    and t: "d \<in> {DExact, DFloat, DText, DBool}" "value_domain a \<in> {DNull, d}" "value_domain b \<in> {DNull, d}"
      "keys_typed doms as'" "keys_typed doms bs'"
    by (auto simp: keys_typed_Cons)
  show ?case
  proof (cases orders)
    case (Cons x os)
    then show ?thesis using s value_cmp_before [OF t(1,2,3)] Cons.IH [OF t(4,5), of os] Cons.prems(3)
      by (auto simp: Let_def split: if_splits)
  qed simp
qed

lemma sort_insert_spec:
  assumes "\<And>y. y \<in> set (x # ys) \<Longrightarrow> keys_typed doms (snd y)" "length orders = length doms"
    "sorted_wrt (\<lambda>x y. keys_cmp orders (snd x) (snd y) \<le> 0) ys"
  shows "\<exists>zs. sort_insert orders x ys = Inr zs \<and> mset zs = add_mset x (mset ys) \<and>
    sorted_wrt (\<lambda>x y. keys_cmp orders (snd x) (snd y) \<le> 0) zs"
  using assms
proof (induction ys)
  case (Cons y ys)
  let ?le = "\<lambda>x y :: row_keys. keys_cmp orders (snd x) (snd y) \<le> 0"
  have t: "keys_typed doms (snd x)" "keys_typed doms (snd y)" using Cons.prems(1) by auto
  have l: "key_less x y orders = Inr (keys_cmp orders (snd x) (snd y) < 0)"
    using keys_less_cmp [OF t assms(2)] by (simp add: key_less_def)
  have tr: "?le a b \<Longrightarrow> ?le b c \<Longrightarrow> ?le a c" if "{a, b, c} \<subseteq> set (x # y # ys)" for a b c
    using keys_cmp_order [of doms "snd a" "snd b" "snd c" orders] Cons.prems(1) that by auto
  show ?case
  proof (cases "keys_cmp orders (snd x) (snd y) < 0")
    case True
    then have "\<forall>z \<in> set ys. ?le x z" using tr [of x y] Cons.prems(3) by auto
    then show ?thesis using True l Cons.prems(3) by (intro exI [of _ "x # y # ys"]) simp
  next
    case False
    then have yx: "?le y x" using keys_cmp_order [OF t(1,2,1), of orders] by auto
    obtain zs where z: "sort_insert orders x ys = Inr zs" "mset zs = add_mset x (mset ys)" "sorted_wrt ?le zs"
      using Cons.IH Cons.prems by auto
    have "set zs = insert x (set ys)" using z(2) by (metis set_mset_add_mset_insert set_mset_mset)
    then show ?thesis using False l z yx Cons.prems(3) by (intro exI [of _ "y # zs"]) auto
  qed
qed simp

lemma sort_rows_spec:
  assumes "\<And>y. y \<in> set (xs @ ys) \<Longrightarrow> keys_typed doms (snd y)" "length orders = length doms"
    "sorted_wrt (\<lambda>x y. keys_cmp orders (snd x) (snd y) \<le> 0) xs"
  shows "\<exists>zs. sort_rows orders xs ys = Inr zs \<and> mset zs = mset xs + mset ys \<and>
    sorted_wrt (\<lambda>x y. keys_cmp orders (snd x) (snd y) \<le> 0) zs"
  using assms
proof (induction ys arbitrary: xs)
  case (Cons y ys)
  obtain zs where z: "sort_insert orders y xs = Inr zs" "mset zs = add_mset y (mset xs)"
    "sorted_wrt (\<lambda>x y. keys_cmp orders (snd x) (snd y) \<le> 0) zs"
    using sort_insert_spec [of y xs doms orders] Cons.prems by auto
  have "set zs = insert y (set xs)" using z(2) by (metis set_mset_add_mset_insert set_mset_mset)
  then show ?case using Cons.IH [of zs] Cons.prems z by auto
qed simp

section \<open>Index scans\<close>

text \<open>
  What an index promises about its table: range scans deliver the entries within the bounds, each
  entry leads to a live row with that key or to no row at all (an entry an update or a deletion
  left behind), and every live row is reached exactly once.
\<close>

definition index_mirrors :: "access \<Rightarrow> table_meta \<Rightarrow> index_entry \<Rightarrow> row list \<Rightarrow> bool" where
  "index_mirrors ac meta ent rows \<longleftrightarrow> (\<exists>es f.
     (\<forall>lo hi. ac_index ac (ie_file_id ent) lo hi = Inr (filter (\<lambda>e. above_lo lo (be_key e) \<and> below_hi hi (be_key e)) es, None)) \<and>
     (\<forall>e \<in> set es. fetch_row ac (tm_cols meta) (entry_row (tm_file_id meta) e) = Inr (f e) \<and>
        (\<forall>r. f e = Some r \<longrightarrow>
           row_key (tm_cols meta ! unat (ie_col_ordinal ent)) (ie_col_ordinal ent) r = Inr (be_key e))) \<and>
     mset (List.map_filter f es) = mset rows)"

lemma feed_concat_done: "feed_concat (map (\<lambda>x. (g x, None)) xs) = (concat (map g xs), None)"
  by (induction xs) auto

lemma ranges_split:
  "ascending rs \<Longrightarrow> mset (concat (map (\<lambda>r. filter (\<lambda>e. in_range r (be_key e)) es) rs)) = mset (filter (\<lambda>e. in_ranges rs (be_key e)) es)"
proof (induction rs)
  case (Cons r rs)
  have dis: "\<not> (in_range r k \<and> in_ranges rs k)" for k
    using Cons.prems by (auto simp: ascending_def range_before_def in_ranges_def)
  have "mset (filter (\<lambda>e. in_ranges (r # rs) (be_key e)) es) =
      mset (filter (\<lambda>e. in_range r (be_key e)) es) + mset (filter (\<lambda>e. in_ranges rs (be_key e)) es)"
    by (induction es) (use dis in auto)
  then show ?case using Cons by (simp add: ascending_def)
qed simp

lemma fetch_feed:
  assumes "\<And>e. e \<in> set es \<Longrightarrow> g e = Inr (f e)"
  shows "through g (es, None) = (List.map_filter f es, None)"
  using assms by (induction es) (auto simp: through_def map_filter_simps split: option.splits)

lemma through_map: "through g (map h xs, e) = through (\<lambda>x. g (h x)) (xs, e)"
proof -
  have "feed_pull g (map h xs) e = feed_pull (\<lambda>x. g (h x)) xs e"
    by (induction xs) (auto split: sum.splits option.splits)
  then show ?thesis by (simp add: through_def)
qed

lemma mset_map_filter: "mset (List.map_filter f xs) = image_mset (the \<circ> f) (filter_mset (\<lambda>x. f x \<noteq> None) (mset xs))"
  by (simp add: map_filter_def)

lemma map_filter_filter:
  assumes "\<And>e r. e \<in> set es \<Longrightarrow> f e = Some r \<Longrightarrow> P e = Q r"
  shows "List.map_filter f (filter P es) = filter Q (List.map_filter f es)"
  using assms by (induction es) (auto simp: map_filter_simps split: option.splits)

lemma run_index_fetch:
  assumes "index_mirrors ac (th_meta t) ent rows" "ascending ranges"
    and "\<And>r. r \<in> set rows \<Longrightarrow> \<exists>k. row_key (tm_cols (th_meta t) ! unat (ie_col_ordinal ent)) (ie_col_ordinal ent) r = Inr k \<and>
      (Q r \<longleftrightarrow> in_ranges ranges k)"
  shows "\<exists>out. op_run ac (FetchPlan t (IndexScanPlan t i (ie_file_id ent) ranges conds)) = Inr (out, None) \<and>
    mset out = mset (filter Q rows)"
proof -
  let ?key = "row_key (tm_cols (th_meta t) ! unat (ie_col_ordinal ent)) (ie_col_ordinal ent)"
  let ?row = "entry_row (tm_file_id (th_meta t))" and ?fetch = "fetch_row ac (tm_cols (th_meta t))"
  from assms(1) obtain es f where
    scan: "\<And>lo hi. ac_index ac (ie_file_id ent) lo hi = Inr (filter (\<lambda>e. above_lo lo (be_key e) \<and> below_hi hi (be_key e)) es, None)"
    and read: "\<And>e. e \<in> set es \<Longrightarrow> ?fetch (?row e) = Inr (f e)"
    and keys: "\<And>e r. e \<in> set es \<Longrightarrow> f e = Some r \<Longrightarrow> ?key r = Inr (be_key e)"
    and all: "mset (List.map_filter f es) = mset rows"
    unfolding index_mirrors_def by blast
  define got where "got = concat (map (\<lambda>r. filter (\<lambda>e. in_range r (be_key e)) es) ranges)"
  have "map_res (\<lambda>r. ac_index ac (ie_file_id ent) (ir_lo r) (ir_hi r)) ranges =
      Inr (map (\<lambda>r. (filter (\<lambda>e. in_range r (be_key e)) es, None)) ranges)"
    by (rule map_res_all_Inr) (simp add: scan in_range_def)
  then have "op_run ac (FetchPlan t (IndexScanPlan t i (ie_file_id ent) ranges conds)) =
      Inr (through (\<lambda>e. ?fetch (?row e)) (got, None))"
    by (simp add: run_simps feed_concat_done got_def through_map)
  also have "through (\<lambda>e. ?fetch (?row e)) (got, None) = (List.map_filter f got, None)"
    by (rule fetch_feed) (auto simp: got_def read)
  finally have run: "op_run ac (FetchPlan t (IndexScanPlan t i (ie_file_id ent) ranges conds)) = Inr (List.map_filter f got, None)" .
  have "mset got = mset (filter (\<lambda>e. in_ranges ranges (be_key e)) es)" unfolding got_def by (rule ranges_split [OF assms(2)])
  then have "mset (List.map_filter f got) = mset (List.map_filter f (filter (\<lambda>e. in_ranges ranges (be_key e)) es))"
    by (simp only: mset_map_filter)
  also have "List.map_filter f (filter (\<lambda>e. in_ranges ranges (be_key e)) es) = filter Q (List.map_filter f es)"
  proof (rule map_filter_filter)
    fix e r assume e: "e \<in> set es" "f e = Some r"
    then have "r \<in> set (List.map_filter f es)" by (force simp: map_filter_def)
    then have "r \<in> set rows" using all by (metis set_mset_mset)
    from assms(3) [OF this] keys [OF e] show "in_ranges ranges (be_key e) = Q r" by auto
  qed
  also have "mset (filter Q (List.map_filter f es)) = mset (filter Q rows)" using all by (metis mset_filter)
  finally show ?thesis using run by blast
qed

lemma index_path_run:
  assumes "index_hits (th_meta t) (flatten_and pred) d ent = Inr hits" "attr_rep d = RepDouble"
    "index_mirrors ac (th_meta t) ent rows" "\<And>r. r \<in> set rows \<Longrightarrow> decides r pred"
    "\<And>r. r \<in> set rows \<Longrightarrow> stored_row (tm_cols (th_meta t)) r"
    "rows \<noteq> [] \<Longrightarrow> wt (map col_type (tm_cols (th_meta t))) pred kBool"
  shows "\<exists>out. op_run ac (index_path t ent (flatten_and pred) hits) = Inr (out, None) \<and> mset out = mset (filter (\<lambda>r. matches r pred) rows)"
proof -
  let ?key = "row_key (tm_cols (th_meta t) ! unat (ie_col_ordinal ent)) (ie_col_ordinal ent)"
  let ?rs = "intersect_ranges hits" and ?res = "residual_of (flatten_and pred) hits"
  have asc: "ascending ?rs"
    by (rule intersect_ascending) (use index_hits_spec(2) [OF assms(1)] match_hit_ascending in blast)
  have key: "\<exists>k. ?key r = Inr k" if r: "r \<in> set rows" for r
  proof -
    from assms(3) obtain es f where k: "\<forall>e \<in> set es. \<forall>r. f e = Some r \<longrightarrow> ?key r = Inr (be_key e)"
      and m: "mset (List.map_filter f es) = mset rows" unfolding index_mirrors_def by blast
    from r m have "r \<in> set (List.map_filter f es)" by (metis set_mset_mset)
    then show ?thesis using k by (auto simp: map_filter_def)
  qed
  have ex: "matches r pred \<longleftrightarrow> in_ranges ?rs k \<and> (\<forall>c \<in> set ?res. matches r c)" "\<forall>c \<in> set ?res. decides r c"
    if r: "r \<in> set rows" "?key r = Inr k" for r k
  proof -
    have "rows \<noteq> []" using r(1) by auto
    note h = hits_exact [OF assms(1,2) assms(6) [OF this] assms(5) [OF r(1)] assms(4) [OF r(1)] r(2)]
    show "matches r pred \<longleftrightarrow> in_ranges ?rs k \<and> (\<forall>c \<in> set ?res. matches r c)" "\<forall>c \<in> set ?res. decides r c" by (rule h)+
  qed
  define Q where "Q r = (\<exists>k. ?key r = Inr k \<and> in_ranges ?rs k)" for r
  have "\<exists>k. ?key r = Inr k \<and> (Q r \<longleftrightarrow> in_ranges ?rs k)" if "r \<in> set rows" for r
    using key [OF that] by (auto simp: Q_def)
  from run_index_fetch [OF assms(3) asc this, of "ie_name ent" "map h_cond hits"] obtain out where
    out: "op_run ac (FetchPlan t (IndexScanPlan t (ie_name ent) (ie_file_id ent) ?rs (map h_cond hits))) = Inr (out, None)"
      "mset out = mset (filter Q rows)" by blast
  have one: "matches r pred \<longleftrightarrow> Q r \<and> (\<forall>c \<in> set ?res. matches r c)" "\<forall>c \<in> set ?res. decides r c" if r: "r \<in> set rows" for r
  proof -
    from key [OF r] obtain k where k: "?key r = Inr k" by blast
    then show "matches r pred \<longleftrightarrow> Q r \<and> (\<forall>c \<in> set ?res. matches r c)" "\<forall>c \<in> set ?res. decides r c"
      using ex [OF r k] by (auto simp: Q_def)
  qed
  have eq: "filter (\<lambda>r. matches r pred) rows = filter (\<lambda>r. \<forall>c \<in> set ?res. matches r c) (filter Q rows)"
    unfolding filter_filter by (rule filter_cong [OF refl]) (simp add: one(1))
  have so: "set out = set (filter Q rows)" using out(2) by (metis set_mset_mset)
  show ?thesis
  proof (cases "?rs = []")
    case True
    then have "filter Q rows = []" by (simp add: Q_def)
    then show ?thesis using True eq by (simp add: index_path_def run_simps)
  next
    case False
    show ?thesis
    proof (cases "?res = []")
      case True
      then show ?thesis using False out eq by (simp add: index_path_def Let_def)
    next
      case res: False
      have "mset (filter (\<lambda>r. matches r (join_and ?res)) out) = mset (filter (\<lambda>r. matches r pred) rows)"
        unfolding eq mset_filter out(2) join_matches [OF res] ..
      moreover have "\<forall>r \<in> set out. decides r (join_and ?res)"
        unfolding join_decides [OF res] so using one(2) by auto
      ultimately show ?thesis using False res out(1)
        by (auto simp: index_path_def Let_def run_filter_iff)
    qed
  qed
qed

text \<open>
  The setting of a statement: the table has these rows, as it stores them, and each of its indexes
  mirrors them.
\<close>

definition table_view :: "access \<Rightarrow> planner_catalog \<Rightarrow> table_meta \<Rightarrow> row list \<Rightarrow> bool" where
  "table_view ac db meta rows \<longleftrightarrow>
     ac_scan ac meta = Inr (rows, None) \<and> (\<forall>r \<in> set rows. stored_row (tm_cols meta) r) \<and>
     (\<forall>d. pcat_double db = Inr d \<longrightarrow> attr_rep d = RepDouble) \<and>
     (\<forall>idxs. pcat_indexes db meta = Inr idxs \<longrightarrow> (\<forall>ent \<in> set idxs. index_mirrors ac meta ent rows))"

lemma select_index_run:
  assumes "select_index db (FilterPlan (SeqScanPlan t) pred) = Inr q" "table_view ac db (th_meta t) rows"
    "\<forall>r \<in> set rows. decides r pred" "rows \<noteq> [] \<Longrightarrow> wt (map col_type (tm_cols (th_meta t))) pred kBool"
  shows "\<exists>out. op_run ac q = Inr (out, None) \<and> mset out = mset (filter (\<lambda>r. matches r pred) rows)"
proof -
  have "op_run ac (FilterPlan (SeqScanPlan t) pred) = Inr (filter (\<lambda>r. matches r pred) rows, None)"
    using assms(2,3) by (simp add: run_filter_iff run_simps(1) table_view_def)
  moreover from assms(1) have "rewrite_scan db (SeqScanPlan t) pred = Inr q" by simp
  moreover note rewrite_scan_cases [of db t pred q]
  ultimately consider "op_run ac q = Inr (filter (\<lambda>r. matches r pred) rows, None)"
    | d ent hits where "index_hits (th_meta t) (flatten_and pred) d ent = Inr hits" "attr_rep d = RepDouble"
        "index_mirrors ac (th_meta t) ent rows" "q = index_path t ent (flatten_and pred) hits"
    using assms(2) unfolding table_view_def by blast
  then show ?thesis
  proof cases
    case 2
    then show ?thesis using index_path_run [OF 2(1-3)] assms(2-4) by (simp add: table_view_def)
  qed auto
qed

lemma fold_where_wt:
  assumes "wt cols e kBool" "row_ok cols (Some r)" "fold_simple e" "where_match e r = Inr b" "fold_expr e True = Inr e'"
  shows "wt cols e' kBool" "where_match e' r = Inr b"
proof -
  from assms(4) obtain v where v: "eval_bound e (Some r) = Inr v" by (auto simp: where_match_def res_simps)
  have m: "where_match e r = Inr (truth v)" if "wt cols e kBool" "eval_bound e (Some r) = Inr v" for e v
    using bool_ok_truth [of v] eval_safe [OF that(1) assms(2)] that(2)
    by (auto simp: where_match_def split: option.splits)
  from fold_sound [OF assms(1,2) _ v, of True] assms(3,5) show "wt cols e' kBool" "where_match e' r = Inr b"
    using m assms(4) v assms(1) by (auto simp: folds_to_def sim_def)
qed

lemma stored_row_ok: "stored_row cols r \<Longrightarrow> row_ok (map col_type cols) (Some r)"
  by (auto simp: stored_row_def row_ok_def sound_value_def list_all2_conv_all_nth)

lemma optimize_scan_run:
  assumes "optimize db (FilterPlan (SeqScanPlan t) pred) = Inr q" "table_view ac db (th_meta t) rows"
    "\<forall>r \<in> set rows. decides r pred" "wt (map col_type (tm_cols (th_meta t))) pred kBool" "fold_simple pred"
  shows "\<exists>out. op_run ac q = Inr (out, None) \<and> mset out = mset (filter (\<lambda>r. matches r pred) rows)"
proof -
  let ?cols = "map col_type (tm_cols (th_meta t))" and ?scan = "SeqScanPlan t"
  from assms(1) obtain pred' p where f: "fold_expr pred True = Inr pred'"
    and p: "prune_filter (FilterPlan ?scan pred') = Inr p" and q: "select_index db p = Inr q"
    by (auto simp: optimize_def res_simps)
  have w: "wt ?cols pred' kBool" "decides r pred'" "matches r pred' \<longleftrightarrow> matches r pred" if r: "r \<in> set rows" for r
  proof -
    obtain b where b: "where_match pred r = Inr b" using assms(3) r unfolding decides_def by blast
    have "row_ok ?cols (Some r)" using assms(2) r stored_row_ok by (auto simp: table_view_def)
    from fold_where_wt [OF assms(4) this assms(5) b f] b
    show "wt ?cols pred' kBool" "decides r pred'" "matches r pred' \<longleftrightarrow> matches r pred" by (auto simp: decides_def matches_def)
  qed
  have same: "filter (\<lambda>r. matches r pred') rows = filter (\<lambda>r. matches r pred) rows" using w(3) by (auto intro: filter_cong)
  have run: "op_run ac (FilterPlan ?scan pred') = Inr (filter (\<lambda>r. matches r pred) rows, None)"
    using assms(2) w(2) same by (simp add: run_filter_iff run_simps(1) table_view_def)
  from p consider "p = FilterPlan ?scan pred'" | "p = ?scan" | "p = EmptyPlan (th_display t)"
  proof -
    from p obtain c where c: "classify_pred pred' = Inr c" by (auto simp: res_simps)
    show thesis using p c that by (cases c) (simp_all add: scan_table_def)
  qed
  then show ?thesis
  proof cases
    case 1
    have "rows \<noteq> [] \<Longrightarrow> wt ?cols pred' kBool" using w(1) [of "hd rows"] by simp
    moreover have "\<forall>r \<in> set rows. decides r pred'" using w(2) by blast
    ultimately show ?thesis using select_index_run [of db t pred' q ac rows] 1 q assms(2) same by simp
  qed (use prune_run [OF p run] q in auto)
qed

definition demo_stored :: "row list" where
  "demo_stored = [demo_at 0 (int_val kInt 5), demo_at 1 (int_val kInt 7), demo_at 2 null_val]"

text \<open>The entry of slot 3 is one that a deletion left behind.\<close>

definition demo_entries :: "btree_entry list" where
  "demo_entries = [BTreeEntry (IndexKey 0x8000000000000005 False) 1 0, BTreeEntry (IndexKey 0x8000000000000006 False) 1 3,
     BTreeEntry (IndexKey 0x8000000000000007 False) 1 1, BTreeEntry (IndexKey 0 True) 1 2]"

definition demo_access :: access where
  "demo_access = \<lparr>ac_scan = (\<lambda>_. Inr (demo_stored, None)),
     ac_index = (\<lambda>_ lo hi. Inr (filter (\<lambda>e. above_lo lo (be_key e) \<and> below_hi hi (be_key e)) demo_entries, None)),
     ac_read = (\<lambda>ref _. Inr (find (\<lambda>r. row_loc r = ref) demo_stored))\<rparr>"

definition demo_pcat :: planner_catalog where
  "demo_pcat = \<lparr>pcat_indexes = (\<lambda>_. Inr [demo_index]), pcat_double = Inr kDouble\<rparr>"

lemma demo_optimized: "\<exists>q. optimize demo_pcat (FilterPlan (SeqScanPlan demo_table) demo_range) = Inr q"
proof -
  have "case optimize demo_pcat (FilterPlan (SeqScanPlan demo_table) demo_range) of Inr _ \<Rightarrow> True | Inl _ \<Rightarrow> False"
    by code_simp
  then show ?thesis by (auto split: sum.splits)
qed

definition demo_orders :: "bound_order_item list" where
  "demo_orders = [\<lparr>bo_desc = True, bo_out_idx = 0, bo_expr = Some (BoundColRef 0 kInt)\<rparr>]"

lemma keyed_rows: "map_res (row_keys_of orders b) rows = Inr keyed \<Longrightarrow> map fst keyed = rows"
  by (induction rows arbitrary: keyed) (auto simp: res_simps row_keys_of_def)

section \<open>Properties\<close>

text \<open>
  C19. The pull loop of every operator delivers a stream: whatever the plan and the state of its
  operators, \<^verbatim>\<open>next\<close> returns the next row of the stream the state stands for, reports the end where
  the stream ends and fails where the stream fails. The loops of the filter and the fetch always end.
\<close>

theorem operator_stream:
  "delivers (op_next ac p st) (op_view ac p) (op_view ac p st)"
  by (rule operators.next_view)

text \<open>
  Pruning constant filters changes no result: a plan that runs to its end delivers the same rows
  in the same order after pruning.
\<close>

theorem prune_keeps_stream:
  assumes "prune_filter p = Inr q" "op_run ac p = Inr (rows, None)"
  shows "op_run ac q = Inr (rows, None)"
  by (rule prune_run [OF assms])

theorem prune_keeps_stream_witness:
  "op_run demo_access (EmptyPlan ''public.t'') = Inr ([], None)"
proof (rule prune_keeps_stream)
  show "prune_filter (FilterPlan (SeqScanPlan demo_table) (BoundConst null_val)) = Inr (EmptyPlan ''public.t'')" by code_simp
  show "op_run demo_access (FilterPlan (SeqScanPlan demo_table) (BoundConst null_val)) = Inr ([], None)" by code_simp
qed

text \<open>
  C18. Sorting sorts. When the rows of the child end, their keys can be computed and each sort item has
  keys of one comparison domain (NULL included), the sort never fails, delivers a rearrangement of
  the rows, and any row delivered before another one is in order with it: on the first item where
  their keys differ it has the smaller key, or the greater one when the item is descending (by the
  reference order of values, NULL the greatest).
\<close>

theorem sort_correct:
  assumes "op_run ac child = Inr (rows, None)" "map_res (row_keys_of orders b) rows = Inr keyed"
    "\<forall>x \<in> set keyed. keys_typed doms (snd x)" "length doms = length orders"
  shows "\<exists>sorted. op_run ac (SortPlan child orders b) = Inr (map fst sorted, None) \<and> mset sorted = mset keyed \<and>
    map fst keyed = rows \<and> sorted_wrt (\<lambda>x y. rows_in_order orders (snd x) (snd y)) sorted"
proof -
  obtain zs where z: "sort_rows orders [] keyed = Inr zs" "mset zs = mset keyed"
    "sorted_wrt (\<lambda>x y. keys_cmp orders (snd x) (snd y) \<le> 0) zs"
    using sort_rows_spec [of "[]" keyed doms orders] assms(3,4) by auto
  have s: "set zs = set keyed" using z(2) by (metis set_mset_mset)
  have "sorted_wrt (\<lambda>x y. rows_in_order orders (snd x) (snd y)) zs"
    by (rule sorted_wrt_mono_rel [OF _ z(3)], rule keys_cmp_in_order) (use assms(3) s in auto)
  moreover have "map fst keyed = rows" by (rule keyed_rows [OF assms(2)])
  ultimately show ?thesis using z assms by (auto simp: run_sort_iff)
qed

theorem sort_correct_witness:
  "\<exists>sorted. op_run demo_access (SortPlan (SeqScanPlan demo_table) demo_orders False) = Inr (map fst sorted, None) \<and>
     mset sorted = mset (map (\<lambda>r. (r, row_values r)) demo_stored) \<and> map fst (map (\<lambda>r. (r, row_values r)) demo_stored) = demo_stored \<and>
     sorted_wrt (\<lambda>x y. rows_in_order demo_orders (snd x) (snd y)) sorted"
proof (rule sort_correct)
  show "op_run demo_access (SeqScanPlan demo_table) = Inr (demo_stored, None)" by (simp add: run_simps demo_access_def)
  show "map_res (row_keys_of demo_orders False) demo_stored = Inr (map (\<lambda>r. (r, row_values r)) demo_stored)" by code_simp
  show "\<forall>x \<in> set (map (\<lambda>r. (r, row_values r)) demo_stored). keys_typed [DExact] (snd x)"
    by (simp add: demo_stored_def demo_at_def keys_typed_def value_domain_def value_factories seed_attr_defs)
  show "length [DExact] = length demo_orders" by (simp add: demo_orders_def)
qed

end
