(* ===== verification/Engine.thy ===== *)
theory Engine
  imports BTree
begin

text \<open>
  The storage engine of src/storage/engine.h and engine.cpp: transactions over the buffer pool and
  the log, heap files as chains of pages behind a file header page, row access by location, full
  scans, and the index files. The engine owns the pool (with files, log and the context of the active
  transaction) and remembers the last page of each heap file and the opened trees. Walks along
  chains of page numbers take fuel, \<^verbatim>\<open>None\<close> standing for not having finished. What is shown is in
  Durability.
\<close>

section \<open>State and transactions\<close>

record engine =
  en_store :: store
  en_tails :: "u64 \<Rightarrow> u32 option"
  en_trees :: "u64 \<Rightarrow> btree option"
  en_opened :: bool

definition engine_init :: "nat \<Rightarrow> files \<Rightarrow> bytes \<Rightarrow> engine" where
  "engine_init frames fs log = \<lparr>en_store = pool_init frames fs (wal_init log), en_tails = (\<lambda>_. None), en_trees = (\<lambda>_. None),
     en_opened = False\<rparr>"

definition eng_open :: "engine \<Rightarrow> engine res" where
  "eng_open e =
    rbind (recover (bp_files (en_store e)) (bp_wal (en_store e))) (\<lambda>(fs, w, _).
      Inr (e\<lparr>en_store := pool_invalidate_all ((en_store e)\<lparr>bp_files := fs, bp_wal := w\<rparr>),
             en_tails := (\<lambda>_. None), en_trees := (\<lambda>_. None), en_opened := True\<rparr>))"

definition checkpoint :: "engine \<Rightarrow> engine res" where
  "checkpoint e =
    (if bp_txn (en_store e) \<noteq> None then Inl (Raise Internal)
     else rbind (pool_flush_all (en_store e)) (\<lambda>s. Inr (e\<lparr>en_store := s\<lparr>bp_wal := wal_reset (bp_wal s)\<rparr>\<rparr>)))"

definition eng_close :: "engine \<Rightarrow> engine res" where
  "eng_close e = rbind (checkpoint e) (\<lambda>e. Inr (e\<lparr>en_opened := False\<rparr>))"

definition check_txn :: "u64 \<Rightarrow> store \<Rightarrow> txn_context res" where
  "check_txn fid s =
    (case bp_txn s of
       None \<Rightarrow> Inl (Raise Internal)
     | Some t \<Rightarrow> if fid \<in> set (tc_pending_drops t) then Inl (Raise Internal) else Inr t)"

definition new_txn :: "u64 \<Rightarrow> txn_context" where
  "new_txn txn_id = \<lparr>tc_txn_id = txn_id, tc_wrote = False, tc_undo = [], tc_tail_undo = [], tc_pending_drops = []\<rparr>"

definition begin_txn :: "engine \<Rightarrow> engine res" where
  "begin_txn e =
    (let s = en_store e
     in if bp_txn s \<noteq> None then Inl (Raise Internal)
        else let (txn_id, w) = wal_alloc_txn_id (bp_wal s)
             in Inr (e\<lparr>en_store := s\<lparr>bp_wal := w, bp_txn := Some (new_txn txn_id)\<rparr>\<rparr>))"

definition commit_txn :: "engine \<Rightarrow> engine res" where
  "commit_txn e =
    (let s = en_store e
     in case bp_txn s of
          None \<Rightarrow> Inl (Raise Internal)
        | Some t \<Rightarrow>
            let w = (if tc_wrote t then wal_append Commit (tc_txn_id t) [] (bp_wal s) else bp_wal s);
                fs = fold fm_remove_table_file (tc_pending_drops t) (bp_files s)
            in Inr (e\<lparr>en_store := s\<lparr>bp_wal := w, bp_files := fs, bp_txn := None\<rparr>\<rparr>))"

definition restore_entry :: "undo_entry \<Rightarrow> store \<Rightarrow> store" where
  "restore_entry u s = restore_region (PageId (ue_fid u) (ue_page_no u)) (unat (ue_off u)) (take (unat (ue_len u)) (ue_before u)) s"

definition restore_tail :: "tail_undo \<Rightarrow> (u64 \<Rightarrow> u32 option) \<Rightarrow> u64 \<Rightarrow> u32 option" where
  "restore_tail u tails = tails(tu_fid u := (if tu_had u then Some (tu_old_tail u) else None))"

definition rollback_txn :: "engine \<Rightarrow> engine res" where
  "rollback_txn e =
    (let s = en_store e
     in case bp_txn s of
          None \<Rightarrow> Inl (Raise Internal)
        | Some t \<Rightarrow>
            let s = fold restore_entry (rev (tc_undo t)) (s\<lparr>bp_txn := None\<rparr>);
                tails = fold restore_tail (rev (tc_tail_undo t)) (en_tails e);
                w = (if tc_wrote t then wal_append Abort (tc_txn_id t) [] (bp_wal s) else bp_wal s)
            in Inr (e\<lparr>en_store := s\<lparr>bp_wal := w\<rparr>, en_tails := tails\<rparr>))"

section \<open>Heap files\<close>

definition init_table_file :: "u64 \<Rightarrow> engine \<Rightarrow> engine res" where
  "init_table_file fid e =
    rbind (check_txn fid (en_store e)) (\<lambda>_.
      let s = (en_store e)\<lparr>bp_files := create_table_file fid (bp_files (en_store e))\<rparr>; pid0 = PageId fid 0
      in rbind (pool_allocate pid0 s) (\<lambda>(h, s).
         rbind (finish h (edit_page h (init_page MAGIC_FILE_HEADER FileHeader) s)) (\<lambda>s.
         rbind (pool_flush pid0 s) (\<lambda>s. Inr (e\<lparr>en_store := s\<rparr>)))))"

text \<open>Dropping a file: log it, write back and forget its pages; the file itself goes at commit.\<close>

definition log_drop :: "u64 \<Rightarrow> store \<Rightarrow> store res" where
  "log_drop fid s =
    rbind (check_txn 0 s) (\<lambda>t.
      let s = s\<lparr>bp_wal := wal_append DropFile (tc_txn_id t) (wal_put_u64 fid) (bp_wal s), bp_txn := Some (t\<lparr>tc_wrote := True\<rparr>)\<rparr>
      in rbind (pool_drop_table fid s) (\<lambda>s.
         Inr (s\<lparr>bp_txn := Some (t\<lparr>tc_wrote := True, tc_pending_drops := tc_pending_drops t @ [fid]\<rparr>)\<rparr>)))"

definition remove_table_file :: "u64 \<Rightarrow> engine \<Rightarrow> engine res" where
  "remove_table_file fid e =
    rbind (log_drop fid (en_store e)) (\<lambda>s. Inr (e\<lparr>en_store := s, en_tails := (en_tails e)(fid := None)\<rparr>))"

definition link_header_to_first_data_page :: "u64 \<Rightarrow> store \<Rightarrow> (u32 \<times> store) res" where
  "link_header_to_first_data_page fid s =
    rbind (pool_read (PageId fid 0) MAGIC_FILE_HEADER s) (\<lambda>(h, s).
    rbind (pool_allocate (PageId fid 1) s) (\<lambda>(np, s).
    rbind (finish np (edit_page np (init_page MAGIC_HEAP Heap) s)) (\<lambda>s.
    rbind (finish h (edit_page h (seal (set_next_page 1 (frame_data h s))) s)) (\<lambda>s.
    Inr (1, s)))))"

text \<open>From the last page down over pages of zeros.\<close>

fun skip_zero_pages :: "files \<Rightarrow> u64 \<Rightarrow> nat \<Rightarrow> nat" where
  "skip_zero_pages fs fid 0 = 0"
| "skip_zero_pages fs fid (Suc n) =
     (if page_all_zero (fst (read_page fid (word_of_nat (Suc n)) fs)) then skip_zero_pages fs fid n else Suc n)"

definition disk_tail_page :: "u64 \<Rightarrow> files \<Rightarrow> u32" where
  "disk_tail_page fid fs =
    (let pages = page_count fs fid
     in word_of_nat (skip_zero_pages fs fid (if pages = 0 then 0 else unat (pages - 1))))"

text \<open>The next row number from the header page.\<close>

definition take_rowid :: "u64 \<Rightarrow> store \<Rightarrow> (u64 \<times> store) res" where
  "take_rowid fid s =
    rbind (pool_read (PageId fid 0) MAGIC_FILE_HEADER s) (\<lambda>(h, s).
      let rid = file_next_rowid (frame_data h s) + 1
      in rbind (finish h (edit_page h (seal (set_file_next_rowid rid (frame_data h s))) s)) (\<lambda>s. Inr (rid, s)))"

text \<open>A full tail page gets a successor, which is linked behind it.\<close>

definition extend_chain :: "u64 \<Rightarrow> u32 \<Rightarrow> nat \<Rightarrow> store \<Rightarrow> (u32 \<times> store) res" where
  "extend_chain fid tail pg s =
    (let new_no = max (page_count (bp_files s) fid) (tail + 1)
     in rbind (pool_allocate (PageId fid new_no) s) (\<lambda>(np, s).
        rbind (finish np (edit_page np (init_page MAGIC_HEAP Heap) s)) (\<lambda>s.
        rbind (finish pg (edit_page pg (seal (set_next_page new_no (frame_data pg s))) s)) (\<lambda>s.
        Inr (new_no, s)))))"

fun append_loop :: "nat \<Rightarrow> u64 \<Rightarrow> bytes \<Rightarrow> u32 \<Rightarrow> store \<Rightarrow> (row_ref \<times> store) res option" where
  "append_loop 0 fid rec tail s = None"
| "append_loop (Suc fuel) fid rec tail s =
    (case pool_read (PageId fid tail) MAGIC_HEAP s of
       Inl err \<Rightarrow> Some (Inl err)
     | Inr (pg, s) \<Rightarrow>
         (case heap_append (frame_data pg s) rec of
            Some (p, slot) \<Rightarrow> Some (rbind (finish pg (edit_page pg p s)) (\<lambda>s. Inr (RowRef (PageId fid tail) slot, s)))
          | None \<Rightarrow>
              (case extend_chain fid tail pg s of
                 Inl err \<Rightarrow> Some (Inl err)
               | Inr (new_no, s) \<Rightarrow> append_loop fuel fid rec new_no s)))"

definition note_tail :: "u64 \<Rightarrow> u32 \<Rightarrow> engine \<Rightarrow> engine" where
  "note_tail fid tail e =
    (let s = en_store e; old = en_tails e fid;
         u = \<lparr>tu_fid = fid, tu_had = (old \<noteq> None), tu_old_tail = (case old of Some v \<Rightarrow> v | None \<Rightarrow> 0)\<rparr>
     in e\<lparr>en_store := s\<lparr>bp_txn := map_option (\<lambda>t. t\<lparr>tc_tail_undo := tc_tail_undo t @ [u]\<rparr>) (bp_txn s)\<rparr>,
          en_tails := (en_tails e)(fid \<mapsto> tail)\<rparr>)"

definition insert_row :: "nat \<Rightarrow> u64 \<Rightarrow> column_spec list \<Rightarrow> dbvalue list \<Rightarrow> engine \<Rightarrow> (u64 \<times> row_ref \<times> engine) res option" where
  "insert_row fuel fid cols values e =
    (let r = rbind (check_txn fid (en_store e)) (\<lambda>_.
       rbind (encode_row cols values) (\<lambda>enc. case enc of
         None \<Rightarrow> Inl (Raise ValueMismatch)
       | Some rec \<Rightarrow>
           if length rec > MAX_RECORD_LEN then Inl (Raise RecordTooLong)
           else rbind (take_rowid fid (en_store e)) (\<lambda>(rid, s).
             let tail = (case en_tails e fid of Some t \<Rightarrow> t | None \<Rightarrow> disk_tail_page fid (bp_files s))
             in rbind (if tail = 0 then link_header_to_first_data_page fid s else Inr (tail, s)) (\<lambda>(tail, s).
                Inr (rid, rec, tail, s)))))
     in case r of
          Inl err \<Rightarrow> Some (Inl err)
        | Inr (rid, rec, tail, s) \<Rightarrow>
            (case append_loop fuel fid rec tail s of
               None \<Rightarrow> None
             | Some (Inl err) \<Rightarrow> Some (Inl err)
             | Some (Inr (ref, s)) \<Rightarrow> Some (Inr (rid, ref, note_tail fid (pid_page (rr_page ref)) (e\<lparr>en_store := s\<rparr>)))))"

section \<open>Reading and deleting rows\<close>

definition live_slots :: "bytes \<Rightarrow> u16 list" where
  "live_slots p = filter (\<lambda>i. \<not> slot_tombstone p i) (map word_of_nat [0..<unat (hd_slot_count p)])"

definition decode_slot :: "column_spec list \<Rightarrow> bytes \<Rightarrow> u16 \<Rightarrow> dbvalue list res" where
  "decode_slot cols p i =
    rbind (decode_row cols (page_record p i)) (\<lambda>r. case r of None \<Rightarrow> Inl Critical | Some vals \<Rightarrow> Inr vals)"

text \<open>
  The walk over the pages of a heap file, collecting what \<^verbatim>\<open>f\<close> gives for each page: the loop of
  \<^verbatim>\<open>read_rows\<close>, \<^verbatim>\<open>delete_all_rows\<close> and \<^verbatim>\<open>row_count\<close>.
\<close>

fun walk_chain :: "nat \<Rightarrow> u64 \<Rightarrow> (page_id \<Rightarrow> bytes \<Rightarrow> 'a list res) \<Rightarrow> u32 \<Rightarrow> store \<Rightarrow> ('a list \<times> store) res option" where
  "walk_chain 0 fid f pno s = None"
| "walk_chain (Suc fuel) fid f pno s =
    (if pno = 0 then Some (Inr ([], s))
     else case rbind (pool_read (PageId fid pno) MAGIC_HEAP s) (\<lambda>(pg, s).
            rbind (f (PageId fid pno) (frame_data pg s)) (\<lambda>xs.
            rbind (pool_unpin pg s) (\<lambda>s'. Inr (xs, hd_next_page (frame_data pg s), s')))) of
            Inl err \<Rightarrow> Some (Inl err)
          | Inr (xs, next, s) \<Rightarrow>
              (case walk_chain fuel fid f next s of
                 None \<Rightarrow> None
               | Some (Inl err) \<Rightarrow> Some (Inl err)
               | Some (Inr (ys, s)) \<Rightarrow> Some (Inr (xs @ ys, s))))"

definition first_page :: "u64 \<Rightarrow> store \<Rightarrow> (u32 \<times> store) res" where
  "first_page fid s =
    rbind (pool_read (PageId fid 0) MAGIC_FILE_HEADER s) (\<lambda>(h, s).
      rbind (pool_unpin h s) (\<lambda>s'. Inr (hd_next_page (frame_data h s), s')))"

definition walk_file :: "nat \<Rightarrow> u64 \<Rightarrow> (page_id \<Rightarrow> bytes \<Rightarrow> 'a list res) \<Rightarrow> store \<Rightarrow> ('a list \<times> store) res option" where
  "walk_file fuel fid f s =
    (case first_page fid s of Inl err \<Rightarrow> Some (Inl err) | Inr (pno, s) \<Rightarrow> walk_chain fuel fid f pno s)"

definition read_rows :: "nat \<Rightarrow> u64 \<Rightarrow> column_spec list \<Rightarrow> store \<Rightarrow> (dbvalue list list \<times> store) res option" where
  "read_rows fuel fid cols s = walk_file fuel fid (\<lambda>_ p. map_res (decode_slot cols p) (live_slots p)) s"

definition check_row_ref :: "row_ref \<Rightarrow> engine \<Rightarrow> unit res" where
  "check_row_ref ref e =
    (let pid = rr_page ref
     in if pid = INVALID_PAGE then Inl (Raise Internal)
        else if pid_page pid = 0 then Inl (Raise Internal)
        else let pages = page_count (bp_files (en_store e)) (pid_file pid);
                 max_no = (if pages = 0 then 0 else pages - 1);
                 max_no = (case en_tails e (pid_file pid) of Some t \<Rightarrow> if t > max_no then t else max_no | None \<Rightarrow> max_no)
             in if pid_page pid > max_no then Inl (Raise Internal) else Inr ())"

definition read_row :: "row_ref \<Rightarrow> column_spec list \<Rightarrow> engine \<Rightarrow> (row option \<times> engine) res" where
  "read_row ref cols e =
    rbind (check_row_ref ref e) (\<lambda>_.
    rbind (pool_read (rr_page ref) MAGIC_HEAP (en_store e)) (\<lambda>(pg, s).
      let p = frame_data pg s
      in if rr_slot ref \<ge> hd_slot_count p \<or> slot_tombstone p (rr_slot ref) then
           rbind (pool_unpin pg s) (\<lambda>s. Inr (None, e\<lparr>en_store := s\<rparr>))
         else rbind (decode_row cols (page_record p (rr_slot ref))) (\<lambda>r.
           rbind (pool_unpin pg s) (\<lambda>s. case r of
             None \<Rightarrow> Inl Critical
           | Some vals \<Rightarrow> Inr (Some (empty_row\<lparr>row_loc := ref, row_values := vals\<rparr>), e\<lparr>en_store := s\<rparr>)))))"

definition delete_row :: "row_ref \<Rightarrow> engine \<Rightarrow> (nat \<times> engine) res" where
  "delete_row ref e =
    rbind (check_txn (pid_file (rr_page ref)) (en_store e)) (\<lambda>_.
    rbind (check_row_ref ref e) (\<lambda>_.
    rbind (pool_read (rr_page ref) MAGIC_HEAP (en_store e)) (\<lambda>(pg, s).
      let p = frame_data pg s
      in if rr_slot ref \<ge> hd_slot_count p \<or> slot_tombstone p (rr_slot ref) then
           rbind (pool_unpin pg s) (\<lambda>s. Inr (0, e\<lparr>en_store := s\<rparr>))
         else rbind (finish pg (edit_page pg (heap_delete (rr_slot ref) p) s)) (\<lambda>s. Inr (1, e\<lparr>en_store := s\<rparr>)))))"

fun delete_rows :: "row_ref list \<Rightarrow> engine \<Rightarrow> engine res" where
  "delete_rows [] e = Inr e"
| "delete_rows (r # rs) e = rbind (delete_row r e) (\<lambda>(_, e). delete_rows rs e)"

definition delete_all_rows :: "nat \<Rightarrow> u64 \<Rightarrow> engine \<Rightarrow> (nat \<times> engine) res option" where
  "delete_all_rows fuel fid e =
    (case check_txn fid (en_store e) of
       Inl err \<Rightarrow> Some (Inl err)
     | Inr _ \<Rightarrow>
         (case walk_file fuel fid (\<lambda>pid p. Inr (map (RowRef pid) (live_slots p))) (en_store e) of
            None \<Rightarrow> None
          | Some (Inl err) \<Rightarrow> Some (Inl err)
          | Some (Inr (refs, s)) \<Rightarrow> Some (rbind (delete_rows refs (e\<lparr>en_store := s\<rparr>)) (\<lambda>e. Inr (length refs, e)))))"

definition row_count :: "nat \<Rightarrow> u64 \<Rightarrow> store \<Rightarrow> (nat \<times> store) res option" where
  "row_count fuel fid s =
    map_option (\<lambda>r. rbind r (\<lambda>(xs, s). Inr (length xs, s))) (walk_file fuel fid (\<lambda>_ p. Inr (live_slots p)) s)"

section \<open>Full scans\<close>

record heap_scanner =
  hs_file :: u64
  hs_cols :: "column_spec list"
  hs_cur :: "nat option"
  hs_page :: page_id
  hs_slot :: u16
  hs_next :: u32
  hs_done :: bool

definition heap_scan_open :: "table_meta \<Rightarrow> store \<Rightarrow> (heap_scanner \<times> store) res" where
  "heap_scan_open meta s =
    rbind (first_page (tm_file_id meta) s) (\<lambda>(pno, s).
      Inr (\<lparr>hs_file = tm_file_id meta, hs_cols = tm_cols meta, hs_cur = None, hs_page = INVALID_PAGE, hs_slot = 0,
            hs_next = pno, hs_done = False\<rparr>, s))"

definition heap_scan_close :: "heap_scanner \<Rightarrow> store \<Rightarrow> (heap_scanner \<times> store) res" where
  "heap_scan_close c s =
    (case hs_cur c of
       None \<Rightarrow> Inr (c\<lparr>hs_done := True\<rparr>, s)
     | Some k \<Rightarrow> rbind (pool_unpin k s) (\<lambda>s. Inr (c\<lparr>hs_cur := None, hs_done := True\<rparr>, s)))"

definition advance_page :: "heap_scanner \<Rightarrow> store \<Rightarrow> (heap_scanner \<times> store) res" where
  "advance_page c s =
    rbind (case hs_cur c of None \<Rightarrow> Inr s | Some k \<Rightarrow> pool_unpin k s) (\<lambda>s.
      let c = c\<lparr>hs_cur := None\<rparr>
      in if hs_next c = 0 then Inr (c\<lparr>hs_done := True\<rparr>, s)
         else let pid = PageId (hs_file c) (hs_next c)
              in rbind (pool_read pid MAGIC_HEAP s) (\<lambda>(k, s).
                 Inr (c\<lparr>hs_cur := Some k, hs_page := pid, hs_slot := 0, hs_next := hd_next_page (frame_data k s)\<rparr>, s)))"

text \<open>The first slot at or behind \<^verbatim>\<open>i\<close> that is no tombstone.\<close>

fun skip_tombstones :: "nat \<Rightarrow> bytes \<Rightarrow> u16 \<Rightarrow> u16" where
  "skip_tombstones 0 p i = i"
| "skip_tombstones (Suc n) p i = (if i < hd_slot_count p \<and> slot_tombstone p i then skip_tombstones n p (i + 1) else i)"

fun heap_scan_next :: "nat \<Rightarrow> heap_scanner \<Rightarrow> store \<Rightarrow> (row option \<times> heap_scanner \<times> store) res option" where
  "heap_scan_next 0 c s = None"
| "heap_scan_next (Suc fuel) c s =
    (if hs_done c then Some (Inr (None, c, s))
     else case hs_cur c of
       None \<Rightarrow> (case advance_page c s of Inl err \<Rightarrow> Some (Inl err) | Inr (c, s) \<Rightarrow> heap_scan_next fuel c s)
     | Some k \<Rightarrow>
         let p = frame_data k s; i = skip_tombstones (unat (hd_slot_count p)) p (hs_slot c)
         in if i < hd_slot_count p then
              Some (rbind (decode_slot (hs_cols c) p i) (\<lambda>vals.
                Inr (Some (empty_row\<lparr>row_loc := RowRef (hs_page c) i, row_values := vals\<rparr>), c\<lparr>hs_slot := i + 1\<rparr>, s)))
            else (case advance_page c s of Inl err \<Rightarrow> Some (Inl err) | Inr (c, s) \<Rightarrow> heap_scan_next fuel c s))"

section \<open>Index files\<close>

definition tree_for :: "u64 \<Rightarrow> engine \<Rightarrow> (btree \<times> engine) res" where
  "tree_for fid e =
    (case en_trees e fid of
       Some t \<Rightarrow> Inr (t, e)
     | None \<Rightarrow> rbind (bt_open fid (en_store e)) (\<lambda>(t, s). Inr (t, e\<lparr>en_store := s, en_trees := (en_trees e)(fid \<mapsto> t)\<rparr>)))"

definition init_index_file :: "u64 \<Rightarrow> engine \<Rightarrow> engine res" where
  "init_index_file fid e =
    rbind (check_txn fid (en_store e)) (\<lambda>_.
    rbind (bt_create fid (en_store e)) (\<lambda>(t, s).
    rbind (pool_flush (PageId fid 1) s) (\<lambda>s. Inr (e\<lparr>en_store := s, en_trees := (en_trees e)(fid \<mapsto> t)\<rparr>))))"

definition remove_index_file :: "u64 \<Rightarrow> engine \<Rightarrow> engine res" where
  "remove_index_file fid e =
    rbind (log_drop fid (en_store e)) (\<lambda>s. Inr (e\<lparr>en_store := s, en_trees := (en_trees e)(fid := None)\<rparr>))"

text \<open>An insertion into a tracked tree, which remembers the new root and page hint.\<close>

definition tree_insert :: "nat \<Rightarrow> u64 \<Rightarrow> btree_entry \<Rightarrow> engine \<Rightarrow> engine res option" where
  "tree_insert fuel fid entry e =
    (case tree_for fid e of
       Inl err \<Rightarrow> Some (Inl err)
     | Inr (t, e) \<Rightarrow> map_option (\<lambda>r. rbind r (\<lambda>(t, s). Inr (e\<lparr>en_store := s, en_trees := (en_trees e)(fid \<mapsto> t)\<rparr>)))
                       (bt_insert fuel t entry (en_store e)))"

definition index_insert :: "nat \<Rightarrow> u64 \<Rightarrow> index_key \<Rightarrow> row_ref \<Rightarrow> engine \<Rightarrow> engine res option" where
  "index_insert fuel fid key ref e =
    (case check_txn fid (en_store e) of
       Inl err \<Rightarrow> Some (Inl err)
     | Inr _ \<Rightarrow> tree_insert fuel fid (BTreeEntry key (pid_page (rr_page ref)) (rr_slot ref)) e)"

definition index_scan :: "nat \<Rightarrow> u64 \<Rightarrow> scan_bound option \<Rightarrow> scan_bound option \<Rightarrow> engine \<Rightarrow> (btree_scanner \<times> engine) res option" where
  "index_scan fuel fid lo hi e =
    (case tree_for fid e of
       Inl err \<Rightarrow> Some (Inl err)
     | Inr (t, e) \<Rightarrow> map_option (\<lambda>r. rbind r (\<lambda>(c, s). Inr (c, e\<lparr>en_store := s\<rparr>))) (scan_open fuel t lo hi (en_store e)))"

fun index_build_loop :: "nat \<Rightarrow> type_attr \<Rightarrow> u16 \<Rightarrow> u64 \<Rightarrow> heap_scanner \<Rightarrow> nat \<Rightarrow> engine \<Rightarrow> (nat \<times> engine) res option" where
  "index_build_loop 0 t ordinal fid c n e = None"
| "index_build_loop (Suc fuel) t ordinal fid c n e =
    (case heap_scan_next fuel c (en_store e) of
       None \<Rightarrow> None
     | Some (Inl err) \<Rightarrow> Some (Inl err)
     | Some (Inr (None, c, s)) \<Rightarrow> Some (rbind (heap_scan_close c s) (\<lambda>(_, s). Inr (n, e\<lparr>en_store := s\<rparr>)))
     | Some (Inr (Some row, c, s)) \<Rightarrow>
         (case encode_key t (row_values row ! unat ordinal) of
            Inl err \<Rightarrow> Some (Inl err)
          | Inr key \<Rightarrow>
              (case tree_insert fuel fid (BTreeEntry key (pid_page (rr_page (row_loc row))) (rr_slot (row_loc row))) (e\<lparr>en_store := s\<rparr>) of
                 None \<Rightarrow> None
               | Some (Inl err) \<Rightarrow> Some (Inl err)
               | Some (Inr e) \<Rightarrow> index_build_loop fuel t ordinal fid c (n + 1) e)))"

definition build_index :: "nat \<Rightarrow> u64 \<Rightarrow> column_spec list \<Rightarrow> u16 \<Rightarrow> u64 \<Rightarrow> engine \<Rightarrow> (nat \<times> engine) res option" where
  "build_index fuel table_fid cols ordinal index_fid e =
    (case rbind (check_txn index_fid (en_store e)) (\<lambda>_.
            if unat ordinal \<ge> length cols then Inl (Raise Internal)
            else rbind (tree_for index_fid e) (\<lambda>(_, e).
              rbind (heap_scan_open \<lparr>tm_table_id = 0, tm_file_id = table_fid, tm_name = [], tm_cols = cols\<rparr> (en_store e)) (\<lambda>(c, s).
                Inr (c, e\<lparr>en_store := s\<rparr>)))) of
       Inl err \<Rightarrow> Some (Inl err)
     | Inr (c, e) \<Rightarrow> index_build_loop fuel (col_type (cols ! unat ordinal)) ordinal index_fid c 0 e)"

end
