(* ===== verification/Durability.thy ===== *)
theory Durability
  imports Engine
begin

text \<open>
  What the engine's transactions promise, over the buffer pool, the log and recovery: any run of
  page operations inside a transaction leaves a trace of logged changes, a crash at any point is
  repaired to the committed pages, a commit makes the changes permanent, a rollback takes them back
  and a checkpoint leaves everything on disk.
\<close>

section \<open>Pins\<close>

definition pinned :: "store \<Rightarrow> page_id set" where
  "pinned s = {pid. pin_of s pid \<noteq> 0}"

lemma pinned_frames: "pool_ok s \<Longrightarrow> pinned s \<subseteq> fr_page ` set (bp_frames s)"
proof
  fix pid
  assume ok: "pool_ok s" and "pid \<in> pinned s"
  then obtain k where "bp_table s pid = Some k" by (auto simp: pinned_def pin_of_def split: option.splits)
  then show "pid \<in> fr_page ` set (bp_frames s)" using pool_ok_table [OF ok, of pid k] by auto
qed

lemma finite_pinned: "pool_ok s \<Longrightarrow> finite (pinned s)"
  by (rule finite_subset [OF pinned_frames]) simp_all

text \<open>A frame is free as long as fewer pages are pinned than there are frames.\<close>

lemma has_free_card:
  assumes "pool_ok s" "card (pinned s) < length (bp_frames s)"
  shows "has_free s"
proof (rule ccontr)
  assume "\<not> has_free s"
  then have p: "fr_pin (bp_frames s ! k) \<noteq> 0" if "k < length (bp_frames s)" for k
    using that by (auto simp: has_free_def list_ex_length)
  then have v: "fr_valid (bp_frames s ! k)" if "k < length (bp_frames s)" for k
    using that pool_ok_frame [OF assms(1) that] by (auto simp: frame_ok_def)
  have "fr_page (bp_frames s ! k) \<in> pinned s" if "k < length (bp_frames s)" for k
  proof -
    have "bp_table s (fr_page (bp_frames s ! k)) = Some k" using pool_ok_table [OF assms(1)] that v [OF that] by simp
    then show ?thesis using p [OF that] by (simp add: pinned_def pin_of_def)
  qed
  then have "(\<lambda>k. fr_page (bp_frames s ! k)) ` {..<length (bp_frames s)} \<subseteq> pinned s" by auto
  moreover have "inj_on (\<lambda>k. fr_page (bp_frames s ! k)) {..<length (bp_frames s)}"
    using pool_ok_distinct [OF assms(1)] v by (auto simp: inj_on_def)
  ultimately have "length (bp_frames s) \<le> card (pinned s)"
    using card_mono [OF finite_pinned [OF assms(1)]] card_image by (metis card_lessThan)
  then show False using assms(2) by simp
qed

section \<open>Traces of a transaction\<close>

definition is_patch :: "change \<Rightarrow> bool" where
  "is_patch c = (case c of Patch _ _ _ _ \<Rightarrow> True | Drop _ \<Rightarrow> False)"

text \<open>
  What a client does inside a transaction: the changes \<^verbatim>\<open>cs\<close> are appended to the log and the undo
  list, lead from the pages the log knew to those it knows now, and the disk holds on every other
  byte what it held before or what the log knew before.
\<close>

definition txn_trace :: "store \<Rightarrow> change list \<Rightarrow> store \<Rightarrow> bool" where
  "txn_trace s cs s' \<longleftrightarrow> pool_ok s' \<and> length (bp_frames s') = length (bp_frames s)
     \<and> (\<exists>t tl. bp_txn s = Some t \<and> bp_txn s' = Some (t\<lparr>tc_undo := tc_undo t @ map undo_of cs, tc_wrote := tc_wrote t \<or> cs \<noteq> [], tc_tail_undo := tl\<rparr>)
          \<and> bp_wal s' = wal_run (map (change_entry (tc_txn_id t)) cs) (bp_wal s))
     \<and> list_all change_ok cs \<and> list_all is_patch cs \<and> befores_ok (logged_view s) cs
     \<and> logged_view s' = fold redo_change cs (logged_view s)
     \<and> (\<forall>pid. \<forall>i < PAGE_SIZE. (\<exists>c \<in> set cs. patches_byte c pid i) \<or> disk_page (bp_files s') pid ! i = disk_page (bp_files s) pid ! i
          \<or> disk_page (bp_files s') pid ! i = logged_view s pid ! i)"

lemma sized_logged: "pool_ok s \<Longrightarrow> sized (logged_view s)"
  unfolding sized_def logged_view_def
  using pool_ok_frame table_bound by (auto simp: frame_ok_def split: option.split)

lemma sized_view: "pool_ok s \<Longrightarrow> sized (page_view s)"
  unfolding sized_def page_view_def
  using pool_ok_frame table_bound by (auto simp: frame_ok_def split: option.split)

lemma trace_quiet:
  assumes "pool_ok s'" "same_outside s s'" "bp_txn s = Some t"
  shows "txn_trace s [] s'"
proof -
  have "disk_page (bp_files s') pid ! i = disk_page (bp_files s) pid ! i \<or> disk_page (bp_files s') pid ! i = logged_view s pid ! i" for pid i
    using assms(2) unfolding same_outside_def by metis
  moreover have "\<exists>tl. t = t\<lparr>tc_tail_undo := tl\<rparr>" by (rule exI [of _ "tc_tail_undo t"]) simp
  ultimately show ?thesis using assms by (simp add: txn_trace_def same_outside_def)
qed

lemma befores_append:
  assumes "list_all is_patch cs"
  shows "befores_ok st (cs @ ds) \<longleftrightarrow> befores_ok st cs \<and> befores_ok (fold redo_change cs st) ds"
  using assms
proof (induction cs arbitrary: st)
  case (Cons c cs)
  then show ?case by (cases c) (auto simp: is_patch_def simp del: redo_change.simps)
qed simp

lemma patch_covers: "is_patch c \<Longrightarrow> covers c pid i = patches_byte c pid i"
  by (cases c) (auto simp: is_patch_def)

lemma redo_untouched:
  assumes "sized st" "list_all change_ok cs" "list_all is_patch cs" "i < PAGE_SIZE" "\<not> (\<exists>c \<in> set cs. patches_byte c pid i)"
  shows "fold redo_change cs st pid ! i = st pid ! i"
proof -
  have "\<not> (\<exists>c \<in> set cs. covers c pid i)" using assms(3,5) patch_covers by (auto simp: list_all_iff)
  then show ?thesis using redo_all_byte [OF assms(1,1,2,4), of pid] by simp
qed

lemma trace_trans:
  assumes "txn_trace s cs s1" "txn_trace s1 ds s2" "pool_ok s"
  shows "txn_trace s (cs @ ds) s2"
proof -
  from assms(1) obtain t tl where a: "pool_ok s1" "length (bp_frames s1) = length (bp_frames s)" "bp_txn s = Some t"
    "bp_txn s1 = Some (t\<lparr>tc_undo := tc_undo t @ map undo_of cs, tc_wrote := tc_wrote t \<or> cs \<noteq> [], tc_tail_undo := tl\<rparr>)"
    "bp_wal s1 = wal_run (map (change_entry (tc_txn_id t)) cs) (bp_wal s)" "list_all change_ok cs" "list_all is_patch cs"
    "befores_ok (logged_view s) cs" "logged_view s1 = fold redo_change cs (logged_view s)"
    "\<And>pid i. i < PAGE_SIZE \<Longrightarrow> (\<exists>c \<in> set cs. patches_byte c pid i) \<or> disk_page (bp_files s1) pid ! i = disk_page (bp_files s) pid ! i
          \<or> disk_page (bp_files s1) pid ! i = logged_view s pid ! i"
    unfolding txn_trace_def by blast
  from assms(2) a(4) obtain tl2 where b: "pool_ok s2" "length (bp_frames s2) = length (bp_frames s1)"
    "bp_txn s2 = Some (t\<lparr>tc_undo := tc_undo t @ map undo_of (cs @ ds), tc_wrote := tc_wrote t \<or> cs @ ds \<noteq> [], tc_tail_undo := tl2\<rparr>)"
    "bp_wal s2 = wal_run (map (change_entry (tc_txn_id t)) ds) (bp_wal s1)" "list_all change_ok ds" "list_all is_patch ds"
    "befores_ok (logged_view s1) ds" "logged_view s2 = fold redo_change ds (logged_view s1)"
    "\<And>pid i. i < PAGE_SIZE \<Longrightarrow> (\<exists>c \<in> set ds. patches_byte c pid i) \<or> disk_page (bp_files s2) pid ! i = disk_page (bp_files s1) pid ! i
          \<or> disk_page (bp_files s2) pid ! i = logged_view s1 pid ! i"
    unfolding txn_trace_def by auto
  have w: "bp_wal s2 = wal_run (map (change_entry (tc_txn_id t)) (cs @ ds)) (bp_wal s)"
    unfolding b(4) a(5) by (simp add: wal_run_def)
  have d: "(\<exists>c \<in> set (cs @ ds). patches_byte c pid i) \<or> disk_page (bp_files s2) pid ! i = disk_page (bp_files s) pid ! i
          \<or> disk_page (bp_files s2) pid ! i = logged_view s pid ! i" if i: "i < PAGE_SIZE" for pid i
  proof (cases "\<exists>c \<in> set cs. patches_byte c pid i")
    case False
    then have "logged_view s1 pid ! i = logged_view s pid ! i"
      unfolding a(9) by (rule redo_untouched [OF sized_logged [OF assms(3)] a(6,7) i])
    then show ?thesis using a(10) [OF i, of pid] b(9) [OF i, of pid] False by auto
  qed auto
  show ?thesis unfolding txn_trace_def
  proof (intro conjI exI allI impI)
    show "bp_txn s = Some t" by (rule a(3))
    show "befores_ok (logged_view s) (cs @ ds)" using befores_append [OF a(7)] a(8,9) b(7) by simp
  qed (use a b w d in simp_all)
qed

section \<open>Crashes\<close>

text \<open>
  The state at the start of a transaction: the log holds the closed transactions \<^verbatim>\<open>done\<close> since the
  checkpoint \<^verbatim>\<open>st\<close>, the pages the log knows are the committed ones, and the disk differs from the
  checkpoint only where committed changes are logged.
\<close>

definition durable :: "pages \<Rightarrow> txn list \<Rightarrow> store \<Rightarrow> bool" where
  "durable st done s \<longleftrightarrow> sized st \<and> list_all closed_ok done \<and> pool_ok s
     \<and> (\<exists>w0. wal_log w0 = [] \<and> wal_log (bp_wal s) = wal_log (wal_run (concat (map txn_entries done)) w0)
          \<and> wal_next_lsn (bp_wal s) = wal_next_lsn (wal_run (concat (map txn_entries done)) w0))
     \<and> logged_view s = committed_state st done
     \<and> (\<forall>pid. \<forall>i < PAGE_SIZE. log_covers done [] pid i \<or> disk_page (bp_files s) pid ! i = st pid ! i)"

lemma wal_run_append: "wal_run (a @ b) w = wal_run b (wal_run a w)"
  by (simp add: wal_run_def)

lemma wal_run_cong:
  assumes "wal_log w = wal_log v" "wal_next_lsn w = wal_next_lsn v"
  shows "wal_log (wal_run es w) = wal_log (wal_run es v)" "wal_next_lsn (wal_run es w) = wal_next_lsn (wal_run es v)"
  using assms by (induction es arbitrary: w v) auto

lemma committed_untouched:
  assumes "sized st" "list_all closed_ok done" "i < PAGE_SIZE" "\<not> log_covers done [] pid i"
  shows "committed_state st done pid ! i = st pid ! i"
proof -
  have "list_all change_ok (committed_changes done)" using assms(2) by (auto simp: committed_changes_def list_all_iff closed_ok_def)
  then show ?thesis using redo_all_byte [OF assms(1,1), of "committed_changes done" i pid] assms(3,4)
    by (simp add: committed_state_def log_covers_def)
qed

text \<open>The log and the disk of a trace, as recovery finds them.\<close>

lemma trace_disk:
  assumes "durable st done s0" "txn_trace s0 cs s" "i < PAGE_SIZE" "\<not> log_covers done cs pid i"
  shows "disk_page (bp_files s) pid ! i = st pid ! i"
proof -
  have n: "\<not> log_covers done [] pid i" "\<not> (\<exists>c \<in> set cs. patches_byte c pid i)" using assms(4) by (auto simp: log_covers_def)
  have "disk_page (bp_files s) pid ! i = disk_page (bp_files s0) pid ! i \<or> disk_page (bp_files s) pid ! i = logged_view s0 pid ! i"
    using assms(2,3) n(2) unfolding txn_trace_def by blast
  moreover have "disk_page (bp_files s0) pid ! i = st pid ! i" using assms(1,3) n(1) unfolding durable_def by blast
  moreover have "logged_view s0 pid ! i = st pid ! i"
    using committed_untouched [OF _ _ assms(3) n(1)] assms(1) by (simp add: durable_def)
  ultimately show ?thesis by auto
qed

lemma trace_log:
  assumes "durable st done s0" "txn_trace s0 cs s" "bp_txn s0 = Some t"
  shows "\<exists>w0. wal_log w0 = [] \<and> wal_log (bp_wal s) = wal_log (wal_run (history_entries done (tc_txn_id t) cs) w0)
    \<and> wal_next_lsn (bp_wal s) = wal_next_lsn (wal_run (history_entries done (tc_txn_id t) cs) w0)"
proof -
  obtain w0 where w: "wal_log w0 = []" "wal_log (bp_wal s0) = wal_log (wal_run (concat (map txn_entries done)) w0)"
    "wal_next_lsn (bp_wal s0) = wal_next_lsn (wal_run (concat (map txn_entries done)) w0)"
    using assms(1) by (auto simp: durable_def)
  have "bp_wal s = wal_run (map (change_entry (tc_txn_id t)) cs) (bp_wal s0)" using assms(2,3) by (auto simp: txn_trace_def)
  then show ?thesis using w(1) wal_run_cong [OF w(2,3)] by (auto simp: history_entries_def wal_run_append)
qed

lemma crash_undoes:
  assumes "durable st done s0" "txn_trace s0 cs s" "bp_txn s0 = Some t"
    and "distinct (map tx_id done)" "tc_txn_id t \<notin> tx_id ` set done"
    and "rec_fits r" "k < length (rec_bytes r)" "wal_log w = wal_log (bp_wal s) @ take k (rec_bytes r)"
  shows "\<exists>fs' w' st'. recover (bp_files s) w = Inr (fs', w', st') \<and> wal_log w' = [] \<and> disk_page fs' = logged_view s0"
proof -
  have d: "sized st" "list_all closed_ok done" "logged_view s0 = committed_state st done" using assms(1) by (simp_all add: durable_def)
  have c: "list_all change_ok cs" "befores_ok (committed_state st done) cs" using assms(2) d(3) by (auto simp: txn_trace_def)
  obtain w0 where w: "wal_log w0 = []" "wal_log (bp_wal s) = wal_log (wal_run (history_entries done (tc_txn_id t) cs) w0)"
    using trace_log [OF assms(1-3)] by blast
  have "fst (read_log (wal_reader_open (Some (wal_log w)))) = numbered (wal_next_lsn w0) (history_entries done (tc_txn_id t) cs)"
    using parse_log_append [OF numbered_fits [OF history_fits [OF d(2) c(1)]]] parse_log_None [OF parse_truncated [OF assms(6,7)]]
    by (simp add: assms(8) w read_log_parse wal_run_log)
  then show ?thesis
    using recover_pages [OF d(2) c(1) assms(4), of "tc_txn_id t" w "wal_next_lsn w0" "bp_files s"] assms(5) restores_pages [OF d(1,2) c trace_disk [OF assms(1,2)]] d(3) by auto
qed

text \<open>The same log with the commit record behind it.\<close>

lemma crash_redoes:
  assumes "durable st done s0" "txn_trace s0 cs s" "bp_txn s0 = Some t"
    and "distinct (map tx_id done)" "tc_txn_id t \<notin> tx_id ` set done"
    and "rec_fits r" "k < length (rec_bytes r)" "wal_log w = wal_log (wal_append Commit (tc_txn_id t) [] (bp_wal s)) @ take k (rec_bytes r)"
  shows "\<exists>fs' w' st'. recover (bp_files s) w = Inr (fs', w', st') \<and> wal_log w' = [] \<and> disk_page fs' = logged_view s"
proof -
  let ?done = "done @ [Txn (tc_txn_id t) cs Committed]"
  have d: "sized st" "list_all closed_ok done" "logged_view s0 = committed_state st done" using assms(1) by (simp_all add: durable_def)
  have c: "list_all change_ok cs" "logged_view s = fold redo_change cs (logged_view s0)" using assms(2) by (auto simp: txn_trace_def)
  have d': "list_all closed_ok ?done" using d(2) c(1) by (simp add: closed_ok_def)
  have cs': "committed_state st ?done = logged_view s" using c(2) d(3) by (simp add: committed_state_def committed_changes_def)
  obtain w0 where w: "wal_log w0 = []" "wal_log (bp_wal s) = wal_log (wal_run (history_entries done (tc_txn_id t) cs) w0)"
    "wal_next_lsn (bp_wal s) = wal_next_lsn (wal_run (history_entries done (tc_txn_id t) cs) w0)"
    using trace_log [OF assms(1-3)] by blast
  have h: "history_entries ?done 0 [] = history_entries done (tc_txn_id t) cs @ [(Commit, tc_txn_id t, [])]"
    by (simp add: history_entries_def txn_entries_def)
  have "wal_log (wal_append Commit (tc_txn_id t) [] (bp_wal s)) = wal_log (wal_run (history_entries ?done 0 []) w0)"
    unfolding h wal_run_append using w(2,3) by simp
  then have "fst (read_log (wal_reader_open (Some (wal_log w)))) = numbered (wal_next_lsn w0) (history_entries ?done 0 [])"
    using parse_log_append [OF numbered_fits [OF history_fits [OF d', of "[]"]]] parse_log_None [OF parse_truncated [OF assms(6,7)]]
    by (simp add: assms(8) w(1) read_log_parse wal_run_log)
  moreover have "distinct (map tx_id ?done)" using assms(4,5) by auto
  moreover have "log_covers done cs pid i \<Longrightarrow> log_covers ?done [] pid i" for pid i
  proof -
    have "committed_changes ?done = committed_changes done @ cs" by (simp add: committed_changes_def)
    moreover have "list_all is_patch cs" using assms(2) by (simp add: txn_trace_def)
    ultimately show "log_covers done cs pid i \<Longrightarrow> log_covers ?done [] pid i"
      using patch_covers unfolding log_covers_def list_all_iff by fastforce
  qed
  then have "disk_page (bp_files s) pid ! i = st pid ! i" if "i < PAGE_SIZE" "\<not> log_covers ?done [] pid i" for pid i
    using trace_disk [OF assms(1,2) that(1)] that(2) by blast
  ultimately show ?thesis
    using recover_pages [OF d', of "[]" 0 w "wal_next_lsn w0" "bp_files s"] restores_pages [OF d(1) d', of "[]" "bp_files s"] cs' by auto
qed

section \<open>Runs of a transaction\<close>

text \<open>
  Everything a client may do with the pool inside a transaction, under the rules the engine and the
  tree follow: allocated pages are zero on disk, only pinned pages are written, a page is unpinned
  only after its change was logged, files are numbered from one.
\<close>

inductive txn_run :: "store \<Rightarrow> change list \<Rightarrow> store \<Rightarrow> bool" for s0 where
  run_start: "txn_run s0 [] s0"
| run_read: "txn_run s0 cs s \<Longrightarrow> pin_room s pid \<Longrightarrow> pool_read pid magic s = Inr (k, s') \<Longrightarrow> txn_run s0 cs s'"
| run_allocate: "txn_run s0 cs s \<Longrightarrow> pin_room s pid \<Longrightarrow> bp_table s pid = None \<longrightarrow> page_all_zero (disk_page (bp_files s) pid) \<Longrightarrow>
    pool_allocate pid s = Inr (k, s') \<Longrightarrow> txn_run s0 cs s'"
| run_edit: "txn_run s0 cs s \<Longrightarrow> held s pid k \<Longrightarrow> length data = PAGE_SIZE \<Longrightarrow> txn_run s0 cs (edit_page k data s)"
| run_dirty: "txn_run s0 cs s \<Longrightarrow> pid_file (fr_page (bp_frames s ! k)) \<noteq> 0 \<Longrightarrow> pool_mark_dirty k s = Inr s' \<Longrightarrow>
    txn_run s0 (cs @ page_changes (fr_page (bp_frames s ! k)) (fr_before (bp_frames s ! k)) (fr_data (bp_frames s ! k))) s'"
| run_unpin: "txn_run s0 cs s \<Longrightarrow> fr_data (bp_frames s ! k) = fr_before (bp_frames s ! k) \<Longrightarrow> pool_unpin k s = Inr s' \<Longrightarrow> txn_run s0 cs s'"
| run_flush: "txn_run s0 cs s \<Longrightarrow> pool_flush pid s = Inr s' \<Longrightarrow> txn_run s0 cs s'"
| run_create: "txn_run s0 cs s \<Longrightarrow> length (file_bytes (bp_files s) fid) \<le> PAGE_SIZE \<Longrightarrow> txn_run s0 cs (s\<lparr>bp_files := create_table_file fid (bp_files s)\<rparr>)"
| run_tail: "txn_run s0 cs s \<Longrightarrow> bp_txn s = Some t \<Longrightarrow> txn_run s0 cs (s\<lparr>bp_txn := Some (t\<lparr>tc_tail_undo := us\<rparr>)\<rparr>)"

lemma miss_needs_free: "pool_ok s \<Longrightarrow> evict s = Inr x \<Longrightarrow> has_free s"
  using evict_total [of s] by (auto split: if_splits)

lemma read_fetched:
  assumes "pool_ok s" "pin_room s pid" "pool_read pid magic s = Inr (k, s')"
  shows "fetched s pid k s'"
proof -
  have "bp_table s pid \<noteq> None \<or> has_free s"
    using assms(3) miss_needs_free [OF assms(1)] by (auto simp: pool_read_def rbind_eq_Inr split: option.splits)
  from pool_read_view [OF assms(1,2) this, of magic] show ?thesis using assms(3) by (auto split: if_splits)
qed

lemma allocate_fetched:
  assumes "pool_ok s" "pin_room s pid" "bp_table s pid = None \<longrightarrow> page_all_zero (disk_page (bp_files s) pid)" "pool_allocate pid s = Inr (k, s')"
  shows "fetched s pid k s'"
proof -
  have f: "bp_table s pid \<noteq> None \<or> has_free s"
    using assms(4) miss_needs_free [OF assms(1)] by (auto simp: pool_allocate_def rbind_eq_Inr split: option.splits)
  have "bp_table s pid = None \<Longrightarrow> page_view s pid = replicate PAGE_SIZE 0"
    using assms(3) by (simp add: page_view_def page_all_zero_def)
  from pool_allocate_view [OF assms(1,2) f this] show ?thesis using assms(4) by auto
qed

lemma trace_fetched: "fetched s pid k s' \<Longrightarrow> bp_txn s = Some t \<Longrightarrow> txn_trace s [] s'"
  by (rule trace_quiet) (simp_all add: fetched_def)

lemma held_frame:
  assumes "pool_ok s" "held s pid k"
  shows "k < length (bp_frames s)" "fr_valid (bp_frames s ! k)" "fr_page (bp_frames s ! k) = pid" "fr_pin (bp_frames s ! k) \<noteq> 0"
  using assms pool_ok_table [OF assms(1), of pid k] by (auto simp: held_def pin_of_def)

lemma trace_edit:
  assumes "pool_ok s" "held s pid k" "length data = PAGE_SIZE" "bp_txn s = Some t"
  shows "txn_trace s [] (edit_page k data s)"
proof -
  note h = held_frame [OF assms(1,2)]
  note e = edit_page_ok [OF assms(1) h(1,2,4) assms(3)]
  have "\<exists>us. t = t\<lparr>tc_tail_undo := us\<rparr>" by (rule exI [of _ "tc_tail_undo t"]) simp
  then show ?thesis using e assms(4) by (simp add: txn_trace_def edit_page_def)
qed

lemma trace_dirty:
  assumes "pool_ok s" "pid_file (fr_page (bp_frames s ! k)) \<noteq> 0" "pool_mark_dirty k s = Inr s'" "bp_txn s = Some t"
  shows "txn_trace s (page_changes (fr_page (bp_frames s ! k)) (fr_before (bp_frames s ! k)) (fr_data (bp_frames s ! k))) s'"
proof -
  let ?f = "bp_frames s ! k" and ?pid = "fr_page (bp_frames s ! k)"
  have k: "k < length (bp_frames s)" "fr_valid ?f"
    using assms(3) by (auto simp: pool_mark_dirty_def frame_index_def split: if_splits)
  have v: "page_view s ?pid = fr_data ?f" "logged_view s ?pid = fr_before ?f"
    using pool_ok_table [OF assms(1), of ?pid k] k by (simp_all add: page_view_def logged_view_def)
  let ?cs = "page_changes ?pid (fr_before ?f) (fr_data ?f)"
  have len: "length (fr_data ?f) = PAGE_SIZE" "length (fr_before ?f) = PAGE_SIZE" using pool_ok_frame [OF assms(1) k(1)] by (simp_all add: frame_ok_def)
  have a: "asc 0 (diff_ranges (fr_before ?f) (fr_data ?f) 0)" using diff_ranges_spec [of 0 "fr_before ?f" "fr_data ?f"] by blast
  have "change_ok c \<and> is_patch c" if "c \<in> set ?cs" for c
    using that asc_bound [OF a] range_change_ok(1) [OF _ _ len assms(2)]
    by (fastforce simp: page_changes_def is_patch_def range_change_def Let_def)
  then have ok: "list_all change_ok ?cs" "list_all is_patch ?cs" by (simp_all add: list_all_iff)
  have "\<exists>us. t\<lparr>tc_undo := u, tc_wrote := w\<rparr> = t\<lparr>tc_undo := u, tc_wrote := w, tc_tail_undo := us\<rparr>" for u w
    by (rule exI [of _ "tc_tail_undo t"]) simp
  with pool_mark_dirty_ok [OF assms(1) k assms(4)] show ?thesis
    unfolding v using assms(3,4) ok by (auto simp: txn_trace_def)
qed

lemma trace_unpin:
  assumes "pool_ok s" "fr_data (bp_frames s ! k) = fr_before (bp_frames s ! k)" "pool_unpin k s = Inr s'" "bp_txn s = Some t"
  shows "txn_trace s [] s'"
proof -
  have k: "k < length (bp_frames s)" "fr_valid (bp_frames s ! k)"
    using assms(3) by (auto simp: pool_unpin_def frame_index_def split: if_splits)
  show ?thesis using pool_unpin_ok [OF assms(1) k assms(2)] assms(3) trace_quiet [OF _ _ assms(4)] by auto
qed

lemma get_at_padded: "get_at off n (bs @ replicate m 0) @ replicate (n - length (get_at off n (bs @ replicate m 0))) 0
    = get_at off n bs @ replicate (n - length (get_at off n bs)) (0 :: u8)"
proof (rule nth_equalityI)
  show "length (get_at off n (bs @ replicate m 0) @ replicate (n - length (get_at off n (bs @ replicate m 0))) 0)
    = length (get_at off n bs @ replicate (n - length (get_at off n bs)) (0 :: u8))" by (simp add: get_at_def)
qed (auto simp: get_at_def nth_append intro!: nth_replicate diff_less_mono)

lemma disk_page_create:
  assumes "length (file_bytes fs fid) \<le> PAGE_SIZE"
  shows "disk_page (create_table_file fid fs) = disk_page fs"
proof
  fix pid
  have "file_bytes (create_table_file fid fs) g = (if g = fid then file_bytes fs fid @ replicate (PAGE_SIZE - length (file_bytes fs fid)) 0 else file_bytes fs g)" for g
    using assms by (simp add: create_table_file_def truncate_to_def Let_def) (auto simp: file_bytes_def fd_for_def split: option.splits)
  then show "disk_page (create_table_file fid fs) pid = disk_page fs pid"
    by (simp add: disk_page_alt Let_def get_at_padded)
qed

lemma trace_create:
  assumes "pool_ok s" "bp_txn s = Some t" "length (file_bytes (bp_files s) fid) \<le> PAGE_SIZE"
  shows "txn_trace s [] (s\<lparr>bp_files := create_table_file fid (bp_files s)\<rparr>)"
proof -
  let ?s = "s\<lparr>bp_files := create_table_file fid (bp_files s)\<rparr>"
  have d: "disk_page (create_table_file fid (bp_files s)) = disk_page (bp_files s)" by (rule disk_page_create [OF assms(3)])
  have "frame_ok (create_table_file fid (bp_files s)) = frame_ok (bp_files s)" by (simp add: fun_eq_iff frame_ok_def d)
  then have "pool_ok ?s" using assms(1) by (simp add: pool_ok_def)
  moreover have "same_outside s ?s" by (simp add: same_outside_def d page_view_def logged_view_def fun_eq_iff split: option.split)
  ultimately show ?thesis using trace_quiet [OF _ _ assms(2)] by blast
qed

lemma trace_tail:
  assumes "pool_ok s" "bp_txn s = Some t"
  shows "txn_trace s [] (s\<lparr>bp_txn := Some (t\<lparr>tc_tail_undo := us\<rparr>)\<rparr>)"
proof -
  have "logged_view (s\<lparr>bp_txn := x\<rparr>) = logged_view s" "pool_ok (s\<lparr>bp_txn := x\<rparr>) = pool_ok s" for x
    by (simp_all add: logged_view_def pool_ok_def fun_eq_iff split: option.split)
  then show ?thesis using assms by (auto simp: txn_trace_def)
qed

lemma trace_txn: "txn_trace s cs s' \<Longrightarrow> \<exists>t. bp_txn s' = Some t"
  by (auto simp: txn_trace_def)

lemma run_traces:
  assumes "txn_run s0 cs s" "pool_ok s0" "bp_txn s0 = Some t"
  shows "txn_trace s0 cs s"
  using assms(1)
proof (induction rule: txn_run.induct)
  case run_start
  then show ?case using assms(2,3) by (intro trace_quiet) simp_all
next
  case (run_read cs s pid magic k s')
  then have ok: "pool_ok s" by (simp add: txn_trace_def)
  obtain t' where "bp_txn s = Some t'" using trace_txn [OF run_read.IH] by blast
  then show ?case using trace_trans [OF run_read.IH trace_fetched [OF read_fetched [OF ok run_read.hyps(2,3)]] assms(2)] by simp
next
  case (run_allocate cs s pid k s')
  then have ok: "pool_ok s" by (simp add: txn_trace_def)
  obtain t' where "bp_txn s = Some t'" using trace_txn [OF run_allocate.IH] by blast
  then show ?case using trace_trans [OF run_allocate.IH trace_fetched [OF allocate_fetched [OF ok run_allocate.hyps(2-4)]] assms(2)] by simp
next
  case (run_edit cs s pid k data)
  then have ok: "pool_ok s" by (simp add: txn_trace_def)
  obtain t' where "bp_txn s = Some t'" using trace_txn [OF run_edit.IH] by blast
  then show ?case using trace_trans [OF run_edit.IH trace_edit [OF ok run_edit.hyps(2,3)] assms(2)] by simp
next
  case (run_dirty cs s k s')
  then have ok: "pool_ok s" by (simp add: txn_trace_def)
  obtain t' where "bp_txn s = Some t'" using trace_txn [OF run_dirty.IH] by blast
  then show ?case using trace_trans [OF run_dirty.IH trace_dirty [OF ok run_dirty.hyps(2,3)] assms(2)] by simp
next
  case (run_unpin cs s k s')
  then have ok: "pool_ok s" by (simp add: txn_trace_def)
  obtain t' where "bp_txn s = Some t'" using trace_txn [OF run_unpin.IH] by blast
  then show ?case using trace_trans [OF run_unpin.IH trace_unpin [OF ok run_unpin.hyps(2,3)] assms(2)] by simp
next
  case (run_flush cs s pid s')
  then have ok: "pool_ok s" by (simp add: txn_trace_def)
  obtain t' where t: "bp_txn s = Some t'" using trace_txn [OF run_flush.IH] by blast
  have "txn_trace s [] s'" using pool_flush_ok [OF ok run_flush.hyps(2)] trace_quiet [OF _ _ t] by simp
  then show ?case using trace_trans [OF run_flush.IH _ assms(2)] by fastforce
next
  case (run_create cs s fid)
  then have ok: "pool_ok s" by (simp add: txn_trace_def)
  obtain t' where "bp_txn s = Some t'" using trace_txn [OF run_create.IH] by blast
  then show ?case using trace_trans [OF run_create.IH trace_create [OF ok _ run_create.hyps(2)] assms(2)] by simp
next
  case (run_tail cs s t2 us)
  then have ok: "pool_ok s" by (simp add: txn_trace_def)
  show ?case using trace_trans [OF run_tail.IH trace_tail [OF ok run_tail.hyps(2)] assms(2)] by simp
qed

section \<open>Rollback\<close>

lemma restore_region_view:
  fixes s :: store and pid :: page_id and off :: nat and bs :: bytes
  assumes "pool_ok s" "off + length bs \<le> PAGE_SIZE"
  defines "s' \<equiv> restore_region pid off bs s"
  shows "pool_ok s'" "page_view s' = (page_view s)(pid := put_at off bs (page_view s pid))"
    "logged_view s' = (logged_view s)(pid := put_at off bs (logged_view s pid))" "bp_wal s' = bp_wal s" "bp_txn s' = bp_txn s"
proof -
  have "pool_ok s' \<and> page_view s' = (page_view s)(pid := put_at off bs (page_view s pid))
    \<and> logged_view s' = (logged_view s)(pid := put_at off bs (logged_view s pid)) \<and> bp_wal s' = bp_wal s \<and> bp_txn s' = bp_txn s"
  proof (cases "bp_table s pid")
    case None
    let ?fs = "disk_write pid (put_at off bs (disk_page (bp_files s) pid)) (fd_for (pid_file pid) (bp_files s))"
    have s': "s' = s\<lparr>bp_files := ?fs\<rparr>"
      by (simp add: s'_def restore_region_def None read_page_eq disk_write_def)
    have d: "disk_page ?fs q = (if q = pid then put_at off bs (disk_page (bp_files s) pid) else disk_page (bp_files s) q)" for q
      using assms(2) by (subst disk_page_write) (simp_all add: length_put_at)
    have "frame_ok ?fs (bp_frames s ! j)" if j: "j < length (bp_frames s)" for j
    proof -
      have "fr_valid (bp_frames s ! j) \<Longrightarrow> fr_page (bp_frames s ! j) \<noteq> pid"
        using None pool_ok_table [OF assms(1), of pid j] j by auto
      then show ?thesis using pool_ok_frame [OF assms(1) j] d by (auto simp: frame_ok_def)
    qed
    then have "pool_ok s'" using assms(1) by (simp add: s' pool_ok_def list_all_length)
    moreover have "page_view s' q = ((page_view s)(pid := put_at off bs (page_view s pid))) q
        \<and> logged_view s' q = ((logged_view s)(pid := put_at off bs (logged_view s pid))) q" for q
      using None d [of q] by (cases "bp_table s q") (auto simp: s' page_view_def logged_view_def)
    ultimately show ?thesis by (simp add: fun_eq_iff s')
  next
    case (Some k)
    let ?g = "\<lambda>f. f\<lparr>fr_data := put_at off bs (fr_data f), fr_before := put_at off bs (fr_before f), fr_dirty := True\<rparr>"
    have s': "s' = upd_frame k ?g s" by (simp add: s'_def restore_region_def Some)
    have k: "k < length (bp_frames s)" by (rule table_bound [OF assms(1) Some])
    have "frame_ok (bp_files s) (?g (bp_frames s ! k))"
      using pool_ok_frame [OF assms(1) k] assms(2) by (auto simp: frame_ok_def length_put_at)
    then have ok: "pool_ok s'" unfolding s' by (intro pool_ok_upd [OF assms(1) k]) simp_all
    have "page_view s' q = ((page_view s)(pid := put_at off bs (page_view s pid))) q
        \<and> logged_view s' q = ((logged_view s)(pid := put_at off bs (logged_view s pid))) q" for q
    proof (cases "bp_table s q")
      case None
      then show ?thesis using Some by (auto simp: s' page_view_def logged_view_def)
    next
      case s2: (Some j)
      have "q = pid \<longleftrightarrow> j = k" using Some s2 pool_ok_table [OF assms(1)] by (metis option.inject)
      then show ?thesis using Some s2 k by (cases "j = k") (simp_all add: s' page_view_def logged_view_def)
    qed
    then show ?thesis using ok by (simp add: fun_eq_iff s')
  qed
  then show "pool_ok s'" "page_view s' = (page_view s)(pid := put_at off bs (page_view s pid))"
    "logged_view s' = (logged_view s)(pid := put_at off bs (logged_view s pid))" "bp_wal s' = bp_wal s" "bp_txn s' = bp_txn s" by simp_all
qed

lemma restore_undo:
  assumes "pool_ok s" "change_ok c" "is_patch c"
  shows "pool_ok (restore_entry (undo_of c) s)" "page_view (restore_entry (undo_of c) s) = undo_change c (page_view s)"
    "logged_view (restore_entry (undo_of c) s) = undo_change c (logged_view s)" "bp_wal (restore_entry (undo_of c) s) = bp_wal s"
    "bp_txn (restore_entry (undo_of c) s) = bp_txn s"
proof -
  obtain pid off af be where c: "c = Patch pid off af be" using assms(3) by (cases c) (auto simp: is_patch_def)
  have b: "off + length be \<le> PAGE_SIZE" using assms(2) by (simp add: c)
  have w: "unat (word_of_nat off :: u32) = off" "unat (word_of_nat (length be) :: u32) = length be"
    using b by (simp_all add: unat_of_nat PAGE_SIZE_def)
  have r: "restore_entry (undo_of c) s = restore_region pid off be s" by (simp add: restore_entry_def undo_of_def c w)
  show "pool_ok (restore_entry (undo_of c) s)" "page_view (restore_entry (undo_of c) s) = undo_change c (page_view s)"
    "logged_view (restore_entry (undo_of c) s) = undo_change c (logged_view s)" "bp_wal (restore_entry (undo_of c) s) = bp_wal s"
    "bp_txn (restore_entry (undo_of c) s) = bp_txn s"
    unfolding r using restore_region_view [OF assms(1) b, of pid] by (simp_all add: c)
qed

lemma restore_all:
  assumes "pool_ok s" "list_all change_ok cs" "list_all is_patch cs"
  shows "pool_ok (fold restore_entry (map undo_of cs) s) \<and> page_view (fold restore_entry (map undo_of cs) s) = fold undo_change cs (page_view s)
    \<and> logged_view (fold restore_entry (map undo_of cs) s) = fold undo_change cs (logged_view s)
    \<and> bp_wal (fold restore_entry (map undo_of cs) s) = bp_wal s \<and> bp_txn (fold restore_entry (map undo_of cs) s) = bp_txn s"
  using assms by (induction cs arbitrary: s) (simp_all add: restore_undo)

text \<open>Undoing the changes of a trace in reverse order gives back the pages before it.\<close>

lemma undo_redo:
  assumes "sized st" "list_all change_ok cs" "list_all is_patch cs" "befores_ok st cs"
  shows "fold undo_change (rev cs) (fold redo_change cs st) = st"
proof (rule ext, rule nth_equalityI)
  fix pid
  have s: "sized (fold redo_change cs st)" by (rule sized_fold [OF assms(1,2)])
  have "sized (fold undo_change (rev cs) (fold redo_change cs st))" using s assms(2) by (intro sized_undo_fold) (simp_all add: list_all_iff)
  then show l: "length (fold undo_change (rev cs) (fold redo_change cs st) pid) = length (st pid)" using assms(1) by (simp add: sized_def)
  fix i
  assume "i < length (fold undo_change (rev cs) (fold redo_change cs st) pid)"
  then have i: "i < PAGE_SIZE" using l assms(1) by (simp add: sized_def)
  show "fold undo_change (rev cs) (fold redo_change cs st) pid ! i = st pid ! i"
    using undo_all_byte [OF assms(1) s assms(2,4) i, of pid] redo_untouched [OF assms(1,2,3) i, of pid] by auto
qed

lemma rollback_pages:
  assumes "pool_ok s0" "bp_txn s0 = Some t" "tc_undo t = []" "txn_trace s0 cs s" "page_view s = logged_view s" "en_store e = s"
  shows "\<exists>e'. rollback_txn e = Inr e' \<and> pool_ok (en_store e') \<and> page_view (en_store e') = logged_view s0
    \<and> logged_view (en_store e') = logged_view s0 \<and> bp_txn (en_store e') = None
    \<and> bp_wal (en_store e') = (if tc_wrote t \<or> cs \<noteq> [] then wal_append Abort (tc_txn_id t) [] (bp_wal s) else bp_wal s)"
proof -
  obtain us where tr: "pool_ok s" "bp_txn s = Some (t\<lparr>tc_undo := map undo_of cs, tc_wrote := tc_wrote t \<or> cs \<noteq> [], tc_tail_undo := us\<rparr>)" "list_all change_ok cs" "list_all is_patch cs" "befores_ok (logged_view s0) cs"
    "logged_view s = fold redo_change cs (logged_view s0)"
    using assms(2-4) by (auto simp: txn_trace_def)
  let ?s1 = "s\<lparr>bp_txn := None\<rparr>" and ?r = "fold restore_entry (map undo_of (rev cs)) (s\<lparr>bp_txn := None\<rparr>)"
  have ok1: "pool_ok ?s1" using tr(1) by (simp add: pool_ok_def)
  have rv: "list_all change_ok (rev cs)" "list_all is_patch (rev cs)" using tr(3,4) by (simp_all add: list_all_iff)
  have v1: "page_view ?s1 = page_view s" "logged_view ?s1 = logged_view s" by (simp_all add: page_view_def logged_view_def fun_eq_iff split: option.split)
  have R: "pool_ok ?r" "page_view ?r = fold undo_change (rev cs) (page_view s)" "logged_view ?r = fold undo_change (rev cs) (logged_view s)"
    "bp_wal ?r = bp_wal s" "bp_txn ?r = None"
    using restore_all [OF ok1 rv] by (simp_all add: v1)
  have u: "fold undo_change (rev cs) (logged_view s) = logged_view s0"
    unfolding tr(6) by (rule undo_redo [OF sized_logged [OF assms(1)] tr(3-5)])
  have wv: "pool_ok (x\<lparr>bp_wal := w\<rparr>) = pool_ok x" "page_view (x\<lparr>bp_wal := w\<rparr>) = page_view x" "logged_view (x\<lparr>bp_wal := w\<rparr>) = logged_view x" for x :: store and w
    by (simp_all add: pool_ok_def page_view_def logged_view_def fun_eq_iff split: option.split)
  show ?thesis
    using tr(2) R u assms(5,6) by (auto simp: rollback_txn_def Let_def wv rev_map)
qed

lemma rollback_keeps_trees: "rollback_txn e = Inr e' \<Longrightarrow> en_trees e' = en_trees e"
  by (auto simp: rollback_txn_def Let_def split: option.splits)

section \<open>Histories of the engine\<close>

text \<open>What a crash in the middle of appending a record leaves behind the log.\<close>

definition torn :: "bytes \<Rightarrow> bool" where
  "torn b \<longleftrightarrow> (\<exists>r k. rec_fits r \<and> k < length (rec_bytes r) \<and> b = take k (rec_bytes r))"

text \<open>The process starts again on the files and the log of a crashed engine.\<close>

definition restart :: "nat \<Rightarrow> engine \<Rightarrow> bytes \<Rightarrow> engine res" where
  "restart n e b = eng_open (engine_init n (bp_files (en_store e)) (wal_log (bp_wal (en_store e)) @ b))"

text \<open>
  Histories without rollbacks: a database starts empty, transactions commit with all their page
  edits logged, checkpoints run between transactions, and at any point inside a transaction the
  process may die. The last argument is what the committed transactions wrote.
\<close>

inductive history :: "nat \<Rightarrow> engine \<Rightarrow> pages \<Rightarrow> bool" for n where
  hist_new: "eng_open (engine_init n Map.empty []) = Inr e \<Longrightarrow> history n e (\<lambda>_. replicate PAGE_SIZE 0)"
| hist_commit: "history n e st \<Longrightarrow> wal_next_txn_id (bp_wal (en_store e)) \<noteq> - 1 \<Longrightarrow> begin_txn e = Inr e0 \<Longrightarrow>
    txn_run (en_store e0) cs (en_store e1) \<Longrightarrow> page_view (en_store e1) = logged_view (en_store e1) \<Longrightarrow>
    commit_txn e1 = Inr e2 \<Longrightarrow> history n e2 (page_view (en_store e1))"
| hist_crash: "history n e st \<Longrightarrow> begin_txn e = Inr e0 \<Longrightarrow> txn_run (en_store e0) cs (en_store e1) \<Longrightarrow>
    torn b \<Longrightarrow> restart n e1 b = Inr e2 \<Longrightarrow> history n e2 st"
| hist_checkpoint: "history n e st \<Longrightarrow> checkpoint e = Inr e' \<Longrightarrow> history n e' st"

definition settled :: "nat \<Rightarrow> engine \<Rightarrow> pages \<Rightarrow> bool" where
  "settled n e st \<longleftrightarrow> bp_txn (en_store e) = None \<and> length (bp_frames (en_store e)) = n
     \<and> page_view (en_store e) = st \<and> logged_view (en_store e) = st
     \<and> (\<exists>st0 done. durable st0 done (en_store e) \<and> distinct (map tx_id done)
          \<and> (\<forall>t \<in> set done. tx_id t < wal_next_txn_id (bp_wal (en_store e))))"

lemma wal_run_txn_id [simp]: "wal_next_txn_id (wal_run es w) = wal_next_txn_id w"
  by (induction es arbitrary: w) (auto simp: wal_append_def Let_def)

lemma view_fields [simp]:
  "page_view (s\<lparr>bp_wal := w\<rparr>) = page_view s" "logged_view (s\<lparr>bp_wal := w\<rparr>) = logged_view s" "pool_ok (s\<lparr>bp_wal := w\<rparr>) = pool_ok s"
  "page_view (s\<lparr>bp_txn := x\<rparr>) = page_view s" "logged_view (s\<lparr>bp_txn := x\<rparr>) = logged_view s" "pool_ok (s\<lparr>bp_txn := x\<rparr>) = pool_ok s"
  by (simp_all add: pool_ok_def page_view_def logged_view_def fun_eq_iff split: option.split)

lemma restart_view:
  assumes "recover (bp_files (en_store e)) (wal_init (wal_log (bp_wal (en_store e)) @ b)) = Inr (fs, w, st)" "wal_log w = []"
  shows "\<exists>e'. restart n e b = Inr e' \<and> settled n e' (disk_page fs)"
proof -
  let ?s = "pool_init n fs w"
  have m: "map (\<lambda>_. empty_frame) (replicate n empty_frame) = replicate n empty_frame" by (simp add: map_replicate_const)
  have r: "restart n e b = Inr \<lparr>en_store = ?s, en_tails = (\<lambda>_. None), en_trees = (\<lambda>_. None), en_opened = True\<rparr>"
    using assms(1) by (simp add: restart_def eng_open_def engine_init_def pool_init_def pool_invalidate_all_def m)
  have v: "page_view ?s = disk_page fs" "logged_view ?s = disk_page fs" "bp_txn ?s = None" "bp_files ?s = fs" "bp_wal ?s = w" "length (bp_frames ?s) = n"
    by (simp_all add: pool_init_def page_view_def logged_view_def fun_eq_iff)
  have "\<exists>w0. wal_log w0 = [] \<and> wal_log w = wal_log (wal_run [] w0) \<and> wal_next_lsn w = wal_next_lsn (wal_run [] w0)"
    using assms(2) by (intro exI [of _ w]) simp
  then have "durable (disk_page fs) [] ?s"
    using v pool_init_ok by (auto simp: durable_def committed_state_def committed_changes_def)
  then show ?thesis using r v by (fastforce simp: settled_def)
qed

lemma begin_view:
  assumes "settled n e st" "begin_txn e = Inr e0"
  shows "\<exists>st0 done t. durable st0 done (en_store e0) \<and> bp_txn (en_store e0) = Some t \<and> t = new_txn (wal_next_txn_id (bp_wal (en_store e)))
    \<and> distinct (map tx_id done) \<and> (\<forall>x \<in> set done. tx_id x < tc_txn_id t) \<and> length (bp_frames (en_store e0)) = n
    \<and> wal_next_txn_id (bp_wal (en_store e0)) = tc_txn_id t + 1
    \<and> page_view (en_store e0) = st \<and> logged_view (en_store e0) = st"
proof -
  obtain st0 "done" where d: "durable st0 done (en_store e)" "distinct (map tx_id done)"
    "\<And>t. t \<in> set done \<Longrightarrow> tx_id t < wal_next_txn_id (bp_wal (en_store e))"
    using assms(1) by (auto simp: settled_def)
  let ?i = "wal_next_txn_id (bp_wal (en_store e))"
  have s: "en_store e0 = (en_store e)\<lparr>bp_wal := (bp_wal (en_store e))\<lparr>wal_next_txn_id := ?i + 1\<rparr>, bp_txn := Some (new_txn ?i)\<rparr>"
    using assms by (auto simp: begin_txn_def settled_def wal_alloc_txn_id_def Let_def)
  have "durable st0 done (en_store e0)" using d(1) by (simp add: durable_def s)
  moreover have "tc_txn_id (new_txn ?i) = ?i" by (simp add: new_txn_def)
  ultimately show ?thesis using d(2,3) assms(1) by (auto simp: s settled_def)
qed

lemma commit_view:
  assumes "bp_txn (en_store e) = Some t" "tc_pending_drops t = []"
  shows "\<exists>e'. commit_txn e = Inr e' \<and> en_store e' = (en_store e)\<lparr>bp_wal := (if tc_wrote t then wal_append Commit (tc_txn_id t) [] (bp_wal (en_store e))
    else bp_wal (en_store e)), bp_txn := None\<rparr>"
  using assms by (simp add: commit_txn_def Let_def)

text \<open>A committed transaction joins the closed ones; one without changes leaves no record.\<close>

lemma commit_durable:
  assumes "durable st done s0" "txn_trace s0 cs s" "bp_txn s0 = Some t"
    and w: "w = (if cs \<noteq> [] then wal_append Commit (tc_txn_id t) [] (bp_wal s) else bp_wal s)"
  shows "durable st (if cs \<noteq> [] then done @ [Txn (tc_txn_id t) cs Committed] else done) (s\<lparr>bp_wal := w, bp_txn := None\<rparr>)"
proof -
  have d: "sized st" "list_all closed_ok done" "logged_view s0 = committed_state st done" using assms(1) by (simp_all add: durable_def)
  have c: "pool_ok s" "list_all change_ok cs" "list_all is_patch cs" "logged_view s = fold redo_change cs (logged_view s0)"
    using assms(2) by (auto simp: txn_trace_def)
  obtain w0 where w0: "wal_log w0 = []" "wal_log (bp_wal s) = wal_log (wal_run (history_entries done (tc_txn_id t) cs) w0)"
    "wal_next_lsn (bp_wal s) = wal_next_lsn (wal_run (history_entries done (tc_txn_id t) cs) w0)"
    using trace_log [OF assms(1-3)] by blast
  note td = trace_disk [OF assms(1,2)]
  show ?thesis
  proof (cases "cs = []")
    case True
    then show ?thesis using d c w0 td w by (auto simp: durable_def history_entries_def)
  next
    case False
    let ?done = "done @ [Txn (tc_txn_id t) cs Committed]"
    have cc: "committed_changes ?done = committed_changes done @ cs" by (simp add: committed_changes_def)
    have h: "concat (map txn_entries ?done) = history_entries done (tc_txn_id t) cs @ [(Commit, tc_txn_id t, [])]"
      by (simp add: history_entries_def txn_entries_def)
    have lg: "wal_log w = wal_log (wal_run (concat (map txn_entries ?done)) w0) \<and> wal_next_lsn w = wal_next_lsn (wal_run (concat (map txn_entries ?done)) w0)"
      unfolding h wal_run_append using w0(2,3) False w by (simp add: wal_append_def Let_def)
    have "log_covers done cs pid i \<Longrightarrow> log_covers ?done [] pid i" for pid i
      using patch_covers c(3) unfolding log_covers_def cc list_all_iff by fastforce
    then have dk: "log_covers ?done [] pid i \<or> disk_page (bp_files s) pid ! i = st pid ! i" if "i < PAGE_SIZE" for pid i
      using td [OF that] by blast
    have "list_all closed_ok ?done" using d(2) c(2) by (simp add: closed_ok_def)
    moreover have "logged_view s = committed_state st ?done" using c(4) d(3) by (simp add: committed_state_def cc)
    ultimately show ?thesis using d(1) c(1) lg w0(1) dk False by (auto simp: durable_def)
  qed
qed

lemma less_succ_le: "a \<noteq> - 1 \<Longrightarrow> x < a + 1 \<longleftrightarrow> x \<le> a" for a x :: u64
proof -
  assume "a \<noteq> - 1"
  then have "1 + a \<noteq> 0" by (metis add.commute add_eq_0_iff2)
  then have "unat (a + 1) = Suc (unat a)" by (metis add.commute unatSuc)
  then show ?thesis by (simp add: word_less_nat_alt word_le_nat_alt less_Suc_eq_le)
qed

lemma commit_settled:
  assumes "settled n e st" "begin_txn e = Inr e0" "wal_next_txn_id (bp_wal (en_store e)) \<noteq> - 1"
    and "txn_run (en_store e0) cs (en_store e1)" "page_view (en_store e1) = logged_view (en_store e1)" "commit_txn e1 = Inr e2"
  shows "settled n e2 (page_view (en_store e1))"
proof -
  obtain st0 "done" t where b: "durable st0 done (en_store e0)" "bp_txn (en_store e0) = Some t" "t = new_txn (wal_next_txn_id (bp_wal (en_store e)))"
    "distinct (map tx_id done)" "\<forall>x \<in> set done. tx_id x < tc_txn_id t" "length (bp_frames (en_store e0)) = n"
    "wal_next_txn_id (bp_wal (en_store e0)) = tc_txn_id t + 1"
    using begin_view [OF assms(1,2)] by blast
  have tr: "txn_trace (en_store e0) cs (en_store e1)"
    using run_traces [OF assms(4) _ b(2)] b(1) by (simp add: durable_def)
  obtain u where t: "bp_txn (en_store e1) = Some u" "tc_pending_drops u = []" "tc_wrote u \<longleftrightarrow> cs \<noteq> []" "tc_txn_id u = tc_txn_id t"
    "length (bp_frames (en_store e1)) = n" "wal_next_txn_id (bp_wal (en_store e1)) = tc_txn_id t + 1"
    using tr b(2,3,6,7) by (auto simp: txn_trace_def new_txn_def)
  let ?w = "if cs \<noteq> [] then wal_append Commit (tc_txn_id t) [] (bp_wal (en_store e1)) else bp_wal (en_store e1)"
  let ?done = "if cs \<noteq> [] then done @ [Txn (tc_txn_id t) cs Committed] else done"
  have s: "en_store e2 = (en_store e1)\<lparr>bp_wal := ?w, bp_txn := None\<rparr>"
    using commit_view [OF t(1,2)] assms(6) t(3,4) by auto
  have dur: "durable st0 ?done (en_store e2)" unfolding s by (rule commit_durable [OF b(1) tr b(2) refl])
  have lt: "x < tc_txn_id t + 1 \<longleftrightarrow> x \<le> tc_txn_id t" for x
    using assms(3) b(3) by (intro less_succ_le) (simp add: new_txn_def)
  have w: "bp_wal (en_store e2) = ?w" "page_view (en_store e2) = page_view (en_store e1)" "logged_view (en_store e2) = logged_view (en_store e1)"
    "bp_txn (en_store e2) = None" "length (bp_frames (en_store e2)) = n" using t(5) by (simp_all add: s)
  have "distinct (map tx_id ?done) \<and> (\<forall>x \<in> set ?done. tx_id x < wal_next_txn_id (bp_wal (en_store e2)))"
    unfolding w(1) using b(4,5) t(6) by (auto simp: lt wal_append_def Let_def less_imp_le)
  then show ?thesis unfolding settled_def using dur assms(5) w(2-5) by metis
qed

lemma crash_settled:
  assumes "settled n e st" "begin_txn e = Inr e0" "txn_run (en_store e0) cs (en_store e1)" "torn b"
  shows "\<exists>e2. restart m e1 b = Inr e2 \<and> settled m e2 st"
proof -
  obtain st0 "done" t where b: "durable st0 done (en_store e0)" "bp_txn (en_store e0) = Some t"
    "distinct (map tx_id done)" "\<forall>x \<in> set done. tx_id x < tc_txn_id t" "logged_view (en_store e0) = st"
    using begin_view [OF assms(1,2)] by blast
  have tr: "txn_trace (en_store e0) cs (en_store e1)"
    using run_traces [OF assms(3) _ b(2)] b(1) by (simp add: durable_def)
  obtain r k where r: "rec_fits r" "k < length (rec_bytes r)" "b = take k (rec_bytes r)" using assms(4) by (auto simp: torn_def)
  have nin: "tc_txn_id t \<notin> tx_id ` set done" using b(4) by auto
  have "wal_log (wal_init (wal_log (bp_wal (en_store e1)) @ b)) = wal_log (bp_wal (en_store e1)) @ take k (rec_bytes r)"
    by (simp add: r(3) wal_init_def)
  from crash_undoes [OF b(1) tr b(2,3) nin r(1,2) this] b(5) restart_view show ?thesis by metis
qed

lemma write_back_all_ok:
  assumes "pool_ok s" "page_view s = logged_view s" "set ks \<subseteq> {..<length (bp_frames s)}"
  shows "\<exists>s'. write_back_all ks s = Inr s' \<and> pool_ok s' \<and> same_outside s s' \<and> bp_table s' = bp_table s
    \<and> (\<forall>k < length (bp_frames s). (k \<in> set ks \<or> \<not> fr_dirty (bp_frames s ! k)) \<longrightarrow> fr_valid (bp_frames s' ! k) \<longrightarrow> \<not> fr_dirty (bp_frames s' ! k))"
  using assms
proof (induction ks arbitrary: s)
  case Nil
  then show ?case by auto
next
  case (Cons k ks)
  have k: "k < length (bp_frames s)" using Cons.prems(3) by simp
  have "fr_data (bp_frames s ! k) = fr_before (bp_frames s ! k)" if "fr_valid (bp_frames s ! k)"
  proof -
    have "bp_table s (fr_page (bp_frames s ! k)) = Some k" using pool_ok_table [OF Cons.prems(1)] k that by simp
    then show ?thesis using fun_cong [OF Cons.prems(2), of "fr_page (bp_frames s ! k)"] by (simp add: page_view_def logged_view_def)
  qed
  from write_back_ok [OF Cons.prems(1) k this] obtain s1 b where
    s1: "write_back k s = Inr s1" "pool_ok s1" "same_outside s s1" "bp_table s1 = bp_table s"
      "bp_frames s1 = (bp_frames s)[k := (bp_frames s ! k)\<lparr>fr_dirty := b\<rparr>]" "fr_valid (bp_frames s1 ! k) \<longrightarrow> \<not> fr_dirty (bp_frames s1 ! k)"
    by blast
  have "page_view s1 = logged_view s1" "length (bp_frames s1) = length (bp_frames s)"
    using s1(3) Cons.prems(2) by (simp_all add: same_outside_def)
  with Cons.IH [OF s1(2)] Cons.prems(3) obtain s2 where
    s2: "write_back_all ks s1 = Inr s2" "pool_ok s2" "same_outside s1 s2" "bp_table s2 = bp_table s1"
      "\<And>j. j < length (bp_frames s) \<Longrightarrow> (j \<in> set ks \<or> \<not> fr_dirty (bp_frames s1 ! j)) \<Longrightarrow> fr_valid (bp_frames s2 ! j) \<Longrightarrow> \<not> fr_dirty (bp_frames s2 ! j)"
    by auto
  have vs: "fr_valid (bp_frames s2 ! j) \<longleftrightarrow> fr_valid (bp_frames s1 ! j)" if "j < length (bp_frames s)" for j
    using that pool_ok_table [OF s1(2), of _ j] pool_ok_table [OF s2(2), of _ j] s1(3) s2(3,4) by (auto simp: same_outside_def)
  have "\<not> fr_dirty (bp_frames s2 ! j)" if "j < length (bp_frames s)" "j \<in> set (k # ks) \<or> \<not> fr_dirty (bp_frames s ! j)" "fr_valid (bp_frames s2 ! j)" for j
  proof (cases "j = k")
    case True
    then show ?thesis using that s1(6) s2(5) [OF that(1)] vs [OF that(1)] by auto
  next
    case False
    then show ?thesis using that s1(5) s2(5) [OF that(1)] by auto
  qed
  then show ?case using s1(1,4) s2(1,2,4) same_outside_trans [OF s1(3) s2(3)] by auto
qed

text \<open>A checkpoint leaves every committed byte on disk, so the empty log restores the same pages.\<close>

lemma checkpoint_settled:
  assumes "settled n e st"
  shows "\<exists>e'. checkpoint e = Inr e' \<and> settled n e' st \<and> disk_page (bp_files (en_store e')) = st \<and> wal_log (bp_wal (en_store e')) = []"
proof -
  let ?s = "en_store e"
  have a: "pool_ok ?s" "page_view ?s = logged_view ?s" "bp_txn ?s = None" "length (bp_frames ?s) = n" "logged_view ?s = st"
    using assms by (auto simp: settled_def durable_def)
  obtain s1 where s1: "pool_flush_all ?s = Inr s1" "pool_ok s1" "same_outside ?s s1" "bp_table s1 = bp_table ?s"
    "\<And>k. k < n \<Longrightarrow> fr_valid (bp_frames s1 ! k) \<Longrightarrow> \<not> fr_dirty (bp_frames s1 ! k)"
    using write_back_all_ok [OF a(1,2), of "[0..<length (bp_frames ?s)]"] a(4) by (auto simp: pool_flush_all_def lessThan_atLeast0)
  have v: "page_view s1 = st" "logged_view s1 = st" "bp_txn s1 = None" "length (bp_frames s1) = n"
    using s1(3) a by (simp_all add: same_outside_def)
  have "disk_page (bp_files s1) pid = logged_view s1 pid" for pid
  proof (cases "bp_table s1 pid")
    case (Some k)
    then have "k < n" "fr_valid (bp_frames s1 ! k)" "fr_page (bp_frames s1 ! k) = pid" using pool_ok_table [OF s1(2), of pid k] v(4) by auto
    then show ?thesis using s1(5) [of k] pool_ok_frame [OF s1(2), of k] v(4) Some by (simp add: frame_ok_def logged_view_def)
  qed (simp add: logged_view_def)
  then have dk: "disk_page (bp_files s1) = st" using v(2) by (simp add: fun_eq_iff)
  let ?s2 = "s1\<lparr>bp_wal := wal_reset (bp_wal s1)\<rparr>"
  have "\<exists>w0. wal_log w0 = [] \<and> wal_log (bp_wal ?s2) = wal_log (wal_run [] w0) \<and> wal_next_lsn (bp_wal ?s2) = wal_next_lsn (wal_run [] w0)"
    by (intro exI [of _ "wal_reset (bp_wal s1)"]) (simp add: wal_reset_def)
  then have "durable st [] ?s2"
    using s1(2) v dk sized_logged [OF s1(2)] by (auto simp: durable_def committed_state_def committed_changes_def)
  then have "settled n (e\<lparr>en_store := ?s2\<rparr>) st" using v by (fastforce simp: settled_def)
  moreover have "checkpoint e = Inr (e\<lparr>en_store := ?s2\<rparr>)" using s1(1) a(3) by (simp add: checkpoint_def)
  ultimately show ?thesis using dk by (simp add: wal_reset_def)
qed

lemma torn_empty: "torn []"
  unfolding torn_def by (rule exI [of _ "\<lparr>rec_lsn = 0, rec_txn = 0, rec_op = 0, rec_payload = []\<rparr>"], rule exI [of _ 0])
    (simp add: rec_fits_def rec_bytes_def wal_record_bytes_def)

lemma new_settled: "\<exists>e. eng_open (engine_init n Map.empty []) = Inr e \<and> settled n e (\<lambda>_. replicate PAGE_SIZE 0)"
proof -
  let ?e = "engine_init n Map.empty []"
  have p: "parse_log [] = []" by (simp add: parse_log.simps [of "[]"] parse_record_def WAL_HEADER_SIZE_def)
  have rl: "fst (read_log (wal_reader_open (Some []))) = []" using p by (simp add: read_log_parse)
  have z: "disk_page Map.empty = (\<lambda>_. replicate PAGE_SIZE 0)" by (rule ext) (simp add: disk_page_alt file_bytes_def get_at_def)
  obtain st where "recover Map.empty (wal_init []) = Inr (Map.empty, wal_init [], st)"
    by (simp add: recover_def wal_init_def rl no_stats_def)
  moreover have "bp_files (en_store ?e) = Map.empty" "wal_log (bp_wal (en_store ?e)) = []" "wal_log (wal_init []) = []"
    by (simp_all add: engine_init_def pool_init_def wal_init_def)
  ultimately have "\<exists>e'. restart n ?e [] = Inr e' \<and> settled n e' (disk_page Map.empty)"
    by (intro restart_view [of ?e "[]" _ "wal_init []" st]) simp_all
  then show ?thesis using z by (simp add: restart_def engine_init_def pool_init_def wal_init_def)
qed

lemma history_settled: "history n e st \<Longrightarrow> settled n e st"
proof (induction rule: history.induct)
  case (hist_new e)
  then show ?case using new_settled [of n] by auto
next
  case (hist_commit e st e0 cs e1 e2)
  then show ?case using commit_settled [OF hist_commit.IH] by blast
next
  case (hist_crash e st e0 cs e1 b e2)
  then show ?case using crash_settled [OF hist_crash.IH hist_crash.hyps(2-4), of n] by auto
next
  case (hist_checkpoint e st e')
  then show ?case using checkpoint_settled [OF hist_checkpoint.IH] by auto
qed

section \<open>Crash safety and rollback\<close>

lemma begin_succeeds: "settled n e st \<Longrightarrow> \<exists>e0. begin_txn e = Inr e0 \<and> bp_files (en_store e0) = bp_files (en_store e)
    \<and> wal_log (bp_wal (en_store e0)) = wal_log (bp_wal (en_store e))"
  by (auto simp: begin_txn_def settled_def wal_alloc_txn_id_def Let_def)

lemma idle_crash: "settled n e st \<Longrightarrow> torn b \<Longrightarrow> \<exists>e2. restart m e b = Inr e2 \<and> settled m e2 st"
proof -
  assume s: "settled n e st" and b: "torn b"
  obtain e0 where e0: "begin_txn e = Inr e0" "bp_files (en_store e0) = bp_files (en_store e)"
    "wal_log (bp_wal (en_store e0)) = wal_log (bp_wal (en_store e))" using begin_succeeds [OF s] by blast
  then show ?thesis using crash_settled [OF s e0(1) run_start b, of m] by (simp add: restart_def)
qed

lemma run_can_commit:
  assumes "settled n e st" "begin_txn e = Inr e0" "txn_run (en_store e0) cs (en_store e1)"
  shows "\<exists>e2. commit_txn e1 = Inr e2"
proof -
  obtain st0 "done" t where b: "durable st0 done (en_store e0)" "bp_txn (en_store e0) = Some t" "t = new_txn (wal_next_txn_id (bp_wal (en_store e)))"
    using begin_view [OF assms(1,2)] by blast
  have "txn_trace (en_store e0) cs (en_store e1)" using run_traces [OF assms(3) _ b(2)] b(1) by (simp add: durable_def)
  then obtain u where "bp_txn (en_store e1) = Some u" "tc_pending_drops u = []"
    using b(2,3) by (auto simp: txn_trace_def new_txn_def)
  then show ?thesis using commit_view by blast
qed

text \<open>
  C1. Atomicity and durability. Take any engine history of committed transactions, checkpoints and
  crashes, and run any sequence of page operations inside a new transaction. If the process dies,
  possibly in the middle of writing a log record, and starts again, with any number of frames, the pages are those of the
  committed transactions; if it dies right after the commit, they are those the transaction left.
\<close>

theorem crash_atomic:
  assumes "history n e st" "wal_next_txn_id (bp_wal (en_store e)) \<noteq> - 1" "begin_txn e = Inr e0"
    and "txn_run (en_store e0) cs (en_store e1)" "page_view (en_store e1) = logged_view (en_store e1)" "torn b"
  shows "(\<exists>e2. restart m e1 b = Inr e2 \<and> page_view (en_store e2) = st)
    \<and> (\<exists>e' e2. commit_txn e1 = Inr e' \<and> restart m e' b = Inr e2 \<and> page_view (en_store e2) = page_view (en_store e1))"
proof -
  note s = history_settled [OF assms(1)]
  obtain e' where c: "commit_txn e1 = Inr e'" using run_can_commit [OF s assms(3,4)] by blast
  have "settled n e' (page_view (en_store e1))" by (rule commit_settled [OF s assms(3,2,4,5) c])
  then show ?thesis using crash_settled [OF s assms(3,4,6), of m] idle_crash [OF _ assms(6), of n e' _ m] c by (fastforce simp: settled_def)
qed

definition demo_engine :: engine where
  "demo_engine = (engine_init 2 Map.empty [])\<lparr>en_opened := True\<rparr>"

lemma demo_opens: "eng_open (engine_init 2 Map.empty []) = Inr demo_engine"
proof -
  have p: "parse_log [] = []" by (simp add: parse_log.simps [of "[]"] parse_record_def WAL_HEADER_SIZE_def)
  have rl: "fst (read_log (wal_reader_open (Some []))) = []" using p by (simp add: read_log_parse)
  have m: "map (\<lambda>_. empty_frame) (replicate 2 empty_frame) = replicate 2 empty_frame" by (simp add: map_replicate_const)
  show ?thesis
    by (simp add: demo_engine_def eng_open_def engine_init_def pool_init_def recover_def wal_init_def rl no_stats_def pool_invalidate_all_def m)
qed

lemma demo_history: "history 2 demo_engine (\<lambda>_. replicate PAGE_SIZE 0)"
  by (rule hist_new [OF demo_opens])

definition demo_start :: engine where
  "demo_start = demo_engine\<lparr>en_store := (en_store demo_engine)\<lparr>bp_wal := (wal_init [])\<lparr>wal_next_txn_id := 2\<rparr>, bp_txn := Some (new_txn 1)\<rparr>\<rparr>"

lemma demo_begins: "begin_txn demo_engine = Inr demo_start" "wal_next_txn_id (bp_wal (en_store demo_engine)) \<noteq> - 1"
  by (simp_all add: demo_start_def demo_engine_def begin_txn_def engine_init_def pool_init_def wal_init_def wal_alloc_txn_id_def Let_def)

definition demo_data :: bytes where
  "demo_data = put_at 100 [9] (replicate PAGE_SIZE 0)"

text \<open>A transaction that allocates a page, writes it, logs the change and lets go of the page.\<close>

lemma demo_runs:
  "\<exists>cs s. txn_run (en_store demo_start) cs s \<and> page_view s = logged_view s \<and> page_view s = (\<lambda>_. replicate PAGE_SIZE 0)(demo_pid := demo_data)"
proof -
  let ?s0 = "en_store demo_start" and ?z = "\<lambda>_ :: page_id. replicate PAGE_SIZE (0 :: u8)"
  have s0: "pool_ok ?s0" "bp_txn ?s0 = Some (new_txn 1)" "page_view ?s0 = ?z" "logged_view ?s0 = ?z" "has_free ?s0"
    "bp_table ?s0 demo_pid = None" "disk_page (bp_files ?s0) demo_pid = replicate PAGE_SIZE 0"
    using pool_init_ok [of 2 Map.empty "wal_init []"]
    by (simp_all add: demo_start_def demo_engine_def engine_init_def fun_eq_iff)
      (simp_all add: pool_init_def page_view_def logged_view_def disk_page_alt file_bytes_def get_at_def has_free_def empty_frame_def numeral_2_eq_2)
  obtain k s1 where s1: "pool_allocate demo_pid ?s0 = Inr (k, s1)" "fetched ?s0 demo_pid k s1"
    using pool_allocate_view [OF s0(1), of demo_pid] s0 by (auto simp: pin_room_def)
  have r1: "txn_run ?s0 [] s1"
    by (rule run_allocate [OF run_start _ _ s1(1)]) (simp_all add: pin_room_def s0 page_all_zero_def)
  have f: "pool_ok s1" "held s1 demo_pid k" "page_view s1 = ?z" "logged_view s1 = ?z" "bp_txn s1 = Some (new_txn 1)"
    using s1(2) s0 by (auto simp: fetched_def same_outside_def held_def pin_of_def)
  note h = held_frame [OF f(1,2)]
  have len: "length demo_data = PAGE_SIZE" by (simp add: demo_data_def length_put_at PAGE_SIZE_def)
  let ?s2 = "edit_page k demo_data s1"
  note e = edit_page_ok [OF f(1) h(1,2,4) len]
  have r2: "txn_run ?s0 [] ?s2" by (rule run_edit [OF r1 f(2) len])
  have k2: "k < length (bp_frames ?s2)" "fr_valid (bp_frames ?s2 ! k)" "fr_page (bp_frames ?s2 ! k) = demo_pid" "bp_txn ?s2 = Some (new_txn 1)"
    using h(1-3) f(5) by (simp_all add: edit_page_def)
  obtain s3 where s3: "pool_mark_dirty k ?s2 = Inr s3" "page_view s3 = page_view ?s2" "logged_view s3 = (logged_view ?s2)(demo_pid := page_view ?s2 demo_pid)"
    using pool_mark_dirty_ok [OF e(1) k2(1,2,4)] k2(3) by auto
  have "pid_file (fr_page (bp_frames ?s2 ! k)) \<noteq> 0" by (simp add: k2(3) demo_pid_def)
  from run_dirty [OF r2 this s3(1)] show ?thesis
    using s3(2,3) e(2,3) h(3) f(3,4) by (intro exI conjI) auto
qed

theorem crash_atomic_witness:
  "\<exists>e1. page_view (en_store e1) demo_pid = demo_data
    \<and> (\<exists>e2. restart 2 e1 [] = Inr e2 \<and> page_view (en_store e2) = (\<lambda>_. replicate PAGE_SIZE 0))
    \<and> (\<exists>e' e2. commit_txn e1 = Inr e' \<and> restart 2 e' [] = Inr e2 \<and> page_view (en_store e2) = page_view (en_store e1))"
proof -
  obtain cs s where r: "txn_run (en_store demo_start) cs s" "page_view s = logged_view s" "page_view s = (\<lambda>_. replicate PAGE_SIZE 0)(demo_pid := demo_data)"
    using demo_runs by blast
  let ?e1 = "demo_start\<lparr>en_store := s\<rparr>"
  have "txn_run (en_store demo_start) cs (en_store ?e1)" "page_view (en_store ?e1) = logged_view (en_store ?e1)" using r by simp_all
  from crash_atomic [OF demo_history demo_begins(2,1) this torn_empty, of 2] show ?thesis
    using r(3) by (intro exI [of _ ?e1]) simp
qed

text \<open>
  C13. Between transactions the engine shows the committed pages, no transaction is active, and a
  checkpoint succeeds: it leaves exactly the committed pages on disk and an empty log.
\<close>

theorem checkpoint_complete:
  assumes "history n e st"
  shows "bp_txn (en_store e) = None \<and> pool_ok (en_store e) \<and> page_view (en_store e) = st
    \<and> (\<exists>e'. checkpoint e = Inr e' \<and> page_view (en_store e') = st \<and> disk_page (bp_files (en_store e')) = st \<and> wal_log (bp_wal (en_store e')) = [])"
  using history_settled [OF assms] checkpoint_settled [OF history_settled [OF assms]] by (auto simp: settled_def durable_def)

theorem checkpoint_complete_witness:
  "page_view (en_store demo_engine) = (\<lambda>_. replicate PAGE_SIZE 0)
    \<and> (\<exists>e'. checkpoint demo_engine = Inr e' \<and> disk_page (bp_files (en_store e')) = (\<lambda>_. replicate PAGE_SIZE 0))"
  using checkpoint_complete [OF demo_history] by blast

text \<open>
  C2. Rolling back a transaction, whatever pages it wrote and whichever of them were evicted to
  disk in between, succeeds and shows the pages as they were at its start; the log gains an abort
  record exactly when something was changed, and nothing is left to log.
\<close>

theorem rollback_restores:
  assumes "history n e st" "begin_txn e = Inr e0" "txn_run (en_store e0) cs (en_store e1)" "page_view (en_store e1) = logged_view (en_store e1)"
  shows "\<exists>e2. rollback_txn e1 = Inr e2 \<and> pool_ok (en_store e2) \<and> bp_txn (en_store e2) = None
    \<and> page_view (en_store e2) = st \<and> logged_view (en_store e2) = st
    \<and> bp_wal (en_store e2) = (if cs = [] then bp_wal (en_store e1)
        else wal_append Abort (wal_next_txn_id (bp_wal (en_store e))) [] (bp_wal (en_store e1)))"
proof -
  obtain st0 "done" t where b: "durable st0 done (en_store e0)" "bp_txn (en_store e0) = Some t" "t = new_txn (wal_next_txn_id (bp_wal (en_store e)))"
    "logged_view (en_store e0) = st"
    using begin_view [OF history_settled [OF assms(1)] assms(2)] by blast
  have ok: "pool_ok (en_store e0)" using b(1) by (simp add: durable_def)
  have "tc_undo t = []" "\<not> tc_wrote t" "tc_txn_id t = wal_next_txn_id (bp_wal (en_store e))" by (simp_all add: b(3) new_txn_def)
  then show ?thesis
    using rollback_pages [OF ok b(2) _ run_traces [OF assms(3) ok b(2)] assms(4) refl] b(4) by (cases "cs = []") auto
qed

theorem rollback_restores_witness:
  "\<exists>e1 e2. page_view (en_store e1) demo_pid = demo_data \<and> rollback_txn e1 = Inr e2 \<and> page_view (en_store e2) = (\<lambda>_. replicate PAGE_SIZE 0)"
proof -
  obtain cs s where r: "txn_run (en_store demo_start) cs s" "page_view s = logged_view s" "page_view s = (\<lambda>_. replicate PAGE_SIZE 0)(demo_pid := demo_data)"
    using demo_runs by blast
  let ?e1 = "demo_start\<lparr>en_store := s\<rparr>"
  have "txn_run (en_store demo_start) cs (en_store ?e1)" "page_view (en_store ?e1) = logged_view (en_store ?e1)" using r by simp_all
  from rollback_restores [OF demo_history demo_begins(1) this] obtain e2 where
    "rollback_txn ?e1 = Inr e2" "page_view (en_store e2) = (\<lambda>_. replicate PAGE_SIZE 0)" by blast
  then show ?thesis using r(3) by (intro exI [of _ ?e1] exI [of _ e2]) simp
qed

end
