(* ===== verification/Tables.thy ===== *)
theory Tables
  imports Durability
begin

text \<open>
  Heap files as tables: the engine's insertion, deletion, access by location and full reads, proved
  against a table that is a list of located records. The first part describes the steps of a client
  of the buffer pool (read, edit, log, release) by what they do to pages and pins; then a file is a
  header page and a chain of heap pages, and every operation is followed through the pool.
\<close>

section \<open>Steps of a client\<close>

text \<open>Between operations of a client no page is pinned; then every view of the pool is logged.\<close>

definition idle :: "store \<Rightarrow> bool" where
  "idle s \<longleftrightarrow> pool_ok s \<and> pin_of s = (\<lambda>_. 0)"

lemma unpinned_logged:
  assumes "pool_ok s" "pin_of s pid = 0"
  shows "page_view s pid = logged_view s pid"
proof (cases "bp_table s pid")
  case (Some k)
  then have "k < length (bp_frames s)" "fr_valid (bp_frames s ! k)" using pool_ok_table [OF assms(1), of pid k] by auto
  then show ?thesis using Some assms(2) pool_ok_frame [OF assms(1), of k] by (simp add: pin_of_def page_view_def logged_view_def frame_ok_def)
qed (simp add: page_view_def logged_view_def)

lemma idle_logged: "idle s \<Longrightarrow> page_view s = logged_view s"
  using unpinned_logged by (auto simp: idle_def fun_eq_iff)

lemma run_trans: "txn_run b ds c \<Longrightarrow> txn_run a cs b \<Longrightarrow> txn_run a (cs @ ds) c"
proof (induction rule: txn_run.induct)
  case (run_dirty ds s k s')
  then show ?case using txn_run.run_dirty [OF run_dirty.IH [OF run_dirty.prems] run_dirty.hyps(2,3)] by simp
qed (auto intro: txn_run.intros)

lemma pinned_simps:
  "pinned s = {} \<longleftrightarrow> pin_of s = (\<lambda>_. 0)"
  by (auto simp: pinned_def fun_eq_iff)

text \<open>What a step keeps besides pages and pins.\<close>

definition kept :: "store \<Rightarrow> store \<Rightarrow> bool" where
  "kept s s' \<longleftrightarrow> pool_ok s' \<and> length (bp_frames s') = length (bp_frames s) \<and> (\<exists>cs. txn_run s cs s')
     \<and> (\<forall>t. bp_txn s = Some t \<longrightarrow> (\<exists>t'. bp_txn s' = Some t' \<and> tc_txn_id t' = tc_txn_id t \<and> tc_pending_drops t' = tc_pending_drops t
          \<and> tc_tail_undo t' = tc_tail_undo t))"

lemma kept_trans: "kept a b \<Longrightarrow> kept b c \<Longrightarrow> kept a c"
proof -
  assume ab: "kept a b" and bc: "kept b c"
  obtain cs ds where "txn_run a cs b" "txn_run b ds c" using ab bc by (auto simp: kept_def)
  then have "txn_run a (cs @ ds) c" using run_trans by blast
  then show ?thesis using ab bc by (fastforce simp: kept_def)
qed

lemma kept_refl: "pool_ok s \<Longrightarrow> kept s s"
  unfolding kept_def using run_start by blast

lemma fetched_kept: "fetched s pid k s' \<Longrightarrow> txn_run s cs s' \<Longrightarrow> kept s s'"
  by (auto simp: kept_def fetched_def same_outside_def)

lemma fetched_held: "fetched s pid k s' \<Longrightarrow> held s' pid k"
proof -
  assume f: "fetched s pid k s'"
  then have "bp_table s' pid = Some k" "fr_pin (bp_frames s' ! k) \<noteq> 0" by (auto simp: fetched_def)
  then show ?thesis unfolding held_def pin_of_def by simp
qed

lemma fetched_views:
  "fetched s pid k s' \<Longrightarrow> page_view s' = page_view s \<and> logged_view s' = logged_view s \<and> frame_data k s' = page_view s pid
    \<and> pin_of s' = (pin_of s)(pid := pin_of s pid + 1) \<and> bp_txn s' = bp_txn s"
  by (simp add: fetched_def same_outside_def frame_data_def)

lemma room_pin: "pin_of s pid \<noteq> - 1 \<Longrightarrow> pin_room s pid"
  by (auto simp: pin_of_def pin_room_def split: option.splits)

lemma read_step:
  assumes "pool_ok s" "pin_of s pid \<noteq> - 1" "card (pinned s) < length (bp_frames s)" "page_valid (page_view s pid) magic"
  shows "\<exists>k s'. pool_read pid magic s = Inr (k, s') \<and> fetched s pid k s' \<and> kept s s'"
proof -
  have "\<exists>k s'. pool_read pid magic s = Inr (k, s') \<and> fetched s pid k s'"
    using pool_read_view [OF assms(1) room_pin [OF assms(2)], of magic] has_free_card [OF assms(1,3)] assms(4) by auto
  then show ?thesis using run_read [OF run_start room_pin [OF assms(2)]] fetched_kept by blast
qed

lemma allocate_step:
  assumes "pool_ok s" "pin_of s pid \<noteq> - 1" "card (pinned s) < length (bp_frames s)" "page_view s pid = replicate PAGE_SIZE 0"
  shows "\<exists>k s'. pool_allocate pid s = Inr (k, s') \<and> fetched s pid k s' \<and> kept s s'"
proof -
  obtain k s' where a: "pool_allocate pid s = Inr (k, s')" "fetched s pid k s'"
    using pool_allocate_view [OF assms(1) room_pin [OF assms(2)]] has_free_card [OF assms(1,3)] assms(4) by blast
  have "bp_table s pid = None \<longrightarrow> page_all_zero (disk_page (bp_files s) pid)"
    using assms(4) by (auto simp: page_view_def page_all_zero_def)
  then have "txn_run s [] s'" using run_allocate [OF run_start room_pin [OF assms(2)] _ a(1)] by simp
  then show ?thesis using a fetched_kept [OF a(2)] by blast
qed

lemma held_view: "held s pid k \<Longrightarrow> frame_data k s = page_view s pid"
  by (simp add: held_def frame_data_def page_view_def)

text \<open>Letting go of a page: the pins drop by one, nothing else changes.\<close>

lemma unpin_step:
  assumes "pool_ok s" "held s pid k" "page_view s pid = logged_view s pid"
  shows "\<exists>s'. pool_unpin k s = Inr s' \<and> kept s s' \<and> same_outside s s' \<and> bp_files s' = bp_files s
    \<and> pin_of s' = (pin_of s)(pid := pin_of s pid - 1) \<and> (\<forall>q j. q \<noteq> pid \<longrightarrow> held s q j \<longrightarrow> held s' q j)"
proof -
  note h = held_frame [OF assms(1,2)]
  have t: "bp_table s pid = Some k" using assms(2) by (simp add: held_def)
  have eq: "fr_data (bp_frames s ! k) = fr_before (bp_frames s ! k)" using assms(3) t by (simp add: page_view_def logged_view_def)
  obtain s' where s': "pool_unpin k s = Inr s'" "pool_ok s'" "same_outside s s'" using pool_unpin_ok [OF assms(1) h(1,2) eq] by blast
  let ?g = "\<lambda>f. f\<lparr>fr_pin := fr_pin f - 1\<rparr>"
  have u: "s' = upd_frame k ?g s" using s'(1) h by (simp add: pool_unpin_def frame_index_def word_gt_0)
  have p: "pin_of s' q = ((pin_of s)(pid := pin_of s pid - 1)) q" for q
  proof (cases "bp_table s q")
    case (Some j)
    have "q = pid \<longleftrightarrow> j = k" using Some t pool_ok_table [OF assms(1)] by (metis option.inject)
    then show ?thesis using Some t h(1) by (cases "j = k") (simp_all add: u pin_of_def)
  qed (use t in \<open>auto simp: u pin_of_def\<close>)
  then have "pin_of s' = (pin_of s)(pid := pin_of s pid - 1)" by (simp add: fun_eq_iff)
  moreover from this have "\<forall>q j. q \<noteq> pid \<longrightarrow> held s q j \<longrightarrow> held s' q j" by (simp add: held_def u)
  moreover have "kept s s'" using run_unpin [OF run_start eq s'(1)] s'(2,3) by (auto simp: kept_def same_outside_def)
  ultimately show ?thesis using s' by (auto simp: u)
qed

text \<open>Writing a page, logging the change and letting go.\<close>

lemma finish_step:
  assumes "pool_ok s" "held s pid k" "length data = PAGE_SIZE" "pid_file pid \<noteq> 0" "bp_txn s = Some t"
  shows "\<exists>s'. finish k (edit_page k data s) = Inr s' \<and> kept s s' \<and> page_view s' = (page_view s)(pid := data)
    \<and> logged_view s' = (logged_view s)(pid := data) \<and> bp_files s' = bp_files s
    \<and> pin_of s' = (pin_of s)(pid := pin_of s pid - 1) \<and> (\<forall>q j. q \<noteq> pid \<longrightarrow> held s q j \<longrightarrow> held s' q j)"
proof -
  note h = held_frame [OF assms(1,2)]
  let ?s1 = "edit_page k data s"
  note e = edit_page_ok [OF assms(1) h(1,2,4) assms(3)]
  have s1: "bp_table ?s1 = bp_table s" "bp_txn ?s1 = bp_txn s" "bp_files ?s1 = bp_files s" "length (bp_frames ?s1) = length (bp_frames s)"
    "\<And>j. fr_pin (bp_frames ?s1 ! j) = fr_pin (bp_frames s ! j)" "fr_valid (bp_frames ?s1 ! k)" "fr_page (bp_frames ?s1 ! k) = pid"
    using h by (simp_all add: edit_page_def nth_list_update)
  have k1: "k < length (bp_frames ?s1)" "bp_txn ?s1 = Some t" using h(1) s1 assms(5) by simp_all
  obtain s2 where s2: "pool_mark_dirty k ?s1 = Inr s2" "pool_ok s2" "page_view s2 = page_view ?s1"
    "logged_view s2 = (logged_view ?s1)(pid := page_view ?s1 pid)" "bp_files s2 = bp_files ?s1" "length (bp_frames s2) = length (bp_frames ?s1)"
    "\<exists>u b. bp_txn s2 = Some (t\<lparr>tc_undo := u, tc_wrote := b\<rparr>)"
    using pool_mark_dirty_ok [OF e(1) k1(1) s1(6) k1(2)] s1(7) by auto
  have tb: "bp_table s2 = bp_table s" "\<And>j. fr_pin (bp_frames s2 ! j) = fr_pin (bp_frames s ! j)"
    using s2(1) k1 s1 by (auto simp: pool_mark_dirty_def frame_index_def log_page_diff_def Let_def nth_list_update split: prod.splits)
  then have pins: "pin_of s2 = pin_of s" by (auto simp: pin_of_def fun_eq_iff split: option.split)
  have hd: "held s2 q j \<longleftrightarrow> held s q j" for q j by (simp add: held_def tb pins)
  have r: "\<exists>cs. txn_run s cs s2"
    using run_dirty [OF run_edit [OF run_start assms(2,3)] _ s2(1)] s1(7) assms(4) by auto
  have k2: "kept s s2" using r s2(2,6,7) s1(4) assms(5) by (auto simp: kept_def)
  obtain s3 where s3: "pool_unpin k s2 = Inr s3" "kept s2 s3" "same_outside s2 s3" "bp_files s3 = bp_files s2"
    "pin_of s3 = (pin_of s2)(pid := pin_of s2 pid - 1)" "\<forall>q j. q \<noteq> pid \<longrightarrow> held s2 q j \<longrightarrow> held s3 q j"
    using unpin_step [OF s2(2), of pid k] hd assms(2) s2(3,4) by auto
  have "finish k ?s1 = Inr s3" using s2(1) s3(1) by (simp add: finish_def)
  moreover have "page_view s3 = (page_view s)(pid := data)" "logged_view s3 = (logged_view s)(pid := data)"
    using s3(3) s2(3,4) e(2,3) h(3) by (simp_all add: same_outside_def)
  ultimately show ?thesis using kept_trans [OF k2 s3(2)] s3(4-6) s2(5) s1(3) pins hd by auto
qed

section \<open>Heap files as lists of records\<close>

lemma heap_link:
  fixes p :: bytes and n :: u32
  assumes "heap_ok p"
  defines "q \<equiv> seal (set_next_page n p)"
  shows "heap_ok q" "page_slots q = page_slots p" "hd_next_page q = n" "hd_magic q = hd_magic p" "page_valid q m \<longleftrightarrow> hd_magic p = m"
    "length q = PAGE_SIZE"
proof -
  let ?s = "unat (hd_slot_count p)"
  have f: "length p = PAGE_SIZE" "24 \<le> unat (hd_free_begin p)" "unat (hd_free_begin p) \<le> unat (hd_free_end p)"
    "unat (hd_free_end p) + 4 * ?s = 4096" using assms(1) by (auto simp: heap_ok_def page_consts)
  have l: "length (set_next_page n p) = PAGE_SIZE" using f(1) by (simp add: header_defs buf_simps page_consts)
  have h: "hd_slot_count q = hd_slot_count p" "hd_free_begin q = hd_free_begin p" "hd_free_end q = hd_free_end p"
    unfolding q_def using l f(1) by (simp_all add: header_defs buf_simps page_consts)
  show mg: "hd_magic q = hd_magic p" "hd_next_page q = n" unfolding q_def using l f(1) by (simp_all add: header_defs buf_simps page_consts)
  show "page_valid q m \<longleftrightarrow> hd_magic p = m"
    unfolding q_def seal_valid [OF l] using f(1) by (simp add: header_defs buf_simps page_consts)
  show lq: "length q = PAGE_SIZE" unfolding q_def by (rule length_seal [OF l])
  have g: "get_at off m q = get_at off m p" if "24 \<le> off" "off + m \<le> 4096" for off m
    unfolding q_def using that l f(1) by (subst get_seal) (simp_all add: header_defs buf_simps page_consts)
  have si: "slot_in p k" if "k < ?s" for k using assms(1) that by (simp add: heap_ok_def)
  have k: "k < 1024" if "k < ?s" for k using that f by simp
  have old: "get_at (4092 - 4 * k) 4 q = get_at (4092 - 4 * k) 4 p" if "k < ?s" for k
    using that f by (intro g) auto
  have rec: "get_at 24 (unat (hd_free_begin p) - 24) q = get_at 24 (unat (hd_free_begin p) - 24) p"
    using f by (intro g) auto
  note fields = slot_fields_cong [OF f(1) lq k old]
  note same = page_slot_cong [OF f(1) lq k si old rec]
  show "page_slots q = page_slots p" using same(1) by (simp add: page_slots_def h)
  have "slot_in q j" if "j < ?s" for j using si [OF that] fields [OF that that] by (simp add: slot_in_def slot_tombstone_def h)
  moreover have "slots_ordered q i j" if "j < ?s" "i < j" for i j
  proof -
    have i: "i < ?s" using that by simp
    have "slots_ordered p i j" using assms(1) that by (simp add: heap_ok_def)
    then show ?thesis using fields [OF that(1) that(1)] fields [OF i i] by (simp add: slots_ordered_def slot_tombstone_def)
  qed
  ultimately show "heap_ok q" unfolding heap_ok_def h using f lq by (simp add: page_consts)
qed

text \<open>A chain of heap pages that ends with the page number \<^verbatim>\<open>n\<close>.\<close>

fun chain :: "(u32 \<Rightarrow> bytes) \<Rightarrow> u32 list \<Rightarrow> u32 \<Rightarrow> bool" where
  "chain g [] n \<longleftrightarrow> True"
| "chain g (c # cs) n \<longleftrightarrow> heap_ok (g c) \<and> page_valid (g c) MAGIC_HEAP \<and> hd_next_page (g c) = hd (cs @ [n]) \<and> chain g cs n"

lemma chain_append: "chain g (cs @ ds) n \<longleftrightarrow> chain g cs (hd (ds @ [n])) \<and> chain g ds n"
  by (induction cs) (auto simp: hd_append)

lemma chain_cong: "(\<And>c. c \<in> set cs \<Longrightarrow> g' c = g c) \<Longrightarrow> chain g' cs n = chain g cs n"
  by (induction cs) auto

definition heap_file :: "(page_id \<Rightarrow> bytes) \<Rightarrow> u64 \<Rightarrow> u32 list \<Rightarrow> bool" where
  "heap_file v fid cs \<longleftrightarrow> length (v (PageId fid 0)) = PAGE_SIZE \<and> page_valid (v (PageId fid 0)) MAGIC_FILE_HEADER
     \<and> hd_next_page (v (PageId fid 0)) = hd (cs @ [0]) \<and> chain (\<lambda>c. v (PageId fid c)) cs 0
     \<and> sorted_wrt (<) (0 # cs) \<and> (\<forall>no > last (0 # cs). v (PageId fid no) = replicate PAGE_SIZE 0)"

text \<open>The live records of a page and of a file, each with its location.\<close>

definition page_rows :: "page_id \<Rightarrow> bytes option list \<Rightarrow> (row_ref \<times> bytes) list" where
  "page_rows pid xs = concat (map (\<lambda>(i, x). case x of None \<Rightarrow> [] | Some r \<Rightarrow> [(RowRef pid (word_of_nat i), r)]) (enumerate 0 xs))"

definition heap_rows :: "(page_id \<Rightarrow> bytes) \<Rightarrow> u64 \<Rightarrow> u32 list \<Rightarrow> (row_ref \<times> bytes) list" where
  "heap_rows v fid cs = concat (map (\<lambda>c. page_rows (PageId fid c) (page_slots (v (PageId fid c)))) cs)"

lemma page_rows_append: "page_rows pid (xs @ [Some r]) = page_rows pid xs @ [(RowRef pid (word_of_nat (length xs)), r)]"
  by (simp add: page_rows_def enumerate_append_eq)

lemma page_rows_Nil [simp]: "page_rows pid [] = []"
  by (simp add: page_rows_def)

lemma heap_rows_cong: "(\<And>c. c \<in> set cs \<Longrightarrow> page_slots (v' (PageId fid c)) = page_slots (v (PageId fid c))) \<Longrightarrow> heap_rows v' fid cs = heap_rows v fid cs"
  unfolding heap_rows_def by (metis (mono_tags, lifting) map_cong)

lemma heap_rows_snoc: "heap_rows v fid (cs @ [c]) = heap_rows v fid cs @ page_rows (PageId fid c) (page_slots (v (PageId fid c)))"
  by (simp add: heap_rows_def)

lemma chain_page: "chain g cs n \<Longrightarrow> c \<in> set cs \<Longrightarrow> heap_ok (g c) \<and> page_valid (g c) MAGIC_HEAP"
  by (induction cs) auto

lemma chain_pos: "sorted_wrt (<) (0 # cs) \<Longrightarrow> c \<in> set cs \<Longrightarrow> (0 :: u32) < c"
  by auto

text \<open>Changing the header page without its link.\<close>

lemma heap_file_header:
  assumes "heap_file v fid cs" "length h = PAGE_SIZE" "page_valid h MAGIC_FILE_HEADER" "hd_next_page h = hd_next_page (v (PageId fid 0))"
  shows "heap_file (v(PageId fid 0 := h)) fid cs" "heap_rows (v(PageId fid 0 := h)) fid cs = heap_rows v fid cs"
proof -
  have nz: "c \<in> set cs \<Longrightarrow> c \<noteq> 0" for c using assms(1) chain_pos [of cs c] by (auto simp: heap_file_def)
  then have "chain (\<lambda>c. (v(PageId fid 0 := h)) (PageId fid c)) cs 0 = chain (\<lambda>c. v (PageId fid c)) cs 0" by (intro chain_cong) auto
  moreover have "no \<noteq> 0" if "no > last (0 # cs)" for no using that by auto
  ultimately show "heap_file (v(PageId fid 0 := h)) fid cs" using assms by (auto simp: heap_file_def)
  show "heap_rows (v(PageId fid 0 := h)) fid cs = heap_rows v fid cs" using nz by (intro heap_rows_cong) auto
qed

text \<open>The first data page of a file without any.\<close>

lemma sorted_last_less: "sorted_wrt (<) (0 # cs) \<Longrightarrow> last (0 # cs) < new \<Longrightarrow> sorted_wrt (<) (0 # (cs @ [new :: u32]))"
proof -
  assume s: "sorted_wrt (<) (0 # cs)" and l: "last (0 # cs) < new"
  have "c \<le> last (0 # cs)" if "c \<in> set (0 # cs)" for c
    using s that by (induction cs rule: rev_induct) (auto simp: sorted_wrt_append less_imp_le)
  then have "c < new" if "c \<in> set (0 # cs)" for c using that l order_le_less_trans by blast
  then show ?thesis using s by (simp add: sorted_wrt_append)
qed

lemma heap_file_extend:
  fixes v :: "page_id \<Rightarrow> bytes" and fid :: u64 and c new :: u32
  assumes "heap_file v fid (cs @ [c])" "new > c"
  defines "v' \<equiv> v(PageId fid new := init_page MAGIC_HEAP Heap, PageId fid c := seal (set_next_page new (v (PageId fid c))))"
  shows "heap_file v' fid ((cs @ [c]) @ [new])" "heap_rows v' fid ((cs @ [c]) @ [new]) = heap_rows v fid (cs @ [c])"
proof -
  have a: "sorted_wrt (<) (0 # cs @ [c])" "chain (\<lambda>c. v (PageId fid c)) cs c" "heap_ok (v (PageId fid c))"
    "page_valid (v (PageId fid c)) MAGIC_HEAP" "\<And>no. no > c \<Longrightarrow> v (PageId fid no) = replicate PAGE_SIZE 0"
    using assms(1) by (auto simp: heap_file_def chain_append)
  have lt: "d < c" if "d \<in> set cs" for d using a(1) that by (auto simp: sorted_wrt_append)
  have c0: "0 < c" "c \<noteq> new" "new \<noteq> 0" using a(1) assms(2) by auto
  have same: "v' (PageId fid d) = v (PageId fid d)" if "d = 0 \<or> d \<in> set cs" for d
  proof -
    have "d \<noteq> c" "d \<noteq> new" using that lt [of d] c0 assms(2) by auto
    then show ?thesis by (simp add: v'_def)
  qed
  have vn: "v' (PageId fid c) = seal (set_next_page new (v (PageId fid c)))" "v' (PageId fid new) = init_page MAGIC_HEAP Heap"
    using c0 by (simp_all add: v'_def)
  have mg: "hd_magic (v (PageId fid c)) = MAGIC_HEAP" using a(4) by (simp add: page_valid_def split: if_splits)
  have "chain (\<lambda>c. v' (PageId fid c)) cs c" using a(2) same by (subst chain_cong [of cs _ "\<lambda>c. v (PageId fid c)"]) auto
  then have ch: "chain (\<lambda>c. v' (PageId fid c)) ((cs @ [c]) @ [new]) 0"
    using heap_link [OF a(3)] mg init_page_heap init_page_fields vn by (simp add: chain_append)
  have "v' (PageId fid no) = replicate PAGE_SIZE 0" if "no > new" for no
    using that assms(2) a(5) [of no] by (auto simp: v'_def)
  moreover have "sorted_wrt (<) (0 # (cs @ [c]) @ [new])" using sorted_last_less [OF a(1)] assms(2) by simp
  moreover have "hd (((cs @ [c]) @ [new]) @ [0]) = hd ((cs @ [c]) @ [0])" by (simp add: hd_append)
  ultimately show "heap_file v' fid ((cs @ [c]) @ [new])" using assms(1) ch same unfolding heap_file_def by simp
  have "page_slots (v' (PageId fid d)) = page_slots (v (PageId fid d))" if "d \<in> set (cs @ [c])" for d
    using that same heap_link(2) [OF a(3)] vn(1) by auto
  then have "heap_rows v' fid (cs @ [c]) = heap_rows v fid (cs @ [c])" by (rule heap_rows_cong)
  then show "heap_rows v' fid ((cs @ [c]) @ [new]) = heap_rows v fid (cs @ [c])"
    unfolding heap_rows_snoc [of v' fid "cs @ [c]"] vn(2) init_page_heap(2) by simp
qed

lemma header_rowid:
  assumes "length h = PAGE_SIZE" "page_valid h MAGIC_FILE_HEADER"
  shows "length (seal (set_file_next_rowid r h)) = PAGE_SIZE" "page_valid (seal (set_file_next_rowid r h)) MAGIC_FILE_HEADER"
    "hd_next_page (seal (set_file_next_rowid r h)) = hd_next_page h" "file_next_rowid (seal (set_file_next_rowid r h)) = r"
proof -
  have l: "length (set_file_next_rowid r h) = PAGE_SIZE" using assms(1) by (simp add: set_file_next_rowid_def buf_simps page_consts)
  show "length (seal (set_file_next_rowid r h)) = PAGE_SIZE" by (rule length_seal [OF l])
  have "hd_magic h = MAGIC_FILE_HEADER" using assms(2) by (simp add: page_valid_def split: if_splits)
  then show "page_valid (seal (set_file_next_rowid r h)) MAGIC_FILE_HEADER"
    using assms(1) by (simp add: l header_defs set_file_next_rowid_def buf_simps page_consts)
  show "hd_next_page (seal (set_file_next_rowid r h)) = hd_next_page h" "file_next_rowid (seal (set_file_next_rowid r h)) = r"
    using l assms(1) by (simp_all add: header_defs set_file_next_rowid_def file_next_rowid_def buf_simps page_consts)
qed

lemma header_link:
  assumes "length h = PAGE_SIZE" "page_valid h MAGIC_FILE_HEADER"
  shows "length (seal (set_next_page n h)) = PAGE_SIZE" "page_valid (seal (set_next_page n h)) MAGIC_FILE_HEADER"
    "hd_next_page (seal (set_next_page n h)) = n" "file_next_rowid (seal (set_next_page n h)) = file_next_rowid h"
proof -
  have l: "length (set_next_page n h) = PAGE_SIZE" using assms(1) by (simp add: header_defs buf_simps page_consts)
  show "length (seal (set_next_page n h)) = PAGE_SIZE" by (rule length_seal [OF l])
  have "hd_magic h = MAGIC_FILE_HEADER" using assms(2) by (simp add: page_valid_def split: if_splits)
  then show "page_valid (seal (set_next_page n h)) MAGIC_FILE_HEADER"
    using assms(1) by (simp add: l header_defs buf_simps page_consts)
  show "hd_next_page (seal (set_next_page n h)) = n" "file_next_rowid (seal (set_next_page n h)) = file_next_rowid h"
    using l assms(1) by (simp_all add: header_defs file_next_rowid_def buf_simps page_consts)
qed

lemma heap_file_first:
  fixes v :: "page_id \<Rightarrow> bytes" and fid :: u64
  assumes "heap_file v fid []"
  defines "v' \<equiv> v(PageId fid 1 := init_page MAGIC_HEAP Heap, PageId fid 0 := seal (set_next_page 1 (v (PageId fid 0))))"
  shows "heap_file v' fid [1]" "heap_rows v' fid [1] = []"
proof -
  have a: "length (v (PageId fid 0)) = PAGE_SIZE" "page_valid (v (PageId fid 0)) MAGIC_FILE_HEADER"
    "\<And>no. no > 0 \<Longrightarrow> v (PageId fid no) = replicate PAGE_SIZE 0" using assms(1) by (auto simp: heap_file_def)
  have "v' (PageId fid no) = replicate PAGE_SIZE 0" if "no > 1" for no :: u32
  proof -
    have "no \<noteq> 1" "no \<noteq> 0" "no > 0" using that by (auto simp: word_less_nat_alt)
    then show ?thesis using a(3) [of no] by (simp add: v'_def)
  qed
  moreover have "v' (PageId fid 1) = init_page MAGIC_HEAP Heap" "v' (PageId fid 0) = seal (set_next_page 1 (v (PageId fid 0)))"
    by (simp_all add: v'_def)
  ultimately show "heap_file v' fid [1]" "heap_rows v' fid [1] = []"
    using header_link [OF a(1,2), of 1] by (simp_all add: heap_file_def init_page_heap init_page_fields heap_rows_def)
qed

lemma heap_append_facts:
  assumes "heap_ok p" "length rec \<le> MAX_RECORD_LEN" "heap_append p rec = Some (q, i)"
  shows "heap_ok q" "page_slots q = page_slots p @ [Some rec]" "unat i = length (page_slots p)" "hd_next_page q = hd_next_page p"
    "page_valid q (hd_magic p)"
proof -
  have r: "unat (hd_free_begin p) + length rec + 4 \<le> unat (hd_free_end p)" using heap_append_room [OF assms(1,2)] assms(3) by auto
  show "heap_ok q" "page_slots q = page_slots p @ [Some rec]" "unat i = length (page_slots p)" "hd_next_page q = hd_next_page p"
    "page_valid q (hd_magic p)"
    using heap_append_eq [OF assms(1) r] heap_append_slots [OF assms(1) r] appended_header [OF assms(1) r] assms(3) by auto
qed

lemma fresh_page_room: "length rec \<le> MAX_RECORD_LEN \<Longrightarrow> heap_append (init_page MAGIC_HEAP Heap) rec \<noteq> None"
  using heap_append_room [OF init_page_heap(1), of rec MAGIC_HEAP Heap] by (simp add: init_page_fields MAX_RECORD_LEN_def page_consts)

lemma heap_file_append:
  fixes v :: "page_id \<Rightarrow> bytes" and fid :: u64 and c :: u32 and q :: bytes
  assumes "heap_file v fid (cs @ [c])" "heap_append (v (PageId fid c)) rec = Some (q, i)" "length rec \<le> MAX_RECORD_LEN"
  defines "v' \<equiv> v(PageId fid c := q)"
  shows "heap_file v' fid (cs @ [c])" "heap_rows v' fid (cs @ [c]) = heap_rows v fid (cs @ [c]) @ [(RowRef (PageId fid c) i, rec)]"
    "length q = PAGE_SIZE"
proof -
  have a: "sorted_wrt (<) (0 # cs @ [c])" "chain (\<lambda>c. v (PageId fid c)) cs c" "heap_ok (v (PageId fid c))"
    "page_valid (v (PageId fid c)) MAGIC_HEAP" "hd_next_page (v (PageId fid c)) = 0"
    using assms(1) by (auto simp: heap_file_def chain_append)
  have lt: "d \<noteq> c" if "d \<in> set cs" for d using a(1) that by (auto simp: sorted_wrt_append)
  have c0: "c \<noteq> 0" using a(1) by auto
  have mg: "hd_magic (v (PageId fid c)) = MAGIC_HEAP" using a(4) by (simp add: page_valid_def split: if_splits)
  note f = heap_append_facts [OF a(3) assms(3,2)]
  have "chain (\<lambda>c. v' (PageId fid c)) cs c" using a(2) lt by (subst chain_cong [of cs _ "\<lambda>c. v (PageId fid c)"]) (auto simp: v'_def)
  then have ch: "chain (\<lambda>c. v' (PageId fid c)) (cs @ [c]) 0" using f a(5) mg by (simp add: chain_append v'_def)
  show "heap_file v' fid (cs @ [c])" using assms(1) ch c0 unfolding heap_file_def by (auto simp: v'_def)
  have "heap_rows v' fid cs = heap_rows v fid cs" using lt by (intro heap_rows_cong) (auto simp: v'_def)
  moreover have "(word_of_nat (length (page_slots (v (PageId fid c)))) :: u16) = i" using arg_cong [OF f(3), of "word_of_nat :: nat \<Rightarrow> u16"] by simp
  ultimately show "heap_rows v' fid (cs @ [c]) = heap_rows v fid (cs @ [c]) @ [(RowRef (PageId fid c) i, rec)]"
    unfolding heap_rows_snoc by (simp add: v'_def f(2) page_rows_append)
  show "length q = PAGE_SIZE" using f(1) by (simp add: heap_ok_def)
qed

section \<open>Inserting a row\<close>

lemma idle_room: "idle s \<Longrightarrow> 0 < length (bp_frames s) \<Longrightarrow> card (pinned s) < length (bp_frames s) \<and> pin_of s pid \<noteq> - 1"
  by (simp add: idle_def pinned_def)

lemma one_pinned: "pin_of s = (\<lambda>_. 0)(pid := 1) \<Longrightarrow> card (pinned s) \<le> 1"
proof -
  assume p: "pin_of s = (\<lambda>_. 0)(pid := 1)"
  have "pinned s \<subseteq> {pid}" unfolding pinned_def p by auto
  then show ?thesis using card_mono [of "{pid}" "pinned s"] by simp
qed

text \<open>The pages of other files, and what the disk may hold afterwards.\<close>

definition only_file :: "u64 \<Rightarrow> (page_id \<Rightarrow> bytes) \<Rightarrow> (page_id \<Rightarrow> bytes) \<Rightarrow> bool" where
  "only_file fid v v' \<longleftrightarrow> (\<forall>pid. pid_file pid \<noteq> fid \<longrightarrow> v' pid = v pid)"

lemma only_file_trans: "only_file fid a b \<Longrightarrow> only_file fid b c \<Longrightarrow> only_file fid a c"
  by (simp add: only_file_def)

lemma only_file_upd [simp]: "only_file fid v v" "only_file fid a v \<Longrightarrow> only_file fid a (v(PageId fid no := p))"
  by (auto simp: only_file_def fun_upd_def)

text \<open>One page read, edited and released by an idle client.\<close>

lemma edit_step:
  assumes "idle s" "0 < length (bp_frames s)" "bp_txn s = Some t" "pid_file pid \<noteq> 0" "page_valid (page_view s pid) magic"
    and "length (f (page_view s pid)) = PAGE_SIZE"
  shows "\<exists>k s1 s'. pool_read pid magic s = Inr (k, s1) \<and> frame_data k s1 = page_view s pid \<and> finish k (edit_page k (f (page_view s pid)) s1) = Inr s'
    \<and> idle s' \<and> kept s s' \<and> page_view s' = (page_view s)(pid := f (page_view s pid))
    \<and> (\<forall>q. disk_page (bp_files s') q = disk_page (bp_files s) q \<or> disk_page (bp_files s') q = page_view s q)"
proof -
  have ok: "pool_ok s" "pin_of s = (\<lambda>_. 0)" using assms(1) by (simp_all add: idle_def)
  obtain k s1 where r: "pool_read pid magic s = Inr (k, s1)" "fetched s pid k s1" "kept s s1"
    using read_step [OF ok(1) _ _ assms(5)] idle_room [OF assms(1,2), of pid] by blast
  note v = fetched_views [OF r(2)]
  have ok1: "pool_ok s1" "bp_txn s1 = Some t" using r(2) v assms(3) by (auto simp: fetched_def)
  obtain s2 where s2: "finish k (edit_page k (f (page_view s pid)) s1) = Inr s2" "kept s1 s2" "page_view s2 = (page_view s1)(pid := f (page_view s pid))"
    "bp_files s2 = bp_files s1" "pin_of s2 = (pin_of s1)(pid := pin_of s1 pid - 1)"
    using finish_step [OF ok1(1) fetched_held [OF r(2)] assms(6,4) ok1(2)] by blast
  have "disk_page (bp_files s1) q = disk_page (bp_files s) q \<or> disk_page (bp_files s1) q = page_view s q" for q
    using r(2) idle_logged [OF assms(1)] by (auto simp: fetched_def same_outside_def)
  moreover have "idle s2" using s2(2,5) v ok(2) by (simp add: idle_def kept_def fun_eq_iff)
  ultimately show ?thesis using r(1) s2 v kept_trans [OF r(3) s2(2)] by auto
qed

text \<open>Reading a page without changing it.\<close>

lemma look_step:
  assumes "idle s" "0 < length (bp_frames s)" "page_valid (page_view s pid) magic"
  shows "\<exists>k s1 s'. pool_read pid magic s = Inr (k, s1) \<and> frame_data k s1 = page_view s pid \<and> pool_unpin k s1 = Inr s'
    \<and> idle s' \<and> kept s s' \<and> page_view s' = page_view s
    \<and> (\<forall>q. disk_page (bp_files s') q = disk_page (bp_files s) q \<or> disk_page (bp_files s') q = page_view s q)"
proof -
  have ok: "pool_ok s" "pin_of s = (\<lambda>_. 0)" using assms(1) by (simp_all add: idle_def)
  obtain k s1 where r: "pool_read pid magic s = Inr (k, s1)" "fetched s pid k s1" "kept s s1"
    using read_step [OF ok(1) _ _ assms(3)] idle_room [OF assms(1,2), of pid] by blast
  note v = fetched_views [OF r(2)]
  have ok1: "pool_ok s1" "page_view s1 pid = logged_view s1 pid" using r(2) v idle_logged [OF assms(1)] by (auto simp: fetched_def)
  obtain s2 where s2: "pool_unpin k s1 = Inr s2" "kept s1 s2" "same_outside s1 s2" "bp_files s2 = bp_files s1"
    "pin_of s2 = (pin_of s1)(pid := pin_of s1 pid - 1)"
    using unpin_step [OF ok1(1) fetched_held [OF r(2)] ok1(2)] by blast
  have "disk_page (bp_files s1) q = disk_page (bp_files s) q \<or> disk_page (bp_files s1) q = page_view s q" for q
    using r(2) idle_logged [OF assms(1)] by (auto simp: fetched_def same_outside_def)
  moreover have "idle s2" using s2(2,5) v ok(2) by (simp add: idle_def kept_def fun_eq_iff)
  moreover have "page_view s2 = page_view s" using s2(3) v by (simp add: same_outside_def)
  ultimately show ?thesis using r(1) s2 v kept_trans [OF r(3) s2(2)] by auto
qed

lemma take_rowid_step:
  fixes s :: store and fid :: u64
  assumes "idle s" "0 < length (bp_frames s)" "bp_txn s = Some t" "fid \<noteq> 0" "heap_file (page_view s) fid cs"
  defines "r \<equiv> file_next_rowid (page_view s (PageId fid 0)) + 1"
  shows "\<exists>s'. take_rowid fid s = Inr (r, s') \<and> idle s' \<and> kept s s' \<and> heap_file (page_view s') fid cs
    \<and> heap_rows (page_view s') fid cs = heap_rows (page_view s) fid cs \<and> only_file fid (page_view s) (page_view s')
    \<and> file_next_rowid (page_view s' (PageId fid 0)) = r
    \<and> (\<forall>no \<noteq> 0. page_view s' (PageId fid no) = page_view s (PageId fid no))
    \<and> (\<forall>q. disk_page (bp_files s') q = disk_page (bp_files s) q \<or> disk_page (bp_files s') q = page_view s q)"
proof -
  let ?h = "page_view s (PageId fid 0)" and ?f = "\<lambda>h. seal (set_file_next_rowid (file_next_rowid h + 1) h)"
  have h: "length ?h = PAGE_SIZE" "page_valid ?h MAGIC_FILE_HEADER" using assms(5) by (auto simp: heap_file_def)
  note hr = header_rowid [OF h, of r]
  have l: "length (?f ?h) = PAGE_SIZE" using hr(1) by (simp add: r_def)
  obtain k s1 s' where e: "pool_read (PageId fid 0) MAGIC_FILE_HEADER s = Inr (k, s1)" "frame_data k s1 = ?h"
    "finish k (edit_page k (?f ?h) s1) = Inr s'" "idle s'" "kept s s'" "page_view s' = (page_view s)(PageId fid 0 := ?f ?h)"
    "\<forall>q. disk_page (bp_files s') q = disk_page (bp_files s) q \<or> disk_page (bp_files s') q = page_view s q"
    using edit_step [OF assms(1-3) _ h(2), of ?f] l assms(4) by auto
  have "take_rowid fid s = Inr (r, s')" using e(1-3) by (simp add: take_rowid_def r_def)
  then show ?thesis using e(4-7) heap_file_header [OF assms(5) hr(1-3)] hr(4) by (auto simp: r_def)
qed

text \<open>A page held by the client stays pinned while another one is allocated, written and released.\<close>

lemma add_page_step:
  assumes "pool_ok s" "pin_of s = (\<lambda>_. 0)(pid := 1)" "held s pid k" "1 < length (bp_frames s)" "bp_txn s = Some t"
    and "q \<noteq> pid" "pid_file q \<noteq> 0" "pid_file pid \<noteq> 0" "page_view s q = replicate PAGE_SIZE 0" "length d = PAGE_SIZE" "length (f (page_view s pid)) = PAGE_SIZE"
  shows "\<exists>j s1 s2 s'. pool_allocate q s = Inr (j, s1) \<and> finish j (edit_page j d s1) = Inr s2 \<and> frame_data k s2 = page_view s pid
    \<and> finish k (edit_page k (f (page_view s pid)) s2) = Inr s' \<and> idle s' \<and> kept s s'
    \<and> page_view s' = (page_view s)(q := d, pid := f (page_view s pid))"
proof -
  have "card (pinned s) < length (bp_frames s)" "pin_of s q \<noteq> - 1" using one_pinned [OF assms(2)] assms(2,4,6) by auto
  then obtain j s1 where a: "pool_allocate q s = Inr (j, s1)" "fetched s q j s1" "kept s s1"
    using allocate_step [OF assms(1) _ _ assms(9)] by blast
  note v = fetched_views [OF a(2)]
  have ok1: "pool_ok s1" "held s1 pid k" "bp_txn s1 = Some t" using a(2) v assms(3,5) by (auto simp: fetched_def)
  obtain s2 where s2: "finish j (edit_page j d s1) = Inr s2" "kept s1 s2" "page_view s2 = (page_view s1)(q := d)"
    "pin_of s2 = (pin_of s1)(q := pin_of s1 q - 1)" "\<forall>p i. p \<noteq> q \<longrightarrow> held s1 p i \<longrightarrow> held s2 p i"
    using finish_step [OF ok1(1) fetched_held [OF a(2)] assms(10,7) ok1(3)] by blast
  have h2: "held s2 pid k" using s2(5) ok1(2) assms(6) by auto
  obtain t2 where t2: "bp_txn s2 = Some t2" "pool_ok s2" using s2(2) ok1(3) by (auto simp: kept_def)
  have fd: "frame_data k s2 = page_view s pid" using held_view [OF h2] s2(3) v assms(6) by simp
  obtain s3 where s3: "finish k (edit_page k (f (page_view s pid)) s2) = Inr s3" "kept s2 s3" "page_view s3 = (page_view s2)(pid := f (page_view s pid))"
    "pin_of s3 = (pin_of s2)(pid := pin_of s2 pid - 1)"
    using finish_step [OF t2(2) h2 assms(11,8) t2(1)] by blast
  have "pin_of s3 = (\<lambda>_. 0)" using s3(4) s2(4) v assms(2,6) by (simp add: fun_eq_iff)
  then have "idle s3" using s3(2) by (simp add: idle_def kept_def)
  moreover have "kept s s3" by (rule kept_trans [OF kept_trans [OF a(3) s2(2)] s3(2)])
  ultimately show ?thesis using a(1) s2(1,3) s3(1,3) fd v by auto
qed

lemma held_step:
  assumes "idle s" "0 < length (bp_frames s)" "page_valid (page_view s pid) magic"
  shows "\<exists>k s1. pool_read pid magic s = Inr (k, s1) \<and> frame_data k s1 = page_view s pid \<and> held s1 pid k \<and> pool_ok s1
    \<and> pin_of s1 = (\<lambda>_. 0)(pid := 1) \<and> page_view s1 = page_view s \<and> kept s s1 \<and> bp_txn s1 = bp_txn s \<and> length (bp_frames s1) = length (bp_frames s)"
proof -
  have ok: "pool_ok s" "pin_of s = (\<lambda>_. 0)" using assms(1) by (simp_all add: idle_def)
  obtain k s1 where r: "pool_read pid magic s = Inr (k, s1)" "fetched s pid k s1" "kept s s1"
    using read_step [OF ok(1) _ _ assms(3)] idle_room [OF assms(1,2), of pid] by blast
  then show ?thesis using fetched_views [OF r(2)] fetched_held [OF r(2)] ok(2) by (auto simp: fetched_def kept_def)
qed

lemma link_step:
  assumes "idle s" "1 < length (bp_frames s)" "bp_txn s = Some t" "fid \<noteq> 0" "heap_file (page_view s) fid []"
  shows "\<exists>s'. link_header_to_first_data_page fid s = Inr (1, s') \<and> idle s' \<and> kept s s' \<and> heap_file (page_view s') fid [1]
    \<and> heap_rows (page_view s') fid [1] = [] \<and> only_file fid (page_view s) (page_view s')
    \<and> file_next_rowid (page_view s' (PageId fid 0)) = file_next_rowid (page_view s (PageId fid 0))"
proof -
  let ?h = "page_view s (PageId fid 0)" and ?f = "\<lambda>h. seal (set_next_page 1 h)"
  have h: "length ?h = PAGE_SIZE" "page_valid ?h MAGIC_FILE_HEADER" "page_view s (PageId fid 1) = replicate PAGE_SIZE 0"
    using assms(5) by (auto simp: heap_file_def)
  note hl = header_link [OF h(1,2), of 1]
  obtain k s1 where r: "pool_read (PageId fid 0) MAGIC_FILE_HEADER s = Inr (k, s1)" "frame_data k s1 = ?h" "held s1 (PageId fid 0) k" "pool_ok s1"
    "pin_of s1 = (\<lambda>_. 0)(PageId fid 0 := 1)" "page_view s1 = page_view s" "kept s s1" "bp_txn s1 = bp_txn s" "length (bp_frames s1) = length (bp_frames s)"
    using held_step [OF assms(1) _ h(2)] assms(2) by (metis gr_implies_not0 not_gr_zero)
  have "\<exists>j s2 s3 s'. pool_allocate (PageId fid 1) s1 = Inr (j, s2) \<and> finish j (edit_page j (init_page MAGIC_HEAP Heap) s2) = Inr s3
    \<and> frame_data k s3 = ?h \<and> finish k (edit_page k (?f ?h) s3) = Inr s' \<and> idle s' \<and> kept s1 s'
    \<and> page_view s' = (page_view s1)(PageId fid 1 := init_page MAGIC_HEAP Heap, PageId fid 0 := ?f ?h)"
    using add_page_step [OF r(4,5,3), of t "PageId fid 1" "init_page MAGIC_HEAP Heap" ?f] r(6,8,9) assms(2-4) h(3) hl(1) init_page_fields(1) by auto
  then obtain j s2 s3 s' where a: "pool_allocate (PageId fid 1) s1 = Inr (j, s2)" "finish j (edit_page j (init_page MAGIC_HEAP Heap) s2) = Inr s3"
    "frame_data k s3 = ?h" "finish k (edit_page k (?f ?h) s3) = Inr s'" "idle s'" "kept s1 s'"
    "page_view s' = (page_view s)(PageId fid 1 := init_page MAGIC_HEAP Heap, PageId fid 0 := ?f ?h)" using r(6) by auto
  have "link_header_to_first_data_page fid s = Inr (1, s')"
    using r(1) a(1-4) by (simp add: link_header_to_first_data_page_def)
  then show ?thesis using a(5,7) kept_trans [OF r(7) a(6)] heap_file_first [OF assms(5)] hl(4) by auto
qed

lemma word_less_succ: "a \<noteq> - 1 \<Longrightarrow> a < a + 1" for a :: "'a :: len word"
proof -
  assume "a \<noteq> - 1"
  then have "1 + a \<noteq> 0" by (metis add.commute add_eq_0_iff2)
  then have "unat (a + 1) = Suc (unat a)" by (metis add.commute unatSuc)
  then show ?thesis by (simp add: word_less_nat_alt)
qed

lemma append_fits:
  assumes "idle s" "0 < length (bp_frames s)" "bp_txn s = Some t" "fid \<noteq> 0" "heap_file (page_view s) fid (cs @ [c])"
    and "heap_append (page_view s (PageId fid c)) rec = Some (q, i)" "length rec \<le> MAX_RECORD_LEN"
  shows "\<exists>s'. append_loop (Suc n) fid rec c s = Some (Inr (RowRef (PageId fid c) i, s')) \<and> idle s' \<and> kept s s'
    \<and> page_view s' = (page_view s)(PageId fid c := q)"
proof -
  let ?pid = "PageId fid c"
  have v: "page_valid (page_view s ?pid) MAGIC_HEAP" using assms(5) by (auto simp: heap_file_def chain_append)
  obtain k s1 s' where e: "pool_read ?pid MAGIC_HEAP s = Inr (k, s1)" "frame_data k s1 = page_view s ?pid"
    "finish k (edit_page k q s1) = Inr s'" "idle s'" "kept s s'" "page_view s' = (page_view s)(?pid := q)"
    using edit_step [OF assms(1-3) _ v, of "\<lambda>_. q"] heap_file_append(3) [OF assms(5,6,7)] assms(4) by auto
  then show ?thesis using assms(6) by (auto simp: fun_upd_def)
qed

lemma append_full:
  assumes "idle s" "1 < length (bp_frames s)" "bp_txn s = Some t" "fid \<noteq> 0" "heap_file (page_view s) fid (cs @ [c])" "c \<noteq> - 1"
    and "heap_append (page_view s (PageId fid c)) rec = None"
  shows "\<exists>new s'. append_loop (Suc n) fid rec c s = append_loop n fid rec new s' \<and> new > c \<and> idle s' \<and> kept s s'
    \<and> page_view s' = (page_view s)(PageId fid new := init_page MAGIC_HEAP Heap,
        PageId fid c := seal (set_next_page new (page_view s (PageId fid c))))"
proof -
  let ?pid = "PageId fid c"
  have v: "page_valid (page_view s ?pid) MAGIC_HEAP" "heap_ok (page_view s ?pid)" using assms(5) by (auto simp: heap_file_def chain_append)
  obtain k s1 where r: "pool_read ?pid MAGIC_HEAP s = Inr (k, s1)" "frame_data k s1 = page_view s ?pid" "held s1 ?pid k" "pool_ok s1"
    "pin_of s1 = (\<lambda>_. 0)(?pid := 1)" "page_view s1 = page_view s" "kept s s1" "bp_txn s1 = bp_txn s" "length (bp_frames s1) = length (bp_frames s)"
    using held_step [OF assms(1) _ v(1)] assms(2) by (metis gr_implies_not0 not_gr_zero)
  define new where "new = max (page_count (bp_files s1) fid) (c + 1)"
  have "c < c + 1" by (rule word_less_succ [OF assms(6)])
  then have new: "new > c" by (simp add: new_def less_max_iff_disj)
  have z: "page_view s1 (PageId fid new) = replicate PAGE_SIZE 0" using assms(5) new r(6) by (simp add: heap_file_def)
  let ?f = "\<lambda>p. seal (set_next_page new p)"
  have "length (?f (page_view s1 ?pid)) = PAGE_SIZE" using heap_link(6) [OF v(2)] r(6) by simp
  then obtain j s2 s3 s' where a: "pool_allocate (PageId fid new) s1 = Inr (j, s2)" "finish j (edit_page j (init_page MAGIC_HEAP Heap) s2) = Inr s3"
    "frame_data k s3 = page_view s1 ?pid" "finish k (edit_page k (?f (page_view s1 ?pid)) s3) = Inr s'" "idle s'" "kept s1 s'"
    "page_view s' = (page_view s1)(PageId fid new := init_page MAGIC_HEAP Heap, ?pid := ?f (page_view s1 ?pid))"
    using add_page_step [OF r(4,5,3), of t "PageId fid new" "init_page MAGIC_HEAP Heap" ?f] r(8,9) assms(2-4) z new init_page_fields(1) by auto
  have "extend_chain fid c k s1 = Inr (new, s')"
    using a(1-4) by (simp add: extend_chain_def new_def [symmetric])
  then have "append_loop (Suc n) fid rec c s = append_loop n fid rec new s'" using r(1,2) assms(7) by simp
  then show ?thesis using new a(5,7) kept_trans [OF r(7) a(6)] r(6) by auto
qed

text \<open>Two rounds of the loop are enough: a fresh page has room for every record of legal length.\<close>

lemma append_step:
  assumes "idle s" "1 < length (bp_frames s)" "bp_txn s = Some t" "fid \<noteq> 0" "heap_file (page_view s) fid (cs @ [c])" "c \<noteq> - 1"
    and "length rec \<le> MAX_RECORD_LEN"
  shows "\<exists>i cs' s'. append_loop (Suc (Suc n)) fid rec c s = Some (Inr (RowRef (PageId fid (last (c # cs'))) i, s')) \<and> idle s' \<and> kept s s'
    \<and> heap_file (page_view s') fid ((cs @ [c]) @ cs')
    \<and> heap_rows (page_view s') fid ((cs @ [c]) @ cs') = heap_rows (page_view s) fid (cs @ [c]) @ [(RowRef (PageId fid (last (c # cs'))) i, rec)]
    \<and> only_file fid (page_view s) (page_view s') \<and> page_view s' (PageId fid 0) = page_view s (PageId fid 0)"
proof -
  have c0: "c \<noteq> 0" using assms(5) by (auto simp: heap_file_def)
  have pos: "0 < length (bp_frames s)" using assms(2) by linarith
  show ?thesis
  proof (cases "heap_append (page_view s (PageId fid c)) rec")
    case (Some qi)
    obtain q i where qi: "qi = (q, i)" by (cases qi)
    obtain s' where s': "append_loop (Suc (Suc n)) fid rec c s = Some (Inr (RowRef (PageId fid c) i, s'))" "idle s'" "kept s s'"
      "page_view s' = (page_view s)(PageId fid c := q)"
      using append_fits [OF assms(1) pos assms(3-5) Some [unfolded qi] assms(7), of "Suc n"] by blast
    show ?thesis
      by (rule exI [of _ i], rule exI [of _ "[]"], rule exI [of _ s'])
        (use s' heap_file_append [OF assms(5) Some [unfolded qi] assms(7)] c0 in simp)
  next
    case None
    obtain new s1 where s1: "append_loop (Suc (Suc n)) fid rec c s = append_loop (Suc n) fid rec new s1" "new > c" "idle s1" "kept s s1"
      "page_view s1 = (page_view s)(PageId fid new := init_page MAGIC_HEAP Heap, PageId fid c := seal (set_next_page new (page_view s (PageId fid c))))"
      using append_full [OF assms(1-6) None, of "Suc n"] by blast
    note x = heap_file_extend [OF assms(5) s1(2), folded s1(5)]
    have pn: "page_view s1 (PageId fid new) = init_page MAGIC_HEAP Heap" using s1(2) by (auto simp: s1(5))
    obtain q i where qi: "heap_append (page_view s1 (PageId fid new)) rec = Some (q, i)"
      using fresh_page_room [OF assms(7)] by (auto simp: pn)
    obtain t1 where t1: "bp_txn s1 = Some t1" "0 < length (bp_frames s1)" using s1(4) assms(3) pos by (auto simp: kept_def simp del: length_greater_0_conv)
    obtain s' where s': "append_loop (Suc n) fid rec new s1 = Some (Inr (RowRef (PageId fid new) i, s'))" "idle s'" "kept s1 s'"
      "page_view s' = (page_view s1)(PageId fid new := q)"
      using append_fits [OF s1(3) t1(2,1) assms(4) x(1) qi assms(7), of n] by blast
    note y = heap_file_append [OF x(1) qi assms(7), folded s'(4)]
    have n0: "new \<noteq> 0" using s1(2) by auto
    have o: "only_file fid (page_view s) (page_view s')" "page_view s' (PageId fid 0) = page_view s (PageId fid 0)"
      using n0 c0 by (simp_all add: s'(4) s1(5))
    have l: "append_loop (Suc (Suc n)) fid rec c s = Some (Inr (RowRef (PageId fid (last (c # [new]))) i, s'))"
      using s1(1) s'(1) by (simp del: append_loop.simps)
    show ?thesis
      by (rule exI [of _ i], rule exI [of _ "[new]"], rule exI [of _ s'])
        (use l s'(2) y(1,2) x(2) kept_trans [OF s1(4) s'(3)] o in \<open>simp del: append_loop.simps\<close>)
  qed
qed

section \<open>The tail page on disk\<close>

text \<open>Files of whole pages, fewer than \<^verbatim>\<open>2 ^ 32\<close> of them.\<close>

definition aligned :: "files \<Rightarrow> bool" where
  "aligned fs \<longleftrightarrow> (\<forall>fid. length (file_bytes fs fid) mod PAGE_SIZE = 0 \<and> length (file_bytes fs fid) < 2 ^ 32 * PAGE_SIZE)"

definition pages_numbered :: "store \<Rightarrow> bool" where
  "pages_numbered s \<longleftrightarrow> list_all (\<lambda>f. pid_page (fr_page f) \<noteq> - 1) (bp_frames s)"

lemma write_page_aligned:
  assumes "aligned fs" "no \<noteq> - 1" "length d = PAGE_SIZE"
  shows "aligned (write_page fid no d fs)"
proof -
  let ?old = "file_bytes fs fid"
  have u: "unat no < 2 ^ 32 - 1"
  proof -
    have "unat no \<noteq> unat (- 1 :: u32)" using assms(2) by (metis word_unat_eq_iff)
    moreover have "unat (- 1 :: u32) = 2 ^ 32 - 1" by (simp add: unsigned_minus_1_eq_mask mask_eq_exp_minus_1)
    moreover have "unat no < 2 ^ 32" using unat32_less [of no] by simp
    ultimately show ?thesis by linarith
  qed
  have o: "page_off no = unat no * 4096" by (simp add: page_off_def PAGE_SIZE_def)
  have "length (put_at (page_off no) d (?old @ replicate (page_off no - length ?old) 0)) = max (length ?old) (page_off no + 4096)"
    using assms(3) by (simp add: put_at_def PAGE_SIZE_def)
  then have l: "length (file_bytes (write_page fid no d fs) g) = (if g = fid then max (length ?old) (page_off no + 4096) else length (file_bytes fs g))" for g
    by (simp add: write_page_def Let_def) (auto simp: file_bytes_def fd_for_def split: option.splits)
  have "(page_off no + 4096) mod 4096 = 0" "page_off no + 4096 < 2 ^ 32 * 4096" using u unfolding o by simp_all
  then show ?thesis using assms(1) unfolding aligned_def l by (auto simp: PAGE_SIZE_def max_def)
qed

lemma write_back_aligned:
  assumes "pool_ok s" "aligned (bp_files s)" "pages_numbered s" "k < length (bp_frames s)" "write_back k s = Inr s'"
  shows "aligned (bp_files s')"
proof -
  have "pid_page (fr_page (bp_frames s ! k)) \<noteq> - 1" "length (fr_data (bp_frames s ! k)) = PAGE_SIZE"
    using assms(1,3,4) pool_ok_frame [OF assms(1,4)] by (auto simp: pages_numbered_def list_all_length frame_ok_def)
  then show ?thesis using assms(2,5) write_page_aligned by (auto simp: write_back_def Let_def split: if_splits)
qed

lemma evict_aligned:
  assumes "pool_ok s" "aligned (bp_files s)" "pages_numbered s" "0 < length (bp_frames s)" "evict_from is s = Inr (k, s')"
  shows "aligned (bp_files s')"
  using assms
proof (induction "is" arbitrary: s)
  case (Cons i "is")
  let ?idx = "(bp_hand s + i) mod length (bp_frames s)"
  let ?f = "bp_frames s ! ?idx" and ?s1 = "upd_frame ?idx (\<lambda>f. f\<lparr>fr_ref := False\<rparr>) s"
  have idx: "?idx < length (bp_frames s)" using Cons.prems(4) by simp
  consider (pin) "fr_pin ?f > 0" | (ref) "\<not> fr_pin ?f > 0" "fr_valid ?f \<and> fr_ref ?f" | (take) "\<not> fr_pin ?f > 0" "\<not> (fr_valid ?f \<and> fr_ref ?f)" by blast
  then show ?case
  proof cases
    case pin
    then show ?thesis using Cons.IH [OF Cons.prems(1-4)] Cons.prems(5) by (simp add: evict_from_Cons Let_def)
  next
    case ref
    have "frame_ok (bp_files s) (?f\<lparr>fr_ref := False\<rparr>)" using pool_ok_frame [OF Cons.prems(1) idx] by (simp add: frame_ok_def)
    then have "pool_ok ?s1" by (intro pool_ok_upd [OF Cons.prems(1) idx]) simp_all
    moreover have "pages_numbered ?s1" using Cons.prems(3) idx by (auto simp: pages_numbered_def list_all_length nth_list_update)
    ultimately show ?thesis using Cons.IH [of ?s1] Cons.prems(2,4,5) ref by (simp add: evict_from_Cons Let_def)
  next
    case take
    then obtain s1 where w: "write_back ?idx s = Inr s1" "bp_files s' = bp_files s1"
      using Cons.prems(5) by (auto simp: evict_from_Cons Let_def rbind_eq_Inr)
    then show ?thesis using write_back_aligned [OF Cons.prems(1-3) idx w(1)] by simp
  qed
qed simp

lemma read_aligned:
  assumes "pool_ok s" "aligned (bp_files s)" "pages_numbered s" "0 < length (bp_frames s)" "pool_read pid m s = Inr (k, s')"
  shows "aligned (bp_files s')"
proof (cases "bp_table s pid")
  case (Some j)
  then show ?thesis using assms(2,5) by (auto simp: pool_read_def)
next
  case None
  then obtain i s1 where e0: "evict s = Inr (i, s1)" using assms(5) by (cases "evict s") (auto simp: pool_read_def)
  obtain d fs where r: "read_page (pid_file pid) (pid_page pid) (bp_files s1) = (d, fs)" by fastforce
  have e: "evict s = Inr (i, s1)" "bp_files s' = snd (read_page (pid_file pid) (pid_page pid) (bp_files s1))"
    using assms(5) None e0 r by (auto simp: pool_read_def Let_def split: if_splits)
  have "aligned (bp_files s1)" using evict_aligned [OF assms(1-4)] e(1) by (simp add: evict_def)
  then show ?thesis by (simp add: e(2) aligned_def read_page_def Let_def)
qed

lemma nonzero_inside:
  assumes "aligned fs" "disk_page fs (PageId fid no) \<noteq> replicate PAGE_SIZE 0"
  shows "unat no < length (file_bytes fs fid) div PAGE_SIZE"
proof -
  have "get_at (page_off no) PAGE_SIZE (file_bytes fs fid) \<noteq> []"
    using assms(2) by (auto simp: disk_page_alt Let_def)
  then have "unat no * 4096 < length (file_bytes fs fid)" by (auto simp: get_at_def page_off_def PAGE_SIZE_def not_less)
  moreover have "length (file_bytes fs fid) mod 4096 = 0" using assms(1) by (simp add: aligned_def PAGE_SIZE_def)
  then obtain q where "length (file_bytes fs fid) = 4096 * q" by (auto simp: mod_eq_0_iff_dvd)
  ultimately show ?thesis by (simp add: PAGE_SIZE_def)
qed

lemma skip_zero_finds:
  assumes "n < 2 ^ 32" "unat tp \<le> n" "\<And>no. tp < no \<Longrightarrow> page_all_zero (disk_page fs (PageId fid no))"
    and "tp \<noteq> 0 \<Longrightarrow> \<not> page_all_zero (disk_page fs (PageId fid tp))"
  shows "skip_zero_pages fs fid n = unat tp"
  using assms(1,2)
proof (induction n)
  case 0
  then show ?case by simp
next
  case (Suc n)
  let ?w = "word_of_nat (Suc n) :: u32"
  have u: "unat ?w = Suc n" using Suc.prems(1) by (simp add: unat_of_nat del: of_nat_Suc)
  have r: "fst (read_page fid ?w fs) = disk_page fs (PageId fid ?w)" by (simp add: disk_page_def)
  show ?case
  proof (cases "unat tp = Suc n")
    case True
    then have "?w = tp" "tp \<noteq> 0" using u by (auto simp: word_unat_eq_iff)
    then show ?thesis using assms(4) True r by simp
  next
    case False
    then have "tp < ?w" using Suc.prems(2) u by (simp add: word_less_nat_alt)
    then show ?thesis using assms(3) [of ?w] r Suc False by simp
  qed
qed

lemma disk_tail_finds:
  assumes "aligned fs" "\<And>no. tp < no \<Longrightarrow> page_all_zero (disk_page fs (PageId fid no))"
    and "tp \<noteq> 0 \<Longrightarrow> \<not> page_all_zero (disk_page fs (PageId fid tp))"
  shows "disk_tail_page fid fs = tp"
proof -
  let ?n = "length (file_bytes fs fid) div PAGE_SIZE"
  have b: "length (file_bytes fs fid) < 2 ^ 32 * 4096" using assms(1) by (simp add: aligned_def PAGE_SIZE_def)
  have n: "?n < 2 ^ 32" using b by (simp add: PAGE_SIZE_def less_mult_imp_div_less)
  have pc: "page_count fs fid = word_of_nat ?n"
  proof -
    have "unat (file_size fs fid div word_of_nat PAGE_SIZE) = ?n"
      using b by (simp add: file_size_def unat_div unat_of_nat PAGE_SIZE_def)
    then have "unat (page_count fs fid) = ?n" using n by (simp add: page_count_def unsigned_ucast_eq take_bit_eq_mod)
    then show ?thesis by (metis of_nat_unat ucast_id)
  qed
  have up: "unat (page_count fs fid) = ?n" using n by (simp add: pc unat_of_nat)
  have l: "tp \<noteq> 0 \<Longrightarrow> unat tp < ?n" using nonzero_inside [OF assms(1)] assms(3) by (auto simp: page_all_zero_def)
  have "skip_zero_pages fs fid (if page_count fs fid = 0 then 0 else unat (page_count fs fid - 1)) = unat tp"
  proof (rule skip_zero_finds [OF _ _ assms(2,3)])
    have m: "page_count fs fid \<noteq> 0 \<Longrightarrow> unat (page_count fs fid - 1) = ?n - 1" using up by (metis unat_minus_one)
    have z: "page_count fs fid = 0 \<longleftrightarrow> ?n = 0" using up by (metis unat_eq_zero)
    show "(if page_count fs fid = 0 then 0 else unat (page_count fs fid - 1)) < 2 ^ 32" using n m by auto
    show "unat tp \<le> (if page_count fs fid = 0 then 0 else unat (page_count fs fid - 1))"
      using l m z by (cases "tp = 0") auto
  qed
  then show ?thesis by (simp add: disk_tail_page_def Let_def)
qed

section \<open>Tables\<close>

text \<open>
  Where the engine looks for the last page: its own note, or the last page on disk that is not all
  zeros when nothing was inserted since the start.
\<close>

definition tail_ok :: "engine \<Rightarrow> u64 \<Rightarrow> u32 list \<Rightarrow> bool" where
  "tail_ok e fid cs \<longleftrightarrow> (case en_tails e fid of
     Some t \<Rightarrow> cs \<noteq> [] \<and> t = last cs
   | None \<Rightarrow> aligned (bp_files (en_store e)) \<and> pages_numbered (en_store e)
       \<and> (\<forall>no > last (0 # cs). page_all_zero (disk_page (bp_files (en_store e)) (PageId fid no)))
       \<and> (cs \<noteq> [] \<longrightarrow> \<not> page_all_zero (disk_page (bp_files (en_store e)) (PageId fid (last cs)))))"

definition heap_table :: "engine \<Rightarrow> u64 \<Rightarrow> u32 list \<Rightarrow> bool" where
  "heap_table e fid cs \<longleftrightarrow> idle (en_store e) \<and> heap_file (page_view (en_store e)) fid cs \<and> tail_ok e fid cs"

abbreviation table_rows :: "engine \<Rightarrow> u64 \<Rightarrow> u32 list \<Rightarrow> (row_ref \<times> bytes) list" where
  "table_rows e fid cs \<equiv> heap_rows (page_view (en_store e)) fid cs"

lemma finish_files: "finish k s = Inr s' \<Longrightarrow> bp_files s' = bp_files s"
  by (auto simp: finish_def rbind_eq_Inr pool_mark_dirty_def pool_unpin_def log_page_diff_def Let_def split: option.splits prod.splits if_splits)

lemma take_rowid_aligned:
  assumes "pool_ok s" "aligned (bp_files s)" "pages_numbered s" "0 < length (bp_frames s)" "take_rowid fid s = Inr (r, s')"
  shows "aligned (bp_files s')"
proof -
  obtain k s1 where a: "pool_read (PageId fid 0) MAGIC_FILE_HEADER s = Inr (k, s1)" "bp_files s' = bp_files s1"
    using assms(5) finish_files by (fastforce simp: take_rowid_def rbind_eq_Inr Let_def edit_page_def)
  then show ?thesis using read_aligned [OF assms(1-4) a(1)] by simp
qed

lemma valid_nonzero: "page_valid p MAGIC_HEAP \<Longrightarrow> \<not> page_all_zero p"
  by (auto simp: page_valid_def page_all_zero_def hd_magic_def rd32_def get_at_zeros page_consts MAGIC_HEAP_def split: if_splits)

lemma heap_file_last:
  assumes "heap_file v fid cs" "cs \<noteq> []"
  shows "page_valid (v (PageId fid (last cs))) MAGIC_HEAP" "last cs \<noteq> 0"
proof -
  have m: "last cs \<in> set cs" using assms(2) by simp
  show "page_valid (v (PageId fid (last cs))) MAGIC_HEAP" using chain_page [OF _ m] assms(1) by (auto simp: heap_file_def)
  show "last cs \<noteq> 0" using chain_pos [OF _ m] assms(1) by (auto simp: heap_file_def)
qed

lemma tail_found:
  assumes "heap_table e fid cs" "0 < length (bp_frames (en_store e))" "take_rowid fid (en_store e) = Inr (r, s')"
    and "\<forall>q. disk_page (bp_files s') q = disk_page (bp_files (en_store e)) q \<or> disk_page (bp_files s') q = page_view (en_store e) q"
  shows "(case en_tails e fid of Some t \<Rightarrow> t | None \<Rightarrow> disk_tail_page fid (bp_files s')) = last (0 # cs)"
proof (cases "en_tails e fid")
  case None
  have f: "heap_file (page_view (en_store e)) fid cs" "pool_ok (en_store e)" using assms(1) by (auto simp: heap_table_def idle_def)
  have t: "aligned (bp_files (en_store e))" "pages_numbered (en_store e)"
    "\<And>no. no > last (0 # cs) \<Longrightarrow> page_all_zero (disk_page (bp_files (en_store e)) (PageId fid no))"
    "cs \<noteq> [] \<Longrightarrow> \<not> page_all_zero (disk_page (bp_files (en_store e)) (PageId fid (last cs)))"
    using assms(1) None by (auto simp: heap_table_def tail_ok_def)
  have "disk_tail_page fid (bp_files s') = last (0 # cs)"
  proof (rule disk_tail_finds)
    show "aligned (bp_files s')" by (rule take_rowid_aligned [OF f(2) t(1,2) assms(2,3)])
    show "page_all_zero (disk_page (bp_files s') (PageId fid no))" if "last (0 # cs) < no" for no
    proof -
      have "page_view (en_store e) (PageId fid no) = replicate PAGE_SIZE 0" using f(1) that by (simp add: heap_file_def)
      then show ?thesis using t(3) [OF that] assms(4) by (metis page_all_zero_def)
    qed
    assume "last (0 # cs) \<noteq> 0"
    then have ne: "cs \<noteq> []" by auto
    have "\<not> page_all_zero (page_view (en_store e) (PageId fid (last cs)))" using heap_file_last(1) [OF f(1) ne] valid_nonzero by blast
    then show "\<not> page_all_zero (disk_page (bp_files s') (PageId fid (last (0 # cs))))" using t(4) [OF ne] assms(4) ne by (metis last_ConsR)
  qed
  then show ?thesis using None by simp
qed (use assms(1) in \<open>auto simp: heap_table_def tail_ok_def\<close>)

lemma insert_prefix:
  assumes "heap_table e fid cs" "1 < length (bp_frames (en_store e))" "bp_txn (en_store e) = Some t" "fid \<noteq> 0"
    and "take_rowid fid (en_store e) = Inr (r, s1)" "idle s1" "kept (en_store e) s1" "heap_file (page_view s1) fid cs"
    and "tail = last (0 # cs)"
  shows "\<exists>bs c s2. (if tail = 0 then link_header_to_first_data_page fid s1 else Inr (tail, s1)) = Inr (c, s2) \<and> idle s2 \<and> kept s1 s2
    \<and> heap_file (page_view s2) fid (bs @ [c]) \<and> heap_rows (page_view s2) fid (bs @ [c]) = heap_rows (page_view s1) fid cs
    \<and> only_file fid (page_view s1) (page_view s2) \<and> (\<exists>ds. bs @ [c] = cs @ ds) \<and> (c = 1 \<or> c = last (0 # cs))
    \<and> file_next_rowid (page_view s2 (PageId fid 0)) = file_next_rowid (page_view s1 (PageId fid 0))"
proof (cases "cs = []")
  case True
  obtain t1 where t1: "bp_txn s1 = Some t1" "1 < length (bp_frames s1)" using assms(2,3,7) by (auto simp: kept_def)
  have h: "heap_file (page_view s1) fid []" using assms(8) True by simp
  obtain s2 where "link_header_to_first_data_page fid s1 = Inr (1, s2)" "idle s2" "kept s1 s2" "heap_file (page_view s2) fid [1]"
    "heap_rows (page_view s2) fid [1] = []" "only_file fid (page_view s1) (page_view s2)"
    "file_next_rowid (page_view s2 (PageId fid 0)) = file_next_rowid (page_view s1 (PageId fid 0))"
    using link_step [OF assms(6) t1(2,1) assms(4) h] by blast
  then show ?thesis using True assms(9) by (intro exI [of _ "[]"] exI [of _ 1] exI [of _ s2]) (simp add: heap_rows_def)
next
  case False
  then obtain bs where c: "cs = bs @ [last cs]" by (metis append_butlast_last_id)
  have l: "tail = last cs" "last cs \<noteq> 0" using heap_file_last(2) [OF assms(8) False] assms(9) False by auto
  have k: "kept s1 s1" using assms(6) kept_refl by (simp add: idle_def)
  have b: "bs @ [last cs] = cs @ []" using c by simp
  show ?thesis
    by (rule exI [of _ bs], rule exI [of _ "last cs"], rule exI [of _ s1]) (use l k assms(6,8) b c [symmetric] False in auto)
qed

lemma check_txn_Inr: "check_txn fid s = Inr t \<Longrightarrow> bp_txn s = Some t"
  by (auto simp: check_txn_def split: option.splits if_splits)

lemma note_tail_fields:
  "en_tails (note_tail fid t e) fid = Some t" "bp_frames (en_store (note_tail fid t e)) = bp_frames (en_store e)"
  "page_view (en_store (note_tail fid t e)) = page_view (en_store e)" "pin_of (en_store (note_tail fid t e)) = pin_of (en_store e)"
  "pool_ok (en_store (note_tail fid t e)) = pool_ok (en_store e)"
  by (simp_all add: note_tail_def Let_def pin_of_def fun_eq_iff cong: option.case_cong)

lemma note_tail_run:
  assumes "bp_txn (en_store e) = Some t"
  shows "txn_run (en_store e) [] (en_store (note_tail fid tp e))"
  using run_tail [OF run_start assms] assms by (simp add: note_tail_def Let_def)

lemma insert_row_step:
  assumes "heap_table e fid cs" "1 < length (bp_frames (en_store e))" "check_txn fid (en_store e) = Inr t" "fid \<noteq> 0" "last (0 # cs) \<noteq> - 1"
    and "encode_row cols vals = Inr (Some rec)" "length rec \<le> MAX_RECORD_LEN"
  shows "\<exists>ref ds e'. insert_row (Suc (Suc n)) fid cols vals e = Some (Inr (file_next_rowid (page_view (en_store e) (PageId fid 0)) + 1, ref, e'))
    \<and> heap_table e' fid (cs @ ds) \<and> table_rows e' fid (cs @ ds) = table_rows e fid cs @ [(ref, rec)]
    \<and> file_next_rowid (page_view (en_store e') (PageId fid 0)) = file_next_rowid (page_view (en_store e) (PageId fid 0)) + 1
    \<and> only_file fid (page_view (en_store e)) (page_view (en_store e')) \<and> (\<exists>chg. txn_run (en_store e) chg (en_store e'))"
proof -
  let ?s = "en_store e" and ?r = "file_next_rowid (page_view (en_store e) (PageId fid 0)) + 1"
  note t = check_txn_Inr [OF assms(3)]
  have h: "idle ?s" "heap_file (page_view ?s) fid cs" using assms(1) by (auto simp: heap_table_def)
  have pos: "0 < length (bp_frames ?s)" using assms(2) by linarith
  obtain s1 where s1: "take_rowid fid ?s = Inr (?r, s1)" "idle s1" "kept ?s s1" "heap_file (page_view s1) fid cs"
    "heap_rows (page_view s1) fid cs = table_rows e fid cs" "only_file fid (page_view ?s) (page_view s1)"
    "file_next_rowid (page_view s1 (PageId fid 0)) = ?r"
    "\<forall>q. disk_page (bp_files s1) q = disk_page (bp_files ?s) q \<or> disk_page (bp_files s1) q = page_view ?s q"
    using take_rowid_step [OF h(1) pos t assms(4) h(2)] by blast
  define tail where "tail = (case en_tails e fid of Some t \<Rightarrow> t | None \<Rightarrow> disk_tail_page fid (bp_files s1))"
  have tl: "tail = last (0 # cs)" unfolding tail_def by (rule tail_found [OF assms(1) pos s1(1,8)])
  obtain bs c s2 ds where s2: "(if tail = 0 then link_header_to_first_data_page fid s1 else Inr (tail, s1)) = Inr (c, s2)" "idle s2" "kept s1 s2"
    "heap_file (page_view s2) fid (bs @ [c])" "heap_rows (page_view s2) fid (bs @ [c]) = heap_rows (page_view s1) fid cs"
    "only_file fid (page_view s1) (page_view s2)" "bs @ [c] = cs @ ds" "c = 1 \<or> c = last (0 # cs)"
    "file_next_rowid (page_view s2 (PageId fid 0)) = file_next_rowid (page_view s1 (PageId fid 0))"
    using insert_prefix [OF assms(1,2) t assms(4) s1(1-4) tl] by blast
  have k2: "kept ?s s2" by (rule kept_trans [OF s1(3) s2(3)])
  obtain t2 where t2: "bp_txn s2 = Some t2" "1 < length (bp_frames s2)" using k2 t assms(2) by (auto simp: kept_def)
  have c1: "c \<noteq> - 1" using s2(8) assms(5) by auto
  obtain i cs' s3 where s3: "append_loop (Suc (Suc n)) fid rec c s2 = Some (Inr (RowRef (PageId fid (last (c # cs'))) i, s3))" "idle s3" "kept s2 s3"
    "heap_file (page_view s3) fid ((bs @ [c]) @ cs')"
    "heap_rows (page_view s3) fid ((bs @ [c]) @ cs') = heap_rows (page_view s2) fid (bs @ [c]) @ [(RowRef (PageId fid (last (c # cs'))) i, rec)]"
    "only_file fid (page_view s2) (page_view s3)" "page_view s3 (PageId fid 0) = page_view s2 (PageId fid 0)"
    using append_step [OF s2(2) t2(2,1) assms(4) s2(4) c1 assms(7), of n] by blast
  let ?ref = "RowRef (PageId fid (last (c # cs'))) i" and ?cs = "cs @ (ds @ cs')"
  let ?e' = "note_tail fid (last (c # cs')) (e\<lparr>en_store := s3\<rparr>)"
  have cs: "(bs @ [c]) @ cs' = ?cs" using s2(7) by simp
  have nl: "(MAX_RECORD_LEN < length rec) = False" using assms(7) by simp
  have "insert_row (Suc (Suc n)) fid cols vals e = Some (Inr (?r, ?ref, ?e'))"
    unfolding insert_row_def Let_def assms(3,6) rbind_Inr option.case nl if_False s1(1) prod.case tail_def [symmetric] s2(1) sum.case s3(1) by simp
  moreover have "last ?cs = last (c # cs')" "?cs \<noteq> []" unfolding cs [symmetric] by auto
  then have "heap_table ?e' fid ?cs" using s3(2,4) unfolding cs heap_table_def tail_ok_def by (simp add: note_tail_fields idle_def)
  moreover have "table_rows ?e' fid ?cs = table_rows e fid cs @ [(?ref, rec)]"
    using s3(5) s2(5) s1(5) unfolding cs by (simp add: note_tail_fields)
  moreover have "only_file fid (page_view ?s) (page_view (en_store ?e'))"
    using only_file_trans [OF only_file_trans [OF s1(6) s2(6)] s3(6)] by (simp add: note_tail_fields)
  moreover obtain t3 where t3: "bp_txn s3 = Some t3" using s3(3) t2(1) by (auto simp: kept_def)
  then have "\<exists>chg. txn_run ?s chg (en_store ?e')"
    using kept_trans [OF k2 s3(3)] run_trans [OF note_tail_run [of "e\<lparr>en_store := s3\<rparr>" t3]] by (fastforce simp: kept_def)
  moreover have "file_next_rowid (page_view (en_store ?e') (PageId fid 0)) = ?r"
    using s3(7) s2(9) s1(7) by (simp add: note_tail_fields)
  ultimately show ?thesis by blast
qed

text \<open>
  C8. Insertion refines appending to a list. On a well-formed heap file, with a transaction and two
  frames: a record longer than fits an empty page is refused; any other is always inserted, two rounds of the search for room being
  enough; it takes the next row number, appends exactly the new record to the live records of the
  file, extends the chain of pages by at most new pages at its end, leaves every page of every other file alone,
  and is a run of the transaction, so that a crash or a rollback undoes it.
\<close>

theorem insert_row_appends:
  assumes "heap_table e fid cs" "1 < length (bp_frames (en_store e))" "check_txn fid (en_store e) = Inr t" "fid \<noteq> 0" "last (0 # cs) \<noteq> - 1"
    and "encode_row cols vals = Inr (Some rec)"
  shows "if MAX_RECORD_LEN < length rec then insert_row (Suc (Suc n)) fid cols vals e = Some (Inl (Raise RecordTooLong))
    else \<exists>ref ds e'. insert_row (Suc (Suc n)) fid cols vals e = Some (Inr (file_next_rowid (page_view (en_store e) (PageId fid 0)) + 1, ref, e'))
      \<and> heap_table e' fid (cs @ ds) \<and> table_rows e' fid (cs @ ds) = table_rows e fid cs @ [(ref, rec)]
      \<and> file_next_rowid (page_view (en_store e') (PageId fid 0)) = file_next_rowid (page_view (en_store e) (PageId fid 0)) + 1
      \<and> (\<forall>p. pid_file p \<noteq> fid \<longrightarrow> page_view (en_store e') p = page_view (en_store e) p) \<and> (\<exists>chg. txn_run (en_store e) chg (en_store e'))"
proof (cases "MAX_RECORD_LEN < length rec")
  case True
  then show ?thesis using assms(3,6) by (simp add: insert_row_def Let_def)
next
  case False
  then show ?thesis using insert_row_step [OF assms, of n] by (simp add: only_file_def)
qed

section \<open>Reading rows\<close>

lemma walk_chain_step:
  assumes "idle s" "0 < length (bp_frames s)" "chain (\<lambda>c. page_view s (PageId fid c)) cs 0" "0 \<notin> set cs"
    and "\<And>c. c \<in> set cs \<Longrightarrow> f (PageId fid c) (page_view s (PageId fid c)) = Inr (F c)"
  shows "\<exists>s'. walk_chain (Suc (length cs + n)) fid f (hd (cs @ [0])) s = Some (Inr (concat (map F cs), s')) \<and> idle s' \<and> kept s s' \<and> page_view s' = page_view s"
  using assms
proof (induction cs arbitrary: s)
  case Nil
  then show ?case using kept_refl by (auto simp: idle_def)
next
  case (Cons c cs)
  have v: "page_valid (page_view s (PageId fid c)) MAGIC_HEAP" "hd_next_page (page_view s (PageId fid c)) = hd (cs @ [0])" "c \<noteq> 0"
    using Cons.prems(3,4) by auto
  obtain k s1 s2 where l: "pool_read (PageId fid c) MAGIC_HEAP s = Inr (k, s1)" "frame_data k s1 = page_view s (PageId fid c)" "pool_unpin k s1 = Inr s2"
    "idle s2" "kept s s2" "page_view s2 = page_view s"
    using look_step [OF Cons.prems(1,2) v(1)] by blast
  have pos: "0 < length (bp_frames s2)" using l(5) Cons.prems(2) by (simp add: kept_def)
  obtain s' where w: "walk_chain (Suc (length cs + n)) fid f (hd (cs @ [0])) s2 = Some (Inr (concat (map F cs), s'))" "idle s'" "kept s2 s'" "page_view s' = page_view s2"
    using Cons.IH [OF l(4) pos] Cons.prems(3-5) l(6) by auto
  have "walk_chain (Suc (length (c # cs) + n)) fid f c s = Some (Inr (concat (map F (c # cs)), s'))"
    using l(1-3) v w(1) Cons.prems(5) [of c] by simp
  then show ?case using w(2,4) l(6) kept_trans [OF l(5) w(3)] by auto
qed

lemma walk_file_step:
  assumes "idle s" "0 < length (bp_frames s)" "heap_file (page_view s) fid cs"
    and "\<And>c. c \<in> set cs \<Longrightarrow> f (PageId fid c) (page_view s (PageId fid c)) = Inr (F c)"
  shows "\<exists>s'. walk_file (Suc (length cs + n)) fid f s = Some (Inr (concat (map F cs), s')) \<and> idle s' \<and> kept s s' \<and> page_view s' = page_view s"
proof -
  have h: "page_valid (page_view s (PageId fid 0)) MAGIC_FILE_HEADER" "hd_next_page (page_view s (PageId fid 0)) = hd (cs @ [0])"
    "chain (\<lambda>c. page_view s (PageId fid c)) cs 0" "sorted_wrt (<) (0 # cs)"
    using assms(3) by (auto simp: heap_file_def)
  have nz: "0 \<notin> set cs" using h(4) by auto
  obtain k s1 s2 where l: "pool_read (PageId fid 0) MAGIC_FILE_HEADER s = Inr (k, s1)" "frame_data k s1 = page_view s (PageId fid 0)" "pool_unpin k s1 = Inr s2"
    "idle s2" "kept s s2" "page_view s2 = page_view s"
    using look_step [OF assms(1,2) h(1)] by blast
  have pos: "0 < length (bp_frames s2)" using l(5) assms(2) by (simp add: kept_def)
  obtain s' where w: "walk_chain (Suc (length cs + n)) fid f (hd (cs @ [0])) s2 = Some (Inr (concat (map F cs), s'))" "idle s'" "kept s2 s'" "page_view s' = page_view s2"
    using walk_chain_step [OF l(4) pos, of fid cs f F n] h(3) nz assms(4) l(6) by auto
  have "first_page fid s = Inr (hd (cs @ [0]), s2)" using l(1-3) h(2) by (simp add: first_page_def)
  then have "walk_file (Suc (length cs + n)) fid f s = Some (Inr (concat (map F cs), s'))" using w(1) by (simp add: walk_file_def)
  then show ?thesis using w(2,4) l(6) kept_trans [OF l(5) w(3)] by auto
qed

text \<open>The live slots of a page are the places of its rows.\<close>

lemma unat_nat16: "k < unat n \<Longrightarrow> unat (word_of_nat k :: u16) = k" for n :: u16
  using unat16_less [of n] by simp

lemma page_rows_live: "page_rows pid (page_slots p) = map (\<lambda>i. (RowRef pid i, page_record p i)) (live_slots p)"
proof -
  let ?n = "unat (hd_slot_count p)"
  have e: "enumerate 0 (page_slots p) = map (\<lambda>i. (i, page_slot p i)) [0..<?n]"
    by (intro nth_equalityI) (simp_all add: page_slots_def nth_enumerate_eq)
  have "concat (map (\<lambda>i. case page_slot p i of None \<Rightarrow> [] | Some r \<Rightarrow> [(RowRef pid (word_of_nat i), r)]) is)
    = map (\<lambda>i. (RowRef pid i, page_record p i)) (filter (\<lambda>i. \<not> slot_tombstone p i) (map word_of_nat is))" for "is"
    by (induction "is") (auto simp: page_slot_def)
  then show ?thesis unfolding page_rows_def e live_slots_def by (simp add: comp_def)
qed

lemma map_res_map: "map_res f (map g xs) = map_res (\<lambda>x. f (g x)) xs"
  by (induction xs) simp_all

text \<open>Decoding every live record of a page, when all of them decode.\<close>

lemma decode_slots:
  assumes "\<And>ref r. (ref, r) \<in> set (page_rows pid (page_slots p)) \<Longrightarrow> decode_row cols r = Inr (Some (dec r))"
  shows "map_res (decode_slot cols p) (live_slots p) = Inr (map (dec \<circ> snd) (page_rows pid (page_slots p)))"
proof -
  have "map_res (decode_slot cols p) is = Inr (map (\<lambda>i. dec (page_record p i)) is)" if "set is \<subseteq> set (live_slots p)" for "is"
    using that
  proof (induction "is")
    case (Cons i "is")
    have "(RowRef pid i, page_record p i) \<in> set (page_rows pid (page_slots p))" using Cons.prems by (auto simp: page_rows_live)
    then have "decode_slot cols p i = Inr (dec (page_record p i))" using assms by (simp add: decode_slot_def)
    then show ?case using Cons by simp
  qed simp
  then show ?thesis by (simp add: page_rows_live comp_def)
qed

text \<open>
  C9. A full read ends and is exact: on a well-formed heap file, with more steps than the file has
  pages, reading all rows gives the decoded live records in the order of the pages and slots, and counting
  them gives their number; neither changes any page.
\<close>

theorem read_rows_exact:
  assumes "idle s" "0 < length (bp_frames s)" "heap_file (page_view s) fid cs"
    and "\<And>ref r. (ref, r) \<in> set (heap_rows (page_view s) fid cs) \<Longrightarrow> decode_row cols r = Inr (Some (dec r))"
  shows "(\<exists>s'. read_rows (Suc (length cs + n)) fid cols s = Some (Inr (map (dec \<circ> snd) (heap_rows (page_view s) fid cs), s'))
      \<and> idle s' \<and> page_view s' = page_view s)
    \<and> (\<exists>s'. row_count (Suc (length cs + n)) fid s = Some (Inr (length (heap_rows (page_view s) fid cs), s')) \<and> idle s' \<and> page_view s' = page_view s)"
proof -
  let ?rows = "\<lambda>c. page_rows (PageId fid c) (page_slots (page_view s (PageId fid c)))"
  have d: "map_res (decode_slot cols (page_view s (PageId fid c))) (live_slots (page_view s (PageId fid c))) = Inr (map (dec \<circ> snd) (?rows c))"
    if "c \<in> set cs" for c using assms(4) that by (intro decode_slots) (auto simp: heap_rows_def)
  have r: "concat (map (\<lambda>c. map (dec \<circ> snd) (?rows c)) cs) = map (dec \<circ> snd) (heap_rows (page_view s) fid cs)"
    by (simp add: heap_rows_def map_concat comp_def)
  have l: "length (concat (map (\<lambda>c. live_slots (page_view s (PageId fid c))) cs)) = length (heap_rows (page_view s) fid cs)"
    by (simp add: heap_rows_def length_concat page_rows_live comp_def)
  show ?thesis
    using walk_file_step [OF assms(1-3), of "\<lambda>_ p. map_res (decode_slot cols p) (live_slots p)" "\<lambda>c. map (dec \<circ> snd) (?rows c)" n] d r
      walk_file_step [OF assms(1-3), of "\<lambda>_ p. Inr (live_slots p)" "\<lambda>c. live_slots (page_view s (PageId fid c))" n] l
    by (auto simp: read_rows_def row_count_def)
qed

section \<open>Access by location\<close>

lemma page_rows_range: "(ref, r) \<in> set (page_rows pid (page_slots p)) \<Longrightarrow>
  rr_page ref = pid \<and> rr_slot ref < hd_slot_count p \<and> \<not> slot_tombstone p (rr_slot ref) \<and> page_record p (rr_slot ref) = r"
  by (auto simp: page_rows_live live_slots_def word_less_nat_alt unat_nat16)

lemma heap_rows_page:
  assumes "(ref, r) \<in> set (heap_rows v fid cs)"
  shows "\<exists>c \<in> set cs. rr_page ref = PageId fid c \<and> (ref, r) \<in> set (page_rows (PageId fid c) (page_slots (v (PageId fid c))))"
  using assms page_rows_range by (fastforce simp: heap_rows_def)

lemma sorted_le_last: "sorted_wrt (<) (0 # cs) \<Longrightarrow> c \<in> set cs \<Longrightarrow> c \<le> last cs" for c :: u32
  by (induction cs rule: rev_induct) (auto simp: sorted_wrt_append less_imp_le)

lemma aligned_count:
  assumes "aligned fs"
  shows "unat (page_count fs fid) = length (file_bytes fs fid) div PAGE_SIZE"
proof -
  have b: "length (file_bytes fs fid) < 2 ^ 32 * 4096" using assms(1) by (simp add: aligned_def PAGE_SIZE_def)
  have n: "length (file_bytes fs fid) div PAGE_SIZE < 2 ^ 32" using b by (simp add: PAGE_SIZE_def less_mult_imp_div_less)
  have "unat (file_size fs fid div word_of_nat PAGE_SIZE) = length (file_bytes fs fid) div PAGE_SIZE"
    using b by (simp add: file_size_def unat_div unat_of_nat PAGE_SIZE_def)
  then show ?thesis using n by (simp add: page_count_def unsigned_ucast_eq take_bit_eq_mod)
qed

lemma row_ref_accepted:
  assumes "heap_table e fid cs" "fid \<noteq> 0" "c \<in> set cs" "rr_page ref = PageId fid c"
  shows "check_row_ref ref e = Inr ()"
proof -
  have h: "sorted_wrt (<) (0 # cs)" "cs \<noteq> []" using assms(1,3) by (auto simp: heap_table_def heap_file_def)
  have c: "c \<le> last cs" "c \<noteq> 0" "last cs \<noteq> 0" using sorted_le_last [OF h(1) assms(3)] chain_pos [OF h(1) assms(3)] by auto
  let ?pages = "page_count (bp_files (en_store e)) fid"
  have "last cs \<le> (case en_tails e fid of Some t \<Rightarrow> if t > (if ?pages = 0 then 0 else ?pages - 1) then t else if ?pages = 0 then 0 else ?pages - 1
     | None \<Rightarrow> if ?pages = 0 then 0 else ?pages - 1)"
  proof (cases "en_tails e fid")
    case (Some t)
    then show ?thesis using assms(1) by (auto simp: heap_table_def tail_ok_def not_less)
  next
    case None
    then have a: "aligned (bp_files (en_store e))" "disk_page (bp_files (en_store e)) (PageId fid (last cs)) \<noteq> replicate PAGE_SIZE 0"
      using assms(1) h(2) by (auto simp: heap_table_def tail_ok_def page_all_zero_def)
    have l: "unat (last cs) < unat ?pages" using nonzero_inside [OF a] aligned_count [OF a(1)] by simp
    then have "?pages \<noteq> 0" by auto
    moreover from this have "unat (?pages - 1) = unat ?pages - 1" by (rule unat_minus_one)
    ultimately show ?thesis using None l by (simp add: word_le_nat_alt)
  qed
  then show ?thesis using assms(2,4) c by (auto simp: check_row_ref_def Let_def INVALID_PAGE_def)
qed

text \<open>Every live record is found under its location with the values it decodes to.\<close>

lemma read_row_finds:
  assumes "heap_table e fid cs" "fid \<noteq> 0" "0 < length (bp_frames (en_store e))"
    and "(ref, rec) \<in> set (table_rows e fid cs)" "decode_row cols rec = Inr (Some vals)"
  shows "\<exists>s'. read_row ref cols e = Inr (Some (empty_row\<lparr>row_loc := ref, row_values := vals\<rparr>), e\<lparr>en_store := s'\<rparr>)
    \<and> idle s' \<and> page_view s' = page_view (en_store e)"
proof -
  obtain c where c: "c \<in> set cs" "rr_page ref = PageId fid c"
    "(ref, rec) \<in> set (page_rows (PageId fid c) (page_slots (page_view (en_store e) (PageId fid c))))"
    using heap_rows_page [OF assms(4)] by blast
  have h: "idle (en_store e)" "page_valid (page_view (en_store e) (PageId fid c)) MAGIC_HEAP"
    using assms(1) chain_page c(1) by (auto simp: heap_table_def heap_file_def)
  note r = page_rows_range [OF c(3)]
  obtain k s1 s2 where l: "pool_read (PageId fid c) MAGIC_HEAP (en_store e) = Inr (k, s1)" "frame_data k s1 = page_view (en_store e) (PageId fid c)"
    "pool_unpin k s1 = Inr s2" "idle s2" "page_view s2 = page_view (en_store e)"
    using look_step [OF h(1) assms(3) h(2)] by blast
  then show ?thesis
    using r c(2) assms(5) row_ref_accepted [OF assms(1,2) c(1,2)] by (intro exI [of _ s2]) (simp add: read_row_def Let_def not_le)
qed

lemma rows_without:
  assumes "i < length xs" "length xs \<le> 65536"
  shows "page_rows pid (xs[i := None]) = filter (\<lambda>(ref, _). ref \<noteq> RowRef pid (word_of_nat i)) (page_rows pid xs)"
proof -
  let ?g = "\<lambda>(i, x). case x of None \<Rightarrow> [] | Some r \<Rightarrow> [(RowRef pid (word_of_nat i :: u16), r)]"
  have inj: "(word_of_nat a :: u16) = word_of_nat b \<longleftrightarrow> a = b" if "a < 65536" "b < 65536" for a b
    using that by (metis unat_small16)
  have "concat (map ?g (enumerate j (ys[i - j := None]))) = filter (\<lambda>(ref, _). ref \<noteq> RowRef pid (word_of_nat i)) (concat (map ?g (enumerate j ys)))"
    if "j + length ys \<le> 65536" "i < 65536" "j \<le> i" for j ys using that
  proof (induction ys arbitrary: j)
    case (Cons y ys)
    have off: "filter (\<lambda>(ref, _). ref \<noteq> RowRef pid (word_of_nat i)) (concat (map ?g (enumerate k zs))) = concat (map ?g (enumerate k zs))"
      if "i < k" "k + length zs \<le> 65536" for k zs
      using that by (induction zs arbitrary: k) (auto simp: inj split: option.split)
    show ?case
    proof (cases "i = j")
      case True
      then show ?thesis using off [of "Suc j" ys] Cons.prems(1) by (auto split: option.split)
    next
      case False
      then have "i - j = Suc (i - Suc j)" "Suc j \<le> i" using Cons.prems(3) by auto
      then show ?thesis using Cons.IH [of "Suc j"] Cons.prems(1,2) False by (auto simp: inj split: option.split)
    qed
  qed simp
  from this [of 0 xs] show ?thesis using assms by (simp add: page_rows_def)
qed

lemma chain_update:
  assumes "chain g cs n" "heap_ok q" "page_valid q MAGIC_HEAP" "hd_next_page q = hd_next_page (g c)"
  shows "chain (\<lambda>d. if d = c then q else g d) cs n"
  using assms by (induction cs) auto

lemma heap_file_delete:
  fixes v :: "page_id \<Rightarrow> bytes" and fid :: u64 and c :: u32 and i :: u16
  assumes "heap_file v fid cs" "c \<in> set cs" "i < hd_slot_count (v (PageId fid c))"
  defines "v' \<equiv> v(PageId fid c := heap_delete i (v (PageId fid c)))"
  shows "heap_file v' fid cs" "heap_rows v' fid cs = filter (\<lambda>(ref, _). ref \<noteq> RowRef (PageId fid c) i) (heap_rows v fid cs)"
    "length (heap_delete i (v (PageId fid c))) = PAGE_SIZE"
proof -
  let ?p = "v (PageId fid c)"
  have ch: "chain (\<lambda>c. v (PageId fid c)) cs 0" and s: "sorted_wrt (<) (0 # cs)" using assms(1) by (auto simp: heap_file_def)
  have p: "heap_ok ?p" "page_valid ?p MAGIC_HEAP" using chain_page [OF ch assms(2)] by auto
  have mg: "hd_magic ?p = MAGIC_HEAP" using p(2) by (simp add: page_valid_def split: if_splits)
  have i: "unat i < unat (hd_slot_count ?p)" using assms(3) by (simp add: word_less_nat_alt)
  note d = heap_delete_slots [OF p(1) i]
  show len: "length (heap_delete i ?p) = PAGE_SIZE" using d(1) by (simp add: heap_ok_def)
  have g: "(\<lambda>d. v' (PageId fid d)) = (\<lambda>d. if d = c then heap_delete i ?p else v (PageId fid d))" by (auto simp: v'_def)
  have "chain (\<lambda>d. v' (PageId fid d)) cs 0" unfolding g using chain_update [OF ch d(1)] d(3,5) mg by simp
  moreover have "c \<noteq> 0" using chain_pos [OF s assms(2)] by auto
  moreover have "no \<noteq> c" if "no > last (0 # cs)" for no using that sorted_le_last [OF s assms(2)] assms(2) by (auto simp: not_less split: if_splits)
  ultimately show "heap_file v' fid cs" using assms(1) by (simp add: heap_file_def v'_def)
  have "length (page_slots ?p) \<le> 65536" using unat16_less [of "hd_slot_count ?p"] by simp
  then have same: "page_rows (PageId fid c) (page_slots (v' (PageId fid c)))
      = filter (\<lambda>(ref, _). ref \<noteq> RowRef (PageId fid c) i) (page_rows (PageId fid c) (page_slots ?p))"
    using rows_without [of "unat i" "page_slots ?p" "PageId fid c"] i d(2) by (simp add: v'_def)
  have other: "page_rows (PageId fid b) (page_slots (v' (PageId fid b)))
      = filter (\<lambda>(ref, _). ref \<noteq> RowRef (PageId fid c) i) (page_rows (PageId fid b) (page_slots (v (PageId fid b))))" if "b \<noteq> c" for b
  proof -
    have "(ref, r) \<in> set (page_rows (PageId fid b) (page_slots (v (PageId fid b)))) \<Longrightarrow> ref \<noteq> RowRef (PageId fid c) i" for ref r
      using page_rows_range [of ref r "PageId fid b"] that by auto
    then show ?thesis using that by (auto simp: v'_def intro!: filter_True [symmetric])
  qed
  have "page_rows (PageId fid b) (page_slots (v' (PageId fid b)))
      = filter (\<lambda>(ref, _). ref \<noteq> RowRef (PageId fid c) i) (page_rows (PageId fid b) (page_slots (v (PageId fid b))))" for b
    using same other [of b] by (cases "b = c") simp_all
  then show "heap_rows v' fid cs = filter (\<lambda>(ref, _). ref \<noteq> RowRef (PageId fid c) i) (heap_rows v fid cs)"
    by (simp add: heap_rows_def filter_concat comp_def)
qed

text \<open>
  C12. Deletion refines removal. Deleting a live row by its location reports one row and removes
  exactly the records under that location from the live records; the file stays well formed, no
  other file changes, and it is a run of the transaction.
\<close>

theorem delete_row_removes:
  assumes "heap_table e fid cs" "fid \<noteq> 0" "0 < length (bp_frames (en_store e))" "check_txn fid (en_store e) = Inr t"
    and "(ref, rec) \<in> set (table_rows e fid cs)"
  shows "\<exists>s'. delete_row ref e = Inr (1, e\<lparr>en_store := s'\<rparr>) \<and> idle s' \<and> heap_file (page_view s') fid cs
    \<and> heap_rows (page_view s') fid cs = filter (\<lambda>(r, _). r \<noteq> ref) (table_rows e fid cs)
    \<and> only_file fid (page_view (en_store e)) (page_view s') \<and> (\<exists>chg. txn_run (en_store e) chg s')"
proof -
  obtain c where c: "c \<in> set cs" "rr_page ref = PageId fid c"
    "(ref, rec) \<in> set (page_rows (PageId fid c) (page_slots (page_view (en_store e) (PageId fid c))))"
    using heap_rows_page [OF assms(5)] by blast
  have h: "idle (en_store e)" "page_valid (page_view (en_store e) (PageId fid c)) MAGIC_HEAP" "heap_file (page_view (en_store e)) fid cs"
    using assms(1) chain_page c(1) by (auto simp: heap_table_def heap_file_def)
  note r = page_rows_range [OF c(3)]
  have i: "rr_slot ref < hd_slot_count (page_view (en_store e) (PageId fid c))" using r by simp
  have ref: "RowRef (PageId fid c) (rr_slot ref) = ref" using c(2) by (cases ref) simp
  note d = heap_file_delete [OF h(3) c(1) i, unfolded ref]
  obtain k s1 s' where l: "pool_read (PageId fid c) MAGIC_HEAP (en_store e) = Inr (k, s1)" "frame_data k s1 = page_view (en_store e) (PageId fid c)"
    "finish k (edit_page k (heap_delete (rr_slot ref) (page_view (en_store e) (PageId fid c))) s1) = Inr s'" "idle s'" "kept (en_store e) s'"
    "page_view s' = (page_view (en_store e))(PageId fid c := heap_delete (rr_slot ref) (page_view (en_store e) (PageId fid c)))"
    using edit_step [OF h(1) assms(3) check_txn_Inr [OF assms(4)] _ h(2), of "heap_delete (rr_slot ref)"] d(3) assms(2) by auto
  have "delete_row ref e = Inr (1, e\<lparr>en_store := s'\<rparr>)"
    using l(1-3) r c(2) assms(4) row_ref_accepted [OF assms(1,2) c(1,2)] leD [of "hd_slot_count (page_view (en_store e) (PageId fid c))" "rr_slot ref"]
    by (auto simp: delete_row_def Let_def)
  then show ?thesis using l(4-6) d(1,2) by (auto simp: kept_def)
qed

section \<open>Creating a table file\<close>

lemma numbered_upd:
  assumes "pages_numbered s" "k < length (bp_frames s) \<Longrightarrow> pid_page (fr_page (g (bp_frames s ! k))) \<noteq> - 1"
  shows "pages_numbered (upd_frame k g s)"
proof (cases "k < length (bp_frames s)")
  case True
  then show ?thesis using assms by (auto simp: pages_numbered_def list_all_length nth_list_update)
qed (use assms(1) in \<open>simp add: pages_numbered_def list_update_beyond\<close>)

lemma numbered_page: "pages_numbered s \<Longrightarrow> k < length (bp_frames s) \<Longrightarrow> pid_page (fr_page (bp_frames s ! k)) \<noteq> - 1"
  by (simp add: pages_numbered_def list_all_length)

lemma numbered_keep: "pages_numbered s \<Longrightarrow> (\<And>f. fr_page (g f) = fr_page f) \<Longrightarrow> pages_numbered (upd_frame k g s)"
  using numbered_upd [of s k g] numbered_page [of s k] by simp

lemma numbered_fields [simp]:
  "pages_numbered (s\<lparr>bp_files := fs\<rparr>) = pages_numbered s" "pages_numbered (s\<lparr>bp_table := tb\<rparr>) = pages_numbered s"
  "pages_numbered (s\<lparr>bp_hand := h\<rparr>) = pages_numbered s" "pages_numbered (s\<lparr>bp_wal := w\<rparr>) = pages_numbered s" "pages_numbered (s\<lparr>bp_txn := x\<rparr>) = pages_numbered s"
  by (simp_all add: pages_numbered_def)

lemma write_back_numbered: "pages_numbered s \<Longrightarrow> write_back k s = Inr s' \<Longrightarrow> pages_numbered s'"
  by (auto simp: write_back_def Let_def intro!: numbered_keep split: if_splits)

lemma evict_numbered:
  assumes "pages_numbered s" "evict_from is s = Inr (k, s')"
  shows "pages_numbered s'"
  using assms
proof (induction "is" arbitrary: s)
  case (Cons i "is")
  have rel: "pages_numbered (release j s1)" if "pages_numbered s1" for j s1
    using that unfolding release_def by (auto simp: Let_def intro!: numbered_keep)
  show ?case
    using Cons.prems Cons.IH Cons.IH [OF numbered_keep [OF Cons.prems(1), of "\<lambda>f. f\<lparr>fr_ref := False\<rparr>"]] write_back_numbered [OF Cons.prems(1)] rel
    by (auto simp: evict_from_Cons Let_def rbind_eq_Inr split: if_splits)
qed simp

lemma allocate_disk_ok:
  assumes "pool_ok s" "aligned (bp_files s)" "pages_numbered s" "0 < length (bp_frames s)" "pool_allocate pid s = Inr (k, s')" "pid_page pid \<noteq> - 1"
  shows "aligned (bp_files s')" "pages_numbered s'"
proof -
  have "aligned (bp_files s') \<and> pages_numbered s'"
  proof (cases "bp_table s pid")
    case (Some j)
    then show ?thesis using assms(2,3,5) by (auto simp: pool_allocate_def intro!: numbered_keep)
  next
    case None
    then obtain i s1 where e: "evict s = Inr (i, s1)" using assms(5) by (cases "evict s") (auto simp: pool_allocate_def)
    have "aligned (bp_files s1)" "pages_numbered s1"
      using evict_aligned [OF assms(1-4)] evict_numbered [OF assms(3)] e by (simp_all add: evict_def)
    then show ?thesis using assms(5,6) None e
      by (auto simp: pool_allocate_def intro!: numbered_upd)
  qed
  then show "aligned (bp_files s')" "pages_numbered s'" by simp_all
qed

lemma finish_numbered: "pages_numbered s \<Longrightarrow> finish k (edit_page k d s) = Inr s' \<Longrightarrow> pages_numbered s'"
  by (auto simp: finish_def rbind_eq_Inr pool_mark_dirty_def pool_unpin_def log_page_diff_def edit_page_def Let_def
      intro!: numbered_keep split: option.splits prod.splits if_splits)

lemma flush_step:
  assumes "idle s"
  shows "\<exists>s'. pool_flush pid s = Inr s' \<and> idle s' \<and> kept s s' \<and> same_outside s s' \<and> (pages_numbered s \<longrightarrow> pages_numbered s')
    \<and> (aligned (bp_files s) \<longrightarrow> pages_numbered s \<longrightarrow> aligned (bp_files s'))"
proof (cases "bp_table s pid")
  case None
  then show ?thesis using assms kept_refl by (simp add: pool_flush_def idle_def)
next
  case (Some k)
  have ok: "pool_ok s" "pin_of s = (\<lambda>_. 0)" using assms by (simp_all add: idle_def)
  have k: "k < length (bp_frames s)" by (rule table_bound [OF ok(1) Some])
  have "fr_data (bp_frames s ! k) = fr_before (bp_frames s ! k)"
    using unpinned_logged [OF ok(1), of pid] ok(2) Some by (simp add: page_view_def logged_view_def)
  then obtain s' b where w: "write_back k s = Inr s'" "pool_ok s'" "same_outside s s'" "bp_table s' = bp_table s"
    "bp_frames s' = (bp_frames s)[k := (bp_frames s ! k)\<lparr>fr_dirty := b\<rparr>]"
    using write_back_ok [OF ok(1) k] by blast
  have f: "pool_flush pid s = Inr s'" using Some w(1) by (simp add: pool_flush_def)
  have "fr_pin (bp_frames s' ! j) = fr_pin (bp_frames s ! j)" for j using k by (simp add: w(5) nth_list_update)
  then have "pin_of s' = pin_of s" by (auto simp: pin_of_def w(4) fun_eq_iff split: option.split)
  then have "idle s'" using w(2) ok(2) by (simp add: idle_def)
  moreover have "kept s s'" using w(2,3) run_flush [OF run_start f] by (auto simp: kept_def same_outside_def)
  moreover have "pages_numbered s \<longrightarrow> pages_numbered s'" using write_back_numbered w(1) by blast
  ultimately show ?thesis using f w(1,3) write_back_aligned [OF ok(1) _ _ k w(1)] by blast
qed

lemma create_aligned: "aligned fs \<Longrightarrow> aligned (create_table_file fid fs)"
proof -
  have t: "length (truncate_to PAGE_SIZE bs) = PAGE_SIZE" for bs by (simp add: truncate_to_def)
  have "length (file_bytes (create_table_file fid fs) g) = (if g = fid then PAGE_SIZE else length (file_bytes fs g))" for g
    using t by (simp add: create_table_file_def Let_def) (auto simp: file_bytes_def fd_for_def split: option.splits)
  then show "aligned fs \<Longrightarrow> aligned (create_table_file fid fs)" by (simp add: aligned_def PAGE_SIZE_def)
qed

text \<open>
  Creating a table file whose pages are still zero gives an empty table: a valid file header, no
  rows, and the row numbers start at one; no other file changes.
\<close>

lemma init_table_file_empty:
  assumes "idle (en_store e)" "0 < length (bp_frames (en_store e))" "check_txn fid (en_store e) = Inr t" "fid \<noteq> 0"
    and "\<And>no. page_view (en_store e) (PageId fid no) = replicate PAGE_SIZE 0" "\<And>no. page_all_zero (disk_page (bp_files (en_store e)) (PageId fid no))"
    and "length (file_bytes (bp_files (en_store e)) fid) \<le> PAGE_SIZE" "aligned (bp_files (en_store e))" "pages_numbered (en_store e)" "en_tails e fid = None"
  shows "\<exists>e'. init_table_file fid e = Inr e' \<and> heap_table e' fid [] \<and> table_rows e' fid [] = [] \<and> en_tails e' = en_tails e
    \<and> file_next_rowid (page_view (en_store e') (PageId fid 0)) = 0 \<and> only_file fid (page_view (en_store e)) (page_view (en_store e'))
    \<and> (\<exists>chg. txn_run (en_store e) chg (en_store e')) \<and> length (bp_frames (en_store e')) = length (bp_frames (en_store e))
    \<and> check_txn fid (en_store e') \<noteq> Inl (Raise Internal)"
proof -
  let ?s = "en_store e" and ?p = "PageId fid 0" and ?h = "init_page MAGIC_FILE_HEADER FileHeader"
  let ?z = "?s\<lparr>bp_files := create_table_file fid (bp_files ?s)\<rparr>"
  have ok: "pool_ok ?s" "pin_of ?s = (\<lambda>_. 0)" using assms(1) by (simp_all add: idle_def)
  note tx = check_txn_Inr [OF assms(3)]
  have d: "disk_page (create_table_file fid (bp_files ?s)) = disk_page (bp_files ?s)" by (rule disk_page_create [OF assms(7)])
  have k0: "kept ?s ?z" using trace_create [OF ok(1) tx assms(7)] run_create [OF run_start assms(7)] by (auto simp: kept_def txn_trace_def)
  have v0: "page_view ?z = page_view ?s" "pin_of ?z = (\<lambda>_. 0)" using d ok(2)
    by (simp_all add: page_view_def pin_of_def fun_eq_iff cong: option.case_cong)
  then have i0: "idle ?z" using k0 by (simp add: idle_def kept_def)
  note v0 = v0 i0
  have a0: "aligned (bp_files ?z)" "pages_numbered ?z" using create_aligned assms(8,9) by simp_all
  obtain k s1 where s1: "pool_allocate ?p ?z = Inr (k, s1)" "fetched ?z ?p k s1" "kept ?z s1"
    using allocate_step [of ?z ?p] v0 idle_room [OF v0(3), of ?p] assms(2,5) by (auto simp: idle_def)
  note v1 = fetched_views [OF s1(2)]
  have ok1: "pool_ok s1" "bp_txn s1 = Some t" using s1(2) v1 tx by (auto simp: fetched_def)
  have a1: "aligned (bp_files s1)" "pages_numbered s1" using allocate_disk_ok [OF _ a0 _ s1(1)] v0(3) assms(2) by (simp_all add: idle_def)
  obtain s2 where s2: "finish k (edit_page k ?h s1) = Inr s2" "kept s1 s2" "page_view s2 = (page_view s1)(?p := ?h)" "bp_files s2 = bp_files s1"
    "pin_of s2 = (pin_of s1)(?p := pin_of s1 ?p - 1)"
    using finish_step [OF ok1(1) fetched_held [OF s1(2)] init_page_fields(1) [of MAGIC_FILE_HEADER FileHeader] _ ok1(2)] assms(4) by auto
  have i2: "idle s2" using s2(2,5) v1 v0(2) by (simp add: idle_def kept_def fun_eq_iff)
  have a2: "aligned (bp_files s2)" "pages_numbered s2" using a1 s2(4) finish_numbered [OF a1(2) s2(1)] by simp_all
  obtain s3 where s3: "pool_flush ?p s2 = Inr s3" "idle s3" "kept s2 s3" "same_outside s2 s3" "pages_numbered s3" "aligned (bp_files s3)"
    using flush_step [OF i2, of ?p] a2 by blast
  let ?e = "e\<lparr>en_store := s3\<rparr>"
  have pv: "page_view s3 = (page_view ?s)(?p := ?h)" using s3(4) s2(3) v1 v0(1) by (simp add: same_outside_def)
  have lv: "logged_view s2 = page_view s2" using idle_logged [OF i2] by simp
  have dz: "page_all_zero (disk_page (bp_files s3) (PageId fid no))" if "no > 0" for no
  proof -
    have l: "page_view s2 (PageId fid no) = replicate PAGE_SIZE 0" using s2(3) v1 v0(1) assms(5) that by auto
    have "disk_page (bp_files s1) (PageId fid no) = disk_page (bp_files ?s) (PageId fid no) \<or> disk_page (bp_files s1) (PageId fid no) = logged_view ?z (PageId fid no)"
      using s1(2) d by (auto simp: fetched_def same_outside_def)
    moreover have "logged_view ?z (PageId fid no) = replicate PAGE_SIZE 0" using idle_logged [OF v0(3)] v0(1) assms(5) by simp
    moreover have "disk_page (bp_files s3) (PageId fid no) = disk_page (bp_files s2) (PageId fid no) \<or> disk_page (bp_files s3) (PageId fid no) = page_view s2 (PageId fid no)"
      using s3(4) lv by (auto simp: same_outside_def)
    ultimately show ?thesis using l assms(6) [of no] s2(4) by (auto simp: page_all_zero_def)
  qed
  have hf: "heap_file (page_view s3) fid []"
    using assms(5) init_page_fields [of MAGIC_FILE_HEADER FileHeader] by (simp add: heap_file_def pv)
  have "init_table_file fid e = Inr ?e" using assms(3) s1(1) s2(1) s3(1) by (simp add: init_table_file_def Let_def)
  moreover have "heap_table ?e fid []" using hf s3(2,5,6) dz assms(10) by (simp add: heap_table_def tail_ok_def)
  moreover have "file_next_rowid ?h = 0"
    by (simp add: init_page_def file_next_rowid_def header_defs buf_simps Let_def page_consts) (simp add: rd64_def get_at_zeros)
  moreover have ks: "kept ?s s3" using kept_trans [OF kept_trans [OF kept_trans [OF k0 s1(3)] s2(2)] s3(3)] .
  moreover from ks have "check_txn fid s3 \<noteq> Inl (Raise Internal)"
    using assms(3) tx by (auto simp: kept_def check_txn_def split: if_splits option.splits)
  ultimately show ?thesis by (auto simp: pv heap_rows_def kept_def)
qed

section \<open>Rows that are read back\<close>

text \<open>
  C11. What was inserted is read back: after a successful insertion reading the returned location
  gives exactly the stored form of the inserted values (each typed by its column, texts padded).
\<close>

theorem insert_read_back:
  assumes "heap_table e fid cs" "1 < length (bp_frames (en_store e))" "check_txn fid (en_store e) = Inr t" "fid \<noteq> 0" "last (0 # cs) \<noteq> - 1"
    and "encode_row cols vals = Inr (Some rec)" "length rec \<le> MAX_RECORD_LEN"
  shows "\<exists>rid ref e' e2. insert_row (Suc (Suc n)) fid cols vals e = Some (Inr (rid, ref, e'))
    \<and> read_row ref cols e' = Inr (Some (empty_row\<lparr>row_loc := ref, row_values := map2 stored cols vals\<rparr>), e2)"
proof -
  obtain ref ds e' chg where i: "insert_row (Suc (Suc n)) fid cols vals e = Some (Inr (file_next_rowid (page_view (en_store e) (PageId fid 0)) + 1, ref, e'))"
    "heap_table e' fid (cs @ ds)" "table_rows e' fid (cs @ ds) = table_rows e fid cs @ [(ref, rec)]" "txn_run (en_store e) chg (en_store e')"
    using insert_row_step [OF assms, of n] by blast
  have "txn_trace (en_store e) chg (en_store e')"
    using run_traces [OF i(4) _ check_txn_Inr [OF assms(3)]] assms(1) by (simp add: heap_table_def idle_def)
  then have pos: "0 < length (bp_frames (en_store e'))" using assms(2) unfolding txn_trace_def by linarith
  have "(ref, rec) \<in> set (table_rows e' fid (cs @ ds))" by (simp add: i(3))
  moreover have "length rec \<le> 65537" using assms(7) by (simp add: MAX_RECORD_LEN_def page_consts)
  ultimately show ?thesis using read_row_finds [OF i(2) assms(4) pos _ decode_encoded [OF assms(6)]] i(1) by blast
qed

definition demo_fid :: u64 where "demo_fid = 7"

lemma empty_table:
  assumes "fid \<noteq> 0"
  shows "\<exists>e t. heap_table e fid [] \<and> length (bp_frames (en_store e)) = 2 \<and> check_txn fid (en_store e) = Inr t"
proof -
  let ?s = "en_store demo_start"
  have s: "idle ?s" "length (bp_frames ?s) = 2" "check_txn fid ?s = Inr (new_txn 1)" "page_view ?s = (\<lambda>_. replicate PAGE_SIZE 0)"
    "bp_files ?s = Map.empty" "pages_numbered ?s" "en_tails demo_start fid = None"
    using pool_init_ok [of 2 Map.empty "wal_init []"]
    by (simp_all add: demo_start_def demo_engine_def engine_init_def idle_def check_txn_def new_txn_def fun_eq_iff)
      (simp_all add: pool_init_def page_view_def disk_page_alt file_bytes_def get_at_def pin_of_def pages_numbered_def empty_frame_def INVALID_PAGE_def numeral_2_eq_2)
  have z: "page_all_zero (disk_page Map.empty pid)" for pid by (simp add: page_all_zero_def disk_page_alt file_bytes_def get_at_def)
  have "\<exists>e'. init_table_file fid demo_start = Inr e' \<and> heap_table e' fid [] \<and> length (bp_frames (en_store e')) = 2
      \<and> check_txn fid (en_store e') \<noteq> Inl (Raise Internal)"
    using init_table_file_empty [OF s(1) _ s(3) assms] s(2,4-7) z
    by (auto simp: aligned_def file_bytes_def PAGE_SIZE_def)
  then obtain e' where e': "heap_table e' fid []" "length (bp_frames (en_store e')) = 2" "check_txn fid (en_store e') \<noteq> Inl (Raise Internal)" by blast
  obtain t where "check_txn fid (en_store e') = Inr t" using e'(3) by (cases "bp_txn (en_store e')") (auto simp: check_txn_def split: if_splits)
  then show ?thesis using e'(1,2) by blast
qed

lemma demo_table:
  "\<exists>e t. heap_table e demo_fid [] \<and> length (bp_frames (en_store e)) = 2 \<and> check_txn demo_fid (en_store e) = Inr t"
  by (rule empty_table) (simp add: demo_fid_def)

lemma demo_short: "length demo_row \<le> MAX_RECORD_LEN"
  by (simp add: demo_row_def MAX_RECORD_LEN_def page_consts)

theorem insert_row_appends_witness:
  "\<exists>e ref ds e'. heap_table e demo_fid [] \<and> heap_table e' demo_fid ds \<and> table_rows e' demo_fid ds = [(ref, demo_row)]"
proof -
  obtain e t where e: "heap_table e demo_fid []" "length (bp_frames (en_store e)) = 2" "check_txn demo_fid (en_store e) = Inr t" using demo_table by blast
  have "1 < length (bp_frames (en_store e))" "demo_fid \<noteq> 0" "last (0 # []) \<noteq> (- 1 :: u32)" using e(2) by (simp_all add: demo_fid_def)
  from insert_row_appends [OF e(1) this(1) e(3) this(2,3) demo_encoded, of 0] e(1) demo_short show ?thesis
    by (force simp: heap_rows_def)
qed

theorem insert_read_back_witness:
  "\<exists>e rid ref e' e2. insert_row 2 demo_fid demo_cols demo_vals e = Some (Inr (rid, ref, e'))
    \<and> read_row ref demo_cols e' = Inr (Some (empty_row\<lparr>row_loc := ref, row_values := map2 stored demo_cols demo_vals\<rparr>), e2)"
proof -
  obtain e t where e: "heap_table e demo_fid []" "length (bp_frames (en_store e)) = 2" "check_txn demo_fid (en_store e) = Inr t" using demo_table by blast
  have "1 < length (bp_frames (en_store e))" "demo_fid \<noteq> 0" "last (0 # []) \<noteq> (- 1 :: u32)" using e(2) by (simp_all add: demo_fid_def)
  from insert_read_back [OF e(1) this(1) e(3) this(2,3) demo_encoded demo_short, of 0] show ?thesis
    unfolding numeral_2_eq_2 by blast
qed

text \<open>A table with one row.\<close>

lemma demo_filled:
  "\<exists>e t ref ds. heap_table e demo_fid ds \<and> 0 < length (bp_frames (en_store e)) \<and> check_txn demo_fid (en_store e) = Inr t
    \<and> table_rows e demo_fid ds = [(ref, demo_row)]"
proof -
  obtain e t where e: "heap_table e demo_fid []" "length (bp_frames (en_store e)) = 2" "check_txn demo_fid (en_store e) = Inr t" using demo_table by blast
  have "1 < length (bp_frames (en_store e))" "demo_fid \<noteq> 0" "last (0 # []) \<noteq> (- 1 :: u32)" using e(2) by (simp_all add: demo_fid_def)
  from insert_row_step [OF e(1) this(1) e(3) this(2,3) demo_encoded demo_short, of 0] obtain ref ds e' chg where
    i: "heap_table e' demo_fid ds" "table_rows e' demo_fid ds = [(ref, demo_row)]" "txn_run (en_store e) chg (en_store e')"
    by (auto simp: heap_rows_def)
  have tr: "txn_trace (en_store e) chg (en_store e')"
    using run_traces [OF i(3) _ check_txn_Inr [OF e(3)]] e(1) by (simp add: heap_table_def idle_def)
  then have "0 < length (bp_frames (en_store e'))" using e(2) unfolding txn_trace_def by linarith
  moreover obtain t' where "check_txn demo_fid (en_store e') = Inr t'"
    using tr e(3) by (auto simp: txn_trace_def check_txn_def split: option.splits if_splits)
  ultimately show ?thesis using i(1,2) by blast
qed

theorem delete_row_removes_witness:
  "\<exists>e ref ds s'. table_rows e demo_fid ds = [(ref, demo_row)] \<and> delete_row ref e = Inr (1, e\<lparr>en_store := s'\<rparr>)
    \<and> heap_rows (page_view s') demo_fid ds = []"
proof -
  obtain e t ref ds where e: "heap_table e demo_fid ds" "0 < length (bp_frames (en_store e))" "check_txn demo_fid (en_store e) = Inr t"
    "table_rows e demo_fid ds = [(ref, demo_row)]" using demo_filled by blast
  have "demo_fid \<noteq> 0" "(ref, demo_row) \<in> set (table_rows e demo_fid ds)" using e(4) by (simp_all add: demo_fid_def)
  from delete_row_removes [OF e(1) this(1) e(2,3) this(2)] e(4) show ?thesis by fastforce
qed

theorem read_rows_exact_witness:
  "\<exists>s (ds :: u32 list) s'. read_rows (Suc (length ds + 0)) demo_fid demo_cols s = Some (Inr ([map2 stored demo_cols demo_vals], s')) \<and> page_view s' = page_view s"
proof -
  obtain e t ref ds where e: "heap_table e demo_fid ds" "0 < length (bp_frames (en_store e))" "table_rows e demo_fid ds = [(ref, demo_row)]"
    using demo_filled by blast
  have h: "idle (en_store e)" "heap_file (page_view (en_store e)) demo_fid ds" using e(1) by (simp_all add: heap_table_def)
  have d: "decode_row demo_cols demo_row = Inr (Some (map2 stored demo_cols demo_vals))"
    using decode_encoded [OF demo_encoded] by (simp add: demo_row_def)
  have "decode_row demo_cols r = Inr (Some ((\<lambda>_. map2 stored demo_cols demo_vals) r))" if "(rf, r) \<in> set (table_rows e demo_fid ds)" for rf r
    using that d by (simp add: e(3))
  note dec = this
  have "(\<exists>s'. read_rows (Suc (length ds + 0)) demo_fid demo_cols (en_store e) = Some (Inr (map ((\<lambda>_. map2 stored demo_cols demo_vals) \<circ> snd) (table_rows e demo_fid ds), s'))
      \<and> idle s' \<and> page_view s' = page_view (en_store e))"
    by (rule conjunct1, rule read_rows_exact [OF h(1) e(2) h(2)]) (rule dec)
  then obtain s' where "read_rows (Suc (length ds + 0)) demo_fid demo_cols (en_store e) = Some (Inr ([map2 stored demo_cols demo_vals], s'))"
    "page_view s' = page_view (en_store e)" unfolding e(3) by auto
  then show ?thesis by blast
qed

end
