(* ===== verification/Proto.thy ===== *)
theory Proto
  imports Types
begin

text \<open>
  The wire protocol of src/proto/proto.h: frames over a TCP socket (\<^verbatim>\<open>recv_exact\<close>, \<^verbatim>\<open>send_exact\<close>,
  \<^verbatim>\<open>recv_frame\<close>, \<^verbatim>\<open>send_frame\<close>) against scripted kernel answers, and the encoders and decoders of
  the result-set, command, error and notice bodies. Bodies are byte lists; encoders return the
  bytes they append, decoders carry the offset of the code's cursor.
\<close>

section \<open>Frames and enumerations\<close>

definition FRAME_HEADER_SIZE :: nat where
  "FRAME_HEADER_SIZE = 4"

definition MAX_REQUEST_PAYLOAD :: u32 where
  "MAX_REQUEST_PAYLOAD = 268435456"

datatype msg_type = Query | Ok | Error | ResultSetHead | ResultSetBatch | ResultSetEnd | Notice

fun msg_code :: "msg_type \<Rightarrow> u8" where
  "msg_code Query = 1"
| "msg_code Ok = 2"
| "msg_code Error = 3"
| "msg_code ResultSetHead = 4"
| "msg_code ResultSetBatch = 5"
| "msg_code ResultSetEnd = 6"
| "msg_code Notice = 7"

datatype command_tag =
    TagEmpty | TagCreateTable | TagDropTable | TagInsert | TagDelete | TagCreateSchema
  | TagDropSchema | TagSet | TagBegin | TagCommit | TagRollback | TagCreateIndex | TagDropIndex
  | TagUpdate

fun tag_code :: "command_tag \<Rightarrow> u8" where
  "tag_code TagEmpty = 0"
| "tag_code TagCreateTable = 1"
| "tag_code TagDropTable = 2"
| "tag_code TagInsert = 3"
| "tag_code TagDelete = 4"
| "tag_code TagCreateSchema = 5"
| "tag_code TagDropSchema = 6"
| "tag_code TagSet = 7"
| "tag_code TagBegin = 8"
| "tag_code TagCommit = 9"
| "tag_code TagRollback = 10"
| "tag_code TagCreateIndex = 11"
| "tag_code TagDropIndex = 12"
| "tag_code TagUpdate = 13"

text \<open>\<^verbatim>\<open>WireErrCode\<close>: one wire value per \<^verbatim>\<open>db::ErrCode\<close>, numbered on its own.\<close>

datatype wire_err_code =
    WireIoError | WireCatalogMissing | WireCatalogExists | WireInvalidType
  | WireTableNotFound | WireTableExists | WireSchemaNotFound | WireSchemaExists
  | WireSchemaNotEmpty | WireProtectedTable | WireInvalidDdl | WireValueMismatch
  | WireRecordTooLong | WireArithError | WireUnknownColumn | WireUnknownVar
  | WireUnknownStmt | WireNotImplemented | WireInternal | WireSyntaxError
  | WireTxnActive | WireNoActiveTxn | WireDdlInTxn | WireBootstrapMode
  | WireTooManyClients | WireInvalidVarValue | WireIndexExists | WireIndexNotFound
  | WireStarNoFrom | WireUnknownFunction

fun wire_code :: "wire_err_code \<Rightarrow> u16" where
  "wire_code WireIoError = 1"
| "wire_code WireCatalogMissing = 3"
| "wire_code WireCatalogExists = 4"
| "wire_code WireInvalidType = 6"
| "wire_code WireTableNotFound = 7"
| "wire_code WireTableExists = 8"
| "wire_code WireSchemaNotFound = 9"
| "wire_code WireSchemaExists = 10"
| "wire_code WireSchemaNotEmpty = 11"
| "wire_code WireProtectedTable = 12"
| "wire_code WireInvalidDdl = 13"
| "wire_code WireValueMismatch = 14"
| "wire_code WireRecordTooLong = 15"
| "wire_code WireArithError = 16"
| "wire_code WireUnknownColumn = 17"
| "wire_code WireUnknownVar = 18"
| "wire_code WireUnknownStmt = 19"
| "wire_code WireNotImplemented = 20"
| "wire_code WireInternal = 21"
| "wire_code WireSyntaxError = 22"
| "wire_code WireTxnActive = 23"
| "wire_code WireNoActiveTxn = 24"
| "wire_code WireDdlInTxn = 25"
| "wire_code WireBootstrapMode = 26"
| "wire_code WireTooManyClients = 27"
| "wire_code WireInvalidVarValue = 28"
| "wire_code WireIndexExists = 29"
| "wire_code WireIndexNotFound = 30"
| "wire_code WireStarNoFrom = 31"
| "wire_code WireUnknownFunction = 32"

section \<open>Encoding\<close>

text \<open>
  A result-set cell (\<^verbatim>\<open>CellVal\<close>). Floating point cells are their bit patterns, which is what
  the code copies with \<^verbatim>\<open>memcpy\<close>; a decimal cell holds the 16 bytes and the scale.
\<close>

datatype cell_val =
    CellNull | CellBool bool | CellInt i64 | CellDouble u64 | CellFloat u32 | CellString bytes
  | CellDecimal bytes u8

record result_set =
  rs_cols :: "bytes list"
  rs_rows :: "cell_val list list"

definition RS_BATCH_MAX_ROWS :: nat where
  "RS_BATCH_MAX_ROWS = 256"

text \<open>\<^verbatim>\<open>(v >> (i * 8)) & 0xff\<close>.\<close>

definition shift_byte :: "'a :: len word \<Rightarrow> nat \<Rightarrow> u8" where
  "shift_byte v i = ucast (drop_bit (i * 8) v AND 0xff)"

definition append_u16 :: "u16 \<Rightarrow> bytes" where
  "append_u16 v = map (shift_byte v) [1, 0]"

definition append_u32 :: "u32 \<Rightarrow> bytes" where
  "append_u32 v = map (shift_byte v) [3, 2, 1, 0]"

definition append_u64 :: "u64 \<Rightarrow> bytes" where
  "append_u64 v = map (shift_byte v) [7, 6, 5, 4, 3, 2, 1, 0]"

definition CELL_NULL :: u8 where "CELL_NULL = 0"
definition CELL_INT :: u8 where "CELL_INT = 1"
definition CELL_DOUBLE :: u8 where "CELL_DOUBLE = 2"
definition CELL_STRING :: u8 where "CELL_STRING = 3"
definition CELL_BOOL :: u8 where "CELL_BOOL = 4"
definition CELL_FLOAT :: u8 where "CELL_FLOAT = 5"
definition CELL_DECIMAL :: u8 where "CELL_DECIMAL = 6"

lemmas cell_tags = CELL_NULL_def CELL_INT_def CELL_DOUBLE_def CELL_STRING_def CELL_BOOL_def
  CELL_FLOAT_def CELL_DECIMAL_def

fun append_cell :: "cell_val \<Rightarrow> bytes" where
  "append_cell (CellInt i) = CELL_INT # append_u64 i"
| "append_cell (CellDouble d) = CELL_DOUBLE # append_u64 d"
| "append_cell (CellString s) = CELL_STRING # append_u16 (word_of_nat (length s)) @ s"
| "append_cell (CellBool b) = [CELL_BOOL, if b then 1 else 0]"
| "append_cell (CellFloat f) = CELL_FLOAT # append_u32 f"
| "append_cell (CellDecimal bs sc) = CELL_DECIMAL # bs @ [sc]"
| "append_cell CellNull = [CELL_NULL]"

definition encode_rs_head :: "bytes list \<Rightarrow> bytes" where
  "encode_rs_head cols = append_u32 (word_of_nat (length cols)) @
     concat (map (\<lambda>col. append_u16 (word_of_nat (length col)) @ col) cols)"

definition encode_rs_batch :: "cell_val list list \<Rightarrow> bytes" where
  "encode_rs_batch rows = append_u32 (word_of_nat (length rows)) @
     concat (map (\<lambda>row. concat (map append_cell row)) rows)"

definition encode_rs_end :: "u64 \<Rightarrow> bytes" where
  "encode_rs_end row_count = append_u64 row_count"

definition encode_command :: "command_tag \<Rightarrow> u64 \<Rightarrow> bytes" where
  "encode_command tag count = [tag_code tag] @ append_u64 count"

definition encode_error :: "wire_err_code \<Rightarrow> bytes \<Rightarrow> bytes" where
  "encode_error code message = append_u16 (wire_code code) @ message"

definition NOTICE_LEVEL_MAX :: u8 where
  "NOTICE_LEVEL_MAX = 9"

definition encode_notice :: "u8 \<Rightarrow> bytes \<Rightarrow> bytes" where
  "encode_notice level message = [level] @ message"

section \<open>Decoding\<close>

text \<open>One step of the reading loops: \<^verbatim>\<open>v = (v << 8) | b\<close>.\<close>

definition shift_in :: "u8 \<Rightarrow> 'a :: len word \<Rightarrow> 'a word" where
  "shift_in b v = push_bit 8 v OR ucast b"

text \<open>
  The reading cursors. \<^verbatim>\<open>off\<close> is passed in and, on success, returned advanced; \<^verbatim>\<open>None\<close> is
  the \<^verbatim>\<open>false\<close> of a body that is too short.
\<close>

definition take_bytes :: "bytes \<Rightarrow> nat \<Rightarrow> nat \<Rightarrow> (bytes \<times> nat) option" where
  "take_bytes body off n =
     (if off + n > length body then None else Some (get_at off n body, off + n))"

definition take_u16 :: "bytes \<Rightarrow> nat \<Rightarrow> (u16 \<times> nat) option" where
  "take_u16 body off =
     (if off + 2 > length body then None
      else Some (push_bit 8 (ucast (body ! off)) OR ucast (body ! (off + 1)), off + 2))"

definition take_u32 :: "bytes \<Rightarrow> nat \<Rightarrow> (u32 \<times> nat) option" where
  "take_u32 body off =
     (if off + 4 > length body then None
      else Some (fold (\<lambda>i. shift_in (body ! (off + i))) [0..<4] 0, off + 4))"

definition take_u64 :: "bytes \<Rightarrow> nat \<Rightarrow> (u64 \<times> nat) option" where
  "take_u64 body off =
     (if off + 8 > length body then None
      else Some (fold (\<lambda>i. shift_in (body ! (off + i))) [0..<8] 0, off + 8))"

definition take_cell :: "bytes \<Rightarrow> nat \<Rightarrow> (cell_val \<times> nat) option" where
  "take_cell body off =
     (case take_bytes body off 1 of None \<Rightarrow> None
      | Some (one, off) \<Rightarrow>
        (let tag = hd one in
         if tag = CELL_INT then
           map_option (\<lambda>(bits, off). (CellInt bits, off)) (take_u64 body off)
         else if tag = CELL_DOUBLE then
           map_option (\<lambda>(bits, off). (CellDouble bits, off)) (take_u64 body off)
         else if tag = CELL_STRING then
           (case take_u16 body off of None \<Rightarrow> None
            | Some (len, off) \<Rightarrow>
                map_option (\<lambda>(text, off). (CellString text, off)) (take_bytes body off (unat len)))
         else if tag = CELL_BOOL then
           (case take_bytes body off 1 of None \<Rightarrow> None
            | Some (one, off) \<Rightarrow>
                if hd one > 1 then None else Some (CellBool (hd one \<noteq> 0), off))
         else if tag = CELL_FLOAT then
           map_option (\<lambda>(bits, off). (CellFloat bits, off)) (take_u32 body off)
         else if tag = CELL_DECIMAL then
           (case take_bytes body off 16 of None \<Rightarrow> None
            | Some (bs, off) \<Rightarrow>
                map_option (\<lambda>(one, off). (CellDecimal bs (hd one), off)) (take_bytes body off 1))
         else if tag = CELL_NULL then Some (CellNull, off)
         else None))"

text \<open>The loop over the column names of a head.\<close>

fun take_cols :: "bytes \<Rightarrow> nat \<Rightarrow> nat \<Rightarrow> (bytes list \<times> nat) option" where
  "take_cols body off 0 = Some ([], off)"
| "take_cols body off (Suc c) =
     (case take_u16 body off of None \<Rightarrow> None
      | Some (len, off) \<Rightarrow>
        (case take_bytes body off (unat len) of None \<Rightarrow> None
         | Some (name, off) \<Rightarrow>
             map_option (\<lambda>(cols, off). (name # cols, off)) (take_cols body off c)))"

definition decode_rs_head :: "bytes \<Rightarrow> bytes list option" where
  "decode_rs_head body =
     (case take_u32 body 0 of None \<Rightarrow> None
      | Some (col_count, off) \<Rightarrow>
        (case take_cols body off (unat col_count) of None \<Rightarrow> None
         | Some (cols, off) \<Rightarrow> if off = length body then Some cols else None))"

text \<open>The two nested loops of a batch: the cells of a row, and the rows.\<close>

fun take_row :: "bytes \<Rightarrow> nat \<Rightarrow> nat \<Rightarrow> (cell_val list \<times> nat) option" where
  "take_row body off 0 = Some ([], off)"
| "take_row body off (Suc c) =
     (case take_cell body off of None \<Rightarrow> None
      | Some (cell, off) \<Rightarrow>
          map_option (\<lambda>(row, off). (cell # row, off)) (take_row body off c))"

text \<open>
  \<^verbatim>\<open>take_rows\<close> appends to \<^verbatim>\<open>out\<close> as it goes: rows read before a malformed one stay there, and
  the offset is absent.
\<close>

fun take_rows ::
  "bytes \<Rightarrow> nat \<Rightarrow> nat \<Rightarrow> nat \<Rightarrow> cell_val list list \<Rightarrow> cell_val list list \<times> nat option" where
  "take_rows body off col_count 0 out = (out, Some off)"
| "take_rows body off col_count (Suc r) out =
     (case take_row body off col_count of None \<Rightarrow> (out, None)
      | Some (row, off) \<Rightarrow> take_rows body off col_count r (out @ [row]))"

definition decode_rs_batch :: "bytes \<Rightarrow> u32 \<Rightarrow> result_set \<Rightarrow> bool \<times> result_set" where
  "decode_rs_batch body col_count out =
     (case take_u32 body 0 of None \<Rightarrow> (False, out)
      | Some (row_count, off) \<Rightarrow>
        (case take_rows body off (unat col_count) (unat row_count) (rs_rows out) of
           (rows, None) \<Rightarrow> (False, out\<lparr>rs_rows := rows\<rparr>)
         | (rows, Some off) \<Rightarrow> (off = length body, out\<lparr>rs_rows := rows\<rparr>)))"

definition decode_rs_end :: "bytes \<Rightarrow> u64 option" where
  "decode_rs_end body =
     (if length body \<noteq> 8 then None else Some (fold (\<lambda>i. shift_in (body ! i)) [0..<8] 0))"

definition all_tags :: "command_tag list" where
  "all_tags = [TagEmpty, TagCreateTable, TagDropTable, TagInsert, TagDelete, TagCreateSchema,
     TagDropSchema, TagSet, TagBegin, TagCommit, TagRollback, TagCreateIndex, TagDropIndex,
     TagUpdate]"

definition decode_command :: "bytes \<Rightarrow> (command_tag \<times> u64) option" where
  "decode_command body =
     (if length body \<noteq> 9 then None
      else case find (\<lambda>t. tag_code t = body ! 0) all_tags of
             Some tag \<Rightarrow> Some (tag, fold (\<lambda>i. shift_in (body ! (1 + i))) [0..<8] 0)
           | None \<Rightarrow> None)"

definition all_wire_codes :: "wire_err_code list" where
  "all_wire_codes = [
     WireIoError, WireCatalogMissing, WireCatalogExists, WireInvalidType,
     WireTableNotFound, WireTableExists, WireSchemaNotFound, WireSchemaExists,
     WireSchemaNotEmpty, WireProtectedTable, WireInvalidDdl, WireValueMismatch,
     WireRecordTooLong, WireArithError, WireUnknownColumn, WireUnknownVar, WireUnknownStmt,
     WireNotImplemented, WireInternal, WireSyntaxError, WireTxnActive, WireNoActiveTxn,
     WireDdlInTxn, WireBootstrapMode, WireTooManyClients, WireInvalidVarValue,
     WireIndexExists, WireIndexNotFound, WireStarNoFrom, WireUnknownFunction]"

definition decode_error :: "bytes \<Rightarrow> (wire_err_code \<times> bytes) option" where
  "decode_error body =
     (case take_u16 body 0 of None \<Rightarrow> None
      | Some (v, off) \<Rightarrow>
          map_option (\<lambda>code. (code, drop off body)) (find (\<lambda>c. wire_code c = v) all_wire_codes))"

definition decode_notice :: "bytes \<Rightarrow> (u8 \<times> bytes) option" where
  "decode_notice body =
     (if body = [] \<or> body ! 0 > NOTICE_LEVEL_MAX then None
      else Some (body ! 0, drop 1 body))"

section \<open>Big-endian integers\<close>

lemma bit_shift_byte: "bit (shift_byte v i) k \<longleftrightarrow> k < 8 \<and> bit v (i * 8 + k)"
proof -
  have "(0xff :: 'a word) = mask 8" by (simp add: mask_eq_exp_minus_1)
  then have "shift_byte v i = ucast (take_bit 8 (drop_bit (i * 8) v))"
    by (simp add: shift_byte_def take_bit_eq_mask)
  then show ?thesis by (auto simp: bit_simps)
qed

lemma shift_in_byte:
  "push_bit (8 * n) (shift_in (shift_byte v n) a) OR take_bit (8 * n) v =
   push_bit (8 * Suc n) a OR take_bit (8 * Suc n) (v :: 'a :: len word)"
proof (rule bit_eqI)
  fix m
  consider (low) "m < 8 * n" | (mid) "8 * n \<le> m" "m < 8 * n + 8" | (high) "8 * n + 8 \<le> m"
    by linarith
  then show "bit (push_bit (8 * n) (shift_in (shift_byte v n) a) OR take_bit (8 * n) v) m =
             bit (push_bit (8 * Suc n) a OR take_bit (8 * Suc n) v) m"
  proof cases
    case mid
    then obtain k where "m = 8 * n + k" "k < 8" by (metis add_less_cancel_left le_Suc_ex)
    then show ?thesis
      by (auto simp: shift_in_def bit_shift_byte bit_simps algebra_simps dest: bit_imp_le_length)
  next
    case high
    then obtain k where "m = 8 * n + 8 + k" by (metis le_Suc_ex)
    then show ?thesis by (auto simp: shift_in_def bit_shift_byte bit_simps algebra_simps)
  qed (auto simp: shift_in_def bit_shift_byte bit_simps)
qed

lemma fold_shift_in:
  "fold shift_in (map (shift_byte v) (rev [0..<n])) a = push_bit (8 * n) a OR take_bit (8 * n) v"
proof (induction n arbitrary: a)
  case (Suc n)
  then show ?case using shift_in_byte[of n v a] by simp
qed simp

lemma fold_shift_nth:
  assumes "get_at off n body = map (shift_byte v) (rev [0..<n])" and "off + n \<le> length body"
    and "n * 8 = LENGTH('a :: len)"
  shows "fold (\<lambda>i. shift_in (body ! (off + i))) [0..<n] 0 = (v :: 'a word)"
proof -
  have "map (\<lambda>i. body ! (off + i)) [0..<n] = get_at off n body"
    using assms(2) by (intro nth_equalityI) (auto simp: get_at_def)
  moreover have "fold (\<lambda>i. shift_in (body ! (off + i))) [0..<n] 0 =
             fold shift_in (map (\<lambda>i. body ! (off + i)) [0..<n]) (0 :: 'a word)"
    by (simp add: fold_map comp_def)
  ultimately have "fold (\<lambda>i. shift_in (body ! (off + i))) [0..<n] 0 =
             fold shift_in (map (shift_byte v) (rev [0..<n])) (0 :: 'a word)"
    using assms(1) by simp
  also have "\<dots> = v" using assms(3) by (simp add: fold_shift_in mult.commute)
  finally show ?thesis .
qed

lemma length_append_u [simp]:
  "length (append_u16 a) = 2" "length (append_u32 b) = 4" "length (append_u64 c) = 8"
  by (simp_all add: append_u16_def append_u32_def append_u64_def)

lemma append_u_rev:
  "append_u16 a = map (shift_byte a) (rev [0..<2])"
  "append_u32 b = map (shift_byte b) (rev [0..<4])"
  "append_u64 c = map (shift_byte c) (rev [0..<8])"
  by (simp_all add: append_u16_def append_u32_def append_u64_def upt_rec eval_nat_numeral)

text \<open>
  \<^verbatim>\<open>at body off bs\<close>: the bytes \<^verbatim>\<open>bs\<close> stand at \<^verbatim>\<open>off\<close>. The decoders read what the encoders
  appended.
\<close>

definition at_off :: "bytes \<Rightarrow> nat \<Rightarrow> bytes \<Rightarrow> bool" where
  "at_off body off bs \<longleftrightarrow> off + length bs \<le> length body \<and> get_at off (length bs) body = bs"

lemma at_off_append:
  "at_off body off (xs @ ys) \<longleftrightarrow> at_off body off xs \<and> at_off body (off + length xs) ys"
proof -
  have "get_at off (length xs + length ys) body =
        get_at off (length xs) body @ get_at (off + length xs) (length ys) body"
    by (simp add: get_at_def take_add add.commute)
  moreover have "length (get_at off (length xs) body) = length xs"
    if "off + length xs + length ys \<le> length body"
    using that by (simp add: get_at_def)
  ultimately show ?thesis by (auto simp: at_off_def add.assoc)
qed

lemma at_off_Cons: "at_off body off (x # xs) \<longleftrightarrow> at_off body off [x] \<and> at_off body (Suc off) xs"
  using at_off_append[of body off "[x]" xs] by simp

lemma at_off_single: "at_off body off [x] \<longleftrightarrow> off < length body \<and> body ! off = x"
  by (auto simp: at_off_def get_at_def take_Suc hd_drop_conv_nth neq_Nil_conv)

lemma at_off_whole [simp]: "at_off bs 0 bs"
  by (simp add: at_off_def get_at_def)

lemma take_bytes_at: "at_off body off bs \<Longrightarrow> take_bytes body off (length bs) = Some (bs, off + length bs)"
  by (auto simp: at_off_def take_bytes_def)

lemma at_off_get: "at_off body off bs \<Longrightarrow> get_at off (length bs) body = bs \<and> off + length bs \<le> length body"
  by (simp add: at_off_def)

lemma take_u32_at: "at_off body off (append_u32 v) \<Longrightarrow> take_u32 body off = Some (v, off + 4)"
  using at_off_get[of body off "append_u32 v"] fold_shift_nth[of off 4 body v]
  by (simp add: take_u32_def flip: append_u_rev)

lemma take_u64_at: "at_off body off (append_u64 v) \<Longrightarrow> take_u64 body off = Some (v, off + 8)"
  using at_off_get[of body off "append_u64 v"] fold_shift_nth[of off 8 body v]
  by (simp add: take_u64_def flip: append_u_rev)

lemma take_u16_at:
  assumes "at_off body off (append_u16 v)"
  shows "take_u16 body off = Some (v, off + 2)"
proof -
  have b: "off + 2 \<le> length body" and g: "get_at off 2 body = map (shift_byte v) (rev [0..<2])"
    using at_off_get[OF assms] by (simp_all flip: append_u_rev)
  have "push_bit 8 (ucast (body ! off)) OR ucast (body ! (off + 1)) =
        (fold (\<lambda>i. shift_in (body ! (off + i))) [0..<2] 0 :: u16)"
    by (simp add: numeral_2_eq_2 shift_in_def)
  also have "\<dots> = v" using fold_shift_nth[OF g b] by simp
  finally show ?thesis using b by (simp add: take_u16_def)
qed

section \<open>Result sets\<close>

text \<open>
  What a cell must satisfy to be written: a string's length fits the 16-bit length field, a
  decimal has its 16 bytes.
\<close>

fun cell_ok :: "cell_val \<Rightarrow> bool" where
  "cell_ok (CellString s) \<longleftrightarrow> length s < 65536"
| "cell_ok (CellDecimal bs sc) \<longleftrightarrow> length bs = 16"
| "cell_ok _ \<longleftrightarrow> True"

definition rows_ok :: "nat \<Rightarrow> cell_val list list \<Rightarrow> bool" where
  "rows_ok n rows \<longleftrightarrow> length rows < 2 ^ 32 \<and> (\<forall>row \<in> set rows. length row = n \<and> list_all cell_ok row)"

lemma unat_of_nat16: "n < 65536 \<Longrightarrow> unat (word_of_nat n :: u16) = n"
  by (simp add: unat_of_nat)

lemma unat_of_nat32: "n < 4294967296 \<Longrightarrow> unat (word_of_nat n :: u32) = n"
  by (simp add: unat_of_nat)

lemma take_byte_at: "at_off body off [b] \<Longrightarrow> take_bytes body off (Suc 0) = Some ([b], Suc off)"
  using take_bytes_at[of body off "[b]"] by simp

lemma take_sized_at:
  assumes "at_off body off (append_u16 (word_of_nat (length s)) @ s)" and "length s < 65536"
  shows "take_u16 body off = Some (word_of_nat (length s), off + 2)"
    and "take_bytes body (off + 2) (unat (word_of_nat (length s) :: u16)) =
           Some (s, off + 2 + length s)"
  using assms take_u16_at[of body off] take_bytes_at[of body "off + 2" s]
  by (auto simp: at_off_append unat_of_nat16)

lemma at_off_tail: "at_off body off (x # xs) \<Longrightarrow> at_off body off [x] \<and> at_off body (Suc off) xs"
  using at_off_Cons[of body off x xs] by simp

lemma take_cell_at:
  assumes "at_off body off (append_cell c)" and "cell_ok c"
  shows "take_cell body off = Some (c, off + length (append_cell c))"
proof -
  obtain t rest where c: "append_cell c = t # rest" by (cases c) auto
  then have t: "take_bytes body off (Suc 0) = Some ([t], Suc off)" and r: "at_off body (Suc off) rest"
    using assms at_off_tail[of body off t rest] by (auto simp: take_byte_at)
  show ?thesis
  proof (cases c)
    case (CellString s)
    then show ?thesis
      using c t r assms(2) take_sized_at[of body "Suc off" s]
      by (auto simp: take_cell_def cell_tags)
  next
    case (CellDecimal bs sc)
    then show ?thesis
      using c t r assms(2) take_bytes_at[of body "Suc off" bs]
        take_byte_at[of body "Suc off + length bs" sc]
      by (auto simp: take_cell_def cell_tags at_off_append)
  qed (use c t r in \<open>auto simp: take_cell_def cell_tags take_byte_at dest: take_u64_at take_u32_at\<close>)
qed

lemma take_row_at:
  "at_off body off (concat (map append_cell row)) \<Longrightarrow> list_all cell_ok row \<Longrightarrow>
   take_row body off (length row) = Some (row, off + length (concat (map append_cell row)))"
  by (induction row arbitrary: off) (auto simp: at_off_append take_cell_at add.assoc)

lemma take_rows_at:
  "at_off body off (concat (map (\<lambda>row. concat (map append_cell row)) rows)) \<Longrightarrow>
   (\<forall>row \<in> set rows. length row = n \<and> list_all cell_ok row) \<Longrightarrow>
   take_rows body off n (length rows) out =
     (out @ rows, Some (off + length (concat (map (\<lambda>row. concat (map append_cell row)) rows))))"
proof (induction rows arbitrary: off out)
  case (Cons row rows)
  then have "take_row body off n = Some (row, off + length (concat (map append_cell row)))"
    using take_row_at[of body off row] by (simp add: at_off_append)
  then show ?case using Cons by (simp add: at_off_append add.assoc)
qed simp

lemma take_cols_at:
  "at_off body off (concat (map (\<lambda>col. append_u16 (word_of_nat (length col)) @ col) cols)) \<Longrightarrow>
   (\<forall>col \<in> set cols. length col < 65536) \<Longrightarrow>
   take_cols body off (length cols) =
     Some (cols, off + length (concat (map (\<lambda>col. append_u16 (word_of_nat (length col)) @ col) cols)))"
proof (induction cols arbitrary: off)
  case (Cons col cols)
  then have "at_off body off (append_u16 (word_of_nat (length col)) @ col)" "length col < 65536"
    by (auto simp: at_off_append)
  note here = take_sized_at[OF this]
  show ?case using Cons here by (simp add: at_off_append add.assoc)
qed simp

lemma decode_batch:
  assumes "rows_ok n rows" and "n < 2 ^ 32"
  shows "decode_rs_batch (encode_rs_batch rows) (word_of_nat n) rs =
         (True, rs\<lparr>rs_rows := rs_rows rs @ rows\<rparr>)"
proof -
  let ?b = "encode_rs_batch rows" and ?r = "concat (map (\<lambda>row. concat (map append_cell row)) rows)"
  have "at_off ?b 0 (append_u32 (word_of_nat (length rows)) @ ?r)"
    unfolding encode_rs_batch_def by (rule at_off_whole)
  then have "take_u32 ?b 0 = Some (word_of_nat (length rows), 4)" and "at_off ?b 4 ?r"
    by (auto simp: at_off_append dest: take_u32_at)
  moreover have "length ?b = 4 + length ?r" by (simp add: encode_rs_batch_def)
  moreover have "length rows < 4294967296" "n < 4294967296" "\<forall>row \<in> set rows. length row = n \<and> list_all cell_ok row"
    using assms by (auto simp: rows_ok_def)
  ultimately show ?thesis
    using take_rows_at[of ?b 4 rows n "rs_rows rs"]
    by (simp add: decode_rs_batch_def unat_of_nat32 del: length_concat)
qed

lemma decode_head:
  assumes "length cols < 2 ^ 32" and "\<forall>col \<in> set cols. length col < 65536"
  shows "decode_rs_head (encode_rs_head cols) = Some cols"
proof -
  let ?b = "encode_rs_head cols"
  let ?r = "concat (map (\<lambda>col. append_u16 (word_of_nat (length col)) @ col) cols)"
  have "at_off ?b 0 (append_u32 (word_of_nat (length cols)) @ ?r)"
    unfolding encode_rs_head_def by (rule at_off_whole)
  then have "take_u32 ?b 0 = Some (word_of_nat (length cols), 4)" and "at_off ?b 4 ?r"
    by (auto simp: at_off_append dest: take_u32_at)
  moreover have "length ?b = 4 + length ?r" by (simp add: encode_rs_head_def)
  moreover have "length cols < 4294967296" using assms by simp
  ultimately show ?thesis
    using take_cols_at[of ?b 4 cols] assms(2)
    by (simp add: decode_rs_head_def unat_of_nat32 del: length_concat)
qed

lemma decode_end: "decode_rs_end (encode_rs_end n) = Some n"
  using take_u64_at[of "append_u64 n" 0 n]
  by (simp add: decode_rs_end_def encode_rs_end_def take_u64_def)

section \<open>Commands, errors and notices\<close>

lemma find_tag: "find (\<lambda>t. tag_code t = tag_code tag) all_tags = Some tag"
  by (cases tag) (simp_all add: all_tags_def)

lemma find_wire: "find (\<lambda>c. wire_code c = wire_code code) all_wire_codes = Some code"
  by (cases code) (simp_all add: all_wire_codes_def)

lemma decode_encode_command: "decode_command (encode_command tag count) = Some (tag, count)"
proof -
  have "at_off (encode_command tag count) 0 ([tag_code tag] @ append_u64 count)"
    unfolding encode_command_def by (rule at_off_whole)
  then have "take_u64 (encode_command tag count) 1 = Some (count, 9)"
    using take_u64_at[of "encode_command tag count" 1 count]
      at_off_tail[of _ 0 "tag_code tag" "append_u64 count"] by simp
  moreover have "length (encode_command tag count) = 9" "encode_command tag count ! 0 = tag_code tag"
    by (simp_all add: encode_command_def)
  ultimately show ?thesis by (simp add: decode_command_def take_u64_def find_tag)
qed

lemma decode_encode_error: "decode_error (encode_error code msg) = Some (code, msg)"
proof -
  have "at_off (encode_error code msg) 0 (append_u16 (wire_code code) @ msg)"
    unfolding encode_error_def by (rule at_off_whole)
  then have "take_u16 (encode_error code msg) 0 = Some (wire_code code, 2)"
    by (auto simp: at_off_append dest: take_u16_at)
  moreover have "drop 2 (encode_error code msg) = msg" by (simp add: encode_error_def)
  ultimately show ?thesis by (simp add: decode_error_def find_wire)
qed

lemma decode_encode_notice:
  "decode_notice (encode_notice level msg) = (if level \<le> NOTICE_LEVEL_MAX then Some (level, msg) else None)"
  by (auto simp: decode_notice_def encode_notice_def not_le)

section \<open>Sockets\<close>

text \<open>
  What the kernel answers to \<^verbatim>\<open>recv\<close> and \<^verbatim>\<open>send\<close>. A connection is a script of answers: data of
  any size (the code asks for at most what it still needs, the rest stays pending; no data is an
  orderly shutdown), \<^verbatim>\<open>EINTR\<close>, or another error. After a \<^verbatim>\<open>recv\<close> script the peer has closed;
  after a \<^verbatim>\<open>send\<close> script the kernel takes everything at once. \<^verbatim>\<open>Sent n\<close> is the answer of a
  kernel that has room for \<^verbatim>\<open>n\<close> bytes.
\<close>

datatype recv_event = RecvData bytes | RecvIntr | RecvError

datatype send_event = Sent nat | SendIntr | SendError

fun recv_exact :: "nat \<Rightarrow> recv_event list \<Rightarrow> bytes option \<times> recv_event list" where
  "recv_exact len [] = (if len = 0 then (Some [], []) else (None, []))"
| "recv_exact len (e # evs) =
     (if len = 0 then (Some [], e # evs)
      else case e of
        RecvIntr \<Rightarrow> recv_exact len evs
      | RecvError \<Rightarrow> (None, evs)
      | RecvData bs \<Rightarrow>
          if bs = [] then (None, evs)
          else if length bs > len then (Some (take len bs), RecvData (drop len bs) # evs)
          else (case recv_exact (len - length bs) evs of
                  (r, evs) \<Rightarrow> (map_option (\<lambda>cs. bs @ cs) r, evs)))"

text \<open>The result is the bytes that went out, whether all of them did, and the script left.\<close>

fun send_exact :: "bytes \<Rightarrow> send_event list \<Rightarrow> bytes \<times> bool \<times> send_event list" where
  "send_exact bs [] = (bs, True, [])"
| "send_exact bs (e # evs) =
     (if bs = [] then ([], True, e # evs)
      else case e of
        SendIntr \<Rightarrow> send_exact bs evs
      | SendError \<Rightarrow> ([], False, evs)
      | Sent n \<Rightarrow> (case send_exact (drop n bs) evs of (w, r) \<Rightarrow> (take n bs @ w, r)))"

definition ntohl :: "bytes \<Rightarrow> u32" where
  "ntohl bs = fold shift_in bs 0"

definition htonl :: "u32 \<Rightarrow> bytes" where
  "htonl v = append_u32 v"

definition recv_frame :: "u32 \<Rightarrow> recv_event list \<Rightarrow> (u8 \<times> bytes) option \<times> recv_event list" where
  "recv_frame max_payload evs =
     (case recv_exact FRAME_HEADER_SIZE evs of
        (None, evs) \<Rightarrow> (None, evs)
      | (Some len_net, evs) \<Rightarrow>
        (let len = ntohl len_net in
         if len < 1 \<or> max_payload \<noteq> 0 \<and> len > max_payload then (None, evs)
         else case recv_exact (unat len) evs of
                (None, evs) \<Rightarrow> (None, evs)
              | (Some payload, evs) \<Rightarrow> (Some (payload ! 0, drop 1 payload), evs)))"

definition frame_bytes :: "msg_type \<Rightarrow> bytes \<Rightarrow> bytes" where
  "frame_bytes t body = htonl (1 + word_of_nat (length body)) @ [msg_code t] @ body"

definition send_frame :: "msg_type \<Rightarrow> bytes \<Rightarrow> send_event list \<Rightarrow> bytes \<times> bool \<times> send_event list" where
  "send_frame t body evs = send_exact (frame_bytes t body) evs"

section \<open>The byte stream of a connection\<close>

text \<open>The bytes that arrive before the peer closes or an error occurs.\<close>

fun recv_stream :: "recv_event list \<Rightarrow> bytes" where
  "recv_stream [] = []"
| "recv_stream (RecvData bs # evs) = (if bs = [] then [] else bs @ recv_stream evs)"
| "recv_stream (RecvIntr # evs) = recv_stream evs"
| "recv_stream (RecvError # evs) = []"

text \<open>Reading reads the stream: how it was cut into segments is invisible.\<close>

lemma recv_exact_stream:
  "recv_exact n evs = (r, evs') \<Longrightarrow>
   r = (if n \<le> length (recv_stream evs) then Some (take n (recv_stream evs)) else None) \<and>
   (n \<le> length (recv_stream evs) \<longrightarrow> recv_stream evs' = drop n (recv_stream evs))"
proof (induction evs arbitrary: n r evs')
  case (Cons e evs)
  show ?case
  proof (cases "n = 0")
    case False
    show ?thesis
    proof (cases e)
      case (RecvData bs)
      obtain r1 evs1 where 1: "recv_exact (n - length bs) evs = (r1, evs1)" by fastforce
      show ?thesis
        using False RecvData Cons.prems 1 Cons.IH[OF 1] by (auto split: if_splits)
    next
      case RecvIntr
      then show ?thesis using False Cons.prems Cons.IH[of n r evs'] by simp
    qed (use False Cons.prems in auto)
  qed (use Cons.prems in auto)
qed (auto split: if_splits)

fun parse_frame :: "u32 \<Rightarrow> bytes \<Rightarrow> (u8 \<times> bytes) option" where
  "parse_frame max_payload bs =
     (if length bs < 4 then None
      else let len = ntohl (take 4 bs) in
        if len < 1 \<or> max_payload \<noteq> 0 \<and> len > max_payload \<or> length bs < 4 + unat len then None
        else Some (bs ! 4, take (unat len - 1) (drop 5 bs)))"

lemma recv_frame_stream:
  assumes "recv_frame m evs = (r, evs')"
  shows "r = parse_frame m (recv_stream evs)"
    and "r = Some (t, body) \<Longrightarrow> recv_stream evs' = drop (5 + length body) (recv_stream evs)"
proof -
  obtain r1 evs1 where 1: "recv_exact 4 evs = (r1, evs1)" by fastforce
  note s1 = recv_exact_stream[OF 1]
  let ?len = "ntohl (take 4 (recv_stream evs))"
  obtain r2 evs2 where 2: "recv_exact (unat ?len) evs1 = (r2, evs2)" by fastforce
  note s2 = recv_exact_stream[OF 2]
  have pos: "?len < 1 \<longleftrightarrow> unat ?len = 0" by (simp add: word_less_nat_alt unat_eq_zero)
  have "r = parse_frame m (recv_stream evs) \<and>
        (r = Some (t, body) \<longrightarrow> recv_stream evs' = drop (5 + length body) (recv_stream evs))"
  proof (cases "length (recv_stream evs) < 4 \<or> ?len < 1 \<or> m \<noteq> 0 \<and> ?len > m")
    case True
    then show ?thesis
      using assms 1 s1 by (auto simp: recv_frame_def FRAME_HEADER_SIZE_def split: option.splits if_splits)
  next
    case False
    then have "r1 = Some (take 4 (recv_stream evs))" "recv_stream evs1 = drop 4 (recv_stream evs)"
      using s1 by auto
    then show ?thesis
      using assms 1 2 s2 False pos
      by (auto simp: recv_frame_def FRAME_HEADER_SIZE_def Let_def min_def drop_take add.commute
               split: option.splits if_splits)
  qed
  then show "r = parse_frame m (recv_stream evs)"
    and "r = Some (t, body) \<Longrightarrow> recv_stream evs' = drop (5 + length body) (recv_stream evs)" by auto
qed

lemma send_exact_prefix:
  "send_exact bs evs = (w, ok, evs') \<Longrightarrow> (\<exists>rest. bs = w @ rest) \<and> (ok \<longleftrightarrow> w = bs)"
proof (induction evs arbitrary: bs w ok evs')
  case (Cons e evs)
  show ?case
  proof (cases "bs = []")
    case False
    show ?thesis
    proof (cases e)
      case (Sent n)
      obtain w1 ok1 evs1 where 1: "send_exact (drop n bs) evs = (w1, ok1, evs1)" by (metis prod_cases3)
      then obtain rest where "drop n bs = w1 @ rest" "ok1 \<longleftrightarrow> w1 = drop n bs"
        using Cons.IH by blast
      moreover have "take n bs @ drop n bs = bs" by simp
      ultimately have "bs = (take n bs @ w1) @ rest" "ok1 \<longleftrightarrow> rest = []" by simp_all
      moreover have "w = take n bs @ w1" "ok = ok1" using Cons.prems False Sent 1 by auto
      ultimately have "bs = w @ rest" "ok \<longleftrightarrow> rest = []" by simp_all
      then show ?thesis by simp
    next
      case SendIntr
      then show ?thesis using False Cons.prems Cons.IH[of bs w ok evs'] by simp
    qed (use False Cons.prems in auto)
  qed (use Cons.prems in auto)
qed auto

section \<open>Frames end to end\<close>

lemma ntohl_htonl: "ntohl (htonl v) = v"
proof -
  have "append_u32 v = map (shift_byte v) (rev [0..<4])" by (rule append_u_rev)
  then show ?thesis unfolding ntohl_def htonl_def by (simp add: fold_shift_in take_bit_word_eq_self)
qed

lemma parse_frame_bytes:
  assumes "length body + 1 < 2 ^ 32" and "m = 0 \<or> length body + 1 \<le> unat m"
  shows "parse_frame m (frame_bytes t body @ rest) = Some (msg_code t, body)"
proof -
  let ?len = "1 + word_of_nat (length body) :: u32"
  let ?bs = "frame_bytes t body @ rest"
  have "?len = word_of_nat (length body + 1)" by simp
  then have len: "unat ?len = length body + 1"
    using assms(1) unat_of_nat32[of "length body + 1"] by simp
  have l: "length (htonl ?len) = 4" by (simp add: htonl_def)
  have bs: "?bs = htonl ?len @ msg_code t # body @ rest" by (simp add: frame_bytes_def)
  then have t: "take 4 ?bs = htonl ?len" and d: "drop 4 ?bs = msg_code t # body @ rest"
    using l by simp_all
  have "?bs ! 4 = msg_code t" using bs l by (simp add: nth_append)
  moreover have "drop 5 ?bs = body @ rest" using d by (metis drop_drop drop_Suc_Cons drop0 numeral_plus_one semiring_norm(5) One_nat_def add.commute)
  moreover have "length ?bs = 5 + length body + length rest" using bs l by simp
  moreover have "\<not> ?len < 1" "m \<noteq> 0 \<longrightarrow> \<not> ?len > m"
    using len assms(2) by (auto simp: word_less_nat_alt)
  ultimately show ?thesis using t len by (auto simp: ntohl_htonl Let_def)
qed

lemma frame_received:
  assumes "length body + 1 < 2 ^ 32" and "m = 0 \<or> length body + 1 \<le> unat m"
    and "recv_stream evs = frame_bytes t body @ rest"
  shows "\<exists>evs'. recv_frame m evs = (Some (msg_code t, body), evs') \<and> recv_stream evs' = rest"
proof -
  obtain r evs' where r: "recv_frame m evs = (r, evs')" by fastforce
  then have "r = Some (msg_code t, body)"
    using recv_frame_stream(1)[OF r] parse_frame_bytes[OF assms(1,2)] assms(3) by metis
  moreover have "recv_stream evs' = rest"
    using recv_frame_stream(2)[OF r] calculation assms(3) by (simp add: frame_bytes_def htonl_def)
  ultimately show ?thesis using r by blast
qed

text \<open>
  A frame that \<^verbatim>\<open>send_frame\<close> reports as sent, through whatever partial writes and
  interruptions, is received by \<^verbatim>\<open>recv_frame\<close> as the same type and body however the stream is cut
  into segments, and the bytes behind it are left for the next frame.
\<close>

theorem frame_transfer:
  assumes "send_frame t body sends = (w, True, sends')"
    and "length body + 1 < 2 ^ 32" and "m = 0 \<or> length body + 1 \<le> unat m"
    and "recv_stream evs = w @ rest"
  shows "\<exists>evs'. recv_frame m evs = (Some (msg_code t, body), evs') \<and> recv_stream evs' = rest"
  using assms frame_received send_exact_prefix[of "frame_bytes t body" sends w True sends']
  by (simp add: send_frame_def)

theorem frame_transfer_witness:
  "\<exists>evs'. recv_frame 10 [RecvData [0, 0], RecvIntr, RecvData [0, 3, 1, 65], RecvData [66, 9]] =
     (Some (1, [65, 66]), evs') \<and> recv_stream evs' = [9]"
proof -
  have "send_frame Query [65, 66] [Sent 3, SendIntr, Sent 0] = ([0, 0, 0, 3, 1, 65, 66], True, [])"
    by (simp add: send_frame_def frame_bytes_def htonl_def append_u32_def shift_byte_def)
  then have "\<exists>evs'. recv_frame 10 [RecvData [0, 0], RecvIntr, RecvData [0, 3, 1, 65], RecvData [66, 9]] =
     (Some (msg_code Query, [65, 66]), evs') \<and> recv_stream evs' = [9]"
    by (rule frame_transfer) simp_all
  then show ?thesis by simp
qed

text \<open>
  C38. The payload limit bounds what a peer can make the receiver take: an accepted frame has at
  most \<^verbatim>\<open>max_payload\<close> bytes of payload, it takes exactly five bytes and its body off the stream,
  and a header that announces more is refused before any payload is read.
\<close>

theorem recv_frame_bounded:
  assumes "recv_frame m evs = (r, evs')" and "m \<noteq> 0"
  shows "(\<forall>t body. r = Some (t, body) \<longrightarrow>
           length body + 1 \<le> unat m \<and> length (recv_stream evs) = 5 + length body + length (recv_stream evs')) \<and>
         (unat m < unat (ntohl (take 4 (recv_stream evs))) \<and> 4 \<le> length (recv_stream evs) \<longrightarrow>
           r = None \<and> recv_stream evs' = drop 4 (recv_stream evs))"
proof (intro conjI allI impI)
  fix t body
  assume some: "r = Some (t, body)"
  then have p: "parse_frame m (recv_stream evs) = Some (t, body)"
    using recv_frame_stream(1)[OF assms(1)] by metis
  let ?len = "ntohl (take 4 (recv_stream evs))"
  have q: "\<not> ?len < 1" "\<not> ?len > m" "4 + unat ?len \<le> length (recv_stream evs)"
    "body = take (unat ?len - 1) (drop 5 (recv_stream evs))"
    using p assms(2) by (auto simp: Let_def split: if_splits)
  then have "1 \<le> unat ?len" "unat ?len \<le> unat m" by (simp_all add: word_less_nat_alt not_less)
  then have l: "length body + 1 = unat ?len" using q by simp
  then show "length body + 1 \<le> unat m" using \<open>unat ?len \<le> unat m\<close> by simp
  show "length (recv_stream evs) = 5 + length body + length (recv_stream evs')"
    using recv_frame_stream(2)[OF assms(1) some] q(3) l by simp
next
  assume big: "unat m < unat (ntohl (take 4 (recv_stream evs))) \<and> 4 \<le> length (recv_stream evs)"
  obtain r1 evs1 where 1: "recv_exact 4 evs = (r1, evs1)" by fastforce
  show "r = None" "recv_stream evs' = drop 4 (recv_stream evs)"
    using assms 1 recv_exact_stream[OF 1] big
    by (auto simp: recv_frame_def FRAME_HEADER_SIZE_def Let_def word_less_nat_alt split: if_splits)
qed

theorem recv_frame_bounded_witness:
  "fst (recv_frame 3 [RecvData [0, 0, 0, 3, 1, 65, 66, 7]]) = Some (1, [65, 66]) \<and>
   length [65, 66 :: u8] + 1 \<le> unat (3 :: u32) \<and>
   fst (recv_frame 3 [RecvData [0, 0, 0, 4, 1, 65, 66, 67]]) = None"
proof -
  have 1: "recv_frame 3 [RecvData [0, 0, 0, 3, 1, 65, 66, 7]] = (Some (1, [65, 66]), [RecvData [7]])"
    by (simp add: recv_frame_def FRAME_HEADER_SIZE_def ntohl_def shift_in_def)
  obtain r evs' where 2: "recv_frame 3 [RecvData [0, 0, 0, 4, 1, 65, 66, 67]] = (r, evs')" by fastforce
  have "r = None" using recv_frame_bounded[OF 2] by (simp add: ntohl_def shift_in_def)
  then show ?thesis using recv_frame_bounded[OF 1] 1 2 by simp
qed

section \<open>Overlong strings\<close>

text \<open>A string cell of 65536 bytes or more is read back short.\<close>

lemma take_cell_cut:
  assumes "at_off body off (append_cell (CellString t))" "65536 \<le> length t"
  shows "\<exists>u off'. take_cell body off = Some (CellString u, off') \<and> off' < off + length (append_cell (CellString t))"
proof -
  let ?n = "word_of_nat (length t) :: u16"
  have a: "at_off body off [CELL_STRING]" "at_off body (Suc off) (append_u16 ?n @ t)"
    using assms(1) at_off_tail [of body off CELL_STRING] by auto
  then have t: "take_bytes body off (Suc 0) = Some ([CELL_STRING], Suc off)" "take_u16 body (Suc off) = Some (?n, off + 3)"
    "off + 3 + length t \<le> length body"
    by (auto simp: at_off_append take_byte_at take_u16_at) (auto simp: at_off_def)
  have "unat ?n < 65536" using unsigned_less [of ?n] by simp
  then have n: "unat ?n < length t" using assms(2) by simp
  then have "\<exists>u. take_bytes body (off + 3) (unat ?n) = Some (u, off + 3 + unat ?n)" using t(3) by (simp add: take_bytes_def)
  then show ?thesis using t n by (auto simp: take_cell_def cell_tags)
qed

lemma take_row_cut:
  "at_off body off (concat (map append_cell row) @ append_cell (CellString t)) \<Longrightarrow> list_all cell_ok row \<Longrightarrow> 65536 \<le> length t \<Longrightarrow>
   \<exists>u off'. take_row body off (Suc (length row)) = Some (u, off') \<and>
     off' < off + length (concat (map append_cell row) @ append_cell (CellString t))"
proof (induction row arbitrary: off)
  case Nil
  then show ?case using take_cell_cut [of body off t] by auto
next
  case (Cons c row)
  then have "take_cell body off = Some (c, off + length (append_cell c))"
    "at_off body (off + length (append_cell c)) (concat (map append_cell row) @ append_cell (CellString t))"
    by (simp_all add: at_off_append take_cell_at add.assoc)
  then show ?case using Cons.IH [of "off + length (append_cell c)"] Cons.prems(2,3) by (auto simp: add.assoc)
qed

lemma take_rows_cut:
  "at_off body off (concat (map (\<lambda>row. concat (map append_cell row)) (rows @ [row @ [CellString t]]))) \<Longrightarrow>
   (\<forall>r \<in> set rows. length r = Suc (length row) \<and> list_all cell_ok r) \<Longrightarrow> list_all cell_ok row \<Longrightarrow> 65536 \<le> length t \<Longrightarrow>
   \<exists>rows' off'. take_rows body off (Suc (length row)) (Suc (length rows)) out = (rows', Some off') \<and>
     off' < off + length (concat (map (\<lambda>row. concat (map append_cell row)) (rows @ [row @ [CellString t]])))"
proof (induction rows arbitrary: off out)
  case Nil
  then show ?case using take_row_cut [of body off row t] by auto
next
  case (Cons r rows)
  let ?enc = "\<lambda>row. concat (map append_cell row)"
  have r: "take_row body off (Suc (length row)) = Some (r, off + length (?enc r))"
    using take_row_at [of body off r] Cons.prems(1,2) by (simp add: at_off_append)
  have "at_off body (off + length (?enc r)) (concat (map ?enc (rows @ [row @ [CellString t]])))"
    using Cons.prems(1) by (simp add: at_off_append add.assoc)
  from Cons.IH [OF this _ Cons.prems(3,4), of "out @ [r]"] Cons.prems(2) show ?case
    unfolding take_rows.simps(2) [of _ _ _ "length (r # rows)"] r by (auto simp: add.assoc simp del: length_concat)
qed

lemma decode_batch_cut:
  assumes "rows_ok (Suc (length row)) rows" "list_all cell_ok row" "65536 \<le> length t" "Suc (length rows) < 2 ^ 32" "Suc (length row) < 2 ^ 32"
  shows "\<not> fst (decode_rs_batch (encode_rs_batch (rows @ [row @ [CellString t]])) (word_of_nat (Suc (length row))) rs)"
proof -
  let ?rows = "rows @ [row @ [CellString t]]"
  let ?b = "encode_rs_batch ?rows" and ?r = "concat (map (\<lambda>row. concat (map append_cell row)) ?rows)"
  have "at_off ?b 0 (append_u32 (word_of_nat (length ?rows)) @ ?r)" unfolding encode_rs_batch_def by (rule at_off_whole)
  then have h: "take_u32 ?b 0 = Some (word_of_nat (Suc (length rows)), 4)" and a: "at_off ?b 4 ?r"
    by (auto simp: at_off_append dest: take_u32_at)
  have l: "length ?b = 4 + length ?r" by (simp add: encode_rs_batch_def)
  obtain rows' off' where "take_rows ?b 4 (Suc (length row)) (Suc (length rows)) (rs_rows rs) = (rows', Some off')" "off' < 4 + length ?r"
    using take_rows_cut [OF a _ assms(2,3), of "rs_rows rs"] assms(1) by (auto simp: rows_ok_def)
  moreover have "unat (word_of_nat (Suc (length rows)) :: u32) = Suc (length rows)" "unat (word_of_nat (Suc (length row)) :: u32) = Suc (length row)"
    by (rule unat_of_nat32, use assms(4,5) in simp)+
  ultimately show ?thesis unfolding decode_rs_batch_def h using l by (simp del: length_concat take_rows.simps of_nat_Suc)
qed

end
