(* ===== verification/Ast.thy ===== *)
theory Ast
  imports Expr
begin

text \<open>
  The syntax trees of src/parser/ast.hh: expressions with the text of their literals, and the SQL
  statements. The flex and bison grammar that builds them is not part of the model; the session
  takes the parser as a parameter.
\<close>

section \<open>Expressions\<close>

text \<open>\<^verbatim>\<open>TypeInfo\<close>: a type name with its declared length (or precision) and scale.\<close>

record type_info =
  ti_type :: string
  ti_length :: "int option"
  ti_scale :: "int option"

text \<open>\<^verbatim>\<open>QualifiedName\<close>: an empty schema is an unqualified name.\<close>

record qualified_name =
  qn_schema :: string
  qn_name :: string

record column_def =
  cd_name :: string
  cd_type :: string
  cd_length :: "int option"
  cd_scale :: "int option"
  cd_not_null :: bool

datatype expr =
    IntExpr string
  | FloatExpr string
  | DecimalExpr string
  | StringExpr string
  | NullExpr
  | BoolExpr bool
  | IdentifierExpr string
  | BinaryOpExpr char expr expr
  | UnaryOpExpr char expr
  | CompareExpr cmp_op expr expr
  | LogicExpr logic_op expr expr
  | NotExpr expr
  | IsNullExpr expr bool
  | BetweenExpr expr expr expr
  | FuncCallExpr string "expr list"
  | CastExpr expr type_info

section \<open>Statements\<close>

record update_item =
  ui_column :: string
  ui_value :: expr

text \<open>\<^verbatim>\<open>SelectItem\<close>: without an expression it is the star; the alias is empty unless AS was given.\<close>

record select_item =
  si_expr :: "expr option"
  si_alias :: string
  si_star :: bool

record order_item =
  oi_expr :: expr
  oi_desc :: bool

record select_stmt =
  sel_table :: qualified_name
  sel_distinct :: bool
  sel_items :: "select_item list"
  sel_where :: "expr option"
  sel_orders :: "order_item list"
  sel_limit :: "int option"
  sel_offset :: "int option"

record select_no_from_stmt =
  snf_items :: "select_item list"
  snf_where :: "expr option"
  snf_orders :: "order_item list"

datatype set_value_form = FormInt | FormIdent | FormStr

datatype sql_statement =
    CreateTableStmt qualified_name "column_def list"
  | DropTableStmt qualified_name
  | CreateSchemaStmt string
  | DropSchemaStmt string
  | CreateIndexStmt string qualified_name string
  | DropIndexStmt string qualified_name
  | InsertStmt qualified_name "string list" "expr list list"
  | DeleteStmt qualified_name "expr option"
  | UpdateStmt qualified_name "update_item list" "expr option"
  | SelectStmt select_stmt
  | SelectNoFromStmt select_no_from_stmt
  | ExplainStmt sql_statement
  | SetStmt string string set_value_form
  | BeginStmt
  | CommitStmt
  | RollbackStmt

datatype stmt_kind =
    KCreateTable | KDropTable | KCreateSchema | KDropSchema | KCreateIndex | KDropIndex | KInsert
  | KDelete | KUpdate | KSelect | KSelectNoFrom | KExplain | KSet | KBegin | KCommit | KRollback

fun stmt_kind_of :: "sql_statement \<Rightarrow> stmt_kind" where
  "stmt_kind_of (CreateTableStmt _ _) = KCreateTable"
| "stmt_kind_of (DropTableStmt _) = KDropTable"
| "stmt_kind_of (CreateSchemaStmt _) = KCreateSchema"
| "stmt_kind_of (DropSchemaStmt _) = KDropSchema"
| "stmt_kind_of (CreateIndexStmt _ _ _) = KCreateIndex"
| "stmt_kind_of (DropIndexStmt _ _) = KDropIndex"
| "stmt_kind_of (InsertStmt _ _ _) = KInsert"
| "stmt_kind_of (DeleteStmt _ _) = KDelete"
| "stmt_kind_of (UpdateStmt _ _ _) = KUpdate"
| "stmt_kind_of (SelectStmt _) = KSelect"
| "stmt_kind_of (SelectNoFromStmt _) = KSelectNoFrom"
| "stmt_kind_of (ExplainStmt _) = KExplain"
| "stmt_kind_of (SetStmt _ _ _) = KSet"
| "stmt_kind_of BeginStmt = KBegin"
| "stmt_kind_of CommitStmt = KCommit"
| "stmt_kind_of RollbackStmt = KRollback"

section \<open>Texts of the trees\<close>

text \<open>
  src/parser/ast_print.hxx: expressions turned back into SQL text, which names the output columns, and
  the indented listing of trees.
\<close>

definition qualified_to_string :: "qualified_name \<Rightarrow> string" where
  "qualified_to_string q = (if qn_schema q = [] then qn_name q else qn_schema q @ ''.'' @ qn_name q)"

definition type_to_string :: "string \<Rightarrow> int option \<Rightarrow> int option \<Rightarrow> string" where
  "type_to_string type len scl =
     (case len of
        None \<Rightarrow> type
      | Some n \<Rightarrow>
          (case scl of
             Some m \<Rightarrow> type @ ''('' @ int_text n @ '','' @ int_text m @ '')''
           | None \<Rightarrow> type @ ''('' @ int_text n @ '')''))"

fun cmp_to_string :: "cmp_op \<Rightarrow> string" where
  "cmp_to_string CmpEq = ''=''"
| "cmp_to_string CmpNe = ''<>''"
| "cmp_to_string CmpLt = ''<''"
| "cmp_to_string CmpLe = ''<=''"
| "cmp_to_string CmpGt = ''>''"
| "cmp_to_string CmpGe = ''>=''"

definition comma_sep :: "string list \<Rightarrow> string" where
  "comma_sep xs = (case xs of [] \<Rightarrow> [] | y # ys \<Rightarrow> y @ concat (map (\<lambda>x. '', '' @ x) ys))"

fun expr_to_string :: "expr \<Rightarrow> string" where
  "expr_to_string (IntExpr text) = text"
| "expr_to_string (FloatExpr text) = text"
| "expr_to_string (DecimalExpr text) = text"
| "expr_to_string (StringExpr v) = [CHR 0x27] @ v @ [CHR 0x27]"
| "expr_to_string NullExpr = ''NULL''"
| "expr_to_string (BoolExpr v) = (if v then ''true'' else ''false'')"
| "expr_to_string (IdentifierExpr name) = name"
| "expr_to_string (BinaryOpExpr op l r) = ''('' @ expr_to_string l @ '' '' @ [op] @ '' '' @ expr_to_string r @ '')''"
| "expr_to_string (UnaryOpExpr op a) = ''('' @ [op] @ expr_to_string a @ '')''"
| "expr_to_string (CompareExpr op l r) =
     ''('' @ expr_to_string l @ '' '' @ cmp_to_string op @ '' '' @ expr_to_string r @ '')''"
| "expr_to_string (LogicExpr op l r) =
     ''('' @ expr_to_string l @ (if op = LogicAnd then '' AND '' else '' OR '') @ expr_to_string r @ '')''"
| "expr_to_string (NotExpr a) = ''(NOT '' @ expr_to_string a @ '')''"
| "expr_to_string (IsNullExpr a negate) =
     ''('' @ expr_to_string a @ (if negate then '' IS NOT NULL'' else '' IS NULL'') @ '')''"
| "expr_to_string (BetweenExpr x lo hi) =
     ''('' @ expr_to_string x @ '' BETWEEN '' @ expr_to_string lo @ '' AND '' @ expr_to_string hi @ '')''"
| "expr_to_string (FuncCallExpr name args) = name @ ''('' @ comma_sep (map expr_to_string args) @ '')''"
| "expr_to_string (CastExpr a target) =
     ''CAST('' @ expr_to_string a @ '' AS '' @ type_to_string (ti_type target) (ti_length target) (ti_scale target) @ '')''"

definition line :: "nat \<Rightarrow> string \<Rightarrow> string" where
  "line indent s = replicate indent (CHR '' '') @ s @ [CHR 0x0A]"

fun print_expr :: "nat \<Rightarrow> expr \<Rightarrow> string" where
  "print_expr indent (IntExpr text) = line indent (''Int: '' @ text)"
| "print_expr indent (FloatExpr text) = line indent (''Float: '' @ text)"
| "print_expr indent (DecimalExpr text) = line indent (''Decimal: '' @ text)"
| "print_expr indent (StringExpr v) = line indent (''String: '' @ v)"
| "print_expr indent NullExpr = line indent ''Null''"
| "print_expr indent (BoolExpr v) = line indent (''Bool: '' @ (if v then ''true'' else ''false''))"
| "print_expr indent (IdentifierExpr name) = line indent (''Identifier: '' @ name)"
| "print_expr indent (BinaryOpExpr op l r) =
     line indent (''BinaryOp: '' @ [op]) @ print_expr (indent + 4) l @ print_expr (indent + 4) r"
| "print_expr indent (UnaryOpExpr op a) = line indent (''UnaryOp: '' @ [op]) @ print_expr (indent + 4) a"
| "print_expr indent (CompareExpr op l r) =
     line indent (''Compare: '' @ cmp_to_string op) @ print_expr (indent + 4) l @ print_expr (indent + 4) r"
| "print_expr indent (LogicExpr op l r) =
     line indent (''Logic: '' @ (if op = LogicAnd then ''AND'' else ''OR'')) @ print_expr (indent + 4) l @ print_expr (indent + 4) r"
| "print_expr indent (NotExpr a) = line indent ''Not'' @ print_expr (indent + 4) a"
| "print_expr indent (IsNullExpr a negate) =
     line indent (''IsNull'' @ (if negate then '' not'' else [])) @ print_expr (indent + 4) a"
| "print_expr indent (BetweenExpr x lo hi) =
     line indent ''Between'' @ print_expr (indent + 4) x @ print_expr (indent + 4) lo @ print_expr (indent + 4) hi"
| "print_expr indent (FuncCallExpr name args) =
     line indent (''FuncCall: '' @ name) @ concat (map (print_expr (indent + 4)) args)"
| "print_expr indent (CastExpr a target) =
     line indent (''Cast: '' @ type_to_string (ti_type target) (ti_length target) (ti_scale target)) @ print_expr (indent + 4) a"

definition print_where :: "nat \<Rightarrow> expr option \<Rightarrow> string" where
  "print_where indent wh = (case wh of None \<Rightarrow> [] | Some e \<Rightarrow> print_expr indent e)"

definition print_column :: "nat \<Rightarrow> column_def \<Rightarrow> string" where
  "print_column indent c =
     line indent (cd_name c @ '' '' @ type_to_string (cd_type c) (cd_length c) (cd_scale c) @
       (if cd_not_null c then '' NOT NULL'' else []))"

text \<open>An item that is not the star has an expression.\<close>

definition print_item :: "nat \<Rightarrow> select_item \<Rightarrow> string" where
  "print_item indent i =
     (if si_star i then line indent ''*'' else case si_expr i of Some e \<Rightarrow> print_expr indent e | None \<Rightarrow> [])"

definition print_order :: "nat \<Rightarrow> order_item \<Rightarrow> string" where
  "print_order indent x = line indent (''Order: '' @ expr_to_string (oi_expr x) @ (if oi_desc x then '' DESC'' else '' ASC''))"

fun print_stmt :: "nat \<Rightarrow> sql_statement \<Rightarrow> string" where
  "print_stmt indent (CreateTableStmt t cols) =
     line indent (''CreateTable: '' @ qualified_to_string t) @ concat (map (print_column (indent + 4)) cols)"
| "print_stmt indent (DropTableStmt t) = line indent (''DropTable: '' @ qualified_to_string t)"
| "print_stmt indent (CreateSchemaStmt s) = line indent (''CreateSchema: '' @ s)"
| "print_stmt indent (DropSchemaStmt s) = line indent (''DropSchema: '' @ s)"
| "print_stmt indent (CreateIndexStmt i t c) =
     line indent (''CreateIndex: '' @ i @ '' ON '' @ qualified_to_string t @ '' ('' @ c @ '')'')"
| "print_stmt indent (DropIndexStmt i t) = line indent (''DropIndex: '' @ i @ '' ON '' @ qualified_to_string t)"
| "print_stmt indent (InsertStmt t cols rows) =
     line indent (''InsertInto: '' @ qualified_to_string t) @
     concat (map (\<lambda>c. line (indent + 4) (''Column: '' @ c)) cols) @
     concat (map (\<lambda>row. concat (map (print_expr (indent + 4)) row)) rows)"
| "print_stmt indent (DeleteStmt t wh) = line indent (''DeleteFrom: '' @ qualified_to_string t) @ print_where (indent + 4) wh"
| "print_stmt indent (UpdateStmt t assigns wh) =
     line indent (''Update: '' @ qualified_to_string t) @
     concat (map (\<lambda>a. line (indent + 4) (''Assign: '' @ ui_column a) @ print_expr (indent + 8) (ui_value a)) assigns) @
     print_where (indent + 4) wh"
| "print_stmt indent (SelectStmt s) =
     line indent (''Select: '' @ qualified_to_string (sel_table s)) @
     concat (map (print_item (indent + 4)) (sel_items s)) @ print_where (indent + 4) (sel_where s) @
     concat (map (print_order (indent + 4)) (sel_orders s))"
| "print_stmt indent (SelectNoFromStmt s) =
     line indent ''SelectNoFrom'' @
     concat (map (print_item (indent + 4)) (snf_items s)) @ print_where (indent + 4) (snf_where s) @
     concat (map (print_order (indent + 4)) (snf_orders s))"
| "print_stmt indent (ExplainStmt s) = line indent ''Explain'' @ print_stmt (indent + 4) s"
| "print_stmt indent (SetStmt var v form) = line indent (''Set: '' @ var @ '' = '' @ v)"
| "print_stmt indent BeginStmt = line indent ''Begin''"
| "print_stmt indent CommitStmt = line indent ''Commit''"
| "print_stmt indent RollbackStmt = line indent ''Rollback''"

end
