(* ===== verification/Session.thy ===== *)
theory Session
  imports Proto Ast Durability
begin

text \<open>
  The server side of a connection, src/server/session.cpp, with the log levels of src/log/log.h and
  the transaction calls of src/catalog/catalog.cpp. A session reads requests from a scripted socket,
  routes statements by transaction state and writes frames. The parser, the wording of messages and
  the executor are fields of \<^verbatim>\<open>services\<close>; the transactions are those of the engine. The interface
  to the database is the locale \<^verbatim>\<open>txn_db\<close>, interpreted on the engine.
\<close>

section \<open>Log levels\<close>

datatype log_level =
    DEBUG5 | DEBUG4 | DEBUG3 | DEBUG2 | DEBUG | INFO | NOTICE | WARNING | ERROR | CRITICAL

fun level_code :: "log_level \<Rightarrow> u8" where
  "level_code DEBUG5 = 0"
| "level_code DEBUG4 = 1"
| "level_code DEBUG3 = 2"
| "level_code DEBUG2 = 3"
| "level_code DEBUG = 4"
| "level_code INFO = 5"
| "level_code NOTICE = 6"
| "level_code WARNING = 7"
| "level_code ERROR = 8"
| "level_code CRITICAL = 9"

fun levelToString :: "log_level \<Rightarrow> string" where
  "levelToString DEBUG5 = ''DEBUG5''"
| "levelToString DEBUG4 = ''DEBUG4''"
| "levelToString DEBUG3 = ''DEBUG3''"
| "levelToString DEBUG2 = ''DEBUG2''"
| "levelToString DEBUG = ''DEBUG''"
| "levelToString INFO = ''INFO''"
| "levelToString NOTICE = ''NOTICE''"
| "levelToString WARNING = ''WARNING''"
| "levelToString ERROR = ''ERROR''"
| "levelToString CRITICAL = ''CRITICAL''"

definition levelFromString :: "string \<Rightarrow> log_level option" where
  "levelFromString name =
     find (\<lambda>l. map ascii_lower name = map ascii_lower (levelToString l))
       [DEBUG5, DEBUG4, DEBUG3, DEBUG2, DEBUG, INFO, NOTICE, WARNING, ERROR, CRITICAL]"

section \<open>Answers to the client\<close>

fun to_wire :: "err_code \<Rightarrow> wire_err_code" where
  "to_wire IoError = WireIoError"
| "to_wire CatalogMissing = WireCatalogMissing"
| "to_wire CatalogExists = WireCatalogExists"
| "to_wire InvalidType = WireInvalidType"
| "to_wire TableNotFound = WireTableNotFound"
| "to_wire TableExists = WireTableExists"
| "to_wire SchemaNotFound = WireSchemaNotFound"
| "to_wire SchemaExists = WireSchemaExists"
| "to_wire SchemaNotEmpty = WireSchemaNotEmpty"
| "to_wire IndexExists = WireIndexExists"
| "to_wire IndexNotFound = WireIndexNotFound"
| "to_wire ProtectedTable = WireProtectedTable"
| "to_wire InvalidDdl = WireInvalidDdl"
| "to_wire ValueMismatch = WireValueMismatch"
| "to_wire RecordTooLong = WireRecordTooLong"
| "to_wire ArithError = WireArithError"
| "to_wire UnknownColumn = WireUnknownColumn"
| "to_wire UnknownVar = WireUnknownVar"
| "to_wire UnknownStmt = WireUnknownStmt"
| "to_wire NotImplemented = WireNotImplemented"
| "to_wire Internal = WireInternal"
| "to_wire SyntaxError = WireSyntaxError"
| "to_wire TxnActive = WireTxnActive"
| "to_wire NoActiveTxn = WireNoActiveTxn"
| "to_wire DdlInTxn = WireDdlInTxn"
| "to_wire BootstrapMode = WireBootstrapMode"
| "to_wire TooManyClients = WireTooManyClients"
| "to_wire InvalidVarValue = WireInvalidVarValue"
| "to_wire StarNoFrom = WireStarNoFrom"
| "to_wire UnknownFunction = WireUnknownFunction"

fun tag_log_name :: "command_tag \<Rightarrow> string" where
  "tag_log_name TagEmpty = ''EMPTY''"
| "tag_log_name TagCreateTable = ''CREATE''"
| "tag_log_name TagDropTable = ''DROP''"
| "tag_log_name TagCreateSchema = ''CREATE_SCHEMA''"
| "tag_log_name TagDropSchema = ''DROP_SCHEMA''"
| "tag_log_name TagCreateIndex = ''CREATE_INDEX''"
| "tag_log_name TagDropIndex = ''DROP_INDEX''"
| "tag_log_name TagInsert = ''INSERT''"
| "tag_log_name TagDelete = ''DELETE''"
| "tag_log_name TagUpdate = ''UPDATE''"
| "tag_log_name TagSet = ''SET''"
| "tag_log_name TagBegin = ''BEGIN''"
| "tag_log_name TagCommit = ''COMMIT''"
| "tag_log_name TagRollback = ''ROLLBACK''"

text \<open>
  The texts the session sends. Their (Chinese) wording is a parameter \<^verbatim>\<open>wording\<close> of the model; the
  constructors carry what the code formats into them. \<^verbatim>\<open>TxtWhat\<close> is the text of a raised error.
\<close>

datatype session_text =
    TxtReceived bytes
  | TxtParsed bytes
  | TxtRows nat
  | TxtDone string u64
  | TxtBootstrapBegin
  | TxtNestedBegin
  | TxtNoTxn string
  | TxtBadValue string string
  | TxtVarSet string string
  | TxtWhat err_code
  | TxtRolledBack bytes
  | TxtDdlInTxn
  | TxtTooManyClients

text \<open>
  A session: the two directions of its socket (what \<^verbatim>\<open>recv\<close> and \<^verbatim>\<open>send\<close> will answer, and the bytes
  written so far), the database, the fields of \<^verbatim>\<open>SessionCtx\<close>, and the server-wide log threshold.
\<close>

record 'd session =
  ss_in :: "recv_event list"
  ss_sends :: "send_event list"
  ss_out :: bytes
  ss_db :: 'd
  ss_in_txn :: bool
  ss_txn_started :: bool
  ss_msg_level :: log_level
  ss_schema :: string
  ss_log_level :: log_level

text \<open>
  \<^verbatim>\<open>ExecResult\<close>. The opened operator tree is represented by what its \<^verbatim>\<open>next\<close> calls deliver: the
  rows, and the failure that ends them if one does.
\<close>

record exec_result =
  er_is_result_set :: bool
  er_tag :: command_tag
  er_count :: u64
  er_col_names :: "bytes list"
  er_rows :: "dbvalue list list"
  er_failure :: "failure option"

text \<open>
  What the session calls: \<^verbatim>\<open>sql::parse\<close> (an error text, or a statement if there is one), the
  catalog's transactions and \<^verbatim>\<open>exec::execute\<close>, which leaves a database also when it fails.
\<close>

record 'd services =
  sv_wording :: "session_text \<Rightarrow> bytes"
  sv_parse :: "bytes \<Rightarrow> bytes + sql_statement option"
  sv_bootstrap_mode :: "'d \<Rightarrow> bool"
  sv_begin :: "'d \<Rightarrow> 'd res"
  sv_commit :: "'d \<Rightarrow> 'd res"
  sv_rollback :: "'d \<Rightarrow> 'd res"
  sv_execute :: "sql_statement \<Rightarrow> string \<Rightarrow> 'd \<Rightarrow> (failure + exec_result) \<times> 'd"

definition ss_send :: "msg_type \<Rightarrow> bytes \<Rightarrow> 'd session \<Rightarrow> bool \<times> 'd session" where
  "ss_send t body s =
     (case send_frame t body (ss_sends s) of
        (w, ok, sends) \<Rightarrow> (ok, s\<lparr>ss_out := ss_out s @ w, ss_sends := sends\<rparr>))"

definition send_error :: "'d services \<Rightarrow> err_code \<Rightarrow> bytes \<Rightarrow> 'd session \<Rightarrow> 'd session" where
  "send_error sv code message s = snd (ss_send Error (encode_error (to_wire code) message) s)"

definition send_notice :: "'d services \<Rightarrow> log_level \<Rightarrow> session_text \<Rightarrow> 'd session \<Rightarrow> 'd session" where
  "send_notice sv msg_level text s =
     (if level_code msg_level < level_code (ss_msg_level s) then s
      else snd (ss_send Notice (encode_notice (level_code msg_level) (sv_wording sv text)) s))"

text \<open>\<^verbatim>\<open>unscaled\<close> in 16 bytes, two's complement: the magnitude, inverted and incremented when negative.\<close>

fun negate_bytes :: "bool \<Rightarrow> bytes \<Rightarrow> bytes" where
  "negate_bytes carry [] = []"
| "negate_bytes carry (b # bs) =
     (if carry then (NOT b + 1) # negate_bytes (NOT b + 1 = 0) bs
      else NOT b # negate_bytes False bs)"

definition dec_cell :: "decimal_val \<Rightarrow> cell_val" where
  "dec_cell d =
     (let mag = be_bytes 16 (nat \<bar>unscaled d\<bar>)
      in CellDecimal (if unscaled d < 0 then rev (negate_bytes True (rev mag)) else mag) (dscale d))"

definition to_cell :: "dbvalue \<Rightarrow> cell_val res" where
  "to_cell v =
     (if value_is_null v then Inr CellNull
      else case attr_rep (vtype v) of
        RepBool \<Rightarrow> (case vbox v of BBool b \<Rightarrow> Inr (CellBool b) | _ \<Rightarrow> Inl Crash)
      | RepInt64 \<Rightarrow> (case vbox v of BInt64 i \<Rightarrow> Inr (CellInt i) | _ \<Rightarrow> Inl Crash)
      | RepFloat \<Rightarrow> (case vbox v of BFloat f \<Rightarrow> Inr (CellFloat f) | _ \<Rightarrow> Inl Crash)
      | RepDouble \<Rightarrow> (case vbox v of BDouble f \<Rightarrow> Inr (CellDouble f) | _ \<Rightarrow> Inl Crash)
      | RepStr \<Rightarrow> (case vbox v of BStr t \<Rightarrow> Inr (CellString (map byte_of_char t)) | _ \<Rightarrow> Inl Crash)
      | RepDec \<Rightarrow> (case vbox v of BDec d \<Rightarrow> Inr (dec_cell d) | _ \<Rightarrow> Inl Crash)
      | RepNone \<Rightarrow> Inl (Raise Internal))"

text \<open>
  The row loop of \<^verbatim>\<open>send_result_stream\<close>: cells are collected into a batch, a full batch is sent.
  The outcome is a failure raised on the way, or whether all sends went through with the last
  batch and the number of rows.
\<close>

fun send_rows ::
  "dbvalue list list \<Rightarrow> failure option \<Rightarrow> cell_val list list \<Rightarrow> nat \<Rightarrow> 'd session
   \<Rightarrow> (failure + (cell_val list list \<times> nat) option) \<times> 'd session" where
  "send_rows [] (Some f) batch sent s = (Inl f, s)"
| "send_rows [] None batch sent s = (Inr (Some (batch, sent)), s)"
| "send_rows (row # rows) fin batch sent s =
     (case map_res to_cell row of
        Inl f \<Rightarrow> (Inl f, s)
      | Inr cells \<Rightarrow>
        (let batch = batch @ [cells]; sent = sent + 1
         in if length batch \<ge> RS_BATCH_MAX_ROWS
            then (case ss_send ResultSetBatch (encode_rs_batch batch) s of
                    (False, s) \<Rightarrow> (Inr None, s)
                  | (True, s) \<Rightarrow> send_rows rows fin [] sent s)
            else send_rows rows fin batch sent s))"

definition send_result_stream ::
  "'d services \<Rightarrow> exec_result \<Rightarrow> 'd session \<Rightarrow> (failure + bool) \<times> 'd session" where
  "send_result_stream sv result s =
     (case ss_send ResultSetHead (encode_rs_head (er_col_names result)) s of
        (False, s) \<Rightarrow> (Inr False, s)
      | (True, s) \<Rightarrow>
        (case send_rows (er_rows result) (er_failure result) [] 0 s of
           (Inl f, s) \<Rightarrow> (Inl f, s)
         | (Inr None, s) \<Rightarrow> (Inr False, s)
         | (Inr (Some (batch, sent)), s) \<Rightarrow>
           (case (if batch = [] then (True, s)
                  else ss_send ResultSetBatch (encode_rs_batch batch) s) of
              (False, s) \<Rightarrow> (Inr False, s)
            | (True, s) \<Rightarrow>
              (let s = send_notice sv DEBUG (TxtRows sent) s in
               case ss_send ResultSetEnd (encode_rs_end (word_of_nat sent)) s of
                 (ok, s) \<Rightarrow> (Inr ok, s)))))"

section \<open>Session handlers\<close>

text \<open>
  A handler ends with \<^verbatim>\<open>Some f\<close> when a failure leaves it: \<^verbatim>\<open>Raise\<close> is caught by the session loop,
  the others end the process. A failing \<^verbatim>\<open>begin\<close>, \<^verbatim>\<open>commit\<close> or \<^verbatim>\<open>rollback\<close> leaves the database as
  it was.
\<close>

definition rollback_session_txn :: "'d services \<Rightarrow> 'd session \<Rightarrow> failure option \<times> 'd session" where
  "rollback_session_txn sv s =
     (if ss_txn_started s then
        (case sv_rollback sv (ss_db s) of
           Inl f \<Rightarrow> (Some f, s)
         | Inr d \<Rightarrow> (None, s\<lparr>ss_db := d, ss_txn_started := False, ss_in_txn := False\<rparr>))
      else (None, s\<lparr>ss_in_txn := False\<rparr>))"

definition text_bytes :: "string \<Rightarrow> bytes" where
  "text_bytes t = map byte_of_char t"

definition recv_query :: "'d services \<Rightarrow> 'd session \<Rightarrow> bytes option \<times> 'd session" where
  "recv_query sv s =
     (case recv_frame MAX_REQUEST_PAYLOAD (ss_in s) of
        (None, evs) \<Rightarrow> (None, s\<lparr>ss_in := evs\<rparr>)
      | (Some (msg_type, msg), evs) \<Rightarrow>
        (let s = s\<lparr>ss_in := evs\<rparr> in
         if msg_type \<noteq> msg_code Query then (None, s)
         else let s = send_notice sv DEBUG (TxtReceived msg) s in
           if msg = text_bytes ''quit'' \<or> msg = text_bytes ''exit'' then (None, s)
           else (Some msg, s)))"

definition handle_txn_control ::
  "'d services \<Rightarrow> stmt_kind \<Rightarrow> 'd session \<Rightarrow> failure option \<times> 'd session" where
  "handle_txn_control sv kind s =
     (if kind = KBegin then
        if sv_bootstrap_mode sv (ss_db s) then
          (None, send_error sv BootstrapMode (sv_wording sv TxtBootstrapBegin) s)
        else if ss_in_txn s then
          (case rollback_session_txn sv s of
             (Some f, s) \<Rightarrow> (Some f, s)
           | (None, s) \<Rightarrow> (None, send_error sv TxnActive (sv_wording sv TxtNestedBegin) s))
        else (None, snd (ss_send Ok (encode_command TagBegin 0) (s\<lparr>ss_in_txn := True\<rparr>)))
      else if \<not> ss_in_txn s then
        (None, send_error sv NoActiveTxn
           (sv_wording sv (TxtNoTxn (if kind = KCommit then ''COMMIT'' else ''ROLLBACK''))) s)
      else
        (let started = ss_txn_started s;
             s = s\<lparr>ss_in_txn := False, ss_txn_started := False\<rparr>;
             tag = (if kind = KCommit then TagCommit else TagRollback)
         in if started then
              (case (if kind = KCommit then sv_commit sv (ss_db s) else sv_rollback sv (ss_db s)) of
                 Inl f \<Rightarrow> (Some f, s)
               | Inr d \<Rightarrow> (None, snd (ss_send Ok (encode_command tag 0) (s\<lparr>ss_db := d\<rparr>))))
            else (None, snd (ss_send Ok (encode_command tag 0) s))))"

definition reply_set :: "'d services \<Rightarrow> string \<Rightarrow> string \<Rightarrow> 'd session \<Rightarrow> 'd session" where
  "reply_set sv var shown s =
     snd (ss_send Ok (encode_command TagSet 0) (send_notice sv DEBUG (TxtVarSet var shown) s))"

definition handle_session_set ::
  "'d services \<Rightarrow> string \<Rightarrow> string \<Rightarrow> set_value_form \<Rightarrow> 'd session \<Rightarrow> bool \<times> 'd session" where
  "handle_session_set sv var val form s =
     (let bad = send_error sv InvalidVarValue (sv_wording sv (TxtBadValue var val)) s in
      if var = ''client_msg_level'' then
        (case levelFromString val of
           None \<Rightarrow> (True, bad)
         | Some lvl \<Rightarrow> (True, reply_set sv var (levelToString lvl) (s\<lparr>ss_msg_level := lvl\<rparr>)))
      else if var = ''current_schema'' then
        if form = FormInt \<or> val = [] then (True, bad)
        else (True, reply_set sv var val (s\<lparr>ss_schema := val\<rparr>))
      else if var = ''server_log_level'' then
        (case levelFromString val of
           None \<Rightarrow> (True, bad)
         | Some lvl \<Rightarrow> (True, reply_set sv var (levelToString lvl) (s\<lparr>ss_log_level := lvl\<rparr>)))
      else (False, s))"

fun txn_forbidden_stmt :: "sql_statement \<Rightarrow> bool" where
  "txn_forbidden_stmt (CreateTableStmt _ _) = True"
| "txn_forbidden_stmt (DropTableStmt _) = True"
| "txn_forbidden_stmt (CreateSchemaStmt _) = True"
| "txn_forbidden_stmt (DropSchemaStmt _) = True"
| "txn_forbidden_stmt (CreateIndexStmt _ _ _) = True"
| "txn_forbidden_stmt (DropIndexStmt _ _) = True"
| "txn_forbidden_stmt (SetStmt _ _ _) = True"
| "txn_forbidden_stmt (ExplainStmt inner) = txn_forbidden_stmt inner"
| "txn_forbidden_stmt _ = False"

text \<open>
  \<^verbatim>\<open>exec_statement\<close> in its four stages: opening the transaction, executing with the rollback of a
  failed statement, the automatic commit, and the answer. The boolean is false when the peer is
  gone.
\<close>

definition open_txn :: "'d services \<Rightarrow> 'd session \<Rightarrow> failure option \<times> 'd session" where
  "open_txn sv s =
     (if ss_in_txn s \<and> ss_txn_started s then (None, s)
      else case sv_begin sv (ss_db s) of
             Inl f \<Rightarrow> (Some f, s)
           | Inr d \<Rightarrow> (None, s\<lparr>ss_db := d, ss_txn_started := (ss_in_txn s \<or> ss_txn_started s)\<rparr>))"

definition reply_result ::
  "'d services \<Rightarrow> exec_result \<Rightarrow> 'd session \<Rightarrow> (failure + bool) \<times> 'd session" where
  "reply_result sv result s =
     (if er_is_result_set result then send_result_stream sv result s
      else let s = send_notice sv DEBUG (TxtDone (tag_log_name (er_tag result)) (er_count result)) s
           in (Inr True, snd (ss_send Ok (encode_command (er_tag result) (er_count result)) s)))"

definition fail_statement ::
  "'d services \<Rightarrow> err_code \<Rightarrow> 'd session \<Rightarrow> (failure + bool) \<times> 'd session" where
  "fail_statement sv code s =
     (case sv_rollback sv (ss_db s) of
        Inl f \<Rightarrow> (Inl f, s)
      | Inr d \<Rightarrow>
        (let what = sv_wording sv (TxtWhat code);
             err = (if ss_in_txn s then sv_wording sv (TxtRolledBack what) else what);
             s = s\<lparr>ss_db := d, ss_txn_started := (if ss_in_txn s then False else ss_txn_started s),
                   ss_in_txn := False\<rparr>
         in (Inr True, send_error sv code err s)))"

definition exec_statement ::
  "'d services \<Rightarrow> sql_statement \<Rightarrow> 'd session \<Rightarrow> (failure + bool) \<times> 'd session" where
  "exec_statement sv stmt s =
     (case open_txn sv s of
        (Some f, s) \<Rightarrow> (Inl f, s)
      | (None, s) \<Rightarrow>
        (case sv_execute sv stmt (ss_schema s) (ss_db s) of
           (Inl (Raise code), d) \<Rightarrow> fail_statement sv code (s\<lparr>ss_db := d\<rparr>)
         | (Inl f, d) \<Rightarrow> (Inl f, s\<lparr>ss_db := d\<rparr>)
         | (Inr result, d) \<Rightarrow>
           (if ss_in_txn s then reply_result sv result (s\<lparr>ss_db := d\<rparr>)
            else case sv_commit sv d of
                   Inl f \<Rightarrow> (Inl f, s\<lparr>ss_db := d\<rparr>)
                 | Inr d \<Rightarrow> reply_result sv result (s\<lparr>ss_db := d\<rparr>))))"

text \<open>One round of the loop of \<^verbatim>\<open>handle_client\<close>, without the handlers of its try block.\<close>

definition handle_request ::
  "'d services \<Rightarrow> bytes \<Rightarrow> 'd session \<Rightarrow> (failure + bool) \<times> 'd session" where
  "handle_request sv msg s =
     (case sv_parse sv msg of
        Inl parse_error \<Rightarrow>
          if ss_in_txn s then
            (case rollback_session_txn sv s of
               (Some f, s) \<Rightarrow> (Inl f, s)
             | (None, s) \<Rightarrow>
                 (Inr True, send_error sv SyntaxError (sv_wording sv (TxtRolledBack parse_error)) s))
          else (Inr True, send_error sv SyntaxError parse_error s)
      | Inr stmt \<Rightarrow>
        (let s = send_notice sv DEBUG (TxtParsed msg) s in
         case stmt of
           None \<Rightarrow> (Inr True, snd (ss_send Ok (encode_command TagEmpty 0) s))
         | Some stmt \<Rightarrow>
             let kind = stmt_kind_of stmt in
             if kind = KBegin \<or> kind = KCommit \<or> kind = KRollback then
               (case handle_txn_control sv kind s of
                  (Some f, s) \<Rightarrow> (Inl f, s)
                | (None, s) \<Rightarrow> (Inr True, s))
             else if ss_in_txn s \<and> txn_forbidden_stmt stmt then
               (case rollback_session_txn sv s of
                  (Some f, s) \<Rightarrow> (Inl f, s)
                | (None, s) \<Rightarrow> (Inr True, send_error sv DdlInTxn (sv_wording sv TxtDdlInTxn) s))
             else case stmt of
                    SetStmt var val form \<Rightarrow>
                      (case handle_session_set sv var val form s of
                         (True, s) \<Rightarrow> (Inr True, s)
                       | (False, s) \<Rightarrow> exec_statement sv stmt s)
                  | _ \<Rightarrow> exec_statement sv stmt s))"

text \<open>The handlers of the try block: a structured error is routed to the client.\<close>

definition answer_request ::
  "'d services \<Rightarrow> bytes \<Rightarrow> 'd session \<Rightarrow> (failure + bool) \<times> 'd session" where
  "answer_request sv msg s =
     (case handle_request sv msg s of
        (Inl (Raise code), s) \<Rightarrow> (Inr True, send_error sv code (sv_wording sv (TxtWhat code)) s)
      | r \<Rightarrow> r)"

text \<open>
  The loop runs while the server does: \<^verbatim>\<open>rounds\<close> is the number of rounds until a shutdown
  request is seen. The first component is \<^verbatim>\<open>Some f\<close> when the process dies.
\<close>

fun client_loop :: "'d services \<Rightarrow> nat \<Rightarrow> 'd session \<Rightarrow> failure option \<times> 'd session" where
  "client_loop sv 0 s = (None, s)"
| "client_loop sv (Suc rounds) s =
     (case recv_query sv s of
        (None, s) \<Rightarrow> (None, s)
      | (Some msg, s) \<Rightarrow>
        (case answer_request sv msg s of
           (Inr True, s) \<Rightarrow> client_loop sv rounds s
         | (Inr False, s) \<Rightarrow> (None, s)
         | (Inl f, s) \<Rightarrow> (Some f, s)))"

definition handle_client :: "'d services \<Rightarrow> nat \<Rightarrow> 'd session \<Rightarrow> failure option \<times> 'd session" where
  "handle_client sv rounds s =
     (case client_loop sv rounds s of
        (Some f, s) \<Rightarrow> (Some f, s)
      | (None, s) \<Rightarrow>
          if ss_txn_started s then
            (case sv_rollback sv (ss_db s) of
               Inr d \<Rightarrow> (None, s\<lparr>ss_db := d\<rparr>)
             | Inl (Raise _) \<Rightarrow> (None, s)
             | Inl f \<Rightarrow> (Some f, s))
          else (None, s))"

definition session_start :: "recv_event list \<Rightarrow> send_event list \<Rightarrow> log_level \<Rightarrow> 'd \<Rightarrow> 'd session" where
  "session_start evs sends lvl d =
     \<lparr>ss_in = evs, ss_sends = sends, ss_out = [], ss_db = d, ss_in_txn = False,
      ss_txn_started = False, ss_msg_level = INFO, ss_schema = ''public'', ss_log_level = lvl\<rparr>"

section \<open>What answering leaves alone\<close>

named_theorems sess_simps \<open>fields of a session after sending\<close>

lemma ss_send_fields [sess_simps]:
  "ss_db (snd (ss_send t b s)) = ss_db s" "ss_in_txn (snd (ss_send t b s)) = ss_in_txn s"
  "ss_txn_started (snd (ss_send t b s)) = ss_txn_started s" "ss_in (snd (ss_send t b s)) = ss_in s"
  "ss_msg_level (snd (ss_send t b s)) = ss_msg_level s" "ss_schema (snd (ss_send t b s)) = ss_schema s"
  by (simp_all add: ss_send_def split: prod.split)

lemma send_error_fields [sess_simps]:
  "ss_db (send_error sv c m s) = ss_db s" "ss_in_txn (send_error sv c m s) = ss_in_txn s"
  "ss_txn_started (send_error sv c m s) = ss_txn_started s" "ss_in (send_error sv c m s) = ss_in s"
  by (simp_all add: send_error_def sess_simps)

lemma send_notice_fields [sess_simps]:
  "ss_db (send_notice sv l m s) = ss_db s" "ss_in_txn (send_notice sv l m s) = ss_in_txn s"
  "ss_txn_started (send_notice sv l m s) = ss_txn_started s" "ss_in (send_notice sv l m s) = ss_in s"
  "ss_schema (send_notice sv l m s) = ss_schema s"
  by (simp_all add: send_notice_def sess_simps)

lemma reply_set_fields [sess_simps]:
  "ss_db (reply_set sv v m s) = ss_db s" "ss_in_txn (reply_set sv v m s) = ss_in_txn s"
  "ss_txn_started (reply_set sv v m s) = ss_txn_started s" "ss_in (reply_set sv v m s) = ss_in s"
  by (simp_all add: reply_set_def sess_simps)

definition txn_fields :: "'d session \<Rightarrow> 'd \<times> bool \<times> bool" where
  "txn_fields s = (ss_db s, ss_in_txn s, ss_txn_started s)"

lemma txn_fields_sent [sess_simps]:
  "txn_fields (snd (ss_send t b s)) = txn_fields s" "txn_fields (send_error sv c m s) = txn_fields s"
  "txn_fields (send_notice sv l x s) = txn_fields s" "txn_fields (reply_set sv v y s) = txn_fields s"
  by (simp_all add: txn_fields_def sess_simps)

lemma ss_send_pair: "ss_send t b s = (ok, s') \<Longrightarrow> txn_fields s' = txn_fields s"
  using txn_fields_sent(1)[of t b s] by simp

lemma send_rows_fields: "send_rows rows fin batch n s = (r, s') \<Longrightarrow> txn_fields s' = txn_fields s"
  by (induction rows fin batch n s arbitrary: r s' rule: send_rows.induct)
     (auto simp: Let_def dest: ss_send_pair split: sum.splits if_splits prod.splits bool.splits)

lemma send_result_stream_fields:
  "send_result_stream sv result s = (r, s') \<Longrightarrow> txn_fields s' = txn_fields s"
  unfolding send_result_stream_def
  by (auto simp: Let_def sess_simps dest!: ss_send_pair send_rows_fields
           split: prod.splits bool.splits sum.splits option.splits if_splits)

lemma reply_result_fields: "reply_result sv result s = (r, s') \<Longrightarrow> txn_fields s' = txn_fields s"
  by (auto simp: reply_result_def Let_def sess_simps dest: send_result_stream_fields split: if_splits)

lemma handle_session_set_fields:
  "handle_session_set sv var val form s = (b, s') \<Longrightarrow> txn_fields s' = txn_fields s"
  by (auto simp: handle_session_set_def Let_def sess_simps txn_fields_def split: if_splits option.splits)

lemma recv_query_fields: "recv_query sv s = (r, s') \<Longrightarrow> txn_fields s' = txn_fields s"
  by (auto simp: recv_query_def Let_def sess_simps txn_fields_def split: if_splits option.splits prod.splits)

section \<open>Sessions over a transactional database\<close>

text \<open>
  What a session needs of the database: \<^verbatim>\<open>calm v d\<close> is a database outside transactions that shows
  \<^verbatim>\<open>v\<close>, \<^verbatim>\<open>inside v d\<close> one inside a transaction that began at \<^verbatim>\<open>v\<close>.
\<close>

locale txn_db =
  fixes calm :: "'v \<Rightarrow> 'd \<Rightarrow> bool"
    and inside :: "'v \<Rightarrow> 'd \<Rightarrow> bool"
    and shown :: "'d \<Rightarrow> 'v"
    and db_begin :: "'d \<Rightarrow> 'd res"
    and db_commit :: "'d \<Rightarrow> 'd res"
    and db_rollback :: "'d \<Rightarrow> 'd res"
  assumes begin_within: "calm v d \<Longrightarrow> \<exists>d'. db_begin d = Inr d' \<and> inside v d'"
    and commit_calm: "inside v d \<Longrightarrow> \<exists>d'. db_commit d = Inr d' \<and> calm (shown d) d'"
    and rollback_calm: "inside v d \<Longrightarrow> \<exists>d'. db_rollback d = Inr d' \<and> calm v d'"

text \<open>The state of a session between requests, on a database whose committed state is \<^verbatim>\<open>v\<close>.\<close>

definition sess_at :: "('v \<Rightarrow> 'd \<Rightarrow> bool) \<Rightarrow> ('v \<Rightarrow> 'd \<Rightarrow> bool) \<Rightarrow> 'v \<Rightarrow> 'd session \<Rightarrow> bool" where
  "sess_at calm inside v s \<longleftrightarrow>
     (if ss_txn_started s then ss_in_txn s \<and> inside v (ss_db s) else calm v (ss_db s))"

lemma sess_at_fields: "txn_fields s = txn_fields s' \<Longrightarrow> sess_at c w v s = sess_at c w v s'"
  by (simp add: sess_at_def txn_fields_def)

lemma sess_at_sent [sess_simps]:
  "sess_at c w v (snd (ss_send t b s)) = sess_at c w v s" "sess_at c w v (send_error sv e m s) = sess_at c w v s"
  "sess_at c w v (send_notice sv l x s) = sess_at c w v s" "sess_at c w v (reply_set sv y z s) = sess_at c w v s"
  by (rule sess_at_fields, simp add: sess_simps)+

text \<open>The transactions of a service are those of the database.\<close>

definition transacts :: "('d \<Rightarrow> 'd res) \<Rightarrow> ('d \<Rightarrow> 'd res) \<Rightarrow> ('d \<Rightarrow> 'd res) \<Rightarrow> 'd services \<Rightarrow> bool" where
  "transacts b c r sv \<longleftrightarrow> sv_begin sv = b \<and> sv_commit sv = c \<and> sv_rollback sv = r"

context txn_db
begin

lemma rollback_session:
  assumes "transacts db_begin db_commit db_rollback sv" and "sess_at calm inside v s"
  shows "\<exists>d. rollback_session_txn sv s = (None, s\<lparr>ss_db := d, ss_txn_started := False, ss_in_txn := False\<rparr>) \<and> calm v d"
proof (cases "ss_txn_started s")
  case True
  then show ?thesis
    using assms rollback_calm[of v "ss_db s"]
    by (auto simp: rollback_session_txn_def transacts_def sess_at_def)
next
  case False
  then show ?thesis
    using assms by (intro exI[of _ "ss_db s"]) (simp add: rollback_session_txn_def sess_at_def)
qed

lemma txn_control:
  assumes sv: "transacts db_begin db_commit db_rollback sv" and at: "sess_at calm inside v s"
  shows "\<exists>s' v'. handle_txn_control sv kind s = (None, s') \<and> sess_at calm inside v' s' \<and>
           (v' = v \<or> kind = KCommit \<and> ss_txn_started s \<and> v' = shown (ss_db s))"
proof (cases "kind = KBegin \<or> \<not> ss_in_txn s")
  case True
  then show ?thesis
    using at rollback_session[OF sv at]
    by (auto simp: handle_txn_control_def sess_simps sess_at_def)
next
  case False
  let ?s = "s\<lparr>ss_in_txn := False, ss_txn_started := False\<rparr>"
  show ?thesis
  proof (cases "ss_txn_started s")
    case True
    then have w: "inside v (ss_db s)" using at by (simp add: sess_at_def)
    show ?thesis
      using False True sv commit_calm[OF w] rollback_calm[OF w]
      by (auto simp: handle_txn_control_def transacts_def Let_def sess_simps sess_at_def)
  next
    case no: False
    then show ?thesis
      using False at by (auto simp: handle_txn_control_def Let_def sess_simps sess_at_def)
  qed
qed

lemma opens:
  assumes sv: "transacts db_begin db_commit db_rollback sv" and at: "sess_at calm inside v s"
  shows "\<exists>d. open_txn sv s = (None, s\<lparr>ss_db := d, ss_txn_started := ss_in_txn s\<rparr>) \<and> inside v d"
proof (cases "ss_txn_started s")
  case True
  then have "open_txn sv s = (None, s)" "s = s\<lparr>ss_db := ss_db s, ss_txn_started := ss_in_txn s\<rparr>"
    using at by (simp_all add: open_txn_def sess_at_def)
  then show ?thesis using True at by (metis sess_at_def)
next
  case False
  then show ?thesis
    using begin_within[of v "ss_db s"] sv at by (auto simp: open_txn_def transacts_def sess_at_def)
qed

lemma rollback_open:
  assumes "sv_rollback sv = db_rollback" "ss_txn_started s" "inside v (ss_db s)"
  shows "\<exists>d. sv_rollback sv (ss_db s) = Inr d \<and> calm v d \<and>
    rollback_session_txn sv s = (None, s\<lparr>ss_db := d, ss_txn_started := False, ss_in_txn := False\<rparr>)"
  using rollback_calm [OF assms(3)] assms(1,2) by (auto simp: rollback_session_txn_def)

end

section \<open>The engine behind a session\<close>

text \<open>
  \<^verbatim>\<open>Catalog::begin_txn\<close>, \<^verbatim>\<open>commit_txn\<close> and \<^verbatim>\<open>rollback_txn\<close>. The global lock is held from begin to the
  end of the transaction, so the steps of one transaction are not interleaved with another's; a
  commit is followed by a checkpoint when the log has grown to the configured threshold.
\<close>

definition catalog_begin_txn :: "engine \<Rightarrow> engine res" where
  "catalog_begin_txn e = begin_txn e"

definition catalog_commit_txn :: "u64 \<Rightarrow> engine \<Rightarrow> engine res" where
  "catalog_commit_txn wal_checkpoint_bytes e =
     rbind (commit_txn e) (\<lambda>e.
       if wal_bytes_since_reset (bp_wal (en_store e)) \<ge> wal_checkpoint_bytes then checkpoint e else Inr e)"

definition catalog_rollback_txn :: "engine \<Rightarrow> engine res" where
  "catalog_rollback_txn e = rollback_txn e"

definition calm_engine :: "pages \<Rightarrow> engine \<Rightarrow> bool" where
  "calm_engine st e \<longleftrightarrow> bp_txn (en_store e) = None \<and> pool_ok (en_store e) \<and>
     page_view (en_store e) = st \<and> logged_view (en_store e) = st"

text \<open>Inside a transaction: page operations since its start, with every page edit logged.\<close>

definition inside_engine :: "pages \<Rightarrow> engine \<Rightarrow> bool" where
  "inside_engine st e \<longleftrightarrow>
     (\<exists>s0 t cs. pool_ok s0 \<and> bp_txn s0 = Some t \<and> t = new_txn (tc_txn_id t) \<and> logged_view s0 = st \<and>
        txn_run s0 cs (en_store e) \<and> page_view (en_store e) = logged_view (en_store e))"

lemma inside_trace:
  assumes "inside_engine st e"
  obtains s0 t cs u where "pool_ok s0" "bp_txn s0 = Some t" "tc_undo t = []" "logged_view s0 = st"
    "txn_trace s0 cs (en_store e)" "page_view (en_store e) = logged_view (en_store e)"
    "bp_txn (en_store e) = Some u" "tc_pending_drops u = []" "pool_ok (en_store e)"
proof -
  obtain s0 t cs where a: "pool_ok s0" "bp_txn s0 = Some t" "t = new_txn (tc_txn_id t)" "logged_view s0 = st"
    "txn_run s0 cs (en_store e)" "page_view (en_store e) = logged_view (en_store e)"
    using assms by (auto simp: inside_engine_def)
  have n: "tc_undo t = []" "tc_pending_drops t = []" by (subst a(3), simp add: new_txn_def)+
  have tr: "txn_trace s0 cs (en_store e)" using run_traces[OF a(5,1,2)] .
  then obtain u where "bp_txn (en_store e) = Some u" "tc_pending_drops u = []" "pool_ok (en_store e)"
    using a(2) n(2) by (auto simp: txn_trace_def)
  then show ?thesis using that a n tr by blast
qed

lemma calm_begin:
  assumes "calm_engine st e"
  shows "\<exists>e'. begin_txn e = Inr e' \<and> inside_engine st e'"
proof -
  obtain i w where w: "wal_alloc_txn_id (bp_wal (en_store e)) = (i, w)" by fastforce
  let ?s = "(en_store e)\<lparr>bp_wal := w, bp_txn := Some (new_txn i)\<rparr>"
  have s: "pool_ok ?s" "logged_view ?s = st" "page_view ?s = logged_view ?s"
    using assms by (simp_all add: calm_engine_def)
  have "inside_engine st (e\<lparr>en_store := ?s\<rparr>)"
    unfolding inside_engine_def
    by (rule exI[of _ ?s], rule exI[of _ "new_txn i"], rule exI[of _ "[]"])
       (use s in \<open>simp add: run_start new_txn_def\<close>)
  then show ?thesis using assms w by (simp add: begin_txn_def calm_engine_def)
qed

lemma calm_checkpoint:
  assumes "calm_engine st e"
  shows "\<exists>e'. checkpoint e = Inr e' \<and> calm_engine st e'"
proof -
  let ?s = "en_store e"
  have a: "pool_ok ?s" "page_view ?s = logged_view ?s" "bp_txn ?s = None" "logged_view ?s = st"
    using assms by (auto simp: calm_engine_def)
  obtain s1 where s1: "pool_flush_all ?s = Inr s1" "pool_ok s1" "same_outside ?s s1"
    using write_back_all_ok[OF a(1,2), of "[0..<length (bp_frames ?s)]"]
    by (auto simp: pool_flush_all_def lessThan_atLeast0)
  then have "calm_engine st (e\<lparr>en_store := s1\<lparr>bp_wal := wal_reset (bp_wal s1)\<rparr>\<rparr>)"
    using a by (simp add: calm_engine_def same_outside_def)
  then show ?thesis using s1(1) a(3) by (simp add: checkpoint_def)
qed

lemma inside_commit:
  assumes "inside_engine st e"
  shows "\<exists>e'. catalog_commit_txn thr e = Inr e' \<and> calm_engine (page_view (en_store e)) e'"
proof -
  obtain u where u: "bp_txn (en_store e) = Some u" "tc_pending_drops u = []" "pool_ok (en_store e)"
    "page_view (en_store e) = logged_view (en_store e)"
    using assms by (rule inside_trace)
  obtain e1 where e1: "commit_txn e = Inr e1" "calm_engine (page_view (en_store e)) e1"
    using commit_view[OF u(1,2)] u(3,4) by (auto simp: calm_engine_def)
  then show ?thesis
    using calm_checkpoint[OF e1(2)] by (auto simp: catalog_commit_txn_def)
qed

lemma inside_rollback:
  assumes "inside_engine st e"
  shows "\<exists>e'. catalog_rollback_txn e = Inr e' \<and> calm_engine st e'"
  using assms
proof (rule inside_trace)
  fix s0 t cs u
  assume "pool_ok s0" "bp_txn s0 = Some t" "tc_undo t = []" "logged_view s0 = st"
    "txn_trace s0 cs (en_store e)" "page_view (en_store e) = logged_view (en_store e)"
  then show ?thesis
    using rollback_pages[of s0 t cs "en_store e" e]
    by (auto simp: catalog_rollback_txn_def calm_engine_def)
qed

interpretation engine_db: txn_db calm_engine inside_engine "\<lambda>e. page_view (en_store e)"
  catalog_begin_txn "catalog_commit_txn thr" catalog_rollback_txn for thr
  by unfold_locales (simp_all add: catalog_begin_txn_def calm_begin inside_commit inside_rollback)

section \<open>Sessions and transactions\<close>

lemma history_inside:
  assumes "history n e st" "begin_txn e = Inr e0" "txn_run (en_store e0) cs (en_store e1)" "page_view (en_store e1) = logged_view (en_store e1)"
  shows "inside_engine st e1"
proof -
  obtain st0 "done" t where b: "durable st0 done (en_store e0)" "bp_txn (en_store e0) = Some t" "t = new_txn (wal_next_txn_id (bp_wal (en_store e)))"
    "logged_view (en_store e0) = st"
    using begin_view [OF history_settled [OF assms(1)] assms(2)] by blast
  then have "pool_ok (en_store e0)" "t = new_txn (tc_txn_id t)" by (simp_all add: durable_def new_txn_def)
  then show ?thesis using b(2,4) assms(3,4) by (auto simp: inside_engine_def)
qed

definition demo_services :: "engine services" where
  "demo_services = \<lparr>sv_wording = (\<lambda>_. []),
     sv_parse = (\<lambda>msg. if msg = [66] then Inr (Some BeginStmt) else if msg = [83] then Inr (Some (DropTableStmt \<lparr>qn_schema = [], qn_name = ''t''\<rparr>)) else Inl [33]),
     sv_bootstrap_mode = (\<lambda>_. False), sv_begin = catalog_begin_txn, sv_commit = catalog_commit_txn 1000,
     sv_rollback = catalog_rollback_txn, sv_execute = (\<lambda>stmt sch d. (Inl (Raise TableNotFound), d))\<rparr>"

lemma demo_calm: "calm_engine (\<lambda>_. replicate PAGE_SIZE 0) demo_engine"
  using history_settled[OF demo_history] by (auto simp: settled_def durable_def calm_engine_def)

lemma demo_frames:
  "recv_frame MAX_REQUEST_PAYLOAD [RecvData [0, 0, 0, 2, 1, 66], RecvData [0, 0, 0, 2]] = (Some (1, [66]), [RecvData [0, 0, 0, 2]])"
  "recv_frame MAX_REQUEST_PAYLOAD [RecvData [0, 0, 0, 2]] = (None, [])"
  by (simp_all add: recv_frame_def FRAME_HEADER_SIZE_def ntohl_def shift_in_def MAX_REQUEST_PAYLOAD_def)

lemma demo_inside:
  "\<exists>cs (e1 :: engine). txn_run (en_store demo_start) cs (en_store e1) \<and> page_view (en_store e1) = logged_view (en_store e1) \<and>
     page_view (en_store e1) demo_pid = demo_data"
proof -
  obtain cs s where r: "txn_run (en_store demo_start) cs s" "page_view s = logged_view s" "page_view s = (\<lambda>_. replicate PAGE_SIZE 0)(demo_pid := demo_data)"
    using demo_runs by blast
  have "page_view s demo_pid = demo_data" unfolding r(3) by simp
  with r(1,2) show ?thesis by (intro exI [of _ cs] exI [of _ "demo_start\<lparr>en_store := s\<rparr>"]) simp
qed

text \<open>
  C4. A client that goes away inside an explicit transaction (it disconnects, its frame is cut or is
  not a request, or it says \<^verbatim>\<open>quit\<close>) leaves nothing behind. After any committed history, a begin and
  any page operations of the transaction, the session rolls it back: every page is as it was at the
  begin, no transaction is open, so the single-writer engine is free for the next session, and
  nothing is sent after the end.
\<close>

theorem disconnect_rolls_back:
  assumes "history n e st" "begin_txn e = Inr e0" "txn_run (en_store e0) cs (en_store e1)" "page_view (en_store e1) = logged_view (en_store e1)"
    and "sv_rollback sv = catalog_rollback_txn" "ss_db s = e1" "ss_txn_started s" "fst (recv_query sv s) = None"
  shows "\<exists>s' e2. handle_client sv (Suc rounds) s = (None, s') \<and> rollback_txn e1 = Inr e2 \<and> ss_db s' = e2 \<and>
    page_view (en_store e2) = st \<and> bp_txn (en_store e2) = None \<and> ss_out s' = ss_out (snd (recv_query sv s))"
proof -
  obtain s1 where q: "recv_query sv s = (None, s1)" using assms(8) by (cases "recv_query sv s") auto
  then have f: "txn_fields s1 = txn_fields s" by (rule recv_query_fields)
  have "\<exists>d. sv_rollback sv (ss_db s1) = Inr d \<and> calm_engine st d"
    using engine_db.rollback_open [OF assms(5), of s1 st] history_inside [OF assms(1-4)] f assms(6,7)
    by (auto simp: txn_fields_def)
  then show ?thesis using q f assms(5-7) by (auto simp: handle_client_def txn_fields_def calm_engine_def catalog_rollback_txn_def)
qed

theorem disconnect_rolls_back_witness:
  "\<exists>(e1 :: engine) s'. page_view (en_store e1) demo_pid = demo_data \<and>
     handle_client demo_services 1 ((session_start [RecvData [0, 0, 0, 2]] [] INFO e1)\<lparr>ss_in_txn := True, ss_txn_started := True\<rparr>) = (None, s') \<and>
     page_view (en_store (ss_db s')) = (\<lambda>_. replicate PAGE_SIZE 0)"
proof -
  obtain cs and e1 :: engine where e1: "txn_run (en_store demo_start) cs (en_store e1)" "page_view (en_store e1) = logged_view (en_store e1)"
    "page_view (en_store e1) demo_pid = demo_data"
    using demo_inside by blast
  let ?s = "(session_start [RecvData [0, 0, 0, 2]] [] INFO e1)\<lparr>ss_in_txn := True, ss_txn_started := True\<rparr>"
  have "fst (recv_query demo_services ?s) = None" by (simp add: recv_query_def session_start_def demo_frames)
  then have "\<exists>s' e2. handle_client demo_services (Suc 0) ?s = (None, s') \<and> rollback_txn e1 = Inr e2 \<and> ss_db s' = e2 \<and>
    page_view (en_store e2) = (\<lambda>_. replicate PAGE_SIZE 0) \<and> bp_txn (en_store e2) = None \<and> ss_out s' = ss_out (snd (recv_query demo_services ?s))"
    by (intro disconnect_rolls_back [OF demo_history demo_begins(1) e1(1,2)]) (simp_all add: demo_services_def session_start_def)
  then show ?thesis using e1(3) by auto
qed




text \<open>
  \<^verbatim>\<open>COMMIT\<close>, \<^verbatim>\<open>ROLLBACK\<close> and a nested \<^verbatim>\<open>BEGIN\<close> inside an open transaction. After any committed history,
  a begin and any page operations: a commit (with the checkpoint it may trigger) keeps exactly the pages
  the transaction shows, a rollback and a nested begin bring back the pages at its begin; in every
  case the session is outside the transaction, the engine has none, and no page edit is unlogged.
\<close>

theorem transaction_control:
  assumes "history n e st" "begin_txn e = Inr e0" "txn_run (en_store e0) cs (en_store e1)" "page_view (en_store e1) = logged_view (en_store e1)"
    and "transacts catalog_begin_txn (catalog_commit_txn thr) catalog_rollback_txn sv" "\<not> sv_bootstrap_mode sv e1"
    and "ss_db s = e1" "ss_in_txn s" "ss_txn_started s" "kind \<in> {KBegin, KCommit, KRollback}"
  shows "\<exists>s'. handle_txn_control sv kind s = (None, s') \<and> \<not> ss_in_txn s' \<and> \<not> ss_txn_started s' \<and>
    bp_txn (en_store (ss_db s')) = None \<and>
    page_view (en_store (ss_db s')) = (if kind = KCommit then page_view (en_store e1) else st) \<and>
    logged_view (en_store (ss_db s')) = page_view (en_store (ss_db s'))"
proof -
  have i: "inside_engine st e1" by (rule history_inside [OF assms(1-4)])
  note sv = assms(5) [unfolded transacts_def]
  show ?thesis
    using engine_db.rollback_open [of sv s st] engine_db.rollback_calm [OF i] engine_db.commit_calm [OF i, of thr] assms(6-10) i sv
    by (fastforce simp: handle_txn_control_def Let_def sess_simps calm_engine_def)
qed

theorem transaction_control_witness:
  "\<exists>(e1 :: engine) s'. page_view (en_store e1) demo_pid = demo_data \<and>
     handle_txn_control demo_services KCommit ((session_start [] [] INFO e1)\<lparr>ss_in_txn := True, ss_txn_started := True\<rparr>) = (None, s') \<and>
     \<not> ss_in_txn s' \<and> page_view (en_store (ss_db s')) demo_pid = demo_data"
proof -
  obtain cs and e1 :: engine where e1: "txn_run (en_store demo_start) cs (en_store e1)" "page_view (en_store e1) = logged_view (en_store e1)"
    "page_view (en_store e1) demo_pid = demo_data"
    using demo_inside by blast
  let ?s = "(session_start [] [] INFO e1)\<lparr>ss_in_txn := True, ss_txn_started := True\<rparr>"
  have "\<exists>s'. handle_txn_control demo_services KCommit ?s = (None, s') \<and> \<not> ss_in_txn s' \<and> \<not> ss_txn_started s' \<and>
    bp_txn (en_store (ss_db s')) = None \<and>
    page_view (en_store (ss_db s')) = (if KCommit = KCommit then page_view (en_store e1) else (\<lambda>_. replicate PAGE_SIZE 0)) \<and>
    logged_view (en_store (ss_db s')) = page_view (en_store (ss_db s'))"
    by (rule transaction_control [OF demo_history demo_begins(1) e1(1,2), where thr = 1000])
      (simp_all add: demo_services_def session_start_def transacts_def)
  then show ?thesis using e1(3) by auto
qed

end
