(* ===== verification/Client.thy ===== *)
theory Client
  imports Session
begin

text \<open>
  The client side, src/client/client.cpp and render.cpp: accumulating a statement, sending it,
  reading the answer, and the texts of cells and commands. The printing of tables to the terminal,
  readline and the scanner that finds the end of a statement are not part of the model. The second
  half composes both sides: what a session writes for a request is what the client reads.
\<close>

section \<open>Texts of cells\<close>

text \<open>One pass of long division by ten over the bytes, from the most significant on.\<close>

fun div10 :: "nat \<Rightarrow> bytes \<Rightarrow> bytes \<times> nat" where
  "div10 carry [] = ([], carry)"
| "div10 carry (b # bs) =
     (let cur = carry * 256 + unat b; (q, r) = div10 (cur mod 10) bs
      in (word_of_nat (cur div 10) # q, r))"

lemma div10_value:
  "c < 10 \<Longrightarrow> div10 c bs = (q, r) \<Longrightarrow>
   length q = length bs \<and> r < 10 \<and> c * 256 ^ length bs + be_val bs = 10 * be_val q + r"
proof (induction c bs arbitrary: q r rule: div10.induct)
  case (2 c b bs)
  let ?cur = "c * 256 + unat b"
  obtain q1 r1 where d: "div10 (?cur mod 10) bs = (q1, r1)" by fastforce
  have ih: "length q1 = length bs" "r1 < 10" "(?cur mod 10) * 256 ^ length bs + be_val bs = 10 * be_val q1 + r1"
    using "2.IH"[OF refl _ d] by auto
  have q: "q = word_of_nat (?cur div 10) # q1" "r = r1" using "2.prems"(2) d by (auto simp: Let_def)
  have "unat b < 256" by (rule unat_byte_less)
  then have "?cur < 2560" using "2.prems"(1) by linarith
  then have u: "unat (word_of_nat (?cur div 10) :: byte) = ?cur div 10" by (simp add: unat_of_nat)
  have "c * 256 ^ length (b # bs) + be_val (b # bs) = ?cur * 256 ^ length bs + be_val bs"
    by (simp add: le_val_append algebra_simps)
  also have "\<dots> = (10 * (?cur div 10) + ?cur mod 10) * 256 ^ length bs + be_val bs" by simp
  also have "\<dots> = 10 * (?cur div 10) * 256 ^ length bs + ((?cur mod 10) * 256 ^ length bs + be_val bs)"
    by (simp only: distrib_right add.assoc)
  also have "\<dots> = 10 * (?cur div 10) * 256 ^ length bs + (10 * be_val q1 + r1)" by (simp only: ih(3))
  also have "\<dots> = 10 * be_val q + r" using ih(1) u by (simp add: q le_val_append algebra_simps)
  finally show ?case using ih q by simp
qed auto

lemma zero_bytes: "be_val b = 0 \<longleftrightarrow> list_all (\<lambda>x. x = 0) b"
  by (induction b) (auto simp: le_val_append unat_eq_zero)

text \<open>The digits, lowest first, until all bytes are zero.\<close>

function collect_digits :: "bytes \<Rightarrow> string" where
  "collect_digits b =
     (if list_all (\<lambda>x. x = 0) b then []
      else case div10 0 b of (q, r) \<Rightarrow> digit_char r # collect_digits q)"
  by auto
termination
proof (relation "measure be_val")
  fix b q :: bytes and r
  assume nz: "\<not> list_all (\<lambda>x. x = 0) b" and x: "(q, r) = div10 0 b"
  have "be_val b \<noteq> 0" using nz by (simp add: zero_bytes)
  moreover have "be_val b = 10 * be_val q + r" using div10_value[of 0 b q r] x by simp
  ultimately show "(q, b) \<in> measure be_val" by auto
qed auto

declare collect_digits.simps [simp del]

definition decimal_text :: "bytes \<Rightarrow> u8 \<Rightarrow> string" where
  "decimal_text bs scale =
     (let neg = (bs ! 0 AND 0x80 \<noteq> 0);
          b = (if neg then rev (negate_bytes True (rev bs)) else bs);
          low = collect_digits b;
          digits0 = rev (if low = [] then ''0'' else low);
          sc = unat scale;
          digits = (if length digits0 \<le> sc then replicate (sc - length digits0 + 1) (CHR ''0'') @ digits0
                    else digits0)
      in if sc = 0 then (if neg then ''-'' @ digits0 else digits0)
         else (if neg then ''-'' else []) @ take (length digits - sc) digits @ ''.'' @
              drop (length digits - sc) digits)"

fun cell_text :: "cell_val \<Rightarrow> string" where
  "cell_text (CellInt i) = int_text (sint i)"
| "cell_text (CellDouble d) = format_float F64 d"
| "cell_text (CellFloat f) = format_float F32 f"
| "cell_text (CellString s) = map char_of_byte s"
| "cell_text (CellDecimal bs sc) = decimal_text bs sc"
| "cell_text (CellBool b) = (if b then ''true'' else ''false'')"
| "cell_text CellNull = ''NULL''"

fun command_display :: "command_tag \<Rightarrow> u64 \<Rightarrow> string" where
  "command_display TagCreateTable n = ''CREATE''"
| "command_display TagDropTable n = ''DROP''"
| "command_display TagCreateSchema n = ''CREATE''"
| "command_display TagDropSchema n = ''DROP''"
| "command_display TagCreateIndex n = ''CREATE''"
| "command_display TagDropIndex n = ''DROP''"
| "command_display TagInsert n = ''INSERT '' @ nat_text (unat n)"
| "command_display TagDelete n = ''DELETE '' @ nat_text (unat n)"
| "command_display TagUpdate n = ''UPDATE '' @ nat_text (unat n)"
| "command_display TagSet n = ''SET''"
| "command_display TagBegin n = ''BEGIN''"
| "command_display TagCommit n = ''COMMIT''"
| "command_display TagRollback n = ''ROLLBACK''"
| "command_display TagEmpty n = []"

section \<open>Receiving an answer\<close>

text \<open>How the reading of a result set ends.\<close>

datatype stream_end =
    StreamDone result_set | StreamLost | StreamBadRows | StreamFailed bytes | StreamBadError
  | StreamBadNotice | StreamUnknown u8

lemma recv_frame_shorter:
  assumes "recv_frame m evs = (Some (t, body), evs')"
  shows "length (recv_stream evs') < length (recv_stream evs)"
proof -
  have p: "parse_frame m (recv_stream evs) = Some (t, body)"
    using recv_frame_stream(1)[OF assms] by metis
  then have "4 \<le> length (recv_stream evs)" "\<not> ntohl (take 4 (recv_stream evs)) < 1"
    "4 + unat (ntohl (take 4 (recv_stream evs))) \<le> length (recv_stream evs)"
    by (auto simp: Let_def split: if_splits)
  moreover have "recv_stream evs' = drop (5 + length body) (recv_stream evs)" using recv_frame_stream(2)[OF assms] by simp
  moreover have "0 < unat (ntohl (take 4 (recv_stream evs)))"
    using calculation(2) by (simp add: word_less_nat_alt)
  ultimately show ?thesis by simp
qed

text \<open>
  \<^verbatim>\<open>recv_result_stream\<close>: the printed notices are collected. Every frame takes bytes off the stream, so
  the loop ends.
\<close>

function recv_result_stream ::
  "result_set \<Rightarrow> (u8 \<times> bytes) list \<Rightarrow> recv_event list \<Rightarrow> stream_end \<times> (u8 \<times> bytes) list \<times> recv_event list" where
  "recv_result_stream rs msgs evs =
     (case recv_frame 0 evs of
        (None, evs) \<Rightarrow> (StreamLost, msgs, evs)
      | (Some (t, b), evs) \<Rightarrow>
          if t = msg_code ResultSetBatch then
            (case decode_rs_batch b (word_of_nat (length (rs_cols rs))) rs of
               (True, rs) \<Rightarrow> recv_result_stream rs msgs evs
             | (False, rs) \<Rightarrow> (StreamBadRows, msgs, evs))
          else if t = msg_code ResultSetEnd then
            (case decode_rs_end b of
               Some sent \<Rightarrow> if unat sent = length (rs_rows rs) then (StreamDone rs, msgs, evs)
                         else (StreamBadRows, msgs, evs)
             | None \<Rightarrow> (StreamBadRows, msgs, evs))
          else if t = msg_code Error then
            (case decode_error b of
               Some (code, text) \<Rightarrow> (StreamFailed text, msgs, evs)
             | None \<Rightarrow> (StreamBadError, msgs, evs))
          else if t = msg_code Notice then
            (case decode_notice b of
               Some note \<Rightarrow> recv_result_stream rs (msgs @ [note]) evs
             | None \<Rightarrow> (StreamBadNotice, msgs, evs))
          else (StreamUnknown t, msgs, evs))"
  by auto
termination
  by (relation "measure (\<lambda>(rs, msgs, evs). length (recv_stream evs))") (auto dest: recv_frame_shorter[OF sym])

declare recv_result_stream.simps [simp del]

text \<open>What the client makes of the answer to a statement.\<close>

datatype answer =
    AnsLost | AnsBadNotice | AnsError bytes | AnsBadError | AnsCommand command_tag u64
  | AnsBadCommand | AnsBadHead | AnsStream stream_end | AnsUnknown u8

definition answer_failed :: "answer \<Rightarrow> bool" where
  "answer_failed a \<longleftrightarrow>
     (case a of AnsCommand _ _ \<Rightarrow> False | AnsStream (StreamDone _) \<Rightarrow> False | _ \<Rightarrow> True)"

definition take_answer ::
  "u8 \<Rightarrow> bytes \<Rightarrow> (u8 \<times> bytes) list \<Rightarrow> recv_event list \<Rightarrow> answer \<times> (u8 \<times> bytes) list \<times> recv_event list" where
  "take_answer t body msgs evs =
     (if t = msg_code Error then
        (case decode_error body of
           Some (code, text) \<Rightarrow> (AnsError text, msgs, evs)
         | None \<Rightarrow> (AnsBadError, msgs, evs))
      else if t = msg_code Ok then
        (case decode_command body of
           Some (ctag, count) \<Rightarrow> (AnsCommand ctag count, msgs, evs)
         | None \<Rightarrow> (AnsBadCommand, msgs, evs))
      else if t = msg_code ResultSetHead then
        (case decode_rs_head body of
           None \<Rightarrow> (AnsBadHead, msgs, evs)
         | Some cols \<Rightarrow>
             (case recv_result_stream \<lparr>rs_cols = cols, rs_rows = []\<rparr> msgs evs of
                (e, msgs, evs) \<Rightarrow> (AnsStream e, msgs, evs)))
      else (AnsUnknown t, msgs, evs))"

function recv_answer ::
  "(u8 \<times> bytes) list \<Rightarrow> recv_event list \<Rightarrow> answer \<times> (u8 \<times> bytes) list \<times> recv_event list" where
  "recv_answer msgs evs =
     (case recv_frame 0 evs of
        (None, evs) \<Rightarrow> (AnsLost, msgs, evs)
      | (Some (t, body), evs) \<Rightarrow>
          if t \<noteq> msg_code Notice then take_answer t body msgs evs
          else case decode_notice body of
                 Some note \<Rightarrow> recv_answer (msgs @ [note]) evs
               | None \<Rightarrow> (AnsBadNotice, msgs, evs))"
  by auto
termination
  by (relation "measure (\<lambda>(msgs, evs). length (recv_stream evs))") (auto dest: recv_frame_shorter[OF sym])

declare recv_answer.simps [simp del]

section \<open>Sending a statement\<close>

definition SQL_BUFFER_LIMIT :: nat where
  "SQL_BUFFER_LIMIT = 268435456"

record client =
  cl_in :: "recv_event list"
  cl_sends :: "send_event list"
  cl_out :: bytes
  cl_buffer :: bytes
  cl_overflow :: bool
  cl_failed :: bool
  cl_answers :: "answer list"

definition append_to_sql :: "bytes \<Rightarrow> client \<Rightarrow> client" where
  "append_to_sql text c =
     (if cl_overflow c then c
      else if length (cl_buffer c) + length text > SQL_BUFFER_LIMIT then
        c\<lparr>cl_buffer := [], cl_overflow := True, cl_failed := True\<rparr>
      else c\<lparr>cl_buffer := cl_buffer c @ text\<rparr>)"

definition reset_sql_buffer :: "client \<Rightarrow> client" where
  "reset_sql_buffer c = c\<lparr>cl_buffer := [], cl_overflow := False\<rparr>"

definition send_to_server :: "client \<Rightarrow> client" where
  "send_to_server c =
     (if cl_overflow c then reset_sql_buffer c
      else if cl_buffer c = [] then c
      else case send_frame Query (cl_buffer c) (cl_sends c) of
             (w, False, sends) \<Rightarrow>
               reset_sql_buffer (c\<lparr>cl_out := cl_out c @ w, cl_sends := sends, cl_failed := True\<rparr>)
           | (w, True, sends) \<Rightarrow>
               (let c = reset_sql_buffer (c\<lparr>cl_out := cl_out c @ w, cl_sends := sends\<rparr>)
                in case recv_answer [] (cl_in c) of
                     (a, msgs, evs) \<Rightarrow>
                       c\<lparr>cl_in := evs, cl_answers := cl_answers c @ [a],
                         cl_failed := (cl_failed c \<or> answer_failed a)\<rparr>))"

section \<open>Numeric cells keep their text\<close>

lemma length_negate_bytes [simp]: "length (negate_bytes c bs) = length bs"
  by (induction c bs rule: negate_bytes.induct) auto

lemma unat_not_byte: "unat (NOT b :: byte) = 255 - unat b"
proof -
  have "NOT b = - 1 - b" by (simp add: not_eq_complement)
  moreover have "unat (- 1 - b) = unat (- 1 :: byte) - unat b"
    by (rule unat_sub) (simp add: word_order.extremum)
  ultimately show ?thesis by (simp add: unsigned_minus_1_eq_mask mask_eq_exp_minus_1)
qed

lemma negate_bytes_value:
  "le_val (negate_bytes c bs) + le_val bs + (if c then 0 else 1) = 256 ^ length bs \<or>
   c \<and> le_val bs = 0 \<and> le_val (negate_bytes c bs) = 0"
proof (induction c bs rule: negate_bytes.induct)
  case (2 c b bs)
  have b: "unat b < 256" by (rule unat_byte_less)
  show ?case
  proof (cases c)
    case False
    then have "le_val (negate_bytes False bs) + le_val bs + 1 = 256 ^ length bs" using "2.IH"(2) by simp
    moreover have "unat (NOT b) + unat b = 255" using b unfolding unat_not_byte by linarith
    ultimately show ?thesis using False by simp
  next
    case True
    show ?thesis
    proof (cases "b = 0")
      case True
      then have "NOT b + 1 = 0" by simp
      then show ?thesis using \<open>c\<close> True "2.IH"(1) by (auto simp: algebra_simps)
    next
      case False
      then have nz: "NOT b + 1 \<noteq> 0" by (simp add: not_eq_complement)
      have "unat (NOT b + 1) = Suc (255 - unat b)"
        using unatSuc[of "NOT b"] nz unat_not_byte[of b] by (simp add: add.commute)
      then have "unat (NOT b + 1) = 256 - unat b" using b by linarith
      then have "unat (NOT b + 1) + unat b = 256" using b by linarith
      moreover have "le_val (negate_bytes False bs) + le_val bs + 1 = 256 ^ length bs"
        using "2.IH"(1) \<open>c\<close> nz by simp
      ultimately have "le_val (negate_bytes c (b # bs)) + le_val (b # bs) = 256 ^ length (b # bs)"
        using \<open>c\<close> nz by simp
      then show ?thesis using \<open>c\<close> by simp
    qed
  qed
qed auto

lemma negate_negate: "negate_bytes True (negate_bytes True bs) = bs"
proof -
  let ?n = "negate_bytes True bs"
  have "le_val bs < 256 ^ length bs" "le_val (negate_bytes True ?n) < 256 ^ length bs"
    using le_val_less[of bs] le_val_less[of "negate_bytes True ?n"] by simp_all
  then have "le_val (negate_bytes True ?n) = le_val bs"
    using negate_bytes_value[of True bs] negate_bytes_value[of True ?n] by auto
  then show ?thesis by (simp add: le_val_inj)
qed

lemma be_val_Cons: "be_val (b # bs) = unat b * 256 ^ length bs + be_val bs"
  by (simp add: le_val_append)

lemma collect_digits_text: "be_val b \<noteq> 0 \<Longrightarrow> rev (collect_digits b) = nat_text (be_val b)"
proof (induction b rule: collect_digits.induct)
  case (1 b)
  obtain q r where d: "div10 0 b = (q, r)" by fastforce
  have v: "be_val b = 10 * be_val q + r" "r < 10" using div10_value[of 0 b q r] d by simp_all
  have nz: "\<not> list_all (\<lambda>x. x = 0) b" using 1(2) by (simp add: zero_bytes)
  then have c: "collect_digits b = digit_char r # collect_digits q" using d by (simp add: collect_digits.simps[of b])
  show ?case
  proof (cases "be_val q = 0")
    case True
    then have "collect_digits q = []" by (simp add: collect_digits.simps[of q] flip: zero_bytes)
    then show ?thesis using True v c by (simp add: nat_text.simps[of r])
  next
    case False
    then have "rev (collect_digits q) = nat_text (be_val q)" using 1(1)[OF nz] d by simp
    moreover have "be_val b div 10 = be_val q" "be_val b mod 10 = r" "\<not> be_val b < 10" using v False by auto
    ultimately show ?thesis using c by (simp add: nat_text.simps[of "be_val b"])
  qed
qed

lemma digits_text: "rev (if collect_digits b = [] then ''0'' else collect_digits b) = nat_text (be_val b)"
proof (cases "be_val b = 0")
  case True
  then have "collect_digits b = []" by (simp add: collect_digits.simps[of b] flip: zero_bytes)
  then show ?thesis using True by (simp add: nat_text.simps[of 0] digit_char_def char_of_def bit_iff_odd)
next
  case False
  then have "collect_digits b \<noteq> []"
    using collect_digits_text[OF False] by (auto simp: nat_text.simps[of "be_val b"] split: if_splits)
  then show ?thesis using collect_digits_text[OF False] by simp
qed

lemma sign_bit: "(b :: byte) AND 0x80 \<noteq> 0 \<longleftrightarrow> 128 \<le> unat b"
proof -
  have "(0x80 :: byte) = 2 ^ 7" by simp
  then have "b AND 0x80 \<noteq> 0 \<longleftrightarrow> bit b 7" by (simp only: and_exp_eq_0_iff_not_bit not_not)
  also have "\<dots> \<longleftrightarrow> bit (unat b) 7" by (simp add: bit_unsigned_iff)
  also have "\<dots> \<longleftrightarrow> odd (unat b div 128)" by (simp add: bit_iff_odd)
  also have "\<dots> \<longleftrightarrow> 128 \<le> unat b"
  proof (cases "unat b < 128")
    case False
    then have "unat b div 128 = 1" using unat_byte_less[of b] by (intro div_nat_eqI) simp_all
    then show ?thesis using False by simp
  qed simp
  finally show ?thesis .
qed

lemma top_bit:
  assumes "length bs = 16"
  shows "bs ! 0 AND 0x80 \<noteq> 0 \<longleftrightarrow> 2 ^ 127 \<le> be_val bs"
proof -
  obtain x rest where bs: "bs = x # rest" "length rest = 15" using assms by (cases bs) auto
  then have v: "be_val bs = unat x * 256 ^ 15 + be_val rest" by (simp only: be_val_Cons)
  have r: "be_val rest < 256 ^ 15" using le_val_less[of "rest"] le_val_less[of "rev rest"] bs(2) by simp
  have p: "(2 :: nat) ^ 127 = 128 * 256 ^ 15" by simp
  have "128 \<le> unat x \<longleftrightarrow> 128 * 256 ^ 15 \<le> unat x * 256 ^ 15 + be_val rest"
  proof
    assume "128 \<le> unat x"
    then show "128 * 256 ^ 15 \<le> unat x * 256 ^ 15 + be_val rest" by (intro trans_le_add1 mult_le_mono1)
  next
    assume a: "128 * 256 ^ 15 \<le> unat x * 256 ^ 15 + be_val rest"
    show "128 \<le> unat x"
    proof (rule ccontr)
      assume "\<not> 128 \<le> unat x"
      then have "Suc (unat x) * 256 ^ 15 \<le> 128 * 256 ^ 15" by (intro mult_le_mono1) simp
      then show False using a r by simp
    qed
  qed
  then show ?thesis using v p bs(1) by (simp only: sign_bit nth_Cons_0)
qed

text \<open>
  A numeric value looks the same on both sides of the wire: the text the client prints for the
  cell the server built (two's complement in 16 bytes, digits by repeated division of the bytes) is
  the text CAST gives on the server, for every value a numeric can hold.
\<close>

theorem numeric_cell_text:
  assumes "dec_ok d"
  shows "cell_text (dec_cell d) = decimal_to_text d"
proof -
  let ?n = "nat \<bar>unscaled d\<bar>"
  let ?mag = "be_bytes 16 ?n"
  have n: "?n < 2 ^ 127" using assms by (simp add: dec_ok_def kNumericUnscaledMax_def)
  then have v: "be_val ?mag = ?n" by simp
  define bs where "bs = (if unscaled d < 0 then rev (negate_bytes True (rev ?mag)) else ?mag)"
  have l: "length bs = 16" by (simp add: bs_def)
  have neg: "(bs ! 0 AND 0x80 \<noteq> 0) = (unscaled d < 0)"
  proof (cases "unscaled d < 0")
    case True
    have "le_val (negate_bytes True (rev ?mag)) + ?n = 256 ^ 16"
      using negate_bytes_value[of True "rev ?mag"] v True by auto
    then have "2 ^ 127 \<le> be_val bs" using n True by (simp add: bs_def)
    then show ?thesis using top_bit[OF l] True by simp
  next
    case False
    then have "\<not> 2 ^ 127 \<le> be_val bs" using v n by (simp add: bs_def)
    then show ?thesis using top_bit[OF l] False by simp
  qed
  have "(if unscaled d < 0 then rev (negate_bytes True (rev bs)) else bs) = ?mag"
    by (simp add: bs_def negate_negate)
  moreover have "rev (if collect_digits ?mag = [] then ''0'' else collect_digits ?mag) = nat_text ?n"
    using digits_text[of ?mag] v by simp
  moreover have "dec_cell d = CellDecimal bs (dscale d)" by (simp add: dec_cell_def bs_def Let_def)
  ultimately show ?thesis
    by (simp only: cell_text.simps decimal_text_def decimal_to_text_def Let_def neg)
qed

theorem numeric_cell_text_witness: "cell_text (dec_cell (DecimalVal (- 1234) 3)) = ''-1.234''"
proof -
  have "cell_text (dec_cell (DecimalVal (- 1234) 3)) = decimal_to_text (DecimalVal (- 1234) 3)"
    by (rule numeric_cell_text) (simp add: dec_ok_def kNumericUnscaledMax_def)
  then show ?thesis by (simp add: decimal_to_text_def nat_text.simps digit_char_def char_of_def bit_iff_odd Let_def)
qed

section \<open>What the client understands\<close>

definition frames_bytes :: "(msg_type \<times> bytes) list \<Rightarrow> bytes" where
  "frames_bytes fs = concat (map (\<lambda>(t, b). frame_bytes t b) fs)"

lemma frames_bytes_simps [simp]:
  "frames_bytes [] = []" "frames_bytes ((t, b) # fs) = frame_bytes t b @ frames_bytes fs"
  "frames_bytes (fs @ gs) = frames_bytes fs @ frames_bytes gs"
  by (simp_all add: frames_bytes_def)

definition small :: "(msg_type \<times> bytes) list \<Rightarrow> bool" where
  "small fs \<longleftrightarrow> (\<forall>(t, b) \<in> set fs. length b + 1 < 2 ^ 32)"

lemma small_simps [simp]:
  "small []" "small ((t, b) # fs) \<longleftrightarrow> length b + 1 < 2 ^ 32 \<and> small fs"
  "small (fs @ gs) \<longleftrightarrow> small fs \<and> small gs"
  by (auto simp: small_def)

lemma small_frames: "length (frames_bytes fs) < 2 ^ 32 \<Longrightarrow> small fs"
proof (induction fs)
  case (Cons f fs)
  then show ?case by (cases f) (simp add: frame_bytes_def htonl_def)
qed simp

definition is_note :: "msg_type \<times> bytes \<Rightarrow> bool" where
  "is_note f \<longleftrightarrow> (\<exists>l m. l \<le> NOTICE_LEVEL_MAX \<and> f = (Notice, encode_notice l m))"

text \<open>The frames after the head of a result set, and the frames of an answer, with their meaning.\<close>

inductive rows_frames :: "result_set \<Rightarrow> (msg_type \<times> bytes) list \<Rightarrow> stream_end \<Rightarrow> bool" where
  rf_batch: "rows_ok (length (rs_cols rs)) rows \<Longrightarrow> rows_frames (rs\<lparr>rs_rows := rs_rows rs @ rows\<rparr>) fs e \<Longrightarrow>
    rows_frames rs ((ResultSetBatch, encode_rs_batch rows) # fs) e"
| rf_note: "is_note f \<Longrightarrow> rows_frames rs fs e \<Longrightarrow> rows_frames rs (f # fs) e"
| rf_end: "length (rs_rows rs) < 2 ^ 64 \<Longrightarrow>
    rows_frames rs [(ResultSetEnd, encode_rs_end (word_of_nat (length (rs_rows rs))))] (StreamDone rs)"
| rf_error: "rows_frames rs [(Error, encode_error c m)] (StreamFailed m)"

definition head_ok :: "bytes list \<Rightarrow> bool" where
  "head_ok cols \<longleftrightarrow> length cols < 2 ^ 32 \<and> (\<forall>col \<in> set cols. length col < 65536)"

inductive answer_frames :: "(msg_type \<times> bytes) list \<Rightarrow> answer \<Rightarrow> bool" where
  af_note: "is_note f \<Longrightarrow> answer_frames fs a \<Longrightarrow> answer_frames (f # fs) a"
| af_ok: "answer_frames [(Ok, encode_command t n)] (AnsCommand t n)"
| af_error: "answer_frames [(Error, encode_error c m)] (AnsError m)"
| af_rows: "head_ok cols \<Longrightarrow> rows_frames \<lparr>rs_cols = cols, rs_rows = []\<rparr> fs e \<Longrightarrow>
    answer_frames ((ResultSetHead, encode_rs_head cols) # fs) (AnsStream e)"

lemma next_frame:
  assumes "recv_stream evs = frames_bytes ((t, b) # fs) @ rest" and "small ((t, b) # fs)"
  shows "\<exists>evs'. recv_frame 0 evs = (Some (msg_code t, b), evs') \<and> recv_stream evs' = frames_bytes fs @ rest"
  using assms frame_received[of b 0 evs t "frames_bytes fs @ rest"] by auto

lemma rows_received:
  "rows_frames rs fs e \<Longrightarrow> small fs \<Longrightarrow> length (rs_cols rs) < 2 ^ 32 \<Longrightarrow>
   recv_stream evs = frames_bytes fs @ rest \<Longrightarrow>
   \<exists>msgs' evs'. recv_result_stream rs msgs evs = (e, msgs', evs') \<and> recv_stream evs' = rest"
proof (induction arbitrary: evs msgs rule: rows_frames.induct)
  case (rf_batch rs rows fs e)
  obtain evs' where "recv_frame 0 evs = (Some (msg_code ResultSetBatch, encode_rs_batch rows), evs')"
    "recv_stream evs' = frames_bytes fs @ rest"
    using next_frame[OF rf_batch.prems(3,1)] by blast
  then show ?case
    using rf_batch decode_batch[OF rf_batch.hyps(1), of rs] by (simp add: recv_result_stream.simps[of rs])
next
  case (rf_note f rs fs e)
  obtain l m where f: "f = (Notice, encode_notice l m)" "l \<le> NOTICE_LEVEL_MAX"
    using rf_note.hyps(1) by (auto simp: is_note_def)
  obtain evs' where "recv_frame 0 evs = (Some (msg_code Notice, encode_notice l m), evs')"
    "recv_stream evs' = frames_bytes fs @ rest"
    using next_frame[OF rf_note.prems(3,1)[unfolded f(1)]] by blast
  then show ?case
    using rf_note f by (simp add: recv_result_stream.simps[of rs msgs] decode_encode_notice)
next
  case (rf_end rs)
  then show ?case
    using next_frame[OF rf_end.prems(3,1)]
    by (auto simp: recv_result_stream.simps[of rs] decode_end unat_of_nat)
next
  case (rf_error rs c m)
  then show ?case
    using next_frame[OF rf_error.prems(3,1)]
    by (auto simp: recv_result_stream.simps[of rs] decode_encode_error)
qed

lemma answer_received:
  "answer_frames fs a \<Longrightarrow> small fs \<Longrightarrow> recv_stream evs = frames_bytes fs @ rest \<Longrightarrow>
   \<exists>msgs' evs'. recv_answer msgs evs = (a, msgs', evs') \<and> recv_stream evs' = rest"
proof (induction arbitrary: evs msgs rule: answer_frames.induct)
  case (af_note f fs a)
  obtain l m where f: "f = (Notice, encode_notice l m)" "l \<le> NOTICE_LEVEL_MAX"
    using af_note.hyps(1) by (auto simp: is_note_def)
  obtain evs' where "recv_frame 0 evs = (Some (msg_code Notice, encode_notice l m), evs')"
    "recv_stream evs' = frames_bytes fs @ rest"
    using next_frame[OF af_note.prems(2,1)[unfolded f(1)]] by blast
  then show ?case
    using af_note f by (simp add: recv_answer.simps[of msgs evs] decode_encode_notice)
next
  case (af_ok t n)
  then show ?case
    using next_frame[OF af_ok.prems(2,1)]
    by (auto simp: recv_answer.simps[of msgs evs] take_answer_def decode_encode_command)
next
  case (af_error c m)
  then show ?case
    using next_frame[OF af_error.prems(2,1)]
    by (auto simp: recv_answer.simps[of msgs evs] take_answer_def decode_encode_error)
next
  case (af_rows cols fs e)
  obtain evs' where 1: "recv_frame 0 evs = (Some (msg_code ResultSetHead, encode_rs_head cols), evs')"
    "recv_stream evs' = frames_bytes fs @ rest"
    using next_frame[OF af_rows.prems(2,1)] by blast
  have "decode_rs_head (encode_rs_head cols) = Some cols"
    using af_rows.hyps(1) by (simp add: decode_head head_ok_def)
  moreover obtain msgs' evs'' where
    "recv_result_stream \<lparr>rs_cols = cols, rs_rows = []\<rparr> msgs evs' = (e, msgs', evs'')" "recv_stream evs'' = rest"
    using rows_received[OF af_rows.hyps(2) _ _ 1(2), of msgs] af_rows by (auto simp: head_ok_def)
  ultimately show ?case using 1(1) by (simp add: recv_answer.simps[of msgs evs] take_answer_def)
qed

section \<open>What the session writes\<close>

text \<open>A socket on which no send fails: partial writes and interruptions are allowed.\<close>

definition smooth :: "'d session \<Rightarrow> bool" where
  "smooth s \<longleftrightarrow> SendError \<notin> set (ss_sends s)"

definition emits :: "'d session \<Rightarrow> (msg_type \<times> bytes) list \<Rightarrow> 'd session \<Rightarrow> bool" where
  "emits s fs s' \<longleftrightarrow> smooth s' \<and> ss_out s' = ss_out s @ frames_bytes fs"

lemma send_exact_smooth:
  "SendError \<notin> set evs \<Longrightarrow> \<exists>evs'. send_exact bs evs = (bs, True, evs') \<and> SendError \<notin> set evs'"
proof (induction evs arbitrary: bs)
  case (Cons e evs)
  show ?case
  proof (cases e)
    case (Sent n)
    obtain evs' where "send_exact (drop n bs) evs = (drop n bs, True, evs')" "SendError \<notin> set evs'"
      using Cons by auto
    then show ?thesis using Sent Cons.prems by auto
  qed (use Cons in auto)
qed simp

lemma emits_refl: "smooth s \<Longrightarrow> emits s [] s"
  by (simp add: emits_def)

lemma emits_trans: "emits s fs s1 \<Longrightarrow> emits s1 gs s2 \<Longrightarrow> emits s (fs @ gs) s2"
  by (simp add: emits_def)

lemma emits_update [simp]:
  "emits (s\<lparr>ss_db := d\<rparr>) fs s' = emits s fs s'" "emits (s\<lparr>ss_in_txn := b\<rparr>) fs s' = emits s fs s'"
  "emits (s\<lparr>ss_txn_started := c\<rparr>) fs s' = emits s fs s'" "emits (s\<lparr>ss_msg_level := l\<rparr>) fs s' = emits s fs s'"
  "emits (s\<lparr>ss_schema := x\<rparr>) fs s' = emits s fs s'" "emits (s\<lparr>ss_log_level := l\<rparr>) fs s' = emits s fs s'"
  by (simp_all add: emits_def)

lemma smooth_update [simp]:
  "smooth (s\<lparr>ss_db := d\<rparr>) = smooth s" "smooth (s\<lparr>ss_in_txn := b\<rparr>) = smooth s"
  "smooth (s\<lparr>ss_txn_started := c\<rparr>) = smooth s" "smooth (s\<lparr>ss_msg_level := l\<rparr>) = smooth s"
  "smooth (s\<lparr>ss_schema := x\<rparr>) = smooth s" "smooth (s\<lparr>ss_log_level := l\<rparr>) = smooth s"
  by (simp_all add: smooth_def)

lemma emits_smooth: "emits s fs s' \<Longrightarrow> smooth s'"
  by (simp add: emits_def)

lemma ss_send_emits:
  assumes "smooth s"
  shows "fst (ss_send t b s) \<and> emits s [(t, b)] (snd (ss_send t b s))"
  using assms send_exact_smooth[of "ss_sends s" "frame_bytes t b"]
  by (auto simp: smooth_def emits_def ss_send_def send_frame_def)

lemma ss_send_smooth: "smooth s \<Longrightarrow> ss_send t b s = (ok, s') \<Longrightarrow> ok \<and> emits s [(t, b)] s'"
  using ss_send_emits[of s t b] by simp

lemma send_error_emits:
  "smooth s \<Longrightarrow> emits s [(Error, encode_error (to_wire c) m)] (send_error sv c m s)"
  using ss_send_emits[of s] by (simp add: send_error_def)

lemma level_bound: "level_code l \<le> NOTICE_LEVEL_MAX"
  by (cases l) (simp_all add: NOTICE_LEVEL_MAX_def)

definition quiet :: "(msg_type \<times> bytes) list \<Rightarrow> bool" where
  "quiet fs \<longleftrightarrow> list_all is_note fs"

lemma send_notice_emits:
  assumes "smooth s"
  shows "\<exists>fs. quiet fs \<and> emits s fs (send_notice sv l x s)"
proof (cases "level_code l < level_code (ss_msg_level s)")
  case True
  then show ?thesis using emits_refl[OF assms] by (intro exI[of _ "[]"]) (simp add: send_notice_def quiet_def)
next
  case False
  have "is_note (Notice, encode_notice (level_code l) (sv_wording sv x))"
    using level_bound[of l] by (auto simp: is_note_def)
  moreover have "emits s [(Notice, encode_notice (level_code l) (sv_wording sv x))] (send_notice sv l x s)"
    using False ss_send_emits[OF assms] by (simp add: send_notice_def)
  ultimately show ?thesis by (intro exI[of _ "[(Notice, encode_notice (level_code l) (sv_wording sv x))]"]) (simp add: quiet_def)
qed

lemma answer_quiet: "quiet fs \<Longrightarrow> answer_frames gs a \<Longrightarrow> answer_frames (fs @ gs) a"
  by (induction fs) (auto simp: quiet_def intro: af_note)

lemma rows_quiet: "quiet fs \<Longrightarrow> rows_frames rs gs e \<Longrightarrow> rows_frames rs (fs @ gs) e"
  by (induction fs) (auto simp: quiet_def intro: rf_note)

subsection \<open>Result sets\<close>

text \<open>
  A result a client can read: names and strings fit their 16-bit lengths, rows have the width of
  the head. Rows whose cells cannot be built are allowed; they end the stream with an error.
\<close>

definition presentable :: "exec_result \<Rightarrow> bool" where
  "presentable r \<longleftrightarrow> head_ok (er_col_names r) \<and> length (er_rows r) < 2 ^ 64 \<and>
     (\<forall>row \<in> set (er_rows r). length row = length (er_col_names r) \<and>
        (\<forall>cells. map_res to_cell row = Inr cells \<longrightarrow> list_all cell_ok cells))"

abbreviation batch_frames :: "cell_val list list list \<Rightarrow> (msg_type \<times> bytes) list" where
  "batch_frames bs \<equiv> map (\<lambda>b. (ResultSetBatch, encode_rs_batch b)) bs"

lemma rows_batches:
  "\<forall>b \<in> set bs. rows_ok (length (rs_cols rs)) b \<Longrightarrow>
   rows_frames (rs\<lparr>rs_rows := rs_rows rs @ concat bs\<rparr>) fs e \<Longrightarrow> rows_frames rs (batch_frames bs @ fs) e"
proof (induction bs arbitrary: rs)
  case (Cons b bs)
  have "rows_frames (rs\<lparr>rs_rows := rs_rows rs @ b\<rparr>) (batch_frames bs @ fs) e"
    using Cons.prems by (intro Cons.IH) auto
  then show ?case using rf_batch[of rs b "batch_frames bs @ fs" e] Cons.prems(1) by simp
qed simp

lemma send_rows_emits:
  "send_rows rows fin batch k s = (r, s') \<Longrightarrow> smooth s \<Longrightarrow> rows_ok n batch \<Longrightarrow> length batch < RS_BATCH_MAX_ROWS \<Longrightarrow>
   (\<forall>row \<in> set rows. length row = n \<and> (\<forall>cells. map_res to_cell row = Inr cells \<longrightarrow> list_all cell_ok cells)) \<Longrightarrow>
   \<exists>bs. emits s (batch_frames bs) s' \<and> (\<forall>b \<in> set bs. rows_ok n b) \<and>
     (case r of Inl f \<Rightarrow> fin = Some f \<or> (\<exists>row \<in> set rows. map_res to_cell row = Inl f)
      | Inr None \<Rightarrow> False
      | Inr (Some (batch', k')) \<Rightarrow> fin = None \<and> rows_ok n batch' \<and> k' = k + length rows \<and>
          (\<exists>cells. map_res (map_res to_cell) rows = Inr cells \<and> concat bs @ batch' = batch @ cells))"
proof (induction rows fin batch k s arbitrary: r s' rule: send_rows.induct)
  case (1 f batch k s)
  then show ?case using emits_refl[of s] by (intro exI[of _ "[]"]) auto
next
  case (2 batch k s)
  then show ?case using emits_refl[of s] by (intro exI[of _ "[]"]) auto
next
  case (3 row rows fin batch k s)
  show ?case
  proof (cases "map_res to_cell row")
    case (Inl f)
    then show ?thesis using 3 emits_refl[of s] by (intro exI[of _ "[]"]) auto
  next
    case (Inr cells)
    let ?batch = "batch @ [cells]"
    have ok: "length cells = n" "list_all cell_ok cells" using Inr 3(7) map_res_length by auto
    then have b: "rows_ok n ?batch" using 3(5,6) by (auto simp: rows_ok_def RS_BATCH_MAX_ROWS_def)
    show ?thesis
    proof (cases "length ?batch \<ge> RS_BATCH_MAX_ROWS")
      case True
      obtain s1 where s1: "ss_send ResultSetBatch (encode_rs_batch ?batch) s = (True, s1)"
        "emits s [(ResultSetBatch, encode_rs_batch ?batch)] s1"
        using ss_send_smooth[OF 3(4)] by (cases "ss_send ResultSetBatch (encode_rs_batch ?batch) s") auto
      have run: "send_rows rows fin [] (k + 1) s1 = (r, s')" using 3(3) Inr True s1 by (simp add: Let_def)
      have e: "rows_ok n []" "length [] < RS_BATCH_MAX_ROWS" by (simp_all add: rows_ok_def RS_BATCH_MAX_ROWS_def)
      obtain bs where bs: "emits s1 (batch_frames bs) s'" "\<forall>b \<in> set bs. rows_ok n b"
        "case r of Inl f \<Rightarrow> fin = Some f \<or> (\<exists>row \<in> set rows. map_res to_cell row = Inl f)
          | Inr None \<Rightarrow> False
          | Inr (Some (batch', k')) \<Rightarrow> fin = None \<and> rows_ok n batch' \<and> k' = k + 1 + length rows \<and>
             (\<exists>cells. map_res (map_res to_cell) rows = Inr cells \<and> concat bs @ batch' = [] @ cells)"
        using 3(1)[OF Inr refl refl True s1(1)[symmetric] refl run emits_smooth[OF s1(2)] e] 3(7) by auto
      show ?thesis
        using emits_trans[OF s1(2) bs(1)] bs(2,3) b Inr
        by (intro exI[of _ "?batch # bs"]) (auto split: sum.splits option.splits)
    next
      case False
      have run: "send_rows rows fin ?batch (k + 1) s = (r, s')" using 3(3) Inr False by (simp add: Let_def)
      obtain bs where bs: "emits s (batch_frames bs) s'" "\<forall>b \<in> set bs. rows_ok n b"
        "case r of Inl f \<Rightarrow> fin = Some f \<or> (\<exists>row \<in> set rows. map_res to_cell row = Inl f)
          | Inr None \<Rightarrow> False
          | Inr (Some (batch', k')) \<Rightarrow> fin = None \<and> rows_ok n batch' \<and> k' = k + 1 + length rows \<and>
             (\<exists>cs. map_res (map_res to_cell) rows = Inr cs \<and> concat bs @ batch' = ?batch @ cs)"
        using 3(2)[OF Inr refl refl False run 3(4) b] False 3(7) by auto
      show ?thesis
        using bs Inr by (intro exI[of _ bs]) (auto split: sum.splits option.splits)
    qed
  qed
qed

definition answers :: "'d session \<Rightarrow> failure + bool \<Rightarrow> 'd session \<Rightarrow> bool" where
  "answers s r s' \<longleftrightarrow>
     (case r of
        Inr b \<Rightarrow> b \<and> (\<exists>fs a. emits s fs s' \<and> answer_frames fs a)
      | Inl f \<Rightarrow> \<exists>fs. emits s fs s' \<and> (\<forall>c m. \<exists>a. answer_frames (fs @ [(Error, encode_error c m)]) a))"

lemma answers_quiet:
  assumes "emits s fs s1" and "quiet fs" and "answers s1 r s'"
  shows "answers s r s'"
proof (cases r)
  case (Inl f)
  then obtain gs where gs: "emits s1 gs s'" "\<And>c m. \<exists>a. answer_frames (gs @ [(Error, encode_error c m)]) a"
    using assms(3) by (auto simp: answers_def)
  have "\<exists>a. answer_frames ((fs @ gs) @ [(Error, encode_error c m)]) a" for c m
    using gs(2)[of c m] answer_quiet[OF assms(2)] by auto
  then show ?thesis using Inl emits_trans[OF assms(1) gs(1)] by (auto simp: answers_def)
next
  case (Inr b)
  then obtain gs a where gs: "b" "emits s1 gs s'" "answer_frames gs a" using assms(3) by (auto simp: answers_def)
  show ?thesis
    using Inr gs(1) emits_trans[OF assms(1) gs(2)] answer_quiet[OF assms(2) gs(3)] unfolding answers_def by auto
qed

lemma answers_failed: "smooth s \<Longrightarrow> answers s (Inl f) s"
  using emits_refl[of s] af_error by (fastforce simp: answers_def)

lemma answers_error: "smooth s \<Longrightarrow> answers s (Inr True) (send_error sv c m s)"
  using send_error_emits[of s c m sv] af_error by (fastforce simp: answers_def)

lemma answers_ok: "smooth s \<Longrightarrow> answers s (Inr True) (snd (ss_send Ok (encode_command t n) s))"
  using ss_send_emits[of s Ok "encode_command t n"] af_ok by (fastforce simp: answers_def)

lemma answers_update [simp]:
  "answers (s\<lparr>ss_db := d\<rparr>) r s' = answers s r s'" "answers (s\<lparr>ss_in_txn := b\<rparr>) r s' = answers s r s'"
  "answers (s\<lparr>ss_txn_started := c\<rparr>) r s' = answers s r s'" "answers (s\<lparr>ss_msg_level := l\<rparr>) r s' = answers s r s'"
  "answers (s\<lparr>ss_schema := x\<rparr>) r s' = answers s r s'" "answers (s\<lparr>ss_log_level := l\<rparr>) r s' = answers s r s'"
  by (simp_all add: answers_def split: sum.split)

lemma answers_notice:
  assumes "smooth s" and "\<And>s1. s1 = send_notice sv l x s \<Longrightarrow> smooth s1 \<Longrightarrow> answers s1 r s'"
  shows "answers s r s'"
proof -
  obtain fs where fs: "quiet fs" "emits s fs (send_notice sv l x s)" using send_notice_emits[OF assms(1)] by blast
  then show ?thesis using answers_quiet[OF fs(2,1)] assms(2)[OF refl] emits_smooth by blast
qed

text \<open>The frames of a result set, up to a failure or to the end.\<close>

lemma stream_emits:
  assumes "smooth s" and p: "presentable result" and r: "send_result_stream sv result s = (r, s')"
  shows "(\<exists>fs cells. r = Inr True \<and> emits s fs s' \<and> er_failure result = None \<and>
            map_res (map_res to_cell) (er_rows result) = Inr cells \<and>
            answer_frames fs (AnsStream (StreamDone \<lparr>rs_cols = er_col_names result, rs_rows = cells\<rparr>))) \<or>
         (\<exists>f fs. r = Inl f \<and> emits s fs s' \<and>
            (er_failure result = Some f \<or> (\<exists>row \<in> set (er_rows result). map_res to_cell row = Inl f)) \<and>
            (\<forall>c m. answer_frames (fs @ [(Error, encode_error c m)]) (AnsStream (StreamFailed m))))"
proof -
  let ?cols = "er_col_names result" and ?h = "(ResultSetHead, encode_rs_head (er_col_names result))"
  let ?rs = "\<lparr>rs_cols = ?cols, rs_rows = []\<rparr>"
  have hok: "head_ok ?cols" using p by (simp add: presentable_def)
  obtain s1 where s1: "ss_send ResultSetHead (encode_rs_head ?cols) s = (True, s1)" "emits s [?h] s1"
    using ss_send_smooth[OF assms(1)] by (cases "ss_send ResultSetHead (encode_rs_head ?cols) s") auto
  obtain q s2 where q: "send_rows (er_rows result) (er_failure result) [] 0 s1 = (q, s2)" by fastforce
  obtain bs where bs: "emits s1 (batch_frames bs) s2" "\<forall>b \<in> set bs. rows_ok (length ?cols) b"
    "case q of Inl f \<Rightarrow> er_failure result = Some f \<or> (\<exists>row \<in> set (er_rows result). map_res to_cell row = Inl f)
      | Inr None \<Rightarrow> False
      | Inr (Some (batch', k')) \<Rightarrow> er_failure result = None \<and> rows_ok (length ?cols) batch' \<and> k' = 0 + length (er_rows result) \<and>
         (\<exists>cells. map_res (map_res to_cell) (er_rows result) = Inr cells \<and> concat bs @ batch' = [] @ cells)"
    using send_rows_emits[OF q emits_smooth[OF s1(2)], of "length ?cols"] p
    by (auto simp: presentable_def rows_ok_def RS_BATCH_MAX_ROWS_def)
  note e2 = emits_trans[OF s1(2) bs(1)]
  show ?thesis
  proof (cases q)
    case (Inl f)
    then have "r = Inl f" "s' = s2" using r s1(1) q by (auto simp: send_result_stream_def)
    moreover have "answer_frames (([?h] @ batch_frames bs) @ [(Error, encode_error c m)]) (AnsStream (StreamFailed m))" for c m
      using af_rows[OF hok rows_batches[of bs ?rs, OF _ rf_error]] bs(2) by simp
    ultimately show ?thesis using e2 bs(3) Inl by auto
  next
    case (Inr o')
    then obtain batch k cells where o': "q = Inr (Some (batch, k))" "er_failure result = None"
      "rows_ok (length ?cols) batch" "k = length (er_rows result)"
      "map_res (map_res to_cell) (er_rows result) = Inr cells" "concat bs @ batch = cells"
      using bs(3) by (auto split: option.splits)
    define bs' where "bs' = bs @ (if batch = [] then [] else [batch])"
    obtain s3 where s3: "(if batch = [] then (True, s2) else ss_send ResultSetBatch (encode_rs_batch batch) s2) = (True, s3)"
      "emits s ([?h] @ batch_frames bs') s3"
    proof (cases "batch = []")
      case True
      then show ?thesis using that[of s2] e2 by (simp add: bs'_def)
    next
      case False
      then show ?thesis
        using that ss_send_smooth[OF emits_smooth[OF e2], of ResultSetBatch "encode_rs_batch batch"] emits_trans[OF e2]
        by (cases "ss_send ResultSetBatch (encode_rs_batch batch) s2") (auto simp: bs'_def)
    qed
    let ?s4 = "send_notice sv DEBUG (TxtRows k) s3"
    obtain ns where ns: "quiet ns" "emits s3 ns ?s4" using send_notice_emits[OF emits_smooth[OF s3(2)]] by blast
    let ?e = "(ResultSetEnd, encode_rs_end (word_of_nat k))"
    obtain s5 where s5: "ss_send ResultSetEnd (encode_rs_end (word_of_nat k)) ?s4 = (True, s5)" "emits ?s4 [?e] s5"
      using ss_send_smooth[OF emits_smooth[OF ns(2)]] by (cases "ss_send ResultSetEnd (encode_rs_end (word_of_nat k)) ?s4") auto
    have "r = Inr True" "s' = s5" using r s1(1) q o'(1) s3(1) s5(1) by (auto simp: send_result_stream_def Let_def)
    moreover have "emits s (([?h] @ batch_frames bs') @ ns @ [?e]) s5"
      using emits_trans[OF s3(2) emits_trans[OF ns(2) s5(2)]] .
    moreover have "answer_frames (([?h] @ batch_frames bs') @ ns @ [?e]) (AnsStream (StreamDone \<lparr>rs_cols = ?cols, rs_rows = cells\<rparr>))"
    proof -
      let ?done = "?rs\<lparr>rs_rows := rs_rows ?rs @ concat bs'\<rparr>"
      have c: "concat bs' = cells" using o'(6) by (auto simp: bs'_def)
      have "length cells = k" using map_res_length[OF o'(5)] o'(4) by simp
      moreover have "k < 2 ^ 64" using p o'(4) by (simp add: presentable_def)
      ultimately have "rows_frames ?done [?e] (StreamDone ?done)" using rf_end[of ?done] c by simp
      then have "rows_frames ?rs (batch_frames bs' @ ns @ [?e]) (StreamDone ?done)"
        using rows_batches[of bs' ?rs, OF _ rows_quiet[OF ns(1)]] bs(2) o'(3) by (auto simp: bs'_def)
      then show ?thesis using af_rows[OF hok] c by simp
    qed
    ultimately show ?thesis using o'(2,5) by blast
  qed
qed

lemma reply_answers:
  assumes "smooth s" and "er_is_result_set result \<longrightarrow> presentable result" and "reply_result sv result s = (r, s')"
  shows "answers s r s'"
proof (cases "er_is_result_set result")
  case True
  then show ?thesis
    using stream_emits[OF assms(1), of result sv r s'] assms(2,3) by (fastforce simp: reply_result_def answers_def)
next
  case False
  show ?thesis
    by (rule answers_notice[OF assms(1), of sv DEBUG "TxtDone (tag_log_name (er_tag result)) (er_count result)"])
       (use assms(3) False answers_ok in \<open>auto simp: reply_result_def Let_def\<close>)
qed

definition executes_well :: "'d services \<Rightarrow> bool" where
  "executes_well sv \<longleftrightarrow> (\<forall>stmt sch d res d'. sv_execute sv stmt sch d = (Inr res, d') \<longrightarrow>
     er_is_result_set res \<longrightarrow> presentable res)"

lemma control_answers:
  assumes "smooth s" and "handle_txn_control sv kind s = (f, s')"
  shows "answers s (case f of Some f \<Rightarrow> Inl f | None \<Rightarrow> Inr True) s'"
  using assms
  by (auto simp: handle_txn_control_def rollback_session_txn_def Let_def split: if_splits sum.splits
           intro!: answers_failed answers_error answers_ok)
     (metis answers_error answers_failed answers_ok answers_update smooth_update)+

lemma set_answers:
  assumes "smooth s" and "handle_session_set sv var val form s = (True, s')"
  shows "answers s (Inr True) s'"
proof -
  have ok: "answers u (Inr True) (reply_set sv v w u)" if "smooth u" for u v w
    unfolding reply_set_def by (rule answers_notice[OF that]) (use answers_ok in auto)
  from assms show ?thesis
    by (auto simp: handle_session_set_def Let_def answers_error split: if_splits option.splits)
       (metis ok answers_update smooth_update)+
qed

lemma answers_out: "ss_out u = ss_out s \<Longrightarrow> answers u r s' \<Longrightarrow> answers s r s'"
  by (simp add: answers_def emits_def split: sum.splits)

lemma fail_answers:
  assumes "smooth s" and "fail_statement sv code s = (r, s')"
  shows "answers s r s'"
proof (cases "sv_rollback sv (ss_db s)")
  case (Inl f)
  then show ?thesis using assms answers_failed[OF assms(1)] by (auto simp: fail_statement_def)
next
  case (Inr d)
  then obtain u err where "s' = send_error sv code err u" "r = Inr True" "smooth u" "ss_out u = ss_out s"
    using assms by (auto simp: fail_statement_def Let_def)
  then show ?thesis using answers_out[OF _ answers_error] by simp
qed

lemma statement_answers:
  assumes "smooth s" and "executes_well sv" and "exec_statement sv stmt s = (r, s')"
  shows "answers s r s'"
proof -
  obtain f s1 where o: "open_txn sv s = (f, s1)" by fastforce
  then have o1: "smooth s1" "answers s1 = answers s"
    using assms(1) by (auto simp: open_txn_def fun_eq_iff split: if_splits sum.splits)
  show ?thesis
  proof (cases f)
    case (Some f)
    then show ?thesis using assms(3) o o1 answers_failed[OF o1(1)] by (auto simp: exec_statement_def)
  next
    case None
    obtain res d where x: "sv_execute sv stmt (ss_schema s1) (ss_db s1) = (res, d)" by fastforce
    show ?thesis
    proof (cases res)
      case (Inl g)
      show ?thesis
      proof (cases g)
        case (Raise code)
        then have "fail_statement sv code (s1\<lparr>ss_db := d\<rparr>) = (r, s')"
          using assms(3) o None x Inl by (simp add: exec_statement_def)
        then show ?thesis using fail_answers[of "s1\<lparr>ss_db := d\<rparr>"] o1 by simp
      qed (use assms(3) o None x Inl o1 answers_failed[of "s1\<lparr>ss_db := d\<rparr>"] in
            \<open>auto simp: exec_statement_def\<close>)
    next
      case (Inr result)
      have p: "er_is_result_set result \<longrightarrow> presentable result"
        using assms(2) x Inr unfolding executes_well_def by metis
      show ?thesis
      proof (cases "ss_in_txn s1")
        case True
        then have "reply_result sv result (s1\<lparr>ss_db := d\<rparr>) = (r, s')"
          using assms(3) o None x Inr by (simp add: exec_statement_def)
        then show ?thesis using reply_answers[OF _ p, of "s1\<lparr>ss_db := d\<rparr>"] o1 by simp
      next
        case False
        show ?thesis
        proof (cases "sv_commit sv d")
          case (Inl g)
          then have "r = Inl g" "s' = s1\<lparr>ss_db := d\<rparr>"
            using assms(3) o None x Inr False by (auto simp: exec_statement_def)
          then show ?thesis using answers_failed[of "s1\<lparr>ss_db := d\<rparr>" g] o1 by simp
        next
          case c: (Inr d1)
          then have "reply_result sv result (s1\<lparr>ss_db := d1\<rparr>) = (r, s')"
            using assms(3) o None x Inr False by (simp add: exec_statement_def)
          then show ?thesis using reply_answers[OF _ p, of "s1\<lparr>ss_db := d1\<rparr>"] o1 by simp
        qed
      qed
    qed
  qed
qed

lemma set_dispatch:
  "(case stmt of SetStmt var val form \<Rightarrow> A var val form | _ \<Rightarrow> B) = x \<Longrightarrow>
   (\<exists>var val form. stmt = SetStmt var val form \<and> A var val form = x) \<or> B = x"
  by (cases stmt) auto

lemma request_answers:
  assumes sm: "smooth s" and ex: "executes_well sv" and rq: "handle_request sv msg s = (r, s')"
  shows "answers s r s'"
proof (cases "sv_parse sv msg")
  case (Inl e)
  obtain f s1 where b: "rollback_session_txn sv s = (f, s1)" by fastforce
  then have s1: "smooth s1" "ss_out s1 = ss_out s"
    using sm by (auto simp: rollback_session_txn_def split: if_splits sum.splits)
  show ?thesis
    using rq Inl b answers_error[OF sm] answers_out[OF s1(2) answers_error[OF s1(1)]]
      answers_out[OF s1(2) answers_failed[OF s1(1)]]
    by (auto simp: handle_request_def split: if_splits option.splits)
next
  case (Inr st)
  show ?thesis
  proof (rule answers_notice[OF sm, of sv DEBUG "TxtParsed msg"])
    fix u
    assume u: "u = send_notice sv DEBUG (TxtParsed msg) s" and su: "smooth u"
    show "answers u r s'"
    proof (cases st)
      case None
      then show ?thesis using rq Inr u answers_ok[OF su] by (auto simp: handle_request_def)
    next
      case (Some stmt)
      obtain f s1 where b: "rollback_session_txn sv u = (f, s1)" by fastforce
      then have s1: "smooth s1" "ss_out s1 = ss_out u"
        using su by (auto simp: rollback_session_txn_def split: if_splits sum.splits)
      obtain g s2 where c: "handle_txn_control sv (stmt_kind_of stmt) u = (g, s2)" by fastforce
      consider (ctl) "stmt_kind_of stmt \<in> {KBegin, KCommit, KRollback}" "s' = s2" "r = (case g of Some f \<Rightarrow> Inl f | None \<Rightarrow> Inr True)"
        | (bad) "f = None" "r = Inr True" "s' = send_error sv DdlInTxn (sv_wording sv TxtDdlInTxn) s1"
        | (rb) h where "f = Some h" "r = Inl h" "s' = s1"
        | (set) var val form where "handle_session_set sv var val form u = (True, s')" "r = Inr True"
        | (ex) u' where "exec_statement sv stmt u' = (r, s')" "u' = u \<or> (\<exists>var val form. handle_session_set sv var val form u = (False, u'))"
      proof -
        let ?k = "stmt_kind_of stmt"
        have rq': "(if ?k = KBegin \<or> ?k = KCommit \<or> ?k = KRollback then
             (case (g, s2) of (Some f, s) \<Rightarrow> (Inl f, s) | (None, s) \<Rightarrow> (Inr True, s))
           else if ss_in_txn u \<and> txn_forbidden_stmt stmt then
             (case (f, s1) of (Some f, s) \<Rightarrow> (Inl f, s)
              | (None, s) \<Rightarrow> (Inr True, send_error sv DdlInTxn (sv_wording sv TxtDdlInTxn) s))
           else (case stmt of
                SetStmt var val form \<Rightarrow>
                  (case handle_session_set sv var val form u of
                     (True, s) \<Rightarrow> (Inr True, s) | (False, s) \<Rightarrow> exec_statement sv stmt s)
              | _ \<Rightarrow> exec_statement sv stmt u)) = (r, s')"
          using rq unfolding handle_request_def Inr Some sum.case option.case Let_def u[symmetric] b c .
        show ?thesis
        proof (cases "?k \<in> {KBegin, KCommit, KRollback} \<or> ss_in_txn u \<and> txn_forbidden_stmt stmt")
          case True
          then show ?thesis using rq' that(1-3) by (auto split: if_splits option.splits)
        next
          case False
          then have "(case stmt of
                SetStmt var val form \<Rightarrow>
                  (case handle_session_set sv var val form u of
                     (True, s) \<Rightarrow> (Inr True, s) | (False, s) \<Rightarrow> exec_statement sv stmt s)
              | _ \<Rightarrow> exec_statement sv stmt u) = (r, s')" using rq' by auto
          from set_dispatch[OF this] show ?thesis
          proof
            assume "\<exists>var val form. stmt = SetStmt var val form \<and>
              (case handle_session_set sv var val form u of
                 (True, s) \<Rightarrow> (Inr True, s) | (False, s) \<Rightarrow> exec_statement sv stmt s) = (r, s')"
            then obtain var val form where x: "(case handle_session_set sv var val form u of
                 (True, s) \<Rightarrow> (Inr True, s) | (False, s) \<Rightarrow> exec_statement sv stmt s) = (r, s')" by blast
            obtain p u' where "handle_session_set sv var val form u = (p, u')" by fastforce
            then show ?thesis using x that(4)[of var val form] that(5)[of u'] by (cases p) auto
          qed (use that(5) in blast)
        qed
      qed
      then show ?thesis
      proof cases
        case ctl
        then show ?thesis using control_answers[OF su c] by simp
      next
        case bad
        then show ?thesis using answers_out[OF s1(2) answers_error[OF s1(1)]] by simp
      next
        case rb
        then show ?thesis using answers_out[OF s1(2) answers_failed[OF s1(1)]] by simp
      next
        case set
        then show ?thesis using set_answers[OF su] by simp
      next
        case e: ex
        have "u' = u" using e(2) by (auto simp: handle_session_set_def Let_def split: if_splits option.splits)
        then show ?thesis using statement_answers[OF su ex] e(1) by simp
      qed
    qed
  qed
qed

lemma answer_emits:
  assumes "smooth s" and "executes_well sv" and "answer_request sv msg s = (Inr b, s')"
  shows "b \<and> (\<exists>fs a. emits s fs s' \<and> answer_frames fs a)"
proof -
  obtain h s1 where h: "handle_request sv msg s = (h, s1)" by fastforce
  note a = request_answers[OF assms(1,2) h]
  show ?thesis
  proof (cases h)
    case (Inr c)
    then show ?thesis using a h assms(3) by (auto simp: answer_request_def answers_def)
  next
    case (Inl f)
    then obtain c where c: "f = Raise c" using h assms(3) by (cases f) (auto simp: answer_request_def)
    obtain fs where fs: "emits s fs s1" "\<And>c m. \<exists>a. answer_frames (fs @ [(Error, encode_error c m)]) a"
      using a Inl by (auto simp: answers_def)
    have "b" "s' = send_error sv c (sv_wording sv (TxtWhat c)) s1"
      using h Inl c assms(3) by (auto simp: answer_request_def)
    then show ?thesis
      using emits_trans[OF fs(1) send_error_emits[OF emits_smooth[OF fs(1)]]] fs(2) by blast
  qed
qed

lemma answer_frames_proper:
  "answer_frames fs a \<Longrightarrow> (\<exists>t n. a = AnsCommand t n) \<or> (\<exists>m. a = AnsError m) \<or>
     (\<exists>rs. a = AnsStream (StreamDone rs)) \<or> (\<exists>m. a = AnsStream (StreamFailed m))"
proof (induction rule: answer_frames.induct)
  case (af_rows cols fs e)
  from af_rows(2) have "(\<exists>rs. e = StreamDone rs) \<or> (\<exists>m. e = StreamFailed m)"
    by (induction rule: rows_frames.induct) auto
  then show ?case by auto
qed auto

section \<open>Server and client in step\<close>

text \<open>
  C3. Client and server stay in step. Whatever the client sent, if sending does not fail and the
  executor's result sets are presentable, the bytes the session writes for a request are read by
  the client, however they are segmented, as one well-formed answer (a command, an error, a complete
  result set, or a result set ended by an error), and not a byte more: the next answer starts where
  this one ends.
\<close>

theorem session_answers_in_step:
  assumes "smooth s" and "executes_well sv" and "answer_request sv msg s = (Inr b, s')"
    and "ss_out s' = ss_out s @ w" and "length w < 2 ^ 32" and "recv_stream evs = w @ rest"
  shows "\<exists>a msgs evs'. recv_answer [] evs = (a, msgs, evs') \<and> recv_stream evs' = rest \<and>
     ((\<exists>t n. a = AnsCommand t n) \<or> (\<exists>m. a = AnsError m) \<or>
      (\<exists>rs. a = AnsStream (StreamDone rs)) \<or> (\<exists>m. a = AnsStream (StreamFailed m)))"
proof -
  obtain fs a where fs: "emits s fs s'" "answer_frames fs a" using answer_emits[OF assms(1-3)] by blast
  then have "w = frames_bytes fs" using assms(4) by (simp add: emits_def)
  then show ?thesis
    using answer_received[OF fs(2) small_frames, of evs rest "[]"] answer_frames_proper[OF fs(2)] assms(5,6) by blast
qed

theorem session_answers_in_step_witness:
  "\<exists>s' a evs'. answer_request demo_services [66] (session_start [] [Sent 3] INFO demo_engine) = (Inr True, s') \<and>
     recv_answer [] [RecvData (ss_out s'), RecvData [7]] = (a, [], evs') \<and> a = AnsCommand TagBegin 0 \<and> recv_stream evs' = [7]"
proof -
  let ?s = "session_start [] [Sent 3] INFO demo_engine"
  let ?w = "frame_bytes Ok (encode_command TagBegin 0)"
  let ?s' = "snd (ss_send Ok (encode_command TagBegin 0) (?s\<lparr>ss_in_txn := True\<rparr>))"
  have sm: "smooth ?s" by (simp add: smooth_def session_start_def)
  have n: "send_notice demo_services DEBUG x ?s = ?s" for x by (simp add: send_notice_def session_start_def)
  have p: "sv_parse demo_services [66] = Inr (Some BeginStmt)" "sv_bootstrap_mode demo_services d = False" for d
    by (simp_all add: demo_services_def)
  have h: "answer_request demo_services [66] ?s = (Inr True, ?s')"
    unfolding answer_request_def handle_request_def p sum.case n Let_def option.case
    by (simp add: handle_txn_control_def p session_start_def)
  have e: "executes_well demo_services" by (simp add: executes_well_def demo_services_def)
  have o: "ss_out ?s' = ss_out ?s @ ?w"
    using ss_send_emits[of "?s\<lparr>ss_in_txn := True\<rparr>" Ok "encode_command TagBegin 0"] sm by (simp add: emits_def)
  have l: "length ?w = 14" by (simp add: frame_bytes_def htonl_def encode_command_def)
  then have ne: "?w \<noteq> []" by auto
  have so: "ss_out ?s' = ?w" using o by (simp add: session_start_def)
  let ?evs = "[RecvData ?w, RecvData [7]]"
  have r: "recv_stream ?evs = ?w @ [7]" using ne by simp
  from session_answers_in_step[OF sm e h o _ r] l obtain a msgs evs' where
    a: "recv_answer [] ?evs = (a, msgs, evs')" "recv_stream evs' = [7]" by auto
  have "recv_frame 0 ?evs = (Some (2, encode_command TagBegin 0), [RecvData [7]])"
    by (simp add: recv_frame_def FRAME_HEADER_SIZE_def frame_bytes_def htonl_def append_u32_def shift_byte_def
          ntohl_def shift_in_def encode_command_def append_u64_def)
  then have "a = AnsCommand TagBegin 0 \<and> msgs = []"
    using a(1) by (simp add: recv_answer.simps take_answer_def decode_encode_command)
  then show ?thesis using h a so by auto
qed

text \<open>
  C15. A result set arrives whole: when the sends do not fail, the names and strings of the result fit their 16-bit
  lengths (shorter than 65536 bytes), its rows have the width of the head, every cell can be converted and the
  execution ends without a failure, and less than \<open>2 ^ 32\<close> bytes are written, the client ends up with
  exactly the column names and the rows of the executor, in order, whatever the batching by 256
  rows, the partial writes and the segmentation.
\<close>

theorem result_set_delivered:
  assumes "smooth s" and "presentable result" and "er_is_result_set result" and "er_failure result = None"
    and "map_res (map_res to_cell) (er_rows result) = Inr cells"
    and "reply_result sv result s = (r, s')"
    and "ss_out s' = ss_out s @ w" and "length w < 2 ^ 32" and "recv_stream evs = w @ rest"
  shows "r = Inr True \<and> (\<exists>msgs evs'. recv_answer [] evs =
     (AnsStream (StreamDone \<lparr>rs_cols = er_col_names result, rs_rows = cells\<rparr>), msgs, evs') \<and> recv_stream evs' = rest)"
proof -
  have "send_result_stream sv result s = (r, s')" using assms(3,6) by (simp add: reply_result_def)
  moreover have "\<not> (\<exists>row \<in> set (er_rows result). map_res to_cell row = Inl f)" for f
    using map_res_nth[OF assms(5)] by (metis in_set_conv_nth sum.distinct(1))
  ultimately obtain fs where fs: "r = Inr True" "emits s fs s'"
    "answer_frames fs (AnsStream (StreamDone \<lparr>rs_cols = er_col_names result, rs_rows = cells\<rparr>))"
    using stream_emits[OF assms(1,2)] assms(4,5) by (metis Inr_inject option.distinct(1))
  then have "w = frames_bytes fs" using assms(7) by (simp add: emits_def)
  then show ?thesis using answer_received[OF fs(3) small_frames, of evs rest "[]"] fs(1) assms(8,9) by blast
qed

theorem result_set_delivered_witness:
  "\<exists>s' evs'. reply_result demo_services
       \<lparr>er_is_result_set = True, er_tag = TagEmpty, er_count = 0, er_col_names = [[99]],
         er_rows = [[int_val kInt 7], [null_val]], er_failure = None\<rparr>
       (session_start [] [] INFO demo_engine) = (Inr True, s') \<and>
     fst (recv_answer [] [RecvData (ss_out s')]) =
       AnsStream (StreamDone \<lparr>rs_cols = [[99]], rs_rows = [[CellInt 7], [CellNull]]\<rparr>)"
proof -
  let ?r = "\<lparr>er_is_result_set = True, er_tag = TagEmpty, er_count = 0, er_col_names = [[99]],
         er_rows = [[int_val kInt 7], [null_val]], er_failure = None\<rparr>"
  let ?s = "session_start [] [] INFO demo_engine"
  have sm: "smooth ?s" by (simp add: smooth_def session_start_def)
  have c: "to_cell (int_val kInt 7) = Inr (CellInt 7)" "to_cell null_val = Inr CellNull"
    by (simp_all add: to_cell_def int_val_def null_val_def value_is_null_def kInt_def mk_attr_def)
  then have p: "presentable ?r" "map_res (map_res to_cell) (er_rows ?r) = Inr [[CellInt 7], [CellNull]]"
    by (auto simp: presentable_def head_ok_def)
  obtain r s' where q: "reply_result demo_services ?r ?s = (r, s')" by fastforce
  let ?body = "[(ResultSetHead, encode_rs_head [[99]]), (ResultSetBatch, encode_rs_batch [[CellInt 7], [CellNull]]),
     (ResultSetEnd, encode_rs_end 2)]"
  have out: "ss_out s' = frames_bytes ?body"
    using q c by (auto simp: reply_result_def send_result_stream_def session_start_def RS_BATCH_MAX_ROWS_def Let_def
       ss_send_def send_frame_def send_notice_def)
  have l: "length (frames_bytes ?body) = 44"
    by (simp add: frame_bytes_def htonl_def encode_rs_head_def encode_rs_batch_def encode_rs_end_def)
  have r: "recv_stream [RecvData (ss_out s')] = frames_bytes ?body @ []" using out l by auto
  have o: "ss_out s' = ss_out ?s @ frames_bytes ?body" using out by (simp add: session_start_def)
  from result_set_delivered[OF sm p(1) _ _ p(2) q o _ r] l show ?thesis using q by fastforce
qed

section \<open>Overlong strings\<close>





section \<open>The request limit\<close>

text \<open>
  The client's buffer limit and the server's payload limit are the same number, but the payload
  has a type byte in front of the statement: a statement of exactly the limit is accepted by the
  client and makes the server end the session.
\<close>

theorem statement_at_limit_refused:
  assumes "length sql = SQL_BUFFER_LIMIT" and "cl_buffer c = []" and "\<not> cl_overflow c"
    and "recv_stream (ss_in s) = frame_bytes Query sql @ rest"
  shows "cl_buffer (append_to_sql sql c) = sql \<and> \<not> cl_overflow (append_to_sql sql c) \<and>
         fst (recv_query sv s) = None"
proof -
  let ?len = "1 + word_of_nat (length sql) :: u32"
  have "?len = 268435457" using assms(1) by (simp add: SQL_BUFFER_LIMIT_def)
  moreover have "ntohl (take 4 (frame_bytes Query sql @ rest)) = ?len"
    using ntohl_htonl[of ?len] by (simp add: frame_bytes_def htonl_def)
  ultimately have "parse_frame MAX_REQUEST_PAYLOAD (recv_stream (ss_in s)) = None"
    using assms(4) by (simp add: Let_def MAX_REQUEST_PAYLOAD_def)
  then have "fst (recv_frame MAX_REQUEST_PAYLOAD (ss_in s)) = None"
    using recv_frame_stream(1)[of MAX_REQUEST_PAYLOAD "ss_in s"] by (metis prod.collapse)
  then have "fst (recv_query sv s) = None"
    by (auto simp: recv_query_def split: prod.splits option.splits)
  then show ?thesis using assms by (simp add: append_to_sql_def)
qed

theorem statement_at_limit_refused_witness:
  "fst (recv_query demo_services (session_start [RecvData (frame_bytes Query (replicate 268435456 32))] [] INFO demo_engine)) = None"
proof -
  let ?sql = "replicate 268435456 32 :: bytes"
  let ?c = "\<lparr>cl_in = [], cl_sends = [], cl_out = [], cl_buffer = [], cl_overflow = False, cl_failed = False, cl_answers = []\<rparr>"
  let ?s = "session_start [RecvData (frame_bytes Query ?sql)] [] INFO demo_engine"
  have "length ?sql = SQL_BUFFER_LIMIT" by (simp only: length_replicate SQL_BUFFER_LIMIT_def)
  moreover have "recv_stream (ss_in ?s) = frame_bytes Query ?sql @ []"
    by (simp add: session_start_def frame_bytes_def)
  ultimately show ?thesis
    using statement_at_limit_refused[of ?sql ?c ?s "[]" demo_services] by simp
qed

end
