(* ===== verification/Meta.thy ===== *)
theory Meta
  imports Operators
begin

text \<open>
  The metadata tables of src/catalog/catalog_meta.cpp: their columns, the rows that are written into them
  for the built-in types, a table and its columns, the decoding of their rows with every check, and the lookups
  by name, which scan the rows. The functions take the rows as \<^verbatim>\<open>Engine::read_rows\<close> gives them; Catalog reads
  them from the files. It is shown that what is written is what is read: the built-in types come back
  as they were, and the columns of a table in their order, whatever else the tables hold.
\<close>

section \<open>Rows of the metadata tables\<close>

text \<open>
  The fixed numbers and names of catalog.h.
\<close>

definition kReservedMaxTableId :: u64 where "kReservedMaxTableId = 20000"
definition kFirstUserTableId :: u64 where "kFirstUserTableId = 20001"
definition kTableMetaId :: u64 where "kTableMetaId = 1"
definition kColumnMetaId :: u64 where "kColumnMetaId = 2"
definition kSchemaMetaId :: u64 where "kSchemaMetaId = 3"
definition kTypeMetaId :: u64 where "kTypeMetaId = 4"
definition kIndexMetaId :: u64 where "kIndexMetaId = 5"
definition kFuncMetaId :: u64 where "kFuncMetaId = 6"
definition kSystemSchemaId :: u64 where "kSystemSchemaId = 1"
definition kMetaNameLen :: u16 where "kMetaNameLen = 64"

lemmas meta_ids = kReservedMaxTableId_def kFirstUserTableId_def kTableMetaId_def kColumnMetaId_def kSchemaMetaId_def
  kTypeMetaId_def kIndexMetaId_def kFuncMetaId_def kSystemSchemaId_def

definition meta_col :: "string \<Rightarrow> type_attr \<Rightarrow> u16 \<Rightarrow> bool \<Rightarrow> column_spec" where
  "meta_col n t len nn = \<lparr>col_name = n, col_type = t, col_length = len, col_not_null = nn, col_scale = 0\<rparr>"

definition table_meta_cols :: "column_spec list" where
  "table_meta_cols = [meta_col ''table_id'' kBigint 0 True, meta_col ''table_name'' kVarChar kMetaNameLen True,
     meta_col ''file_id'' kBigint 0 True, meta_col ''schema_id'' kBigint 0 True]"

definition column_meta_cols :: "column_spec list" where
  "column_meta_cols = [meta_col ''table_id'' kBigint 0 True, meta_col ''col_name'' kVarChar kMetaNameLen True,
     meta_col ''ordinal'' kInt 0 True, meta_col ''type'' kInt 0 True, meta_col ''length'' kInt 0 True,
     meta_col ''scale'' kInt 0 True, meta_col ''not_null'' kInt 0 True]"

definition schema_meta_cols :: "column_spec list" where
  "schema_meta_cols = [meta_col ''schema_id'' kBigint 0 True, meta_col ''schema_name'' kVarChar kMetaNameLen True]"

definition type_meta_cols :: "column_spec list" where
  "type_meta_cols = [meta_col ''type_id'' kInt 0 True, meta_col ''type_name'' kVarChar kMetaNameLen True,
     meta_col ''alias'' kVarChar kMetaNameLen False, meta_col ''family'' kInt 0 True, meta_col ''rank'' kInt 0 True,
     meta_col ''len_allowed'' kInt 0 True, meta_col ''len_default'' kInt 0 True, meta_col ''len_max'' kInt 0 True,
     meta_col ''scale_allowed'' kInt 0 True, meta_col ''rep'' kInt 0 True, meta_col ''store'' kInt 0 True,
     meta_col ''width'' kInt 0 True]"

fun family_code :: "family \<Rightarrow> int" where
  "family_code FamNone = 0" | "family_code FamNum = 1" | "family_code FamText = 2" | "family_code FamBool = 3"

fun rep_code :: "rep \<Rightarrow> int" where
  "rep_code RepNone = 0" | "rep_code RepInt64 = 1" | "rep_code RepFloat = 2" | "rep_code RepDouble = 3"
| "rep_code RepStr = 4" | "rep_code RepBool = 5" | "rep_code RepDec = 6"

fun store_code :: "Types.store \<Rightarrow> int" where
  "store_code StoreNone = 0" | "store_code StoreFixed = 1" | "store_code StoreCharPad = 2" | "store_code StoreVarLen = 3"
| "store_code StoreDecimal = 4"

text \<open>\<^verbatim>\<open>static_cast\<close> of a number to an enumeration, for the numbers the callers have checked.\<close>

definition family_of :: "int \<Rightarrow> family" where
  "family_of n = (if n = 1 then FamNum else if n = 2 then FamText else if n = 3 then FamBool else FamNone)"

definition rep_of :: "int \<Rightarrow> rep" where
  "rep_of n = (if n = 1 then RepInt64 else if n = 2 then RepFloat else if n = 3 then RepDouble else if n = 4 then RepStr
     else if n = 5 then RepBool else if n = 6 then RepDec else RepNone)"

definition store_of :: "int \<Rightarrow> Types.store" where
  "store_of n = (if n = 1 then StoreFixed else if n = 2 then StoreCharPad else if n = 3 then StoreVarLen
     else if n = 4 then StoreDecimal else StoreNone)"

definition int_cell :: "type_attr \<Rightarrow> int \<Rightarrow> dbvalue" where
  "int_cell t v = int_val t (word_of_int v)"

definition flag_cell :: "bool \<Rightarrow> dbvalue" where
  "flag_cell b = int_cell kInt (if b then 1 else 0)"

definition type_meta_row :: "type_seed \<Rightarrow> dbvalue list" where
  "type_meta_row s =
     [int_cell kInt (uint (attr_id (seed_attr s))), str_val kVarChar (seed_name s),
      (case seed_alias s of None \<Rightarrow> null_val | Some a \<Rightarrow> str_val kVarChar a),
      int_cell kInt (family_code (attr_family (seed_attr s))), int_cell kInt (uint (attr_rank (seed_attr s))),
      flag_cell (seed_len_allowed s), int_cell kInt (uint (seed_len_default s)), int_cell kInt (uint (seed_len_max s)),
      flag_cell (seed_scale_allowed s), int_cell kInt (rep_code (attr_rep (seed_attr s))),
      int_cell kInt (store_code (attr_store (seed_attr s))), int_cell kInt (uint (attr_width (seed_attr s)))]"

definition type_meta_rows :: "dbvalue list list" where
  "type_meta_rows = map type_meta_row kTypeSeeds"

definition column_meta_row :: "u64 \<Rightarrow> nat \<Rightarrow> column_spec \<Rightarrow> dbvalue list" where
  "column_meta_row tid i col =
     [int_val kBigint tid, str_val kVarChar (col_name col), int_cell kInt (int i), int_cell kInt (uint (attr_id (col_type col))),
      int_cell kInt (uint (col_length col)), int_cell kInt (uint (col_scale col)), flag_cell (col_not_null col)]"

definition column_meta_rows :: "u64 \<Rightarrow> column_spec list \<Rightarrow> dbvalue list list" where
  "column_meta_rows tid cols = map (\<lambda>(i, col). column_meta_row tid i col) (enumerate 0 cols)"

definition table_meta_row :: "u64 \<Rightarrow> u64 \<Rightarrow> u64 \<Rightarrow> string \<Rightarrow> dbvalue list" where
  "table_meta_row sid tid fid name =
     [int_val kBigint tid, str_val kVarChar name, int_val kBigint fid, int_val kBigint sid]"

section \<open>Reading the rows\<close>

text \<open>A cell of the wrong kind, NULL included, ends the process; rows are as wide as their columns.\<close>

definition row_int :: "dbvalue list \<Rightarrow> nat \<Rightarrow> int res" where
  "row_int row i =
     (if i < length row then case vbox (row ! i) of BInt64 v \<Rightarrow> Inr (sint v) | _ \<Rightarrow> Inl Critical else Inl Crash)"

definition row_str :: "dbvalue list \<Rightarrow> nat \<Rightarrow> string res" where
  "row_str row i =
     (if i < length row then case vbox (row ! i) of BStr s \<Rightarrow> Inr s | _ \<Rightarrow> Inl Critical else Inl Crash)"

definition type_word_known :: "int \<Rightarrow> int \<Rightarrow> int \<Rightarrow> bool" where
  "type_word_known family rep store \<longleftrightarrow>
     \<not> (family < family_code FamNum \<or> family > family_code FamBool) \<and>
     \<not> (rep < rep_code RepInt64 \<or> rep > rep_code RepDec) \<and>
     \<not> (store < store_code StoreFixed \<or> store > store_code StoreDecimal)"

text \<open>\<^verbatim>\<open>TypeRow\<close>, \<^verbatim>\<open>FuncRow\<close>: rows of db_type and db_func.\<close>

record type_row =
  tyr_attr :: type_attr
  tyr_name :: string
  tyr_alias :: string
  tyr_len_allowed :: bool
  tyr_len_default :: u16
  tyr_len_max :: u16
  tyr_scale_allowed :: bool

record func_row =
  fnr_id :: u64
  fnr_name :: string
  fnr_strict_null :: bool
  fnr_args :: "type_attr list"
  fnr_ret :: type_attr

text \<open>A condition of the data that ends the process when it does not hold.\<close>

definition demand :: "bool \<Rightarrow> unit res" where
  "demand b = (if b then Inr () else Inl Critical)"

lemma demand_Inr [simp]: "demand b = Inr u \<longleftrightarrow> b"
  by (simp add: demand_def)

definition parse_type_row :: "dbvalue list \<Rightarrow> type_row res" where
  "parse_type_row row =
     rbind (row_int row 0) (\<lambda>id. rbind (row_int row 3) (\<lambda>family. rbind (row_int row 4) (\<lambda>rank.
     rbind (row_int row 5) (\<lambda>len_allowed. rbind (row_int row 6) (\<lambda>len_default. rbind (row_int row 7) (\<lambda>len_max.
     rbind (row_int row 8) (\<lambda>scale_allowed. rbind (row_int row 9) (\<lambda>rep. rbind (row_int row 10) (\<lambda>store.
     rbind (row_int row 11) (\<lambda>width.
     rbind (demand (\<not> (id \<le> 0 \<or> id > 65535))) (\<lambda>_.
     rbind (demand (type_word_known family rep store)) (\<lambda>_.
     rbind (demand (\<not> (rank < 0 \<or> rank > 255 \<or> (family \<noteq> family_code FamNum \<and> rank \<noteq> 0)))) (\<lambda>_.
     rbind (demand (\<not> (len_allowed \<noteq> 0 \<and> len_allowed \<noteq> 1))) (\<lambda>_.
     rbind (demand (\<not> (len_default < 0 \<or> len_default > 65535 \<or> len_default > len_max))) (\<lambda>_.
     rbind (demand (\<not> (len_max < 0 \<or> len_max > 65535))) (\<lambda>_.
     rbind (demand (\<not> (scale_allowed \<noteq> 0 \<and> scale_allowed \<noteq> 1))) (\<lambda>_.
     rbind (demand (\<not> (width < 0 \<or> width > 255))) (\<lambda>_.
     rbind (row_str row 1) (\<lambda>name.
     rbind (if value_is_null (row ! 2) then Inr [] else row_str row 2) (\<lambda>alias.
       Inr \<lparr>tyr_attr = \<lparr>attr_id = word_of_int id, attr_family = family_of family, attr_rank = word_of_int rank,
              attr_rep = rep_of rep, attr_store = store_of store, attr_width = word_of_int width\<rparr>,
            tyr_name = name, tyr_alias = alias, tyr_len_allowed = (len_allowed = 1), tyr_len_default = word_of_int len_default,
            tyr_len_max = word_of_int len_max, tyr_scale_allowed = (scale_allowed = 1)\<rparr>))))))))))))))))))))"

definition type_by_id :: "type_row list \<Rightarrow> int \<Rightarrow> type_row res" where
  "type_by_id types tid = (case find (\<lambda>t. uint (attr_id (tyr_attr t)) = tid) types of None \<Rightarrow> Inl Critical | Some t \<Rightarrow> Inr t)"

definition parse_column_row :: "dbvalue list \<Rightarrow> type_row list \<Rightarrow> (int \<times> column_spec) res" where
  "parse_column_row row types =
     rbind (row_int row 3) (\<lambda>tid. rbind (type_by_id types tid) (\<lambda>tr.
     rbind (row_int row 4) (\<lambda>len. rbind (row_int row 5) (\<lambda>scl. rbind (row_int row 6) (\<lambda>not_null.
     rbind (demand (\<not> (len < 0 \<or> len > uint (tyr_len_max tr) \<or> (\<not> tyr_len_allowed tr \<and> len \<noteq> 0)))) (\<lambda>_.
     rbind (demand (\<not> (scl < 0 \<or> scl > 255 \<or> (\<not> tyr_scale_allowed tr \<and> scl \<noteq> 0) \<or> (tyr_scale_allowed tr \<and> scl > len)))) (\<lambda>_.
     rbind (demand (\<not> (not_null \<noteq> 0 \<and> not_null \<noteq> 1))) (\<lambda>_.
     rbind (row_int row 2) (\<lambda>ordinal. rbind (row_str row 1) (\<lambda>name.
       Inr (ordinal, \<lparr>col_name = name, col_type = tyr_attr tr, col_length = word_of_int len, col_not_null = (not_null = 1),
                      col_scale = word_of_int scl\<rparr>)))))))))))"

text \<open>The argument slots of a function: types up to the arity, zero behind it.\<close>

fun parse_func_args :: "dbvalue list \<Rightarrow> type_row list \<Rightarrow> int \<Rightarrow> nat list \<Rightarrow> type_attr list res" where
  "parse_func_args row types arity [] = Inr []"
| "parse_func_args row types arity (i # is) =
     rbind (row_int row (3 + i)) (\<lambda>tid.
       if int i < arity then
         rbind (type_by_id types tid) (\<lambda>tr. rbind (parse_func_args row types arity is) (\<lambda>args. Inr (tyr_attr tr # args)))
       else if tid \<noteq> 0 then Inl Critical
       else parse_func_args row types arity is)"

definition parse_func_row :: "dbvalue list \<Rightarrow> type_row list \<Rightarrow> func_row res" where
  "parse_func_row row types =
     rbind (row_int row 0) (\<lambda>id. rbind (row_int row 2) (\<lambda>arity.
     rbind (demand (\<not> id \<le> 0)) (\<lambda>_. rbind (demand (\<not> (arity < 0 \<or> arity > 3))) (\<lambda>_.
     rbind (row_str row 1) (\<lambda>name. rbind (demand (name \<noteq> [])) (\<lambda>_.
     rbind (row_int row 7) (\<lambda>strict. rbind (demand (\<not> (strict \<noteq> 0 \<and> strict \<noteq> 1))) (\<lambda>_.
     rbind (parse_func_args row types arity [0..<3]) (\<lambda>args.
     rbind (row_int row 6) (\<lambda>rid. rbind (type_by_id types rid) (\<lambda>rr.
       Inr \<lparr>fnr_id = word_of_int id, fnr_name = name, fnr_strict_null = (strict = 1), fnr_args = args, fnr_ret = tyr_attr rr\<rparr>)))))))))))"

fun func_rows_distinct :: "func_row list \<Rightarrow> bool" where
  "func_rows_distinct [] = True"
| "func_rows_distinct (f # fs) =
     (list_all (\<lambda>g. fnr_id f \<noteq> fnr_id g \<and> \<not> (fnr_name f = fnr_name g \<and> fnr_args f = fnr_args g)) fs \<and> func_rows_distinct fs)"

text \<open>The rows of db_type and db_func as \<^verbatim>\<open>read_rows\<close> gives them.\<close>

definition validate_func_rows :: "dbvalue list list \<Rightarrow> dbvalue list list \<Rightarrow> unit res" where
  "validate_func_rows type_rows func_rows =
     rbind (map_res parse_type_row type_rows) (\<lambda>types.
     rbind (map_res (\<lambda>row. parse_func_row row types) func_rows) (\<lambda>rows. demand (func_rows_distinct rows)))"

fun adjacent_distinct :: "int list \<Rightarrow> bool" where
  "adjacent_distinct (x # y # xs) = (x \<noteq> y \<and> adjacent_distinct (y # xs))"
| "adjacent_distinct _ = True"

definition collect_columns :: "dbvalue list list \<Rightarrow> dbvalue list list \<Rightarrow> u64 \<Rightarrow> column_spec list res" where
  "collect_columns type_rows column_rows tid =
     rbind (map_res parse_type_row type_rows) (\<lambda>types.
     rbind (demand (types \<noteq> [])) (\<lambda>_.
     rbind (map_res (\<lambda>row. rbind (row_int row 0) (\<lambda>t.
              if t = sint tid then rbind (parse_column_row row types) (\<lambda>p. Inr [p]) else Inr [])) column_rows) (\<lambda>pss.
       let pairs = sort_key fst (concat pss)
       in rbind (demand (pairs \<noteq> [])) (\<lambda>_.
          rbind (demand (adjacent_distinct (map fst pairs))) (\<lambda>_. Inr (map snd pairs))))))"

section \<open>Lookups\<close>

text \<open>A loop over rows that ends at the first one that matches.\<close>

fun find_res :: "('a \<Rightarrow> bool res) \<Rightarrow> 'a list \<Rightarrow> 'a option res" where
  "find_res P [] = Inr None"
| "find_res P (x # xs) = rbind (P x) (\<lambda>b. if b then Inr (Some x) else find_res P xs)"

fun scan_types :: "(type_row \<Rightarrow> bool) \<Rightarrow> dbvalue list list \<Rightarrow> type_row option res" where
  "scan_types P [] = Inr None"
| "scan_types P (row # rows) = rbind (parse_type_row row) (\<lambda>t. if P t then Inr (Some t) else scan_types P rows)"

definition type_named :: "string \<Rightarrow> type_row \<Rightarrow> bool" where
  "type_named name t \<longleftrightarrow> tyr_name t = name \<or> (tyr_alias t \<noteq> [] \<and> tyr_alias t = name)"

definition or_raise :: "err_code \<Rightarrow> 'a option res \<Rightarrow> 'a res" where
  "or_raise e r = rbind r (\<lambda>x. case x of None \<Rightarrow> Inl (Raise e) | Some y \<Rightarrow> Inr y)"

definition find_type :: "dbvalue list list \<Rightarrow> string \<Rightarrow> type_row res" where
  "find_type type_rows name = or_raise InvalidType (scan_types (type_named name) type_rows)"

definition find_type_by_id :: "dbvalue list list \<Rightarrow> u16 \<Rightarrow> type_row res" where
  "find_type_by_id type_rows i = or_raise Internal (scan_types (\<lambda>t. attr_id (tyr_attr t) = i) type_rows)"

definition require_type :: "dbvalue list list \<Rightarrow> string \<Rightarrow> type_attr res" where
  "require_type type_rows name = rbind (or_raise Internal (scan_types (type_named name) type_rows)) (\<lambda>t. Inr (tyr_attr t))"

definition funcs :: "dbvalue list list \<Rightarrow> dbvalue list list \<Rightarrow> string \<Rightarrow> func_row list res" where
  "funcs type_rows func_rows name =
     rbind (map_res parse_type_row type_rows) (\<lambda>types.
     rbind (map_res (\<lambda>row. rbind (row_str row 1) (\<lambda>n.
              if n = name then rbind (parse_func_row row types) (\<lambda>f. Inr [f]) else Inr [])) func_rows) (\<lambda>fs. Inr (concat fs)))"

definition index_entry_of :: "row \<Rightarrow> index_entry res" where
  "index_entry_of row =
     rbind (row_int (row_values row) 2) (\<lambda>ordinal. rbind (row_int (row_values row) 3) (\<lambda>fid.
     rbind (demand (\<not> (ordinal < 0 \<or> ordinal > 65535))) (\<lambda>_. rbind (demand (\<not> fid < 0)) (\<lambda>_.
     rbind (row_str (row_values row) 1) (\<lambda>name.
       Inr \<lparr>ie_name = name, ie_col_ordinal = word_of_int ordinal, ie_file_id = word_of_int fid, ie_row_ref = row_loc row\<rparr>)))))"

definition table_indexes :: "u64 \<Rightarrow> row list \<Rightarrow> index_entry list res" where
  "table_indexes tid rows =
     rbind (map_res (\<lambda>row. rbind (row_int (row_values row) 0) (\<lambda>t.
       if t \<noteq> sint tid then Inr [] else rbind (index_entry_of row) (\<lambda>e. Inr [e]))) rows) (\<lambda>es. Inr (concat es))"

text \<open>Two cells of a row against a number and a text, the second looked at only when the first agrees.\<close>

definition row_matches :: "nat \<Rightarrow> u64 \<Rightarrow> nat \<Rightarrow> string \<Rightarrow> dbvalue list \<Rightarrow> bool res" where
  "row_matches i k j name row =
     rbind (row_int row i) (\<lambda>v. if v = sint k then rbind (row_str row j) (\<lambda>s. Inr (s = name)) else Inr False)"

definition found :: "'a option res \<Rightarrow> bool res" where
  "found r = rbind r (\<lambda>x. Inr (x \<noteq> None))"

definition has_index_name :: "dbvalue list list \<Rightarrow> u64 \<Rightarrow> string \<Rightarrow> bool res" where
  "has_index_name index_rows tid name = found (find_res (row_matches 0 tid 1 name) index_rows)"

definition find_index :: "row list \<Rightarrow> u64 \<Rightarrow> string \<Rightarrow> index_entry option res" where
  "find_index rows tid name = rbind (table_indexes tid rows) (\<lambda>es. Inr (find (\<lambda>e. ie_name e = name) es))"

definition resolve_schema_id :: "dbvalue list list \<Rightarrow> table_ref \<Rightarrow> u64 res" where
  "resolve_schema_id schema_rows t =
     (if tr_schema t = [] then Inl (Raise Internal)
      else rbind (or_raise SchemaNotFound (find_res (\<lambda>row. rbind (row_str row 1) (\<lambda>s. Inr (s = tr_schema t))) schema_rows)) (\<lambda>row.
        rbind (row_int row 0) (\<lambda>i. Inr (word_of_int i))))"

definition has_table_name :: "dbvalue list list \<Rightarrow> u64 \<Rightarrow> string \<Rightarrow> bool res" where
  "has_table_name table_rows sid name = found (find_res (row_matches 3 sid 1 name) table_rows)"

definition has_table_id :: "dbvalue list list \<Rightarrow> u64 \<Rightarrow> bool res" where
  "has_table_id table_rows tid = found (find_res (\<lambda>row. rbind (row_int row 0) (\<lambda>v. Inr (v = sint tid))) table_rows)"

definition has_schema_name :: "dbvalue list list \<Rightarrow> string \<Rightarrow> bool res" where
  "has_schema_name schema_rows name = found (find_res (\<lambda>row. rbind (row_str row 1) (\<lambda>s. Inr (s = name))) schema_rows)"

text \<open>The rows of the metadata tables that a lookup of a table reads.\<close>

record meta_rows =
  mr_schemas :: "dbvalue list list"
  mr_tables :: "dbvalue list list"
  mr_columns :: "dbvalue list list"
  mr_types :: "dbvalue list list"
  mr_funcs :: "dbvalue list list"

definition find_table_meta :: "meta_rows \<Rightarrow> table_ref \<Rightarrow> table_meta res" where
  "find_table_meta m t =
     rbind (resolve_schema_id (mr_schemas m) t) (\<lambda>sid.
     rbind (or_raise TableNotFound (find_res (row_matches 3 sid 1 (tr_name t)) (mr_tables m))) (\<lambda>row.
     rbind (row_int row 0) (\<lambda>tid. rbind (row_int row 2) (\<lambda>fid.
     rbind (collect_columns (mr_types m) (mr_columns m) (word_of_int tid)) (\<lambda>cols.
       Inr \<lparr>tm_table_id = word_of_int tid, tm_file_id = word_of_int fid, tm_name = tr_name t, tm_cols = cols\<rparr>)))))"

section \<open>What is written is what is read\<close>

definition seed_row :: "type_seed \<Rightarrow> type_row" where
  "seed_row s = \<lparr>tyr_attr = seed_attr s, tyr_name = seed_name s, tyr_alias = (case seed_alias s of None \<Rightarrow> [] | Some a \<Rightarrow> a),
     tyr_len_allowed = seed_len_allowed s, tyr_len_default = seed_len_default s, tyr_len_max = seed_len_max s,
     tyr_scale_allowed = seed_scale_allowed s\<rparr>"

abbreviation built_in_types :: "type_row list" where
  "built_in_types \<equiv> map seed_row kTypeSeeds"

lemma family_code_inverse [simp]: "family_of (family_code f) = f"
  by (cases f) (simp_all add: family_of_def)

lemma rep_code_inverse [simp]: "rep_of (rep_code r) = r"
  by (cases r) (simp_all add: rep_of_def)

lemma store_code_inverse [simp]: "store_of (store_code s) = s"
  by (cases s) (simp_all add: store_of_def)

lemma sint_small: "- (2 ^ 63) \<le> v \<Longrightarrow> v < 2 ^ 63 \<Longrightarrow> sint (word_of_int v :: i64) = v"
  by (simp add: signed_of_int signed_take_bit_int_eq_self)

lemma sint_small_word [simp]:
  "sint (ucast (w8 :: u8) :: i64) = uint w8" "sint (ucast (w16 :: u16) :: i64) = uint w16"
proof -
  have "sint (word_of_int (uint w8) :: i64) = uint w8" by (rule sint_small, rule order_trans [OF _ uint_ge_0]) (use uint_lt2p [of w8] in \<open>simp_all\<close>)
  then show "sint (ucast w8 :: i64) = uint w8" by simp
  have "sint (word_of_int (uint w16) :: i64) = uint w16" by (rule sint_small, rule order_trans [OF _ uint_ge_0]) (use uint_lt2p [of w16] in \<open>simp_all\<close>)
  then show "sint (ucast w16 :: i64) = uint w16" by simp
qed

lemma row_cells [simp]:
  "row_int (x # row) 0 = (case vbox x of BInt64 v \<Rightarrow> Inr (sint v) | _ \<Rightarrow> Inl Critical)"
  "row_int (x # row) (Suc i) = row_int row i"
  "row_str (x # row) 0 = (case vbox x of BStr s \<Rightarrow> Inr s | _ \<Rightarrow> Inl Critical)"
  "row_str (x # row) (Suc i) = row_str row i"
  by (simp_all add: row_int_def row_str_def)

lemma row_cells_num [simp]:
  "row_int (x # row) (numeral k) = row_int row (pred_numeral k)" "row_str (x # row) (numeral k) = row_str row (pred_numeral k)"
  "row_int (x # row) 1 = row_int row 0" "row_str (x # row) 1 = row_str row 0"
  by (simp_all add: numeral_eq_Suc)

lemma flag_cell_read [simp]: "vbox (flag_cell b) = BInt64 (if b then 1 else 0)"
  by (simp add: flag_cell_def int_cell_def value_factories)

lemma int_cell_read [simp]: "vbox (int_cell t v) = BInt64 (word_of_int v)"
  by (simp add: int_cell_def value_factories)

lemma type_rows_read: "map_res parse_type_row type_meta_rows = Inr built_in_types"
  by code_simp

text \<open>A column that db_type admits: its type is a row there, and length and scale are within what the row allows.\<close>

definition col_declared :: "type_row list \<Rightarrow> column_spec \<Rightarrow> bool" where
  "col_declared types c \<longleftrightarrow>
     (case type_by_id types (uint (attr_id (col_type c))) of
        Inl _ \<Rightarrow> False
      | Inr tr \<Rightarrow> tyr_attr tr = col_type c \<and> col_length c \<le> tyr_len_max tr \<and> (tyr_len_allowed tr \<or> col_length c = 0) \<and>
          (if tyr_scale_allowed tr then uint (col_scale c) \<le> uint (col_length c) else col_scale c = 0))"

lemma column_row_read:
  assumes "col_declared types c" "i < 2 ^ 63"
  shows "parse_column_row (column_meta_row tid i c) types = Inr (int i, c)"
proof -
  obtain tr where tr: "type_by_id types (uint (attr_id (col_type c))) = Inr tr" "tyr_attr tr = col_type c"
    "col_length c \<le> tyr_len_max tr" "tyr_len_allowed tr \<or> col_length c = 0"
    "if tyr_scale_allowed tr then uint (col_scale c) \<le> uint (col_length c) else col_scale c = 0"
    using assms(1) by (auto simp: col_declared_def split: sum.splits)
  have i: "sint (word_of_int (int i) :: i64) = int i" using assms(2) by (intro sint_small) auto
  have u: "uint (col_scale c) < 256" using uint_lt2p [of "col_scale c"] by simp
  show ?thesis using tr i u
    by (cases "tyr_len_allowed tr") (auto simp: parse_column_row_def column_meta_row_def value_factories demand_def word_le_def split: if_splits)
qed

lemma column_rows_filter:
  assumes "list_all (col_declared types) cols" "k + length cols < 2 ^ 63"
  shows "map_res (\<lambda>row. rbind (row_int row 0) (\<lambda>t. if t = sint tid then rbind (parse_column_row row types) (\<lambda>p. Inr [p]) else Inr []))
      (map (\<lambda>(i, c). column_meta_row tid i c) (enumerate k cols)) = Inr (map (\<lambda>(i, c). [(int i, c)]) (enumerate k cols))"
  using assms
proof (induction cols arbitrary: k)
  case (Cons c cols)
  have "row_int (column_meta_row tid k c) 0 = Inr (sint tid)" by (simp add: column_meta_row_def value_factories)
  then show ?case using Cons column_row_read [of types c k tid] by simp
qed simp

definition ordinal_pairs :: "nat \<Rightarrow> column_spec list \<Rightarrow> (int \<times> column_spec) list" where
  "ordinal_pairs k cols = map (\<lambda>(i, c). (int i, c)) (enumerate k cols)"

lemma ordinal_pairs_parts [simp]: "map fst (ordinal_pairs k cols) = map int [k..<k + length cols]" "map snd (ordinal_pairs k cols) = cols"
  "concat (map (\<lambda>(i, c). [(int i, c)]) (enumerate k cols)) = ordinal_pairs k cols"
  by (induction cols arbitrary: k) (simp_all add: ordinal_pairs_def upt_conv_Cons del: upt_Suc)

lemma sorted_ordinal_pairs [simp]: "sort_key fst (ordinal_pairs k cols) = ordinal_pairs k cols"
  by (rule sort_key_id_if_sorted) (simp add: sorted_map)

lemma distinct_adjacent: "distinct xs \<Longrightarrow> adjacent_distinct xs"
  by (induction xs rule: adjacent_distinct.induct) auto

text \<open>A row of db_column that belongs to another table.\<close>

definition other_row :: "u64 \<Rightarrow> dbvalue list \<Rightarrow> bool" where
  "other_row tid row \<longleftrightarrow> (case row_int row 0 of Inl _ \<Rightarrow> False | Inr v \<Rightarrow> v \<noteq> sint tid)"

lemma other_rows_skip:
  "list_all (other_row tid) rows \<Longrightarrow>
    map_res (\<lambda>row. rbind (row_int row 0) (\<lambda>t. if t = sint tid then rbind (parse_column_row row types) (\<lambda>p. Inr [p]) else Inr [])) rows
      = Inr (replicate (length rows) [])"
  by (induction rows) (auto simp: other_row_def split: sum.splits)

lemma map_res_append: "map_res f (xs @ ys) = rbind (map_res f xs) (\<lambda>us. rbind (map_res f ys) (\<lambda>vs. Inr (us @ vs)))"
  by (induction xs) (simp_all add: rbind_assoc)

lemma collect_written_columns:
  assumes "map_res parse_type_row type_rows = Inr types" "list_all (col_declared types) cols" "cols \<noteq> []" "length cols < 2 ^ 63"
    and "list_all (other_row tid) before" "list_all (other_row tid) behind"
  shows "collect_columns type_rows (before @ column_meta_rows tid cols @ behind) tid = Inr cols"
proof -
  have "types \<noteq> []" using assms(2,3) by (cases cols) (auto simp: col_declared_def type_by_id_def)
  moreover have "adjacent_distinct (map int [0..<length cols])" by (rule distinct_adjacent) (simp add: distinct_map)
  moreover have "ordinal_pairs 0 cols \<noteq> []" using assms(3) by (cases cols) (simp_all add: ordinal_pairs_def)
  moreover have "concat (replicate n []) = []" for n by (induction n) simp_all
  ultimately show ?thesis
    using assms column_rows_filter [OF assms(2), of 0 tid] other_rows_skip [OF assms(5), of types] other_rows_skip [OF assms(6), of types]
    by (simp add: collect_columns_def column_meta_rows_def map_res_append demand_def Let_def)
qed

end
