(* ===== verification/Analyzer.thy ===== *)
theory Analyzer
  imports Meta Session
begin

text \<open>
  The semantic analysis of src/analyzer: names are resolved against the catalog, expressions are bound
  and typed, the values of INSERT and UPDATE are checked against their columns, SELECT lists and ORDER BY
  keys are resolved. The catalog is a record of its calls; the locales \<^verbatim>\<open>type_catalog\<close> and \<^verbatim>\<open>table_catalog\<close> say what
  the analysis relies on, and prove that an accepted statement is well typed. Catalog interprets them.
\<close>

section \<open>The catalog as the analysis sees it\<close>

text \<open>
  The calls of the catalog: \<^verbatim>\<open>table_meta\<close>, \<^verbatim>\<open>find_type\<close>, \<^verbatim>\<open>require_type\<close>, \<^verbatim>\<open>funcs\<close> and
  \<^verbatim>\<open>bootstrap_mode\<close>. They read, under the lock of the statement.
\<close>

record analyzer_catalog =
  acat_table_meta :: "table_ref \<Rightarrow> table_meta res"
  acat_find_type :: "string \<Rightarrow> type_row res"
  acat_require_type :: "string \<Rightarrow> type_attr res"
  acat_funcs :: "string \<Rightarrow> func_row list res"
  acat_bootstrap_mode :: bool

section \<open>Types and row descriptions\<close>

text \<open>\<^verbatim>\<open>RowDesc\<close>: the first of several columns of a name is found.\<close>

record row_desc =
  rd_cols :: "(string \<times> nat) list"
  rd_col_types :: "type_attr list"

definition build_row_desc :: "table_meta \<Rightarrow> row_desc" where
  "build_row_desc meta =
     \<lparr>rd_cols = zip (map col_name (tm_cols meta)) [0..<length (tm_cols meta)], rd_col_types = map col_type (tm_cols meta)\<rparr>"

definition is_int_type :: "type_attr \<Rightarrow> bool" where
  "is_int_type t = (attr_rep t = RepInt64)"

definition is_float_type :: "type_attr \<Rightarrow> bool" where
  "is_float_type t = (attr_rep t = RepFloat \<or> attr_rep t = RepDouble)"

definition is_text_type :: "type_attr \<Rightarrow> bool" where
  "is_text_type t = (attr_family t = FamText)"

definition is_num_type :: "type_attr \<Rightarrow> bool" where
  "is_num_type t = (attr_family t = FamNum)"

definition check_comparable :: "type_attr \<Rightarrow> type_attr \<Rightarrow> unit res" where
  "check_comparable lt rt =
     (if attr_id lt \<noteq> 0 \<and> attr_id rt \<noteq> 0 \<and> attr_family lt \<noteq> attr_family rt then Inl (Raise ValueMismatch) else Inr ())"

definition map_type_spec :: "analyzer_catalog \<Rightarrow> string \<Rightarrow> int option \<Rightarrow> int option \<Rightarrow> (type_attr \<times> u16 \<times> u8) res" where
  "map_type_spec db type len scl =
     rbind (acat_find_type db type) (\<lambda>row.
       if \<not> tyr_len_allowed row \<and> len \<noteq> None then Inl (Raise InvalidType)
       else let n = (case len of Some n \<Rightarrow> n | None \<Rightarrow> int (unat (tyr_len_default row))) in
         if len \<noteq> None \<and> (n \<le> 0 \<or> n > int (unat (tyr_len_max row))) then Inl (Raise InvalidType)
         else if \<not> tyr_scale_allowed row \<and> scl \<noteq> None then Inl (Raise InvalidType)
         else let s = (case scl of Some s \<Rightarrow> s | None \<Rightarrow> 0) in
           if s < 0 \<or> s > n then Inl (Raise InvalidType)
           else Inr (tyr_attr row, word_of_int n, word_of_int s))"

section \<open>Binding expressions\<close>

text \<open>The first overload whose argument types are, one by one, those of the arguments.\<close>

definition find_overload :: "func_row list \<Rightarrow> type_attr list \<Rightarrow> func_row option" where
  "find_overload overloads arg_types =
     find (\<lambda>row. length (fnr_args row) = length arg_types \<and> list_all2 (\<lambda>a t. attr_id a = attr_id t) (fnr_args row) arg_types) overloads"

definition bind_func_call ::
  "analyzer_catalog \<Rightarrow> string \<Rightarrow> (bound_expr \<times> type_attr) list res \<Rightarrow> (bound_expr \<times> type_attr) res" where
  "bind_func_call db name bound_args =
     rbind (acat_funcs db name) (\<lambda>overloads.
       if overloads = [] then Inl (Raise UnknownFunction)
       else rbind bound_args (\<lambda>args.
         case find_overload overloads (map snd args) of
           None \<Rightarrow> Inl (Raise ValueMismatch)
         | Some row \<Rightarrow> Inr (BoundFuncCall (fnr_id row) name (fnr_strict_null row) (fnr_ret row) (map fst args), fnr_ret row)))"

definition bind_int :: "analyzer_catalog \<Rightarrow> string \<Rightarrow> (bound_expr \<times> type_attr) res" where
  "bind_int db s =
     (case from_chars_i64 s of
        Some (v, []) \<Rightarrow>
          rbind (acat_require_type db (if sint v \<ge> INT32_MIN \<and> sint v \<le> INT32_MAX then ''int'' else ''bigint''))
            (\<lambda>t. Inr (BoundConst (int_val t v), t))
      | _ \<Rightarrow> Inl (Raise ArithError))"

definition bind_float :: "analyzer_catalog \<Rightarrow> string \<Rightarrow> (bound_expr \<times> type_attr) res" where
  "bind_float db s =
     (case from_chars_f64 s of
        Some (v, []) \<Rightarrow> rbind (acat_require_type db ''double'') (\<lambda>t. Inr (BoundConst (double_val t v), t))
      | _ \<Rightarrow> Inl (Raise ArithError))"

definition bind_decimal :: "analyzer_catalog \<Rightarrow> string \<Rightarrow> (bound_expr \<times> type_attr) res" where
  "bind_decimal db s =
     rbind (parse_decimal_text s) (\<lambda>d.
     rbind (acat_require_type db ''numeric'') (\<lambda>t. Inr (BoundConst (numeric_val t (unscaled d) (dscale d)), t)))"

definition bind_column :: "row_desc option \<Rightarrow> string \<Rightarrow> (bound_expr \<times> type_attr) res" where
  "bind_column rd name =
     (case rd of
        None \<Rightarrow> Inl (Raise ValueMismatch)
      | Some rd \<Rightarrow>
          (case map_of (rd_cols rd) name of
             None \<Rightarrow> Inl (Raise UnknownColumn)
           | Some i \<Rightarrow> let t = rd_col_types rd ! i in Inr (BoundColRef i t, t)))"

definition not_of :: "(type_attr \<Rightarrow> bool) \<Rightarrow> type_attr \<Rightarrow> bool" where
  "not_of P t = (\<not> P t \<and> attr_id t \<noteq> 0)"

definition is_bool_family :: "type_attr \<Rightarrow> bool" where
  "is_bool_family t = (attr_family t = FamBool)"

definition bind_arith ::
  "analyzer_catalog \<Rightarrow> char \<Rightarrow> bound_expr \<times> type_attr \<Rightarrow> bound_expr \<times> type_attr \<Rightarrow> (bound_expr \<times> type_attr) res" where
  "bind_arith db op lb rb =
     (case (lb, rb) of ((l, lt), (r, rt)) \<Rightarrow>
        if not_of is_num_type lt \<or> not_of is_num_type rt then Inl (Raise ValueMismatch)
        else rbind (if (attr_rep lt = RepDec \<and> attr_rep rt = RepFloat) \<or> (attr_rep lt = RepFloat \<and> attr_rep rt = RepDec)
                    then acat_require_type db ''double''
                    else Inr (if attr_rank lt \<ge> attr_rank rt then lt else rt))
               (\<lambda>t. Inr (BoundArith op t l r, t)))"

definition cast_is_plain :: "type_attr \<Rightarrow> u16 \<Rightarrow> bool" where
  "cast_is_plain t len =
     (if attr_rep t = RepDec then len = 0
      else attr_family t \<noteq> FamText \<or> (attr_store t = StoreVarLen \<and> len = 0))"

fun bind_expr :: "analyzer_catalog \<Rightarrow> row_desc option \<Rightarrow> expr \<Rightarrow> (bound_expr \<times> type_attr) res" where
  "bind_expr db rd (IntExpr s) = bind_int db s"
| "bind_expr db rd (FloatExpr s) = bind_float db s"
| "bind_expr db rd (DecimalExpr s) = bind_decimal db s"
| "bind_expr db rd (StringExpr v) = rbind (acat_require_type db ''varchar'') (\<lambda>t. Inr (BoundConst (str_val t v), t))"
| "bind_expr db rd NullExpr = Inr (BoundConst null_val, no_type)"
| "bind_expr db rd (BoolExpr v) = rbind (acat_require_type db ''boolean'') (\<lambda>t. Inr (BoundConst (bool_val t v), t))"
| "bind_expr db rd (IdentifierExpr name) = bind_column rd name"
| "bind_expr db rd (BinaryOpExpr op a b) =
     rbind (bind_expr db rd a) (\<lambda>l. rbind (bind_expr db rd b) (\<lambda>r. bind_arith db op l r))"
| "bind_expr db rd (UnaryOpExpr op a) =
     rbind (bind_expr db rd a) (\<lambda>(x, t).
       if not_of is_num_type t then Inl (Raise ValueMismatch)
       else if op = CHR ''+'' then Inr (x, t)
       else Inr (BoundNeg t x, t))"
| "bind_expr db rd (CompareExpr op a b) =
     rbind (bind_expr db rd a) (\<lambda>(l, lt). rbind (bind_expr db rd b) (\<lambda>(r, rt).
     rbind (check_comparable lt rt) (\<lambda>_.
     rbind (acat_require_type db ''boolean'') (\<lambda>t. Inr (BoundCmp op l r, t)))))"
| "bind_expr db rd (LogicExpr op a b) =
     rbind (bind_expr db rd a) (\<lambda>(l, lt). rbind (bind_expr db rd b) (\<lambda>(r, rt).
       if not_of is_bool_family lt \<or> not_of is_bool_family rt then Inl (Raise ValueMismatch)
       else rbind (acat_require_type db ''boolean'') (\<lambda>t. Inr (BoundLogic op l r, t))))"
| "bind_expr db rd (NotExpr a) =
     rbind (bind_expr db rd a) (\<lambda>(x, xt).
       if not_of is_bool_family xt then Inl (Raise ValueMismatch)
       else rbind (acat_require_type db ''boolean'') (\<lambda>t. Inr (BoundNot x, t)))"
| "bind_expr db rd (IsNullExpr a negate) =
     rbind (bind_expr db rd a) (\<lambda>(x, xt).
     rbind (acat_require_type db ''boolean'') (\<lambda>t. Inr (BoundIsNull x negate, t)))"
| "bind_expr db rd (BetweenExpr x lo hi) =
     rbind (bind_expr db rd x) (\<lambda>(x1, _). rbind (bind_expr db rd lo) (\<lambda>(l, lot).
     rbind (bind_expr db rd x) (\<lambda>(x2, xt). rbind (bind_expr db rd hi) (\<lambda>(h, hit).
     rbind (check_comparable xt lot) (\<lambda>_. rbind (check_comparable xt hit) (\<lambda>_.
     rbind (acat_require_type db ''boolean'') (\<lambda>t.
       Inr (BoundLogic LogicAnd (BoundCmp CmpGe x1 l) (BoundCmp CmpLe x2 h), t))))))))"
| "bind_expr db rd (FuncCallExpr name args) = bind_func_call db name (map_res (bind_expr db rd) args)"
| "bind_expr db rd (CastExpr a target) =
     rbind (bind_expr db rd a) (\<lambda>(x, xt).
     rbind (map_type_spec db (ti_type target) (ti_length target) (ti_scale target)) (\<lambda>(t, len, scl).
       Inr (if xt = t \<and> cast_is_plain t len then x else BoundCast t len scl x, t)))"

definition bind_where :: "analyzer_catalog \<Rightarrow> row_desc \<Rightarrow> expr \<Rightarrow> bound_expr res" where
  "bind_where db rd e =
     rbind (bind_expr db (Some rd) e) (\<lambda>(pred, t).
       if not_of is_bool_family t then Inl (Raise ValueMismatch) else Inr pred)"

fun has_col_ref :: "expr \<Rightarrow> bool" where
  "has_col_ref (IdentifierExpr name) = True"
| "has_col_ref (BinaryOpExpr op a b) = (has_col_ref a \<or> has_col_ref b)"
| "has_col_ref (UnaryOpExpr op a) = has_col_ref a"
| "has_col_ref (CompareExpr op a b) = (has_col_ref a \<or> has_col_ref b)"
| "has_col_ref (LogicExpr op a b) = (has_col_ref a \<or> has_col_ref b)"
| "has_col_ref (NotExpr a) = has_col_ref a"
| "has_col_ref (IsNullExpr a negate) = has_col_ref a"
| "has_col_ref (BetweenExpr x lo hi) = (has_col_ref x \<or> has_col_ref lo \<or> has_col_ref hi)"
| "has_col_ref (FuncCallExpr name args) = list_ex has_col_ref args"
| "has_col_ref (CastExpr a target) = has_col_ref a"
| "has_col_ref _ = False"

section \<open>Values against columns\<close>

definition check_assignment_type :: "type_attr \<Rightarrow> column_spec \<Rightarrow> unit res" where
  "check_assignment_type t col =
     (let untyped = (attr_id t = 0);
          accept = (\<lambda>ok. if ok then Inr () else Inl (Raise ValueMismatch))
      in case attr_rep (col_type col) of
           RepInt64 \<Rightarrow> accept (is_int_type t \<or> untyped)
         | RepFloat \<Rightarrow> accept (is_int_type t \<or> is_float_type t \<or> attr_rep t = RepDec \<or> untyped)
         | RepDouble \<Rightarrow> accept (is_int_type t \<or> is_float_type t \<or> attr_rep t = RepDec \<or> untyped)
         | RepStr \<Rightarrow> accept (is_text_type t \<or> untyped)
         | RepBool \<Rightarrow> accept (attr_rep t = RepBool \<or> untyped)
         | RepDec \<Rightarrow> accept (is_int_type t \<or> attr_rep t = RepDec \<or> untyped)
         | RepNone \<Rightarrow> Inl (Raise Internal))"

text \<open>A floating literal for a float column has to be representable there.\<close>

definition float_literal_fits :: "string \<Rightarrow> bool res" where
  "float_literal_fits s =
     (case from_chars_f64 s of
        Some (d, []) \<Rightarrow> Inr (\<not> fp_isfinite F64 d \<or> fp_isfinite F32 (f64_to_f32 d))
      | _ \<Rightarrow> Inl (Raise Internal))"

definition check_value_type :: "expr \<Rightarrow> type_attr \<Rightarrow> column_spec \<Rightarrow> unit res" where
  "check_value_type e t col =
     rbind (check_assignment_type t col) (\<lambda>_.
     rbind (case e of
              FloatExpr s \<Rightarrow> if attr_rep (col_type col) = RepFloat then float_literal_fits s else Inr True
            | DecimalExpr s \<Rightarrow> if attr_rep (col_type col) = RepFloat then float_literal_fits s else Inr True
            | StringExpr s \<Rightarrow>
                Inr (attr_rep (col_type col) = RepStr \<longrightarrow> col_length col = 0 \<or> length s \<le> unat (col_length col))
            | _ \<Rightarrow> Inr True) (\<lambda>ok.
       if ok then Inr () else Inl (Raise ValueMismatch)))"

section \<open>INSERT\<close>

record insert_targets =
  it_target :: "nat list"
  it_specified :: "bool list"

fun resolve_columns :: "(string \<times> nat) list \<Rightarrow> string list \<Rightarrow> insert_targets \<Rightarrow> insert_targets res" where
  "resolve_columns cols [] t = Inr t"
| "resolve_columns cols (name # names) t =
     (case map_of cols name of
        None \<Rightarrow> Inl (Raise UnknownColumn)
      | Some i \<Rightarrow>
          if it_specified t ! i then Inl (Raise ValueMismatch)
          else resolve_columns cols names
                 (t\<lparr>it_specified := (it_specified t)[i := True], it_target := it_target t @ [i]\<rparr>))"

definition resolve_insert_targets :: "string list \<Rightarrow> table_meta \<Rightarrow> insert_targets res" where
  "resolve_insert_targets columns meta =
     (let n = length (tm_cols meta) in
      if columns = [] then Inr \<lparr>it_target = [0..<n], it_specified = replicate n True\<rparr>
      else resolve_columns (rd_cols (build_row_desc meta)) columns \<lparr>it_target = [], it_specified = replicate n False\<rparr>)"

definition place_values :: "nat list \<Rightarrow> bound_expr list \<Rightarrow> bound_expr option list \<Rightarrow> bound_expr option list" where
  "place_values target bound row = foldl (\<lambda>row (i, b). row[i := Some b]) row (zip target bound)"

definition bind_insert_row ::
  "analyzer_catalog \<Rightarrow> table_meta \<Rightarrow> insert_targets \<Rightarrow> expr list \<Rightarrow> bound_expr list res" where
  "bind_insert_row db meta t vals =
     rbind (map_res (bind_expr db None) vals) (\<lambda>bound.
       if length vals \<noteq> length (it_target t) then Inl (Raise ValueMismatch)
       else if list_ex (\<lambda>i. \<not> it_specified t ! i \<and> col_not_null (tm_cols meta ! i)) [0..<length (tm_cols meta)]
         then Inl (Raise ValueMismatch)
       else rbind (map_res (\<lambda>(e, (b, ty), i). check_value_type e ty (tm_cols meta ! i)) (zip vals (zip bound (it_target t)))) (\<lambda>_.
         Inr (map (\<lambda>x. case x of Some b \<Rightarrow> b | None \<Rightarrow> BoundConst null_val)
           (place_values (it_target t) (map fst bound) (replicate (length (tm_cols meta)) None)))))"

section \<open>SELECT\<close>

definition proj_name :: "select_item \<Rightarrow> expr \<Rightarrow> string" where
  "proj_name item e =
     (if si_alias item \<noteq> [] then si_alias item
      else case e of IdentifierExpr name \<Rightarrow> name | _ \<Rightarrow> expr_to_string e)"

text \<open>An item that is not the star has an expression.\<close>

definition bind_proj_item :: "analyzer_catalog \<Rightarrow> row_desc \<Rightarrow> select_item \<Rightarrow> (proj_col \<times> expr option) res" where
  "bind_proj_item db rd item =
     (case si_expr item of
        None \<Rightarrow> Inl Crash
      | Some e \<Rightarrow> rbind (bind_expr db (Some rd) e) (\<lambda>(b, t).
          Inr (\<lparr>pc_expr = Some b, pc_name = proj_name item e, pc_col_idx = 0\<rparr>, Some e)))"

text \<open>\<^verbatim>\<open>ProjBind\<close>: each projection with the expression it comes from, if it is not part of a star.\<close>

type_synonym proj_bind = "(proj_col \<times> expr option) list"

definition star_cols :: "table_meta \<Rightarrow> proj_bind" where
  "star_cols meta =
     map (\<lambda>i. (\<lparr>pc_expr = None, pc_name = col_name (tm_cols meta ! i), pc_col_idx = i\<rparr>, None)) [0..<length (tm_cols meta)]"

definition build_projs :: "analyzer_catalog \<Rightarrow> table_meta \<Rightarrow> row_desc \<Rightarrow> select_item list \<Rightarrow> proj_bind res" where
  "build_projs db meta rd items =
     rbind (map_res (\<lambda>item. if si_star item then Inr (star_cols meta)
                            else rbind (bind_proj_item db rd item) (\<lambda>p. Inr [p])) items) (\<lambda>pss. Inr (concat pss))"

definition build_projs_no_from :: "analyzer_catalog \<Rightarrow> row_desc \<Rightarrow> select_item list \<Rightarrow> proj_bind res" where
  "build_projs_no_from db rd items =
     map_res (\<lambda>item. if si_star item then Inl (Raise StarNoFrom) else bind_proj_item db rd item) items"

datatype order_key_bind = OutKey nat | ExprKey bound_expr

definition resolve_order_key ::
  "analyzer_catalog \<Rightarrow> proj_bind \<Rightarrow> row_desc \<Rightarrow> expr \<Rightarrow> order_key_bind res" where
  "resolve_order_key db pb rd e =
     (let row_context = rbind (bind_expr db (Some rd) e) (\<lambda>(b, t). Inr (ExprKey b)) in
      case e of
        IntExpr s \<Rightarrow>
          (case from_chars_i64 s of
             Some (pos, []) \<Rightarrow>
               if sint pos < 1 \<or> sint pos > int (length pb) then Inl (Raise UnknownColumn)
               else Inr (OutKey (nat (sint pos - 1)))
           | _ \<Rightarrow> Inl (Raise UnknownColumn))
      | IdentifierExpr name \<Rightarrow>
          (case filter (\<lambda>i. pc_name (fst (pb ! i)) = name) [0..<length pb] of
             [] \<Rightarrow> row_context
           | [i] \<Rightarrow> Inr (OutKey i)
           | _ \<Rightarrow> Inl (Raise ValueMismatch))
      | FloatExpr _ \<Rightarrow> Inl (Raise ValueMismatch)
      | DecimalExpr _ \<Rightarrow> Inl (Raise ValueMismatch)
      | StringExpr _ \<Rightarrow> Inl (Raise ValueMismatch)
      | NullExpr \<Rightarrow> Inl (Raise ValueMismatch)
      | BoolExpr _ \<Rightarrow> Inl (Raise ValueMismatch)
      | _ \<Rightarrow> row_context)"

definition is_out_key :: "order_key_bind \<Rightarrow> bool" where
  "is_out_key k = (case k of OutKey _ \<Rightarrow> True | ExprKey _ \<Rightarrow> False)"

text \<open>A key as an expression over the rows before projection.\<close>

definition row_order_expr :: "analyzer_catalog \<Rightarrow> proj_bind \<Rightarrow> row_desc \<Rightarrow> order_key_bind \<Rightarrow> bound_expr res" where
  "row_order_expr db pb rd k =
     (case k of
        ExprKey b \<Rightarrow> Inr b
      | OutKey i \<Rightarrow>
          (case snd (pb ! i) of
             Some e \<Rightarrow> rbind (bind_expr db (Some rd) e) (\<lambda>(b, t). Inr b)
           | None \<Rightarrow> let idx = pc_col_idx (fst (pb ! i)) in Inr (BoundColRef idx (rd_col_types rd ! idx))))"

definition out_order_item :: "order_item \<times> order_key_bind \<Rightarrow> bound_order_item" where
  "out_order_item x = (case x of (item, k) \<Rightarrow>
     \<lparr>bo_desc = oi_desc item, bo_out_idx = (case k of OutKey i \<Rightarrow> i | ExprKey _ \<Rightarrow> 0), bo_expr = None\<rparr>)"

definition bind_orders ::
  "analyzer_catalog \<Rightarrow> proj_bind \<Rightarrow> row_desc \<Rightarrow> order_item list \<Rightarrow> (bound_order_item list \<times> bool) res" where
  "bind_orders db pb rd items =
     rbind (map_res (\<lambda>item. resolve_order_key db pb rd (oi_expr item)) items) (\<lambda>keys.
       if list_all is_out_key keys then Inr (map out_order_item (zip items keys), True)
       else rbind (map_res (\<lambda>(item, k). rbind (row_order_expr db pb rd k) (\<lambda>b.
                Inr \<lparr>bo_desc = oi_desc item, bo_out_idx = 0, bo_expr = Some b\<rparr>)) (zip items keys)) (\<lambda>orders.
              Inr (orders, False)))"

section \<open>Statements\<close>

definition convert_columns :: "analyzer_catalog \<Rightarrow> column_def list \<Rightarrow> column_spec list res" where
  "convert_columns db defs =
     map_res (\<lambda>d. rbind (map_type_spec db (cd_type d) (cd_length d) (cd_scale d)) (\<lambda>(t, len, scl).
       Inr \<lparr>col_name = cd_name d, col_type = t, col_length = len, col_not_null = cd_not_null d, col_scale = scl\<rparr>)) defs"

definition check_reserved_table :: "table_ref \<Rightarrow> unit res" where
  "check_reserved_table t = (if tr_schema t = ''system'' then Inl (Raise ProtectedTable) else Inr ())"

definition to_table_ref :: "qualified_name \<Rightarrow> string \<Rightarrow> table_ref" where
  "to_table_ref q current_schema =
     \<lparr>tr_schema = (if qn_schema q = [] then current_schema else qn_schema q), tr_name = qn_name q\<rparr>"

definition table_ref_to_string :: "table_ref \<Rightarrow> string" where
  "table_ref_to_string t = (if tr_schema t = [] then tr_name t else tr_schema t @ ''.'' @ tr_name t)"

definition table_handle_of :: "analyzer_catalog \<Rightarrow> table_ref \<Rightarrow> table_handle res" where
  "table_handle_of db t =
     rbind (acat_table_meta db t) (\<lambda>meta. Inr \<lparr>th_meta = meta, th_display = table_ref_to_string t\<rparr>)"

definition writable_handle :: "analyzer_catalog \<Rightarrow> table_ref \<Rightarrow> table_handle res" where
  "writable_handle db t = rbind (check_reserved_table t) (\<lambda>_. table_handle_of db t)"

definition parse_create_index :: "analyzer_catalog \<Rightarrow> string \<Rightarrow> table_ref \<Rightarrow> string \<Rightarrow> bound_stmt res" where
  "parse_create_index db index t column =
     rbind (writable_handle db t) (\<lambda>h.
       case find (\<lambda>i. col_name (tm_cols (th_meta h) ! i) = column) [0..<length (tm_cols (th_meta h))] of
         None \<Rightarrow> Inl (Raise UnknownColumn)
       | Some i \<Rightarrow>
           if attr_rep (col_type (tm_cols (th_meta h) ! i)) \<in> {RepDec, RepStr, RepNone} then Inl (Raise InvalidType)
           else Inr (BoundCreateIndex h index (word_of_nat i)))"

definition parse_insert :: "analyzer_catalog \<Rightarrow> table_ref \<Rightarrow> string list \<Rightarrow> expr list list \<Rightarrow> bound_stmt res" where
  "parse_insert db t columns rows =
     rbind (if acat_bootstrap_mode db then Inr () else check_reserved_table t) (\<lambda>_.
     rbind (table_handle_of db t) (\<lambda>h.
     rbind (resolve_insert_targets columns (th_meta h)) (\<lambda>targets.
     rbind (map_res (bind_insert_row db (th_meta h) targets) rows) (\<lambda>rows. Inr (BoundInsert h rows)))))"

fun bind_assigns ::
  "analyzer_catalog \<Rightarrow> table_meta \<Rightarrow> update_item list \<Rightarrow> bound_update_item list \<Rightarrow> bound_update_item list res" where
  "bind_assigns db meta [] acc = Inr acc"
| "bind_assigns db meta (item # items) acc =
     (let rd = build_row_desc meta in
      case map_of (rd_cols rd) (ui_column item) of
        None \<Rightarrow> Inl (Raise UnknownColumn)
      | Some i \<Rightarrow>
          if list_ex (\<lambda>a. bu_col_idx a = i) acc then Inl (Raise ValueMismatch)
          else rbind (bind_expr db (Some rd) (ui_value item)) (\<lambda>(b, t).
            let col = tm_cols meta ! i in
            rbind (if has_col_ref (ui_value item) then check_assignment_type t col else check_value_type (ui_value item) t col) (\<lambda>_.
              bind_assigns db meta items (acc @ [\<lparr>bu_col_idx = i, bu_value = b\<rparr>]))))"

definition bind_where_opt :: "analyzer_catalog \<Rightarrow> row_desc \<Rightarrow> expr option \<Rightarrow> bound_expr option res" where
  "bind_where_opt db rd wh =
     (case wh of None \<Rightarrow> Inr None | Some e \<Rightarrow> rbind (bind_where db rd e) (\<lambda>p. Inr (Some p)))"

definition parse_update ::
  "analyzer_catalog \<Rightarrow> table_ref \<Rightarrow> update_item list \<Rightarrow> expr option \<Rightarrow> bound_stmt res" where
  "parse_update db t items wh =
     rbind (writable_handle db t) (\<lambda>h.
     rbind (bind_assigns db (th_meta h) items []) (\<lambda>assigns.
     rbind (bind_where_opt db (build_row_desc (th_meta h)) wh) (\<lambda>wh. Inr (BoundUpdate h assigns wh))))"

definition bind_select_orders ::
  "analyzer_catalog \<Rightarrow> proj_bind \<Rightarrow> row_desc \<Rightarrow> order_item list \<Rightarrow> (bound_order_item list \<times> bool) res" where
  "bind_select_orders db pb rd orders = (if orders = [] then Inr ([], False) else bind_orders db pb rd orders)"

definition analyze_select :: "analyzer_catalog \<Rightarrow> select_stmt \<Rightarrow> string \<Rightarrow> bound_stmt res" where
  "analyze_select db s current_schema =
     rbind (table_handle_of db (to_table_ref (sel_table s) current_schema)) (\<lambda>h.
     let rd = build_row_desc (th_meta h) in
     rbind (bind_where_opt db rd (sel_where s)) (\<lambda>wh.
     rbind (build_projs db (th_meta h) rd (sel_items s)) (\<lambda>pb.
     rbind (bind_select_orders db pb rd (sel_orders s)) (\<lambda>(orders, on_output).
       Inr (BoundSelect \<lparr>bs_table = h, bs_projs = map fst pb, bs_where = wh, bs_orders = orders, bs_sort_on_output = on_output\<rparr>)))))"

definition analyze_select_no_from :: "analyzer_catalog \<Rightarrow> select_no_from_stmt \<Rightarrow> bound_stmt res" where
  "analyze_select_no_from db s =
     (let rd = \<lparr>rd_cols = [], rd_col_types = []\<rparr> in
      rbind (bind_where_opt db rd (snf_where s)) (\<lambda>wh.
      rbind (build_projs_no_from db rd (snf_items s)) (\<lambda>pb.
      rbind (bind_select_orders db pb rd (snf_orders s)) (\<lambda>(orders, on_output).
        Inr (BoundSelectNoFrom \<lparr>bn_projs = map fst pb, bn_where = wh, bn_orders = orders, bn_sort_on_output = on_output\<rparr>)))))"

text \<open>\<^verbatim>\<open>from_chars\<close> into \<^verbatim>\<open>uint64_t\<close>: digits only, within the range.\<close>

definition from_chars_u64 :: "string \<Rightarrow> (u64 \<times> string) option" where
  "from_chars_u64 s =
     (let ds = takeWhile is_digit s; v = digits_val 0 ds
      in if ds = [] \<or> v \<ge> 2 ^ 64 then None else Some (word_of_int v, dropWhile is_digit s))"

definition analyze_set :: "analyzer_catalog \<Rightarrow> string \<Rightarrow> string \<Rightarrow> bound_stmt res" where
  "analyze_set db var v =
     (if \<not> acat_bootstrap_mode db then Inl (Raise NotImplemented)
      else if var \<noteq> ''table_id'' then Inl (Raise UnknownVar)
      else case from_chars_u64 v of
        Some (x, []) \<Rightarrow> Inr (BoundSet SetTableId x)
      | _ \<Rightarrow> Inl (Raise InvalidVarValue))"

fun analyze :: "analyzer_catalog \<Rightarrow> sql_statement \<Rightarrow> string \<Rightarrow> bound_stmt res" where
  "analyze db (CreateTableStmt q defs) sch =
     (let t = to_table_ref q sch in
      rbind (if acat_bootstrap_mode db then Inr () else check_reserved_table t) (\<lambda>_.
      rbind (convert_columns db defs) (\<lambda>cols. Inr (BoundCreateTable t cols))))"
| "analyze db (DropTableStmt q) sch = rbind (writable_handle db (to_table_ref q sch)) (\<lambda>h. Inr (BoundDropTable h))"
| "analyze db (CreateSchemaStmt s) sch = Inr (BoundCreateSchema s)"
| "analyze db (DropSchemaStmt s) sch = Inr (BoundDropSchema s)"
| "analyze db (CreateIndexStmt i q c) sch = parse_create_index db i (to_table_ref q sch) c"
| "analyze db (DropIndexStmt i q) sch = rbind (writable_handle db (to_table_ref q sch)) (\<lambda>h. Inr (BoundDropIndex h i))"
| "analyze db (InsertStmt q columns rows) sch = parse_insert db (to_table_ref q sch) columns rows"
| "analyze db (DeleteStmt q wh) sch =
     rbind (writable_handle db (to_table_ref q sch)) (\<lambda>h.
     rbind (bind_where_opt db (build_row_desc (th_meta h)) wh) (\<lambda>wh. Inr (BoundDelete h wh)))"
| "analyze db (UpdateStmt q items wh) sch = parse_update db (to_table_ref q sch) items wh"
| "analyze db (SelectStmt s) sch = analyze_select db s sch"
| "analyze db (SelectNoFromStmt s) sch = analyze_select_no_from db s"
| "analyze db (ExplainStmt s) sch = rbind (analyze db s sch) (\<lambda>b. Inr (BoundExplain b))"
| "analyze db (SetStmt var v form) sch = analyze_set db var v"
| "analyze db BeginStmt sch = Inl (Raise UnknownStmt)"
| "analyze db CommitStmt sch = Inl (Raise UnknownStmt)"
| "analyze db RollbackStmt sch = Inl (Raise UnknownStmt)"

section \<open>Type soundness of binding\<close>

definition seed_types :: "type_attr set" where
  "seed_types = {kInt, kBigint, kDouble, kVarChar, kFloat, kChar, kBool, kNumeric}"

lemma seed_attrs: "set (map seed_attr kTypeSeeds) = seed_types"
  by (simp add: kTypeSeeds_def mk_seed_def seed_types_def)

lemma seed_cases:
  assumes "t \<in> seed_types"
  obtains "t = kInt" | "t = kBigint" | "t = kDouble" | "t = kVarChar" | "t = kFloat" | "t = kChar" | "t = kBool" | "t = kNumeric"
  using assms by (auto simp: seed_types_def)

lemma seed_sane [simp]: "t \<in> seed_types \<Longrightarrow> attr_sane t"
  by (auto simp: seed_types_def attr_sane_def seed_attr_defs)

lemma seed_id: "t \<in> seed_types \<Longrightarrow> attr_id t \<noteq> 0"
  by (auto simp: seed_types_def seed_attr_defs)

lemma seed_id_inj: "s \<in> seed_types \<Longrightarrow> t \<in> seed_types \<Longrightarrow> attr_id s = attr_id t \<Longrightarrow> s = t"
  by (auto simp: seed_types_def seed_attr_defs)

lemma seed_bool: "t \<in> seed_types \<Longrightarrow> attr_family t = FamBool \<Longrightarrow> t = kBool"
  by (auto simp: seed_types_def seed_attr_defs)

lemma seed_mem [simp]: "kInt \<in> seed_types" "kBigint \<in> seed_types" "kDouble \<in> seed_types" "kVarChar \<in> seed_types"
  "kBool \<in> seed_types" "kNumeric \<in> seed_types"
  by (simp_all add: seed_types_def)

lemma seed_reps [simp]: "attr_rep kInt = RepInt64" "attr_rep kBigint = RepInt64" "attr_rep kDouble = RepDouble" "attr_rep kVarChar = RepStr"
  "attr_rep kNumeric = RepDec"
  by (simp_all add: seed_attr_defs)

lemma no_type_simps [simp]: "attr_id no_type = 0" "attr_rep no_type = RepNone" "attr_rank no_type = 0"
  "attr_family no_type = FamNone"
  by (simp_all add: no_type_def)

text \<open>
  The type an expression is bound with: one of the types of db_type, for which the tree is well
  typed, or none, which only NULL and arithmetic on NULL have.
\<close>

definition bound_ok :: "type_attr list \<Rightarrow> bound_expr \<Rightarrow> type_attr \<Rightarrow> bool" where
  "bound_ok cols b t \<longleftrightarrow> (t = no_type \<and> null_tree b) \<or> (t \<in> seed_types \<and> wt cols b t)"

lemma bound_ok_cases:
  assumes "bound_ok cols b t"
  obtains "t = no_type" "null_tree b" "\<And>s. attr_sane s \<Longrightarrow> wt cols b s" | "t \<in> seed_types" "wt cols b t" "attr_id t \<noteq> 0"
  using assms wt_null seed_id by (auto simp: bound_ok_def)

definition type_names :: "(string \<times> type_attr) list" where
  "type_names = [(''int'', kInt), (''bigint'', kBigint), (''double'', kDouble), (''varchar'', kVarChar), (''boolean'', kBool),
     (''numeric'', kNumeric)]"

text \<open>An overload agrees with the built-in function of its number.\<close>

definition func_ok :: "func_row \<Rightarrow> bool" where
  "func_ok row \<longleftrightarrow> fnr_strict_null row \<and> unat (fnr_id row) < length func_sigs \<and> fnr_id row \<noteq> 0 \<and>
     func_sigs ! unat (fnr_id row) = (map attr_rep (fnr_args row), attr_rep (fnr_ret row)) \<and>
     set (fnr_args row) \<subseteq> seed_types \<and> fnr_ret row \<in> seed_types"

definition desc_ok :: "row_desc option \<Rightarrow> type_attr list \<Rightarrow> bool" where
  "desc_ok rd cols \<longleftrightarrow> (case rd of None \<Rightarrow> True
     | Some d \<Rightarrow> rd_col_types d = cols \<and> (\<forall>(n, i) \<in> set (rd_cols d). i < length cols) \<and> set cols \<subseteq> seed_types)"

lemma bool_pair:
  assumes "bound_ok cols b t" "\<not> not_of is_bool_family t"
  shows "wt cols b kBool"
  using assms by (cases rule: bound_ok_cases) (auto simp: not_of_def is_bool_family_def dest: seed_bool)

lemma comparable_pair:
  assumes "bound_ok cols l lt" "bound_ok cols r rt" "check_comparable lt rt = Inr u"
  shows "wt cols (BoundCmp op l r) kBool"
proof -
  have i: "attr_sane kInt" by (simp add: attr_sane_def seed_attr_defs)
  from assms(1) show ?thesis
  proof (cases rule: bound_ok_cases)
    case l: 1
    from assms(2) show ?thesis
    proof (cases rule: bound_ok_cases)
      case 1
      then show ?thesis using wt_cmp [OF l(3) [OF i] 1(3) [OF i] i i] by simp
    next
      case 2
      then show ?thesis using wt_cmp [OF l(3) 2(2), of rt op] seed_sane [OF 2(1)] by simp
    qed
  next
    case l: 2
    from assms(2) show ?thesis
    proof (cases rule: bound_ok_cases)
      case 1
      then show ?thesis using wt_cmp [OF l(2) 1(3), of lt op] seed_sane [OF l(1)] by simp
    next
      case 2
      then have "attr_family lt = attr_family rt" using l assms(3) by (auto simp: check_comparable_def split: if_splits)
      then show ?thesis using l 2 by (auto intro: wt_cmp)
    qed
  qed
qed

lemma num_family: "t \<in> seed_types \<Longrightarrow> \<not> not_of is_num_type t \<Longrightarrow> t \<in> {kInt, kBigint, kNumeric, kFloat, kDouble}"
  by (erule seed_cases) (simp_all add: not_of_def is_num_type_def seed_attr_defs)

lemma num_promote:
  assumes "s \<in> {kInt, kBigint, kNumeric, kFloat, kDouble}" "t \<in> {kInt, kBigint, kNumeric, kFloat, kDouble}"
    "\<not> ((attr_rep s = RepDec \<and> attr_rep t = RepFloat) \<or> (attr_rep s = RepFloat \<and> attr_rep t = RepDec))"
  shows "cast_allowed s (if attr_rank s \<ge> attr_rank t then s else t) Implicit \<and>
    cast_allowed t (if attr_rank s \<ge> attr_rank t then s else t) Implicit"
proof -
  have "\<forall>s \<in> {kInt, kBigint, kNumeric, kFloat, kDouble}. \<forall>t \<in> {kInt, kBigint, kNumeric, kFloat, kDouble}.
      (attr_rep s = RepDec \<and> attr_rep t = RepFloat) \<or> (attr_rep s = RepFloat \<and> attr_rep t = RepDec) \<or>
      cast_allowed s (if attr_rank s \<ge> attr_rank t then s else t) Implicit \<and>
      cast_allowed t (if attr_rank s \<ge> attr_rank t then s else t) Implicit"
    by (simp add: cast_allowed_def cast_tier_def seed_attr_defs) (simp add: word_le_nat_alt)
  then show ?thesis using assms by blast
qed

lemma num_arith:
  assumes "wt cols l s" "wt cols r t" "u \<in> {kInt, kBigint, kNumeric, kFloat, kDouble}" "cast_allowed s u Implicit" "cast_allowed t u Implicit"
  shows "bound_ok cols (BoundArith op u l r) u"
proof -
  have "\<forall>u \<in> {kInt, kBigint, kNumeric, kFloat, kDouble}. attr_sane u \<and> attr_family u = FamNum \<and> u \<in> seed_types"
    by (simp add: attr_sane_def seed_attr_defs seed_types_def)
  then have "attr_sane u" "attr_family u = FamNum" "u \<in> seed_types" using assms(3) by blast+
  then show ?thesis using assms by (auto simp: bound_ok_def intro: wt_arith)
qed

lemma num_to_double: "s \<in> {kInt, kBigint, kNumeric, kFloat, kDouble} \<Longrightarrow> cast_allowed s kDouble Implicit \<and> cast_allowed s s Implicit"
  by (elim insertE emptyE) (simp_all add: cast_allowed_def cast_tier_def seed_attr_defs)

text \<open>What the analysis relies on: the types and functions of the catalog are the built-in ones.\<close>

locale type_catalog =
  fixes db :: analyzer_catalog
  assumes require_type: "(n, t) \<in> set type_names \<Longrightarrow> acat_require_type db n = Inr t' \<Longrightarrow> t' = t"
    and find_type: "acat_find_type db n = Inr row \<Longrightarrow> tyr_attr row \<in> seed_types"
    and funcs: "acat_funcs db n = Inr rows \<Longrightarrow> f \<in> set rows \<Longrightarrow> func_ok f"
begin

lemma required:
  "acat_require_type db ''int'' = Inr t \<Longrightarrow> t = kInt" "acat_require_type db ''bigint'' = Inr t \<Longrightarrow> t = kBigint"
  "acat_require_type db ''double'' = Inr t \<Longrightarrow> t = kDouble" "acat_require_type db ''varchar'' = Inr t \<Longrightarrow> t = kVarChar"
  "acat_require_type db ''boolean'' = Inr t \<Longrightarrow> t = kBool" "acat_require_type db ''numeric'' = Inr t \<Longrightarrow> t = kNumeric"
  by (erule require_type [rotated], simp add: type_names_def)+

lemma literal_ok:
  "bind_int db s = Inr (b, t) \<Longrightarrow> bound_ok cols b t" "bind_float db s = Inr (b, t) \<Longrightarrow> bound_ok cols b t"
  "bind_decimal db s = Inr (b, t) \<Longrightarrow> bound_ok cols b t"
proof -
  have c: "bound_ok cols (BoundConst v) t" if "value_ok t v" "t \<in> seed_types" "\<forall>f. vbox v \<noteq> BFloat f" for v t
    using that by (auto simp: bound_ok_def intro!: wt_const)
  show "bind_int db s = Inr (b, t) \<Longrightarrow> bound_ok cols b t"
    by (auto simp: bind_int_def res_simps split: option.splits list.splits if_splits intro!: c dest!: required)
       (simp_all add: value_factories)
  show "bind_float db s = Inr (b, t) \<Longrightarrow> bound_ok cols b t"
    by (auto simp: bind_float_def res_simps split: option.splits list.splits intro!: c dest!: required)
       (simp_all add: value_factories)
  show "bind_decimal db s = Inr (b, t) \<Longrightarrow> bound_ok cols b t"
    by (auto simp: bind_decimal_def res_simps dec_ok_eta intro!: c dest!: required parse_decimal_text_ok)
       (simp_all add: value_factories)
qed

lemma arith_ok:
  assumes "bind_arith db op (l, lt) (r, rt) = Inr (b, t)" "bound_ok cols l lt" "bound_ok cols r rt"
  shows "bound_ok cols b t"
proof -
  have num: "\<not> not_of is_num_type lt" "\<not> not_of is_num_type rt" using assms(1) by (auto simp: bind_arith_def split: if_splits)
  have b: "b = BoundArith op t l r" using assms(1) by (auto simp: bind_arith_def res_simps split: if_splits)
  from assms(2) show ?thesis
  proof (cases rule: bound_ok_cases)
    case l: 1
    from assms(3) show ?thesis
    proof (cases rule: bound_ok_cases)
      case 1
      then show ?thesis using assms(1) l by (auto simp: bind_arith_def bound_ok_def not_of_def)
    next
      case 2
      note n = num_family [OF 2(1) num(2)]
      have "t = rt" using assms(1) l n num by (auto simp: bind_arith_def seed_attr_defs)
      then show ?thesis using b num_arith [OF l(3) 2(2) n, of rt op] num_to_double [OF n] 2(1) by simp
    qed
  next
    case l: 2
    note nl = num_family [OF l(1) num(1)]
    from assms(3) show ?thesis
    proof (cases rule: bound_ok_cases)
      case 1
      have "t = lt" using assms(1) 1(1) num by (auto simp: bind_arith_def)
      then show ?thesis using b num_arith [OF l(2) 1(3) nl, of lt op] num_to_double [OF nl] l(1) by simp
    next
      case 2
      note nr = num_family [OF 2(1) num(2)]
      show ?thesis
      proof (cases "(attr_rep lt = RepDec \<and> attr_rep rt = RepFloat) \<or> (attr_rep lt = RepFloat \<and> attr_rep rt = RepDec)")
        case True
        then have "acat_require_type db ''double'' = Inr t" using assms(1) num by (auto simp: bind_arith_def res_simps)
        then have "t = kDouble" by (rule required)
        then show ?thesis using b num_arith [OF l(2) 2(2), of kDouble] num_to_double [OF nl] num_to_double [OF nr] by simp
      next
        case False
        then have "t = (if attr_rank lt \<ge> attr_rank rt then lt else rt)" using assms(1) num by (auto simp: bind_arith_def)
        moreover have "(if attr_rank lt \<ge> attr_rank rt then lt else rt) \<in> {kInt, kBigint, kNumeric, kFloat, kDouble}" using nl nr by auto
        ultimately show ?thesis using b num_arith [OF l(2) 2(2)] num_promote [OF nl nr False] by metis
      qed
    qed
  qed
qed

lemma spec_ok: "map_type_spec db ty len scl = Inr (t, l, s) \<Longrightarrow> t \<in> seed_types"
  by (auto simp: map_type_spec_def res_simps Let_def split: if_splits dest: find_type)

lemma func_call_ok:
  assumes "bind_func_call db name (Inr args) = Inr (b, t)" "\<And>x s. (x, s) \<in> set args \<Longrightarrow> bound_ok cols x s"
  shows "bound_ok cols b t"
proof -
  from assms(1) obtain rows row where rows: "acat_funcs db name = Inr rows" and f: "find_overload rows (map snd args) = Some row"
    and b: "b = BoundFuncCall (fnr_id row) name (fnr_strict_null row) (fnr_ret row) (map fst args)" "t = fnr_ret row"
    by (auto simp: bind_func_call_def res_simps split: if_splits option.splits)
  from f have r: "row \<in> set rows" and m: "list_all2 (\<lambda>a t. attr_id a = attr_id t) (fnr_args row) (map snd args)"
    by (auto simp: find_overload_def find_Some_iff)
  note ok = funcs [OF rows r]
  have "list_all2 (\<lambda>a t. wt cols a t \<and> attr_sane t) (map fst args) (fnr_args row)"
    unfolding list_all2_conv_all_nth
  proof (intro conjI allI impI)
    show len: "length (map fst args) = length (fnr_args row)" using list_all2_lengthD [OF m] by simp
    fix i assume i: "i < length (map fst args)"
    have s: "fnr_args row ! i \<in> seed_types" using ok i len by (auto simp: func_ok_def)
    have id: "attr_id (fnr_args row ! i) = attr_id (snd (args ! i))" using list_all2_nthD [OF m, of i] i len by simp
    have "bound_ok cols (fst (args ! i)) (snd (args ! i))" using assms(2) [of "fst (args ! i)" "snd (args ! i)"] i by simp
    then show "wt cols (map fst args ! i) (fnr_args row ! i)"
    proof (cases rule: bound_ok_cases)
      case 1
      then show ?thesis using id seed_id [OF s] by simp
    next
      case 2
      then show ?thesis using seed_id_inj [OF s 2(1) id] i by simp
    qed
    show "attr_sane (fnr_args row ! i)" using s by simp
  qed
  then have "wt cols b t" using ok b wt_func [of cols "map fst args" "fnr_args row" "fnr_id row" "fnr_ret row" name]
    by (auto simp: func_ok_def)
  then show ?thesis using ok b(2) by (simp add: bound_ok_def func_ok_def)
qed

lemma bind_expr_ok:
  "bind_expr db rd e = Inr (b, t) \<Longrightarrow> desc_ok rd cols \<Longrightarrow> bound_ok cols b t"
proof (induction e arbitrary: b t)
  case (IntExpr s) then show ?case by (simp add: literal_ok)
next
  case (FloatExpr s) then show ?case by (simp add: literal_ok)
next
  case (DecimalExpr s) then show ?case by (simp add: literal_ok)
next
  case (StringExpr v)
  then show ?case
    by (auto simp: res_simps bound_ok_def intro!: wt_const dest!: required) (simp_all add: value_ok_def value_factories box_typed_def)
next
  case NullExpr
  then show ?case by (auto simp: bound_ok_def)
next
  case (BoolExpr v)
  then show ?case by (auto simp: res_simps bound_ok_def dest!: required)
next
  case (IdentifierExpr name)
  then obtain d i where d: "rd = Some d" "map_of (rd_cols d) name = Some i" "b = BoundColRef i t" "t = rd_col_types d ! i"
    by (auto simp: bind_column_def Let_def split: option.splits)
  then have i: "i < length cols" "rd_col_types d = cols" "set cols \<subseteq> seed_types"
    using IdentifierExpr(2) by (auto simp: desc_ok_def dest: map_of_SomeD)
  then have "t \<in> seed_types" using nth_mem [of i cols] d(4) by auto
  then show ?case using wt_col [of i cols t] seed_sane [of t] d i by (simp add: bound_ok_def)
next
  case (BinaryOpExpr op x y)
  then obtain l lt r rt where "bind_expr db rd x = Inr (l, lt)" "bind_expr db rd y = Inr (r, rt)"
    "bind_arith db op (l, lt) (r, rt) = Inr (b, t)" by (auto simp: res_simps)
  then show ?case using BinaryOpExpr arith_ok by blast
next
  case (UnaryOpExpr op x)
  then obtain y where y: "bind_expr db rd x = Inr (y, t)" "\<not> not_of is_num_type t" "b = y \<or> b = BoundNeg t y"
    by (auto simp: res_simps split: if_splits)
  from UnaryOpExpr.IH [OF y(1) UnaryOpExpr.prems(2)] show ?case
  proof (cases rule: bound_ok_cases)
    case 1
    then show ?thesis using y(3) by (auto simp: bound_ok_def)
  next
    case 2
    note n = num_family [OF 2(1) y(2)]
    have "wt cols (BoundNeg t y) t" by (rule wt_neg [OF 2(2)]) (use n num_to_double [OF n] in \<open>auto simp: attr_sane_def seed_attr_defs\<close>)
    then show ?thesis using y(3) 2 by (auto simp: bound_ok_def)
  qed
next
  case (CompareExpr op x y)
  then obtain l lt r rt u where c: "bind_expr db rd x = Inr (l, lt)" "bind_expr db rd y = Inr (r, rt)"
    "check_comparable lt rt = Inr u" "acat_require_type db ''boolean'' = Inr t" "b = BoundCmp op l r" by (auto simp: res_simps)
  then show ?case using comparable_pair [of cols l lt r rt u op] CompareExpr required(5) [OF c(4)] by (auto simp: bound_ok_def)
next
  case (LogicExpr op x y)
  then obtain l lt r rt where c: "bind_expr db rd x = Inr (l, lt)" "bind_expr db rd y = Inr (r, rt)"
    "\<not> not_of is_bool_family lt" "\<not> not_of is_bool_family rt" "acat_require_type db ''boolean'' = Inr t" "b = BoundLogic op l r"
    by (auto simp: res_simps split: if_splits)
  have "wt cols l kBool" "wt cols r kBool"
    using bool_pair [OF LogicExpr.IH(1) [OF c(1) LogicExpr.prems(2)] c(3)] bool_pair [OF LogicExpr.IH(2) [OF c(2) LogicExpr.prems(2)] c(4)] .
  then show ?case using c(6) required(5) [OF c(5)] by (simp add: bound_ok_def wt_logic)
next
  case (NotExpr x)
  then obtain y yt where c: "bind_expr db rd x = Inr (y, yt)" "\<not> not_of is_bool_family yt" "acat_require_type db ''boolean'' = Inr t"
    "b = BoundNot y" by (auto simp: res_simps split: if_splits)
  have "wt cols y kBool" using bool_pair [OF NotExpr.IH [OF c(1) NotExpr.prems(2)] c(2)] .
  then show ?case using c(4) required(5) [OF c(3)] by (simp add: bound_ok_def wt_not)
next
  case (IsNullExpr x n)
  then obtain y yt where c: "bind_expr db rd x = Inr (y, yt)" "acat_require_type db ''boolean'' = Inr t" "b = BoundIsNull y n"
    by (auto simp: res_simps)
  have "\<exists>s. wt cols y s" using IsNullExpr.IH [OF c(1) IsNullExpr.prems(2)] by (cases rule: bound_ok_cases) (use sane_kBool in blast)+
  then show ?case using c(3) required(5) [OF c(2)] by (auto simp: bound_ok_def intro: wt_is_null)
next
  case (BetweenExpr x lo hi)
  then obtain x1 x1t l lt x2 xt h ht u w where c: "bind_expr db rd x = Inr (x1, x1t)" "bind_expr db rd lo = Inr (l, lt)"
    "bind_expr db rd x = Inr (x2, xt)" "bind_expr db rd hi = Inr (h, ht)" "check_comparable xt lt = Inr u" "check_comparable xt ht = Inr w"
    "acat_require_type db ''boolean'' = Inr t" "b = BoundLogic LogicAnd (BoundCmp CmpGe x1 l) (BoundCmp CmpLe x2 h)"
    by (auto simp: res_simps)
  note ok = BetweenExpr.IH(1) [OF c(3) BetweenExpr.prems(2)] BetweenExpr.IH(2) [OF c(2) BetweenExpr.prems(2)]
    BetweenExpr.IH(3) [OF c(4) BetweenExpr.prems(2)]
  have "x1 = x2" "x1t = xt" using c(1,3) by auto
  then show ?case using comparable_pair [OF ok(1,2) c(5)] comparable_pair [OF ok(1,3) c(6)] c(8) required(5) [OF c(7)]
    by (simp add: bound_ok_def wt_logic)
next
  case (FuncCallExpr name args)
  from FuncCallExpr.prems(1) obtain bs where bs: "map_res (bind_expr db rd) args = Inr bs" "bind_func_call db name (Inr bs) = Inr (b, t)"
    by (auto simp: bind_func_call_def res_simps split: if_splits)
  show ?case
  proof (rule func_call_ok [OF bs(2)])
    fix x s assume "(x, s) \<in> set bs"
    then obtain i where "i < length bs" "bs ! i = (x, s)" by (auto simp: in_set_conv_nth)
    then show "bound_ok cols x s" using FuncCallExpr.IH [of "args ! i" x s] map_res_nth [OF bs(1), of i] map_res_length [OF bs(1)]
        FuncCallExpr.prems(2) by simp
  qed
next
  case (CastExpr x target)
  then obtain y yt len scl where c: "bind_expr db rd x = Inr (y, yt)"
    "map_type_spec db (ti_type target) (ti_length target) (ti_scale target) = Inr (t, len, scl)"
    "b = (if yt = t \<and> cast_is_plain t len then y else BoundCast t len scl y)" by (auto simp: res_simps)
  note s = spec_ok [OF c(2)]
  from CastExpr.IH [OF c(1) CastExpr.prems(2)] show ?case
  proof (cases rule: bound_ok_cases)
    case 1
    then show ?thesis using c(3) s seed_id [OF s] wt_cast [OF 1(3) [OF sane_kBool] sane_kBool, of t len scl] by (auto simp: bound_ok_def seed_attrs simp del: set_map)
  next
    case 2
    then show ?thesis using c(3) s wt_cast [OF 2(2), of t len scl] by (auto simp: bound_ok_def seed_attrs simp del: set_map)
  qed
qed

lemma bind_where_wt: "bind_where db rd e = Inr p \<Longrightarrow> desc_ok (Some rd) cols \<Longrightarrow> wt cols p kBool"
  by (auto simp: bind_where_def res_simps split: if_splits intro: bool_pair bind_expr_ok)

end

section \<open>Bound statements that are well typed\<close>

text \<open>A value that may be stored in a column: bound to a type that an assignment casts to the column's.\<close>

definition assignable :: "type_attr list \<Rightarrow> bound_expr \<Rightarrow> column_spec \<Rightarrow> bool" where
  "assignable cols b col \<longleftrightarrow> (\<exists>t. bound_ok cols b t \<and> check_assignment_type t col = Inr ())"

definition meta_ok :: "table_meta \<Rightarrow> bool" where
  "meta_ok meta \<longleftrightarrow> set (map col_type (tm_cols meta)) \<subseteq> seed_types"

definition where_ok :: "type_attr list \<Rightarrow> bound_expr option \<Rightarrow> bool" where
  "where_ok cols wh \<longleftrightarrow> (case wh of None \<Rightarrow> True | Some p \<Rightarrow> wt cols p kBool)"

definition proj_ok :: "type_attr list \<Rightarrow> proj_col \<Rightarrow> bool" where
  "proj_ok cols p \<longleftrightarrow> (case pc_expr p of None \<Rightarrow> pc_col_idx p < length cols | Some b \<Rightarrow> (\<exists>t. bound_ok cols b t))"

definition orders_ok :: "type_attr list \<Rightarrow> nat \<Rightarrow> bool \<Rightarrow> bound_order_item list \<Rightarrow> bool" where
  "orders_ok cols n on_output orders \<longleftrightarrow>
     (\<forall>x \<in> set orders. if on_output then bo_out_idx x < n else (\<exists>b t. bo_expr x = Some b \<and> bound_ok cols b t))"

abbreviation handle_types :: "table_handle \<Rightarrow> type_attr list" where
  "handle_types h \<equiv> map col_type (tm_cols (th_meta h))"

fun stmt_ok :: "bound_stmt \<Rightarrow> bool" where
  "stmt_ok (BoundCreateTable t cols) = (set (map col_type cols) \<subseteq> seed_types)"
| "stmt_ok (BoundDropTable h) = meta_ok (th_meta h)"
| "stmt_ok (BoundCreateSchema s) = True"
| "stmt_ok (BoundDropSchema s) = True"
| "stmt_ok (BoundCreateIndex h i c) = (meta_ok (th_meta h) \<and> (length (tm_cols (th_meta h)) < 65536 \<longrightarrow>
     unat c < length (tm_cols (th_meta h)) \<and> attr_rep (col_type (tm_cols (th_meta h) ! unat c)) \<in> {RepInt64, RepFloat, RepDouble, RepBool}))"
| "stmt_ok (BoundDropIndex h i) = meta_ok (th_meta h)"
| "stmt_ok (BoundInsert h rows) = (meta_ok (th_meta h) \<and> (\<forall>row \<in> set rows. list_all2 (assignable []) row (tm_cols (th_meta h))))"
| "stmt_ok (BoundDelete h wh) = (meta_ok (th_meta h) \<and> where_ok (handle_types h) wh)"
| "stmt_ok (BoundUpdate h assigns wh) = (meta_ok (th_meta h) \<and> where_ok (handle_types h) wh \<and> distinct (map bu_col_idx assigns) \<and>
     (\<forall>a \<in> set assigns. bu_col_idx a < length (tm_cols (th_meta h)) \<and>
        assignable (handle_types h) (bu_value a) (tm_cols (th_meta h) ! bu_col_idx a)))"
| "stmt_ok (BoundSelect s) = (meta_ok (th_meta (bs_table s)) \<and> where_ok (handle_types (bs_table s)) (bs_where s) \<and>
     (\<forall>p \<in> set (bs_projs s). proj_ok (handle_types (bs_table s)) p) \<and>
     orders_ok (handle_types (bs_table s)) (length (bs_projs s)) (bs_sort_on_output s) (bs_orders s))"
| "stmt_ok (BoundSelectNoFrom s) = (where_ok [] (bn_where s) \<and> (\<forall>p \<in> set (bn_projs s). proj_ok [] p) \<and>
     orders_ok [] (length (bn_projs s)) (bn_sort_on_output s) (bn_orders s))"
| "stmt_ok (BoundSet v x) = True"
| "stmt_ok (BoundExplain b) = stmt_ok b"

lemma map_of_zip_upt: "map_of (zip xs [0..<length xs]) n = Some i \<Longrightarrow> i < length xs \<and> xs ! i = n"
  by (auto simp: in_set_zip dest!: map_of_SomeD)

lemma build_desc_ok: "meta_ok meta \<Longrightarrow> desc_ok (Some (build_row_desc meta)) (map col_type (tm_cols meta))"
  by (auto simp: meta_ok_def desc_ok_def build_row_desc_def in_set_zip)

lemma desc_lookup: "map_of (rd_cols (build_row_desc meta)) n = Some i \<Longrightarrow> i < length (tm_cols meta)"
  using map_of_zip_upt [of "map col_name (tm_cols meta)" n i] by (simp add: build_row_desc_def)

section \<open>Where the values of an INSERT go\<close>

definition targets_ok :: "nat \<Rightarrow> insert_targets \<Rightarrow> bool" where
  "targets_ok n t \<longleftrightarrow> distinct (it_target t) \<and> length (it_specified t) = n \<and>
     (\<forall>i < n. it_specified t ! i \<longleftrightarrow> i \<in> set (it_target t)) \<and> set (it_target t) \<subseteq> {..<n}"

lemma resolve_columns_ok:
  assumes "resolve_columns cols names t = Inr t'" "targets_ok n t" "\<And>x i. map_of cols x = Some i \<Longrightarrow> i < n"
  shows "targets_ok n t'"
  using assms
proof (induction cols names t rule: resolve_columns.induct)
  case (2 cols name names t)
  from "2.prems"(1) obtain i where i: "map_of cols name = Some i" "\<not> it_specified t ! i"
    "resolve_columns cols names (t\<lparr>it_specified := (it_specified t)[i := True], it_target := it_target t @ [i]\<rparr>) = Inr t'"
    by (auto split: option.splits if_splits)
  have "i < n" by (rule "2.prems"(3) [OF i(1)])
  then have "targets_ok n (t\<lparr>it_specified := (it_specified t)[i := True], it_target := it_target t @ [i]\<rparr>)"
    using "2.prems"(2) i(2) by (auto simp: targets_ok_def nth_list_update)
  then show ?case using "2.IH" [OF i(1,2) i(3)] "2.prems"(3) by blast
qed simp

lemma resolve_insert_ok: "resolve_insert_targets columns meta = Inr t \<Longrightarrow> targets_ok (length (tm_cols meta)) t"
proof -
  assume r: "resolve_insert_targets columns meta = Inr t"
  show ?thesis
  proof (cases "columns = []")
    case True
    then show ?thesis using r by (auto simp: resolve_insert_targets_def targets_ok_def Let_def)
  next
    case False
    show ?thesis
    proof (rule resolve_columns_ok)
      show "resolve_columns (rd_cols (build_row_desc meta)) columns \<lparr>it_target = [], it_specified = replicate (length (tm_cols meta)) False\<rparr> = Inr t"
        using r False by (simp add: resolve_insert_targets_def Let_def)
      show "targets_ok (length (tm_cols meta)) \<lparr>it_target = [], it_specified = replicate (length (tm_cols meta)) False\<rparr>"
        by (simp add: targets_ok_def)
    qed (rule desc_lookup)
  qed
qed

lemma place_values_length [simp]: "length (place_values target bound row) = length row"
proof -
  have "length (foldl (\<lambda>row (i, b). row[i := Some b]) row xs) = length row" for xs :: "(nat \<times> bound_expr) list"
    by (induction xs arbitrary: row) auto
  then show ?thesis by (simp add: place_values_def)
qed

lemma place_values_nth:
  assumes "distinct target" "length bound = length target" "i < length row"
  shows "place_values target bound row ! i = (case map_of (zip target bound) i of Some b \<Rightarrow> Some b | None \<Rightarrow> row ! i)"
  using assms
proof (induction target arbitrary: bound row)
  case (Cons j target)
  then obtain b bs where b: "bound = b # bs" by (cases bound) auto
  have p: "place_values (j # target) (b # bs) row = place_values target bs (row[j := Some b])" by (simp add: place_values_def)
  have ih: "place_values target bs (row[j := Some b]) ! i = (case map_of (zip target bs) i of Some b \<Rightarrow> Some b | None \<Rightarrow> row[j := Some b] ! i)"
    using Cons.IH [of bs "row[j := Some b]"] Cons.prems b by simp
  show ?case
  proof (cases "i = j")
    case True
    have "map_of (zip target bs) j = None" using Cons.prems b by (simp add: map_of_zip_is_None)
    then show ?thesis using ih True Cons.prems(3) by (simp add: p b)
  next
    case False
    then show ?thesis using ih by (simp add: p b cong: option.case_cong)
  qed
qed (simp add: place_values_def)

context type_catalog
begin

lemma insert_row_ok:
  assumes "bind_insert_row db meta t vals = Inr row" "targets_ok (length (tm_cols meta)) t"
    "set (map col_type (tm_cols meta)) \<subseteq> seed_types"
  shows "list_all2 (assignable []) row (tm_cols meta)"
proof -
  let ?n = "length (tm_cols meta)"
  from assms(1) obtain bound us where bound: "map_res (bind_expr db None) vals = Inr bound" and len: "length vals = length (it_target t)"
    and chk: "map_res (\<lambda>(e, (b, ty), i). check_value_type e ty (tm_cols meta ! i)) (zip vals (zip bound (it_target t))) = Inr us"
    and row: "row = map (\<lambda>x. case x of Some b \<Rightarrow> b | None \<Rightarrow> BoundConst null_val)
       (place_values (it_target t) (map fst bound) (replicate ?n None))"
    by (auto simp: bind_insert_row_def res_simps split: if_splits)
  have lb: "length bound = length (it_target t)" using map_res_length [OF bound] len by simp
  have pv: "place_values (it_target t) (map fst bound) (replicate ?n None) ! i = map_of (zip (it_target t) (map fst bound)) i" if "i < ?n" for i
    using place_values_nth [of "it_target t" "map fst bound" i "replicate ?n None"] assms(2) lb that
    by (simp add: targets_ok_def del: map_of_zip_is_None split: option.split_asm)
  have null: "assignable [] (BoundConst null_val) (tm_cols meta ! i)" if "i < ?n" for i
  proof -
    have "col_type (tm_cols meta ! i) \<in> seed_types" using assms(3) that by auto
    then have "check_assignment_type no_type (tm_cols meta ! i) = Inr ()"
      by (cases "attr_rep (col_type (tm_cols meta ! i))") (auto simp: check_assignment_type_def Let_def elim!: seed_cases simp: seed_attr_defs)
    then show ?thesis by (auto simp: assignable_def bound_ok_def)
  qed
  have val: "assignable [] b (tm_cols meta ! i)" if "map_of (zip (it_target t) (map fst bound)) i = Some b" for i b
  proof -
    from that obtain k where k: "k < length (it_target t)" "it_target t ! k = i" "fst (bound ! k) = b"
      using lb by (auto dest!: map_of_SomeD simp: in_set_zip)
    obtain ty where ty: "bound ! k = (b, ty)" using k(3) by (cases "bound ! k") auto
    have "bind_expr db None (vals ! k) = Inr (b, ty)" using map_res_nth [OF bound, of k] k(1) len ty by simp
    then have "bound_ok [] b ty" by (rule bind_expr_ok) (simp add: desc_ok_def)
    moreover have "check_value_type (vals ! k) ty (tm_cols meta ! i) = Inr (us ! k)"
      using map_res_nth [OF chk, of k] k len lb ty by simp
    ultimately show ?thesis by (auto simp: assignable_def check_value_type_def res_simps)
  qed
  show ?thesis unfolding list_all2_conv_all_nth
  proof (intro conjI allI impI)
    show l: "length row = ?n" by (simp add: row)
    fix i assume "i < length row"
    then have i: "i < ?n" unfolding l .
    show "assignable [] (row ! i) (tm_cols meta ! i)"
    proof (cases "map_of (zip (it_target t) (map fst bound)) i")
      case None
      then show ?thesis using pv [OF i] null [OF i] i by (simp add: row)
    next
      case (Some b)
      then show ?thesis using pv [OF i] val [OF Some] i by (simp add: row)
    qed
  qed
qed

end

abbreviation assign_ok :: "table_meta \<Rightarrow> bound_update_item \<Rightarrow> bool" where
  "assign_ok meta a \<equiv> bu_col_idx a < length (tm_cols meta) \<and>
     assignable (map col_type (tm_cols meta)) (bu_value a) (tm_cols meta ! bu_col_idx a)"

text \<open>What a list of projections keeps: each is well formed, and one without an expression is a column.\<close>

definition projs_ok :: "type_attr list \<Rightarrow> proj_bind \<Rightarrow> bool" where
  "projs_ok cols pb \<longleftrightarrow> (\<forall>x \<in> set pb. proj_ok cols (fst x) \<and> (snd x = None \<longrightarrow> pc_col_idx (fst x) < length cols))"

lemma projs_ok_concat: "projs_ok cols (concat pss) \<longleftrightarrow> (\<forall>pb \<in> set pss. projs_ok cols pb)"
  by (auto simp: projs_ok_def)

lemma col_ref_ok: "i < length cols \<Longrightarrow> set cols \<subseteq> seed_types \<Longrightarrow> bound_ok cols (BoundColRef i t) (cols ! i)"
  by (metis bound_ok_def nth_mem seed_sane subsetD wt_col)

context type_catalog
begin

lemma assigns_ok:
  assumes "bind_assigns db meta items acc = Inr as" "meta_ok meta" "distinct (map bu_col_idx acc)" "\<forall>a \<in> set acc. assign_ok meta a"
  shows "distinct (map bu_col_idx as) \<and> (\<forall>a \<in> set as. assign_ok meta a)"
  using assms
proof (induction items arbitrary: acc)
  case (Cons item items)
  let ?rd = "build_row_desc meta"
  from Cons.prems(1) obtain i b t where i: "map_of (rd_cols ?rd) (ui_column item) = Some i" "\<not> list_ex (\<lambda>a. bu_col_idx a = i) acc"
    and b: "bind_expr db (Some ?rd) (ui_value item) = Inr (b, t)"
    and c: "check_assignment_type t (tm_cols meta ! i) = Inr ()"
    and r: "bind_assigns db meta items (acc @ [\<lparr>bu_col_idx = i, bu_value = b\<rparr>]) = Inr as"
    by (auto simp: Let_def res_simps check_value_type_def split: option.splits if_splits)
  have "assign_ok meta \<lparr>bu_col_idx = i, bu_value = b\<rparr>"
    using desc_lookup [OF i(1)] bind_expr_ok [OF b build_desc_ok [OF Cons.prems(2)]] c by (auto simp: assignable_def)
  then show ?case using Cons.IH [OF r] Cons.prems i(2) by (auto simp: list_ex_iff)
qed simp

lemma where_opt_ok:
  "bind_where_opt db rd wh = Inr p \<Longrightarrow> desc_ok (Some rd) cols \<Longrightarrow> where_ok cols p"
  by (auto simp: bind_where_opt_def where_ok_def res_simps split: option.splits intro: bind_where_wt)

lemma spec_cols_ok: "convert_columns db defs = Inr cols \<Longrightarrow> set (map col_type cols) \<subseteq> seed_types"
proof
  fix t assume c: "convert_columns db defs = Inr cols" and "t \<in> set (map col_type cols)"
  then obtain i where i: "i < length cols" "t = col_type (cols ! i)" by (auto simp: in_set_conv_nth)
  show "t \<in> seed_types"
    using map_res_nth [OF c [unfolded convert_columns_def], of i] i map_res_length [OF c [unfolded convert_columns_def]]
    by (auto simp: res_simps dest: spec_ok dest!: sym [of _ "cols ! i"])
qed

lemma proj_item_ok:
  "bind_proj_item db rd item = Inr (p, e) \<Longrightarrow> desc_ok (Some rd) cols \<Longrightarrow>
    proj_ok cols p \<and> e = si_expr item \<and> (\<exists>x b t. e = Some x \<and> bind_expr db (Some rd) x = Inr (b, t))"
  by (fastforce simp: bind_proj_item_def proj_ok_def res_simps split: option.splits intro: bind_expr_ok)

lemma build_projs_ok:
  assumes "build_projs db meta rd items = Inr pb" "desc_ok (Some rd) (map col_type (tm_cols meta))"
  shows "projs_ok (map col_type (tm_cols meta)) pb"
proof -
  let ?f = "\<lambda>item. if si_star item then Inr (star_cols meta) else rbind (bind_proj_item db rd item) (\<lambda>p. Inr [p])"
  from assms(1) obtain pss where pss: "map_res ?f items = Inr pss" "pb = concat pss" by (auto simp: build_projs_def res_simps)
  have "projs_ok (map col_type (tm_cols meta)) p" if p: "?f item = Inr p" for item p
  proof (cases "si_star item")
    case True
    then show ?thesis using p by (auto simp: projs_ok_def star_cols_def proj_ok_def)
  next
    case False
    then show ?thesis using p assms(2) by (auto simp: projs_ok_def res_simps dest: proj_item_ok)
  qed
  then show ?thesis unfolding pss(2) projs_ok_concat using map_res_nth [OF pss(1)] map_res_length [OF pss(1)]
    by (metis in_set_conv_nth)
qed

lemma build_projs_no_from_ok:
  assumes "build_projs_no_from db rd items = Inr pb" "desc_ok (Some rd) cols"
  shows "projs_ok cols pb"
  unfolding projs_ok_def
proof
  fix x assume "x \<in> set pb"
  then obtain p e where x: "x = (p, e)" "(p, e) \<in> set pb" by (metis surj_pair)
  from x(2) obtain i where i: "i < length pb" "pb ! i = (p, e)" by (auto simp: in_set_conv_nth)
  note m = assms(1) [unfolded build_projs_no_from_def]
  have "bind_proj_item db rd (items ! i) = Inr (p, e)" using map_res_nth [OF m, of i] map_res_length [OF m] i by (auto split: if_splits)
  from proj_item_ok [OF this assms(2)]
  show "proj_ok cols (fst x) \<and> (snd x = None \<longrightarrow> pc_col_idx (fst x) < length cols)" using x(1) by auto
qed

lemma projs_ok_all: "projs_ok cols pb \<Longrightarrow> \<forall>p \<in> set (map fst pb). proj_ok cols p"
  by (auto simp: projs_ok_def)

lemma order_key_ok:
  assumes "resolve_order_key db pb rd e = Inr k" "desc_ok (Some rd) cols"
  shows "(\<exists>i < length pb. k = OutKey i) \<or> (\<exists>b t. k = ExprKey b \<and> bound_ok cols b t)"
proof -
  have row: "\<exists>b t. k = ExprKey b \<and> bound_ok cols b t" if "rbind (bind_expr db (Some rd) e) (\<lambda>(b, t). Inr (ExprKey b)) = Inr k"
    using that assms(2) by (auto simp: res_simps dest: bind_expr_ok)
  have out: "i < length pb" if "filter (\<lambda>i. pc_name (fst (pb ! i)) = name) [0..<length pb] = [i]" for name i
  proof -
    have "i \<in> set (filter (\<lambda>i. pc_name (fst (pb ! i)) = name) [0..<length pb])" using that by simp
    then show ?thesis by simp
  qed
  show ?thesis
    using assms(1) row
    by (cases e) (auto simp: resolve_order_key_def Let_def split: option.splits list.splits if_splits dest!: out)
qed

lemma row_order_ok:
  assumes "row_order_expr db pb rd k = Inr b" "desc_ok (Some rd) cols" "projs_ok cols pb"
    "(\<exists>i < length pb. k = OutKey i) \<or> (\<exists>b t. k = ExprKey b \<and> bound_ok cols b t)"
  shows "\<exists>t. bound_ok cols b t"
proof (cases k)
  case (ExprKey x)
  then show ?thesis using assms by (auto simp: row_order_expr_def)
next
  case (OutKey i)
  show ?thesis
  proof (cases "snd (pb ! i)")
    case None
    then have "pc_col_idx (fst (pb ! i)) < length cols" using assms(3,4) OutKey nth_mem [of i pb] by (auto simp: projs_ok_def)
    then show ?thesis using assms(1,2) None OutKey col_ref_ok [of "pc_col_idx (fst (pb ! i))" cols]
      by (auto simp: row_order_expr_def desc_ok_def Let_def)
  next
    case (Some e)
    then show ?thesis using assms(1,2) OutKey by (auto simp: row_order_expr_def res_simps dest: bind_expr_ok)
  qed
qed

lemma orders_bound_ok:
  assumes "bind_select_orders db pb rd items = Inr (os, on_output)" "desc_ok (Some rd) cols" "projs_ok cols pb"
  shows "orders_ok cols (length pb) on_output os"
proof (cases "items = []")
  case True
  then show ?thesis using assms(1) by (auto simp: bind_select_orders_def orders_ok_def)
next
  case False
  then obtain keys where keys: "map_res (\<lambda>item. resolve_order_key db pb rd (oi_expr item)) items = Inr keys"
    using assms(1) by (auto simp: bind_select_orders_def bind_orders_def res_simps)
  note len = map_res_length [OF keys]
  have key: "(\<exists>i < length pb. k = OutKey i) \<or> (\<exists>b t. k = ExprKey b \<and> bound_ok cols b t)" if "k \<in> set keys" for k
    using that map_res_nth [OF keys] len order_key_ok [OF _ assms(2)] by (metis in_set_conv_nth)
  show ?thesis
  proof (cases "list_all is_out_key keys")
    case True
    then have os: "os = map out_order_item (zip items keys)" "on_output"
      using assms(1) False keys by (auto simp: bind_select_orders_def bind_orders_def)
    have "bo_out_idx (out_order_item (item, k)) < length pb" if "k \<in> set keys" for item k
      using key [OF that] True that by (auto simp: out_order_item_def list_all_iff is_out_key_def)
    then show ?thesis using os by (auto simp: orders_ok_def dest: set_zip_rightD)
  next
    case nout: False
    let ?f = "\<lambda>(item, k). rbind (row_order_expr db pb rd k) (\<lambda>b. Inr \<lparr>bo_desc = oi_desc item, bo_out_idx = 0, bo_expr = Some b\<rparr>)"
    have os: "map_res ?f (zip items keys) = Inr os" "\<not> on_output"
      using assms(1) False keys nout by (auto simp: bind_select_orders_def bind_orders_def res_simps)
    have "\<exists>b t. bo_expr x = Some b \<and> bound_ok cols b t" if x: "x \<in> set os" for x
    proof -
      obtain i where i: "i < length os" "os ! i = x" using x by (auto simp: in_set_conv_nth)
      then have "?f (zip items keys ! i) = Inr x" "i < length keys"
        using map_res_nth [OF os(1), of i] map_res_length [OF os(1)] by auto
      then obtain b where "row_order_expr db pb rd (keys ! i) = Inr b" "bo_expr x = Some b" "keys ! i \<in> set keys"
        using len by (auto simp: res_simps)
      then show ?thesis using row_order_ok [OF _ assms(2,3) key] by blast
    qed
    then show ?thesis using os(2) by (auto simp: orders_ok_def)
  qed
qed

end

text \<open>Besides the types and functions: the tables have columns of these types.\<close>

locale table_catalog = type_catalog db for db :: analyzer_catalog +
  assumes table_metas: "acat_table_meta db t = Inr meta \<Longrightarrow> meta_ok meta"
begin

lemma handle_meta: "table_handle_of db t = Inr h \<Longrightarrow> meta_ok (th_meta h)"
  by (auto simp: table_handle_of_def res_simps dest: table_metas)

lemma writable_meta: "writable_handle db t = Inr h \<Longrightarrow> meta_ok (th_meta h)"
  by (auto simp: writable_handle_def res_simps dest: handle_meta)

lemma handle_desc: "meta_ok (th_meta h) \<Longrightarrow> desc_ok (Some (build_row_desc (th_meta h))) (handle_types h)"
  by (rule build_desc_ok)

lemma create_index_ok: "parse_create_index db index t column = Inr b \<Longrightarrow> stmt_ok b"
proof -
  assume "parse_create_index db index t column = Inr b"
  then obtain h i where h: "writable_handle db t = Inr h"
    and i: "find (\<lambda>i. col_name (tm_cols (th_meta h) ! i) = column) [0..<length (tm_cols (th_meta h))] = Some i"
    and rep: "attr_rep (col_type (tm_cols (th_meta h) ! i)) \<notin> {RepDec, RepStr, RepNone}" and b: "b = BoundCreateIndex h index (word_of_nat i)"
    by (auto simp: parse_create_index_def res_simps split: option.splits if_splits)
  have lt: "i < length (tm_cols (th_meta h))" using i by (auto simp: find_Some_iff)
  have "unat (word_of_nat i :: u16) = i" if "length (tm_cols (th_meta h)) < 65536" using lt that by (simp add: unat_of_nat take_bit_nat_eq_self meta_ok_def)
  then show ?thesis using rep lt writable_meta [OF h] by (cases "attr_rep (col_type (tm_cols (th_meta h) ! i))") (simp_all add: b)
qed

lemma insert_ok: "parse_insert db t columns rows = Inr b \<Longrightarrow> stmt_ok b"
proof -
  assume "parse_insert db t columns rows = Inr b"
  then obtain h targets brows where h: "table_handle_of db t = Inr h" and t: "resolve_insert_targets columns (th_meta h) = Inr targets"
    and r: "map_res (bind_insert_row db (th_meta h) targets) rows = Inr brows" and b: "b = BoundInsert h brows"
    by (auto simp: parse_insert_def res_simps)
  note m = handle_meta [OF h]
  have "list_all2 (assignable []) row (tm_cols (th_meta h))" if row: "row \<in> set brows" for row
  proof -
    obtain i where "i < length brows" "brows ! i = row" using row by (auto simp: in_set_conv_nth)
    then have "bind_insert_row db (th_meta h) targets (rows ! i) = Inr row"
      using map_res_nth [OF r, of i] map_res_length [OF r] by simp
    then show ?thesis by (rule insert_row_ok) (use resolve_insert_ok [OF t] m in \<open>auto simp: meta_ok_def\<close>)
  qed
  then show ?thesis using m by (simp add: b)
qed

lemma update_ok: "parse_update db t items wh = Inr b \<Longrightarrow> stmt_ok b"
proof -
  assume "parse_update db t items wh = Inr b"
  then obtain h assigns w where h: "writable_handle db t = Inr h" and a: "bind_assigns db (th_meta h) items [] = Inr assigns"
    and w: "bind_where_opt db (build_row_desc (th_meta h)) wh = Inr w" and b: "b = BoundUpdate h assigns w"
    by (auto simp: parse_update_def res_simps)
  note m = writable_meta [OF h]
  show ?thesis using m assigns_ok [OF a m] where_opt_ok [OF w handle_desc [OF m]] by (simp add: b)
qed

lemma select_ok: "analyze_select db s sch = Inr b \<Longrightarrow> stmt_ok b"
proof -
  assume "analyze_select db s sch = Inr b"
  then obtain h w pb orders on_output where h: "table_handle_of db (to_table_ref (sel_table s) sch) = Inr h"
    and w: "bind_where_opt db (build_row_desc (th_meta h)) (sel_where s) = Inr w"
    and p: "build_projs db (th_meta h) (build_row_desc (th_meta h)) (sel_items s) = Inr pb"
    and or: "bind_select_orders db pb (build_row_desc (th_meta h)) (sel_orders s) = Inr (orders, on_output)"
    and b: "b = BoundSelect \<lparr>bs_table = h, bs_projs = map fst pb, bs_where = w, bs_orders = orders, bs_sort_on_output = on_output\<rparr>"
    by (auto simp: analyze_select_def Let_def res_simps)
  note m = handle_meta [OF h]
  note d = handle_desc [OF m]
  note ps = build_projs_ok [OF p d]
  show ?thesis using m where_opt_ok [OF w d] projs_ok_all [OF ps] orders_bound_ok [OF or d ps] by (simp add: b)
qed

lemma select_no_from_ok: "analyze_select_no_from db s = Inr b \<Longrightarrow> stmt_ok b"
proof -
  let ?rd = "\<lparr>rd_cols = [], rd_col_types = []\<rparr>"
  assume "analyze_select_no_from db s = Inr b"
  then obtain w pb orders on_output where w: "bind_where_opt db ?rd (snf_where s) = Inr w"
    and p: "build_projs_no_from db ?rd (snf_items s) = Inr pb"
    and or: "bind_select_orders db pb ?rd (snf_orders s) = Inr (orders, on_output)"
    and b: "b = BoundSelectNoFrom \<lparr>bn_projs = map fst pb, bn_where = w, bn_orders = orders, bn_sort_on_output = on_output\<rparr>"
    by (auto simp: analyze_select_no_from_def Let_def res_simps)
  have d: "desc_ok (Some ?rd) []" by (simp add: desc_ok_def)
  note ps = build_projs_no_from_ok [OF p d]
  show ?thesis using where_opt_ok [OF w d] projs_ok_all [OF ps] orders_bound_ok [OF or d ps] by (simp add: b)
qed

lemma analyze_ok: "analyze db s sch = Inr b \<Longrightarrow> stmt_ok b"
proof (induction s arbitrary: b)
  case (CreateTableStmt q defs)
  then show ?case by (auto simp: Let_def res_simps dest: spec_cols_ok split: if_splits)
next
  case (DropTableStmt q) then show ?case by (auto simp: res_simps dest: writable_meta)
next
  case (CreateIndexStmt i q c) then show ?case by (simp add: create_index_ok)
next
  case (DropIndexStmt i q) then show ?case by (auto simp: res_simps dest: writable_meta)
next
  case (InsertStmt q cs rows) then show ?case by (simp add: insert_ok)
next
  case (DeleteStmt q wh)
  then obtain h w where h: "writable_handle db (to_table_ref q sch) = Inr h"
    and w: "bind_where_opt db (build_row_desc (th_meta h)) wh = Inr w" and b: "b = BoundDelete h w" by (auto simp: res_simps)
  note m = writable_meta [OF h]
  show ?case using m where_opt_ok [OF w handle_desc [OF m]] by (simp add: b)
next
  case (UpdateStmt q items wh) then show ?case by (simp add: update_ok)
next
  case (SelectStmt s) then show ?case by (simp add: select_ok)
next
  case (SelectNoFromStmt s) then show ?case by (simp add: select_no_from_ok)
next
  case (ExplainStmt s) then show ?case by (auto simp: res_simps)
next
  case (SetStmt v x form)
  then show ?case by (auto simp: analyze_set_def split: if_splits option.splits list.splits)
qed auto

end

end
