(* ===== verification/Catalog.thy ===== *)
theory Catalog
  imports Analyzer Tables
begin

text \<open>
  The catalog of src/catalog. First the answers it gives to the analysis in a database that was
  initialised: the locales of Analyzer are interpreted on them, so that every accepted statement is well typed
  and a WHERE clause never fails internally.
\<close>

section \<open>The catalog of an initialised database\<close>

text \<open>The calls of the analysis, answered from the rows of the metadata tables.\<close>

definition catalog_view :: "meta_rows \<Rightarrow> bool \<Rightarrow> analyzer_catalog" where
  "catalog_view m bootstrap =
     \<lparr>acat_table_meta = find_table_meta m, acat_find_type = find_type (mr_types m), acat_require_type = require_type (mr_types m),
      acat_funcs = funcs (mr_types m) (mr_funcs m), acat_bootstrap_mode = bootstrap\<rparr>"

text \<open>The rows of db_func that bootstrap.sql inserts.\<close>

definition func_meta_row :: "int \<Rightarrow> string \<Rightarrow> int \<Rightarrow> int \<Rightarrow> int \<Rightarrow> int \<Rightarrow> int \<Rightarrow> int \<Rightarrow> dbvalue list" where
  "func_meta_row i name arity a b c ret strict =
     [int_cell kBigint i, str_val kVarChar name, int_cell kInt arity, int_cell kInt a, int_cell kInt b, int_cell kInt c,
      int_cell kInt ret, int_cell kInt strict]"

definition bootstrap_funcs :: "dbvalue list list" where
  "bootstrap_funcs =
    [func_meta_row 1 ''abs'' 1 1 0 0 1 1, func_meta_row 2 ''abs'' 1 2 0 0 2 1, func_meta_row 3 ''abs'' 1 3 0 0 3 1,
     func_meta_row 4 ''abs'' 1 5 0 0 5 1, func_meta_row 5 ''abs'' 1 8 0 0 8 1,
     func_meta_row 6 ''round'' 1 1 0 0 1 1, func_meta_row 7 ''round'' 1 2 0 0 2 1, func_meta_row 8 ''round'' 1 3 0 0 3 1,
     func_meta_row 9 ''round'' 1 5 0 0 5 1, func_meta_row 10 ''round'' 1 8 0 0 8 1, func_meta_row 11 ''round'' 2 8 1 0 8 1,
     func_meta_row 12 ''floor'' 1 1 0 0 1 1, func_meta_row 13 ''floor'' 1 2 0 0 2 1, func_meta_row 14 ''floor'' 1 3 0 0 3 1,
     func_meta_row 15 ''floor'' 1 5 0 0 5 1, func_meta_row 16 ''floor'' 1 8 0 0 8 1,
     func_meta_row 17 ''ceil'' 1 1 0 0 1 1, func_meta_row 18 ''ceil'' 1 2 0 0 2 1, func_meta_row 19 ''ceil'' 1 3 0 0 3 1,
     func_meta_row 20 ''ceil'' 1 5 0 0 5 1, func_meta_row 21 ''ceil'' 1 8 0 0 8 1,
     func_meta_row 22 ''mod'' 2 1 1 0 1 1, func_meta_row 23 ''mod'' 2 2 2 0 2 1, func_meta_row 24 ''mod'' 2 3 3 0 3 1,
     func_meta_row 25 ''mod'' 2 5 5 0 5 1, func_meta_row 26 ''mod'' 2 8 8 0 8 1]"

text \<open>A database whose db_type and db_func hold what the initialisation wrote, with any schemas, tables and columns.\<close>

definition seeded_rows :: "dbvalue list list \<Rightarrow> dbvalue list list \<Rightarrow> dbvalue list list \<Rightarrow> meta_rows" where
  "seeded_rows schemas tables columns =
     \<lparr>mr_schemas = schemas, mr_tables = tables, mr_columns = columns, mr_types = type_meta_rows, mr_funcs = bootstrap_funcs\<rparr>"

definition func_fits :: "func_row \<Rightarrow> bool" where
  "func_fits row \<longleftrightarrow> fnr_strict_null row \<and> unat (fnr_id row) < length func_sigs \<and> fnr_id row \<noteq> 0 \<and>
     func_sigs ! unat (fnr_id row) = (map attr_rep (fnr_args row), attr_rep (fnr_ret row)) \<and>
     list_all (\<lambda>t. t \<in> set (map seed_attr kTypeSeeds)) (fnr_args row) \<and> fnr_ret row \<in> set (map seed_attr kTypeSeeds)"

lemma func_fits_ok: "func_fits row \<longleftrightarrow> func_ok row"
  unfolding func_fits_def func_ok_def seed_attrs by (auto simp: list_all_iff)

lemma funcs_validate: "validate_func_rows type_meta_rows bootstrap_funcs = Inr ()"
  by code_simp

lemma funcs_fit:
  "(case map_res (\<lambda>row. parse_func_row row built_in_types) bootstrap_funcs of Inl _ \<Rightarrow> False | Inr fs \<Rightarrow> list_all func_fits fs)"
  by code_simp

lemma scan_types_find: "map_res parse_type_row rows = Inr ts \<Longrightarrow> scan_types P rows = Inr (find P ts)"
  by (induction rows arbitrary: ts) (auto simp: res_simps)

lemmas scan_built_in = scan_types_find [OF type_rows_read]

lemma required_types: "list_all (\<lambda>(n, t). require_type type_meta_rows n = Inr t) type_names"
  by code_simp

lemma found_type_seed: "find_type type_meta_rows n = Inr row \<Longrightarrow> tyr_attr row \<in> seed_types"
  unfolding seed_attrs [symmetric]
  by (auto simp: find_type_def or_raise_def scan_built_in find_Some_iff seed_row_def split: option.splits)

lemma type_by_id_seed: "type_by_id built_in_types n = Inr tr \<Longrightarrow> tyr_attr tr \<in> seed_types"
  unfolding seed_attrs [symmetric]
  by (auto simp: type_by_id_def find_Some_iff seed_row_def split: option.splits)

lemma map_res_concat_mem: "map_res f xs = Inr yss \<Longrightarrow> y \<in> set (concat yss) \<Longrightarrow> \<exists>x \<in> set xs. \<exists>ys. f x = Inr ys \<and> y \<in> set ys"
  by (induction xs arbitrary: yss) (fastforce simp: res_simps)+

lemma map_res_mem: "map_res f xs = Inr ys \<Longrightarrow> x \<in> set xs \<Longrightarrow> \<exists>y \<in> set ys. f x = Inr y"
  by (induction xs arbitrary: ys) (auto simp: res_simps)

lemma funcs_fit_ok:
  assumes "funcs type_meta_rows bootstrap_funcs n = Inr rows" "f \<in> set rows"
  shows "func_ok f"
proof -
  obtain fs where fs: "map_res (\<lambda>row. parse_func_row row built_in_types) bootstrap_funcs = Inr fs" "list_all func_fits fs"
    using funcs_fit by (auto split: sum.splits)
  let ?g = "\<lambda>row. rbind (row_str row 1) (\<lambda>s. if s = n then rbind (parse_func_row row built_in_types) (\<lambda>f. Inr [f]) else Inr [])"
  obtain gs where gs: "map_res ?g bootstrap_funcs = Inr gs" "rows = concat gs"
    using assms(1) by (auto simp: funcs_def type_rows_read res_simps)
  then obtain row fr where "row \<in> set bootstrap_funcs" "?g row = Inr fr" "f \<in> set fr"
    using map_res_concat_mem [OF gs(1), of f] assms(2) by blast
  then have "row \<in> set bootstrap_funcs" "parse_func_row row built_in_types = Inr f" by (auto simp: res_simps split: if_splits)
  then show ?thesis using map_res_mem [OF fs(1), of row] fs(2) by (auto simp: list_all_iff func_fits_ok)
qed

lemma collected_types:
  assumes "collect_columns type_meta_rows rows tid = Inr cols"
  shows "set (map col_type cols) \<subseteq> seed_types"
proof
  let ?g = "\<lambda>row. rbind (row_int row 0) (\<lambda>t. if t = sint tid then rbind (parse_column_row row built_in_types) (\<lambda>p. Inr [p]) else Inr [])"
  fix t assume "t \<in> set (map col_type cols)"
  then obtain c where c: "c \<in> set cols" "t = col_type c" by auto
  obtain pss where p: "map_res ?g rows = Inr pss" "cols = map snd (sort_key fst (concat pss))"
    using assms by (auto simp: collect_columns_def type_rows_read res_simps Let_def)
  then obtain k where "(k, c) \<in> set (concat pss)" using c(1) by (metis (no_types, lifting) imageE list.set_map prod.collapse set_sort)
  then obtain row fr where "?g row = Inr fr" "(k, c) \<in> set fr" using map_res_concat_mem [OF p(1)] by blast
  then have "parse_column_row row built_in_types = Inr (k, c)" by (auto simp: res_simps split: if_splits)
  then show "t \<in> seed_types" using c(2) by (auto simp: parse_column_row_def res_simps dest: type_by_id_seed)
qed

interpretation seeded: table_catalog "catalog_view (seeded_rows schemas tables columns) bootstrap"
  for schemas tables columns bootstrap
proof
  show "t' = t" if "(n, t) \<in> set type_names" "acat_require_type (catalog_view (seeded_rows schemas tables columns) bootstrap) n = Inr t'" for n t t'
    using that required_types by (auto simp: catalog_view_def seeded_rows_def list_all_iff)
  show "tyr_attr row \<in> seed_types" if "acat_find_type (catalog_view (seeded_rows schemas tables columns) bootstrap) n = Inr row" for n row
    using that found_type_seed by (simp add: catalog_view_def seeded_rows_def)
  show "func_ok f" if "acat_funcs (catalog_view (seeded_rows schemas tables columns) bootstrap) n = Inr rows" "f \<in> set rows" for n rows f
    using that funcs_fit_ok by (simp add: catalog_view_def seeded_rows_def)
  show "meta_ok meta" if "acat_table_meta (catalog_view (seeded_rows schemas tables columns) bootstrap) t = Inr meta" for t meta
    using that by (auto simp: catalog_view_def seeded_rows_def find_table_meta_def res_simps meta_ok_def
        dest!: collected_types)
qed

section \<open>Declared columns\<close>

lemma spec_ranges:
  "map_type_spec (catalog_view (seeded_rows schemas tables columns) bootstrap) ty len scl = Inr (t, l, s) \<Longrightarrow>
    \<exists>tr \<in> set built_in_types. tyr_attr tr = t \<and> l \<le> tyr_len_max tr \<and> (tyr_len_allowed tr \<or> l = 0) \<and>
      (if tyr_scale_allowed tr then uint s \<le> uint l else s = 0)"
proof -
  assume a: "map_type_spec (catalog_view (seeded_rows schemas tables columns) bootstrap) ty len scl = Inr (t, l, s)"
  then obtain tr where tr: "find_type type_meta_rows ty = Inr tr"
    by (auto simp: map_type_spec_def catalog_view_def seeded_rows_def res_simps)
  have mem: "tr \<in> set built_in_types"
    using tr by (auto simp: find_type_def or_raise_def scan_built_in find_Some_iff split: option.splits)
  have "\<forall>tr \<in> set built_in_types. tyr_len_default tr \<le> tyr_len_max tr \<and> (\<not> tyr_len_allowed tr \<longrightarrow> tyr_len_default tr = 0) \<and>
      (tyr_scale_allowed tr \<longrightarrow> tyr_len_max tr \<le> 255)"
    by (simp add: kTypeSeeds_def mk_seed_def seed_row_def)
  then have d: "tyr_len_default tr \<le> tyr_len_max tr" "\<not> tyr_len_allowed tr \<Longrightarrow> tyr_len_default tr = 0"
    "tyr_scale_allowed tr \<Longrightarrow> tyr_len_max tr \<le> 255" using mem by blast+
  define n where "n = (case len of Some n \<Rightarrow> n | None \<Rightarrow> int (unat (tyr_len_default tr)))"
  define k where "k = (case scl of Some s \<Rightarrow> s | None \<Rightarrow> 0)"
  have r: "t = tyr_attr tr" "l = word_of_int n" "s = word_of_int k" "tyr_len_allowed tr \<or> len = None" "len = None \<or> (0 < n \<and> n \<le> int (unat (tyr_len_max tr)))"
    "tyr_scale_allowed tr \<or> scl = None" "0 \<le> k" "k \<le> n"
    using a tr by (auto simp: map_type_spec_def catalog_view_def seeded_rows_def res_simps Let_def n_def k_def split: if_splits)
  have n: "0 \<le> n" "n \<le> uint (tyr_len_max tr)" using r(5) d(1) by (auto simp: n_def word_le_def)
  then have ln: "uint l = n" using r(2) uint_lt2p [of "tyr_len_max tr"] by (simp add: uint_word_of_int take_bit_int_eq_self)
  have "uint s = k" if "tyr_scale_allowed tr"
    using r(3,7,8) n(2) d(3) [OF that] by (simp add: uint_word_of_int take_bit_int_eq_self word_le_def)
  then have "if tyr_scale_allowed tr then uint s \<le> uint l else s = 0" using ln r(3,6,8) by (auto simp: k_def)
  moreover have "l \<le> tyr_len_max tr" using ln n by (simp add: word_le_def)
  moreover have "tyr_len_allowed tr \<or> l = 0" using r(2,4) d(2) by (cases "tyr_len_allowed tr") (simp_all add: n_def)
  ultimately show ?thesis using mem r(1) by blast
qed

lemma type_by_id_built_in:
  assumes "tr \<in> set built_in_types"
  shows "type_by_id built_in_types (uint (attr_id (tyr_attr tr))) = Inr tr"
proof -
  have "\<forall>tr \<in> set built_in_types. type_by_id built_in_types (uint (attr_id (tyr_attr tr))) = Inr tr"
    by (simp add: kTypeSeeds_def mk_seed_def seed_row_def type_by_id_def seed_attr_defs)
  then show ?thesis using assms by blast
qed

lemma converted_declared:
  assumes "convert_columns (catalog_view (seeded_rows schemas tables columns) bootstrap) defs = Inr cols"
  shows "list_all (col_declared built_in_types) cols"
  unfolding list_all_length
proof (intro allI impI)
  note m = assms [unfolded convert_columns_def]
  fix i assume i: "i < length cols"
  then obtain t l s where s: "map_type_spec (catalog_view (seeded_rows schemas tables columns) bootstrap) (cd_type (defs ! i)) (cd_length (defs ! i)) (cd_scale (defs ! i)) = Inr (t, l, s)"
    and c: "cols ! i = \<lparr>col_name = cd_name (defs ! i), col_type = t, col_length = l, col_not_null = cd_not_null (defs ! i), col_scale = s\<rparr>"
    using map_res_nth [OF m, of i] map_res_length [OF m] by (auto simp: res_simps dest!: sym [of _ "cols ! i"])
  obtain tr where tr: "tr \<in> set built_in_types" "tyr_attr tr = t" "l \<le> tyr_len_max tr" "tyr_len_allowed tr \<or> l = 0"
    "if tyr_scale_allowed tr then uint s \<le> uint l else s = 0" using spec_ranges [OF s] by blast
  show "col_declared built_in_types (cols ! i)" using type_by_id_built_in [OF tr(1)] tr(2-5) by (simp add: c col_declared_def)
qed

section \<open>Tables by name\<close>

lemma not_found: "found r = Inr False \<Longrightarrow> r = Inr None"
  by (auto simp: found_def res_simps)

lemma find_res_append: "find_res P (xs @ ys) = rbind (find_res P xs) (\<lambda>r. case r of None \<Rightarrow> find_res P ys | Some x \<Rightarrow> Inr (Some x))"
  by (induction xs) (auto simp: rbind_assoc rbind_def split: sum.splits)

text \<open>What \<^verbatim>\<open>write_meta_rows\<close> adds to the metadata tables.\<close>

definition add_table :: "u64 \<Rightarrow> u64 \<Rightarrow> u64 \<Rightarrow> string \<Rightarrow> column_spec list \<Rightarrow> meta_rows \<Rightarrow> meta_rows" where
  "add_table sid tid fid name cols m =
     m\<lparr>mr_tables := mr_tables m @ [table_meta_row sid tid fid name], mr_columns := mr_columns m @ column_meta_rows tid cols\<rparr>"

lemma add_table_found:
  assumes "resolve_schema_id (mr_schemas m) t = Inr sid" "has_table_name (mr_tables m) sid (tr_name t) = Inr False"
    and "mr_types m = type_meta_rows" "list_all (col_declared built_in_types) cols" "cols \<noteq> []" "length cols < 2 ^ 63"
    and "list_all (other_row tid) (mr_columns m)"
  shows "find_table_meta (add_table sid tid fid (tr_name t) cols m) t
    = Inr \<lparr>tm_table_id = tid, tm_file_id = fid, tm_name = tr_name t, tm_cols = cols\<rparr>"
proof -
  have "find_res (row_matches 3 sid 1 (tr_name t)) (mr_tables m) = Inr None"
    by (rule not_found) (use assms(2) in \<open>simp only: has_table_name_def\<close>)
  then have "find_res (row_matches 3 sid 1 (tr_name t)) (mr_tables m @ [table_meta_row sid tid fid (tr_name t)])
      = Inr (Some (table_meta_row sid tid fid (tr_name t)))"
    by (simp add: find_res_append row_matches_def table_meta_row_def value_factories)
  moreover have "collect_columns type_meta_rows (mr_columns m @ column_meta_rows tid cols) tid = Inr cols"
    using collect_written_columns [OF type_rows_read assms(4-7), of "[]"] by simp
  ultimately show ?thesis
    using assms(1,3) by (simp add: find_table_meta_def add_table_def or_raise_def) (simp add: table_meta_row_def value_factories)
qed

text \<open>The rows a lookup reads before the new ones decide it as before, for every table that was found.\<close>

lemma new_columns_skip:
  assumes "tid' \<noteq> tid"
  shows "list_all (other_row tid') (column_meta_rows tid cols)"
  using assms signed_word_eqI [of tid tid'] by (auto simp: column_meta_rows_def list_all_iff other_row_def column_meta_row_def value_factories)

lemma collect_frame:
  assumes "list_all (other_row tid) rows'"
  shows "collect_columns type_rows (rows @ rows') tid = collect_columns type_rows rows tid"
proof -
  have "concat (xs @ replicate n []) = concat xs" for xs :: "(int \<times> column_spec) list list" and n by (induction n) simp_all
  then show ?thesis using other_rows_skip [OF assms]
    by (cases "map_res parse_type_row type_rows") (simp_all add: collect_columns_def map_res_append rbind_assoc)
qed

lemma add_table_frame:
  assumes "find_table_meta m t' = Inr meta" "tm_table_id meta \<noteq> tid"
  shows "find_table_meta (add_table sid tid fid name cols m) t' = Inr meta"
proof -
  from assms(1) obtain sid' row tid' fid' cs where r: "resolve_schema_id (mr_schemas m) t' = Inr sid'"
    "find_res (row_matches 3 sid' 1 (tr_name t')) (mr_tables m) = Inr (Some row)" "row_int row 0 = Inr tid'" "row_int row 2 = Inr fid'"
    "collect_columns (mr_types m) (mr_columns m) (word_of_int tid') = Inr cs"
    "meta = \<lparr>tm_table_id = word_of_int tid', tm_file_id = word_of_int fid', tm_name = tr_name t', tm_cols = cs\<rparr>"
    by (auto simp: find_table_meta_def or_raise_def res_simps split: option.splits)
  then have "collect_columns (mr_types m) (mr_columns m @ column_meta_rows tid cols) (word_of_int tid') = Inr cs"
    using collect_frame [OF new_columns_skip [of "word_of_int tid'" tid cols]] assms(2) by simp
  then show ?thesis using r by (simp add: find_table_meta_def add_table_def or_raise_def find_res_append)
qed

section \<open>What the analysis promises\<close>

definition demo_meta :: meta_rows where
  "demo_meta = seeded_rows [[int_cell kBigint 1, str_val kVarChar ''system''], [int_cell kBigint 2, str_val kVarChar ''public'']]
     [table_meta_row 2 20001 1 ''t'']
     (column_meta_rows 20001 [meta_col ''a'' kInt 0 True, meta_col ''b'' kVarChar 5 False])"

definition demo_db :: "bool \<Rightarrow> analyzer_catalog" where
  "demo_db bootstrap = catalog_view demo_meta bootstrap"

definition demo_update :: sql_statement where
  "demo_update = UpdateStmt \<lparr>qn_schema = [], qn_name = ''t''\<rparr>
     [\<lparr>ui_column = ''a'', ui_value = BinaryOpExpr CHR ''+'' (IdentifierExpr ''a'') (IntExpr ''1'')\<rparr>]
     (Some (CompareExpr CmpEq (IdentifierExpr ''b'') (StringExpr ''x'')))"

definition demo_handle :: table_handle where
  "demo_handle = \<lparr>th_meta = \<lparr>tm_table_id = 20001, tm_file_id = 1, tm_name = ''t'',
     tm_cols = [meta_col ''a'' kInt 0 True, meta_col ''b'' kVarChar 5 False]\<rparr>, th_display = ''public.t''\<rparr>"

definition demo_pred :: bound_expr where
  "demo_pred = BoundCmp CmpEq (BoundColRef 1 kVarChar) (BoundConst (str_val kVarChar ''x''))"

definition demo_bound :: bound_stmt where
  "demo_bound = BoundUpdate demo_handle
     [\<lparr>bu_col_idx = 0, bu_value = BoundArith CHR ''+'' kInt (BoundColRef 0 kInt) (BoundConst (int_val kInt 1))\<rparr>] (Some demo_pred)"

lemma demo_analyze: "analyze (demo_db False) demo_update ''public'' = Inr demo_bound"
  by code_simp

text \<open>
  C20. The analysis is sound: whatever statement it accepts, over the types and functions an initialised
  database has and whatever its tables are, is bound to well-typed trees. Predicates are boolean, every
  column reference is a column of the table, values of INSERT and UPDATE can be assigned to their
  columns, no column is assigned twice, keys of ORDER BY are output columns or well-typed expressions.
\<close>

theorem analyze_well_typed:
  assumes "analyze (catalog_view (seeded_rows schemas tables columns) bootstrap) s sch = Inr b"
  shows "stmt_ok b"
  by (rule seeded.analyze_ok [OF assms])

theorem analyze_well_typed_witness: "stmt_ok demo_bound"
  using analyze_well_typed [of _ _ _ False demo_update "''public''" demo_bound] demo_analyze
  by (simp only: demo_db_def demo_meta_def)

text \<open>The predicate of a bound statement with the table it is evaluated on.\<close>

fun where_of :: "bound_stmt \<Rightarrow> (table_handle \<times> bound_expr) option" where
  "where_of (BoundDelete h (Some p)) = Some (h, p)"
| "where_of (BoundUpdate h assigns (Some p)) = Some (h, p)"
| "where_of (BoundSelect s) = map_option (Pair (bs_table s)) (bs_where s)"
| "where_of (BoundExplain b) = where_of b"
| "where_of _ = None"

lemma where_of_typed: "stmt_ok b \<Longrightarrow> where_of b = Some (h, p) \<Longrightarrow> wt (handle_types h) p kBool"
  by (induction b rule: where_of.induct) (auto simp: where_ok_def)

text \<open>
  C21. A WHERE clause the analysis accepts never fails internally: on any row of the table's types its
  verdict is true or false, or the statement ends in an arithmetic or value-mismatch error.
\<close>

theorem accepted_where_safe:
  assumes "analyze (catalog_view (seeded_rows schemas tables columns) bootstrap) s sch = Inr b"
    and "where_of b = Some (h, p)" and "row_ok (handle_types h) (Some r)"
  shows "user_error (where_match p r)"
proof -
  have "safe kBool (eval_bound p (Some r))"
    by (rule eval_safe [OF where_of_typed [OF seeded.analyze_ok [OF assms(1)] assms(2)] assms(3)])
  moreover have "get_bool v = Some b" if "vbox v = BBool b" for v b using that by (cases v) simp
  ultimately show ?thesis
    by (auto simp: where_match_def user_error_def safe_def value_ok_def value_is_null_def box_typed_def res_simps
        split: sum.splits box.splits option.splits if_splits)
qed

definition demo_tuple :: row where
  "demo_tuple = empty_row\<lparr>row_values := [int_val kInt 7, str_val kVarChar ''x'']\<rparr>"

theorem accepted_where_safe_witness: "user_error (where_match demo_pred demo_tuple)"
proof (rule accepted_where_safe)
  show "analyze (catalog_view (seeded_rows (mr_schemas demo_meta) (mr_tables demo_meta) (mr_columns demo_meta)) False) demo_update ''public'' = Inr demo_bound"
    using demo_analyze by (simp add: demo_db_def demo_meta_def seeded_rows_def)
  show "where_of demo_bound = Some (demo_handle, demo_pred)" by (simp add: demo_bound_def)
  show "row_ok (handle_types demo_handle) (Some demo_tuple)"
    by (simp add: row_ok_def demo_handle_def demo_tuple_def meta_col_def value_ok_def value_factories box_typed_def seed_attr_defs)
qed

section \<open>The reserved schema\<close>

text \<open>The table a statement changes, under EXPLAIN too.\<close>

fun stmt_target :: "sql_statement \<Rightarrow> qualified_name option" where
  "stmt_target (CreateTableStmt q defs) = Some q"
| "stmt_target (DropTableStmt q) = Some q"
| "stmt_target (CreateIndexStmt i q c) = Some q"
| "stmt_target (DropIndexStmt i q) = Some q"
| "stmt_target (InsertStmt q cs rows) = Some q"
| "stmt_target (DeleteStmt q wh) = Some q"
| "stmt_target (UpdateStmt q items wh) = Some q"
| "stmt_target (ExplainStmt s) = stmt_target s"
| "stmt_target _ = None"

text \<open>The two statements initialisation runs on system tables.\<close>

fun bootstrap_stmt :: "sql_statement \<Rightarrow> bool" where
  "bootstrap_stmt (CreateTableStmt q defs) = True"
| "bootstrap_stmt (InsertStmt q cs rows) = True"
| "bootstrap_stmt (ExplainStmt s) = bootstrap_stmt s"
| "bootstrap_stmt _ = False"

text \<open>
  C23. System tables are protected: every statement that would change a table of the schema system
  is refused with the protected-table error before anything of it is looked up; only CREATE TABLE and
  INSERT pass, and only while the server initialises a database.
\<close>

theorem system_tables_protected:
  assumes "stmt_target s = Some q" and "tr_schema (to_table_ref q sch) = ''system''"
    and "\<not> (bootstrap_stmt s \<and> acat_bootstrap_mode db)"
  shows "analyze db s sch = Inl (Raise ProtectedTable)"
  using assms
  by (induction s rule: stmt_target.induct)
     (auto simp: writable_handle_def check_reserved_table_def parse_create_index_def parse_insert_def parse_update_def Let_def)

theorem system_tables_protected_witness:
  "analyze (demo_db False) (ExplainStmt (DeleteStmt \<lparr>qn_schema = [], qn_name = ''db_type''\<rparr> None)) ''system'' = Inl (Raise ProtectedTable)"
  by (rule system_tables_protected [of _ "\<lparr>qn_schema = [], qn_name = ''db_type''\<rparr>"]) (simp_all add: to_table_ref_def)

end
