(* ===== verification/Explain.thy ===== *)
theory Explain
  imports Catalog Operators Session
begin

text \<open>
  EXPLAIN, \<^verbatim>\<open>executor/explain.cpp\<close>: the text of values and bound expressions, the header and the property
  lines of a plan node, and the rendering of a plan as indented lines. The lemmas show when a plan of an accepted
  statement can be rendered.
\<close>

section \<open>Texts of expressions\<close>

definition const_text :: "dbvalue \<Rightarrow> string" where
  "const_text v =
     (case vbox v of
        BInt64 i \<Rightarrow> int_text (sint i)
      | BDouble d \<Rightarrow> format_float F64 d
      | BFloat f \<Rightarrow> format_float F32 f
      | BStr s \<Rightarrow> [CHR 0x27] @ s @ [CHR 0x27]
      | BBool b \<Rightarrow> (if b then ''true'' else ''false'')
      | BDec d \<Rightarrow> decimal_to_text d
      | BNull \<Rightarrow> ''NULL'')"

text \<open>\<^verbatim>\<open>types\<close> is \<^verbatim>\<open>Catalog::find_type_by_id\<close>.\<close>

definition col_type_text :: "(u16 \<Rightarrow> type_row res) \<Rightarrow> type_attr \<Rightarrow> u16 \<Rightarrow> u8 \<Rightarrow> string res" where
  "col_type_text types t len sc =
     rbind (types (attr_id t)) (\<lambda>row.
       let name = tyr_name row; l = int_text (uint len)
       in Inr (if attr_rep t = RepDec \<and> len > 0 \<and> sc > 0 then name @ ''('' @ l @ '','' @ int_text (uint sc) @ '')''
               else if len > 0 then name @ ''('' @ l @ '')'' else name))"

text \<open>An element of a vector; an index out of range is undefined behaviour.\<close>

definition name_at :: "string list \<Rightarrow> nat \<Rightarrow> string res" where
  "name_at names i = (if i < length names then Inr (names ! i) else Inl Crash)"

fun bound_expr_to_string :: "(u16 \<Rightarrow> type_row res) \<Rightarrow> string list \<Rightarrow> bound_expr \<Rightarrow> string res" where
  "bound_expr_to_string types names (BoundConst v) = Inr (const_text v)"
| "bound_expr_to_string types names (BoundColRef i t) = name_at names i"
| "bound_expr_to_string types names (BoundArith op t a b) =
     rbind (bound_expr_to_string types names a) (\<lambda>x. rbind (bound_expr_to_string types names b) (\<lambda>y.
       Inr (''('' @ x @ '' '' @ [op] @ '' '' @ y @ '')'')))"
| "bound_expr_to_string types names (BoundNeg t a) =
     rbind (bound_expr_to_string types names a) (\<lambda>x. Inr (''(-'' @ x @ '')''))"
| "bound_expr_to_string types names (BoundCmp op a b) =
     rbind (bound_expr_to_string types names a) (\<lambda>x. rbind (bound_expr_to_string types names b) (\<lambda>y.
       Inr (''('' @ x @ '' '' @ cmp_to_string op @ '' '' @ y @ '')'')))"
| "bound_expr_to_string types names (BoundLogic op a b) =
     rbind (bound_expr_to_string types names a) (\<lambda>x. rbind (bound_expr_to_string types names b) (\<lambda>y.
       Inr (''('' @ x @ (if op = LogicAnd then '' AND '' else '' OR '') @ y @ '')'')))"
| "bound_expr_to_string types names (BoundNot a) =
     rbind (bound_expr_to_string types names a) (\<lambda>x. Inr (''(NOT '' @ x @ '')''))"
| "bound_expr_to_string types names (BoundIsNull a negate) =
     rbind (bound_expr_to_string types names a) (\<lambda>x. Inr (''('' @ x @ (if negate then '' IS NOT NULL'' else '' IS NULL'') @ '')''))"
| "bound_expr_to_string types names (BoundFuncCall f name strict t args) =
     rbind (map_res (bound_expr_to_string types names) args) (\<lambda>xs. Inr (name @ ''('' @ comma_sep xs @ '')''))"
| "bound_expr_to_string types names (BoundCast t len sc a) =
     rbind (bound_expr_to_string types names a) (\<lambda>x. rbind (col_type_text types t len sc) (\<lambda>y.
       Inr (''CAST('' @ x @ '' AS '' @ y @ '')'')))"

section \<open>Lines of a plan\<close>

definition table_col_names :: "table_handle \<Rightarrow> string list" where
  "table_col_names h = map col_name (tm_cols (th_meta h))"

fun output_names :: "plan \<Rightarrow> string list res" where
  "output_names (SeqScanPlan t) = Inr (table_col_names t)"
| "output_names (FetchPlan t child) = Inr (table_col_names t)"
| "output_names DummyScanPlan = Inr []"
| "output_names (FilterPlan child pred) = output_names child"
| "output_names (ProjectPlan child projs) = Inr (map pc_name projs)"
| "output_names (SortPlan child orders b) = output_names child"
| "output_names _ = Inl (Raise Internal)"

definition node_header :: "(u16 \<Rightarrow> type_row res) \<Rightarrow> plan \<Rightarrow> string res" where
  "node_header types node =
     (case node of
        SeqScanPlan t \<Rightarrow> Inr (''Seq Scan on '' @ th_display t)
      | IndexScanPlan t index fid ranges conds \<Rightarrow> Inr (''Index Scan using '' @ index @ '' on '' @ th_display t)
      | FetchPlan t child \<Rightarrow> Inr (''Fetch on '' @ th_display t)
      | DummyScanPlan \<Rightarrow> Inr ''Dummy Scan''
      | EmptyPlan t \<Rightarrow> Inr (if t = [] then ''Empty Result'' else ''Empty Result on '' @ t)
      | FilterPlan child pred \<Rightarrow>
          rbind (output_names child) (\<lambda>names. rbind (bound_expr_to_string types names pred) (\<lambda>x. Inr (''Filter: '' @ x)))
      | ProjectPlan child projs \<Rightarrow> Inr ''Project''
      | SortPlan child orders b \<Rightarrow> Inr ''Sort''
      | InsertPlan t rows \<Rightarrow> Inr (''Insert on '' @ th_display t)
      | DeletePlan t child \<Rightarrow> Inr (''Delete on '' @ th_display t)
      | UpdatePlan t assigns child \<Rightarrow> Inr (''Update on '' @ th_display t)
      | CreateTablePlan t cols \<Rightarrow> Inr (''Create Table '' @ table_ref_to_string t)
      | DropTablePlan t \<Rightarrow> Inr (''Drop Table '' @ th_display t)
      | CreateSchemaPlan s \<Rightarrow> Inr (''Create Schema '' @ s)
      | DropSchemaPlan s \<Rightarrow> Inr (''Drop Schema '' @ s)
      | CreateIndexPlan t index ordinal \<Rightarrow>
          rbind (name_at (table_col_names t) (unat ordinal)) (\<lambda>col.
            Inr (''Create Index '' @ index @ '' on '' @ th_display t @ '' ('' @ col @ '')''))
      | DropIndexPlan t index \<Rightarrow> Inr (''Drop Index '' @ index @ '' on '' @ th_display t)
      | ExplainPlan child \<Rightarrow> Inr ''Explain''
      | SetPlan v x \<Rightarrow> Inl (Raise Internal))"

definition cond_text :: "index_cond \<Rightarrow> string" where
  "cond_text c =
     (if ic_is_null c then ''('' @ ic_col c @ (if ic_negate c then '' IS NOT NULL)'' else '' IS NULL)'')
      else ''('' @ ic_col c @ '' '' @ cmp_to_string (ic_op c) @ '' '' @ const_text (ic_value c) @ '')'')"

fun and_sep :: "string list \<Rightarrow> string" where
  "and_sep [] = []"
| "and_sep [x] = x"
| "and_sep (x # y # xs) = x @ '' AND '' @ and_sep (y # xs)"

definition order_text :: "(u16 \<Rightarrow> type_row res) \<Rightarrow> string list \<Rightarrow> bool \<Rightarrow> bound_order_item \<Rightarrow> string res" where
  "order_text types names on_output x =
     rbind (if on_output then name_at names (bo_out_idx x)
            else case bo_expr x of None \<Rightarrow> Inl Crash | Some e \<Rightarrow> bound_expr_to_string types names e) (\<lambda>k.
       Inr (k @ (if bo_desc x then '' DESC'' else [])))"

definition assign_text :: "(u16 \<Rightarrow> type_row res) \<Rightarrow> string list \<Rightarrow> bound_update_item \<Rightarrow> string res" where
  "assign_text types names a =
     rbind (name_at names (bu_col_idx a)) (\<lambda>n. rbind (bound_expr_to_string types names (bu_value a)) (\<lambda>x. Inr (n @ '' = '' @ x)))"

definition node_props :: "(u16 \<Rightarrow> type_row res) \<Rightarrow> plan \<Rightarrow> string list res" where
  "node_props types node =
     (case node of
        IndexScanPlan t index fid ranges conds \<Rightarrow>
          (let out = and_sep (map cond_text conds)
           in Inr [''Index Cond: '' @ (if length conds > 1 then ''('' @ out @ '')'' else out)])
      | ProjectPlan child projs \<Rightarrow> Inr [''Output: '' @ comma_sep (map pc_name projs)]
      | SortPlan child orders on_output \<Rightarrow>
          rbind (output_names child) (\<lambda>names. rbind (map_res (order_text types names on_output) orders) (\<lambda>xs.
            Inr [''Sort Key: '' @ comma_sep xs]))
      | UpdatePlan t assigns child \<Rightarrow>
          rbind (map_res (assign_text types (table_col_names t)) assigns) (\<lambda>xs. Inr [''Set: '' @ comma_sep xs])
      | _ \<Rightarrow> Inr [])"

fun child_of :: "plan \<Rightarrow> plan option" where
  "child_of (FilterPlan child pred) = Some child"
| "child_of (FetchPlan t child) = Some child"
| "child_of (ProjectPlan child projs) = Some child"
| "child_of (SortPlan child orders b) = Some child"
| "child_of (DeletePlan t child) = child"
| "child_of (UpdatePlan t assigns child) = Some child"
| "child_of (ExplainPlan child) = Some child"
| "child_of _ = None"

lemma child_of_size: "child_of p = Some q \<Longrightarrow> size q < size p"
  by (cases p) auto

function render_node :: "(u16 \<Rightarrow> type_row res) \<Rightarrow> plan \<Rightarrow> string \<Rightarrow> nat \<Rightarrow> string list res" where
  "render_node types node prefix indent =
     rbind (node_header types node) (\<lambda>header.
     rbind (node_props types node) (\<lambda>props.
       let pad = replicate indent (CHR '' ''); own = (prefix @ header) # map (\<lambda>p. pad @ p) props
       in case child_of node of
            None \<Rightarrow> Inr own
          | Some child \<Rightarrow> rbind (render_node types child (pad @ ''->  '') (indent + 6)) (\<lambda>lines. Inr (own @ lines))))"
  by pat_completeness auto
termination by (relation "measure (\<lambda>(_, p, _, _). size p)") (auto dest: child_of_size)

declare render_node.simps [simp del]

definition run_explain :: "(u16 \<Rightarrow> type_row res) \<Rightarrow> plan \<Rightarrow> exec_result res" where
  "run_explain types child =
     rbind (render_node types child [] 2) (\<lambda>lines.
       Inr \<lparr>er_is_result_set = True, er_tag = TagEmpty, er_count = 0, er_col_names = [text_bytes ''QUERY PLAN''],
            er_rows = map (\<lambda>l. [str_val kVarChar l]) lines, er_failure = None\<rparr>)"

section \<open>When a plan can be explained\<close>

text \<open>Every column reference is in range and every cast names a type of db_type.\<close>

fun shown :: "nat \<Rightarrow> bound_expr \<Rightarrow> bool" where
  "shown n (BoundConst v) = True"
| "shown n (BoundColRef i t) = (i < n)"
| "shown n (BoundArith op t a b) = (shown n a \<and> shown n b)"
| "shown n (BoundNeg t a) = shown n a"
| "shown n (BoundCmp op a b) = (shown n a \<and> shown n b)"
| "shown n (BoundLogic op a b) = (shown n a \<and> shown n b)"
| "shown n (BoundNot a) = shown n a"
| "shown n (BoundIsNull a neg) = shown n a"
| "shown n (BoundFuncCall f name strict t args) = list_all (shown n) args"
| "shown n (BoundCast t len sc a) = (shown n a \<and> t \<in> seed_types)"

lemma null_tree_shown: "null_tree e \<Longrightarrow> shown n e"
  by (induction e rule: null_tree.induct) auto

lemma wt_shown: "wt cols e t \<Longrightarrow> shown (length cols) e"
proof (induction rule: wt.induct)
  case (wt_func args ts f t name)
  then show ?case by (auto simp: list_all2_conv_all_nth list_all_length)
next
  case (wt_cast a ta t len sc)
  then show ?case using seed_attrs by simp
qed (auto intro: null_tree_shown)

lemma bound_shown: "bound_ok cols b t \<Longrightarrow> shown (length cols) b"
  by (auto simp: bound_ok_def null_tree_shown wt_shown)

lemma map_res_Inr: "(\<And>x. x \<in> set xs \<Longrightarrow> \<exists>y. f x = Inr y) \<Longrightarrow> \<exists>ys. map_res f xs = Inr ys"
  by (induction xs) fastforce+

lemma type_ids_known:
  "list_all (\<lambda>t. case find_type_by_id type_meta_rows (attr_id t) of Inr row \<Rightarrow> True | Inl e \<Rightarrow> False) (map seed_attr kTypeSeeds)"
  by code_simp

lemma type_shown: "t \<in> seed_types \<Longrightarrow> \<exists>row. find_type_by_id type_meta_rows (attr_id t) = Inr row"
  using type_ids_known unfolding list_all_iff seed_attrs by (cases "find_type_by_id type_meta_rows (attr_id t)") auto

lemma text_shown: "shown (length names) e \<Longrightarrow> \<exists>s. bound_expr_to_string (find_type_by_id type_meta_rows) names e = Inr s"
proof (induction e)
  case (BoundFuncCall f name strict t args)
  then have "\<exists>ys. map_res (bound_expr_to_string (find_type_by_id type_meta_rows) names) args = Inr ys"
    by (intro map_res_Inr) (auto simp: list_all_iff)
  then show ?case by auto
next
  case (BoundCast t len sc a)
  then show ?case using type_shown [of t] by (auto simp: col_type_text_def Let_def)
qed (auto simp: name_at_def)

text \<open>How many columns the names of a node's output cover; none for a node whose output has no names.\<close>

fun width :: "plan \<Rightarrow> nat option" where
  "width (SeqScanPlan t) = Some (length (tm_cols (th_meta t)))"
| "width (FetchPlan t child) = Some (length (tm_cols (th_meta t)))"
| "width DummyScanPlan = Some 0"
| "width (FilterPlan child pred) = width child"
| "width (ProjectPlan child projs) = Some (length projs)"
| "width (SortPlan child orders b) = width child"
| "width _ = None"

lemma output_names_width:
  "width p = None \<Longrightarrow> output_names p = Inl (Raise Internal)"
  "width p = Some n \<Longrightarrow> \<exists>names. output_names p = Inr names \<and> length names = n"
  by (induction p) (auto simp: table_col_names_def)

text \<open>What a node prints is in range of the columns of its child.\<close>

definition order_shown :: "nat \<Rightarrow> bool \<Rightarrow> bound_order_item \<Rightarrow> bool" where
  "order_shown n on_output x \<longleftrightarrow> (if on_output then bo_out_idx x < n else \<exists>e. bo_expr x = Some e \<and> shown n e)"

fun ready :: "plan \<Rightarrow> bool" where
  "ready (FilterPlan child pred) \<longleftrightarrow> ready child \<and> (\<forall>n. width child = Some n \<longrightarrow> shown n pred)"
| "ready (FetchPlan t child) \<longleftrightarrow> ready child"
| "ready (ProjectPlan child projs) \<longleftrightarrow> ready child"
| "ready (SortPlan child orders b) \<longleftrightarrow> ready child \<and> (\<forall>n. width child = Some n \<longrightarrow> (\<forall>x \<in> set orders. order_shown n b x))"
| "ready (DeletePlan t child) \<longleftrightarrow> (case child of None \<Rightarrow> True | Some c \<Rightarrow> ready c)"
| "ready (UpdatePlan t assigns child) \<longleftrightarrow> ready child \<and>
     (\<forall>a \<in> set assigns. bu_col_idx a < length (tm_cols (th_meta t)) \<and> shown (length (tm_cols (th_meta t))) (bu_value a))"
| "ready (CreateIndexPlan t i c) \<longleftrightarrow> unat c < length (tm_cols (th_meta t))"
| "ready (ExplainPlan child) \<longleftrightarrow> ready child"
| "ready (SetPlan v x) \<longleftrightarrow> False"
| "ready _ \<longleftrightarrow> True"

text \<open>A filter or a sort that stands on a node without column names.\<close>

fun blank :: "plan \<Rightarrow> bool" where
  "blank (FilterPlan child pred) \<longleftrightarrow> width child = None \<or> blank child"
| "blank (SortPlan child orders b) \<longleftrightarrow> width child = None \<or> blank child"
| "blank (FetchPlan t child) \<longleftrightarrow> blank child"
| "blank (ProjectPlan child projs) \<longleftrightarrow> blank child"
| "blank (DeletePlan t child) \<longleftrightarrow> (case child of None \<Rightarrow> False | Some c \<Rightarrow> blank c)"
| "blank (UpdatePlan t assigns child) \<longleftrightarrow> blank child"
| "blank (ExplainPlan child) \<longleftrightarrow> blank child"
| "blank _ \<longleftrightarrow> False"

lemma order_text_shown:
  "order_shown (length names) b x \<Longrightarrow> \<exists>s. order_text (find_type_by_id type_meta_rows) names b x = Inr s"
  by (auto simp: order_shown_def order_text_def name_at_def dest!: text_shown split: if_splits)

lemma assign_text_shown:
  "bu_col_idx a < length names \<Longrightarrow> shown (length names) (bu_value a) \<Longrightarrow>
   \<exists>s. assign_text (find_type_by_id type_meta_rows) names a = Inr s"
  by (auto simp: assign_text_def name_at_def dest!: text_shown)

text \<open>What rendering a plan node comes to.\<close>

definition explains :: "plan \<Rightarrow> bool" where
  "explains p \<longleftrightarrow> (\<forall>prefix indent.
     if blank p then render_node (find_type_by_id type_meta_rows) p prefix indent = Inl (Raise Internal)
     else \<exists>lines. render_node (find_type_by_id type_meta_rows) p prefix indent = Inr lines)"

lemma explains_leaf:
  assumes "child_of p = None" "\<not> blank p" "\<exists>h. node_header (find_type_by_id type_meta_rows) p = Inr h"
    "\<exists>xs. node_props (find_type_by_id type_meta_rows) p = Inr xs"
  shows "explains p"
  using assms by (auto simp: explains_def render_node.simps [of _ p] Let_def)

lemma explains_node:
  assumes "child_of p = Some c" "blank p = blank c" "\<exists>h. node_header (find_type_by_id type_meta_rows) p = Inr h"
    "\<exists>xs. node_props (find_type_by_id type_meta_rows) p = Inr xs" "explains c"
  shows "explains p"
  unfolding explains_def
proof (intro allI)
  fix prefix indent
  obtain h xs where hx: "node_header (find_type_by_id type_meta_rows) p = Inr h" "node_props (find_type_by_id type_meta_rows) p = Inr xs"
    using assms(3,4) by blast
  have "if blank c then render_node (find_type_by_id type_meta_rows) c (replicate indent (CHR '' '') @ ''->  '') (indent + 6) = Inl (Raise Internal)
     else \<exists>lines. render_node (find_type_by_id type_meta_rows) c (replicate indent (CHR '' '') @ ''->  '') (indent + 6) = Inr lines"
    using assms(5) unfolding explains_def by blast
  then show "if blank p then render_node (find_type_by_id type_meta_rows) p prefix indent = Inl (Raise Internal)
     else \<exists>lines. render_node (find_type_by_id type_meta_rows) p prefix indent = Inr lines"
    unfolding assms(2) render_node.simps [of _ p] using hx assms(1) by (auto simp: Let_def)
qed

lemma explains_blank:
  assumes "blank p" "node_header (find_type_by_id type_meta_rows) p = Inl (Raise Internal) \<or>
    (\<exists>h. node_header (find_type_by_id type_meta_rows) p = Inr h) \<and> node_props (find_type_by_id type_meta_rows) p = Inl (Raise Internal)"
  shows "explains p"
  using assms by (auto simp: explains_def render_node.simps [of _ p])

lemma ready_explains: "ready p \<Longrightarrow> explains p"
proof (induction p)
  case (FilterPlan child pred)
  show ?case
  proof (cases "width child")
    case None
    then show ?thesis using output_names_width(1) [OF None] by (intro explains_blank) (auto simp: node_header_def)
  next
    case (Some n)
    then obtain names s where "output_names child = Inr names" "bound_expr_to_string (find_type_by_id type_meta_rows) names pred = Inr s"
      using output_names_width(2) [OF Some] FilterPlan.prems text_shown by fastforce
    then show ?thesis using FilterPlan Some by - (rule explains_node [where c = child], auto simp: node_header_def node_props_def)
  qed
next
  case (SortPlan child orders b)
  show ?case
  proof (cases "width child")
    case None
    then show ?thesis using output_names_width(1) [OF None] by (intro explains_blank) (auto simp: node_header_def node_props_def)
  next
    case (Some n)
    obtain names where n: "output_names child = Inr names" "length names = n" using output_names_width(2) [OF Some] by blast
    have "\<exists>xs. map_res (order_text (find_type_by_id type_meta_rows) names b) orders = Inr xs"
      using SortPlan.prems Some n(2) by (intro map_res_Inr order_text_shown) auto
    then show ?thesis using SortPlan Some n(1) by - (rule explains_node [where c = child], auto simp: node_header_def node_props_def)
  qed
next
  case (UpdatePlan t assigns child)
  have "\<exists>xs. map_res (assign_text (find_type_by_id type_meta_rows) (table_col_names t)) assigns = Inr xs"
    using UpdatePlan.prems by (intro map_res_Inr assign_text_shown) (auto simp: table_col_names_def)
  then show ?case using UpdatePlan by - (rule explains_node [where c = child], auto simp: node_header_def node_props_def)
next
  case (DeletePlan t child)
  then show ?case by (cases child) (simp_all add: explains_leaf explains_node [where c = "the child"] node_header_def node_props_def)
next
  case (FetchPlan t child)
  then show ?case by - (rule explains_node [where c = child], auto simp: node_header_def node_props_def)
next
  case (ProjectPlan child projs)
  then show ?case by - (rule explains_node [where c = child], auto simp: node_header_def node_props_def)
next
  case (ExplainPlan child)
  then show ?case by - (rule explains_node [where c = child], auto simp: node_header_def node_props_def)
qed (simp_all add: explains_leaf node_header_def node_props_def Let_def name_at_def table_col_names_def)

lemma map_res_origin: "map_res f xs = Inr ys \<Longrightarrow> y \<in> set ys \<Longrightarrow> \<exists>x \<in> set xs. f x = Inr y"
  by (induction xs arbitrary: ys) (auto simp: res_simps)

lemma to_fold_shown: "to_fold_const e = Inr e' \<Longrightarrow> shown n e'"
  by (auto simp: to_fold_const_def res_simps)

lemma simplify_shown:
  "shown n a \<Longrightarrow> shown n b \<Longrightarrow> shown n (simplify_logic op a b)"
  "shown n a \<Longrightarrow> shown n (simplify_not a)"
  "shown n a \<Longrightarrow> shown n (cmp_at_weak w a)"
proof -
  show "shown n a \<Longrightarrow> shown n b \<Longrightarrow> shown n (simplify_logic op a b)"
    by (auto simp: simplify_logic_def Let_def split: option.splits logic_op.splits)
  show not: "shown n a \<Longrightarrow> shown n (simplify_not a)"
    by (cases a rule: simplify_not.cases) auto
  show "shown n a \<Longrightarrow> shown n (cmp_at_weak w a)"
    by (auto simp: cmp_at_weak_def simplify_cmp_def Let_def split: bound_expr.splits)
qed

lemma fold_shown: "fold_expr e w = Inr e' \<Longrightarrow> shown n e \<Longrightarrow> shown n e'"
proof (induction e w arbitrary: e' rule: fold_expr.induct)
  case (9 f nm strict t args weak)
  then obtain args' where a: "map_res (\<lambda>a. fold_expr a False) args = Inr args'" by (auto simp: res_simps)
  then have "list_all (shown n) args'" using 9(1,3) map_res_origin [OF a] by (fastforce simp: list_all_iff)
  then show ?case using 9(2) a by (auto intro: to_fold_shown split: if_splits)
qed (auto simp: res_simps intro: to_fold_shown simplify_shown split: if_splits)

lemma fold_ready:
  "fold_const p = Inr q \<Longrightarrow> ready p \<Longrightarrow> ready q \<and> width q = width p"
proof (induction p arbitrary: q rule: fold_const.induct)
  case (1 child pred)
  then show ?case using fold_shown [of pred True] by (auto simp: res_simps)
next
  case (4 child orders b)
  then obtain orders' child' where o: "(if b then Inr orders else map_res fold_order orders) = Inr orders'" "fold_const child = Inr child'"
    "q = SortPlan child' orders' b" by (auto simp: res_simps)
  have r: "ready child' \<and> width child' = width child" using 4 o by auto
  have "order_shown n b x'" if n: "width child = Some n" "x' \<in> set orders'" for n x'
  proof (cases b)
    case True
    then show ?thesis using 4 o n by auto
  next
    case False
    then obtain x where x: "x \<in> set orders" "fold_order x = Inr x'" using map_res_origin [of fold_order orders orders' x'] o(1) n(2) by auto
    have "order_shown n False x" using 4 n(1) x(1) False by auto
    then show ?thesis using x(2) False fold_shown [of _ False _ n] by (auto simp: order_shown_def fold_order_def res_simps)
  qed
  then show ?case using o(3) r by simp
next
  case (8 t assigns child)
  then obtain assigns' child' where o: "map_res fold_assign assigns = Inr assigns'" "fold_const child = Inr child'"
    "q = UpdatePlan t assigns' child'" by (auto simp: res_simps)
  have "bu_col_idx a' < length (tm_cols (th_meta t)) \<and> shown (length (tm_cols (th_meta t))) (bu_value a')" if mem: "a' \<in> set assigns'" for a'
  proof -
    obtain a where a: "a \<in> set assigns" "fold_assign a = Inr a'" using map_res_origin [OF o(1) mem] by blast
    then show ?thesis using 8 fold_shown [of _ False] by (auto simp: fold_assign_def res_simps)
  qed
  then show ?case using o 8 by auto
next
  case (3 child projs)
  then obtain projs' child' where o: "map_res fold_proj projs = Inr projs'" "fold_const child = Inr child'" "q = ProjectPlan child' projs'"
    by (auto simp: res_simps)
  then have "length projs' = length projs" by (simp add: map_res_list_all2 list_all2_lengthD)
  then show ?case using o 3 by auto
qed (auto simp: res_simps)

lemma prune_ready:
  "prune_filter p = Inr q \<Longrightarrow> ready p \<Longrightarrow> ready q \<and> (width q = width p \<or> width q = None)"
proof (induction p arbitrary: q rule: prune_filter.induct)
  case (1 child pred)
  then obtain child' c where c: "prune_filter child = Inr child'" "classify_pred pred = Inr c" by (auto simp: res_simps)
  have r: "ready child' \<and> (width child' = width child \<or> width child' = None)" using 1 c(1) by auto
  show ?case using 1 c r by (cases c) (auto simp: res_simps)
next
  case (4 child orders b)
  then show ?case by (auto simp: res_simps)
qed (auto simp: res_simps)

lemma flatten_shown: "shown n e \<Longrightarrow> c \<in> set (flatten_and e) \<Longrightarrow> shown n c"
  by (induction e rule: flatten_and.induct) auto

lemma foldl_shown: "shown n (foldl (BoundLogic LogicAnd) e es) \<longleftrightarrow> shown n e \<and> (\<forall>c \<in> set es. shown n c)"
  by (induction es arbitrary: e) auto

lemma index_path_ready:
  assumes "shown (length (tm_cols (th_meta t))) pred"
  shows "ready (index_path t ent (flatten_and pred) hits) \<and>
    (width (index_path t ent (flatten_and pred) hits) = Some (length (tm_cols (th_meta t))) \<or> width (index_path t ent (flatten_and pred) hits) = None)"
proof -
  have "c \<in> set (residual_of (flatten_and pred) hits) \<Longrightarrow> shown (length (tm_cols (th_meta t))) c" for c
    using flatten_shown [OF assms] by (auto simp: residual_of_def)
  then have "residual_of (flatten_and pred) hits \<noteq> [] \<Longrightarrow> shown (length (tm_cols (th_meta t))) (join_and (residual_of (flatten_and pred) hits))"
    by (cases "residual_of (flatten_and pred) hits") (auto simp: join_and_def foldl_shown)
  then show ?thesis by (auto simp: index_path_def Let_def)
qed

lemma rewrite_ready:
  assumes "rewrite_scan db child pred = Inr q" "ready (FilterPlan child pred)"
  shows "ready q \<and> (width q = width child \<or> width q = None)"
proof (cases "q = FilterPlan child pred")
  case False
  then obtain t ent hits where "child = SeqScanPlan t" "q = index_path t ent (flatten_and pred) hits"
    using assms(1) by (auto simp: rewrite_scan_def Let_def res_simps split: plan.splits if_splits option.splits)
  then show ?thesis using index_path_ready [of t pred ent hits] assms(2) by auto
qed (use assms(2) in auto)

lemma select_ready:
  "select_index db p = Inr q \<Longrightarrow> ready p \<Longrightarrow> ready q \<and> (width q = width p \<or> width q = None)"
proof (induction db p arbitrary: q rule: select_index.induct)
  case (1 db child pred)
  then show ?case using rewrite_ready [of db child pred q] by auto
next
  case (3 db child orders b)
  then show ?case by (auto simp: res_simps)
qed (auto simp: res_simps)

lemma optimize_ready: "optimize db p = Inr q \<Longrightarrow> ready p \<Longrightarrow> ready q"
  using fold_ready prune_ready select_ready by (auto simp: optimize_def res_simps)

fun no_set :: "bound_stmt \<Rightarrow> bool" where
  "no_set (BoundSet v x) = False"
| "no_set (BoundExplain b) = no_set b"
| "no_set _ = True"

lemma orders_shown:
  "orders_ok cols n b orders \<Longrightarrow> x \<in> set orders \<Longrightarrow> order_shown (if b then n else length cols) b x"
  by (auto simp: orders_ok_def order_shown_def dest: bound_shown split: if_splits)

lemma select_build_ready:
  assumes "ready input" "width input = Some (length cols)" "where_ok cols wh" "orders_ok cols (length projs) b orders"
  shows "ready (build_select input wh projs orders b)"
  using assms orders_shown [OF assms(4)] by (auto simp: build_select_def Let_def where_ok_def wt_shown split: option.splits)

lemma create_index_in_range: "stmt_ok (BoundCreateIndex h i c) \<Longrightarrow> unat c < length (tm_cols (th_meta h))"
proof (cases "length (tm_cols (th_meta h)) < 65536")
  case False
  moreover have "unat c < 2 ^ LENGTH(16)" by (rule unsigned_less)
  ultimately show ?thesis by simp
qed simp

lemma assign_shown: "assignable cols b col \<Longrightarrow> shown (length cols) b"
  by (auto simp: assignable_def bound_shown)

lemma build_ready: "stmt_ok b \<Longrightarrow> no_set b \<Longrightarrow> ready (build b)"
proof (induction b)
  case (BoundCreateIndex h i c)
  then show ?case using create_index_in_range by simp
next
  case (BoundDelete h wh)
  then show ?case by (cases wh) (auto simp: where_ok_def dest: wt_shown)
next
  case (BoundUpdate h assigns wh)
  then show ?case using wt_shown [of "handle_types h"] assign_shown [of "handle_types h"] by (auto simp: where_ok_def split: option.splits)
next
  case (BoundSelect s)
  then show ?case using select_build_ready [of "SeqScanPlan (bs_table s)" "handle_types (bs_table s)"] by simp
next
  case (BoundSelectNoFrom s)
  then show ?case using select_build_ready [of DummyScanPlan "[]"] by simp
qed auto

lemma render_outcome:
  assumes "analyze (catalog_view (seeded_rows schemas tables columns) bootstrap) stmt sch = Inr b" and "no_set b"
    and "optimize db (build b) = Inr q"
  shows "if blank q then run_explain (find_type_by_id type_meta_rows) q = Inl (Raise Internal)
    else \<exists>res. run_explain (find_type_by_id type_meta_rows) q = Inr res"
proof -
  have "stmt_ok b" by (rule seeded.analyze_ok [OF assms(1)])
  then have "explains q" using build_ready optimize_ready ready_explains assms(2,3) by blast
  then have "if blank q then render_node (find_type_by_id type_meta_rows) q [] 2 = Inl (Raise Internal)
     else \<exists>lines. render_node (find_type_by_id type_meta_rows) q [] 2 = Inr lines" unfolding explains_def by blast
  then show ?thesis by (auto simp: run_explain_def)
qed

text \<open>
  C24. EXPLAIN. For every statement the analysis accepts in an initialised database, whatever the optimiser
  makes of its plan (SET cannot be explained, which the grammar ensures), the rendering ends: with the
  lines of the plan, unless a sort or a filter stands on a node whose output has no names, which is the empty
  result that pruning and index selection put in place of a scan, and then with an internal error. No column
  reference is out of range and no type of a CAST is unknown.
\<close>

theorem explain_renders:
  assumes "analyze (catalog_view (seeded_rows schemas tables columns) bootstrap) stmt sch = Inr b" and "no_set b"
    and "optimize db (build b) = Inr q"
  shows "if blank q then run_explain (find_type_by_id type_meta_rows) q = Inl (Raise Internal)
    else \<exists>res. run_explain (find_type_by_id type_meta_rows) q = Inr res"
  by (rule render_outcome [OF assms])

definition no_indexes :: planner_catalog where
  "no_indexes = \<lparr>pcat_indexes = (\<lambda>_. Inr []), pcat_double = Inr kDouble\<rparr>"

lemma demo_explained: "\<exists>q. optimize no_indexes (build demo_bound) = Inr q \<and> \<not> blank q"
proof -
  have "case optimize no_indexes (build demo_bound) of Inr q \<Rightarrow> \<not> blank q | Inl _ \<Rightarrow> False" by code_simp
  then show ?thesis by (auto split: sum.splits)
qed

theorem explain_renders_witness:
  "\<exists>q res. optimize no_indexes (build demo_bound) = Inr q \<and> run_explain (find_type_by_id type_meta_rows) q = Inr res"
proof -
  obtain q where q: "optimize no_indexes (build demo_bound) = Inr q" "\<not> blank q" using demo_explained by blast
  have "no_set demo_bound" by (simp add: demo_bound_def)
  then show ?thesis
    using explain_renders [of _ _ _ False demo_update "''public''" demo_bound no_indexes q] demo_analyze q unfolding demo_db_def demo_meta_def by auto
qed

text \<open>
  C25. EXPLAIN fails on queries that run. For every accepted SELECT whose predicate folds to a constant that is
  false or NULL and whose ORDER BY sorts the rows before the projection (a key that is no output column), if
  the plan can be optimised at all, running it gives the empty result, whatever the tables hold, and its EXPLAIN ends in an internal error.
\<close>

theorem explain_fails_on_empty_sort:
  assumes "analyze (catalog_view (seeded_rows schemas tables columns) bootstrap) stmt sch = Inr (BoundSelect s)"
    and "bs_where s = Some w" "fold_expr w True = Inr (BoundConst c)" "vbox c = BNull \<or> vbox c = BBool False"
    and "bs_orders s \<noteq> []" "\<not> bs_sort_on_output s"
    and "optimize db (build (BoundSelect s)) = Inr q"
  shows "op_run ac q = Inr ([], None) \<and> run_explain (find_type_by_id type_meta_rows) q = Inl (Raise Internal)"
proof -
  obtain t orders projs where q: "q = ProjectPlan (SortPlan (EmptyPlan t) orders False) projs"
    using assms(2-7) by (auto simp: optimize_def build_select_def classify_pred_def scan_table_def res_simps)
  have "op_run ac q = Inr ([], None)" unfolding q by (simp add: run_simps run_sort)
  moreover have "blank q" by (simp add: q)
  ultimately show ?thesis using render_outcome [OF assms(1) _ assms(7)] by simp
qed

text \<open>SELECT a FROM t WHERE FALSE ORDER BY b, where b is no output column.\<close>

definition demo_false_order :: sql_statement where
  "demo_false_order = SelectStmt \<lparr>sel_table = \<lparr>qn_schema = [], qn_name = ''t''\<rparr>, sel_distinct = False,
     sel_items = [\<lparr>si_expr = Some (IdentifierExpr ''a''), si_alias = [], si_star = False\<rparr>],
     sel_where = Some (BoolExpr False), sel_orders = [\<lparr>oi_expr = IdentifierExpr ''b'', oi_desc = False\<rparr>], sel_limit = None, sel_offset = None\<rparr>"

definition false_sorted :: "bound_select \<Rightarrow> bool" where
  "false_sorted s \<longleftrightarrow>
     (case bs_where s of None \<Rightarrow> False | Some w \<Rightarrow> fold_expr w True = Inr (BoundConst (bool_val kBool False))) \<and>
     bs_orders s \<noteq> [] \<and> \<not> bs_sort_on_output s \<and> \<not> isl (optimize no_indexes (build (BoundSelect s)))"

lemma demo_false_bound: "\<exists>s. analyze (demo_db False) demo_false_order ''public'' = Inr (BoundSelect s) \<and> false_sorted s"
proof -
  have "case analyze (demo_db False) demo_false_order ''public'' of
      Inr (BoundSelect s) \<Rightarrow> false_sorted s | _ \<Rightarrow> False" by code_simp
  then show ?thesis by (auto split: sum.splits bound_stmt.splits)
qed

theorem explain_fails_on_empty_sort_witness:
  "\<exists>s q. analyze (demo_db False) demo_false_order ''public'' = Inr (BoundSelect s) \<and>
     optimize no_indexes (build (BoundSelect s)) = Inr q \<and> op_run demo_access q = Inr ([], None) \<and>
     run_explain (find_type_by_id type_meta_rows) q = Inl (Raise Internal)"
proof -
  obtain s where s: "analyze (demo_db False) demo_false_order ''public'' = Inr (BoundSelect s)" "false_sorted s"
    using demo_false_bound by blast
  then obtain w where w: "bs_where s = Some w" "fold_expr w True = Inr (BoundConst (bool_val kBool False))"
    by (auto simp: false_sorted_def split: option.splits)
  obtain q where q: "optimize no_indexes (build (BoundSelect s)) = Inr q"
    using s(2) by (cases "optimize no_indexes (build (BoundSelect s))") (auto simp: false_sorted_def)
  have v: "vbox (bool_val kBool False) = BNull \<or> vbox (bool_val kBool False) = BBool False" by (simp add: value_factories)
  have srt: "bs_orders s \<noteq> []" "\<not> bs_sort_on_output s" using s(2) by (simp_all add: false_sorted_def)
  from explain_fails_on_empty_sort [OF s(1) [unfolded demo_db_def demo_meta_def] w v srt q, of demo_access] show ?thesis
    using s(1) q by blast
qed

end
