(* ===== verification/CatalogOps.thy ===== *)
theory CatalogOps
  imports Catalog
begin

text \<open>
  The catalog with its state: the operations of \<^verbatim>\<open>catalog_ddl.cpp\<close>, \<^verbatim>\<open>catalog_dml.cpp\<close> and \<^verbatim>\<open>catalog.cpp\<close> on the
  storage engine. The record \<^verbatim>\<open>catalog\<close> has the fields of the class \<^verbatim>\<open>Catalog\<close>; every
  metadata table is a heap file of the engine, and what an operation computes from its rows is the function of the same name
  in the theories \<^verbatim>\<open>Meta\<close> and \<^verbatim>\<open>Catalog\<close>. An operation takes the fuel of the
  loops it runs and returns None when the fuel does not reach the end of a page chain.
\<close>

section \<open>Calls that may not end\<close>

text \<open>Operations on the files walk along page chains and take fuel; this sequences them.\<close>

definition obind :: "'a res option \<Rightarrow> ('a \<Rightarrow> 'b res option) \<Rightarrow> 'b res option" where
  "obind m f = (case m of None \<Rightarrow> None | Some (Inl err) \<Rightarrow> Some (Inl err) | Some (Inr x) \<Rightarrow> f x)"

lemma obind_simps [simp]: "obind None f = None" "obind (Some (Inl err)) f = Some (Inl err)" "obind (Some (Inr x)) f = f x"
  by (simp_all add: obind_def)

lemma obind_cong [fundef_cong]:
  "m = m' \<Longrightarrow> (\<And>x. m' = Some (Inr x) \<Longrightarrow> f x = g x) \<Longrightarrow> obind m f = obind m' g"
  by (auto simp: obind_def split: option.splits sum.splits)

section \<open>The state of the catalog\<close>

text \<open>\<^verbatim>\<open>Catalog\<close>: the engine, the next identifiers, and the columns of db_index and db_func, cached since \<^verbatim>\<open>open\<close>.\<close>

record catalog =
  ct_engine :: engine
  ct_next_file_id :: u64
  ct_next_table_id :: u64
  ct_next_schema_id :: u64
  ct_bootstrap_mode :: bool
  ct_bootstrap_table_id :: u64
  ct_index_cols :: "column_spec list"
  ct_func_cols :: "column_spec list"

definition catalog_init :: "engine \<Rightarrow> bool \<Rightarrow> catalog" where
  "catalog_init e bootstrap =
     \<lparr>ct_engine = e, ct_next_file_id = 0, ct_next_table_id = 0, ct_next_schema_id = 0, ct_bootstrap_mode = bootstrap,
      ct_bootstrap_table_id = 0, ct_index_cols = [], ct_func_cols = []\<rparr>"

text \<open>A call of the engine.\<close>

definition on_engine :: "(engine \<Rightarrow> engine res) \<Rightarrow> catalog \<Rightarrow> catalog res" where
  "on_engine f c = rbind (f (ct_engine c)) (\<lambda>e. Inr (c\<lparr>ct_engine := e\<rparr>))"

definition meta_read :: "nat \<Rightarrow> u64 \<Rightarrow> column_spec list \<Rightarrow> catalog \<Rightarrow> (dbvalue list list \<times> catalog) res option" where
  "meta_read fuel fid cols c =
     obind (read_rows fuel fid cols (en_store (ct_engine c))) (\<lambda>(rows, s).
       Some (Inr (rows, c\<lparr>ct_engine := (ct_engine c)\<lparr>en_store := s\<rparr>\<rparr>)))"

definition meta_insert :: "nat \<Rightarrow> u64 \<Rightarrow> column_spec list \<Rightarrow> dbvalue list \<Rightarrow> catalog \<Rightarrow> catalog res option" where
  "meta_insert fuel fid cols row c =
     obind (insert_row fuel fid cols row (ct_engine c)) (\<lambda>(_, _, e). Some (Inr (c\<lparr>ct_engine := e\<rparr>)))"

fun meta_insert_all :: "nat \<Rightarrow> u64 \<Rightarrow> column_spec list \<Rightarrow> dbvalue list list \<Rightarrow> catalog \<Rightarrow> catalog res option" where
  "meta_insert_all fuel fid cols [] c = Some (Inr c)"
| "meta_insert_all fuel fid cols (row # rows) c = obind (meta_insert fuel fid cols row c) (meta_insert_all fuel fid cols rows)"

section \<open>Scans of metadata tables with row locations\<close>

text \<open>A scan to the end, collecting what \<^verbatim>\<open>f\<close> gives for each row.\<close>

fun scan_collect :: "nat \<Rightarrow> (row \<Rightarrow> 'a list res) \<Rightarrow> heap_scanner \<Rightarrow> store \<Rightarrow> ('a list \<times> store) res option" where
  "scan_collect 0 f sc s = None"
| "scan_collect (Suc fuel) f sc s =
     obind (heap_scan_next fuel sc s) (\<lambda>(r, sc, s).
       case r of
         None \<Rightarrow> Some (rbind (heap_scan_close sc s) (\<lambda>(_, s). Inr ([], s)))
       | Some row \<Rightarrow>
           obind (Some (f row)) (\<lambda>xs. obind (scan_collect fuel f sc s) (\<lambda>(ys, s). Some (Inr (xs @ ys, s)))))"

definition meta_of :: "u64 \<Rightarrow> column_spec list \<Rightarrow> table_meta" where
  "meta_of fid cols = \<lparr>tm_table_id = fid, tm_file_id = fid, tm_name = [], tm_cols = cols\<rparr>"

definition meta_scan :: "nat \<Rightarrow> (row \<Rightarrow> 'a list res) \<Rightarrow> u64 \<Rightarrow> column_spec list \<Rightarrow> catalog \<Rightarrow> ('a list \<times> catalog) res option" where
  "meta_scan fuel f fid cols c =
     obind (Some (heap_scan_open (meta_of fid cols) (en_store (ct_engine c)))) (\<lambda>(sc, s).
     obind (scan_collect fuel f sc s) (\<lambda>(xs, s). Some (Inr (xs, c\<lparr>ct_engine := (ct_engine c)\<lparr>en_store := s\<rparr>\<rparr>))))"

definition index_rows_of :: "u64 \<Rightarrow> row \<Rightarrow> index_entry list res" where
  "index_rows_of tid row =
     rbind (row_int (row_values row) 0) (\<lambda>t. if t \<noteq> sint tid then Inr [] else rbind (index_entry_of row) (\<lambda>e. Inr [e]))"

definition cat_table_indexes :: "nat \<Rightarrow> u64 \<Rightarrow> catalog \<Rightarrow> (index_entry list \<times> catalog) res option" where
  "cat_table_indexes fuel tid c = meta_scan fuel (index_rows_of tid) kIndexMetaId (ct_index_cols c) c"

section \<open>Names\<close>

definition cat_resolve_schema_id :: "nat \<Rightarrow> table_ref \<Rightarrow> catalog \<Rightarrow> (u64 \<times> catalog) res option" where
  "cat_resolve_schema_id fuel t c =
     (if tr_schema t = [] then Some (Inl (Raise Internal))
      else obind (meta_read fuel kSchemaMetaId schema_meta_cols c) (\<lambda>(rows, c).
        Some (rbind (resolve_schema_id rows t) (\<lambda>sid. Inr (sid, c)))))"

definition cat_collect_columns :: "nat \<Rightarrow> u64 \<Rightarrow> catalog \<Rightarrow> (column_spec list \<times> catalog) res option" where
  "cat_collect_columns fuel tid c =
     obind (meta_read fuel kTypeMetaId type_meta_cols c) (\<lambda>(types, c).
     obind (Some (rbind (map_res parse_type_row types) (\<lambda>ts. demand (ts \<noteq> [])))) (\<lambda>_.
     obind (meta_read fuel kColumnMetaId column_meta_cols c) (\<lambda>(columns, c).
       Some (rbind (collect_columns types columns tid) (\<lambda>cols. Inr (cols, c))))))"

definition cat_find_table_meta :: "nat \<Rightarrow> table_ref \<Rightarrow> catalog \<Rightarrow> (table_meta \<times> catalog) res option" where
  "cat_find_table_meta fuel t c =
     obind (cat_resolve_schema_id fuel t c) (\<lambda>(sid, c).
     obind (meta_read fuel kTableMetaId table_meta_cols c) (\<lambda>(tables, c).
     obind (Some (rbind (or_raise TableNotFound (find_res (row_matches 3 sid 1 (tr_name t)) tables)) (\<lambda>row.
              rbind (row_int row 0) (\<lambda>tid. rbind (row_int row 2) (\<lambda>fid. Inr (word_of_int tid :: u64, word_of_int fid :: u64)))))) (\<lambda>(tid, fid).
     obind (cat_collect_columns fuel tid c) (\<lambda>(cols, c).
       Some (Inr (\<lparr>tm_table_id = tid, tm_file_id = fid, tm_name = tr_name t, tm_cols = cols\<rparr>, c))))))"

section \<open>Creating tables and schemas\<close>

definition alloc_table_id :: "catalog \<Rightarrow> u64 \<times> catalog" where
  "alloc_table_id c = (ct_next_table_id c, c\<lparr>ct_next_table_id := ct_next_table_id c + 1\<rparr>)"

definition alloc_file_id :: "catalog \<Rightarrow> u64 \<times> catalog" where
  "alloc_file_id c = (ct_next_file_id c, c\<lparr>ct_next_file_id := ct_next_file_id c + 1\<rparr>)"

definition alloc_schema_id :: "catalog \<Rightarrow> u64 \<times> catalog" where
  "alloc_schema_id c = (ct_next_schema_id c, c\<lparr>ct_next_schema_id := ct_next_schema_id c + 1\<rparr>)"

definition write_meta_rows :: "nat \<Rightarrow> u64 \<Rightarrow> u64 \<Rightarrow> u64 \<Rightarrow> string \<Rightarrow> column_spec list \<Rightarrow> catalog \<Rightarrow> catalog res option" where
  "write_meta_rows fuel sid tid fid name cols c =
     obind (meta_insert fuel kTableMetaId table_meta_cols (table_meta_row sid tid fid name) c)
       (meta_insert_all fuel kColumnMetaId column_meta_cols (column_meta_rows tid cols))"

definition name_ok :: "string \<Rightarrow> unit res" where
  "name_ok name = (if name = [] \<or> length name > unat kMetaNameLen then Inl (Raise InvalidDdl) else Inr ())"

definition columns_ok :: "column_spec list \<Rightarrow> unit res" where
  "columns_ok cols =
     (if cols = [] \<or> list_ex (\<lambda>col. length (col_name col) > unat kMetaNameLen) cols \<or> \<not> distinct (map col_name cols)
      then Inl (Raise InvalidDdl) else Inr ())"

definition create_table_impl :: "nat \<Rightarrow> u64 \<Rightarrow> table_ref \<Rightarrow> column_spec list \<Rightarrow> u64 \<Rightarrow> catalog \<Rightarrow> (u64 \<times> catalog) res option" where
  "create_table_impl fuel sid t cols tid c =
     obind (Some (name_ok (tr_name t))) (\<lambda>_.
     obind (meta_read fuel kTableMetaId table_meta_cols c) (\<lambda>(tables, c).
     obind (Some (rbind (has_table_name tables sid (tr_name t)) (\<lambda>b. if b then Inl (Raise TableExists) else columns_ok cols))) (\<lambda>_.
       let (fid, c) = alloc_file_id c in
       obind (Some (on_engine (init_table_file fid) c)) (\<lambda>c.
       obind (write_meta_rows fuel sid tid fid (tr_name t) cols c) (\<lambda>c. Some (Inr (tid, c)))))))"

definition create_table_bootstrap :: "nat \<Rightarrow> u64 \<Rightarrow> table_ref \<Rightarrow> column_spec list \<Rightarrow> catalog \<Rightarrow> (u64 \<times> catalog) res option" where
  "create_table_bootstrap fuel sid t cols c =
     (if ct_bootstrap_table_id c = 0 then Some (Inl (Raise InvalidDdl))
      else obind (meta_read fuel kTableMetaId table_meta_cols c) (\<lambda>(tables, c).
        obind (Some (rbind (has_table_id tables (ct_bootstrap_table_id c)) (\<lambda>b. if b then Inl (Raise TableExists) else Inr ()))) (\<lambda>_.
        obind (create_table_impl fuel sid t cols (ct_bootstrap_table_id c) c) (\<lambda>(tid, c).
          let c = (if tid = kIndexMetaId then c\<lparr>ct_index_cols := cols\<rparr> else c);
              c = (if tid = kFuncMetaId then c\<lparr>ct_func_cols := cols\<rparr> else c)
          in Some (Inr (tid, c))))))"

definition create_table :: "nat \<Rightarrow> table_ref \<Rightarrow> column_spec list \<Rightarrow> catalog \<Rightarrow> (u64 \<times> catalog) res option" where
  "create_table fuel t cols c =
     obind (cat_resolve_schema_id fuel t c) (\<lambda>(sid, c).
       if ct_bootstrap_mode c then create_table_bootstrap fuel sid t cols c
       else let (tid, c) = alloc_table_id c in create_table_impl fuel sid t cols tid c)"

definition create_schema :: "nat \<Rightarrow> string \<Rightarrow> catalog \<Rightarrow> catalog res option" where
  "create_schema fuel name c =
     obind (Some (name_ok name)) (\<lambda>_.
     obind (meta_read fuel kSchemaMetaId schema_meta_cols c) (\<lambda>(rows, c).
     obind (Some (rbind (has_schema_name rows name) (\<lambda>b. if b then Inl (Raise SchemaExists) else Inr ()))) (\<lambda>_.
       let (sid, c) = alloc_schema_id c in
       meta_insert fuel kSchemaMetaId schema_meta_cols [int_val kBigint sid, str_val kVarChar name] c)))"

fun init_files :: "u64 list \<Rightarrow> catalog \<Rightarrow> catalog res" where
  "init_files [] c = Inr c"
| "init_files (fid # fids) c = rbind (on_engine (init_table_file fid) c) (init_files fids)"

definition bootstrap_meta_tables :: "nat \<Rightarrow> catalog \<Rightarrow> catalog res option" where
  "bootstrap_meta_tables fuel c =
     obind (Some (init_files [kTypeMetaId, kTableMetaId, kColumnMetaId, kSchemaMetaId] c)) (\<lambda>c.
     obind (write_meta_rows fuel kSystemSchemaId kTypeMetaId kTypeMetaId ''db_type'' type_meta_cols c) (\<lambda>c.
     obind (write_meta_rows fuel kSystemSchemaId kTableMetaId kTableMetaId ''db_table'' table_meta_cols c) (\<lambda>c.
     obind (write_meta_rows fuel kSystemSchemaId kColumnMetaId kColumnMetaId ''db_column'' column_meta_cols c) (\<lambda>c.
     obind (write_meta_rows fuel kSystemSchemaId kSchemaMetaId kSchemaMetaId ''db_schema'' schema_meta_cols c) (\<lambda>c.
     obind (meta_insert_all fuel kTypeMetaId type_meta_cols type_meta_rows c) (\<lambda>c.
       meta_insert fuel kSchemaMetaId schema_meta_cols [int_val kBigint kSystemSchemaId, str_val kVarChar ''system''] c))))))"

section \<open>Dropping tables and schemas, indexes\<close>

text \<open>The locations of the rows whose first cell is the table.\<close>

definition refs_of :: "u64 \<Rightarrow> row \<Rightarrow> row_ref list res" where
  "refs_of tid row = rbind (row_int (row_values row) 0) (\<lambda>t. Inr (if t = sint tid then [row_loc row] else []))"

definition delete_meta_rows_in :: "nat \<Rightarrow> u64 \<Rightarrow> u64 \<Rightarrow> column_spec list \<Rightarrow> catalog \<Rightarrow> catalog res option" where
  "delete_meta_rows_in fuel tid fid cols c =
     obind (meta_scan fuel (refs_of tid) fid cols c) (\<lambda>(refs, c). Some (on_engine (delete_rows refs) c))"

definition delete_meta_rows :: "nat \<Rightarrow> u64 \<Rightarrow> catalog \<Rightarrow> catalog res option" where
  "delete_meta_rows fuel tid c =
     obind (delete_meta_rows_in fuel tid kTableMetaId table_meta_cols c)
       (delete_meta_rows_in fuel tid kColumnMetaId column_meta_cols)"

definition check_user_table :: "table_meta \<Rightarrow> unit res" where
  "check_user_table meta = (if tm_table_id meta \<le> kReservedMaxTableId then Inl (Raise ProtectedTable) else Inr ())"

definition drop_index_files :: "index_entry \<Rightarrow> engine \<Rightarrow> engine res" where
  "drop_index_files ent e = rbind (delete_row (ie_row_ref ent) e) (\<lambda>(_, e). remove_index_file (ie_file_id ent) e)"

fun drop_indexes :: "index_entry list \<Rightarrow> catalog \<Rightarrow> catalog res" where
  "drop_indexes [] c = Inr c"
| "drop_indexes (ent # ents) c = rbind (on_engine (drop_index_files ent) c) (drop_indexes ents)"

definition drop_table :: "nat \<Rightarrow> table_handle \<Rightarrow> catalog \<Rightarrow> catalog res option" where
  "drop_table fuel h c =
     obind (Some (check_user_table (th_meta h))) (\<lambda>_.
     obind (cat_table_indexes fuel (tm_table_id (th_meta h)) c) (\<lambda>(ents, c).
     obind (Some (drop_indexes ents c)) (\<lambda>c.
     obind (delete_meta_rows fuel (tm_table_id (th_meta h)) c) (\<lambda>c.
       Some (on_engine (remove_table_file (tm_file_id (th_meta h))) c)))))"

text \<open>A scan up to the first row that matches; the scanner stays open until the function returns.\<close>

fun scan_until :: "nat \<Rightarrow> (row \<Rightarrow> bool res) \<Rightarrow> heap_scanner \<Rightarrow> store \<Rightarrow> (row option \<times> heap_scanner \<times> store) res option" where
  "scan_until 0 P sc s = None"
| "scan_until (Suc fuel) P sc s =
     obind (heap_scan_next fuel sc s) (\<lambda>(r, sc, s).
       case r of
         None \<Rightarrow> Some (Inr (None, sc, s))
       | Some row \<Rightarrow> obind (Some (P row)) (\<lambda>b. if b then Some (Inr (Some row, sc, s)) else scan_until fuel P sc s))"

definition drop_schema :: "nat \<Rightarrow> string \<Rightarrow> catalog \<Rightarrow> catalog res option" where
  "drop_schema fuel name c =
     obind (Some (heap_scan_open (meta_of kSchemaMetaId schema_meta_cols) (en_store (ct_engine c)))) (\<lambda>(sc, s).
     obind (scan_until fuel (\<lambda>row. rbind (row_str (row_values row) 1) (\<lambda>n. Inr (n = name))) sc s) (\<lambda>(r, sc, s).
       case r of
         None \<Rightarrow> Some (Inl (Raise SchemaNotFound))
       | Some row \<Rightarrow>
           obind (Some (row_int (row_values row) 0)) (\<lambda>sid.
           obind (meta_read fuel kTableMetaId table_meta_cols (c\<lparr>ct_engine := (ct_engine c)\<lparr>en_store := s\<rparr>\<rparr>)) (\<lambda>(tables, c).
           obind (Some (rbind (found (find_res (\<lambda>row. rbind (row_int row 3) (\<lambda>v. Inr (v = sid))) tables)) (\<lambda>b.
                    if b then Inl (Raise SchemaNotEmpty) else Inr ()))) (\<lambda>_.
           obind (Some (on_engine (\<lambda>e. rbind (delete_row (row_loc row) e) (\<lambda>(_, e). Inr e)) c)) (\<lambda>c.
             Some (rbind (heap_scan_close sc (en_store (ct_engine c))) (\<lambda>(_, s).
               Inr (c\<lparr>ct_engine := (ct_engine c)\<lparr>en_store := s\<rparr>\<rparr>)))))))))"

definition create_index :: "nat \<Rightarrow> table_handle \<Rightarrow> string \<Rightarrow> u16 \<Rightarrow> catalog \<Rightarrow> catalog res option" where
  "create_index fuel h index col_ordinal c =
     (let meta = th_meta h in
      obind (Some (rbind (check_user_table meta) (\<lambda>_. name_ok index))) (\<lambda>_.
      obind (meta_read fuel kIndexMetaId (ct_index_cols c) c) (\<lambda>(rows, c).
      obind (Some (rbind (has_index_name rows (tm_table_id meta) index) (\<lambda>b.
               if b then Inl (Raise IndexExists)
               else if unat col_ordinal \<ge> length (tm_cols meta) then Inl (Raise Internal) else Inr ()))) (\<lambda>_.
        let (fid, c) = alloc_file_id c in
        obind (Some (on_engine (init_index_file fid) c)) (\<lambda>c.
        obind (build_index fuel (tm_file_id meta) (tm_cols meta) col_ordinal fid (ct_engine c)) (\<lambda>(_, e).
          meta_insert fuel kIndexMetaId (ct_index_cols c)
            [int_val kBigint (tm_table_id meta), str_val kVarChar index, int_cell kInt (uint col_ordinal), int_val kBigint fid]
            (c\<lparr>ct_engine := e\<rparr>)))))))"

definition drop_index :: "nat \<Rightarrow> table_handle \<Rightarrow> string \<Rightarrow> catalog \<Rightarrow> catalog res option" where
  "drop_index fuel h index c =
     obind (Some (check_user_table (th_meta h))) (\<lambda>_.
     obind (cat_table_indexes fuel (tm_table_id (th_meta h)) c) (\<lambda>(ents, c).
       case find (\<lambda>e. ie_name e = index) ents of
         None \<Rightarrow> Some (Inl (Raise IndexNotFound))
       | Some ent \<Rightarrow> Some (on_engine (drop_index_files ent) c)))"

section \<open>Rows\<close>

text \<open>An entry for the row in every index of its table.\<close>

fun index_row :: "nat \<Rightarrow> column_spec list \<Rightarrow> dbvalue list \<Rightarrow> row_ref \<Rightarrow> index_entry list \<Rightarrow> engine \<Rightarrow> engine res option" where
  "index_row fuel cols vals ref [] e = Some (Inr e)"
| "index_row fuel cols vals ref (ent # ents) e =
     (if unat (ie_col_ordinal ent) \<ge> length vals then Some (Inl Critical)
      else obind (Some (encode_key (col_type (cols ! unat (ie_col_ordinal ent))) (vals ! unat (ie_col_ordinal ent)))) (\<lambda>key.
        obind (index_insert fuel (ie_file_id ent) key ref e) (index_row fuel cols vals ref ents)))"

definition cat_insert :: "nat \<Rightarrow> table_meta \<Rightarrow> dbvalue list \<Rightarrow> catalog \<Rightarrow> (u64 \<times> catalog) res option" where
  "cat_insert fuel meta vals c =
     obind (insert_row fuel (tm_file_id meta) (tm_cols meta) vals (ct_engine c)) (\<lambda>(rid, ref, e).
     obind (cat_table_indexes fuel (tm_table_id meta) (c\<lparr>ct_engine := e\<rparr>)) (\<lambda>(ents, c).
     obind (index_row fuel (tm_cols meta) vals ref ents (ct_engine c)) (\<lambda>e. Some (Inr (rid, c\<lparr>ct_engine := e\<rparr>)))))"

definition delete_by_ref :: "row_ref \<Rightarrow> catalog \<Rightarrow> (nat \<times> catalog) res" where
  "delete_by_ref ref c =
     (if rr_page ref = INVALID_PAGE then Inl (Raise Internal)
      else if \<not> table_file_exists (bp_files (en_store (ct_engine c))) (pid_file (rr_page ref)) then Inl (Raise TableNotFound)
      else rbind (delete_row ref (ct_engine c)) (\<lambda>(n, e). Inr (n, c\<lparr>ct_engine := e\<rparr>)))"

fun update_loop :: "nat \<Rightarrow> table_meta \<Rightarrow> index_entry list \<Rightarrow> (row_ref \<times> dbvalue list) list \<Rightarrow> engine \<Rightarrow> engine res option" where
  "update_loop fuel meta ents [] e = Some (Inr e)"
| "update_loop fuel meta ents ((ref, vals) # rows) e =
     (if pid_file (rr_page ref) \<noteq> tm_file_id meta then Some (Inl (Raise Internal))
      else obind (Some (delete_row ref e)) (\<lambda>(n, e).
        if n = 0 then Some (Inl (Raise Internal))
        else obind (insert_row fuel (tm_file_id meta) (tm_cols meta) vals e) (\<lambda>(_, new_ref, e).
          obind (index_row fuel (tm_cols meta) vals new_ref ents e) (update_loop fuel meta ents rows))))"

definition update_rows :: "nat \<Rightarrow> table_meta \<Rightarrow> (row_ref \<times> dbvalue list) list \<Rightarrow> catalog \<Rightarrow> (nat \<times> catalog) res option" where
  "update_rows fuel meta rows c =
     obind (cat_table_indexes fuel (tm_table_id meta) c) (\<lambda>(ents, c).
     obind (update_loop fuel meta ents rows (ct_engine c)) (\<lambda>e. Some (Inr (length rows, c\<lparr>ct_engine := e\<rparr>))))"

definition cat_delete_all :: "nat \<Rightarrow> table_meta \<Rightarrow> catalog \<Rightarrow> (nat \<times> catalog) res option" where
  "cat_delete_all fuel meta c =
     obind (delete_all_rows fuel (tm_file_id meta) (ct_engine c)) (\<lambda>(n, e). Some (Inr (n, c\<lparr>ct_engine := e\<rparr>)))"

section \<open>Opening\<close>

definition max_cell :: "nat \<Rightarrow> dbvalue list list \<Rightarrow> int res" where
  "max_cell i rows = rbind (map_res (\<lambda>row. row_int row i) rows) (\<lambda>vs. Inr (fold max vs 0))"

definition load_index_meta :: "nat \<Rightarrow> catalog \<Rightarrow> (int \<times> catalog) res option" where
  "load_index_meta fuel c =
     (if \<not> table_file_exists (bp_files (en_store (ct_engine c))) kIndexMetaId then
        Some (if ct_bootstrap_mode c then Inr (0, c) else Inl Critical)
      else obind (cat_collect_columns fuel kIndexMetaId c) (\<lambda>(cols, c).
        obind (meta_read fuel kIndexMetaId cols (c\<lparr>ct_index_cols := cols\<rparr>)) (\<lambda>(rows, c).
          Some (rbind (max_cell 3 rows) (\<lambda>m. Inr (m, c))))))"

definition load_func_meta :: "nat \<Rightarrow> catalog \<Rightarrow> catalog res option" where
  "load_func_meta fuel c =
     (if \<not> table_file_exists (bp_files (en_store (ct_engine c))) kFuncMetaId then
        Some (if ct_bootstrap_mode c then Inr c else Inl Critical)
      else obind (cat_collect_columns fuel kFuncMetaId c) (\<lambda>(cols, c).
        obind (meta_read fuel kTypeMetaId type_meta_cols (c\<lparr>ct_func_cols := cols\<rparr>)) (\<lambda>(types, c).
        obind (meta_read fuel kFuncMetaId cols c) (\<lambda>(rows, c).
          Some (rbind (validate_func_rows types rows) (\<lambda>_. Inr c))))))"

text \<open>The row of db_version marks a completed initialisation.\<close>

definition version_row :: "dbvalue list \<Rightarrow> bool res" where
  "version_row row = rbind (row_str row 1) (\<lambda>n.
     if n = ''db_version'' then rbind (row_int row 3) (\<lambda>v. Inr (v = sint kSystemSchemaId)) else Inr False)"

definition files_present :: "catalog \<Rightarrow> bool" where
  "files_present c =
     (let ex = (\<lambda>fid. table_file_exists (bp_files (en_store (ct_engine c))) fid) in
      if ct_bootstrap_mode c then ex kTableMetaId \<and> ex kColumnMetaId \<and> ex kSchemaMetaId \<and> ex kTypeMetaId else ex kTableMetaId)"

definition scan_tables :: "dbvalue list list \<Rightarrow> (int \<times> int \<times> bool) res" where
  "scan_tables rows =
     rbind (map_res (\<lambda>row. rbind (row_int row 2) (\<lambda>f. rbind (row_int row 0) (\<lambda>t. rbind (version_row row) (\<lambda>v. Inr (f, t, v))))) rows)
       (\<lambda>xs. Inr (fold max (map fst xs) 0, fold max (map (fst \<circ> snd) xs) 0, list_ex (snd \<circ> snd) xs))"

definition cat_open :: "nat \<Rightarrow> catalog \<Rightarrow> catalog res option" where
  "cat_open fuel c =
     (if \<not> files_present c then Some (Inl (Raise CatalogMissing))
      else obind (Some (on_engine eng_open c)) (\<lambda>c.
        obind (meta_read fuel kTableMetaId table_meta_cols c) (\<lambda>(tables, c).
        obind (Some (scan_tables tables)) (\<lambda>(max_fid, max_tid, has_version).
          if \<not> ct_bootstrap_mode c \<and> \<not> has_version then Some (Inl (Raise CatalogMissing))
          else obind (load_index_meta fuel c) (\<lambda>(index_fid, c).
            obind (load_func_meta fuel c) (\<lambda>c.
            obind (meta_read fuel kSchemaMetaId schema_meta_cols c) (\<lambda>(schemas, c).
            obind (Some (max_cell 0 schemas)) (\<lambda>max_sid.
              Some (Inr (c\<lparr>ct_next_file_id := word_of_int (max max_fid index_fid) + 1,
                ct_next_table_id := word_of_int (max (max_tid + 1) (uint kFirstUserTableId)),
                ct_next_schema_id := word_of_int max_sid + 1\<rparr>))))))))))"

definition cat_create :: "nat \<Rightarrow> u64 \<Rightarrow> catalog \<Rightarrow> catalog res option" where
  "cat_create fuel wal_checkpoint_bytes c =
     (if table_file_exists (bp_files (en_store (ct_engine c))) kTableMetaId then Some (Inl (Raise CatalogExists))
      else obind (Some (on_engine catalog_begin_txn c)) (\<lambda>c.
        obind (bootstrap_meta_tables fuel c) (\<lambda>c.
          Some (rbind (on_engine (catalog_commit_txn wal_checkpoint_bytes) c) (on_engine checkpoint)))))"

definition cat_close :: "catalog \<Rightarrow> catalog res" where
  "cat_close c = on_engine eng_close c"

end
