(* ===== verification/CatalogTables.thy ===== *)
theory CatalogTables
  imports CatalogOps
begin

text \<open>
  The metadata tables on their pages: reading one changes no page of any file, a file that holds given rows is read as
  exactly these rows and after an insertion holds one row more, a scanner delivers
  exactly the rows of a file, and CREATE SCHEMA is correct down to the pages.
\<close>

section \<open>Reading does not disturb other files\<close>

text \<open>
  A step that only reads: every page looks as before, and what is on disk is what was there or
  what the pool showed.
\<close>

definition calm :: "store \<Rightarrow> store \<Rightarrow> bool" where
  "calm s s' \<longleftrightarrow> idle s' \<and> kept s s' \<and> page_view s' = page_view s
     \<and> (\<forall>q. disk_page (bp_files s') q = disk_page (bp_files s) q \<or> disk_page (bp_files s') q = page_view s q)
     \<and> (aligned (bp_files s) \<and> pages_numbered s \<longrightarrow> aligned (bp_files s') \<and> pages_numbered s')"

lemma calm_refl: "idle s \<Longrightarrow> calm s s"
  by (simp add: calm_def kept_refl idle_def)

lemma calm_trans:
  assumes "calm a b" "calm b c"
  shows "calm a c"
proof -
  have "disk_page (bp_files c) q = disk_page (bp_files a) q \<or> disk_page (bp_files c) q = page_view a q" for q
  proof -
    have "disk_page (bp_files b) q = disk_page (bp_files a) q \<or> disk_page (bp_files b) q = page_view a q"
      "disk_page (bp_files c) q = disk_page (bp_files b) q \<or> disk_page (bp_files c) q = page_view b q" "page_view b = page_view a"
      using assms by (simp_all add: calm_def)
    then show ?thesis by auto
  qed
  moreover have "kept a c" using assms kept_trans [of a b c] by (simp add: calm_def)
  ultimately show ?thesis using assms by (simp add: calm_def)
qed

lemma read_numbered:
  assumes "pages_numbered s" "pool_read pid m s = Inr (k, s')" "pid_page pid \<noteq> - 1"
  shows "pages_numbered s'"
proof (cases "bp_table s pid")
  case (Some j)
  then show ?thesis using assms(1,2) by (auto simp: pool_read_def intro!: numbered_keep)
next
  case None
  then obtain i s1 where e0: "evict s = Inr (i, s1)" using assms(2) by (cases "evict s") (auto simp: pool_read_def)
  then have "pages_numbered s1" using evict_numbered [OF assms(1)] by (simp add: evict_def)
  moreover obtain d fs where "read_page (pid_file pid) (pid_page pid) (bp_files s1) = (d, fs)" by fastforce
  ultimately show ?thesis using assms(2,3) None e0
    by (auto simp: pool_read_def Let_def intro!: numbered_upd split: if_splits)
qed

lemma unpin_disk: "pool_unpin k s = Inr s' \<Longrightarrow> bp_files s' = bp_files s \<and> (pages_numbered s \<longrightarrow> pages_numbered s')"
  by (auto simp: pool_unpin_def Let_def intro!: numbered_keep split: if_splits option.splits)

lemma look_calm:
  assumes "idle s" "0 < length (bp_frames s)" "page_valid (page_view s pid) magic" "pid_page pid \<noteq> - 1"
  shows "\<exists>k s1 s'. pool_read pid magic s = Inr (k, s1) \<and> frame_data k s1 = page_view s pid \<and> pool_unpin k s1 = Inr s' \<and> calm s s'"
proof -
  obtain k s1 s' where l: "pool_read pid magic s = Inr (k, s1)" "frame_data k s1 = page_view s pid" "pool_unpin k s1 = Inr s'"
    "idle s'" "kept s s'" "page_view s' = page_view s"
    "\<forall>q. disk_page (bp_files s') q = disk_page (bp_files s) q \<or> disk_page (bp_files s') q = page_view s q"
    using look_step [OF assms(1-3)] by blast
  have "aligned (bp_files s') \<and> pages_numbered s'" if "aligned (bp_files s)" "pages_numbered s"
    using read_aligned [OF _ that assms(2) l(1)] read_numbered [OF that(2) l(1) assms(4)] unpin_disk [OF l(3)] assms(1) by (simp add: idle_def)
  then show ?thesis using l by (auto simp: calm_def)
qed

lemma walk_chain_calm:
  assumes "idle s" "0 < length (bp_frames s)" "chain (\<lambda>c. page_view s (PageId fid c)) cs 0" "0 \<notin> set cs" "- 1 \<notin> set cs"
    and "\<And>c. c \<in> set cs \<Longrightarrow> f (PageId fid c) (page_view s (PageId fid c)) = Inr (F c)"
  shows "\<exists>s'. walk_chain (Suc (length cs + n)) fid f (hd (cs @ [0])) s = Some (Inr (concat (map F cs), s')) \<and> calm s s'"
  using assms
proof (induction cs arbitrary: s)
  case Nil
  then show ?case using calm_refl by auto
next
  case (Cons c cs)
  have v: "page_valid (page_view s (PageId fid c)) MAGIC_HEAP" "hd_next_page (page_view s (PageId fid c)) = hd (cs @ [0])" "c \<noteq> 0" "c \<noteq> - 1"
    using Cons.prems(3-5) by auto
  obtain k s1 s2 where l: "pool_read (PageId fid c) MAGIC_HEAP s = Inr (k, s1)" "frame_data k s1 = page_view s (PageId fid c)" "pool_unpin k s1 = Inr s2" "calm s s2"
    using look_calm [OF Cons.prems(1,2) v(1)] v(4) by auto
  have c: "idle s2" "0 < length (bp_frames s2)" "page_view s2 = page_view s" using l(4) Cons.prems(2) by (auto simp: calm_def kept_def)
  obtain s' where w: "walk_chain (Suc (length cs + n)) fid f (hd (cs @ [0])) s2 = Some (Inr (concat (map F cs), s'))" "calm s2 s'"
    using Cons.IH [OF c(1,2)] Cons.prems(3-6) c(3) by auto
  have "walk_chain (Suc (length (c # cs) + n)) fid f c s = Some (Inr (concat (map F (c # cs)), s'))"
    using l(1-3) v w(1) Cons.prems(6) [of c] by simp
  then show ?case using calm_trans [OF l(4) w(2)] by auto
qed

lemma heap_file_pages:
  assumes "heap_file v fid cs" "last (0 # cs) \<noteq> - 1"
  shows "0 \<notin> set cs" "- 1 \<notin> set cs"
proof -
  have s: "sorted_wrt (<) (0 # cs)" using assms(1) by (simp add: heap_file_def)
  then show "0 \<notin> set cs" by auto
  show "- 1 \<notin> set cs"
  proof
    assume m: "- 1 \<in> set cs"
    then obtain xs ys where cs: "cs = xs @ - 1 # ys" by (auto dest: split_list)
    have "y > - 1" if "y \<in> set ys" for y using s that by (auto simp: cs sorted_wrt_append)
    then have "ys = []" using word_n1_ge [of "hd ys"] by (cases ys) (auto simp: not_less)
    then show False using assms(2) cs by simp
  qed
qed

lemma walk_file_calm:
  assumes "idle s" "0 < length (bp_frames s)" "heap_file (page_view s) fid cs" "last (0 # cs) \<noteq> - 1"
    and "\<And>c. c \<in> set cs \<Longrightarrow> f (PageId fid c) (page_view s (PageId fid c)) = Inr (F c)"
  shows "\<exists>s'. walk_file (Suc (length cs + n)) fid f s = Some (Inr (concat (map F cs), s')) \<and> calm s s'"
proof -
  have h: "page_valid (page_view s (PageId fid 0)) MAGIC_FILE_HEADER" "hd_next_page (page_view s (PageId fid 0)) = hd (cs @ [0])"
    "chain (\<lambda>c. page_view s (PageId fid c)) cs 0" using assms(3) by (auto simp: heap_file_def)
  obtain k s1 s2 where l: "pool_read (PageId fid 0) MAGIC_FILE_HEADER s = Inr (k, s1)" "frame_data k s1 = page_view s (PageId fid 0)" "pool_unpin k s1 = Inr s2" "calm s s2"
    using look_calm [OF assms(1,2) h(1)] by auto
  have c: "idle s2" "0 < length (bp_frames s2)" "page_view s2 = page_view s" using l(4) assms(2) by (auto simp: calm_def kept_def)
  obtain s' where w: "walk_chain (Suc (length cs + n)) fid f (hd (cs @ [0])) s2 = Some (Inr (concat (map F cs), s'))" "calm s2 s'"
    using walk_chain_calm [OF c(1,2), of fid cs f F n] h(3) heap_file_pages [OF assms(3,4)] assms(5) c(3) by auto
  have "first_page fid s = Inr (hd (cs @ [0]), s2)" using l(1-3) h(2) by (simp add: first_page_def)
  then show ?thesis using w(1) calm_trans [OF l(4) w(2)] by (auto simp: walk_file_def)
qed

lemma tail_calm:
  assumes "heap_table e fid cs" "calm (en_store e) s'"
  shows "heap_table (e\<lparr>en_store := s'\<rparr>) fid cs"
proof -
  have f: "heap_file (page_view (en_store e)) fid cs" "tail_ok e fid cs" using assms(1) by (auto simp: heap_table_def)
  have "tail_ok (e\<lparr>en_store := s'\<rparr>) fid cs"
  proof (cases "en_tails e fid")
    case None
    have t: "aligned (bp_files (en_store e))" "pages_numbered (en_store e)"
      "\<And>no. no > last (0 # cs) \<Longrightarrow> page_all_zero (disk_page (bp_files (en_store e)) (PageId fid no))"
      "cs \<noteq> [] \<Longrightarrow> \<not> page_all_zero (disk_page (bp_files (en_store e)) (PageId fid (last cs)))"
      using f(2) None by (auto simp: tail_ok_def)
    have d: "disk_page (bp_files s') q = disk_page (bp_files (en_store e)) q \<or> disk_page (bp_files s') q = page_view (en_store e) q" for q
      using assms(2) by (simp add: calm_def)
    have z: "page_all_zero (disk_page (bp_files s') (PageId fid no))" if "no > last (0 # cs)" for no
    proof -
      have "page_view (en_store e) (PageId fid no) = replicate PAGE_SIZE 0" using f(1) that by (simp add: heap_file_def)
      then show ?thesis using t(3) [OF that] d [of "PageId fid no"] by (metis page_all_zero_def)
    qed
    have n: "\<not> page_all_zero (disk_page (bp_files s') (PageId fid (last cs)))" if "cs \<noteq> []"
      using heap_file_last(1) [OF f(1) that] valid_nonzero t(4) [OF that] d [of "PageId fid (last cs)"] by metis
    show ?thesis using None assms(2) t(1,2) z n by (simp add: tail_ok_def calm_def)
  qed (use f(2) in \<open>simp add: tail_ok_def\<close>)
  then show ?thesis using f(1) assms(2) by (simp add: heap_table_def calm_def)
qed

section \<open>Metadata tables as lists of rows\<close>

text \<open>
  A file of the engine that holds the given rows: a well-formed heap file whose live records decode to
  them; with \<^verbatim>\<open>meta_file\<close> its last page is not the last page a file can have.
\<close>

definition holds_rows :: "engine \<Rightarrow> u64 \<Rightarrow> column_spec list \<Rightarrow> u32 list \<Rightarrow> dbvalue list list \<Rightarrow> bool" where
  "holds_rows e fid cols cs rows \<longleftrightarrow> heap_table e fid cs \<and>
     list_all2 (\<lambda>x vals. decode_row cols (snd x) = Inr (Some vals)) (table_rows e fid cs) rows"

definition meta_file :: "engine \<Rightarrow> u64 \<Rightarrow> column_spec list \<Rightarrow> u32 list \<Rightarrow> dbvalue list list \<Rightarrow> bool" where
  "meta_file e fid cols cs rows \<longleftrightarrow> holds_rows e fid cols cs rows \<and> last (0 # cs) \<noteq> - 1"

lemma decoded_rows:
  assumes "list_all2 (\<lambda>x vals. decode_row cols (snd x) = Inr (Some vals)) xs rows"
  shows "rows = map ((\<lambda>r. case decode_row cols r of Inr (Some v) \<Rightarrow> v | _ \<Rightarrow> []) \<circ> snd) xs"
  using assms by (induction rule: list_all2_induct) auto

lemma slots_decode:
  assumes "holds_rows e fid cols cs rows"
  obtains F where "\<And>c. c \<in> set cs \<Longrightarrow> map_res (decode_slot cols (page_view (en_store e) (PageId fid c))) (live_slots (page_view (en_store e) (PageId fid c))) = Inr (F c)"
    "concat (map F cs) = rows"
proof -
  let ?s = "en_store e" and ?dec = "\<lambda>r. case decode_row cols r of Inr (Some v) \<Rightarrow> v | _ \<Rightarrow> []"
  let ?rows = "\<lambda>c. page_rows (PageId fid c) (page_slots (page_view ?s (PageId fid c)))"
  have m: "list_all2 (\<lambda>x vals. decode_row cols (snd x) = Inr (Some vals)) (table_rows e fid cs) rows"
    using assms by (simp add: holds_rows_def)
  have d: "decode_row cols r = Inr (Some (?dec r))" if "(ref, r) \<in> set (table_rows e fid cs)" for ref r
    using m that by (auto simp: list_all2_conv_all_nth in_set_conv_nth)
  have "map_res (decode_slot cols (page_view ?s (PageId fid c))) (live_slots (page_view ?s (PageId fid c))) = Inr (map (?dec \<circ> snd) (?rows c))"
    if "c \<in> set cs" for c using d that by (intro decode_slots) (auto simp: heap_rows_def)
  moreover have "concat (map (\<lambda>c. map (?dec \<circ> snd) (?rows c)) cs) = rows"
    unfolding decoded_rows [OF m] by (simp add: heap_rows_def map_concat comp_def)
  ultimately show thesis by (rule that)
qed

lemma read_rows_holds:
  assumes "holds_rows e fid cols cs rows" "0 < length (bp_frames (en_store e))" "length cs < fuel"
  shows "\<exists>s'. read_rows fuel fid cols (en_store e) = Some (Inr (rows, s'))"
proof -
  obtain F where F: "\<And>c. c \<in> set cs \<Longrightarrow> map_res (decode_slot cols (page_view (en_store e) (PageId fid c))) (live_slots (page_view (en_store e) (PageId fid c))) = Inr (F c)"
    "concat (map F cs) = rows" using slots_decode [OF assms(1)] by metis
  obtain n where n: "fuel = Suc (length cs + n)" using assms(3) less_imp_Suc_add by blast
  have "idle (en_store e)" "heap_file (page_view (en_store e)) fid cs" using assms(1) by (auto simp: holds_rows_def heap_table_def)
  then show ?thesis
    using walk_file_step [OF _ assms(2), of fid cs "\<lambda>_ p. map_res (decode_slot cols p) (live_slots p)" F n] F unfolding read_rows_def n by auto
qed

lemma read_rows_meta:
  assumes "meta_file e fid cols cs rows" "0 < length (bp_frames (en_store e))" "length cs < fuel"
  shows "\<exists>s'. read_rows fuel fid cols (en_store e) = Some (Inr (rows, s')) \<and> calm (en_store e) s'"
proof -
  have h: "holds_rows e fid cols cs rows" "last (0 # cs) \<noteq> - 1" using assms(1) by (simp_all add: meta_file_def)
  obtain F where F: "\<And>c. c \<in> set cs \<Longrightarrow> map_res (decode_slot cols (page_view (en_store e) (PageId fid c))) (live_slots (page_view (en_store e) (PageId fid c))) = Inr (F c)"
    "concat (map F cs) = rows" using slots_decode [OF h(1)] by metis
  obtain n where n: "fuel = Suc (length cs + n)" using assms(3) less_imp_Suc_add by blast
  have "idle (en_store e)" "heap_file (page_view (en_store e)) fid cs" using h(1) by (auto simp: holds_rows_def heap_table_def)
  then show ?thesis
    using walk_file_calm [OF _ assms(2) _ h(2), of fid "\<lambda>_ p. map_res (decode_slot cols p) (live_slots p)" F n] F unfolding read_rows_def n by auto
qed

lemma meta_file_calm: "meta_file e fid cols cs rows \<Longrightarrow> calm (en_store e) s' \<Longrightarrow> meta_file (e\<lparr>en_store := s'\<rparr>) fid cols cs rows"
  using tail_calm by (auto simp: meta_file_def holds_rows_def calm_def)

lemma calm_txn:
  assumes "calm s s'" "check_txn fid s = Inr t"
  shows "\<exists>t'. check_txn fid s' = Inr t'"
proof -
  have "bp_txn s = Some t" "fid \<notin> set (tc_pending_drops t)" using assms(2) by (auto simp: check_txn_def split: option.splits if_splits)
  moreover have "kept s s'" using assms(1) by (simp add: calm_def)
  ultimately obtain t' where "bp_txn s' = Some t'" "tc_pending_drops t' = tc_pending_drops t" unfolding kept_def by metis
  then show ?thesis using \<open>fid \<notin> set (tc_pending_drops t)\<close> by (simp add: check_txn_def)
qed

text \<open>An insertion appends its row as the columns store it and leaves the pages of every other file alone.\<close>

lemma insert_row_meta:
  assumes "meta_file e fid cols cs rows" "1 < length (bp_frames (en_store e))" "check_txn fid (en_store e) = Inr t" "fid \<noteq> 0"
    and "encode_row cols vals = Inr (Some rec)" "length rec \<le> MAX_RECORD_LEN" "1 < fuel"
  shows "\<exists>rid ref ds e'. insert_row fuel fid cols vals e = Some (Inr (rid, ref, e')) \<and> holds_rows e' fid cols (cs @ ds) (rows @ [map2 stored cols vals])
    \<and> length (bp_frames (en_store e')) = length (bp_frames (en_store e))
    \<and> only_file fid (page_view (en_store e)) (page_view (en_store e'))"
proof -
  obtain n where n: "fuel = Suc (Suc n)" using assms(7) less_imp_Suc_add [of 1 fuel] by auto
  obtain ref ds e' where i: "insert_row (Suc (Suc n)) fid cols vals e = Some (Inr (file_next_rowid (page_view (en_store e) (PageId fid 0)) + 1, ref, e'))"
    "heap_table e' fid (cs @ ds)" "table_rows e' fid (cs @ ds) = table_rows e fid cs @ [(ref, rec)]"
    "only_file fid (page_view (en_store e)) (page_view (en_store e'))" "\<exists>chg. txn_run (en_store e) chg (en_store e')"
    using insert_row_step [OF _ assms(2-4) _ assms(5,6), of cs n] assms(1) by (auto simp: meta_file_def holds_rows_def)
  obtain chg where "txn_trace (en_store e) chg (en_store e')"
    using i(5) run_traces [OF _ _ check_txn_Inr [OF assms(3)]] assms(1) by (auto simp: meta_file_def holds_rows_def heap_table_def idle_def)
  then have "length (bp_frames (en_store e')) = length (bp_frames (en_store e))" by (simp add: txn_trace_def)
  moreover have "decode_row cols rec = Inr (Some (map2 stored cols vals))"
    using decode_encoded [OF assms(5)] assms(6) by (simp add: MAX_RECORD_LEN_def page_consts)
  then have "holds_rows e' fid cols (cs @ ds) (rows @ [map2 stored cols vals])"
    using assms(1) i(2,3) by (auto simp: meta_file_def holds_rows_def intro!: list_all2_appendI)
  ultimately show ?thesis using i(1,4) n by blast
qed

section \<open>CREATE SCHEMA\<close>

definition schema_row :: "u64 \<times> string \<Rightarrow> dbvalue list" where
  "schema_row x = [int_val kBigint (fst x), str_val kVarChar (snd x)]"

lemma schema_row_encodes:
  assumes "length name \<le> 64"
  shows "\<exists>rec. encode_row schema_meta_cols (schema_row (sid, name)) = Inr (Some rec) \<and> length rec \<le> MAX_RECORD_LEN"
  using assms by (auto simp: encode_row_def schema_meta_cols_def schema_row_def meta_col_def value_factories encode_col_def seed_attr_defs
      encode_int_def encode_str_def Let_def kMetaNameLen_def put_u32_def put_u16_def bitmap_len_def MAX_RECORD_LEN_def page_consts)

lemma schema_row_stored: "map2 stored schema_meta_cols (schema_row x) = schema_row x"
  by (simp add: schema_meta_cols_def schema_row_def meta_col_def stored_def stored_box_def value_factories seed_attr_defs)

lemma find_schema:
  "find_res (\<lambda>row. rbind (row_str row (Suc 0)) (\<lambda>s. Inr (s = name))) (map schema_row ss) = Inr (map_option schema_row (find (\<lambda>x. snd x = name) ss))"
  by (induction ss) (auto simp: schema_row_def value_factories)

lemma has_schema: "has_schema_name (map schema_row ss) name = Inr (name \<in> snd ` set ss)"
proof -
  have "find (\<lambda>x. snd x = name) ss \<noteq> None \<longleftrightarrow> name \<in> snd ` set ss" by (induction ss) auto
  then show ?thesis by (simp add: has_schema_name_def find_schema found_def)
qed

lemma resolve_new_schema:
  assumes "name \<notin> snd ` set ss" "name \<noteq> []" "tr_schema t = name"
  shows "resolve_schema_id (map schema_row (ss @ [(sid, name)])) t = Inr sid"
proof -
  have "find (\<lambda>x. snd x = name) (ss @ [(sid, name)]) = Some (sid, name)"
    using assms(1) by (induction ss) (auto simp: image_iff)
  then show ?thesis using assms(2,3) by (simp add: resolve_schema_id_def or_raise_def find_schema del: map_append) (simp add: schema_row_def value_factories)
qed

text \<open>
  C7. CREATE SCHEMA, to the pages and back. On a well-formed db_schema, inside a transaction, a name that
  is empty or too long is refused, and so is one that exists; otherwise the call ends with exactly
  one row more in db_schema, the next identifier and the name, with the pages of every other file as they
  were, and the new schema resolves to that identifier.
\<close>

theorem create_schema_correct:
  assumes "meta_file (ct_engine c) kSchemaMetaId schema_meta_cols cs (map schema_row ss)"
    and "1 < length (bp_frames (en_store (ct_engine c)))" and "check_txn kSchemaMetaId (en_store (ct_engine c)) = Inr t"
    and "max 1 (length cs) < fuel"
  shows "if name = [] \<or> length name > 64 then create_schema fuel name c = Some (Inl (Raise InvalidDdl))
    else if name \<in> set (map snd ss) then create_schema fuel name c = Some (Inl (Raise SchemaExists))
    else \<exists>c' ds c''. create_schema fuel name c = Some (Inr c')
      \<and> holds_rows (ct_engine c') kSchemaMetaId schema_meta_cols (cs @ ds) (map schema_row (ss @ [(ct_next_schema_id c, name)]))
      \<and> ct_next_schema_id c' = ct_next_schema_id c + 1
      \<and> only_file kSchemaMetaId (page_view (en_store (ct_engine c))) (page_view (en_store (ct_engine c')))
      \<and> cat_resolve_schema_id (Suc (length (cs @ ds))) \<lparr>tr_schema = name, tr_name = tname\<rparr> c' = Some (Inr (ct_next_schema_id c, c''))"
proof -
  let ?e = "ct_engine c"
  have pos: "0 < length (bp_frames (en_store ?e))" using assms(2) by linarith
  obtain s' where r: "read_rows fuel kSchemaMetaId schema_meta_cols (en_store ?e) = Some (Inr (map schema_row ss, s'))" "calm (en_store ?e) s'"
    using read_rows_meta [OF assms(1) pos, of fuel] assms(4) by auto
  let ?e1 = "?e\<lparr>en_store := s'\<rparr>"
  have m: "meta_file ?e1 kSchemaMetaId schema_meta_cols cs (map schema_row ss)" by (rule meta_file_calm [OF assms(1) r(2)])
  have fr: "1 < length (bp_frames (en_store ?e1))" "page_view (en_store ?e1) = page_view (en_store ?e)" using r(2) assms(2) by (simp_all add: calm_def kept_def)
  obtain t' where t': "check_txn kSchemaMetaId (en_store ?e1) = Inr t'" using calm_txn [OF r(2) assms(3)] by auto
  have k: "unat kMetaNameLen = 64" by (simp add: kMetaNameLen_def)
  consider (bad) "name = [] \<or> length name > 64" | (dup) "name \<noteq> []" "length name \<le> 64" "name \<in> snd ` set ss"
    | (new) "name \<noteq> []" "length name \<le> 64" "name \<notin> snd ` set ss" by fastforce
  then show ?thesis
  proof cases
    case bad
    then show ?thesis by (auto simp: create_schema_def name_ok_def k)
  next
    case dup
    then show ?thesis using r(1) by (simp add: create_schema_def name_ok_def k meta_read_def has_schema)
  next
    case new
    let ?x = "(ct_next_schema_id c, name)"
    obtain rec where rec: "encode_row schema_meta_cols (schema_row ?x) = Inr (Some rec)" "length rec \<le> MAX_RECORD_LEN"
      using schema_row_encodes [OF new(2)] by blast
    obtain rid ref ds e' where i: "insert_row fuel kSchemaMetaId schema_meta_cols (schema_row ?x) ?e1 = Some (Inr (rid, ref, e'))"
      "holds_rows e' kSchemaMetaId schema_meta_cols (cs @ ds) (map schema_row ss @ [schema_row ?x])"
      "length (bp_frames (en_store e')) = length (bp_frames (en_store ?e1))" "only_file kSchemaMetaId (page_view (en_store ?e1)) (page_view (en_store e'))"
      using insert_row_meta [OF m fr(1) t' _ rec, of fuel] assms(4) schema_row_stored by (auto simp: kSchemaMetaId_def)
    let ?c' = "c\<lparr>ct_engine := e', ct_next_schema_id := ct_next_schema_id c + 1\<rparr>"
    have cr: "create_schema fuel name c = Some (Inr ?c')"
      using r(1) i(1) new by (simp add: create_schema_def name_ok_def k meta_read_def meta_insert_def has_schema alloc_schema_id_def schema_row_def)
    have pos': "0 < length (bp_frames (en_store e'))" using i(3) fr(1) by linarith
    obtain s2 where s2: "read_rows (Suc (length (cs @ ds))) kSchemaMetaId schema_meta_cols (en_store e') = Some (Inr (map schema_row (ss @ [?x]), s2))"
      using read_rows_holds [OF i(2) pos' lessI] by (auto simp del: length_append)
    have res: "cat_resolve_schema_id (Suc (length (cs @ ds))) \<lparr>tr_schema = name, tr_name = tname\<rparr> ?c' = Some (Inr (ct_next_schema_id c, ?c'\<lparr>ct_engine := e'\<lparr>en_store := s2\<rparr>\<rparr>))"
      using s2 new(1) resolve_new_schema [OF new(3,1), of "\<lparr>tr_schema = name, tr_name = tname\<rparr>"]
      by (simp add: cat_resolve_schema_id_def meta_read_def del: map_append)
    have n: "\<not> (name = [] \<or> length name > 64)" "name \<notin> set (map snd ss)" using new by auto
    show ?thesis unfolding if_not_P [OF n(1)] if_not_P [OF n(2)]
    proof (intro exI conjI)
      show "create_schema fuel name c = Some (Inr ?c')" by (rule cr)
      show "holds_rows (ct_engine ?c') kSchemaMetaId schema_meta_cols (cs @ ds) (map schema_row (ss @ [?x]))" using i(2) by simp
      show "only_file kSchemaMetaId (page_view (en_store ?e)) (page_view (en_store (ct_engine ?c')))" using i(4) fr(2) by simp
    qed (use res in simp_all)
  qed
qed

definition demo_catalog :: "engine \<Rightarrow> catalog" where
  "demo_catalog e = (catalog_init e False)\<lparr>ct_next_schema_id := 2\<rparr>"

theorem create_schema_correct_witness:
  "\<exists>e c' ds c''. create_schema 2 ''sales'' (demo_catalog e) = Some (Inr c')
    \<and> holds_rows (ct_engine c') kSchemaMetaId schema_meta_cols ds [schema_row (2, ''sales'')]
    \<and> cat_resolve_schema_id (Suc (length ds)) \<lparr>tr_schema = ''sales'', tr_name = ''t''\<rparr> c' = Some (Inr (2, c''))"
proof -
  obtain e t where e: "heap_table e kSchemaMetaId []" "length (bp_frames (en_store e)) = 2" "check_txn kSchemaMetaId (en_store e) = Inr t"
    using empty_table [of kSchemaMetaId] by (auto simp: kSchemaMetaId_def)
  have "meta_file e kSchemaMetaId schema_meta_cols [] (map schema_row [])"
    using e(1) by (simp add: meta_file_def holds_rows_def heap_rows_def)
  then show ?thesis
    using create_schema_correct [of "demo_catalog e" "[]" "[]" t 2 "''sales''" "''t''"] e(2,3) by (auto simp: demo_catalog_def catalog_init_def)
qed

section \<open>Scanners\<close>

text \<open>The live slots of a page from a slot on.\<close>

definition live_from :: "bytes \<Rightarrow> u16 \<Rightarrow> u16 list" where
  "live_from p j = filter (\<lambda>i. \<not> slot_tombstone p i) (map word_of_nat [unat j..<unat (hd_slot_count p)])"

lemma live_from_0: "live_from p 0 = live_slots p"
  by (simp add: live_from_def live_slots_def)

lemma slot_succ: "j < n \<Longrightarrow> unat (j + 1) = Suc (unat j)" for j n :: u16
proof -
  assume "j < n"
  moreover have "unat n < 2 ^ LENGTH(16)" by (rule unsigned_less)
  ultimately have "unat j < 65535" by (simp add: word_less_nat_alt)
  then show ?thesis by (simp add: unat_word_ariths)
qed

lemma live_from_step:
  assumes "j < hd_slot_count p"
  shows "live_from p j = (if slot_tombstone p j then [] else [j]) @ live_from p (j + 1)"
proof -
  have "[unat j..<unat (hd_slot_count p)] = unat j # [Suc (unat j)..<unat (hd_slot_count p)]"
    using assms by (simp add: upt_conv_Cons word_less_nat_alt)
  then show ?thesis using slot_succ [OF assms] by (simp add: live_from_def)
qed

lemma live_from_end: "\<not> j < hd_slot_count p \<Longrightarrow> live_from p j = []"
  by (simp add: live_from_def word_less_nat_alt)

lemma skip_finds:
  assumes "unat (hd_slot_count p) - unat j \<le> n" "i = skip_tombstones n p j"
  shows "if i < hd_slot_count p then live_from p j = i # live_from p (i + 1) else live_from p j = []"
  using assms
proof (induction n p j rule: skip_tombstones.induct)
  case (1 p j)
  then show ?case by (simp add: live_from_end word_less_nat_alt)
next
  case (2 n p j)
  show ?case
  proof (cases "j < hd_slot_count p \<and> slot_tombstone p j")
    case True
    then have "unat (hd_slot_count p) - unat (j + 1) \<le> n" using 2(2) slot_succ [of j "hd_slot_count p"] by simp
    then show ?thesis using 2(1) [OF True] 2(3) True live_from_step [of j p] by simp
  next
    case False
    then show ?thesis using 2(3) live_from_step [of j p] live_from_end [of j p] by auto
  qed
qed

text \<open>
  The pool between the calls of a scanner, seen from the state \<^verbatim>\<open>s0\<close> in which it was opened: at rest,
  and while it holds the page \<^verbatim>\<open>pid\<close> in frame \<^verbatim>\<open>k\<close>. With \<^verbatim>\<open>b\<close> the file does not reach the last page number.
\<close>

definition undisturbed :: "bool \<Rightarrow> store \<Rightarrow> store \<Rightarrow> bool" where
  "undisturbed b s0 s \<longleftrightarrow> pool_ok s \<and> kept s0 s \<and> page_view s = page_view s0 \<and> logged_view s = page_view s0
     \<and> (\<forall>q. disk_page (bp_files s) q = disk_page (bp_files s0) q \<or> disk_page (bp_files s) q = page_view s0 q)
     \<and> (b \<and> aligned (bp_files s0) \<and> pages_numbered s0 \<longrightarrow> aligned (bp_files s) \<and> pages_numbered s)"

definition resting :: "bool \<Rightarrow> store \<Rightarrow> store \<Rightarrow> bool" where
  "resting b s0 s \<longleftrightarrow> undisturbed b s0 s \<and> pin_of s = (\<lambda>_. 0)"

definition holding :: "bool \<Rightarrow> store \<Rightarrow> page_id \<Rightarrow> nat \<Rightarrow> store \<Rightarrow> bool" where
  "holding b s0 pid k s \<longleftrightarrow> undisturbed b s0 s \<and> held s pid k \<and> pin_of s = (\<lambda>_. 0)(pid := 1)"

lemma resting_idle: "resting b s0 s \<Longrightarrow> idle s"
  by (simp add: resting_def undisturbed_def idle_def)

lemma resting_calm: "resting True s0 s \<longleftrightarrow> calm s0 s"
  using idle_logged [of s] by (auto simp: resting_def undisturbed_def calm_def idle_def)

lemma resting_start: "idle s \<Longrightarrow> resting b s s"
  using idle_logged [of s] by (simp add: resting_def undisturbed_def idle_def kept_refl)

lemma resting_frames: "resting b s0 s \<Longrightarrow> length (bp_frames s) = length (bp_frames s0)"
  by (simp add: resting_def undisturbed_def kept_def)

lemma take_page:
  assumes "resting b s0 s" "page_valid (page_view s0 pid) magic" "0 < length (bp_frames s0)" "b \<longrightarrow> pid_page pid \<noteq> - 1"
  shows "\<exists>k s'. pool_read pid magic s = Inr (k, s') \<and> holding b s0 pid k s'"
proof -
  have u: "undisturbed b s0 s" using assms(1) by (simp add: resting_def)
  have i: "idle s" "page_view s = page_view s0" "0 < length (bp_frames s)"
    using resting_idle [OF assms(1)] u resting_frames [OF assms(1)] assms(3) by (auto simp: undisturbed_def)
  obtain k s1 where r: "pool_read pid magic s = Inr (k, s1)" "fetched s pid k s1" "kept s s1"
    using read_step [of s pid magic] idle_room [OF i(1,3), of pid] i assms(2) by (auto simp: idle_def)
  have f: "pool_ok s1" "same_outside s s1" "pin_of s1 = (\<lambda>_. 0)(pid := 1)" using r(2) assms(1) by (auto simp: fetched_def resting_def)
  have d: "disk_page (bp_files s1) q = disk_page (bp_files s0) q \<or> disk_page (bp_files s1) q = page_view s0 q" for q
  proof -
    have "disk_page (bp_files s1) q = disk_page (bp_files s) q \<or> disk_page (bp_files s1) q = logged_view s q" using f(2) by (simp add: same_outside_def)
    moreover have "disk_page (bp_files s) q = disk_page (bp_files s0) q \<or> disk_page (bp_files s) q = page_view s0 q" "logged_view s q = page_view s0 q"
      using u by (auto simp: undisturbed_def)
    ultimately show ?thesis by auto
  qed
  have n: "aligned (bp_files s1) \<and> pages_numbered s1" if "b" "aligned (bp_files s0)" "pages_numbered s0"
  proof -
    have "aligned (bp_files s)" "pages_numbered s" using u that by (simp_all add: undisturbed_def)
    then show ?thesis using read_aligned [OF _ _ _ i(3) r(1)] read_numbered [OF _ r(1)] assms(4) that(1) i(1) by (simp add: idle_def)
  qed
  have "page_view s1 = page_view s0" "logged_view s1 = page_view s0" using f(2) u by (auto simp: same_outside_def undisturbed_def)
  moreover have "kept s0 s1" using kept_trans [OF _ r(3)] u by (simp add: undisturbed_def)
  ultimately have "holding b s0 pid k s1"
    unfolding holding_def undisturbed_def using f(1,3) d n fetched_held [OF r(2)] by blast
  then show ?thesis using r(1) by blast
qed

lemma leave_page:
  assumes "holding b s0 pid k s"
  shows "\<exists>s'. pool_unpin k s = Inr s' \<and> resting b s0 s'"
proof -
  have u: "undisturbed b s0 s" "held s pid k" "pin_of s = (\<lambda>_. 0)(pid := 1)" using assms by (auto simp: holding_def)
  have h: "pool_ok s" "page_view s pid = logged_view s pid" using u(1) by (auto simp: undisturbed_def)
  obtain s' where s': "pool_unpin k s = Inr s'" "kept s s'" "same_outside s s'" "bp_files s' = bp_files s" "pin_of s' = (pin_of s)(pid := pin_of s pid - 1)"
    using unpin_step [OF h(1) u(2) h(2)] by blast
  have "pages_numbered s \<longrightarrow> pages_numbered s'" using unpin_disk [OF s'(1)] by simp
  moreover have "page_view s' = page_view s0" "logged_view s' = page_view s0" using s'(3) u(1) by (auto simp: same_outside_def undisturbed_def)
  moreover have "kept s0 s'" using kept_trans [OF _ s'(2)] u(1) by (simp add: undisturbed_def)
  moreover have "pool_ok s'" using s'(2) by (simp add: kept_def)
  ultimately have "undisturbed b s0 s'" using u(1) s'(4) unfolding undisturbed_def by metis
  moreover have "pin_of s' = (\<lambda>_. 0)" using s'(5) u(3) by (simp add: fun_eq_iff)
  ultimately show ?thesis using s'(1) by (auto simp: resting_def)
qed

lemma held_bytes: "holding b s0 pid k s \<Longrightarrow> frame_data k s = page_view s0 pid"
  using held_view [of s pid k] by (simp add: holding_def undisturbed_def)

text \<open>What a scanner at slot \<^verbatim>\<open>j\<close> of page \<^verbatim>\<open>c\<close> has before it, with the pages \<^verbatim>\<open>cs\<close> to come.\<close>

definition page_todo :: "(page_id \<Rightarrow> bytes) \<Rightarrow> u64 \<Rightarrow> u32 list \<Rightarrow> (u32 \<times> u16) list" where
  "page_todo v fid cs = concat (map (\<lambda>c. map (Pair c) (live_slots (v (PageId fid c)))) cs)"

fun scan_state :: "bool \<Rightarrow> store \<Rightarrow> u64 \<Rightarrow> u32 list \<Rightarrow> heap_scanner \<Rightarrow> store \<Rightarrow> (u32 \<times> u16) list \<Rightarrow> bool" where
  "scan_state b s0 fid cs sc s todo \<longleftrightarrow> hs_file sc = fid \<and> \<not> hs_done sc \<and> hs_next sc = hd (cs @ [0]) \<and>
     (case hs_cur sc of
        None \<Rightarrow> resting b s0 s \<and> todo = page_todo (page_view s0) fid cs
      | Some k \<Rightarrow> \<exists>c. hs_page sc = PageId fid c \<and> holding b s0 (PageId fid c) k s \<and>
          todo = map (Pair c) (live_from (page_view s0 (PageId fid c)) (hs_slot sc)) @ page_todo (page_view s0) fid cs)"

definition scan_over :: "bool \<Rightarrow> store \<Rightarrow> heap_scanner \<Rightarrow> store \<Rightarrow> bool" where
  "scan_over b s0 sc s \<longleftrightarrow> hs_done sc \<and> hs_cur sc = None \<and> resting b s0 s"

lemma advance_scan:
  assumes "scan_state b s0 fid cs sc s todo" "chain (\<lambda>c. page_view s0 (PageId fid c)) cs 0" "0 \<notin> set cs" "b \<longrightarrow> - 1 \<notin> set cs" "0 < length (bp_frames s0)"
  shows "\<exists>sc' s'. advance_page sc s = Inr (sc', s') \<and> hs_cols sc' = hs_cols sc \<and>
    (case cs of [] \<Rightarrow> scan_over b s0 sc' s' | c # cs' \<Rightarrow> scan_state b s0 fid cs' sc' s' (page_todo (page_view s0) fid cs) \<and> hs_cur sc' \<noteq> None)"
proof -
  obtain s1 where s1: "(case hs_cur sc of None \<Rightarrow> Inr s | Some k \<Rightarrow> pool_unpin k s) = Inr s1" "resting b s0 s1"
    using assms(1) leave_page by (cases "hs_cur sc") fastforce+
  show ?thesis
  proof (cases cs)
    case Nil
    then show ?thesis using s1 assms(1) by (simp add: advance_page_def Let_def scan_over_def)
  next
    case (Cons c cs')
    have p: "page_valid (page_view s0 (PageId fid c)) MAGIC_HEAP" "hd_next_page (page_view s0 (PageId fid c)) = hd (cs' @ [0])" "c \<noteq> 0"
      using assms(2,3) Cons by auto
    obtain k s2 where k: "pool_read (PageId fid c) MAGIC_HEAP s1 = Inr (k, s2)" "holding b s0 (PageId fid c) k s2" using take_page [OF s1(2) p(1)] assms(4,5) Cons by auto
    then show ?thesis using s1 assms(1) Cons p(2,3) held_bytes [OF k(2)]
      by (auto simp: advance_page_def Let_def page_todo_def live_from_0)
  qed
qed

text \<open>
  One call of a scanner on a chain of pages: it ends, at the end of the file or with the next live slot,
  and stands behind it.
\<close>

definition next_step :: "bool \<Rightarrow> store \<Rightarrow> u64 \<Rightarrow> u32 list \<Rightarrow> heap_scanner \<Rightarrow> (u32 \<times> u16) list \<Rightarrow> (row option \<times> heap_scanner \<times> store) res option \<Rightarrow> bool" where
  "next_step b s0 fid cs sc todo r \<longleftrightarrow>
     (case todo of
        [] \<Rightarrow> \<exists>sc' s'. r = Some (Inr (None, sc', s')) \<and> scan_over b s0 sc' s'
      | (c, i) # todo' \<Rightarrow> \<exists>sc' s' cs'. r = Some (rbind (decode_slot (hs_cols sc) (page_view s0 (PageId fid c)) i) (\<lambda>vals.
            Inr (Some (empty_row\<lparr>row_loc := RowRef (PageId fid c) i, row_values := vals\<rparr>), sc', s')))
          \<and> scan_state b s0 fid cs' sc' s' todo' \<and> hs_cols sc' = hs_cols sc \<and> (\<exists>bs. cs = bs @ cs'))"

lemma next_on_page:
  assumes "scan_state b s0 fid cs sc s todo" "hs_cur sc = Some k"
    and "\<And>c. hs_page sc = PageId fid c \<Longrightarrow> live_from (page_view s0 (PageId fid c)) (hs_slot sc) \<noteq> []"
  shows "next_step b s0 fid cs sc todo (heap_scan_next (Suc fuel) sc s)"
proof -
  obtain c where c: "hs_page sc = PageId fid c" "holding b s0 (PageId fid c) k s"
    "todo = map (Pair c) (live_from (page_view s0 (PageId fid c)) (hs_slot sc)) @ page_todo (page_view s0) fid cs" using assms(1,2) by auto
  let ?p = "page_view s0 (PageId fid c)"
  define i where "i = skip_tombstones (unat (hd_slot_count ?p)) ?p (hs_slot sc)"
  have i: "i < hd_slot_count ?p" "live_from ?p (hs_slot sc) = i # live_from ?p (i + 1)"
    using skip_finds [OF _ i_def] assms(3) [OF c(1)] by (auto split: if_splits)
  let ?sc = "sc\<lparr>hs_slot := i + 1\<rparr>"
  have n: "heap_scan_next (Suc fuel) sc s = Some (rbind (decode_slot (hs_cols sc) ?p i) (\<lambda>vals.
      Inr (Some (empty_row\<lparr>row_loc := RowRef (PageId fid c) i, row_values := vals\<rparr>), ?sc, s)))"
    using assms(1,2) c(1) i(1) held_bytes [OF c(2)] by (simp add: Let_def i_def)
  have st: "scan_state b s0 fid cs ?sc s (map (Pair c) (live_from ?p (i + 1)) @ page_todo (page_view s0) fid cs)"
    using assms(1,2) c by auto
  have t: "todo = (c, i) # (map (Pair c) (live_from ?p (i + 1)) @ page_todo (page_view s0) fid cs)" using c(3) i(2) by simp
  show ?thesis unfolding next_step_def t list.case prod.case
    using n st by (intro exI [of _ ?sc] exI [of _ s] exI [of _ cs]) simp
qed

definition page_left :: "(page_id \<Rightarrow> bytes) \<Rightarrow> u64 \<Rightarrow> heap_scanner \<Rightarrow> bool" where
  "page_left v fid sc \<longleftrightarrow> (\<exists>k c. hs_cur sc = Some k \<and> hs_page sc = PageId fid c \<and> live_from (v (PageId fid c)) (hs_slot sc) \<noteq> [])"

lemma next_off_page:
  assumes "scan_state b s0 fid cs sc s todo" "\<not> page_left (page_view s0) fid sc" "advance_page sc s = Inr (sc', s')"
  shows "heap_scan_next (Suc n) sc s = heap_scan_next n sc' s'" "todo = page_todo (page_view s0) fid cs"
proof -
  show "todo = page_todo (page_view s0) fid cs" using assms(1,2) by (auto simp: page_left_def split: option.splits)
  show "heap_scan_next (Suc n) sc s = heap_scan_next n sc' s'"
  proof (cases "hs_cur sc")
    case None
    then show ?thesis using assms(1,3) by simp
  next
    case (Some k)
    then obtain c where c: "hs_page sc = PageId fid c" "holding b s0 (PageId fid c) k s" using assms(1) by auto
    let ?p = "page_view s0 (PageId fid c)"
    have "live_from ?p (hs_slot sc) = []" using assms(2) Some c(1) by (simp add: page_left_def)
    then have "\<not> skip_tombstones (unat (hd_slot_count ?p)) ?p (hs_slot sc) < hd_slot_count ?p"
      using skip_finds [OF _ refl, of ?p "hs_slot sc" "unat (hd_slot_count ?p)"] by (auto split: if_splits)
    then show ?thesis using assms(1,3) Some held_bytes [OF c(2)] by (simp add: Let_def)
  qed
qed

lemma next_step_weaken:
  assumes "next_step b s0 fid cs' sc' todo r" "hs_cols sc' = hs_cols sc" "cs = bs @ cs'"
  shows "next_step b s0 fid cs sc todo r"
  using assms unfolding next_step_def by (cases todo) (force split: prod.splits)+

lemma scanner_next:
  assumes "scan_state b s0 fid cs sc s todo" "chain (\<lambda>c. page_view s0 (PageId fid c)) cs 0" "0 \<notin> set cs" "b \<longrightarrow> - 1 \<notin> set cs" "0 < length (bp_frames s0)" "Suc (length cs) < fuel"
  shows "next_step b s0 fid cs sc todo (heap_scan_next fuel sc s)"
  using assms
proof (induction cs arbitrary: sc s todo fuel)
  case Nil
  obtain n where n: "fuel = Suc (Suc n)" using Nil.prems(6) by (auto dest!: less_imp_Suc_add)
  obtain sc' s' where a: "advance_page sc s = Inr (sc', s')" "scan_over b s0 sc' s'" using advance_scan [OF Nil.prems(1-5)] by auto
  show ?case
  proof (cases "page_left (page_view s0) fid sc")
    case True
    then show ?thesis using next_on_page [OF Nil.prems(1)] n by (auto simp: page_left_def)
  next
    case False
    from next_off_page [OF Nil.prems(1) False a(1)] show ?thesis using a(2) unfolding n by (simp add: next_step_def page_todo_def scan_over_def)
  qed
next
  case (Cons c cs)
  obtain n where n: "fuel = Suc n" "Suc (length cs) < n" using Cons.prems(6) by (auto dest!: less_imp_Suc_add)
  obtain sc' s' where a: "advance_page sc s = Inr (sc', s')" "scan_state b s0 fid cs sc' s' (page_todo (page_view s0) fid (c # cs))" "hs_cols sc' = hs_cols sc"
    using advance_scan [OF Cons.prems(1-5)] by auto
  show ?case
  proof (cases "page_left (page_view s0) fid sc")
    case True
    then show ?thesis using next_on_page [OF Cons.prems(1)] n(1) by (auto simp: page_left_def)
  next
    case False
    note off = next_off_page [OF Cons.prems(1) False a(1)]
    have "next_step b s0 fid cs sc' (page_todo (page_view s0) fid (c # cs)) (heap_scan_next n sc' s')"
      using Cons.IH [OF a(2) _ _ _ _ n(2)] Cons.prems(2-5) by simp
    then show ?thesis using next_step_weaken [OF _ a(3), of b s0 fid cs _ _ "c # cs" "[c]"] off unfolding n(1) by simp
  qed
qed

lemma close_over: "scan_over b s0 sc s \<Longrightarrow> \<exists>sc'. heap_scan_close sc s = Inr (sc', s)"
  by (simp add: scan_over_def heap_scan_close_def)

lemma collect_step:
  assumes "scan_state b s0 fid cs sc s todo" "chain (\<lambda>c. page_view s0 (PageId fid c)) cs 0" "0 \<notin> set cs" "b \<longrightarrow> - 1 \<notin> set cs"
    and "0 < length (bp_frames s0)" "length cs + length todo + 2 < fuel"
    and "list_all2 (\<lambda>(c, i) vals. decode_slot (hs_cols sc) (page_view s0 (PageId fid c)) i = Inr vals) todo rows"
    and "map_res (\<lambda>(x, vals). f (empty_row\<lparr>row_loc := RowRef (PageId fid (fst x)) (snd x), row_values := vals\<rparr>)) (zip todo rows) = Inr ys"
  shows "\<exists>s'. scan_collect fuel f sc s = Some (Inr (concat ys, s')) \<and> resting b s0 s'"
  using assms
proof (induction todo arbitrary: cs sc s rows fuel ys)
  case Nil
  obtain n where n: "fuel = Suc n" "Suc (length cs) < n" using Nil.prems(6) by (auto dest!: less_imp_Suc_add)
  from scanner_next [OF Nil.prems(1-5) n(2)] obtain sc' s' where "heap_scan_next n sc s = Some (Inr (None, sc', s'))" "scan_over b s0 sc' s'"
    by (auto simp: next_step_def)
  then show ?case using close_over n(1) Nil.prems(7,8) by (fastforce simp: scan_over_def)
next
  case (Cons x todo)
  obtain c i where x: "x = (c, i)" by fastforce
  obtain vals rows' where rs: "rows = vals # rows'" "decode_slot (hs_cols sc) (page_view s0 (PageId fid c)) i = Inr vals"
    "list_all2 (\<lambda>(c, i) vals. decode_slot (hs_cols sc) (page_view s0 (PageId fid c)) i = Inr vals) todo rows'"
    using Cons.prems(7) x by (auto simp: list_all2_Cons1)
  obtain n where n: "fuel = Suc n" "Suc (length cs) < n" "length cs + length todo + 2 < n" using Cons.prems(6) by (auto dest!: less_imp_Suc_add)
  let ?row = "empty_row\<lparr>row_loc := RowRef (PageId fid c) i, row_values := vals\<rparr>"
  obtain y ys' where y: "ys = y # ys'" "f ?row = Inr y"
    "map_res (\<lambda>(x, vals). f (empty_row\<lparr>row_loc := RowRef (PageId fid (fst x)) (snd x), row_values := vals\<rparr>)) (zip todo rows') = Inr ys'"
    using Cons.prems(8) rs(1) x by (auto simp: res_simps)
  from scanner_next [OF Cons.prems(1-5) n(2)] obtain sc' s1 cs' bs where k: "heap_scan_next n sc s = Some (Inr (Some ?row, sc', s1))"
    "scan_state b s0 fid cs' sc' s1 todo" "hs_cols sc' = hs_cols sc" "cs = bs @ cs'"
    using rs(2) unfolding next_step_def x by auto
  have ch: "chain (\<lambda>c. page_view s0 (PageId fid c)) cs' 0" "0 \<notin> set cs'" "b \<longrightarrow> - 1 \<notin> set cs'" using Cons.prems(2-4) k(4) by (simp_all add: chain_append)
  obtain s' where "scan_collect n f sc' s1 = Some (Inr (concat ys', s'))" "resting b s0 s'"
    using Cons.IH [OF k(2) ch Cons.prems(5) _ _ y(3), of n] rs(3) n(3) k(3,4) by auto
  then show ?case using n(1) k(1) y(1,2) by simp
qed

lemma todo_rows:
  "heap_rows v fid cs = map (\<lambda>(c, i). (RowRef (PageId fid c) i, page_record (v (PageId fid c)) i)) (page_todo v fid cs)"
  by (simp add: heap_rows_def page_todo_def page_rows_live map_concat comp_def)

text \<open>A whole scan, whatever is collected from the rows.\<close>

definition row_at :: "row_ref \<Rightarrow> dbvalue list \<Rightarrow> row" where
  "row_at ref vals = empty_row\<lparr>row_loc := ref, row_values := vals\<rparr>"

lemma row_at_simps [simp]: "row_loc (row_at ref vals) = ref" "row_values (row_at ref vals) = vals"
  by (simp_all add: row_at_def)

lemma scan_opened:
  assumes "idle s" "heap_file (page_view s) fid cs" "0 < length (bp_frames s)" "tm_file_id meta = fid" "tm_cols meta = cols"
  shows "\<exists>sc s1. heap_scan_open meta s = Inr (sc, s1) \<and> scan_state b s fid cs sc s1 (page_todo (page_view s) fid cs) \<and> hs_cols sc = cols"
proof -
  let ?v = "page_view s"
  have f: "page_valid (?v (PageId fid 0)) MAGIC_FILE_HEADER" "hd_next_page (?v (PageId fid 0)) = hd (cs @ [0])"
    using assms(2) by (auto simp: heap_file_def)
  obtain k s0 where l: "pool_read (PageId fid 0) MAGIC_FILE_HEADER s = Inr (k, s0)" "holding b s (PageId fid 0) k s0"
    using take_page [OF resting_start [OF assms(1)] f(1) assms(3), of b] by auto
  obtain s1 where s1: "pool_unpin k s0 = Inr s1" "resting b s s1" using leave_page [OF l(2)] by blast
  have "first_page fid s = Inr (hd (cs @ [0]), s1)" using l(1) s1(1) f(2) held_bytes [OF l(2)] by (simp add: first_page_def)
  then show ?thesis using s1(2) assms(4,5) by (simp add: heap_scan_open_def)
qed

lemma todo_decodes:
  assumes "list_all2 (\<lambda>x vals. decode_row cols (snd x) = Inr (Some vals)) (heap_rows v fid cs) rows"
  shows "list_all2 (\<lambda>(c, i) vals. decode_slot cols (v (PageId fid c)) i = Inr vals) (page_todo v fid cs) rows"
proof -
  have "list_all2 (\<lambda>(c, i) vals. decode_row cols (page_record (v (PageId fid c)) i) = Inr (Some vals)) (page_todo v fid cs) rows"
    using assms unfolding todo_rows by (simp add: list_all2_map1 case_prod_unfold)
  then show ?thesis by (rule list_all2_mono) (auto simp: decode_slot_def)
qed

lemma scan_file_step:
  assumes "idle s" "heap_file (page_view s) fid cs" "list_all2 (\<lambda>x vals. decode_row cols (snd x) = Inr (Some vals)) (heap_rows (page_view s) fid cs) rows"
    and "0 < length (bp_frames s)" "length cs + length rows + 2 < fuel" "tm_file_id meta = fid" "tm_cols meta = cols"
    and "map_res f (map2 row_at (map fst (heap_rows (page_view s) fid cs)) rows) = Inr ys"
  shows "\<exists>sc s1 s'. heap_scan_open meta s = Inr (sc, s1) \<and> scan_collect fuel f sc s1 = Some (Inr (concat ys, s'))
    \<and> resting (last (0 # cs) \<noteq> - 1) s s'"
proof -
  let ?v = "page_view s" and ?b = "last (0 # cs) \<noteq> - 1"
  let ?todo = "page_todo ?v fid cs"
  have f: "chain (\<lambda>c. ?v (PageId fid c)) cs 0" "0 \<notin> set cs" using assms(2) by (auto simp: heap_file_def)
  have b: "?b \<longrightarrow> - 1 \<notin> set cs" using heap_file_pages [OF assms(2)] by blast
  obtain sc s1 where o: "heap_scan_open meta s = Inr (sc, s1)" "scan_state ?b s fid cs sc s1 ?todo" "hs_cols sc = cols"
    using scan_opened [OF assms(1,2,4,6,7)] by blast
  have d: "list_all2 (\<lambda>(c, i) vals. decode_slot (hs_cols sc) (?v (PageId fid c)) i = Inr vals) ?todo rows"
    using todo_decodes [OF assms(3)] o(3) by simp
  then have l: "length rows = length ?todo" by (simp add: list_all2_lengthD)
  have "map2 row_at (map fst (heap_rows ?v fid cs)) rows =
      map (\<lambda>(x, vals). empty_row\<lparr>row_loc := RowRef (PageId fid (fst x)) (snd x), row_values := vals\<rparr>) (zip ?todo rows)"
    unfolding todo_rows by (intro nth_equalityI) (simp_all add: case_prod_beta row_at_def)
  then have "map_res (\<lambda>(x, vals). f (empty_row\<lparr>row_loc := RowRef (PageId fid (fst x)) (snd x), row_values := vals\<rparr>)) (zip ?todo rows) = Inr ys"
    using assms(8) by (simp add: map_res_map comp_def case_prod_unfold)
  then show ?thesis using collect_step [OF o(2) f b assms(4) _ d, of fuel f ys] assms(5) l o(1) by auto
qed

text \<open>
  C10. A full scan of a table delivers its rows, all of them and nothing else. On a well-formed heap
  file, opening a scanner and calling it until it reports the end gives exactly the rows of the file in
  storage order, each with its values and with the location at which it can be updated or deleted; the
  scan ends, leaves no page pinned and no page changed.
\<close>

theorem scanner_delivers:
  assumes "holds_rows e fid cols cs rows" and "0 < length (bp_frames (en_store e))"
    and "length cs + length rows + 2 < fuel" and "tm_file_id meta = fid" and "tm_cols meta = cols"
  shows "\<exists>sc s s'. heap_scan_open meta (en_store e) = Inr (sc, s)
    \<and> scan_collect fuel (\<lambda>row. Inr [(row_loc row, row_values row)]) sc s = Some (Inr (zip (map fst (table_rows e fid cs)) rows, s'))
    \<and> (\<forall>pid. pin_of s' pid = 0) \<and> page_view s' = page_view (en_store e)"
proof -
  let ?refs = "map fst (table_rows e fid cs)" and ?f = "\<lambda>row. Inr [(row_loc row, row_values row)]"
  have h: "idle (en_store e)" "heap_file (page_view (en_store e)) fid cs"
    "list_all2 (\<lambda>x vals. decode_row cols (snd x) = Inr (Some vals)) (table_rows e fid cs) rows"
    using assms(1) by (auto simp: holds_rows_def heap_table_def)
  have m: "map_res ?f (map2 row_at ?refs rows) = Inr (map (\<lambda>row. [(row_loc row, row_values row)]) (map2 row_at ?refs rows))"
    by (rule map_res_all_Inr) simp
  have "concat (map (\<lambda>row. [(row_loc row, row_values row)]) (map2 row_at ?refs rows)) = zip ?refs rows"
    by (simp add: concat_map_singleton comp_def case_prod_unfold)
  then show ?thesis using scan_file_step [OF h assms(2,3,4,5) m] by (fastforce simp: resting_def undisturbed_def)
qed

text \<open>The theorem on a db_schema with one row, put there by an insertion.\<close>

theorem scanner_delivers_witness:
  "\<exists>(e :: engine) (cs :: u32 list) ref sc s s'. heap_scan_open (meta_of kSchemaMetaId schema_meta_cols) (en_store e) = Inr (sc, s)
    \<and> scan_collect (length cs + 4) (\<lambda>row. Inr [(row_loc row, row_values row)]) sc s = Some (Inr ([(ref, schema_row (2, ''sales''))], s'))"
proof -
  obtain e t where e: "heap_table e kSchemaMetaId []" "length (bp_frames (en_store e)) = 2" "check_txn kSchemaMetaId (en_store e) = Inr t"
    using empty_table [of kSchemaMetaId] by (auto simp: kSchemaMetaId_def)
  have m: "meta_file e kSchemaMetaId schema_meta_cols [] []" using e(1) by (simp add: meta_file_def holds_rows_def heap_rows_def)
  obtain rec where rec: "encode_row schema_meta_cols (schema_row (2, ''sales'')) = Inr (Some rec)" "length rec \<le> MAX_RECORD_LEN"
    using schema_row_encodes [of "''sales''" 2] by auto
  obtain ds e' where i: "holds_rows e' kSchemaMetaId schema_meta_cols ds [schema_row (2, ''sales'')]" "length (bp_frames (en_store e')) = 2"
    using insert_row_meta [OF m _ e(3) _ rec, of 2] e(2) schema_row_stored by (auto simp: kSchemaMetaId_def)
  have "length (table_rows e' kSchemaMetaId ds) = 1" using i(1) by (auto simp: holds_rows_def dest!: list_all2_lengthD)
  then obtain ref rec' where r: "table_rows e' kSchemaMetaId ds = [(ref, rec')]" by (cases "table_rows e' kSchemaMetaId ds") auto
  have "\<exists>sc s s'. heap_scan_open (meta_of kSchemaMetaId schema_meta_cols) (en_store e') = Inr (sc, s)
    \<and> scan_collect (length ds + 4) (\<lambda>row. Inr [(row_loc row, row_values row)]) sc s = Some (Inr ([(ref, schema_row (2, ''sales''))], s'))"
    using scanner_delivers [OF i(1), of "length ds + 4" "meta_of kSchemaMetaId schema_meta_cols"] i(2) unfolding r
    by (simp add: meta_of_def del: scan_collect.simps) blast
  then show ?thesis by blast
qed

end
