(* ===== verification/Executor.thy ===== *)
theory Executor
  imports Explain CatalogTables
begin

text \<open>
  The executor, \<^verbatim>\<open>executor/executor.cpp\<close>: what a statement sees of the catalog, the coercion of
  values into column domains, and the cases of \<^verbatim>\<open>execute\<close> from the parsed statement to the result. While a
  statement reads, its cursors look at the state in which it began to read; the frames they bring into
  the pool show what is on disk and are not carried on. The lemmas show that values of accepted
  statements fit their columns and that a SELECT gives the rows an INSERT has put into the file.
\<close>

section \<open>What a statement sees of the catalog\<close>

text \<open>The result of a call that reads; the pages it brings into the pool show what they showed before.\<close>

definition peek :: "('a \<times> 'b) res option \<Rightarrow> 'a res" where
  "peek m = rbind (loop_end m) (\<lambda>(x, _). Inr x)"

definition live_types :: "nat \<Rightarrow> catalog \<Rightarrow> dbvalue list list res" where
  "live_types fuel c = peek (meta_read fuel kTypeMetaId type_meta_cols c)"

definition live_catalog :: "nat \<Rightarrow> catalog \<Rightarrow> analyzer_catalog" where
  "live_catalog fuel c =
     \<lparr>acat_table_meta = (\<lambda>t. peek (cat_find_table_meta fuel t c)),
      acat_find_type = (\<lambda>n. rbind (live_types fuel c) (\<lambda>rows. find_type rows n)),
      acat_require_type = (\<lambda>n. rbind (live_types fuel c) (\<lambda>rows. require_type rows n)),
      acat_funcs = (\<lambda>n. rbind (live_types fuel c) (\<lambda>types. rbind (map_res parse_type_row types) (\<lambda>_.
        rbind (peek (meta_read fuel kFuncMetaId (ct_func_cols c) c)) (\<lambda>rows. funcs types rows n)))),
      acat_bootstrap_mode = ct_bootstrap_mode c\<rparr>"

definition live_planner :: "nat \<Rightarrow> catalog \<Rightarrow> planner_catalog" where
  "live_planner fuel c =
     \<lparr>pcat_indexes = (\<lambda>meta. peek (cat_table_indexes fuel (tm_table_id meta) c)),
      pcat_double = rbind (live_types fuel c) (\<lambda>rows. require_type rows ''double'')\<rparr>"

text \<open>What the cursors of a statement deliver. A failing \<^verbatim>\<open>next\<close> ends the feed.\<close>

fun heap_feed :: "nat \<Rightarrow> heap_scanner \<Rightarrow> store \<Rightarrow> row feed res" where
  "heap_feed 0 sc s = Inl Crash"
| "heap_feed (Suc fuel) sc s =
     (case heap_scan_next fuel sc s of
        None \<Rightarrow> Inl Crash
      | Some (Inl err) \<Rightarrow> Inr ([], Some err)
      | Some (Inr (None, sc, s)) \<Rightarrow> Inr ([], None)
      | Some (Inr (Some row, sc, s)) \<Rightarrow> rbind (heap_feed fuel sc s) (\<lambda>(rows, fin). Inr (row # rows, fin)))"

fun index_feed :: "nat \<Rightarrow> btree_scanner \<Rightarrow> store \<Rightarrow> btree_entry feed res" where
  "index_feed 0 sc s = Inl Crash"
| "index_feed (Suc fuel) sc s =
     (case scan_next fuel sc s of
        None \<Rightarrow> Inl Crash
      | Some (Inl err) \<Rightarrow> Inr ([], Some err)
      | Some (Inr (None, sc, s)) \<Rightarrow> Inr ([], None)
      | Some (Inr (Some x, sc, s)) \<Rightarrow> rbind (index_feed fuel sc s) (\<lambda>(xs, fin). Inr (x # xs, fin)))"

definition live_access :: "nat \<Rightarrow> catalog \<Rightarrow> access" where
  "live_access fuel c =
     \<lparr>ac_scan = (\<lambda>meta. rbind (heap_scan_open meta (en_store (ct_engine c))) (\<lambda>(sc, s). heap_feed fuel sc s)),
      ac_index = (\<lambda>fid lo hi. rbind (loop_end (index_scan fuel fid lo hi (ct_engine c))) (\<lambda>(sc, e). index_feed fuel sc (en_store e))),
      ac_read = (\<lambda>ref cols. rbind (read_row ref cols (ct_engine c)) (\<lambda>(r, _). Inr r))\<rparr>"

section \<open>Statements\<close>

definition tag_result :: "command_tag \<Rightarrow> u64 \<Rightarrow> exec_result" where
  "tag_result tg n = \<lparr>er_is_result_set = False, er_tag = tg, er_count = n, er_col_names = [], er_rows = [], er_failure = None\<rparr>"

definition coerce_col_value :: "column_spec \<Rightarrow> dbvalue \<Rightarrow> dbvalue res" where
  "coerce_col_value col v =
     (if value_is_null v then (if col_not_null col then Inl (Raise ValueMismatch) else Inr v)
      else if attr_rep (col_type col) = RepDec then
        (if col_length col = 0 then cast_value v (col_type col) Assignment
         else coerce_numeric v (col_type col) (col_length col) (col_scale col) Assignment)
      else cast_value v (col_type col) Assignment)"

text \<open>A root that is neither a projection nor a sort of one would be cast to the wrong class.\<close>

definition run_select :: "access \<Rightarrow> plan \<Rightarrow> exec_result res" where
  "run_select ac plan =
     (case (case plan of SortPlan child orders b \<Rightarrow> child | p \<Rightarrow> p) of
        ProjectPlan child projs \<Rightarrow>
          rbind (make_operator plan) (\<lambda>_. rbind (op_run ac plan) (\<lambda>(rows, fin).
            Inr \<lparr>er_is_result_set = True, er_tag = TagEmpty, er_count = 0, er_col_names = map (text_bytes \<circ> pc_name) projs,
                 er_rows = map row_values rows, er_failure = fin\<rparr>))
      | _ \<Rightarrow> Inl Crash)"

text \<open>The rows of a subplan, all of them before the first change.\<close>

definition plan_rows :: "access \<Rightarrow> plan \<Rightarrow> row list res" where
  "plan_rows ac p =
     rbind (make_operator p) (\<lambda>_. rbind (op_run ac p) (\<lambda>(rows, fin). case fin of None \<Rightarrow> Inr rows | Some err \<Rightarrow> Inl err))"

fun delete_refs :: "row_ref list \<Rightarrow> nat \<Rightarrow> catalog \<Rightarrow> (nat \<times> catalog) res" where
  "delete_refs [] n c = Inr (n, c)"
| "delete_refs (ref # refs) n c = rbind (delete_by_ref ref c) (\<lambda>(k, c). delete_refs refs (n + k) c)"

definition run_delete_where :: "nat \<Rightarrow> plan \<Rightarrow> catalog \<Rightarrow> (nat \<times> catalog) res" where
  "run_delete_where fuel child c = rbind (plan_rows (live_access fuel c) child) (\<lambda>rows. delete_refs (map row_loc rows) 0 c)"

fun assign_cols :: "column_spec list \<Rightarrow> row \<Rightarrow> bound_update_item list \<Rightarrow> dbvalue list \<Rightarrow> dbvalue list res" where
  "assign_cols cols old [] vals = Inr vals"
| "assign_cols cols old (a # assigns) vals =
     (if bu_col_idx a \<ge> length cols \<or> bu_col_idx a \<ge> length vals then Inl Crash
      else rbind (eval_row (bu_value a) old) (\<lambda>v. rbind (coerce_col_value (cols ! bu_col_idx a) v) (\<lambda>v.
        assign_cols cols old assigns (vals[bu_col_idx a := v]))))"

definition run_update :: "nat \<Rightarrow> table_handle \<Rightarrow> bound_update_item list \<Rightarrow> plan \<Rightarrow> catalog \<Rightarrow> (nat \<times> catalog) res option" where
  "run_update fuel h assigns child c =
     obind (Some (plan_rows (live_access fuel c) child)) (\<lambda>olds.
     obind (Some (map_res (\<lambda>old. rbind (assign_cols (tm_cols (th_meta h)) old assigns (row_values old)) (\<lambda>vals. Inr (row_loc old, vals))) olds)) (\<lambda>rows.
       update_rows fuel (th_meta h) rows c))"

text \<open>The values of one row of an INSERT.\<close>

definition insert_values :: "column_spec list \<Rightarrow> bound_expr list \<Rightarrow> dbvalue list res" where
  "insert_values cols es =
     (if length es > length cols then Inl Crash
      else map_res (\<lambda>(col, e). rbind (eval_const e) (coerce_col_value col)) (zip cols es))"

fun insert_rows :: "nat \<Rightarrow> table_meta \<Rightarrow> bound_expr list list \<Rightarrow> catalog \<Rightarrow> catalog res option" where
  "insert_rows fuel meta [] c = Some (Inr c)"
| "insert_rows fuel meta (es # rows) c =
     obind (Some (insert_values (tm_cols meta) es)) (\<lambda>vals.
     obind (cat_insert fuel meta vals c) (\<lambda>(_, c). insert_rows fuel meta rows c))"

definition tagged :: "command_tag \<Rightarrow> (nat \<times> catalog) res option \<Rightarrow> (exec_result \<times> catalog) res option" where
  "tagged tg m = obind m (\<lambda>(n, c). Some (Inr (tag_result tg (word_of_nat n), c)))"

text \<open>The cases of \<^verbatim>\<open>execute\<close> over the kinds of the root plan.\<close>

fun execute_plan :: "nat \<Rightarrow> plan \<Rightarrow> catalog \<Rightarrow> (exec_result \<times> catalog) res option" where
  "execute_plan fuel (CreateTablePlan t cols) c =
     obind (create_table fuel t cols c) (\<lambda>(_, c). Some (Inr (tag_result TagCreateTable 0, c)))"
| "execute_plan fuel (DropTablePlan h) c = obind (drop_table fuel h c) (\<lambda>c. Some (Inr (tag_result TagDropTable 0, c)))"
| "execute_plan fuel (CreateSchemaPlan s) c = obind (create_schema fuel s c) (\<lambda>c. Some (Inr (tag_result TagCreateSchema 0, c)))"
| "execute_plan fuel (DropSchemaPlan s) c = obind (drop_schema fuel s c) (\<lambda>c. Some (Inr (tag_result TagDropSchema 0, c)))"
| "execute_plan fuel (CreateIndexPlan h i ordinal) c =
     obind (create_index fuel h i ordinal c) (\<lambda>c. Some (Inr (tag_result TagCreateIndex 0, c)))"
| "execute_plan fuel (DropIndexPlan h i) c = obind (drop_index fuel h i c) (\<lambda>c. Some (Inr (tag_result TagDropIndex 0, c)))"
| "execute_plan fuel (InsertPlan h rows) c =
     obind (insert_rows fuel (th_meta h) rows c) (\<lambda>c. Some (Inr (tag_result TagInsert (word_of_nat (length rows)), c)))"
| "execute_plan fuel (DeletePlan h None) c = tagged TagDelete (cat_delete_all fuel (th_meta h) c)"
| "execute_plan fuel (DeletePlan h (Some child)) c = tagged TagDelete (Some (run_delete_where fuel child c))"
| "execute_plan fuel (UpdatePlan h assigns child) c = tagged TagUpdate (run_update fuel h assigns child c)"
| "execute_plan fuel (ProjectPlan child projs) c =
     Some (rbind (run_select (live_access fuel c) (ProjectPlan child projs)) (\<lambda>r. Inr (r, c)))"
| "execute_plan fuel (SortPlan child orders b) c =
     Some (rbind (run_select (live_access fuel c) (SortPlan child orders b)) (\<lambda>r. Inr (r, c)))"
| "execute_plan fuel (ExplainPlan child) c =
     Some (rbind (run_explain (\<lambda>i. rbind (live_types fuel c) (\<lambda>rows. find_type_by_id rows i)) child) (\<lambda>r. Inr (r, c)))"
| "execute_plan fuel (SetPlan SetTableId x) c = Some (Inr (tag_result TagSet 0, c\<lparr>ct_bootstrap_table_id := x\<rparr>))"
| "execute_plan fuel _ c = Some (Inl (Raise UnknownStmt))"

definition execute :: "nat \<Rightarrow> sql_statement \<Rightarrow> string \<Rightarrow> catalog \<Rightarrow> (exec_result \<times> catalog) res option" where
  "execute fuel stmt current_schema c =
     obind (Some (rbind (analyze (live_catalog fuel c) stmt current_schema) (\<lambda>bound. optimize (live_planner fuel c) (build bound))))
       (\<lambda>plan. execute_plan fuel plan c)"

section \<open>Values for columns\<close>

lemma assignments_along_table:
  "list_all (\<lambda>t. list_all (\<lambda>u. case check_assignment_type t (meta_col [] u 0 False) of
     Inr _ \<Rightarrow> cast_allowed t u Assignment | Inl _ \<Rightarrow> True) (map seed_attr kTypeSeeds)) (map seed_attr kTypeSeeds)"
  by code_simp

lemma assignment_allowed:
  assumes "t \<in> seed_types" "col_type col \<in> seed_types" "check_assignment_type t col = Inr ()"
  shows "cast_allowed t (col_type col) Assignment"
proof -
  have "check_assignment_type t (meta_col [] (col_type col) 0 False) = Inr ()"
    using assms(3) by (simp add: check_assignment_type_def meta_col_def)
  then show ?thesis using assignments_along_table assms(1,2) unfolding list_all_iff seed_attrs by fastforce
qed

text \<open>A value for a column: of its type, and not NULL where NULL is not allowed.\<close>

definition fits_column :: "column_spec \<Rightarrow> dbvalue \<Rightarrow> bool" where
  "fits_column col v \<longleftrightarrow> value_ok (col_type col) v \<and> (col_not_null col \<longrightarrow> vbox v \<noteq> BNull)"

definition column_safe :: "column_spec \<Rightarrow> dbvalue res \<Rightarrow> bool" where
  "column_safe col r = (case r of Inl err \<Rightarrow> err = Raise ArithError \<or> err = Raise ValueMismatch | Inr v \<Rightarrow> fits_column col v)"

lemma numeric_not_null: "coerce_numeric v t pr sc mode = Inr x \<Longrightarrow> vbox x \<noteq> BNull"
  by (auto simp: coerce_numeric_def res_simps value_factories split: if_splits)

lemma coerce_fits:
  assumes "value_ok t v" "t \<in> seed_types \<or> vbox v = BNull" "col_type col \<in> seed_types" "check_assignment_type t col = Inr ()"
  shows "column_safe col (coerce_col_value col v)"
proof (cases "vbox v = BNull")
  case True
  then show ?thesis by (simp add: coerce_col_value_def value_is_null_def column_safe_def fits_column_def value_ok_def)
next
  case False
  then have a: "cast_allowed t (col_type col) Assignment" using assignment_allowed assms(2-4) by blast
  have c: "cast_result (col_type col) (cast_value v (col_type col) Assignment)" by (rule cast_value_result [OF assms(1) False a])
  then have "column_safe col (cast_value v (col_type col) Assignment)"
    by (cases "cast_value v (col_type col) Assignment") (auto simp: column_safe_def fits_column_def cast_result_def value_ok_def)
  moreover have "column_safe col (coerce_numeric v (col_type col) pr sc Assignment)" if "attr_rep (col_type col) = RepDec" for pr sc
    using coerce_numeric_safe [OF assms(1) False a that, of pr sc] numeric_not_null
    by (cases "coerce_numeric v (col_type col) pr sc Assignment") (auto simp: column_safe_def fits_column_def)
  ultimately show ?thesis using False by (simp add: coerce_col_value_def value_is_null_def)
qed

lemma assigned_fits:
  assumes "assignable cols b col" "col_type col \<in> seed_types" "row_ok cols r"
  shows "column_safe col (rbind (eval_bound b r) (coerce_col_value col))"
proof -
  obtain t where t: "bound_ok cols b t" "check_assignment_type t col = Inr ()" using assms(1) by (auto simp: assignable_def)
  from t(1) show ?thesis
  proof (cases rule: bound_ok_cases)
    case 1
    then obtain v where "eval_bound b r = Inr v" "vbox v = BNull" using null_tree_eval [of b r] by blast
    then show ?thesis using coerce_fits [of t v col] t(2) assms(2) by (simp add: value_ok_def)
  next
    case 2
    have "safe t (eval_bound b r)" by (rule eval_safe [OF 2(2) assms(3)])
    then show ?thesis using coerce_fits [of t _ col] t(2) assms(2) 2(1) by (cases "eval_bound b r") (auto simp: column_safe_def)
  qed
qed

lemma user_map_res:
  assumes "list_all2 (\<lambda>x col. column_safe col (f x)) xs cols"
  shows "case map_res f xs of Inl err \<Rightarrow> err = Raise ArithError \<or> err = Raise ValueMismatch | Inr ys \<Rightarrow> list_all2 fits_column cols ys"
  using assms
proof (induction rule: list_all2_induct)
  case (Cons x xs col cols)
  then show ?case by (cases "f x"; cases "map_res f xs") (auto simp: column_safe_def)
qed simp

text \<open>
  C22. The values of an accepted INSERT fit their columns. Whatever the analysis accepts, evaluating the
  values of a row and bringing them into the domains of the columns gives one value for every column, of the
  column's type and not NULL where NULL is excluded, or ends in an arithmetic or value-mismatch error; it never
  ends in an internal error.
\<close>

theorem accepted_insert_fits:
  assumes "analyze (catalog_view (seeded_rows schemas tables columns) bootstrap) stmt sch = Inr (BoundInsert h rows)"
    and "es \<in> set rows"
  shows "case insert_values (tm_cols (th_meta h)) es of
      Inl err \<Rightarrow> err = Raise ArithError \<or> err = Raise ValueMismatch
    | Inr vals \<Rightarrow> list_all2 fits_column (tm_cols (th_meta h)) vals"
proof -
  let ?cols = "tm_cols (th_meta h)" and ?f = "\<lambda>(col, e). rbind (eval_const e) (coerce_col_value col)"
  have "stmt_ok (BoundInsert h rows)" by (rule seeded.analyze_ok [OF assms(1)])
  then have s: "list_all2 (assignable []) es ?cols" "set (map col_type ?cols) \<subseteq> seed_types" using assms(2) by (auto simp: meta_ok_def)
  have "column_safe (?cols ! i) (?f (zip ?cols es ! i))" if "i < length ?cols" for i
  proof -
    have "col_type (?cols ! i) \<in> seed_types" using s(2) that by auto
    then show ?thesis using that s(1) assigned_fits [of "[]" "es ! i" "?cols ! i" None] by (auto simp: list_all2_conv_all_nth eval_const_def row_ok_def)
  qed
  then have "list_all2 (\<lambda>x col. column_safe col (?f x)) (zip ?cols es) ?cols"
    using list_all2_lengthD [OF s(1)] by (auto simp: list_all2_conv_all_nth)
  from user_map_res [OF this] show ?thesis using list_all2_lengthD [OF s(1)] by (simp add: insert_values_def)
qed

text \<open>The same for UPDATE: the assigned columns get fitting values, the others keep theirs.\<close>

lemma assign_cols_fit:
  assumes "row_ok (map col_type cols) (Some old)" "set (map col_type cols) \<subseteq> seed_types"
    and "\<forall>a \<in> set assigns. bu_col_idx a < length cols \<and> assignable (map col_type cols) (bu_value a) (cols ! bu_col_idx a)"
    and "length vals = length cols"
  shows "case assign_cols cols old assigns vals of
      Inl err \<Rightarrow> err = Raise ArithError \<or> err = Raise ValueMismatch
    | Inr vals' \<Rightarrow> length vals' = length cols \<and> (\<forall>i < length cols.
        if i \<in> set (map bu_col_idx assigns) then fits_column (cols ! i) (vals' ! i) else vals' ! i = vals ! i)"
  using assms(3,4)
proof (induction assigns arbitrary: vals)
  case (Cons a assigns)
  let ?i = "bu_col_idx a"
  have i: "?i < length cols" "assignable (map col_type cols) (bu_value a) (cols ! ?i)" using Cons.prems(1) by auto
  have t: "col_type (cols ! ?i) \<in> seed_types" using assms(2) i(1) by auto
  have s: "column_safe (cols ! ?i) (rbind (eval_row (bu_value a) old) (coerce_col_value (cols ! ?i)))"
    using assigned_fits [OF i(2) t assms(1)] by (simp add: eval_row_def)
  show ?case
  proof (cases "rbind (eval_row (bu_value a) old) (coerce_col_value (cols ! ?i))")
    case (Inl err)
    then have "assign_cols cols old (a # assigns) vals = Inl err"
      using i(1) Cons.prems(2) by (cases "eval_row (bu_value a) old") auto
    then show ?thesis using s Inl by (simp add: column_safe_def)
  next
    case (Inr v)
    then have e: "assign_cols cols old (a # assigns) vals = assign_cols cols old assigns (vals[?i := v])"
      using i(1) Cons.prems(2) by (cases "eval_row (bu_value a) old") auto
    have f: "fits_column (cols ! ?i) v" using s Inr by (simp add: column_safe_def)
    have "case assign_cols cols old assigns (vals[?i := v]) of
      Inl err \<Rightarrow> err = Raise ArithError \<or> err = Raise ValueMismatch
    | Inr vals' \<Rightarrow> length vals' = length cols \<and> (\<forall>i < length cols.
        if i \<in> set (map bu_col_idx assigns) then fits_column (cols ! i) (vals' ! i) else vals' ! i = vals[?i := v] ! i)"
      using Cons.IH [of "vals[?i := v]"] Cons.prems by simp
    then show ?thesis unfolding e using f Cons.prems(2) i(1)
      by (cases "assign_cols cols old assigns (vals[?i := v])") (auto simp: nth_list_update split: if_splits)
  qed
qed simp

text \<open>
  UPDATE computes new rows from old ones. For whatever the analysis accepts, on a row of the table's
  types, every assigned column gets a value that fits it, computed from the old row, every other column keeps its
  value, or the statement ends in an arithmetic or value-mismatch error.
\<close>

theorem accepted_update_fits:
  assumes "analyze (catalog_view (seeded_rows schemas tables columns) bootstrap) stmt sch = Inr (BoundUpdate h assigns wh)"
    and "row_ok (handle_types h) (Some old)"
  shows "case assign_cols (tm_cols (th_meta h)) old assigns (row_values old) of
      Inl err \<Rightarrow> err = Raise ArithError \<or> err = Raise ValueMismatch
    | Inr vals \<Rightarrow> length vals = length (tm_cols (th_meta h)) \<and> (\<forall>i < length (tm_cols (th_meta h)).
        if i \<in> set (map bu_col_idx assigns) then fits_column (tm_cols (th_meta h) ! i) (vals ! i) else vals ! i = row_values old ! i)"
proof -
  have "stmt_ok (BoundUpdate h assigns wh)" by (rule seeded.analyze_ok [OF assms(1)])
  moreover have "length (row_values old) = length (tm_cols (th_meta h))" using assms(2) by (auto simp: row_ok_def dest: list_all2_lengthD)
  ultimately show ?thesis using assms(2) by (intro assign_cols_fit) (auto simp: meta_ok_def)
qed

definition demo_insert :: sql_statement where
  "demo_insert = InsertStmt \<lparr>qn_schema = [], qn_name = ''t''\<rparr> [''b'', ''a''] [[StringExpr ''xyz'', BinaryOpExpr CHR ''+'' (IntExpr ''1'') (IntExpr ''2'')]]"

definition demo_insert_row :: "bound_expr list" where
  "demo_insert_row = [BoundArith CHR ''+'' kInt (BoundConst (int_val kInt 1)) (BoundConst (int_val kInt 2)), BoundConst (str_val kVarChar ''xyz'')]"

lemma demo_insert_bound: "analyze (demo_db False) demo_insert ''public'' = Inr (BoundInsert demo_handle [demo_insert_row])"
  by code_simp

theorem accepted_insert_fits_witness:
  "insert_values (tm_cols (th_meta demo_handle)) demo_insert_row = Inr [int_val kInt 3, str_val kVarChar ''xyz''] \<and>
   list_all2 fits_column (tm_cols (th_meta demo_handle)) [int_val kInt 3, str_val kVarChar ''xyz'']"
proof -
  have "insert_values (tm_cols (th_meta demo_handle)) demo_insert_row = Inr [int_val kInt 3, str_val kVarChar ''xyz'']" by code_simp
  then show ?thesis
    using accepted_insert_fits [of _ _ _ False demo_insert "''public''" demo_handle "[demo_insert_row]" demo_insert_row] demo_insert_bound
    unfolding demo_db_def demo_meta_def by auto
qed

definition demo_old_row :: row where
  "demo_old_row = empty_row\<lparr>row_values := [int_val kInt 7, str_val kVarChar ''x'']\<rparr>"

theorem accepted_update_fits_witness:
  "\<exists>vals. fits_column (meta_col ''a'' kInt 0 True) (vals ! 0) \<and> vals ! 1 = str_val kVarChar ''x'' \<and> length vals = 2"
proof -
  have r: "row_ok (handle_types demo_handle) (Some demo_old_row)"
    by (simp add: row_ok_def demo_handle_def demo_old_row_def meta_col_def value_ok_def value_factories box_typed_def)
  have "case assign_cols (tm_cols (th_meta demo_handle)) demo_old_row
      [\<lparr>bu_col_idx = 0, bu_value = BoundArith CHR ''+'' kInt (BoundColRef 0 kInt) (BoundConst (int_val kInt 1))\<rparr>] (row_values demo_old_row) of Inr _ \<Rightarrow> True | Inl _ \<Rightarrow> False"
    by code_simp
  then obtain vals where v: "assign_cols (tm_cols (th_meta demo_handle)) demo_old_row
      [\<lparr>bu_col_idx = 0, bu_value = BoundArith CHR ''+'' kInt (BoundColRef 0 kInt) (BoundConst (int_val kInt 1))\<rparr>] (row_values demo_old_row) = Inr vals"
    by (auto split: sum.splits)
  have "length vals = length (tm_cols (th_meta demo_handle)) \<and> (\<forall>i < length (tm_cols (th_meta demo_handle)).
        if i \<in> {0} then fits_column (tm_cols (th_meta demo_handle) ! i) (vals ! i) else vals ! i = row_values demo_old_row ! i)"
    using accepted_update_fits [of _ _ _ False demo_update "''public''" demo_handle _ "Some demo_pred" demo_old_row] demo_analyze r v
    unfolding demo_db_def demo_meta_def demo_bound_def by fastforce
  then show ?thesis by (intro exI [of _ vals]) (auto simp: demo_handle_def demo_old_row_def numeral_2_eq_2 less_Suc_eq)
qed

section \<open>INSERT and SELECT down to the pages\<close>

lemma decode_cols_length: "decode_cols i cols data pos = Inr (Some vals) \<Longrightarrow> length vals = length cols"
  by (induction cols arbitrary: i pos vals) (auto simp: res_simps split: if_splits option.splits)

lemma decode_row_length: "decode_row cols r = Inr (Some vals) \<Longrightarrow> length vals = length cols"
  using decode_cols_length by (auto simp: decode_row_def split: if_splits)

lemma heap_feed_step:
  assumes "scan_state b s0 fid cs sc s todo" "chain (\<lambda>c. page_view s0 (PageId fid c)) cs 0" "0 \<notin> set cs" "b \<longrightarrow> - 1 \<notin> set cs"
    and "0 < length (bp_frames s0)" "length cs + length todo + 2 < fuel"
    and "list_all2 (\<lambda>(c, i) vals. decode_slot (hs_cols sc) (page_view s0 (PageId fid c)) i = Inr vals) todo rows"
  shows "heap_feed fuel sc s = Inr (map2 (\<lambda>(c, i). row_at (RowRef (PageId fid c) i)) todo rows, None)"
  using assms
proof (induction todo arbitrary: cs sc s rows fuel)
  case Nil
  obtain n where n: "fuel = Suc n" "Suc (length cs) < n" using Nil.prems(6) by (auto dest!: less_imp_Suc_add)
  from scanner_next [OF Nil.prems(1-5) n(2)] obtain sc' s' where "heap_scan_next n sc s = Some (Inr (None, sc', s'))" by (auto simp: next_step_def)
  then show ?case using n(1) Nil.prems(7) by simp
next
  case (Cons x todo)
  obtain c i where x: "x = (c, i)" by fastforce
  obtain vals rows' where rs: "rows = vals # rows'" "decode_slot (hs_cols sc) (page_view s0 (PageId fid c)) i = Inr vals"
    "list_all2 (\<lambda>(c, i) vals. decode_slot (hs_cols sc) (page_view s0 (PageId fid c)) i = Inr vals) todo rows'"
    using Cons.prems(7) x by (auto simp: list_all2_Cons1)
  obtain n where n: "fuel = Suc n" "Suc (length cs) < n" "length cs + length todo + 2 < n" using Cons.prems(6) by (auto dest!: less_imp_Suc_add)
  let ?row = "row_at (RowRef (PageId fid c) i) vals"
  from scanner_next [OF Cons.prems(1-5) n(2)] obtain sc' s1 cs' bs where k: "heap_scan_next n sc s = Some (Inr (Some ?row, sc', s1))"
    "scan_state b s0 fid cs' sc' s1 todo" "hs_cols sc' = hs_cols sc" "cs = bs @ cs'"
    using rs(2) unfolding next_step_def x row_at_def by auto
  have ch: "chain (\<lambda>c. page_view s0 (PageId fid c)) cs' 0" "0 \<notin> set cs'" "b \<longrightarrow> - 1 \<notin> set cs'" using Cons.prems(2-4) k(4) by (simp_all add: chain_append)
  have "heap_feed n sc' s1 = Inr (map2 (\<lambda>(c, i). row_at (RowRef (PageId fid c) i)) todo rows', None)"
    using Cons.IH [OF k(2) ch Cons.prems(5), of n rows'] rs(3) n(3) k(3,4) by auto
  then show ?case using n(1) k(1) rs(1) x by simp
qed

text \<open>The rows of a file as a statement's scan delivers them.\<close>

definition file_rows :: "engine \<Rightarrow> u64 \<Rightarrow> u32 list \<Rightarrow> dbvalue list list \<Rightarrow> row list" where
  "file_rows e fid cs rows = map2 row_at (map fst (table_rows e fid cs)) rows"

lemma live_scan:
  assumes "holds_rows (ct_engine c) fid cols cs rows" "0 < length (bp_frames (en_store (ct_engine c)))" "length cs + length rows + 2 < fuel"
    and "tm_file_id meta = fid" "tm_cols meta = cols"
  shows "ac_scan (live_access fuel c) meta = Inr (file_rows (ct_engine c) fid cs rows, None)"
proof -
  let ?s = "en_store (ct_engine c)" and ?b = False
  let ?v = "page_view ?s"
  let ?todo = "page_todo ?v fid cs"
  have h: "idle ?s" "heap_file ?v fid cs" "list_all2 (\<lambda>x vals. decode_row cols (snd x) = Inr (Some vals)) (heap_rows ?v fid cs) rows"
    using assms(1) by (auto simp: holds_rows_def heap_table_def)
  have f: "chain (\<lambda>c. ?v (PageId fid c)) cs 0" "0 \<notin> set cs" using h(2) by (auto simp: heap_file_def)
  obtain sc s1 where o: "heap_scan_open meta ?s = Inr (sc, s1)" "scan_state ?b ?s fid cs sc s1 ?todo" "hs_cols sc = cols"
    using scan_opened [OF h(1,2) assms(2,4,5)] by blast
  have d: "list_all2 (\<lambda>(c, i) vals. decode_slot (hs_cols sc) (?v (PageId fid c)) i = Inr vals) ?todo rows"
    using todo_decodes [OF h(3)] o(3) by simp
  then have l: "length rows = length ?todo" by (simp add: list_all2_lengthD)
  have "map2 (\<lambda>(c, i). row_at (RowRef (PageId fid c) i)) ?todo rows = file_rows (ct_engine c) fid cs rows"
    unfolding file_rows_def todo_rows by (intro nth_equalityI) (simp_all add: case_prod_beta)
  then show ?thesis using heap_feed_step [OF o(2) f _ assms(2) _ d, of fuel] o(1) assms(3) l by (simp add: live_access_def)
qed

text \<open>The rows of db_index belong to other tables.\<close>

definition index_free :: "u64 \<Rightarrow> dbvalue list list \<Rightarrow> bool" where
  "index_free tid irows \<longleftrightarrow> (\<forall>row \<in> set irows. \<exists>t. row_int row 0 = Inr t \<and> t \<noteq> sint tid)"

text \<open>A file as a scan needs it: the pages in order, the records readable.\<close>

definition scannable :: "engine \<Rightarrow> u64 \<Rightarrow> column_spec list \<Rightarrow> u32 list \<Rightarrow> dbvalue list list \<Rightarrow> bool" where
  "scannable e fid cols cs rows \<longleftrightarrow> heap_file (page_view (en_store e)) fid cs \<and> last (0 # cs) \<noteq> - 1 \<and>
     list_all2 (\<lambda>x vals. decode_row cols (snd x) = Inr (Some vals)) (table_rows e fid cs) rows"

lemma scannable_cong:
  assumes "scannable e fid cols cs rows" "only_file other (page_view (en_store e)) (page_view (en_store e'))" "fid \<noteq> other"
  shows "scannable e' fid cols cs rows"
proof -
  have v: "page_view (en_store e') (PageId fid no) = page_view (en_store e) (PageId fid no)" for no
    using assms(2,3) by (simp add: only_file_def)
  have "heap_file (page_view (en_store e')) fid cs" using assms(1) unfolding scannable_def heap_file_def v by simp
  moreover have "table_rows e' fid cs = table_rows e fid cs" by (rule heap_rows_cong) (simp add: v)
  ultimately show ?thesis using assms(1) by (simp add: scannable_def)
qed

lemma no_index_found:
  assumes "idle (en_store (ct_engine c))" "scannable (ct_engine c) kIndexMetaId (ct_index_cols c) ics irows" "index_free tid irows"
    and "0 < length (bp_frames (en_store (ct_engine c)))" "length ics + length irows + 2 < fuel"
  shows "\<exists>s'. cat_table_indexes fuel tid c = Some (Inr ([], c\<lparr>ct_engine := (ct_engine c)\<lparr>en_store := s'\<rparr>\<rparr>)) \<and> calm (en_store (ct_engine c)) s'"
proof -
  let ?rows = "map2 row_at (map fst (table_rows (ct_engine c) kIndexMetaId ics)) irows"
  have s: "heap_file (page_view (en_store (ct_engine c))) kIndexMetaId ics" "last (0 # ics) \<noteq> - 1"
    "list_all2 (\<lambda>x vals. decode_row (ct_index_cols c) (snd x) = Inr (Some vals)) (table_rows (ct_engine c) kIndexMetaId ics) irows"
    using assms(2) by (simp_all add: scannable_def)
  have "index_rows_of tid row = Inr []" if "row \<in> set ?rows" for row
  proof -
    have "row_values row \<in> set irows" using that by (auto dest: set_zip_rightD)
    then show ?thesis using assms(3) by (auto simp: index_free_def index_rows_of_def)
  qed
  then have m: "map_res (index_rows_of tid) ?rows = Inr (map (\<lambda>_. []) ?rows)" by (rule map_res_all_Inr)
  have "concat (map (\<lambda>_. []) ?rows) = ([] :: index_entry list)" by simp
  then show ?thesis using scan_file_step [OF assms(1) s(1,3) assms(4,5) _ _ m, of "meta_of kIndexMetaId (ct_index_cols c)"] s(2)
    by (auto simp: cat_table_indexes_def meta_scan_def meta_of_def resting_calm)
qed

lemma holds_calm: "holds_rows e fid cols cs rows \<Longrightarrow> calm (en_store e) s' \<Longrightarrow> holds_rows (e\<lparr>en_store := s'\<rparr>) fid cols cs rows"
  using tail_calm by (auto simp: holds_rows_def calm_def)

lemma cat_insert_step:
  assumes "meta_file (ct_engine c) fid cols cs rows" "scannable (ct_engine c) kIndexMetaId (ct_index_cols c) ics irows"
    and "index_free (tm_table_id meta) irows" "tm_file_id meta = fid" "tm_cols meta = cols" "fid \<noteq> 0" "fid \<noteq> kIndexMetaId"
    and "1 < length (bp_frames (en_store (ct_engine c)))" "check_txn fid (en_store (ct_engine c)) = Inr t"
    and "encode_row cols vals = Inr (Some rec)" "length rec \<le> MAX_RECORD_LEN" "length ics + length irows + 2 < fuel"
  shows "\<exists>rid c' ds. cat_insert fuel meta vals c = Some (Inr (rid, c')) \<and> holds_rows (ct_engine c') fid cols (cs @ ds) (rows @ [map2 stored cols vals])
    \<and> length (bp_frames (en_store (ct_engine c'))) = length (bp_frames (en_store (ct_engine c)))
    \<and> only_file fid (page_view (en_store (ct_engine c))) (page_view (en_store (ct_engine c')))"
proof -
  have "1 < fuel" using assms(12) by simp
  then obtain rid ref ds e' where i: "insert_row fuel fid cols vals (ct_engine c) = Some (Inr (rid, ref, e'))"
    "holds_rows e' fid cols (cs @ ds) (rows @ [map2 stored cols vals])" "length (bp_frames (en_store e')) = length (bp_frames (en_store (ct_engine c)))"
    "only_file fid (page_view (en_store (ct_engine c))) (page_view (en_store e'))"
    using insert_row_meta [OF assms(1,8,9,6,10,11)] by blast
  have idle: "idle (en_store e')" using i(2) by (simp add: holds_rows_def heap_table_def)
  have sc: "scannable e' kIndexMetaId (ct_index_cols c) ics irows" by (rule scannable_cong [OF assms(2) i(4)]) (use assms(7) in simp)
  have pos: "0 < length (bp_frames (en_store e'))" using i(3) assms(8) by linarith
  obtain s' where s': "cat_table_indexes fuel (tm_table_id meta) (c\<lparr>ct_engine := e'\<rparr>) = Some (Inr ([], c\<lparr>ct_engine := e'\<lparr>en_store := s'\<rparr>\<rparr>))"
    "calm (en_store e') s'"
    using no_index_found [of "c\<lparr>ct_engine := e'\<rparr>" ics irows "tm_table_id meta" fuel] idle sc assms(3,12) pos by auto
  let ?c = "c\<lparr>ct_engine := e'\<lparr>en_store := s'\<rparr>\<rparr>"
  have "cat_insert fuel meta vals c = Some (Inr (rid, ?c))" using i(1) s'(1) assms(4,5) by (simp add: cat_insert_def)
  moreover have "holds_rows (ct_engine ?c) fid cols (cs @ ds) (rows @ [map2 stored cols vals])" using holds_calm [OF i(2) s'(2)] by simp
  moreover have "length (bp_frames s') = length (bp_frames (en_store (ct_engine c)))" "page_view s' = page_view (en_store e')"
    using s'(2) i(3) by (simp_all add: calm_def kept_def)
  ultimately show ?thesis using i(4) by (intro exI [of _ rid] exI [of _ ?c] exI [of _ ds]) simp
qed

lemma project_star:
  assumes "length (row_values r) = length (tm_cols meta)"
  shows "project_row (map fst (star_cols meta)) r = Inr r"
proof -
  have "map_res (proj_value r) (map fst (star_cols meta)) = Inr (map (\<lambda>i. row_values r ! i) [0..<length (tm_cols meta)])"
    using assms by (simp add: star_cols_def map_res_map comp_def) (rule map_res_all_Inr, simp add: proj_value_def)
  moreover have "map (\<lambda>i. row_values r ! i) [0..<length (tm_cols meta)] = row_values r" using assms by (metis map_nth)
  ultimately show ?thesis by (simp add: project_row_def)
qed

lemma select_star:
  assumes "holds_rows (ct_engine c) fid (tm_cols (th_meta h)) cs rows" "0 < length (bp_frames (en_store (ct_engine c)))"
    and "length cs + length rows + 2 < fuel" "tm_file_id (th_meta h) = fid"
  shows "execute_plan fuel (ProjectPlan (SeqScanPlan h) (map fst (star_cols (th_meta h)))) c =
    Some (Inr (\<lparr>er_is_result_set = True, er_tag = TagEmpty, er_count = 0, er_col_names = map (text_bytes \<circ> col_name) (tm_cols (th_meta h)),
                er_rows = rows, er_failure = None\<rparr>, c))"
proof -
  let ?ac = "live_access fuel c" and ?rows = "file_rows (ct_engine c) fid cs rows" and ?projs = "map fst (star_cols (th_meta h))"
  have l2: "list_all2 (\<lambda>x vals. decode_row (tm_cols (th_meta h)) (snd x) = Inr (Some vals)) (table_rows (ct_engine c) fid cs) rows"
    using assms(1) by (simp add: holds_rows_def)
  have scan: "op_run ?ac (SeqScanPlan h) = Inr (?rows, None)" using live_scan [OF assms(1-3)] assms(4) by (simp add: run_simps(1))
  have vals: "map row_values ?rows = rows" using list_all2_lengthD [OF l2] by (auto simp: file_rows_def intro!: nth_equalityI)
  have "length v = length (tm_cols (th_meta h))" if "v \<in> set rows" for v
    using l2 that decode_row_length by (auto simp: list_all2_conv_all_nth in_set_conv_nth)
  then have "map_res (project_row ?projs) ?rows = Inr (map id ?rows)"
    using vals by (intro map_res_all_Inr) (metis project_star id_apply image_eqI list.set_map)
  then have "op_run ?ac (ProjectPlan (SeqScanPlan h) ?projs) = Inr (?rows, None)" using scan by (simp add: run_project_iff)
  moreover have "map (text_bytes \<circ> pc_name) ?projs = map (text_bytes \<circ> col_name) (tm_cols (th_meta h))"
    by (intro nth_equalityI) (simp_all add: star_cols_def)
  ultimately show ?thesis using vals by (simp add: run_select_def)
qed

text \<open>
  C6. INSERT, then SELECT. For a table of an open database whose file holds \<^verbatim>\<open>rows\<close> and on which no
  index stands, inside a transaction: when the values of an INSERT can be computed and their record fits a page, the
  statement reports one row, changes the pages of no other file, and SELECT * afterwards gives
  the rows of before, in their order, and the new row as its columns store it.
\<close>

theorem insert_then_select:
  assumes "meta_file (ct_engine c) (tm_file_id (th_meta h)) (tm_cols (th_meta h)) cs rows"
    and "scannable (ct_engine c) kIndexMetaId (ct_index_cols c) ics irows" and "index_free (tm_table_id (th_meta h)) irows"
    and "tm_file_id (th_meta h) \<notin> {0, kIndexMetaId}"
    and "1 < length (bp_frames (en_store (ct_engine c)))" and "check_txn (tm_file_id (th_meta h)) (en_store (ct_engine c)) = Inr t"
    and "insert_values (tm_cols (th_meta h)) es = Inr vals"
    and "encode_row (tm_cols (th_meta h)) vals = Inr (Some rec)" and "length rec \<le> MAX_RECORD_LEN"
    and "length ics + length irows + 2 < fuel"
  shows "\<exists>c' n. execute_plan fuel (InsertPlan h [es]) c = Some (Inr (tag_result TagInsert 1, c'))
    \<and> only_file (tm_file_id (th_meta h)) (page_view (en_store (ct_engine c))) (page_view (en_store (ct_engine c')))
    \<and> (\<forall>m \<ge> n. execute_plan m (ProjectPlan (SeqScanPlan h) (map fst (star_cols (th_meta h)))) c' =
         Some (Inr (\<lparr>er_is_result_set = True, er_tag = TagEmpty, er_count = 0, er_col_names = map (text_bytes \<circ> col_name) (tm_cols (th_meta h)),
           er_rows = rows @ [map2 stored (tm_cols (th_meta h)) vals], er_failure = None\<rparr>, c')))"
proof -
  let ?fid = "tm_file_id (th_meta h)" and ?cols = "tm_cols (th_meta h)" and ?rows = "rows @ [map2 stored (tm_cols (th_meta h)) vals]"
  have f: "?fid \<noteq> 0" "?fid \<noteq> kIndexMetaId" using assms(4) by auto
  obtain rid c' ds where i: "cat_insert fuel (th_meta h) vals c = Some (Inr (rid, c'))" "holds_rows (ct_engine c') ?fid ?cols (cs @ ds) ?rows"
    "length (bp_frames (en_store (ct_engine c'))) = length (bp_frames (en_store (ct_engine c)))"
    "only_file ?fid (page_view (en_store (ct_engine c))) (page_view (en_store (ct_engine c')))"
    using cat_insert_step [OF assms(1-3) refl refl f assms(5,6,8-10)] by blast
  have pos: "0 < length (bp_frames (en_store (ct_engine c')))" using i(3) assms(5) by linarith
  have "execute_plan fuel (InsertPlan h [es]) c = Some (Inr (tag_result TagInsert 1, c'))" using i(1) assms(7) by simp
  moreover have "execute_plan m (ProjectPlan (SeqScanPlan h) (map fst (star_cols (th_meta h)))) c' =
      Some (Inr (\<lparr>er_is_result_set = True, er_tag = TagEmpty, er_count = 0, er_col_names = map (text_bytes \<circ> col_name) ?cols,
        er_rows = ?rows, er_failure = None\<rparr>, c'))" if "length (cs @ ds) + length ?rows + 3 \<le> m" for m
    using select_star [OF i(2) pos _ refl, of m] that by linarith
  ultimately show ?thesis using i(4) by (intro exI [of _ c'] exI [of _ "length (cs @ ds) + length ?rows + 3"]) blast
qed

text \<open>An engine that was just started on files with nothing but their headers, inside a transaction.\<close>

definition header_files :: "u64 list \<Rightarrow> files" where
  "header_files fids = (\<lambda>fid. if fid \<in> set fids then Some (init_page MAGIC_FILE_HEADER FileHeader) else None)"

definition fresh_engine :: "u64 list \<Rightarrow> engine" where
  "fresh_engine fids = (engine_init 2 (header_files fids) [])\<lparr>en_store :=
     (en_store (engine_init 2 (header_files fids) []))\<lparr>bp_txn := Some (new_txn 1)\<rparr>\<rparr>"

lemma header_pages:
  "fid \<in> set fids \<Longrightarrow> disk_page (header_files fids) (PageId fid 0) = init_page MAGIC_FILE_HEADER FileHeader"
  "no \<noteq> 0 \<Longrightarrow> disk_page (header_files fids) (PageId fid no) = replicate PAGE_SIZE 0"
proof -
  have "page_off 0 = 0" by (simp add: page_off_def)
  then show "fid \<in> set fids \<Longrightarrow> disk_page (header_files fids) (PageId fid 0) = init_page MAGIC_FILE_HEADER FileHeader"
    by (simp add: disk_page_alt header_files_def file_bytes_def get_at_def init_page_fields(1) Let_def)
  assume "no \<noteq> 0"
  then have "PAGE_SIZE \<le> page_off no" using unat_gt_0 [of no] by (simp add: page_off_def PAGE_SIZE_def Suc_le_eq)
  then have "drop (page_off no) (file_bytes (header_files fids) fid) = []" by (simp add: header_files_def file_bytes_def init_page_fields(1))
  then show "disk_page (header_files fids) (PageId fid no) = replicate PAGE_SIZE 0" by (simp add: disk_page_alt get_at_def)
qed

lemma fresh_table:
  assumes "fid \<in> set fids"
  shows "heap_table (fresh_engine fids) fid []" "length (bp_frames (en_store (fresh_engine fids))) = 2" "check_txn fid (en_store (fresh_engine fids)) = Inr (new_txn 1)"
proof -
  let ?s = "en_store (fresh_engine fids)"
  have s: "pool_ok ?s" "bp_files ?s = header_files fids" "page_view ?s = disk_page (header_files fids)" "pin_of ?s = (\<lambda>_. 0)"
    "pages_numbered ?s" "en_tails (fresh_engine fids) fid = None"
    using pool_init_ok [of 2 "header_files fids" "wal_init []"]
    by (simp_all add: fresh_engine_def engine_init_def)
      (simp_all add: pool_init_def page_view_def pin_of_def pages_numbered_def empty_frame_def INVALID_PAGE_def numeral_2_eq_2 fun_eq_iff)
  show "length (bp_frames ?s) = 2" "check_txn fid ?s = Inr (new_txn 1)"
    by (simp_all add: fresh_engine_def engine_init_def pool_init_def check_txn_def new_txn_def)
  have "aligned (header_files fids)" by (simp add: aligned_def header_files_def file_bytes_def init_page_fields(1) PAGE_SIZE_def)
  moreover have "heap_file (page_view ?s) fid []"
    using header_pages(1) [OF assms] header_pages(2) by (simp add: heap_file_def s(3) init_page_fields)
  ultimately show "heap_table (fresh_engine fids) fid []"
    using s header_pages(2) by (simp add: heap_table_def idle_def tail_ok_def page_all_zero_def)
qed

definition demo_insert_catalog :: catalog where
  "demo_insert_catalog = (catalog_init (fresh_engine [1, kIndexMetaId]) False)"

theorem insert_then_select_witness:
  "\<exists>c' n. execute_plan 3 (InsertPlan demo_handle [demo_insert_row]) demo_insert_catalog = Some (Inr (tag_result TagInsert 1, c'))
    \<and> (\<exists>res. execute_plan n (ProjectPlan (SeqScanPlan demo_handle) (map fst (star_cols (th_meta demo_handle)))) c' = Some (Inr (res, c'))
      \<and> er_rows res = [[int_val kInt 3, str_val kVarChar ''xyz'']])"
proof -
  let ?c = demo_insert_catalog and ?h = demo_handle
  have e: "ct_engine ?c = fresh_engine [1, kIndexMetaId]" "ct_index_cols ?c = []" by (simp_all add: demo_insert_catalog_def catalog_init_def)
  have m: "tm_file_id (th_meta ?h) = 1" by (simp add: demo_handle_def)
  have t: "heap_table (ct_engine ?c) 1 []" "heap_table (ct_engine ?c) kIndexMetaId []" "length (bp_frames (en_store (ct_engine ?c))) = 2"
    "check_txn 1 (en_store (ct_engine ?c)) = Inr (new_txn 1)" unfolding e(1) using fresh_table [of 1 "[1, kIndexMetaId]"] fresh_table(1) [of kIndexMetaId "[1, kIndexMetaId]"] by simp_all
  have v: "insert_values (tm_cols (th_meta ?h)) demo_insert_row = Inr [int_val kInt 3, str_val kVarChar ''xyz'']" by code_simp
  obtain rec where r: "encode_row (tm_cols (th_meta ?h)) [int_val kInt 3, str_val kVarChar ''xyz''] = Inr (Some rec)" "length rec \<le> MAX_RECORD_LEN"
    by (auto simp: encode_row_def demo_handle_def meta_col_def value_factories encode_col_def seed_attr_defs encode_int_def encode_str_def
        Let_def put_u32_def put_u16_def bitmap_len_def MAX_RECORD_LEN_def page_consts INT32_MIN_def INT32_MAX_def)
  have st: "map2 stored (tm_cols (th_meta ?h)) [int_val kInt 3, str_val kVarChar ''xyz''] = [int_val kInt 3, str_val kVarChar ''xyz'']"
    by (simp add: demo_handle_def meta_col_def stored_def stored_box_def value_factories seed_attr_defs)
  have "meta_file (ct_engine ?c) (tm_file_id (th_meta ?h)) (tm_cols (th_meta ?h)) [] []"
    using t(1) m by (simp add: meta_file_def holds_rows_def heap_rows_def)
  moreover have "scannable (ct_engine ?c) kIndexMetaId (ct_index_cols ?c) [] []" using t(2) by (simp add: scannable_def heap_table_def heap_rows_def)
  moreover have "index_free (tm_table_id (th_meta ?h)) []" "tm_file_id (th_meta ?h) \<notin> {0, kIndexMetaId}"
    using m by (simp_all add: index_free_def kIndexMetaId_def)
  ultimately obtain c' n where "execute_plan 3 (InsertPlan ?h [demo_insert_row]) ?c = Some (Inr (tag_result TagInsert 1, c'))"
    "\<forall>k \<ge> n. execute_plan k (ProjectPlan (SeqScanPlan ?h) (map fst (star_cols (th_meta ?h)))) c' =
         Some (Inr (\<lparr>er_is_result_set = True, er_tag = TagEmpty, er_count = 0, er_col_names = map (text_bytes \<circ> col_name) (tm_cols (th_meta ?h)),
           er_rows = [] @ [map2 stored (tm_cols (th_meta ?h)) [int_val kInt 3, str_val kVarChar ''xyz'']], er_failure = None\<rparr>, c'))"
    using insert_then_select [of ?c ?h "[]" "[]" "[]" "[]" "new_txn 1" demo_insert_row "[int_val kInt 3, str_val kVarChar ''xyz'']" rec 3] t(3,4) v r m by auto
  then show ?thesis unfolding st by fastforce
qed

end
