(* ===== verification/IndexScans.thy ===== *)
theory IndexScans
  imports Executor TreeSafety
begin

text \<open>
  Index range scans over the pages of a B+tree file (src/storage/btree.cpp \<^verbatim>\<open>descend\<close>, \<^verbatim>\<open>BTree::scan\<close>,
  \<^verbatim>\<open>BTreeScan::next\<close>, as the index cursor of src/executor/operator.cpp pulls them): what a well-formed tree is
  on the bytes of its pages, that a scan finds its first leaf, follows the leaf links and delivers exactly the
  entries in its range, and that the plan the optimizer puts in place of a filtered sequential scan gives the
  same rows on a table whose indexes are such trees. The operations are those of \<^verbatim>\<open>BTree\<close>, \<^verbatim>\<open>Engine\<close> and
  \<^verbatim>\<open>Executor\<close>; the definitions here are the specification they are measured against.
\<close>

section \<open>Trees of pages\<close>

definition file_pages :: "store \<Rightarrow> u64 \<Rightarrow> u32 \<Rightarrow> bytes" where
  "file_pages s fid no = page_view s (PageId fid no)"

text \<open>The leaves of an index file in key order, linked by their next pages, and their entries.\<close>

fun leaf_chain :: "(u32 \<Rightarrow> bytes) \<Rightarrow> u32 list \<Rightarrow> bool" where
  "leaf_chain P [] \<longleftrightarrow> True"
| "leaf_chain P (no # ls) \<longleftrightarrow> no \<noteq> 0 \<and> page_valid (P no) MAGIC_BTREE_LEAF \<and> hd_type (P no) = page_type_code BTreeLeaf
     \<and> hd_next_page (P no) = hd (ls @ [0]) \<and> leaf_chain P ls"

definition leaf_run :: "(u32 \<Rightarrow> bytes) \<Rightarrow> u32 list \<Rightarrow> btree_entry list" where
  "leaf_run P ls = concat (map (leaf_entries \<circ> P) ls)"

text \<open>
  The subtree of height \<^verbatim>\<open>h\<close> below a page has these leaves; a separator of an inner page is above
  every entry of the children on its left and not above those on its right.
\<close>

primrec tree_at :: "nat \<Rightarrow> (u32 \<Rightarrow> bytes) \<Rightarrow> u32 \<Rightarrow> u32 list \<Rightarrow> bool" where
  "tree_at 0 P no ls \<longleftrightarrow> ls = [no]"
| "tree_at (Suc h) P no ls \<longleftrightarrow> page_valid (P no) MAGIC_BTREE_LEAF \<and> hd_type (P no) = page_type_code BTreeInternal
     \<and> sorted (node_seps (P no))
     \<and> (\<exists>lss. list_all2 (tree_at h P) (node_children (P no)) lss \<and> ls = concat lss
          \<and> (\<forall>i < length (node_seps (P no)).
               (\<forall>e \<in> set (leaf_run P (concat (take (Suc i) lss))). e < node_seps (P no) ! i)
             \<and> (\<forall>e \<in> set (leaf_run P (concat (drop (Suc i) lss))). node_seps (P no) ! i \<le> e)))"

lemma leaf_run_simps [simp]:
  "leaf_run P [] = []" "leaf_run P (no # ls) = leaf_entries (P no) @ leaf_run P ls" "leaf_run P (ls @ ms) = leaf_run P ls @ leaf_run P ms"
  by (simp_all add: leaf_run_def)

lemma leaf_chain_append: "leaf_chain P (ls @ ms) \<Longrightarrow> leaf_chain P ms"
  by (induction ls) auto

text \<open>The way down ends in a leaf with the smaller entries on its left and the greater ones on its right.\<close>

lemma descend_step:
  assumes "resting b s0 s" "0 < length (bp_frames s0)" "\<not> b" "P = file_pages s0 fid"
    "tree_at h P no ls" "leaf_chain P (ls @ rst)" "h < fuel"
  shows "\<exists>ls1 leaf ls2 k s'. descend fuel fid lo no s = Some (Inr (leaf, k, s')) \<and> holding b s0 (PageId fid leaf) k s'
    \<and> ls = ls1 @ leaf # ls2
    \<and> (if lo = None then ls1 = [] else (\<forall>e \<in> set (leaf_run P ls1). e < scan_probe lo) \<and> (\<forall>e \<in> set (leaf_run P ls2). scan_probe lo \<le> e))"
  using assms
proof (induction h arbitrary: fuel no ls rst s)
  case 0
  then obtain n where n: "fuel = Suc n" by (cases fuel) auto
  have l: "ls = [no]" "page_valid (P no) MAGIC_BTREE_LEAF" "hd_type (P no) = page_type_code BTreeLeaf" using 0 by auto
  obtain k s' where k: "pool_read (PageId fid no) MAGIC_BTREE_LEAF s = Inr (k, s')" "holding b s0 (PageId fid no) k s'"
    using take_page [OF 0(1), of "PageId fid no" MAGIC_BTREE_LEAF] l(2) 0(2-4) by (auto simp: file_pages_def)
  have "page_type_code BTreeLeaf \<noteq> page_type_code BTreeInternal" by simp
  then have "descend fuel fid lo no s = Some (Inr (no, k, s'))"
    using k(1) held_bytes [OF k(2)] l(3) 0(4) by (simp add: n Let_def file_pages_def)
  then show ?case using k(2) l(1) by (intro exI [of _ "[]"] exI [of _ no] exI [of _ "[]"]) auto
next
  case (Suc h)
  obtain n where n: "fuel = Suc n" "h < n" using Suc.prems(7) by (cases fuel) auto
  let ?p = "P no" and ?e = "scan_probe lo"
  obtain lss where t: "page_valid ?p MAGIC_BTREE_LEAF" "hd_type ?p = page_type_code BTreeInternal" "sorted (node_seps ?p)"
    "list_all2 (tree_at h P) (node_children ?p) lss" "ls = concat lss"
    and sep: "\<And>i e. i < length (node_seps ?p) \<Longrightarrow> e \<in> set (leaf_run P (concat (take (Suc i) lss))) \<Longrightarrow> e < node_seps ?p ! i"
      "\<And>i e. i < length (node_seps ?p) \<Longrightarrow> e \<in> set (leaf_run P (concat (drop (Suc i) lss))) \<Longrightarrow> node_seps ?p ! i \<le> e"
    using Suc.prems(5) by auto
  obtain k s1 where k: "pool_read (PageId fid no) MAGIC_BTREE_LEAF s = Inr (k, s1)" "holding b s0 (PageId fid no) k s1"
    using take_page [OF Suc.prems(1), of "PageId fid no" MAGIC_BTREE_LEAF] t(1) Suc.prems(2-4) by (auto simp: file_pages_def)
  obtain s2 where s2: "pool_unpin k s1 = Inr s2" "resting b s0 s2" using leave_page [OF k(2)] by blast
  have pg: "frame_data k s1 = ?p" using held_bytes [OF k(2)] Suc.prems(4) by (simp add: file_pages_def)
  define c where "c = (if lo \<noteq> None then node_child_index ?p ?e else 0)"
  have c: "unat c \<le> length (node_seps ?p)"
    using node_child_index_sorted [OF t(3), of ?e] length_takeWhile_le [of "\<lambda>x. x \<le> ?e" "node_seps ?p"] by (auto simp: c_def)
  have len: "length lss = Suc (length (node_seps ?p))" using list_all2_lengthD [OF t(4)] by simp
  have child: "node_child ?p c = node_children ?p ! unat c"
    using c node_child_nat [of "unat c" ?p] unat16_less [of c] by (simp add: node_children_def del: upt_Suc)
  have tr: "tree_at h P (node_child ?p c) (lss ! unat c)"
    using list_all2_nthD [OF t(4), of "unat c"] c unfolding child by simp
  define l1 l2 where l12: "l1 = concat (take (unat c) lss)" "l2 = concat (drop (Suc (unat c)) lss)"
  have ls: "ls = l1 @ lss ! unat c @ l2"
    using id_take_nth_drop [of "unat c" lss] c len unfolding t(5) l12 by (metis concat.simps(2) concat_append le_imp_less_Suc)
  have ch: "leaf_chain P (lss ! unat c @ (l2 @ rst))" using Suc.prems(6) leaf_chain_append [of P l1] unfolding ls by simp
  obtain ls1 leaf ls2 k' s' where d: "descend n fid lo (node_child ?p c) s2 = Some (Inr (leaf, k', s'))" "holding b s0 (PageId fid leaf) k' s'"
    "lss ! unat c = ls1 @ leaf # ls2"
    "if lo = None then ls1 = [] else (\<forall>e \<in> set (leaf_run P ls1). e < ?e) \<and> (\<forall>e \<in> set (leaf_run P ls2). ?e \<le> e)"
    using Suc.IH [OF s2(2) Suc.prems(2-4) tr ch n(2)] by blast
  have "descend fuel fid lo no s = Some (Inr (leaf, k', s'))"
    using k(1) s2(1) d(1) t(2) pg by (cases lo) (simp_all add: n Let_def c_def)
  moreover have "ls = (l1 @ ls1) @ leaf # (ls2 @ l2)" by (simp add: ls d(3))
  moreover have "if lo = None then l1 @ ls1 = [] else (\<forall>e \<in> set (leaf_run P (l1 @ ls1)). e < ?e) \<and> (\<forall>e \<in> set (leaf_run P (ls2 @ l2)). ?e \<le> e)"
  proof (cases "lo = None")
    case True
    then show ?thesis using d(4) by (simp add: c_def l12)
  next
    case False
    have u: "unat c = length (takeWhile (\<lambda>x. x \<le> ?e) (node_seps ?p))" using False node_child_index_sorted [OF t(3), of ?e] by (simp add: c_def)
    have left: "e < ?e" if e: "e \<in> set (leaf_run P l1)" for e
    proof (cases "unat c")
      case 0
      then show ?thesis using e by (simp add: l12)
    next
      case (Suc i)
      then have i: "i < length (node_seps ?p)" "i < length (takeWhile (\<lambda>x. x \<le> ?e) (node_seps ?p))" using c u by auto
      then have "node_seps ?p ! i \<le> ?e" using nth_mem [OF i(2)] takeWhile_nth [OF i(2)] set_takeWhileD by metis
      then show ?thesis using sep(1) [OF i(1), of e] e unfolding l12 Suc by simp
    qed
    have right: "?e \<le> e" if e: "e \<in> set (leaf_run P l2)" for e
    proof (cases "unat c < length (node_seps ?p)")
      case True
      then have "\<not> node_seps ?p ! unat c \<le> ?e" using nth_length_takeWhile [of "\<lambda>x. x \<le> ?e" "node_seps ?p"] unfolding u by blast
      moreover have "node_seps ?p ! unat c \<le> e" using sep(2) [OF True] e unfolding l12 by simp
      ultimately show ?thesis by order
    qed (use e c len in \<open>simp add: l12\<close>)
    show ?thesis using d(4) False left right by auto
  qed
  ultimately show ?case using d(2) by blast
qed

section \<open>Range scans\<close>

text \<open>A scanner in the middle of its file: the entries before it and the leaves after the current one.\<close>

definition tree_scan :: "store \<Rightarrow> u64 \<Rightarrow> u32 list \<Rightarrow> btree_scanner \<Rightarrow> store \<Rightarrow> btree_entry list \<Rightarrow> bool" where
  "tree_scan s0 fid ls c s todo \<longleftrightarrow> (let P = file_pages s0 fid in
     sc_file c = fid \<and> \<not> sc_done c \<and> sc_next c = hd (ls @ [0]) \<and> leaf_chain P ls \<and> sorted todo \<and>
     (\<forall>e \<in> set todo. case sc_lo c of None \<Rightarrow> True | Some b \<Rightarrow> sb_key b \<le> be_key e) \<and>
     (case sc_cur c of
        None \<Rightarrow> resting False s0 s \<and> todo = leaf_run P ls
      | Some k \<Rightarrow> \<exists>no. holding False s0 (PageId fid no) k s \<and> todo = drop (unat (sc_slot c)) (leaf_entries (P no)) @ leaf_run P ls))"

definition wanted :: "btree_scanner \<Rightarrow> btree_entry \<Rightarrow> bool" where
  "wanted c e \<longleftrightarrow> above_lo (sc_lo c) (be_key e) \<and> below_hi (sc_hi c) (be_key e)"

lemma wanted_cong: "sc_lo c = sc_lo c' \<Longrightarrow> sc_hi c = sc_hi c' \<Longrightarrow> wanted c = wanted c'"
  by (simp add: wanted_def fun_eq_iff)

text \<open>What a call of \<^verbatim>\<open>next\<close> does: the next wanted entry is delivered, or there is none.\<close>

definition scan_delivers :: "store \<Rightarrow> u64 \<Rightarrow> u32 list \<Rightarrow> btree_scanner \<Rightarrow> btree_entry list \<Rightarrow> (btree_entry option \<times> btree_scanner \<times> store) res option \<Rightarrow> bool" where
  "scan_delivers s0 fid ls c todo r \<longleftrightarrow>
     (\<exists>c' s'. r = Some (Inr (None, c', s')) \<and> filter (wanted c) todo = []) \<or>
     (\<exists>e post ls' c' s'. r = Some (Inr (Some e, c', s')) \<and> tree_scan s0 fid ls' c' s' post \<and>
        filter (wanted c) todo = e # filter (wanted c') post \<and> length post < length todo \<and> length ls' \<le> length ls)"

lemma beyond_all:
  assumes "sorted (e # todo)" "beyond_hi (sc_hi c) e"
  shows "filter (wanted c) (e # todo) = []"
proof -
  have "\<not> below_hi (sc_hi c) (be_key x)" if "x \<in> set (e # todo)" for x
  proof -
    have "be_key e \<le> be_key x" using that assms(1) entry_key_mono [of e x] by auto
    moreover have "\<not> below_hi (sc_hi c) (be_key e)" using assms(2) by (simp add: below_hi_beyond)
    ultimately show ?thesis by (auto simp: below_hi_def split: option.splits if_splits)
  qed
  then show ?thesis by (simp add: wanted_def filter_empty_conv)
qed

lemma next_slot:
  assumes "i < hd_slot_count p"
  shows "drop (unat i) (leaf_entries p) = leaf_entry p i # drop (unat (i + 1)) (leaf_entries p)"
proof -
  have l: "unat i < length (leaf_entries p)" using assms by (simp add: word_less_nat_alt)
  have "leaf_entries p ! unat i = leaf_entry p i" using l by (simp add: leaf_entries_def)
  then show ?thesis using Cons_nth_drop_Suc [OF l] slot_succ [OF assms] by simp
qed

lemma scan_delivers_end: "filter (wanted c) todo = [] \<Longrightarrow> scan_delivers s0 fid ls c todo (Some (Inr (None, c', s')))"
  by (simp add: scan_delivers_def)

lemma scan_delivers_entry:
  assumes "tree_scan s0 fid ls' c' s' post" "filter (wanted c) todo = e # filter (wanted c') post" "length post < length todo" "length ls' \<le> length ls"
  shows "scan_delivers s0 fid ls c todo (Some (Inr (Some e, c', s')))"
  unfolding scan_delivers_def using assms by (intro disjI2 exI conjI) auto

lemma scan_delivers_weaken:
  assumes "scan_delivers s0 fid ls c todo r" "filter (wanted c2) todo2 = filter (wanted c) todo" "length todo \<le> length todo2" "length ls \<le> length ls2"
  shows "scan_delivers s0 fid ls2 c2 todo2 r"
  using assms(1) [unfolded scan_delivers_def]
proof (elim disjE exE conjE)
  fix e post ls' c' s'
  assume r: "r = Some (Inr (Some e, c', s'))" "tree_scan s0 fid ls' c' s' post" "filter (wanted c) todo = e # filter (wanted c') post"
    "length post < length todo" "length ls' \<le> length ls"
  show ?thesis unfolding r(1) by (rule scan_delivers_entry [OF r(2)]) (use r(3-5) assms(2-4) in auto)
qed (simp add: assms(2) scan_delivers_end)

text \<open>Between leaves: the next one is loaded.\<close>

lemma load_step:
  assumes "tree_scan s0 fid (no # ls) c s todo" "0 < length (bp_frames s0)" "sc_cur c = None"
  shows "\<exists>c' s'. scan_next (Suc fuel) c s = scan_next fuel c' s' \<and> tree_scan s0 fid ls c' s' todo \<and> wanted c' = wanted c \<and> sc_cur c' \<noteq> None"
proof -
  define P where "P = file_pages s0 fid"
  note st = assms(1) [unfolded tree_scan_def Let_def, folded P_def]
  have l: "no \<noteq> 0" "page_valid (P no) MAGIC_BTREE_LEAF" "hd_type (P no) = page_type_code BTreeLeaf" "hd_next_page (P no) = hd (ls @ [0])" "leaf_chain P ls"
    "todo = leaf_entries (P no) @ leaf_run P ls" "resting False s0 s" "sc_next c = no" "sc_file c = fid"
    using st assms(3) by auto
  obtain k s1 where k: "pool_read (PageId fid no) MAGIC_BTREE_LEAF s = Inr (k, s1)" "holding False s0 (PageId fid no) k s1"
    using take_page [OF l(7), of "PageId fid no" MAGIC_BTREE_LEAF] l(2) assms(2) by (auto simp: P_def file_pages_def)
  let ?c = "c\<lparr>sc_cur := Some k, sc_page := PageId fid no, sc_next := hd (ls @ [0]), sc_slot := 0\<rparr>"
  have pg: "frame_data k s1 = P no" using held_bytes [OF k(2)] by (simp add: P_def file_pages_def)
  have "scan_next (Suc fuel) c s = scan_next fuel ?c s1" using st assms(3) l pg k(1) by (simp add: scan_load_def Let_def)
  moreover have "tree_scan s0 fid ls ?c s1 todo" unfolding tree_scan_def Let_def P_def [symmetric] using st l k(2) by auto
  moreover have "wanted ?c = wanted c" by (simp add: wanted_def fun_eq_iff)
  ultimately show ?thesis by (intro exI [of _ ?c] exI [of _ s1]) simp
qed

text \<open>On a leaf: it is left at its end, and an entry is skipped, delivered, or the first one beyond the range.\<close>

lemma leave_step:
  assumes "tree_scan s0 fid ls c s todo" "sc_cur c = Some k" "\<not> sc_slot c < hd_slot_count (frame_data k s)"
  shows "\<exists>c' s'. scan_next (Suc fuel) c s = scan_next fuel c' s' \<and> tree_scan s0 fid ls c' s' todo \<and> wanted c' = wanted c \<and> sc_cur c' = None"
proof -
  define P where "P = file_pages s0 fid"
  note st = assms(1) [unfolded tree_scan_def Let_def, folded P_def]
  obtain no where h: "holding False s0 (PageId fid no) k s" "todo = drop (unat (sc_slot c)) (leaf_entries (P no)) @ leaf_run P ls"
    using st assms(2) by auto
  have pg: "frame_data k s = P no" using held_bytes [OF h(1)] by (simp add: P_def file_pages_def)
  have t: "todo = leaf_run P ls" using h(2) assms(3) pg by (simp add: word_less_nat_alt)
  obtain s1 where s1: "pool_unpin k s = Inr s1" "resting False s0 s1" using leave_page [OF h(1)] by blast
  have "scan_next (Suc fuel) c s = scan_next fuel (c\<lparr>sc_cur := None\<rparr>) s1" using st assms(2,3) s1(1) by (simp add: Let_def)
  moreover have "tree_scan s0 fid ls (c\<lparr>sc_cur := None\<rparr>) s1 todo"
    unfolding tree_scan_def Let_def P_def [symmetric] using st s1(2) t by auto
  moreover have "wanted (c\<lparr>sc_cur := None\<rparr>) = wanted c" by (simp add: wanted_def fun_eq_iff)
  ultimately show ?thesis by (intro exI [of _ "c\<lparr>sc_cur := None\<rparr>"] exI [of _ s1]) simp
qed

lemma at_entry:
  assumes "tree_scan s0 fid ls c s todo" "sc_cur c = Some k" "sc_slot c < hd_slot_count (frame_data k s)"
  obtains e post where "e = leaf_entry (frame_data k s) (sc_slot c)" "todo = e # post" "sorted todo"
    "\<And>lo. (\<And>x. x \<in> set post \<Longrightarrow> case lo of None \<Rightarrow> True | Some b \<Rightarrow> sb_key b \<le> be_key x) \<Longrightarrow>
       tree_scan s0 fid ls (c\<lparr>sc_lo := lo, sc_slot := sc_slot c + 1\<rparr>) s post"
    "\<And>x. x \<in> set todo \<Longrightarrow> case sc_lo c of None \<Rightarrow> True | Some b \<Rightarrow> sb_key b \<le> be_key x"
proof -
  define P where "P = file_pages s0 fid"
  note st = assms(1) [unfolded tree_scan_def Let_def, folded P_def]
  obtain no where h: "holding False s0 (PageId fid no) k s" "todo = drop (unat (sc_slot c)) (leaf_entries (P no)) @ leaf_run P ls"
    using st assms(2) by auto
  have pg: "frame_data k s = P no" using held_bytes [OF h(1)] by (simp add: P_def file_pages_def)
  define e post where ep: "e = leaf_entry (P no) (sc_slot c)" "post = drop (unat (sc_slot c + 1)) (leaf_entries (P no)) @ leaf_run P ls"
  have t: "todo = e # post" using h(2) next_slot assms(3) by (simp add: ep pg)
  have srt: "sorted todo" "sorted post" using st unfolding t by auto
  have on: "tree_scan s0 fid ls (c\<lparr>sc_lo := lo, sc_slot := sc_slot c + 1\<rparr>) s post"
    if "\<And>x. x \<in> set post \<Longrightarrow> case lo of None \<Rightarrow> True | Some b \<Rightarrow> sb_key b \<le> be_key x" for lo
    unfolding tree_scan_def Let_def P_def [symmetric] using st assms(2) h(1) srt(2) that by (auto simp: ep)
  show thesis by (rule that [OF _ t srt(1) on]) (use st in \<open>auto simp: ep pg\<close>)
qed

lemma entry_step:
  assumes "tree_scan s0 fid ls c s todo" "sc_cur c = Some k" "sc_slot c < hd_slot_count (frame_data k s)"
  shows "scan_delivers s0 fid ls c todo (scan_next (Suc fuel) c s) \<or>
    (\<exists>c' post. scan_next (Suc fuel) c s = scan_next fuel c' s \<and> tree_scan s0 fid ls c' s post \<and>
       filter (wanted c) todo = filter (wanted c') post \<and> length todo = Suc (length post) \<and> sc_cur c' \<noteq> None)"
proof -
  obtain e post where ep: "e = leaf_entry (frame_data k s) (sc_slot c)" and t: "todo = e # post" and srt: "sorted todo"
    and on: "\<And>lo. (\<And>x. x \<in> set post \<Longrightarrow> case lo of None \<Rightarrow> True | Some b \<Rightarrow> sb_key b \<le> be_key x) \<Longrightarrow>
       tree_scan s0 fid ls (c\<lparr>sc_lo := lo, sc_slot := sc_slot c + 1\<rparr>) s post"
    and low: "\<And>x. x \<in> set todo \<Longrightarrow> case sc_lo c of None \<Rightarrow> True | Some b \<Rightarrow> sb_key b \<le> be_key x"
    using at_entry [OF assms] by metis
  have nd: "\<not> sc_done c" using assms(1) by (simp add: tree_scan_def Let_def)
  show ?thesis
  proof (cases "beyond_hi (sc_hi c) e")
    case True
    then have "scan_next (Suc fuel) c s = Some (Inr (None, c\<lparr>sc_done := True\<rparr>, s))" using nd assms(2,3) by (simp add: Let_def ep)
    then show ?thesis using scan_delivers_end [OF beyond_all [OF srt [unfolded t] True]] unfolding t by simp
  next
    case hi: False
    let ?n = "\<lambda>lo. c\<lparr>sc_lo := lo, sc_slot := sc_slot c + 1\<rparr>"
    have same: "c\<lparr>sc_slot := sc_slot c + 1\<rparr> = ?n (sc_lo c)" by simp
    have n: "scan_next (Suc fuel) c s = (case sc_lo c of
         Some b \<Rightarrow> if \<not> sb_inclusive b \<and> key_cmp (be_key e) (sb_key b) = 0 then scan_next fuel (?n (Some b)) s
           else Some (Inr (Some e, ?n (if sb_inclusive b then Some b else None), s))
       | None \<Rightarrow> Some (Inr (Some e, ?n None, s)))"
      using nd assms(2,3) hi by (cases "sc_lo c") (simp_all add: Let_def ep same)
    have below: "below_hi (sc_hi c) (be_key e)" using hi by (simp add: below_hi_beyond)
    show ?thesis
    proof (cases "sc_lo c")
      case None
      have "tree_scan s0 fid ls (?n None) s post" by (rule on) simp
      moreover have "filter (wanted c) todo = e # filter (wanted (?n None)) post"
      proof -
        have "wanted c e" using below None by (simp add: wanted_def above_lo_def)
        then show ?thesis using wanted_cong [of c "?n None"] None by (simp add: t)
      qed
      ultimately show ?thesis unfolding n using None scan_delivers_entry [of s0 fid ls "?n None" s post c todo e ls] by (simp add: t)
    next
      case (Some b)
      have ge: "sb_key b \<le> be_key e" "\<And>x. x \<in> set post \<Longrightarrow> sb_key b \<le> be_key x" "\<And>x. x \<in> set post \<Longrightarrow> be_key e \<le> be_key x"
        using low Some srt entry_key_mono by (auto simp: t)
      show ?thesis
      proof (cases "\<not> sb_inclusive b \<and> key_cmp (be_key e) (sb_key b) = 0")
        case True
        have "tree_scan s0 fid ls (?n (Some b)) s post" by (rule on) (use ge(2) in simp)
        moreover have "\<not> wanted c e" using True Some key_cmp_sign [of "be_key e" "sb_key b"] by (auto simp: wanted_def above_lo_def)
        then have "filter (wanted c) todo = filter (wanted (?n (Some b))) post" using Some wanted_cong [of c "?n (Some b)"] by (simp add: t)
        ultimately show ?thesis unfolding n using True Some assms(2)
          by (intro disjI2 exI [of _ "?n (Some b)"] exI [of _ post]) (simp add: t)
      next
        case False
        let ?c = "?n (if sb_inclusive b then Some b else None)"
        have lt: "\<not> sb_inclusive b \<Longrightarrow> sb_key b < be_key e" using False ge(1) key_cmp_sign [of "be_key e" "sb_key b"] by fastforce
        have "tree_scan s0 fid ls ?c s post" by (rule on) (use ge(2) in auto)
        moreover have "wanted c e" using below ge(1) lt Some by (simp add: wanted_def above_lo_def)
        moreover have "wanted c x = wanted ?c x" if "x \<in> set post" for x
          using lt ge(2) [OF that] ge(3) [OF that] Some by (auto simp: wanted_def above_lo_def)
        then have "filter (wanted c) post = filter (wanted ?c) post" by (auto intro: filter_cong)
        ultimately have "scan_delivers s0 fid ls c todo (Some (Inr (Some e, ?c, s)))" by (intro scan_delivers_entry [of s0 fid ls ?c s post]) (simp_all add: t)
        then show ?thesis unfolding n using False Some by auto
      qed
    qed
  qed
qed

lemma scan_next_step:
  "tree_scan s0 fid ls c s todo \<Longrightarrow> 0 < length (bp_frames s0) \<Longrightarrow>
   length todo + 2 * length ls + (if sc_cur c = None then 1 else 2) < fuel \<Longrightarrow> scan_delivers s0 fid ls c todo (scan_next fuel c s)"
proof (induction fuel arbitrary: c s ls todo)
  case (Suc fuel)
  show ?case
  proof (cases "sc_cur c")
    case None
    show ?thesis
    proof (cases ls)
      case Nil
      then have st: "sc_next c = 0" "todo = []" "\<not> sc_done c" using Suc.prems(1) None by (auto simp: tree_scan_def Let_def)
      obtain n where "fuel = Suc n" using Suc.prems(3) None by (cases fuel) auto
      then have "scan_next (Suc fuel) c s = Some (Inr (None, c\<lparr>sc_done := True\<rparr>, s))" using st None by (simp add: scan_load_def)
      then show ?thesis using st(2) by (simp add: scan_delivers_end)
    next
      case (Cons no ls')
      obtain c' s' where l: "scan_next (Suc fuel) c s = scan_next fuel c' s'" "tree_scan s0 fid ls' c' s' todo" "wanted c' = wanted c" "sc_cur c' \<noteq> None"
        using load_step [OF Suc.prems(1) [unfolded Cons] Suc.prems(2) None] by blast
      have "scan_delivers s0 fid ls' c' todo (scan_next fuel c' s')" by (rule Suc.IH [OF l(2) Suc.prems(2)]) (use Suc.prems(3) None l(4) Cons in simp)
      then show ?thesis unfolding l(1) by (rule scan_delivers_weaken) (simp_all add: l(3) Cons)
    qed
  next
    case (Some k)
    show ?thesis
    proof (cases "sc_slot c < hd_slot_count (frame_data k s)")
      case False
      obtain c' s' where l: "scan_next (Suc fuel) c s = scan_next fuel c' s'" "tree_scan s0 fid ls c' s' todo" "wanted c' = wanted c" "sc_cur c' = None"
        using leave_step [OF Suc.prems(1) Some False] by blast
      have "scan_delivers s0 fid ls c' todo (scan_next fuel c' s')" by (rule Suc.IH [OF l(2) Suc.prems(2)]) (use Suc.prems(3) Some l(4) in simp)
      then show ?thesis unfolding l(1) by (rule scan_delivers_weaken) (simp_all add: l(3))
    next
      case True
      from entry_step [OF Suc.prems(1) Some True, of fuel] show ?thesis
      proof (elim disjE exE conjE)
        fix c' post
        assume l: "scan_next (Suc fuel) c s = scan_next fuel c' s" "tree_scan s0 fid ls c' s post"
          "filter (wanted c) todo = filter (wanted c') post" "length todo = Suc (length post)" "sc_cur c' \<noteq> None"
        have "scan_delivers s0 fid ls c' post (scan_next fuel c' s)" by (rule Suc.IH [OF l(2) Suc.prems(2)]) (use Suc.prems(3) Some l(4,5) in simp)
        then show ?thesis unfolding l(1) by (rule scan_delivers_weaken) (simp_all add: l(3,4))
      qed
    qed
  qed
qed simp

lemma index_feed_step:
  "tree_scan s0 fid ls c s todo \<Longrightarrow> 0 < length (bp_frames s0) \<Longrightarrow> length todo + 2 * length ls + 3 < fuel \<Longrightarrow>
   index_feed fuel c s = Inr (filter (wanted c) todo, None)"
proof (induction fuel arbitrary: c s ls todo)
  case (Suc fuel)
  have "scan_delivers s0 fid ls c todo (scan_next fuel c s)" by (rule scan_next_step [OF Suc.prems(1,2)]) (use Suc.prems(3) in auto)
  then show ?case unfolding scan_delivers_def
  proof (elim disjE exE conjE)
    fix e post ls' c' s'
    assume n: "scan_next fuel c s = Some (Inr (Some e, c', s'))" "tree_scan s0 fid ls' c' s' post"
      "filter (wanted c) todo = e # filter (wanted c') post" "length post < length todo" "length ls' \<le> length ls"
    have "index_feed fuel c' s' = Inr (filter (wanted c') post, None)" by (rule Suc.IH [OF n(2) Suc.prems(2)]) (use n(4,5) Suc.prems(3) in simp)
    then show ?thesis using n(1,3) by simp
  qed simp
qed simp

section \<open>Opening a scan\<close>

text \<open>
  A well-formed index file: the open tree or else the file header names the root, below it is a tree of
  height \<^verbatim>\<open>h\<close> with the leaves \<^verbatim>\<open>ls\<close>, linked from left to right, with their entries in order.
\<close>

definition index_tree :: "engine \<Rightarrow> u64 \<Rightarrow> nat \<Rightarrow> u32 list \<Rightarrow> btree_entry list \<Rightarrow> bool" where
  "index_tree e fid h ls es \<longleftrightarrow> (let P = file_pages (en_store e) fid in
     \<exists>root. root \<noteq> 0 \<and> tree_at h P root ls \<and> leaf_chain P ls \<and> es = leaf_run P ls \<and> sorted es \<and>
       (case en_trees e fid of
          Some t \<Rightarrow> bt_file t = fid \<and> bt_root t = root
        | None \<Rightarrow> table_file_exists (bp_files (en_store e)) fid \<and> page_valid (P 0) MAGIC_FILE_HEADER \<and> file_root (P 0) = root))"

lemma probe_below: "e < scan_probe (Some b) \<Longrightarrow> be_key e < sb_key b"
  using key_cmp_sign [of "be_key e" "sb_key b"]
  by (auto simp: less_btree_entry_def entry_cmp_def scan_probe_def Let_def split: if_splits)

lemma probe_above: "scan_probe (Some b) \<le> e \<Longrightarrow> sb_key b \<le> be_key e"
  using entry_key_mono [of "scan_probe (Some b)" e] by (simp add: scan_probe_def)

lemma dropWhile_above: "sorted xs \<Longrightarrow> \<forall>y \<in> set (dropWhile (\<lambda>y. y < x) xs). x \<le> y" for x :: "'a::linorder"
  by (induction xs) auto

lemma scan_open_step:
  assumes "resting False s0 s" "0 < length (bp_frames s0)" "P = file_pages s0 fid" "bt_file t = fid"
    "tree_at h P (bt_root t) ls" "leaf_chain P ls" "sorted (leaf_run P ls)" "h < fuel"
  shows "\<exists>c s' ls' todo. scan_open fuel t lo hi s = Some (Inr (c, s')) \<and> tree_scan s0 fid ls' c s' todo \<and>
    filter (wanted c) todo = filter (\<lambda>e. above_lo lo (be_key e) \<and> below_hi hi (be_key e)) (leaf_run P ls) \<and>
    length ls' \<le> length ls \<and> length todo \<le> length (leaf_run P ls)"
proof -
  obtain ls1 leaf ls2 k s' where d: "descend fuel fid lo (bt_root t) s = Some (Inr (leaf, k, s'))" "holding False s0 (PageId fid leaf) k s'"
    "ls = ls1 @ leaf # ls2"
    and side: "if lo = None then ls1 = [] else (\<forall>e \<in> set (leaf_run P ls1). e < scan_probe lo) \<and> (\<forall>e \<in> set (leaf_run P ls2). scan_probe lo \<le> e)"
    using descend_step [OF assms(1,2) _ assms(3,5) _ assms(8), of "[]" lo] assms(6) by auto
  have l: "hd_type (P leaf) = page_type_code BTreeLeaf" "hd_next_page (P leaf) = hd (ls2 @ [0])" "leaf_chain P ls2"
    using leaf_chain_append [of P ls1 "leaf # ls2"] assms(6) d(3) by auto
  have pg: "frame_data k s' = P leaf" using held_bytes [OF d(2)] assms(3) by (simp add: file_pages_def)
  define slot where "slot = (if lo \<noteq> None then leaf_lower_bound (P leaf) (scan_probe lo) else 0)"
  define c where "c = \<lparr>sc_file = fid, sc_lo = lo, sc_hi = hi, sc_cur = Some k, sc_page = PageId fid leaf, sc_next = hd_next_page (P leaf),
    sc_slot = slot, sc_done = False\<rparr>"
  have o: "scan_open fuel t lo hi s = Some (Inr (c, s'))"
    using d(1) l(1) assms(4) pg by (simp add: scan_open_def Let_def c_def slot_def)
  let ?es = "leaf_entries (P leaf)"
  define todo where "todo = drop (unat slot) ?es @ leaf_run P ls2"
  have srt: "sorted ?es" "sorted todo" using assms(7) unfolding d(3) todo_def by (auto simp: sorted_append sorted_wrt_drop dest: in_set_dropD)
  have run: "leaf_run P ls = (leaf_run P ls1 @ take (unat slot) ?es) @ todo" unfolding d(3) todo_def by simp
  have cut: "if lo = None then slot = 0
    else (\<forall>e \<in> set (take (unat slot) ?es). e < scan_probe lo) \<and> (\<forall>e \<in> set (drop (unat slot) ?es). scan_probe lo \<le> e)"
  proof (cases "lo = None")
    case False
    have u: "unat slot = length (takeWhile (\<lambda>x. x < scan_probe lo) ?es)"
      using leaf_lower_bound_sorted [OF srt(1)] False by (simp add: slot_def)
    have "take (unat slot) ?es = takeWhile (\<lambda>x. x < scan_probe lo) ?es" "drop (unat slot) ?es = dropWhile (\<lambda>x. x < scan_probe lo) ?es"
      unfolding u by (simp_all add: takeWhile_eq_take [symmetric] dropWhile_eq_drop [symmetric])
    moreover note dropWhile_above [OF srt(1), of "scan_probe lo"]
    ultimately show ?thesis using False by (auto dest: set_takeWhileD)
  qed (simp add: slot_def)
  have before: "filter (\<lambda>e. above_lo lo (be_key e) \<and> below_hi hi (be_key e)) (leaf_run P ls1 @ take (unat slot) ?es) = []"
  proof (cases lo)
    case (Some b)
    then have "be_key e < sb_key b" if "e \<in> set (leaf_run P ls1 @ take (unat slot) ?es)" for e
      using that side cut probe_below [of e b] by auto
    then show ?thesis using Some by (fastforce simp: filter_empty_conv above_lo_def split: if_splits)
  qed (use side cut in simp)
  have "case lo of None \<Rightarrow> True | Some b \<Rightarrow> sb_key b \<le> be_key e" if "e \<in> set todo" for e
    using that side cut probe_above [of _ e] by (auto simp: todo_def split: option.splits)
  then have "tree_scan s0 fid ls2 c s' todo"
    unfolding tree_scan_def Let_def assms(3) [symmetric] using d(2) l srt(2) by (auto simp: c_def todo_def)
  moreover have "filter (wanted c) todo = filter (\<lambda>e. above_lo lo (be_key e) \<and> below_hi hi (be_key e)) (leaf_run P ls)"
  proof -
    have "wanted c = (\<lambda>e. above_lo lo (be_key e) \<and> below_hi hi (be_key e))" by (simp add: wanted_def c_def fun_eq_iff)
    then show ?thesis unfolding run filter_append before [unfolded filter_append] by simp
  qed
  moreover have "length ls2 \<le> length ls" "length todo \<le> length (leaf_run P ls)" unfolding run by (simp_all add: d(3))
  ultimately show ?thesis using o by blast
qed

lemma tree_for_step:
  assumes "index_tree e fid h ls es" "idle (en_store e)" "0 < length (bp_frames (en_store e))"
  shows "\<exists>t e'. tree_for fid e = Inr (t, e') \<and> resting False (en_store e) (en_store e') \<and> bt_file t = fid \<and>
    tree_at h (file_pages (en_store e) fid) (bt_root t) ls"
proof -
  let ?s = "en_store e"
  obtain root where r: "root \<noteq> 0" "tree_at h (file_pages ?s fid) root ls"
    and src: "case en_trees e fid of Some t \<Rightarrow> bt_file t = fid \<and> bt_root t = root
        | None \<Rightarrow> table_file_exists (bp_files ?s) fid \<and> page_valid (file_pages ?s fid 0) MAGIC_FILE_HEADER \<and> file_root (file_pages ?s fid 0) = root"
    using assms(1) by (auto simp: index_tree_def Let_def)
  show ?thesis
  proof (cases "en_trees e fid")
    case None
    then have h: "table_file_exists (bp_files ?s) fid" "page_valid (page_view ?s (PageId fid 0)) MAGIC_FILE_HEADER" "file_root (page_view ?s (PageId fid 0)) = root"
      using src by (simp_all add: file_pages_def)
    obtain k s1 where k: "pool_read (PageId fid 0) MAGIC_FILE_HEADER ?s = Inr (k, s1)" "holding False ?s (PageId fid 0) k s1"
      using take_page [OF resting_start [OF assms(2)] h(2) assms(3)] by blast
    obtain s2 where s2: "pool_unpin k s1 = Inr s2" "resting False ?s s2" using leave_page [OF k(2)] by blast
    show ?thesis using None h k(1) s2 r held_bytes [OF k(2)] by (auto simp: tree_for_def bt_open_def Let_def)
  qed (use src r resting_start [OF assms(2)] in \<open>simp add: tree_for_def\<close>)
qed

text \<open>A range scan of the executor.\<close>

lemma live_index:
  assumes "index_tree (ct_engine c) fid h ls es" "idle (en_store (ct_engine c))" "0 < length (bp_frames (en_store (ct_engine c)))"
    and "h + length es + 2 * length ls + 3 < fuel"
  shows "ac_index (live_access fuel c) fid lo hi = Inr (filter (\<lambda>e. above_lo lo (be_key e) \<and> below_hi hi (be_key e)) es, None)"
proof -
  let ?e = "ct_engine c" and ?P = "file_pages (en_store (ct_engine c)) fid"
  have i: "leaf_chain ?P ls" "es = leaf_run ?P ls" "sorted es" using assms(1) by (auto simp: index_tree_def Let_def)
  obtain t e' where t: "tree_for fid ?e = Inr (t, e')" "resting False (en_store ?e) (en_store e')" "bt_file t = fid" "tree_at h ?P (bt_root t) ls"
    using tree_for_step [OF assms(1-3)] by blast
  obtain sc s' ls' todo where sc: "scan_open fuel t lo hi (en_store e') = Some (Inr (sc, s'))" "tree_scan (en_store ?e) fid ls' sc s' todo"
    "filter (wanted sc) todo = filter (\<lambda>e. above_lo lo (be_key e) \<and> below_hi hi (be_key e)) es" "length ls' \<le> length ls" "length todo \<le> length es"
    using scan_open_step [OF t(2) assms(3) refl t(3,4) i(1) i(3) [unfolded i(2)], of fuel lo hi] assms(4) unfolding i(2) [symmetric] by auto
  have "index_feed fuel sc s' = Inr (filter (wanted sc) todo, None)"
    by (rule index_feed_step [OF sc(2) assms(3)]) (use sc(4,5) assms(4) in simp)
  then show ?thesis using t(1) sc(1,3) by (simp add: live_access_def index_scan_def loop_end_def)
qed

section \<open>Indexes of a table\<close>









section \<open>Sealed tree pages\<close>

text \<open>Linking a leaf to the next one and sealing it leaves its entries, sealing an inner page its separators and children.\<close>

lemma leaf_link:
  fixes p :: bytes and n :: u32
  assumes "leaf_ok p"
  defines "q \<equiv> seal (set_next_page n p)"
  shows "leaf_ok q" "leaf_entries q = leaf_entries p" "hd_next_page q = n" "page_valid q MAGIC_BTREE_LEAF" "length q = PAGE_SIZE"
proof -
  let ?n = "unat (hd_slot_count p)"
  have f: "length p = PAGE_SIZE" "hd_magic p = MAGIC_BTREE_LEAF" "24 + 19 * ?n \<le> PAGE_SIZE"
    "\<And>i. i < ?n \<Longrightarrow> PAGE_SIZE - 15 * ?n \<le> unat (rd16 (24 + 4 * i) p) \<and> unat (rd16 (24 + 4 * i) p) + 15 \<le> PAGE_SIZE"
    using assms(1) by (auto simp: leaf_ok_def Let_def)
  have l: "length (set_next_page n p) = PAGE_SIZE" using f(1) by (simp add: header_defs buf_simps page_consts)
  have h: "hd_slot_count q = hd_slot_count p" "hd_free_begin q = hd_free_begin p" "hd_free_end q = hd_free_end p" "hd_magic q = hd_magic p"
    unfolding q_def using l f(1) by (simp_all add: header_defs buf_simps page_consts)
  show "hd_next_page q = n" unfolding q_def using l f(1) by (simp add: header_defs buf_simps page_consts)
  show "page_valid q MAGIC_BTREE_LEAF" unfolding q_def seal_valid [OF l] using f(1,2) by (simp add: header_defs buf_simps page_consts)
  show lq: "length q = PAGE_SIZE" unfolding q_def by (rule length_seal [OF l])
  have g: "get_at off m q = get_at off m p" if "24 \<le> off" "off + m \<le> 4096" for off m
    unfolding q_def using that l f(1) by (subst get_seal) (simp_all add: header_defs buf_simps page_consts)
  have r: "rd16 (24 + 4 * i) q = rd16 (24 + 4 * i) p" if "i < ?n" for i
    using that f(3) by (simp add: rd16_def g PAGE_SIZE_def)
  have "hd_type q = hd_type p"
    unfolding q_def hd_type_def using f(1) l by (subst nth_seal) (simp_all add: set_next_page_def wr32_def nth_put_at page_consts)
  then show "leaf_ok q" using assms(1) lq r by (simp add: leaf_ok_def Let_def h)
  have c: "get_cell (unat (rd16 (24 + 4 * i) p)) q = get_cell (unat (rd16 (24 + 4 * i) p)) p" if "i < ?n" for i
    using f(3) f(4) [OF that] lq f(1) by (intro get_cell_cong g) (auto simp: PAGE_SIZE_def)
  show "leaf_entries q = leaf_entries p"
    by (intro nth_equalityI) (simp_all add: h leaf_entries_nth r c)
qed

lemma node_seal:
  assumes "node_ok p"
  shows "node_ok (seal p)" "node_seps (seal p) = node_seps p" "node_children (seal p) = node_children p"
    "page_valid (seal p) MAGIC_BTREE_LEAF" "hd_type (seal p) = page_type_code BTreeInternal"
proof -
  let ?n = "unat (hd_slot_count p)"
  have f: "length p = PAGE_SIZE" "hd_magic p = MAGIC_BTREE_LEAF" "28 + 19 * ?n \<le> PAGE_SIZE" "hd_type p = page_type_code BTreeInternal"
    using assms by (auto simp: node_ok_def Let_def)
  have h: "hd_slot_count (seal p) = hd_slot_count p" "hd_free_begin (seal p) = hd_free_begin p" "hd_free_end (seal p) = hd_free_end p"
    "hd_magic (seal p) = hd_magic p" "hd_type (seal p) = hd_type p"
    using f(1) nth_seal [OF f(1), of 4] by (simp_all add: header_defs hd_type_def buf_simps page_consts)
  show "page_valid (seal p) MAGIC_BTREE_LEAF" "hd_type (seal p) = page_type_code BTreeInternal" using f h by simp_all
  show "node_ok (seal p)" using assms f(1) by (simp add: node_ok_def Let_def h)
  have g: "get_at off m (seal p) = get_at off m p" if "24 \<le> off" "off + m \<le> 4096" for off m
    using that f(1) by (intro get_seal) (simp_all add: page_consts)
  have "get_cell (24 + 15 * i) (seal p) = get_cell (24 + 15 * i) p" if "i < ?n" for i
    using that f by (intro get_cell_cong g) (auto simp: PAGE_SIZE_def)
  then show "node_seps (seal p) = node_seps p" by (simp add: node_seps_def h)
  have "rd32 (4092 - 4 * j) (seal p) = rd32 (4092 - 4 * j) p" if "j < ?n + 1" for j
    using that f by (simp add: rd32_def g PAGE_SIZE_def)
  then show "node_children (seal p) = node_children p" by (simp add: node_children_def h del: upt_Suc)
qed

section \<open>An indexed table on disk\<close>

text \<open>Files given by their pages, and an engine just started on them.\<close>

definition paged_files :: "(u64 \<times> bytes list) list \<Rightarrow> files" where
  "paged_files fs = (\<lambda>fid. map_option concat (map_of fs fid))"

definition paged_engine :: "(u64 \<times> bytes list) list \<Rightarrow> engine" where
  "paged_engine fs = engine_init 2 (paged_files fs) []"

lemma drop_concat: "\<forall>p \<in> set ps. length p = n \<Longrightarrow> drop (k * n) (concat ps) = concat (drop k ps)"
proof (induction k arbitrary: ps)
  case (Suc k)
  then show ?case by (cases ps) simp_all
qed simp

lemma paged_page:
  assumes "map_of fs fid = Some ps" "\<forall>p \<in> set ps. length p = PAGE_SIZE"
  shows "disk_page (paged_files fs) (PageId fid no) = (if unat no < length ps then ps ! unat no else replicate PAGE_SIZE 0)"
proof -
  have "drop (page_off no) (file_bytes (paged_files fs) fid) = concat (drop (unat no) ps)"
    using drop_concat [OF assms(2), of "unat no"] assms(1) by (simp add: page_off_def file_bytes_def paged_files_def)
  moreover have "concat (drop (unat no) ps) = ps ! unat no @ concat (drop (Suc (unat no)) ps)" "length (ps ! unat no) = PAGE_SIZE" if "unat no < length ps"
    using assms(2) that arg_cong [where f = concat, OF Cons_nth_drop_Suc [OF that]] by simp_all
  ultimately show ?thesis by (simp add: disk_page_alt get_at_def Let_def)
qed

lemma paged_start:
  assumes "\<And>fid ps. (fid, ps) \<in> set fs \<Longrightarrow> length ps < 2 ^ 32 \<and> (\<forall>p \<in> set ps. length p = PAGE_SIZE)"
  shows "idle (en_store (paged_engine fs))" "length (bp_frames (en_store (paged_engine fs))) = 2"
    "page_view (en_store (paged_engine fs)) = disk_page (paged_files fs)" "bp_files (en_store (paged_engine fs)) = paged_files fs"
    "aligned (paged_files fs)" "pages_numbered (en_store (paged_engine fs))" "en_tails (paged_engine fs) fid = None" "en_trees (paged_engine fs) fid = None"
proof -
  show "idle (en_store (paged_engine fs))" "length (bp_frames (en_store (paged_engine fs))) = 2"
    "page_view (en_store (paged_engine fs)) = disk_page (paged_files fs)" "bp_files (en_store (paged_engine fs)) = paged_files fs"
    "pages_numbered (en_store (paged_engine fs))" "en_tails (paged_engine fs) fid = None" "en_trees (paged_engine fs) fid = None"
    using pool_init_ok [of 2 "paged_files fs" "wal_init []"]
    by (simp_all add: paged_engine_def engine_init_def idle_def)
      (simp_all add: pool_init_def page_view_def pin_of_def pages_numbered_def empty_frame_def INVALID_PAGE_def numeral_2_eq_2 fun_eq_iff)
  have m: "length (concat ps) = length ps * PAGE_SIZE" if "\<forall>p \<in> set ps. length p = PAGE_SIZE" for ps
    using that by (induction ps) auto
  show "aligned (paged_files fs)" unfolding aligned_def
  proof (rule allI)
    fix fid
    show "length (file_bytes (paged_files fs) fid) mod PAGE_SIZE = 0 \<and> length (file_bytes (paged_files fs) fid) < 2 ^ 32 * PAGE_SIZE"
    proof (cases "map_of fs fid")
      case (Some ps)
      then have "length ps < 2 ^ 32" "\<forall>p \<in> set ps. length p = PAGE_SIZE" using assms map_of_SomeD by fastforce+
      then show ?thesis using Some m [of ps] by (simp add: file_bytes_def paged_files_def PAGE_SIZE_def del: length_concat)
    qed (simp add: file_bytes_def paged_files_def PAGE_SIZE_def)
  qed
qed

lemma filled_page:
  "sum_list (map (\<lambda>r. length r + 4) rs) \<le> 4072 \<Longrightarrow> p = foldl appended (init_page MAGIC_HEAP Heap) rs \<Longrightarrow>
   heap_ok p \<and> page_slots p = map Some rs \<and> page_valid p MAGIC_HEAP \<and> hd_magic p = MAGIC_HEAP \<and> hd_next_page p = 0 \<and>
   unat (hd_free_begin p) = 24 + sum_list (map length rs) \<and> unat (hd_free_end p) + 4 * length rs = 4096"
proof (induction rs arbitrary: p rule: rev_induct)
  case Nil
  then show ?case by (simp add: init_page_heap init_page_fields)
next
  case (snoc r rs)
  define q where "q = foldl appended (init_page MAGIC_HEAP Heap) rs"
  have i: "heap_ok q" "page_slots q = map Some rs" "hd_magic q = MAGIC_HEAP" "hd_next_page q = 0"
    "unat (hd_free_begin q) = 24 + sum_list (map length rs)" "unat (hd_free_end q) + 4 * length rs = 4096"
    using snoc.IH [OF _ q_def] snoc.prems(1) by auto
  have s: "sum_list (map (\<lambda>r. length r + 4) rs) = sum_list (map length rs) + 4 * length rs" by (induction rs) auto
  have r: "unat (hd_free_begin q) + length r + 4 \<le> unat (hd_free_end q)" using snoc.prems(1) i(5,6) s by simp
  have e: "unat (hd_free_end q - 4) + 4 * length (rs @ [r]) = 4096" using append_unat(3) [OF i(1) r] i(6) r by simp
  have "p = appended q r" using snoc.prems(2) by (simp add: q_def)
  then show ?case using heap_append_slots [OF i(1) r] appended_header [OF i(1) r] append_unat(2) [OF i(1) r] i(2-5) e by simp
qed

definition demo_rows :: "dbvalue list list" where
  "demo_rows = [[int_val kInt 5], [int_val kInt 7], [typed_null kInt]]"

definition demo_record :: "dbvalue list \<Rightarrow> bytes" where
  "demo_record vals = (case encode_row (tm_cols (th_meta demo_table)) vals of Inr (Some r) \<Rightarrow> r | _ \<Rightarrow> [])"

definition indexed_disk :: "(u64 \<times> bytes list) list" where
  "indexed_disk =
     [(7, [seal (set_next_page 1 (init_page MAGIC_FILE_HEADER FileHeader)), foldl appended (init_page MAGIC_HEAP Heap) (map demo_record demo_rows)]),
      (8, [seal (set_file_root 3 (init_page MAGIC_FILE_HEADER FileHeader)), seal (set_next_page 2 (leaf_build demo_entries 0 2)),
           seal (set_next_page 0 (leaf_build demo_entries 2 4)), seal (node_build [demo_entries ! 2] [1, 2] 0 1)])]"

lemma demo_record_ok:
  "\<forall>vals \<in> set demo_rows. encode_row (tm_cols (th_meta demo_table)) vals = Inr (Some (demo_record vals)) \<and> length (demo_record vals) \<le> 100"
  by code_simp

lemma demo_heap_page:
  "heap_ok p \<and> page_slots p = map Some (map demo_record demo_rows) \<and> page_valid p MAGIC_HEAP \<and> hd_next_page p = 0 \<and> length p = PAGE_SIZE"
  if "p = foldl appended (init_page MAGIC_HEAP Heap) (map demo_record demo_rows)"
proof -
  have "sum_list (map (\<lambda>r. length r + 4) (map demo_record demo_rows)) \<le> 4072" using demo_record_ok by (simp add: demo_rows_def)
  from filled_page [OF this that] show ?thesis by (simp add: heap_ok_def)
qed

lemma demo_leaves:
  "leaf_ok (leaf_build demo_entries 0 2)" "leaf_entries (leaf_build demo_entries 0 2) = take 2 demo_entries"
  "leaf_ok (leaf_build demo_entries 2 4)" "leaf_entries (leaf_build demo_entries 2 4) = drop 2 demo_entries"
proof -
  have l: "length demo_entries = 4" by (simp add: demo_entries_def)
  have "leaf_ok (leaf_build demo_entries 0 (0 + 2)) \<and> leaf_entries (leaf_build demo_entries 0 (0 + 2)) = take 2 (drop 0 demo_entries)"
    "leaf_ok (leaf_build demo_entries 2 (2 + 2)) \<and> leaf_entries (leaf_build demo_entries 2 (2 + 2)) = take 2 (drop 2 demo_entries)"
    by (intro leaf_build_entries; simp add: l)+
  moreover have "0 + 2 = (2 :: nat)" "2 + 2 = (4 :: nat)" by simp_all
  ultimately show "leaf_ok (leaf_build demo_entries 0 2)" "leaf_entries (leaf_build demo_entries 0 2) = take 2 demo_entries"
    "leaf_ok (leaf_build demo_entries 2 4)" "leaf_entries (leaf_build demo_entries 2 4) = drop 2 demo_entries"
    by (simp_all only: drop_0) (simp_all add: l)
qed

lemma demo_node:
  "node_seps (seal (node_build [e] [1, 2] 0 1)) = [e]" "node_children (seal (node_build [e] [1, 2] 0 1)) = [1, 2]"
  "page_valid (seal (node_build [e] [1, 2] 0 1)) MAGIC_BTREE_LEAF" "hd_type (seal (node_build [e] [1, 2] 0 1)) = page_type_code BTreeInternal"
  "length (seal (node_build [e] [1, 2] 0 1)) = PAGE_SIZE"
proof -
  have n: "node_ok (node_build [e] [1, 2] 0 1)" "node_seps (node_build [e] [1, 2] 0 1) = [e]" "node_children (node_build [e] [1, 2] 0 1) = [1, 2]"
    using node_build_lists [of 0 1 "[e]" "[1, 2]"] by simp_all
  show "node_seps (seal (node_build [e] [1, 2] 0 1)) = [e]" "node_children (seal (node_build [e] [1, 2] 0 1)) = [1, 2]"
    "page_valid (seal (node_build [e] [1, 2] 0 1)) MAGIC_BTREE_LEAF" "hd_type (seal (node_build [e] [1, 2] 0 1)) = page_type_code BTreeInternal"
    "length (seal (node_build [e] [1, 2] 0 1)) = PAGE_SIZE"
    using node_seal [OF n(1)] n(2,3) by (simp_all add: node_ok_def Let_def)
qed

lemma root_header:
  "length (seal (set_file_root r (init_page MAGIC_FILE_HEADER FileHeader))) = PAGE_SIZE"
  "page_valid (seal (set_file_root r (init_page MAGIC_FILE_HEADER FileHeader))) MAGIC_FILE_HEADER"
  "file_root (seal (set_file_root r (init_page MAGIC_FILE_HEADER FileHeader))) = r"
proof -
  let ?p = "init_page MAGIC_FILE_HEADER FileHeader"
  have l: "length ?p = PAGE_SIZE" "length (set_file_root r ?p) = PAGE_SIZE" by (simp_all add: init_page_fields set_file_root_def buf_simps page_consts)
  show "length (seal (set_file_root r ?p)) = PAGE_SIZE" by (rule length_seal [OF l(2)])
  show "page_valid (seal (set_file_root r ?p)) MAGIC_FILE_HEADER"
    unfolding seal_valid [OF l(2)] using l(1) init_page_fields(2) [of MAGIC_FILE_HEADER FileHeader] by (simp add: set_file_root_def header_defs buf_simps page_consts)
  show "file_root (seal (set_file_root r ?p)) = r" using l by (simp add: file_root_def set_file_root_def buf_simps page_consts)
qed

lemma demo_lengths:
  "(fid, ps) \<in> set indexed_disk \<Longrightarrow> length ps < 2 ^ 32 \<and> (\<forall>p \<in> set ps. length p = PAGE_SIZE)"
proof -
  have "length (seal (set_next_page 1 (init_page MAGIC_FILE_HEADER FileHeader))) = PAGE_SIZE"
    by (rule header_link(1)) (simp_all add: init_page_fields)
  then show "(fid, ps) \<in> set indexed_disk \<Longrightarrow> length ps < 2 ^ 32 \<and> (\<forall>p \<in> set ps. length p = PAGE_SIZE)"
    using demo_heap_page [OF refl] leaf_link(5) [OF demo_leaves(1)] leaf_link(5) [OF demo_leaves(3)] demo_node(5) [of "demo_entries ! 2"] root_header(1)
    by (auto simp: indexed_disk_def)
qed

definition demo_indexed :: catalog where
  "demo_indexed = catalog_init (paged_engine indexed_disk) False"

lemma demo_page:
  "page_view (en_store (ct_engine demo_indexed)) (PageId fid no) =
     (case map_of indexed_disk fid of Some ps \<Rightarrow> if unat no < length ps then ps ! unat no else replicate PAGE_SIZE 0 | None \<Rightarrow> disk_page (paged_files indexed_disk) (PageId fid no))"
proof -
  have "ct_engine demo_indexed = paged_engine indexed_disk" by (simp add: demo_indexed_def catalog_init_def)
  moreover have "\<forall>p \<in> set ps. length p = PAGE_SIZE" if "map_of indexed_disk fid = Some ps" for ps
    using demo_lengths [OF map_of_SomeD [OF that]] by simp
  ultimately show ?thesis using paged_start(3) [OF demo_lengths] paged_page [of indexed_disk fid] by (auto split: option.splits)
qed

lemma demo_start_state:
  "idle (en_store (ct_engine demo_indexed))" "length (bp_frames (en_store (ct_engine demo_indexed))) = 2"
  "bp_files (en_store (ct_engine demo_indexed)) = paged_files indexed_disk" "aligned (paged_files indexed_disk)"
  "pages_numbered (en_store (ct_engine demo_indexed))" "en_tails (ct_engine demo_indexed) fid = None" "en_trees (ct_engine demo_indexed) fid = None"
  "disk_page (paged_files indexed_disk) = page_view (en_store (ct_engine demo_indexed))"
proof -
  have "ct_engine demo_indexed = paged_engine indexed_disk" by (simp add: demo_indexed_def catalog_init_def)
  then show "idle (en_store (ct_engine demo_indexed))" "length (bp_frames (en_store (ct_engine demo_indexed))) = 2"
    "bp_files (en_store (ct_engine demo_indexed)) = paged_files indexed_disk" "aligned (paged_files indexed_disk)"
    "pages_numbered (en_store (ct_engine demo_indexed))" "en_tails (ct_engine demo_indexed) fid = None" "en_trees (ct_engine demo_indexed) fid = None"
    "disk_page (paged_files indexed_disk) = page_view (en_store (ct_engine demo_indexed))"
    using paged_start [OF demo_lengths] by simp_all
qed



lemma demo_tree: "index_tree (ct_engine demo_indexed) 8 1 [1, 2] demo_entries"
proof -
  let ?P = "file_pages (en_store (ct_engine demo_indexed)) 8"
  have P: "?P 0 = seal (set_file_root 3 (init_page MAGIC_FILE_HEADER FileHeader))" "?P 1 = seal (set_next_page 2 (leaf_build demo_entries 0 2))"
    "?P 2 = seal (set_next_page 0 (leaf_build demo_entries 2 4))" "?P 3 = seal (node_build [demo_entries ! 2] [1, 2] 0 1)"
    by (simp_all add: file_pages_def demo_page indexed_disk_def)
  have l: "leaf_entries (?P 1) = take 2 demo_entries" "leaf_entries (?P 2) = drop 2 demo_entries"
    "leaf_ok (?P 1)" "leaf_ok (?P 2)" "hd_next_page (?P 1) = 2" "hd_next_page (?P 2) = 0"
    "page_valid (?P 1) MAGIC_BTREE_LEAF" "page_valid (?P 2) MAGIC_BTREE_LEAF"
    unfolding P using leaf_link [OF demo_leaves(1), of 2] leaf_link [OF demo_leaves(3), of 0] demo_leaves(2,4) by simp_all
  have run: "leaf_run ?P [1, 2] = demo_entries" "leaf_run ?P [1] = take 2 demo_entries" "leaf_run ?P [2] = drop 2 demo_entries" using l(1,2) by simp_all
  have ch: "leaf_chain ?P [1, 2]" using l by (simp add: leaf_ok_def Let_def)
  have srt: "sorted demo_entries" "\<forall>e \<in> set (take 2 demo_entries). e < demo_entries ! 2" "\<forall>e \<in> set (drop 2 demo_entries). demo_entries ! 2 \<le> e"
    by code_simp+
  have n: "node_seps (?P 3) = [demo_entries ! 2]" "node_children (?P 3) = [1, 2]" "page_valid (?P 3) MAGIC_BTREE_LEAF"
    "hd_type (?P 3) = page_type_code BTreeInternal"
    unfolding P(4) by (rule demo_node)+
  have "list_all2 (tree_at 0 ?P) (node_children (?P 3)) [[1], [2]]" by (simp add: n(2))
  moreover have "(\<forall>e \<in> set (leaf_run ?P (concat (take (Suc i) [[1], [2]]))). e < node_seps (?P 3) ! i)
      \<and> (\<forall>e \<in> set (leaf_run ?P (concat (drop (Suc i) [[1], [2]]))). node_seps (?P 3) ! i \<le> e)" if "i < length (node_seps (?P 3))" for i
  proof -
    have "i = 0" using that unfolding n(1) by simp
    then show ?thesis using run(2,3) srt(2,3) unfolding n(1) by simp
  qed
  moreover have "sorted (node_seps (?P 3))" unfolding n(1) by simp
  ultimately have "tree_at 1 ?P 3 [1, 2]" unfolding One_nat_def tree_at.simps using n(3,4)
    by (intro conjI exI [of _ "[[1], [2]]"]) (auto simp del: length_node_lists)
  then show ?thesis unfolding index_tree_def Let_def using ch run(1) srt(1) root_header P(1)
    by (intro exI [of _ 3]) (simp add: demo_start_state table_file_exists_def paged_files_def indexed_disk_def)
qed


section \<open>Properties\<close>

text \<open>
  C40. A range scan of an index delivers exactly its range. On a well-formed index file (the root page is the
  top of a tree of inner pages whose separators divide the entries, the leaves are linked from left to
  right and hold their entries in order) and whatever the page cache holds unpinned, the cursor that the
  executor opens for a pair of bounds finds its first leaf, delivers the entries within the bounds, each
  once and in key order, and ends without a failure. Each bound may be absent, inclusive or exclusive. A
  fuel above the number of its steps is enough.
\<close>

theorem index_scan_exact:
  assumes "index_tree (ct_engine c) fid h ls es" "idle (en_store (ct_engine c))" "0 < length (bp_frames (en_store (ct_engine c)))"
    and "h + length es + 2 * length ls + 3 < fuel"
  shows "ac_index (live_access fuel c) fid lo hi =
      Inr (filter (\<lambda>e. (case lo of None \<Rightarrow> True | Some b \<Rightarrow> if sb_inclusive b then sb_key b \<le> be_key e else sb_key b < be_key e) \<and>
                       (case hi of None \<Rightarrow> True | Some b \<Rightarrow> if sb_inclusive b then be_key e \<le> sb_key b else be_key e < sb_key b)) es, None)"
  using live_index [OF assms] unfolding above_lo_def below_hi_def .

theorem index_scan_exact_witness:
  "ac_index (live_access 20 demo_indexed) 8 (Some (ScanBound (IndexKey 0x8000000000000005 False) False)) (Some (ScanBound (IndexKey 0 True) False)) =
     Inr ([BTreeEntry (IndexKey 0x8000000000000006 False) 1 3, BTreeEntry (IndexKey 0x8000000000000007 False) 1 1], None)"
proof -
  let ?lo = "Some (ScanBound (IndexKey 0x8000000000000005 False) False)" and ?hi = "Some (ScanBound (IndexKey 0 True) False)"
  have "filter (\<lambda>e. (case ?lo of None \<Rightarrow> True | Some b \<Rightarrow> if sb_inclusive b then sb_key b \<le> be_key e else sb_key b < be_key e) \<and>
                   (case ?hi of None \<Rightarrow> True | Some b \<Rightarrow> if sb_inclusive b then be_key e \<le> sb_key b else be_key e < sb_key b)) demo_entries =
      [BTreeEntry (IndexKey 0x8000000000000006 False) 1 3, BTreeEntry (IndexKey 0x8000000000000007 False) 1 1]" by code_simp
  then show ?thesis
    using index_scan_exact [OF demo_tree, of 20 ?lo ?hi] by (simp add: demo_start_state demo_entries_def)
qed





end
