(* ===== verification/Spec2Isabelle.thy ===== *)
theory Spec2Isabelle
  imports Operators Tables Client IndexScans
begin

text \<open>
  A verification library for a small relational database (storage engine, expression evaluation,
  planner) written in C++ under src/src.

  The program. A server session parses a statement, the analyzer binds it to the catalog, the planner
  builds and optimises a plan, the executor runs it, and the storage engine keeps the rows: heap files
  of 4096-byte pages behind a page cache, B+ trees for the indexes, a write-ahead log, and crash
  recovery at start. Values travel through all layers as typed variants.

  Conventions. A failure is a value of \<^verbatim>\<open>failure\<close>: \<^verbatim>\<open>Raise c\<close> is a DB_RAISE with error code \<^verbatim>\<open>c\<close>,
  \<^verbatim>\<open>Critical\<close> a DB_CRITICAL (damaged data), \<^verbatim>\<open>Crash\<close> a DB_CRASH or an access to the wrong alternative
  of a variant; \<^verbatim>\<open>'a res\<close> is \<^verbatim>\<open>failure + 'a\<close> and a C++ function that returns false gives \<^verbatim>\<open>None\<close>.
  A failing operation has no resulting state in the model. Machine integers are words of their
  width, floating-point values are their IEEE-754 bit patterns with arithmetic by exact rounding, the
  256-bit integers behind numeric are \<^verbatim>\<open>int\<close> with the wrap-around written out. Pages are byte lists,
  files and the log are byte strings, a pointer into the page cache is a frame number.

  The theories, in the order of the components they model:

  \<^item> Prelude, Types, Ieee: results, byte buffers, little-endian fields (shared lemma collections
    \<^verbatim>\<open>buf_simps\<close>); src/storage/types.h (type attributes, columns, values, row locations);
    floating-point formats.
  \<^item> Codec: src/storage/codec.cpp. Encoding a row and decoding it gives the row back; both are total
    on coherent columns and decoding is type-correct.
  \<^item> Numtext, Cast: src/storage/cast.cpp, with the text conversions of the standard library it calls.
    Every cast of the table is type-correct; rounding to int64 and into a declared numeric is
    characterised exactly; texts of decimals and integers parse back.
  \<^item> Expr, ExprSafety: src/expr. Decimal arithmetic, division and comparison are exact; comparison
    computes a reference order on each domain (numbers by value, text by bytes, NULL last); evaluating a well-typed expression gives a value of its type or a
    user-visible error and never an internal one.
  \<^item> Fold: src/planner/const_fold.cpp and bool_simplify.cpp on expressions. Folding keeps the value on
    every row on which the expression evaluates, and the verdict of a WHERE predicate.
  \<^item> Plan, Operators: src/analyzer/bound.h, the rest of src/planner, and src/executor/operator.cpp. The
    ranges of an index scan are exactly the conjuncts they replace; every operator delivers the
    stream of its plan; sorting sorts by the reference order, descending where asked; pruning, folding and
    index selection keep the rows.
  \<^item> Page, Files: src/storage/page.cpp and file_manager.cpp. The table-driven CRC is the bit-serial
    one and detects every change of a byte; a heap page implements a list of records whose slot
    numbers are never reused; a directory of files is a page store (locale \<^verbatim>\<open>page_store\<close>).
  \<^item> Wal, Recovery: src/storage/wal.cpp and recovery.cpp. The log reader delivers exactly what was
    appended, up to a torn or damaged tail; recovery restores exactly the committed state from any
    disk that is right outside the bytes the log covers.
  \<^item> BufferPool, PoolSafety: src/storage/buffer_pool.cpp. The cache is transparent, eviction finds an
    unpinned frame whenever there is one, and marking a page dirty logs patches that redo and undo
    exactly its change.
  \<^item> BTree, TreeSafety: src/storage/btree.cpp. Index keys are ordered as the values are compared; leaf
    and inner pages implement sorted lists of entries and separators with children; splits lose
    nothing.
  \<^item> Engine, Durability, Tables: src/storage/engine.cpp. Runs of page operations inside a transaction
    (\<^verbatim>\<open>txn_run\<close>), histories of committed transactions, checkpoints and crashes (\<^verbatim>\<open>history\<close>): a crash is
    repaired to the committed pages, a commit is permanent, a rollback restores every page, a
    checkpoint leaves the committed pages on disk. On top of it heap files are lists of rows: an
    insertion appends one row and ends, a scan returns exactly the rows, a deletion removes one.
  \<^item> Proto: src/proto/proto.h. Frames arrive whole under any partial writes and segmentation, within
    the payload limit; every body decodes to what was encoded, except strings of 65536 bytes or more.
  \<^item> Ast, Session, Client: src/parser/ast.hh, src/server/session.cpp and the client. A client
    that goes away inside a transaction, or sends a text that does not parse or a forbidden statement,
    leaves the pages as they were at its begin; COMMIT keeps exactly the pages of the transaction; the client
    reads the bytes of every answer as one well-formed answer with the executor's rows, unless a string is
    too long for its 16-bit length; numeric cells keep their text.

  \<^item> Meta, Analyzer, Catalog: src/catalog/catalog_meta.cpp and src/analyzer. The rows of the metadata tables are read back
    as they were written; every statement the analysis accepts is well typed, so that a WHERE clause
    never fails internally; statements on system tables are refused.
  \<^item> CatalogOps, CatalogTables: the rest of src/catalog on the storage engine, statements that change metadata,
    rows and indexes, creation and opening. A scanner delivers exactly the rows of a file; CREATE SCHEMA is
    correct to the pages and back.
  \<^item> Explain, Executor: src/executor/explain.cpp and executor.cpp. EXPLAIN renders every accepted statement
    except a sort or filter of the empty result; values of accepted statements fit their columns; an INSERT is seen by the
    next SELECT.
  \<^item> IndexScans: the range scans of src/storage/btree.cpp on whole trees. What a well-formed index file is on
    its pages; a scan delivers exactly the entries in its range, in order, and ends; with such indexes that mirror
    the heap file the optimised plan of a filtered scan delivers the rows of the original.

  Interfaces. \<^verbatim>\<open>three_way\<close> (a comparison function) is interpreted for decimals, doubles, texts and
  booleans; \<^verbatim>\<open>slotted\<close> (a page of slots) for heap pages; \<^verbatim>\<open>page_store\<close> for the files of a directory;
  \<^verbatim>\<open>txn_db\<close> (what a session needs of a transactional database) for the engine behind the catalog;
  \<^verbatim>\<open>cursor\<close> (rows delivered one by one) for the operators of every plan; \<^verbatim>\<open>type_catalog\<close> and its extension
  \<^verbatim>\<open>table_catalog\<close> (what the analysis needs of the catalog) for the metadata of an initialised database.

  Bounds and fuel. Loops of the source that follow offsets or counters are recursive functions with
  termination proofs. Only the walks over page numbers (descent, insertion and scan of a B+ tree,
  chains of heap pages, and the operations of the catalog and the executor that make them) take fuel, since a damaged file can form a cycle; running out of fuel is the value \<^verbatim>\<open>None\<close>, distinct
  from every result. The loops of the operators are bounded by the rows their child can still
  deliver, which is shown to be enough.

  Sockets. A connection is a script of what recv and send answer (data of any size, interruptions,
  errors); after the script the peer has closed, respectively the kernel takes everything. The number
  of rounds of a session before a shutdown is an argument. The parser, the wording of messages and the
  executor are parameters of a session, since a session also sees the state a failed statement leaves. The theorems on
  transactions are about any page operations of the transaction (\<^verbatim>\<open>txn_run\<close>) and need nothing of the executor.

  Executing a statement. Analysis, planning and the reading phase of a statement look at one state of the
  catalog; the changing phase starts from it. Reading brings pages into the cache, which shows nothing
  new (a scan is proved to leave every page as it was), so those frames are not carried on.

  Not modelled: accepting connections, threads and the process life cycle, terminal input and table
  layout, configuration, the log file, the tools that initialise a directory and dump files (input and
  output only); the flex and bison grammar (generated code). The recursive mutex of the catalog is not part of the
  state: a transaction holds it from begin to end. Left for the index as a whole: that the insertions into a tree keep it
  well formed and mirroring its table; the theorem on the optimiser takes a state in which it is so
  (\<^verbatim>\<open>indexed_table\<close>), and the end-to-end theorem on INSERT is about tables without an index. The operators of a
  plan read their cursors to the end when they are opened, so the pins of several open cursors at once are not
  part of the state.
  The files are what the operating system would return, so fsync has no effect in the model and a
  crash is the death of the process.
\<close>

end
